(* ===== verification/Prelude.thy ===== *)
theory Prelude
  imports Main "HOL-Library.Word" "HOL-Library.AList" "HOL-Library.Multiset" "HOL-Library.Char_ord"
begin

text \<open>
  The vocabulary the components share: byte strings, the results of Go functions that can
  fail, the fixed-width integers with their wrap-around written out, and the lemma
  collections the component proofs draw on.

  A Go \<open>byte\<close> is a \<^typ>\<open>char\<close>, so a \<open>[]byte\<close> and a Go \<open>string\<close> are both a
  \<^typ>\<open>char list\<close> (conversions between them are the identity) and the keywords of the
  source are HOL string literals. An \<open>int64\<close> is an \<^typ>\<open>int\<close> on which every operation
  that can overflow is wrapped in \<open>i64\<close>; a \<open>uint64\<close> is a \<^typ>\<open>nat\<close> wrapped in \<open>u64\<close>.
\<close>

section \<open>Collections\<close>

named_theorems go_simps \<open>rewrite rules for the modelled Go primitives\<close>
named_theorems codec_simps \<open>decode-after-encode equations of the binary formats\<close>
named_theorems frame_simps \<open>what an operation leaves unchanged\<close>

section \<open>Bytes\<close>

type_synonym byte = char
type_synonym bytes = "char list"

abbreviation bval :: "byte \<Rightarrow> nat" where
  "bval c \<equiv> of_char c"

abbreviation mkbyte :: "nat \<Rightarrow> byte" where
  "mkbyte n \<equiv> char_of n"

abbreviation CR :: byte where "CR \<equiv> CHR 0x0D"
abbreviation LF :: byte where "LF \<equiv> CHR 0x0A"

lemma bval_mkbyte [simp]: "n < 256 \<Longrightarrow> bval (mkbyte n) = n"
  by simp

lemma bval_inject [simp]: "bval c = bval d \<longleftrightarrow> c = d"
  by (metis char_of_char)

section \<open>Results of fallible code\<close>

text \<open>
  The error values of the Go packages. An error whose identity the callers never test is an
  \<open>OtherErr\<close> carrying its message.
\<close>

datatype gerror =
    ErrClosed            \<comment> \<open>\<open>store.ErrClosed\<close>\<close>
  | ErrCorrupt           \<comment> \<open>\<open>wal.ErrCorrupt\<close> and \<open>snapshot.ErrCorrupt\<close>\<close>
  | ErrTornMidLog        \<comment> \<open>\<open>wal.ErrTornMidLog\<close>\<close>
  | ErrNotFound          \<comment> \<open>\<open>snapshot.ErrNotFound\<close>\<close>
  | ErrEOF               \<comment> \<open>\<open>io.EOF\<close>\<close>
  | ErrUnexpectedEOF     \<comment> \<open>\<open>io.ErrUnexpectedEOF\<close>\<close>
  | ErrBufferFull        \<comment> \<open>\<open>bufio.ErrBufferFull\<close>\<close>
  | ErrTimeout           \<comment> \<open>a read deadline that fired\<close>
  | ErrTooDeep           \<comment> \<open>\<open>resp.ErrTooDeep\<close>\<close>
  | ProtocolError bytes  \<comment> \<open>\<open>*resp.ProtocolError\<close>\<close>
  | ProtocolErrorQ bytes bytes
      \<comment> \<open>a \<open>*resp.ProtocolError\<close> whose message renders the argument; format and argument are kept\<close>
  | NotInteger           \<comment> \<open>\<open>command.errNotInteger\<close>\<close>
  | NotFloat             \<comment> \<open>\<open>command.errNotFloat\<close>\<close>
  | IncrOverflow         \<comment> \<open>\<open>command.errIncrOverflow\<close>\<close>
  | NaNOrInf             \<comment> \<open>\<open>command.errNaNOrInf\<close>\<close>
  | StringTooLong        \<comment> \<open>\<open>command.errStringTooLong\<close>\<close>
  | CtxCanceled          \<comment> \<open>\<open>context.Canceled\<close>\<close>
  | CtxDeadlineExceeded  \<comment> \<open>\<open>context.DeadlineExceeded\<close>\<close>
  | FmtErr bytes bytes    \<comment> \<open>an error whose message renders an argument; format and argument are kept\<close>
  | OtherErr bytes

text \<open>A call returns a value, returns a non-nil error, or panics.\<close>

datatype 'a res = Ret 'a | Fail gerror | Panic

fun bind_res :: "'a res \<Rightarrow> ('a \<Rightarrow> 'b res) \<Rightarrow> 'b res" where
  "bind_res (Ret x) f = f x"
| "bind_res (Fail e) f = Fail e"
| "bind_res Panic f = Panic"

lemma bind_res_eq_Ret: "bind_res r f = Ret y \<longleftrightarrow> (\<exists>x. r = Ret x \<and> f x = Ret y)"
  by (cases r) auto

text \<open>
  Code that updates a state and can fail: the state is threaded through, and a failure or a
  panic skips the continuation but keeps the state reached so far, as an early
  \<open>if err != nil { return err }\<close> does.
\<close>

type_synonym ('s, 'a) action = "'s \<Rightarrow> 'a res \<times> 's"

definition sbind :: "('s, 'a) action \<Rightarrow> ('a \<Rightarrow> ('s, 'b) action) \<Rightarrow> ('s, 'b) action" where
  "sbind m f s =
     (case m s of
        (Ret x, s') \<Rightarrow> f x s'
      | (Fail e, s') \<Rightarrow> (Fail e, s')
      | (Panic, s') \<Rightarrow> (Panic, s'))"

lemma sbind_simps [simp]:
  "m s = (Ret x, s') \<Longrightarrow> sbind m f s = f x s'"
  "m s = (Fail e, s') \<Longrightarrow> sbind m f s = (Fail e, s')"
  "m s = (Panic, s') \<Longrightarrow> sbind m f s = (Panic, s')"
  by (simp_all add: sbind_def)

lemma sbind_eq_Ret:
  "sbind m f s = (Ret y, t) \<longleftrightarrow> (\<exists>x s'. m s = (Ret x, s') \<and> f x s' = (Ret y, t))"
  by (auto simp: sbind_def split: prod.splits res.splits)

section \<open>Fixed-width integers\<close>

abbreviation MaxInt64 :: int where "MaxInt64 \<equiv> 9223372036854775807"
abbreviation MinInt64 :: int where "MinInt64 \<equiv> -9223372036854775808"
abbreviation MaxUint64 :: nat where "MaxUint64 \<equiv> 18446744073709551615"

definition is_i64 :: "int \<Rightarrow> bool" where
  "is_i64 x \<longleftrightarrow> MinInt64 \<le> x \<and> x \<le> MaxInt64"

definition is_u64 :: "nat \<Rightarrow> bool" where
  "is_u64 n \<longleftrightarrow> n \<le> MaxUint64"

text \<open>Conversion to \<open>int64\<close> and \<open>uint64\<close>: the value modulo $2^{64}$ that fits.\<close>

definition i64 :: "int \<Rightarrow> int" where
  "i64 x = (x + 9223372036854775808) mod 18446744073709551616 - 9223372036854775808"

definition u64 :: "nat \<Rightarrow> nat" where
  "u64 n = n mod 18446744073709551616"

lemma i64_id [simp]: "is_i64 x \<Longrightarrow> i64 x = x"
  by (simp add: i64_def is_i64_def)

lemma u64_id [simp]: "is_u64 n \<Longrightarrow> u64 n = n"
  by (simp add: u64_def is_u64_def)

lemma is_i64_i64 [simp]: "is_i64 (i64 x)"
proof -
  have "0 \<le> (x + 9223372036854775808) mod 18446744073709551616"
    and "(x + 9223372036854775808) mod 18446744073709551616 < 18446744073709551616"
    by simp_all
  then show ?thesis
    unfolding is_i64_def i64_def by linarith
qed

lemma is_u64_u64 [simp]: "is_u64 (u64 n)"
proof -
  have "n mod 18446744073709551616 < 18446744073709551616" by simp
  then show ?thesis unfolding is_u64_def u64_def by linarith
qed

lemma is_i64_0 [simp]: "is_i64 0"
  by (simp add: is_i64_def)

lemma is_u64_0 [simp]: "is_u64 0"
  by (simp add: is_u64_def)

section \<open>Lists\<close>

text \<open>\<open>s[i:j]\<close> with its bounds check, for a slice whose capacity is its length.\<close>

definition slice :: "'a list \<Rightarrow> int \<Rightarrow> int \<Rightarrow> 'a list res" where
  "slice s i j =
     (if 0 \<le> i \<and> i \<le> j \<and> j \<le> int (length s)
      then Ret (take (nat j - nat i) (drop (nat i) s)) else Panic)"

text \<open>\<open>copy(dst[at:], src)\<close> into a buffer of fixed length: what fits is overwritten.\<close>

definition overlay :: "'a list \<Rightarrow> nat \<Rightarrow> 'a list \<Rightarrow> 'a list" where
  "overlay dst at src = take at dst @ take (length dst - at) src @ drop (at + length src) dst"

lemma length_overlay [simp]: "at \<le> length dst \<Longrightarrow> length (overlay dst at src) = length dst"
  by (simp add: overlay_def)

lemma overlay_nth:
  assumes "at \<le> length dst" and "i < length dst"
  shows "overlay dst at src ! i =
    (if at \<le> i \<and> i < at + length src then src ! (i - at) else dst ! i)"
  using assms by (auto simp: overlay_def nth_append min_def)

lemma take_length_append [simp]: "n = length xs \<Longrightarrow> take n (xs @ ys) = xs"
  by simp

lemma drop_length_append [simp]: "n = length xs \<Longrightarrow> drop n (xs @ ys) = ys"
  by simp

lemma fold_invariant_list:
  assumes "P s" and "\<And>x s. x \<in> set xs \<Longrightarrow> P s \<Longrightarrow> P (f x s)"
  shows "P (fold f xs s)"
  using assms by (induction xs arbitrary: s) auto

lemma map_of_filter_fst:
  "map_of (filter (\<lambda>kv. P (fst kv)) xs) k = (if P k then map_of xs k else None)"
  by (induction xs) auto

lemma map_of_filter_distinct:
  "distinct (map fst xs) \<Longrightarrow>
   map_of (filter (\<lambda>kv. P (fst kv) (snd kv)) xs) k =
     (case map_of xs k of None \<Rightarrow> None | Some v \<Rightarrow> if P k v then Some v else None)"
  by (induction xs) (auto split: option.splits simp: map_of_eq_None_iff image_iff)

end
