(* ===== verification/GoStd.thy ===== *)
theory GoStd
  imports Prelude
begin

text \<open>
  The parts of Go's standard library the server relies on, as executable definitions:
  \<open>strconv\<close> (decimal integers), \<open>strings.ToLower\<close>, \<open>encoding/binary\<close> (little endian words
  and varints) and \<open>hash/crc32\<close> with the Castagnoli table. The lemmas are the round trips and
  the composition law that the protocol and log theories use.
\<close>

unbundle bit_operations_syntax

section \<open>strings\<close>

text \<open>
  \<open>strings.ToLower\<close> on ASCII letters; other bytes are kept. (For a string with non-ASCII
  letters Go also folds those; the keywords compared with the result are all ASCII.)
\<close>

definition ascii_lower :: "byte \<Rightarrow> byte" where
  "ascii_lower b = (if CHR ''A'' \<le> b \<and> b \<le> CHR ''Z'' then mkbyte (bval b + 32) else b)"

definition ToLower :: "bytes \<Rightarrow> bytes" where
  "ToLower s = map ascii_lower s"

lemma ascii_lower_bval:
  "bval (ascii_lower b) = (if 65 \<le> bval b \<and> bval b \<le> 90 then bval b + 32 else bval b)"
  by (auto simp: ascii_lower_def less_eq_char_def)

lemma ascii_lower_idem [simp]: "ascii_lower (ascii_lower b) = ascii_lower b"
proof -
  have "bval (ascii_lower (ascii_lower b)) = bval (ascii_lower b)"
    by (auto simp: ascii_lower_bval)
  then show ?thesis by (simp only: bval_inject)
qed

lemma ToLower_idem [simp]: "ToLower (ToLower s) = ToLower s"
  by (simp add: ToLower_def)

lemma length_ToLower [simp]: "length (ToLower s) = length s"
  by (simp add: ToLower_def)

section \<open>strconv: decimal integers\<close>

definition isdigit :: "byte \<Rightarrow> bool" where
  "isdigit c \<longleftrightarrow> 48 \<le> bval c \<and> bval c \<le> 57"

definition digit_val :: "byte \<Rightarrow> nat" where
  "digit_val c = bval c - 48"

definition digit_char :: "nat \<Rightarrow> byte" where
  "digit_char d = mkbyte (48 + d)"

lemma digit_char_props [simp]:
  assumes "d < 10"
  shows "isdigit (digit_char d)" and "digit_val (digit_char d) = d"
  using assms by (simp_all add: isdigit_def digit_val_def digit_char_def)

lemma digit_val_less: "isdigit c \<Longrightarrow> digit_val c < 10"
  by (auto simp: isdigit_def digit_val_def)

text \<open>The value of a digit string, most significant digit first.\<close>

definition dec_val :: "bytes \<Rightarrow> nat" where
  "dec_val s = foldl (\<lambda>a c. a * 10 + digit_val c) 0 s"

fun dec_digits :: "nat \<Rightarrow> bytes" where
  "dec_digits n = (if n < 10 then [digit_char n] else dec_digits (n div 10) @ [digit_char (n mod 10)])"

declare dec_digits.simps [simp del]

definition FormatUint :: "nat \<Rightarrow> bytes" where
  "FormatUint n = dec_digits n"

definition FormatInt :: "int \<Rightarrow> bytes" where
  "FormatInt n = (if n < 0 then CHR ''-'' # dec_digits (nat (- n)) else dec_digits (nat n))"

definition all_digits :: "bytes \<Rightarrow> bool" where
  "all_digits s \<longleftrightarrow> s \<noteq> [] \<and> list_all isdigit s"

text \<open>\<open>strconv.ParseUint(s, 10, 64)\<close> and \<open>strconv.ParseInt(s, 10, 64)\<close>; \<open>strconv.Atoi\<close> is the latter.\<close>

definition ParseUint :: "bytes \<Rightarrow> nat option" where
  "ParseUint s = (if all_digits s \<and> dec_val s \<le> MaxUint64 then Some (dec_val s) else None)"

definition ParseInt :: "bytes \<Rightarrow> int option" where
  "ParseInt s =
     (let neg = (case s of [] \<Rightarrow> False | c # _ \<Rightarrow> c = CHR ''-'');
          t = (case s of [] \<Rightarrow> [] | c # r \<Rightarrow> if c = CHR ''-'' \<or> c = CHR ''+'' then r else s)
      in if \<not> all_digits t then None
         else if neg then (if dec_val t \<le> 9223372036854775808 then Some (- int (dec_val t)) else None)
         else if dec_val t < 9223372036854775808 then Some (int (dec_val t)) else None)"

lemma dec_val_snoc: "dec_val (s @ [c]) = dec_val s * 10 + digit_val c"
  by (simp add: dec_val_def)

lemma dec_digits_correct: "dec_val (dec_digits n) = n \<and> list_all isdigit (dec_digits n) \<and> dec_digits n \<noteq> []"
proof (induction n rule: dec_digits.induct)
  case (1 n)
  show ?case
  proof (cases "n < 10")
    case True
    then show ?thesis by (subst (1 2 3) dec_digits.simps) (simp add: dec_val_def)
  next
    case False
    with "1" have IH: "dec_val (dec_digits (n div 10)) = n div 10" "list_all isdigit (dec_digits (n div 10))"
      by auto
    from False IH show ?thesis
      by (subst (1 2 3) dec_digits.simps) (simp add: dec_val_snoc)
  qed
qed

lemma dec_digits_props [simp]:
  "dec_val (dec_digits n) = n" "all_digits (dec_digits n)" "dec_digits n \<noteq> []"
  using dec_digits_correct [of n] by (auto simp: all_digits_def)

lemma all_digits_Cons_not_sign:
  "all_digits (c # r) \<Longrightarrow> c \<noteq> CHR ''-'' \<and> c \<noteq> CHR ''+''"
  by (auto simp: all_digits_def isdigit_def)

lemma isdigit_not_special:
  "isdigit c \<Longrightarrow> c \<noteq> CR \<and> c \<noteq> LF \<and> c \<noteq> CHR ''-'' \<and> c \<noteq> CHR ''+''"
  by (auto simp: isdigit_def)

lemma ParseUint_FormatUint [simp]: "is_u64 n \<Longrightarrow> ParseUint (FormatUint n) = Some n"
  by (simp add: ParseUint_def FormatUint_def is_u64_def)

lemma ParseInt_FormatInt [simp]:
  assumes "is_i64 n"
  shows "ParseInt (FormatInt n) = Some n"
proof (cases "n < 0")
  case True
  with assms show ?thesis
    by (simp add: FormatInt_def ParseInt_def is_i64_def nat_le_iff)
next
  case False
  obtain c r where cr: "dec_digits (nat n) = c # r"
    by (meson dec_digits_props(3) neq_Nil_conv)
  have "all_digits (c # r)" "dec_val (c # r) = nat n"
    using dec_digits_props(1,2) [of "nat n"] by (simp_all add: cr)
  with False assms cr show ?thesis
    using all_digits_Cons_not_sign [of c r]
    by (simp add: FormatInt_def ParseInt_def is_i64_def nat_less_iff)
qed

lemma FormatInt_ne_Nil [simp]: "FormatInt n \<noteq> []"
  by (simp add: FormatInt_def)

lemma FormatInt_chars: "c \<in> set (FormatInt n) \<Longrightarrow> isdigit c \<or> c = CHR ''-''"
  using dec_digits_correct [of "nat n"] dec_digits_correct [of "nat (- n)"]
  by (auto simp: FormatInt_def list_all_iff split: if_splits)

lemma FormatInt_no_crlf [simp]: "CR \<notin> set (FormatInt n)" "LF \<notin> set (FormatInt n)"
  using FormatInt_chars [of CR n] FormatInt_chars [of LF n] by (auto simp: isdigit_def)

text \<open>The number of digits, for the bounds on line lengths.\<close>

lemma length_dec_digits: "n < 10 ^ k \<Longrightarrow> 0 < k \<Longrightarrow> length (dec_digits n) \<le> k"
proof (induction n arbitrary: k rule: dec_digits.induct)
  case (1 n)
  show ?case
  proof (cases "n < 10")
    case True
    with "1.prems" show ?thesis by (subst dec_digits.simps) simp
  next
    case False
    have "n \<ge> 10" using False by simp
    obtain j where j: "k = Suc j" using "1.prems" by (cases k) auto
    have "n < 10 * 10 ^ j" using "1.prems" j by simp
    then have lt: "n div 10 < 10 ^ j" by (simp add: less_mult_imp_div_less mult.commute)
    moreover have "0 < j"
    proof (rule ccontr)
      assume "\<not> 0 < j"
      then show False using lt \<open>n \<ge> 10\<close> by simp
    qed
    ultimately have "length (dec_digits (n div 10)) \<le> j" using "1.IH" False by blast
    with False j show ?thesis by (subst dec_digits.simps) simp
  qed
qed

lemma length_FormatInt_i64: "is_i64 n \<Longrightarrow> length (FormatInt n) \<le> 20"
proof -
  assume n: "is_i64 n"
  then have "nat n < 10 ^ 19" and "nat (- n) < 10 ^ 19"
    by (auto simp: is_i64_def nat_less_iff)
  then have "length (dec_digits (nat n)) \<le> 19" "length (dec_digits (nat (- n))) \<le> 19"
    by (auto intro: length_dec_digits)
  then show ?thesis by (simp add: FormatInt_def)
qed

section \<open>encoding/binary\<close>

subsection \<open>Little endian words\<close>

fun le_bytes :: "nat \<Rightarrow> nat \<Rightarrow> bytes" where
  "le_bytes 0 v = []"
| "le_bytes (Suc n) v = mkbyte (v mod 256) # le_bytes n (v div 256)"

fun le_val :: "bytes \<Rightarrow> nat" where
  "le_val [] = 0"
| "le_val (b # bs) = bval b + 256 * le_val bs"

lemma length_le_bytes [simp]: "length (le_bytes n v) = n"
  by (induction n arbitrary: v) auto

lemma le_val_le_bytes [codec_simps]: "le_val (le_bytes n v) = v mod 256 ^ n"
  by (induction n arbitrary: v) (simp_all add: mod_mult2_eq)

lemma le_val_less: "le_val bs < 256 ^ length bs"
proof (induction bs)
  case (Cons b bs)
  have digit: "a < 256 \<Longrightarrow> x + 1 \<le> y \<Longrightarrow> a + 256 * x < 256 * y" for a x y :: nat
    by linarith
  have "bval b + 256 * le_val bs < 256 * (256 ^ length bs)"
    by (rule digit) (use Cons in simp_all)
  then show ?case by simp
qed simp

definition PutUint32 :: "nat \<Rightarrow> bytes" where
  "PutUint32 v = le_bytes 4 v"

definition PutUint64 :: "nat \<Rightarrow> bytes" where
  "PutUint64 v = le_bytes 8 v"

lemma length_PutUint [simp]: "length (PutUint32 v) = 4" "length (PutUint64 v) = 8"
  by (simp_all add: PutUint32_def PutUint64_def)

lemma le_val_PutUint32 [codec_simps]: "le_val (PutUint32 v) = v mod 4294967296"
  by (simp add: PutUint32_def le_val_le_bytes)

lemma le_val_PutUint64 [codec_simps]: "le_val (PutUint64 v) = u64 v"
  by (simp add: PutUint64_def le_val_le_bytes u64_def)

subsection \<open>Varints\<close>

fun AppendUvarint :: "nat \<Rightarrow> bytes" where
  "AppendUvarint x = (if x < 128 then [mkbyte x] else mkbyte (x mod 128 + 128) # AppendUvarint (x div 128))"

declare AppendUvarint.simps [simp del]

text \<open>
  The loop of \<open>binary.Uvarint\<close>: \<open>i\<close> is the index and \<open>s\<close> the shift. The bits of \<open>x\<close> lie
  below \<open>s\<close>, so the \<open>|\<close> of the source is an addition here, and the guard on the tenth byte
  keeps the sum below $2^{64}$. \<open>None\<close> stands for a non-positive count.
\<close>

fun uvarint_loop :: "nat \<Rightarrow> nat \<Rightarrow> nat \<Rightarrow> bytes \<Rightarrow> (nat \<times> nat) option" where
  "uvarint_loop i s x [] = None"
| "uvarint_loop i s x (b # bs) =
     (if i = 10 then None
      else if bval b < 128 then
        (if i = 9 \<and> bval b > 1 then None else Some (x + bval b * 2 ^ s, i + 1))
      else uvarint_loop (i + 1) (s + 7) (x + (bval b mod 128) * 2 ^ s) bs)"

definition Uvarint :: "bytes \<Rightarrow> (nat \<times> nat) option" where
  "Uvarint bs = uvarint_loop 0 0 0 bs"

lemma uvarint_loop_Append:
  "v < 2 ^ (64 - 7 * i) \<Longrightarrow> i \<le> 9 \<Longrightarrow>
   uvarint_loop i s x (AppendUvarint v @ rest) = Some (x + v * 2 ^ s, i + length (AppendUvarint v))"
proof (induction v arbitrary: i s x rule: AppendUvarint.induct)
  case (1 v)
  show ?case
  proof (cases "v < 128")
    case True
    have "i = 9 \<Longrightarrow> v < 2" using "1.prems" by simp
    then have "\<not> (i = 9 \<and> v > 1)" by linarith
    with True "1.prems" show ?thesis
      by (subst (1 2) AppendUvarint.simps) auto
  next
    case False
    have "i < 9"
    proof (rule ccontr)
      assume "\<not> i < 9"
      with "1.prems"(2) have "i = 9" by simp
      with "1.prems"(1) False show False by simp
    qed
    then have e: "64 - 7 * i = 7 + (64 - 7 * (i + 1))" by simp
    have "v < 2 ^ (64 - 7 * i)" by (rule "1.prems"(1))
    also have "(2::nat) ^ (64 - 7 * i) = 128 * 2 ^ (64 - 7 * (i + 1))"
      by (subst e) (simp add: power_add)
    finally have small: "v div 128 < 2 ^ (64 - 7 * (i + 1))"
      by (simp add: less_mult_imp_div_less mult.commute)
    have IH: "uvarint_loop (i + 1) (s + 7) (x + v mod 128 * 2 ^ s) (AppendUvarint (v div 128) @ rest) =
       Some (x + v mod 128 * 2 ^ s + v div 128 * 2 ^ (s + 7), i + 1 + length (AppendUvarint (v div 128)))"
      using "1.IH" False small \<open>i < 9\<close> by simp
    have v: "v mod 128 * 2 ^ s + v div 128 * 2 ^ (s + 7) = v * 2 ^ s"
    proof -
      have split: "m * q + d * (q * 128) = (m + d * 128) * q" for m d q :: nat
        by (simp add: distrib_right mult.assoc mult.left_commute)
      have p7: "(2::nat) ^ 7 = 128" by simp
      show ?thesis
        by (simp only: power_add split mod_div_mult_eq p7)
    qed
    have b: "bval (mkbyte (v mod 128 + 128)) = v mod 128 + 128"
      by (rule bval_mkbyte) (simp add: add.commute less_diff_conv [symmetric])
    have IH': "uvarint_loop (i + 1) (s + 7) (x + v mod 128 * 2 ^ s) (AppendUvarint (v div 128) @ rest) =
       Some (x + v * 2 ^ s, i + 1 + length (AppendUvarint (v div 128)))"
      by (simp only: IH add.assoc v)
    show ?thesis
      using False \<open>i < 9\<close> IH'
      by (subst (1 2) AppendUvarint.simps) (simp add: b)
  qed
qed

lemma Uvarint_AppendUvarint [codec_simps]:
  "is_u64 v \<Longrightarrow> Uvarint (AppendUvarint v @ rest) = Some (v, length (AppendUvarint v))"
  using uvarint_loop_Append [of v 0 0 0 rest] by (simp add: Uvarint_def is_u64_def)

lemma length_AppendUvarint_pos [simp]: "0 < length (AppendUvarint v)" "AppendUvarint v \<noteq> []"
  by (subst AppendUvarint.simps, simp)+

text \<open>\<open>binary.AppendVarint\<close> and \<open>binary.Varint\<close>: zig-zag, then as above.\<close>

definition zigzag :: "int \<Rightarrow> nat" where
  "zigzag x = (if x < 0 then nat (- 2 * x - 1) else nat (2 * x))"

definition unzigzag :: "nat \<Rightarrow> int" where
  "unzigzag u = (if odd u then - int (u div 2) - 1 else int (u div 2))"

definition AppendVarint :: "int \<Rightarrow> bytes" where
  "AppendVarint x = AppendUvarint (zigzag x)"

definition Varint :: "bytes \<Rightarrow> (int \<times> nat) option" where
  "Varint bs = (case Uvarint bs of None \<Rightarrow> None | Some (u, n) \<Rightarrow> Some (unzigzag u, n))"

lemma unzigzag_zigzag [simp]: "unzigzag (zigzag x) = x"
proof (cases "x < 0")
  case True
  then have "odd (nat (- 2 * x - 1))" by (simp add: even_nat_iff)
  moreover have "int (nat (- 2 * x - 1) div 2) = (- 2 * x - 1) div 2"
    using True by (simp add: zdiv_int)
  moreover have "(- 2 * x - 1) div 2 = - x - 1" by simp
  ultimately show ?thesis using True by (simp add: unzigzag_def zigzag_def)
next
  case False
  then show ?thesis by (simp add: unzigzag_def zigzag_def even_nat_iff nat_mult_distrib)
qed

lemma zigzag_u64: "is_i64 x \<Longrightarrow> is_u64 (zigzag x)"
  by (auto simp: zigzag_def is_i64_def is_u64_def nat_le_iff)

lemma Varint_AppendVarint [codec_simps]:
  "is_i64 x \<Longrightarrow> Varint (AppendVarint x @ rest) = Some (x, length (AppendVarint x))"
  by (simp add: Varint_def AppendVarint_def Uvarint_AppendUvarint zigzag_u64)

lemma length_AppendVarint_pos [simp]: "0 < length (AppendVarint v)" "AppendVarint v \<noteq> []"
  by (simp_all add: AppendVarint_def)

section \<open>hash/crc32 with the Castagnoli polynomial\<close>

definition castagnoli_poly :: "32 word" where
  "castagnoli_poly = 0x82F63B78"

fun crc_shift :: "nat \<Rightarrow> 32 word \<Rightarrow> 32 word" where
  "crc_shift 0 c = c"
| "crc_shift (Suc n) c =
     crc_shift n (if bit c 0 then drop_bit 1 c XOR castagnoli_poly else drop_bit 1 c)"

definition crc_table :: "32 word \<Rightarrow> 32 word" where
  "crc_table i = crc_shift 8 i"

definition crc_step :: "32 word \<Rightarrow> byte \<Rightarrow> 32 word" where
  "crc_step c b = crc_table ((c XOR word_of_nat (bval b)) AND 0xFF) XOR drop_bit 8 c"

definition crc_Update :: "32 word \<Rightarrow> bytes \<Rightarrow> 32 word" where
  "crc_Update c p = NOT (foldl crc_step (NOT c) p)"

definition crc_Checksum :: "bytes \<Rightarrow> 32 word" where
  "crc_Checksum p = crc_Update 0 p"

text \<open>Checksumming in pieces is checksumming the concatenation.\<close>

lemma crc_Update_append: "crc_Update (crc_Update c p) q = crc_Update c (p @ q)"
  by (simp add: crc_Update_def)

lemma crc_Update_Nil [simp]: "crc_Update c [] = c"
  by (simp add: crc_Update_def)

lemma unat_crc_less: "unat (w :: 32 word) < 4294967296"
  using unsigned_less [of w, where 'a = nat] by simp

end
