(* ===== verification/Glob.thy ===== *)
theory Glob
  imports GoStd
begin

text \<open>
  The glob matcher of \<open>src/internal/command/glob.go\<close>, used by KEYS, SCAN MATCH and CONFIG GET.
  The matcher is specified by a translation of the pattern into tokens and an inductive
  definition of the strings a token list describes; \<open>matchPattern_spec\<close> is the equivalence.
\<close>

section \<open>The code\<close>

definition lower :: "byte \<Rightarrow> byte" where
  "lower b = (if CHR ''A'' \<le> b \<and> b \<le> CHR ''Z'' then mkbyte ((bval b + 32) mod 256) else b)"

definition byteEq :: "byte \<Rightarrow> byte \<Rightarrow> bool \<Rightarrow> bool" where
  "byteEq a b ci = (if a = b then True else ci \<and> lower a = lower b)"

text \<open>
  One round of the loop of \<open>matchClass\<close>: whether the item at the front of the unread pattern
  admits \<open>c\<close>, and how many pattern bytes the item takes (an escape, a range, or one byte).
\<close>

definition class_hit :: "byte \<Rightarrow> bool \<Rightarrow> bytes \<Rightarrow> bool" where
  "class_hit c ci p =
     (if p ! 0 = CHR 0x5C \<and> length p \<ge> 2 then byteEq (p ! 1) c ci
      else if length p \<ge> 3 \<and> p ! 1 = CHR ''-'' \<and> p ! 2 \<noteq> CHR '']'' then
        (let lo = (if p ! 0 > p ! 2 then p ! 2 else p ! 0);
             hi = (if p ! 0 > p ! 2 then p ! 0 else p ! 2);
             v = (if ci then lower c else c);
             lo = (if ci then lower lo else lo);
             hi = (if ci then lower hi else hi)
         in lo \<le> v \<and> v \<le> hi)
      else byteEq (p ! 0) c ci)"

definition class_width :: "bytes \<Rightarrow> nat" where
  "class_width p =
     (if p ! 0 = CHR 0x5C \<and> length p \<ge> 2 then 2
      else if length p \<ge> 3 \<and> p ! 1 = CHR ''-'' \<and> p ! 2 \<noteq> CHR '']'' then 3
      else 1)"

lemma class_width_pos [simp]: "0 < class_width p"
  by (simp add: class_width_def)

function matchClass_loop :: "byte \<Rightarrow> bool \<Rightarrow> bytes \<Rightarrow> bool \<Rightarrow> bytes \<times> bool" where
  "matchClass_loop c ci p found =
     (if p = [] \<or> p ! 0 = CHR '']'' then (p, found)
      else matchClass_loop c ci (drop (class_width p) p) (if class_hit c ci p then True else found))"
  by pat_completeness auto
termination
  by (relation "measure (\<lambda>(c, ci, p, found). length p)") auto

declare matchClass_loop.simps [simp del]

definition matchClass :: "bytes \<Rightarrow> byte \<Rightarrow> bool \<Rightarrow> bytes \<times> bool" where
  "matchClass pattern c ci =
     (let p = drop 1 pattern;
          negate = (p \<noteq> [] \<and> p ! 0 = CHR ''^'');
          p = (if negate then drop 1 p else p);
          (p, found) = matchClass_loop c ci p False;
          p = (if p \<noteq> [] then drop 1 p else p)
      in (p, found \<noteq> negate))"

text \<open>The collapse of a run of stars: the last star of the run stays at the front.\<close>

fun collapse :: "bytes \<Rightarrow> bytes" where
  "collapse (a # b # p) = (if b = CHR ''*'' then collapse (b # p) else a # b # p)"
| "collapse p = p"

lemma length_matchClass_loop: "length (fst (matchClass_loop c ci p found)) \<le> length p"
proof (induction c ci p found rule: matchClass_loop.induct)
  case (1 c ci p found)
  show ?case
  proof (cases "p = [] \<or> p ! 0 = CHR '']''")
    case True
    then show ?thesis by (simp add: matchClass_loop.simps [of c ci p found])
  next
    case False
    with "1.IH" [OF False] show ?thesis by (simp add: matchClass_loop.simps [of c ci p found])
  qed
qed

lemma length_matchClass:
  "pattern \<noteq> [] \<Longrightarrow> length (fst (matchClass pattern c ci)) < length pattern"
  using length_matchClass_loop [of c ci "drop 1 pattern" False]
    length_matchClass_loop [of c ci "drop 1 (drop 1 pattern)" False]
  by (cases pattern) (auto simp: matchClass_def Let_def case_prod_beta)

lemma length_collapse: "length (collapse p) \<le> length p"
  by (induction p rule: collapse.induct) auto

function matchPattern :: "bytes \<Rightarrow> bytes \<Rightarrow> bool \<Rightarrow> bool" where
  "matchPattern pattern s ci =
     (if pattern = [] then s = []
      else if pattern ! 0 = CHR ''*'' then
        (let pattern = collapse pattern in
         if length pattern = 1 then True
         else list_ex (\<lambda>i. matchPattern (drop 1 pattern) (drop i s) ci) [0..<length s + 1])
      else if pattern ! 0 = CHR ''?'' then
        (if s = [] then False else matchPattern (drop 1 pattern) (drop 1 s) ci)
      else if pattern ! 0 = CHR ''['' then
        (if s = [] then False
         else case matchClass pattern (s ! 0) ci of (rest, ok) \<Rightarrow>
           if \<not> ok then False else matchPattern rest (drop 1 s) ci)
      else
        (let pattern = (if pattern ! 0 = CHR 0x5C \<and> length pattern \<ge> 2 then drop 1 pattern else pattern) in
         if s = [] \<or> \<not> byteEq (pattern ! 0) (s ! 0) ci then False
         else matchPattern (drop 1 pattern) (drop 1 s) ci))"
  by pat_completeness auto
termination
proof (relation "measure (\<lambda>(pattern, s, ci). length pattern)", goal_cases)
  case 1
  show ?case by simp
next
  case (2 pattern s ci x z)
  have "length x \<le> length pattern" "pattern \<noteq> []"
    using 2 length_collapse [of pattern] by auto
  then show ?case by (cases pattern) auto
next
  case (3 pattern s ci)
  then show ?case by (cases pattern) auto
next
  case (4 pattern s ci rest ok)
  have "rest = fst (matchClass pattern (s ! 0) ci)"
    using 4 by (metis fst_conv)
  then show ?case using length_matchClass [OF 4(1)] by simp
next
  case (5 pattern s ci x)
  then show ?case by (cases pattern) auto
qed

declare matchPattern.simps [simp del]

definition isTrivialPattern :: "bytes \<Rightarrow> bool" where
  "isTrivialPattern p \<longleftrightarrow> list_all (\<lambda>b. b = CHR ''*'') p \<and> length p > 0"

section \<open>Specification\<close>

text \<open>
  A pattern denotes a sequence of tokens: a star, any byte, a possibly negated class of items,
  or a literal byte. \<open>describes\<close> says which strings a token sequence describes.
\<close>

datatype citem = Single byte | Range byte byte

definition in_item :: "bool \<Rightarrow> byte \<Rightarrow> citem \<Rightarrow> bool" where
  "in_item ci c it =
     (case it of
        Single b \<Rightarrow> byteEq b c ci
      | Range a b \<Rightarrow>
          (let fold_case = (if ci then lower else id)
           in fold_case (min a b) \<le> fold_case c \<and> fold_case c \<le> fold_case (max a b)))"

definition item_at :: "bytes \<Rightarrow> citem" where
  "item_at p =
     (if p ! 0 = CHR 0x5C \<and> length p \<ge> 2 then Single (p ! 1)
      else if length p \<ge> 3 \<and> p ! 1 = CHR ''-'' \<and> p ! 2 \<noteq> CHR '']'' then Range (p ! 0) (p ! 2)
      else Single (p ! 0))"

function class_items :: "bytes \<Rightarrow> citem list \<times> bytes" where
  "class_items p =
     (if p = [] \<or> p ! 0 = CHR '']'' then ([], p)
      else case class_items (drop (class_width p) p) of (its, rest) \<Rightarrow> (item_at p # its, rest))"
  by pat_completeness auto
termination
  by (relation "measure length") auto

declare class_items.simps [simp del]

datatype gtoken = Star | AnyByte | Class bool "citem list" | Lit byte

definition class_body :: "bytes \<Rightarrow> bool \<times> bytes" where
  "class_body p = (if p \<noteq> [] \<and> p ! 0 = CHR ''^'' then (True, drop 1 p) else (False, p))"

lemma length_class_items: "length (snd (class_items p)) \<le> length p"
proof (induction p rule: class_items.induct)
  case (1 p)
  then show ?case
    by (cases "p = [] \<or> p ! 0 = CHR '']''") (auto simp: class_items.simps [of p] case_prod_beta)
qed

lemma length_class_body: "length (snd (class_body p)) \<le> length p"
  by (simp add: class_body_def)

function tokens :: "bytes \<Rightarrow> gtoken list" where
  "tokens p =
     (if p = [] then []
      else if p ! 0 = CHR ''*'' then Star # tokens (drop 1 p)
      else if p ! 0 = CHR ''?'' then AnyByte # tokens (drop 1 p)
      else if p ! 0 = CHR ''['' then
        Class (fst (class_body (drop 1 p))) (fst (class_items (snd (class_body (drop 1 p)))))
          # tokens (drop 1 (snd (class_items (snd (class_body (drop 1 p))))))
      else if p ! 0 = CHR 0x5C \<and> length p \<ge> 2 then Lit (p ! 1) # tokens (drop 2 p)
      else Lit (p ! 0) # tokens (drop 1 p))"
  by pat_completeness auto
termination
proof (relation "measure length", goal_cases)
  case (4 p)
  have "length (snd (class_items (snd (class_body (drop 1 p))))) \<le> length (drop 1 p)"
    using length_class_items length_class_body le_trans by blast
  with 4 show ?case by (cases p) auto
qed auto

declare tokens.simps [simp del]

inductive describes :: "bool \<Rightarrow> gtoken list \<Rightarrow> bytes \<Rightarrow> bool" for ci where
  describes_Nil: "describes ci [] []"
| describes_Star: "describes ci ts s \<Longrightarrow> describes ci (Star # ts) (u @ s)"
| describes_Any: "describes ci ts s \<Longrightarrow> describes ci (AnyByte # ts) (c # s)"
| describes_Class: "(\<exists>it \<in> set its. in_item ci c it) \<noteq> neg \<Longrightarrow> describes ci ts s \<Longrightarrow>
    describes ci (Class neg its # ts) (c # s)"
| describes_Lit: "byteEq b c ci \<Longrightarrow> describes ci ts s \<Longrightarrow> describes ci (Lit b # ts) (c # s)"

inductive_simps describes_simps:
  "describes ci [] s"
  "describes ci (Star # ts) s"
  "describes ci (AnyByte # ts) s"
  "describes ci (Class neg its # ts) s"
  "describes ci (Lit b # ts) s"

section \<open>The matcher implements the specification\<close>

lemma class_hit_item: "class_hit c ci p = in_item ci c (item_at p)"
  by (auto simp: class_hit_def in_item_def item_at_def Let_def min_def max_def not_less)

lemma matchClass_loop_items:
  "matchClass_loop c ci p found =
     (snd (class_items p), found \<or> (\<exists>it \<in> set (fst (class_items p)). in_item ci c it))"
proof (induction c ci p found rule: matchClass_loop.induct)
  case (1 c ci p found)
  show ?case
  proof (cases "p = [] \<or> p ! 0 = CHR '']''")
    case True
    then show ?thesis
      by (simp add: matchClass_loop.simps [of c ci p found] class_items.simps [of p])
  next
    case False
    with "1.IH" [OF False] show ?thesis
      by (auto simp: matchClass_loop.simps [of c ci p found] class_items.simps [of p]
          class_hit_item case_prod_beta)
  qed
qed

lemma matchClass_items:
  "matchClass p c ci =
     (let b = class_body (drop 1 p); ir = class_items (snd b)
      in (drop 1 (snd ir), (\<exists>it \<in> set (fst ir). in_item ci c it) \<noteq> fst b))"
  by (auto simp: matchClass_def matchClass_loop_items class_body_def Let_def)

lemma describes_Star_iff: "describes ci (Star # ts) s \<longleftrightarrow> (\<exists>i \<le> length s. describes ci ts (drop i s))"
proof
  assume "describes ci (Star # ts) s"
  then obtain u v where uv: "s = u @ v" "describes ci ts v"
    by (auto simp: describes_simps)
  then have "length u \<le> length s" "describes ci ts (drop (length u) s)" by auto
  then show "\<exists>i \<le> length s. describes ci ts (drop i s)" by blast
next
  assume "\<exists>i \<le> length s. describes ci ts (drop i s)"
  then obtain i where "describes ci ts (drop i s)" by blast
  then have "describes ci (Star # ts) (take i s @ drop i s)" by (rule describes_Star)
  then show "describes ci (Star # ts) s" by simp
qed

lemma describes_Star_Star: "describes ci (Star # Star # ts) s \<longleftrightarrow> describes ci (Star # ts) s"
proof
  assume "describes ci (Star # Star # ts) s"
  then obtain u v w where "s = (u @ v) @ w" "describes ci ts w"
    by (auto simp: describes_simps)
  then show "describes ci (Star # ts) s" by (metis describes_Star)
next
  assume "describes ci (Star # ts) s"
  then show "describes ci (Star # Star # ts) s"
    using describes_Star [of ci "Star # ts" s "[]"] by simp
qed

lemma tokens_star: "tokens (CHR ''*'' # p) = Star # tokens p"
  by (simp add: tokens.simps [of "CHR ''*'' # p"])

lemma collapse_star:
  "p \<noteq> [] \<Longrightarrow> p ! 0 = CHR ''*'' \<Longrightarrow>
   \<exists>q. collapse p = CHR ''*'' # q \<and> (\<forall>s. describes ci (tokens p) s \<longleftrightarrow> describes ci (Star # tokens q) s)"
proof (induction p rule: collapse.induct)
  case (1 a b p)
  show ?case
  proof (cases "b = CHR ''*''")
    case True
    with 1 obtain q where q: "collapse (b # p) = CHR ''*'' # q"
      "\<forall>s. describes ci (tokens (b # p)) s \<longleftrightarrow> describes ci (Star # tokens q) s" by auto
    have "describes ci (tokens (a # b # p)) s \<longleftrightarrow> describes ci (Star # tokens q) s" for s
      using 1 True q(2) by (simp add: tokens_star describes_Star_Star)
    with True q show ?thesis by auto
  next
    case False
    with 1 show ?thesis by (auto simp: tokens_star)
  qed
qed (auto simp: tokens_star)

lemma describes_nil_star: "describes ci [Star] s"
  using describes_Star [OF describes_Nil, of ci s] by simp

lemma tokens_Nil [simp]: "tokens [] = []"
  by (simp add: tokens.simps)

lemma list_ex_upto: "list_ex P [0..<Suc n] \<longleftrightarrow> (\<exists>i \<le> n. P i)"
  by (auto simp: list_ex_iff less_Suc_eq_le simp del: upt_Suc)

lemma matchPattern_describes: "matchPattern pattern s ci \<longleftrightarrow> describes ci (tokens pattern) s"
proof (induction pattern s ci rule: matchPattern.induct)
  case (1 pattern s ci)
  note step = matchPattern.simps [of pattern s ci]
  note tok = tokens.simps [of pattern]
  consider (nil) "pattern = []" | (star) "pattern \<noteq> []" "pattern ! 0 = CHR ''*''"
    | (any) "pattern \<noteq> []" "pattern ! 0 = CHR ''?''"
    | (cls) "pattern \<noteq> []" "pattern ! 0 = CHR ''[''"
    | (lit) "pattern \<noteq> []" "pattern ! 0 \<notin> {CHR ''*'', CHR ''?'', CHR ''[''}"
    by auto
  then show ?case
  proof cases
    case nil
    with step show ?thesis by (simp add: describes_simps)
  next
    case star
    obtain q where q: "collapse pattern = CHR ''*'' # q"
      "\<forall>s. describes ci (tokens pattern) s \<longleftrightarrow> describes ci (Star # tokens q) s"
      using collapse_star [OF star] by blast
    show ?thesis
    proof (cases "q = []")
      case True
      with star q show ?thesis by (simp add: step describes_nil_star)
    next
      case False
      have "matchPattern q (drop i s) ci \<longleftrightarrow> describes ci (tokens q) (drop i s)" if "i \<le> length s" for i
        using "1.IH"(1) [OF star refl, of i] False q(1) that by (auto simp: order_le_less)
      with star q False show ?thesis
        by (auto simp: step describes_Star_iff list_ex_upto simp del: upt_Suc)
    qed
  next
    case any
    with step "1.IH"(2) show ?thesis
      by (cases s) (auto simp: tok describes_simps)
  next
    case cls
    with step "1.IH"(3) show ?thesis
      by (cases s) (auto simp: tok describes_simps matchClass_items Let_def)
  next
    case lit
    with step "1.IH"(4) show ?thesis
      by (cases s) (auto simp: tok describes_simps Let_def numeral_2_eq_2)
  qed
qed

lemma describes_stars: "list_all (\<lambda>b. b = CHR ''*'') p \<Longrightarrow> p \<noteq> [] \<Longrightarrow> describes ci (tokens p) s"
proof (induction p)
  case (Cons a p)
  then show ?case
    by (cases p) (auto simp: tokens_star describes_nil_star intro: describes_Star [where u = "[]", simplified])
qed simp

text \<open>
  C8: \<open>matchPattern\<close> returns true exactly for the strings the pattern's tokens describe: stars
  match any run, question marks one byte, classes with ranges, escapes and negation one byte of
  the class, and everything else itself, with ASCII case ignored when asked for.
\<close>

theorem matchPattern_spec: "matchPattern pattern s ci \<longleftrightarrow> describes ci (tokens pattern) s"
  by (rule matchPattern_describes)

text \<open>
  A pattern \<open>isTrivialPattern\<close> accepts, for which KEYS and SCAN skip the matcher, does match
  every string; skipping is sound.
\<close>

theorem isTrivialPattern_sound: "isTrivialPattern p \<Longrightarrow> matchPattern p s ci"
  by (simp add: isTrivialPattern_def matchPattern_describes describes_stars)

end
