(* ===== verification/Bufio.thy ===== *)
theory Bufio
  imports GoStd
begin

text \<open>
  The parts of Go's \<open>bufio.Reader\<close> and \<open>io\<close> the connection readers use. The state of a reader is
  the list of bytes not yet consumed, buffered or still to arrive; \<open>err\<close> is the error the
  underlying reader returns once those bytes are used up (end of file, or a deadline), and \<open>N\<close>
  is the size of the buffer.
\<close>

section \<open>Reads\<close>

definition ReadByte :: "gerror \<Rightarrow> bytes \<Rightarrow> byte res \<times> bytes" where
  "ReadByte err inp = (case inp of [] \<Rightarrow> (Fail err, []) | b # rest \<Rightarrow> (Ret b, rest))"

text \<open>\<open>io.ReadFull\<close>: end of file after a partial read becomes \<open>io.ErrUnexpectedEOF\<close>.\<close>

definition ReadFull :: "gerror \<Rightarrow> nat \<Rightarrow> bytes \<Rightarrow> bytes res \<times> bytes" where
  "ReadFull err n inp =
     (if n \<le> length inp then (Ret (take n inp), drop n inp)
      else (Fail (if inp \<noteq> [] \<and> err = ErrEOF then ErrUnexpectedEOF else err), []))"

definition Discard :: "gerror \<Rightarrow> nat \<Rightarrow> bytes \<Rightarrow> unit res \<times> bytes" where
  "Discard err n inp = (if n \<le> length inp then (Ret (), drop n inp) else (Fail err, []))"

text \<open>\<open>ReadSlice('\n')\<close>: a newline is found only within the first \<open>N\<close> unread bytes.\<close>

definition ReadSlice :: "nat \<Rightarrow> gerror \<Rightarrow> bytes \<Rightarrow> bytes res \<times> bytes" where
  "ReadSlice N err inp =
     (let i = length (takeWhile (\<lambda>b. b \<noteq> LF) inp)
      in if i < length inp \<and> i < N then (Ret (take (i + 1) inp), drop (i + 1) inp)
         else if N \<le> length inp then (Fail ErrBufferFull, drop N inp)
         else (Fail err, []))"

text \<open>\<open>bufio.NewReaderSize\<close> enforces a minimum of 16 bytes.\<close>

definition buffer_size :: "int \<Rightarrow> nat" where
  "buffer_size n = max 16 (nat n)"

section \<open>Lemmas\<close>

lemma takeWhile_no_LF: "LF \<notin> set l \<Longrightarrow> takeWhile (\<lambda>b. b \<noteq> LF) (l @ LF # rest) = l"
  by (induction l) auto

lemma ReadSlice_line:
  "LF \<notin> set l \<Longrightarrow> length l < N \<Longrightarrow> ReadSlice N err (l @ LF # rest) = (Ret (l @ [LF]), rest)"
  by (simp add: ReadSlice_def takeWhile_no_LF Let_def)

lemma ReadByte_Cons [simp]: "ReadByte err (b # rest) = (Ret b, rest)"
  by (simp add: ReadByte_def)

lemma ReadFull_append [simp]:
  "n = length xs \<Longrightarrow> ReadFull err n (xs @ rest) = (Ret xs, rest)"
  by (simp add: ReadFull_def)

lemma Discard_append [simp]:
  "n = length xs \<Longrightarrow> Discard err n (xs @ rest) = (Ret (), rest)"
  by (simp add: Discard_def)

lemma ReadSlice_split: "ReadSlice N err inp = (Ret line, rest) \<Longrightarrow> inp = line @ rest"
  by (auto simp: ReadSlice_def Let_def split: if_splits)

lemma ReadSlice_length_le: "ReadSlice N err inp = (r, rest) \<Longrightarrow> length rest \<le> length inp"
  by (auto simp: ReadSlice_def Let_def split: if_splits)

lemma ReadSlice_last: "ReadSlice N err inp = (Ret line, rest) \<Longrightarrow> line \<noteq> [] \<and> last line = LF"
  using nth_length_takeWhile [of "\<lambda>b. b \<noteq> LF" inp]
  by (auto simp: ReadSlice_def Let_def take_Suc_conv_app_nth split: if_splits)

lemma ReadSlice_not_Panic [simp]: "ReadSlice N err inp \<noteq> (Panic, rest)"
  by (auto simp: ReadSlice_def Let_def)

end
