(* ===== verification/Resp_Writer.thy ===== *)
theory Resp_Writer
  imports GoStd
begin

text \<open>
  The reply writer of \<open>src/internal/resp/writer.go\<close>. A writer is the bytes it has accepted and
  the protocol version. A reply is a tree; \<open>enc\<close> is its encoding under a version, and every
  method of the writer appends the encoding of one tree or one aggregate header. Floating point
  numbers are an opaque type whose operations are the record \<open>float_ops\<close>.
\<close>

section \<open>Types\<close>

record Writer =
  w_bw :: bytes
  w_ver :: nat

abbreviation (input) RESP2 :: nat where "RESP2 \<equiv> 2"
abbreviation (input) RESP3 :: nat where "RESP3 \<equiv> 3"

definition Version_Valid :: "int \<Rightarrow> bool" where
  "Version_Valid v \<longleftrightarrow> v = 2 \<or> v = 3"

abbreviation (input) crlf :: bytes where "crlf \<equiv> [CR, LF]"

definition NewWriter :: "Writer" where
  "NewWriter = \<lparr>w_bw = [], w_ver = RESP2\<rparr>"

definition SetVersion :: "nat \<Rightarrow> Writer \<Rightarrow> Writer" where
  "SetVersion v w = w\<lparr>w_ver := v\<rparr>"

text \<open>\<open>bw.Write\<close>, \<open>bw.WriteString\<close> and \<open>bw.WriteByte\<close>.\<close>

definition put :: "bytes \<Rightarrow> Writer \<Rightarrow> Writer" where
  "put bs w = w\<lparr>w_bw := w_bw w @ bs\<rparr>"

section \<open>Floating point\<close>

text \<open>What the sources use of \<open>float64\<close>, \<open>math\<close> and \<open>strconv\<close>.\<close>

record 'f float_ops =
  f_zero :: 'f
  f_posInf :: 'f
  f_negInf :: 'f
  f_nan :: 'f
  f_isPosInf :: "'f \<Rightarrow> bool"
  f_isNegInf :: "'f \<Rightarrow> bool"
  f_isNaN :: "'f \<Rightarrow> bool"
  f_isInt :: "'f \<Rightarrow> bool"              \<comment> \<open>\<open>f == math.Trunc(f)\<close>\<close>
  f_below_1e17 :: "'f \<Rightarrow> bool"         \<comment> \<open>\<open>math.Abs(f) < 1e17\<close>\<close>
  f_add :: "'f \<Rightarrow> 'f \<Rightarrow> 'f"
  f_format_f0 :: "'f \<Rightarrow> bytes"         \<comment> \<open>\<open>strconv.FormatFloat(f, 'f', 0, 64)\<close>\<close>
  f_format_g17 :: "'f \<Rightarrow> bytes"        \<comment> \<open>\<open>strconv.FormatFloat(f, 'g', 17, 64)\<close>\<close>
  f_format_f :: "'f \<Rightarrow> bytes"          \<comment> \<open>\<open>strconv.FormatFloat(f, 'f', -1, 64)\<close>\<close>
  f_negative :: "'f \<Rightarrow> bool"          \<comment> \<open>\<open>f < 0\<close>\<close>
  f_ParseFloat :: "bytes \<Rightarrow> 'f option"

definition FormatDouble :: "'f float_ops \<Rightarrow> 'f \<Rightarrow> bytes" where
  "FormatDouble F f =
     (if f_isPosInf F f then ''inf''
      else if f_isNegInf F f then ''-inf''
      else if f_isNaN F f then ''nan''
      else if f_isInt F f \<and> f_below_1e17 F f then f_format_f0 F f
      else f_format_g17 F f)"

text \<open>
  An instance of these operations in which only whole numbers are represented, for evaluating
  the definitions on concrete input.
\<close>

definition whole_floats :: "int float_ops" where
  "whole_floats =
     \<lparr>f_zero = 0, f_posInf = 10 ^ 400, f_negInf = - (10 ^ 400), f_nan = 10 ^ 401,
      f_isPosInf = (\<lambda>f. f = 10 ^ 400), f_isNegInf = (\<lambda>f. f = - (10 ^ 400)), f_isNaN = (\<lambda>f. f = 10 ^ 401),
      f_isInt = (\<lambda>f. True), f_below_1e17 = (\<lambda>f. \<bar>f\<bar> < 10 ^ 17), f_add = (+),
      f_format_f0 = FormatInt, f_format_g17 = FormatInt, f_format_f = FormatInt, f_negative = (\<lambda>f. f < 0), f_ParseFloat = ParseInt\<rparr>"

section \<open>The methods\<close>

definition writeHeader :: "byte \<Rightarrow> int \<Rightarrow> Writer \<Rightarrow> Writer" where
  "writeHeader t n = put ((t # FormatInt n) @ [CR, LF])"

definition WriteSimpleString :: "bytes \<Rightarrow> Writer \<Rightarrow> Writer" where
  "WriteSimpleString s w = put crlf (put s (put ''+'' w))"

text \<open>
  \<open>sanitizeLine\<close> looks for the first line break and, when there is one, blanks every break from
  there on.
\<close>

definition sanitizeLine :: "bytes \<Rightarrow> bytes" where
  "sanitizeLine s =
     (let i = length (takeWhile (\<lambda>b. b \<noteq> CR \<and> b \<noteq> LF) s)
      in if i < length s
         then take i s @ map (\<lambda>b. if b = CR \<or> b = LF then CHR '' '' else b) (drop i s)
         else s)"

definition WriteError :: "bytes \<Rightarrow> Writer \<Rightarrow> Writer" where
  "WriteError msg w = put crlf (put (sanitizeLine msg) (put ''-'' w))"

definition WriteInt :: "int \<Rightarrow> Writer \<Rightarrow> Writer" where
  "WriteInt n = writeHeader (CHR '':'') n"

definition WriteNull :: "Writer \<Rightarrow> Writer" where
  "WriteNull w = (if w_ver w \<ge> RESP3 then put (''_'' @ crlf) w else put (''$-1'' @ crlf) w)"

definition WriteBulkString :: "bytes \<Rightarrow> Writer \<Rightarrow> Writer" where
  "WriteBulkString s w = put crlf (put s (writeHeader (CHR ''$'') (int (length s)) w))"

text \<open>A nil slice is \<open>None\<close>.\<close>

definition WriteBulk :: "bytes option \<Rightarrow> Writer \<Rightarrow> Writer" where
  "WriteBulk b w =
     (case b of
        None \<Rightarrow> WriteNull w
      | Some b \<Rightarrow> put crlf (put b (writeHeader (CHR ''$'') (int (length b)) w)))"

definition WriteNullArray :: "Writer \<Rightarrow> Writer" where
  "WriteNullArray w = (if w_ver w \<ge> RESP3 then put (''_'' @ crlf) w else put (''*-1'' @ crlf) w)"

definition WriteArrayHeader :: "int \<Rightarrow> Writer \<Rightarrow> Writer" where
  "WriteArrayHeader n = writeHeader (CHR ''*'') n"

definition WriteMapHeader :: "int \<Rightarrow> Writer \<Rightarrow> Writer" where
  "WriteMapHeader n w =
     (if w_ver w \<ge> RESP3 then writeHeader (CHR ''%'') n w else writeHeader (CHR ''*'') (i64 (n * 2)) w)"

definition WriteSetHeader :: "int \<Rightarrow> Writer \<Rightarrow> Writer" where
  "WriteSetHeader n w =
     (if w_ver w \<ge> RESP3 then writeHeader (CHR ''~'') n w else writeHeader (CHR ''*'') n w)"

definition WritePushHeader :: "int \<Rightarrow> Writer \<Rightarrow> Writer" where
  "WritePushHeader n w =
     (if w_ver w \<ge> RESP3 then writeHeader (CHR ''>'') n w else writeHeader (CHR ''*'') n w)"

definition WriteBool :: "bool \<Rightarrow> Writer \<Rightarrow> Writer" where
  "WriteBool b w =
     (if w_ver w \<ge> RESP3 then (if b then put (''#t'' @ crlf) w else put (''#f'' @ crlf) w)
      else if b then WriteInt 1 w else WriteInt 0 w)"

definition WriteDouble :: "'f float_ops \<Rightarrow> 'f \<Rightarrow> Writer \<Rightarrow> Writer" where
  "WriteDouble F f w =
     (let s = FormatDouble F f in
      if w_ver w \<ge> RESP3 then put crlf (put s (put '','' w)) else WriteBulkString s w)"

definition WriteVerbatim :: "bytes \<Rightarrow> bytes \<Rightarrow> Writer \<Rightarrow> Writer" where
  "WriteVerbatim format s w =
     (if w_ver w \<ge> RESP3 \<and> length format = 3
      then put crlf (put s (put '':'' (put format (writeHeader (CHR ''='') (int (length s) + 4) w))))
      else WriteBulkString s w)"

definition WriteBigNumber :: "bytes \<Rightarrow> Writer \<Rightarrow> Writer" where
  "WriteBigNumber s w =
     (if w_ver w \<ge> RESP3 then put crlf (put s (put ''('' w)) else WriteBulkString s w)"

definition WriteRaw :: "bytes \<Rightarrow> Writer \<Rightarrow> Writer" where
  "WriteRaw b = put b"

definition WriteCommand :: "bytes list \<Rightarrow> Writer \<Rightarrow> Writer" where
  "WriteCommand args w =
     fold (\<lambda>a w. put crlf (put a (writeHeader (CHR ''$'') (int (length a)) w))) args
       (WriteArrayHeader (int (length args)) w)"

definition WriteCommandStrings :: "bytes list \<Rightarrow> Writer \<Rightarrow> Writer" where
  "WriteCommandStrings args w = fold WriteBulkString args (WriteArrayHeader (int (length args)) w)"

section \<open>Reply trees and their encoding\<close>

datatype reply =
    RSimple bytes | RError bytes | RInteger int | RBulk bytes | RNil | RNilArray
  | RArray "reply list" | RMap "reply list" | RSet "reply list" | RPush "reply list"
  | RBool bool | RDouble bytes | RVerbatim bytes bytes | RBig bytes

definition hdr :: "byte \<Rightarrow> int \<Rightarrow> bytes" where
  "hdr t n = t # FormatInt n @ crlf"

definition bulk_enc :: "bytes \<Rightarrow> bytes" where
  "bulk_enc s = hdr (CHR ''$'') (int (length s)) @ s @ crlf"

fun enc :: "nat \<Rightarrow> reply \<Rightarrow> bytes" where
  "enc v (RSimple s) = ''+'' @ s @ crlf"
| "enc v (RError s) = ''-'' @ s @ crlf"
| "enc v (RInteger n) = hdr (CHR '':'') n"
| "enc v (RBulk s) = bulk_enc s"
| "enc v RNil = (if v \<ge> RESP3 then ''_'' @ crlf else ''$-1'' @ crlf)"
| "enc v RNilArray = (if v \<ge> RESP3 then ''_'' @ crlf else ''*-1'' @ crlf)"
| "enc v (RArray es) = hdr (CHR ''*'') (int (length es)) @ concat (map (enc v) es)"
| "enc v (RMap es) =
     (if v \<ge> RESP3 then hdr (CHR ''%'') (int (length es div 2)) else hdr (CHR ''*'') (int (length es)))
       @ concat (map (enc v) es)"
| "enc v (RSet es) = hdr (if v \<ge> RESP3 then CHR ''~'' else CHR ''*'') (int (length es)) @ concat (map (enc v) es)"
| "enc v (RPush es) = hdr (if v \<ge> RESP3 then CHR ''>'' else CHR ''*'') (int (length es)) @ concat (map (enc v) es)"
| "enc v (RBool b) =
     (if v \<ge> RESP3 then (if b then ''#t'' @ crlf else ''#f'' @ crlf) else hdr (CHR '':'') (if b then 1 else 0))"
| "enc v (RDouble s) = (if v \<ge> RESP3 then '','' @ s @ crlf else bulk_enc s)"
| "enc v (RVerbatim f s) =
     (if v \<ge> RESP3 \<and> length f = 3 then hdr (CHR ''='') (int (length s) + 4) @ f @ '':'' @ s @ crlf
      else bulk_enc s)"
| "enc v (RBig s) = (if v \<ge> RESP3 then ''('' @ s @ crlf else bulk_enc s)"

section \<open>Every method appends the encoding of its tree\<close>

lemma put_simps [simp]: "w_bw (put bs w) = w_bw w @ bs" "w_ver (put bs w) = w_ver w"
  by (simp_all add: put_def)

lemma put_put [simp]: "put b (put a w) = put (a @ b) w"
  by (simp add: put_def)

lemma put_Nil [simp]: "put [] w = w"
  by (simp add: put_def)

definition emit :: "reply \<Rightarrow> Writer \<Rightarrow> Writer" where
  "emit t w = put (enc (w_ver w) t) w"

lemma emit_simps [simp]:
  "w_bw (emit t w) = w_bw w @ enc (w_ver w) t" "w_ver (emit t w) = w_ver w"
  by (simp_all add: emit_def)

named_theorems write_simps \<open>a method of the writer as the emission of a reply tree\<close>

lemma writeHeader_hdr: "writeHeader t n = put (hdr t n)"
  by (simp add: writeHeader_def hdr_def)

lemma WriteSimpleString_emit [write_simps]: "WriteSimpleString s w = emit (RSimple s) w"
  by (simp add: WriteSimpleString_def emit_def)

lemma WriteError_emit [write_simps]: "WriteError s w = emit (RError (sanitizeLine s)) w"
  by (simp add: WriteError_def emit_def)

lemma WriteInt_emit [write_simps]: "WriteInt n w = emit (RInteger n) w"
  by (simp add: WriteInt_def emit_def writeHeader_hdr)

lemma WriteNull_emit [write_simps]: "WriteNull w = emit RNil w"
  by (simp add: WriteNull_def emit_def)

lemma WriteNullArray_emit [write_simps]: "WriteNullArray w = emit RNilArray w"
  by (simp add: WriteNullArray_def emit_def)

lemma WriteBulkString_emit [write_simps]: "WriteBulkString s w = emit (RBulk s) w"
  by (simp add: WriteBulkString_def emit_def writeHeader_hdr bulk_enc_def)

lemma WriteBulk_emit [write_simps]:
  "WriteBulk b w = emit (case b of None \<Rightarrow> RNil | Some b \<Rightarrow> RBulk b) w"
  by (simp add: WriteBulk_def WriteNull_emit emit_def writeHeader_hdr bulk_enc_def split: option.splits)

lemma WriteBool_emit [write_simps]: "WriteBool b w = emit (RBool b) w"
  by (simp add: WriteBool_def WriteInt_emit emit_def)

lemma WriteDouble_emit [write_simps]: "WriteDouble F f w = emit (RDouble (FormatDouble F f)) w"
  by (simp add: WriteDouble_def WriteBulkString_emit emit_def Let_def)

lemma WriteVerbatim_emit [write_simps]: "WriteVerbatim f s w = emit (RVerbatim f s) w"
  by (simp add: WriteVerbatim_def WriteBulkString_emit emit_def writeHeader_hdr)

lemma WriteBigNumber_emit [write_simps]: "WriteBigNumber s w = emit (RBig s) w"
  by (simp add: WriteBigNumber_def WriteBulkString_emit emit_def)

lemma fold_emit: "fold emit ts w = put (concat (map (enc (w_ver w)) ts)) w"
  by (induction ts arbitrary: w) (simp_all add: emit_def)

lemma WriteArray_emit:
  "n = int (length ts) \<Longrightarrow> fold emit ts (WriteArrayHeader n w) = emit (RArray ts) w"
  by (simp add: fold_emit WriteArrayHeader_def writeHeader_hdr emit_def)

lemma WriteMap_emit:
  assumes "int (length es) = 2 * n" and "int (length es) \<le> MaxInt64"
  shows "fold emit es (WriteMapHeader n w) = emit (RMap es) w"
proof -
  have "is_i64 (n * 2)" and "n * 2 = int (length es)" and "n = int (length es div 2)"
    using assms by (simp_all add: is_i64_def)
  then show ?thesis
    by (simp add: fold_emit WriteMapHeader_def writeHeader_hdr emit_def)
qed

lemma WriteCommandStrings_emit: "WriteCommandStrings args w = emit (RArray (map RBulk args)) w"
proof -
  have "fold WriteBulkString args w = fold emit (map RBulk args) w" for w
    by (induction args arbitrary: w) (simp_all add: WriteBulkString_emit)
  then show ?thesis by (simp add: WriteCommandStrings_def WriteArray_emit)
qed

lemma WriteCommand_Strings: "WriteCommand args w = WriteCommandStrings args w"
  by (simp add: WriteCommand_def WriteCommandStrings_def WriteBulkString_def [abs_def])

lemma sanitizeLine_eq: "sanitizeLine s = map (\<lambda>b. if b = CR \<or> b = LF then CHR '' '' else b) s"
proof -
  let ?P = "\<lambda>b. b \<noteq> CR \<and> b \<noteq> LF" and ?f = "\<lambda>b. if b = CR \<or> b = LF then CHR '' '' else b"
  let ?i = "length (takeWhile ?P s)"
  have "take ?i s = map ?f (take ?i s)"
    by (intro map_idI [symmetric]) (auto simp: takeWhile_eq_take [symmetric] dest: set_takeWhileD)
  then have "take ?i s @ map ?f (drop ?i s) = map ?f (take ?i s) @ map ?f (drop ?i s)" by simp
  also have "\<dots> = map ?f s" by (simp flip: map_append)
  finally have "take ?i s @ map ?f (drop ?i s) = map ?f s" .
  moreover have "s = map ?f s" if "\<not> ?i < length s"
    using that calculation by (simp add: not_less)
  ultimately show ?thesis by (auto simp: sanitizeLine_def Let_def)
qed

lemma sanitizeLine_no_break [simp]: "CR \<notin> set (sanitizeLine s)" "LF \<notin> set (sanitizeLine s)"
  by (auto simp: sanitizeLine_eq)

lemma length_sanitizeLine [simp]: "length (sanitizeLine s) = length s"
  by (simp add: sanitizeLine_eq)

end
