(* ===== verification/Resp_Reader.thy ===== *)
theory Resp_Reader
  imports Bufio Resp_Writer
begin

text \<open>
  The request parser of \<open>src/internal/resp/reader.go\<close>. The reader hands out arguments as slices of
  an arena of blocks, so the model keeps the blocks as a list of byte arrays and an argument as a
  region of a block; \<open>deref\<close> reads a region. The theorems: the integer parser is
  \<open>strconv.ParseInt\<close>; a command that \<open>WriteCommand\<close> encoded is read back with the bytes that
  follow it untouched; no argument of a command overlaps another; and a buffer for which
  \<open>HasCompleteCommand\<close> answers true is read without waiting for more bytes.
\<close>

section \<open>Types\<close>

abbreviation TypeBulkString :: byte where "TypeBulkString \<equiv> CHR ''$''"
abbreviation TypeArray :: byte where "TypeArray \<equiv> CHR ''*''"

record Limits =
  MaxBulkSize :: int
  MaxMultiBulkLen :: int
  MaxInlineSize :: int
  ReadBufferSize :: int

definition DefaultLimits :: Limits where
  "DefaultLimits =
     \<lparr>MaxBulkSize = 536870912, MaxMultiBulkLen = 1048576, MaxInlineSize = 65536, ReadBufferSize = 16384\<rparr>"

definition arenaBlock :: nat where
  "arenaBlock = 16384"

text \<open>A slice of the arena: the block, the offset of its first byte, and its length.\<close>

record region =
  blk :: nat
  off :: nat
  len :: nat

record Reader =
  r_br :: bytes             \<comment> \<open>bytes not yet consumed\<close>
  r_err :: gerror           \<comment> \<open>what the connection returns after them\<close>
  r_lim :: Limits
  r_args :: "region list"
  r_heap :: "bytes list"    \<comment> \<open>every block allocated so far\<close>
  r_block :: nat            \<comment> \<open>the block the field \<open>block\<close> points to\<close>
  r_used :: nat             \<comment> \<open>\<open>len(block)\<close>\<close>
  r_inFlight :: bool

definition deref :: "bytes list \<Rightarrow> region \<Rightarrow> bytes" where
  "deref h g = take (len g) (drop (off g) (h ! blk g))"

definition NewReader :: "bytes \<Rightarrow> gerror \<Rightarrow> Limits \<Rightarrow> Reader" where
  "NewReader rd err lim =
     (let lim = (if MaxBulkSize lim \<le> 0 then DefaultLimits else lim);
          lim = (if ReadBufferSize lim \<le> 0
                 then lim\<lparr>ReadBufferSize := ReadBufferSize DefaultLimits\<rparr> else lim)
      in \<lparr>r_br = rd, r_err = err, r_lim = lim, r_args = [],
          r_heap = [replicate arenaBlock (mkbyte 0)], r_block = 0, r_used = 0, r_inFlight = False\<rparr>)"

section \<open>The integer parser\<close>

fun parseInt_loop :: "nat \<Rightarrow> nat \<Rightarrow> bytes \<Rightarrow> nat option" where
  "parseInt_loop limit v [] = Some v"
| "parseInt_loop limit v (c # b) =
     (if c < CHR ''0'' \<or> c > CHR ''9'' then None
      else let d = bval c - 48 in
        if v > (limit - d) div 10 then None
        else parseInt_loop limit (u64 (v * 10 + d)) b)"

definition parseInt :: "bytes \<Rightarrow> int option" where
  "parseInt b =
     (if b = [] then None
      else
        let signed = (b ! 0 = CHR ''-'' \<or> b ! 0 = CHR ''+'');
            neg = (b ! 0 = CHR ''-'');
            rest = (if signed then drop 1 b else b)
        in if signed \<and> rest = [] then None
           else case parseInt_loop (if neg then 9223372036854775808 else 9223372036854775807) 0 rest of
             None \<Rightarrow> None
           | Some v \<Rightarrow>
               if neg then Some (i64 (i64 (- i64 (int (u64 (v + MaxUint64)))) - 1))
               else Some (i64 (int v)))"

section \<open>Lines and counts\<close>

definition ioOrUnexpected :: "gerror \<Rightarrow> gerror" where
  "ioOrUnexpected err = (if err = ErrEOF then ErrUnexpectedEOF else err)"

definition readLine :: "(Reader, bytes) action" where
  "readLine r =
     (case ReadSlice (buffer_size (ReadBufferSize (r_lim r))) (r_err r) (r_br r) of
        (Ret line, br) \<Rightarrow>
          (if length line < 2 \<or> line ! (length line - 2) \<noteq> CR
           then Fail (ProtocolError ''unbalanced line terminator'')
           else Ret (take (length line - 2) line), r\<lparr>r_br := br\<rparr>)
      | (Fail e, br) \<Rightarrow>
          (if e = ErrBufferFull then Fail (ProtocolError ''too big inline request'')
           else Fail (ioOrUnexpected e), r\<lparr>r_br := br\<rparr>)
      | (Panic, br) \<Rightarrow> (Panic, r\<lparr>r_br := br\<rparr>))"

text \<open>\<open>int\<close> is 64 bits wide, so only the most negative cnt is out of the range tested.\<close>

definition count_in_range :: "int \<Rightarrow> bool" where
  "count_in_range v \<longleftrightarrow> v \<le> MaxInt64 \<and> v \<ge> - MaxInt64"

definition readCount :: "bytes \<Rightarrow> (Reader, int) action" where
  "readCount what =
     sbind readLine (\<lambda>line r.
       case parseInt line of
         None \<Rightarrow> (Fail (ProtocolError (''invalid '' @ what @ '' length'')), r)
       | Some v \<Rightarrow>
           if \<not> count_in_range v then (Fail (ProtocolError (''invalid '' @ what @ '' length'')), r)
           else (Ret v, r))"

section \<open>The arena\<close>

definition alloc :: "nat \<Rightarrow> Reader \<Rightarrow> region \<times> Reader" where
  "alloc n r =
     (if n > arenaBlock then
        (\<lparr>blk = length (r_heap r), off = 0, len = n\<rparr>,
         r\<lparr>r_heap := r_heap r @ [replicate n (mkbyte 0)]\<rparr>)
      else
        let r = (if length (r_heap r ! r_block r) - r_used r < n
                 then r\<lparr>r_heap := r_heap r @ [replicate arenaBlock (mkbyte 0)],
                        r_block := length (r_heap r), r_used := 0\<rparr>
                 else r)
        in (\<lparr>blk = r_block r, off = r_used r, len = n\<rparr>, r\<lparr>r_used := r_used r + n\<rparr>))"

text \<open>A write through a slice handed out by \<open>alloc\<close>.\<close>

definition fill :: "region \<Rightarrow> bytes \<Rightarrow> Reader \<Rightarrow> Reader" where
  "fill g bs r = r\<lparr>r_heap := (r_heap r)[blk g := overlay (r_heap r ! blk g) (off g) (take (len g) bs)]\<rparr>"

section \<open>Bulk strings and commands\<close>

text \<open>\<open>%c\<close> prints a byte as the UTF-8 encoding of the code point it names.\<close>

definition fmt_c :: "byte \<Rightarrow> bytes" where
  "fmt_c t = (if bval t < 128 then [t] else [mkbyte (192 + bval t div 64), mkbyte (128 + bval t mod 64)])"

definition readBulk :: "(Reader, region) action" where
  "readBulk r =
     (case ReadByte (r_err r) (r_br r) of
        (Fail e, br) \<Rightarrow> (Fail e, r\<lparr>r_br := br\<rparr>)
      | (Panic, br) \<Rightarrow> (Panic, r\<lparr>r_br := br\<rparr>)
      | (Ret t, br) \<Rightarrow>
          (let r = r\<lparr>r_br := br\<rparr> in
           if t \<noteq> TypeBulkString
           then (Fail (ProtocolError (''expected '' @ [CHR 0x27] @ ''$'' @ [CHR 0x27] @ '', got ''
                   @ [CHR 0x27] @ fmt_c t @ [CHR 0x27])), r)
           else sbind (readCount ''bulk'') (\<lambda>n r.
             if n < 0 \<or> n > MaxBulkSize (r_lim r) then (Fail (ProtocolError ''invalid bulk length''), r)
             else
               let (buf, r) = alloc (nat n) r;
                   r = fill buf (r_br r) r
               in case ReadFull (r_err r) (nat n) (r_br r) of
                    (Fail e, br) \<Rightarrow> (Fail (ioOrUnexpected e), r\<lparr>r_br := br\<rparr>)
                  | (Panic, br) \<Rightarrow> (Panic, r\<lparr>r_br := br\<rparr>)
                  | (Ret _, br) \<Rightarrow>
                      (case ReadFull (r_err r) 2 br of
                         (Fail e, br) \<Rightarrow> (Fail (ioOrUnexpected e), r\<lparr>r_br := br\<rparr>)
                       | (Panic, br) \<Rightarrow> (Panic, r\<lparr>r_br := br\<rparr>)
                       | (Ret tail, br) \<Rightarrow>
                           (if tail ! 0 \<noteq> CR \<or> tail ! 1 \<noteq> LF
                            then Fail (ProtocolError ''bulk string not terminated by CRLF'')
                            else Ret buf, r\<lparr>r_br := br\<rparr>))) r))"

definition isSpace :: "byte \<Rightarrow> bool" where
  "isSpace b \<longleftrightarrow> b = CHR '' '' \<or> b = CHR 0x09 \<or> b = CR \<or> b = LF \<or> b = CHR 0x0B \<or> b = CHR 0x0C"

text \<open>The two inner loops of \<open>readInline\<close>: the index of the next byte that is not, or is, a space.\<close>

definition skip_space :: "bytes \<Rightarrow> nat \<Rightarrow> nat" where
  "skip_space buf i = i + length (takeWhile isSpace (drop i buf))"

definition skip_word :: "bytes \<Rightarrow> nat \<Rightarrow> nat" where
  "skip_word buf i = i + length (takeWhile (\<lambda>b. \<not> isSpace b) (drop i buf))"

lemma skip_word_progress:
  "skip_space buf i < length buf \<Longrightarrow> i < skip_word buf (skip_space buf i)"
proof -
  assume lt: "skip_space buf i < length buf"
  then have ne: "drop (skip_space buf i) buf \<noteq> []" by simp
  have "hd (drop (skip_space buf i) buf) = hd (dropWhile isSpace (drop i buf))"
    by (simp add: skip_space_def dropWhile_eq_drop add.commute)
  moreover have "dropWhile isSpace (drop i buf) \<noteq> []"
    using ne by (simp add: skip_space_def dropWhile_eq_drop add.commute)
  ultimately have "\<not> isSpace (hd (drop (skip_space buf i) buf))"
    by (metis hd_dropWhile)
  with ne show ?thesis
    by (cases "drop (skip_space buf i) buf") (auto simp: skip_word_def skip_space_def)
qed

function inline_loop :: "bytes \<Rightarrow> region \<Rightarrow> nat \<Rightarrow> region list \<Rightarrow> region list" where
  "inline_loop buf g i args =
     (if i < length buf then
        let start = skip_space buf i in
        if start \<ge> length buf then args
        else let i = skip_word buf start in
             inline_loop buf g i (args @ [\<lparr>blk = blk g, off = off g + start, len = i - start\<rparr>])
      else args)"
  by pat_completeness auto
termination
proof (relation "measure (\<lambda>(buf, g, i, args). length buf - i)", goal_cases)
  case (2 buf g i args x xa)
  then have "i < skip_word buf (skip_space buf i)"
    by (intro skip_word_progress) simp
  with 2 show ?case by simp
qed simp

declare inline_loop.simps [simp del]

definition readInline :: "(Reader, region list option) action" where
  "readInline =
     sbind readLine (\<lambda>line r.
       if int (length line) > MaxInlineSize (r_lim r)
       then (Fail (ProtocolError ''too big inline request''), r)
       else
         let (buf, r) = alloc (length line) r;
             r = fill buf line r;
             r = r\<lparr>r_args := inline_loop line buf 0 (r_args r)\<rparr>
         in (Ret (if r_args r = [] then None else Some (r_args r)), r))"

fun read_args :: "nat \<Rightarrow> (Reader, unit) action" where
  "read_args 0 r = (Ret (), r)"
| "read_args (Suc n) r =
     sbind readBulk (\<lambda>arg r. read_args n (r\<lparr>r_args := r_args r @ [arg]\<rparr>)) r"

definition ReadCommand :: "(Reader, region list option) action" where
  "ReadCommand r =
     (let r = r\<lparr>r_args := [], r_used := 0, r_inFlight := False\<rparr> in
      case r_br r of
        [] \<Rightarrow> (Fail (r_err r), r)
      | prefix # br \<Rightarrow>
          (let r = r\<lparr>r_inFlight := True\<rparr> in
           if prefix \<noteq> TypeArray then
             (case readInline r of
                (Ret args, r) \<Rightarrow> (Ret args, r\<lparr>r_inFlight := False\<rparr>)
              | (Fail e, r) \<Rightarrow> (Fail e, r)
              | (Panic, r) \<Rightarrow> (Panic, r))
           else
             sbind (readCount ''multibulk'') (\<lambda>n r.
               if n < 0 then (Ret None, r\<lparr>r_inFlight := False\<rparr>)
               else if n = 0 then (Ret None, r\<lparr>r_inFlight := False\<rparr>)
               else if n > MaxMultiBulkLen (r_lim r)
               then (Fail (ProtocolError ''invalid multibulk length''), r)
               else sbind (read_args (nat n))
                      (\<lambda>_ r. (Ret (Some (r_args r)), r\<lparr>r_inFlight := False\<rparr>)) r)
             (r\<lparr>r_br := br\<rparr>)))"

section \<open>Looking ahead\<close>

text \<open>
  \<open>peekCount\<close> scans for the first CRLF; \<open>crlf_at\<close> is its loop, and \<open>None\<close> is the result \<open>ok = false\<close>.
\<close>

fun crlf_at :: "bytes \<Rightarrow> nat option" where
  "crlf_at (a # b # buf) = (if a = CR \<and> b = LF then Some 0 else map_option Suc (crlf_at (b # buf)))"
| "crlf_at _ = None"

definition peekCount :: "bytes \<Rightarrow> (int \<times> bytes) option" where
  "peekCount buf =
     (case crlf_at buf of
        None \<Rightarrow> None
      | Some i \<Rightarrow>
          (case parseInt (take i buf) of
             None \<Rightarrow> Some (0, drop (i + 2) buf)
           | Some v \<Rightarrow> if \<not> count_in_range v then Some (0, drop (i + 2) buf) else Some (v, drop (i + 2) buf)))"

fun complete_args :: "Limits \<Rightarrow> nat \<Rightarrow> bytes \<Rightarrow> bool res" where
  "complete_args lim 0 rest = Ret True"
| "complete_args lim (Suc n) rest =
     (if rest = [] \<or> rest ! 0 \<noteq> TypeBulkString then Ret (length rest > 0)
      else case peekCount (drop 1 rest) of
        None \<Rightarrow> Ret False
      | Some (sz, tail) \<Rightarrow>
          if sz < 0 \<or> sz > MaxBulkSize lim then Ret True
          else if int (length tail) < i64 (sz + 2) then Ret False
          else bind_res (slice tail (i64 (sz + 2)) (int (length tail))) (\<lambda>rest. complete_args lim n rest))"

text \<open>\<open>HasCompleteCommand\<close> on the bytes the buffer holds.\<close>

definition HasCompleteCommand :: "Limits \<Rightarrow> bytes \<Rightarrow> bool res" where
  "HasCompleteCommand lim buf =
     (if buf = [] then Ret False
      else if buf ! 0 \<noteq> TypeArray then Ret (list_ex (\<lambda>b. b = LF) buf)
      else case peekCount (drop 1 buf) of
        None \<Rightarrow> Ret False
      | Some (cnt, rest) \<Rightarrow>
          if cnt \<le> 0 then Ret True
          else if cnt > MaxMultiBulkLen lim then Ret True
          else complete_args lim (nat cnt) rest)"

section \<open>The integer parser is \<open>strconv.ParseInt\<close>\<close>

lemma digit_test: "c < CHR ''0'' \<or> c > CHR ''9'' \<longleftrightarrow> \<not> isdigit c"
  by (auto simp: isdigit_def less_char_def)

lemma acc_mono: "v \<le> foldl (\<lambda>a c. a * 10 + digit_val c) v b"
proof (induction b arbitrary: v)
  case (Cons c b)
  have "v \<le> v * 10 + digit_val c" by simp
  also have "\<dots> \<le> foldl (\<lambda>a c. a * 10 + digit_val c) (v * 10 + digit_val c) b" by (rule Cons)
  finally show ?case by simp
qed simp

lemma overflow_test:
  fixes v d limit :: nat
  assumes "d \<le> limit"
  shows "v > (limit - d) div 10 \<longleftrightarrow> limit < v * 10 + d"
  using assms by (simp add: div_less_iff_less_mult less_diff_conv2 add.commute)

lemma parseInt_loop_eq:
  assumes "v \<le> limit" and "9 \<le> limit" and "limit \<le> MaxUint64"
  shows "parseInt_loop limit v b =
    (if list_all isdigit b \<and> foldl (\<lambda>a c. a * 10 + digit_val c) v b \<le> limit
     then Some (foldl (\<lambda>a c. a * 10 + digit_val c) v b) else None)"
  using assms(1)
proof (induction b arbitrary: v)
  case (Cons c b)
  let ?v' = "v * 10 + digit_val c"
  show ?case
  proof (cases "isdigit c")
    case True
    then have d: "bval c - 48 \<le> limit" using assms(2) by (auto simp: isdigit_def)
    have test: "v > (limit - (bval c - 48)) div 10 \<longleftrightarrow> limit < ?v'"
      using overflow_test [OF d, of v] by (simp add: digit_val_def)
    show ?thesis
    proof (cases "limit < ?v'")
      case True
      then have "\<not> foldl (\<lambda>a c. a * 10 + digit_val c) ?v' b \<le> limit"
        using acc_mono [of ?v' b] by linarith
      with True test \<open>isdigit c\<close> show ?thesis by (simp add: digit_test)
    next
      case False
      then have "is_u64 ?v'" using assms(3) by (simp add: is_u64_def)
      with False test \<open>isdigit c\<close> Cons.IH [of ?v'] show ?thesis
        by (simp add: digit_test digit_val_def)
    qed
  qed (simp add: digit_test)
qed (use assms in simp)

lemma parseInt_neg_result:
  assumes "v \<le> 9223372036854775808"
  shows "i64 (i64 (- i64 (int (u64 (v + MaxUint64)))) - 1) = - int v"
proof (cases "v = 0")
  case False
  then have "u64 (v + MaxUint64) = v - 1"
    using assms by (simp add: u64_def mod_if)
  moreover have "is_i64 (int (v - 1))" "is_i64 (- int (v - 1))" "is_i64 (- int (v - 1) - 1)"
    using False assms by (auto simp: is_i64_def)
  ultimately show ?thesis using False by simp
qed (simp add: u64_def i64_def)

lemma parseInt_ParseInt: "parseInt b = ParseInt b"
proof (cases b)
  case (Cons c r)
  have pos: "is_i64 (int v)" if "v \<le> 9223372036854775807" for v
    using that by (simp add: is_i64_def)
  show ?thesis
    by (auto simp: Cons parseInt_def ParseInt_def Let_def all_digits_def dec_val_def
        parseInt_loop_eq parseInt_neg_result pos nat_le_iff)
qed (simp add: parseInt_def ParseInt_def all_digits_def)

section \<open>The arena keeps arguments apart\<close>

definition region_ok :: "bytes list \<Rightarrow> region \<Rightarrow> bool" where
  "region_ok h g \<longleftrightarrow> blk g < length h \<and> off g + len g \<le> length (h ! blk g)"

definition disjoint :: "region \<Rightarrow> region \<Rightarrow> bool" where
  "disjoint g g' \<longleftrightarrow> blk g \<noteq> blk g' \<or> off g + len g \<le> off g' \<or> off g' + len g' \<le> off g"

definition arena_ok :: "Reader \<Rightarrow> bool" where
  "arena_ok r \<longleftrightarrow>
     r_block r < length (r_heap r) \<and> length (r_heap r ! r_block r) = arenaBlock \<and> r_used r \<le> arenaBlock"

definition arena_inv :: "Reader \<Rightarrow> bool" where
  "arena_inv r \<longleftrightarrow> arena_ok r
     \<and> (\<forall>g \<in> set (r_args r). region_ok (r_heap r) g \<and> (blk g = r_block r \<longrightarrow> off g + len g \<le> r_used r))
     \<and> sorted_wrt disjoint (r_args r)"

text \<open>The storage step of \<open>readBulk\<close> and \<open>readInline\<close>: allocate and fill.\<close>

definition store_arg :: "bytes \<Rightarrow> Reader \<Rightarrow> region \<times> Reader" where
  "store_arg a r = (let (g, r) = alloc (length a) r in (g, fill g a r))"

definition args_of :: "Reader \<Rightarrow> bytes list" where
  "args_of r = map (deref (r_heap r)) (r_args r)"

lemma alloc_fields [simp]:
  "r_br (snd (alloc n r)) = r_br r" "r_err (snd (alloc n r)) = r_err r"
  "r_lim (snd (alloc n r)) = r_lim r" "r_args (snd (alloc n r)) = r_args r"
  "r_inFlight (snd (alloc n r)) = r_inFlight r" "len (fst (alloc n r)) = n"
  by (auto simp: alloc_def Let_def)

lemma fill_fields [simp]:
  "r_br (fill g a r) = r_br r" "r_err (fill g a r) = r_err r" "r_lim (fill g a r) = r_lim r"
  "r_args (fill g a r) = r_args r" "r_inFlight (fill g a r) = r_inFlight r"
  "r_block (fill g a r) = r_block r" "r_used (fill g a r) = r_used r"
  "length (r_heap (fill g a r)) = length (r_heap r)"
  by (simp_all add: fill_def)

lemma alloc_heap: "\<exists>bs. r_heap (snd (alloc n r)) = r_heap r @ bs"
  by (auto simp: alloc_def Let_def)

lemma alloc_region:
  assumes "arena_ok r" and "alloc n r = (g, r')"
  shows "arena_ok r'" and "region_ok (r_heap r') g"
    and "blk g = r_block r' \<Longrightarrow> off g + len g \<le> r_used r'"
    and "region_ok (r_heap r) g' \<Longrightarrow> (blk g' = r_block r \<longrightarrow> off g' + len g' \<le> r_used r) \<Longrightarrow> disjoint g' g"
    and "region_ok (r_heap r) g' \<Longrightarrow> (blk g' = r_block r \<longrightarrow> off g' + len g' \<le> r_used r) \<Longrightarrow>
      blk g' = r_block r' \<longrightarrow> off g' + len g' \<le> r_used r'"
  using assms
  by (auto simp: alloc_def Let_def arena_ok_def region_ok_def disjoint_def nth_append arenaBlock_def split: if_splits)

lemma fill_block_length:
  "region_ok (r_heap r) g \<Longrightarrow> length (r_heap (fill g a r) ! i) = length (r_heap r ! i)"
  by (cases "i < length (r_heap r)") (auto simp: fill_def region_ok_def nth_list_update)

lemma region_ok_fill [simp]:
  "region_ok (r_heap r) g \<Longrightarrow> region_ok (r_heap (fill g a r)) g' = region_ok (r_heap r) g'"
  by (simp add: region_ok_def [of _ g'] fill_block_length)

lemma deref_fill_same:
  "region_ok (r_heap r) g \<Longrightarrow> length a = len g \<Longrightarrow> deref (r_heap (fill g a r)) g = a"
  by (auto simp: deref_def fill_def region_ok_def overlay_def min_def)

lemma deref_fill_other:
  assumes g: "region_ok (r_heap r) g" and g': "region_ok (r_heap r) g'" and d: "disjoint g' g"
    and len: "length a \<le> len g"
  shows "deref (r_heap (fill g a r)) g' = deref (r_heap r) g'"
proof (cases "blk g' = blk g")
  case True
  let ?B = "r_heap r ! blk g"
  have "overlay ?B (off g) a ! i = ?B ! i" if "off g' \<le> i" "i < off g' + len g'" for i
    using that g g' d True len by (subst overlay_nth) (auto simp: region_ok_def disjoint_def)
  then have "take (len g') (drop (off g') (overlay ?B (off g) a)) = take (len g') (drop (off g') ?B)"
    using g g' True by (intro nth_equalityI) (auto simp: region_ok_def)
  with True g len show ?thesis by (simp add: deref_def fill_def region_ok_def)
qed (simp add: deref_def fill_def)

lemma deref_append: "region_ok h g \<Longrightarrow> deref (h @ bs) g = deref h g"
  by (simp add: deref_def region_ok_def nth_append)

lemma region_ok_append: "region_ok h g \<Longrightarrow> region_ok (h @ bs) g"
  by (auto simp: region_ok_def nth_append)

lemma store_arg_fields [simp]:
  "r_br (snd (store_arg a r)) = r_br r" "r_err (snd (store_arg a r)) = r_err r"
  "r_lim (snd (store_arg a r)) = r_lim r" "r_args (snd (store_arg a r)) = r_args r"
  "r_inFlight (snd (store_arg a r)) = r_inFlight r" "len (fst (store_arg a r)) = length a"
  by (simp_all add: store_arg_def case_prod_beta)

lemma store_arg_inv:
  assumes inv: "arena_inv r" and st: "store_arg a r = (g, r')"
  shows "arena_inv (r'\<lparr>r_args := r_args r @ [g]\<rparr>)"
    and "map (deref (r_heap r')) (r_args r @ [g]) = args_of r @ [a]"
    and "region_ok (r_heap r') g"
proof -
  obtain r1 where al: "alloc (length a) r = (g, r1)" and r': "r' = fill g a r1"
    using st by (auto simp: store_arg_def split: prod.splits)
  obtain bs where bs: "r_heap r1 = r_heap r @ bs"
    using alloc_heap [of "length a" r] al by auto
  have ok: "arena_ok r" using inv by (simp add: arena_inv_def)
  note reg = alloc_region [OF ok al]
  have len: "len g = length a" using alloc_fields(6) [of "length a" r] al by simp
  have old: "region_ok (r_heap r1) g'" "disjoint g' g"
      "blk g' = r_block r1 \<longrightarrow> off g' + len g' \<le> r_used r1"
      "deref (r_heap r1) g' = deref (r_heap r) g'" if "g' \<in> set (r_args r)" for g'
  proof -
    have g': "region_ok (r_heap r) g'" "blk g' = r_block r \<longrightarrow> off g' + len g' \<le> r_used r"
      using that inv by (auto simp: arena_inv_def)
    show "region_ok (r_heap r1) g'" "deref (r_heap r1) g' = deref (r_heap r) g'"
      using g' bs by (auto simp: region_ok_append deref_append)
    show "disjoint g' g" "blk g' = r_block r1 \<longrightarrow> off g' + len g' \<le> r_used r1"
      using reg(4,5) g' by blast+
  qed
  have ok': "arena_ok r'"
    using reg(1,2) by (simp add: r' arena_ok_def fill_block_length)
  show "arena_inv (r'\<lparr>r_args := r_args r @ [g]\<rparr>)"
    using ok' reg old inv by (auto simp: arena_inv_def arena_ok_def r' sorted_wrt_append)
  show "map (deref (r_heap r')) (r_args r @ [g]) = args_of r @ [a]"
    using reg(2) old len by (simp add: r' deref_fill_same deref_fill_other args_of_def)
  show "region_ok (r_heap r') g" using reg(2) by (simp add: r')
qed

lemma arena_inv_NewReader: "arena_inv (NewReader rd err lim)"
  by (simp add: arena_inv_def arena_ok_def NewReader_def Let_def)

section \<open>Reading what the writer wrote\<close>

abbreviation line_room :: "Reader \<Rightarrow> nat" where
  "line_room r \<equiv> buffer_size (ReadBufferSize (r_lim r))"

lemma readLine_line:
  assumes "r_br r = l @ crlf @ rest" and "LF \<notin> set l" and "length l + 1 < line_room r"
  shows "readLine r = (Ret l, r\<lparr>r_br := rest\<rparr>)"
proof -
  have "ReadSlice (line_room r) (r_err r) ((l @ [CR]) @ LF # rest) = (Ret ((l @ [CR]) @ [LF]), rest)"
    using assms by (intro ReadSlice_line) auto
  with assms(1) show ?thesis by (simp add: readLine_def nth_append)
qed

lemma readCount_hdr:
  assumes "r_br r = FormatInt n @ crlf @ rest" and "- MaxInt64 \<le> n" and "n \<le> MaxInt64" and "21 < line_room r"
  shows "readCount what r = (Ret n, r\<lparr>r_br := rest\<rparr>)"
proof -
  have n: "is_i64 n" using assms by (simp add: is_i64_def)
  have "readLine r = (Ret (FormatInt n), r\<lparr>r_br := rest\<rparr>)"
    using assms length_FormatInt_i64 [OF n] by (intro readLine_line) auto
  with n assms show ?thesis
    by (simp add: readCount_def parseInt_ParseInt count_in_range_def)
qed

lemma alloc_br [simp]: "alloc n (r\<lparr>r_br := b\<rparr>) = (fst (alloc n r), (snd (alloc n r))\<lparr>r_br := b\<rparr>)"
  by (simp add: alloc_def Let_def)

lemma fill_br [simp]: "fill g a (r\<lparr>r_br := b\<rparr>) = (fill g a r)\<lparr>r_br := b\<rparr>"
  by (simp add: fill_def)

lemma fill_take: "fill g (take (len g) a) r = fill g a r"
  by (simp add: fill_def)

lemma readBulk_enc:
  assumes "r_br r = bulk_enc a @ rest" and "int (length a) \<le> MaxBulkSize (r_lim r)"
    and "int (length a) \<le> MaxInt64" and "21 < line_room r"
  shows "readBulk r = (case store_arg a (r\<lparr>r_br := rest\<rparr>) of (g, r') \<Rightarrow> (Ret g, r'))"
proof -
  let ?r1 = "r\<lparr>r_br := FormatInt (int (length a)) @ crlf @ a @ crlf @ rest\<rparr>"
  have "readCount ''bulk'' ?r1 = (Ret (int (length a)), ?r1\<lparr>r_br := a @ crlf @ rest\<rparr>)"
    using assms by (intro readCount_hdr) auto
  moreover have "fill (fst (alloc (length a) r)) (a @ CR # LF # rest) r' = fill (fst (alloc (length a) r)) a r'" for r'
    by (metis alloc_fields(6) append_eq_conv_conj fill_take)
  moreover have "ReadFull e 2 (CR # LF # rest) = (Ret crlf, rest)" for e
    using ReadFull_append [of 2 crlf e rest] by simp
  ultimately show ?thesis
    using assms by (simp add: readBulk_def bulk_enc_def hdr_def store_arg_def case_prod_beta Let_def)
qed

lemma read_args_enc:
  assumes "r_br r = concat (map bulk_enc as) @ rest" and "arena_inv r" and "21 < line_room r"
    and "\<forall>a \<in> set as. int (length a) \<le> MaxBulkSize (r_lim r) \<and> int (length a) \<le> MaxInt64"
  shows "\<exists>r'. read_args (length as) r = (Ret (), r') \<and> r_br r' = rest \<and> args_of r' = args_of r @ as
    \<and> arena_inv r' \<and> r_lim r' = r_lim r \<and> r_err r' = r_err r"
  using assms
proof (induction as arbitrary: r)
  case (Cons a as)
  let ?r0 = "r\<lparr>r_br := concat (map bulk_enc as) @ rest\<rparr>"
  obtain g r1 where st: "store_arg a ?r0 = (g, r1)" by fastforce
  have bulk: "readBulk r = (Ret g, r1)"
    using readBulk_enc [of r a "concat (map bulk_enc as) @ rest"] Cons.prems st by simp
  have inv0: "arena_inv ?r0" using Cons.prems(2) by (simp add: arena_inv_def arena_ok_def)
  have f: "r_br r1 = concat (map bulk_enc as) @ rest" "r_lim r1 = r_lim r" "r_err r1 = r_err r" "r_args r1 = r_args r"
    using store_arg_fields(1-4) [of a ?r0] by (simp_all add: st)
  let ?r2 = "r1\<lparr>r_args := r_args r1 @ [g]\<rparr>"
  have inv2: "arena_inv ?r2" and args2: "args_of ?r2 = args_of r @ [a]"
    using store_arg_inv [OF inv0 st] f by (simp_all add: args_of_def)
  obtain r' where "read_args (length as) ?r2 = (Ret (), r') \<and> r_br r' = rest \<and> args_of r' = args_of ?r2 @ as
      \<and> arena_inv r' \<and> r_lim r' = r_lim r \<and> r_err r' = r_err r"
    using Cons.IH [of ?r2] inv2 f Cons.prems by auto
  with bulk args2 show ?case by auto
qed simp

definition cmd_fits :: "Limits \<Rightarrow> bytes list \<Rightarrow> bool" where
  "cmd_fits lim as \<longleftrightarrow> as \<noteq> [] \<and> int (length as) \<le> MaxMultiBulkLen lim \<and> int (length as) \<le> MaxInt64
     \<and> (\<forall>a \<in> set as. int (length a) \<le> MaxBulkSize lim \<and> int (length a) \<le> MaxInt64)"

definition cmd_enc :: "bytes list \<Rightarrow> bytes" where
  "cmd_enc as = hdr TypeArray (int (length as)) @ concat (map bulk_enc as)"

lemma WriteCommand_enc: "WriteCommand as w = put (cmd_enc as) w"
  by (simp add: WriteCommand_Strings WriteCommandStrings_emit emit_def cmd_enc_def comp_def)

lemma ReadCommand_enc:
  assumes "r_br r = cmd_enc as @ rest" and "arena_ok r" and "21 < line_room r" and "cmd_fits (r_lim r) as"
  shows "\<exists>r'. ReadCommand r = (Ret (Some (r_args r')), r') \<and> r_br r' = rest \<and> args_of r' = as
    \<and> arena_inv r' \<and> r_lim r' = r_lim r \<and> r_err r' = r_err r \<and> \<not> r_inFlight r'"
proof -
  let ?r1 = "r\<lparr>r_args := [], r_used := 0, r_inFlight := True,
    r_br := FormatInt (int (length as)) @ crlf @ concat (map bulk_enc as) @ rest\<rparr>"
  let ?r2 = "?r1\<lparr>r_br := concat (map bulk_enc as) @ rest\<rparr>"
  have cnt: "readCount ''multibulk'' ?r1 = (Ret (int (length as)), ?r2)"
    using assms by (intro readCount_hdr) (auto simp: cmd_fits_def)
  have inv2: "arena_inv ?r2" and args2: "args_of ?r2 = []"
    using assms(2) by (simp_all add: arena_inv_def arena_ok_def args_of_def)
  obtain r' where r': "read_args (length as) ?r2 = (Ret (), r')" "r_br r' = rest" "args_of r' = as"
    "arena_inv r'" "r_lim r' = r_lim r" "r_err r' = r_err r"
    using read_args_enc [of ?r2 as rest] inv2 args2 assms(3,4) by (auto simp: cmd_fits_def)
  let ?r3 = "r'\<lparr>r_inFlight := False\<rparr>"
  have "ReadCommand r = (Ret (Some (r_args ?r3)), ?r3)"
    using assms(1,4) cnt r'(1) by (simp add: ReadCommand_def cmd_enc_def hdr_def Let_def cmd_fits_def)
  moreover have "args_of ?r3 = as" "arena_inv ?r3"
    using r'(3,4) by (simp_all add: args_of_def arena_inv_def arena_ok_def)
  ultimately show ?thesis using r' by (intro exI [of _ ?r3]) simp
qed

text \<open>What a server loop reads: the arguments of the next commands, as they are when each call returns.\<close>

fun read_commands :: "nat \<Rightarrow> (Reader, bytes list list) action" where
  "read_commands 0 r = (Ret [], r)"
| "read_commands (Suc n) r =
     sbind ReadCommand (\<lambda>c r. case read_commands n r of
         (Ret cs, r') \<Rightarrow> (Ret ((case c of None \<Rightarrow> [] | Some gs \<Rightarrow> map (deref (r_heap r)) gs) # cs), r')
       | (Fail e, r') \<Rightarrow> (Fail e, r')
       | (Panic, r') \<Rightarrow> (Panic, r')) r"

lemma read_commands_enc:
  assumes "r_br r = concat (map cmd_enc cmds) @ rest" and "arena_ok r" and "21 < line_room r"
    and "\<forall>c \<in> set cmds. cmd_fits (r_lim r) c"
  shows "\<exists>r'. read_commands (length cmds) r = (Ret cmds, r') \<and> r_br r' = rest"
  using assms
proof (induction cmds arbitrary: r)
  case (Cons c cmds)
  obtain r1 where r1: "ReadCommand r = (Ret (Some (r_args r1)), r1)" "r_br r1 = concat (map cmd_enc cmds) @ rest"
    "args_of r1 = c" "arena_inv r1" "r_lim r1 = r_lim r"
    using ReadCommand_enc [of r c "concat (map cmd_enc cmds) @ rest"] Cons.prems by auto
  obtain r' where "read_commands (length cmds) r1 = (Ret cmds, r')" "r_br r' = rest"
    using Cons.IH [of r1] Cons.prems r1 by (auto simp: arena_inv_def)
  with r1 show ?case by (auto simp: args_of_def)
qed simp

section \<open>A complete buffer is read without waiting\<close>

text \<open>
  \<open>settles m r res r'\<close>: whatever arrives after the unread bytes of \<open>r\<close>, and however the connection
  ends, \<open>m\<close> returns \<open>res\<close> and leaves the new bytes unread.
\<close>

definition settles :: "(Reader, 'a) action \<Rightarrow> Reader \<Rightarrow> 'a res \<Rightarrow> Reader \<Rightarrow> bool" where
  "settles m r res r' \<longleftrightarrow>
     (\<forall>more e. m (r\<lparr>r_br := r_br r @ more, r_err := e\<rparr>) = (res, r'\<lparr>r_br := r_br r' @ more, r_err := e\<rparr>))"

lemma settles_sbind_Ret: "settles m r (Ret x) r1 \<Longrightarrow> settles (f x) r1 res r' \<Longrightarrow> settles (sbind m f) r res r'"
  by (simp add: settles_def)

lemma settles_sbind_Fail: "settles m r (Fail e) r1 \<Longrightarrow> settles (sbind m f) r (Fail e) r1"
  by (simp add: settles_def)

lemma settles_sbind_ex:
  "settles m r (Ret x) r1 \<Longrightarrow> \<exists>res r'. settles (f x) r1 res r' \<and> P res \<Longrightarrow>
   \<exists>res r'. settles (sbind m f) r res r' \<and> P res"
  by (elim exE conjE, intro exI conjI, rule settles_sbind_Ret)

lemma settles_sbind_Fail_ex:
  "settles m r (Fail e) r1 \<Longrightarrow> \<exists>res r'. settles (sbind m f) r res r' \<and> res \<noteq> Panic"
  by (intro exI conjI, erule settles_sbind_Fail) simp

lemma takeWhile_append_LF:
  "LF \<in> set xs \<Longrightarrow> takeWhile (\<lambda>b. b \<noteq> LF) (xs @ ys) = takeWhile (\<lambda>b. b \<noteq> LF) xs"
  by (rule takeWhile_append1) auto

lemma length_takeWhile_LF: "LF \<in> set xs \<Longrightarrow> length (takeWhile (\<lambda>b. b \<noteq> LF) xs) < length xs"
  by (induction xs) auto

definition first_line :: "bytes \<Rightarrow> bytes" where
  "first_line inp = take (length (takeWhile (\<lambda>b. b \<noteq> LF) inp) + 1) inp"

lemma settles_readLine:
  assumes "LF \<in> set (r_br r)" and "length (r_br r) \<le> line_room r"
  defines "line \<equiv> first_line (r_br r)"
  shows "settles readLine r
    (if length line < 2 \<or> line ! (length line - 2) \<noteq> CR then Fail (ProtocolError ''unbalanced line terminator'')
     else Ret (take (length line - 2) line)) (r\<lparr>r_br := drop (length line) (r_br r)\<rparr>)"
proof -
  let ?i = "length (takeWhile (\<lambda>b. b \<noteq> LF) (r_br r))"
  have i: "?i < length (r_br r)" using assms(1) by (rule length_takeWhile_LF)
  have "ReadSlice (line_room r) e (r_br r @ more) = (Ret line, drop (length line) (r_br r) @ more)" for e more
    using i assms by (auto simp: ReadSlice_def takeWhile_append_LF Let_def first_line_def)
  then show ?thesis by (simp add: settles_def readLine_def)
qed

lemma crlf_at_split: "crlf_at buf = Some i \<Longrightarrow> buf = take i buf @ crlf @ drop (i + 2) buf"
proof (induction buf arbitrary: i rule: crlf_at.induct)
  case (1 a b buf)
  then show ?case by (auto split: if_splits)
qed auto

lemma crlf_at_first_line:
  assumes "crlf_at buf = Some i"
  shows "first_line buf = take i buf @ crlf \<or>
    (let line = first_line buf in length line < 2 \<or> line ! (length line - 2) \<noteq> CR)"
  using assms
proof (induction buf arbitrary: i rule: crlf_at.induct)
  case (1 a b buf)
  show ?case
  proof (cases "a = CR \<and> b = LF")
    case True
    with 1 show ?thesis by (simp add: first_line_def)
  next
    case False
    show ?thesis
    proof (cases "a = LF")
      case True
      then show ?thesis by (simp add: first_line_def)
    next
      case aLF: False
      obtain j where j: "crlf_at (b # buf) = Some j" "i = Suc j"
        using "1.prems" False by (auto split: if_splits)
      have fl: "first_line (a # b # buf) = a # first_line (b # buf)"
        using aLF by (simp add: first_line_def)
      have ne: "first_line (b # buf) \<noteq> []" by (simp add: first_line_def)
      show ?thesis
      proof (cases "b = LF")
        case True
        then show ?thesis using False aLF by (simp add: first_line_def)
      next
        case bLF: False
        with ne fl have len: "length (first_line (b # buf)) \<ge> 1" by (cases "first_line (b # buf)") auto
        from "1.IH" [OF False j(1)] show ?thesis
        proof
          assume "first_line (b # buf) = take j (b # buf) @ crlf"
          then show ?thesis by (simp add: fl j(2))
        next
          assume h: "let line = first_line (b # buf) in length line < 2 \<or> line ! (length line - 2) \<noteq> CR"
          have "length (first_line (b # buf)) \<ge> 2"
            using bLF crlf_at_split [OF j(1)]
            by (cases buf) (auto simp: first_line_def Suc_le_eq)
          with h show ?thesis by (auto simp: fl Let_def nth_Cons' numeral_2_eq_2)
        qed
      qed
    qed
  qed
qed auto

lemma settles_readCount:
  assumes pk: "peekCount (r_br r) = Some (n, rest)" and room: "length (r_br r) \<le> line_room r"
  shows "(\<exists>e r'. settles (readCount what) r (Fail e) r') \<or>
    settles (readCount what) r (Ret n) (r\<lparr>r_br := rest\<rparr>)"
proof -
  obtain i where i: "crlf_at (r_br r) = Some i" and rest: "rest = drop (i + 2) (r_br r)"
    using pk by (auto simp: peekCount_def split: option.splits if_splits)
  note sp = crlf_at_split [OF i]
  have LF: "LF \<in> set (r_br r)"
    by (subst sp) simp
  note line = settles_readLine [OF LF room]
  from crlf_at_first_line [OF i] show ?thesis
  proof
    assume fl: "first_line (r_br r) = take i (r_br r) @ crlf"
    have il: "i + 2 \<le> length (r_br r)"
      using arg_cong [OF sp, of length] by simp
    then have il': "min (length (r_br r)) i = i" by simp
    have rl: "settles readLine r (Ret (take i (r_br r))) (r\<lparr>r_br := rest\<rparr>)"
      using line il by (simp add: fl nth_append rest il')
    show ?thesis
    proof (cases "parseInt (take i (r_br r))")
      case None
      then have "settles (readCount what) r (Fail (ProtocolError (''invalid '' @ what @ '' length''))) (r\<lparr>r_br := rest\<rparr>)"
        unfolding readCount_def by (intro settles_sbind_Ret [OF rl]) (simp add: settles_def)
      then show ?thesis by blast
    next
      case (Some v)
      show ?thesis
      proof (cases "count_in_range v")
        case True
        then have "n = v" using pk i Some by (simp add: peekCount_def)
        then have "settles (readCount what) r (Ret n) (r\<lparr>r_br := rest\<rparr>)"
          unfolding readCount_def using Some True
          by (intro settles_sbind_Ret [OF rl]) (simp add: settles_def)
        then show ?thesis by blast
      next
        case False
        then have "settles (readCount what) r (Fail (ProtocolError (''invalid '' @ what @ '' length''))) (r\<lparr>r_br := rest\<rparr>)"
          unfolding readCount_def using Some by (intro settles_sbind_Ret [OF rl]) (simp add: settles_def)
        then show ?thesis by blast
      qed
    qed
  next
    assume "let line = first_line (r_br r) in length line < 2 \<or> line ! (length line - 2) \<noteq> CR"
    with line have "settles readLine r (Fail (ProtocolError ''unbalanced line terminator''))
        (r\<lparr>r_br := drop (length (first_line (r_br r))) (r_br r)\<rparr>)"
      by (simp add: Let_def)
    then show ?thesis unfolding readCount_def by (intro disjI1 exI, rule settles_sbind_Fail)
  qed
qed

text \<open>The part of \<open>readBulk\<close> after the length is known.\<close>

definition bulk_body :: "int \<Rightarrow> (Reader, region) action" where
  "bulk_body n r =
     (if n < 0 \<or> n > MaxBulkSize (r_lim r) then (Fail (ProtocolError ''invalid bulk length''), r)
      else
        let (buf, r) = alloc (nat n) r;
            r = fill buf (r_br r) r
        in case ReadFull (r_err r) (nat n) (r_br r) of
             (Fail e, br) \<Rightarrow> (Fail (ioOrUnexpected e), r\<lparr>r_br := br\<rparr>)
           | (Panic, br) \<Rightarrow> (Panic, r\<lparr>r_br := br\<rparr>)
           | (Ret _, br) \<Rightarrow>
               (case ReadFull (r_err r) 2 br of
                  (Fail e, br) \<Rightarrow> (Fail (ioOrUnexpected e), r\<lparr>r_br := br\<rparr>)
                | (Panic, br) \<Rightarrow> (Panic, r\<lparr>r_br := br\<rparr>)
                | (Ret tail, br) \<Rightarrow>
                    (if tail ! 0 \<noteq> CR \<or> tail ! 1 \<noteq> LF
                     then Fail (ProtocolError ''bulk string not terminated by CRLF'')
                     else Ret buf, r\<lparr>r_br := br\<rparr>)))"

lemma readBulk_Cons:
  "r_br r = t # br \<Longrightarrow>
   readBulk r =
     (if t \<noteq> TypeBulkString
      then (Fail (ProtocolError (''expected '' @ [CHR 0x27] @ ''$'' @ [CHR 0x27] @ '', got ''
              @ [CHR 0x27] @ fmt_c t @ [CHR 0x27])), r\<lparr>r_br := br\<rparr>)
      else sbind (readCount ''bulk'') bulk_body (r\<lparr>r_br := br\<rparr>))"
  by (simp add: readBulk_def Let_def bulk_body_def [abs_def])

lemma alloc_err [simp]: "alloc n (r\<lparr>r_err := e\<rparr>) = (fst (alloc n r), (snd (alloc n r))\<lparr>r_err := e\<rparr>)"
  by (simp add: alloc_def Let_def)

lemma fill_err [simp]: "fill g a (r\<lparr>r_err := e\<rparr>) = (fill g a r)\<lparr>r_err := e\<rparr>"
  by (simp add: fill_def)

lemma fill_prefix: "length a \<ge> len g \<Longrightarrow> fill g (a @ b) r = fill g a r"
  by (simp add: fill_def)

lemma settles_bulk_body:
  assumes n: "0 \<le> n" "n \<le> MaxBulkSize (r_lim r)" and tail: "nat n + 2 \<le> length (r_br r)"
  shows "\<exists>res r'. settles (bulk_body n) r res r' \<and> res \<noteq> Panic \<and> r_br r' = drop (nat n + 2) (r_br r)
    \<and> r_lim r' = r_lim r"
proof -
  let ?a = "alloc (nat n) r"
  let ?r1 = "(fill (fst ?a) (r_br r) (snd ?a))\<lparr>r_br := drop (nat n + 2) (r_br r)\<rparr>"
  let ?t = "take 2 (drop (nat n) (r_br r))"
  let ?res = "if ?t ! 0 \<noteq> CR \<or> ?t ! 1 \<noteq> LF
    then Fail (ProtocolError ''bulk string not terminated by CRLF'') else Ret (fst ?a)"
  have "settles (bulk_body n) r ?res ?r1"
    unfolding settles_def
  proof (intro allI)
    fix more e
    have r1: "ReadFull e (nat n) (r_br r @ more) = (Ret (take (nat n) (r_br r)), drop (nat n) (r_br r) @ more)"
      using tail by (simp add: ReadFull_def)
    have r2: "ReadFull e 2 (drop (nat n) (r_br r) @ more) = (Ret ?t, drop (nat n + 2) (r_br r) @ more)"
      using tail by (simp add: ReadFull_def add.commute)
    show "bulk_body n (r\<lparr>r_br := r_br r @ more, r_err := e\<rparr>) =
      (?res, ?r1\<lparr>r_br := r_br ?r1 @ more, r_err := e\<rparr>)"
      using n tail r1 r2 by (simp add: bulk_body_def case_prod_beta Let_def fill_prefix)
  qed
  moreover have "?res \<noteq> Panic" by simp
  ultimately show ?thesis by (intro exI [of _ ?res] exI [of _ ?r1]) auto
qed

lemma err_br_swap: "r\<lparr>r_err := e, r_br := b\<rparr> = r\<lparr>r_br := b, r_err := e\<rparr>"
  by (cases r) simp

lemma args_swap:
  "r\<lparr>r_br := b, r_err := e, r_args := xs\<rparr> = r\<lparr>r_args := xs, r_br := b, r_err := e\<rparr>"
  by (cases r) simp

lemma inFlight_swap:
  "r\<lparr>r_br := b, r_err := e, r_inFlight := f\<rparr> = r\<lparr>r_inFlight := f, r_br := b, r_err := e\<rparr>"
  by (cases r) simp

lemma reset_swap:
  "r\<lparr>r_br := b, r_err := e, r_args := xs, r_used := u, r_inFlight := f\<rparr> =
   r\<lparr>r_args := xs, r_used := u, r_inFlight := f, r_br := b, r_err := e\<rparr>"
  "r\<lparr>r_err := e, r_args := xs, r_used := u, r_inFlight := f, r_br := b\<rparr> =
   r\<lparr>r_args := xs, r_used := u, r_inFlight := f, r_br := b, r_err := e\<rparr>"
  by (cases r; simp)+

lemma peekCount_length: "peekCount buf = Some (n, rest) \<Longrightarrow> length rest \<le> length buf"
  by (auto simp: peekCount_def split: option.splits if_splits)

lemma settles_readBulk:
  assumes "complete_args (r_lim r) (Suc k) (r_br r) = Ret True" and room: "length (r_br r) \<le> line_room r"
  shows "(\<exists>e r'. settles readBulk r (Fail e) r') \<or>
    (\<exists>g r'. settles readBulk r (Ret g) r' \<and> complete_args (r_lim r') k (r_br r') = Ret True
      \<and> length (r_br r') \<le> line_room r' \<and> r_lim r' = r_lim r)"
proof -
  obtain t br where br: "r_br r = t # br"
    using assms(1) by (cases "r_br r") auto
  let ?r0 = "r\<lparr>r_br := br\<rparr>"
  have Cons: "readBulk (r\<lparr>r_br := r_br r @ more, r_err := e\<rparr>) = (if t \<noteq> TypeBulkString
      then (Fail (ProtocolError (''expected '' @ [CHR 0x27] @ ''$'' @ [CHR 0x27] @ '', got ''
              @ [CHR 0x27] @ fmt_c t @ [CHR 0x27])), ?r0\<lparr>r_br := r_br ?r0 @ more, r_err := e\<rparr>)
      else sbind (readCount ''bulk'') bulk_body (?r0\<lparr>r_br := r_br ?r0 @ more, r_err := e\<rparr>))" for more e
    by (subst readBulk_Cons [of _ t "br @ more"]) (simp_all add: br err_br_swap)
  show ?thesis
  proof (cases "t = TypeBulkString")
    case False
    then have "settles readBulk r (Fail (ProtocolError (''expected '' @ [CHR 0x27] @ ''$'' @ [CHR 0x27] @ '', got ''
              @ [CHR 0x27] @ fmt_c t @ [CHR 0x27]))) ?r0"
      using Cons by (simp add: settles_def)
    then show ?thesis by blast
  next
    case True
    have eq: "settles readBulk r res r' \<longleftrightarrow> settles (sbind (readCount ''bulk'') bulk_body) ?r0 res r'" for res r'
      using Cons True by (simp add: settles_def)
    obtain sz tail where pk: "peekCount br = Some (sz, tail)"
      using assms(1) True by (auto simp: br split: option.splits)
    have room0: "length (r_br ?r0) \<le> line_room ?r0" using room by (simp add: br)
    from settles_readCount [of ?r0 sz tail "''bulk''"] pk room0
    consider (fail) e r' where "settles (readCount ''bulk'') ?r0 (Fail e) r'"
      | (ret) "settles (readCount ''bulk'') ?r0 (Ret sz) (?r0\<lparr>r_br := tail\<rparr>)" by auto
    then show ?thesis
    proof cases
      case fail
      then show ?thesis unfolding eq by (intro disjI1 exI, rule settles_sbind_Fail)
    next
      case ret
      show ?thesis
      proof (cases "sz < 0 \<or> sz > MaxBulkSize (r_lim r)")
        case True
        then have "settles (bulk_body sz) (?r0\<lparr>r_br := tail\<rparr>) (Fail (ProtocolError ''invalid bulk length'')) (?r0\<lparr>r_br := tail\<rparr>)"
          by (auto simp: settles_def bulk_body_def)
        then show ?thesis unfolding eq by (intro disjI1 exI, rule settles_sbind_Ret [OF ret])
      next
        case False
        have c: "\<not> int (length tail) < i64 (sz + 2)"
          and s: "bind_res (slice tail (i64 (sz + 2)) (int (length tail))) (\<lambda>rest. complete_args (r_lim r) k rest) = Ret True"
          using assms(1) True False pk by (auto simp: br split: if_splits)
        have nn: "0 \<le> i64 (sz + 2)" using s by (auto simp: slice_def split: if_splits)
        have sz: "i64 (sz + 2) = sz + 2"
        proof -
          have "sz \<le> MaxInt64"
            using pk by (auto simp: peekCount_def count_in_range_def split: option.splits if_splits)
          then consider "sz + 2 \<le> MaxInt64" | "sz = MaxInt64 - 1" | "sz = MaxInt64" by linarith
          then show ?thesis using nn False by cases (auto simp: i64_def is_i64_def)
        qed
        have rest: "complete_args (r_lim r) k (drop (nat sz + 2) tail) = Ret True"
          using s sz False c by (simp add: slice_def nat_add_distrib split: if_splits)
        have tl: "nat sz + 2 \<le> length tail" using c sz False by linarith
        obtain res r' where r': "settles (bulk_body sz) (?r0\<lparr>r_br := tail\<rparr>) res r'" "res \<noteq> Panic"
          "r_br r' = drop (nat sz + 2) tail" "r_lim r' = r_lim r"
          using settles_bulk_body [of sz "?r0\<lparr>r_br := tail\<rparr>"] False tl by auto
        have "settles readBulk r res r'" unfolding eq by (rule settles_sbind_Ret [OF ret]) (rule r'(1))
        moreover have "length (r_br r') \<le> line_room r'"
          using peekCount_length [OF pk] room r' by (simp add: br)
        ultimately show ?thesis
        proof (cases res)
          case (Ret g)
          with \<open>settles readBulk r res r'\<close> \<open>length (r_br r') \<le> line_room r'\<close> r'(3,4) rest show ?thesis
            by (intro disjI2 exI [of _ g] exI [of _ r']) simp
        qed (use r'(2) in auto)
      qed
    qed
  qed
qed

lemma settles_read_args:
  assumes "complete_args (r_lim r) k (r_br r) = Ret True" and "length (r_br r) \<le> line_room r"
  shows "(\<exists>e r'. settles (read_args k) r (Fail e) r') \<or> (\<exists>r'. settles (read_args k) r (Ret ()) r')"
  using assms
proof (induction k arbitrary: r)
  case 0
  then show ?case by (auto simp: settles_def)
next
  case (Suc k)
  have unf: "settles (read_args (Suc k)) r res r' \<longleftrightarrow>
      settles (sbind readBulk (\<lambda>arg r. read_args k (r\<lparr>r_args := r_args r @ [arg]\<rparr>))) r res r'" for res r'
    by (simp add: settles_def)
  from settles_readBulk [OF Suc.prems] show ?case
  proof
    assume "\<exists>e r'. settles readBulk r (Fail e) r'"
    then obtain e r' where "settles readBulk r (Fail e) r'" by blast
    then show ?thesis unfolding unf by (intro disjI1 exI, rule settles_sbind_Fail)
  next
    assume "\<exists>g r'. settles readBulk r (Ret g) r' \<and> complete_args (r_lim r') k (r_br r') = Ret True
      \<and> length (r_br r') \<le> line_room r' \<and> r_lim r' = r_lim r"
    then obtain g r1 where r1: "settles readBulk r (Ret g) r1" "complete_args (r_lim r1) k (r_br r1) = Ret True"
      "length (r_br r1) \<le> line_room r1" by blast
    let ?r2 = "r1\<lparr>r_args := r_args r1 @ [g]\<rparr>"
    have *: "settles (\<lambda>r. read_args k (r\<lparr>r_args := r_args r @ [g]\<rparr>)) r1 res r' \<longleftrightarrow> settles (read_args k) ?r2 res r'" for res r'
      by (simp add: settles_def args_swap)
    have "(\<exists>e r'. settles (read_args k) ?r2 (Fail e) r') \<or> (\<exists>r'. settles (read_args k) ?r2 (Ret ()) r')"
      using r1 by (intro Suc.IH) auto
    then consider (f) e r' where "settles (read_args k) ?r2 (Fail e) r'"
      | (r) r' where "settles (read_args k) ?r2 (Ret ()) r'" by blast
    then show ?thesis
    proof cases
      case f
      then show ?thesis unfolding unf * [symmetric]
        by (intro disjI1 exI, intro settles_sbind_Ret [OF r1(1)])
    next
      case r
      then show ?thesis unfolding unf * [symmetric]
        by (intro disjI2 exI, intro settles_sbind_Ret [OF r1(1)])
    qed
  qed
qed

definition inline_body :: "bytes \<Rightarrow> (Reader, region list option) action" where
  "inline_body line r =
     (if int (length line) > MaxInlineSize (r_lim r)
      then (Fail (ProtocolError ''too big inline request''), r)
      else
        let (buf, r) = alloc (length line) r;
            r = fill buf line r;
            r = r\<lparr>r_args := inline_loop line buf 0 (r_args r)\<rparr>
        in (Ret (if r_args r = [] then None else Some (r_args r)), r))"

lemma readInline_body: "readInline = sbind readLine inline_body"
  by (simp add: readInline_def inline_body_def [abs_def])

lemma settles_inline_body:
  "settles (inline_body line) r (fst (inline_body line r)) (snd (inline_body line r))"
  by (simp add: settles_def inline_body_def case_prod_beta Let_def args_swap)

lemma inline_body_not_Panic: "fst (inline_body line r) \<noteq> Panic"
  by (simp add: inline_body_def case_prod_beta Let_def)

lemma settles_readInline:
  assumes "LF \<in> set (r_br r)" and "length (r_br r) \<le> line_room r"
  shows "\<exists>res r'. settles readInline r res r' \<and> res \<noteq> Panic"
proof -
  let ?line = "first_line (r_br r)" and ?r1 = "r\<lparr>r_br := drop (length (first_line (r_br r))) (r_br r)\<rparr>"
  note rl = settles_readLine [OF assms]
  show ?thesis
  proof (cases "length ?line < 2 \<or> ?line ! (length ?line - 2) \<noteq> CR")
    case True
    with rl have "settles readLine r (Fail (ProtocolError ''unbalanced line terminator'')) ?r1" by simp
    then show ?thesis unfolding readInline_body by (rule settles_sbind_Fail_ex)
  next
    case False
    with rl have "settles readLine r (Ret (take (length ?line - 2) ?line)) ?r1" by simp
    then show ?thesis unfolding readInline_body
      using settles_inline_body inline_body_not_Panic by (intro settles_sbind_ex) blast+
  qed
qed

lemma settles_ReadCommand:
  assumes c: "HasCompleteCommand (r_lim r) (r_br r) = Ret True" and room: "length (r_br r) \<le> line_room r"
  shows "\<exists>res r'. settles ReadCommand r res r' \<and> res \<noteq> Panic"
proof -
  obtain t br where br: "r_br r = t # br"
    using c by (cases "r_br r") (auto simp: HasCompleteCommand_def)
  let ?r0 = "r\<lparr>r_args := [], r_used := 0, r_inFlight := True\<rparr>"
  let ?done = "\<lambda>m r. case m r of (Ret args, r) \<Rightarrow> (Ret args, r\<lparr>r_inFlight := False\<rparr>)
     | (Fail e, r) \<Rightarrow> (Fail e, r) | (Panic, r) \<Rightarrow> (Panic, r)"
  show ?thesis
  proof (cases "t = TypeArray")
    case False
    then have "LF \<in> set (r_br r)"
      using c by (simp add: HasCompleteCommand_def br list_ex_iff)
    then obtain res r' where s: "settles readInline ?r0 res r'" "res \<noteq> Panic"
      using settles_readInline [of ?r0] room by auto
    have "ReadCommand (r\<lparr>r_br := r_br r @ more, r_err := e\<rparr>) =
        ?done readInline (?r0\<lparr>r_br := r_br ?r0 @ more, r_err := e\<rparr>)" for more e
      using False by (simp add: ReadCommand_def br Let_def reset_swap inFlight_swap err_br_swap)
    with s have "settles ReadCommand r res (case res of Ret _ \<Rightarrow> r'\<lparr>r_inFlight := False\<rparr> | _ \<Rightarrow> r')"
      by (cases res) (simp_all add: settles_def inFlight_swap)
    with s(2) show ?thesis by blast
  next
    case True
    let ?r1 = "?r0\<lparr>r_br := br\<rparr>"
    obtain n rest where pk: "peekCount br = Some (n, rest)"
      using c True by (auto simp: HasCompleteCommand_def br split: option.splits)
    let ?k = "\<lambda>n r. if n < 0 then (Ret None, r\<lparr>r_inFlight := False\<rparr>)
               else if n = 0 then (Ret None, r\<lparr>r_inFlight := False\<rparr>)
               else if n > MaxMultiBulkLen (r_lim r)
               then (Fail (ProtocolError ''invalid multibulk length''), r)
               else sbind (read_args (nat n))
                      (\<lambda>_ r. (Ret (Some (r_args r)), r\<lparr>r_inFlight := False\<rparr>)) r"
    have unf: "settles ReadCommand r res r' \<longleftrightarrow> settles (sbind (readCount ''multibulk'') ?k) ?r1 res r'" for res r'
      using True by (simp add: settles_def ReadCommand_def br Let_def reset_swap inFlight_swap err_br_swap)
    from settles_readCount [of ?r1 n rest "''multibulk''"] pk room
    consider (fail) e r' where "settles (readCount ''multibulk'') ?r1 (Fail e) r'"
      | (ret) "settles (readCount ''multibulk'') ?r1 (Ret n) (?r1\<lparr>r_br := rest\<rparr>)" by (auto simp: br)
    then show ?thesis
    proof cases
      case fail
      then show ?thesis unfolding unf by (rule settles_sbind_Fail_ex)
    next
      case ret
      let ?r2 = "?r1\<lparr>r_br := rest\<rparr>"
      have "\<exists>res r'. settles (?k n) ?r2 res r' \<and> res \<noteq> Panic"
      proof (cases "n \<le> 0 \<or> n > MaxMultiBulkLen (r_lim r)")
        case True
        then have "settles (?k n) ?r2 (fst (?k n ?r2)) (snd (?k n ?r2)) \<and> fst (?k n ?r2) \<noteq> Panic"
          by (auto simp: settles_def inFlight_swap)
        then show ?thesis by blast
      next
        case False
        then have k: "settles (?k n) ?r2 res r' \<longleftrightarrow> settles (sbind (read_args (nat n))
            (\<lambda>_ r. (Ret (Some (r_args r)), r\<lparr>r_inFlight := False\<rparr>))) ?r2 res r'" for res r'
          by (simp add: settles_def)
        have "complete_args (r_lim ?r2) (nat n) (r_br ?r2) = Ret True"
          using c True False pk by (simp add: HasCompleteCommand_def br)
        moreover have "length (r_br ?r2) \<le> line_room ?r2"
          using room peekCount_length [OF pk] by (simp add: br)
        ultimately consider (f) e r' where "settles (read_args (nat n)) ?r2 (Fail e) r'"
          | (r) r' where "settles (read_args (nat n)) ?r2 (Ret ()) r'"
          using settles_read_args by blast
        then show ?thesis
        proof cases
          case f
          then show ?thesis unfolding k by (rule settles_sbind_Fail_ex)
        next
          case (r r')
          have "settles (\<lambda>r. (Ret (Some (r_args r)), r\<lparr>r_inFlight := False\<rparr>)) r' (Ret (Some (r_args r')))
              (r'\<lparr>r_inFlight := False\<rparr>)"
            by (simp add: settles_def inFlight_swap)
          then show ?thesis unfolding k by (intro settles_sbind_ex [OF r]) blast
        qed
      qed
      then show ?thesis unfolding unf by (rule settles_sbind_ex [OF ret])
    qed
  qed
qed

section \<open>What every call leaves in place\<close>

lemma readLine_frame [frame_simps]:
  "r_inFlight (snd (readLine r)) = r_inFlight r" "fst (readLine r) \<noteq> Panic"
  "r_heap (snd (readLine r)) = r_heap r" "r_block (snd (readLine r)) = r_block r"
  "r_used (snd (readLine r)) = r_used r" "r_args (snd (readLine r)) = r_args r"
  "r_lim (snd (readLine r)) = r_lim r"
  by (auto simp: readLine_def split: prod.splits res.splits)

lemma readCount_frame [frame_simps]:
  "r_inFlight (snd (readCount what r)) = r_inFlight r" "fst (readCount what r) \<noteq> Panic"
  "r_heap (snd (readCount what r)) = r_heap r" "r_block (snd (readCount what r)) = r_block r"
  "r_used (snd (readCount what r)) = r_used r" "r_args (snd (readCount what r)) = r_args r"
  "r_lim (snd (readCount what r)) = r_lim r"
  using readLine_frame [of r]
  by (auto simp: readCount_def sbind_def split: prod.splits res.splits option.splits if_splits)

lemma ReadFull_not_Panic [simp]: "ReadFull e n inp \<noteq> (Panic, rest)" "fst (ReadFull e n inp) \<noteq> Panic"
  by (simp_all add: ReadFull_def)

lemma bulk_body_frame:
  "r_inFlight (snd (bulk_body n r)) = r_inFlight r" "fst (bulk_body n r) \<noteq> Panic"
  "r_args (snd (bulk_body n r)) = r_args r" "r_lim (snd (bulk_body n r)) = r_lim r"
  by (auto simp: bulk_body_def case_prod_beta Let_def split: prod.splits res.splits)

lemma readBulk_frame:
  "r_inFlight (snd (readBulk r)) = r_inFlight r \<and> fst (readBulk r) \<noteq> Panic
    \<and> r_args (snd (readBulk r)) = r_args r \<and> r_lim (snd (readBulk r)) = r_lim r"
proof (cases "r_br r")
  case Nil
  then show ?thesis by (simp add: readBulk_def ReadByte_def)
next
  case (Cons t br)
  obtain x r1 where rc: "readCount ''bulk'' (r\<lparr>r_br := br\<rparr>) = (x, r1)" by fastforce
  then show ?thesis
    using readCount_frame [of "''bulk''" "r\<lparr>r_br := br\<rparr>"] bulk_body_frame
    by (cases x) (auto simp: readBulk_Cons [OF Cons])
qed

lemma read_args_frame:
  "r_inFlight (snd (read_args k r)) = r_inFlight r \<and> fst (read_args k r) \<noteq> Panic
    \<and> r_lim (snd (read_args k r)) = r_lim r"
proof (induction k arbitrary: r)
  case (Suc k)
  obtain x r1 where rc: "readBulk r = (x, r1)" by fastforce
  then show ?case
    using readBulk_frame [of r] Suc.IH [of "r1\<lparr>r_args := r_args r1 @ [_]\<rparr>"] by (cases x) auto
qed simp

lemma readInline_frame:
  "r_inFlight (snd (readInline r)) = r_inFlight r \<and> fst (readInline r) \<noteq> Panic"
proof -
  obtain x r1 where rl: "readLine r = (x, r1)" by fastforce
  then show ?thesis
    using readLine_frame [of r] inline_body_not_Panic
    by (cases x) (auto simp: readInline_body inline_body_def case_prod_beta Let_def)
qed

text \<open>The command part of \<open>ReadCommand\<close> after the count.\<close>

definition command_body :: "int \<Rightarrow> (Reader, region list option) action" where
  "command_body n r =
     (if n < 0 then (Ret None, r\<lparr>r_inFlight := False\<rparr>)
      else if n = 0 then (Ret None, r\<lparr>r_inFlight := False\<rparr>)
      else if n > MaxMultiBulkLen (r_lim r)
      then (Fail (ProtocolError ''invalid multibulk length''), r)
      else sbind (read_args (nat n)) (\<lambda>_ r. (Ret (Some (r_args r)), r\<lparr>r_inFlight := False\<rparr>)) r)"

lemma ReadCommand_Cons:
  assumes "r_br r = t # br"
  defines "r0 \<equiv> r\<lparr>r_args := [], r_used := 0, r_inFlight := True\<rparr>"
  shows "ReadCommand r =
    (if t \<noteq> TypeArray then
       (case readInline r0 of
          (Ret args, r) \<Rightarrow> (Ret args, r\<lparr>r_inFlight := False\<rparr>)
        | (Fail e, r) \<Rightarrow> (Fail e, r)
        | (Panic, r) \<Rightarrow> (Panic, r))
     else sbind (readCount ''multibulk'') command_body (r0\<lparr>r_br := br\<rparr>))"
  using assms by (simp add: ReadCommand_def Let_def command_body_def [abs_def])

lemma command_body_inFlight:
  "r_inFlight r \<Longrightarrow> r_inFlight (snd (command_body n r)) \<longleftrightarrow> (\<exists>e. fst (command_body n r) = Fail e)"
  "fst (command_body n r) \<noteq> Panic"
  using read_args_frame [of "nat n" r]
  by (auto simp: command_body_def sbind_def split: prod.splits res.splits)

lemma ReadCommand_inFlight:
  "r_inFlight (snd (ReadCommand r)) \<longleftrightarrow> r_br r \<noteq> [] \<and> (\<exists>e. fst (ReadCommand r) = Fail e)"
proof (cases "r_br r")
  case Nil
  then show ?thesis by (simp add: ReadCommand_def)
next
  case (Cons t br)
  let ?r0 = "r\<lparr>r_args := [], r_used := 0, r_inFlight := True\<rparr>"
  show ?thesis
  proof (cases "t = TypeArray")
    case False
    then show ?thesis
      using readInline_frame [of ?r0]
      by (auto simp: ReadCommand_Cons [OF Cons] Cons split: prod.splits res.splits)
  next
    case True
    obtain x r1 where rc: "readCount ''multibulk'' (?r0\<lparr>r_br := br\<rparr>) = (x, r1)" by fastforce
    have "r_inFlight r1" "x \<noteq> Panic"
      using readCount_frame(1,2) [of "''multibulk''" "?r0\<lparr>r_br := br\<rparr>"] by (simp_all add: rc)
    with rc True command_body_inFlight [where r = r1] show ?thesis
      by (cases x) (simp_all add: ReadCommand_Cons [OF Cons] Cons)
  qed
qed

section \<open>Arguments of any command are disjoint\<close>

lemma bulk_body_store:
  assumes "bulk_body n r = (Ret g, r')"
  shows "\<exists>a br. store_arg a r = (g, r'\<lparr>r_br := br\<rparr>)"
proof -
  have n: "0 \<le> n" "nat n \<le> length (r_br r)"
    using assms by (auto simp: bulk_body_def case_prod_beta Let_def ReadFull_def split: if_splits)
  have "fill (fst (alloc (nat n) r)) (take (nat n) (r_br r)) q = fill (fst (alloc (nat n) r)) (r_br r) q" for q
    by (metis alloc_fields(6) fill_take)
  with n assms have "store_arg (take (nat n) (r_br r)) r = (g, r'\<lparr>r_br := r_br r\<rparr>)"
    by (auto simp: bulk_body_def store_arg_def case_prod_beta Let_def min_def split: if_splits prod.splits res.splits)
  then show ?thesis by blast
qed

lemma arena_inv_br [simp]: "arena_inv (r\<lparr>r_br := b\<rparr>) = arena_inv r"
  by (simp add: arena_inv_def arena_ok_def)

lemma arena_inv_inFlight [simp]: "arena_inv (r\<lparr>r_inFlight := b\<rparr>) = arena_inv r"
  by (simp add: arena_inv_def arena_ok_def)

lemma readBulk_arena:
  assumes inv: "arena_inv r" and rb: "readBulk r = (Ret g, r')"
  shows "arena_inv (r'\<lparr>r_args := r_args r' @ [g]\<rparr>)"
proof -
  obtain t br where br: "r_br r = t # br"
    using rb by (cases "r_br r") (auto simp: readBulk_def ReadByte_def)
  obtain n r1 where rc: "readCount ''bulk'' (r\<lparr>r_br := br\<rparr>) = (Ret n, r1)" and bb: "bulk_body n r1 = (Ret g, r')"
    using rb by (auto simp: readBulk_Cons [OF br] sbind_eq_Ret split: if_splits)
  have inv1: "arena_inv r1"
    using inv readCount_frame [of "''bulk''" "r\<lparr>r_br := br\<rparr>"] by (simp add: rc arena_inv_def arena_ok_def)
  obtain a b where st: "store_arg a r1 = (g, r'\<lparr>r_br := b\<rparr>)" using bulk_body_store [OF bb] by blast
  have "r_args r' = r_args r1" using bulk_body_frame(3) [of n r1] by (simp add: bb)
  moreover have "arena_inv ((r'\<lparr>r_br := b\<rparr>)\<lparr>r_args := r_args r1 @ [g]\<rparr>)"
    by (rule store_arg_inv(1) [OF inv1 st])
  ultimately show ?thesis by (simp add: arena_inv_def arena_ok_def)
qed

lemma read_args_arena:
  assumes "arena_inv r" and "read_args k r = (Ret (), r')"
  shows "arena_inv r'"
  using assms
proof (induction k arbitrary: r)
  case (Suc k)
  then obtain g r1 where "readBulk r = (Ret g, r1)" "read_args k (r1\<lparr>r_args := r_args r1 @ [g]\<rparr>) = (Ret (), r')"
    by (auto simp: sbind_eq_Ret)
  with Suc readBulk_arena show ?case by blast
qed simp

text \<open>The words of an inline command.\<close>

function fields :: "bytes \<Rightarrow> bytes list" where
  "fields s =
     (let t = dropWhile isSpace s in
      if t = [] then [] else takeWhile (\<lambda>b. \<not> isSpace b) t # fields (dropWhile (\<lambda>b. \<not> isSpace b) t))"
  by pat_completeness auto
termination
proof (relation "measure length", goal_cases)
  case (2 s t)
  from 2(2) obtain c u where t: "t = c # u" by (cases t) auto
  then have c: "\<not> isSpace c" using 2(1) by (metis hd_dropWhile list.sel(1) list.distinct(1))
  have "length (dropWhile (\<lambda>b. \<not> isSpace b) t) \<le> length u" using c by (simp add: t length_dropWhile_le)
  moreover have "length t \<le> length s" using 2(1) by (simp add: length_dropWhile_le)
  ultimately show ?case by (simp add: t)
qed simp

declare fields.simps [simp del]

lemma drop_skip_space: "drop (skip_space buf i) buf = dropWhile isSpace (drop i buf)"
  by (simp add: skip_space_def dropWhile_eq_drop add.commute)

lemma drop_skip_word: "drop (skip_word buf i) buf = dropWhile (\<lambda>b. \<not> isSpace b) (drop i buf)"
  by (simp add: skip_word_def dropWhile_eq_drop add.commute)

lemma skip_word_le: "i \<le> length buf \<Longrightarrow> skip_word buf i \<le> length buf"
  using length_takeWhile_le [of "\<lambda>b. \<not> isSpace b" "drop i buf"] by (simp add: skip_word_def)

lemma inline_loop_contents:
  assumes "deref h g = buf" and "region_ok h g" and "len g = length buf"
  shows "map (deref h) (inline_loop buf g i args) = map (deref h) args @ fields (drop i buf)"
  using assms
proof (induction buf g i args rule: inline_loop.induct)
  case (1 buf g i args)
  let ?s = "skip_space buf i"
  let ?e = "skip_word buf ?s"
  show ?case
  proof (cases "?s < length buf \<and> i < length buf")
    case False
    then have "length buf \<le> ?s" by (auto simp: skip_space_def)
    then have "dropWhile isSpace (drop i buf) = []" by (simp flip: drop_skip_space)
    with False show ?thesis by (auto simp: inline_loop.simps [of buf g i args] fields.simps [of "drop i buf"] Let_def)
  next
    case True
    let ?g = "\<lparr>blk = blk g, off = off g + ?s, len = ?e - ?s\<rparr>"
    have nz: "dropWhile isSpace (drop i buf) \<noteq> []"
      using True by (simp flip: drop_skip_space)
    have "deref h ?g = take (?e - ?s) (drop ?s buf)"
    proof -
      have le: "?s + (?e - ?s) \<le> length buf"
        using True skip_word_le [of ?s buf] by (simp add: skip_word_def)
      have "buf = take (length buf) (drop (off g) (h ! blk g))"
        using 1(2,4) by (simp add: deref_def)
      from arg_cong [OF this, of "\<lambda>x. take (?e - ?s) (drop ?s x)"] show ?thesis
        using le by (simp add: deref_def drop_take add.commute)
    qed
    also have "\<dots> = takeWhile (\<lambda>b. \<not> isSpace b) (dropWhile isSpace (drop i buf))"
      by (simp add: skip_word_def drop_skip_space takeWhile_eq_take [symmetric])
    finally have d: "deref h ?g = takeWhile (\<lambda>b. \<not> isSpace b) (dropWhile isSpace (drop i buf))" .
    have ih: "map (deref h) (inline_loop buf g ?e (args @ [?g])) =
        map (deref h) (args @ [?g]) @ fields (drop ?e buf)"
      using 1(1) [of ?s ?e] True 1(2-4) by simp
    have "inline_loop buf g i args = inline_loop buf g ?e (args @ [?g])"
      using True by (simp add: inline_loop.simps [of buf g i args] Let_def)
    moreover have "fields (drop i buf) = deref h ?g # fields (drop ?e buf)"
      using nz by (simp add: fields.simps [of "drop i buf"] Let_def d drop_skip_word drop_skip_space)
    ultimately show ?thesis using ih by simp
  qed
qed

lemma inline_loop_disjoint:
  assumes "\<forall>h \<in> set args. blk h = blk g \<and> off h + len h \<le> off g + i" and "sorted_wrt disjoint args"
    and "i \<le> length buf"
  shows "(\<forall>h \<in> set (inline_loop buf g i args). blk h = blk g \<and> off h + len h \<le> off g + length buf)
    \<and> sorted_wrt disjoint (inline_loop buf g i args)"
  using assms
proof (induction buf g i args rule: inline_loop.induct)
  case (1 buf g i args)
  let ?s = "skip_space buf i"
  let ?e = "skip_word buf ?s"
  show ?case
  proof (cases "?s < length buf \<and> i < length buf")
    case False
    then have "inline_loop buf g i args = args"
      by (auto simp: inline_loop.simps [of buf g i args] Let_def)
    with 1(2-4) show ?thesis by fastforce
  next
    case True
    let ?g = "\<lparr>blk = blk g, off = off g + ?s, len = ?e - ?s\<rparr>"
    have le: "i \<le> ?s" "?s \<le> ?e" by (simp_all add: skip_space_def skip_word_def)
    have e: "?e \<le> length buf" using True skip_word_le [of ?s buf] by simp
    have eq: "inline_loop buf g i args = inline_loop buf g ?e (args @ [?g])"
      using True by (simp add: inline_loop.simps [of buf g i args] Let_def)
    have bnd: "\<forall>h \<in> set (args @ [?g]). blk h = blk g \<and> off h + len h \<le> off g + ?e"
      using 1(2) le by fastforce
    have "sorted_wrt disjoint (args @ [?g])"
    proof -
      have "disjoint h ?g" if "h \<in> set args" for h
        using bspec [OF 1(2) that] le by (simp add: disjoint_def)
      with 1(3) show ?thesis by (simp add: sorted_wrt_append)
    qed
    from 1(1) [OF _ refl _ refl bnd this e] True show ?thesis
      unfolding eq by linarith
  qed
qed

lemma inline_body_arena:
  assumes inv: "arena_inv r" and empty: "r_args r = []" and ib: "inline_body line r = (Ret c, r')"
  shows "arena_inv r'" and "args_of r' = fields line" and "c = (if r_args r' = [] then None else Some (r_args r'))"
    and "r_br r' = r_br r"
proof -
  obtain g r1 where st: "store_arg line r = (g, r1)" by fastforce
  have len: "len g = length line" and a1: "r_args r1 = []"
    using store_arg_fields(4,6) [of line r] by (simp_all add: st empty)
  have r': "r' = r1\<lparr>r_args := inline_loop line g 0 []\<rparr>"
    and c: "c = (if r_args r' = [] then None else Some (r_args r'))"
    using ib st empty by (auto simp: inline_body_def store_arg_def case_prod_beta Let_def split: if_splits)
  note sinv = store_arg_inv [OF inv st]
  have g: "region_ok (r_heap r1) g" "deref (r_heap r1) g = line" and ok: "arena_ok r1"
    and u: "blk g = r_block r1 \<longrightarrow> off g + len g \<le> r_used r1"
    using sinv by (auto simp: empty args_of_def arena_inv_def arena_ok_def)
  note d = inline_loop_disjoint [of "[]" g 0 line, simplified]
  have "region_ok (r_heap r1) h \<and> (blk h = r_block r1 \<longrightarrow> off h + len h \<le> r_used r1)"
    if "h \<in> set (inline_loop line g 0 [])" for h
    using that d g(1) u len by (fastforce simp: region_ok_def)
  with d ok show "arena_inv r'" by (auto simp: arena_inv_def arena_ok_def r')
  show "args_of r' = fields line"
    using inline_loop_contents [of "r_heap r1" g line 0 "[]"] g len by (simp add: args_of_def r')
  show "c = (if r_args r' = [] then None else Some (r_args r'))" by (rule c)
  show "r_br r' = r_br r" using store_arg_fields(1) [of line r] by (simp add: r' st)
qed

lemma ReadCommand_arena:
  assumes ok: "arena_ok r" and rc: "ReadCommand r = (Ret c, r')"
  shows "arena_inv r' \<and> (c = None \<or> c = Some (r_args r'))"
proof -
  let ?r0 = "r\<lparr>r_args := [], r_used := 0, r_inFlight := True\<rparr>"
  have inv0: "arena_inv (?r0\<lparr>r_br := b\<rparr>)" for b
    using ok by (simp add: arena_inv_def arena_ok_def)
  obtain t br where br: "r_br r = t # br"
    using rc by (cases "r_br r") (auto simp: ReadCommand_def)
  show ?thesis
  proof (cases "t = TypeArray")
    case False
    then obtain r2 where ri: "readInline ?r0 = (Ret c, r2)" and r': "r' = r2\<lparr>r_inFlight := False\<rparr>"
      using rc by (auto simp: ReadCommand_Cons [OF br] split: prod.splits res.splits)
    obtain line r1 where rl: "readLine ?r0 = (Ret line, r1)" and ib: "inline_body line r1 = (Ret c, r2)"
      using ri by (auto simp: readInline_body sbind_eq_Ret)
    have "arena_inv r1" "r_args r1 = []"
      using inv0 [of "r_br r"] readLine_frame [of ?r0] by (simp_all add: rl arena_inv_def arena_ok_def)
    from inline_body_arena [OF this ib] show ?thesis by (auto simp: r')
  next
    case True
    obtain n r1 where rn: "readCount ''multibulk'' (?r0\<lparr>r_br := br\<rparr>) = (Ret n, r1)"
      and cb: "command_body n r1 = (Ret c, r')"
      using rc True by (auto simp: ReadCommand_Cons [OF br] sbind_eq_Ret)
    have inv1: "arena_inv r1"
      using inv0 [of br] readCount_frame [of "''multibulk''" "?r0\<lparr>r_br := br\<rparr>"]
      by (simp add: rn arena_inv_def arena_ok_def)
    show ?thesis
    proof (cases "n \<le> 0")
      case True
      with cb inv1 show ?thesis by (auto simp: command_body_def split: if_splits)
    next
      case False
      with cb obtain r2 where "read_args (nat n) r1 = (Ret (), r2)" "r' = r2\<lparr>r_inFlight := False\<rparr>" "c = Some (r_args r2)"
        by (auto simp: command_body_def sbind_eq_Ret split: if_splits)
      with read_args_arena [OF inv1] show ?thesis by simp
    qed
  qed
qed

lemma ReadCommand_inline:
  assumes br: "r_br r = line @ crlf @ rest" and first: "line = [] \<or> line ! 0 \<noteq> TypeArray" and lf: "LF \<notin> set line"
    and room: "length line + 1 < line_room r" and size: "int (length line) \<le> MaxInlineSize (r_lim r)"
    and ok: "arena_ok r"
  shows "\<exists>r'. ReadCommand r = (Ret (if fields line = [] then None else Some (r_args r')), r')
    \<and> args_of r' = fields line \<and> r_br r' = rest"
proof -
  let ?r0 = "r\<lparr>r_args := [], r_used := 0, r_inFlight := True\<rparr>"
  let ?r1 = "?r0\<lparr>r_br := rest\<rparr>"
  obtain t b where t: "r_br r = t # b" "t \<noteq> TypeArray"
    using br first by (cases line) auto
  have rl: "readLine ?r0 = (Ret line, ?r1)"
    using br lf room by (intro readLine_line) auto
  obtain c r2 where ib: "inline_body line ?r1 = (Ret c, r2)"
    using size by (auto simp: inline_body_def case_prod_beta Let_def)
  have inv: "arena_inv ?r1" using ok by (simp add: arena_inv_def arena_ok_def)
  note ib2 = inline_body_arena [OF inv _ ib, simplified]
  have "ReadCommand r = (Ret c, r2\<lparr>r_inFlight := False\<rparr>)"
    using t(2) rl ib by (simp add: ReadCommand_Cons [OF t(1)] readInline_body)
  moreover have "fields line = [] \<longleftrightarrow> r_args r2 = []"
    using ib2(2) by (simp add: args_of_def flip: ib2(2))
  ultimately show ?thesis
    using ib2 by (intro exI [of _ "r2\<lparr>r_inFlight := False\<rparr>"]) (simp add: args_of_def)
qed

section \<open>Properties\<close>

text \<open>
  The allocation-free integer parser of the protocol accepts exactly the strings
  \<open>strconv.ParseInt\<close> accepts and returns the same value, including the most negative
  \<open>int64\<close> and the rejection of every value out of range.
\<close>

theorem parseInt_is_ParseInt: "parseInt b = ParseInt b"
  by (rule parseInt_ParseInt)

text \<open>
  C34: A pipeline of commands that a client encoded with \<open>WriteCommand\<close> is read back command by
  command, argument for argument, whatever bytes the arguments hold, and the bytes after the
  pipeline stay unread.
\<close>

theorem pipelined_commands_read_back:
  assumes "0 < MaxBulkSize lim" and "22 \<le> ReadBufferSize lim" and "\<forall>c \<in> set cmds. cmd_fits lim c"
  shows "\<exists>r'. read_commands (length cmds) (NewReader (w_bw (fold WriteCommand cmds NewWriter) @ rest) err lim)
    = (Ret cmds, r') \<and> r_br r' = rest"
proof -
  have "w_bw (fold WriteCommand cmds w) = w_bw w @ concat (map cmd_enc cmds)" for w
    by (induction cmds arbitrary: w) (simp_all add: WriteCommand_enc)
  moreover have "arena_ok (NewReader rd err lim)" for rd
    using arena_inv_NewReader by (simp add: arena_inv_def)
  ultimately show ?thesis
    using assms by (intro read_commands_enc) (auto simp: NewWriter_def NewReader_def Let_def buffer_size_def)
qed

theorem pipelined_commands_read_back_witness:
  "\<exists>r'. read_commands 2 (NewReader (w_bw (fold WriteCommand [[''SET'', ''k'', [CR, LF]], [''GET'', ''k'']] NewWriter)
      @ ''*1'') ErrEOF DefaultLimits) = (Ret [[''SET'', ''k'', [CR, LF]], [''GET'', ''k'']], r') \<and> r_br r' = ''*1''"
  using pipelined_commands_read_back [of DefaultLimits "[[''SET'', ''k'', [CR, LF]], [''GET'', ''k'']]" "''*1''" ErrEOF]
  by (simp add: DefaultLimits_def cmd_fits_def numeral_2_eq_2 del: fold_simps read_commands.simps)

text \<open>
  C36: When \<open>HasCompleteCommand\<close> answers true for the bytes in the read buffer, the next
  \<open>ReadCommand\<close> returns the same command or the same protocol error whatever arrives later and
  however the connection ends, and consumes none of it: the server never blocks while it holds
  replies back.
\<close>

theorem HasCompleteCommand_never_waits:
  assumes "HasCompleteCommand (r_lim r) buf = Ret True" and "length buf \<le> buffer_size (ReadBufferSize (r_lim r))"
  shows "\<exists>res r'. res \<noteq> Panic \<and> (\<forall>more e.
    ReadCommand (r\<lparr>r_br := buf @ more, r_err := e\<rparr>) = (res, r'\<lparr>r_br := r_br r' @ more, r_err := e\<rparr>))"
  using settles_ReadCommand [of "r\<lparr>r_br := buf\<rparr>"] assms by (auto simp: settles_def)

theorem HasCompleteCommand_never_waits_witness:
  "HasCompleteCommand DefaultLimits (cmd_enc [''PING'']) = Ret True \<and>
   (\<exists>res r'. res \<noteq> Panic \<and> (\<forall>more e.
    ReadCommand ((NewReader [] ErrEOF DefaultLimits)\<lparr>r_br := cmd_enc [''PING''] @ more, r_err := e\<rparr>)
      = (res, r'\<lparr>r_br := r_br r' @ more, r_err := e\<rparr>)))"
proof -
  have enc: "cmd_enc [''PING''] = ''*1'' @ crlf @ ''$4'' @ crlf @ ''PING'' @ crlf" by code_simp
  have c: "HasCompleteCommand DefaultLimits (cmd_enc [''PING'']) = Ret True"
    unfolding enc
    by (simp add: HasCompleteCommand_def peekCount_def parseInt_ParseInt ParseInt_def all_digits_def
        isdigit_def dec_val_def digit_val_def count_in_range_def DefaultLimits_def i64_def slice_def)
  have l: "r_lim (NewReader [] ErrEOF DefaultLimits) = DefaultLimits"
    by (simp add: NewReader_def DefaultLimits_def)
  have n: "length (cmd_enc [''PING'']) \<le> buffer_size (ReadBufferSize DefaultLimits)"
    by (simp add: enc DefaultLimits_def buffer_size_def)
  show ?thesis
    using HasCompleteCommand_never_waits [of "NewReader [] ErrEOF DefaultLimits" "cmd_enc [''PING'']"] c n
    unfolding l by blast
qed

text \<open>
  After \<open>ReadCommand\<close>, \<open>InFlight\<close> is true exactly when the call failed after bytes of a command
  had arrived; a deadline that fires on an idle connection leaves it false.
\<close>

theorem InFlight_exact:
  "r_inFlight (snd (ReadCommand r)) \<longleftrightarrow> r_br r \<noteq> [] \<and> (\<exists>e. fst (ReadCommand r) = Fail e)"
  by (rule ReadCommand_inFlight)

text \<open>
  C37: The argument slices of one command lie inside the arena's blocks and never overlap, also
  when the arena moved to a fresh block in the middle of the command, and the arena is left in a
  state from which the next command is read the same way.
\<close>

theorem arguments_never_overlap:
  assumes "arena_ok r" and "ReadCommand r = (Ret (Some gs), r')"
  shows "sorted_wrt disjoint gs \<and> (\<forall>g \<in> set gs. region_ok (r_heap r') g) \<and> arena_ok r'"
  using ReadCommand_arena [OF assms] by (auto simp: arena_inv_def)

theorem arguments_never_overlap_witness:
  "arena_ok (NewReader (cmd_enc [''GET'', ''k'']) ErrEOF DefaultLimits) \<and>
   (\<exists>gs r'. ReadCommand (NewReader (cmd_enc [''GET'', ''k'']) ErrEOF DefaultLimits) = (Ret (Some gs), r')
     \<and> sorted_wrt disjoint gs)"
proof -
  let ?r = "NewReader (cmd_enc [''GET'', ''k'']) ErrEOF DefaultLimits"
  have ok: "arena_ok ?r" using arena_inv_NewReader by (simp add: arena_inv_def)
  obtain gs r' where rc: "ReadCommand ?r = (Ret (Some gs), r')"
    using ReadCommand_enc [of ?r "[''GET'', ''k'']" "[]"] ok
    by (auto simp: NewReader_def DefaultLimits_def cmd_fits_def buffer_size_def)
  from arguments_never_overlap [OF ok rc] ok rc show ?thesis by blast
qed

text \<open>
  An inline command is read as its whitespace-separated words, or skipped when it has none.
\<close>

theorem inline_command_words:
  assumes "r_br r = line @ crlf @ rest" and "line = [] \<or> line ! 0 \<noteq> TypeArray" and "LF \<notin> set line"
    and "length line + 1 < buffer_size (ReadBufferSize (r_lim r))"
    and "int (length line) \<le> MaxInlineSize (r_lim r)" and "arena_ok r"
  shows "\<exists>r'. ReadCommand r = (Ret (if fields line = [] then None else Some (r_args r')), r')
    \<and> map (deref (r_heap r')) (r_args r') = fields line \<and> r_br r' = rest"
  using ReadCommand_inline [OF assms] by (simp add: args_of_def)

end
