(* ===== verification/Resp_Reply.thy ===== *)
theory Resp_Reply
  imports Resp_Reader
begin

text \<open>
  The reply parser of \<open>src/internal/resp/reply.go\<close>, the client's side of the protocol. \<open>read\<close> and
  \<open>discard\<close> recurse on the nesting of the reply and loop over its elements; both take a fuel
  argument, and \<open>None\<close> is running out of it. Every call consumes at least one byte, so fuel twice the number
  of unread bytes is enough (\<open>read_total\<close>), which \<open>ReplyReader_Read\<close> supplies.
\<close>

section \<open>Types\<close>

datatype 'f Reply =
  Reply (Kind: byte) (Str: bytes) (Int: int) (Double: 'f) (Bool: bool) (Elems: "'f Reply list") (Null: bool)

definition IsError :: "'f Reply \<Rightarrow> bool" where
  "IsError r \<longleftrightarrow> Kind r = CHR ''-'' \<or> Kind r = CHR ''!''"

definition maxReplyDepth :: nat where
  "maxReplyDepth = 64"

text \<open>What a reader is built with: its limits, how the connection ends, and the float operations.\<close>

record 'f rr_env =
  rr_lim :: Limits
  rr_err :: gerror
  rr_float :: "'f float_ops"

definition NewReplyReader :: "Limits \<Rightarrow> gerror \<Rightarrow> 'f float_ops \<Rightarrow> 'f rr_env" where
  "NewReplyReader lim err F =
     (let lim = (if MaxBulkSize lim \<le> 0 then DefaultLimits else lim);
          lim = (if ReadBufferSize lim \<le> 0
                 then lim\<lparr>ReadBufferSize := ReadBufferSize DefaultLimits\<rparr> else lim)
      in \<lparr>rr_lim = lim, rr_err = err, rr_float = F\<rparr>)"

section \<open>Lines and doubles\<close>

definition reply_readLine :: "'f rr_env \<Rightarrow> bytes \<Rightarrow> bytes res \<times> bytes" where
  "reply_readLine E br =
     (case ReadSlice (buffer_size (ReadBufferSize (rr_lim E))) (rr_err E) br of
        (Ret line, br) \<Rightarrow>
          (if length line < 2 \<or> line ! (length line - 2) \<noteq> CR
           then Fail (ProtocolError ''reply line not terminated by CRLF'')
           else Ret (take (length line - 2) line), br)
      | (Fail e, br) \<Rightarrow>
          (if e = ErrBufferFull then Fail (ProtocolError ''reply line exceeds the read buffer'')
           else Fail (ioOrUnexpected e), br)
      | (Panic, br) \<Rightarrow> (Panic, br))"

definition parseDouble :: "'f float_ops \<Rightarrow> bytes \<Rightarrow> 'f res" where
  "parseDouble F b =
     (if b = ''inf'' \<or> b = ''+inf'' then Ret (f_posInf F)
      else if b = ''-inf'' then Ret (f_negInf F)
      else if b = ''nan'' then Ret (f_nan F)
      else case f_ParseFloat F b of
        None \<Rightarrow> Fail (ProtocolErrorQ ''resp: bad double reply'' b)
      | Some f \<Rightarrow> Ret f)"

section \<open>Reading a reply\<close>

text \<open>
  A call of \<open>read\<close> up to the point where it would recurse: either it is over, or it goes on to
  read the elements of an aggregate, or to skip the elements of an attribute.
\<close>

datatype 'r head = Done "'r res" bytes | Aggregate byte int bytes | Attribute int bytes

definition read_line_reply :: "'f rr_env \<Rightarrow> byte \<Rightarrow> bytes \<Rightarrow> bytes \<Rightarrow> 'f Reply head" where
  "read_line_reply E t line br =
     (let z = f_zero (rr_float E) in
      if t = CHR ''+'' \<or> t = CHR ''-'' \<or> t = CHR ''('' then Done (Ret (Reply t line 0 z False [] False)) br
      else if t = CHR '':'' then
        (case parseInt line of
           None \<Rightarrow> Done (Fail (ProtocolErrorQ ''bad integer reply %q'' line)) br
         | Some v \<Rightarrow> Done (Ret (Reply t [] v z False [] False)) br)
      else if t = CHR ''_'' then Done (Ret (Reply t [] 0 z False [] True)) br
      else if t = CHR ''#'' then
        Done (Ret (Reply t [] 0 z (length line = 1 \<and> line ! 0 = CHR ''t'') [] False)) br
      else if t = CHR '','' then
        (case parseDouble (rr_float E) line of
           Fail e \<Rightarrow> Done (Fail e) br
         | Panic \<Rightarrow> Done Panic br
         | Ret f \<Rightarrow> Done (Ret (Reply t [] 0 f False [] False)) br)
      else if t = CHR ''$'' \<or> t = CHR ''='' \<or> t = CHR ''!'' then
        (case parseInt line of
           None \<Rightarrow> Done (Fail (ProtocolErrorQ ''bad bulk length %q'' line)) br
         | Some n \<Rightarrow>
             if n < 0 then Done (Ret (Reply t [] 0 z False [] True)) br
             else if n > MaxBulkSize (rr_lim E)
             then Done (Fail (ProtocolErrorQ ''bulk reply of %d bytes exceeds the limit'' (FormatInt n))) br
             else if i64 (n + 2) < 0 then Done Panic br
             else
               (case ReadFull (rr_err E) (nat (i64 (n + 2))) br of
                  (Fail e, br) \<Rightarrow> Done (Fail (ioOrUnexpected e)) br
                | (Panic, br) \<Rightarrow> Done Panic br
                | (Ret buf, br) \<Rightarrow> Done (Ret (Reply t (take (nat n) buf) 0 z False [] False)) br))
      else if t = CHR ''*'' \<or> t = CHR ''~'' \<or> t = CHR ''>'' \<or> t = CHR ''%'' then
        (case parseInt line of
           None \<Rightarrow> Done (Fail (ProtocolErrorQ ''bad aggregate length %q'' line)) br
         | Some n \<Rightarrow>
             if n < 0 then Done (Ret (Reply t [] 0 z False [] True)) br
             else
               let n = (if t = CHR ''%'' then i64 (n * 2) else n) in
               if n > MaxMultiBulkLen (rr_lim E)
               then Done (Fail (ProtocolErrorQ ''aggregate reply of %d elements exceeds the limit'' (FormatInt n))) br
               else if n < 0 then Done Panic br
               else Aggregate t n br)
      else if t = CHR ''|'' then
        (case parseInt line of
           None \<Rightarrow> Done (Fail (ProtocolErrorQ ''bad attribute length %q'' line)) br
         | Some n \<Rightarrow> Attribute (i64 (n * 2)) br)
      else Done (Fail (ProtocolErrorQ ''unknown reply type %c'' (fmt_c t))) br)"

definition read_head :: "'f rr_env \<Rightarrow> nat \<Rightarrow> bytes \<Rightarrow> 'f Reply head" where
  "read_head E depth br =
     (if depth > maxReplyDepth then Done (Fail ErrTooDeep) br
      else case ReadByte (rr_err E) br of
        (Fail e, br) \<Rightarrow> Done (Fail e) br
      | (Panic, br) \<Rightarrow> Done Panic br
      | (Ret t, br) \<Rightarrow>
        (case reply_readLine E br of
           (Fail e, br) \<Rightarrow> Done (Fail e) br
         | (Panic, br) \<Rightarrow> Done Panic br
         | (Ret line, br) \<Rightarrow> read_line_reply E t line br))"

fun read :: "'f rr_env \<Rightarrow> nat \<Rightarrow> nat \<Rightarrow> bytes \<Rightarrow> ('f Reply res \<times> bytes) option"
  and read_elems :: "'f rr_env \<Rightarrow> nat \<Rightarrow> nat \<Rightarrow> nat \<Rightarrow> bytes \<Rightarrow> ('f Reply list res \<times> bytes) option" where
  "read E 0 depth br = None"
| "read E (Suc fuel) depth br =
     (case read_head E depth br of
        Done r br \<Rightarrow> Some (r, br)
      | Aggregate t n br \<Rightarrow>
          (case read_elems E fuel depth (nat n) br of
             None \<Rightarrow> None
           | Some (Fail e, br) \<Rightarrow> Some (Fail e, br)
           | Some (Panic, br) \<Rightarrow> Some (Panic, br)
           | Some (Ret es, br) \<Rightarrow> Some (Ret (Reply t [] 0 (f_zero (rr_float E)) False es False), br))
      | Attribute n br \<Rightarrow>
          (case read_elems E fuel depth (nat n) br of
             None \<Rightarrow> None
           | Some (Fail e, br) \<Rightarrow> Some (Fail e, br)
           | Some (Panic, br) \<Rightarrow> Some (Panic, br)
           | Some (Ret _, br) \<Rightarrow> read E fuel depth br))"
| "read_elems E fuel depth 0 br = Some (Ret [], br)"
| "read_elems E 0 depth (Suc n) br = None"
| "read_elems E (Suc fuel) depth (Suc n) br =
     (case read E fuel (depth + 1) br of
        None \<Rightarrow> None
      | Some (Fail e, br) \<Rightarrow> Some (Fail e, br)
      | Some (Panic, br) \<Rightarrow> Some (Panic, br)
      | Some (Ret e, br) \<Rightarrow>
          (case read_elems E fuel depth n br of
             None \<Rightarrow> None
           | Some (Ret es, br) \<Rightarrow> Some (Ret (e # es), br)
           | Some (Fail e, br) \<Rightarrow> Some (Fail e, br)
           | Some (Panic, br) \<Rightarrow> Some (Panic, br)))"

section \<open>Discarding a reply\<close>

definition discard_line_reply :: "'f rr_env \<Rightarrow> byte \<Rightarrow> bytes \<Rightarrow> bytes \<Rightarrow> unit head" where
  "discard_line_reply E t line br =
     (if t = CHR ''+'' \<or> t = CHR ''-'' \<or> t = CHR '':'' \<or> t = CHR ''_'' \<or> t = CHR ''#'' \<or> t = CHR '','' \<or> t = CHR ''(''
      then Done (Ret ()) br
      else if t = CHR ''$'' \<or> t = CHR ''='' \<or> t = CHR ''!'' then
        (case parseInt line of
           None \<Rightarrow> Done (Fail (ProtocolErrorQ ''bad bulk length %q'' line)) br
         | Some n \<Rightarrow>
             if n < 0 then Done (Ret ()) br
             else if n > MaxBulkSize (rr_lim E)
             then Done (Fail (ProtocolErrorQ ''bulk reply of %d bytes exceeds the limit'' (FormatInt n))) br
             else if i64 (n + 2) < 0 then Done (Fail (OtherErr ''bufio: negative count'')) br
             else
               (case Discard (rr_err E) (nat (i64 (n + 2))) br of
                  (Ret _, br) \<Rightarrow> Done (Ret ()) br
                | (Fail e, br) \<Rightarrow> Done (Fail (ioOrUnexpected e)) br
                | (Panic, br) \<Rightarrow> Done Panic br))
      else if t = CHR ''*'' \<or> t = CHR ''~'' \<or> t = CHR ''>'' \<or> t = CHR ''%'' \<or> t = CHR ''|'' then
        (case parseInt line of
           None \<Rightarrow> Done (Fail (ProtocolErrorQ ''bad aggregate length %q'' line)) br
         | Some n \<Rightarrow>
             if n < 0 then Done (Ret ()) br
             else
               let n = (if t = CHR ''%'' \<or> t = CHR ''|'' then i64 (n * 2) else n) in
               if t = CHR ''|'' then Attribute n br else Aggregate t n br)
      else Done (Fail (ProtocolErrorQ ''unknown reply type %c'' (fmt_c t))) br)"

definition discard_head :: "'f rr_env \<Rightarrow> nat \<Rightarrow> bytes \<Rightarrow> unit head" where
  "discard_head E depth br =
     (if depth > maxReplyDepth then Done (Fail ErrTooDeep) br
      else case ReadByte (rr_err E) br of
        (Fail e, br) \<Rightarrow> Done (Fail e) br
      | (Panic, br) \<Rightarrow> Done Panic br
      | (Ret t, br) \<Rightarrow>
        (case reply_readLine E br of
           (Fail e, br) \<Rightarrow> Done (Fail e) br
         | (Panic, br) \<Rightarrow> Done Panic br
         | (Ret line, br) \<Rightarrow> discard_line_reply E t line br))"

fun discard :: "'f rr_env \<Rightarrow> nat \<Rightarrow> nat \<Rightarrow> bytes \<Rightarrow> (unit res \<times> bytes) option"
  and discard_elems :: "'f rr_env \<Rightarrow> nat \<Rightarrow> nat \<Rightarrow> nat \<Rightarrow> bytes \<Rightarrow> (unit res \<times> bytes) option" where
  "discard E 0 depth br = None"
| "discard E (Suc fuel) depth br =
     (case discard_head E depth br of
        Done r br \<Rightarrow> Some (r, br)
      | Aggregate t n br \<Rightarrow> discard_elems E fuel depth (nat n) br
      | Attribute n br \<Rightarrow>
          (case discard_elems E fuel depth (nat n) br of
             None \<Rightarrow> None
           | Some (Fail e, br) \<Rightarrow> Some (Fail e, br)
           | Some (Panic, br) \<Rightarrow> Some (Panic, br)
           | Some (Ret _, br) \<Rightarrow> discard E fuel depth br))"
| "discard_elems E fuel depth 0 br = Some (Ret (), br)"
| "discard_elems E 0 depth (Suc n) br = None"
| "discard_elems E (Suc fuel) depth (Suc n) br =
     (case discard E fuel (depth + 1) br of
        None \<Rightarrow> None
      | Some (Fail e, br) \<Rightarrow> Some (Fail e, br)
      | Some (Panic, br) \<Rightarrow> Some (Panic, br)
      | Some (Ret _, br) \<Rightarrow> discard_elems E fuel depth n br)"

definition ReplyReader_Read :: "'f rr_env \<Rightarrow> bytes \<Rightarrow> ('f Reply res \<times> bytes) option" where
  "ReplyReader_Read E br = read E (2 * length br + 1) 0 br"

definition ReplyReader_Discard :: "'f rr_env \<Rightarrow> bytes \<Rightarrow> (unit res \<times> bytes) option" where
  "ReplyReader_Discard E br = discard E (2 * length br + 1) 0 br"

section \<open>Fuel\<close>

lemma reply_readLine_length:
  "reply_readLine E br = (r, br') \<Longrightarrow> length br' \<le> length br \<and> (\<forall>l. r = Ret l \<longrightarrow> length br' + 2 \<le> length br)"
  by (auto simp: reply_readLine_def split: prod.splits res.splits if_splits
      dest: ReadSlice_split ReadSlice_length_le)

fun head_rest :: "'r head \<Rightarrow> bytes" where
  "head_rest (Done r b) = b"
| "head_rest (Aggregate t n b) = b"
| "head_rest (Attribute n b) = b"

lemma read_line_reply_rest: "length (head_rest (read_line_reply E t line br)) \<le> length br"
  unfolding read_line_reply_def Let_def ReadFull_def
  by (simp split: option.split res.split)

lemma read_line_reply_length:
  "read_line_reply E t line br = Done r br' \<Longrightarrow> length br' \<le> length br"
  "read_line_reply E t line br = Aggregate t' n br' \<Longrightarrow> length br' \<le> length br"
  "read_line_reply E t line br = Attribute n br' \<Longrightarrow> length br' \<le> length br"
  using read_line_reply_rest [of E t line br] by simp_all

lemma read_head_length:
  "read_head E depth br = Done (Ret x) br' \<Longrightarrow> length br' < length br"
  "read_head E depth br = Aggregate t n br' \<Longrightarrow> length br' + 3 \<le> length br"
  "read_head E depth br = Attribute n br' \<Longrightarrow> length br' + 3 \<le> length br"
proof -
  have *: "\<exists>t b line b'. br = t # b \<and> length b' + 2 \<le> length b \<and> read_head E depth br = read_line_reply E t line b'"
    if "(\<exists>x. read_head E depth br = Done (Ret x) br') \<or> (\<exists>t n. read_head E depth br = Aggregate t n br')
      \<or> (\<exists>n. read_head E depth br = Attribute n br')"
  proof (cases br)
    case Nil
    with that show ?thesis by (auto simp: read_head_def ReadByte_def split: if_splits)
  next
    case (Cons t b)
    obtain r b' where rl: "reply_readLine E b = (r, b')" by fastforce
    with that Cons reply_readLine_length [OF rl] show ?thesis
      by (cases r) (auto simp: read_head_def split: if_splits)
  qed
  show "read_head E depth br = Done (Ret x) br' \<Longrightarrow> length br' < length br"
    using * read_line_reply_length(1) by fastforce
  show "read_head E depth br = Aggregate t n br' \<Longrightarrow> length br' + 3 \<le> length br"
    using * read_line_reply_length(2) by fastforce
  show "read_head E depth br = Attribute n br' \<Longrightarrow> length br' + 3 \<le> length br"
    using * read_line_reply_length(3) by fastforce
qed

lemma read_length:
  "read E f depth br = Some (Ret x, br') \<Longrightarrow> length br' < length br"
  "read_elems E f depth n br = Some (Ret xs, br') \<Longrightarrow> length br' \<le> length br"
proof (induction E f depth br and E f depth n br arbitrary: x br' and xs br' rule: read_read_elems.induct)
  case (2 E fuel depth br)
  show ?case
  proof (cases "read_head E depth br")
    case (Done r b)
    with 2 read_head_length(1) show ?thesis by fastforce
  next
    case (Aggregate t n b)
    with 2 read_head_length(2) [OF Aggregate] show ?thesis
      by (fastforce split: option.splits prod.splits res.splits)
  next
    case (Attribute n b)
    with 2 read_head_length(3) [OF Attribute] show ?thesis
      by (fastforce split: option.splits prod.splits res.splits)
  qed
next
  case (5 E fuel depth n br)
  then show ?case by (fastforce split: option.splits prod.splits res.splits)
qed auto

lemma read_total:
  "2 * length br + 1 \<le> f \<Longrightarrow> read E f depth br \<noteq> None"
  "2 * length br + 2 \<le> f \<Longrightarrow> read_elems E f depth n br \<noteq> None"
proof (induction E f depth br and E f depth n br rule: read_read_elems.induct)
  case (2 E fuel depth br)
  show ?case
  proof (cases "read_head E depth br")
    case (Done r b)
    then show ?thesis by simp
  next
    case (Aggregate t n b)
    then have "read_elems E fuel depth (nat n) b \<noteq> None"
      using read_head_length(2) [OF Aggregate] 2 by auto
    with Aggregate show ?thesis by (auto split: prod.splits res.splits)
  next
    case (Attribute n b)
    then obtain r b' where el: "read_elems E fuel depth (nat n) b = Some (r, b')"
      using read_head_length(3) [OF Attribute] 2 by fastforce
    show ?thesis
    proof (cases r)
      case (Ret xs)
      then have "length b' \<le> length b" using read_length(2) el by blast
      then show ?thesis
        using Attribute el Ret 2(3) [OF Attribute el refl Ret] 2(4) read_head_length(3) [OF Attribute] by simp
    qed (use Attribute el in auto)
  qed
next
  case (5 E fuel depth n br)
  obtain r b where rd: "read E fuel (depth + 1) br = Some (r, b)" using 5 by fastforce
  show ?case
  proof (cases r)
    case (Ret x)
    then have "length b < length br" using read_length(1) rd by blast
    then have "read_elems E fuel depth n b \<noteq> None" using 5(2) [OF rd refl Ret] 5(3) by simp
    with rd Ret show ?thesis by (auto split: res.splits)
  qed (use rd in auto)
qed auto

lemma discard_line_reply_rest: "length (head_rest (discard_line_reply E t line br)) \<le> length br"
  unfolding discard_line_reply_def Let_def Discard_def
  by (simp split: option.split res.split)

lemma discard_head_rest:
  "discard_head E depth br = h \<Longrightarrow> h = Done (Ret ()) b \<or> h = Aggregate t n b \<or> h = Attribute n b \<Longrightarrow>
   length b + 3 \<le> length br"
proof (cases br)
  case (Cons t' b')
  assume h: "discard_head E depth br = h" "h = Done (Ret ()) b \<or> h = Aggregate t n b \<or> h = Attribute n b"
  obtain r b2 where rl: "reply_readLine E b' = (r, b2)" by fastforce
  with h Cons obtain line where r: "r = Ret line" and dl: "discard_line_reply E t' line b2 = h"
    by (cases r) (auto simp: discard_head_def split: if_splits)
  from h(2) have "head_rest h = b" by auto
  with reply_readLine_length [OF rl] r Cons discard_line_reply_rest [of E t' line b2] dl show ?thesis by auto
qed (auto simp: discard_head_def ReadByte_def split: if_splits)

lemma discard_length:
  "discard E f depth br = Some (Ret (), br') \<Longrightarrow> length br' < length br"
  "discard_elems E f depth n br = Some (Ret (), br') \<Longrightarrow> length br' \<le> length br"
proof (induction E f depth br and E f depth n br arbitrary: br' and br' rule: discard_discard_elems.induct)
  case (2 E fuel depth br)
  show ?case
  proof (cases "discard_head E depth br")
    case (Done r b)
    with 2(4) discard_head_rest [OF Done] show ?thesis by fastforce
  next
    case (Aggregate t n b)
    with 2(1,4) discard_head_rest [OF Aggregate] show ?thesis by fastforce
  next
    case (Attribute n b)
    with 2 discard_head_rest [OF Attribute] show ?thesis
      by (fastforce split: option.splits prod.splits res.splits)
  qed
next
  case (5 E fuel depth n br)
  then show ?case by (fastforce split: option.splits prod.splits res.splits)
qed auto

lemma discard_total:
  "2 * length br + 1 \<le> f \<Longrightarrow> discard E f depth br \<noteq> None"
  "2 * length br + 2 \<le> f \<Longrightarrow> discard_elems E f depth n br \<noteq> None"
proof (induction E f depth br and E f depth n br rule: discard_discard_elems.induct)
  case (2 E fuel depth br)
  show ?case
  proof (cases "discard_head E depth br")
    case (Done r b)
    then show ?thesis by simp
  next
    case (Aggregate t n b)
    then show ?thesis using discard_head_rest [OF Aggregate] 2(1) [OF Aggregate] 2(4) by auto
  next
    case (Attribute n b)
    then obtain r b' where el: "discard_elems E fuel depth (nat n) b = Some (r, b')"
      using discard_head_rest [OF Attribute] 2 by fastforce
    show ?thesis
    proof (cases r)
      case (Ret u)
      then have "length b' \<le> length b" using discard_length(2) el by (cases u) blast
      then show ?thesis
        using Attribute el Ret 2(3) [OF Attribute el refl Ret] 2(4) discard_head_rest [OF Attribute] by auto
    qed (use Attribute el in auto)
  qed
next
  case (5 E fuel depth n br)
  obtain r b where rd: "discard E fuel (depth + 1) br = Some (r, b)" using 5 by fastforce
  show ?case
  proof (cases r)
    case (Ret u)
    then have "length b < length br" using discard_length(1) rd by (cases u) blast
    then show ?thesis using 5(2) [OF rd refl Ret] 5(3) rd Ret by simp
  qed (use rd in auto)
qed auto

section \<open>Reading what the server wrote\<close>

definition line_ok :: "'f rr_env \<Rightarrow> bytes \<Rightarrow> bool" where
  "line_ok E s \<longleftrightarrow> LF \<notin> set s \<and> length s + 1 < buffer_size (ReadBufferSize (rr_lim E))"

definition bulk_ok :: "'f rr_env \<Rightarrow> bytes \<Rightarrow> bool" where
  "bulk_ok E s \<longleftrightarrow> int (length s) \<le> MaxBulkSize (rr_lim E) \<and> int (length s) + 2 \<le> MaxInt64"

definition elems_ok :: "'f rr_env \<Rightarrow> nat \<Rightarrow> bool" where
  "elems_ok E n \<longleftrightarrow> int n \<le> MaxMultiBulkLen (rr_lim E) \<and> int n \<le> MaxInt64"

text \<open>The replies a client with the limits of \<open>E\<close> accepts at nesting depth \<open>d\<close>.\<close>

fun reply_ok :: "'f rr_env \<Rightarrow> nat \<Rightarrow> nat \<Rightarrow> reply \<Rightarrow> bool" where
  "reply_ok E v d (RSimple s) = line_ok E s"
| "reply_ok E v d (RError s) = line_ok E s"
| "reply_ok E v d (RInteger n) = is_i64 n"
| "reply_ok E v d (RBulk s) = bulk_ok E s"
| "reply_ok E v d RNil = True"
| "reply_ok E v d RNilArray = True"
| "reply_ok E v d (RArray es) = (elems_ok E (length es) \<and> d < maxReplyDepth \<and> list_all (reply_ok E v (Suc d)) es)"
| "reply_ok E v d (RMap es) = (even (length es) \<and> elems_ok E (length es) \<and> d < maxReplyDepth \<and> list_all (reply_ok E v (Suc d)) es)"
| "reply_ok E v d (RSet es) = (elems_ok E (length es) \<and> d < maxReplyDepth \<and> list_all (reply_ok E v (Suc d)) es)"
| "reply_ok E v d (RPush es) = (elems_ok E (length es) \<and> d < maxReplyDepth \<and> list_all (reply_ok E v (Suc d)) es)"
| "reply_ok E v d (RBool b) = True"
| "reply_ok E v d (RDouble s) =
     (if v \<ge> RESP3 then line_ok E s \<and> (case parseDouble (rr_float E) s of Ret f \<Rightarrow> True | _ \<Rightarrow> False) else bulk_ok E s)"
| "reply_ok E v d (RVerbatim f s) = bulk_ok E (if v \<ge> RESP3 \<and> length f = 3 then f @ '':'' @ s else s)"
| "reply_ok E v d (RBig s) = (if v \<ge> RESP3 then line_ok E s else bulk_ok E s)"

text \<open>The value a client decodes from a reply tree.\<close>

fun reply_of :: "'f rr_env \<Rightarrow> nat \<Rightarrow> reply \<Rightarrow> 'f Reply" where
  "reply_of E v (RSimple s) = Reply (CHR ''+'') s 0 (f_zero (rr_float E)) False [] False"
| "reply_of E v (RError s) = Reply (CHR ''-'') s 0 (f_zero (rr_float E)) False [] False"
| "reply_of E v (RInteger n) = Reply (CHR '':'') [] n (f_zero (rr_float E)) False [] False"
| "reply_of E v (RBulk s) = Reply (CHR ''$'') s 0 (f_zero (rr_float E)) False [] False"
| "reply_of E v RNil = Reply (if v \<ge> RESP3 then CHR ''_'' else CHR ''$'') [] 0 (f_zero (rr_float E)) False [] True"
| "reply_of E v RNilArray = Reply (if v \<ge> RESP3 then CHR ''_'' else CHR ''*'') [] 0 (f_zero (rr_float E)) False [] True"
| "reply_of E v (RArray es) = Reply (CHR ''*'') [] 0 (f_zero (rr_float E)) False (map (reply_of E v) es) False"
| "reply_of E v (RMap es) =
     Reply (if v \<ge> RESP3 then CHR ''%'' else CHR ''*'') [] 0 (f_zero (rr_float E)) False (map (reply_of E v) es) False"
| "reply_of E v (RSet es) =
     Reply (if v \<ge> RESP3 then CHR ''~'' else CHR ''*'') [] 0 (f_zero (rr_float E)) False (map (reply_of E v) es) False"
| "reply_of E v (RPush es) =
     Reply (if v \<ge> RESP3 then CHR ''>'' else CHR ''*'') [] 0 (f_zero (rr_float E)) False (map (reply_of E v) es) False"
| "reply_of E v (RBool b) =
     (if v \<ge> RESP3 then Reply (CHR ''#'') [] 0 (f_zero (rr_float E)) b [] False
      else Reply (CHR '':'') [] (if b then 1 else 0) (f_zero (rr_float E)) False [] False)"
| "reply_of E v (RDouble s) =
     (if v \<ge> RESP3 then
        Reply (CHR '','') [] 0 (case parseDouble (rr_float E) s of Ret f \<Rightarrow> f | _ \<Rightarrow> f_zero (rr_float E)) False [] False
      else Reply (CHR ''$'') s 0 (f_zero (rr_float E)) False [] False)"
| "reply_of E v (RVerbatim f s) =
     (if v \<ge> RESP3 \<and> length f = 3 then Reply (CHR ''='') (f @ '':'' @ s) 0 (f_zero (rr_float E)) False [] False
      else Reply (CHR ''$'') s 0 (f_zero (rr_float E)) False [] False)"
| "reply_of E v (RBig s) =
     (if v \<ge> RESP3 then Reply (CHR ''('') s 0 (f_zero (rr_float E)) False [] False
      else Reply (CHR ''$'') s 0 (f_zero (rr_float E)) False [] False)"

lemma reply_readLine_line:
  assumes "LF \<notin> set l" and "length l + 1 < buffer_size (ReadBufferSize (rr_lim E))"
  shows "reply_readLine E (l @ CR # LF # rest) = (Ret l, rest)"
proof -
  have "ReadSlice (buffer_size (ReadBufferSize (rr_lim E))) (rr_err E) ((l @ [CR]) @ LF # rest) = (Ret ((l @ [CR]) @ [LF]), rest)"
    using assms by (intro ReadSlice_line) auto
  then show ?thesis by (simp add: reply_readLine_def nth_append)
qed

text \<open>A reader whose buffer holds any header line.\<close>

definition roomy :: "'f rr_env \<Rightarrow> bool" where
  "roomy E \<longleftrightarrow> 21 < buffer_size (ReadBufferSize (rr_lim E))"

lemma head_line:
  assumes "line_ok E l" and "d \<le> maxReplyDepth"
  shows "read_head E d (t # l @ CR # LF # rest) = read_line_reply E t l rest"
    and "discard_head E d (t # l @ CR # LF # rest) = discard_line_reply E t l rest"
  using assms by (simp_all add: read_head_def discard_head_def line_ok_def reply_readLine_line)

lemma head_hdr:
  assumes "roomy E" and "d \<le> maxReplyDepth" and "is_i64 n"
  shows "read_head E d (hdr t n @ rest) = read_line_reply E t (FormatInt n) rest"
    and "discard_head E d (hdr t n @ rest) = discard_line_reply E t (FormatInt n) rest"
proof -
  have "line_ok E (FormatInt n)"
    using assms length_FormatInt_i64 [OF assms(3)] by (simp add: line_ok_def roomy_def)
  from head_line [OF this assms(2), of t rest]
  show "read_head E d (hdr t n @ rest) = read_line_reply E t (FormatInt n) rest"
    and "discard_head E d (hdr t n @ rest) = discard_line_reply E t (FormatInt n) rest"
    by (simp_all add: hdr_def)
qed

lemma head_bulk:
  assumes "roomy E" and "d \<le> maxReplyDepth" and "bulk_ok E s" and "t = CHR ''$'' \<or> t = CHR ''=''"
  shows "read_head E d (hdr t (int (length s)) @ s @ CR # LF # rest) =
      Done (Ret (Reply t s 0 (f_zero (rr_float E)) False [] False)) rest"
    and "discard_head E d (hdr t (int (length s)) @ s @ CR # LF # rest) = Done (Ret ()) rest"
proof -
  have n: "is_i64 (int (length s))" "is_i64 (int (length s) + 2)" using assms(3) by (auto simp: bulk_ok_def is_i64_def)
  have f: "ReadFull e (nat (int (length s) + 2)) (s @ CR # LF # rest) = (Ret (s @ crlf), rest)" for e
    using ReadFull_append [of "nat (int (length s) + 2)" "s @ crlf" e rest] by (simp add: nat_add_distrib)
  have g: "Discard e (nat (int (length s) + 2)) (s @ CR # LF # rest) = (Ret (), rest)" for e
    using Discard_append [of "nat (int (length s) + 2)" "s @ crlf" e rest] by (simp add: nat_add_distrib)
  show "read_head E d (hdr t (int (length s)) @ s @ CR # LF # rest) =
      Done (Ret (Reply t s 0 (f_zero (rr_float E)) False [] False)) rest"
    using assms n f unfolding head_hdr(1) [OF assms(1,2) n(1)] read_line_reply_def Let_def
    by (auto simp: parseInt_ParseInt bulk_ok_def)
  show "discard_head E d (hdr t (int (length s)) @ s @ CR # LF # rest) = Done (Ret ()) rest"
    using assms n g unfolding head_hdr(2) [OF assms(1,2) n(1)] discard_line_reply_def Let_def
    by (auto simp: parseInt_ParseInt bulk_ok_def)
qed

lemma head_aggregate:
  assumes "roomy E" and "d \<le> maxReplyDepth" and "elems_ok E n" and "t \<in> {CHR ''*'', CHR ''~'', CHR ''>''}"
  shows "read_head E d (hdr t (int n) @ rest) = Aggregate t (int n) rest"
    and "discard_head E d (hdr t (int n) @ rest) = Aggregate t (int n) rest"
proof -
  have n: "is_i64 (int n)" using assms(3) by (auto simp: elems_ok_def is_i64_def)
  show "read_head E d (hdr t (int n) @ rest) = Aggregate t (int n) rest"
    using assms n unfolding head_hdr(1) [OF assms(1,2) n(1)] read_line_reply_def Let_def
    by (auto simp: parseInt_ParseInt elems_ok_def)
  show "discard_head E d (hdr t (int n) @ rest) = Aggregate t (int n) rest"
    using assms n unfolding head_hdr(2) [OF assms(1,2) n(1)] discard_line_reply_def Let_def
    by (auto simp: parseInt_ParseInt elems_ok_def)
qed

lemma head_map:
  assumes "roomy E" and "d \<le> maxReplyDepth" and "elems_ok E (2 * n)"
  shows "read_head E d (hdr (CHR ''%'') (int n) @ rest) = Aggregate (CHR ''%'') (int (2 * n)) rest"
    and "discard_head E d (hdr (CHR ''%'') (int n) @ rest) = Aggregate (CHR ''%'') (int (2 * n)) rest"
proof -
  have n: "is_i64 (int n)" "is_i64 (int n * 2)" using assms(3) by (auto simp: elems_ok_def is_i64_def)
  show "read_head E d (hdr (CHR ''%'') (int n) @ rest) = Aggregate (CHR ''%'') (int (2 * n)) rest"
    using assms n unfolding head_hdr(1) [OF assms(1,2) n(1)] read_line_reply_def Let_def
    by (auto simp: parseInt_ParseInt elems_ok_def)
  show "discard_head E d (hdr (CHR ''%'') (int n) @ rest) = Aggregate (CHR ''%'') (int (2 * n)) rest"
    using assms n unfolding head_hdr(2) [OF assms(1,2) n(1)] discard_line_reply_def Let_def
    by (auto simp: parseInt_ParseInt elems_ok_def)
qed

definition accepted :: "'f rr_env \<Rightarrow> nat \<Rightarrow> nat \<Rightarrow> reply \<Rightarrow> bool" where
  "accepted E v d t \<longleftrightarrow> (\<forall>rest f. 2 * length (enc v t) + 1 \<le> f \<longrightarrow>
     read E f d (enc v t @ rest) = Some (Ret (reply_of E v t), rest) \<and>
     discard E f d (enc v t @ rest) = Some (Ret (), rest))"

lemma accepted_leaf:
  assumes "\<And>rest. read_head E d (enc v t @ rest) = Done (Ret (reply_of E v t)) rest"
    and "\<And>rest. discard_head E d (enc v t @ rest) = Done (Ret ()) rest"
  shows "accepted E v d t"
proof -
  have "read E f d (enc v t @ rest) = Some (Ret (reply_of E v t), rest) \<and>
    discard E f d (enc v t @ rest) = Some (Ret (), rest)" if "1 \<le> f" for rest f
    using that assms by (cases f) auto
  then show ?thesis by (auto simp: accepted_def)
qed

lemma enc_ne: "enc v t \<noteq> []"
  by (cases t) (auto simp: hdr_def bulk_enc_def)

lemma accepted_elems:
  assumes "\<forall>t \<in> set es. accepted E v (Suc d) t" and "2 * length (concat (map (enc v) es)) + 2 \<le> f"
  shows "read_elems E f d (length es) (concat (map (enc v) es) @ rest) = Some (Ret (map (reply_of E v) es), rest) \<and>
    discard_elems E f d (length es) (concat (map (enc v) es) @ rest) = Some (Ret (), rest)"
  using assms
proof (induction es arbitrary: f)
  case (Cons t es)
  obtain g where g: "f = Suc g" using Cons.prems(2) by (cases f) auto
  have len: "1 \<le> length (enc v t)" using enc_ne [of v t] by (cases "enc v t") auto
  have "2 * length (enc v t) + 1 \<le> g" "2 * length (concat (map (enc v) es)) + 2 \<le> g"
    using Cons.prems(2) len by (simp_all add: g)
  with Cons g show ?case by (simp add: accepted_def)
qed simp

lemma accepted_aggregate:
  assumes "\<And>rest. read_head E d (enc v t @ rest) = Aggregate k (int (length es)) (concat (map (enc v) es) @ rest)"
    and "\<And>rest. discard_head E d (enc v t @ rest) = Aggregate k (int (length es)) (concat (map (enc v) es) @ rest)"
    and "reply_of E v t = Reply k [] 0 (f_zero (rr_float E)) False (map (reply_of E v) es) False"
    and "\<forall>t \<in> set es. accepted E v (Suc d) t"
  shows "accepted E v d t"
  unfolding accepted_def
proof (intro allI impI)
  fix rest and f :: nat
  assume f: "2 * length (enc v t) + 1 \<le> f"
  then obtain g where g: "f = Suc g" by (cases f) auto
  have "length (concat (map (enc v) es)) + 3 \<le> length (enc v t)"
    using read_head_length(2) [OF assms(1) [of "[]"]] by simp
  with f g have "2 * length (concat (map (enc v) es)) + 2 \<le> g" by simp
  from accepted_elems [OF assms(4) this, of rest] assms(1-3) g
  show "read E f d (enc v t @ rest) = Some (Ret (reply_of E v t), rest) \<and>
     discard E f d (enc v t @ rest) = Some (Ret (), rest)" by simp
qed

lemma line_ok_short: "roomy E \<Longrightarrow> length l \<le> 20 \<Longrightarrow> LF \<notin> set l \<Longrightarrow> line_ok E l"
  by (simp add: line_ok_def roomy_def)

lemmas leaf_defs = read_line_reply_def discard_line_reply_def parseInt_ParseInt

lemma accepted_bulk: "roomy E \<Longrightarrow> d \<le> maxReplyDepth \<Longrightarrow> bulk_ok E s \<Longrightarrow> accepted E v d (RBulk s)"
  by (rule accepted_leaf) (simp_all add: bulk_enc_def head_bulk)

lemma accepted_same:
  "enc v t = enc v u \<Longrightarrow> reply_of E v t = reply_of E v u \<Longrightarrow> accepted E v d t = accepted E v d u"
  by (simp add: accepted_def)

lemma head_nil:
  assumes "roomy E" and "d \<le> maxReplyDepth"
  shows "read_head E d (t # CHR ''-'' # CHR ''1'' # CR # LF # rest) = read_line_reply E t ''-1'' rest"
    and "discard_head E d (t # CHR ''-'' # CHR ''1'' # CR # LF # rest) = discard_line_reply E t ''-1'' rest"
    and "read_head E d (t # CR # LF # rest) = read_line_reply E t [] rest"
    and "discard_head E d (t # CR # LF # rest) = discard_line_reply E t [] rest"
    and "c \<noteq> LF \<Longrightarrow> read_head E d (t # c # CR # LF # rest) = read_line_reply E t [c] rest"
    and "c \<noteq> LF \<Longrightarrow> discard_head E d (t # c # CR # LF # rest) = discard_line_reply E t [c] rest"
  using head_line [OF line_ok_short [OF assms(1), of "''-1''"] assms(2)]
    head_line [OF line_ok_short [OF assms(1), of "[]"] assms(2)]
    head_line [OF line_ok_short [OF assms(1), of "[c]"] assms(2)] by simp_all

lemma ParseInt_minus_one [simp]: "ParseInt ''-1'' = Some (- 1)"
  by (simp add: ParseInt_def all_digits_def isdigit_def dec_val_def digit_val_def)

lemma reply_accepted:
  assumes "roomy E"
  shows "reply_ok E v d t \<Longrightarrow> d \<le> maxReplyDepth \<Longrightarrow> accepted E v d t"
proof (induction t arbitrary: d)
  case (RSimple s)
  then show ?case by (intro accepted_leaf) (simp_all add: head_line leaf_defs)
next
  case (RError s)
  then show ?case by (intro accepted_leaf) (simp_all add: head_line leaf_defs)
next
  case (RInteger n)
  then show ?case using assms by (intro accepted_leaf) (simp_all add: head_hdr leaf_defs)
next
  case (RBulk s)
  then show ?case using assms by (simp add: accepted_bulk)
next
  case RNil
  then show ?case using assms by (intro accepted_leaf) (simp_all add: head_nil leaf_defs)
next
  case RNilArray
  then show ?case using assms by (intro accepted_leaf) (simp_all add: head_nil leaf_defs)
next
  case (RArray es)
  then show ?case using assms
    by (intro accepted_aggregate [where es = es and k = "CHR ''*''"]) (auto simp: head_aggregate list_all_iff)
next
  case (RMap es)
  then obtain n where n: "length es = 2 * n" by (auto elim: evenE)
  with RMap assms show ?case
    by (intro accepted_aggregate [where es = es and k = "if v \<ge> RESP3 then CHR ''%'' else CHR ''*''"])
      (auto simp: head_aggregate [of E d "2 * n", simplified] head_map list_all_iff)
next
  case (RSet es)
  then show ?case using assms
    by (intro accepted_aggregate [where es = es and k = "if v \<ge> RESP3 then CHR ''~'' else CHR ''*''"])
      (auto simp: head_aggregate list_all_iff)
next
  case (RPush es)
  then show ?case using assms
    by (intro accepted_aggregate [where es = es and k = "if v \<ge> RESP3 then CHR ''>'' else CHR ''*''"])
      (auto simp: head_aggregate list_all_iff)
next
  case (RBool b)
  then show ?case using assms
    by (intro accepted_leaf) (auto simp: head_nil head_hdr leaf_defs is_i64_def)
next
  case (RDouble s)
  then show ?case
    using assms accepted_bulk [of E d s v] accepted_same [of v "RDouble s" "RBulk s" E d]
    by (cases "v \<ge> RESP3")
      (auto intro!: accepted_leaf simp: head_line leaf_defs split: res.splits)
next
  case (RVerbatim f s)
  show ?case
  proof (cases "v \<ge> RESP3 \<and> length f = 3")
    case True
    with RVerbatim assms head_bulk [of E d "f @ '':'' @ s" "CHR ''=''"] show ?thesis
      by (intro accepted_leaf) (simp_all add: add.commute)
  next
    case False
    with RVerbatim assms accepted_bulk [of E d s v] accepted_same [of v "RVerbatim f s" "RBulk s" E d]
    show ?thesis by auto
  qed
next
  case (RBig s)
  then show ?case
    using assms accepted_bulk [of E d s v] accepted_same [of v "RBig s" "RBulk s" E d]
    by (cases "v \<ge> RESP3") (auto intro!: accepted_leaf simp: head_line leaf_defs)
qed

section \<open>Properties\<close>



text \<open>
  C39: \<open>Read\<close> and \<open>Discard\<close> end on every input, a hostile one included: fuel twice the
  number of unread bytes never runs out.
\<close>

theorem reply_reader_terminates:
  "ReplyReader_Read E br \<noteq> None \<and> ReplyReader_Discard E br \<noteq> None"
  unfolding ReplyReader_Read_def ReplyReader_Discard_def by (intro conjI read_total(1) discard_total(1)) simp_all

text \<open>
  A map header announcing $2^{62}$ entries or more passes the element limit, because doubling
  it wraps around, and the client panics when it sizes the element slice.
\<close>

theorem map_header_overflow_panics:
  assumes "4611686018427387904 \<le> n" and "n \<le> MaxInt64" and "22 \<le> ReadBufferSize (rr_lim E)"
    and "0 \<le> MaxMultiBulkLen (rr_lim E)"
  shows "ReplyReader_Read E (hdr (CHR ''%'') n @ rest) = Some (Panic, rest)"
proof -
  have i: "is_i64 n" using assms by (simp add: is_i64_def)
  have "(n * 2 + 9223372036854775808) mod 18446744073709551616 =
      (n * 2 + 9223372036854775808 - 18446744073709551616) mod 18446744073709551616"
    by (rule minus_mod_self2 [symmetric])
  also have "\<dots> = n * 2 - 9223372036854775808"
    using assms(1,2) by (subst mod_pos_pos_trivial) auto
  finally have neg: "i64 (n * 2) < 0"
    using assms(1,2) by (simp add: i64_def)
  have "read_head E 0 (hdr (CHR ''%'') n @ rest) = Done Panic rest"
    using assms i neg
    by (simp add: head_hdr roomy_def buffer_size_def read_line_reply_def parseInt_ParseInt Let_def)
  then show ?thesis by (simp add: ReplyReader_Read_def)
qed

end
