(* ===== verification/Store.thy ===== *)
theory Store
  imports GoStd
begin

text \<open>
  The storage boundary of \<open>src/internal/store/store.go\<close>. The Go interfaces \<open>Journal\<close> and \<open>Store\<close> are
  records of operations on the implementation's state, passed to the code that uses them; the
  locale \<open>store_contract\<close> states what every engine promises the command layer, in terms of the
  abstract keyspace \<open>abs\<close> it represents. Clock readings are passed in: \<open>clk i\<close> is the \<open>i\<close>-th
  reading of the clock during the call.
\<close>

section \<open>Records\<close>

record Record =
  Value :: bytes
  ExpireAt :: int

abbreviation zero_record :: Record where
  "zero_record \<equiv> \<lparr>Value = [], ExpireAt = 0\<rparr>"

definition Expired :: "Record \<Rightarrow> int \<Rightarrow> bool" where
  "Expired r nowMs \<longleftrightarrow> ExpireAt r \<noteq> 0 \<and> ExpireAt r \<le> nowMs"

definition Volatile :: "Record \<Rightarrow> bool" where
  "Volatile r \<longleftrightarrow> ExpireAt r \<noteq> 0"

text \<open>\<open>Clone\<close> copies the bytes; values carry no identity here, so a clone is the record itself.\<close>

definition Clone :: "Record \<Rightarrow> Record" where
  "Clone r = \<lparr>Value = Value r, ExpireAt = ExpireAt r\<rparr>"

lemma Clone_id [simp]: "Clone r = r"
  by (simp add: Clone_def)

datatype Action = ActionNone | ActionPut | ActionDelete

record Mutation =
  Key :: bytes
  MRecord :: Record
  Del :: bool

text \<open>
  What the closures passed to \<open>Update\<close> capture: the variables they assign that the handler reads
  afterwards.
\<close>

record caps =
  c_prev :: "bytes option"
  c_found :: bool
  c_wrote :: bool
  c_int :: int
  c_str :: bytes

definition caps0 :: caps where
  "caps0 = \<lparr>c_prev = None, c_found = False, c_wrote = False, c_int = 0, c_str = []\<rparr>"

type_synonym UpdateFunc = "Record \<Rightarrow> bool \<Rightarrow> (Record \<times> Action) res \<times> caps"

type_synonym clock = "nat \<Rightarrow> int"

section \<open>The interfaces\<close>

record 'j journal =
  LogPut :: "bytes \<Rightarrow> Record \<Rightarrow> ('j, nat) action"
  LogDelete :: "bytes \<Rightarrow> ('j, nat) action"
  LogFlushAll :: "('j, nat) action"
  LogBatch :: "Mutation list \<Rightarrow> ('j, nat) action"
  Await :: "nat \<Rightarrow> ('j, unit) action"

text \<open>
  \<open>Get\<close> returns \<open>None\<close> for an absent key; \<open>Update\<close> returns the closure's captured variables when
  the closure ran; \<open>Scan\<close> threads the accumulator its callback extends.
\<close>

record 's store =
  Get :: "clock \<Rightarrow> bytes \<Rightarrow> ('s, Record option) action"
  Put :: "clock \<Rightarrow> bytes \<Rightarrow> Record \<Rightarrow> ('s, unit) action"
  Delete :: "clock \<Rightarrow> bytes \<Rightarrow> ('s, bool) action"
  Update :: "clock \<Rightarrow> bytes \<Rightarrow> UpdateFunc \<Rightarrow> 's \<Rightarrow> (unit res \<times> caps option) \<times> 's"
  MultiWrite :: "clock \<Rightarrow> Mutation list \<Rightarrow> ('s, unit) action"
  Scan :: "clock \<Rightarrow> nat \<Rightarrow> int \<Rightarrow> (bytes \<Rightarrow> Record \<Rightarrow> bytes list \<Rightarrow> bool \<times> bytes list) \<Rightarrow> bytes list \<Rightarrow>
    ('s, nat \<times> bytes list) action"
  Len :: "clock \<Rightarrow> ('s, int) action"
  FlushAll :: "clock \<Rightarrow> ('s, unit) action"

section \<open>The abstract keyspace\<close>

type_synonym keyspace = "bytes \<rightharpoonup> Record"

definition live :: "int \<Rightarrow> keyspace \<Rightarrow> keyspace" where
  "live now K k = (case K k of None \<Rightarrow> None | Some r \<Rightarrow> if Expired r now then None else Some r)"

text \<open>Two keyspaces no reader can tell apart from time \<open>t\<close> on.\<close>

definition agree :: "int \<Rightarrow> keyspace \<Rightarrow> keyspace \<Rightarrow> bool" where
  "agree t K K' \<longleftrightarrow> (\<forall>now \<ge> t. live now K = live now K')"

definition apply_mutation :: "Mutation \<Rightarrow> keyspace \<Rightarrow> keyspace" where
  "apply_mutation mu K = (if Del mu then K(Key mu := None) else K(Key mu \<mapsto> MRecord mu))"

text \<open>The keyspace \<open>Update\<close> leaves when it succeeds, from what the closure asked for.\<close>

definition update_result :: "keyspace \<Rightarrow> bytes \<Rightarrow> (Record \<times> Action) res \<Rightarrow> keyspace" where
  "update_result K k called =
     (case called of
        Ret (next, ActionPut) \<Rightarrow> K(k \<mapsto> next)
      | Ret (next, ActionDelete) \<Rightarrow> K(k := None)
      | _ \<Rightarrow> K)"

lemma live_None [simp]: "K k = None \<Longrightarrow> live now K k = None"
  by (simp add: live_def)

lemma live_Some_iff: "live now K k = Some r \<longleftrightarrow> K k = Some r \<and> \<not> Expired r now"
  by (auto simp: live_def split: option.splits if_splits)

lemma live_upd: "live now (K(k := v)) = (live now K)(k := (case v of None \<Rightarrow> None | Some r \<Rightarrow> if Expired r now then None else Some r))"
  by (auto simp: live_def fun_eq_iff split: option.splits)

lemma live_mono: "now \<le> now' \<Longrightarrow> live now K k = None \<Longrightarrow> live now' K k = None"
  by (auto simp: live_def Expired_def split: option.splits if_splits)

lemma live_live: "t \<le> now \<Longrightarrow> live now (live t K) = live now K"
  by (auto simp: live_def Expired_def fun_eq_iff split: option.splits)

lemma agree_refl [simp]: "agree t K K"
  by (simp add: agree_def)

lemma agree_sym: "agree t K K' \<Longrightarrow> agree t K' K"
  by (simp add: agree_def)

lemma agree_trans: "agree t K K' \<Longrightarrow> agree t K' K'' \<Longrightarrow> agree t K K''"
  by (simp add: agree_def)

lemma agree_later: "agree t K K' \<Longrightarrow> t \<le> t' \<Longrightarrow> agree t' K K'"
  by (simp add: agree_def)

lemma agree_upd: "agree t K K' \<Longrightarrow> agree t (K(k := v)) (K'(k := v))"
  by (simp add: agree_def live_upd)

lemma agree_reclaim: "agree t (K(k := live t K k)) K"
proof -
  have "live now (K(k := live t K k)) k' = live now K k'" if "t \<le> now" for now k'
    using that by (auto simp: live_def Expired_def split: option.splits if_splits)
  then show ?thesis by (auto simp: agree_def)
qed

lemma agree_live: "agree t K K' \<Longrightarrow> t \<le> now \<Longrightarrow> live now K = live now K'"
  by (simp add: agree_def)

section \<open>What an engine promises\<close>

text \<open>
  \<open>inv\<close> is the engine's own invariant and \<open>abs\<close> the keyspace it represents. An operation that
  returns an error may still have applied its write (the journal can fail after the write is in
  place), so failing calls promise one of the two outcomes.
\<close>

locale store_contract =
  fixes S :: "'s store" and inv :: "'s \<Rightarrow> bool" and abs :: "'s \<Rightarrow> keyspace"
  assumes get_law: "inv s \<Longrightarrow> Get S clk k s = (rg, s') \<Longrightarrow> clk 0 \<le> clk 1 \<Longrightarrow>
      inv s' \<and> agree (clk 1) (abs s') (abs s) \<and> (\<forall>x. rg = Ret x \<longrightarrow> x = live (clk 0) (abs s) k)"
    and put_law: "inv s \<Longrightarrow> Put S clk k rec s = (r, s') \<Longrightarrow>
      inv s' \<and> (if r = Ret () then abs s' = (abs s)(k \<mapsto> rec) else abs s' = abs s \<or> abs s' = (abs s)(k \<mapsto> rec))"
    and delete_law: "inv s \<Longrightarrow> Delete S clk k s = (rb, s') \<Longrightarrow>
      inv s' \<and> (\<forall>b. rb = Ret b \<longrightarrow> b = (live (clk 0) (abs s) k \<noteq> None) \<and> abs s' = (abs s)(k := None))
      \<and> (abs s' = abs s \<or> abs s' = (abs s)(k := None))"
    and update_law: "inv s \<Longrightarrow> Update S clk k fn s = ((r, c), s') \<Longrightarrow>
      inv s' \<and>
      (let cur = live (clk 0) (abs s) k;
           called = fn (case cur of None \<Rightarrow> zero_record | Some x \<Rightarrow> x) (cur \<noteq> None);
           after = update_result (abs s) k (fst called)
       in (c = None \<and> r \<noteq> Ret () \<and> r \<noteq> Panic \<and> abs s' = abs s \<or> c = Some (snd called))
        \<and> (r = Ret () \<longrightarrow> c = Some (snd called) \<and> (\<exists>x. fst called = Ret x) \<and> agree (clk 0) (abs s') after)
        \<and> (c = Some (snd called) \<longrightarrow> (\<forall>e. fst called = Fail e \<longrightarrow> r = Fail e) \<and> (fst called = Panic \<longrightarrow> r = Panic))
        \<and> (agree (clk 0) (abs s') after \<or> agree (clk 0) (abs s') (abs s)))"
    and multi_law: "inv s \<Longrightarrow> MultiWrite S clk muts s = (r, s') \<Longrightarrow>
      inv s' \<and> (r = Ret () \<longrightarrow> abs s' = fold apply_mutation muts (abs s))
      \<and> (abs s' = abs s \<or> abs s' = fold apply_mutation muts (abs s))"
    and len_law: "inv s \<Longrightarrow> Len S clk s = (rn, s') \<Longrightarrow>
      s' = s \<and> (\<forall>n. rn = Ret n \<longrightarrow> n = int (card (dom (live (clk 0) (abs s)))))"
    and flush_law: "inv s \<Longrightarrow> FlushAll S clk s = (r, s') \<Longrightarrow>
      inv s' \<and> (r = Ret () \<longrightarrow> abs s' = Map.empty) \<and> (abs s' = abs s \<or> abs s' = Map.empty)"

end
