(* ===== verification/Memory.thy ===== *)
theory Memory
  imports Store
begin

text \<open>
  The in-memory engine of \<open>src/internal/store/memory\<close>: \<open>memory.go\<close> and \<open>loader.go\<close>. A shard's map is
  an association list with distinct keys and its volatile index a list of keys. The hash of a
  key, the order in which Go walks a map and the random shard choices are parameters. The byte
  counters are unbounded integers: they count bytes held in memory and stay far below $2^{63}$.
  Each operation runs under the locks of the shards it touches, so it is one step on the state.
\<close>

section \<open>State\<close>

definition shardCount :: nat where
  "shardCount = 1024"

definition entryOverhead :: int where
  "entryOverhead = 64"

record shard =
  sh_m :: "(bytes \<times> Record) list"
  sh_volatile :: "bytes list"
  sh_bytes :: int

record 'j mem_env =
  hash :: "bytes \<Rightarrow> nat"                                          \<comment> \<open>\<open>maphash.Bytes(seed, \<cdot>)\<close>\<close>
  jrn :: "'j journal option"                                     \<comment> \<open>nil without durability\<close>
  iter :: "nat \<Rightarrow> (bytes \<times> Record) list \<Rightarrow> (bytes \<times> Record) list"  \<comment> \<open>map iteration order\<close>
  iter_idx :: "nat list \<Rightarrow> nat list"

record 'j memstore =
  shards :: "nat \<Rightarrow> shard"
  jst :: 'j
  isDead :: bool

definition empty_shard :: shard where
  "empty_shard = \<lparr>sh_m = [], sh_volatile = [], sh_bytes = 0\<rparr>"

definition New :: "'j \<Rightarrow> 'j memstore" where
  "New j = \<lparr>shards = (\<lambda>i. empty_shard), jst = j, isDead = False\<rparr>"

definition shardFor :: "'j mem_env \<Rightarrow> bytes \<Rightarrow> nat" where
  "shardFor M key = hash M key mod shardCount"

definition alive :: "('j memstore, unit) action" where
  "alive s = (if isDead s then Fail ErrClosed else Ret (), s)"

definition upd_shard :: "nat \<Rightarrow> (shard \<Rightarrow> shard) \<Rightarrow> 'j memstore \<Rightarrow> 'j memstore" where
  "upd_shard i f s = s\<lparr>shards := (shards s)(i := f (shards s i))\<rparr>"

section \<open>One shard\<close>

definition putLocked :: "bytes \<Rightarrow> Record \<Rightarrow> shard \<Rightarrow> shard" where
  "putLocked key rec sh =
     (let b = (case map_of (sh_m sh) key of
                 Some old \<Rightarrow> sh_bytes sh - int (length (Value old))
               | None \<Rightarrow> sh_bytes sh + (int (length key) + entryOverhead))
      in \<lparr>sh_m = AList.update key rec (sh_m sh),
          sh_volatile = (if Volatile rec then List.insert key (sh_volatile sh) else removeAll key (sh_volatile sh)),
          sh_bytes = b + int (length (Value rec))\<rparr>)"

definition evictLocked :: "bytes \<Rightarrow> Record \<Rightarrow> shard \<Rightarrow> shard" where
  "evictLocked key old sh =
     (let b = sh_bytes sh - (int (length key) + entryOverhead + int (length (Value old)))
      in \<lparr>sh_m = AList.delete key (sh_m sh), sh_volatile = removeAll key (sh_volatile sh),
          sh_bytes = (if b < 0 then 0 else b)\<rparr>)"

definition mutate_shard :: "Mutation \<Rightarrow> shard \<Rightarrow> shard" where
  "mutate_shard mu sh =
     (if Del mu then
        (case map_of (sh_m sh) (Key mu) of
           Some cur \<Rightarrow> evictLocked (Key mu) cur sh
         | None \<Rightarrow> sh)
      else putLocked (Key mu) (Clone (MRecord mu)) sh)"

section \<open>The journal\<close>

definition logPut :: "'j mem_env \<Rightarrow> bytes \<Rightarrow> Record \<Rightarrow> ('j memstore, nat) action" where
  "logPut M key rec s =
     (case jrn M of None \<Rightarrow> (Ret 0, s)
      | Some J \<Rightarrow> (case LogPut J key rec (jst s) of (r, j) \<Rightarrow> (r, s\<lparr>jst := j\<rparr>)))"

definition logDelete :: "'j mem_env \<Rightarrow> bytes \<Rightarrow> ('j memstore, nat) action" where
  "logDelete M key s =
     (case jrn M of None \<Rightarrow> (Ret 0, s)
      | Some J \<Rightarrow> (case LogDelete J key (jst s) of (r, j) \<Rightarrow> (r, s\<lparr>jst := j\<rparr>)))"

definition logBatch :: "'j mem_env \<Rightarrow> Mutation list \<Rightarrow> ('j memstore, nat) action" where
  "logBatch M muts s =
     (case jrn M of None \<Rightarrow> (Ret 0, s)
      | Some J \<Rightarrow> (case LogBatch J muts (jst s) of (r, j) \<Rightarrow> (r, s\<lparr>jst := j\<rparr>)))"

definition logFlushAll :: "'j mem_env \<Rightarrow> ('j memstore, nat) action" where
  "logFlushAll M s =
     (case jrn M of None \<Rightarrow> (Ret 0, s)
      | Some J \<Rightarrow> (case LogFlushAll J (jst s) of (r, j) \<Rightarrow> (r, s\<lparr>jst := j\<rparr>)))"

definition await :: "'j mem_env \<Rightarrow> nat \<Rightarrow> ('j memstore, unit) action" where
  "await M lsn s =
     (case jrn M of None \<Rightarrow> (Ret (), s)
      | Some J \<Rightarrow>
          if lsn = 0 then (Ret (), s)
          else (case Await J lsn (jst s) of (r, j) \<Rightarrow> (r, s\<lparr>jst := j\<rparr>)))"

section \<open>Operations\<close>

definition mem_Get :: "'j mem_env \<Rightarrow> clock \<Rightarrow> bytes \<Rightarrow> ('j memstore, Record option) action" where
  "mem_Get M clk key =
     sbind alive (\<lambda>_ s.
       let i = shardFor M key in
       case map_of (sh_m (shards s i)) key of
         None \<Rightarrow> (Ret None, s)
       | Some rec \<Rightarrow>
           if \<not> Expired rec (clk 0) then (Ret (Some rec), s)
           else
             (Ret None,
              case map_of (sh_m (shards s i)) key of
                Some cur \<Rightarrow> if Expired cur (clk 1) then upd_shard i (evictLocked key cur) s else s
              | None \<Rightarrow> s))"

definition mem_Put :: "'j mem_env \<Rightarrow> clock \<Rightarrow> bytes \<Rightarrow> Record \<Rightarrow> ('j memstore, unit) action" where
  "mem_Put M clk key rec =
     sbind alive (\<lambda>_.
     sbind (logPut M key rec) (\<lambda>lsn s.
       await M lsn (upd_shard (shardFor M key) (putLocked key (Clone rec)) s)))"

definition mem_Delete :: "'j mem_env \<Rightarrow> clock \<Rightarrow> bytes \<Rightarrow> ('j memstore, bool) action" where
  "mem_Delete M clk key =
     sbind alive (\<lambda>_ s.
       case map_of (sh_m (shards s (shardFor M key))) key of
         None \<Rightarrow> (Ret False, s)
       | Some rec \<Rightarrow>
           sbind (logDelete M key) (\<lambda>lsn s.
             let s = upd_shard (shardFor M key) (evictLocked key rec) s
             in sbind (await M lsn) (\<lambda>_ s. (Ret (\<not> Expired rec (clk 0)), s)) s) s)"

definition mem_Update ::
    "'j mem_env \<Rightarrow> clock \<Rightarrow> bytes \<Rightarrow> UpdateFunc \<Rightarrow> 'j memstore \<Rightarrow> (unit res \<times> caps option) \<times> 'j memstore" where
  "mem_Update M clk key fn s =
     (if isDead s then ((Fail ErrClosed, None), s)
      else
        let i = shardFor M key;
            cur = map_of (sh_m (shards s i)) key;
            gone = (case cur of Some r \<Rightarrow> Expired r (clk 0) | None \<Rightarrow> False);
            s = (if gone then upd_shard i (evictLocked key (the cur)) s else s);
            cur = (if gone then None else cur);
            (called, c) = fn (case cur of Some r \<Rightarrow> r | None \<Rightarrow> zero_record) (cur \<noteq> None)
        in case called of
             Fail e \<Rightarrow> ((Fail e, Some c), s)
           | Panic \<Rightarrow> ((Panic, Some c), s)
           | Ret (next, act) \<Rightarrow>
               (case act of
                  ActionPut \<Rightarrow>
                    (case sbind (logPut M key next)
                            (\<lambda>lsn s. await M lsn (upd_shard i (putLocked key (Clone next)) s)) s of
                       (r, s) \<Rightarrow> ((r, Some c), s))
                | ActionDelete \<Rightarrow>
                    (case cur of
                       None \<Rightarrow> ((Ret (), Some c), s)
                     | Some r \<Rightarrow>
                         (case sbind (logDelete M key)
                                 (\<lambda>lsn s. await M lsn (upd_shard i (evictLocked key r) s)) s of
                            (r, s) \<Rightarrow> ((r, Some c), s)))
                | ActionNone \<Rightarrow> ((Ret (), Some c), s)))"

text \<open>\<open>sortInts\<close>: insertion sort by neighbour swaps.\<close>

fun sort_inner :: "nat list \<Rightarrow> nat \<Rightarrow> nat list" where
  "sort_inner a 0 = a"
| "sort_inner a (Suc j) =
     (if a ! Suc j < a ! j then sort_inner (a[Suc j := a ! j, j := a ! Suc j]) j else a)"

definition sortInts :: "nat list \<Rightarrow> nat list" where
  "sortInts a = fold (\<lambda>i a. sort_inner a i) [1..<length a] a"

text \<open>The map from a shard to the positions of its mutations, in the order of the batch.\<close>

fun group_idx :: "'j mem_env \<Rightarrow> nat \<Rightarrow> Mutation list \<Rightarrow> (nat \<times> nat list) list \<Rightarrow> (nat \<times> nat list) list" where
  "group_idx M i [] idx = idx"
| "group_idx M i (mu # muts) idx =
     (let h = shardFor M (Key mu);
          old = (case map_of idx h of None \<Rightarrow> [] | Some is \<Rightarrow> is)
      in group_idx M (Suc i) muts (AList.update h (old @ [i]) idx))"

definition mem_MultiWrite :: "'j mem_env \<Rightarrow> clock \<Rightarrow> Mutation list \<Rightarrow> ('j memstore, unit) action" where
  "mem_MultiWrite M clk muts =
     sbind alive (\<lambda>_ s.
       if muts = [] then (Ret (), s)
       else
         let idx = group_idx M 0 muts [];
             order = sortInts (iter_idx M (map fst idx))
         in sbind (logBatch M muts) (\<lambda>lsn s.
              await M lsn
                (fold (\<lambda>si s. fold (\<lambda>mi. upd_shard si (mutate_shard (muts ! mi))) (the (map_of idx si)) s) order s)) s)"

fun scan_batch :: "(bytes \<Rightarrow> Record \<Rightarrow> 'a \<Rightarrow> bool \<times> 'a) \<Rightarrow> (bytes \<times> Record) list \<Rightarrow> 'a \<Rightarrow> bool \<times> 'a" where
  "scan_batch fn [] acc = (True, acc)"
| "scan_batch fn ((k, r) # b) acc =
     (case fn k r acc of (False, acc) \<Rightarrow> (False, acc) | (True, acc) \<Rightarrow> scan_batch fn b acc)"

function scan_loop :: "'j mem_env \<Rightarrow> int \<Rightarrow> int \<Rightarrow> (bytes \<Rightarrow> Record \<Rightarrow> 'a \<Rightarrow> bool \<times> 'a) \<Rightarrow> nat \<Rightarrow> int \<Rightarrow> 'a \<Rightarrow>
    'j memstore \<Rightarrow> nat \<times> 'a" where
  "scan_loop M now cnt fn next emitted acc s =
     (if next < shardCount then
        let batch = filter (\<lambda>(k, r). \<not> Expired r now) (iter M next (sh_m (shards s next))) in
        case scan_batch fn batch acc of
          (False, acc) \<Rightarrow> (next + 1, acc)
        | (True, acc) \<Rightarrow>
            let emitted = emitted + int (length batch) in
            if emitted \<ge> cnt then (if next + 1 \<ge> shardCount then 0 else next + 1, acc)
            else scan_loop M now cnt fn (next + 1) emitted acc s
      else (0, acc))"
  by pat_completeness auto
termination
  by (relation "measure (\<lambda>(M, now, cnt, fn, next, emitted, acc, s). shardCount - next)") auto

declare scan_loop.simps [simp del]

definition mem_Scan :: "'j mem_env \<Rightarrow> clock \<Rightarrow> nat \<Rightarrow> int \<Rightarrow> (bytes \<Rightarrow> Record \<Rightarrow> 'a \<Rightarrow> bool \<times> 'a) \<Rightarrow> 'a \<Rightarrow>
    ('j memstore, nat \<times> 'a) action" where
  "mem_Scan M clk cursor cnt fn acc =
     sbind alive (\<lambda>_ s.
       let cnt = (if cnt \<le> 0 then 10 else cnt);
           next = i64 (int cursor)
       in if next < 0 \<or> next > int shardCount then (Ret (0, acc), s)
          else (Ret (scan_loop M (clk 0) cnt fn (nat next) 0 acc s), s))"

definition mem_Len :: "'j mem_env \<Rightarrow> clock \<Rightarrow> ('j memstore, int) action" where
  "mem_Len M clk =
     sbind alive (\<lambda>_ s.
       (Ret (fold (\<lambda>i n.
          let sh = shards s i in
          if sh_volatile sh = [] then n + int (length (sh_m sh))
          else n + int (length (filter (\<lambda>(k, r). \<not> Expired r (clk 0)) (sh_m sh)))) [0..<shardCount] 0), s))"

definition wipe :: "'j memstore \<Rightarrow> 'j memstore" where
  "wipe s = fold (\<lambda>i. upd_shard i (\<lambda>_. empty_shard)) [0..<shardCount] s"

definition mem_FlushAll :: "'j mem_env \<Rightarrow> clock \<Rightarrow> ('j memstore, unit) action" where
  "mem_FlushAll M clk =
     sbind alive (\<lambda>_. sbind (logFlushAll M) (\<lambda>lsn s. await M lsn (wipe s)))"

text \<open>The order a random probe walks a shard's volatile index in is \<open>ord\<close>, the shards probed are \<open>rnd\<close>.\<close>

fun sample_loop :: "(bytes list \<Rightarrow> bytes list) \<Rightarrow> (nat \<Rightarrow> nat) \<Rightarrow> nat \<Rightarrow> nat \<Rightarrow> nat \<Rightarrow> bytes list \<Rightarrow>
    'j memstore \<Rightarrow> bytes list" where
  "sample_loop ord rnd 0 n probe out s = out"
| "sample_loop ord rnd (Suc left) n probe out s =
     (if length out < n
      then sample_loop ord rnd left n (probe + 1)
             (out @ take (n - length out) (ord (sh_volatile (shards s (rnd probe mod shardCount))))) s
      else out)"

definition mem_SampleVolatile :: "(bytes list \<Rightarrow> bytes list) \<Rightarrow> (nat \<Rightarrow> nat) \<Rightarrow> int \<Rightarrow> ('j memstore, bytes list) action" where
  "mem_SampleVolatile ord rnd n =
     sbind alive (\<lambda>_ s. if n \<le> 0 then (Ret [], s) else (Ret (sample_loop ord rnd 32 (nat n) 0 [] s), s))"

record Stats =
  Keys :: int
  VolatileKeys :: int
  MemoryBytes :: int
  Extra :: "(bytes \<times> bytes) list"

fun itoa_loop :: "nat \<Rightarrow> bytes \<Rightarrow> bytes" where
  "itoa_loop n b = (if n > 0 then itoa_loop (n div 10) (digit_char (n mod 10) # b) else b)"

declare itoa_loop.simps [simp del]

definition itoa :: "nat \<Rightarrow> bytes" where
  "itoa n = (if n = 0 then ''0'' else itoa_loop n [])"

definition mem_Stats :: "('j memstore, Stats) action" where
  "mem_Stats =
     sbind alive (\<lambda>_ s.
       (Ret (fold (\<lambda>i st. st\<lparr>Keys := Keys st + int (length (sh_m (shards s i))),
                            VolatileKeys := VolatileKeys st + int (length (sh_volatile (shards s i))),
                            MemoryBytes := MemoryBytes st + sh_bytes (shards s i)\<rparr>) [0..<shardCount]
          \<lparr>Keys = 0, VolatileKeys = 0, MemoryBytes = 0, Extra = [(''shards'', itoa shardCount)]\<rparr>), s))"

definition mem_Close :: "('j memstore, unit) action" where
  "mem_Close s = (Ret (), if isDead s then s else wipe (s\<lparr>isDead := True\<rparr>))"

section \<open>Recovery\<close>

definition Loader_Put :: "'j mem_env \<Rightarrow> bytes \<Rightarrow> Record \<Rightarrow> 'j memstore \<Rightarrow> 'j memstore" where
  "Loader_Put M key rec = upd_shard (shardFor M key) (putLocked key (Clone rec))"

definition Loader_Delete :: "'j mem_env \<Rightarrow> bytes \<Rightarrow> 'j memstore \<Rightarrow> 'j memstore" where
  "Loader_Delete M key s =
     (case map_of (sh_m (shards s (shardFor M key))) key of
        Some cur \<Rightarrow> upd_shard (shardFor M key) (evictLocked key cur) s
      | None \<Rightarrow> s)"

definition Loader_FlushAll :: "'j memstore \<Rightarrow> 'j memstore" where
  "Loader_FlushAll s = fold (\<lambda>i. upd_shard i (\<lambda>_. empty_shard)) [0..<shardCount] s"

definition Loader_Batch :: "'j mem_env \<Rightarrow> Mutation list \<Rightarrow> 'j memstore \<Rightarrow> 'j memstore" where
  "Loader_Batch M muts =
     fold (\<lambda>mu. if Del mu then Loader_Delete M (Key mu) else Loader_Put M (Key mu) (MRecord mu)) muts"

fun foreach_loop :: "'j mem_env \<Rightarrow> (bytes \<Rightarrow> Record \<Rightarrow> 'a \<Rightarrow> bool \<times> 'a) \<Rightarrow> nat list \<Rightarrow> 'j memstore \<Rightarrow> 'a \<Rightarrow> 'a" where
  "foreach_loop M fn [] s acc = acc"
| "foreach_loop M fn (i # is) s acc =
     (case scan_batch fn (iter M i (sh_m (shards s i))) acc of
        (False, acc) \<Rightarrow> acc
      | (True, acc) \<Rightarrow> foreach_loop M fn is s acc)"

definition ForEach :: "'j mem_env \<Rightarrow> (bytes \<Rightarrow> Record \<Rightarrow> 'a \<Rightarrow> bool \<times> 'a) \<Rightarrow> 'j memstore \<Rightarrow> 'a \<Rightarrow> 'a" where
  "ForEach M fn s acc = foreach_loop M fn [0..<shardCount] s acc"

definition mem_store :: "'j mem_env \<Rightarrow> 'j memstore store" where
  "mem_store M =
     \<lparr>Get = mem_Get M, Put = mem_Put M, Delete = mem_Delete M, Update = mem_Update M,
      MultiWrite = mem_MultiWrite M, Scan = mem_Scan M, Len = mem_Len M, FlushAll = mem_FlushAll M\<rparr>"

section \<open>The invariant\<close>

definition weight :: "bytes \<times> Record \<Rightarrow> int" where
  "weight kr = int (length (fst kr)) + entryOverhead + int (length (Value (snd kr)))"

definition shard_inv :: "'j mem_env \<Rightarrow> nat \<Rightarrow> shard \<Rightarrow> bool" where
  "shard_inv M i sh \<longleftrightarrow>
     distinct (map fst (sh_m sh)) \<and> (\<forall>k r. map_of (sh_m sh) k = Some r \<longrightarrow> shardFor M k = i)
     \<and> distinct (sh_volatile sh) \<and> (\<forall>k. k \<in> set (sh_volatile sh) \<longleftrightarrow> (\<exists>r. map_of (sh_m sh) k = Some r \<and> Volatile r))
     \<and> sh_bytes sh = sum_list (map weight (sh_m sh))"

definition mem_inv :: "'j mem_env \<Rightarrow> 'j memstore \<Rightarrow> bool" where
  "mem_inv M s \<longleftrightarrow> (\<forall>i < shardCount. shard_inv M i (shards s i))"

text \<open>The keyspace a store represents.\<close>

definition view :: "'j mem_env \<Rightarrow> 'j memstore \<Rightarrow> keyspace" where
  "view M s k = map_of (sh_m (shards s (shardFor M k))) k"

lemma shardFor_less [simp]: "shardFor M k < shardCount"
  by (simp add: shardFor_def shardCount_def)

lemma weight_nonneg: "0 \<le> weight kr"
  by (simp add: weight_def entryOverhead_def)

lemma sum_weight_nonneg: "0 \<le> sum_list (map weight m)"
  by (induction m) (auto simp: weight_nonneg add_nonneg_nonneg)

lemma sum_weight_delete:
  "distinct (map fst m) \<Longrightarrow> map_of m k = Some r \<Longrightarrow>
   sum_list (map weight (AList.delete k m)) = sum_list (map weight m) - weight (k, r)"
proof (induction m)
  case (Cons a m)
  show ?case
  proof (cases "fst a = k")
    case True
    then have "k \<notin> fst ` set m" using Cons.prems(1) by auto
    then have "AList.delete k m = m" by (intro delete_id) auto
    with True Cons.prems(2) show ?thesis by (cases a) (auto simp: AList.delete_eq)
  next
    case False
    with Cons show ?thesis by (auto simp: AList.delete_eq)
  qed
qed simp

lemma sum_weight_update:
  "sum_list (map weight (AList.update k r m)) =
     sum_list (map weight m) + weight (k, r) - (case map_of m k of None \<Rightarrow> 0 | Some old \<Rightarrow> weight (k, old))"
  by (induction m) (auto split: option.splits)

lemma evict_bytes:
  assumes "shard_inv M i sh" and "map_of (sh_m sh) k = Some r"
  shows "sh_bytes (evictLocked k r sh) = sum_list (map weight (AList.delete k (sh_m sh)))"
proof -
  have "sum_list (map weight (AList.delete k (sh_m sh))) = sh_bytes sh - weight (k, r)"
    using assms by (auto simp: shard_inv_def sum_weight_delete)
  moreover from this have "0 \<le> sh_bytes sh - weight (k, r)"
    by (metis sum_weight_nonneg)
  ultimately show ?thesis by (simp add: evictLocked_def Let_def weight_def)
qed

lemma putLocked_fields [simp]:
  "map_of (sh_m (putLocked k r sh)) = (map_of (sh_m sh))(k \<mapsto> r)"
  "set (sh_volatile (putLocked k r sh)) = (if Volatile r then insert k (set (sh_volatile sh)) else set (sh_volatile sh) - {k})"
  "distinct (map fst (sh_m sh)) \<Longrightarrow> distinct (map fst (sh_m (putLocked k r sh)))"
  "distinct (sh_volatile sh) \<Longrightarrow> distinct (sh_volatile (putLocked k r sh))"
  by (auto simp: putLocked_def Let_def update_conv' distinct_removeAll distinct_update)

lemma evictLocked_fields [simp]:
  "map_of (sh_m (evictLocked k r sh)) = (map_of (sh_m sh))(k := None)"
  "set (sh_volatile (evictLocked k r sh)) = set (sh_volatile sh) - {k}"
  "distinct (map fst (sh_m sh)) \<Longrightarrow> distinct (map fst (sh_m (evictLocked k r sh)))"
  "distinct (sh_volatile sh) \<Longrightarrow> distinct (sh_volatile (evictLocked k r sh))"
  by (auto simp: evictLocked_def Let_def delete_conv' distinct_removeAll distinct_delete)

lemma shard_inv_put:
  assumes inv: "shard_inv M i sh" and i: "shardFor M k = i"
  shows "shard_inv M i (putLocked k r sh)"
proof -
  have "sh_bytes (putLocked k r sh) = sum_list (map weight (sh_m (putLocked k r sh)))"
    using inv by (auto simp: shard_inv_def putLocked_def Let_def sum_weight_update weight_def split: option.splits)
  with inv i show ?thesis
    unfolding shard_inv_def by (auto simp del: map_of_eq_Some_iff)
qed

lemma shard_inv_evict:
  assumes inv: "shard_inv M i sh" and r: "map_of (sh_m sh) k = Some r"
  shows "shard_inv M i (evictLocked k r sh)"
proof -
  have "sh_bytes (evictLocked k r sh) = sum_list (map weight (sh_m (evictLocked k r sh)))"
    using evict_bytes [OF assms] by (simp add: evictLocked_def Let_def)
  with inv show ?thesis
    unfolding shard_inv_def by (auto simp del: map_of_eq_Some_iff)
qed

section \<open>Insertion sort\<close>

lemma insort_snoc_less:
  "sorted (ys @ [y]) \<Longrightarrow> x < y \<Longrightarrow> insort x (ys @ [y]) = insort x ys @ [y :: nat]"
  by (induction ys) auto

lemma insort_snoc_ge: "sorted (ys @ [y]) \<Longrightarrow> y \<le> x \<Longrightarrow> insort x (ys @ [y]) = ys @ [y, x :: nat]"
proof -
  assume h: "sorted (ys @ [y])" "y \<le> x"
  then have "sort (x # ys @ [y]) = ys @ [y, x]"
    by (intro properties_for_sort) (auto simp: sorted_append)
  with h(1) show ?thesis by (simp add: sorted_sort_id)
qed

lemma sort_inner_insort:
  "j < length a \<Longrightarrow> sorted (take j a) \<Longrightarrow> sort_inner a j = insort (a ! j) (take j a) @ drop (Suc j) a"
proof (induction j arbitrary: a)
  case 0
  then show ?case by (cases a) auto
next
  case (Suc j)
  have tk: "take (Suc j) a = take j a @ [a ! j]" using Suc.prems by (simp add: take_Suc_conv_app_nth)
  show ?case
  proof (cases "a ! Suc j < a ! j")
    case True
    let ?b = "a[Suc j := a ! j, j := a ! Suc j]"
    have b: "take j ?b = take j a" "?b ! j = a ! Suc j" "j < length ?b"
      using Suc.prems by (auto simp: nth_list_update)
    have db: "drop (Suc j) ?b = a ! j # drop (Suc (Suc j)) a"
      using Suc.prems by (simp add: Cons_nth_drop_Suc [symmetric])
    have "sorted (take j a)" using Suc.prems(2) tk by (simp add: sorted_append)
    then have "sort_inner ?b j = insort (a ! Suc j) (take j a) @ a ! j # drop (Suc (Suc j)) a"
      using Suc.IH [of ?b] b db by simp
    with True Suc.prems(2) show ?thesis by (simp add: tk insort_snoc_less)
  next
    case False
    have "a = take (Suc j) a @ a ! Suc j # drop (Suc (Suc j)) a"
      using Suc.prems(1) by (simp add: Cons_nth_drop_Suc)
    with False Suc.prems(2) show ?thesis by (simp add: tk insort_snoc_ge)
  qed
qed

lemma sort_prefix:
  assumes "n \<le> length a" and "0 < n"
  shows "fold (\<lambda>i a. sort_inner a i) [1..<n] a = sort (take n a) @ drop n a"
  using assms(2,1)
proof (induction n rule: nat_induct_non_zero)
  case 1
  then show ?case by (cases a) auto
next
  case (Suc n)
  let ?b = "sort (take n a) @ drop n a"
  have "sort_inner ?b n = insort (a ! n) (sort (take n a)) @ drop (Suc n) a"
    using Suc.prems by (subst sort_inner_insort) (auto simp: nth_append)
  moreover have "sort (take (Suc n) a) = insort (a ! n) (sort (take n a))"
    using Suc.prems by (intro properties_for_sort) (auto simp: take_Suc_conv_app_nth sorted_insort)
  ultimately show ?case using Suc by simp
qed

lemma sortInts_sort: "sortInts a = sort a"
proof (cases a)
  case (Cons x xs)
  then show ?thesis using sort_prefix [of "length a" a] by (simp add: sortInts_def)
qed (simp add: sortInts_def)

section \<open>Effects on the keyspace\<close>

lemma shards_upd_shard: "shards (upd_shard i f s) = (shards s)(i := f (shards s i))"
  by (simp add: upd_shard_def)

lemma upd_shard_frame [simp]: "jst (upd_shard i f s) = jst s" "isDead (upd_shard i f s) = isDead s"
  by (simp_all add: upd_shard_def)

lemma mem_inv_upd:
  "mem_inv M s \<Longrightarrow> shard_inv M i (f (shards s i)) \<Longrightarrow> mem_inv M (upd_shard i f s)"
  by (simp add: mem_inv_def shards_upd_shard)

lemma view_put: "view M (upd_shard (shardFor M k) (putLocked k r) s) = (view M s)(k \<mapsto> r)"
  by (auto simp: view_def shards_upd_shard fun_eq_iff)

lemma view_evict: "view M (upd_shard (shardFor M k) (evictLocked k r) s) = (view M s)(k := None)"
  by (auto simp: view_def shards_upd_shard fun_eq_iff)

lemma mem_inv_put: "mem_inv M s \<Longrightarrow> mem_inv M (upd_shard (shardFor M k) (putLocked k r) s)"
  by (rule mem_inv_upd) (auto simp: mem_inv_def intro: shard_inv_put)

lemma mem_inv_evict:
  "mem_inv M s \<Longrightarrow> view M s k = Some r \<Longrightarrow> mem_inv M (upd_shard (shardFor M k) (evictLocked k r) s)"
  by (rule mem_inv_upd) (auto simp: mem_inv_def view_def intro: shard_inv_evict)

text \<open>The journal calls leave the shards alone.\<close>

definition same_shards :: "'j memstore \<Rightarrow> 'j memstore \<Rightarrow> bool" where
  "same_shards s s' \<longleftrightarrow> shards s' = shards s \<and> isDead s' = isDead s"

lemma same_shards_view: "same_shards s s' \<Longrightarrow> view M s' = view M s"
  by (simp add: same_shards_def view_def fun_eq_iff)

lemma same_shards_inv: "same_shards s s' \<Longrightarrow> mem_inv M s' = mem_inv M s"
  by (simp add: same_shards_def mem_inv_def)

lemma log_same_shards [simp]:
  "logPut M key rec s = (r, s') \<Longrightarrow> same_shards s s'"
  "logDelete M key s = (r, s') \<Longrightarrow> same_shards s s'"
  "logBatch M muts s = (r, s') \<Longrightarrow> same_shards s s'"
  "logFlushAll M s = (r, s') \<Longrightarrow> same_shards s s'"
  by (auto simp: logPut_def logDelete_def logBatch_def logFlushAll_def same_shards_def
      split: option.splits prod.splits)

lemma await_same_shards [simp]: "await M lsn s = (r, s') \<Longrightarrow> same_shards s s'"
  by (auto simp: await_def same_shards_def split: option.splits prod.splits if_splits)

lemma alive_simps [simp]:
  "sbind alive f s = (if isDead s then (Fail ErrClosed, s) else f () s)"
  by (simp add: sbind_def alive_def)

text \<open>The write path: a journal call, then the change of the shards, then the wait for durability.\<close>

lemma log_then_apply:
  assumes run: "sbind log (\<lambda>lsn s. await M lsn (f s)) s = (r, s')"
    and log: "\<And>x t. log s = (x, t) \<Longrightarrow> same_shards s t"
    and f: "\<And>t. same_shards s t \<Longrightarrow> same_shards (f s) (f t)"
  shows "(r = Ret () \<longrightarrow> same_shards (f s) s') \<and> (same_shards s s' \<or> same_shards (f s) s')"
proof -
  obtain x t where lt: "log s = (x, t)" by fastforce
  show ?thesis
  proof (cases x)
    case (Ret lsn)
    with run lt have "await M lsn (f t) = (r, s')" by simp
    then have "same_shards (f t) s'" by simp
    moreover have "same_shards (f s) (f t)" using f log lt by blast
    ultimately show ?thesis by (simp add: same_shards_def)
  qed (use run lt log in auto)
qed

lemma log_apply_law:
  assumes "sbind log (\<lambda>lsn s. await M lsn (f s)) s = (r, s')"
    and "\<And>x t. log s = (x, t) \<Longrightarrow> same_shards s t" and "\<And>t. same_shards s t \<Longrightarrow> same_shards (f s) (f t)"
    and "mem_inv M s" and "mem_inv M (f s)"
  shows "mem_inv M s' \<and> (r = Ret () \<longrightarrow> view M s' = view M (f s)) \<and> (view M s' = view M s \<or> view M s' = view M (f s))"
proof -
  have "(r = Ret () \<longrightarrow> same_shards (f s) s') \<and> (same_shards s s' \<or> same_shards (f s) s')"
    by (rule log_then_apply [OF assms(1)]) (use assms(2,3) in blast)+
  with assms(4,5) show ?thesis
    using same_shards_view [of s s' M] same_shards_view [of "f s" s' M]
      same_shards_inv [of s s' M] same_shards_inv [of "f s" s' M] by blast
qed

lemma log_then_value:
  "sbind log (\<lambda>lsn s. sbind (await M lsn) (\<lambda>_ s. (Ret v, s)) (f s)) s = (r, s') \<Longrightarrow>
   \<exists>r0. sbind log (\<lambda>lsn s. await M lsn (f s)) s = (r0, s') \<and> (\<forall>x. r = Ret x \<longrightarrow> r0 = Ret () \<and> x = v)"
  by (auto simp: sbind_def split: prod.splits res.splits)

lemma upd_same_shards: "same_shards s t \<Longrightarrow> same_shards (upd_shard i f s) (upd_shard i f t)"
  by (simp add: same_shards_def shards_upd_shard)

section \<open>Batches\<close>

lemma mutate_shard_map: "map_of (sh_m (mutate_shard mu sh)) = apply_mutation mu (map_of (sh_m sh))"
  by (auto simp: mutate_shard_def apply_mutation_def fun_eq_iff split: option.splits)

lemma mutate_shard_inv: "shard_inv M i sh \<Longrightarrow> shardFor M (Key mu) = i \<Longrightarrow> shard_inv M i (mutate_shard mu sh)"
  by (auto simp: mutate_shard_def shard_inv_put shard_inv_evict split: option.splits)

lemma fold_mutate_map:
  "map_of (sh_m (fold mutate_shard ms sh)) = fold apply_mutation ms (map_of (sh_m sh))"
  by (induction ms arbitrary: sh) (simp_all add: mutate_shard_map)

lemma fold_mutate_inv:
  "shard_inv M i sh \<Longrightarrow> \<forall>mu \<in> set ms. shardFor M (Key mu) = i \<Longrightarrow> shard_inv M i (fold mutate_shard ms sh)"
  by (induction ms arbitrary: sh) (simp_all add: mutate_shard_inv)

lemma fold_apply_filter:
  assumes "\<And>mu. mu \<in> set ms \<Longrightarrow> Key mu = k \<Longrightarrow> P mu" and "K k = K' k"
  shows "fold apply_mutation (filter P ms) K k = fold apply_mutation ms K' k"
  using assms
proof (induction ms arbitrary: K K')
  case (Cons mu ms)
  have ih: "fold apply_mutation (filter P ms) L k = fold apply_mutation ms L' k" if "L k = L' k" for L L'
    using Cons.IH [of L L'] Cons.prems(1) that by simp
  show ?case
  proof (cases "P mu")
    case True
    then show ?thesis using Cons.prems(2) by simp (rule ih, simp add: apply_mutation_def)
  next
    case False
    then have "Key mu \<noteq> k" using Cons.prems(1) by auto
    with False Cons.prems(2) show ?thesis by simp (rule ih, simp add: apply_mutation_def)
  qed
qed simp

text \<open>The mutations of a batch that fall into shard \<open>i\<close>.\<close>

definition muts_of :: "'j mem_env \<Rightarrow> nat \<Rightarrow> Mutation list \<Rightarrow> Mutation list" where
  "muts_of M i muts = filter (\<lambda>mu. shardFor M (Key mu) = i) muts"

text \<open>A store in which every shard has applied its share of the batch, in the order of the batch.\<close>

definition batch_applied :: "'j mem_env \<Rightarrow> Mutation list \<Rightarrow> 'j memstore \<Rightarrow> 'j memstore \<Rightarrow> bool" where
  "batch_applied M muts s s' \<longleftrightarrow>
     isDead s' = isDead s \<and> (\<forall>i. shards s' i = fold mutate_shard (muts_of M i muts) (shards s i))"

lemma batch_applied_view: "batch_applied M muts s s' \<Longrightarrow> view M s' = fold apply_mutation muts (view M s)"
proof
  fix k
  assume b: "batch_applied M muts s s'"
  let ?i = "shardFor M k"
  have "view M s' k = fold apply_mutation (muts_of M ?i muts) (map_of (sh_m (shards s ?i))) k"
    using b by (simp add: view_def batch_applied_def fold_mutate_map)
  also have "\<dots> = fold apply_mutation muts (view M s) k"
    unfolding muts_of_def by (rule fold_apply_filter) (auto simp: view_def)
  finally show "view M s' k = fold apply_mutation muts (view M s) k" .
qed

lemma batch_applied_inv: "batch_applied M muts s s' \<Longrightarrow> mem_inv M s \<Longrightarrow> mem_inv M s'"
  by (auto simp: mem_inv_def batch_applied_def muts_of_def intro: fold_mutate_inv)

lemma Loader_Batch_applied: "batch_applied M muts s (Loader_Batch M muts s)"
proof -
  have step: "(if Del mu then Loader_Delete M (Key mu) else Loader_Put M (Key mu) (MRecord mu)) =
      upd_shard (shardFor M (Key mu)) (mutate_shard mu)" for mu
    by (auto simp: fun_eq_iff Loader_Delete_def Loader_Put_def mutate_shard_def upd_shard_def split: option.splits)
  have "batch_applied M muts s (fold (\<lambda>mu. upd_shard (shardFor M (Key mu)) (mutate_shard mu)) muts s)"
    by (induction muts arbitrary: s) (auto simp: batch_applied_def muts_of_def shards_upd_shard)
  then show ?thesis by (simp add: Loader_Batch_def step)
qed

fun posns :: "'j mem_env \<Rightarrow> nat \<Rightarrow> nat \<Rightarrow> Mutation list \<Rightarrow> nat list" where
  "posns M h i [] = []"
| "posns M h i (mu # muts) = (if shardFor M (Key mu) = h then i # posns M h (Suc i) muts else posns M h (Suc i) muts)"

lemma group_idx_lookup:
  "map_of (group_idx M i muts idx) h =
     (if posns M h i muts = [] then map_of idx h
      else Some ((case map_of idx h of None \<Rightarrow> [] | Some is \<Rightarrow> is) @ posns M h i muts))"
  by (induction M i muts idx rule: group_idx.induct) (auto simp: Let_def update_conv' split: option.splits)

lemma group_idx_distinct: "distinct (map fst idx) \<Longrightarrow> distinct (map fst (group_idx M i muts idx))"
  by (induction M i muts idx rule: group_idx.induct) (auto simp: Let_def distinct_update)

lemma posns_nth: "map ((!) (pre @ muts)) (posns M h (length pre) muts) = muts_of M h muts"
proof (induction muts arbitrary: pre)
  case (Cons mu muts)
  then show ?case using Cons.IH [of "pre @ [mu]"] by (simp add: muts_of_def nth_append)
qed (simp add: muts_of_def)

lemma fold_upd_same:
  "fold (\<lambda>x. upd_shard i (g x)) xs s = upd_shard i (fold g xs) s"
  by (induction xs arbitrary: s) (simp_all add: upd_shard_def fun_upd_idem)

lemma fold_upd_distinct:
  "distinct order \<Longrightarrow> isDead (fold (\<lambda>i. upd_shard i (F i)) order s) = isDead s
    \<and> shards (fold (\<lambda>i. upd_shard i (F i)) order s) j = (if j \<in> set order then F j (shards s j) else shards s j)"
  by (induction order arbitrary: s) (auto simp: shards_upd_shard)

lemma multiwrite_applied:
  fixes M :: "'j mem_env" and muts :: "Mutation list"
  assumes ord: "\<And>xs. mset (iter_idx M xs) = mset xs"
  defines "idx \<equiv> group_idx M 0 muts []"
  shows "batch_applied M muts s
    (fold (\<lambda>si s. fold (\<lambda>mi. upd_shard si (mutate_shard (muts ! mi))) (the (map_of idx si)) s)
       (sortInts (iter_idx M (map fst idx))) s)"
proof -
  have look: "map_of idx h = (if posns M h 0 muts = [] then None else Some (posns M h 0 muts))" for h
    by (simp add: idx_def group_idx_lookup)
  have F: "fold (\<lambda>mi. upd_shard si (mutate_shard (muts ! mi))) is t =
      upd_shard si (fold mutate_shard (map ((!) muts) is)) t" for si "is" and t :: "'j memstore"
    by (simp add: fold_upd_same fold_map comp_def)
  have nth: "map ((!) muts) (posns M h 0 muts) = muts_of M h muts" for h
    using posns_nth [of "[]" muts M h] by simp
  let ?order = "sortInts (iter_idx M (map fst idx))"
  have set: "mset ?order = mset (map fst idx)" by (simp add: sortInts_sort ord)
  have "distinct (map fst idx)" unfolding idx_def by (rule group_idx_distinct) simp
  then have dist: "distinct ?order" using set by (metis mset_eq_imp_distinct_iff)
  have mem: "j \<in> set ?order \<longleftrightarrow> posns M j 0 muts \<noteq> []" for j
  proof -
    have "set ?order = fst ` set idx" using arg_cong [OF set, of set_mset] by simp
    then show ?thesis
      using look [of j] by (auto simp: dom_map_of_conv_image_fst [symmetric] split: if_splits)
  qed
  show ?thesis
    unfolding batch_applied_def F
  proof (intro conjI allI)
    note step = fold_upd_distinct [OF dist, of "\<lambda>si. fold mutate_shard (map ((!) muts) (the (map_of idx si)))" s]
    from step show "isDead (fold (\<lambda>si. upd_shard si (fold mutate_shard (map ((!) muts) (the (map_of idx si))))) ?order s) = isDead s"
      by blast
    fix i
    show "shards (fold (\<lambda>si. upd_shard si (fold mutate_shard (map ((!) muts) (the (map_of idx si))))) ?order s) i
        = fold mutate_shard (muts_of M i muts) (shards s i)"
      using step [of i] nth [of i] by (cases "posns M i 0 muts = []") (simp_all add: mem look)
  qed
qed

section \<open>Counting live keys\<close>

definition live_in :: "int \<Rightarrow> shard \<Rightarrow> (bytes \<times> Record) list" where
  "live_in now sh = filter (\<lambda>(k, r). \<not> Expired r now) (sh_m sh)"

lemma live_in_shortcut: "shard_inv M i sh \<Longrightarrow> sh_volatile sh = [] \<Longrightarrow> live_in now sh = sh_m sh"
proof -
  assume h: "shard_inv M i sh" "sh_volatile sh = []"
  have "\<not> Volatile r" if "(k, r) \<in> set (sh_m sh)" for k r
    using h that by (force simp: shard_inv_def)
  then show ?thesis by (auto simp: live_in_def Volatile_def Expired_def intro!: filter_True)
qed

lemma live_in_keys:
  assumes "shard_inv M i sh"
  shows "distinct (map fst (live_in now sh))"
    and "fst ` set (live_in now sh) = {k. \<exists>r. map_of (sh_m sh) k = Some r \<and> \<not> Expired r now}"
proof -
  show "distinct (map fst (live_in now sh))"
    using assms by (auto simp: live_in_def shard_inv_def distinct_map_filter)
  show "fst ` set (live_in now sh) = {k. \<exists>r. map_of (sh_m sh) k = Some r \<and> \<not> Expired r now}"
    using assms by (force simp: live_in_def shard_inv_def image_iff)
qed

lemma live_view_shard:
  assumes "mem_inv M s" and "i < shardCount"
  shows "{k \<in> dom (live now (view M s)). shardFor M k = i} = fst ` set (live_in now (shards s i))"
proof -
  have inv: "shard_inv M i (shards s i)" using assms by (simp add: mem_inv_def)
  show ?thesis
    unfolding live_in_keys(2) [OF inv] using inv
    by (auto simp: live_Some_iff view_def dom_def shard_inv_def simp del: map_of_eq_Some_iff)
qed

lemma card_live:
  assumes "mem_inv M s"
  shows "card (dom (live now (view M s))) = (\<Sum>i< shardCount. length (live_in now (shards s i)))"
proof -
  let ?A = "\<lambda>i. {k \<in> dom (live now (view M s)). shardFor M k = i}"
  have fin: "finite (?A i)" if "i < shardCount" for i
    using live_view_shard [OF assms that, of now] by simp
  have "dom (live now (view M s)) = (\<Union>i< shardCount. ?A i)" by auto
  also have "card \<dots> = (\<Sum>i< shardCount. card (?A i))"
    by (intro card_UN_disjoint) (use fin in auto)
  also have "\<dots> = (\<Sum>i< shardCount. length (live_in now (shards s i)))"
  proof (rule sum.cong [OF refl])
    fix i assume i: "i \<in> {..<shardCount}"
    then have inv: "shard_inv M i (shards s i)" using assms by (simp add: mem_inv_def)
    show "card (?A i) = length (live_in now (shards s i))"
      using live_view_shard [OF assms, of i now] i distinct_card [OF live_in_keys(1) [OF inv, of now]] by simp
  qed
  finally show ?thesis .
qed

lemma fold_plus: "fold (\<lambda>i n. n + f i) xs a = a + (\<Sum>i\<leftarrow>xs. f i :: int)"
  by (induction xs arbitrary: a) simp_all

lemma Len_live:
  assumes "mem_inv M s" and "\<not> isDead s"
  shows "mem_Len M clk s = (Ret (int (card (dom (live (clk 0) (view M s))))), s)"
proof -
  let ?f = "\<lambda>i. int (length (live_in (clk 0) (shards s i)))"
  have eq: "(let sh = shards s i in
        if sh_volatile sh = [] then n + int (length (sh_m sh))
        else n + int (length (filter (\<lambda>(k, r). \<not> Expired r (clk 0)) (sh_m sh)))) = n + ?f i"
    if "i \<in> set [0..<shardCount]" for i n
    using that assms(1) live_in_shortcut [of M i "shards s i" "clk 0"]
    by (auto simp: Let_def mem_inv_def live_in_def)
  have "fold (\<lambda>i n. let sh = shards s i in
        if sh_volatile sh = [] then n + int (length (sh_m sh))
        else n + int (length (filter (\<lambda>(k, r). \<not> Expired r (clk 0)) (sh_m sh)))) [0..<shardCount] 0
      = fold (\<lambda>i n. n + ?f i) [0..<shardCount] 0"
    by (rule fold_cong [OF refl refl]) (simp add: eq fun_eq_iff)
  also have "\<dots> = (\<Sum>i< shardCount. ?f i)"
    by (simp add: fold_plus interv_sum_list_conv_sum_set_nat atLeast0LessThan)
  also have "\<dots> = int (card (dom (live (clk 0) (view M s))))"
    by (simp add: card_live [OF assms(1)])
  finally show ?thesis using assms(2) by (simp add: mem_Len_def)
qed

section \<open>Wiping\<close>

lemma wipe_shards: "shards (wipe s) i = (if i < shardCount then empty_shard else shards s i)" "isDead (wipe s) = isDead s"
  using fold_upd_distinct [of "[0..<shardCount]" "\<lambda>i _. empty_shard" s i] by (simp_all add: wipe_def)

lemma view_wipe: "view M (wipe s) = Map.empty"
  by (simp add: view_def wipe_shards empty_shard_def fun_eq_iff)

lemma mem_inv_wipe: "mem_inv M (wipe s)"
  by (simp add: mem_inv_def wipe_shards shard_inv_def empty_shard_def)

lemma wipe_same_shards: "same_shards s t \<Longrightarrow> same_shards (wipe s) (wipe t)"
  by (simp add: same_shards_def wipe_shards fun_eq_iff)

lemma Loader_FlushAll_wipe: "Loader_FlushAll = wipe"
  by (simp add: fun_eq_iff Loader_FlushAll_def wipe_def)

section \<open>The engine keeps the contract of the store\<close>

text \<open>Go walks a map in some order, without skipping or repeating entries.\<close>

definition env_ok :: "'j mem_env \<Rightarrow> bool" where
  "env_ok M \<longleftrightarrow> (\<forall>xs. mset (iter_idx M xs) = mset xs) \<and> (\<forall>i xs. mset (iter M i xs) = mset xs)"

abbreviation mem_ok :: "'j mem_env \<Rightarrow> 'j memstore \<Rightarrow> bool" where
  "mem_ok M s \<equiv> env_ok M \<and> mem_inv M s"

lemma mem_Get_law:
  assumes "mem_inv M s" and "mem_Get M clk k s = (r, s')" and "clk 0 \<le> clk 1"
  shows "mem_inv M s' \<and> agree (clk 1) (view M s') (view M s) \<and> (\<forall>x. r = Ret x \<longrightarrow> x = live (clk 0) (view M s) k)"
proof (cases "isDead s \<or> view M s k = None \<or> (\<exists>rec. view M s k = Some rec \<and> \<not> Expired rec (clk 0))")
  case True
  with assms have "s' = s" "\<forall>x. r = Ret x \<longrightarrow> x = live (clk 0) (view M s) k"
    by (auto simp: mem_Get_def view_def live_def Let_def split: option.splits if_splits)
  with assms(1) show ?thesis by simp
next
  case False
  then obtain rec where rec: "view M s k = Some rec" "Expired rec (clk 0)" "\<not> isDead s" by auto
  then have e1: "Expired rec (clk 1)" using assms(3) by (auto simp: Expired_def)
  then have s': "s' = upd_shard (shardFor M k) (evictLocked k rec) s" and r: "r = Ret None"
    using rec assms(2) by (auto simp: mem_Get_def view_def Let_def)
  have "live now (view M s) k = None" if "clk 1 \<le> now" for now
    using that rec(1) e1 by (auto simp: live_def Expired_def)
  then have "agree (clk 1) (view M s') (view M s)"
    by (auto simp: agree_def s' view_evict live_upd fun_eq_iff)
  with rec assms(1) show ?thesis by (simp add: s' r mem_inv_evict live_def)
qed

lemma mem_Put_law:
  assumes "mem_inv M s" and "mem_Put M clk k rec s = (r, s')"
  shows "mem_inv M s' \<and>
    (if r = Ret () then view M s' = (view M s)(k \<mapsto> rec) else view M s' = view M s \<or> view M s' = (view M s)(k \<mapsto> rec))"
proof (cases "isDead s")
  case True
  with assms show ?thesis by (auto simp: mem_Put_def)
next
  case False
  let ?f = "upd_shard (shardFor M k) (putLocked k rec)"
  have "sbind (logPut M k rec) (\<lambda>lsn s. await M lsn (?f s)) s = (r, s')"
    using assms(2) False by (simp add: mem_Put_def)
  from log_apply_law [OF this _ _ assms(1) mem_inv_put [OF assms(1)]] show ?thesis
    by (simp add: upd_same_shards view_put)
qed

lemma mem_Delete_law:
  assumes "mem_inv M s" and "mem_Delete M clk k s = (r, s')"
  shows "mem_inv M s' \<and> (\<forall>x. r = Ret x \<longrightarrow> x = (live (clk 0) (view M s) k \<noteq> None) \<and> view M s' = (view M s)(k := None))
      \<and> (view M s' = view M s \<or> view M s' = (view M s)(k := None))"
proof (cases "isDead s \<or> view M s k = None")
  case True
  with assms show ?thesis
    by (auto simp: mem_Delete_def view_def live_def fun_upd_idem split: if_splits)
next
  case False
  then obtain rec where rec: "view M s k = Some rec" "\<not> isDead s" by auto
  let ?f = "upd_shard (shardFor M k) (evictLocked k rec)"
  obtain r0 where run: "sbind (logDelete M k) (\<lambda>lsn s. await M lsn (?f s)) s = (r0, s')"
    and r0: "\<forall>x. r = Ret x \<longrightarrow> r0 = Ret () \<and> x = (\<not> Expired rec (clk 0))"
    using log_then_value [of "logDelete M k" M "\<not> Expired rec (clk 0)" ?f s r s'] assms(2) rec
    by (auto simp: mem_Delete_def view_def Let_def)
  from log_apply_law [OF run _ _ assms(1) mem_inv_evict [OF assms(1) rec(1)]] r0 rec show ?thesis
    by (auto simp: upd_same_shards view_evict live_def)
qed

lemma mem_MultiWrite_law:
  assumes "mem_ok M s" and "mem_MultiWrite M clk muts s = (r, s')"
  shows "mem_ok M s' \<and> (r = Ret () \<longrightarrow> view M s' = fold apply_mutation muts (view M s))
    \<and> (view M s' = view M s \<or> view M s' = fold apply_mutation muts (view M s))"
proof (cases "isDead s \<or> muts = []")
  case True
  with assms show ?thesis by (auto simp: mem_MultiWrite_def split: if_splits)
next
  case False
  let ?idx = "group_idx M 0 muts []"
  let ?f = "fold (\<lambda>si s. fold (\<lambda>mi. upd_shard si (mutate_shard (muts ! mi))) (the (map_of ?idx si)) s)
    (sortInts (iter_idx M (map fst ?idx)))"
  have b: "batch_applied M muts t (?f t)" for t
    using assms(1) by (intro multiwrite_applied) (simp add: env_ok_def)
  have f: "same_shards (?f s) (?f t)" if "same_shards s t" for t
    using b [of s] b [of t] that by (auto simp: batch_applied_def same_shards_def)
  have "sbind (logBatch M muts) (\<lambda>lsn s. await M lsn (?f s)) s = (r, s')"
    using assms(2) False by (simp add: mem_MultiWrite_def Let_def)
  from log_apply_law [OF this _ f _ batch_applied_inv [OF b]] assms(1) batch_applied_view [OF b] show ?thesis
    by simp
qed

lemma mem_FlushAll_law:
  assumes "mem_inv M s" and "mem_FlushAll M clk s = (r, s')"
  shows "mem_inv M s' \<and> (r = Ret () \<longrightarrow> view M s' = Map.empty) \<and> (view M s' = view M s \<or> view M s' = Map.empty)"
proof (cases "isDead s")
  case True
  with assms show ?thesis by (auto simp: mem_FlushAll_def)
next
  case False
  have "sbind (logFlushAll M) (\<lambda>lsn s. await M lsn (wipe s)) s = (r, s')"
    using assms(2) False by (simp add: mem_FlushAll_def)
  from log_apply_law [OF this _ _ assms(1) mem_inv_wipe] show ?thesis
    by (simp add: wipe_same_shards view_wipe)
qed

text \<open>The first step of \<open>Update\<close>: an expired record is evicted before the closure sees the key.\<close>

definition reclaim :: "'j mem_env \<Rightarrow> int \<Rightarrow> bytes \<Rightarrow> 'j memstore \<Rightarrow> 'j memstore" where
  "reclaim M now k s =
     (case view M s k of
        Some r \<Rightarrow> if Expired r now then upd_shard (shardFor M k) (evictLocked k r) s else s
      | None \<Rightarrow> s)"

lemma reclaim_view: "view M (reclaim M now k s) = (view M s)(k := live now (view M s) k)"
  by (auto simp: reclaim_def view_evict live_def fun_upd_idem split: option.splits)

lemma reclaim_inv: "mem_inv M s \<Longrightarrow> mem_inv M (reclaim M now k s)"
  by (auto simp: reclaim_def mem_inv_evict split: option.splits)

lemma reclaim_jst [simp]: "jst (reclaim M now k s) = jst s"
  by (auto simp: reclaim_def split: option.splits)

lemma mem_Update_eq:
  fixes M :: "'j mem_env" and clk :: clock and k :: bytes and s :: "'j memstore"
  assumes "\<not> isDead s" and "fn (case live (clk 0) (view M s) k of None \<Rightarrow> zero_record | Some x \<Rightarrow> x)
      (live (clk 0) (view M s) k \<noteq> None) = (cl, cc)"
  defines "s1 \<equiv> reclaim M (clk 0) k s"
  shows "mem_Update M clk k fn s =
    (case cl of
       Fail e \<Rightarrow> ((Fail e, Some cc), s1)
     | Panic \<Rightarrow> ((Panic, Some cc), s1)
     | Ret (next, act) \<Rightarrow>
         (case act of
            ActionPut \<Rightarrow>
              (case sbind (logPut M k next) (\<lambda>lsn s. await M lsn (upd_shard (shardFor M k) (putLocked k next) s)) s1 of
                 (r, s) \<Rightarrow> ((r, Some cc), s))
          | ActionDelete \<Rightarrow>
              (case live (clk 0) (view M s) k of
                 None \<Rightarrow> ((Ret (), Some cc), s1)
               | Some old \<Rightarrow>
                   (case sbind (logDelete M k) (\<lambda>lsn s. await M lsn (upd_shard (shardFor M k) (evictLocked k old) s)) s1 of
                      (r, s) \<Rightarrow> ((r, Some cc), s)))
          | ActionNone \<Rightarrow> ((Ret (), Some cc), s1)))"
proof -
  consider "view M s k = None" | r where "view M s k = Some r" "Expired r (clk 0)"
    | r where "view M s k = Some r" "\<not> Expired r (clk 0)" by (cases "view M s k") auto
  then show ?thesis
    using assms(1,2)
    by cases (simp_all add: mem_Update_def Let_def view_def s1_def reclaim_def live_def
        split: res.split Action.split option.split)
qed

text \<open>The three ways a call of \<open>Update\<close> on a live store can go.\<close>

lemma mem_Update_split:
  fixes M :: "'j mem_env" and clk :: clock and k :: bytes and s :: "'j memstore"
  assumes alive: "\<not> isDead s" and run: "mem_Update M clk k fn s = ((r, c), s')"
  defines "cur \<equiv> live (clk 0) (view M s) k"
  defines "called \<equiv> fn (case cur of None \<Rightarrow> zero_record | Some x \<Rightarrow> x) (cur \<noteq> None)"
  defines "s1 \<equiv> reclaim M (clk 0) k s"
  obtains (stay) "c = Some (snd called)" "s' = s1"
      "case fst called of Fail e \<Rightarrow> r = Fail e | Panic \<Rightarrow> r = Panic
       | Ret (next, act) \<Rightarrow> r = Ret () \<and> (act = ActionNone \<or> act = ActionDelete \<and> cur = None)"
    | (put) "next" where "c = Some (snd called)" "fst called = Ret (next, ActionPut)"
      "sbind (logPut M k next) (\<lambda>lsn s. await M lsn (upd_shard (shardFor M k) (putLocked k next) s)) s1 = (r, s')"
    | (del) "next" old where "c = Some (snd called)" "fst called = Ret (next, ActionDelete)" "cur = Some old"
      "sbind (logDelete M k) (\<lambda>lsn s. await M lsn (upd_shard (shardFor M k) (evictLocked k old) s)) s1 = (r, s')"
proof -
  obtain cl cc where cl: "called = (cl, cc)" by fastforce
  note eq = mem_Update_eq [OF alive, of fn clk M k cl cc, folded cur_def, folded called_def, OF cl, folded s1_def]
  show thesis
  proof (cases cl)
    case (Ret x)
    obtain nx act where x: "x = (nx, act)" by fastforce
    show thesis
    proof (cases act)
      case ActionNone
      then show thesis using run eq Ret x cl by (intro stay) auto
    next
      case ActionPut
      then show thesis using run eq Ret x cl by (intro put [of nx]) (auto split: prod.splits)
    next
      case ActionDelete
      then show thesis
        using run eq Ret x cl by (cases cur) (auto intro: stay del split: prod.splits)
    qed
  qed (use run eq cl in \<open>auto intro!: stay\<close>)
qed

lemma mem_Update_cases:
  fixes M :: "'j mem_env" and clk :: clock and k :: bytes and s :: "'j memstore"
  assumes inv: "mem_inv M s" and alive: "\<not> isDead s" and run: "mem_Update M clk k fn s = ((r, c), s')"
  defines "cur \<equiv> live (clk 0) (view M s) k"
  defines "called \<equiv> fn (case cur of None \<Rightarrow> zero_record | Some x \<Rightarrow> x) (cur \<noteq> None)"
  defines "K \<equiv> (view M s)(k := cur)"
  shows "mem_inv M s' \<and> c = Some (snd called)
    \<and> (case fst called of
        Fail e \<Rightarrow> r = Fail e \<and> view M s' = K
      | Panic \<Rightarrow> r = Panic \<and> view M s' = K
      | Ret x \<Rightarrow> (r = Ret () \<longrightarrow> view M s' = update_result K k (fst called))
          \<and> (view M s' = K \<or> view M s' = update_result K k (fst called)))"
proof -
  let ?s1 = "reclaim M (clk 0) k s"
  have inv1: "mem_inv M ?s1" using inv by (rule reclaim_inv)
  have K1: "view M ?s1 = K" by (simp add: reclaim_view K_def cur_def)
  from alive run show ?thesis
  proof (cases rule: mem_Update_split [case_names stay put del])
    case stay
    note stay' = stay [folded cur_def, folded called_def]
    have "K(k := None) = K" if "cur = None" using that by (simp add: K_def)
    with stay' K1 inv1 show ?thesis
      by (auto simp: update_result_def split: res.splits prod.splits Action.splits)
  next
    case (put nx)
    note put' = put [folded cur_def, folded called_def]
    from log_apply_law [OF put'(3) _ _ inv1 mem_inv_put [OF inv1]] put'(1,2) K1 show ?thesis
      by (simp add: update_result_def upd_same_shards view_put)
  next
    case (del nx old)
    note del' = del [folded cur_def, folded called_def]
    have "mem_inv M (upd_shard (shardFor M k) (evictLocked k old) ?s1)"
      using inv1 del'(3) by (intro mem_inv_evict) (simp_all add: K1 K_def)
    from log_apply_law [OF del'(4) _ _ inv1 this] del'(1,2) K1 show ?thesis
      by (simp add: update_result_def upd_same_shards view_evict)
  qed
qed

lemma agree_update_result: "agree t K K' \<Longrightarrow> agree t (update_result K k c) (update_result K' k c)"
  by (auto simp: update_result_def agree_upd split: res.splits Action.splits)

lemma mem_Update_law:
  assumes inv: "mem_inv M s" and run: "mem_Update M clk k fn s = ((r, c), s')"
  shows "mem_inv M s' \<and>
      (let cur = live (clk 0) (view M s) k;
           called = fn (case cur of None \<Rightarrow> zero_record | Some x \<Rightarrow> x) (cur \<noteq> None);
           after = update_result (view M s) k (fst called)
       in (c = None \<and> r \<noteq> Ret () \<and> r \<noteq> Panic \<and> view M s' = view M s \<or> c = Some (snd called))
        \<and> (r = Ret () \<longrightarrow> c = Some (snd called) \<and> (\<exists>x. fst called = Ret x) \<and> agree (clk 0) (view M s') after)
        \<and> (c = Some (snd called) \<longrightarrow> (\<forall>e. fst called = Fail e \<longrightarrow> r = Fail e) \<and> (fst called = Panic \<longrightarrow> r = Panic))
        \<and> (agree (clk 0) (view M s') after \<or> agree (clk 0) (view M s') (view M s)))"
proof (cases "isDead s")
  case True
  with assms show ?thesis by (auto simp: mem_Update_def Let_def)
next
  case False
  define cur where "cur = live (clk 0) (view M s) k"
  define called where "called = fn (case cur of None \<Rightarrow> zero_record | Some x \<Rightarrow> x) (cur \<noteq> None)"
  let ?K = "(view M s)(k := cur)"
  have K: "agree (clk 0) ?K (view M s)" unfolding cur_def by (rule agree_reclaim)
  have after: "agree (clk 0) (update_result ?K k x) (update_result (view M s) k x)" for x
    using K by (rule agree_update_result)
  from mem_Update_cases [OF inv False run]
  have *: "mem_inv M s'" "c = Some (snd called)"
    "case fst called of
        Fail e \<Rightarrow> r = Fail e \<and> view M s' = ?K
      | Panic \<Rightarrow> r = Panic \<and> view M s' = ?K
      | Ret x \<Rightarrow> (r = Ret () \<longrightarrow> view M s' = update_result ?K k (fst called))
          \<and> (view M s' = ?K \<or> view M s' = update_result ?K k (fst called))"
    unfolding called_def cur_def by simp_all
  show ?thesis
    unfolding Let_def cur_def [symmetric] called_def [symmetric]
    using * K after [of "fst called"] by (cases "fst called") auto
qed

interpretation mem: store_contract "mem_store M" "mem_ok M" "view M" for M :: "'j mem_env"
proof (unfold_locales, goal_cases)
  case (1 s clk k rg s')
  then show ?case using mem_Get_law [of M s clk k rg s'] by (simp add: mem_store_def)
next
  case (2 s clk k rec r s')
  then show ?case using mem_Put_law [of M s clk k rec r s'] by (simp add: mem_store_def)
next
  case (3 s clk k rb s')
  then show ?case using mem_Delete_law [of M s clk k rb s'] by (simp add: mem_store_def)
next
  case (4 s clk k fn r c s')
  then show ?case using mem_Update_law [of M s clk k fn r c s'] by (simp add: mem_store_def)
next
  case (5 s clk muts r s')
  then show ?case using mem_MultiWrite_law [of M s clk muts r s'] by (simp add: mem_store_def)
next
  case (6 s clk rn s')
  then show ?case using Len_live [of M s clk]
    by (cases "isDead s") (auto simp: mem_store_def mem_Len_def)
next
  case (7 s clk r s')
  then show ?case using mem_FlushAll_law [of M s clk r s'] by (simp add: mem_store_def)
qed

section \<open>Walking the keyspace\<close>

definition collect :: "bytes \<Rightarrow> Record \<Rightarrow> bytes list \<Rightarrow> bool \<times> bytes list" where
  "collect k r acc = (True, acc @ [k])"

lemma scan_batch_collect: "scan_batch collect b acc = (True, acc @ map fst b)"
  by (induction b arbitrary: acc) (auto simp: collect_def)

definition batch_keys :: "'j mem_env \<Rightarrow> int \<Rightarrow> 'j memstore \<Rightarrow> nat \<Rightarrow> bytes list" where
  "batch_keys M now s i = map fst (filter (\<lambda>(k, r). \<not> Expired r now) (iter M i (sh_m (shards s i))))"

lemma batch_keys_iff:
  assumes "mem_ok M s" and "i < shardCount"
  shows "k \<in> set (batch_keys M now s i) \<longleftrightarrow> shardFor M k = i \<and> live now (view M s) k \<noteq> None"
proof -
  have "set (iter M i (sh_m (shards s i))) = set (sh_m (shards s i))"
    using assms(1) unfolding env_ok_def by (metis set_mset_mset)
  then have "set (batch_keys M now s i) = fst ` set (live_in now (shards s i))"
    by (auto simp: batch_keys_def live_in_def)
  also have "\<dots> = {k \<in> dom (live now (view M s)). shardFor M k = i}"
    using live_view_shard [of M s i now] assms by simp
  finally show ?thesis by auto
qed

lemma scan_loop_collect:
  assumes "next < shardCount"
  shows "\<exists>stop. next < stop \<and> stop \<le> shardCount \<and>
    scan_loop M now cnt collect next emitted acc s =
      (if stop = shardCount then 0 else stop, acc @ concat (map (batch_keys M now s) [next..<stop]))"
  using assms
proof (induction M now cnt "collect" "next" emitted acc s rule: scan_loop.induct)
  case (1 M now cnt "next" emitted acc s)
  let ?b = "filter (\<lambda>(k, r). \<not> Expired r now) (iter M next (sh_m (shards s next)))"
  let ?acc = "acc @ batch_keys M now s next"
  let ?e = "emitted + int (length ?b)"
  have b: "scan_batch collect ?b acc = (True, ?acc)" by (simp add: scan_batch_collect batch_keys_def)
  show ?case
  proof (cases "?e \<ge> cnt \<or> Suc next = shardCount")
    case True
    have "scan_loop M now cnt collect (Suc next) ?e ?acc s = (0, ?acc)" if "Suc next = shardCount"
      using that by (simp add: scan_loop.simps [of M now cnt collect shardCount])
    with True b "1.prems" show ?thesis
      by (intro exI [of _ "Suc next"]) (auto simp: scan_loop.simps [of M now cnt collect "next"] Let_def)
  next
    case False
    then have lt: "next + 1 < shardCount" using "1.prems" by simp
    obtain stop where stop: "next + 1 < stop" "stop \<le> shardCount"
      "scan_loop M now cnt collect (next + 1) ?e ?acc s =
        (if stop = shardCount then 0 else stop, ?acc @ concat (map (batch_keys M now s) [next + 1..<stop]))"
      using "1.hyps" [OF "1.prems" refl b [symmetric] refl refl _ lt] False by auto
    have "[next..<stop] = next # [next + 1..<stop]" using stop(1) by (simp add: upt_rec)
    with stop False b "1.prems" show ?thesis
      by (intro exI [of _ stop]) (simp add: scan_loop.simps [of M now cnt collect "next"] Let_def)
  qed
qed

text \<open>
  A client's walk: \<open>Scan\<close> again and again from the cursor it returned, until it returns zero. The
  \<open>i\<close>-th call finds the store in state \<open>ss i\<close>; between calls other clients change it at will.
\<close>

fun scan_walk :: "'j mem_env \<Rightarrow> (nat \<Rightarrow> 'j memstore) \<Rightarrow> (nat \<Rightarrow> clock) \<Rightarrow> int \<Rightarrow> nat \<Rightarrow> nat \<Rightarrow> nat \<Rightarrow> bytes list \<Rightarrow>
    bytes list option" where
  "scan_walk M ss clk cnt 0 i cursor acc = None"
| "scan_walk M ss clk cnt (Suc f) i cursor acc =
     (case mem_Scan M (clk i) cursor cnt collect acc (ss i) of
        (Ret (c, acc'), _) \<Rightarrow> if c = 0 then Some acc' else scan_walk M ss clk cnt f (Suc i) c acc'
      | _ \<Rightarrow> None)"

lemma scan_walk_covers:
  assumes ok: "\<And>i. mem_ok M (ss i) \<and> \<not> isDead (ss i)"
    and "cursor < shardCount" and "shardCount - cursor \<le> f"
  shows "\<exists>acc'. scan_walk M ss clk cnt f i cursor acc = Some acc' \<and> set acc \<subseteq> set acc' \<and>
    (\<forall>k. (\<forall>i. live (clk i 0) (view M (ss i)) k \<noteq> None) \<longrightarrow> cursor \<le> shardFor M k \<longrightarrow> k \<in> set acc')"
  using assms(2,3)
proof (induction f arbitrary: i cursor acc)
  case (Suc f)
  let ?cnt = "if cnt \<le> 0 then 10 else cnt"
  have c: "i64 (int cursor) = int cursor"
    using Suc.prems(1) by (intro i64_id) (simp add: is_i64_def shardCount_def)
  obtain stop where stop: "cursor < stop" "stop \<le> shardCount"
    "scan_loop M (clk i 0) ?cnt collect cursor 0 acc (ss i) =
      (if stop = shardCount then 0 else stop, acc @ concat (map (batch_keys M (clk i 0) (ss i)) [cursor..<stop]))"
    using scan_loop_collect [OF Suc.prems(1)] by blast
  let ?acc = "acc @ concat (map (batch_keys M (clk i 0) (ss i)) [cursor..<stop])"
  have run: "mem_Scan M (clk i) cursor cnt collect acc (ss i) = (Ret (if stop = shardCount then 0 else stop, ?acc), ss i)"
    using ok [of i] stop(3) Suc.prems(1) c by (simp add: mem_Scan_def Let_def)
  have here: "k \<in> set ?acc" if "\<forall>i. live (clk i 0) (view M (ss i)) k \<noteq> None" "cursor \<le> shardFor M k" "shardFor M k < stop" for k
    using that ok [of i] batch_keys_iff [of M "ss i" "shardFor M k" k "clk i 0"] by auto
  show ?case
  proof (cases "stop = shardCount")
    case True
    with run here show ?thesis by (intro exI [of _ ?acc]) auto
  next
    case False
    have f: "shardCount - stop \<le> f" using stop(1) Suc.prems(2) by linarith
    obtain acc' where acc': "scan_walk M ss clk cnt f (Suc i) stop ?acc = Some acc'" "set ?acc \<subseteq> set acc'"
      "\<forall>k. (\<forall>i. live (clk i 0) (view M (ss i)) k \<noteq> None) \<longrightarrow> stop \<le> shardFor M k \<longrightarrow> k \<in> set acc'"
      using Suc.IH [of stop "Suc i" ?acc] stop False f by auto
    have all: "k \<in> set acc'" if "\<forall>i. live (clk i 0) (view M (ss i)) k \<noteq> None" "cursor \<le> shardFor M k" for k
      using that here [OF that] acc'(2,3) by (cases "shardFor M k < stop") auto
    have "scan_walk M ss clk cnt (Suc f) i cursor acc = Some acc'"
      using run acc'(1) stop(1) False by simp
    with all acc'(2) show ?thesis by (intro exI [of _ acc']) simp
  qed
qed simp

section \<open>The counters of INFO\<close>

lemma sum_over_shards:
  assumes "\<And>i. i < shardCount \<Longrightarrow> finite {k \<in> A. shardFor M k = i}"
  shows "(\<Sum>k \<in> A. f k) = (\<Sum>i < shardCount. \<Sum>k \<in> {k \<in> A. shardFor M k = i}. f k)"
proof -
  have "A = (\<Union>i < shardCount. {k \<in> A. shardFor M k = i})" by auto
  then have "(\<Sum>k \<in> A. f k) = sum f (\<Union>i < shardCount. {k \<in> A. shardFor M k = i})" by simp
  also have "\<dots> = (\<Sum>i < shardCount. \<Sum>k \<in> {k \<in> A. shardFor M k = i}. f k)"
    by (rule sum.UNION_disjoint) (use assms in auto)
  finally show ?thesis .
qed

lemma view_shard:
  assumes "mem_inv M s" and "i < shardCount"
  shows "{k \<in> dom (view M s). shardFor M k = i} = fst ` set (sh_m (shards s i))"
    and "{k \<in> {k. \<exists>r. view M s k = Some r \<and> Volatile r}. shardFor M k = i} = set (sh_volatile (shards s i))"
proof -
  have inv: "shard_inv M i (shards s i)" using assms by (simp add: mem_inv_def)
  have dom: "k \<in> fst ` set (sh_m (shards s i)) \<longleftrightarrow> (\<exists>r. map_of (sh_m (shards s i)) k = Some r)" for k
    by (metis domIff dom_map_of_conv_image_fst not_None_eq)
  have own: "shardFor M k = i" if "map_of (sh_m (shards s i)) k = Some r" for k r
    using inv that unfolding shard_inv_def by blast
  have vol: "k \<in> set (sh_volatile (shards s i)) \<longleftrightarrow> (\<exists>r. map_of (sh_m (shards s i)) k = Some r \<and> Volatile r)" for k
    using inv unfolding shard_inv_def by blast
  have at: "view M s k = map_of (sh_m (shards s i)) k" if "shardFor M k = i" for k
    using that by (simp add: view_def)
  have vw: "view M s k = Some r" if "map_of (sh_m (shards s i)) k = Some r" for k r
    using at [OF own [OF that]] that by simp
  show "{k \<in> dom (view M s). shardFor M k = i} = fst ` set (sh_m (shards s i))"
    unfolding set_eq_iff dom by (auto simp: at simp del: map_of_eq_Some_iff dest: own vw)
  show "{k \<in> {k. \<exists>r. view M s k = Some r \<and> Volatile r}. shardFor M k = i} = set (sh_volatile (shards s i))"
    unfolding set_eq_iff vol by (auto simp: at simp del: map_of_eq_Some_iff dest: own vw)
qed

lemma sum_weight_keys:
  assumes "distinct (map fst m)"
  shows "sum_list (map weight m) = (\<Sum>k \<in> fst ` set m. weight (k, the (map_of m k)))"
proof -
  have inj: "inj_on fst (set m)" and d: "distinct m" using assms by (simp_all add: distinct_map)
  have "sum_list (map weight m) = (\<Sum>kr \<in> set m. weight kr)" using d by (simp add: sum_list_distinct_conv_sum_set)
  also have "\<dots> = (\<Sum>kr \<in> set m. weight (fst kr, the (map_of m (fst kr))))"
    using assms by (intro sum.cong) auto
  also have "\<dots> = (\<Sum>k \<in> fst ` set m. weight (k, the (map_of m k)))"
    by (simp add: sum.reindex [OF inj])
  finally show ?thesis .
qed

lemma stats_fold:
  "fold (\<lambda>i st. st\<lparr>Keys := Keys st + a i, VolatileKeys := VolatileKeys st + b i, MemoryBytes := MemoryBytes st + c i\<rparr>) xs st =
   st\<lparr>Keys := Keys st + sum_list (map a xs), VolatileKeys := VolatileKeys st + sum_list (map b xs),
      MemoryBytes := MemoryBytes st + sum_list (map c xs)\<rparr>"
  by (induction xs arbitrary: st) (simp_all add: add.assoc)

lemma sum_list_upto: "sum_list (map f [0..<n]) = (\<Sum>i < n. f i :: int)"
  by (simp add: interv_sum_list_conv_sum_set_nat atLeast0LessThan)

lemma mem_Stats_exact:
  assumes inv: "mem_inv M s" and "\<not> isDead s"
  shows "mem_Stats s = (Ret \<lparr>Keys = int (card (dom (view M s))),
      VolatileKeys = int (card {k. \<exists>r. view M s k = Some r \<and> Volatile r}),
      MemoryBytes = (\<Sum>k \<in> dom (view M s). weight (k, the (view M s k))), Extra = [(''shards'', itoa shardCount)]\<rparr>, s)"
proof -
  have sh: "shard_inv M i (shards s i)" if "i < shardCount" for i using inv that by (simp add: mem_inv_def)
  have "int (card (dom (view M s))) = (\<Sum>k \<in> dom (view M s). 1)" by simp
  also have "\<dots> = (\<Sum>i < shardCount. \<Sum>k \<in> {k \<in> dom (view M s). shardFor M k = i}. 1)"
    by (rule sum_over_shards) (simp add: view_shard(1) [OF inv])
  also have "\<dots> = (\<Sum>i < shardCount. int (length (sh_m (shards s i))))"
  proof (rule sum.cong [OF refl])
    fix i assume "i \<in> {..<shardCount}"
    then have "distinct (map fst (sh_m (shards s i)))" "i < shardCount" using sh by (auto simp: shard_inv_def)
    then show "(\<Sum>k \<in> {k \<in> dom (view M s). shardFor M k = i}. 1) = int (length (sh_m (shards s i)))"
      using distinct_card [of "map fst (sh_m (shards s i))"] by (simp add: view_shard(1) [OF inv])
  qed
  finally have keys: "(\<Sum>i < shardCount. int (length (sh_m (shards s i)))) = int (card (dom (view M s)))" ..
  let ?V = "{k. \<exists>r. view M s k = Some r \<and> Volatile r}"
  have "int (card ?V) = (\<Sum>k \<in> ?V. 1)" by simp
  also have "\<dots> = (\<Sum>i < shardCount. \<Sum>k \<in> {k \<in> ?V. shardFor M k = i}. 1)"
    by (rule sum_over_shards) (simp only: view_shard(2) [OF inv] List.finite_set)
  also have "\<dots> = (\<Sum>i < shardCount. int (length (sh_volatile (shards s i))))"
  proof (rule sum.cong [OF refl])
    fix i assume "i \<in> {..<shardCount}"
    then have "distinct (sh_volatile (shards s i))" "i < shardCount" using sh by (auto simp: shard_inv_def)
    then show "(\<Sum>k \<in> {k \<in> ?V. shardFor M k = i}. 1) = int (length (sh_volatile (shards s i)))"
      using distinct_card [of "sh_volatile (shards s i)"] by (simp only: view_shard(2) [OF inv]) simp
  qed
  finally have vol: "(\<Sum>i < shardCount. int (length (sh_volatile (shards s i)))) = int (card ?V)" ..
  have "(\<Sum>k \<in> dom (view M s). weight (k, the (view M s k))) =
      (\<Sum>i < shardCount. \<Sum>k \<in> {k \<in> dom (view M s). shardFor M k = i}. weight (k, the (view M s k)))"
    by (rule sum_over_shards) (simp add: view_shard(1) [OF inv])
  also have "\<dots> = (\<Sum>i < shardCount. sh_bytes (shards s i))"
  proof (rule sum.cong [OF refl])
    fix i assume "i \<in> {..<shardCount}"
    then have d: "distinct (map fst (sh_m (shards s i)))" "sh_bytes (shards s i) = sum_list (map weight (sh_m (shards s i)))"
      and i: "i < shardCount" using sh by (auto simp: shard_inv_def)
    have "(\<Sum>k \<in> {k \<in> dom (view M s). shardFor M k = i}. weight (k, the (view M s k))) =
        (\<Sum>k \<in> {k \<in> dom (view M s). shardFor M k = i}. weight (k, the (map_of (sh_m (shards s i)) k)))"
      by (rule sum.cong) (auto simp: view_def)
    also have "\<dots> = sh_bytes (shards s i)"
      using d(2) sum_weight_keys [OF d(1)] by (simp add: view_shard(1) [OF inv i])
    finally show "(\<Sum>k \<in> {k \<in> dom (view M s). shardFor M k = i}. weight (k, the (view M s k))) = sh_bytes (shards s i)" .
  qed
  finally have bytes: "(\<Sum>i < shardCount. sh_bytes (shards s i)) = (\<Sum>k \<in> dom (view M s). weight (k, the (view M s k)))" ..
  show ?thesis
    using assms(2) by (simp add: mem_Stats_def stats_fold sum_list_upto keys vol bytes)
qed

lemma view_New: "view M (New j) = Map.empty"
  by (simp add: view_def New_def empty_shard_def fun_eq_iff)

lemma mem_inv_New: "mem_inv M (New j)"
  by (simp add: mem_inv_def New_def shard_inv_def empty_shard_def)

section \<open>Properties\<close>

text \<open>An environment without a journal that walks maps backwards, for concrete instances.\<close>

definition plain_env :: "unit mem_env" where
  "plain_env = \<lparr>hash = length, jrn = None, iter = (\<lambda>i. rev), iter_idx = rev\<rparr>"

lemma plain_env_ok: "env_ok plain_env"
  by (simp add: plain_env_def env_ok_def)

lemma New_alive [simp]: "\<not> isDead (New j)"
  by (simp add: New_def)

text \<open>
  C25: \<open>Update\<close> is one atomic read-modify-write of the keyspace: the closure sees the live record of
  the key, an expired record counting as absent, and on success exactly what it asked for is
  in place; an error of the closure changes nothing a reader could see, and an error of the
  journal leaves either the old or the new record.
\<close>

theorem Update_is_atomic:
  fixes M :: "'j mem_env" and clk :: clock and k :: bytes and s :: "'j memstore"
  assumes "mem_inv M s" and "\<not> isDead s" and "mem_Update M clk k fn s = ((r, c), s')"
  defines "cur \<equiv> live (clk 0) (view M s) k"
  defines "called \<equiv> fn (case cur of None \<Rightarrow> zero_record | Some x \<Rightarrow> x) (cur \<noteq> None)"
  defines "K \<equiv> (view M s)(k := cur)"
  shows "mem_inv M s' \<and> c = Some (snd called)
    \<and> (case fst called of
        Fail e \<Rightarrow> r = Fail e \<and> view M s' = K
      | Panic \<Rightarrow> r = Panic \<and> view M s' = K
      | Ret x \<Rightarrow> (r = Ret () \<longrightarrow> view M s' = update_result K k (fst called))
          \<and> (view M s' = K \<or> view M s' = update_result K k (fst called)))"
  unfolding cur_def called_def K_def by (rule mem_Update_cases [OF assms(1-3)])

theorem Update_is_atomic_witness:
  "view plain_env (snd (mem_Update plain_env (\<lambda>_. 0) ''k''
      (\<lambda>cur found. (Ret (\<lparr>Value = ''v'', ExpireAt = 0\<rparr>, ActionPut), caps0)) (New ()))) ''k''
    = Some \<lparr>Value = ''v'', ExpireAt = 0\<rparr>"
proof -
  let ?fn = "\<lambda>(cur :: Record) (found :: bool). (Ret (\<lparr>Value = ''v'', ExpireAt = 0 :: int\<rparr>, ActionPut), caps0)"
  have "fst (fst (mem_Update plain_env (\<lambda>_. 0) ''k'' ?fn (New ()))) = Ret ()"
    by (simp add: mem_Update_def New_def plain_env_def logPut_def await_def empty_shard_def Let_def)
  then obtain c s' where run: "mem_Update plain_env (\<lambda>_. 0) ''k'' ?fn (New ()) = ((Ret (), c), s')"
    by (metis prod.collapse)
  from Update_is_atomic [OF mem_inv_New New_alive run] show ?thesis
    by (simp add: run update_result_def)
qed

text \<open>
  A batch applied shard by shard under the locks leaves every shard exactly as replaying the
  batch's log record in order leaves it, also when a batch writes the same key twice.
\<close>

theorem MultiWrite_matches_replay:
  assumes "env_ok M" and "\<not> isDead s" and "mem_MultiWrite M clk muts s = (Ret (), s')"
  shows "shards s' = shards (Loader_Batch M muts s)"
proof (cases "muts = []")
  case True
  with assms show ?thesis by (simp add: mem_MultiWrite_def Loader_Batch_def)
next
  case False
  let ?idx = "group_idx M 0 muts []"
  let ?f = "fold (\<lambda>si s. fold (\<lambda>mi. upd_shard si (mutate_shard (muts ! mi))) (the (map_of ?idx si)) s)
    (sortInts (iter_idx M (map fst ?idx)))"
  have b: "batch_applied M muts t (?f t)" for t
    using assms(1) by (intro multiwrite_applied) (simp add: env_ok_def)
  have run: "sbind (logBatch M muts) (\<lambda>lsn s. await M lsn (?f s)) s = (Ret (), s')"
    using assms(2,3) False by (simp add: mem_MultiWrite_def Let_def)
  have "same_shards (?f s) (?f t)" if "same_shards s t" for t
    using b [of s] b [of t] that by (auto simp: batch_applied_def same_shards_def)
  with log_then_apply [OF run] have "same_shards (?f s) s'" by simp
  with b [of s] Loader_Batch_applied [of M muts s] show ?thesis
    by (auto simp: batch_applied_def same_shards_def)
qed

text \<open>
  C33: A SCAN walk ends after at most one call per shard, whatever other clients do between the
  calls, and it has then returned every key that was live at every call.
\<close>

theorem Scan_visits_stable_keys:
  assumes "\<And>i. mem_ok M (ss i) \<and> \<not> isDead (ss i)"
  shows "\<exists>acc. scan_walk M ss clk cnt shardCount 0 0 [] = Some acc \<and>
    (\<forall>k. (\<forall>i. live (clk i 0) (view M (ss i)) k \<noteq> None) \<longrightarrow> k \<in> set acc)"
  using scan_walk_covers [OF assms, where cursor = 0 and f = shardCount and acc = "[]" and i = 0]
  by (auto simp: shardCount_def)

theorem Scan_visits_stable_keys_witness:
  "\<exists>acc. scan_walk plain_env (\<lambda>i. Loader_Put plain_env ''k'' \<lparr>Value = ''v'', ExpireAt = 0\<rparr> (New ()))
      (\<lambda>i j. 0) 10 shardCount 0 0 [] = Some acc \<and> ''k'' \<in> set acc"
proof -
  let ?s = "Loader_Put plain_env ''k'' \<lparr>Value = ''v'', ExpireAt = 0\<rparr> (New ())"
  have ok: "mem_ok plain_env ?s \<and> \<not> isDead ?s"
    using plain_env_ok mem_inv_New [of plain_env "()"] by (simp add: Loader_Put_def mem_inv_put)
  have "live 0 (view plain_env ?s) ''k'' \<noteq> None"
    by (simp add: Loader_Put_def view_put live_def Expired_def)
  with Scan_visits_stable_keys [of plain_env "\<lambda>i. ?s" "\<lambda>i j. 0" 10, OF ok] show ?thesis by auto
qed

text \<open>
  \<open>Len\<close>, with its shortcut for shards that hold no expiring key, counts exactly the live keys.
\<close>

theorem Len_counts_live_keys:
  assumes "mem_inv M s" and "\<not> isDead s"
  shows "mem_Len M clk s = (Ret (int (card (dom (live (clk 0) (view M s))))), s)"
  by (rule Len_live [OF assms])

text \<open>
  The counters INFO reports are exact: the number of keys, the number of keys with an expiry
  and the accounted size of all records.
\<close>

theorem Stats_are_exact:
  assumes "mem_inv M s" and "\<not> isDead s"
  shows "mem_Stats s = (Ret \<lparr>Keys = int (card (dom (view M s))),
      VolatileKeys = int (card {k. \<exists>r. view M s k = Some r \<and> Volatile r}),
      MemoryBytes = (\<Sum>k \<in> dom (view M s). weight (k, the (view M s k))), Extra = [(''shards'', itoa shardCount)]\<rparr>, s)"
  by (rule mem_Stats_exact [OF assms])

end
