(* ===== verification/Mem_Journal.thy ===== *)
theory Mem_Journal
  imports Memory
begin

text \<open>
  The memory engine and its write-ahead log describe the same database. \<open>journal_contract\<close> is
  what the engine relies on: a successful \<open>Log\<close> call appends one entry and a failing one none.
  Inside it, every run of the engine keeps the keyspace in memory and the keyspace a replay of
  the log rebuilds indistinguishable to readers; the two may differ in records that have
  expired, which the engine reclaims without logging.
\<close>

section \<open>Log entries and their replay\<close>

datatype entry = EPut bytes Record | EDelete bytes | EFlushAll | EBatch "Mutation list"

fun apply_entry :: "entry \<Rightarrow> keyspace \<Rightarrow> keyspace" where
  "apply_entry (EPut k r) K = K(k \<mapsto> r)"
| "apply_entry (EDelete k) K = K(k := None)"
| "apply_entry EFlushAll K = Map.empty"
| "apply_entry (EBatch muts) K = fold apply_mutation muts K"

lemma agree_apply_mutations: "agree t K K' \<Longrightarrow> agree t (fold apply_mutation muts K) (fold apply_mutation muts K')"
  by (induction muts arbitrary: K K') (auto simp: apply_mutation_def agree_upd)

lemma agree_apply_entry: "agree t K K' \<Longrightarrow> agree t (apply_entry e K) (apply_entry e K')"
  by (cases e) (auto simp: agree_upd agree_apply_mutations)

lemma agree_apply_entries: "agree t K K' \<Longrightarrow> agree t (fold apply_entry es K) (fold apply_entry es K')"
  by (induction es arbitrary: K K') (auto simp: agree_apply_entry)

text \<open>\<open>Loader\<close>, the receiver of the replay, applies an entry to the engine.\<close>

fun load_entry :: "'j mem_env \<Rightarrow> entry \<Rightarrow> 'j memstore \<Rightarrow> 'j memstore" where
  "load_entry M (EPut k r) s = Loader_Put M k r s"
| "load_entry M (EDelete k) s = Loader_Delete M k s"
| "load_entry M EFlushAll s = Loader_FlushAll s"
| "load_entry M (EBatch muts) s = Loader_Batch M muts s"

lemma view_Loader_Delete: "view M (Loader_Delete M k s) = (view M s)(k := None)"
  by (auto simp: Loader_Delete_def view_evict view_def [symmetric] fun_upd_idem split: option.splits)

lemma load_entry_view: "view M (load_entry M e s) = apply_entry e (view M s)"
  by (cases e)
    (simp_all add: Loader_Put_def view_put view_Loader_Delete Loader_FlushAll_wipe view_wipe
      batch_applied_view [OF Loader_Batch_applied])

lemma load_entry_inv: "mem_inv M s \<Longrightarrow> mem_inv M (load_entry M e s)"
  by (cases e)
    (auto simp: Loader_Put_def Loader_Delete_def mem_inv_put mem_inv_evict view_def Loader_FlushAll_wipe mem_inv_wipe
      intro: batch_applied_inv [OF Loader_Batch_applied] split: option.splits)

lemma load_all_view: "view M (fold (load_entry M) es s) = fold apply_entry es (view M s)"
  by (induction es arbitrary: s) (simp_all add: load_entry_view)

section \<open>Runs of the engine\<close>

text \<open>
  \<open>mem_run M ok s0 t0 s t\<close>: the operations served so far took the engine from \<open>s0\<close> to \<open>s\<close>, \<open>t0\<close>
  and \<open>t\<close> are the latest clock readings before and after them, and every entry they asked the journal to log satisfies \<open>ok\<close>.
\<close>

definition asks_for :: "(entry \<Rightarrow> bool) \<Rightarrow> bytes \<Rightarrow> UpdateFunc \<Rightarrow> bool" where
  "asks_for ok k fn \<longleftrightarrow> ok (EDelete k) \<and>
     (\<forall>cur found nx c. fn cur found = (Ret (nx, ActionPut), c) \<longrightarrow> ok (EPut k nx))"

inductive mem_run :: "'j mem_env \<Rightarrow> (entry \<Rightarrow> bool) \<Rightarrow> 'j memstore \<Rightarrow> int \<Rightarrow> 'j memstore \<Rightarrow> int \<Rightarrow> bool"
  for M ok s0 t0 where
  run_start: "mem_run M ok s0 t0 s0 t0"
| run_get: "mem_run M ok s0 t0 s t \<Longrightarrow> t \<le> clk 0 \<Longrightarrow> clk 0 \<le> clk 1 \<Longrightarrow> mem_run M ok s0 t0 (snd (mem_Get M clk k s)) (clk 1)"
| run_put: "ok (EPut k rec) \<Longrightarrow> mem_run M ok s0 t0 s t \<Longrightarrow> mem_run M ok s0 t0 (snd (mem_Put M clk k rec s)) t"
| run_delete: "ok (EDelete k) \<Longrightarrow> mem_run M ok s0 t0 s t \<Longrightarrow> t \<le> clk 0 \<Longrightarrow> mem_run M ok s0 t0 (snd (mem_Delete M clk k s)) (clk 0)"
| run_update: "asks_for ok k fn \<Longrightarrow> mem_run M ok s0 t0 s t \<Longrightarrow> t \<le> clk 0 \<Longrightarrow> mem_run M ok s0 t0 (snd (mem_Update M clk k fn s)) (clk 0)"
| run_multi: "ok (EBatch muts) \<Longrightarrow> mem_run M ok s0 t0 s t \<Longrightarrow> mem_run M ok s0 t0 (snd (mem_MultiWrite M clk muts s)) t"
| run_flush: "ok EFlushAll \<Longrightarrow> mem_run M ok s0 t0 s t \<Longrightarrow> mem_run M ok s0 t0 (snd (mem_FlushAll M clk s)) t"

lemma mem_run_ok: "mem_run M ok s0 t0 s t \<Longrightarrow> mem_ok M s0 \<Longrightarrow> mem_ok M s"
proof (induction rule: mem_run.induct)
  case (run_get s t clk k)
  then show ?case using mem_Get_law [of M s clk k] by (metis prod.collapse)
next
  case (run_put k rec s t clk)
  then show ?case using mem_Put_law [of M s clk k rec] by (metis prod.collapse)
next
  case (run_delete k s t clk)
  then show ?case using mem_Delete_law [of M s clk k] by (metis prod.collapse)
next
  case (run_update k fn s t clk)
  then show ?case using mem_Update_law [of M s clk k fn] by (metis prod.collapse)
next
  case (run_multi muts s t clk)
  then show ?case using mem_MultiWrite_law [of M s clk muts] by (metis prod.collapse)
next
  case (run_flush s t clk)
  then show ?case using mem_FlushAll_law [of M s clk] by (metis prod.collapse)
qed

section \<open>What the engine relies on\<close>

text \<open>
  \<open>entries\<close> is what was logged since the engine started with the keyspace \<open>base\<close>, \<open>jinv\<close> the
  invariant of the log, \<open>ok\<close> says which entries its format can carry, \<open>lastl\<close> is the last number
  handed out, \<open>dur\<close> holds when everything logged is as durable as the policy demands, and
  \<open>broken\<close> says that something happened to the log (an I/O error, say) after which nothing is
  promised any more. While the log is not broken, a \<open>Log\<close> call that returns a number has
  appended its entry, one that fails has not, and waiting for the last number restores \<open>dur\<close>.
\<close>

definition appends ::
  "('j \<Rightarrow> bool) \<Rightarrow> ('j \<Rightarrow> bool) \<Rightarrow> ('j \<Rightarrow> bool) \<Rightarrow> ('j \<Rightarrow> nat) \<Rightarrow> (entry \<Rightarrow> bool) \<Rightarrow> ('j \<Rightarrow> entry list) \<Rightarrow>
    entry \<Rightarrow> nat res \<Rightarrow> 'j \<Rightarrow> 'j \<Rightarrow> bool" where
  "appends jinv broken dur lastl ok entries e rn j j' \<longleftrightarrow>
     (\<not> broken j' \<longrightarrow> \<not> broken j \<and> (jinv j \<longrightarrow> ok e \<longrightarrow> jinv j' \<and>
        (case rn of
           Ret lsn \<Rightarrow> 0 < lsn \<and> lastl j' \<le> lsn \<and> entries j' = entries j @ [e]
         | _ \<Rightarrow> entries j' = entries j \<and> (dur j \<longrightarrow> dur j'))))"

locale journal_contract =
  fixes J :: "'j journal" and entries :: "'j \<Rightarrow> entry list" and base :: keyspace
    and jinv :: "'j \<Rightarrow> bool" and broken :: "'j \<Rightarrow> bool" and dur :: "'j \<Rightarrow> bool" and lastl :: "'j \<Rightarrow> nat"
    and ok :: "entry \<Rightarrow> bool"
  assumes log_put: "LogPut J k rec j = (rn, j') \<Longrightarrow> appends jinv broken dur lastl ok entries (EPut k rec) rn j j'"
    and log_delete: "LogDelete J k j = (rn, j') \<Longrightarrow> appends jinv broken dur lastl ok entries (EDelete k) rn j j'"
    and log_flush: "LogFlushAll J j = (rn, j') \<Longrightarrow> appends jinv broken dur lastl ok entries EFlushAll rn j j'"
    and log_batch: "LogBatch J muts j = (rn, j') \<Longrightarrow> appends jinv broken dur lastl ok entries (EBatch muts) rn j j'"
    and await_keeps: "Await J lsn j = (ru, j') \<Longrightarrow> \<not> broken j' \<Longrightarrow> \<not> broken j \<and>
      (jinv j \<longrightarrow> jinv j' \<and> entries j' = entries j \<and> (lastl j \<le> lsn \<longrightarrow> dur j'))"
begin

definition logged_keyspace :: "'j \<Rightarrow> keyspace" where
  "logged_keyspace j = fold apply_entry (entries j) base"

definition in_step :: "'j mem_env \<Rightarrow> int \<Rightarrow> 'j memstore \<Rightarrow> bool" where
  "in_step M t s \<longleftrightarrow> (\<not> broken (jst s) \<longrightarrow>
     jinv (jst s) \<and> dur (jst s) \<and> agree t (view M s) (logged_keyspace (jst s)))"

lemma in_step_later: "in_step M t s \<Longrightarrow> t \<le> t' \<Longrightarrow> in_step M t' s"
  unfolding in_step_def using agree_later by blast

lemma write_in_step:
  assumes run: "sbind log (\<lambda>lsn s. await M lsn (f s)) s = (r, s')"
    and J: "jrn M = Some J"
    and log: "\<And>x u. log s = (x, u) \<Longrightarrow> same_shards s u \<and> appends jinv broken dur lastl ok entries e x (jst s) (jst u)"
    and e: "ok e"
    and f: "\<And>u. same_shards s u \<Longrightarrow> jst (f u) = jst u \<and> view M (f u) = apply_entry e (view M s)"
    and s: "in_step M t s"
  shows "in_step M t s'"
proof -
  obtain x u where xu: "log s = (x, u)" by fastforce
  from log [OF xu] have u: "same_shards s u" "appends jinv broken dur lastl ok entries e x (jst s) (jst u)" by auto
  show ?thesis
  proof (cases x)
    case (Ret lsn)
    with run xu have aw: "await M lsn (f u) = (r, s')" by simp
    have v: "view M s' = view M (f u)" using aw by (simp add: same_shards_view)
    show ?thesis
      unfolding in_step_def
    proof
      assume nb: "\<not> broken (jst s')"
      have fu: "jst (f u) = jst u" "view M (f u) = apply_entry e (view M s)" using f [OF u(1)] by auto
      have bk: "\<not> broken (jst u)"
        using aw J fu(1) nb by (auto simp: await_def split: if_splits prod.splits dest: await_keeps)
      with u(2) s e Ret have h: "jinv (jst u)" "entries (jst u) = entries (jst s) @ [e]" "0 < lsn" "lastl (jst u) \<le> lsn"
          "agree t (view M s) (logged_keyspace (jst s))"
        by (auto simp: appends_def in_step_def)
      from aw J fu(1) h(3) obtain y where "Await J lsn (jst u) = (y, jst s')"
        by (auto simp: await_def split: prod.splits)
      from await_keeps [OF this nb] h v fu
      show "jinv (jst s') \<and> dur (jst s') \<and> agree t (view M s') (logged_keyspace (jst s'))"
        by (simp add: logged_keyspace_def agree_apply_entry)
    qed
  next
    case (Fail er)
    with run xu u s e show ?thesis by (auto simp: in_step_def appends_def same_shards_view logged_keyspace_def)
  next
    case Panic
    with run xu u s e show ?thesis by (auto simp: in_step_def appends_def same_shards_view logged_keyspace_def)
  qed
qed

lemma logPut_entries:
  "jrn M = Some J \<Longrightarrow> logPut M k rec s = (x, u) \<Longrightarrow>
   same_shards s u \<and> appends jinv broken dur lastl ok entries (EPut k rec) x (jst s) (jst u)"
  using log_same_shards(1) [of M k rec s x u]
  by (auto simp: logPut_def split: prod.splits dest: log_put)

lemma logDelete_entries:
  "jrn M = Some J \<Longrightarrow> logDelete M k s = (x, u) \<Longrightarrow>
   same_shards s u \<and> appends jinv broken dur lastl ok entries (EDelete k) x (jst s) (jst u)"
  using log_same_shards(2) [of M k s x u]
  by (auto simp: logDelete_def split: prod.splits dest: log_delete)

lemma logBatch_entries:
  "jrn M = Some J \<Longrightarrow> logBatch M muts s = (x, u) \<Longrightarrow>
   same_shards s u \<and> appends jinv broken dur lastl ok entries (EBatch muts) x (jst s) (jst u)"
  using log_same_shards(3) [of M muts s x u]
  by (auto simp: logBatch_def split: prod.splits dest: log_batch)

lemma logFlushAll_entries:
  "jrn M = Some J \<Longrightarrow> logFlushAll M s = (x, u) \<Longrightarrow>
   same_shards s u \<and> appends jinv broken dur lastl ok entries (EFlushAll) x (jst s) (jst u)"
  using log_same_shards(4) [of M  s x u]
  by (auto simp: logFlushAll_def split: prod.splits dest: log_flush)

lemma get_in_step:
  assumes "mem_inv M s" and "in_step M t s" and "t \<le> clk 0" and "clk 0 \<le> clk 1"
  shows "in_step M (clk 1) (snd (mem_Get M clk k s))"
proof -
  obtain r s' where g: "mem_Get M clk k s = (r, s')" by fastforce
  have "jst s' = jst s"
    using g by (auto simp: mem_Get_def Let_def split: option.splits if_splits)
  moreover have "agree (clk 1) (view M s') (view M s)"
    using mem_Get_law [OF assms(1) g assms(4)] by blast
  moreover have "in_step M (clk 1) s" using assms by (intro in_step_later [OF assms(2)]) simp
  ultimately show ?thesis by (auto simp: g in_step_def intro: agree_trans)
qed

lemma put_in_step:
  assumes "jrn M = Some J" and "in_step M t s" and "ok (EPut k rec)"
  shows "in_step M t (snd (mem_Put M clk k rec s))"
proof (cases "isDead s")
  case False
  obtain r s' where g: "mem_Put M clk k rec s = (r, s')" by fastforce
  with False have "sbind (logPut M k rec) (\<lambda>lsn s. await M lsn (upd_shard (shardFor M k) (putLocked k rec) s)) s = (r, s')"
    by (simp add: mem_Put_def)
  from write_in_step [OF this assms(1) logPut_entries [OF assms(1)] assms(3) _ assms(2)]
  have "in_step M t s'" by (auto simp: view_put same_shards_view)
  then show ?thesis by (simp add: g)
qed (use assms(2) in \<open>simp add: mem_Put_def\<close>)

lemma delete_in_step:
  assumes "jrn M = Some J" and "in_step M t s" and "ok (EDelete k)"
  shows "in_step M t (snd (mem_Delete M clk k s))"
proof (cases "isDead s \<or> view M s k = None")
  case True
  with assms(2) show ?thesis by (auto simp: mem_Delete_def view_def)
next
  case False
  then obtain rec where rec: "view M s k = Some rec" "\<not> isDead s" by auto
  obtain r s' where g: "mem_Delete M clk k s = (r, s')" by fastforce
  let ?f = "upd_shard (shardFor M k) (evictLocked k rec)"
  obtain r0 where run: "sbind (logDelete M k) (\<lambda>lsn s. await M lsn (?f s)) s = (r0, s')"
    using log_then_value [of "logDelete M k" M "\<not> Expired rec (clk 0)" ?f s r s'] g rec
    by (auto simp: mem_Delete_def view_def Let_def)
  from write_in_step [OF this assms(1) logDelete_entries [OF assms(1)] assms(3) _ assms(2)]
  have "in_step M t s'" by (auto simp: view_evict same_shards_view)
  then show ?thesis by (simp add: g)
qed

lemma multi_in_step:
  assumes "jrn M = Some J" and "mem_ok M s" and "in_step M t s" and "ok (EBatch muts)"
  shows "in_step M t (snd (mem_MultiWrite M clk muts s))"
proof (cases "isDead s \<or> muts = []")
  case True
  with assms(3) show ?thesis by (auto simp: mem_MultiWrite_def)
next
  case False
  obtain r s' where g: "mem_MultiWrite M clk muts s = (r, s')" by fastforce
  let ?idx = "group_idx M 0 muts []"
  let ?f = "fold (\<lambda>si s. fold (\<lambda>mi. upd_shard si (mutate_shard (muts ! mi))) (the (map_of ?idx si)) s)
    (sortInts (iter_idx M (map fst ?idx)))"
  have b: "batch_applied M muts u (?f u)" for u
    using assms(2) by (intro multiwrite_applied) (simp add: env_ok_def)
  have jst: "jst (fold (\<lambda>x. upd_shard (a x) (h x)) xs u) = jst u" for a :: "'c \<Rightarrow> nat" and h xs and u :: "'j memstore"
    by (induction xs arbitrary: u) simp_all
  have jst2: "jst (fold (\<lambda>si s. fold (\<lambda>mi. upd_shard si (mutate_shard (muts ! mi))) (g si) s) ord u) = jst u" for g ord and u :: "'j memstore"
    by (induction ord arbitrary: u) (simp_all add: jst)
  have "sbind (logBatch M muts) (\<lambda>lsn s. await M lsn (?f s)) s = (r, s')"
    using g False by (simp add: mem_MultiWrite_def Let_def)
  from write_in_step [OF this assms(1) logBatch_entries [OF assms(1)] assms(4) _ assms(3)]
  have "in_step M t s'" by (auto simp: jst2 batch_applied_view [OF b] same_shards_view)
  then show ?thesis by (simp add: g)
qed

lemma flush_in_step:
  assumes "jrn M = Some J" and "in_step M t s" and "ok EFlushAll"
  shows "in_step M t (snd (mem_FlushAll M clk s))"
proof (cases "isDead s")
  case False
  obtain r s' where g: "mem_FlushAll M clk s = (r, s')" by fastforce
  have jst: "jst (wipe u) = jst u" for u :: "'j memstore"
  proof -
    have "jst (fold (\<lambda>i. upd_shard i (\<lambda>_. empty_shard)) xs u) = jst u" for xs
      by (induction xs arbitrary: u) simp_all
    then show ?thesis by (simp add: wipe_def)
  qed
  from g False have "sbind (logFlushAll M) (\<lambda>lsn s. await M lsn (wipe s)) s = (r, s')"
    by (simp add: mem_FlushAll_def)
  from write_in_step [OF this assms(1) logFlushAll_entries [OF assms(1)] assms(3) _ assms(2)]
  have "in_step M t s'" by (simp add: jst view_wipe fun_eq_iff)
  then show ?thesis by (simp add: g)
qed (use assms(2) in \<open>simp add: mem_FlushAll_def\<close>)

lemma reclaim_in_step: "in_step M t s \<Longrightarrow> t \<le> now \<Longrightarrow> in_step M now (reclaim M now k s)"
  by (auto simp: in_step_def reclaim_view intro: agree_trans [OF agree_reclaim] agree_later)

lemma update_in_step:
  assumes J: "jrn M = Some J" and s: "in_step M t s" and t: "t \<le> clk 0"
    and asks: "asks_for ok k fn"
  shows "in_step M (clk 0) (snd (mem_Update M clk k fn s))"
proof (cases "isDead s")
  case True
  with in_step_later [OF s t] show ?thesis by (simp add: mem_Update_def)
next
  case False
  obtain r c s' where run: "mem_Update M clk k fn s = ((r, c), s')" by (metis prod.collapse)
  note s1 = reclaim_in_step [OF s t, of k]
  from False run have "in_step M (clk 0) s'"
  proof (cases rule: mem_Update_split [case_names stay put del])
    case stay
    with s1 show ?thesis by simp
  next
    case (put nx)
    have "ok (EPut k nx)"
      using asks put(2) by (auto simp: asks_for_def) (metis prod.collapse)
    from write_in_step [OF put(3) J logPut_entries [OF J] this _ s1] show ?thesis
      by (auto simp: view_put same_shards_view)
  next
    case (del nx old)
    have "ok (EDelete k)" using asks by (simp add: asks_for_def)
    from write_in_step [OF del(4) J logDelete_entries [OF J] this _ s1] show ?thesis
      by (auto simp: view_evict same_shards_view)
  qed
  then show ?thesis by (simp add: run)
qed

lemma run_in_step:
  assumes "mem_run M ok s0 t0 s t" and "jrn M = Some J" and "mem_ok M s0" and "in_step M t0 s0"
  shows "in_step M t s"
  using assms(1)
proof (induction rule: mem_run.induct)
  case run_start
  show ?case by (rule assms(4))
next
  case (run_get s t clk k)
  then show ?case using mem_run_ok [OF run_get(1)] assms(3) by (intro get_in_step) auto
next
  case (run_put k rec s t clk)
  then show ?case using assms(2) by (intro put_in_step)
next
  case (run_delete k s t clk)
  then show ?case using assms(2) by (intro in_step_later [OF delete_in_step]) auto
next
  case (run_update k fn s t clk)
  then show ?case using assms(2) by (intro update_in_step)
next
  case (run_multi muts s t clk)
  then show ?case using assms(2,3) mem_run_ok [OF run_multi(2)] by (intro multi_in_step) auto
next
  case (run_flush s t clk)
  then show ?case using assms(2) by (intro flush_in_step)
qed

end

section \<open>Properties\<close>

text \<open>
  C38: Whatever operations are served, every shard's volatile index holds exactly its keys with an
  expiry and its byte counter is exactly the accounted size of its records; the clamp at zero in
  \<open>evictLocked\<close> never changes the result.
\<close>

theorem reachable_invariant:
  assumes "mem_run M ok (New j) t0 s t" and "env_ok M"
  shows "mem_inv M s"
  using mem_run_ok [OF assms(1)] assms(2) mem_inv_New [of M j] by blast

theorem reachable_invariant_witness:
  "mem_run plain_env (\<lambda>_. True) (New ()) 0 (snd (mem_Put plain_env (\<lambda>_. 0) ''k'' \<lparr>Value = ''v'', ExpireAt = 9\<rparr> (New ()))) 0
   \<and> mem_inv plain_env (snd (mem_Put plain_env (\<lambda>_. 0) ''k'' \<lparr>Value = ''v'', ExpireAt = 9\<rparr> (New ())))"
proof -
  have run: "mem_run plain_env (\<lambda>_. True) (New ()) 0 (snd (mem_Put plain_env (\<lambda>_. 0) ''k'' \<lparr>Value = ''v'', ExpireAt = 9\<rparr> (New ()))) 0"
    by (rule run_put [OF _ run_start]) simp
  from reachable_invariant [OF run plain_env_ok] run show ?thesis by blast
qed

end
