(* ===== verification/Wal_Record.thy ===== *)
theory Wal_Record
  imports Mem_Journal
begin

text \<open>
  The record format of the write-ahead log, \<open>src/internal/wal/record.go\<close>, and \<open>applyRecord\<close> of
  \<open>replay.go\<close>: framing with a CRC-32C over length, type, sequence number and payload, and the
  payloads of the four record types. The main result is that a framed entry decodes to itself.
\<close>

section \<open>Encoding\<close>

abbreviation (input) RecPut :: nat where "RecPut \<equiv> 1"
abbreviation (input) RecDelete :: nat where "RecDelete \<equiv> 2"
abbreviation (input) RecFlushAll :: nat where "RecFlushAll \<equiv> 3"
abbreviation (input) RecBatch :: nat where "RecBatch \<equiv> 4"

definition headerSize :: nat where
  "headerSize = 17"

definition maxRecordSize :: nat where
  "maxRecordSize = 1073741824"

definition appendRecord :: "bytes \<Rightarrow> nat \<Rightarrow> nat \<Rightarrow> bytes \<Rightarrow> bytes" where
  "appendRecord dst typ lsn payload =
     (let body = PutUint32 (length payload) @ [mkbyte typ] @ PutUint64 lsn @ payload
      in dst @ PutUint32 (unat (crc_Checksum body)) @ body)"

definition appendPutPayload :: "bytes \<Rightarrow> bytes \<Rightarrow> Record \<Rightarrow> bytes" where
  "appendPutPayload dst key rec =
     dst @ AppendUvarint (length key) @ key @ AppendVarint (ExpireAt rec)
       @ AppendUvarint (length (Value rec)) @ Value rec"

definition appendDeletePayload :: "bytes \<Rightarrow> bytes \<Rightarrow> bytes" where
  "appendDeletePayload dst key = dst @ AppendUvarint (length key) @ key"

definition appendBatchPayload :: "bytes \<Rightarrow> Mutation list \<Rightarrow> bytes" where
  "appendBatchPayload dst muts =
     foldl (\<lambda>dst m.
         if Del m then appendDeletePayload (dst @ [mkbyte RecDelete]) (Key m)
         else appendPutPayload (dst @ [mkbyte RecPut]) (Key m) (MRecord m))
       (dst @ AppendUvarint (length muts)) muts"

section \<open>Decoding\<close>

definition takeBytes :: "bytes \<Rightarrow> (bytes \<times> bytes) res" where
  "takeBytes p =
     (case Uvarint p of
        None \<Rightarrow> Fail ErrCorrupt
      | Some (n, adv) \<Rightarrow>
          let p = drop adv p in
          if n > length p then Fail ErrCorrupt else Ret (take n p, drop n p))"

definition decodePut :: "bytes \<Rightarrow> (bytes \<times> Record) res" where
  "decodePut p =
     bind_res (takeBytes p) (\<lambda>(key, p).
       case Varint p of
         None \<Rightarrow> Fail ErrCorrupt
       | Some (exp, n) \<Rightarrow>
           bind_res (takeBytes (drop n p)) (\<lambda>(val, p).
             if length p \<noteq> 0 then Fail ErrCorrupt
             else Ret (key, \<lparr>Value = val, ExpireAt = exp\<rparr>)))"

definition decodeDelete :: "bytes \<Rightarrow> bytes res" where
  "decodeDelete p =
     bind_res (takeBytes p) (\<lambda>(key, rest). if length rest \<noteq> 0 then Fail ErrCorrupt else Ret key)"

text \<open>The loop of \<open>decodeBatch\<close>: the mutations decoded and the bytes after them.\<close>

fun batch_loop :: "nat \<Rightarrow> bytes \<Rightarrow> Mutation list \<Rightarrow> (Mutation list \<times> bytes) res" where
  "batch_loop 0 p muts = Ret (muts, p)"
| "batch_loop (Suc n) p muts =
     (if p = [] then Fail ErrCorrupt
      else
        let sub = bval (p ! 0) in
        bind_res (takeBytes (drop 1 p)) (\<lambda>(key, rest).
          if sub = RecDelete then
            batch_loop n rest (muts @ [\<lparr>Key = key, MRecord = zero_record, Del = True\<rparr>])
          else if sub = RecPut then
            (case Varint rest of
               None \<Rightarrow> Fail ErrCorrupt
             | Some (exp, adv) \<Rightarrow>
                 bind_res (takeBytes (drop adv rest)) (\<lambda>(val, p').
                   batch_loop n p' (muts @ [\<lparr>Key = key, MRecord = \<lparr>Value = val, ExpireAt = exp\<rparr>, Del = False\<rparr>])))
          else Fail ErrCorrupt))"

definition decodeBatch :: "bytes \<Rightarrow> Mutation list res" where
  "decodeBatch p =
     (case Uvarint p of
        None \<Rightarrow> Fail ErrCorrupt
      | Some (n, adv) \<Rightarrow>
          if n > maxRecordSize then Fail ErrCorrupt
          else bind_res (batch_loop n (drop adv p) []) (\<lambda>(muts, p).
            if length p \<noteq> 0 then Fail ErrCorrupt else Ret muts))"

section \<open>The receiver of a replay\<close>

record 'a applier =
  ap_Put :: "bytes \<Rightarrow> Record \<Rightarrow> ('a, unit) action"
  ap_Delete :: "bytes \<Rightarrow> ('a, unit) action"
  ap_FlushAll :: "('a, unit) action"
  ap_Batch :: "Mutation list \<Rightarrow> ('a, unit) action"

definition applyRecord :: "nat \<Rightarrow> bytes \<Rightarrow> 'a applier \<Rightarrow> ('a, unit) action" where
  "applyRecord typ payload ap a =
     (if typ = RecPut then
        (case decodePut payload of
           Ret (key, rec) \<Rightarrow> ap_Put ap key rec a
         | Fail e \<Rightarrow> (Fail e, a)
         | Panic \<Rightarrow> (Panic, a))
      else if typ = RecDelete then
        (case decodeDelete payload of
           Ret key \<Rightarrow> ap_Delete ap key a
         | Fail e \<Rightarrow> (Fail e, a)
         | Panic \<Rightarrow> (Panic, a))
      else if typ = RecFlushAll then
        (if length payload \<noteq> 0 then (Fail ErrCorrupt, a) else ap_FlushAll ap a)
      else if typ = RecBatch then
        (case decodeBatch payload of
           Ret muts \<Rightarrow> ap_Batch ap muts a
         | Fail e \<Rightarrow> (Fail e, a)
         | Panic \<Rightarrow> (Panic, a))
      else (Fail ErrCorrupt, a))"

text \<open>\<open>memory.Loader\<close> as the receiver.\<close>

definition mem_loader :: "'j mem_env \<Rightarrow> 'j memstore applier" where
  "mem_loader M =
     \<lparr>ap_Put = (\<lambda>k r s. (Ret (), Loader_Put M k r s)), ap_Delete = (\<lambda>k s. (Ret (), Loader_Delete M k s)),
      ap_FlushAll = (\<lambda>s. (Ret (), Loader_FlushAll s)), ap_Batch = (\<lambda>muts s. (Ret (), Loader_Batch M muts s))\<rparr>"

section \<open>Entries as records\<close>

fun entry_type :: "entry \<Rightarrow> nat" where
  "entry_type (EPut k r) = RecPut"
| "entry_type (EDelete k) = RecDelete"
| "entry_type EFlushAll = RecFlushAll"
| "entry_type (EBatch muts) = RecBatch"

fun entry_payload :: "entry \<Rightarrow> bytes" where
  "entry_payload (EPut k r) = appendPutPayload [] k r"
| "entry_payload (EDelete k) = appendDeletePayload [] k"
| "entry_payload EFlushAll = []"
| "entry_payload (EBatch muts) = appendBatchPayload [] muts"

fun apply_to :: "'a applier \<Rightarrow> entry \<Rightarrow> ('a, unit) action" where
  "apply_to ap (EPut k r) = ap_Put ap k r"
| "apply_to ap (EDelete k) = ap_Delete ap k"
| "apply_to ap EFlushAll = ap_FlushAll ap"
| "apply_to ap (EBatch muts) = ap_Batch ap muts"

text \<open>What a delete carries besides its key is not written, so it decodes to the zero record.\<close>

definition mut_ok :: "Mutation \<Rightarrow> bool" where
  "mut_ok m \<longleftrightarrow> (if Del m then MRecord m = zero_record else is_i64 (ExpireAt (MRecord m)))"

fun entry_fields_ok :: "entry \<Rightarrow> bool" where
  "entry_fields_ok (EPut k r) = is_i64 (ExpireAt r)"
| "entry_fields_ok (EDelete k) = True"
| "entry_fields_ok EFlushAll = True"
| "entry_fields_ok (EBatch muts) = list_all mut_ok muts"

text \<open>The entries the format can carry.\<close>

definition fits :: "entry \<Rightarrow> bool" where
  "fits e \<longleftrightarrow> length (entry_payload e) \<le> maxRecordSize \<and> entry_fields_ok e"

section \<open>Payloads decode to themselves\<close>

lemma takeBytes_append [codec_simps]:
  "is_u64 (length xs) \<Longrightarrow> takeBytes (AppendUvarint (length xs) @ xs @ rest) = Ret (xs, rest)"
  by (simp add: takeBytes_def Uvarint_AppendUvarint)

lemma decodePut_append:
  assumes "is_u64 (length k)" and "is_u64 (length (Value r))" and "is_i64 (ExpireAt r)"
  shows "decodePut (appendPutPayload [] k r) = Ret (k, r)"
  using assms takeBytes_append [of "Value r" "[]"]
  by (simp add: decodePut_def appendPutPayload_def takeBytes_append Varint_AppendVarint)

lemma decodeDelete_append: "is_u64 (length k) \<Longrightarrow> decodeDelete (appendDeletePayload [] k) = Ret k"
  using takeBytes_append [of k "[]"] by (simp add: decodeDelete_def appendDeletePayload_def)

definition mut_bytes :: "Mutation \<Rightarrow> bytes" where
  "mut_bytes m =
     (if Del m then mkbyte RecDelete # appendDeletePayload [] (Key m)
      else mkbyte RecPut # appendPutPayload [] (Key m) (MRecord m))"

lemma batch_payload: "appendBatchPayload [] muts = AppendUvarint (length muts) @ concat (map mut_bytes muts)"
proof -
  have "foldl (\<lambda>dst m. if Del m then appendDeletePayload (dst @ [mkbyte RecDelete]) (Key m)
         else appendPutPayload (dst @ [mkbyte RecPut]) (Key m) (MRecord m)) dst muts = dst @ concat (map mut_bytes muts)" for dst
    by (induction muts arbitrary: dst) (auto simp: mut_bytes_def appendDeletePayload_def appendPutPayload_def)
  then show ?thesis by (simp add: appendBatchPayload_def)
qed

definition mut_small :: "Mutation \<Rightarrow> bool" where
  "mut_small m \<longleftrightarrow> is_u64 (length (Key m)) \<and> is_u64 (length (Value (MRecord m)))"

lemma batch_loop_append:
  assumes "list_all mut_ok muts" and "list_all mut_small muts"
  shows "batch_loop (length muts) (concat (map mut_bytes muts) @ rest) acc = Ret (acc @ muts, rest)"
  using assms
proof (induction muts arbitrary: acc)
  case (Cons m muts)
  show ?case
  proof (cases "Del m")
    case True
    with Cons show ?thesis
      by (simp add: mut_bytes_def appendDeletePayload_def takeBytes_append mut_small_def mut_ok_def)
  next
    case False
    with Cons show ?thesis
      by (simp add: mut_bytes_def appendPutPayload_def takeBytes_append Varint_AppendVarint mut_small_def mut_ok_def)
  qed
qed simp

lemma decodeBatch_append:
  assumes "list_all mut_ok muts" and "list_all mut_small muts" and "length muts \<le> maxRecordSize"
  shows "decodeBatch (appendBatchPayload [] muts) = Ret muts"
proof -
  have "is_u64 (length muts)" using assms(3) by (simp add: is_u64_def maxRecordSize_def)
  with assms batch_loop_append [OF assms(1,2), of "[]" "[]"] show ?thesis
    by (simp add: decodeBatch_def batch_payload Uvarint_AppendUvarint)
qed

lemma small_payload:
  "length (appendPutPayload [] k r) \<le> n \<Longrightarrow> length k \<le> n \<and> length (Value r) \<le> n"
  "length (appendDeletePayload [] k) \<le> n \<Longrightarrow> length k \<le> n"
  by (simp_all add: appendPutPayload_def appendDeletePayload_def)

lemma length_mut_bytes:
  "m \<in> set muts \<Longrightarrow> length (mut_bytes m) \<le> length (concat (map mut_bytes muts))"
  by (induction muts) auto

lemma length_muts: "length muts \<le> length (concat (map mut_bytes muts))"
  by (induction muts) (auto simp: mut_bytes_def)

lemma fits_batch:
  assumes "fits (EBatch muts)"
  shows "length muts \<le> maxRecordSize" and "list_all mut_small muts"
proof -
  have len: "length (concat (map mut_bytes muts)) \<le> maxRecordSize"
    using assms by (simp add: fits_def batch_payload)
  show "length muts \<le> maxRecordSize" using length_muts [of muts] len by simp
  show "list_all mut_small muts"
  proof (unfold list_all_iff, intro ballI)
    fix m assume "m \<in> set muts"
    then have l: "length (mut_bytes m) \<le> maxRecordSize" using length_mut_bytes len le_trans by blast
    show "mut_small m"
    proof (cases "Del m")
      case True
      then have "MRecord m = zero_record"
        using assms \<open>m \<in> set muts\<close> by (auto simp: fits_def list_all_iff mut_ok_def)
      with True l show ?thesis
        by (simp add: mut_small_def mut_bytes_def appendDeletePayload_def is_u64_def maxRecordSize_def)
    next
      case False
      with l show ?thesis
        by (simp add: mut_small_def mut_bytes_def appendPutPayload_def is_u64_def maxRecordSize_def)
    qed
  qed
qed

lemma applyRecord_entry:
  assumes "fits e"
  shows "applyRecord (entry_type e) (entry_payload e) ap a = apply_to ap e a"
proof (cases e)
  case (EPut k r)
  with assms small_payload(1) [of k r maxRecordSize] show ?thesis
    by (simp add: applyRecord_def fits_def decodePut_append is_u64_def maxRecordSize_def)
next
  case (EDelete k)
  with assms small_payload(2) [of k maxRecordSize] show ?thesis
    by (simp add: applyRecord_def fits_def decodeDelete_append is_u64_def maxRecordSize_def)
next
  case EFlushAll
  then show ?thesis by (simp add: applyRecord_def)
next
  case (EBatch muts)
  with assms fits_batch [of muts] show ?thesis
    by (simp add: applyRecord_def fits_def decodeBatch_append)
qed

lemma load_to: "apply_to (mem_loader M) e s = (Ret (), load_entry M e s)"
  by (cases e) (simp_all add: mem_loader_def)

end
