(* ===== verification/Wal_Replay.thy ===== *)
theory Wal_Replay
  imports Wal_Record
begin

text \<open>
  Recovery of the write-ahead log, \<open>src/internal/wal/replay.go\<close>, with the segment headers and
  \<open>listSegments\<close> of \<open>log.go\<close>. A directory is the association of segment sequence numbers (the
  file names) to file contents. The results: replaying the files of a log applies exactly its
  entries after the snapshot's sequence number, a write torn off at any byte loses that record
  only, and damage anywhere but in the last segment is refused.
\<close>

section \<open>Segment files\<close>

type_synonym files = "(nat \<times> bytes) list"

definition segMagic :: bytes where
  "segMagic = ''RFSWAL'' @ [CHR 0x01, CHR 0x00]"

definition segHeaderSize :: nat where
  "segHeaderSize = 28"

definition encodeSegHeader :: "nat \<Rightarrow> int \<Rightarrow> bytes" where
  "encodeSegHeader firstLSN createdMs =
     (let b = segMagic @ PutUint64 firstLSN @ PutUint64 (nat (createdMs mod 18446744073709551616))
      in b @ PutUint32 (unat (crc_Checksum b)))"

definition parseSegHeader :: "bytes \<Rightarrow> nat res" where
  "parseSegHeader hdr =
     (if length hdr < segHeaderSize \<or> take (length segMagic) hdr \<noteq> segMagic then Fail ErrCorrupt
      else
        let want = le_val (drop (segHeaderSize - 4) hdr);
            got = unat (crc_Checksum (take (segHeaderSize - 4) hdr)) in
        if got \<noteq> want then Fail ErrCorrupt else Ret (le_val (take 8 (drop 8 hdr))))"

definition readSegHeader :: "bytes \<Rightarrow> nat res" where
  "readSegHeader data =
     (if length data < segHeaderSize then Fail ErrEOF else parseSegHeader (take segHeaderSize data))"

record segmentInfo =
  seg_seq :: nat
  seg_firstLSN :: nat
  seg_data :: bytes

fun list_loop :: "files \<Rightarrow> segmentInfo list res" where
  "list_loop [] = Ret []"
| "list_loop ((seq, data) # ents) =
     bind_res (readSegHeader data) (\<lambda>first.
       bind_res (list_loop ents) (\<lambda>out. Ret (\<lparr>seg_seq = seq, seg_firstLSN = first, seg_data = data\<rparr> # out)))"

definition listSegments :: "files \<Rightarrow> segmentInfo list res" where
  "listSegments ents = bind_res (list_loop ents) (\<lambda>out. Ret (sort_key seg_seq out))"

section \<open>Reading one segment\<close>

record ReplayResult =
  LastLSN :: nat
  Applied :: nat
  Skipped :: nat
  Segments :: nat
  BytesRead :: nat
  Truncated :: bool
  TruncatedPath :: nat
  TruncatedAt :: nat

text \<open>What the loop finds at the read position.\<close>

datatype next_record = AtEnd | Unreadable bytes | Intact nat nat bytes bytes

definition read_record :: "bytes \<Rightarrow> next_record" where
  "read_record br =
     (if br = [] then AtEnd
      else if length br < headerSize then Unreadable ''short record header''
      else
        let rh = take headerSize br; br = drop headerSize br;
            want = le_val (take 4 rh); plen = le_val (take 4 (drop 4 rh));
            typ = bval (rh ! 8); lsn = le_val (drop 9 rh) in
        if plen > maxRecordSize then Unreadable ''record length exceeds maximum''
        else if length br < plen then Unreadable ''short record payload''
        else
          let payload = take plen br;
              sum = crc_Update (crc_Checksum (drop 4 rh)) payload in
          if unat sum \<noteq> want then Unreadable ''checksum''
          else Intact typ lsn payload (drop plen br))"

datatype seg_end = CleanEnd | Damaged bytes | Stopped "unit res"

lemma read_record_shorter: "read_record br = Intact typ lsn payload rest \<Longrightarrow> length rest < length br"
  by (auto simp: read_record_def Let_def headerSize_def split: if_splits)

text \<open>The position, the next expected number, the receiver and the result so far are updated in place.\<close>

function replay_loop ::
  "nat \<Rightarrow> 'a applier \<Rightarrow> bytes \<Rightarrow> nat \<Rightarrow> nat \<Rightarrow> 'a \<Rightarrow> ReplayResult \<Rightarrow> seg_end \<times> nat \<times> nat \<times> 'a \<times> ReplayResult" where
  "replay_loop afterLSN ap br off expectLSN a res =
     (case read_record br of
        AtEnd \<Rightarrow> (CleanEnd, off, expectLSN, a, res)
      | Unreadable why \<Rightarrow> (Damaged why, off, expectLSN, a, res)
      | Intact typ lsn payload br' \<Rightarrow>
          if expectLSN \<noteq> 0 \<and> lsn \<noteq> expectLSN then (Damaged ''LSN out of order'', off, expectLSN, a, res)
          else
            let expectLSN = u64 (lsn + 1); off = off + headerSize + length payload in
            if lsn \<le> afterLSN then
              replay_loop afterLSN ap br' off expectLSN a (res\<lparr>Skipped := Skipped res + 1, LastLSN := lsn\<rparr>)
            else
              (case applyRecord typ payload ap a of
                 (Ret _, a) \<Rightarrow>
                   replay_loop afterLSN ap br' off expectLSN a (res\<lparr>Applied := Applied res + 1, LastLSN := lsn\<rparr>)
               | (e, a) \<Rightarrow> (Stopped e, off, expectLSN, a, res)))"
  by pat_completeness auto
termination
  by (relation "measure (\<lambda>(_, _, br, _). length br)") (auto dest: read_record_shorter)

declare replay_loop.simps [simp del]

definition replaySegment ::
  "segmentInfo \<Rightarrow> nat \<Rightarrow> nat \<Rightarrow> 'a applier \<Rightarrow> 'a \<Rightarrow> ReplayResult \<Rightarrow> seg_end \<times> nat \<times> nat \<times> 'a \<times> ReplayResult" where
  "replaySegment seg afterLSN expectLSN ap a res =
     (let br = seg_data seg in
      if length br < segHeaderSize then
        (Stopped (Fail (if br = [] then ErrEOF else ErrUnexpectedEOF)), 0, expectLSN, a, res)
      else
        case parseSegHeader (take segHeaderSize br) of
          Ret _ \<Rightarrow> replay_loop afterLSN ap (drop segHeaderSize br) segHeaderSize expectLSN a res
        | Fail e \<Rightarrow> (Stopped (Fail e), 0, expectLSN, a, res)
        | Panic \<Rightarrow> (Stopped Panic, 0, expectLSN, a, res))"

section \<open>Replay\<close>

text \<open>The outcomes of the system calls that repair a torn tail.\<close>

record disk_io =
  io_open :: "unit res"
  io_truncate :: "unit res"
  io_fsync :: "unit res"
  io_opendir :: "unit res"
  io_fsyncdir :: "unit res"

definition calm :: disk_io where
  "calm = \<lparr>io_open = Ret (), io_truncate = Ret (), io_fsync = Ret (), io_opendir = Ret (), io_fsyncdir = Ret ()\<rparr>"

definition truncateAt :: "disk_io \<Rightarrow> nat \<Rightarrow> nat \<Rightarrow> (files, unit) action" where
  "truncateAt io path off =
     sbind (\<lambda>fs. (io_open io, fs)) (\<lambda>_.
     sbind (\<lambda>fs. (io_truncate io,
         if io_truncate io = Ret () then map (\<lambda>(seq, d). (seq, if seq = path then take off d else d)) fs else fs)) (\<lambda>_.
     (\<lambda>fs. (io_fsync io, fs))))"

definition syncDir :: "disk_io \<Rightarrow> unit res" where
  "syncDir io = bind_res (io_opendir io) (\<lambda>_. io_fsyncdir io)"

fun replay_segments ::
  "disk_io \<Rightarrow> nat \<Rightarrow> 'a applier \<Rightarrow> segmentInfo list \<Rightarrow> nat \<Rightarrow> 'a \<Rightarrow> ReplayResult \<Rightarrow> files \<Rightarrow>
    unit res \<times> ReplayResult \<times> 'a \<times> files" where
  "replay_segments io afterLSN ap [] expectLSN a res fs = (Ret (), res, a, fs)"
| "replay_segments io afterLSN ap (seg # segs) expectLSN a res fs =
     (let last = (segs = []);
          (out, off, expectLSN, a, res) = replaySegment seg afterLSN expectLSN ap a res;
          res = res\<lparr>Segments := Segments res + 1, BytesRead := BytesRead res + off\<rparr> in
      case out of
        Damaged why \<Rightarrow>
          if \<not> last then (Fail ErrTornMidLog, res, a, fs)
          else
            (case truncateAt io (seg_seq seg) off fs of
               (Ret _, fs) \<Rightarrow>
                 (case syncDir io of
                    Ret _ \<Rightarrow> (Ret (), res\<lparr>Truncated := True, TruncatedPath := seg_seq seg, TruncatedAt := off\<rparr>, a, fs)
                  | e \<Rightarrow> (e, res, a, fs))
             | (e, fs) \<Rightarrow> (e, res, a, fs))
      | Stopped e \<Rightarrow> (e, res, a, fs)
      | CleanEnd \<Rightarrow> replay_segments io afterLSN ap segs expectLSN a res fs)"

definition ReplayResult0 :: "nat \<Rightarrow> ReplayResult" where
  "ReplayResult0 afterLSN =
     \<lparr>LastLSN = afterLSN, Applied = 0, Skipped = 0, Segments = 0, BytesRead = 0, Truncated = False,
      TruncatedPath = 0, TruncatedAt = 0\<rparr>"

definition Replay :: "disk_io \<Rightarrow> files \<Rightarrow> nat \<Rightarrow> 'a applier \<Rightarrow> 'a \<Rightarrow> unit res \<times> ReplayResult \<times> 'a \<times> files" where
  "Replay io dir afterLSN ap a =
     (case listSegments dir of
        Ret segs \<Rightarrow> replay_segments io afterLSN ap segs 0 a (ReplayResult0 afterLSN) dir
      | Fail e \<Rightarrow> (Fail e, ReplayResult0 afterLSN, a, dir)
      | Panic \<Rightarrow> (Panic, ReplayResult0 afterLSN, a, dir))"

section \<open>Headers and records decode to themselves\<close>

lemma length_segMagic [simp]: "length segMagic = 8"
  by (simp add: segMagic_def)

lemma length_encodeSegHeader [simp]: "length (encodeSegHeader l c) = 28"
  by (simp add: encodeSegHeader_def Let_def)

lemma parse_encodeSegHeader [codec_simps]: "is_u64 l \<Longrightarrow> parseSegHeader (encodeSegHeader l c) = Ret l"
  using unat_crc_less
  by (simp add: parseSegHeader_def encodeSegHeader_def Let_def segHeaderSize_def le_val_PutUint32 le_val_PutUint64)

lemma readSegHeader_encode: "is_u64 l \<Longrightarrow> readSegHeader (encodeSegHeader l c @ body) = Ret l"
  by (simp add: readSegHeader_def segHeaderSize_def parse_encodeSegHeader)

definition frame :: "nat \<Rightarrow> entry \<Rightarrow> bytes" where
  "frame lsn e = appendRecord [] (entry_type e) lsn (entry_payload e)"

definition rec_header :: "nat \<Rightarrow> entry \<Rightarrow> bytes" where
  "rec_header lsn e = take headerSize (frame lsn e)"

lemma frame_split:
  "frame lsn e = rec_header lsn e @ entry_payload e" "length (rec_header lsn e) = headerSize"
  by (simp_all add: frame_def rec_header_def appendRecord_def Let_def headerSize_def)

lemma length_frame: "length (frame lsn e) = headerSize + length (entry_payload e)"
  by (simp add: frame_split)

lemma frame_not_Nil [simp]: "frame lsn e \<noteq> []" "rec_header lsn e \<noteq> []"
  by (rule length_greater_0_conv [THEN iffD1], simp add: length_frame frame_split(2) headerSize_def)+

lemma entry_type_less: "entry_type e < 256"
  by (cases e) auto

lemma rec_header_fields:
  assumes "length (entry_payload e) \<le> maxRecordSize" and "is_u64 lsn"
  shows "le_val (take 4 (drop 4 (rec_header lsn e))) = length (entry_payload e)"
    and "bval (rec_header lsn e ! 8) = entry_type e"
    and "le_val (drop 9 (rec_header lsn e)) = lsn"
    and "unat (crc_Update (crc_Checksum (drop 4 (rec_header lsn e))) (entry_payload e)) = le_val (take 4 (rec_header lsn e))"
  using assms entry_type_less [of e] unat_crc_less
  by (simp_all add: rec_header_def frame_def appendRecord_def Let_def headerSize_def maxRecordSize_def
      le_val_PutUint32 le_val_PutUint64 nth_append crc_Checksum_def crc_Update_append)

lemma read_record_frame:
  assumes "fits e" and "is_u64 lsn"
  shows "read_record (frame lsn e @ rest) = Intact (entry_type e) lsn (entry_payload e) rest"
proof -
  have len: "length (entry_payload e) \<le> maxRecordSize" using assms(1) by (simp add: fits_def)
  with len rec_header_fields [OF len assms(2)] show ?thesis
    by (simp add: read_record_def frame_split Let_def)
qed

text \<open>A frame cut short by a crash is never read as a record.\<close>

lemma read_record_torn:
  assumes "fits e" and "is_u64 lsn" and "0 < n" and "n < length (frame lsn e)"
  shows "\<exists>why. read_record (take n (frame lsn e)) = Unreadable why"
proof (cases "n < headerSize")
  case True
  with assms(3,4) show ?thesis by (simp add: read_record_def)
next
  case False
  then have t: "take n (frame lsn e) = rec_header lsn e @ take (n - headerSize) (entry_payload e)"
    by (simp add: frame_split)
  have len: "length (entry_payload e) \<le> maxRecordSize" using assms(1) by (simp add: fits_def)
  have "\<not> length (entry_payload e) \<le> n - headerSize"
    using assms(4) False by (simp add: length_frame)
  with len False rec_header_fields [OF len assms(2)] assms(3) show ?thesis
    unfolding t by (auto simp: read_record_def frame_split Let_def headerSize_def)
qed

section \<open>Replaying frames\<close>

fun frames :: "nat \<Rightarrow> entry list \<Rightarrow> bytes" where
  "frames lsn [] = []"
| "frames lsn (e # es) = frame lsn e @ frames (Suc lsn) es"

lemma frames_append: "frames lsn (es @ fs) = frames lsn es @ frames (lsn + length es) fs"
  by (induction es arbitrary: lsn) auto

text \<open>A receiver whose methods never return an error, as the loader's do not.\<close>

definition accepting :: "'a applier \<Rightarrow> bool" where
  "accepting ap \<longleftrightarrow> (\<forall>e a. fst (apply_to ap e a) = Ret ())"

definition apply_all :: "'a applier \<Rightarrow> entry list \<Rightarrow> 'a \<Rightarrow> 'a" where
  "apply_all ap es = fold (\<lambda>e a. snd (apply_to ap e a)) es"

lemma apply_all_simps [simp]:
  "apply_all ap [] a = a"
  "apply_all ap (e # es) a = apply_all ap es (snd (apply_to ap e a))"
  "apply_all ap (es @ fs) a = apply_all ap fs (apply_all ap es a)"
  by (simp_all add: apply_all_def)

lemma accepting_mem_loader: "accepting (mem_loader M)"
  by (simp add: accepting_def load_to)

lemma apply_all_mem_loader: "apply_all (mem_loader M) es s = fold (load_entry M) es s"
  by (induction es arbitrary: s) (simp_all add: load_to)

text \<open>The entries numbered from \<open>lsn\<close> that lie after \<open>afterLSN\<close>.\<close>

definition after :: "nat \<Rightarrow> nat \<Rightarrow> entry list \<Rightarrow> entry list" where
  "after afterLSN lsn es = drop (afterLSN + 1 - lsn) es"

lemma after_Cons:
  "after a l (e # es) = (if l \<le> a then after a (l + 1) es else e # after a (l + 1) es)"
  by (cases "l \<le> a") (auto simp: after_def Suc_diff_le)

lemma after_append: "after a l (es @ fs) = after a l es @ after a (l + length es) fs"
  by (simp add: after_def diff_diff_left add.commute)

lemma after_Nil [simp]: "after a l [] = []"
  by (simp add: after_def)

text \<open>What the counters are after \<open>n\<close> records numbered from \<open>l\<close>, of which \<open>k\<close> were applied.\<close>

definition advance :: "nat \<Rightarrow> nat \<Rightarrow> nat \<Rightarrow> ReplayResult \<Rightarrow> ReplayResult" where
  "advance l n k res = res\<lparr>Applied := Applied res + k, Skipped := Skipped res + (n - k),
     LastLSN := if n = 0 then LastLSN res else l + n - 1\<rparr>"

lemma advance_0 [simp]: "advance l 0 0 res = res"
  by (simp add: advance_def)

lemma length_after_le: "length (after a l es) \<le> length es"
  by (simp add: after_def)

lemma advance_step:
  "k \<le> n \<Longrightarrow> advance (Suc l) n k (res\<lparr>Skipped := Suc (Skipped res), LastLSN := l\<rparr>) = advance l (Suc n) k res"
  "k \<le> n \<Longrightarrow> advance (Suc l) n k (res\<lparr>Applied := Suc (Applied res), LastLSN := l\<rparr>) = advance l (Suc n) (Suc k) res"
  by (simp_all add: advance_def)

lemma replay_loop_frames:
  assumes "\<forall>e \<in> set es. fits e" and "l + length es \<le> MaxUint64" and "x = 0 \<or> x = l \<or> es = []" and "accepting ap" and "0 < l"
  shows "replay_loop aft ap (frames l es @ rest) off x a res =
    replay_loop aft ap rest (off + length (frames l es)) (if es = [] then x else l + length es)
      (apply_all ap (after aft l es) a) (advance l (length es) (length (after aft l es)) res)"
  using assms
proof (induction es arbitrary: l off x a res)
  case (Cons e es)
  have l: "is_u64 l" "u64 (l + 1) = l + 1" using Cons.prems(2) by (auto simp: is_u64_def)
  have e: "fits e" using Cons.prems(1) by simp
  obtain a' where a': "apply_to ap e a = (Ret (), a')"
    using Cons.prems(4) by (metis accepting_def prod.collapse)
  note step = replay_loop.simps [of aft ap "frame l e @ frames (Suc l) es @ rest" off _ a res,
      unfolded read_record_frame [OF e l(1)] next_record.case]
  have x: "x = 0 \<or> x = l" using Cons.prems(3) by auto
  have IH: "replay_loop aft ap (frames (Suc l) es @ rest) off' (Suc l) b r =
      replay_loop aft ap rest (off' + length (frames (Suc l) es)) (Suc (l + length es))
        (apply_all ap (after aft (Suc l) es) b) (advance (Suc l) (length es) (length (after aft (Suc l) es)) r)" for off' b r
    using Cons.IH [of "Suc l" "Suc l" off' b r] Cons.prems by (cases "es = []") simp_all
  note adv = advance_step [OF length_after_le [of aft "Suc l" es]]
  from x show ?case
    using Cons.prems(4,5) l a'
    by (elim disjE) (simp_all add: step IH after_Cons length_frame adv add.assoc applyRecord_entry [OF e])
qed simp

lemma replay_loop_clean:
  assumes "\<forall>e \<in> set es. fits e" and "l + length es \<le> MaxUint64" and "x = 0 \<or> x = l \<or> es = []" and "accepting ap" and "0 < l"
  shows "replay_loop aft ap (frames l es) off x a res =
    (CleanEnd, off + length (frames l es), if es = [] then x else l + length es,
      apply_all ap (after aft l es) a, advance l (length es) (length (after aft l es)) res)"
  using replay_loop_frames [OF assms, of aft "[]" off a res]
  by (simp add: replay_loop.simps [of aft ap "[]"] read_record_def)

lemma replay_loop_torn:
  assumes "\<forall>e \<in> set es. fits e" and "l + length es \<le> MaxUint64" and "x = 0 \<or> x = l \<or> es = []" and "accepting ap" and "0 < l"
    and "read_record rest = Unreadable why"
  shows "replay_loop aft ap (frames l es @ rest) off x a res =
    (Damaged why, off + length (frames l es), if es = [] then x else l + length es,
      apply_all ap (after aft l es) a, advance l (length es) (length (after aft l es)) res)"
  using replay_loop_frames [OF assms(1-5), of aft rest off a res]
  by (simp add: replay_loop.simps [of aft ap rest] assms(6))

section \<open>The files of a log\<close>

text \<open>A segment as the writer leaves it: numbered, with the header's fields and the entries after it.\<close>

record seg_img =
  im_seq :: nat
  im_first :: nat
  im_created :: int
  im_es :: "entry list"

definition seg_bytes :: "seg_img \<Rightarrow> bytes" where
  "seg_bytes im = encodeSegHeader (im_first im) (im_created im) @ frames (im_first im) (im_es im)"

fun chained :: "nat \<Rightarrow> seg_img list \<Rightarrow> bool" where
  "chained l [] = True"
| "chained l (im # ims) = (im_first im = l \<and> chained (l + length (im_es im)) ims)"

definition log_entries :: "seg_img list \<Rightarrow> entry list" where
  "log_entries ims = concat (map im_es ims)"

lemma log_entries_simps [simp]:
  "log_entries [] = []" "log_entries (im # ims) = im_es im @ log_entries ims"
  "log_entries (ims @ ims') = log_entries ims @ log_entries ims'"
  by (simp_all add: log_entries_def)

text \<open>The directory of a log, with bytes of a torn write at the end of its last segment.\<close>

fun dir_of :: "seg_img list \<Rightarrow> bytes \<Rightarrow> files" where
  "dir_of [] t = []"
| "dir_of [im] t = [(im_seq im, seg_bytes im @ t)]"
| "dir_of (im # ims) t = (im_seq im, seg_bytes im) # dir_of ims t"

definition info_of :: "nat \<times> bytes \<Rightarrow> segmentInfo" where
  "info_of f = \<lparr>seg_seq = fst f, seg_firstLSN = (case readSegHeader (snd f) of Ret l \<Rightarrow> l), seg_data = snd f\<rparr>"

lemma list_loop_infos:
  "\<forall>f \<in> set fs. \<exists>l. readSegHeader (snd f) = Ret l \<Longrightarrow> list_loop fs = Ret (map info_of fs)"
  by (induction fs) (auto simp: info_of_def)

lemma listSegments_infos:
  assumes "\<forall>f \<in> set fs. \<exists>l. readSegHeader (snd f) = Ret l" and "sorted (map fst fs)"
  shows "listSegments fs = Ret (map info_of fs)"
proof -
  have "sorted (map seg_seq (map info_of fs))" using assms(2) by (simp add: info_of_def comp_def)
  then show ?thesis by (simp add: listSegments_def list_loop_infos [OF assms(1)] sort_key_id_if_sorted)
qed

lemma fst_dir_of: "map fst (dir_of ims t) = map im_seq ims"
  by (induction ims t rule: dir_of.induct) auto

definition log_ok :: "nat \<Rightarrow> seg_img list \<Rightarrow> bool" where
  "log_ok l ims \<longleftrightarrow> chained l ims \<and> 0 < l \<and> l + length (log_entries ims) \<le> MaxUint64
     \<and> (\<forall>e \<in> set (log_entries ims). fits e)"

lemma log_ok_Cons:
  "log_ok l (im # ims) \<Longrightarrow> im_first im = l \<and> (\<forall>e \<in> set (im_es im). fits e) \<and> is_u64 l
     \<and> l + length (im_es im) \<le> MaxUint64 \<and> log_ok (l + length (im_es im)) ims"
  by (auto simp: log_ok_def is_u64_def)

lemma dir_of_headers:
  "log_ok l ims \<Longrightarrow> \<forall>f \<in> set (dir_of ims t). \<exists>l. readSegHeader (snd f) = Ret l"
proof (induction ims t arbitrary: l rule: dir_of.induct)
  case (2 im t)
  with log_ok_Cons [OF 2] show ?case by (simp add: seg_bytes_def readSegHeader_encode)
next
  case (3 im im2 ims t)
  from log_ok_Cons [OF 3(2)] 3(1) show ?case
    by (simp add: seg_bytes_def readSegHeader_encode) blast
qed simp

lemma listSegments_dir_of:
  assumes "log_ok l ims" and "sorted (map im_seq ims)"
  shows "listSegments (dir_of ims t) = Ret (map info_of (dir_of ims t))"
  by (rule listSegments_infos [OF dir_of_headers [OF assms(1)]]) (simp add: fst_dir_of assms(2))

definition torn :: "bytes \<Rightarrow> bool" where
  "torn t \<longleftrightarrow> (\<exists>why. read_record t = Unreadable why)"

lemma replaySegment_bytes:
  assumes "is_u64 (im_first im)"
  shows "replaySegment (info_of (q, seg_bytes im @ t)) aft x ap a res =
    replay_loop aft ap (frames (im_first im) (im_es im) @ t) segHeaderSize x a res"
  using assms
  by (simp add: replaySegment_def info_of_def seg_bytes_def segHeaderSize_def Let_def parse_encodeSegHeader)

lemma replaySegment_clean:
  assumes "log_ok l (im # ims)" and "x = 0 \<or> x = l" and "accepting ap"
  shows "replaySegment (info_of (q, seg_bytes im)) aft x ap a res =
    (CleanEnd, length (seg_bytes im), if im_es im = [] then x else l + length (im_es im),
      apply_all ap (after aft l (im_es im)) a, advance l (length (im_es im)) (length (after aft l (im_es im))) res)"
proof -
  have l: "0 < l" using assms(1) by (simp add: log_ok_def)
  from log_ok_Cons [OF assms(1)] replaySegment_bytes [of im q "[]" aft x ap a res] assms(2,3) l
    replay_loop_clean [of "im_es im" l x ap aft segHeaderSize a res] show ?thesis
    by (cases "im_es im = []") (simp_all add: seg_bytes_def segHeaderSize_def)
qed

lemma replaySegment_torn:
  assumes "log_ok l (im # ims)" and "x = 0 \<or> x = l" and "accepting ap" and "read_record t = Unreadable why"
  shows "replaySegment (info_of (q, seg_bytes im @ t)) aft x ap a res =
    (Damaged why, length (seg_bytes im), if im_es im = [] then x else l + length (im_es im),
      apply_all ap (after aft l (im_es im)) a, advance l (length (im_es im)) (length (after aft l (im_es im))) res)"
proof -
  have l: "0 < l" using assms(1) by (simp add: log_ok_def)
  from log_ok_Cons [OF assms(1)] replaySegment_bytes [of im q t aft x ap a res] assms(2,3,4) l
    replay_loop_torn [of "im_es im" l x ap t why aft segHeaderSize a res] show ?thesis
    by (cases "im_es im = []") (simp_all add: seg_bytes_def segHeaderSize_def)
qed

text \<open>What recovery reports about \<open>n\<close> records numbered from \<open>l\<close>, of which \<open>k\<close> were applied.\<close>

definition reports :: "nat \<Rightarrow> nat \<Rightarrow> nat \<Rightarrow> bool \<Rightarrow> ReplayResult \<Rightarrow> ReplayResult \<Rightarrow> bool" where
  "reports l n k tr res res' \<longleftrightarrow> LastLSN res' = (if n = 0 then LastLSN res else l + n - 1)
     \<and> Applied res' = Applied res + k \<and> Skipped res' = Skipped res + (n - k)
     \<and> Truncated res' = (Truncated res \<or> tr)"

lemma reports_step:
  "reports (l + n) m j tr ((advance l n k res)\<lparr>Segments := s, BytesRead := b\<rparr>) res' \<Longrightarrow> k \<le> n \<Longrightarrow> j \<le> m \<Longrightarrow>
   reports l (n + m) (k + j) tr res res'"
  by (auto simp: reports_def advance_def)

definition cut_back :: "nat \<Rightarrow> nat \<Rightarrow> files \<Rightarrow> files" where
  "cut_back path off = map (\<lambda>(q, d). (q, if q = path then take off d else d))"

lemma truncateAt_calm: "truncateAt calm path off fs = (Ret (), cut_back path off fs)"
  by (simp add: truncateAt_def calm_def cut_back_def sbind_def)

lemma syncDir_calm [simp]: "syncDir calm = Ret ()"
  by (simp add: syncDir_def calm_def)

lemma seg_seq_info_of [simp]: "seg_seq (info_of (q, d)) = q"
  by (simp add: info_of_def)

definition repaired :: "seg_img list \<Rightarrow> bytes \<Rightarrow> files \<Rightarrow> files" where
  "repaired ims t fs =
     (if torn t \<and> ims \<noteq> [] then cut_back (im_seq (last ims)) (length (seg_bytes (last ims))) fs else fs)"

lemma replay_segments_dir:
  assumes "log_ok l ims" and "x = 0 \<or> x = l" and "accepting ap" and "t = [] \<or> torn t"
  shows "\<exists>res'. replay_segments calm aft ap (map info_of (dir_of ims t)) x a res fs =
      (Ret (), res', apply_all ap (after aft l (log_entries ims)) a, repaired ims t fs)
    \<and> reports l (length (log_entries ims)) (length (after aft l (log_entries ims))) (ims \<noteq> [] \<and> torn t) res res'"
  using assms
proof (induction ims t arbitrary: l x a res rule: dir_of.induct)
  case (1 t)
  then show ?case by (simp add: repaired_def reports_def)
next
  case (2 im t)
  show ?case
  proof (cases "torn t")
    case True
    then obtain why where "read_record t = Unreadable why" by (auto simp: torn_def)
    from replaySegment_torn [OF 2(1-3) this] True show ?thesis
      by (simp add: Let_def truncateAt_calm repaired_def reports_def advance_def)
  next
    case False
    with 2 have "t = []" by simp
    with replaySegment_clean [OF 2(1-3)] False show ?thesis
      by (simp add: Let_def repaired_def reports_def advance_def)
  qed
next
  case (3 im im2 ims t)
  let ?ims = "im2 # ims"
  from log_ok_Cons [OF 3(2)] have ok: "log_ok (l + length (im_es im)) ?ims" by simp
  let ?x = "if im_es im = [] then x else l + length (im_es im)"
  have x: "?x = 0 \<or> ?x = l + length (im_es im)" using 3(3) by auto
  let ?res = "(advance l (length (im_es im)) (length (after aft l (im_es im))) res)
      \<lparr>Segments := Segments (advance l (length (im_es im)) (length (after aft l (im_es im))) res) + 1,
       BytesRead := BytesRead (advance l (length (im_es im)) (length (after aft l (im_es im))) res) + length (seg_bytes im)\<rparr>"
  from 3(1) [OF ok x 3(4,5), of "apply_all ap (after aft l (im_es im)) a" ?res] obtain res' where
    r: "replay_segments calm aft ap (map info_of (dir_of ?ims t)) ?x (apply_all ap (after aft l (im_es im)) a) ?res fs =
      (Ret (), res', apply_all ap (after aft (l + length (im_es im)) (log_entries ?ims)) (apply_all ap (after aft l (im_es im)) a), repaired ?ims t fs)"
    and rep: "reports (l + length (im_es im)) (length (log_entries ?ims)) (length (after aft (l + length (im_es im)) (log_entries ?ims)))
      (?ims \<noteq> [] \<and> torn t) ?res res'" by blast
  have ne: "map info_of (dir_of ?ims t) \<noteq> []" by (cases ims) auto
  show ?case
    using r ne reports_step [OF rep length_after_le length_after_le]
    by (auto simp: Let_def replaySegment_clean [OF 3(2-4)] after_append repaired_def)
qed

lemma cut_back_dir_of:
  assumes "distinct (map im_seq ims)" and "ims \<noteq> []"
  shows "cut_back (im_seq (last ims)) (length (seg_bytes (last ims))) (dir_of ims t) = dir_of ims []"
  using assms
proof (induction ims t rule: dir_of.induct)
  case (3 im im2 ims t)
  have "im_seq im \<noteq> im_seq (last (im2 # ims))"
    using 3(2) last_in_set [of "im2 # ims"] by (auto simp del: last_ConsR last.simps)
  with 3 show ?case by (simp add: cut_back_def)
qed (simp_all add: cut_back_def)

lemma sorted_wrt_less_distinct: "sorted_wrt (<) (xs :: nat list) \<Longrightarrow> sorted xs \<and> distinct xs"
  by (simp add: strict_sorted_iff)

lemma Replay_dir_of:
  assumes "log_ok l ims" and "sorted_wrt (<) (map im_seq ims)" and "accepting ap" and "t = [] \<or> torn t"
  shows "\<exists>res'. Replay calm (dir_of ims t) aft ap a =
      (Ret (), res', apply_all ap (after aft l (log_entries ims)) a, dir_of ims [])
    \<and> reports l (length (log_entries ims)) (length (after aft l (log_entries ims))) (ims \<noteq> [] \<and> torn t) (ReplayResult0 aft) res'"
proof -
  from assms(2) have s: "sorted (map im_seq ims)" "distinct (map im_seq ims)"
    using sorted_wrt_less_distinct by auto
  from replay_segments_dir [OF assms(1) _ assms(3,4), of 0 aft a "ReplayResult0 aft" "dir_of ims t"]
  obtain res' where "replay_segments calm aft ap (map info_of (dir_of ims t)) 0 a (ReplayResult0 aft) (dir_of ims t) =
      (Ret (), res', apply_all ap (after aft l (log_entries ims)) a, repaired ims t (dir_of ims t))"
    and rep: "reports l (length (log_entries ims)) (length (after aft l (log_entries ims))) (ims \<noteq> [] \<and> torn t) (ReplayResult0 aft) res'"
    by blast
  moreover have "repaired ims t (dir_of ims t) = dir_of ims []"
    using assms(4) cut_back_dir_of [OF s(2), of t] by (cases "torn t"; cases "ims = []") (simp_all add: repaired_def)
  ultimately show ?thesis
    using listSegments_dir_of [OF assms(1) s(1), of t] by (auto simp: Replay_def)
qed

section \<open>Damage before the end\<close>

lemma list_loop_short:
  "(q, d) \<in> set fs \<Longrightarrow> length d < segHeaderSize \<Longrightarrow> \<nexists>out. list_loop fs = Ret out"
  by (induction fs) (auto simp: readSegHeader_def bind_res_eq_Ret)

lemma replay_segments_prefix:
  assumes "log_ok l ims" and "x = 0 \<or> x = l" and "accepting ap"
  shows "\<exists>res'. replay_segments io aft ap (map info_of (dir_of ims []) @ segs) x a res fs =
    replay_segments io aft ap segs (if log_entries ims = [] then x else l + length (log_entries ims))
      (apply_all ap (after aft l (log_entries ims)) a) res' fs"
  using assms
proof (induction ims arbitrary: l x a res)
  case (Cons im ims)
  from log_ok_Cons [OF Cons.prems(1)] have ok: "log_ok (l + length (im_es im)) ims" by simp
  let ?x = "if im_es im = [] then x else l + length (im_es im)"
  have x: "?x = 0 \<or> ?x = l + length (im_es im)" using Cons.prems(2) by auto
  have d: "dir_of (im # ims) [] = (im_seq im, seg_bytes im) # dir_of ims []" by (cases ims) simp_all
  have "(if log_entries ims = [] then ?x else l + length (im_es im) + length (log_entries ims)) =
      (if log_entries (im # ims) = [] then x else l + length (log_entries (im # ims)))" by simp
  with Cons.IH [OF ok x Cons.prems(3)] show ?case
    unfolding d by (simp add: Let_def replaySegment_clean [OF Cons.prems] after_append)
qed auto

lemma replay_segments_midlog:
  assumes "log_ok l (ims @ [im])" and "x = 0 \<or> x = l" and "accepting ap" and "torn t" and "segs \<noteq> []"
  shows "fst (replay_segments io aft ap (map info_of (dir_of (ims @ [im]) t) @ segs) x a res fs) = Fail ErrTornMidLog"
  using assms
proof (induction ims arbitrary: l x a res)
  case Nil
  from Nil(4) obtain why where "read_record t = Unreadable why" by (auto simp: torn_def)
  with replaySegment_torn [OF Nil(1) [simplified] Nil(2,3)] Nil(5) show ?case by (simp add: Let_def)
next
  case (Cons im1 ims)
  have ok1: "log_ok l (im1 # (ims @ [im]))" using Cons.prems(1) by simp
  from log_ok_Cons [OF ok1] have ok: "log_ok (l + length (im_es im1)) (ims @ [im])" by simp
  let ?x = "if im_es im1 = [] then x else l + length (im_es im1)"
  have x: "?x = 0 \<or> ?x = l + length (im_es im1)" using Cons.prems(2) by auto
  have d: "dir_of ((im1 # ims) @ [im]) t = (im_seq im1, seg_bytes im1) # dir_of (ims @ [im]) t"
    by (cases ims) simp_all
  show ?case
    using Cons.IH [OF ok x Cons.prems(3-5)] replaySegment_clean [OF ok1 Cons.prems(2,3)]
    unfolding d by (simp add: Let_def)
qed

section \<open>Properties\<close>

text \<open>
  C19: Recovery of a log whose last write was cut off at any byte applies exactly the entries after
  the snapshot's position, in order, reports the cut, and leaves the directory as if the torn
  write had never begun.
\<close>

theorem Replay_loses_only_the_torn_record:
  assumes "log_ok l ims" and "ims \<noteq> []" and "sorted_wrt (<) (map im_seq ims)" and "accepting ap"
    and "fits e" and "n < length (frame (l + length (log_entries ims)) e)"
  shows "\<exists>res. Replay calm (dir_of ims (take n (frame (l + length (log_entries ims)) e))) aft ap a =
      (Ret (), res, apply_all ap (after aft l (log_entries ims)) a, dir_of ims [])
    \<and> Truncated res = (0 < n)
    \<and> LastLSN res = (if log_entries ims = [] then aft else l + length (log_entries ims) - 1)"
proof -
  let ?t = "take n (frame (l + length (log_entries ims)) e)"
  have u: "is_u64 (l + length (log_entries ims))" using assms(1) by (simp add: log_ok_def is_u64_def)
  have t: "0 < n \<Longrightarrow> torn ?t" using read_record_torn [OF assms(5) u _ assms(6)] by (simp add: torn_def)
  have nil: "\<not> torn []" by (simp add: torn_def read_record_def)
  from t have "?t = [] \<or> torn ?t" by (cases n) auto
  from Replay_dir_of [OF assms(1,3,4) this, of aft a] obtain res where
    "Replay calm (dir_of ims ?t) aft ap a = (Ret (), res, apply_all ap (after aft l (log_entries ims)) a, dir_of ims [])"
    "reports l (length (log_entries ims)) (length (after aft l (log_entries ims))) (ims \<noteq> [] \<and> torn ?t) (ReplayResult0 aft) res"
    by blast
  moreover have "torn ?t = (0 < n)" using t nil by (cases n) auto
  ultimately show ?thesis using assms(2) by (auto simp: reports_def ReplayResult0_def)
qed

definition one_put :: seg_img where
  "one_put = \<lparr>im_seq = 1, im_first = 1, im_created = 0, im_es = [EPut ''k'' \<lparr>Value = ''v'', ExpireAt = 0\<rparr>]\<rparr>"

lemma AppendUvarint_1 [simp]: "AppendUvarint 0 = [mkbyte 0]" "AppendUvarint (Suc 0) = [mkbyte 1]"
  by (simp_all add: AppendUvarint.simps)

lemma AppendVarint_0 [simp]: "AppendVarint 0 = [mkbyte 0]"
  by (simp add: AppendVarint_def zigzag_def)

lemma one_put_ok: "log_ok 1 [one_put]" "fits (EDelete ''k'')"
  by (simp_all add: log_ok_def one_put_def fits_def maxRecordSize_def appendPutPayload_def appendDeletePayload_def)

theorem Replay_loses_only_the_torn_record_witness:
  "\<exists>res. Replay calm (dir_of [one_put] (take 5 (frame 2 (EDelete ''k'')))) 0 (mem_loader plain_env) (New ()) =
      (Ret (), res, load_entry plain_env (EPut ''k'' \<lparr>Value = ''v'', ExpireAt = 0\<rparr>) (New ()), dir_of [one_put] [])
    \<and> Truncated res \<and> LastLSN res = 1"
  using Replay_loses_only_the_torn_record [of 1 "[one_put]" "mem_loader plain_env" "EDelete ''k''" 5 0 "New ()"] one_put_ok
  by (simp add: accepting_mem_loader length_frame headerSize_def apply_all_mem_loader after_def numeral_2_eq_2
      del: load_entry.simps) (simp add: one_put_def)

text \<open>
  C40: A record that cannot be read in any segment but the last makes recovery fail instead of
  guessing, whatever follows it.
\<close>

theorem Replay_refuses_damage_before_the_last_segment:
  assumes "log_ok l (ims @ [im])" and "sorted (map im_seq (ims @ [im]) @ map fst later)" and "accepting ap"
    and "torn t" and "later \<noteq> []" and "\<forall>f \<in> set later. \<exists>l. readSegHeader (snd f) = Ret l"
  shows "fst (Replay io (dir_of (ims @ [im]) t @ later) aft ap a) = Fail ErrTornMidLog"
proof -
  have "listSegments (dir_of (ims @ [im]) t @ later) = Ret (map info_of (dir_of (ims @ [im]) t @ later))"
  proof (rule listSegments_infos)
    show "\<forall>f \<in> set (dir_of (ims @ [im]) t @ later). \<exists>l. readSegHeader (snd f) = Ret l"
      using dir_of_headers [OF assms(1), of t] assms(6) by auto
    show "sorted (map fst (dir_of (ims @ [im]) t @ later))"
      using assms(2) by (simp only: map_append fst_dir_of)
  qed
  then show ?thesis
    using replay_segments_midlog [OF assms(1) _ assms(3,4), of 0 "map info_of later"] assms(5)
    by (simp add: Replay_def)
qed

theorem Replay_refuses_damage_before_the_last_segment_witness:
  "fst (Replay calm (dir_of [one_put] ''xx'' @ dir_of [one_put\<lparr>im_seq := 2\<rparr>] []) 0 (mem_loader plain_env) (New ())) = Fail ErrTornMidLog"
  using Replay_refuses_damage_before_the_last_segment
      [of 1 "[]" one_put "dir_of [one_put\<lparr>im_seq := 2\<rparr>] []" "mem_loader plain_env" "''xx''" calm 0 "New ()"] one_put_ok
  by (simp add: accepting_mem_loader torn_def read_record_def headerSize_def seg_bytes_def readSegHeader_encode one_put_def is_u64_def)

text \<open>
  When the log ends before the position the snapshot covers (a power cut took unsynced records
  whose effects the snapshot holds), recovery reports a last sequence number below that position.
  Numbering goes on from there, so the next write gets a number the following recovery skips: the
  write is lost although it was logged.
\<close>

theorem numbering_restarts_below_the_snapshot:
  assumes "log_ok l ims" and "log_entries ims \<noteq> []" and "sorted_wrt (<) (map im_seq ims)" and "accepting ap"
    and "l + length (log_entries ims) \<le> aft" and "fits e" and "\<forall>im \<in> set ims. im_seq im < q"
    and "l + length (log_entries ims) < MaxUint64"
  shows "\<exists>res res'. Replay calm (dir_of ims []) aft ap a = (Ret (), res, a, dir_of ims []) \<and> LastLSN res < aft
    \<and> (let new = \<lparr>im_seq = q, im_first = LastLSN res + 1, im_created = now, im_es = [e]\<rparr> in
       Replay calm (dir_of (ims @ [new]) []) aft ap a = (Ret (), res', a, dir_of (ims @ [new]) []))"
proof -
  let ?n = "length (log_entries ims)"
  let ?new = "\<lparr>im_seq = q, im_first = l + ?n, im_created = now, im_es = [e]\<rparr>"
  have none: "after aft l (log_entries ims) = []" "after aft l (log_entries ims @ [e]) = []"
    using assms(5) by (simp_all add: after_def)
  have pos: "0 < ?n" using assms(2) by simp
  from Replay_dir_of [OF assms(1,3,4), of "[]" aft a] none(1) pos obtain res where
    r: "Replay calm (dir_of ims []) aft ap a = (Ret (), res, a, dir_of ims [])" "LastLSN res + 1 = l + ?n"
    by (auto simp: reports_def)
  have ch: "chained l (ims @ [?new])"
  proof -
    have "chained k js \<Longrightarrow> chained k (js @ [im])" if "im_first im = k + length (log_entries js)" for k js im
      using that by (induction js arbitrary: k) (auto simp: add.assoc)
    then show ?thesis using assms(1) by (simp add: log_ok_def)
  qed
  with assms(1,6,8) have "log_ok l (ims @ [?new])" by (auto simp: log_ok_def)
  moreover have "sorted_wrt (<) (map im_seq (ims @ [?new]))" using assms(3,7) by (simp add: sorted_wrt_append)
  ultimately obtain res' where
    "Replay calm (dir_of (ims @ [?new]) []) aft ap a = (Ret (), res', a, dir_of (ims @ [?new]) [])"
    using Replay_dir_of [OF _ _ assms(4), of l "ims @ [?new]" "[]" aft a] none(2) by auto
  with r assms(5) show ?thesis by (intro exI [of _ res] exI [of _ res']) (auto simp: Let_def)
qed

text \<open>
  An unreadable record inside the last segment makes recovery discard every record after it,
  also intact ones, and report success.
\<close>

theorem damage_in_the_last_segment_discards_what_follows:
  assumes "log_ok l ims" and "ims \<noteq> []" and "sorted_wrt (<) (map im_seq ims)" and "accepting ap"
    and "length bad = headerSize" and "maxRecordSize < le_val (take 4 (drop 4 bad))"
  shows "\<exists>res. Replay calm (dir_of ims (bad @ frames k es)) aft ap a =
      (Ret (), res, apply_all ap (after aft l (log_entries ims)) a, dir_of ims []) \<and> Truncated res"
proof -
  from assms(5) have "bad \<noteq> []" by (auto simp: headerSize_def)
  then have "torn (bad @ frames k es)" using assms(5,6) by (simp add: torn_def read_record_def Let_def)
  with Replay_dir_of [OF assms(1,3,4), of "bad @ frames k es" aft a] assms(2) show ?thesis
    by (auto simp: reports_def)
qed

text \<open>
  A segment file shorter than its header, as a crash between creating a segment and syncing its
  header leaves it, makes recovery of the whole directory fail, whatever else the log holds.
\<close>

theorem half_written_header_blocks_recovery:
  assumes "(q, d) \<in> set dir" and "length d < segHeaderSize"
  shows "fst (Replay io dir aft ap a) \<noteq> Ret ()"
  using list_loop_short [OF assms]
  by (cases "list_loop dir") (auto simp: Replay_def listSegments_def)

end
