(* ===== verification/Wal_Log.thy ===== *)
theory Wal_Log
  imports Wal_Replay
begin

text \<open>
  The writer of the write-ahead log, \<open>src/internal/wal/log.go\<close>: the append buffer, \<open>Flush\<close>,
  \<open>Sync\<close>, segment rotation, \<open>Close\<close> and \<open>TrimTo\<close>, over a disk that remembers how much of each
  file is on stable storage. Every system call asks the environment whether it succeeds. The
  results: what \<open>Sync\<close> acknowledged survives any crash, trimming keeps what recovery needs, and
  two ways in which an I/O error is reported to the wrong writer.
\<close>

section \<open>Policies\<close>

datatype SyncPolicy = SyncAlways | SyncEverySec | SyncNever

definition ParseSyncPolicy :: "bytes \<Rightarrow> SyncPolicy res" where
  "ParseSyncPolicy s =
     (if s = ''always'' then Ret SyncAlways
      else if s = ''everysec'' \<or> s = [] then Ret SyncEverySec
      else if s = ''no'' \<or> s = ''never'' then Ret SyncNever
      else Fail (OtherErr (''wal: unknown sync policy '' @ s)))"

fun SyncPolicy_String :: "SyncPolicy \<Rightarrow> bytes" where
  "SyncPolicy_String SyncAlways = ''always''"
| "SyncPolicy_String SyncEverySec = ''everysec''"
| "SyncPolicy_String SyncNever = ''no''"

section \<open>The disk\<close>

text \<open>
  A segment file: its content, how many of its bytes are on stable storage, and whether its
  directory entry is.
\<close>

record sfile =
  f_seq :: nat
  f_data :: bytes
  f_sync :: nat
  f_entry :: bool

text \<open>
  The options, with the outcome of the \<open>i\<close>-th system call: \<open>None\<close> when it succeeds, \<open>Some n\<close> when it
  fails, a write having transferred \<open>n\<close> bytes; and the clock at that call.
\<close>

record wal_env =
  wo_SegmentSize :: int
  wo_Policy :: SyncPolicy
  wo_MaxBufferBytes :: int
  io :: "nat \<Rightarrow> nat option"
  now_ms :: "nat \<Rightarrow> int"

definition withDefaults :: "wal_env \<Rightarrow> wal_env" where
  "withDefaults opt =
     (let opt = (if wo_SegmentSize opt \<le> 0 then opt\<lparr>wo_SegmentSize := 67108864\<rparr> else opt)
      in if wo_MaxBufferBytes opt \<le> 0 then opt\<lparr>wo_MaxBufferBytes := 1048576\<rparr> else opt)"

text \<open>\<open>l.f\<close> is the handle of segment \<open>segSeq\<close>, usable until it is closed.\<close>

record Log =
  l_buf :: bytes
  l_nextLSN :: nat
  l_segSeq :: nat
  l_segLen :: int
  l_lastAppended :: nat
  l_writtenLSN :: nat
  l_syncedLSN :: nat
  l_appends :: nat
  l_fsyncs :: nat
  l_writes :: nat
  l_bytesOut :: nat
  l_closed :: bool
  l_fatal :: "gerror option"
  l_open :: bool
  l_disk :: "sfile list"
  l_tick :: nat

definition files_of :: "sfile list \<Rightarrow> files" where
  "files_of d = map (\<lambda>f. (f_seq f, f_data f)) d"

definition syscall :: "wal_env \<Rightarrow> bytes \<Rightarrow> (sfile list \<Rightarrow> sfile list) \<Rightarrow> (nat \<Rightarrow> sfile list \<Rightarrow> sfile list) \<Rightarrow> (Log, unit) action" where
  "syscall E what done failed l =
     (let l' = l\<lparr>l_tick := Suc (l_tick l)\<rparr> in
      case io E (l_tick l) of
        None \<Rightarrow> (Ret (), l'\<lparr>l_disk := done (l_disk l)\<rparr>)
      | Some n \<Rightarrow> (Fail (OtherErr what), l'\<lparr>l_disk := failed n (l_disk l)\<rparr>))"

definition on_file :: "nat \<Rightarrow> (sfile \<Rightarrow> sfile) \<Rightarrow> sfile list \<Rightarrow> sfile list" where
  "on_file q g = map (\<lambda>f. if f_seq f = q then g f else f)"

definition file_Write :: "wal_env \<Rightarrow> nat \<Rightarrow> bytes \<Rightarrow> (Log, unit) action" where
  "file_Write E q p =
     syscall E ''write'' (on_file q (\<lambda>f. f\<lparr>f_data := f_data f @ p\<rparr>))
       (\<lambda>n. on_file q (\<lambda>f. f\<lparr>f_data := f_data f @ take n p\<rparr>))"

definition file_Sync :: "wal_env \<Rightarrow> nat \<Rightarrow> (Log, unit) action" where
  "file_Sync E q = syscall E ''fsync'' (on_file q (\<lambda>f. f\<lparr>f_sync := length (f_data f)\<rparr>)) (\<lambda>n d. d)"

definition file_Create :: "wal_env \<Rightarrow> nat \<Rightarrow> (Log, unit) action" where
  "file_Create E q l =
     (if q \<in> f_seq ` set (l_disk l) then (Fail (OtherErr ''file exists''), l)
      else syscall E ''create'' (\<lambda>d. d @ [\<lparr>f_seq = q, f_data = [], f_sync = 0, f_entry = False\<rparr>]) (\<lambda>n d. d) l)"

definition dir_Sync :: "wal_env \<Rightarrow> (Log, unit) action" where
  "dir_Sync E = syscall E ''fsync dir'' (map (\<lambda>f. f\<lparr>f_entry := True\<rparr>)) (\<lambda>n d. d)"

definition dir_Remove :: "wal_env \<Rightarrow> nat \<Rightarrow> (Log, unit) action" where
  "dir_Remove E q = syscall E ''remove'' (filter (\<lambda>f. f_seq f \<noteq> q)) (\<lambda>n d. d)"

text \<open>The same through \<open>l.f\<close>.\<close>

definition f_Write :: "wal_env \<Rightarrow> bytes \<Rightarrow> (Log, unit) action" where
  "f_Write E p l =
     (if \<not> l_open l then (Fail (OtherErr ''file already closed''), l) else file_Write E (l_segSeq l) p l)"

definition f_Sync :: "wal_env \<Rightarrow> (Log, unit) action" where
  "f_Sync E l =
     (if \<not> l_open l then (Fail (OtherErr ''file already closed''), l) else file_Sync E (l_segSeq l) l)"

definition f_Close :: "wal_env \<Rightarrow> (Log, unit) action" where
  "f_Close E l =
     (if \<not> l_open l then (Fail (OtherErr ''file already closed''), l)
      else syscall E ''close'' (\<lambda>d. d) (\<lambda>n d. d) (l\<lparr>l_open := False\<rparr>))"

section \<open>The log\<close>

definition latch :: "gerror \<Rightarrow> (Log, 'a) action" where
  "latch e l = (Fail e, l\<lparr>l_fatal := (case l_fatal l of None \<Rightarrow> Some e | Some x \<Rightarrow> Some x)\<rparr>)"

definition openSegment :: "wal_env \<Rightarrow> nat \<Rightarrow> nat \<Rightarrow> (Log, unit) action" where
  "openSegment E seq firstLSN =
     sbind (file_Create E seq) (\<lambda>_ l.
       let hdr = encodeSegHeader firstLSN (now_ms E (l_tick l)) in
       sbind (file_Write E seq hdr) (\<lambda>_.
       sbind (file_Sync E seq) (\<lambda>_.
       sbind (dir_Sync E) (\<lambda>_ l.
         (Ret (), l\<lparr>l_open := True, l_segSeq := seq, l_segLen := int (length hdr)\<rparr>)))) l)"

definition rotateLocked :: "wal_env \<Rightarrow> nat \<Rightarrow> (Log, unit) action" where
  "rotateLocked E firstLSN =
     sbind (f_Sync E) (\<lambda>_ l.
       let l = l\<lparr>l_fsyncs := l_fsyncs l + 1, l_syncedLSN := l_writtenLSN l\<rparr> in
       sbind (f_Close E) (\<lambda>_ l. openSegment E (l_segSeq l + 1) firstLSN l) l)"

definition drainLocked :: "wal_env \<Rightarrow> (Log, nat) action" where
  "drainLocked E l =
     (if l_buf l = [] then (Ret (l_writtenLSN l), l)
      else
        let pending = l_buf l; upto = l_nextLSN l - 1; l = l\<lparr>l_buf := []\<rparr> in
        case f_Write E pending l of
          (Ret _, l) \<Rightarrow>
            let l = l\<lparr>l_writes := l_writes l + 1, l_bytesOut := l_bytesOut l + length pending,
                      l_segLen := l_segLen l + int (length pending), l_writtenLSN := upto\<rparr> in
            if l_segLen l \<ge> wo_SegmentSize E
            then sbind (rotateLocked E (upto + 1)) (\<lambda>_ l. (Ret upto, l)) l
            else (Ret upto, l)
        | (_, l) \<Rightarrow> latch (OtherErr ''wal: write segment'') l)"

definition syncLocked :: "wal_env \<Rightarrow> (Log, unit) action" where
  "syncLocked E =
     sbind (drainLocked E) (\<lambda>upto l.
       let upto = (if upto = 0 then l_writtenLSN l else upto) in
       if l_syncedLSN l \<ge> upto then (Ret (), l)
       else
         case f_Sync E l of
           (Ret _, l) \<Rightarrow> (Ret (), l\<lparr>l_fsyncs := l_fsyncs l + 1, l_syncedLSN := upto\<rparr>)
         | (_, l) \<Rightarrow> latch (OtherErr ''wal: fsync'') l)"

definition Flush :: "wal_env \<Rightarrow> (Log, unit) action" where
  "Flush E l =
     (if l_closed l then (Fail ErrClosed, l)
      else if l_lastAppended l \<le> l_writtenLSN l then (Ret (), l)
      else sbind (drainLocked E) (\<lambda>_ l. (Ret (), l)) l)"

definition Sync :: "wal_env \<Rightarrow> nat \<Rightarrow> (Log, unit) action" where
  "Sync E lsn l =
     (if l_closed l then (Fail ErrClosed, l)
      else if l_syncedLSN l \<ge> lsn then (Ret (), l)
      else syncLocked E l)"

definition SyncAll :: "wal_env \<Rightarrow> (Log, unit) action" where
  "SyncAll E l = (if l_closed l then (Fail ErrClosed, l) else syncLocked E l)"

definition log_append :: "wal_env \<Rightarrow> nat \<Rightarrow> bytes \<Rightarrow> (Log, nat) action" where
  "log_append E typ payload l =
     (if l_closed l then (Fail ErrClosed, l)
      else
        case l_fatal l of
          Some e \<Rightarrow> (Fail e, l)
        | None \<Rightarrow>
            let lsn = l_nextLSN l;
                l = l\<lparr>l_nextLSN := lsn + 1, l_buf := appendRecord (l_buf l) typ lsn payload,
                      l_lastAppended := lsn, l_appends := l_appends l + 1\<rparr> in
            if int (length (l_buf l)) \<ge> wo_MaxBufferBytes E
            then sbind (Flush E) (\<lambda>_ l. (Ret lsn, l)) l
            else (Ret lsn, l))"

definition AppendPut :: "wal_env \<Rightarrow> bytes \<Rightarrow> Record \<Rightarrow> (Log, nat) action" where
  "AppendPut E key rec = log_append E RecPut (appendPutPayload [] key rec)"

definition AppendDelete :: "wal_env \<Rightarrow> bytes \<Rightarrow> (Log, nat) action" where
  "AppendDelete E key = log_append E RecDelete (appendDeletePayload [] key)"

definition AppendFlushAll :: "wal_env \<Rightarrow> (Log, nat) action" where
  "AppendFlushAll E = log_append E RecFlushAll []"

definition AppendBatch :: "wal_env \<Rightarrow> Mutation list \<Rightarrow> (Log, nat) action" where
  "AppendBatch E muts = log_append E RecBatch (appendBatchPayload [] muts)"

definition Log_LastLSN :: "Log \<Rightarrow> nat" where
  "Log_LastLSN l = l_nextLSN l - 1"

definition new_Log :: "sfile list \<Rightarrow> nat \<Rightarrow> nat \<Rightarrow> nat \<Rightarrow> Log" where
  "new_Log d tick nextSeq startLSN =
     \<lparr>l_buf = [], l_nextLSN = startLSN + 1, l_segSeq = nextSeq, l_segLen = 0, l_lastAppended = startLSN,
      l_writtenLSN = startLSN, l_syncedLSN = startLSN, l_appends = 0, l_fsyncs = 0, l_writes = 0, l_bytesOut = 0,
      l_closed = False, l_fatal = None, l_open = False, l_disk = d, l_tick = tick\<rparr>"

definition Open :: "wal_env \<Rightarrow> nat \<Rightarrow> (sfile list, Log) action" where
  "Open E startLSN d =
     (case listSegments (files_of d) of
        Ret segs \<Rightarrow>
          let nextSeq = (if segs = [] then 1 else seg_seq (last segs) + 1);
              l = new_Log d 0 nextSeq startLSN in
          (case openSegment E nextSeq (startLSN + 1) l of
             (Ret _, l) \<Rightarrow> (Ret l, l_disk l)
           | (Fail e, l) \<Rightarrow> (Fail e, l_disk l)
           | (Panic, l) \<Rightarrow> (Panic, l_disk l))
      | Fail e \<Rightarrow> (Fail e, d)
      | Panic \<Rightarrow> (Panic, d))"

definition Log_Close :: "wal_env \<Rightarrow> (Log, unit) action" where
  "Log_Close E l =
     (if l_closed l then (Ret (), l)
      else
        case drainLocked E (l\<lparr>l_closed := True\<rparr>) of
          (Ret _, l) \<Rightarrow>
            (case f_Sync E l of
               (Ret _, l) \<Rightarrow> f_Close E (l\<lparr>l_syncedLSN := l_writtenLSN l\<rparr>)
             | (_, l) \<Rightarrow> (Fail (OtherErr ''wal: fsync on close''), snd (f_Close E l)))
        | (Fail e, l) \<Rightarrow> (Fail e, snd (f_Close E l))
        | (Panic, l) \<Rightarrow> (Panic, l))"

fun trim_loop :: "wal_env \<Rightarrow> nat \<Rightarrow> segmentInfo list \<Rightarrow> nat \<Rightarrow> (Log, nat) action" where
  "trim_loop E safeLSN (a # b # segs) removed l =
     (if seg_seq a = l_segSeq l then (Ret removed, l)
      else if seg_firstLSN b > u64 (safeLSN + 1) then (Ret removed, l)
      else sbind (dir_Remove E (seg_seq a)) (\<lambda>_. trim_loop E safeLSN (b # segs) (removed + 1)) l)"
| "trim_loop E safeLSN segs removed l = (Ret removed, l)"

definition TrimTo :: "wal_env \<Rightarrow> nat \<Rightarrow> (Log, nat) action" where
  "TrimTo E safeLSN l =
     (case listSegments (files_of (l_disk l)) of
        Ret segs \<Rightarrow>
          sbind (trim_loop E safeLSN segs 0) (\<lambda>removed.
            if removed > 0 then sbind (dir_Sync E) (\<lambda>_ l. (Ret removed, l)) else (\<lambda>l. (Ret removed, l))) l
      | Fail e \<Rightarrow> (Fail e, l)
      | Panic \<Rightarrow> (Panic, l))"

section \<open>Crashes\<close>

text \<open>A power cut keeps at least the stable prefix of every file.\<close>

definition survives :: "sfile \<Rightarrow> nat \<times> bytes \<Rightarrow> bool" where
  "survives f g \<longleftrightarrow> fst g = f_seq f \<and> (\<exists>n \<ge> f_sync f. snd g = take n (f_data f))"

definition crash :: "sfile list \<Rightarrow> files \<Rightarrow> bool" where
  "crash d fs \<longleftrightarrow> list_all2 survives d fs"

text \<open>Killing the process keeps every byte that was written.\<close>

lemma files_of_crash: "crash d (files_of d)"
  unfolding crash_def files_of_def survives_def
  by (simp add: list_all2_conv_all_nth) (metis nle_le take_all)

lemma files_of_simps [simp]:
  "files_of [] = []" "files_of (f # d) = (f_seq f, f_data f) # files_of d" "files_of (d @ d') = files_of d @ files_of d'"
  by (simp_all add: files_of_def)

lemma frames_take:
  assumes "\<forall>e \<in> set es. fits e" and "k + length es \<le> MaxUint64"
  shows "\<exists>j t. j \<le> length es \<and> take n (frames k es) = frames k (take j es) @ t \<and> (t = [] \<or> torn t)
    \<and> (\<forall>i \<le> length es. length (frames k (take i es)) \<le> n \<longrightarrow> i \<le> j)"
  using assms
proof (induction es arbitrary: k n)
  case (Cons e es)
  show ?case
  proof (cases "n < length (frame k e)")
    case True
    have t: "take n (frame k e) = [] \<or> torn (take n (frame k e))"
      using Cons.prems True read_record_torn [of e k n] by (cases n) (auto simp: torn_def is_u64_def)
    have "i \<le> 0" if "length (frames k (take i (e # es))) \<le> n" for i
      using that True by (cases i) auto
    with t True show ?thesis by (intro exI [of _ 0] exI [of _ "take n (frame k e)"]) simp
  next
    case False
    from Cons.IH [of "Suc k" "n - length (frame k e)"] Cons.prems obtain j t where
      j: "j \<le> length es" "take (n - length (frame k e)) (frames (Suc k) es) = frames (Suc k) (take j es) @ t" "t = [] \<or> torn t"
      "\<And>i. i \<le> length es \<Longrightarrow> length (frames (Suc k) (take i es)) \<le> n - length (frame k e) \<Longrightarrow> i \<le> j" by auto
    have "i \<le> Suc j" if "i \<le> length (e # es)" "length (frames k (take i (e # es))) \<le> n" for i
      using that j(4) [of "i - 1"] by (cases i) auto
    with j False show ?thesis by (intro exI [of _ "Suc j"] exI [of _ t]) simp
  qed
qed simp

lemma dir_of_Nil: "dir_of ims [] = map (\<lambda>im. (im_seq im, seg_bytes im)) ims"
proof (induction ims "[] :: bytes" rule: dir_of.induct)
  case (3 im im2 ims)
  then show ?case by simp
qed simp_all

lemma dir_of_snoc: "dir_of (ims @ [im]) t = dir_of ims [] @ [(im_seq im, seg_bytes im @ t)]"
proof (induction ims)
  case (Cons a ims)
  then show ?case by (cases ims) (simp_all add: dir_of_Nil)
qed simp

section \<open>The invariant of the writer\<close>

text \<open>
  The segments before the current one are on stable storage, the current one at least up to
  \<open>syncedLSN\<close>.
\<close>

definition disk_ok :: "seg_img list \<Rightarrow> seg_img \<Rightarrow> nat \<Rightarrow> sfile list \<Rightarrow> bool" where
  "disk_ok ims cur synced d \<longleftrightarrow> (\<exists>d0 f. d = d0 @ [f] \<and> files_of d0 = dir_of ims []
     \<and> f_seq f = im_seq cur \<and> f_data f = seg_bytes cur
     \<and> (\<forall>g \<in> set d0. f_sync g = length (f_data g)) \<and> (\<forall>g \<in> set d. f_entry g)
     \<and> segHeaderSize + length (frames (im_first cur) (take (synced + 1 - im_first cur) (im_es cur))) \<le> f_sync f)"

text \<open>\<open>pend\<close> are the entries still in the buffer.\<close>

definition log_inv :: "nat \<Rightarrow> seg_img list \<Rightarrow> seg_img \<Rightarrow> entry list \<Rightarrow> Log \<Rightarrow> bool" where
  "log_inv l0 ims cur pend l \<longleftrightarrow>
     log_ok l0 (ims @ [cur\<lparr>im_es := im_es cur @ pend\<rparr>]) \<and> sorted_wrt (<) (map im_seq (ims @ [cur]))
     \<and> disk_ok ims cur (l_syncedLSN l) (l_disk l) \<and> im_seq cur = l_segSeq l
     \<and> l_buf l = frames (l_writtenLSN l + 1) pend
     \<and> l_writtenLSN l + 1 = l0 + length (log_entries (ims @ [cur]))
     \<and> l_nextLSN l = l_writtenLSN l + 1 + length pend \<and> l_lastAppended l + 1 = l_nextLSN l
     \<and> l_syncedLSN l \<le> l_writtenLSN l \<and> (l_closed l \<or> l_open l) \<and> l_fatal l = None"

definition io_failed :: "wal_env \<Rightarrow> Log \<Rightarrow> bool" where
  "io_failed E l \<longleftrightarrow> (\<exists>i < l_tick l. io E i \<noteq> None)"

lemma io_failed_mono: "io_failed E l \<Longrightarrow> l_tick l \<le> l_tick l' \<Longrightarrow> io_failed E l'"
  unfolding io_failed_def by (meson order_less_le_trans)

named_theorems wal_defs \<open>the system calls of the log\<close>
lemmas wal_calls [wal_defs] =
  syscall_def file_Write_def file_Sync_def file_Create_def dir_Sync_def dir_Remove_def f_Write_def f_Sync_def f_Close_def

lemma tick_syscall: "syscall E w g h l = (r, l') \<Longrightarrow> l_tick l \<le> l_tick l'"
  by (auto simp: syscall_def Let_def split: option.splits)

lemma tick_sbind:
  assumes "sbind m g l = (r, l')" and "\<And>r l'. m l = (r, l') \<Longrightarrow> l_tick l \<le> l_tick l'"
    and "\<And>x u r l'. g x u = (r, l') \<Longrightarrow> l_tick u \<le> l_tick l'"
  shows "l_tick l \<le> l_tick l'"
  using assms by (auto simp: sbind_def split: prod.splits res.splits) (metis le_trans)+

lemma tick_files:
  "file_Write E q p l = (r, l') \<Longrightarrow> l_tick l \<le> l_tick l'" "file_Sync E q l = (r, l') \<Longrightarrow> l_tick l \<le> l_tick l'"
  "file_Create E q l = (r, l') \<Longrightarrow> l_tick l \<le> l_tick l'" "dir_Sync E l = (r, l') \<Longrightarrow> l_tick l \<le> l_tick l'"
  "dir_Remove E q l = (r, l') \<Longrightarrow> l_tick l \<le> l_tick l'" "f_Write E p l = (r, l') \<Longrightarrow> l_tick l \<le> l_tick l'"
  "f_Sync E l = (r, l') \<Longrightarrow> l_tick l \<le> l_tick l'" "f_Close E l = (r, l') \<Longrightarrow> l_tick l \<le> l_tick l'"
  by (auto simp: wal_calls Let_def split: option.splits if_splits)

lemma tick_openSegment: "openSegment E q k l = (r, l') \<Longrightarrow> l_tick l \<le> l_tick l'"
  unfolding openSegment_def Let_def
  by (rule tick_sbind, assumption, erule tick_files, rule tick_sbind, assumption, erule tick_files,
      rule tick_sbind, assumption, erule tick_files, rule tick_sbind, assumption, erule tick_files, auto)

lemma tick_rotate: "rotateLocked E k l = (r, l') \<Longrightarrow> l_tick l \<le> l_tick l'"
  unfolding rotateLocked_def Let_def
  by (rule tick_sbind, assumption, erule tick_files)
    (drule tick_sbind, erule tick_files, erule tick_openSegment, simp)

lemma tick_latch [simp]: "l_tick (snd (latch e l)) = l_tick l"
  by (simp add: latch_def)

section \<open>System calls that succeed\<close>

lemma syscall_calm:
  assumes "syscall E w g h l = (r, l')" and "\<not> io_failed E l'"
  shows "r = Ret ()" and "l' = l\<lparr>l_tick := Suc (l_tick l), l_disk := g (l_disk l)\<rparr>"
  using assms by (auto simp: syscall_def io_failed_def Let_def split: option.splits)

lemma calm_sbind:
  assumes "sbind m g l = (r, l')" and "\<not> io_failed E l'"
    and "\<And>x u r l'. g x u = (r, l') \<Longrightarrow> l_tick u \<le> l_tick l'"
    and "\<And>x u. m l = (x, u) \<Longrightarrow> \<not> io_failed E u \<Longrightarrow> x = Ret y \<and> Q u"
  shows "\<exists>u. Q u \<and> g y u = (r, l')"
proof -
  obtain x u where xu: "m l = (x, u)" by fastforce
  have "\<not> io_failed E u"
  proof (cases x)
    case (Ret z)
    with assms(1) xu have "g z u = (r, l')" by simp
    with assms(2,3) show ?thesis using io_failed_mono by blast
  qed (use assms(1,2) xu in auto)
  with assms(1,4) xu show ?thesis by auto
qed

lemma on_file_snoc:
  "q \<notin> f_seq ` set d0 \<Longrightarrow> f_seq f = q \<Longrightarrow> on_file q g (d0 @ [f]) = d0 @ [g f]"
  by (induction d0) (auto simp: on_file_def)

definition fresh_file :: "nat \<Rightarrow> nat \<Rightarrow> int \<Rightarrow> sfile" where
  "fresh_file q k c = \<lparr>f_seq = q, f_data = encodeSegHeader k c, f_sync = segHeaderSize, f_entry = True\<rparr>"

lemma openSegment_calm:
  assumes "openSegment E q k l = (r, l')" and "\<not> io_failed E l'" and "q \<notin> f_seq ` set (l_disk l)"
    and "\<forall>f \<in> set (l_disk l). f_entry f"
  shows "r = Ret () \<and> (\<exists>c. l' = l\<lparr>l_tick := l_tick l + 4, l_open := True, l_segSeq := q, l_segLen := int segHeaderSize,
      l_disk := l_disk l @ [fresh_file q k c]\<rparr>)"
proof -
  have named: "map (f_entry_update (\<lambda>_. True)) (l_disk l) = l_disk l"
    using assms(4) by (intro map_idI) simp
  have io: "io E (l_tick l) = None" "io E (Suc (l_tick l)) = None" "io E (Suc (Suc (l_tick l))) = None"
    "io E (Suc (Suc (Suc (l_tick l)))) = None"
    using assms(1-3)
    by (auto simp: openSegment_def wal_calls sbind_def io_failed_def Let_def split: option.splits if_splits)
  show ?thesis
    using assms(1,3) named
    by (auto simp: openSegment_def wal_calls sbind_def Let_def io on_file_snoc fresh_file_def segHeaderSize_def
        intro!: exI [of _ "now_ms E (Suc (l_tick l))"])
qed

section \<open>Operations keep the invariant\<close>

lemma chained_append:
  "chained l (ims @ ims') \<longleftrightarrow> chained l ims \<and> chained (l + length (log_entries ims)) ims'"
  by (induction ims arbitrary: l) (auto simp: add.assoc)

lemma disk_okE:
  assumes "disk_ok ims cur n d" and "sorted_wrt (<) (map im_seq (ims @ [cur]))"
  obtains d0 f where "d = d0 @ [f]" "files_of d0 = dir_of ims []" "f_seq f = im_seq cur" "f_data f = seg_bytes cur"
    "im_seq cur \<notin> f_seq ` set d0" "\<forall>g \<in> set d0. f_sync g = length (f_data g)" "\<forall>g \<in> set d. f_entry g"
    "segHeaderSize + length (frames (im_first cur) (take (n + 1 - im_first cur) (im_es cur))) \<le> f_sync f"
    "\<forall>q \<in> f_seq ` set d. q \<le> im_seq cur"
proof -
  from assms(1) obtain d0 f where d: "d = d0 @ [f]" "files_of d0 = dir_of ims []" "f_seq f = im_seq cur"
    "f_data f = seg_bytes cur" "\<forall>g \<in> set d0. f_sync g = length (f_data g)" "\<forall>g \<in> set d. f_entry g"
    "segHeaderSize + length (frames (im_first cur) (take (n + 1 - im_first cur) (im_es cur))) \<le> f_sync f"
    by (auto simp: disk_ok_def)
  have "map f_seq d0 = map im_seq ims"
    using arg_cong [OF d(2), of "map fst"] by (simp add: files_of_def comp_def fst_dir_of)
  then have s: "f_seq ` set d0 = im_seq ` set ims" by (metis list.set_map)
  have lt: "\<forall>q \<in> im_seq ` set ims. q < im_seq cur" using assms(2) by (simp add: sorted_wrt_append)
  show thesis
  proof (rule that [OF d(1-4) _ d(5-7)])
    show "im_seq cur \<notin> f_seq ` set d0" using s lt by auto
    show "\<forall>q \<in> f_seq ` set d. q \<le> im_seq cur" using d(1,3) s lt by (auto simp: less_imp_le)
  qed
qed

lemma log_invD:
  assumes "log_inv l0 ims cur pend l"
  shows "log_ok l0 (ims @ [cur\<lparr>im_es := im_es cur @ pend\<rparr>])" and "sorted_wrt (<) (map im_seq (ims @ [cur]))"
    and "disk_ok ims cur (l_syncedLSN l) (l_disk l)" and "im_seq cur = l_segSeq l"
    and "l_buf l = frames (l_writtenLSN l + 1) pend"
    and "l_writtenLSN l + 1 = l0 + length (log_entries (ims @ [cur]))"
    and "l_nextLSN l = l_writtenLSN l + 1 + length pend" and "l_lastAppended l + 1 = l_nextLSN l"
    and "l_syncedLSN l \<le> l_writtenLSN l" and "l_closed l \<or> l_open l" and "l_fatal l = None"
  using assms unfolding log_inv_def by blast+

lemma log_inv_first:
  assumes "log_inv l0 ims cur pend l"
  shows "im_first cur = l0 + length (log_entries ims)" and "chained l0 ims"
  using assms by (simp_all add: log_inv_def log_ok_def chained_append)

lemma seg_bytes_pend:
  assumes "log_inv l0 ims cur pend l"
  shows "seg_bytes cur @ l_buf l = seg_bytes (cur\<lparr>im_es := im_es cur @ pend\<rparr>)"
proof -
  have "l_writtenLSN l + 1 = im_first cur + length (im_es cur)"
    using assms log_inv_first(1) [OF assms] by (simp add: log_inv_def)
  with log_invD(5) [OF assms] show ?thesis by (simp add: seg_bytes_def frames_append)
qed

text \<open>The pending entries are written.\<close>

lemma log_inv_written:
  assumes inv: "log_inv l0 ims cur pend l" and w: "f_Write E (l_buf l) (l\<lparr>l_buf := []\<rparr>) = (r, u)"
    and "\<not> io_failed E u" and "l_open l"
  shows "r = Ret () \<and> log_inv l0 ims (cur\<lparr>im_es := im_es cur @ pend\<rparr>) []
      (u\<lparr>l_writes := a, l_bytesOut := b, l_segLen := c, l_writtenLSN := l_nextLSN l - 1\<rparr>)
    \<and> l_open u \<and> l_segSeq u = l_segSeq l \<and> l_closed u = l_closed l \<and> l_syncedLSN u = l_syncedLSN l \<and> l_nextLSN u = l_nextLSN l"
proof -
  let ?cur = "cur\<lparr>im_es := im_es cur @ pend\<rparr>"
  let ?g = "\<lambda>f. f\<lparr>f_data := f_data f @ l_buf l\<rparr>"
  have sys: "syscall E ''write'' (on_file (l_segSeq l) ?g)
      (\<lambda>n. on_file (l_segSeq l) (\<lambda>f. f\<lparr>f_data := f_data f @ take n (l_buf l)\<rparr>)) (l\<lparr>l_buf := []\<rparr>) = (r, u)"
    using w assms(4) by (simp add: f_Write_def file_Write_def)
  from syscall_calm [OF sys assms(3)]
  have r: "r = Ret ()" and u: "u = l\<lparr>l_buf := [], l_tick := Suc (l_tick l), l_disk := on_file (l_segSeq l) ?g (l_disk l)\<rparr>"
    by simp_all
  note i = log_invD [OF inv]
  from i(3,2) obtain d0 f where d: "l_disk l = d0 @ [f]" "files_of d0 = dir_of ims []" "f_seq f = im_seq cur"
    "f_data f = seg_bytes cur" "im_seq cur \<notin> f_seq ` set d0" "\<forall>g \<in> set d0. f_sync g = length (f_data g)"
    "\<forall>g \<in> set (l_disk l). f_entry g"
    "segHeaderSize + length (frames (im_first cur) (take (l_syncedLSN l + 1 - im_first cur) (im_es cur))) \<le> f_sync f"
    by (rule disk_okE)
  have "l_syncedLSN l + 1 - im_first cur \<le> length (im_es cur)"
    using i(6,9) log_inv_first(1) [OF inv] by simp
  then have "disk_ok ims ?cur (l_syncedLSN l) (on_file (l_segSeq l) ?g (l_disk l))"
    using d seg_bytes_pend [OF inv] i(4)
    by (auto simp: disk_ok_def on_file_snoc intro!: exI [of _ d0] exI [of _ "?g f"])
  moreover have "l_nextLSN l = Suc (l_lastAppended l)" "l_syncedLSN l \<le> l_lastAppended l"
    "l0 + length (log_entries (ims @ [?cur])) = Suc (l_lastAppended l)"
    using i(6-9) by simp_all
  ultimately show ?thesis using i(1,2,4,11) assms(4) unfolding r u by (simp add: log_inv_def)
qed

lemma log_inv_fields:
  "log_inv l0 ims cur pend (l\<lparr>l_fsyncs := a\<rparr>) = log_inv l0 ims cur pend l"
  "log_inv l0 ims cur pend (l\<lparr>l_tick := b\<rparr>) = log_inv l0 ims cur pend l"
  "log_inv l0 ims cur pend (l\<lparr>l_appends := b\<rparr>) = log_inv l0 ims cur pend l"
  by (simp_all add: log_inv_def)

text \<open>The current segment is synced.\<close>

lemma log_inv_synced:
  assumes inv: "log_inv l0 ims cur pend l" and w: "f_Sync E l = (r, u)" and "\<not> io_failed E u" and "l_open l"
    and n: "n \<le> l_writtenLSN l"
  shows "r = Ret () \<and> log_inv l0 ims cur pend (u\<lparr>l_fsyncs := a, l_syncedLSN := n\<rparr>) \<and> l_open u
    \<and> (\<exists>d0 f. l_disk u = d0 @ [f] \<and> f_sync f = length (f_data f))
    \<and> (\<exists>t d. u = l\<lparr>l_tick := t, l_disk := d\<rparr>)"
proof -
  let ?g = "\<lambda>f. f\<lparr>f_sync := length (f_data f)\<rparr>"
  have sys: "syscall E ''fsync'' (on_file (l_segSeq l) ?g) (\<lambda>n d. d) l = (r, u)"
    using w assms(4) by (simp add: f_Sync_def file_Sync_def)
  from syscall_calm [OF sys assms(3)]
  have r: "r = Ret ()" and u: "u = l\<lparr>l_tick := Suc (l_tick l), l_disk := on_file (l_segSeq l) ?g (l_disk l)\<rparr>"
    by simp_all
  note i = log_invD [OF inv]
  from i(3,2) obtain d0 f where d: "l_disk l = d0 @ [f]" "files_of d0 = dir_of ims []" "f_seq f = im_seq cur"
    "f_data f = seg_bytes cur" "im_seq cur \<notin> f_seq ` set d0" "\<forall>g \<in> set d0. f_sync g = length (f_data g)"
    "\<forall>g \<in> set (l_disk l). f_entry g"
    by (rule disk_okE)
  have e: "on_file (l_segSeq l) ?g (l_disk l) = d0 @ [?g f]" using d i(4) by (simp add: on_file_snoc)
  have "length (frames k (take m es)) \<le> length (frames k es)" for k m es
    using frames_append [of k "take m es" "drop m es"] by simp
  then have "disk_ok ims cur n (d0 @ [?g f])"
    using d by (auto simp: disk_ok_def seg_bytes_def segHeaderSize_def)
  with i(1,2,4-8,11) assms(4) n show ?thesis unfolding r u e by (auto simp: log_inv_def)
qed

text \<open>What an operation of the file side leaves alone.\<close>

definition same_ends :: "Log \<Rightarrow> Log \<Rightarrow> bool" where
  "same_ends l l' \<longleftrightarrow> l_nextLSN l' = l_nextLSN l \<and> l_lastAppended l' = l_lastAppended l \<and> l_closed l' = l_closed l
     \<and> l_syncedLSN l \<le> l_syncedLSN l'"

lemma rotate_inv:
  assumes inv: "log_inv l0 ims cur [] l" and "l_open l"
    and rot: "rotateLocked E (l_writtenLSN l + 1) l = (r, l')" and calm: "\<not> io_failed E l'"
  shows "r = Ret () \<and> (\<exists>cur'. log_inv l0 (ims @ [cur]) cur' [] l' \<and> im_es cur' = []) \<and> l_open l'
    \<and> same_ends l l' \<and> l_writtenLSN l' = l_writtenLSN l \<and> l_syncedLSN l' = l_writtenLSN l"
proof -
  let ?k = "l_writtenLSN l + 1"
  let ?set = "\<lambda>u. u\<lparr>l_fsyncs := l_fsyncs u + 1, l_syncedLSN := l_writtenLSN u\<rparr>"
  have "\<exists>u. (log_inv l0 ims cur [] (?set u) \<and> l_open u \<and> (\<exists>d0 f. l_disk u = d0 @ [f] \<and> f_sync f = length (f_data f))
      \<and> (\<exists>t d. u = l\<lparr>l_tick := t, l_disk := d\<rparr>))
    \<and> sbind (f_Close E) (\<lambda>_ l. openSegment E (l_segSeq l + 1) ?k l) (?set u) = (r, l')"
  proof (rule calm_sbind [OF rot [unfolded rotateLocked_def Let_def] calm])
    fix x u r l' assume "sbind (f_Close E) (\<lambda>_ l. openSegment E (l_segSeq l + 1) ?k l) (?set u) = (r, l')"
    then have "l_tick (?set u) \<le> l_tick l'" by (rule tick_sbind) (erule tick_files tick_openSegment)+
    then show "l_tick u \<le> l_tick l'" by simp
  next
    fix x u assume s: "f_Sync E l = (x, u)" "\<not> io_failed E u"
    from log_inv_synced [OF inv s assms(2) order_refl, of "l_fsyncs u + 1"]
    have "x = Ret ()" "log_inv l0 ims cur [] (u\<lparr>l_fsyncs := l_fsyncs u + 1, l_syncedLSN := l_writtenLSN l\<rparr>)" "l_open u"
      "\<exists>d0 f. l_disk u = d0 @ [f] \<and> f_sync f = length (f_data f)" "\<exists>t d. u = l\<lparr>l_tick := t, l_disk := d\<rparr>" by blast+
    moreover from this(5) have "l_writtenLSN u = l_writtenLSN l" by auto
    ultimately show "x = Ret () \<and> log_inv l0 ims cur [] (?set u) \<and> l_open u
        \<and> (\<exists>d0 f. l_disk u = d0 @ [f] \<and> f_sync f = length (f_data f)) \<and> (\<exists>t d. u = l\<lparr>l_tick := t, l_disk := d\<rparr>)"
      by simp
  qed
  then obtain u where u: "log_inv l0 ims cur [] (?set u)" "l_open u" "\<exists>d0 f. l_disk u = d0 @ [f] \<and> f_sync f = length (f_data f)"
      "\<exists>t d. u = l\<lparr>l_tick := t, l_disk := d\<rparr>"
    and run: "sbind (f_Close E) (\<lambda>_ l. openSegment E (l_segSeq l + 1) ?k l) (?set u) = (r, l')" by blast
  obtain t d where ud: "u = l\<lparr>l_tick := t, l_disk := d\<rparr>" using u(4) by blast
  let ?v = "(?set u)\<lparr>l_open := False, l_tick := Suc t\<rparr>"
  have "\<exists>v. v = ?v \<and> openSegment E (l_segSeq v + 1) ?k v = (r, l')"
    by (rule calm_sbind [OF run calm])
      (auto dest: tick_openSegment syscall_calm simp: f_Close_def u(2) ud assms(2))
  then have op: "openSegment E (l_segSeq l + 1) ?k ?v = (r, l')" by (simp add: ud)
  note i = log_invD [OF u(1)]
  have i3: "disk_ok ims cur (l_writtenLSN l) d" using i(3) by (simp add: ud)
  from i3 i(2) obtain d0 f where d: "d = d0 @ [f]" "files_of d0 = dir_of ims []" "f_seq f = im_seq cur"
    "f_data f = seg_bytes cur" "im_seq cur \<notin> f_seq ` set d0" "\<forall>g \<in> set d0. f_sync g = length (f_data g)"
    "\<forall>g \<in> set d. f_entry g" "\<forall>q \<in> f_seq ` set d. q \<le> im_seq cur"
    by (rule disk_okE)
  have sy: "f_sync f = length (f_data f)" using u(3) d(1) by (auto simp: ud)
  have seq: "im_seq cur = l_segSeq l" using i(4) by (simp add: ud)
  have nf: "l_segSeq l + 1 \<notin> f_seq ` set (l_disk ?v)"
  proof
    assume "l_segSeq l + 1 \<in> f_seq ` set (l_disk ?v)"
    then have "l_segSeq l + 1 \<in> f_seq ` set d" by (simp add: ud)
    with d(8) have "l_segSeq l + 1 \<le> im_seq cur" by blast
    then show False using seq by simp
  qed
  have en: "\<forall>f \<in> set (l_disk ?v). f_entry f" using d(7) by (simp add: ud)
  from openSegment_calm [OF op calm nf en] obtain c where r: "r = Ret ()" and
    l': "l' = ?v\<lparr>l_tick := l_tick ?v + 4, l_open := True, l_segSeq := l_segSeq l + 1, l_segLen := int segHeaderSize,
      l_disk := l_disk ?v @ [fresh_file (l_segSeq l + 1) ?k c]\<rparr>"
    by blast
  let ?new = "\<lparr>im_seq = l_segSeq l + 1, im_first = ?k, im_created = c, im_es = []\<rparr>"
  have w: "?k = l0 + length (log_entries (ims @ [cur]))" using i(6) by (simp add: ud)
  have "disk_ok (ims @ [cur]) ?new (l_writtenLSN l) (d @ [fresh_file (l_segSeq l + 1) ?k c])"
    unfolding disk_ok_def
    by (rule exI [of _ d], rule exI [of _ "fresh_file (l_segSeq l + 1) ?k c"])
      (use d sy in \<open>auto simp: fresh_file_def seg_bytes_def dir_of_Nil\<close>)
  moreover have "log_ok l0 ((ims @ [cur]) @ [?new])" using i(1) w by (simp add: log_ok_def chained_append)
  moreover have "sorted_wrt (<) (map im_seq ((ims @ [cur]) @ [?new]))"
    using i(2) seq by (auto simp: sorted_wrt_append)
  ultimately have "log_inv l0 (ims @ [cur]) ?new [] l'"
    using i(5,7-9) log_invD(5,7,8,11) [OF inv] w l' by (simp add: log_inv_def ud)
  moreover have "same_ends l l'" "l_open l'" "l_writtenLSN l' = l_writtenLSN l" "l_syncedLSN l' = l_writtenLSN l"
    using l' log_invD(9) [OF inv] by (simp_all add: same_ends_def ud)
  ultimately show ?thesis using r by auto
qed

text \<open>\<open>es\<close> are the entries in the files, \<open>pend\<close> those in the buffer.\<close>

definition holds :: "nat \<Rightarrow> entry list \<Rightarrow> entry list \<Rightarrow> Log \<Rightarrow> bool" where
  "holds l0 es pend l \<longleftrightarrow> (\<exists>ims cur. log_inv l0 ims cur pend l \<and> log_entries (ims @ [cur]) = es)"

lemma holdsI: "log_inv l0 ims cur pend l \<Longrightarrow> log_entries (ims @ [cur]) = es \<Longrightarrow> holds l0 es pend l"
  unfolding holds_def by blast

lemma holds_ends:
  assumes "holds l0 es pend l"
  shows "l_nextLSN l = l0 + length es + length pend" and "l_lastAppended l + 1 = l_nextLSN l"
    and "l_writtenLSN l + 1 = l0 + length es" and "l_syncedLSN l \<le> l_writtenLSN l" and "0 < l0"
    and "l_buf l = frames (l_writtenLSN l + 1) pend" and "l_closed l \<or> l_open l" and "l_fatal l = None"
  using assms unfolding holds_def by (auto simp: log_inv_def log_ok_def)

lemma frames_Nil_iff [simp]: "frames k es = [] \<longleftrightarrow> es = []"
  by (cases es) auto

lemma drain_inv:
  assumes h: "holds l0 es pend l" and open_l: "l_open l" and run: "drainLocked E l = (r, l')" and calm: "\<not> io_failed E l'"
  shows "r = Ret (l_lastAppended l) \<and> holds l0 (es @ pend) [] l' \<and> l_open l' \<and> same_ends l l' \<and> l_writtenLSN l' = l_lastAppended l"
proof (cases "pend = []")
  case True
  with h run holds_ends [OF h] open_l show ?thesis by (auto simp: drainLocked_def same_ends_def)
next
  case False
  have buf: "l_buf l \<noteq> []" using holds_ends(6) [OF h] False by simp
  obtain ims cur where inv: "log_inv l0 ims cur pend l" "log_entries (ims @ [cur]) = es" using h by (auto simp: holds_def)
  let ?cur = "cur\<lparr>im_es := im_es cur @ pend\<rparr>"
  have es: "log_entries (ims @ [?cur]) = es @ pend" using inv(2) by simp
  obtain x u where w: "f_Write E (l_buf l) (l\<lparr>l_buf := []\<rparr>) = (x, u)" by fastforce
  let ?v = "u\<lparr>l_writes := l_writes u + 1, l_bytesOut := l_bytesOut u + length (l_buf l),
      l_segLen := l_segLen u + int (length (l_buf l)), l_writtenLSN := l_nextLSN l - 1\<rparr>"
  have next_LSN: "l_nextLSN l - 1 = l_lastAppended l" using holds_ends(2) [OF h] by simp
  have "l_tick u \<le> l_tick l'"
  proof (cases x)
    case (Ret y)
    with run w buf show ?thesis
      by (auto simp: drainLocked_def Let_def sbind_def split: if_splits prod.splits res.splits dest!: tick_rotate)
  qed (use run w buf in \<open>auto simp: drainLocked_def latch_def\<close>)
  then have "\<not> io_failed E u" using calm io_failed_mono by blast
  from log_inv_written [OF inv(1) w this open_l]
  have v: "x = Ret ()" "log_inv l0 ims ?cur [] ?v" "l_open ?v" "same_ends l ?v"
    using next_LSN holds_ends(2) [OF h] by (auto simp: same_ends_def log_inv_def)
  show ?thesis
  proof (cases "l_segLen ?v \<ge> wo_SegmentSize E")
    case False
    with run w buf v(1) have "r = Ret (l_nextLSN l - 1)" "l' = ?v" by (auto simp: drainLocked_def Let_def)
    with v next_LSN holdsI [OF v(2) es] show ?thesis by simp
  next
    case True
    have wr: "l_writtenLSN ?v + 1 = l_nextLSN l - 1 + 1" by simp
    from True run w buf v(1) obtain y where
      rot: "rotateLocked E (l_writtenLSN ?v + 1) ?v = (y, l')" and r: "r = bind_res y (\<lambda>_. Ret (l_nextLSN l - 1))"
      unfolding wr
      by (cases "rotateLocked E (l_nextLSN l - 1 + 1) ?v"; cases "fst (rotateLocked E (l_nextLSN l - 1 + 1) ?v)")
        (auto simp: drainLocked_def Let_def)
    from rotate_inv [OF v(2,3) rot calm] obtain cur' where
      c: "y = Ret ()" "log_inv l0 (ims @ [?cur]) cur' [] l'" "im_es cur' = []" "l_open l'" "same_ends ?v l'"
      "l_writtenLSN l' = l_writtenLSN ?v" by blast
    have "log_entries ((ims @ [?cur]) @ [cur']) = es @ pend" using es c(3) by simp
    with holdsI [OF c(2)] have "holds l0 (es @ pend) [] l'" by blast
    moreover have "same_ends l l'" using v(4) c(5) by (simp add: same_ends_def)
    ultimately show ?thesis using r c next_LSN by simp
  qed
qed

lemma tick_drain: "drainLocked E l = (r, l') \<Longrightarrow> l_tick l \<le> l_tick l'"
  by (auto simp: drainLocked_def latch_def sbind_def Let_def split: if_splits prod.splits res.splits
      dest!: tick_files tick_rotate)

lemma sync_inv:
  assumes h: "holds l0 es pend l" and open_l: "l_open l" and run: "syncLocked E l = (r, l')" and calm: "\<not> io_failed E l'"
  shows "r = Ret () \<and> holds l0 (es @ pend) [] l' \<and> l_open l' \<and> same_ends l l' \<and> l_syncedLSN l' = l_lastAppended l"
proof -
  let ?g = "\<lambda>upto l.
       let upto = (if upto = 0 then l_writtenLSN l else upto) in
       if l_syncedLSN l \<ge> upto then (Ret (), l)
       else
         case f_Sync E l of
           (Ret _, l) \<Rightarrow> (Ret (), l\<lparr>l_fsyncs := l_fsyncs l + 1, l_syncedLSN := upto\<rparr>)
         | (_, l) \<Rightarrow> latch (OtherErr ''wal: fsync'') l"
  have "\<exists>u. (holds l0 (es @ pend) [] u \<and> l_open u \<and> same_ends l u \<and> l_writtenLSN u = l_lastAppended l) \<and> ?g (l_lastAppended l) u = (r, l')"
  proof (rule calm_sbind [OF run [unfolded syncLocked_def] calm])
    fix x u r l' assume "?g x u = (r, l')"
    then show "l_tick u \<le> l_tick l'"
      by (auto simp: latch_def Let_def split: if_splits prod.splits res.splits dest!: tick_files)
  qed (use drain_inv [OF h open_l] in blast)
  then obtain u where u: "holds l0 (es @ pend) [] u" "l_open u" "same_ends l u" "l_writtenLSN u = l_lastAppended l"
    and g: "?g (l_lastAppended l) u = (r, l')" by blast
  note e = holds_ends [OF u(1)]
  show ?thesis
  proof (cases "l_syncedLSN u \<ge> l_lastAppended l")
    case True
    with g u e(4) show ?thesis by (auto simp: Let_def split: if_splits)
  next
    case False
    obtain x v where s: "f_Sync E u = (x, v)" by fastforce
    have g': "(case x of Ret _ \<Rightarrow> (Ret (), v\<lparr>l_fsyncs := l_fsyncs v + 1, l_syncedLSN := l_lastAppended l\<rparr>)
        | _ \<Rightarrow> latch (OtherErr ''wal: fsync'') v) = (r, l')"
      using g False u(4) s by (auto simp: Let_def split: if_splits res.splits)
    then have "l_tick v = l_tick l'" by (auto simp: latch_def split: res.splits)
    then have nf: "\<not> io_failed E v" using calm by (simp add: io_failed_def)
    obtain ims cur where inv: "log_inv l0 ims cur [] u" "log_entries (ims @ [cur]) = es @ pend"
      using u(1) by (auto simp: holds_def)
    from log_inv_synced [OF inv(1) s nf u(2) eq_refl [OF u(4) [symmetric]]] obtain t d where
      v: "x = Ret ()" "\<And>a. log_inv l0 ims cur [] (v\<lparr>l_fsyncs := a, l_syncedLSN := l_lastAppended l\<rparr>)" "l_open v"
      "v = u\<lparr>l_tick := t, l_disk := d\<rparr>" by blast
    from g' v(1) have l': "r = Ret ()" "l' = v\<lparr>l_fsyncs := l_fsyncs v + 1, l_syncedLSN := l_lastAppended l\<rparr>" by auto
    moreover have "same_ends l l'" using u(3) False l'(2) v(4) by (simp add: same_ends_def)
    ultimately show ?thesis using holdsI [OF v(2) inv(2)] v(3) by simp
  qed
qed

text \<open>All entries of the log, written or not.\<close>

definition content :: "nat \<Rightarrow> entry list \<Rightarrow> Log \<Rightarrow> bool" where
  "content l0 es l \<longleftrightarrow> (\<exists>w p. holds l0 w p l \<and> w @ p = es)"

lemma contentI: "holds l0 w p l \<Longrightarrow> w @ p = es \<Longrightarrow> content l0 es l"
  unfolding content_def by blast

lemma tick_ops:
  "syncLocked E l = (ru, l') \<Longrightarrow> l_tick l \<le> l_tick l'"
  "Flush E l = (ru, l') \<Longrightarrow> l_tick l \<le> l_tick l'"
  "Sync E lsn l = (ru, l') \<Longrightarrow> l_tick l \<le> l_tick l'"
  "SyncAll E l = (ru, l') \<Longrightarrow> l_tick l \<le> l_tick l'"
  "Log_Close E l = (ru, l') \<Longrightarrow> l_tick l \<le> l_tick l'"
  "log_append E typ payload l = (rn, l') \<Longrightarrow> l_tick l \<le> l_tick l'"
proof -
  show sl: "l_tick l \<le> l_tick l'" if "syncLocked E l = (ru, l')" for E l ru l'
    using that unfolding syncLocked_def
    by (rule tick_sbind) (erule tick_drain, auto simp: latch_def Let_def split: if_splits prod.splits res.splits dest!: tick_files)
  show fl: "l_tick l \<le> l_tick l'" if "Flush E l = (ru, l')" for E l ru l'
    using that by (auto simp: Flush_def sbind_def split: if_splits prod.splits res.splits dest!: tick_drain)
  show "Sync E lsn l = (ru, l') \<Longrightarrow> l_tick l \<le> l_tick l'"
    by (auto simp: Sync_def split: if_splits dest!: sl)
  show "SyncAll E l = (ru, l') \<Longrightarrow> l_tick l \<le> l_tick l'"
    by (auto simp: SyncAll_def split: if_splits dest!: sl)
  have cl: "l_tick u \<le> l_tick (snd (f_Close E u))" for u
    using tick_files(8) by (metis prod.collapse)
  show "l_tick l \<le> l_tick l'" if c: "Log_Close E l = (ru, l')"
  proof (cases "l_closed l")
    case False
    obtain x u where d: "drainLocked E (l\<lparr>l_closed := True\<rparr>) = (x, u)" by fastforce
    obtain y v where s: "f_Sync E u = (y, v)" by fastforce
    have "l_tick u \<le> l_tick l'"
      using c False d s tick_files(7) [OF s] cl [of u] cl [of v] tick_files(8) [of E "v\<lparr>l_syncedLSN := l_writtenLSN v\<rparr>" ru l']
      by (auto simp: Log_Close_def split: res.splits)
    with tick_drain [OF d] show ?thesis by simp
  qed (use c in \<open>simp add: Log_Close_def\<close>)
  show "log_append E typ payload l = (rn, l') \<Longrightarrow> l_tick l \<le> l_tick l'"
    by (auto simp: log_append_def Let_def sbind_def split: if_splits option.splits prod.splits res.splits dest!: fl)
qed

lemma next_syscall: "syscall E a b c l = (r, l') \<Longrightarrow> l_nextLSN l' = l_nextLSN l"
  by (auto simp: syscall_def Let_def split: option.splits)

lemma next_files:
  "f_Write E p l = (r, l') \<Longrightarrow> l_nextLSN l' = l_nextLSN l" "f_Sync E l = (r, l') \<Longrightarrow> l_nextLSN l' = l_nextLSN l"
  "f_Close E l = (r, l') \<Longrightarrow> l_nextLSN l' = l_nextLSN l"
  by (auto simp: f_Write_def file_Write_def f_Sync_def file_Sync_def f_Close_def split: if_splits dest!: next_syscall)

lemma next_drain: "drainLocked E l = (r, l') \<Longrightarrow> l_nextLSN l' = l_nextLSN l"
proof -
  have op: "l_nextLSN u = l_nextLSN w" if "openSegment E q k w = (x, u)" for q k w x u
    using that by (auto simp: openSegment_def wal_calls sbind_def Let_def split: option.splits if_splits)
  have "l_nextLSN u = l_nextLSN w" if "rotateLocked E k w = (x, u)" for k w x u
    using that by (auto simp: rotateLocked_def sbind_def Let_def split: prod.splits res.splits dest!: next_files op)
  then show "drainLocked E l = (r, l') \<Longrightarrow> l_nextLSN l' = l_nextLSN l"
    by (fastforce simp: drainLocked_def latch_def sbind_def Let_def split: if_splits prod.splits res.splits dest!: next_files)
qed

lemma next_ops:
  "syncLocked E l = (ru, l') \<Longrightarrow> l_nextLSN l' = l_nextLSN l"
  "Flush E l = (ru, l') \<Longrightarrow> l_nextLSN l' = l_nextLSN l"
  "Sync E lsn l = (ru, l') \<Longrightarrow> l_nextLSN l' = l_nextLSN l"
  "SyncAll E l = (ru, l') \<Longrightarrow> l_nextLSN l' = l_nextLSN l"
  "Log_Close E l = (ru, l') \<Longrightarrow> l_nextLSN l' = l_nextLSN l"
  "log_append E typ payload l = (rn, l') \<Longrightarrow> l_nextLSN l \<le> l_nextLSN l'"
proof -
  show sl: "l_nextLSN l' = l_nextLSN l" if "syncLocked E l = (ru, l')" for E l ru l'
    using that
    by (auto simp: syncLocked_def sbind_def latch_def Let_def split: if_splits prod.splits res.splits dest!: next_drain next_files)
  show fl: "l_nextLSN l' = l_nextLSN l" if "Flush E l = (ru, l')" for E l ru l'
    using that by (auto simp: Flush_def sbind_def split: if_splits prod.splits res.splits dest!: next_drain)
  show "Sync E lsn l = (ru, l') \<Longrightarrow> l_nextLSN l' = l_nextLSN l"
    by (auto simp: Sync_def split: if_splits dest!: sl)
  show "SyncAll E l = (ru, l') \<Longrightarrow> l_nextLSN l' = l_nextLSN l"
    by (auto simp: SyncAll_def split: if_splits dest!: sl)
  have cl: "l_nextLSN (snd (f_Close E u)) = l_nextLSN u" for u
    using next_files(3) by (metis prod.collapse)
  show "Log_Close E l = (ru, l') \<Longrightarrow> l_nextLSN l' = l_nextLSN l"
    by (auto simp: Log_Close_def cl split: if_splits prod.splits res.splits dest!: next_drain next_files)
  show "log_append E typ payload l = (rn, l') \<Longrightarrow> l_nextLSN l \<le> l_nextLSN l'"
    by (auto simp: log_append_def Let_def sbind_def split: if_splits option.splits prod.splits res.splits dest!: fl)
qed

lemma Flush_inv:
  assumes h: "holds l0 es pend l" and run: "Flush E l = (r, l')" and calm: "\<not> io_failed E l'"
  shows "if l_closed l then r = Fail ErrClosed \<and> l' = l
    else r = Ret () \<and> holds l0 (es @ pend) [] l' \<and> same_ends l l'"
proof (cases "l_closed l \<or> l_lastAppended l \<le> l_writtenLSN l")
  case True
  have "pend = []" if "\<not> l_closed l" using that True holds_ends(1-3) [OF h] by (cases pend) simp_all
  with True h run show ?thesis by (auto simp: Flush_def same_ends_def)
next
  case False
  then have o: "l_open l" using holds_ends(7) [OF h] by simp
  from False run obtain x where d: "drainLocked E l = (x, l')" and r: "r = bind_res x (\<lambda>_. Ret ())"
    by (cases "drainLocked E l"; cases "fst (drainLocked E l)") (auto simp: Flush_def)
  from drain_inv [OF h o d calm] r False show ?thesis by simp
qed

lemma Sync_inv:
  assumes h: "holds l0 es pend l" and run: "Sync E lsn l = (r, l')" and calm: "\<not> io_failed E l'"
  shows "if l_closed l then r = Fail ErrClosed \<and> l' = l
    else r = Ret () \<and> content l0 (es @ pend) l' \<and> same_ends l l'
      \<and> min lsn (l_lastAppended l) \<le> l_syncedLSN l'"
proof (cases "l_closed l \<or> l_syncedLSN l \<ge> lsn")
  case True
  with h run show ?thesis by (auto simp: Sync_def same_ends_def intro: contentI)
next
  case False
  then have o: "l_open l" using holds_ends(7) [OF h] by simp
  from False run have "syncLocked E l = (r, l')" by (simp add: Sync_def)
  from sync_inv [OF h o this calm] False show ?thesis by (auto intro: contentI)
qed

lemma SyncAll_inv:
  assumes h: "holds l0 es pend l" and run: "SyncAll E l = (r, l')" and calm: "\<not> io_failed E l'"
  shows "if l_closed l then r = Fail ErrClosed \<and> l' = l
    else r = Ret () \<and> holds l0 (es @ pend) [] l' \<and> same_ends l l' \<and> l_syncedLSN l' = l_lastAppended l"
  using run sync_inv [OF h _ _ calm] holds_ends(7) [OF h] by (auto simp: SyncAll_def split: if_splits)

lemma append_inv:
  assumes h: "holds l0 es pend l" and run: "log_append E (entry_type e) (entry_payload e) l = (r, l')"
    and calm: "\<not> io_failed E l'" and e: "fits e" and bound: "l_nextLSN l' \<le> MaxUint64"
  shows "if l_closed l then r = Fail ErrClosed \<and> l' = l
    else r = Ret (l_nextLSN l) \<and> content l0 (es @ pend @ [e]) l'
      \<and> l_closed l' = l_closed l \<and> l_nextLSN l' = l_nextLSN l + 1 \<and> l_syncedLSN l \<le> l_syncedLSN l'"
proof (cases "l_closed l")
  case True
  with run show ?thesis by (simp add: log_append_def)
next
  case False
  let ?v = "l\<lparr>l_nextLSN := l_nextLSN l + 1, l_buf := appendRecord (l_buf l) (entry_type e) (l_nextLSN l) (entry_payload e),
      l_lastAppended := l_nextLSN l, l_appends := l_appends l + 1\<rparr>"
  obtain ims cur where inv: "log_inv l0 ims cur pend l" "log_entries (ims @ [cur]) = es" using h by (auto simp: holds_def)
  note i = log_invD [OF inv(1)]
  have nx: "l_nextLSN l' = l_nextLSN l + 1"
    using run False i(11)
    by (auto simp: log_append_def Let_def sbind_def split: if_splits prod.splits res.splits dest!: next_ops(2))
  have b1: "l_buf ?v = frames (l_writtenLSN ?v + 1) (pend @ [e])"
    using i(5,7) by (simp add: appendRecord_def frames_append frame_def Let_def)
  have b2: "log_ok l0 (ims @ [cur\<lparr>im_es := im_es cur @ pend @ [e]\<rparr>])"
    using i(1,6,7) bound nx e by (auto simp: log_ok_def chained_append)
  have b3: "l_nextLSN ?v = l_writtenLSN ?v + 1 + length (pend @ [e])" using i(7) by simp
  have "log_inv l0 ims cur (pend @ [e]) ?v"
    unfolding log_inv_def
    by (intro conjI b1 b2 b3) (insert i(2,3,4,6,9,10,11), simp_all)
  from holdsI [OF this inv(2)] have v: "holds l0 es (pend @ [e]) ?v" .
  show ?thesis
  proof (cases "int (length (l_buf ?v)) \<ge> wo_MaxBufferBytes E")
    case True
    from True run False i(11) obtain x where f: "Flush E ?v = (x, l')" and r: "r = bind_res x (\<lambda>_. Ret (l_nextLSN l))"
      by (cases "Flush E ?v"; cases "fst (Flush E ?v)") (auto simp: log_append_def Let_def)
    from Flush_inv [OF v f calm] r False nx show ?thesis
      by (auto simp: same_ends_def intro: contentI)
  next
    case False': False
    with run False i(11) have "r = Ret (l_nextLSN l)" "l' = ?v" by (auto simp: log_append_def Let_def)
    with v False show ?thesis by (auto intro: contentI)
  qed
qed

lemma Close_inv:
  assumes h: "holds l0 es pend l" and run: "Log_Close E l = (r, l')" and calm: "\<not> io_failed E l'"
  shows "r = Ret () \<and> content l0 (es @ pend) l' \<and> l_closed l' \<and> l_syncedLSN l \<le> l_syncedLSN l'
    \<and> (l_closed l \<or> l_syncedLSN l' = l_lastAppended l)"
proof (cases "l_closed l")
  case True
  with h run show ?thesis by (auto simp: Log_Close_def intro: contentI)
next
  case False
  then have o: "l_open l" using holds_ends(7) [OF h] by simp
  have h': "holds l0 es pend (l\<lparr>l_closed := True\<rparr>)"
    using h o by (auto simp: holds_def log_inv_def)
  obtain x u where d: "drainLocked E (l\<lparr>l_closed := True\<rparr>) = (x, u)" by fastforce
  obtain y v where s: "f_Sync E u = (y, v)" by fastforce
  have cl: "l_tick w \<le> l_tick (snd (f_Close E w))" for w
    using tick_files(8) by (metis prod.collapse)
  have "l_tick u \<le> l_tick l'"
    using run False d s tick_files(7) [OF s] cl [of u] cl [of v] tick_files(8) [of E "v\<lparr>l_syncedLSN := l_writtenLSN v\<rparr>" r l']
    by (auto simp: Log_Close_def split: res.splits)
  then have "\<not> io_failed E u" using calm io_failed_mono by blast
  from drain_inv [OF h' _ d this] o have u: "x = Ret (l_lastAppended l)" "holds l0 (es @ pend) [] u" "l_open u"
    "l_closed u" "l_writtenLSN u = l_lastAppended l" "l_syncedLSN l \<le> l_syncedLSN u" by (auto simp: same_ends_def)
  have "l_tick v \<le> l_tick l'"
    using run False d u(1) s cl [of v] tick_files(8) [of E "v\<lparr>l_syncedLSN := l_writtenLSN v\<rparr>" r l']
    by (auto simp: Log_Close_def split: res.splits)
  then have nf: "\<not> io_failed E v" using calm io_failed_mono by blast
  obtain ims cur where inv: "log_inv l0 ims cur [] u" "log_entries (ims @ [cur]) = es @ pend"
    using u(2) by (auto simp: holds_def)
  from log_inv_synced [OF inv(1) s nf u(3) order_refl] obtain t d' where
    v: "y = Ret ()" "\<And>a. log_inv l0 ims cur [] (v\<lparr>l_fsyncs := a, l_syncedLSN := l_writtenLSN u\<rparr>)" "l_open v"
    "v = u\<lparr>l_tick := t, l_disk := d'\<rparr>" by blast
  let ?w = "v\<lparr>l_syncedLSN := l_writtenLSN v\<rparr>"
  from v(2) [of "l_fsyncs v"] v(4) have w: "log_inv l0 ims cur [] ?w" by simp
  from run False d u(1) s v(1) have "f_Close E ?w = (r, l')" by (auto simp: Log_Close_def)
  then have sys: "syscall E ''close'' (\<lambda>d. d) (\<lambda>n d. d) (?w\<lparr>l_open := False\<rparr>) = (r, l')"
    using v(3) by (simp add: f_Close_def)
  from syscall_calm [OF sys calm] have l': "r = Ret ()" "l' = ?w\<lparr>l_open := False, l_tick := Suc (l_tick v)\<rparr>" by simp_all
  from w u(4) v(4) log_invD(2) [OF w] have "log_inv l0 ims cur [] l'" unfolding l'(2) by (simp add: log_inv_def)
  from contentI [OF holdsI [OF this inv(2)]] l' u v(4) holds_ends(4) [OF u(2)] show ?thesis by simp
qed

section \<open>After a crash\<close>

lemma survives_full: "survives f g \<Longrightarrow> f_sync f = length (f_data f) \<Longrightarrow> g = (f_seq f, f_data f)"
  by (cases g) (auto simp: survives_def)

lemma crash_full: "crash d fs \<Longrightarrow> \<forall>f \<in> set d. f_sync f = length (f_data f) \<Longrightarrow> fs = files_of d"
  unfolding crash_def
proof (induction d fs rule: list_all2_induct)
  case (Cons f d g fs)
  then show ?case using survives_full [of f g] by simp
qed simp

text \<open>What a crash leaves is a log that starts with everything synced, with a torn record at most.\<close>

definition crash_img :: "nat \<Rightarrow> entry list \<Rightarrow> nat \<Rightarrow> files \<Rightarrow> bool" where
  "crash_img l0 es n fs \<longleftrightarrow> (\<exists>ims t. fs = dir_of ims t \<and> (t = [] \<or> torn t) \<and> log_ok l0 ims
     \<and> sorted_wrt (<) (map im_seq ims) \<and> log_entries ims = es \<and> n \<le> length es)"

lemma crash_imgI:
  assumes h: "holds l0 w p l" and c: "crash (l_disk l) fs"
  shows "\<exists>m \<le> length w. crash_img l0 (take m w) (l_syncedLSN l + 1 - l0) fs"
proof -
  obtain ims cur where inv: "log_inv l0 ims cur p l" and w: "log_entries (ims @ [cur]) = w"
    using h by (auto simp: holds_def)
  note i = log_invD [OF inv]
  from i(3,2) obtain d0 f where d: "l_disk l = d0 @ [f]" "files_of d0 = dir_of ims []" "f_seq f = im_seq cur"
    "f_data f = seg_bytes cur" "\<forall>g \<in> set d0. f_sync g = length (f_data g)"
    "segHeaderSize + length (frames (im_first cur) (take (l_syncedLSN l + 1 - im_first cur) (im_es cur))) \<le> f_sync f"
    by (rule disk_okE)
  from c obtain fs0 g where fs: "fs = fs0 @ [g]" "crash d0 fs0" "survives f g"
    by (auto simp: d(1) crash_def list_all2_append1 list_all2_Cons1)
  from fs(3) obtain n where n: "f_sync f \<le> n" "g = (im_seq cur, take n (seg_bytes cur))"
    by (cases g) (auto simp: survives_def d(3,4))
  have fs0: "fs0 = dir_of ims []" using crash_full [OF fs(2) d(5)] d(2) by simp
  have first: "im_first cur = l0 + length (log_entries ims)" by (rule log_inv_first(1) [OF inv])
  have fit: "\<forall>e \<in> set (im_es cur). fits e" "im_first cur + length (im_es cur) \<le> MaxUint64"
    using i(1) first by (auto simp: log_ok_def)
  from frames_take [OF fit, of "n - segHeaderSize"] obtain j t where
    j: "j \<le> length (im_es cur)" "take (n - segHeaderSize) (frames (im_first cur) (im_es cur)) = frames (im_first cur) (take j (im_es cur)) @ t"
    "t = [] \<or> torn t"
    "\<And>i. i \<le> length (im_es cur) \<Longrightarrow> length (frames (im_first cur) (take i (im_es cur))) \<le> n - segHeaderSize \<Longrightarrow> i \<le> j"
    by blast
  let ?cur = "cur\<lparr>im_es := take j (im_es cur)\<rparr>"
  have "take n (seg_bytes cur) = seg_bytes ?cur @ t"
    using j(2) d(6) n(1) by (simp add: seg_bytes_def segHeaderSize_def)
  then have fsd: "fs = dir_of (ims @ [?cur]) t" using fs(1) fs0 n(2) by (simp add: dir_of_snoc)
  let ?i = "l_syncedLSN l + 1 - im_first cur"
  have il: "?i \<le> length (im_es cur)" using i(6,9) first by simp
  with j(4) [of ?i] d(6) n(1) have ij: "?i \<le> j" by simp
  have ok: "log_ok l0 (ims @ [?cur])"
    using i(1) j(1) by (auto simp: log_ok_def chained_append dest: in_set_takeD)
  have so: "sorted_wrt (<) (map im_seq (ims @ [?cur]))" using i(2) by simp
  have le: "log_entries (ims @ [?cur]) = take (length (log_entries ims) + j) w" using w j(1) by auto
  have n': "l_syncedLSN l + 1 - l0 \<le> length (log_entries ims) + j" using ij first by simp
  have m: "length (log_entries ims) + j \<le> length w" using j(1) w by auto
  with n' have lm: "l_syncedLSN l + 1 - l0 \<le> length (take (length (log_entries ims) + j) w)" by simp
  have "crash_img l0 (take (length (log_entries ims) + j) w) (l_syncedLSN l + 1 - l0) fs"
    unfolding crash_img_def
    by (rule exI [of _ "ims @ [?cur]"], rule exI [of _ t]) (intro conjI fsd j(3) ok so le lm)
  with m show ?thesis by blast
qed

lemma crash_holds:
  assumes h: "holds l0 w p l" and c: "crash (l_disk l) fs" and ap: "accepting ap"
  shows "\<exists>n res fs'. l_syncedLSN l + 1 - l0 \<le> n \<and> n \<le> length w
    \<and> Replay calm fs aft ap a = (Ret (), res, apply_all ap (after aft l0 (take n w)) a, fs')"
proof -
  from crash_imgI [OF h c] obtain m ims t where m: "m \<le> length w" "fs = dir_of ims t" "t = [] \<or> torn t" "log_ok l0 ims"
    "sorted_wrt (<) (map im_seq ims)" "log_entries ims = take m w" "l_syncedLSN l + 1 - l0 \<le> m"
    by (auto simp: crash_img_def)
  from Replay_dir_of [OF m(4,5) ap m(3), of aft a] m show ?thesis by auto
qed

lemma kill_holds:
  assumes h: "holds l0 w p l" and ap: "accepting ap"
  shows "\<exists>res. Replay calm (files_of (l_disk l)) aft ap a = (Ret (), res, apply_all ap (after aft l0 w) a, files_of (l_disk l))
    \<and> LastLSN res = (if w = [] then aft else l_writtenLSN l)"
proof -
  obtain ims cur where inv: "log_inv l0 ims cur p l" and w: "log_entries (ims @ [cur]) = w"
    using h by (auto simp: holds_def)
  note i = log_invD [OF inv]
  from i(3,2) obtain d0 f where d: "l_disk l = d0 @ [f]" "files_of d0 = dir_of ims []" "f_seq f = im_seq cur"
    "f_data f = seg_bytes cur" by (rule disk_okE)
  have fs: "files_of (l_disk l) = dir_of (ims @ [cur]) []" using d by (simp add: dir_of_snoc)
  have ok: "log_ok l0 (ims @ [cur])" using i(1) by (auto simp: log_ok_def chained_append)
  from Replay_dir_of [OF ok i(2) ap, of "[]" aft a] obtain res where
    "Replay calm (files_of (l_disk l)) aft ap a = (Ret (), res, apply_all ap (after aft l0 w) a, files_of (l_disk l))"
    "reports l0 (length w) (length (after aft l0 w)) (ims @ [cur] \<noteq> [] \<and> torn []) (ReplayResult0 aft) res"
    unfolding fs w by blast
  with holds_ends(3) [OF h] show ?thesis by (auto simp: reports_def ReplayResult0_def)
qed

section \<open>Opening and trimming\<close>

text \<open>A directory as recovery leaves it, on stable storage.\<close>

definition stable_dir :: "nat \<Rightarrow> seg_img list \<Rightarrow> sfile list \<Rightarrow> bool" where
  "stable_dir l0 ims d \<longleftrightarrow> log_ok l0 ims \<and> sorted_wrt (<) (map im_seq ims) \<and> files_of d = dir_of ims []
     \<and> (\<forall>f \<in> set d. f_sync f = length (f_data f) \<and> f_entry f)"

text \<open>Opening starts a segment numbered after all others.\<close>

lemma Open_next:
  assumes ok: "log_ok l0 ims" and so: "sorted_wrt (<) (map im_seq ims)" and fs: "files_of d = dir_of ims []"
  obtains q where "Open E startLSN d =
      (case openSegment E q (startLSN + 1) (new_Log d 0 q startLSN) of
         (Ret _, l) \<Rightarrow> (Ret l, l_disk l) | (Fail e, l) \<Rightarrow> (Fail e, l_disk l) | (Panic, l) \<Rightarrow> (Panic, l_disk l))"
    and "q \<notin> f_seq ` set d" and "\<forall>im \<in> set ims. im_seq im < q"
proof -
  let ?q = "if ims = [] then 1 else im_seq (last ims) + 1"
  have ls: "listSegments (files_of d) = Ret (map info_of (dir_of ims []))"
    using listSegments_dir_of [OF ok] sorted_wrt_less_distinct [OF so] fs by simp
  have q: "(if map info_of (dir_of ims []) = [] then 1 else seg_seq (last (map info_of (dir_of ims []))) + 1) = ?q"
    by (auto simp: dir_of_Nil last_map)
  have "map f_seq d = map im_seq ims"
    using arg_cong [OF fs, of "map fst"] by (simp add: files_of_def comp_def fst_dir_of)
  then have fs: "f_seq ` set d = im_seq ` set ims" by (metis list.set_map)
  have lt: "im_seq im < ?q" if "im \<in> set ims" for im
  proof -
    from that have "ims \<noteq> []" by auto
    then obtain ims' z where "ims = ims' @ [z]" by (metis rev_exhaust)
    with so that show ?thesis by (auto simp: sorted_wrt_append less_Suc_eq)
  qed
  have nf: "?q \<notin> f_seq ` set d"
  proof
    assume "?q \<in> f_seq ` set d"
    then have "?q \<in> im_seq ` set ims" unfolding fs .
    then obtain im where "im \<in> set ims" "?q = im_seq im" by (rule imageE)
    with lt [of im] show False by simp
  qed
  show thesis
    by (rule that [OF _ nf]) (unfold Open_def ls res.case Let_def q, use lt in auto)
qed

lemma Open_succeeds:
  assumes "log_ok l0 ims" and "sorted_wrt (<) (map im_seq ims)" and "files_of d = dir_of ims []"
    and io: "\<forall>i < 4. io E i = None"
  shows "\<exists>l. Open E startLSN d = (Ret l, l_disk l)"
proof -
  from assms(1-3) obtain q where op: "Open E startLSN d =
      (case openSegment E q (startLSN + 1) (new_Log d 0 q startLSN) of
         (Ret _, l) \<Rightarrow> (Ret l, l_disk l) | (Fail e, l) \<Rightarrow> (Fail e, l_disk l) | (Panic, l) \<Rightarrow> (Panic, l_disk l))"
    and nf: "q \<notin> f_seq ` set d" by (rule Open_next)
  have io': "io E 0 = None" "io E (Suc 0) = None" "io E (Suc (Suc 0)) = None" "io E (Suc (Suc (Suc 0))) = None"
    using io by simp_all
  have "\<exists>l. openSegment E q (startLSN + 1) (new_Log d 0 q startLSN) = (Ret (), l)"
    using nf io' by (auto simp: openSegment_def wal_calls sbind_def Let_def new_Log_def split: option.splits if_splits)
  with op show ?thesis by auto
qed

lemma Open_inv:
  assumes d: "stable_dir l0 ims d" and s: "startLSN + 1 = l0 + length (log_entries ims)"
    and run: "Open E startLSN d = (Ret l, d')"
  shows "d' = l_disk l \<and> holds l0 (log_entries ims) [] l \<and> \<not> l_closed l \<and> \<not> io_failed E l
    \<and> l_syncedLSN l = startLSN"
proof -
  have sd: "log_ok l0 ims" "sorted_wrt (<) (map im_seq ims)" "files_of d = dir_of ims []"
    "\<forall>f \<in> set d. f_sync f = length (f_data f)" "\<forall>f \<in> set d. f_entry f"
    using d by (auto simp: stable_dir_def)
  from sd(1-3) obtain q where opn: "Open E startLSN d =
      (case openSegment E q (startLSN + 1) (new_Log d 0 q startLSN) of
         (Ret _, l) \<Rightarrow> (Ret l, l_disk l) | (Fail e, l) \<Rightarrow> (Fail e, l_disk l) | (Panic, l) \<Rightarrow> (Panic, l_disk l))"
    and nf': "q \<notin> f_seq ` set d" and lt: "\<forall>im \<in> set ims. im_seq im < q" by (rule Open_next)
  let ?l = "new_Log d 0 q startLSN"
  have nf: "q \<notin> f_seq ` set (l_disk ?l)" using nf' by (simp add: new_Log_def)
  obtain x u where op: "openSegment E q (startLSN + 1) ?l = (x, u)" by fastforce
  have rx: "x = Ret ()" "u = l" "d' = l_disk l"
    using run unfolding opn op by (auto split: res.splits)
  have "io E 0 = None \<and> io E (Suc 0) = None \<and> io E (Suc (Suc 0)) = None \<and> io E (Suc (Suc (Suc 0))) = None \<and> l_tick u = 4"
    using op rx(1) nf
    by (auto simp: openSegment_def wal_calls sbind_def Let_def new_Log_def split: option.splits if_splits)
  then have nio: "\<not> io_failed E u"
    by (auto simp: io_failed_def less_Suc_eq numeral_eq_Suc) (metis gr0I option.distinct(1))
  from openSegment_calm [OF op nio nf] sd(5) obtain c where x: "x = Ret ()" and
    u: "u = ?l\<lparr>l_tick := l_tick ?l + 4, l_open := True, l_segSeq := q, l_segLen := int segHeaderSize,
      l_disk := d @ [fresh_file q (startLSN + 1) c]\<rparr>"
    by (auto simp: new_Log_def)
  let ?new = "\<lparr>im_seq = q, im_first = startLSN + 1, im_created = c, im_es = []\<rparr>"
  have "disk_ok ims ?new startLSN (d @ [fresh_file q (startLSN + 1) c])"
    unfolding disk_ok_def
    by (rule exI [of _ d], rule exI [of _ "fresh_file q (startLSN + 1) c"])
      (use sd in \<open>auto simp: fresh_file_def seg_bytes_def\<close>)
  moreover have "log_ok l0 (ims @ [?new])" using sd(1) s by (simp add: log_ok_def chained_append)
  moreover have "sorted_wrt (<) (map im_seq (ims @ [?new]))" using sd(2) lt by (auto simp: sorted_wrt_append)
  ultimately have "log_inv l0 ims ?new [] u"
    unfolding u using s by (simp add: log_inv_def new_Log_def)
  then have "holds l0 (log_entries ims) [] u" by (rule holdsI) simp
  moreover have "\<not> l_closed u" "l_syncedLSN u = startLSN" by (simp_all add: u new_Log_def)
  ultimately show ?thesis using nio rx by simp
qed

lemma log_inv_drop:
  assumes "log_inv l0 (im # ims) cur p l" and "l_disk l' = filter (\<lambda>f. f_seq f \<noteq> im_seq im) (l_disk l)"
    and "l' = l\<lparr>l_tick := t, l_disk := l_disk l'\<rparr>"
  shows "log_inv (l0 + length (im_es im)) ims cur p l'"
proof -
  note i = log_invD [OF assms(1)]
  from i(3,2) obtain d0 f where d: "l_disk l = d0 @ [f]" "files_of d0 = dir_of (im # ims) []" "f_seq f = im_seq cur"
    "f_data f = seg_bytes cur" "\<forall>g \<in> set d0. f_sync g = length (f_data g)" "\<forall>g \<in> set (l_disk l). f_entry g"
    "segHeaderSize + length (frames (im_first cur) (take (l_syncedLSN l + 1 - im_first cur) (im_es cur))) \<le> f_sync f"
    by (rule disk_okE)
  from d(2) obtain g d1 where g: "d0 = g # d1" "f_seq g = im_seq im" "files_of d1 = dir_of ims []"
    by (cases d0) (auto simp: dir_of_Nil)
  have "map f_seq d1 = map im_seq ims"
    using arg_cong [OF g(3), of "map fst"] by (simp add: files_of_def comp_def fst_dir_of)
  then have s1: "f_seq ` set d1 = im_seq ` set ims" by (metis list.set_map)
  have lt: "\<forall>q \<in> im_seq ` set ims. im_seq im < q" "im_seq im < im_seq cur" using i(2) by auto
  have "f_seq x \<noteq> im_seq im" if "x \<in> set d1" for x
  proof -
    from that s1 have "f_seq x \<in> im_seq ` set ims" by blast
    from bspec [OF lt(1) this] show ?thesis by simp
  qed
  with lt(2) d(1,3) g have keep: "filter (\<lambda>f. f_seq f \<noteq> im_seq im) (l_disk l) = d1 @ [f]"
    by (simp add: filter_id_conv)
  have "disk_ok ims cur (l_syncedLSN l) (d1 @ [f])"
    unfolding disk_ok_def using d g by (intro exI [of _ d1] exI [of _ f]) auto
  moreover have "log_ok (l0 + length (im_es im)) (ims @ [cur\<lparr>im_es := im_es cur @ p\<rparr>])"
    using log_ok_Cons [of l0 im "ims @ [cur\<lparr>im_es := im_es cur @ p\<rparr>]"] i(1) by simp
  ultimately show ?thesis
    using i(2,4-11) assms(2) keep by (subst assms(3)) (auto simp: log_inv_def add.assoc)
qed

lemma info_first:
  assumes "is_u64 (im_first im)"
  shows "seg_firstLSN (info_of (q, seg_bytes im)) = im_first im"
  using readSegHeader_encode [OF assms, of "im_created im"] by (simp add: info_of_def seg_bytes_def)

lemma tick_trim: "trim_loop E safe segs n l = (r, l') \<Longrightarrow> l_tick l \<le> l_tick l'"
proof (induction segs arbitrary: n l r l')
  case (Cons a segs)
  show ?case
  proof (cases segs)
    case (Cons b segs')
    with Cons.prems have "l_tick l \<le> l_tick l' \<or>
        sbind (dir_Remove E (seg_seq a)) (\<lambda>_. trim_loop E safe segs (n + 1)) l = (r, l')"
      by (auto split: if_splits)
    then show ?thesis
    proof
      assume "sbind (dir_Remove E (seg_seq a)) (\<lambda>_. trim_loop E safe segs (n + 1)) l = (r, l')"
      then show ?thesis by (rule tick_sbind) (erule tick_files Cons.IH)+
    qed
  qed (use Cons.prems in simp)
qed simp

definition off_disk :: "Log \<Rightarrow> Log" where
  "off_disk l = l\<lparr>l_disk := [], l_tick := 0\<rparr>"

lemma off_disk_calls:
  "dir_Remove E q l = (ru, l') \<Longrightarrow> off_disk l' = off_disk l"
  "dir_Sync E l = (ru, l') \<Longrightarrow> off_disk l' = off_disk l"
  by (auto simp: wal_calls Let_def off_disk_def split: option.splits if_splits)

lemma trim_loop_fields: "trim_loop E safe segs n l = (r, l') \<Longrightarrow> off_disk l' = off_disk l"
proof (induction E safe segs n l arbitrary: r l' rule: trim_loop.induct)
  case (1 E safe a b segs n l)
  note sp = 1(2) [unfolded trim_loop.simps(1)]
  show ?case
  proof (cases "seg_seq a = l_segSeq l \<or> seg_firstLSN b > u64 (safe + 1)")
    case True
    with sp show ?thesis by (metis Pair_inject)
  next
    case False
    obtain x u where rm: "dir_Remove E (seg_seq a) l = (x, u)" by fastforce
    note u = off_disk_calls(1) [OF rm]
    show ?thesis
    proof (cases x)
      case (Ret z)
      with sp False rm have "trim_loop E safe (b # segs) (n + 1) u = (r, l')" by (auto simp: sbind_def)
      with 1(1) False u show ?thesis by metis
    qed (use sp False rm u in \<open>auto simp: sbind_def\<close>)
  qed
qed auto

lemma TrimTo_fields:
  assumes "TrimTo E safe l = (r, l')"
  shows "off_disk l' = off_disk l"
proof (cases "listSegments (files_of (l_disk l))")
  case (Ret segs)
  obtain x u where tl: "trim_loop E safe segs 0 l = (x, u)" by fastforce
  from assms Ret tl trim_loop_fields [OF tl] show ?thesis
    by (auto simp: TrimTo_def sbind_def split: res.splits if_splits prod.splits dest!: off_disk_calls)
qed (use assms in \<open>auto simp: TrimTo_def\<close>)

lemma tick_TrimTo: "TrimTo E safe l = (r, l') \<Longrightarrow> l_tick l \<le> l_tick l'"
  by (auto simp: TrimTo_def sbind_def split: res.splits if_splits prod.splits
      dest!: tick_trim tick_files(4) intro: order_trans)

lemma trim_loop_inv:
  assumes "log_inv l0 ims cur p l" and "trim_loop E safe (map info_of (dir_of (ims @ [cur]) [])) removed l = (r, l')"
    and "\<not> io_failed E l'" and "safe < MaxUint64"
  shows "\<exists>gone rest. ims = gone @ rest \<and> r = Ret (removed + length gone)
    \<and> log_inv (l0 + length (log_entries gone)) rest cur p l'
    \<and> (gone = [] \<or> l0 + length (log_entries gone) \<le> safe + 1)"
  using assms
proof (induction ims arbitrary: l0 l removed)
  case Nil
  then show ?case by (simp add: dir_of_Nil)
next
  case (Cons im ims)
  note i = log_invD [OF Cons.prems(1)]
  obtain nx later where nx: "ims @ [cur] = nx # later" by (cases ims) auto
  have nxf: "im_first nx = l0 + length (im_es im)"
    using i(1) nx by (cases ims) (auto simp: log_ok_def)
  have u: "is_u64 (im_first nx)" using i(1) nxf by (auto simp: log_ok_def is_u64_def)
  have list: "map info_of (dir_of ((im # ims) @ [cur]) []) = info_of (im_seq im, seg_bytes im) #
      info_of (im_seq nx, seg_bytes nx) # map info_of (dir_of later [])"
    using nx by (simp add: dir_of_Nil)
  have ne: "im_seq im \<noteq> l_segSeq l" using i(2,4) by auto
  have us: "u64 (safe + 1) = safe + 1" using Cons.prems(4) by (simp add: is_u64_def)
  show ?case
  proof (cases "im_first nx > safe + 1")
    case True
    then have "seg_firstLSN (info_of (im_seq nx, seg_bytes nx)) > u64 (safe + 1)" using u us by (simp add: info_first)
    with Cons.prems(2) ne have "r = Ret removed" "l' = l" unfolding list by simp_all
    with Cons.prems(1) show ?thesis by (intro exI [of _ "[]"] exI [of _ "im # ims"]) simp
  next
    case False
    let ?rest = "map info_of (dir_of (ims @ [cur]) [])"
    let ?u = "l\<lparr>l_tick := Suc (l_tick l), l_disk := filter (\<lambda>f. f_seq f \<noteq> im_seq im) (l_disk l)\<rparr>"
    from False have "\<not> seg_firstLSN (info_of (im_seq nx, seg_bytes nx)) > u64 (safe + 1)" using u us by (simp add: info_first)
    with Cons.prems(2) ne have run: "sbind (dir_Remove E (im_seq im)) (\<lambda>_. trim_loop E safe ?rest (removed + 1)) l = (r, l')"
      unfolding list using nx by (simp add: dir_of_Nil)
    have "\<exists>u. u = ?u \<and> trim_loop E safe ?rest (removed + 1) u = (r, l')"
    proof (rule calm_sbind [OF run Cons.prems(3)])
      fix x w r l' assume "trim_loop E safe ?rest (removed + 1) w = (r, l')"
      then show "l_tick w \<le> l_tick l'" by (rule tick_trim)
    next
      fix x w assume "dir_Remove E (im_seq im) l = (x, w)" "\<not> io_failed E w"
      then show "x = Ret () \<and> w = ?u" using syscall_calm by (fastforce simp: dir_Remove_def)
    qed
    then have t: "trim_loop E safe ?rest (removed + 1) ?u = (r, l')" by simp
    have inv: "log_inv (l0 + length (im_es im)) ims cur p ?u"
      by (rule log_inv_drop [OF Cons.prems(1), of _ "Suc (l_tick l)"]) simp_all
    from Cons.IH [OF inv t Cons.prems(3,4)] obtain gone rest where g: "ims = gone @ rest" "r = Ret (removed + 1 + length gone)"
      "log_inv (l0 + length (im_es im) + length (log_entries gone)) rest cur p l'"
      "gone = [] \<or> l0 + length (im_es im) + length (log_entries gone) \<le> safe + 1" by blast
    from g(4) False nxf have "l0 + length (im_es im) + length (log_entries gone) \<le> safe + 1" by auto
    with g(1-3) show ?thesis by (intro exI [of _ "im # gone"] exI [of _ rest]) (simp add: add.assoc)
  qed
qed

lemma TrimTo_inv:
  assumes h: "holds l0 w p l" and run: "TrimTo E safe l = (r, l')" and calm: "\<not> io_failed E l'" and "safe < MaxUint64"
  shows "\<exists>k. holds (l0 + k) (drop k w) p l' \<and> (k = 0 \<or> l0 + k \<le> safe + 1) \<and> k \<le> length w \<and> (\<exists>n. r = Ret n)"
proof -
  obtain ims cur where inv: "log_inv l0 ims cur p l" and w: "log_entries (ims @ [cur]) = w"
    using h by (auto simp: holds_def)
  note i = log_invD [OF inv]
  from i(3,2) obtain d0 f where d: "l_disk l = d0 @ [f]" "files_of d0 = dir_of ims []" "f_seq f = im_seq cur"
    "f_data f = seg_bytes cur" by (rule disk_okE)
  have fs: "files_of (l_disk l) = dir_of (ims @ [cur]) []" using d by (simp add: dir_of_snoc)
  have ok: "log_ok l0 (ims @ [cur])" using i(1) by (auto simp: log_ok_def chained_append)
  let ?segs = "map info_of (dir_of (ims @ [cur]) [])"
  have ls: "listSegments (files_of (l_disk l)) = Ret ?segs"
    using listSegments_dir_of [OF ok] sorted_wrt_less_distinct [OF i(2)] fs by simp
  obtain x u where t: "trim_loop E safe ?segs 0 l = (x, u)" by fastforce
  have tu: "l_tick u \<le> l_tick l'"
    using run ls t by (cases x) (auto simp: TrimTo_def sbind_def split: if_splits prod.splits res.splits dest!: tick_files)
  then have nf: "\<not> io_failed E u" using calm io_failed_mono by blast
  from trim_loop_inv [OF inv t nf assms(4)] obtain gone rest where
    g: "ims = gone @ rest" "x = Ret (length gone)" "log_inv (l0 + length (log_entries gone)) rest cur p u"
      "gone = [] \<or> l0 + length (log_entries gone) \<le> safe + 1" by auto
  have "log_inv (l0 + length (log_entries gone)) rest cur p l' \<and> (\<exists>n. r = Ret n)"
  proof (cases "gone = []")
    case True
    with run ls t g show ?thesis by (auto simp: TrimTo_def)
  next
    case False
    obtain y v where s: "dir_Sync E u = (y, v)" by fastforce
    have rv: "l' = v \<and> r = bind_res y (\<lambda>_. Ret (length gone))"
      using run ls t g(2) False s by (cases y) (auto simp: TrimTo_def)
    with s calm have y: "y = Ret ()" "v = u\<lparr>l_tick := Suc (l_tick u), l_disk := map (\<lambda>f. f\<lparr>f_entry := True\<rparr>) (l_disk u)\<rparr>"
      using syscall_calm [of E "''fsync dir''" "map (\<lambda>f. f\<lparr>f_entry := True\<rparr>)" "\<lambda>n d. d" u y v]
      by (auto simp: dir_Sync_def)
    have "\<forall>g \<in> set (l_disk u). f_entry g" using log_invD(3) [OF g(3)] by (auto simp: disk_ok_def)
    then have "map (\<lambda>f. f\<lparr>f_entry := True\<rparr>) (l_disk u) = l_disk u" by (intro map_idI) simp
    with y rv g(3) show ?thesis by (simp add: log_inv_fields)
  qed
  moreover have "log_entries (rest @ [cur]) = drop (length (log_entries gone)) w" using w g(1) by auto
  moreover have "length (log_entries gone) \<le> length w" using w g(1) by auto
  ultimately show ?thesis using g(4) by (auto intro!: exI [of _ "length (log_entries gone)"] holdsI)
qed

section \<open>Runs of the log\<close>

text \<open>
  \<open>wal_step E l es l'\<close>: one operation, of a client or of the background worker; \<open>es\<close> holds the
  entry of an append that returned a number. \<open>wal_run\<close> is any sequence of them.
\<close>

inductive wal_step :: "wal_env \<Rightarrow> Log \<Rightarrow> entry list \<Rightarrow> Log \<Rightarrow> bool" for E l where
  ws_append: "fits e \<Longrightarrow> log_append E (entry_type e) (entry_payload e) l = (r, l') \<Longrightarrow>
    wal_step E l (case r of Ret n \<Rightarrow> [e] | _ \<Rightarrow> []) l'"
| ws_flush: "Flush E l = (r, l') \<Longrightarrow> wal_step E l [] l'"
| ws_sync: "Sync E n l = (r, l') \<Longrightarrow> wal_step E l [] l'"
| ws_syncall: "SyncAll E l = (r, l') \<Longrightarrow> wal_step E l [] l'"
| ws_close: "Log_Close E l = (r, l') \<Longrightarrow> wal_step E l [] l'"

inductive wal_run :: "wal_env \<Rightarrow> Log \<Rightarrow> entry list \<Rightarrow> Log \<Rightarrow> bool" for E s where
  wr_start: "wal_run E s [] s"
| wr_step: "wal_run E s es l \<Longrightarrow> wal_step E l es' l' \<Longrightarrow> wal_run E s (es @ es') l'"

lemma wal_step_mono: "wal_step E l es l' \<Longrightarrow> l_tick l \<le> l_tick l' \<and> l_nextLSN l \<le> l_nextLSN l'"
proof (induction rule: wal_step.induct)
  case (ws_append e r l')
  from tick_ops(6) [OF ws_append(2)] next_ops(6) [OF ws_append(2)] show ?case by simp
next
  case (ws_flush r l')
  from tick_ops(2) [OF ws_flush] next_ops(2) [OF ws_flush] show ?case by simp
next
  case (ws_sync n r l')
  from tick_ops(3) [OF ws_sync] next_ops(3) [OF ws_sync] show ?case by simp
next
  case (ws_syncall r l')
  from tick_ops(4) [OF ws_syncall] next_ops(4) [OF ws_syncall] show ?case by simp
next
  case (ws_close r l')
  from tick_ops(5) [OF ws_close] next_ops(5) [OF ws_close] show ?case by simp
qed

lemma wal_step_content:
  assumes "wal_step E l es l'" and "content l0 es0 l" and calm: "\<not> io_failed E l'" and "l_nextLSN l' \<le> MaxUint64"
  shows "content l0 (es0 @ es) l' \<and> l_syncedLSN l \<le> l_syncedLSN l'"
proof -
  from assms(2) obtain w p where h: "holds l0 w p l" and wp: "w @ p = es0" by (auto simp: content_def)
  from assms(1) show ?thesis
  proof cases
    case (ws_append e r)
    from append_inv [OF h ws_append(3) calm ws_append(2) assms(4)] ws_append(1) h wp show ?thesis
      by (auto split: if_splits intro: contentI)
  next
    case (ws_flush r)
    from Flush_inv [OF h ws_flush(2) calm] ws_flush(1) h wp show ?thesis
      by (auto simp: same_ends_def split: if_splits intro: contentI)
  next
    case (ws_sync n r)
    from Sync_inv [OF h ws_sync(2) calm] ws_sync(1) h wp show ?thesis
      by (auto simp: same_ends_def split: if_splits intro: contentI)
  next
    case (ws_syncall r)
    from SyncAll_inv [OF h ws_syncall(2) calm] ws_syncall(1) h wp holds_ends(4) [OF h] show ?thesis
      by (auto simp: same_ends_def split: if_splits intro: contentI)
  next
    case (ws_close r)
    from Close_inv [OF h ws_close(2) calm] ws_close(1) wp show ?thesis by auto
  qed
qed

lemma wal_run_mono: "wal_run E s es l \<Longrightarrow> l_tick s \<le> l_tick l \<and> l_nextLSN s \<le> l_nextLSN l"
  by (induction rule: wal_run.induct) (auto dest: wal_step_mono)

lemma wal_run_content:
  assumes "wal_run E s es l" and "content l0 es0 s" and "\<not> io_failed E l" and "l_nextLSN l \<le> MaxUint64"
  shows "content l0 (es0 @ es) l \<and> l_syncedLSN s \<le> l_syncedLSN l"
  using assms
proof (induction rule: wal_run.induct)
  case (wr_step es l es' l')
  note mono = wal_step_mono [OF wr_step(2)]
  have "\<not> io_failed E l" using wr_step.prems(2) mono io_failed_mono by blast
  with wr_step mono have "content l0 (es0 @ es) l" "l_syncedLSN s \<le> l_syncedLSN l" by auto
  with wal_step_content [OF wr_step(2) _ wr_step.prems(2,3), of l0 "es0 @ es"] show ?case by simp
qed simp

lemma opened_run_content:
  assumes d: "stable_dir l0 ims d" and s: "startLSN + 1 = l0 + length (log_entries ims)"
    and op: "Open E startLSN d = (Ret l, d')" and run: "wal_run E l es l'"
    and calm: "\<not> io_failed E l'" and bound: "l_nextLSN l' \<le> MaxUint64"
  shows "content l0 (log_entries ims @ es) l' \<and> startLSN \<le> l_syncedLSN l'"
proof -
  from Open_inv [OF d s op] have "content l0 (log_entries ims) l" "l_syncedLSN l = startLSN"
    by (auto intro: contentI)
  with wal_run_content [OF run _ calm bound] show ?thesis by auto
qed

lemma after_skip: "startLSN + 1 = l0 + length es0 \<Longrightarrow> after startLSN l0 (es0 @ es) = es"
  by (simp add: after_def)

lemma crash_content:
  assumes c: "content l0 (es0 @ es) l" and s: "startLSN + 1 = l0 + length es0" and sy: "startLSN \<le> l_syncedLSN l"
    and "crash (l_disk l) fs" and "accepting ap"
  shows "\<exists>n res fs'. l_syncedLSN l \<le> startLSN + n \<and> n \<le> length es
    \<and> Replay calm fs startLSN ap a = (Ret (), res, apply_all ap (take n es) a, fs')"
proof -
  from c obtain w p where h: "holds l0 w p l" and wp: "w @ p = es0 @ es" by (auto simp: content_def)
  from crash_holds [OF h assms(4,5), of startLSN a] obtain n res fs' where
    n: "l_syncedLSN l + 1 - l0 \<le> n" "n \<le> length w"
    and r: "Replay calm fs startLSN ap a = (Ret (), res, apply_all ap (after startLSN l0 (take n w)) a, fs')" by blast
  have ge: "length es0 \<le> n" using n(1) s sy by simp
  have "take n w = take n (es0 @ es)" using n(2) wp by (metis take_append diff_is_0_eq take0 append_Nil2)
  with ge have "take n w = es0 @ take (n - length es0) es" by simp
  with r have "Replay calm fs startLSN ap a = (Ret (), res, apply_all ap (take (n - length es0) es) a, fs')"
    using after_skip [OF s] by simp
  moreover have "l_syncedLSN l \<le> startLSN + (n - length es0)" using n(1) s ge by simp
  moreover have "n - length es0 \<le> length es" using n(2) arg_cong [OF wp, of length] by simp
  ultimately show ?thesis by blast
qed

section \<open>Properties\<close>

text \<open>An environment in which every system call succeeds.\<close>

definition calm_env :: wal_env where
  "calm_env = \<lparr>wo_SegmentSize = 67108864, wo_Policy = SyncAlways, wo_MaxBufferBytes = 1048576,
     io = (\<lambda>_. None), now_ms = (\<lambda>_. 0)\<rparr>"

definition fresh_log :: Log where
  "fresh_log = (case fst (Open calm_env 0 []) of Ret l \<Rightarrow> l)"

lemma Open_calm: "Open calm_env 0 [] = (Ret fresh_log, l_disk fresh_log)"
  by (simp add: fresh_log_def Open_def listSegments_def Let_def openSegment_def wal_calls sbind_def calm_env_def new_Log_def
      split: prod.splits)

lemma fresh_log_fields:
  "l_tick fresh_log = 4" "l_closed fresh_log = False" "l_open fresh_log" "l_fatal fresh_log = None"
  "l_syncedLSN fresh_log = 0" "l_writtenLSN fresh_log = 0" "l_buf fresh_log = []" "l_nextLSN fresh_log = 1" "l_segLen fresh_log = 28"
  by (simp_all add: fresh_log_def Open_def listSegments_def Let_def openSegment_def wal_calls sbind_def calm_env_def new_Log_def)

lemma calm_env_ok [simp]: "\<not> io_failed calm_env l"
  by (simp add: io_failed_def calm_env_def)

lemma empty_dir [simp]: "stable_dir 1 [] []"
  by (simp add: stable_dir_def log_ok_def)


definition one_entry :: entry where
  "one_entry = EPut ''k'' \<lparr>Value = ''v'', ExpireAt = 0\<rparr>"

lemma one_entry_fits: "fits one_entry"
  by (simp add: one_entry_def fits_def maxRecordSize_def appendPutPayload_def)

lemma append_one:
  obtains l where "log_append calm_env (entry_type one_entry) (entry_payload one_entry) fresh_log = (Ret 1, l)"
    and "wal_run calm_env fresh_log [one_entry] l" and "l_nextLSN l = 2" and "\<not> l_closed l"
proof -
  obtain r l where run: "log_append calm_env (entry_type one_entry) (entry_payload one_entry) fresh_log = (r, l)" by fastforce
  from Open_inv [OF empty_dir, of 0, OF _ Open_calm] have h: "holds 1 [] [] fresh_log" "\<not> l_closed fresh_log" by auto
  have "l_nextLSN fresh_log = 1" using holds_ends(1) [OF h(1)] by simp
  moreover have "l_nextLSN l \<le> l_nextLSN fresh_log + 1"
    using run by (auto simp: log_append_def Let_def sbind_def split: if_splits option.splits prod.splits res.splits dest!: next_ops(2))
  ultimately have l: "r = Ret 1" "l_nextLSN l = 2" "\<not> l_closed l"
    using append_inv [OF h(1) run _ one_entry_fits] h(2) by auto
  moreover from wr_step [OF wr_start ws_append [OF one_entry_fits run]] have "wal_run calm_env fresh_log [one_entry] l"
    by (simp add: l(1))
  ultimately show thesis using run that by simp
qed




text \<open>
  C21: After a snapshot at \<open>safeLSN\<close>, trimming the log removes nothing the recovery from that
  snapshot needs: replaying the trimmed directory after \<open>safeLSN\<close> gives the same state.
\<close>

theorem TrimTo_keeps_what_recovery_needs:
  assumes "holds l0 w p l" and "TrimTo E safeLSN l = (r, l')" and "\<not> io_failed E l'" and "safeLSN < MaxUint64"
    and "accepting ap"
  shows "\<exists>res. Replay calm (files_of (l_disk l')) safeLSN ap a = (Ret (), res, apply_all ap (after safeLSN l0 w) a, files_of (l_disk l'))
    \<and> (\<exists>n. r = Ret n)"
proof -
  from TrimTo_inv [OF assms(1-4)] obtain k where
    k: "holds (l0 + k) (drop k w) p l'" "k = 0 \<or> l0 + k \<le> safeLSN + 1" "k \<le> length w" "\<exists>n. r = Ret n" by blast
  from k(2,3) have "after safeLSN (l0 + k) (drop k w) = after safeLSN l0 w" by (auto simp: after_def)
  with kill_holds [OF k(1) assms(5), of safeLSN a] k(4) show ?thesis by auto
qed

theorem TrimTo_keeps_what_recovery_needs_witness:
  "\<exists>l' res. Replay calm (files_of (l_disk l')) 5 (mem_loader plain_env) (New ()) = (Ret (), res, New (), files_of (l_disk l'))
    \<and> l' = snd (TrimTo calm_env 5 fresh_log)"
proof -
  obtain r l' where t: "TrimTo calm_env 5 fresh_log = (r, l')" by fastforce
  from Open_inv [OF empty_dir, of 0, OF _ Open_calm] have h: "holds 1 [] [] fresh_log" by auto
  from TrimTo_keeps_what_recovery_needs [OF h t calm_env_ok _ accepting_mem_loader, of plain_env "New ()"] t
  show ?thesis by auto
qed

text \<open>
  When a write fails, the records that were in the buffer are gone. The writer that ran into the
  failure is told, but every other writer whose record was in the same buffer is acknowledged:
  its \<open>Sync\<close> finds nothing left to write and returns without an error.
\<close>

theorem Sync_acknowledges_a_lost_record:
  assumes "\<not> l_closed l" and "l_open l" and "l_buf l \<noteq> []" and "l_syncedLSN l = l_writtenLSN l"
    and "l_syncedLSN l < lsn" and "io E (l_tick l) = Some 0"
  shows "\<exists>e l'. Sync E lsn l = (Fail e, l') \<and> l_disk l' = l_disk l \<and> (\<forall>lsn'. Sync E lsn' l' = (Ret (), l'))"
proof -
  let ?l' = "l\<lparr>l_buf := [], l_tick := Suc (l_tick l),
    l_fatal := (case l_fatal l of None \<Rightarrow> Some (OtherErr ''wal: write segment'') | Some x \<Rightarrow> Some x)\<rparr>"
  have "on_file q (\<lambda>f. f\<lparr>f_data := f_data f @ take 0 p\<rparr>) d = d" for q p d
    by (auto simp: on_file_def intro!: map_idI)
  then have "drainLocked E l = (Fail (OtherErr ''wal: write segment''), ?l')"
    using assms by (simp add: drainLocked_def f_Write_def file_Write_def syscall_def latch_def Let_def)
  then have "Sync E lsn l = (Fail (OtherErr ''wal: write segment''), ?l')"
    using assms by (simp add: Sync_def syncLocked_def)
  moreover have "Sync E lsn' ?l' = (Ret (), ?l')" for lsn'
    using assms by (simp add: Sync_def syncLocked_def drainLocked_def sbind_def)
  ultimately show ?thesis by (intro exI conjI) (assumption, simp, blast)
qed

text \<open>
  An append whose buffer overflow triggers a rotation that cannot sync the old segment reports
  an error, yet its record is in the log and the log stays usable: the caller does not apply a
  write that recovery will.
\<close>

theorem append_error_keeps_the_record:
  assumes h: "holds l0 w p l" and "\<not> l_closed l" and e: "fits e" and "l_nextLSN l < MaxUint64"
    and "wo_MaxBufferBytes E \<le> int (length (appendRecord (l_buf l) (entry_type e) (l_nextLSN l) (entry_payload e)))"
    and "wo_SegmentSize E \<le> l_segLen l" and "\<not> io_failed E l"
    and io1: "io E (l_tick l) = None" and io2: "io E (Suc (l_tick l)) \<noteq> None"
  shows "\<exists>er l'. log_append E (entry_type e) (entry_payload e) l = (Fail er, l')
    \<and> holds l0 (w @ p @ [e]) [] l' \<and> \<not> l_closed l'"
proof -
  define v where "v = l\<lparr>l_nextLSN := l_nextLSN l + 1, l_buf := appendRecord (l_buf l) (entry_type e) (l_nextLSN l) (entry_payload e),
      l_lastAppended := l_nextLSN l, l_appends := l_appends l + 1\<rparr>"
  let ?E = "E\<lparr>wo_MaxBufferBytes := int (length (l_buf v)) + 1, io := (\<lambda>_. None)\<rparr>"
  have o: "l_open l" using holds_ends(7) [OF h] assms(2) by simp
  have "log_append ?E (entry_type e) (entry_payload e) l = (Ret (l_nextLSN l), v)"
    using assms(2) holds_ends(8) [OF h] by (simp add: log_append_def Let_def v_def)
  from append_inv [OF h this _ e] assms(2,4) have "content l0 (w @ p @ [e]) v"
    by (simp add: io_failed_def v_def)
  then obtain w' p' where v: "holds l0 w' p' v" "w' @ p' = w @ p @ [e]" by (auto simp: content_def)
  have "l_writtenLSN v = l_writtenLSN l" by (simp add: v_def)
  with holds_ends(3) [OF h] holds_ends(3) [OF v(1)] have "length w' = length w" by simp
  with v(2) have w': "w' = w" "p' = p @ [e]" by (auto simp: append_eq_append_conv)
  obtain ims cur where inv: "log_inv l0 ims cur (p @ [e]) v" "log_entries (ims @ [cur]) = w"
    using v(1) w' by (auto simp: holds_def)
  obtain x u where fw: "f_Write E (l_buf v) (v\<lparr>l_buf := []\<rparr>) = (x, u)" by fastforce
  have vf: "l_open v" "l_tick v = l_tick l" "l_closed v = l_closed l" "l_segLen v = l_segLen l" "l_lastAppended v = l_nextLSN l"
    using o by (simp_all add: v_def)
  from fw io1 vf have u: "l_tick u = Suc (l_tick l)" "l_segLen u = l_segLen l" "l_open u"
    by (auto simp: f_Write_def file_Write_def syscall_def Let_def)
  then have nf: "\<not> io_failed E u" using assms(7) io1 by (auto simp: io_failed_def less_Suc_eq)
  let ?z = "u\<lparr>l_writes := l_writes u + 1, l_bytesOut := l_bytesOut u + length (l_buf v),
      l_segLen := l_segLen u + int (length (l_buf v)), l_writtenLSN := l_nextLSN v - 1\<rparr>"
  from log_inv_written [OF inv(1) fw nf vf(1)]
  have z: "x = Ret ()" "log_inv l0 ims (cur\<lparr>im_es := im_es cur @ p @ [e]\<rparr>) [] ?z" "\<not> l_closed u"
    using vf(3) assms(2) by auto
  obtain n where n: "io E (Suc (l_tick l)) = Some n" using io2 by auto
  let ?y = "?z\<lparr>l_tick := Suc (Suc (l_tick l))\<rparr>"
  have "f_Sync E ?z = (Fail (OtherErr ''fsync''), ?y)"
    using u n by (simp add: f_Sync_def file_Sync_def syscall_def Let_def)
  then have "rotateLocked E (l_nextLSN v - 1 + 1) ?z = (Fail (OtherErr ''fsync''), ?y)"
    by (simp add: rotateLocked_def)
  moreover have "l_buf v \<noteq> []" by (simp add: v_def appendRecord_def Let_def)
  moreover have "wo_SegmentSize E \<le> l_segLen ?z" using assms(6) u(2) by simp
  ultimately have dr: "drainLocked E v = (Fail (OtherErr ''fsync''), ?y)"
    using fw z(1) by (simp add: drainLocked_def Let_def)
  have "l_writtenLSN v < l_lastAppended v" using holds_ends(1-3) [OF v(1)] w' by simp
  with dr have fl: "Flush E v = (Fail (OtherErr ''fsync''), ?y)" using vf(3) assms(2) by (simp add: Flush_def)
  have "log_append E (entry_type e) (entry_payload e) l = sbind (Flush E) (\<lambda>_ l'. (Ret (l_nextLSN l), l')) v"
    using assms(2,5) holds_ends(8) [OF h] by (simp add: log_append_def Let_def v_def)
  with fl have "log_append E (entry_type e) (entry_payload e) l = (Fail (OtherErr ''fsync''), ?y)" by simp
  moreover have "holds l0 (w @ p @ [e]) [] ?y"
  proof (rule holdsI)
    show "log_inv l0 ims (cur\<lparr>im_es := im_es cur @ p @ [e]\<rparr>) [] ?y" using z(2) by (simp add: log_inv_fields)
    show "log_entries (ims @ [cur\<lparr>im_es := im_es cur @ p @ [e]\<rparr>]) = w @ p @ [e]" using inv(2) by auto
  qed
  ultimately show ?thesis using z(3) by (intro exI conjI) (assumption, assumption, simp)
qed

text \<open>
  \<open>Open\<close> starts a new segment without syncing the one before it, whose tail a killed process may
  have left unsynced. If a power cut then loses that tail, the records of the new segment are out
  of sequence and recovery discards them all, although they had been synced, and reports success.
\<close>

theorem unsynced_predecessor_loses_synced_records:
  assumes "log_ok l0 (ims @ [im, im2])" and "sorted_wrt (<) (map im_seq (ims @ [im, im2]))" and "accepting ap"
    and "j < length (im_es im)" and "log_entries ims @ take j (im_es im) \<noteq> []" and "im_es im2 \<noteq> []"
    and "files_of d0 = dir_of ims []"
    and "f_seq f = im_seq im" and "f_data f = seg_bytes im" and "f_sync f \<le> length (seg_bytes (im\<lparr>im_es := take j (im_es im)\<rparr>))"
    and "f_seq g = im_seq im2" and "f_data g = seg_bytes im2" and "f_sync g = length (f_data g)"
  shows "\<exists>fs res fs'. crash (d0 @ [f, g]) fs \<and> Replay calm fs aft ap a =
      (Ret (), res, apply_all ap (after aft l0 (log_entries ims @ take j (im_es im))) a, fs')"
proof -
  let ?im = "im\<lparr>im_es := take j (im_es im)\<rparr>"
  let ?fs = "dir_of (ims @ [?im]) [] @ [(im_seq im2, seg_bytes im2)]"
  let ?es = "log_entries ims @ take j (im_es im)"
  obtain e es where es: "im_es im2 = e # es" using assms(6) by (cases "im_es im2") auto
  have ok: "log_ok l0 (ims @ [?im])" using assms(1) by (auto simp: log_ok_def chained_append dest: in_set_takeD)
  have f2: "im_first im2 = l0 + length (log_entries ims) + length (im_es im)" "is_u64 (im_first im2)" "fits e"
    using assms(1) es by (auto simp: log_ok_def chained_append is_u64_def)
  have "take (length (seg_bytes ?im)) (seg_bytes im) = seg_bytes ?im"
    using frames_append [of "im_first im" "take j (im_es im)" "drop j (im_es im)"] by (simp add: seg_bytes_def)
  then have "survives f (im_seq im, seg_bytes ?im)" using assms(8-10) unfolding survives_def by (metis fst_conv snd_conv)
  moreover have "survives g (im_seq im2, seg_bytes im2)" using assms(11-13) by (auto simp: survives_def intro: exI [of _ "length (seg_bytes im2)"])
  ultimately have cr: "crash (d0 @ [f, g]) ?fs"
    using files_of_crash [of d0] assms(7) by (simp add: crash_def dir_of_snoc list_all2_appendI)
  have le: "log_entries (ims @ [?im]) = ?es" by simp
  have ls: "listSegments ?fs = Ret (map info_of (dir_of (ims @ [?im]) []) @ [info_of (im_seq im2, seg_bytes im2)])"
  proof -
    have "listSegments ?fs = Ret (map info_of ?fs)"
    proof (rule listSegments_infos)
      show "\<forall>f \<in> set ?fs. \<exists>l. readSegHeader (snd f) = Ret l"
        using dir_of_headers [OF ok, of "[]"] f2(2) by (auto simp: seg_bytes_def readSegHeader_encode)
      show "sorted (map fst ?fs)"
        using sorted_wrt_less_distinct [OF assms(2)] by (simp add: fst_dir_of)
    qed
    then show ?thesis by simp
  qed
  have rd: "replaySegment (info_of (im_seq im2, seg_bytes im2)) aft (l0 + length ?es) ap b res =
      (Damaged ''LSN out of order'', segHeaderSize, l0 + length ?es, b, res)" for b res
  proof -
    have "l0 + length ?es \<noteq> im_first im2" "0 < l0" using f2(1) assms(4) ok by (auto simp: log_ok_def)
    moreover have "replaySegment (info_of (im_seq im2, seg_bytes im2)) aft (l0 + length ?es) ap b res =
        replay_loop aft ap (frame (im_first im2) e @ frames (Suc (im_first im2)) es) segHeaderSize (l0 + length ?es) b res"
      using replaySegment_bytes [OF f2(2), of "im_seq im2" "[]"] es by simp
    ultimately show ?thesis
      by (simp add: replay_loop.simps [of aft ap "frame (im_first im2) e @ frames (Suc (im_first im2)) es"]
          read_record_frame [OF f2(3,2)])
  qed
  from replay_segments_prefix [OF ok _ assms(3), of 0 calm aft "[info_of (im_seq im2, seg_bytes im2)]" a "ReplayResult0 aft" ?fs]
  obtain res where "replay_segments calm aft ap (map info_of (dir_of (ims @ [?im]) []) @ [info_of (im_seq im2, seg_bytes im2)]) 0 a (ReplayResult0 aft) ?fs
      = replay_segments calm aft ap [info_of (im_seq im2, seg_bytes im2)] (l0 + length ?es) (apply_all ap (after aft l0 ?es) a) res ?fs"
    using assms(5) unfolding le by auto
  then have "\<exists>res fs'. Replay calm ?fs aft ap a = (Ret (), res, apply_all ap (after aft l0 ?es) a, fs')"
    unfolding Replay_def ls res.case by (simp add: rd [simplified] Let_def truncateAt_calm)
  with cr show ?thesis by blast
qed

end
