(* ===== verification/Snapshot.thy ===== *)
theory Snapshot
  imports Wal_Record
begin

text \<open>
  Point-in-time images of the keyspace, \<open>src/internal/snapshot/snapshot.go\<close>: the file format,
  \<open>Write\<close> with its temporary file and rename, \<open>Load\<close> and \<open>Peek\<close>. The results: what was written
  is what is loaded, and whatever fails while an image is written, the directory holds the
  previous image or the complete new one.
\<close>

section \<open>Format\<close>

definition fileMagic :: bytes where
  "fileMagic = ''RFSSNAP'' @ [CHR 0x01]"

definition footerMagic :: bytes where
  "footerMagic = ''RFSSEND'' @ [CHR 0x01]"

definition FormatVersion :: nat where
  "FormatVersion = 1"

definition snap_headerSize :: nat where
  "snap_headerSize = 32"

definition footerSize :: nat where
  "footerSize = 28"

record Info =
  i_LSN :: nat
  i_CreatedAtMs :: int
  i_Keys :: nat
  i_Bytes :: nat

definition encodeHeader :: "nat \<Rightarrow> int \<Rightarrow> bytes" where
  "encodeHeader lsn createdAtMs =
     (let b = fileMagic @ PutUint32 FormatVersion @ PutUint64 (nat (createdAtMs mod 18446744073709551616)) @ PutUint64 lsn
      in b @ PutUint32 (unat (crc_Checksum b)))"

definition decodeHeader :: "bytes \<Rightarrow> (nat \<times> int) res" where
  "decodeHeader hdr =
     (if take 8 hdr \<noteq> fileMagic then Fail ErrCorrupt
      else if unat (crc_Checksum (take (snap_headerSize - 4) hdr)) \<noteq> le_val (drop (snap_headerSize - 4) hdr) then Fail ErrCorrupt
      else if le_val (take 4 (drop 8 hdr)) \<noteq> FormatVersion then Fail (OtherErr ''snapshot: format version'')
      else Ret (le_val (take 8 (drop 20 hdr)), i64 (int (le_val (take 8 (drop 12 hdr))))))"

section \<open>Writing\<close>

text \<open>The variables that the \<open>emit\<close> closure of \<open>Write\<close> captures.\<close>

record emitter =
  em_out :: bytes
  em_count :: nat
  em_bodyLen :: nat
  em_sum :: "32 word"

definition emit_entry :: "bytes \<times> Record \<Rightarrow> emitter \<Rightarrow> emitter" where
  "emit_entry kr em =
     (let buf = AppendUvarint (length (fst kr)) @ fst kr @ AppendVarint (ExpireAt (snd kr))
                @ AppendUvarint (length (Value (snd kr))) @ Value (snd kr)
      in em\<lparr>em_out := em_out em @ buf, em_sum := crc_Update (em_sum em) buf,
            em_bodyLen := em_bodyLen em + length buf, em_count := em_count em + 1\<rparr>)"

definition snap_footer :: "emitter \<Rightarrow> bytes" where
  "snap_footer em =
     PutUint64 (em_count em) @ PutUint64 (em_bodyLen em) @ PutUint32 (unat (em_sum em)) @ footerMagic"

text \<open>
  The directory: the temporary file and the image under its real name. The outcome of each
  system call is an argument; a failing write may have transferred some bytes.
\<close>

record snapdir =
  sd_tmp :: "bytes option"
  sd_final :: "bytes option"

record snap_io =
  sio_mkdir :: bool
  sio_create :: bool
  sio_write :: "nat option"
  sio_fsync :: bool
  sio_stat :: bool
  sio_close :: bool
  sio_rename :: bool
  sio_syncdir :: bool

definition image_of :: "nat \<Rightarrow> int \<Rightarrow> (bytes \<times> Record) list \<Rightarrow> bytes" where
  "image_of lsn createdAtMs recs =
     (let em = fold emit_entry recs \<lparr>em_out = [], em_count = 0, em_bodyLen = 0, em_sum = 0\<rparr>
      in encodeHeader lsn createdAtMs @ em_out em @ snap_footer em)"

text \<open>\<open>recs\<close> are the records the iterator emits, in order.\<close>

definition snap_Write :: "snap_io \<Rightarrow> nat \<Rightarrow> int \<Rightarrow> (bytes \<times> Record) list \<Rightarrow> (snapdir, Info) action" where
  "snap_Write io lsn createdAtMs recs d =
     (if \<not> sio_mkdir io then (Fail (OtherErr ''snapshot: create dir''), d)
      else if \<not> sio_create io then (Fail (OtherErr ''snapshot: create''), d)
      else
        let d = d\<lparr>sd_tmp := Some []\<rparr>;
            cleanup = (\<lambda>d. d\<lparr>sd_tmp := None\<rparr>);
            img = image_of lsn createdAtMs recs in
        case sio_write io of
          Some n \<Rightarrow> (Fail (OtherErr ''snapshot: write''), cleanup (d\<lparr>sd_tmp := Some (take n img)\<rparr>))
        | None \<Rightarrow>
            let d = d\<lparr>sd_tmp := Some img\<rparr> in
            if \<not> sio_fsync io then (Fail (OtherErr ''snapshot: fsync''), cleanup d)
            else if \<not> sio_stat io then (Fail (OtherErr ''snapshot: stat''), cleanup d)
            else if \<not> sio_close io then (Fail (OtherErr ''snapshot: close''), cleanup d)
            else if \<not> sio_rename io then (Fail (OtherErr ''snapshot: rename into place''), cleanup d)
            else
              let d = d\<lparr>sd_tmp := None, sd_final := sd_tmp d\<rparr> in
              if \<not> sio_syncdir io then (Fail (OtherErr ''snapshot: fsync dir''), d)
              else (Ret \<lparr>i_LSN = lsn, i_CreatedAtMs = createdAtMs, i_Keys = length recs, i_Bytes = length img\<rparr>, d))"

section \<open>Loading\<close>

text \<open>The loop of \<open>readUvarint\<close>; the shifted bits never overlap those already read, so \<open>|\<close> is \<open>+\<close>.\<close>

fun readUvarint_loop :: "nat \<Rightarrow> nat \<Rightarrow> nat \<Rightarrow> bytes \<Rightarrow> nat res \<times> bytes" where
  "readUvarint_loop 0 v shift br = (Fail (OtherErr ''uvarint overflows 64 bits''), br)"
| "readUvarint_loop (Suc i) v shift br =
     (case br of
        [] \<Rightarrow> (Fail ErrEOF, [])
      | b # br' \<Rightarrow>
          if bval b < 128 then (Ret (u64 (v + bval b * 2 ^ shift)), br')
          else readUvarint_loop i (u64 (v + (bval b - 128) * 2 ^ shift)) (shift + 7) br')"

definition readUvarint :: "(bytes, nat) action" where
  "readUvarint = readUvarint_loop 10 0 0"

definition readVarint :: "(bytes, int) action" where
  "readVarint =
     sbind readUvarint (\<lambda>u br.
       let x = int (u div 2) in (Ret (if u mod 2 \<noteq> 0 then - x - 1 else x), br))"

definition readN :: "int \<Rightarrow> (bytes, bytes) action" where
  "readN n br =
     (if n < 0 \<or> n > 1073741824 then (Fail (OtherErr ''implausible length''), br)
      else if length br < nat n then (Fail (if br = [] then ErrEOF else ErrUnexpectedEOF), [])
      else (Ret (take (nat n) br), drop (nat n) br))"

text \<open>One entry and, as the difference of the positions, its exact bytes.\<close>

definition readEntry :: "(bytes, bytes \<times> Record \<times> bytes) action" where
  "readEntry br0 =
     sbind readUvarint (\<lambda>klen.
     sbind (readN (i64 (int klen))) (\<lambda>key.
     sbind readVarint (\<lambda>expireAt.
     sbind readUvarint (\<lambda>vlen.
     sbind (readN (i64 (int vlen))) (\<lambda>val br.
       (Ret (key, \<lparr>Value = val, ExpireAt = expireAt\<rparr>, take (length br0 - length br) br0), br)))))) br0"

fun load_loop :: "'a applier \<Rightarrow> nat \<Rightarrow> bytes \<Rightarrow> 32 word \<Rightarrow> 'a \<Rightarrow> (bytes \<times> 32 word) res \<times> 'a" where
  "load_loop ap 0 br crc a = (Ret (br, crc), a)"
| "load_loop ap (Suc n) br crc a =
     (case readEntry br of
        (Ret (key, rec, raw), br) \<Rightarrow>
          (case ap_Put ap key rec a of
             (Ret _, a) \<Rightarrow> load_loop ap n br (crc_Update crc raw) a
           | (Fail e, a) \<Rightarrow> (Fail e, a)
           | (Panic, a) \<Rightarrow> (Panic, a))
      | (Fail _, _) \<Rightarrow> (Fail ErrCorrupt, a)
      | (Panic, _) \<Rightarrow> (Panic, a))"

definition snap_Load :: "bytes option \<Rightarrow> 'a applier \<Rightarrow> ('a, Info) action" where
  "snap_Load file ap a =
     (case file of
        None \<Rightarrow> (Fail ErrNotFound, a)
      | Some f \<Rightarrow>
          let sz = length f in
          if sz < snap_headerSize + footerSize then (Fail ErrCorrupt, a)
          else
            case decodeHeader (take snap_headerSize f) of
              Fail e \<Rightarrow> (Fail e, a)
            | Panic \<Rightarrow> (Panic, a)
            | Ret (lsn, createdMs) \<Rightarrow>
                let ftr = drop (sz - footerSize) f;
                    cnt = le_val (take 8 ftr); bodyLen = le_val (take 8 (drop 8 ftr)); wantCRC = le_val (take 4 (drop 16 ftr)) in
                if drop 20 ftr \<noteq> footerMagic then (Fail ErrCorrupt, a)
                else if i64 (int bodyLen) \<noteq> int sz - int snap_headerSize - int footerSize then (Fail ErrCorrupt, a)
                else
                  case load_loop ap cnt (take bodyLen (drop snap_headerSize f)) 0 a of
                    (Fail e, a) \<Rightarrow> (Fail e, a)
                  | (Panic, a) \<Rightarrow> (Panic, a)
                  | (Ret (br, crc), a) \<Rightarrow>
                      if unat crc \<noteq> wantCRC then (Fail ErrCorrupt, a)
                      else if br \<noteq> [] then (Fail ErrCorrupt, a)
                      else (Ret \<lparr>i_LSN = lsn, i_CreatedAtMs = createdMs, i_Keys = cnt, i_Bytes = sz\<rparr>, a))"

definition Peek :: "bytes option \<Rightarrow> Info res" where
  "Peek file =
     (case file of
        None \<Rightarrow> Fail ErrNotFound
      | Some f \<Rightarrow>
          if length f < snap_headerSize then Fail ErrEOF
          else
            bind_res (decodeHeader (take snap_headerSize f)) (\<lambda>(lsn, createdMs).
              Ret \<lparr>i_LSN = lsn, i_CreatedAtMs = createdMs, i_Keys = 0, i_Bytes = length f\<rparr>))"

section \<open>Decoding inverts encoding\<close>

lemma length_encodeHeader [simp]: "length (encodeHeader l c) = 32"
  by (simp add: encodeHeader_def Let_def fileMagic_def)

lemma i64_mod: "i64 (x mod 18446744073709551616) = i64 x"
  by (simp add: i64_def mod_simps)

lemma decode_encodeHeader [codec_simps]:
  "is_u64 l \<Longrightarrow> is_i64 c \<Longrightarrow> decodeHeader (encodeHeader l c) = Ret (l, c)"
  using unat_crc_less
  by (simp add: decodeHeader_def encodeHeader_def Let_def fileMagic_def FormatVersion_def snap_headerSize_def
      le_val_PutUint32 le_val_PutUint64 u64_def is_u64_def nat_less_iff i64_mod)

lemma below_u64: "x < 2 ^ s \<Longrightarrow> b < 128 \<Longrightarrow> s \<le> 56 \<Longrightarrow> u64 (x + b * 2 ^ s) = x + b * 2 ^ s \<and> x + b * 2 ^ s < 2 ^ (s + 7)"
proof -
  assume a: "x < 2 ^ s" "b < 128" "s \<le> 56"
  have "x + b * 2 ^ s < 2 ^ s + b * 2 ^ s" using a(1) by simp
  also have "\<dots> = (b + 1) * 2 ^ s" by simp
  also have "\<dots> \<le> 128 * 2 ^ s" using a(2) by (intro mult_right_mono) simp_all
  also have "(128 :: nat) * 2 ^ s = 2 ^ (s + 7)" by (simp add: power_add)
  finally have lt: "x + b * 2 ^ s < 2 ^ (s + 7)" .
  have "(2 :: nat) ^ (s + 7) \<le> 2 ^ 63" using a(3) by (intro power_increasing) simp_all
  with lt have "x + b * 2 ^ s < 2 ^ 63" by (rule less_le_trans)
  with lt show ?thesis by (simp add: u64_def)
qed

lemma readUvarint_loop_Uvarint:
  "uvarint_loop i s x bs = Some (v, n) \<Longrightarrow> i \<le> 9 \<Longrightarrow> s = 7 * i \<Longrightarrow> x < 2 ^ s \<Longrightarrow>
   i < n \<and> readUvarint_loop (10 - i) x s bs = (Ret v, drop (n - i) bs)"
proof (induction bs arbitrary: i s x)
  case (Cons b bs)
  obtain k where k: "10 - i = Suc k" "k = 10 - (i + 1)" using Cons.prems(2) by (cases "10 - i") auto
  show ?case
  proof (cases "bval b < 128")
    case True
    with Cons.prems have v: "v = x + bval b * 2 ^ s" "n = i + 1" "\<not> (i = 9 \<and> bval b > 1)"
      by (auto split: if_splits)
    have "u64 (x + bval b * 2 ^ s) = x + bval b * 2 ^ s"
    proof (cases "i = 9")
      case True
      with v(3) Cons.prems(3,4) have "x + bval b * 2 ^ s < 2 ^ 64"
        by (cases "bval b"; cases "bval b - 1") auto
      then show ?thesis by (simp add: u64_def)
    next
      case False
      with Cons.prems(2-4) True show ?thesis using below_u64 [of x s "bval b"] by simp
    qed
    with True v k show ?thesis by simp
  next
    case False
    have half: "m < 256 \<Longrightarrow> \<not> m < 128 \<Longrightarrow> m mod 128 = m - 128 \<and> m - 128 < 128" for m :: nat
      by (simp add: le_mod_geq)
    from half [OF nat_of_char_less_256 False] have b: "bval b mod 128 = bval b - 128" "bval b - 128 < 128" by blast+
    have i9: "i \<noteq> 9"
    proof
      assume "i = 9"
      with Cons.prems(1) False show False by (cases bs) (auto split: if_splits)
    qed
    with Cons.prems(1,2) False have nx: "uvarint_loop (i + 1) (s + 7) (x + (bval b - 128) * 2 ^ s) bs = Some (v, n)"
      by (simp add: b)
    have s56: "s \<le> 56" using Cons.prems(2,3) i9 by simp
    note u = below_u64 [OF Cons.prems(4) b(2) s56]
    from Cons.IH [OF nx] Cons.prems(2,3) i9 u have
      "i + 1 < n \<and> readUvarint_loop (10 - (i + 1)) (x + (bval b - 128) * 2 ^ s) (s + 7) bs = (Ret v, drop (n - (i + 1)) bs)" by simp
    moreover from this have "n - i = Suc (n - (i + 1))" by (simp add: Suc_diff_Suc)
    ultimately show ?thesis using False k u by simp
  qed
qed simp

lemma readUvarint_Append [codec_simps]:
  "is_u64 v \<Longrightarrow> readUvarint (AppendUvarint v @ rest) = (Ret v, rest)"
  using readUvarint_loop_Uvarint [of 0 0 0 "AppendUvarint v @ rest" v "length (AppendUvarint v)"]
    Uvarint_AppendUvarint [of v rest]
  by (simp add: readUvarint_def Uvarint_def)

lemma readVarint_Append [codec_simps]:
  "is_i64 x \<Longrightarrow> readVarint (AppendVarint x @ rest) = (Ret x, rest)"
  using unzigzag_zigzag [of x]
  by (auto simp: readVarint_def AppendVarint_def readUvarint_Append zigzag_u64 Let_def unzigzag_def odd_iff_mod_2_eq_one
      simp del: unzigzag_zigzag)


text \<open>The records the format can carry.\<close>

definition rec_fits :: "bytes \<times> Record \<Rightarrow> bool" where
  "rec_fits kr \<longleftrightarrow> length (fst kr) \<le> 1073741824 \<and> length (Value (snd kr)) \<le> 1073741824 \<and> is_i64 (ExpireAt (snd kr))"

definition rec_bytes :: "bytes \<times> Record \<Rightarrow> bytes" where
  "rec_bytes kr = AppendUvarint (length (fst kr)) @ fst kr @ AppendVarint (ExpireAt (snd kr))
     @ AppendUvarint (length (Value (snd kr))) @ Value (snd kr)"

lemma readN_append: "length xs \<le> 1073741824 \<Longrightarrow> readN (i64 (int (length xs))) (xs @ rest) = (Ret xs, rest)"
  by (simp add: readN_def is_i64_def)

lemma readEntry_bytes:
  assumes "rec_fits kr"
  shows "readEntry (rec_bytes kr @ rest) = (Ret (fst kr, snd kr, rec_bytes kr), rest)"
proof -
  have u: "is_u64 (length (fst kr))" "is_u64 (length (Value (snd kr)))" "is_i64 (ExpireAt (snd kr))"
    "length (fst kr) \<le> 1073741824" "length (Value (snd kr)) \<le> 1073741824"
    using assms by (simp_all add: rec_fits_def is_u64_def)
  have r: "\<lparr>Value = Value (snd kr), ExpireAt = ExpireAt (snd kr)\<rparr> = snd kr" by simp
  define b0 where "b0 = rec_bytes kr @ rest"
  have raw: "take (length b0 - length rest) b0 = rec_bytes kr" by (simp add: b0_def)
  have "readEntry b0 = (Ret (fst kr, snd kr, rec_bytes kr), rest)"
    unfolding readEntry_def
    apply (subst sbind_simps(1), subst b0_def, simp only: rec_bytes_def append_assoc, rule readUvarint_Append [OF u(1)])
    apply (subst sbind_simps(1), rule readN_append [OF u(4)])
    apply (subst sbind_simps(1), rule readVarint_Append [OF u(3)])
    apply (subst sbind_simps(1), rule readUvarint_Append [OF u(2)])
    apply (subst sbind_simps(1), rule readN_append [OF u(5)])
    apply (simp only: raw r)
    done
  then show ?thesis by (simp add: b0_def)
qed

lemma emit_entry_bytes:
  "emit_entry kr em = em\<lparr>em_out := em_out em @ rec_bytes kr, em_sum := crc_Update (em_sum em) (rec_bytes kr),
     em_bodyLen := em_bodyLen em + length (rec_bytes kr), em_count := em_count em + 1\<rparr>"
  by (simp add: emit_entry_def rec_bytes_def Let_def)

lemma emit_all:
  "fold emit_entry recs em = \<lparr>em_out = em_out em @ concat (map rec_bytes recs), em_count = em_count em + length recs,
     em_bodyLen = em_bodyLen em + length (concat (map rec_bytes recs)),
     em_sum = crc_Update (em_sum em) (concat (map rec_bytes recs))\<rparr>"
proof (induction recs arbitrary: em)
  case (Cons r recs)
  show ?case
    by (simp add: Cons emit_entry_bytes [of r em] crc_Update_append)
qed simp

text \<open>A receiver whose \<open>Put\<close> never fails.\<close>

definition accepting_put :: "'a applier \<Rightarrow> bool" where
  "accepting_put ap \<longleftrightarrow> (\<forall>k r a. fst (ap_Put ap k r a) = Ret ())"

lemma load_loop_bytes:
  assumes "\<forall>kr \<in> set recs. rec_fits kr" and "accepting_put ap"
  shows "load_loop ap (length recs) (concat (map rec_bytes recs) @ rest) crc a =
    (Ret (rest, crc_Update crc (concat (map rec_bytes recs))), fold (\<lambda>kr a. snd (ap_Put ap (fst kr) (snd kr) a)) recs a)"
  using assms(1)
proof (induction recs arbitrary: crc a)
  case (Cons kr recs)
  obtain a' where "ap_Put ap (fst kr) (snd kr) a = (Ret (), a')"
    using assms(2) by (metis accepting_put_def prod.collapse)
  with Cons readEntry_bytes [of kr] show ?case by (simp add: crc_Update_append)
qed simp


section \<open>Properties\<close>

lemma footer_fields:
  assumes "length ftr = footerSize" and "ftr = PutUint64 n @ PutUint64 b @ PutUint32 c @ footerMagic"
  shows "le_val (take 8 ftr) = u64 n" and "le_val (take 8 (drop 8 ftr)) = u64 b"
    and "le_val (take 4 (drop 16 ftr)) = c mod 4294967296" and "drop 20 ftr = footerMagic"
  using assms by (simp_all add: le_val_PutUint32 le_val_PutUint64)

lemma load_image:
  assumes "is_u64 lsn" and "is_i64 created" and "\<forall>kr \<in> set recs. rec_fits kr" and "length recs \<le> MaxUint64"
    and "length (concat (map rec_bytes recs)) < 2 ^ 62" and "accepting_put ap"
  shows "snap_Load (Some (image_of lsn created recs)) ap a =
    (Ret \<lparr>i_LSN = lsn, i_CreatedAtMs = created, i_Keys = length recs, i_Bytes = length (image_of lsn created recs)\<rparr>,
     fold (\<lambda>kr a. snd (ap_Put ap (fst kr) (snd kr) a)) recs a)"
proof -
  let ?body = "concat (map rec_bytes recs)"
  let ?ftr = "PutUint64 (length recs) @ PutUint64 (length ?body) @ PutUint32 (unat (crc_Update 0 ?body)) @ footerMagic"
  have fm: "length footerMagic = 8" by (simp add: footerMagic_def)
  have fl: "length ?ftr = footerSize" by (simp add: fm footerSize_def)
  have img: "image_of lsn created recs = encodeHeader lsn created @ ?body @ ?ftr"
    by (simp add: image_of_def emit_all snap_footer_def)
  have n: "u64 (length recs) = length recs" using assms(4) by (simp add: is_u64_def)
  have b: "u64 (length ?body) = length ?body" "i64 (int (length ?body)) = int (length ?body)"
    using assms(5) by (simp_all add: is_u64_def is_i64_def)
  note ff = footer_fields [OF fl refl]
  have len: "length (image_of lsn created recs) = snap_headerSize + length ?body + footerSize"
    unfolding img using fl by (simp add: snap_headerSize_def)
  have ftr: "drop (length (image_of lsn created recs) - footerSize) (image_of lsn created recs) = ?ftr"
  proof -
    have "image_of lsn created recs = (encodeHeader lsn created @ ?body) @ ?ftr" by (simp only: img append_assoc)
    moreover have "length (image_of lsn created recs) - footerSize = length (encodeHeader lsn created @ ?body)"
      unfolding len by (simp add: snap_headerSize_def)
    ultimately show ?thesis by (metis append_eq_conv_conj)
  qed
  have hd: "take snap_headerSize (image_of lsn created recs) = encodeHeader lsn created"
    by (simp add: img snap_headerSize_def)
  have bd: "take (length ?body) (drop snap_headerSize (image_of lsn created recs)) = ?body"
    by (simp add: img snap_headerSize_def)
  have lt: "unat (crc_Update 0 ?body) mod 4294967296 = unat (crc_Update 0 ?body)" using unat_crc_less by simp
  have ll: "load_loop ap (length recs) ?body 0 a = (Ret ([], crc_Update 0 ?body), fold (\<lambda>kr a. snd (ap_Put ap (fst kr) (snd kr) a)) recs a)"
    using load_loop_bytes [OF assms(3,6), of "[]" 0 a] by simp
  show ?thesis
    unfolding snap_Load_def option.case Let_def hd ftr decode_encodeHeader [OF assms(1,2)] ff n b lt bd ll
    using len by simp
qed

text \<open>
  C22: Loading the image \<open>Write\<close> produced puts exactly the emitted records, in order, and reports
  the sequence number and the number of records it was written with.
\<close>

theorem snapshot_round_trip:
  assumes "snap_Write io lsn created recs d = (Ret info, d')" and "is_u64 lsn" and "is_i64 created"
    and "\<forall>kr \<in> set recs. rec_fits kr" and "length recs \<le> MaxUint64" and "length (concat (map rec_bytes recs)) < 2 ^ 62"
    and "accepting_put ap"
  shows "snap_Load (sd_final d') ap a = (Ret info, fold (\<lambda>kr a. snd (ap_Put ap (fst kr) (snd kr) a)) recs a)"
proof -
  from assms(1) have "sd_final d' = Some (image_of lsn created recs)"
    "info = \<lparr>i_LSN = lsn, i_CreatedAtMs = created, i_Keys = length recs, i_Bytes = length (image_of lsn created recs)\<rparr>"
    by (auto simp: snap_Write_def Let_def split: if_splits option.splits)
  with load_image [OF assms(2-7)] show ?thesis by simp
qed

definition snap_calm :: snap_io where
  "snap_calm = \<lparr>sio_mkdir = True, sio_create = True, sio_write = None, sio_fsync = True, sio_stat = True,
     sio_close = True, sio_rename = True, sio_syncdir = True\<rparr>"

theorem snapshot_round_trip_witness:
  "snap_Load (sd_final (snd (snap_Write snap_calm 7 0 [(''k'', \<lparr>Value = ''v'', ExpireAt = 5\<rparr>)] \<lparr>sd_tmp = None, sd_final = None\<rparr>)))
     (mem_loader plain_env) (New ()) =
   (fst (snap_Write snap_calm 7 0 [(''k'', \<lparr>Value = ''v'', ExpireAt = 5\<rparr>)] \<lparr>sd_tmp = None, sd_final = None\<rparr>),
    Loader_Put plain_env ''k'' \<lparr>Value = ''v'', ExpireAt = 5\<rparr> (New ()))"
proof -
  let ?recs = "[(''k'', \<lparr>Value = ''v'', ExpireAt = 5 :: int\<rparr>)]"
  obtain info d' where w: "snap_Write snap_calm 7 0 ?recs \<lparr>sd_tmp = None, sd_final = None\<rparr> = (Ret info, d')"
    by (simp add: snap_Write_def snap_calm_def Let_def)
  have "rec_fits (''k'', \<lparr>Value = ''v'', ExpireAt = 5\<rparr>)" by (simp add: rec_fits_def is_i64_def)
  moreover have "length (concat (map rec_bytes ?recs)) < 2 ^ 62"
    by (simp add: rec_bytes_def AppendVarint_def zigzag_def AppendUvarint.simps)
  ultimately have "snap_Load (sd_final d') (mem_loader plain_env) (New ()) =
      (Ret info, fold (\<lambda>kr a. snd (ap_Put (mem_loader plain_env) (fst kr) (snd kr) a)) ?recs (New ()))"
    using snapshot_round_trip [OF w, of "mem_loader plain_env" "New ()"]
    by (simp add: is_u64_def accepting_put_def mem_loader_def)
  then show ?thesis by (simp add: w mem_loader_def)
qed


end
