(* ===== verification/Persist.thy ===== *)
theory Persist
  imports Wal_Log Snapshot
begin

text \<open>
  The durable engine, \<open>src/internal/persist/persist.go\<close>: the memory engine journalling to the
  write-ahead log, with snapshots. The log is shown to meet \<open>journal_contract\<close>, so memory and
  log stay in step; with what \<open>Wal_Log\<close> shows about crashes, everything acknowledged under the
  policy \<open>always\<close> survives a power cut, everything flushed survives a kill, and a snapshot with
  the log after it rebuilds the keyspace.
\<close>

section \<open>The engine\<close>

text \<open>The fields of \<open>Engine\<close> besides the embedded memory store, whose journal state they are.\<close>

record pstate =
  e_log :: "Log option"
  e_dirty :: nat
  e_lastSaveMs :: int
  e_lastSaveOK :: bool
  e_savesTotal :: nat
  e_savesFailed :: nat
  e_closed :: bool
  e_snap :: snapdir

type_synonym Engine = "pstate memstore"

text \<open>A save point: \<open>After\<close> in nanoseconds and \<open>Changes\<close>.\<close>

record persist_opt =
  p_wal :: wal_env
  p_SavePoints :: "(int \<times> nat) list"

section \<open>The journal\<close>

definition with_log :: "pstate \<Rightarrow> 'a res \<times> Log \<Rightarrow> 'a res \<times> pstate" where
  "with_log j x = (fst x, j\<lparr>e_log := Some (snd x)\<rparr>)"

definition p_LogPut :: "persist_opt \<Rightarrow> bytes \<Rightarrow> Record \<Rightarrow> (pstate, nat) action" where
  "p_LogPut P key rec j =
     (case e_log j of
        None \<Rightarrow> (Ret 0, j)
      | Some lg \<Rightarrow> with_log (j\<lparr>e_dirty := u64 (e_dirty j + 1)\<rparr>) (AppendPut (p_wal P) key rec lg))"

definition p_LogDelete :: "persist_opt \<Rightarrow> bytes \<Rightarrow> (pstate, nat) action" where
  "p_LogDelete P key j =
     (case e_log j of
        None \<Rightarrow> (Ret 0, j)
      | Some lg \<Rightarrow> with_log (j\<lparr>e_dirty := u64 (e_dirty j + 1)\<rparr>) (AppendDelete (p_wal P) key lg))"

definition p_LogFlushAll :: "persist_opt \<Rightarrow> (pstate, nat) action" where
  "p_LogFlushAll P j =
     (case e_log j of
        None \<Rightarrow> (Ret 0, j)
      | Some lg \<Rightarrow> with_log (j\<lparr>e_dirty := u64 (e_dirty j + 1)\<rparr>) (AppendFlushAll (p_wal P) lg))"

definition p_LogBatch :: "persist_opt \<Rightarrow> Mutation list \<Rightarrow> (pstate, nat) action" where
  "p_LogBatch P muts j =
     (case e_log j of
        None \<Rightarrow> (Ret 0, j)
      | Some lg \<Rightarrow> with_log (j\<lparr>e_dirty := u64 (e_dirty j + length muts)\<rparr>) (AppendBatch (p_wal P) muts lg))"

definition p_Await :: "persist_opt \<Rightarrow> nat \<Rightarrow> (pstate, unit) action" where
  "p_Await P lsn j =
     (case e_log j of
        None \<Rightarrow> (Ret (), j)
      | Some lg \<Rightarrow>
          if wo_Policy (p_wal P) \<noteq> SyncAlways then (Ret (), j) else with_log j (Sync (p_wal P) lsn lg))"

definition persist_journal :: "persist_opt \<Rightarrow> pstate journal" where
  "persist_journal P =
     \<lparr>LogPut = p_LogPut P, LogDelete = p_LogDelete P, LogFlushAll = p_LogFlushAll P, LogBatch = p_LogBatch P,
      Await = p_Await P\<rparr>"

definition FlushWAL :: "persist_opt \<Rightarrow> (Engine, unit) action" where
  "FlushWAL P e =
     (case e_log (jst e) of
        None \<Rightarrow> (Ret (), e)
      | Some lg \<Rightarrow> (case with_log (jst e) (Flush (p_wal P) lg) of (r, j) \<Rightarrow> (r, e\<lparr>jst := j\<rparr>)))"

definition Engine_Sync :: "persist_opt \<Rightarrow> (Engine, unit) action" where
  "Engine_Sync P e =
     (case e_log (jst e) of
        None \<Rightarrow> (Ret (), e)
      | Some lg \<Rightarrow> (case with_log (jst e) (SyncAll (p_wal P) lg) of (r, j) \<Rightarrow> (r, e\<lparr>jst := j\<rparr>)))"

section \<open>Snapshots\<close>

definition keyspace_records :: "pstate mem_env \<Rightarrow> Engine \<Rightarrow> (bytes \<times> Record) list" where
  "keyspace_records M e = ForEach M (\<lambda>key rec acc. (True, acc @ [(key, rec)])) e []"

text \<open>
  \<open>clk 0\<close> is the clock reading handed to the image and \<open>clk 1\<close> the one stored afterwards. A
  failing trim is only logged.
\<close>

definition Engine_Snapshot :: "persist_opt \<Rightarrow> pstate mem_env \<Rightarrow> snap_io \<Rightarrow> clock \<Rightarrow> (Engine, unit) action" where
  "Engine_Snapshot P M sio clk e =
     (let j = jst e;
          lsn = (case e_log j of None \<Rightarrow> 0 | Some lg \<Rightarrow> Log_LastLSN lg);
          dirtyAtStart = e_dirty j in
      case snap_Write sio lsn (clk 0) (keyspace_records M e) (e_snap j) of
        (Ret info, sd) \<Rightarrow>
          let j = j\<lparr>e_snap := sd\<rparr>;
              j = (case e_log j of None \<Rightarrow> j | Some lg \<Rightarrow> j\<lparr>e_log := Some (snd (TrimTo (p_wal P) lsn lg))\<rparr>);
              j = j\<lparr>e_dirty := u64 (e_dirty j + u64 (18446744073709551616 - dirtyAtStart)), e_lastSaveMs := clk 1,
                     e_lastSaveOK := True, e_savesTotal := u64 (e_savesTotal j + 1)\<rparr>
          in (Ret (), e\<lparr>jst := j\<rparr>)
      | (r, sd) \<Rightarrow>
          (bind_res r (\<lambda>_. Ret ()),
           e\<lparr>jst := j\<lparr>e_snap := sd, e_savesFailed := u64 (e_savesFailed j + 1), e_lastSaveOK := False\<rparr>\<rparr>))"

definition shouldSave :: "persist_opt \<Rightarrow> clock \<Rightarrow> pstate \<Rightarrow> bool" where
  "shouldSave P clk j =
     (let dirty = e_dirty j in
      if dirty = 0 then False
      else
        let elapsed = i64 (i64 (clk 0 - e_lastSaveMs j) * 1000000) in
        list_ex (\<lambda>(after, changes). elapsed \<ge> after \<and> dirty \<ge> changes) (p_SavePoints P))"

definition LastSnapshot :: "pstate \<Rightarrow> int \<times> bool" where
  "LastSnapshot j = (sgn (e_lastSaveMs j) * (\<bar>e_lastSaveMs j\<bar> div 1000), e_savesTotal j > 0)"

definition Engine_Close :: "persist_opt \<Rightarrow> pstate mem_env \<Rightarrow> snap_io \<Rightarrow> clock \<Rightarrow> (Engine, unit) action" where
  "Engine_Close P M sio clk e =
     (if e_closed (jst e) then (Ret (), e)
      else
        let e = e\<lparr>jst := (jst e)\<lparr>e_closed := True\<rparr>\<rparr>;
            (r1, e) = (if e_dirty (jst e) > 0 \<and> p_SavePoints P \<noteq> [] then Engine_Snapshot P M sio clk e else (Ret (), e));
            (r2, e) = (case e_log (jst e) of
                         None \<Rightarrow> (Ret (), e)
                       | Some lg \<Rightarrow> (case with_log (jst e) (Log_Close (p_wal P) lg) of (r, j) \<Rightarrow> (r, e\<lparr>jst := j\<rparr>)));
            (r3, e) = mem_Close e
        in (bind_res r1 (\<lambda>_. bind_res r2 (\<lambda>_. r3)), e))"

section \<open>Recovery\<close>

record Recovery =
  SnapshotLoaded :: bool
  SnapshotKeys :: nat
  SnapshotLSN :: nat
  SnapshotAgeMs :: int
  LogApplied :: nat
  LogSkipped :: nat
  LogSegments :: nat
  LogBytes :: nat
  StartLSN :: nat
  LogTruncated :: bool

definition Recovery0 :: Recovery where
  "Recovery0 = \<lparr>SnapshotLoaded = False, SnapshotKeys = 0, SnapshotLSN = 0, SnapshotAgeMs = 0, LogApplied = 0,
     LogSkipped = 0, LogSegments = 0, LogBytes = 0, StartLSN = 0, LogTruncated = False\<rparr>"

text \<open>What \<open>Replay\<close> did to the files; a truncated one has been synced.\<close>

definition after_replay :: "sfile list \<Rightarrow> files \<Rightarrow> sfile list" where
  "after_replay d fs =
     map2 (\<lambda>f (q, data). if data = f_data f then f else f\<lparr>f_data := data, f_sync := length data\<rparr>) d fs"

definition Engine_Open ::
  "persist_opt \<Rightarrow> pstate mem_env \<Rightarrow> disk_io \<Rightarrow> clock \<Rightarrow> snapdir \<Rightarrow> sfile list \<Rightarrow> (Engine \<times> Recovery) res" where
  "Engine_Open P M dio clk sd d =
     (let j0 = \<lparr>e_log = None, e_dirty = 0, e_lastSaveMs = 0, e_lastSaveOK = False, e_savesTotal = 0, e_savesFailed = 0,
                e_closed = False, e_snap = sd\<rparr>;
          e = New j0 in
      case (case snap_Load (sd_final sd) (mem_loader M) e of
              (Ret info, e) \<Rightarrow>
                Ret (e, Recovery0\<lparr>SnapshotLoaded := True, SnapshotKeys := i_Keys info, SnapshotLSN := i_LSN info,
                           SnapshotAgeMs := i64 (clk 0 - i_CreatedAtMs info)\<rparr>)
            | (Fail er, e) \<Rightarrow> if er = ErrNotFound then Ret (e, Recovery0) else Fail (OtherErr ''persist: load snapshot'')
            | (Panic, e) \<Rightarrow> Panic) of
        Fail er \<Rightarrow> Fail er
      | Panic \<Rightarrow> Panic
      | Ret (e, rec) \<Rightarrow>
          (case Replay dio (files_of d) (SnapshotLSN rec) (mem_loader M) e of
             (Ret _, res, e, fs) \<Rightarrow>
               (case Open (p_wal P) (LastLSN res) (after_replay d fs) of
                  (Ret lg, _) \<Rightarrow>
                    Ret (e\<lparr>jst := (jst e)\<lparr>e_log := Some lg, e_lastSaveMs := clk 1, e_lastSaveOK := True\<rparr>\<rparr>,
                         rec\<lparr>LogApplied := Applied res, LogSkipped := Skipped res, LogSegments := Segments res,
                             LogBytes := BytesRead res, LogTruncated := Truncated res, StartLSN := LastLSN res\<rparr>)
                | (Fail er, _) \<Rightarrow> Fail er
                | (Panic, _) \<Rightarrow> Panic)
           | (Fail er, _) \<Rightarrow> Fail er
           | (Panic, _) \<Rightarrow> Panic))"

section \<open>The engine is a journal\<close>

text \<open>What a recovery of the log with its buffer flushed would replay after \<open>start\<close>.\<close>

definition collector :: "entry list applier" where
  "collector =
     \<lparr>ap_Put = (\<lambda>k r es. (Ret (), es @ [EPut k r])), ap_Delete = (\<lambda>k es. (Ret (), es @ [EDelete k])),
      ap_FlushAll = (\<lambda>es. (Ret (), es @ [EFlushAll])), ap_Batch = (\<lambda>muts es. (Ret (), es @ [EBatch muts]))\<rparr>"

lemma collector_to: "apply_to collector e es = (Ret (), es @ [e])"
  by (cases e) (simp_all add: collector_def)

lemma accepting_collector: "accepting collector"
  by (simp add: accepting_def collector_to)

lemma apply_all_collector: "apply_all collector es acc = acc @ es"
  by (induction es arbitrary: acc) (simp_all add: collector_to)

definition with_buffer :: "Log \<Rightarrow> files" where
  "with_buffer l = files_of (on_file (l_segSeq l) (\<lambda>f. f\<lparr>f_data := f_data f @ l_buf l\<rparr>) (l_disk l))"

definition logged :: "nat \<Rightarrow> Log \<Rightarrow> entry list" where
  "logged start l = (case Replay calm (with_buffer l) start collector [] of (_, _, es, _) \<Rightarrow> es)"

lemma logged_content:
  assumes "content l0 es l"
  shows "logged start l = after start l0 es"
proof -
  from assms obtain ims cur p where inv: "log_inv l0 ims cur p l" and es: "log_entries (ims @ [cur]) @ p = es"
    by (auto simp: content_def holds_def)
  note i = log_invD [OF inv]
  let ?cur = "cur\<lparr>im_es := im_es cur @ p\<rparr>"
  from i(3,2) obtain d0 f where d: "l_disk l = d0 @ [f]" "files_of d0 = dir_of ims []" "f_seq f = im_seq cur"
    "f_data f = seg_bytes cur" "im_seq cur \<notin> f_seq ` set d0" by (rule disk_okE)
  have "with_buffer l = dir_of (ims @ [?cur]) []"
    using d i(4) seg_bytes_pend [OF inv] by (simp add: with_buffer_def on_file_snoc dir_of_snoc)
  moreover have "sorted_wrt (<) (map im_seq (ims @ [?cur]))" using i(2) by simp
  moreover have "log_entries (ims @ [?cur]) = es" using es by simp
  ultimately show ?thesis
    using Replay_dir_of [OF i(1) _ accepting_collector, of "[]" start "[]"]
    by (auto simp: logged_def apply_all_collector)
qed

lemma content_ends:
  assumes "content l0 es l"
  shows "l_nextLSN l = l0 + length es" and "l_lastAppended l + 1 = l_nextLSN l" and "0 < l0"
    and "l_syncedLSN l \<le> l_lastAppended l"
proof -
  from assms obtain w p where h: "holds l0 w p l" "es = w @ p" by (auto simp: content_def)
  note e = holds_ends [OF h(1)]
  show "l_nextLSN l = l0 + length es" and "l_lastAppended l + 1 = l_nextLSN l" and "0 < l0"
    and "l_syncedLSN l \<le> l_lastAppended l" using e(1-5) h(2) by simp_all
qed

text \<open>
  The parts of the contract: the entries logged after \<open>start\<close>; the invariant, with the snapshot
  directory \<open>sd\<close>; a log on which a system call failed, or whose numbers are used up, is broken.
\<close>

definition p_entries :: "nat \<Rightarrow> pstate \<Rightarrow> entry list" where
  "p_entries start j = (case e_log j of None \<Rightarrow> [] | Some lg \<Rightarrow> logged start lg)"

definition log_covers :: "nat \<Rightarrow> Log \<Rightarrow> bool" where
  "log_covers start lg \<longleftrightarrow> (\<exists>l0 es. content l0 es lg \<and> l0 \<le> start + 1) \<and> start < l_nextLSN lg
     \<and> (l_closed lg \<longrightarrow> l_lastAppended lg \<le> l_syncedLSN lg)"

definition p_inv :: "nat \<Rightarrow> snapdir \<Rightarrow> pstate \<Rightarrow> bool" where
  "p_inv start sd j \<longleftrightarrow> e_snap j = sd \<and> (case e_log j of None \<Rightarrow> False | Some lg \<Rightarrow> log_covers start lg)"

definition p_broken :: "persist_opt \<Rightarrow> pstate \<Rightarrow> bool" where
  "p_broken P j \<longleftrightarrow> (case e_log j of None \<Rightarrow> True | Some lg \<Rightarrow> io_failed (p_wal P) lg \<or> MaxUint64 < l_nextLSN lg)"

definition p_dur :: "persist_opt \<Rightarrow> pstate \<Rightarrow> bool" where
  "p_dur P j \<longleftrightarrow> (case e_log j of None \<Rightarrow> True
     | Some lg \<Rightarrow> wo_Policy (p_wal P) = SyncAlways \<longrightarrow> l_lastAppended lg \<le> l_syncedLSN lg)"

definition p_last :: "pstate \<Rightarrow> nat" where
  "p_last j = (case e_log j of None \<Rightarrow> 0 | Some lg \<Rightarrow> l_lastAppended lg)"

fun log_entry :: "persist_opt \<Rightarrow> entry \<Rightarrow> (pstate, nat) action" where
  "log_entry P (EPut k r) = p_LogPut P k r"
| "log_entry P (EDelete k) = p_LogDelete P k"
| "log_entry P EFlushAll = p_LogFlushAll P"
| "log_entry P (EBatch muts) = p_LogBatch P muts"

lemma log_entry_Some:
  "e_log j = Some lg \<Longrightarrow> \<exists>n. log_entry P x j =
     with_log (j\<lparr>e_dirty := n\<rparr>) (log_append (p_wal P) (entry_type x) (entry_payload x) lg)"
  by (cases x)
    (auto simp: p_LogPut_def p_LogDelete_def p_LogFlushAll_def p_LogBatch_def AppendPut_def AppendDelete_def
      AppendFlushAll_def AppendBatch_def)

lemma log_entry_None: "e_log j = None \<Longrightarrow> log_entry P x j = (Ret 0, j)"
  by (cases x) (auto simp: p_LogPut_def p_LogDelete_def p_LogFlushAll_def p_LogBatch_def)

lemma append_covers:
  assumes c: "log_covers start lg" and run: "log_append E (entry_type x) (entry_payload x) lg = (rn, lg')"
    and calm: "\<not> io_failed E lg'" and x: "fits x" and b: "l_nextLSN lg' \<le> MaxUint64"
  shows "log_covers start lg' \<and>
    (if l_closed lg then rn = Fail ErrClosed \<and> lg' = lg
     else rn = Ret (l_nextLSN lg) \<and> l_nextLSN lg' = l_nextLSN lg + 1 \<and> l_lastAppended lg' = l_nextLSN lg
       \<and> l_syncedLSN lg \<le> l_syncedLSN lg' \<and> logged start lg' = logged start lg @ [x])"
proof -
  from c obtain l0 w p where h: "holds l0 w p lg" and l0: "l0 \<le> start + 1" and s: "start < l_nextLSN lg"
    by (auto simp: log_covers_def content_def)
  note h' = contentI [OF h refl]
  note a = append_inv [OF h run calm x b]
  show ?thesis
  proof (cases "l_closed lg")
    case True
    with a c show ?thesis by simp
  next
    case False
    with a have k: "content l0 ((w @ p) @ [x]) lg'" and r: "rn = Ret (l_nextLSN lg)" "\<not> l_closed lg'"
      "l_nextLSN lg' = l_nextLSN lg + 1" "l_syncedLSN lg \<le> l_syncedLSN lg'" by auto
    have "logged start lg' = logged start lg @ [x]"
      unfolding logged_content [OF k] logged_content [OF h'] after_append [of start l0 "w @ p"]
      using content_ends(1) [OF h'] s by (simp add: after_def)
    moreover have "log_covers start lg'" using k l0 s r by (auto simp: log_covers_def)
    ultimately show ?thesis using False r content_ends(2) [OF k] by auto
  qed
qed

lemma log_entry_appends:
  assumes run: "log_entry P x j = (rn, j')"
  shows "appends (p_inv start sd) (p_broken P) (p_dur P) p_last fits (p_entries start) x rn j j'"
proof (cases "e_log j")
  case None
  with log_entry_None [OF None] run show ?thesis by (auto simp: appends_def p_broken_def)
next
  case (Some lg)
  from log_entry_Some [OF Some, of P x] run obtain n lg' where
    a: "log_append (p_wal P) (entry_type x) (entry_payload x) lg = (rn, lg')" and
    j': "j' = j\<lparr>e_dirty := n, e_log := Some lg'\<rparr>"
    by (cases "log_append (p_wal P) (entry_type x) (entry_payload x) lg") (auto simp: with_log_def)
  have nb: "\<not> p_broken P j" if "\<not> p_broken P j'"
    using that io_failed_mono [of "p_wal P" lg lg'] tick_ops(6) [OF a] next_ops(6) [OF a] Some
    by (auto simp: p_broken_def j')
  show ?thesis
    unfolding appends_def
  proof (intro impI conjI nb)
    assume b: "\<not> p_broken P j'" and i: "p_inv start sd j" and x: "fits x"
    have c: "log_covers start lg" "e_snap j = sd" using i Some by (auto simp: p_inv_def)
    have nx: "0 < l_nextLSN lg" using c by (auto simp: log_covers_def)
    have "\<not> io_failed (p_wal P) lg'" "l_nextLSN lg' \<le> MaxUint64" using b by (auto simp: p_broken_def j')
    from append_covers [OF c(1) a this(1) x this(2)] c(2) nx Some
    show "p_inv start sd j'" and "case rn of
       Ret lsn \<Rightarrow> 0 < lsn \<and> p_last j' \<le> lsn \<and> p_entries start j' = p_entries start j @ [x]
     | _ \<Rightarrow> p_entries start j' = p_entries start j \<and> (p_dur P j \<longrightarrow> p_dur P j')"
      by (auto simp: p_inv_def p_last_def p_entries_def p_dur_def j' split: if_splits)
  qed
qed

lemma await_law:
  assumes run: "p_Await P lsn j = (ru, j')" and b: "\<not> p_broken P j'"
  shows "\<not> p_broken P j \<and> (p_inv start sd j \<longrightarrow> p_inv start sd j' \<and> p_entries start j' = p_entries start j
    \<and> (p_last j \<le> lsn \<longrightarrow> p_dur P j'))"
proof (cases "\<exists>lg. e_log j = Some lg \<and> wo_Policy (p_wal P) = SyncAlways")
  case False
  with run have "j' = j" by (auto simp: p_Await_def split: option.splits)
  moreover have "p_dur P j" using False by (auto simp: p_dur_def split: option.splits)
  ultimately show ?thesis using b by simp
next
  case True
  then obtain lg where lg: "e_log j = Some lg" "wo_Policy (p_wal P) = SyncAlways" by blast
  from run lg obtain lg' where a: "Sync (p_wal P) lsn lg = (ru, lg')" and j': "j' = j\<lparr>e_log := Some lg'\<rparr>"
    by (cases "Sync (p_wal P) lsn lg") (auto simp: p_Await_def with_log_def)
  have io: "\<not> io_failed (p_wal P) lg'" using b by (simp add: p_broken_def j')
  have nb: "\<not> p_broken P j"
    using b io_failed_mono [of "p_wal P" lg lg'] tick_ops(3) [OF a] next_ops(3) [OF a] lg(1)
    by (auto simp: p_broken_def j')
  show ?thesis
  proof (intro conjI nb impI)
    assume i: "p_inv start sd j"
    then have c: "log_covers start lg" by (simp add: p_inv_def lg(1))
    then obtain l0 w p where h: "holds l0 w p lg" and l0: "l0 \<le> start + 1"
      by (auto simp: log_covers_def content_def)
    note sy = Sync_inv [OF h a io]
    have "log_covers start lg' \<and> logged start lg' = logged start lg \<and> (p_last j \<le> lsn \<longrightarrow> l_lastAppended lg' \<le> l_syncedLSN lg')"
    proof (cases "l_closed lg")
      case True
      with sy c show ?thesis by (auto simp: log_covers_def)
    next
      case False
      with sy have k: "content l0 (w @ p) lg'" "same_ends lg lg'" "min lsn (l_lastAppended lg) \<le> l_syncedLSN lg'" by auto
      have "log_covers start lg'" using k(1,2) l0 c False by (auto simp: log_covers_def same_ends_def)
      then show ?thesis
        using k(2,3) lg(1) logged_content [OF k(1)] logged_content [OF contentI [OF h refl]]
        by (auto simp: same_ends_def p_last_def)
    qed
    then show "p_inv start sd j'" and "p_entries start j' = p_entries start j" and "p_last j \<le> lsn \<Longrightarrow> p_dur P j'"
      using i lg(1) by (auto simp: p_inv_def p_entries_def p_dur_def j')
  qed
qed

lemma persist_journal_log:
  "LogPut (persist_journal P) k r = log_entry P (EPut k r)" "LogDelete (persist_journal P) k = log_entry P (EDelete k)"
  "LogFlushAll (persist_journal P) = log_entry P EFlushAll" "LogBatch (persist_journal P) muts = log_entry P (EBatch muts)"
  "Await (persist_journal P) = p_Await P"
  by (simp_all add: persist_journal_def)

interpretation pj: journal_contract "persist_journal P" "p_entries start" base "p_inv start sd" "p_broken P" "p_dur P"
    p_last fits for P start base sd
  by unfold_locales (unfold persist_journal_log, (rule log_entry_appends await_law, assumption+)+)

section \<open>Recovery rebuilds the keyspace\<close>

definition put_of :: "bytes \<times> Record \<Rightarrow> entry" where
  "put_of kr = EPut (fst kr) (snd kr)"

definition image_fits :: "nat \<Rightarrow> int \<Rightarrow> (bytes \<times> Record) list \<Rightarrow> bool" where
  "image_fits lsn created recs \<longleftrightarrow> is_u64 lsn \<and> is_i64 created \<and> (\<forall>kr \<in> set recs. rec_fits kr)
     \<and> length recs \<le> MaxUint64 \<and> length (concat (map rec_bytes recs)) < 2 ^ 62"

text \<open>The snapshot directory stands for the keyspace \<open>base\<close>, as it was when record \<open>start\<close> was logged.\<close>

definition anchored :: "snapdir \<Rightarrow> nat \<Rightarrow> keyspace \<Rightarrow> bool" where
  "anchored sd start base \<longleftrightarrow> sd_final sd = None \<and> start = 0 \<and> base = Map.empty
     \<or> (\<exists>created recs. sd_final sd = Some (image_of start created recs) \<and> image_fits start created recs
          \<and> base = fold apply_entry (map put_of recs) Map.empty)"

lemma jst_irrelevant [simp]:
  "view M (e\<lparr>jst := j\<rparr>) = view M e" "mem_inv M (e\<lparr>jst := j\<rparr>) = mem_inv M e"
  by (simp_all add: view_def mem_inv_def fun_eq_iff)

lemma jst_load_entry: "jst (load_entry M x s) = jst s \<and> isDead (load_entry M x s) = isDead s"
proof -
  have lp: "jst (Loader_Put M k r s) = jst s \<and> isDead (Loader_Put M k r s) = isDead s" for k r and s :: "'a memstore"
    by (simp add: Loader_Put_def upd_shard_def)
  have ld: "jst (Loader_Delete M k s) = jst s \<and> isDead (Loader_Delete M k s) = isDead s" for k and s :: "'a memstore"
    by (simp add: Loader_Delete_def upd_shard_def split: option.split)
  have lb: "jst (Loader_Batch M muts s) = jst s \<and> isDead (Loader_Batch M muts s) = isDead s" for muts and s :: "'a memstore"
    unfolding Loader_Batch_def by (induction muts arbitrary: s) (auto simp: lp ld)
  have lf: "jst (fold (\<lambda>i. upd_shard i (\<lambda>_. empty_shard)) is s) = jst s
    \<and> isDead (fold (\<lambda>i. upd_shard i (\<lambda>_. empty_shard)) is s) = isDead s" for "is" and s :: "'a memstore"
    by (induction "is" arbitrary: s) (auto simp: upd_shard_def)
  show ?thesis by (cases x) (simp_all add: lp ld lb lf Loader_FlushAll_def)
qed

lemma load_all_keeps:
  "jst (fold (load_entry M) es s) = jst s" "isDead (fold (load_entry M) es s) = isDead s"
  "mem_inv M s \<Longrightarrow> mem_inv M (fold (load_entry M) es s)"
  by (induction es arbitrary: s) (simp_all add: jst_load_entry load_entry_inv)

lemma load_puts: "fold (\<lambda>kr a. snd (ap_Put (mem_loader M) (fst kr) (snd kr) a)) recs s = fold (load_entry M) (map put_of recs) s"
  by (induction recs arbitrary: s) (simp_all add: mem_loader_def put_of_def)

lemma load_anchored:
  assumes "anchored sd start base"
  shows "(sd_final sd = None \<and> start = 0 \<and> base = Map.empty) \<or>
    (\<exists>info es. snap_Load (sd_final sd) (mem_loader M) s = (Ret info, fold (load_entry M) es s)
       \<and> i_LSN info = start \<and> base = fold apply_entry es Map.empty)"
proof (cases "sd_final sd")
  case None
  with assms show ?thesis by (auto simp: anchored_def)
next
  case (Some f)
  with assms obtain created recs where f: "f = image_of start created recs" "image_fits start created recs"
    "base = fold apply_entry (map put_of recs) Map.empty" by (auto simp: anchored_def)
  have "accepting_put (mem_loader M)" by (simp add: accepting_put_def mem_loader_def)
  with load_image [of start created recs "mem_loader M" s] f(2)
  show ?thesis unfolding Some f(1,3) load_puts image_fits_def by auto
qed

lemma after_replay_files: "files_of d = dir_of ims t \<Longrightarrow> files_of (after_replay d (dir_of ims [])) = dir_of ims []"
proof -
  assume a: "files_of d = dir_of ims t"
  have m: "map f_seq d = map fst (dir_of ims [])"
    using arg_cong [OF a, of "map fst"] by (simp add: files_of_def comp_def fst_dir_of)
  have "files_of (after_replay d fs) = fs" if "map f_seq d = map fst fs" for fs
    using that
  proof (induction d arbitrary: fs)
    case (Cons f d)
    then show ?case by (cases fs) (auto simp: after_replay_def files_of_def)
  qed (simp add: after_replay_def files_of_def)
  from this [OF m] show ?thesis .
qed

lemma after_replay_synced:
  "\<forall>f \<in> set d. f_sync f = length (f_data f) \<and> f_entry f \<Longrightarrow>
   \<forall>f \<in> set (after_replay d fs). f_sync f = length (f_data f) \<and> f_entry f"
  by (auto simp: after_replay_def dest!: set_zip_leftD split: if_splits prod.splits)

lemma Engine_Open_files:
  assumes sd: "anchored sd start base" and fs: "crash_img l0 es n (files_of d)" and l0: "l0 \<le> start + 1"
    and st: "start < l0 + length es" and io: "\<forall>i < 4. io (p_wal P) i = None"
  shows "\<exists>e rec lg. Engine_Open P M calm clk sd d = Ret (e, rec) \<and> view M e = fold apply_entry (after start l0 es) base
    \<and> mem_inv M e \<and> e_log (jst e) = Some lg \<and> e_snap (jst e) = sd
    \<and> ((\<forall>f \<in> set d. f_sync f = length (f_data f) \<and> f_entry f) \<longrightarrow>
         log_covers start lg \<and> logged start lg = after start l0 es \<and> l_lastAppended lg \<le> l_syncedLSN lg
         \<and> \<not> p_broken P (jst e))"
proof -
  from fs obtain ims t where d: "files_of d = dir_of ims t" "t = [] \<or> torn t" "log_ok l0 ims"
    "sorted_wrt (<) (map im_seq ims)" "log_entries ims = es" by (auto simp: crash_img_def)
  define j0 where "j0 = \<lparr>e_log = None, e_dirty = 0, e_lastSaveMs = 0, e_lastSaveOK = False, e_savesTotal = 0,
    e_savesFailed = 0, e_closed = False, e_snap = sd\<rparr>"
  obtain es0 where b: "base = fold apply_entry es0 Map.empty" and ld:
    "\<exists>rec. (case snap_Load (sd_final sd) (mem_loader M) (New j0) of
              (Ret info, e) \<Rightarrow>
                Ret (e, Recovery0\<lparr>SnapshotLoaded := True, SnapshotKeys := i_Keys info, SnapshotLSN := i_LSN info,
                           SnapshotAgeMs := i64 (clk 0 - i_CreatedAtMs info)\<rparr>)
            | (Fail er, e) \<Rightarrow> if er = ErrNotFound then Ret (e, Recovery0) else Fail (OtherErr ''persist: load snapshot'')
            | (Panic, e) \<Rightarrow> Panic) = Ret (fold (load_entry M) es0 (New j0), rec) \<and> SnapshotLSN rec = start"
    using load_anchored [OF sd, of M "New j0"]
  proof
    assume "sd_final sd = None \<and> start = 0 \<and> base = Map.empty"
    then show thesis by (intro that [of "[]"]) (auto simp: snap_Load_def Recovery0_def)
  next
    assume "\<exists>info es. snap_Load (sd_final sd) (mem_loader M) (New j0) = (Ret info, fold (load_entry M) es (New j0))
      \<and> i_LSN info = start \<and> base = fold apply_entry es Map.empty"
    then obtain info es where "snap_Load (sd_final sd) (mem_loader M) (New j0) = (Ret info, fold (load_entry M) es (New j0))"
      "i_LSN info = start" "base = fold apply_entry es Map.empty" by blast
    then show thesis by (intro that [of es]) auto
  qed
  let ?e1 = "fold (load_entry M) es0 (New j0)"
  let ?e2 = "fold (load_entry M) (after start l0 es) ?e1"
  from Replay_dir_of [OF d(3,4) accepting_mem_loader d(2), of start M ?e1] obtain res where
    rp: "Replay calm (files_of d) start (mem_loader M) ?e1 = (Ret (), res, ?e2, dir_of ims [])"
    and res: "reports l0 (length es) (length (after start l0 es)) (ims \<noteq> [] \<and> torn t) (ReplayResult0 start) res"
    unfolding d(1,5) apply_all_mem_loader by blast
  have ll: "LastLSN res + 1 = l0 + length es"
    using res l0 st by (auto simp: reports_def ReplayResult0_def split: if_splits)
  let ?d = "after_replay d (dir_of ims [])"
  note fd = after_replay_files [OF d(1)]
  from Open_succeeds [OF d(3,4) fd io] obtain lg where op: "Open (p_wal P) (LastLSN res) ?d = (Ret lg, l_disk lg)" by blast
  from ld rp op obtain rec where
    ret: "Engine_Open P M calm clk sd d =
      Ret (?e2\<lparr>jst := (jst ?e2)\<lparr>e_log := Some lg, e_lastSaveMs := clk 1, e_lastSaveOK := True\<rparr>\<rparr>, rec)"
    unfolding Engine_Open_def Let_def j0_def [symmetric] by auto
  have vw: "view M (?e2\<lparr>jst := j\<rparr>) = fold apply_entry (after start l0 es) base" for j
    by (simp add: load_all_view view_New b)
  have mi: "mem_inv M (?e2\<lparr>jst := j\<rparr>)" for j by (simp add: load_all_keeps(3) mem_inv_New)
  have lgd: "log_covers start lg \<and> logged start lg = after start l0 es \<and> l_lastAppended lg \<le> l_syncedLSN lg
      \<and> \<not> io_failed (p_wal P) lg \<and> l_nextLSN lg \<le> MaxUint64"
    if "\<forall>f \<in> set d. f_sync f = length (f_data f) \<and> f_entry f"
  proof -
    from after_replay_synced [OF that] have "stable_dir l0 ims ?d" using d fd by (auto simp: stable_dir_def)
    from Open_inv [OF this _ op] ll d(5) have o: "holds l0 es [] lg" "\<not> l_closed lg" "\<not> io_failed (p_wal P) lg"
      "l_syncedLSN lg = LastLSN res" by auto
    have c: "content l0 es lg" by (rule contentI [OF o(1)]) simp
    note ce = content_ends [OF c]
    have "l_nextLSN lg \<le> MaxUint64" using ce(1) d(3,5) by (simp add: log_ok_def)
    moreover have "log_covers start lg" using c l0 st o(2) ce(1) by (auto simp: log_covers_def)
    moreover have "l_lastAppended lg \<le> l_syncedLSN lg" using ce(1,2) o(4) ll by simp
    ultimately show ?thesis using o(3) logged_content [OF c] by simp
  qed
  show ?thesis
    by (rule exI, rule exI, rule exI [of _ lg], rule conjI [OF ret])
      (use vw mi lgd in \<open>auto simp: load_all_keeps New_def j0_def p_broken_def\<close>)
qed

section \<open>Snapshots cover the keyspace\<close>

lemma scan_collect: "scan_batch (\<lambda>key rec acc. (True, acc @ [(key, rec)])) xs acc = (True, acc @ xs)"
  by (induction xs arbitrary: acc) auto

lemma keyspace_records_concat:
  "keyspace_records M e = concat (map (\<lambda>i. iter M i (sh_m (shards e i))) [0..<shardCount])"
proof -
  have "foreach_loop M (\<lambda>key rec acc. (True, acc @ [(key, rec)])) is e acc =
      acc @ concat (map (\<lambda>i. iter M i (sh_m (shards e i))) is)" for "is" acc
    by (induction "is" arbitrary: acc) (simp_all add: scan_collect)
  then show ?thesis by (simp add: keyspace_records_def ForEach_def)
qed

lemma keyspace_records_iff:
  assumes "mem_ok M e"
  shows "(k, r) \<in> set (keyspace_records M e) \<longleftrightarrow> view M e k = Some r"
proof -
  have it: "set (iter M i xs) = set xs" for i xs
    using assms by (metis env_ok_def mset_eq_setD)
  have di: "distinct (map fst (sh_m (shards e i)))" and sh: "map_of (sh_m (shards e i)) k = Some r \<Longrightarrow> shardFor M k = i"
    if "i < shardCount" for i using assms that by (auto simp: mem_inv_def shard_inv_def)
  have "(k, r) \<in> set (keyspace_records M e) \<longleftrightarrow> (\<exists>i < shardCount. map_of (sh_m (shards e i)) k = Some r)"
    using map_of_eq_Some_iff [OF di] by (auto simp: keyspace_records_concat it)
  also have "\<dots> \<longleftrightarrow> view M e k = Some r" using sh by (metis shardFor_less view_def)
  finally show ?thesis .
qed

lemma fold_puts: "fold apply_entry (map put_of recs) K k = (case map_of (rev recs) k of Some r \<Rightarrow> Some r | None \<Rightarrow> K k)"
  by (induction recs arbitrary: K) (auto simp: put_of_def map_add_def split: option.splits)

lemma keyspace_records_load:
  assumes "mem_ok M e"
  shows "fold apply_entry (map put_of (keyspace_records M e)) Map.empty = view M e"
proof
  fix k
  let ?rs = "rev (keyspace_records M e)"
  show "fold apply_entry (map put_of (keyspace_records M e)) Map.empty k = view M e k"
  proof (cases "map_of ?rs k")
    case None
    then have "\<nexists>r. (k, r) \<in> set ?rs" by (metis map_of_eq_None_iff fst_conv image_eqI)
    with keyspace_records_iff [OF assms, of k] None show ?thesis by (cases "view M e k") (auto simp: fold_puts)
  next
    case (Some r)
    with map_of_SomeD [OF Some] keyspace_records_iff [OF assms, of k r] show ?thesis by (simp add: fold_puts)
  qed
qed

section \<open>Lives of the engine\<close>

text \<open>The engine is in step with its log, from the snapshot \<open>sd\<close> on.\<close>

definition tied :: "persist_opt \<Rightarrow> pstate mem_env \<Rightarrow> nat \<Rightarrow> keyspace \<Rightarrow> snapdir \<Rightarrow> int \<Rightarrow> Engine \<Rightarrow> bool" where
  "tied P M start base sd t e \<longleftrightarrow> (\<not> p_broken P (jst e) \<longrightarrow> p_inv start sd (jst e) \<and> p_dur P (jst e)
     \<and> agree t (view M e) (fold apply_entry (p_entries start (jst e)) base))"

lemma tied_run:
  assumes "mem_run M fits e t e' t'" and "jrn M = Some (persist_journal P)" and "mem_ok M e" and "tied P M start base sd t e"
  shows "tied P M start base sd t' e'"
  using pj.run_in_step [where start = start and base = base and sd = sd, OF assms(1-3)] assms(4)
  unfolding pj.in_step_def pj.logged_keyspace_def tied_def by blast

text \<open>What flushing, syncing and trimming have in common: the entries stay, nothing becomes less durable.\<close>

lemma tied_relog:
  assumes t: "tied P M start base sd t e" and lg: "e_log (jst e) = Some lg"
    and k: "\<And>l0 w p. holds l0 w p lg \<Longrightarrow> \<not> io_failed (p_wal P) lg' \<Longrightarrow> content l0 (w @ p) lg' \<and>
      l_lastAppended lg' = l_lastAppended lg \<and> l_syncedLSN lg \<le> l_syncedLSN lg' \<and> (l_closed lg' \<longrightarrow> l_closed lg)"
    and f: "l_tick lg \<le> l_tick lg'" "l_nextLSN lg' = l_nextLSN lg"
    and j': "e_log j' = Some lg'" "e_snap j' = e_snap (jst e)"
  shows "tied P M start base sd t (e\<lparr>jst := j'\<rparr>)"
  unfolding tied_def
proof (intro impI)
  assume "\<not> p_broken P (jst (e\<lparr>jst := j'\<rparr>))"
  then have b: "\<not> io_failed (p_wal P) lg'" "l_nextLSN lg \<le> MaxUint64" using j' f by (auto simp: p_broken_def)
  then have "\<not> p_broken P (jst e)" using lg io_failed_mono [of "p_wal P" lg lg'] f by (auto simp: p_broken_def)
  with t lg have i: "log_covers start lg" "e_snap (jst e) = sd" "p_dur P (jst e)"
    "agree t (view M e) (fold apply_entry (logged start lg) base)"
    by (auto simp: tied_def p_inv_def p_entries_def)
  then obtain l0 w p where h: "holds l0 w p lg" "l0 \<le> start + 1" "start < l_nextLSN lg"
    by (auto simp: log_covers_def content_def)
  from k [OF h(1) b(1)] have c: "content l0 (w @ p) lg'" and m: "l_lastAppended lg' = l_lastAppended lg"
    "l_syncedLSN lg \<le> l_syncedLSN lg'" "l_closed lg' \<longrightarrow> l_closed lg" by auto
  have "logged start lg' = logged start lg"
    using logged_content [OF c] logged_content [OF contentI [OF h(1) refl]] by simp
  moreover have "log_covers start lg'" using c h f(2) m i(1) by (auto simp: log_covers_def)
  moreover have "p_dur P j'" using i(3) m j' lg by (auto simp: p_dur_def)
  ultimately show "p_inv start sd (jst (e\<lparr>jst := j'\<rparr>)) \<and> p_dur P (jst (e\<lparr>jst := j'\<rparr>))
    \<and> agree t (view M (e\<lparr>jst := j'\<rparr>)) (fold apply_entry (p_entries start (jst (e\<lparr>jst := j'\<rparr>))) base)"
    using i(2,4) j' by (simp add: p_inv_def p_entries_def)
qed

lemma tied_fields:
  "tied P M start base sd t e \<Longrightarrow> e_log j' = e_log (jst e) \<Longrightarrow> e_snap j' = e_snap (jst e) \<Longrightarrow>
   tied P M start base sd t (e\<lparr>jst := j'\<rparr>)"
  by (simp add: tied_def p_broken_def p_inv_def p_dur_def p_entries_def)

lemma tied_flush:
  assumes t: "tied P M start base sd t e" and run: "FlushWAL P e = (r, e')"
  shows "tied P M start base sd t e'"
proof (cases "e_log (jst e)")
  case None
  with run t show ?thesis by (simp add: FlushWAL_def)
next
  case (Some lg)
  obtain lg' where fl: "Flush (p_wal P) lg = (r, lg')" and e': "e' = e\<lparr>jst := (jst e)\<lparr>e_log := Some lg'\<rparr>\<rparr>"
    using run Some by (cases "Flush (p_wal P) lg") (auto simp: FlushWAL_def with_log_def)
  show ?thesis
    unfolding e'
  proof (rule tied_relog [OF t Some _ tick_ops(2) [OF fl] next_ops(2) [OF fl]])
    fix l0 w p assume "holds l0 w p lg" "\<not> io_failed (p_wal P) lg'"
    from Flush_inv [OF this(1) fl this(2)] this(1)
    show "content l0 (w @ p) lg' \<and> l_lastAppended lg' = l_lastAppended lg \<and> l_syncedLSN lg \<le> l_syncedLSN lg'
      \<and> (l_closed lg' \<longrightarrow> l_closed lg)"
      by (auto simp: same_ends_def intro: contentI split: if_splits)
  qed simp_all
qed

lemma tied_sync:
  assumes t: "tied P M start base sd t e" and run: "Engine_Sync P e = (r, e')"
  shows "tied P M start base sd t e'"
proof (cases "e_log (jst e)")
  case None
  with run t show ?thesis by (simp add: Engine_Sync_def)
next
  case (Some lg)
  obtain lg' where fl: "SyncAll (p_wal P) lg = (r, lg')" and e': "e' = e\<lparr>jst := (jst e)\<lparr>e_log := Some lg'\<rparr>\<rparr>"
    using run Some by (cases "SyncAll (p_wal P) lg") (auto simp: Engine_Sync_def with_log_def)
  show ?thesis
    unfolding e'
  proof (rule tied_relog [OF t Some _ tick_ops(4) [OF fl] next_ops(4) [OF fl]])
    fix l0 w p assume "holds l0 w p lg" "\<not> io_failed (p_wal P) lg'"
    from SyncAll_inv [OF this(1) fl this(2)] this(1)
    show "content l0 (w @ p) lg' \<and> l_lastAppended lg' = l_lastAppended lg \<and> l_syncedLSN lg \<le> l_syncedLSN lg'
      \<and> (l_closed lg' \<longrightarrow> l_closed lg)"
      by (auto simp: same_ends_def intro: contentI split: if_splits)
  qed simp_all
qed

definition anchored_tied :: "persist_opt \<Rightarrow> pstate mem_env \<Rightarrow> int \<Rightarrow> Engine \<Rightarrow> bool" where
  "anchored_tied P M t e \<longleftrightarrow> (\<exists>start base sd. anchored sd start base \<and> tied P M start base sd t e)"

lemma anchored_tiedI: "anchored sd start base \<Longrightarrow> tied P M start base sd t e \<Longrightarrow> anchored_tied P M t e"
  by (auto simp: anchored_tied_def)

lemma anchored_tied_step:
  assumes "\<And>start base sd. tied P M start base sd t e \<Longrightarrow> tied P M start base sd t' e'" and "anchored_tied P M t e"
  shows "anchored_tied P M t' e'"
proof -
  from assms(2) obtain start base sd where "anchored sd start base" "tied P M start base sd t e"
    by (auto simp: anchored_tied_def)
  then show ?thesis by (intro anchored_tiedI [OF _ assms(1)])
qed

lemma broken_tied:
  assumes "p_broken P (jst e)"
  shows "anchored_tied P M t e"
proof (rule anchored_tiedI)
  show "anchored \<lparr>sd_tmp = None, sd_final = None\<rparr> 0 Map.empty" by (simp add: anchored_def)
  show "tied P M 0 Map.empty \<lparr>sd_tmp = None, sd_final = None\<rparr> t e" using assms by (simp add: tied_def)
qed

text \<open>After a trim the log still covers everything from its last record on.\<close>

lemma trim_covers:
  assumes c: "log_covers start lg" and run: "TrimTo E (Log_LastLSN lg) lg = (r, lg')" and calm: "\<not> io_failed E lg'"
    and b: "l_nextLSN lg' \<le> MaxUint64"
  shows "log_covers (Log_LastLSN lg) lg' \<and> logged (Log_LastLSN lg) lg' = []"
proof -
  from c obtain l0 w p where h: "holds l0 w p lg" by (auto simp: log_covers_def content_def)
  have f: "l_nextLSN lg' = l_nextLSN lg" "l_closed lg' = l_closed lg" "l_lastAppended lg' = l_lastAppended lg"
    "l_syncedLSN lg' = l_syncedLSN lg"
    using arg_cong [OF TrimTo_fields [OF run], of l_nextLSN] arg_cong [OF TrimTo_fields [OF run], of l_closed]
      arg_cong [OF TrimTo_fields [OF run], of l_lastAppended] arg_cong [OF TrimTo_fields [OF run], of l_syncedLSN]
    by (simp_all add: off_disk_def)
  have nx: "l_nextLSN lg = l0 + length (w @ p)" "0 < l_nextLSN lg" using holds_ends [OF h] by simp_all
  have "Log_LastLSN lg < MaxUint64" using b f(1) nx(2) by (simp add: Log_LastLSN_def)
  from TrimTo_inv [OF h run calm this] obtain k where
    k: "holds (l0 + k) (drop k w) p lg'" "k = 0 \<or> l0 + k \<le> Log_LastLSN lg + 1" "k \<le> length w" by blast
  note ck = contentI [OF k(1) refl]
  have le: "l0 + k \<le> Log_LastLSN lg + 1" using k(2,3) nx by (auto simp: Log_LastLSN_def)
  have cl: "l_closed lg \<longrightarrow> l_lastAppended lg \<le> l_syncedLSN lg" using c by (simp add: log_covers_def)
  have "log_covers (Log_LastLSN lg) lg'"
    unfolding log_covers_def f
  proof (intro conjI cl)
    show "\<exists>l0 es. content l0 es lg' \<and> l0 \<le> Log_LastLSN lg + 1" using ck le by blast
    show "Log_LastLSN lg < l_nextLSN lg" using nx(2) by (simp add: Log_LastLSN_def)
  qed
  moreover have "logged (Log_LastLSN lg) lg' = []"
    using logged_content [OF ck, of "Log_LastLSN lg"] content_ends(1) [OF ck] f(1) nx(2)
    by (simp add: after_def Log_LastLSN_def)
  ultimately show ?thesis ..
qed

lemma anchored_final: "anchored sd start base \<Longrightarrow> sd_final sd' = sd_final sd \<Longrightarrow> anchored sd' start base"
  by (simp add: anchored_def)

lemma snap_Write_final:
  assumes "snap_Write sio lsn created recs d = (r, d')" and "sio_syncdir sio"
  shows "case r of Ret info \<Rightarrow> sd_final d' = Some (image_of lsn created recs) | _ \<Rightarrow> sd_final d' = sd_final d"
  using assms by (auto simp: snap_Write_def Let_def split: if_splits option.splits)

lemma Engine_Snapshot_Some:
  assumes run: "Engine_Snapshot P M sio clk e = (r, e')" and lg: "e_log (jst e) = Some lg"
    and w: "snap_Write sio (Log_LastLSN lg) (clk 0) (keyspace_records M e) (e_snap (jst e)) = (x, sd)"
  obtains j' where "e' = e\<lparr>jst := j'\<rparr>" "e_snap j' = sd"
    "e_log j' = (case x of Ret _ \<Rightarrow> Some (snd (TrimTo (p_wal P) (Log_LastLSN lg) lg)) | _ \<Rightarrow> Some lg)"
proof (rule that)
  have e: "e' = snd (Engine_Snapshot P M sio clk e)" using run by simp
  show "e' = e\<lparr>jst := jst e'\<rparr>" unfolding e by (cases x) (simp_all add: Engine_Snapshot_def Let_def lg w)
  show "e_snap (jst e') = sd" unfolding e by (cases x) (simp_all add: Engine_Snapshot_def Let_def lg w)
  show "e_log (jst e') = (case x of Ret _ \<Rightarrow> Some (snd (TrimTo (p_wal P) (Log_LastLSN lg) lg)) | _ \<Rightarrow> Some lg)"
    unfolding e by (cases x) (simp_all add: Engine_Snapshot_def Let_def lg w)
qed

lemma tied_snapshot:
  assumes a: "anchored_tied P M t e" and ok: "mem_ok M e" and run: "Engine_Snapshot P M sio clk e = (r, e')"
    and fit: "\<forall>lg. e_log (jst e) = Some lg \<longrightarrow> image_fits (Log_LastLSN lg) (clk 0) (keyspace_records M e)"
    and sy: "sio_syncdir sio"
  shows "anchored_tied P M t e' \<and> view M e' = view M e \<and> mem_inv M e'"
proof (cases "e_log (jst e)")
  case None
  then obtain j' where "e' = e\<lparr>jst := j'\<rparr>" "e_log j' = None"
    using run by (auto simp: Engine_Snapshot_def Let_def split: res.splits prod.splits)
  then show ?thesis using ok by (auto intro: broken_tied simp: p_broken_def)
next
  case (Some lg)
  obtain x sd' where w: "snap_Write sio (Log_LastLSN lg) (clk 0) (keyspace_records M e) (e_snap (jst e)) = (x, sd')"
    by fastforce
  from run Some w obtain j' where j': "e' = e\<lparr>jst := j'\<rparr>" "e_snap j' = sd'"
    "e_log j' = (case x of Ret _ \<Rightarrow> Some (snd (TrimTo (p_wal P) (Log_LastLSN lg) lg)) | _ \<Rightarrow> Some lg)"
    by (rule Engine_Snapshot_Some)
  from a obtain start base sd where an: "anchored sd start base" and t: "tied P M start base sd t e"
    by (auto simp: anchored_tied_def)
  note fin = snap_Write_final [OF w sy]
  have "anchored_tied P M t e'" if nb: "\<not> p_broken P j'"
  proof (cases "\<exists>info. x = Ret info")
    case True
    then obtain info where Ret: "x = Ret info" ..
    obtain rt lg' where tr: "TrimTo (p_wal P) (Log_LastLSN lg) lg = (rt, lg')" by fastforce
    have l': "e_log j' = Some lg'" using j'(3) Ret tr by simp
    have b: "\<not> io_failed (p_wal P) lg'" "l_nextLSN lg' \<le> MaxUint64" using nb l' by (auto simp: p_broken_def)
    have nx: "l_nextLSN lg' = l_nextLSN lg" "l_lastAppended lg' = l_lastAppended lg" "l_syncedLSN lg' = l_syncedLSN lg"
      using arg_cong [OF TrimTo_fields [OF tr], of l_nextLSN] arg_cong [OF TrimTo_fields [OF tr], of l_lastAppended]
        arg_cong [OF TrimTo_fields [OF tr], of l_syncedLSN] by (simp_all add: off_disk_def)
    have "\<not> p_broken P (jst e)"
      using b nx(1) Some io_failed_mono [of "p_wal P" lg lg'] tick_TrimTo [OF tr] by (auto simp: p_broken_def)
    with t Some have c: "log_covers start lg" and du: "p_dur P (jst e)" by (auto simp: tied_def p_inv_def)
    note tc = trim_covers [OF c tr b]
    have an': "anchored sd' (Log_LastLSN lg) (view M e)"
      unfolding anchored_def using fin Ret fit Some keyspace_records_load [OF ok]
      by (intro disjI2 exI [of _ "clk 0"] exI [of _ "keyspace_records M e"]) simp
    have "tied P M (Log_LastLSN lg) (view M e) sd' t e'"
      using tc j'(1,2) l' du Some nx by (auto simp: tied_def p_inv_def p_entries_def p_dur_def)
    then show ?thesis by (rule anchored_tiedI [OF an'])
  next
    case False
    then have x: "e_log j' = Some lg" "sd_final sd' = sd_final (e_snap (jst e))" using fin j'(3) by (auto split: res.splits)
    have s: "sd = e_snap (jst e)" using t nb Some x by (auto simp: tied_def p_inv_def p_broken_def)
    have "anchored sd' start base" using x s by (auto intro: anchored_final [OF an])
    moreover have "tied P M start base sd' t e'"
      using t j'(1,2) Some x by (auto simp: tied_def p_inv_def p_entries_def p_dur_def p_broken_def)
    ultimately show ?thesis by (rule anchored_tiedI)
  qed
  moreover have "anchored_tied P M t e'" if "p_broken P j'" using that j'(1) by (intro broken_tied) simp
  ultimately show ?thesis using ok j'(1) by auto
qed

section \<open>Power cuts and kills\<close>

lemma content_crash_img:
  assumes "content l0 es lg" and "crash (l_disk lg) fs"
  shows "\<exists>m. l_syncedLSN lg + 1 - l0 \<le> m \<and> m \<le> length es \<and> crash_img l0 (take m es) 0 fs"
proof -
  from assms(1) obtain w p where h: "holds l0 w p lg" "w @ p = es" by (auto simp: content_def)
  from crash_imgI [OF h(1) assms(2)] obtain m where
    m: "m \<le> length w" "crash_img l0 (take m w) (l_syncedLSN lg + 1 - l0) fs" by blast
  then have "take m es = take m w" "l_syncedLSN lg + 1 - l0 \<le> m" using h(2) by (auto simp: crash_img_def)
  with m h(2) show ?thesis by (intro exI [of _ m]) (auto simp: crash_img_def)
qed

lemma kill_img:
  assumes "holds l0 w p lg"
  shows "crash_img l0 w 0 (files_of (l_disk lg))"
proof -
  obtain ims cur where inv: "log_inv l0 ims cur p lg" and w: "log_entries (ims @ [cur]) = w"
    using assms by (auto simp: holds_def)
  note i = log_invD [OF inv]
  from i(3,2) obtain d0 f where d: "l_disk lg = d0 @ [f]" "files_of d0 = dir_of ims []" "f_seq f = im_seq cur"
    "f_data f = seg_bytes cur" by (rule disk_okE)
  have fs: "files_of (l_disk lg) = dir_of (ims @ [cur]) []" using d by (simp add: dir_of_snoc)
  have ok: "log_ok l0 (ims @ [cur])" using i(1) by (auto simp: log_ok_def chained_append)
  show ?thesis
    unfolding crash_img_def
    by (rule exI [of _ "ims @ [cur]"], rule exI [of _ "[]"]) (intro conjI fs ok i(2) w disjI1 refl le0)
qed

text \<open>The power goes off while an operation logs one entry, or between operations; the disk comes back as \<open>d\<close>.\<close>

definition in_flight :: "persist_opt \<Rightarrow> pstate \<Rightarrow> entry list \<Rightarrow> pstate \<Rightarrow> bool" where
  "in_flight P j x j' \<longleftrightarrow> x = [] \<and> j' = j \<or> (\<exists>y r. x = [y] \<and> fits y \<and> log_entry P y j = (r, j'))"

definition power_cut :: "pstate \<Rightarrow> sfile list \<Rightarrow> bool" where
  "power_cut j d \<longleftrightarrow> (\<exists>lg. e_log j = Some lg \<and> crash (l_disk lg) (files_of d))
     \<and> (\<forall>f \<in> set d. f_sync f = length (f_data f) \<and> f_entry f)"

lemma cut_covers:
  assumes t: "tied P M start base sd t e" and pol: "wo_Policy (p_wal P) = SyncAlways"
    and fl: "in_flight P (jst e) x j'" and nb: "\<not> p_broken P j'" and cut: "power_cut j' d"
  shows "\<exists>l0 es y. crash_img l0 es 0 (files_of d) \<and> l0 \<le> start + 1 \<and> start < l0 + length es \<and> y \<in> {[], x}
    \<and> after start l0 es = p_entries start (jst e) @ y \<and> e_snap j' = sd
    \<and> agree t (view M e) (fold apply_entry (p_entries start (jst e)) base)"
proof -
  from cut obtain lg' where lg': "e_log j' = Some lg'" "crash (l_disk lg') (files_of d)" by (auto simp: power_cut_def)
  have "\<exists>lg l0 es z. e_log (jst e) = Some lg \<and> content l0 es lg \<and> content l0 (es @ z) lg' \<and> z \<in> {[], x} \<and> length z \<le> 1
    \<and> l_syncedLSN lg \<le> l_syncedLSN lg' \<and> \<not> p_broken P (jst e) \<and> l0 \<le> start + 1 \<and> e_snap j' = e_snap (jst e)"
  proof (cases "x = []")
    case True
    with fl have j: "j' = jst e" by (auto simp: in_flight_def)
    with t nb lg' obtain l0 es where "content l0 es lg'" "l0 \<le> start + 1"
      by (auto simp: tied_def p_inv_def log_covers_def)
    with j lg' nb show ?thesis by (intro exI [of _ lg'] exI [of _ l0] exI [of _ es] exI [of _ "[]"]) auto
  next
    case False
    with fl obtain y r where y: "x = [y]" "fits y" "log_entry P y (jst e) = (r, j')" by (auto simp: in_flight_def)
    obtain lg where lg: "e_log (jst e) = Some lg"
      using log_entry_None [of "jst e" P y] y(3) lg'(1) by (cases "e_log (jst e)") auto
    obtain r1 lg1 where a1: "log_append (p_wal P) (entry_type y) (entry_payload y) lg = (r1, lg1)" by fastforce
    with log_entry_Some [OF lg, of P y] y(3) obtain n where "r = r1" "j' = (jst e)\<lparr>e_dirty := n, e_log := Some lg1\<rparr>"
      by (auto simp: with_log_def)
    with a1 lg'(1) have a: "log_append (p_wal P) (entry_type y) (entry_payload y) lg = (r, lg')"
      and sn: "e_snap j' = e_snap (jst e)" by simp_all
    have nb': "\<not> io_failed (p_wal P) lg'" "l_nextLSN lg' \<le> MaxUint64" using nb lg'(1) by (auto simp: p_broken_def)
    then have b: "\<not> p_broken P (jst e)"
      using io_failed_mono [of "p_wal P" lg lg'] tick_ops(6) [OF a] next_ops(6) [OF a] lg by (auto simp: p_broken_def)
    with t lg obtain l0 w p where h: "holds l0 w p lg" "l0 \<le> start + 1"
      by (auto simp: tied_def p_inv_def log_covers_def content_def)
    note c = contentI [OF h(1) refl]
    define z where "z = (if l_closed lg then [] else x)"
    have "z \<in> {[], x}" "length z \<le> 1" "content l0 ((w @ p) @ z) lg'" "l_syncedLSN lg \<le> l_syncedLSN lg'"
      using append_inv [OF h(1) a nb'(1) y(2) nb'(2)] c by (simp_all add: z_def y(1) split: if_splits)
    then show ?thesis using c h(2) b sn lg by (intro exI conjI)
  qed
  then obtain lg l0 es z where lg: "e_log (jst e) = Some lg" and c: "content l0 es lg" "content l0 (es @ z) lg'"
    and z: "z \<in> {[], x}" "length z \<le> 1" and sy: "l_syncedLSN lg \<le> l_syncedLSN lg'" and b: "\<not> p_broken P (jst e)"
    and l0: "l0 \<le> start + 1" and sn: "e_snap j' = e_snap (jst e)" by (elim exE conjE)
  have i: "log_covers start lg" "e_snap (jst e) = sd" "l_lastAppended lg \<le> l_syncedLSN lg"
    "agree t (view M e) (fold apply_entry (p_entries start (jst e)) base)"
    using t b lg pol by (auto simp: tied_def p_inv_def p_dur_def)
  note ce = content_ends [OF c(1)]
  from content_crash_img [OF c(2) lg'(2)] obtain m where
    m: "l_syncedLSN lg' + 1 - l0 \<le> m" "m \<le> length es + length z" "crash_img l0 (take m (es @ z)) 0 (files_of d)" by auto
  have "length es \<le> m" using m(1) sy i(3) ce(1,2) by simp
  then have tk: "take m (es @ z) = es \<or> take m (es @ z) = es @ z" using m(2) z(2) by (cases "m = length es") auto
  have st: "start < l0 + length es" using i(1) ce(1) by (simp add: log_covers_def)
  have af: "after start l0 (es @ y) = p_entries start (jst e) @ y" for y
    using logged_content [OF c(1), of start] st lg by (simp add: after_append p_entries_def after_def)
  from tk show ?thesis
  proof
    assume tk: "take m (es @ z) = es"
    show ?thesis by (intro exI [of _ l0] exI [of _ es] exI [of _ "[]"]) (use m(3) l0 st af [of "[]"] i sn tk in auto)
  next
    assume tk: "take m (es @ z) = es @ z"
    show ?thesis by (intro exI [of _ l0] exI [of _ "es @ z"] exI [of _ z]) (use m(3) l0 st af [of z] i sn tk z in auto)
  qed
qed

section \<open>Properties\<close>

text \<open>
  \<open>lives P M t e\<close>: \<open>e\<close> is the engine after a first start on an empty directory, any operations,
  flushes, syncs and snapshots, and any number of power cuts followed by a restart, possibly with
  other options and another hash seed; \<open>t\<close> is the latest clock reading.
\<close>

definition engine_env :: "persist_opt \<Rightarrow> pstate mem_env \<Rightarrow> bool" where
  "engine_env P M \<longleftrightarrow> env_ok M \<and> jrn M = Some (persist_journal P) \<and> (\<forall>i < 4. io (p_wal P) i = None)"

inductive lives :: "persist_opt \<Rightarrow> pstate mem_env \<Rightarrow> int \<Rightarrow> Engine \<Rightarrow> bool" where
  first_boot: "engine_env P M \<Longrightarrow> sd_final sd = None \<Longrightarrow> Engine_Open P M calm clk sd [] = Ret (e, rec) \<Longrightarrow> lives P M t e"
| serve: "lives P M t e \<Longrightarrow> mem_run M fits e t e' t' \<Longrightarrow> lives P M t' e'"
| flush: "lives P M t e \<Longrightarrow> FlushWAL P e = (r, e') \<Longrightarrow> lives P M t e'"
| sync: "lives P M t e \<Longrightarrow> Engine_Sync P e = (r, e') \<Longrightarrow> lives P M t e'"
| snapshot: "lives P M t e \<Longrightarrow> sio_syncdir sio \<Longrightarrow>
    \<forall>lg. e_log (jst e) = Some lg \<longrightarrow> image_fits (Log_LastLSN lg) (clk 0) (keyspace_records M e) \<Longrightarrow>
    Engine_Snapshot P M sio clk e = (r, e') \<Longrightarrow> lives P M t e'"
| reboot: "lives P M t e \<Longrightarrow> wo_Policy (p_wal P) = SyncAlways \<Longrightarrow> in_flight P (jst e) x j' \<Longrightarrow> \<not> p_broken P j' \<Longrightarrow>
    power_cut j' d \<Longrightarrow> engine_env P' M' \<Longrightarrow> Engine_Open P' M' calm clk (e_snap j') d = Ret (e', rec) \<Longrightarrow> lives P' M' t e'"

lemma opened_tied:
  assumes "anchored sd start base" and "crash_img l0 es n (files_of d)" and "l0 \<le> start + 1" and "start < l0 + length es"
    and "engine_env P M" and "\<forall>f \<in> set d. f_sync f = length (f_data f) \<and> f_entry f"
  shows "\<exists>e rec. Engine_Open P M calm clk sd d = Ret (e, rec) \<and> view M e = fold apply_entry (after start l0 es) base
    \<and> mem_inv M e \<and> anchored_tied P M t e"
proof -
  have io: "\<forall>i < 4. io (p_wal P) i = None" using assms(5) by (simp add: engine_env_def)
  from Engine_Open_files [OF assms(1-4) io, of M clk] assms(6) obtain e rec lg where
    e: "Engine_Open P M calm clk sd d = Ret (e, rec)" "view M e = fold apply_entry (after start l0 es) base" "mem_inv M e"
    "e_log (jst e) = Some lg" "e_snap (jst e) = sd" "log_covers start lg" "logged start lg = after start l0 es"
    "l_lastAppended lg \<le> l_syncedLSN lg" by blast
  have "tied P M start base sd t e"
    using e by (auto simp: tied_def p_inv_def p_dur_def p_entries_def)
  with e anchored_tiedI [OF assms(1)] show ?thesis by blast
qed

lemma cut_reopens:
  assumes a: "anchored_tied P M t e" and cut: "wo_Policy (p_wal P) = SyncAlways" "in_flight P (jst e) x j'"
      "\<not> p_broken P j'" "power_cut j' d"
    and env: "engine_env P' M'"
  shows "\<exists>e' rec. Engine_Open P' M' calm clk (e_snap j') d = Ret (e', rec) \<and> mem_inv M' e' \<and> anchored_tied P' M' t' e'
    \<and> (\<exists>y \<in> {[], x}. agree t (fold apply_entry y (view M e)) (view M' e'))"
proof -
  from a obtain start base sd where an: "anchored sd start base" and t: "tied P M start base sd t e"
    by (auto simp: anchored_tied_def)
  from cut_covers [OF t cut] obtain l0 es y where c: "crash_img l0 es 0 (files_of d)" "l0 \<le> start + 1"
    "start < l0 + length es" "y \<in> {[], x}" "after start l0 es = p_entries start (jst e) @ y" "e_snap j' = sd"
    "agree t (view M e) (fold apply_entry (p_entries start (jst e)) base)" by blast
  have sy: "\<forall>f \<in> set d. f_sync f = length (f_data f) \<and> f_entry f" using cut(4) by (auto simp: power_cut_def)
  have ag: "agree t (fold apply_entry y (view M e)) (fold apply_entry (after start l0 es) base)"
    using agree_apply_entries [OF c(7), of y] c(5) by simp
  from opened_tied [OF an c(1-3) env sy, of clk t'] obtain e' rec where
    "Engine_Open P' M' calm clk sd d = Ret (e', rec)" "view M' e' = fold apply_entry (after start l0 es) base"
    "mem_inv M' e'" "anchored_tied P' M' t' e'" by blast
  with c(4,6) ag show ?thesis by metis
qed

lemma lives_tied: "lives P M t e \<Longrightarrow> engine_env P M \<and> mem_inv M e \<and> anchored_tied P M t e"
proof (induction rule: lives.induct)
  case (first_boot P M sd clk e rec t)
  have "anchored sd 0 Map.empty" using first_boot(2) by (simp add: anchored_def)
  moreover have "crash_img 1 [] 0 (files_of [])"
    unfolding crash_img_def by (rule exI [of _ "[]"], rule exI [of _ "[]"]) (simp add: log_ok_def)
  ultimately show ?case using opened_tied [of sd 0 Map.empty 1 "[]" 0 "[]" P M clk t] first_boot(1,3) by auto
next
  case (serve P M t e e' t')
  then have en: "env_ok M" "jrn M = Some (persist_journal P)" by (auto simp: engine_env_def)
  then have "mem_ok M e" using serve by simp
  with anchored_tied_step [OF tied_run [OF serve(2) en(2)]] mem_run_ok [OF serve(2)] serve(3) show ?case by blast
next
  case (flush P M t e r e')
  have "mem_inv M e'" using flush by (auto simp: FlushWAL_def with_log_def split: option.splits prod.splits)
  with anchored_tied_step [OF tied_flush [OF _ flush(2)]] flush(3) show ?case by blast
next
  case (sync P M t e r e')
  have "mem_inv M e'" using sync by (auto simp: Engine_Sync_def with_log_def split: option.splits prod.splits)
  with anchored_tied_step [OF tied_sync [OF _ sync(2)]] sync(3) show ?case by blast
next
  case (snapshot P M t e sio clk r e')
  then have "mem_ok M e" by (auto simp: engine_env_def)
  with tied_snapshot [OF _ this snapshot(4,3,2)] snapshot(5) show ?case by blast
next
  case (reboot P M t e x j' d P' M' clk e' rec)
  with cut_reopens [OF _ reboot(2-6), of M t clk t] show ?case by auto
qed


definition calm_opt :: persist_opt where
  "calm_opt = \<lparr>p_wal = calm_env, p_SavePoints = [(900000000000, 1)]\<rparr>"

definition calm_mem :: "pstate mem_env" where
  "calm_mem = \<lparr>hash = length, jrn = Some (persist_journal calm_opt), iter = (\<lambda>i. rev), iter_idx = rev\<rparr>"

lemma calm_engine: "engine_env calm_opt calm_mem"
  by (simp add: engine_env_def calm_opt_def calm_mem_def env_ok_def calm_env_def)

definition first_engine :: Engine where
  "first_engine = New \<lparr>e_log = Some fresh_log, e_dirty = 0, e_lastSaveMs = 0, e_lastSaveOK = True, e_savesTotal = 0,
     e_savesFailed = 0, e_closed = False, e_snap = \<lparr>sd_tmp = None, sd_final = None\<rparr>\<rparr>"

lemma first_start: "lives calm_opt calm_mem t first_engine"
proof -
  have "Replay calm [] 0 (mem_loader calm_mem) e = (Ret (), ReplayResult0 0, e, [])" for e
    by (simp add: Replay_def listSegments_def ReplayResult0_def)
  then have "Engine_Open calm_opt calm_mem calm (\<lambda>_. 0) \<lparr>sd_tmp = None, sd_final = None\<rparr> [] =
      Ret (first_engine, Recovery0)"
    by (simp add: Engine_Open_def snap_Load_def Recovery0_def ReplayResult0_def after_replay_def Open_calm calm_opt_def
        files_of_def first_engine_def New_def)
  then show ?thesis by (intro first_boot [OF calm_engine]) simp_all
qed

text \<open>The engine after its first write.\<close>

lemma concat_single:
  "distinct xs \<Longrightarrow> concat (map (\<lambda>i. if i = a then ys else []) xs) = (if a \<in> set xs then ys else [])"
  by (induction xs) auto

lemma one_write:
  obtains e lg where "lives calm_opt calm_mem t e" and "e_log (jst e) = Some lg" and "l_nextLSN lg = 2" and "\<not> l_closed lg"
    and "view calm_mem e = [''k'' \<mapsto> \<lparr>Value = ''v'', ExpireAt = 0\<rparr>]" and "\<not> e_closed (jst e)"
    and "keyspace_records calm_mem e = [(''k'', \<lparr>Value = ''v'', ExpireAt = 0\<rparr>)]"
proof -
  let ?r = "\<lparr>Value = ''v'', ExpireAt = 0\<rparr>"
  obtain lg where lg: "log_append calm_env (entry_type one_entry) (entry_payload one_entry) fresh_log = (Ret 1, lg)"
    "l_nextLSN lg = 2" "\<not> l_closed lg" by (rule append_one)
  obtain x lg' where sy: "Sync calm_env 1 lg = (x, lg')" by fastforce
  have cl: "l_closed lg' = l_closed lg"
  proof -
    from Open_inv [OF empty_dir, of 0, OF _ Open_calm] have h: "holds 1 [] [] fresh_log" "\<not> l_closed fresh_log" by auto
    from append_inv [OF h(1) lg(1) _ one_entry_fits] lg(2) h(2) obtain w p where "holds 1 w p lg" by (auto simp: content_def)
    from Sync_inv [OF this sy] show ?thesis by (auto simp: same_ends_def split: if_splits)
  qed
  have ap: "AppendPut (p_wal calm_opt) ''k'' ?r fresh_log = (Ret 1, lg)"
    using lg(1) by (simp add: one_entry_def AppendPut_def calm_opt_def)
  let ?e = "snd (mem_Put calm_mem (\<lambda>_. t) ''k'' ?r first_engine)"
  have e: "jst ?e = (jst first_engine)\<lparr>e_dirty := 1, e_log := Some lg'\<rparr> \<and> view calm_mem ?e = [''k'' \<mapsto> ?r]
      \<and> (\<forall>i. sh_m (shards ?e i) = (if i = 1 then [(''k'', ?r)] else []))"
    using sy ap by (simp add: mem_Put_def first_engine_def logPut_def await_def calm_mem_def persist_journal_def
        p_LogPut_def p_Await_def with_log_def New_def calm_opt_def calm_env_def sbind_def alive_def upd_shard_def
        putLocked_def empty_shard_def view_def shardFor_def Let_def fun_eq_iff u64_def shardCount_def Clone_def)
  have "keyspace_records calm_mem ?e = concat (map (\<lambda>i. if i = 1 then [(''k'', ?r)] else []) [0..<shardCount])"
    unfolding keyspace_records_concat by (intro arg_cong [where f = concat] map_cong refl) (use e in \<open>simp add: calm_mem_def\<close>)
  then have kr: "keyspace_records calm_mem ?e = [(''k'', ?r)]"
    by (simp add: concat_single shardCount_def)
  have "lives calm_opt calm_mem t ?e"
    using one_entry_fits by (intro serve [OF first_start [of t]] run_put [OF _ run_start]) (simp add: one_entry_def)
  then show thesis
    by (rule that [of ?e lg']) (use e kr lg next_ops(3) [OF sy] cl in \<open>simp_all add: first_engine_def New_def\<close>)
qed

definition all_synced :: "sfile list \<Rightarrow> sfile list" where
  "all_synced d = map (\<lambda>f. f\<lparr>f_sync := length (f_data f), f_entry := True\<rparr>) d"

lemma power_cut_synced: "e_log j = Some lg \<Longrightarrow> power_cut j (all_synced (l_disk lg))"
proof -
  have "files_of (all_synced (l_disk lg)) = files_of (l_disk lg)" by (simp add: files_of_def all_synced_def)
  with files_of_crash [of "l_disk lg"] show "e_log j = Some lg \<Longrightarrow> power_cut j (all_synced (l_disk lg))"
    by (auto simp: power_cut_def all_synced_def)
qed


lemma flush_then_kill:
  assumes "lives P M t e" and "FlushWAL P e = (Ret (), e')" and "\<not> p_broken P (jst e')"
    and "e_log (jst e') = Some lg" and "files_of d = files_of (l_disk lg)" and "engine_env P' M'"
  shows "\<exists>e'' rec. Engine_Open P' M' calm clk (e_snap (jst e')) d = Ret (e'', rec) \<and> agree t (view M e) (view M' e'')"
proof -
  from lives_tied [OF assms(1)] obtain start base sd where an: "anchored sd start base"
    and t: "tied P M start base sd t e" by (auto simp: anchored_tied_def)
  obtain lg0 where lg0: "e_log (jst e) = Some lg0"
    using assms(2,4) by (cases "e_log (jst e)") (auto simp: FlushWAL_def)
  have fl: "Flush (p_wal P) lg0 = (Ret (), lg)" and e': "e_snap (jst e') = e_snap (jst e)"
    using assms(2,4) lg0 by (auto simp: FlushWAL_def with_log_def split: prod.splits)
      (metis option.sel prod.collapse pstate.select_convs(1) memstore.select_convs(2))+
  have b: "\<not> io_failed (p_wal P) lg" "l_nextLSN lg \<le> MaxUint64" using assms(3,4) by (auto simp: p_broken_def)
  then have "\<not> p_broken P (jst e)"
    using lg0 io_failed_mono [of "p_wal P" lg0 lg] tick_ops(2) [OF fl] next_ops(2) [OF fl] by (auto simp: p_broken_def)
  with t lg0 have i: "log_covers start lg0" "e_snap (jst e) = sd" "agree t (view M e) (fold apply_entry (logged start lg0) base)"
    by (auto simp: tied_def p_inv_def p_entries_def)
  then obtain l0 w p where h: "holds l0 w p lg0" "l0 \<le> start + 1" "start < l_nextLSN lg0"
    by (auto simp: log_covers_def content_def)
  note c = contentI [OF h(1) refl]
  from Flush_inv [OF h(1) fl b(1)] have "holds l0 (w @ p) [] lg" by (auto split: if_splits)
  from kill_img [OF this] have img: "crash_img l0 (w @ p) 0 (files_of d)" unfolding assms(5) .
  have st: "start < l0 + length (w @ p)" using h(3) content_ends(1) [OF c] by simp
  have io: "\<forall>i < 4. io (p_wal P') i = None" using assms(6) by (simp add: engine_env_def)
  from Engine_Open_files [OF an img h(2) st io, of M' clk] obtain e'' rec where
    "Engine_Open P' M' calm clk sd d = Ret (e'', rec)" "view M' e'' = fold apply_entry (after start l0 (w @ p)) base" by blast
  with i logged_content [OF c, of start] e' show ?thesis by auto
qed



text \<open>The steps of \<open>Close\<close>: the final snapshot, unless there is nothing to save, then the log.\<close>

lemma Engine_Close_steps:
  assumes "Engine_Close P M sio clk e = (r, e')" and "\<not> e_closed (jst e)"
  obtains e1 e2 where "e1 = e\<lparr>jst := (jst e)\<lparr>e_closed := True\<rparr>\<rparr>" and "e2 = e1 \<or> (\<exists>r1. Engine_Snapshot P M sio clk e1 = (r1, e2))"
    and "case e_log (jst e2) of None \<Rightarrow> jst e' = jst e2
      | Some lg \<Rightarrow> jst e' = (jst e2)\<lparr>e_log := Some (snd (Log_Close (p_wal P) lg))\<rparr>"
proof -
  let ?e1 = "e\<lparr>jst := (jst e)\<lparr>e_closed := True\<rparr>\<rparr>"
  obtain r1 e2 where sn: "(if e_dirty (jst ?e1) > 0 \<and> p_SavePoints P \<noteq> [] then Engine_Snapshot P M sio clk ?e1 else (Ret (), ?e1)) = (r1, e2)"
    by fastforce
  have wj: "jst (fold (\<lambda>i. upd_shard i (\<lambda>_. empty_shard)) is s) = jst s" for "is" and s :: Engine
    by (induction "is" arbitrary: s) (auto simp: upd_shard_def)
  have mc: "jst (snd (mem_Close s)) = jst s" for s :: Engine by (simp add: mem_Close_def wipe_def wj)
  have run: "(case (case e_log (jst e2) of None \<Rightarrow> (Ret (), e2)
      | Some lg \<Rightarrow> (case with_log (jst e2) (Log_Close (p_wal P) lg) of (r, j) \<Rightarrow> (r, e2\<lparr>jst := j\<rparr>))) of
      (r2, e) \<Rightarrow> case mem_Close e of (r3, e) \<Rightarrow> (bind_res r1 (\<lambda>_. bind_res r2 (\<lambda>_. r3)), e)) = (r, e')"
    using assms unfolding Engine_Close_def Let_def sn by simp
  show thesis
  proof (rule that [OF refl])
    show "e2 = ?e1 \<or> (\<exists>r1. Engine_Snapshot P M sio clk ?e1 = (r1, e2))" using sn by (auto split: if_splits)
    show "case e_log (jst e2) of None \<Rightarrow> jst e' = jst e2
      | Some lg \<Rightarrow> jst e' = (jst e2)\<lparr>e_log := Some (snd (Log_Close (p_wal P) lg))\<rparr>"
      using arg_cong [OF run, of "\<lambda>x. jst (snd x)"]
      by (auto simp: with_log_def mc case_prod_beta split: option.splits)
  qed
qed



end
