(* ===== verification/Counters.thy ===== *)
theory Counters
  imports Prelude
begin

text \<open>
  The server counters of \<open>src/internal/stats/stats.go\<close>. Unsigned counters are natural numbers
  below $2^{64}$ that wrap; the gauge of active connections is a signed integer. The process
  start time is the field \<open>startedAt\<close>, in nanoseconds.
\<close>

record ServerStats =
  ConnectionsReceived :: nat
  ConnectionsRejected :: nat
  ConnectionsActive :: int
  CommandsProcessed :: nat
  CommandsFailed :: nat
  CommandsRejected :: nat
  NetInputBytes :: nat
  NetOutputBytes :: nat
  KeyspaceHits :: nat
  KeyspaceMisses :: nat
  ExpiredKeys :: nat
  ProtocolErrors :: nat
  TimeoutDisconnects :: nat
  PipelineBatches :: nat
  LatencyNanosTotal :: nat
  LatencyCount :: nat
  LatencyMaxNanos :: nat
  startedAt :: int

definition New_ServerStats :: "int \<Rightarrow> ServerStats" where
  "New_ServerStats now =
     \<lparr>ConnectionsReceived = 0, ConnectionsRejected = 0, ConnectionsActive = 0, CommandsProcessed = 0,
      CommandsFailed = 0, CommandsRejected = 0, NetInputBytes = 0, NetOutputBytes = 0, KeyspaceHits = 0,
      KeyspaceMisses = 0, ExpiredKeys = 0, ProtocolErrors = 0, TimeoutDisconnects = 0, PipelineBatches = 0,
      LatencyNanosTotal = 0, LatencyCount = 0, LatencyMaxNanos = 0, startedAt = now\<rparr>"

text \<open>
  One call of \<open>ObserveLatency\<close>. The compare-and-swap loop stores \<open>n\<close> exactly when it exceeds the
  maximum at the moment of the swap.
\<close>

definition ObserveLatency :: "int \<Rightarrow> ServerStats \<Rightarrow> ServerStats" where
  "ObserveLatency d st =
     (let n = nat (d mod 18446744073709551616) in
      st\<lparr>LatencyNanosTotal := u64 (LatencyNanosTotal st + n), LatencyCount := u64 (LatencyCount st + 1),
         LatencyMaxNanos := (if n \<le> LatencyMaxNanos st then LatencyMaxNanos st else n)\<rparr>)"

definition MeanLatency :: "ServerStats \<Rightarrow> int" where
  "MeanLatency st = (let c = LatencyCount st in if c = 0 then 0 else i64 (int (LatencyNanosTotal st div c)))"

definition ResetStat :: "ServerStats \<Rightarrow> ServerStats" where
  "ResetStat st =
     st\<lparr>CommandsProcessed := 0, CommandsFailed := 0, CommandsRejected := 0, ConnectionsReceived := 0,
        ConnectionsRejected := 0, NetInputBytes := 0, NetOutputBytes := 0, KeyspaceHits := 0,
        KeyspaceMisses := 0, ExpiredKeys := 0, ProtocolErrors := 0, TimeoutDisconnects := 0,
        PipelineBatches := 0, LatencyNanosTotal := 0, LatencyCount := 0, LatencyMaxNanos := 0\<rparr>"

lemma ResetStat_keeps [simp]:
  "ConnectionsActive (ResetStat st) = ConnectionsActive st" "startedAt (ResetStat st) = startedAt st"
  by (simp_all add: ResetStat_def)

text \<open>The recorded maximum bounds the mean, as long as the total has not wrapped.\<close>

definition latency_ok :: "ServerStats \<Rightarrow> bool" where
  "latency_ok st \<longleftrightarrow> LatencyNanosTotal st \<le> LatencyCount st * LatencyMaxNanos st"

lemma ObserveLatency_ok:
  assumes "latency_ok st" and "LatencyCount st < MaxUint64"
  shows "latency_ok (ObserveLatency d st)"
proof -
  let ?n = "nat (d mod 18446744073709551616)" and ?m = "LatencyMaxNanos st"
  let ?m' = "if ?n \<le> ?m then ?m else ?n"
  have "LatencyNanosTotal st + ?n \<le> LatencyCount st * ?m + ?n" using assms(1) by (simp add: latency_ok_def)
  also have "\<dots> \<le> LatencyCount st * ?m' + ?m'" by (intro add_mono mult_left_mono) auto
  finally have le: "LatencyNanosTotal st + ?n \<le> (LatencyCount st + 1) * ?m'" by simp
  have "u64 (LatencyNanosTotal st + ?n) \<le> LatencyNanosTotal st + ?n" by (simp add: u64_def)
  from order_trans [OF this le] have "u64 (LatencyNanosTotal st + ?n) \<le> (LatencyCount st + 1) * ?m'" .
  moreover have "u64 (LatencyCount st + 1) = LatencyCount st + 1" using assms(2) by (simp add: u64_def)
  ultimately show ?thesis unfolding latency_ok_def ObserveLatency_def Let_def by simp
qed

lemma MeanLatency_le_max:
  assumes "latency_ok st" and "LatencyMaxNanos st \<le> 9223372036854775807"
  shows "0 \<le> MeanLatency st \<and> MeanLatency st \<le> int (LatencyMaxNanos st)"
proof (cases "LatencyCount st = 0")
  case False
  have "LatencyNanosTotal st div LatencyCount st \<le> LatencyMaxNanos st"
    using assms(1) False by (simp add: latency_ok_def div_le_mono [of _ "LatencyCount st * LatencyMaxNanos st", THEN order_trans])
  moreover from this have "i64 (int (LatencyNanosTotal st div LatencyCount st)) = int (LatencyNanosTotal st div LatencyCount st)"
    using assms(2) by (intro i64_id) (simp add: is_i64_def)
  ultimately show ?thesis using False by (simp add: MeanLatency_def)
qed (simp add: MeanLatency_def)

end
