(* ===== verification/Config.thy ===== *)
theory Config
  imports Resp_Reader Persist
begin

text \<open>
  The configuration, \<open>src/internal/config/config.go\<close>: the defaults, the config file, and the
  parameters \<open>CONFIG GET\<close> and \<open>CONFIG SET\<close> reach. Durations are nanoseconds. \<open>strings.ToLower\<close> folds
  ASCII letters as \<open>ToLower\<close> does; what it makes of a string with other bytes is the parameter
  \<open>u\<close>, the case tables of Unicode.
\<close>

section \<open>strings\<close>

definition is_ascii :: "bytes \<Rightarrow> bool" where
  "is_ascii s \<longleftrightarrow> list_all (\<lambda>b. bval b < 128) s"

definition StrToLower :: "(bytes \<Rightarrow> bytes) \<Rightarrow> bytes \<Rightarrow> bytes" where
  "StrToLower u s = (if is_ascii s then ToLower s else u s)"

text \<open>The UTF-8 encodings of the runes \<open>unicode.IsSpace\<close> accepts.\<close>

definition spaces :: "bytes list" where
  "spaces = map (map mkbyte)
     ([[9], [10], [11], [12], [13], [32], [0xC2, 0x85], [0xC2, 0xA0], [0xE1, 0x9A, 0x80], [0xE2, 0x80, 0xA8],
       [0xE2, 0x80, 0xA9], [0xE2, 0x80, 0xAF], [0xE2, 0x81, 0x9F], [0xE3, 0x80, 0x80]]
      @ map (\<lambda>i. [0xE2, 0x80, i]) [0x80..<0x8B])"

definition lead_space :: "bytes \<Rightarrow> nat" where
  "lead_space s = (case find (\<lambda>sp. take (length sp) s = sp) spaces of None \<Rightarrow> 0 | Some sp \<Rightarrow> length sp)"

lemma spaces_pos: "\<forall>sp \<in> set spaces. 0 < length sp"
  by (simp add: spaces_def)

function TrimLeft :: "bytes \<Rightarrow> bytes" where
  "TrimLeft s = (if s = [] \<or> lead_space s = 0 then s else TrimLeft (drop (lead_space s) s))"
  by auto
termination by (relation "measure length") auto

definition tail_space :: "bytes \<Rightarrow> nat" where
  "tail_space s =
     (case find (\<lambda>sp. length sp \<le> length s \<and> drop (length s - length sp) s = sp) spaces of None \<Rightarrow> 0 | Some sp \<Rightarrow> length sp)"

function TrimRight :: "bytes \<Rightarrow> bytes" where
  "TrimRight s = (if s = [] \<or> tail_space s = 0 then s else TrimRight (take (length s - tail_space s) s))"
  by auto
termination by (relation "measure length") auto

declare TrimLeft.simps [simp del] TrimRight.simps [simp del]

definition TrimSpace :: "bytes \<Rightarrow> bytes" where
  "TrimSpace s = TrimRight (TrimLeft s)"

text \<open>\<open>strings.Fields\<close>; a byte that starts no space rune is a byte of a field.\<close>

function fields_loop :: "bytes \<Rightarrow> bytes \<Rightarrow> bytes list" where
  "fields_loop cur [] = (if cur = [] then [] else [cur])"
| "fields_loop cur (b # s) =
     (if lead_space (b # s) = 0 then fields_loop (cur @ [b]) s
      else (if cur = [] then [] else [cur]) @ fields_loop [] (drop (lead_space (b # s)) (b # s)))"
  by pat_completeness auto
termination by (relation "measure (length \<circ> snd)") auto

definition Fields :: "bytes \<Rightarrow> bytes list" where
  "Fields s = fields_loop [] s"

definition HasSuffix :: "bytes \<Rightarrow> bytes \<Rightarrow> bool" where
  "HasSuffix s t \<longleftrightarrow> length t \<le> length s \<and> drop (length s - length t) s = t"

definition TrimSuffix :: "bytes \<Rightarrow> bytes \<Rightarrow> bytes" where
  "TrimSuffix s t = (if HasSuffix s t then take (length s - length t) s else s)"

section \<open>The configuration\<close>

text \<open>\<open>ActiveExpireThreshold\<close>, a fraction, is a numerator and a denominator.\<close>

record Config =
  Addr :: bytes
  MetricsAddr :: bytes
  MaxClients :: int
  ReadTimeout :: int
  WriteTimeout :: int
  IdleTimeout :: int
  ShutdownGrace :: int
  TCPKeepAlive :: int
  ReplyBufferSize :: int
  RequirePass :: bytes
  Engine_kind :: bytes
  Dir :: bytes
  EngineAddr :: bytes
  EngineTimeout :: int
  AppendOnly :: bool
  AppendFsync :: SyncPolicy
  SegmentSize :: int
  SavePoints :: "(int \<times> nat) list"
  ActiveExpireEnabled :: bool
  ActiveExpireInterval :: int
  ActiveExpireSample :: int
  ActiveExpireThreshold :: "nat \<times> nat"
  Limits :: Limits
  LogLevel :: bytes
  LogFormat :: bytes
  cfg_mutable :: "(bytes \<times> bytes) list"

abbreviation EngineMemory :: bytes where "EngineMemory \<equiv> ''memory''"
abbreviation EngineLSM :: bytes where "EngineLSM \<equiv> ''lsm''"

definition Default :: Config where
  "Default =
     \<lparr>Addr = '':6379'', MetricsAddr = '':9121'', MaxClients = 10000, ReadTimeout = 30000000000,
      WriteTimeout = 30000000000, IdleTimeout = 0, ShutdownGrace = 10000000000, TCPKeepAlive = 300000000000,
      ReplyBufferSize = 16384, RequirePass = [],
      Engine_kind = EngineMemory, Dir = ''./data'', EngineAddr = ''127.0.0.1:50051'', EngineTimeout = 5000000000,
      AppendOnly = True, AppendFsync = SyncEverySec, SegmentSize = 67108864,
      SavePoints = [(900000000000, 1), (300000000000, 10), (60000000000, 10000)],
      ActiveExpireEnabled = True, ActiveExpireInterval = 100000000, ActiveExpireSample = 20,
      ActiveExpireThreshold = (1, 4),
      Limits = DefaultLimits, LogLevel = ''info'', LogFormat = ''text'', cfg_mutable = []\<rparr>"

section \<open>Parsing values\<close>

definition isYes :: "(bytes \<Rightarrow> bytes) \<Rightarrow> bytes \<Rightarrow> bool" where
  "isYes u s = (StrToLower u s \<in> {''yes'', ''y'', ''true'', ''1'', ''on''})"

definition parseBytes :: "(bytes \<Rightarrow> bytes) \<Rightarrow> bytes \<Rightarrow> int res" where
  "parseBytes u s0 =
     (let s = TrimSpace (StrToLower u s0);
          (mult, s) =
            (if HasSuffix s ''kb'' then (1024, TrimSuffix s ''kb'')
             else if HasSuffix s ''mb'' then (1048576, TrimSuffix s ''mb'')
             else if HasSuffix s ''gb'' then (1073741824, TrimSuffix s ''gb'')
             else if HasSuffix s ''k'' then (1000, TrimSuffix s ''k'')
             else if HasSuffix s ''m'' then (1000000, TrimSuffix s ''m'')
             else if HasSuffix s ''g'' then (1000000000, TrimSuffix s ''g'')
             else (1, s))
      in case ParseInt (TrimSpace s) of
           None \<Rightarrow> Fail (FmtErr ''not a byte size: %q'' s)
         | Some n \<Rightarrow>
             if n < 0 then Fail (OtherErr ''byte size must not be negative'')
             else Ret (i64 (n * mult)))"

definition portOf :: "bytes \<Rightarrow> bytes" where
  "portOf addr =
     (let tl = takeWhile (\<lambda>b. b \<noteq> CHR '':'') (rev addr)
      in if length tl < length addr then rev tl else addr)"

text \<open>\<open>int(d.Seconds())\<close> goes through a \<open>float64\<close>; \<open>sec\<close> is that conversion.\<close>

definition formatSavePoints :: "(int \<Rightarrow> int) \<Rightarrow> (int \<times> nat) list \<Rightarrow> bytes" where
  "formatSavePoints sec sps =
     concat (map2 (\<lambda>i sp. (if i = 0 then [] else '' '') @ FormatInt (sec (fst sp)) @ '' '' @ FormatUint (snd sp))
       [0..<length sps] sps)"

section \<open>Runtime parameters\<close>

definition yn :: "bool \<Rightarrow> bytes" where
  "yn b = (if b then ''yes'' else ''no'')"

definition snapshotLocked :: "(int \<Rightarrow> int) \<Rightarrow> Config \<Rightarrow> (bytes \<times> bytes) list" where
  "snapshotLocked sec c =
     [(''bind'', Addr c), (''port'', portOf (Addr c)), (''maxclients'', FormatInt (MaxClients c)),
      (''timeout'', FormatInt (sec (IdleTimeout c))), (''tcp-keepalive'', FormatInt (sec (TCPKeepAlive c))),
      (''dir'', Dir c), (''appendonly'', yn (AppendOnly c)), (''appendfsync'', SyncPolicy_String (AppendFsync c)),
      (''save'', formatSavePoints sec (SavePoints c)), (''requirepass'', RequirePass c),
      (''proto-max-bulk-len'', FormatInt (MaxBulkSize (Limits c))), (''databases'', ''1''),
      (''storage-engine'', Engine_kind c), (''wal-segment-size'', FormatInt (SegmentSize c)),
      (''activeexpire'', yn (ActiveExpireEnabled c)), (''loglevel'', LogLevel c), (''maxmemory'', ''0''),
      (''maxmemory-policy'', ''noeviction''), (''appendfilename'', ''wal''), (''dbfilename'', ''dump.rfs''),
      (''list-max-listpack-size'', ''128'')]"

definition Config_Get :: "(bytes \<Rightarrow> bytes) \<Rightarrow> (int \<Rightarrow> int) \<Rightarrow> Config \<Rightarrow> bytes \<Rightarrow> bytes option" where
  "Config_Get u sec c name =
     (case map_of (cfg_mutable c) (StrToLower u name) of
        Some v \<Rightarrow> Some v
      | None \<Rightarrow> map_of (snapshotLocked sec c) (StrToLower u name))"

definition Config_All :: "(int \<Rightarrow> int) \<Rightarrow> Config \<Rightarrow> (bytes \<times> bytes) list" where
  "Config_All sec c = fold (\<lambda>(k, v). AList.update k v) (cfg_mutable c) (snapshotLocked sec c)"

text \<open>The table \<open>mutableParams\<close>; the parameters outside it have no entry.\<close>

definition mutableParams :: "(bytes \<Rightarrow> bytes) \<Rightarrow> bytes \<Rightarrow> (Config \<Rightarrow> bytes \<Rightarrow> Config res) option" where
  "mutableParams u name =
     (if name = ''appendfsync'' then
        Some (\<lambda>c v. bind_res (ParseSyncPolicy v) (\<lambda>p. Ret (c\<lparr>AppendFsync := p\<rparr>)))
      else if name = ''maxclients'' then
        Some (\<lambda>c v. case ParseInt v of
            None \<Rightarrow> Fail (OtherErr ''maxclients must be a positive integer'')
          | Some n \<Rightarrow> if n \<le> 0 then Fail (OtherErr ''maxclients must be a positive integer'') else Ret (c\<lparr>MaxClients := n\<rparr>))
      else if name = ''requirepass'' then Some (\<lambda>c v. Ret (c\<lparr>RequirePass := v\<rparr>))
      else if name = ''proto-max-bulk-len'' then
        Some (\<lambda>c v. bind_res (parseBytes u v) (\<lambda>n. Ret (c\<lparr>Limits := (Limits c)\<lparr>MaxBulkSize := n\<rparr>\<rparr>)))
      else if name = ''activeexpire'' then
        Some (\<lambda>c v. Ret (c\<lparr>ActiveExpireEnabled := (v = ''yes'' \<or> v = ''1'' \<or> v = ''true'')\<rparr>))
      else if name = ''loglevel'' then
        Some (\<lambda>c v. if v \<in> {''debug'', ''info'', ''warn'', ''error''} then Ret (c\<lparr>LogLevel := v\<rparr>)
                    else Fail (OtherErr ''loglevel must be debug, info, warn or error''))
      else None)"

definition Config_Set :: "(bytes \<Rightarrow> bytes) \<Rightarrow> (int \<Rightarrow> int) \<Rightarrow> bytes \<Rightarrow> bytes \<Rightarrow> (Config, unit) action" where
  "Config_Set u sec name value c =
     (let name = StrToLower u name in
      case mutableParams u name of
        None \<Rightarrow>
          (case map_of (snapshotLocked sec c) name of
             Some _ \<Rightarrow> (Fail (FmtErr ''parameter is not modifiable at runtime: %s'' name), c)
           | None \<Rightarrow> (Fail (FmtErr ''unknown parameter %q'' name), c))
      | Some ap \<Rightarrow>
          (case ap c value of
             Ret c' \<Rightarrow> (Ret (), c'\<lparr>cfg_mutable := AList.update name value (cfg_mutable c')\<rparr>)
           | Fail e \<Rightarrow> (Fail e, c)
           | Panic \<Rightarrow> (Panic, c)))"

section \<open>The config file\<close>

text \<open>One directive; a failing one leaves the configuration as it is.\<close>

definition arg0 :: "bytes list \<Rightarrow> bytes" where
  "arg0 args = (case args of [] \<Rightarrow> [] | a # _ \<Rightarrow> a)"

definition int_directive :: "bytes \<Rightarrow> bytes \<Rightarrow> (int \<Rightarrow> Config \<Rightarrow> Config) \<Rightarrow> (Config, unit) action" where
  "int_directive key a f c =
     (case ParseInt a of None \<Rightarrow> (Fail (FmtErr (key @ '': %w'') a), c) | Some n \<Rightarrow> (Ret (), f n c))"

definition size_directive :: "(bytes \<Rightarrow> bytes) \<Rightarrow> bytes \<Rightarrow> bytes \<Rightarrow> (int \<Rightarrow> Config \<Rightarrow> Config) \<Rightarrow> (Config, unit) action" where
  "size_directive u key a f c =
     (case parseBytes u a of Ret n \<Rightarrow> (Ret (), f n c) | Fail e \<Rightarrow> (Fail (FmtErr (key @ '': %w'') a), c) | Panic \<Rightarrow> (Panic, c))"

definition applyDirective :: "(bytes \<Rightarrow> bytes) \<Rightarrow> bytes \<Rightarrow> bytes list \<Rightarrow> (Config, unit) action" where
  "applyDirective u key args c =
     (let a = arg0 args in
      if key \<in> {''bind'', ''addr''} then (Ret (), c\<lparr>Addr := a\<rparr>)
      else if key = ''port'' then (Ret (), c\<lparr>Addr := CHR '':'' # a\<rparr>)
      else if key = ''dir'' then (Ret (), c\<lparr>Dir := a\<rparr>)
      else if key = ''maxclients'' then int_directive key a (\<lambda>n c. c\<lparr>MaxClients := n\<rparr>) c
      else if key = ''timeout'' then int_directive key a (\<lambda>n c. c\<lparr>IdleTimeout := i64 (n * 1000000000)\<rparr>) c
      else if key = ''tcp-keepalive'' then int_directive key a (\<lambda>n c. c\<lparr>TCPKeepAlive := i64 (n * 1000000000)\<rparr>) c
      else if key = ''requirepass'' then (Ret (), c\<lparr>RequirePass := a\<rparr>)
      else if key = ''appendonly'' then (Ret (), c\<lparr>AppendOnly := isYes u a\<rparr>)
      else if key = ''appendfsync'' then
        (case ParseSyncPolicy a of Ret p \<Rightarrow> (Ret (), c\<lparr>AppendFsync := p\<rparr>) | Fail e \<Rightarrow> (Fail e, c) | Panic \<Rightarrow> (Panic, c))
      else if key = ''storage-engine'' then
        (if a = EngineMemory then (Ret (), c\<lparr>Engine_kind := EngineMemory\<rparr>)
         else if a = EngineLSM then (Ret (), c\<lparr>Engine_kind := EngineLSM\<rparr>)
         else (Fail (OtherErr ''storage-engine must be memory or lsm''), c))
      else if key = ''engine-addr'' then (Ret (), c\<lparr>EngineAddr := a\<rparr>)
      else if key = ''wal-segment-size'' then size_directive u key a (\<lambda>n c. c\<lparr>SegmentSize := n\<rparr>) c
      else if key = ''proto-max-bulk-len'' then
        size_directive u key a (\<lambda>n c. c\<lparr>Limits := (Limits c)\<lparr>MaxBulkSize := n\<rparr>\<rparr>) c
      else if key = ''metrics-addr'' then (Ret (), c\<lparr>MetricsAddr := a\<rparr>)
      else if key = ''loglevel'' then (Ret (), c\<lparr>LogLevel := a\<rparr>)
      else if key = ''logformat'' then (Ret (), c\<lparr>LogFormat := a\<rparr>)
      else if key = ''activeexpire'' then (Ret (), c\<lparr>ActiveExpireEnabled := isYes u a\<rparr>)
      else if key = ''databases'' then
        (if a \<noteq> ''1'' then (Fail (OtherErr ''this server implements a single database; see docs/adr/ADR-004''), c)
         else (Ret (), c))
      else (Fail (FmtErr ''unknown directive %q'' key), c))"

text \<open>\<open>bufio.ScanLines\<close>: lines end at a line feed, one carriage return before it is dropped.\<close>

function split_lines :: "bytes \<Rightarrow> bytes list" where
  "split_lines s =
     (if s = [] then []
      else let l = takeWhile (\<lambda>b. b \<noteq> LF) s in l # split_lines (drop (length l + 1) s))"
  by auto
termination by (relation "measure length") auto

declare split_lines.simps [simp del]

definition dropCR :: "bytes \<Rightarrow> bytes" where
  "dropCR l = (if l \<noteq> [] \<and> last l = CR then butlast l else l)"

definition maxScanTokenSize :: nat where
  "maxScanTokenSize = 65536"

text \<open>
  The loop over the lines; \<open>n\<close> counts them, \<open>saves\<close> and \<open>saw\<close> are \<open>saves\<close> and \<open>sawSave\<close>. A line
  that does not fit the scanner's buffer ends the file with an error.
\<close>

fun load_lines :: "(bytes \<Rightarrow> bytes) \<Rightarrow> nat \<Rightarrow> bytes list \<Rightarrow> (int \<times> nat) list \<Rightarrow> bool \<Rightarrow> (Config, (int \<times> nat) list \<times> bool) action" where
  "load_lines u n [] saves saw c = (Ret (saves, saw), c)"
| "load_lines u n (l # ls) saves saw c =
     (if maxScanTokenSize \<le> length l then (Fail (OtherErr ''config: read: token too long''), c)
      else
        let n = n + 1; txt = TrimSpace (dropCR l) in
        if txt = [] \<or> hd txt = CHR ''#'' then load_lines u n ls saves saw c
        else
          case Fields txt of
            [] \<Rightarrow> (Panic, c)
          | field # args \<Rightarrow>
              let key = StrToLower u field in
              if key = ''save'' then
                (if length args = 2 then
                   (case (ParseInt (args ! 0), ParseUint (args ! 1)) of
                      (Some aft, Some changes) \<Rightarrow> load_lines u n ls (saves @ [(i64 (aft * 1000000000), changes)]) True c
                    | _ \<Rightarrow> (Fail (FmtErr ''config: save wants two integers: line %d'' (FormatUint n)), c))
                 else load_lines u n ls saves True c)
              else
                (case applyDirective u key args c of
                   (Ret _, c) \<Rightarrow> load_lines u n ls saves saw c
                 | (Fail e, c) \<Rightarrow> (Fail (FmtErr ''config: line %d'' (FormatUint n)), c)
                 | (Panic, c) \<Rightarrow> (Panic, c)))"

definition LoadFile :: "(bytes \<Rightarrow> bytes) \<Rightarrow> bytes option \<Rightarrow> (Config, unit) action" where
  "LoadFile u file c =
     (case file of
        None \<Rightarrow> (Fail (OtherErr ''config: open''), c)
      | Some txt \<Rightarrow>
          (case load_lines u 0 (split_lines txt) [] False c of
             (Ret (saves, saw), c) \<Rightarrow> (Ret (), if saw then c\<lparr>SavePoints := saves\<rparr> else c)
           | (Fail e, c) \<Rightarrow> (Fail e, c)
           | (Panic, c) \<Rightarrow> (Panic, c)))"

definition Validate :: "Config \<Rightarrow> unit res" where
  "Validate c =
     (if Addr c = [] then Fail (OtherErr ''config: listen address is empty'')
      else if MaxClients c \<le> 0 then Fail (OtherErr ''config: maxclients must be positive'')
      else if Engine_kind c \<noteq> EngineMemory \<and> Engine_kind c \<noteq> EngineLSM then Fail (FmtErr ''config: unknown storage engine %q'' (Engine_kind c))
      else if Engine_kind c = EngineLSM \<and> EngineAddr c = [] then Fail (OtherErr ''config: storage-engine lsm requires engine-addr'')
      else if MaxBulkSize (Limits c) \<le> 0 \<or> MaxMultiBulkLen (Limits c) \<le> 0 then Fail (OtherErr ''config: protocol limits must be positive'')
      else if ActiveExpireSample c \<le> 0 then Fail (OtherErr ''config: activeexpire sample size must be positive'')
      else Ret ())"

section \<open>Loading never panics\<close>

lemma lead_space_0: "lead_space s = 0 \<longleftrightarrow> (\<forall>sp \<in> set spaces. take (length sp) s \<noteq> sp)"
proof (cases "find (\<lambda>sp. take (length sp) s = sp) spaces")
  case None
  then show ?thesis by (simp add: lead_space_def) (auto simp: find_None_iff)
next
  case (Some sp)
  then have "sp \<in> set spaces" "take (length sp) s = sp" by (auto simp: find_Some_iff)
  with spaces_pos Some show ?thesis by (simp add: lead_space_def) blast
qed

lemma lead_space_take:
  assumes "lead_space s = 0"
  shows "lead_space (take n s) = 0"
  unfolding lead_space_0
proof
  fix sp assume sp: "sp \<in> set spaces"
  show "take (length sp) (take n s) \<noteq> sp"
  proof
    assume a: "take (length sp) (take n s) = sp"
    then have "length sp \<le> n" by (metis length_take min.cobounded2 min.commute take_take)
    with a have "take (length sp) s = sp" by (simp add: min_def)
    with assms sp show False by (auto simp: lead_space_0)
  qed
qed

lemma TrimLeft_lead: "TrimLeft s = [] \<or> lead_space (TrimLeft s) = 0"
proof (induction s rule: TrimLeft.induct)
  case (1 s)
  then show ?case by (cases "s = [] \<or> lead_space s = 0") (auto simp: TrimLeft.simps [of s])
qed

lemma TrimRight_take: "\<exists>n. TrimRight s = take n s"
proof (induction s rule: TrimRight.induct)
  case (1 s)
  show ?case
  proof (cases "s = [] \<or> tail_space s = 0")
    case True
    then show ?thesis by (intro exI [of _ "length s"]) (simp add: TrimRight.simps [of s])
  next
    case False
    with 1 obtain n where "TrimRight (take (length s - tail_space s) s) = take n (take (length s - tail_space s) s)" by auto
    with False show ?thesis by (intro exI [of _ "min n (length s - tail_space s)"]) (simp add: TrimRight.simps [of s])
  qed
qed

lemma Fields_TrimSpace: "TrimSpace s \<noteq> [] \<Longrightarrow> Fields (TrimSpace s) \<noteq> []"
proof -
  assume ne: "TrimSpace s \<noteq> []"
  obtain n where n: "TrimSpace s = take n (TrimLeft s)" using TrimRight_take by (auto simp: TrimSpace_def)
  with ne TrimLeft_lead [of s] have "lead_space (TrimSpace s) = 0" by (auto intro: lead_space_take)
  moreover have "fields_loop (c # cs) t \<noteq> []" for c cs t
    by (induction "c # cs" t arbitrary: c cs rule: fields_loop.induct) auto
  ultimately show ?thesis using ne by (cases "TrimSpace s") (auto simp: Fields_def)
qed

lemma parseBytes_total: "parseBytes u a \<noteq> Panic"
  by (simp add: parseBytes_def Let_def split: option.split prod.split)

lemma applyDirective_total: "fst (applyDirective u key args c) \<noteq> Panic"
proof -
  have 1: "fst (int_directive k a f c) \<noteq> Panic" for k a f by (simp add: int_directive_def split: option.split)
  have 2: "fst (size_directive u k a f c) \<noteq> Panic" for k a f
    using parseBytes_total [of u a] by (simp add: size_directive_def split: res.split)
  show ?thesis using 1 2 by (simp add: applyDirective_def Let_def ParseSyncPolicy_def)
qed

lemma load_lines_total: "fst (load_lines u n ls saves saw c) \<noteq> Panic"
proof (induction u n ls saves saw c rule: load_lines.induct)
  case (2 u n l ls saves saw c)
  show ?case
  proof (cases "maxScanTokenSize \<le> length l \<or> TrimSpace (dropCR l) = [] \<or> hd (TrimSpace (dropCR l)) = CHR ''#''")
    case True
    with 2 show ?thesis by (auto simp: Let_def)
  next
    case False
    then obtain field args where f: "Fields (TrimSpace (dropCR l)) = field # args"
      using Fields_TrimSpace [of "dropCR l"] by (cases "Fields (TrimSpace (dropCR l))") auto
    obtain r c' where ap: "applyDirective u (StrToLower u field) args c = (r, c')" by fastforce
    have "r \<noteq> Panic" using applyDirective_total [of u "StrToLower u field" args c] ap by simp
    with 2 False f ap show ?thesis by (auto simp: Let_def split: option.splits res.splits)
  qed
qed simp

section \<open>Setting a parameter\<close>

lemma map_of_update [simp]: "map_of (AList.update k v al) = (map_of al)(k \<mapsto> v)"
  by (rule update_conv')

text \<open>A parameter's setter changes no other entry of the snapshot.\<close>

definition set_entry :: "bytes \<Rightarrow> bytes \<Rightarrow> (bytes \<times> bytes) list \<Rightarrow> (bytes \<times> bytes) list" where
  "set_entry k x al = map (\<lambda>(j, v). (j, if j = k then x else v)) al"

lemma map_of_set_entry: "n \<noteq> k \<Longrightarrow> map_of (set_entry k x al) n = map_of al n"
  by (induction al) (auto simp: set_entry_def)

lemma snapshot_setters:
  "snapshotLocked sec (c\<lparr>AppendFsync := p\<rparr>) = set_entry ''appendfsync'' (SyncPolicy_String p) (snapshotLocked sec c)"
  "snapshotLocked sec (c\<lparr>MaxClients := n\<rparr>) = set_entry ''maxclients'' (FormatInt n) (snapshotLocked sec c)"
  "snapshotLocked sec (c\<lparr>RequirePass := v\<rparr>) = set_entry ''requirepass'' v (snapshotLocked sec c)"
  "snapshotLocked sec (c\<lparr>Limits := (Limits c)\<lparr>MaxBulkSize := n\<rparr>\<rparr>) = set_entry ''proto-max-bulk-len'' (FormatInt n) (snapshotLocked sec c)"
  "snapshotLocked sec (c\<lparr>ActiveExpireEnabled := b\<rparr>) = set_entry ''activeexpire'' (yn b) (snapshotLocked sec c)"
  "snapshotLocked sec (c\<lparr>LogLevel := v\<rparr>) = set_entry ''loglevel'' v (snapshotLocked sec c)"
  by (simp_all add: snapshotLocked_def set_entry_def)

lemma mutableParams_frame:
  assumes "mutableParams u name = Some ap" and "ap c v = Ret c'"
  shows "(\<exists>x. snapshotLocked sec c' = set_entry name x (snapshotLocked sec c)) \<and> cfg_mutable c' = cfg_mutable c"
  using assms unfolding mutableParams_def
  by (auto simp: snapshot_setters bind_res_eq_Ret split: if_splits option.splits) (rule exI, rule refl)+

section \<open>Properties\<close>

text \<open>
  \<open>CONFIG SET\<close> changes exactly the parameter it names, so that \<open>CONFIG GET\<close> returns the value
  given, and a rejected change leaves the configuration as it was.
\<close>

theorem Set_then_Get:
  assumes "Config_Set u sec name v c = (r, c')"
  shows "case r of
      Ret _ \<Rightarrow> (\<forall>n. Config_Get u sec c' n = (if StrToLower u n = StrToLower u name then Some v else Config_Get u sec c n))
    | _ \<Rightarrow> c' = c"
proof (cases "\<exists>ap c1. mutableParams u (StrToLower u name) = Some ap \<and> ap c v = Ret c1")
  case True
  then obtain ap c1 where ap: "mutableParams u (StrToLower u name) = Some ap" "ap c v = Ret c1" by blast
  from mutableParams_frame [OF ap, of sec] obtain x where
    x: "snapshotLocked sec c1 = set_entry (StrToLower u name) x (snapshotLocked sec c)" "cfg_mutable c1 = cfg_mutable c" by blast
  let ?m = "AList.update (StrToLower u name) v (cfg_mutable c)"
  have c': "r = Ret ()" "c' = c1\<lparr>cfg_mutable := ?m\<rparr>" using assms ap x(2) by (simp_all add: Config_Set_def Let_def)
  have "snapshotLocked sec c' = snapshotLocked sec c1" by (simp add: c' snapshotLocked_def)
  with x(1) have sn: "map_of (snapshotLocked sec c') n = map_of (snapshotLocked sec c) n" if "n \<noteq> StrToLower u name" for n
    using that by (simp add: map_of_set_entry)
  have "cfg_mutable c' = ?m" by (simp add: c')
  with sn c'(1) show ?thesis by (auto simp: Config_Get_def split: option.splits)
next
  case False
  with assms show ?thesis by (auto simp: Config_Set_def Let_def split: option.splits res.splits)
qed

end
