(* ===== verification/Cmd_Core.thy ===== *)
theory Cmd_Core
  imports Counters Config Glob Resp_Writer
begin

text \<open>
  What every command handler works with: the connection and the context of
  \<open>src/internal/command/context.go\<close>, the reply helpers of \<open>reply.go\<close>, the error replies of
  \<open>errors.go\<close>, and the server's side of them, \<open>src/internal/server/env.go\<close>. A handler is an action
  on the world: the engine's state, the counters, the configuration, the connections, the reply
  writer and the server's flags. The engine, the snapshotter and everything read from outside
  the sources are fields of \<open>env\<close>; clock readings and random numbers are the \<open>inputs\<close> of a call.
\<close>

section \<open>Connections\<close>

text \<open>Times are nanoseconds; \<open>CreatedAt\<close> and the idle clock are read in whole seconds only.\<close>

record Conn =
  ID :: nat
  RemoteAddr :: bytes
  LocalAddr :: bytes
  CreatedAt :: int
  Proto :: nat
  Authenticated :: bool
  conn_name :: bytes
  lastCommand :: bytes
  lastInteraction :: int
  commandCount :: nat
  closeAfterReply :: bool
  killed :: bool

text \<open>\<open>time.Time.Unix\<close> of a time in nanoseconds.\<close>

definition Unix :: "int \<Rightarrow> int" where
  "Unix t = t div 1000000000"

definition NewConn :: "nat \<Rightarrow> bytes \<Rightarrow> bytes \<Rightarrow> bool \<Rightarrow> int \<Rightarrow> Conn" where
  "NewConn cid remote loc authenticated now =
     \<lparr>ID = cid, RemoteAddr = remote, LocalAddr = loc, CreatedAt = now, Proto = RESP2, Authenticated = authenticated,
      conn_name = [], lastCommand = [], lastInteraction = Unix now, commandCount = 0, closeAfterReply = False,
      killed = False\<rparr>"

definition Touch :: "bytes \<Rightarrow> int \<Rightarrow> Conn \<Rightarrow> Conn" where
  "Touch name nowUnix c = c\<lparr>lastCommand := name, lastInteraction := nowUnix, commandCount := u64 (commandCount c + 1)\<rparr>"

definition IdleSeconds :: "int \<Rightarrow> Conn \<Rightarrow> int" where
  "IdleSeconds now c = i64 (Unix now - lastInteraction c)"

definition ShouldClose :: "Conn \<Rightarrow> bool" where
  "ShouldClose c \<longleftrightarrow> closeAfterReply c \<or> killed c"

section \<open>The world\<close>

text \<open>
  \<open>wd_conn\<close> is the calling connection and \<open>wd_others\<close> the other ones. \<open>wd_names\<close> is the sorted name
  list the command table precomputes. \<open>wd_shutdown\<close> is the content of the channel \<open>shutdownReq\<close>,
  which has room for one request.
\<close>

record 's World =
  wd_store :: 's
  wd_stats :: ServerStats
  wd_cfg :: Config
  wd_conn :: Conn
  wd_others :: "Conn list"
  wd_out :: Writer
  wd_bgsave :: bool
  wd_shutdown :: "bool option"
  wd_shutdownSave :: bool
  wd_names :: "bytes list"

text \<open>
  \<open>Saver\<close> is the persistence surface of \<open>server.go\<close>. \<open>en_lower\<close> is \<open>strings.ToLower\<close> on strings
  that are not ASCII, \<open>en_seconds\<close> is \<open>int64(d.Seconds())\<close>, \<open>en_Error\<close> the text of an error and
  \<open>en_Info\<close> the rendering of \<open>INFO\<close>, which is made of runtime statistics.
\<close>

record 's Saver =
  Saver_Snapshot :: "clock \<Rightarrow> ('s, unit) action"
  Saver_LastSnapshot :: "'s \<Rightarrow> int \<times> bool"

record ('s, 'f) env =
  en_Store :: "'s store"
  en_StoreStats :: "('s, Stats) action"
  en_Saver :: "'s Saver option"
  en_F :: "'f float_ops"
  en_Info :: "bytes list \<Rightarrow> 's World \<Rightarrow> bytes"
  en_Version :: bytes
  en_lower :: "bytes \<Rightarrow> bytes"
  en_seconds :: "int \<Rightarrow> int"
  en_Error :: "gerror \<Rightarrow> bytes"

text \<open>
  The inputs of one call: \<open>in_ms i\<close> is the \<open>i\<close>-th time the handler reads the clock in
  milliseconds, \<open>in_clk i\<close> the clock during its \<open>i\<close>-th call of the engine, \<open>in_now i\<close> the \<open>i\<close>-th
  time it reads the clock in nanoseconds, \<open>in_start\<close> and \<open>in_end\<close> the dispatcher's own readings,
  \<open>in_rand\<close> a random \<open>uint64\<close>, and \<open>in_order\<close> the order in which a map is iterated.
\<close>

record inputs =
  in_ms :: "nat \<Rightarrow> int"
  in_clk :: "nat \<Rightarrow> clock"
  in_now :: "nat \<Rightarrow> int"
  in_start :: int
  in_end :: int
  in_rand :: nat
  in_order :: "(bytes \<times> bytes) list \<Rightarrow> (bytes \<times> bytes) list"

text \<open>The context of a call: its arguments, the command's name and the inputs.\<close>

record ctx =
  Args :: "bytes list"
  ctx_name :: bytes
  ctx_in :: inputs

type_synonym ('s, 'f) handler = "('s, 'f) env \<Rightarrow> ctx \<Rightarrow> ('s World, unit) action"

definition Argc :: "ctx \<Rightarrow> nat" where
  "Argc c = length (Args c)"

text \<open>An absent argument is a nil slice.\<close>

definition Arg :: "ctx \<Rightarrow> nat \<Rightarrow> bytes" where
  "Arg c i = (if i < length (Args c) then Args c ! i else [])"

definition Arg_slice :: "ctx \<Rightarrow> nat \<Rightarrow> bytes option" where
  "Arg_slice c i = (if i < length (Args c) then Some (Args c ! i) else None)"

definition ArgLower :: "('s, 'f) env \<Rightarrow> ctx \<Rightarrow> nat \<Rightarrow> bytes" where
  "ArgLower E c i = StrToLower (en_lower E) (Arg c i)"

definition NowMs :: "ctx \<Rightarrow> nat \<Rightarrow> int" where
  "NowMs c i = in_ms (ctx_in c) i"

definition Hit :: "'s World \<Rightarrow> 's World" where
  "Hit w = w\<lparr>wd_stats := (wd_stats w)\<lparr>KeyspaceHits := u64 (KeyspaceHits (wd_stats w) + 1)\<rparr>\<rparr>"

definition Miss :: "'s World \<Rightarrow> 's World" where
  "Miss w = w\<lparr>wd_stats := (wd_stats w)\<lparr>KeyspaceMisses := u64 (KeyspaceMisses (wd_stats w) + 1)\<rparr>\<rparr>"

section \<open>Replies\<close>

definition on_out :: "(Writer \<Rightarrow> Writer) \<Rightarrow> 's World \<Rightarrow> 's World" where
  "on_out f w = w\<lparr>wd_out := f (wd_out w)\<rparr>"

definition fin :: "'s World \<Rightarrow> unit res \<times> 's World" where
  "fin w = (Ret (), w)"

definition failed :: "'s World \<Rightarrow> 's World" where
  "failed w = w\<lparr>wd_stats := (wd_stats w)\<lparr>CommandsFailed := u64 (CommandsFailed (wd_stats w) + 1)\<rparr>\<rparr>"

definition Err :: "bytes \<Rightarrow> ('s World, unit) action" where
  "Err msg w = fin (on_out (WriteError (''ERR '' @ msg)) (failed w))"

definition ErrCode :: "bytes \<Rightarrow> bytes \<Rightarrow> ('s World, unit) action" where
  "ErrCode code msg w = fin (on_out (WriteError (code @ '' '' @ msg)) (failed w))"

definition ErrWrongArgs :: "ctx \<Rightarrow> ('s World, unit) action" where
  "ErrWrongArgs c = Err (''wrong number of arguments for '' @ [CHR 0x27] @ ctx_name c @ [CHR 0x27] @ '' command'')"

definition ErrSyntax :: "('s World, unit) action" where
  "ErrSyntax = Err ''syntax error''"

definition ErrNotInteger :: "('s World, unit) action" where
  "ErrNotInteger = Err ''value is not an integer or out of range''"

definition OK :: "('s World, unit) action" where
  "OK w = fin (on_out (WriteSimpleString ''OK'') w)"

definition IntR :: "int \<Rightarrow> ('s World, unit) action" where
  "IntR n w = fin (on_out (WriteInt n) w)"

definition Bulk :: "bytes option \<Rightarrow> ('s World, unit) action" where
  "Bulk b w = fin (on_out (WriteBulk b) w)"

definition BulkString :: "bytes \<Rightarrow> ('s World, unit) action" where
  "BulkString s w = fin (on_out (WriteBulkString s) w)"

definition Null :: "('s World, unit) action" where
  "Null w = fin (on_out WriteNull w)"

definition BoolR :: "bool \<Rightarrow> ('s World, unit) action" where
  "BoolR b w = fin (on_out (WriteBool b) w)"

definition SimpleString :: "bytes \<Rightarrow> ('s World, unit) action" where
  "SimpleString s w = fin (on_out (WriteSimpleString s) w)"

definition intArg :: "ctx \<Rightarrow> nat \<Rightarrow> int option" where
  "intArg c i = ParseInt (Arg c i)"

definition floatArg :: "('s, 'f) env \<Rightarrow> ctx \<Rightarrow> nat \<Rightarrow> 'f option" where
  "floatArg E c i =
     (let s = Arg c i in
      if s \<in> {''inf'', ''+inf'', ''infinity'', ''+infinity''} then None
      else case f_ParseFloat (en_F E) s of
             None \<Rightarrow> None
           | Some v \<Rightarrow> if f_isNaN (en_F E) v then None else Some v)"

abbreviation msgInvalidExpire :: "bytes \<Rightarrow> bytes" where
  "msgInvalidExpire name \<equiv> ''invalid expire time in '' @ [CHR 0x27] @ name @ [CHR 0x27] @ '' command''"

abbreviation msgSingleDB :: bytes where
  "msgSingleDB \<equiv> ''this server implements a single database; SELECT accepts only index 0''"

abbreviation msgStringTooLong :: bytes where
  "msgStringTooLong \<equiv> ''string exceeds maximum allowed size (proto-max-bulk-len)''"

definition storeErr :: "('s, 'f) env \<Rightarrow> gerror \<Rightarrow> ('s World, unit) action" where
  "storeErr E e =
     (case e of
        NotInteger \<Rightarrow> Err ''value is not an integer or out of range''
      | NotFloat \<Rightarrow> Err ''value is not a valid float''
      | IncrOverflow \<Rightarrow> Err ''increment or decrement would overflow''
      | NaNOrInf \<Rightarrow> Err ''increment would produce NaN or Infinity''
      | StringTooLong \<Rightarrow> Err msgStringTooLong
      | ErrClosed \<Rightarrow> Err ''server is shutting down''
      | CtxCanceled \<Rightarrow> Err ''request cancelled''
      | CtxDeadlineExceeded \<Rightarrow> Err ''storage engine timed out''
      | _ \<Rightarrow> (\<lambda>w. fin (on_out (WriteError (''ERR internal error: '' @ en_Error E e)) (failed w))))"

section \<open>Calls of the engine\<close>

text \<open>
  An engine operation on the world. The engine's own errors are values the handler inspects, so
  the result of the operation is returned as it is.
\<close>

definition store_call :: "('s, 'a) action \<Rightarrow> 's World \<Rightarrow> 'a res \<times> 's World" where
  "store_call f w = (case f (wd_store w) of (r, s) \<Rightarrow> (r, w\<lparr>wd_store := s\<rparr>))"

text \<open>The common shape \<open>x, err := op; if err != nil { return storeErr(c, err) }\<close>.\<close>

definition try_store :: "('s, 'f) env \<Rightarrow> ('s, 'a) action \<Rightarrow> ('a \<Rightarrow> ('s World, unit) action) \<Rightarrow> ('s World, unit) action" where
  "try_store E f k w =
     (case store_call f w of
        (Ret x, w) \<Rightarrow> k x w
      | (Fail e, w) \<Rightarrow> storeErr E e w
      | (Panic, w) \<Rightarrow> (Panic, w))"

text \<open>\<open>Update\<close>: the continuation reads the variables the closure assigned.\<close>

definition try_update ::
  "('s, 'f) env \<Rightarrow> clock \<Rightarrow> bytes \<Rightarrow> UpdateFunc \<Rightarrow> (caps \<Rightarrow> ('s World, unit) action) \<Rightarrow> ('s World, unit) action" where
  "try_update E clk key fn k w =
     (case Update (en_Store E) clk key fn (wd_store w) of
        ((Ret _, cp), s) \<Rightarrow> k (case cp of None \<Rightarrow> caps0 | Some cp \<Rightarrow> cp) (w\<lparr>wd_store := s\<rparr>)
      | ((Fail e, cp), s) \<Rightarrow> storeErr E e (w\<lparr>wd_store := s\<rparr>)
      | ((Panic, cp), s) \<Rightarrow> (Panic, w\<lparr>wd_store := s\<rparr>))"

abbreviation eclk :: "ctx \<Rightarrow> nat \<Rightarrow> clock" where
  "eclk c i \<equiv> in_clk (ctx_in c) i"

end
