(* ===== verification/Cmd_String.thy ===== *)
theory Cmd_String
  imports Cmd_Core
begin

text \<open>
  The string commands, \<open>src/internal/command/string.go\<close>. A closure passed to \<open>Update\<close> returns what
  it asks the engine for and the variables it assigned.
\<close>

section \<open>GET and SET\<close>

definition cmdGet :: "('s, 'f) handler" where
  "cmdGet E c =
     try_store E (Get (en_Store E) (eclk c 0) (Arg c 1)) (\<lambda>x w.
       case x of
         None \<Rightarrow> Null (Miss w)
       | Some rec \<Rightarrow> Bulk (Some (Value rec)) (Hit w))"

definition addClamped :: "int \<Rightarrow> int \<Rightarrow> int" where
  "addClamped a b =
     (if b > 0 \<and> a > i64 (MaxInt64 - b) then MaxInt64
      else if b < 0 \<and> a < i64 (MinInt64 - b) then MinInt64
      else i64 (a + b))"

definition absoluteExpiry :: "bytes \<Rightarrow> int \<Rightarrow> int \<Rightarrow> int option" where
  "absoluteExpiry unit n nowMs =
     (if unit = ''ex'' then
        (if n > 9223372036854775 \<or> n < - 9223372036854775 then None else Some (addClamped nowMs (i64 (n * 1000))))
      else if unit = ''px'' then Some (addClamped nowMs n)
      else if unit = ''exat'' then
        (if n > 9223372036854775 \<or> n < - 9223372036854775 then None else Some (i64 (n * 1000)))
      else if unit = ''pxat'' then Some n
      else None)"

record setFlags =
  sf_nx :: bool
  sf_xx :: bool
  sf_get :: bool
  sf_keepTTL :: bool
  sf_hasExp :: bool
  sf_expireAt :: int

definition setFlags0 :: setFlags where
  "setFlags0 = \<lparr>sf_nx = False, sf_xx = False, sf_get = False, sf_keepTTL = False, sf_hasExp = False, sf_expireAt = 0\<rparr>"

abbreviation expiry_units :: "bytes set" where
  "expiry_units \<equiv> {''ex'', ''px'', ''exat'', ''pxat''}"

function set_options :: "('s, 'f) env \<Rightarrow> ctx \<Rightarrow> int \<Rightarrow> nat \<Rightarrow> setFlags \<Rightarrow> setFlags option" where
  "set_options E c now i f =
     (if i < Argc c then
        let a = ArgLower E c i in
        if a = ''nx'' then (if sf_xx f then None else set_options E c now (i + 1) (f\<lparr>sf_nx := True\<rparr>))
        else if a = ''xx'' then (if sf_nx f then None else set_options E c now (i + 1) (f\<lparr>sf_xx := True\<rparr>))
        else if a = ''get'' then set_options E c now (i + 1) (f\<lparr>sf_get := True\<rparr>)
        else if a = ''keepttl'' then
          (if sf_hasExp f then None else set_options E c now (i + 1) (f\<lparr>sf_keepTTL := True\<rparr>))
        else if a \<in> expiry_units then
          (if sf_hasExp f \<or> sf_keepTTL f \<or> i + 1 \<ge> Argc c then None
           else case intArg c (i + 1) of
                  None \<Rightarrow> None
                | Some n \<Rightarrow>
                    (case absoluteExpiry a n now of
                       None \<Rightarrow> None
                     | Some at \<Rightarrow> set_options E c now (i + 2) (f\<lparr>sf_hasExp := True, sf_expireAt := at\<rparr>)))
        else None
      else Some f)"
  by auto
termination by (relation "measure (\<lambda>(E, c, now, i, f). Argc c - i)") auto

declare set_options.simps [simp del]

definition parseSetOptions :: "('s, 'f) env \<Rightarrow> ctx \<Rightarrow> nat \<Rightarrow> setFlags option" where
  "parseSetOptions E c from = set_options E c (NowMs c 0) from setFlags0"

definition indexOfExpiryValue :: "('s, 'f) env \<Rightarrow> ctx \<Rightarrow> nat" where
  "indexOfExpiryValue E c =
     (case find (\<lambda>i. ArgLower E c i \<in> expiry_units) [3..<Argc c - 1] of None \<Rightarrow> 0 | Some i \<Rightarrow> i + 1)"

definition isRelativeExpiry :: "('s, 'f) env \<Rightarrow> ctx \<Rightarrow> bool" where
  "isRelativeExpiry E c =
     (case find (\<lambda>i. ArgLower E c i \<in> expiry_units) [3..<Argc c - 1] of
        None \<Rightarrow> False
      | Some i \<Rightarrow> ArgLower E c i \<in> {''ex'', ''px''})"

text \<open>\<open>append([]byte(nil), v...)\<close>: a copy, which is nil when there is nothing to append.\<close>

definition nil_copy :: "bytes \<Rightarrow> bytes option" where
  "nil_copy v = (if v = [] then None else Some v)"

definition set_fn :: "setFlags \<Rightarrow> bytes \<Rightarrow> UpdateFunc" where
  "set_fn f val cur found =
     (let cp = (if sf_get f \<and> found then caps0\<lparr>c_prev := nil_copy (Value cur), c_found := True\<rparr> else caps0) in
      if sf_nx f \<and> found \<or> sf_xx f \<and> \<not> found then (Ret (zero_record, ActionNone), cp)
      else
        let exp = (if sf_hasExp f then sf_expireAt f else if sf_keepTTL f \<and> found then ExpireAt cur else 0)
        in (Ret (\<lparr>Value = val, ExpireAt = exp\<rparr>, ActionPut), cp\<lparr>c_wrote := True\<rparr>))"

definition cmdSet :: "('s, 'f) handler" where
  "cmdSet E c w =
     (let key = Arg c 1; val = Arg c 2 in
      case parseSetOptions E c 3 of
        None \<Rightarrow> ErrSyntax w
      | Some f \<Rightarrow>
          if sf_hasExp f \<and> (case intArg c (indexOfExpiryValue E c) of None \<Rightarrow> 0 | Some n \<Rightarrow> n) \<le> 0 \<and> isRelativeExpiry E c
          then Err (msgInvalidExpire ''set'') w
          else
            try_update E (eclk c 0) key (set_fn f val) (\<lambda>cp.
              if sf_get f then (if \<not> c_found cp then Null else Bulk (c_prev cp))
              else if \<not> c_wrote cp then Null
              else OK) w)"

definition setnx_fn :: "bytes \<Rightarrow> UpdateFunc" where
  "setnx_fn val cur found =
     (if found then (Ret (zero_record, ActionNone), caps0)
      else (Ret (\<lparr>Value = val, ExpireAt = 0\<rparr>, ActionPut), caps0\<lparr>c_wrote := True\<rparr>))"

definition cmdSetNX :: "('s, 'f) handler" where
  "cmdSetNX E c = try_update E (eclk c 0) (Arg c 1) (setnx_fn (Arg c 2)) (\<lambda>cp. BoolR (c_wrote cp))"

definition setWithTTL :: "int \<Rightarrow> ('s, 'f) handler" where
  "setWithTTL unitMs E c w =
     (case intArg c 2 of
        None \<Rightarrow> ErrNotInteger w
      | Some n \<Rightarrow>
          if n \<le> 0 then Err (msgInvalidExpire (ctx_name c)) w
          else if n > MaxInt64 div unitMs then Err (msgInvalidExpire (ctx_name c)) w
          else
            let rec = \<lparr>Value = Arg c 3, ExpireAt = addClamped (NowMs c 0) (i64 (n * unitMs))\<rparr>
            in try_store E (Put (en_Store E) (eclk c 0) (Arg c 1) rec) (\<lambda>_. OK) w)"

definition cmdSetEX :: "('s, 'f) handler" where
  "cmdSetEX = setWithTTL 1000"

definition cmdPSetEX :: "('s, 'f) handler" where
  "cmdPSetEX = setWithTTL 1"

definition getset_fn :: "bytes \<Rightarrow> UpdateFunc" where
  "getset_fn val cur ok =
     (Ret (\<lparr>Value = val, ExpireAt = 0\<rparr>, ActionPut),
      if ok then caps0\<lparr>c_prev := nil_copy (Value cur), c_found := True\<rparr> else caps0)"

definition cmdGetSet :: "('s, 'f) handler" where
  "cmdGetSet E c =
     try_update E (eclk c 0) (Arg c 1) (getset_fn (Arg c 2)) (\<lambda>cp. if \<not> c_found cp then Null else Bulk (c_prev cp))"

definition getdel_fn :: UpdateFunc where
  "getdel_fn cur ok =
     (if \<not> ok then (Ret (zero_record, ActionNone), caps0)
      else (Ret (zero_record, ActionDelete), caps0\<lparr>c_prev := nil_copy (Value cur), c_found := True\<rparr>))"

definition cmdGetDel :: "('s, 'f) handler" where
  "cmdGetDel E c =
     try_update E (eclk c 0) (Arg c 1) getdel_fn (\<lambda>cp w.
       if \<not> c_found cp then Null (Miss w) else Bulk (c_prev cp) (Hit w))"

text \<open>The option loop of \<open>GETEX\<close>: the expiry and whether \<open>PERSIST\<close> was given, or the error reply.\<close>

datatype getex_opts = Getex_ok "int option" bool | Getex_syntax | Getex_int | Getex_expire

function getex_options :: "('s, 'f) env \<Rightarrow> ctx \<Rightarrow> int \<Rightarrow> nat \<Rightarrow> int option \<Rightarrow> bool \<Rightarrow> getex_opts" where
  "getex_options E c now i exp persist =
     (if i < Argc c then
        let a = ArgLower E c i in
        if a = ''persist'' then (if exp \<noteq> None then Getex_syntax else getex_options E c now (i + 1) exp True)
        else if a \<in> expiry_units then
          (if persist \<or> exp \<noteq> None \<or> i + 1 \<ge> Argc c then Getex_syntax
           else case intArg c (i + 1) of
                  None \<Rightarrow> Getex_int
                | Some n \<Rightarrow>
                    if (a = ''ex'' \<or> a = ''px'') \<and> n \<le> 0 then Getex_expire
                    else (case absoluteExpiry a n now of
                            None \<Rightarrow> Getex_syntax
                          | Some at \<Rightarrow> getex_options E c now (i + 2) (Some at) persist))
        else Getex_syntax
      else Getex_ok exp persist)"
  by auto
termination by (relation "measure (\<lambda>(E, c, now, i, exp, persist). Argc c - i)") auto

declare getex_options.simps [simp del]

definition getex_fn :: "int option \<Rightarrow> bool \<Rightarrow> UpdateFunc" where
  "getex_fn exp persist cur ok =
     (if \<not> ok then (Ret (zero_record, ActionNone), caps0)
      else
        (if persist \<and> ExpireAt cur \<noteq> 0 then Ret (\<lparr>Value = Value cur, ExpireAt = 0\<rparr>, ActionPut)
         else case exp of
                Some at \<Rightarrow> Ret (\<lparr>Value = Value cur, ExpireAt = at\<rparr>, ActionPut)
              | None \<Rightarrow> Ret (zero_record, ActionNone),
         caps0\<lparr>c_prev := nil_copy (Value cur), c_found := True\<rparr>))"

definition cmdGetEx :: "('s, 'f) handler" where
  "cmdGetEx E c w =
     (case getex_options E c (NowMs c 0) 2 None False of
        Getex_syntax \<Rightarrow> ErrSyntax w
      | Getex_int \<Rightarrow> ErrNotInteger w
      | Getex_expire \<Rightarrow> Err (msgInvalidExpire ''getex'') w
      | Getex_ok exp persist \<Rightarrow>
          try_update E (eclk c 0) (Arg c 1) (getex_fn exp persist) (\<lambda>cp w.
            if \<not> c_found cp then Null (Miss w) else Bulk (c_prev cp) (Hit w)) w)"

section \<open>Several keys\<close>

text \<open>The loop of \<open>MGET\<close>; after an engine error the array is completed with nulls.\<close>

fun mget_loop :: "('s, 'f) env \<Rightarrow> ctx \<Rightarrow> nat list \<Rightarrow> ('s World, unit) action" where
  "mget_loop E c [] w = (Ret (), w)"
| "mget_loop E c (i # is) w =
     (case store_call (Get (en_Store E) (eclk c i) (Arg c i)) w of
        (Ret None, w) \<Rightarrow> mget_loop E c is (on_out WriteNull (Miss w))
      | (Ret (Some rec), w) \<Rightarrow> mget_loop E c is (on_out (WriteBulk (Some (Value rec))) (Hit w))
      | (Fail e, w) \<Rightarrow> (Fail e, fold (\<lambda>_. on_out WriteNull) (i # is) w)
      | (Panic, w) \<Rightarrow> (Panic, w))"

definition cmdMGet :: "('s, 'f) handler" where
  "cmdMGet E c w = mget_loop E c [1..<Argc c] (on_out (WriteArrayHeader (int (Argc c) - 1)) w)"

fun pairs :: "bytes list \<Rightarrow> Mutation list" where
  "pairs (k # v # rest) = \<lparr>Key = k, MRecord = \<lparr>Value = v, ExpireAt = 0\<rparr>, Del = False\<rparr> # pairs rest"
| "pairs _ = []"

definition cmdMSet :: "('s, 'f) handler" where
  "cmdMSet E c w =
     (if Argc c mod 2 \<noteq> 1 then ErrWrongArgs c w
      else try_store E (MultiWrite (en_Store E) (eclk c 0) (pairs (tl (Args c)))) (\<lambda>_. OK) w)"

text \<open>The existence checks of \<open>MSETNX\<close>, then the write.\<close>

fun msetnx_loop :: "('s, 'f) env \<Rightarrow> ctx \<Rightarrow> nat list \<Rightarrow> ('s World, unit) action \<Rightarrow> ('s World, unit) action" where
  "msetnx_loop E c [] k w = k w"
| "msetnx_loop E c (i # is) k w =
     try_store E (Get (en_Store E) (eclk c i) (Arg c i)) (\<lambda>x.
       if x \<noteq> None then IntR 0 else msetnx_loop E c is k) w"

definition odds :: "nat \<Rightarrow> nat list" where
  "odds n = filter odd [1..<n]"

definition cmdMSetNX :: "('s, 'f) handler" where
  "cmdMSetNX E c w =
     (if Argc c mod 2 \<noteq> 1 then ErrWrongArgs c w
      else msetnx_loop E c (odds (Argc c))
             (try_store E (MultiWrite (en_Store E) (eclk c 0) (pairs (tl (Args c)))) (\<lambda>_. IntR 1)) w)"

section \<open>Values as strings\<close>

definition maxValueLen :: "('s, 'f) env \<Rightarrow> 's World \<Rightarrow> int" where
  "maxValueLen E w =
     (case Config_Get (en_lower E) (en_seconds E) (wd_cfg w) ''proto-max-bulk-len'' of
        None \<Rightarrow> MaxBulkSize DefaultLimits
      | Some v \<Rightarrow> (case ParseInt v of
                      Some n \<Rightarrow> if n > 0 then n else MaxBulkSize DefaultLimits
                    | None \<Rightarrow> MaxBulkSize DefaultLimits))"

definition append_fn :: "int \<Rightarrow> bytes \<Rightarrow> UpdateFunc" where
  "append_fn maxLen suffix cur found =
     (if i64 (int (length (Value cur)) + int (length suffix)) > maxLen then (Fail StringTooLong, caps0)
      else (Ret (\<lparr>Value = Value cur @ suffix, ExpireAt = ExpireAt cur\<rparr>, ActionPut),
            caps0\<lparr>c_int := int (length (Value cur @ suffix))\<rparr>))"

definition cmdAppend :: "('s, 'f) handler" where
  "cmdAppend E c w =
     try_update E (eclk c 0) (Arg c 1) (append_fn (maxValueLen E w) (Arg c 2)) (\<lambda>cp. IntR (c_int cp)) w"

definition cmdStrlen :: "('s, 'f) handler" where
  "cmdStrlen E c =
     try_store E (Get (en_Store E) (eclk c 0) (Arg c 1)) (\<lambda>x w.
       case x of
         None \<Rightarrow> IntR 0 (Miss w)
       | Some rec \<Rightarrow> IntR (int (length (Value rec))) (Hit w))"

section \<open>Values as numbers\<close>

text \<open>\<open>resp.ParseInt\<close> is \<open>parseInt\<close> of the command reader.\<close>

definition parseStrictInt :: "bytes \<Rightarrow> int option" where
  "parseStrictInt b =
     (if length b = 0 \<or> length b > 20 then None
      else
        let neg = (b ! 0 = CHR ''-''); i = (if neg then 1 else 0) in
        if neg \<and> length b = 1 then None
        else if b ! i = CHR ''0'' \<and> length b - i > 1 then None
        else case parseInt b of
               None \<Rightarrow> None
             | Some v \<Rightarrow> if neg \<and> v > 0 then None else Some v)"

definition incr_fn :: "int \<Rightarrow> UpdateFunc" where
  "incr_fn delta cur found =
     (case (if found then parseStrictInt (Value cur) else Some 0) of
        None \<Rightarrow> (Fail NotInteger, caps0)
      | Some b \<Rightarrow>
          if delta > 0 \<and> b > i64 (MaxInt64 - delta) \<or> delta < 0 \<and> b < i64 (MinInt64 - delta) then (Fail IncrOverflow, caps0)
          else
            let result = i64 (b + delta)
            in (Ret (\<lparr>Value = FormatInt result, ExpireAt = ExpireAt cur\<rparr>, ActionPut), caps0\<lparr>c_int := result\<rparr>))"

definition incrBy :: "int \<Rightarrow> ('s, 'f) handler" where
  "incrBy delta E c = try_update E (eclk c 0) (Arg c 1) (incr_fn delta) (\<lambda>cp. IntR (c_int cp))"

definition cmdIncr :: "('s, 'f) handler" where
  "cmdIncr = incrBy 1"

definition cmdDecr :: "('s, 'f) handler" where
  "cmdDecr = incrBy (- 1)"

definition cmdIncrBy :: "('s, 'f) handler" where
  "cmdIncrBy E c w = (case intArg c 2 of None \<Rightarrow> ErrNotInteger w | Some n \<Rightarrow> incrBy n E c w)"

definition cmdDecrBy :: "('s, 'f) handler" where
  "cmdDecrBy E c w =
     (case intArg c 2 of
        None \<Rightarrow> ErrNotInteger w
      | Some n \<Rightarrow>
          if n = MinInt64 then Err ''increment or decrement would overflow'' w else incrBy (- n) E c w)"

definition formatFloat :: "'f float_ops \<Rightarrow> 'f \<Rightarrow> bytes" where
  "formatFloat F f = (let s = f_format_f F f in if s = ''-0'' then ''0'' else s)"

definition incrbyfloat_fn :: "'f float_ops \<Rightarrow> 'f \<Rightarrow> UpdateFunc" where
  "incrbyfloat_fn F delta cur found =
     (case (if found then f_ParseFloat F (Value cur) else Some (f_zero F)) of
        None \<Rightarrow> (Fail NotFloat, caps0)
      | Some b \<Rightarrow>
          let sm = f_add F b delta in
          if f_isNaN F sm \<or> f_isPosInf F sm \<or> f_isNegInf F sm then (Fail NaNOrInf, caps0)
          else
            let result = formatFloat F sm
            in (Ret (\<lparr>Value = result, ExpireAt = ExpireAt cur\<rparr>, ActionPut), caps0\<lparr>c_str := result\<rparr>))"

definition cmdIncrByFloat :: "('s, 'f) handler" where
  "cmdIncrByFloat E c w =
     (case floatArg E c 2 of
        None \<Rightarrow> Err ''value is not a valid float'' w
      | Some delta \<Rightarrow>
          try_update E (eclk c 0) (Arg c 1) (incrbyfloat_fn (en_F E) delta) (\<lambda>cp. BulkString (c_str cp)) w)"

section \<open>Ranges\<close>

text \<open>\<open>None\<close> is the empty range.\<close>

definition resolveRange :: "int \<Rightarrow> int \<Rightarrow> int \<Rightarrow> (int \<times> int) option" where
  "resolveRange start end vlen =
     (if vlen = 0 then None
      else
        let start = (if start < 0 then let s = i64 (start + vlen) in if s < 0 then 0 else s else start);
            end = (if end < 0 then let e = i64 (end + vlen) in if e < 0 then 0 else e else end);
            end = (if end \<ge> vlen then i64 (vlen - 1) else end) in
        if start > end \<or> start \<ge> vlen then None else Some (start, end))"

definition cmdGetRange :: "('s, 'f) handler" where
  "cmdGetRange E c w =
     (case (intArg c 2, intArg c 3) of
        (Some start, Some end) \<Rightarrow>
          try_store E (Get (en_Store E) (eclk c 0) (Arg c 1)) (\<lambda>x w.
            case x of
              None \<Rightarrow> BulkString [] (Miss w)
            | Some rec \<Rightarrow>
                (case resolveRange start end (int (length (Value rec))) of
                   None \<Rightarrow> BulkString [] (Hit w)
                 | Some (lo, hi) \<Rightarrow> Bulk (Some (take (nat (hi + 1 - lo)) (drop (nat lo) (Value rec)))) (Hit w))) w
      | _ \<Rightarrow> ErrNotInteger w)"

text \<open>
  \<open>make\<close>, then two \<open>copy\<close>s; slicing \<open>next[offset:]\<close> panics when \<open>offset\<close> lies behind the end.
\<close>

definition setrange_fn :: "int \<Rightarrow> bytes \<Rightarrow> UpdateFunc" where
  "setrange_fn offset patch cur found =
     (if patch = [] then (Ret (zero_record, ActionNone), caps0\<lparr>c_int := int (length (Value cur))\<rparr>)
      else
        let size = max (int (length (Value cur))) (i64 (offset + int (length patch))) in
        if offset > size then (Panic, caps0)
        else
          let nx = Value cur @ replicate (nat size - length (Value cur)) (CHR 0x00);
              nx = take (nat offset) nx @ take (nat (size - offset)) patch @ drop (nat offset + length patch) nx
          in (Ret (\<lparr>Value = nx, ExpireAt = ExpireAt cur\<rparr>, ActionPut), caps0\<lparr>c_int := size\<rparr>))"

definition cmdSetRange :: "('s, 'f) handler" where
  "cmdSetRange E c w =
     (case intArg c 2 of
        None \<Rightarrow> ErrNotInteger w
      | Some offset \<Rightarrow>
          if offset < 0 then Err ''offset is out of range'' w
          else
            let patch = Arg c 3 in
            if i64 (offset + int (length patch)) > maxValueLen E w then Err msgStringTooLong w
            else try_update E (eclk c 0) (Arg c 1) (setrange_fn offset patch) (\<lambda>cp. IntR (c_int cp)) w)"

end
