(* ===== verification/Cmd_Generic.thy ===== *)
theory Cmd_Generic
  imports Cmd_String
begin

text \<open>
  The commands on keys of any kind, \<open>src/internal/command/generic.go\<close>: deletion and existence,
  expiry, iteration, and the two-key commands built from single-key operations.
\<close>

section \<open>Deletion, existence, type\<close>

fun del_loop :: "('s, 'f) env \<Rightarrow> ctx \<Rightarrow> nat list \<Rightarrow> int \<Rightarrow> ('s World, unit) action" where
  "del_loop E c [] n w = IntR n w"
| "del_loop E c (i # is) n w =
     try_store E (Delete (en_Store E) (eclk c i) (Arg c i)) (\<lambda>removed.
       del_loop E c is (if removed then i64 (n + 1) else n)) w"

definition cmdDel :: "('s, 'f) handler" where
  "cmdDel E c = del_loop E c [1..<Argc c] 0"

fun exists_loop :: "('s, 'f) env \<Rightarrow> ctx \<Rightarrow> nat list \<Rightarrow> int \<Rightarrow> ('s World, unit) action" where
  "exists_loop E c [] n w = IntR n w"
| "exists_loop E c (i # is) n w =
     try_store E (Get (en_Store E) (eclk c i) (Arg c i)) (\<lambda>x w.
       if x \<noteq> None then exists_loop E c is (i64 (n + 1)) (Hit w) else exists_loop E c is n (Miss w)) w"

definition cmdExists :: "('s, 'f) handler" where
  "cmdExists E c = exists_loop E c [1..<Argc c] 0"

definition cmdType :: "('s, 'f) handler" where
  "cmdType E c =
     try_store E (Get (en_Store E) (eclk c 0) (Arg c 1)) (\<lambda>x. SimpleString (if x = None then ''none'' else ''string''))"

section \<open>Expiry\<close>

record expire_opts =
  eo_nx :: bool
  eo_xx :: bool
  eo_gt :: bool
  eo_lt :: bool

fun expire_options :: "('s, 'f) env \<Rightarrow> ctx \<Rightarrow> nat list \<Rightarrow> expire_opts \<Rightarrow> expire_opts option" where
  "expire_options E c [] f = Some f"
| "expire_options E c (i # is) f =
     (let a = ArgLower E c i in
      if a = ''nx'' then expire_options E c is (f\<lparr>eo_nx := True\<rparr>)
      else if a = ''xx'' then expire_options E c is (f\<lparr>eo_xx := True\<rparr>)
      else if a = ''gt'' then expire_options E c is (f\<lparr>eo_gt := True\<rparr>)
      else if a = ''lt'' then expire_options E c is (f\<lparr>eo_lt := True\<rparr>)
      else None)"

definition expire_fn :: "expire_opts \<Rightarrow> int \<Rightarrow> int \<Rightarrow> UpdateFunc" where
  "expire_fn f at now cur found =
     (if \<not> found then (Ret (zero_record, ActionNone), caps0)
      else if eo_nx f \<and> ExpireAt cur \<noteq> 0 \<or> eo_xx f \<and> ExpireAt cur = 0
              \<or> eo_gt f \<and> (ExpireAt cur = 0 \<or> at \<le> ExpireAt cur)
              \<or> eo_lt f \<and> ExpireAt cur \<noteq> 0 \<and> at \<ge> ExpireAt cur
           then (Ret (zero_record, ActionNone), caps0)
      else if at \<le> now then (Ret (zero_record, ActionDelete), caps0\<lparr>c_wrote := True\<rparr>)
      else (Ret (\<lparr>Value = Value cur, ExpireAt = at\<rparr>, ActionPut), caps0\<lparr>c_wrote := True\<rparr>))"

definition expireCmd :: "bytes \<Rightarrow> ('s, 'f) handler" where
  "expireCmd unit E c w =
     (case intArg c 2 of
        None \<Rightarrow> ErrNotInteger w
      | Some n \<Rightarrow>
          (case absoluteExpiry unit n (NowMs c 0) of
             None \<Rightarrow> Err (msgInvalidExpire (ctx_name c)) w
           | Some at \<Rightarrow>
               (case expire_options E c [3..<Argc c] \<lparr>eo_nx = False, eo_xx = False, eo_gt = False, eo_lt = False\<rparr> of
                  None \<Rightarrow> ErrSyntax w
                | Some f \<Rightarrow>
                    if eo_nx f \<and> (eo_xx f \<or> eo_gt f \<or> eo_lt f) \<or> eo_gt f \<and> eo_lt f
                    then Err ''NX and XX, GT or LT options at the same time are not compatible'' w
                    else
                      let now = NowMs c 1 in
                      try_update E (eclk c 0) (Arg c 1) (expire_fn f at now) (\<lambda>cp. BoolR (c_wrote cp)) w)))"

definition ttlCmd :: "int \<Rightarrow> ('s, 'f) handler" where
  "ttlCmd divisor E c =
     try_store E (Get (en_Store E) (eclk c 0) (Arg c 1)) (\<lambda>x w.
       case x of
         None \<Rightarrow> IntR (- 2) (Miss w)
       | Some rec \<Rightarrow>
           if ExpireAt rec = 0 then IntR (- 1) (Hit w)
           else
             let remaining = i64 (ExpireAt rec - NowMs c 0);
                 remaining = (if remaining < 0 then 0 else remaining) in
             if divisor = 1000 then IntR (sgn (i64 (remaining + 999)) * (\<bar>i64 (remaining + 999)\<bar> div 1000)) (Hit w)
             else IntR remaining (Hit w))"

definition expireTimeCmd :: "int \<Rightarrow> ('s, 'f) handler" where
  "expireTimeCmd divisor E c =
     try_store E (Get (en_Store E) (eclk c 0) (Arg c 1)) (\<lambda>x.
       case x of
         None \<Rightarrow> IntR (- 2)
       | Some rec \<Rightarrow>
           if ExpireAt rec = 0 then IntR (- 1)
           else IntR (sgn (ExpireAt rec) * (\<bar>ExpireAt rec\<bar> div divisor)))"

definition persist_fn :: UpdateFunc where
  "persist_fn cur found =
     (if \<not> found \<or> ExpireAt cur = 0 then (Ret (zero_record, ActionNone), caps0)
      else (Ret (\<lparr>Value = Value cur, ExpireAt = 0\<rparr>, ActionPut), caps0\<lparr>c_wrote := True\<rparr>))"

definition cmdPersist :: "('s, 'f) handler" where
  "cmdPersist E c = try_update E (eclk c 0) (Arg c 1) persist_fn (\<lambda>cp. BoolR (c_wrote cp))"

section \<open>Iteration\<close>

definition keysScanBudget :: nat where
  "keysScanBudget = 1000000"

text \<open>
  The callback of \<open>KEYS\<close>. The key that exceeds the budget is kept at the end of the accumulator,
  so that \<open>over\<close> is the accumulator being longer than the budget.
\<close>

definition keys_fn :: "nat \<Rightarrow> bytes \<Rightarrow> bytes \<Rightarrow> Record \<Rightarrow> bytes list \<Rightarrow> bool \<times> bytes list" where
  "keys_fn budget pat key rec acc =
     (if \<not> isTrivialPattern pat \<and> \<not> matchPattern pat key False then (True, acc)
      else if length acc \<ge> budget then (False, acc @ [key])
      else (True, acc @ [key]))"

definition write_keys :: "bytes list \<Rightarrow> 's World \<Rightarrow> 's World" where
  "write_keys keys w =
     fold (\<lambda>k. on_out (WriteBulk (Some k))) keys (on_out (WriteArrayHeader (int (length keys))) w)"

text \<open>
  The loop of \<open>KEYS\<close> runs until a \<open>Scan\<close> returns the cursor zero; \<open>i\<close> counts its iterations. A walk
  that never ends is \<open>None\<close>. A handler that never returns replies nothing, so the command is then
  the same as one that panics.
\<close>

partial_function (option) keys_loop ::
  "('s, 'f) env \<Rightarrow> ctx \<Rightarrow> bytes \<Rightarrow> nat \<Rightarrow> nat \<Rightarrow> bytes list \<Rightarrow> 's World \<Rightarrow> (unit res \<times> 's World) option" where
  "keys_loop E c pat i cursor keys w =
     (case store_call (Scan (en_Store E) (eclk c i) cursor 1000 (keys_fn keysScanBudget pat) keys) w of
        (Ret (nx, keys), w) \<Rightarrow>
          if length keys > keysScanBudget then Some (Err ''KEYS matched more than 1000000 keys; use SCAN instead'' w)
          else if nx = 0 then Some (Ret (), write_keys keys w)
          else keys_loop E c pat (i + 1) nx keys w
      | (Fail e, w) \<Rightarrow> Some (storeErr E e w)
      | (Panic, w) \<Rightarrow> Some (Panic, w))"

definition cmdKeys :: "('s, 'f) handler" where
  "cmdKeys E c w = (case keys_loop E c (Arg c 1) 0 0 [] w of Some x \<Rightarrow> x | None \<Rightarrow> (Panic, w))"

record scan_opts =
  so_pattern :: "bytes option"
  so_count :: int
  so_type :: bytes

function scan_options :: "('s, 'f) env \<Rightarrow> ctx \<Rightarrow> nat \<Rightarrow> scan_opts \<Rightarrow> scan_opts option" where
  "scan_options E c i f =
     (if i < Argc c then
        let a = ArgLower E c i in
        if a = ''match'' then
          (if i + 1 \<ge> Argc c then None else scan_options E c (i + 2) (f\<lparr>so_pattern := Some (Arg c (i + 1))\<rparr>))
        else if a = ''count'' then
          (if i + 1 \<ge> Argc c then None
           else case intArg c (i + 1) of
                  None \<Rightarrow> None
                | Some n \<Rightarrow> if n < 1 then None else scan_options E c (i + 2) (f\<lparr>so_count := min n 100000\<rparr>))
        else if a = ''type'' then
          (if i + 1 \<ge> Argc c then None else scan_options E c (i + 2) (f\<lparr>so_type := ArgLower E c (i + 1)\<rparr>))
        else None
      else Some f)"
  by auto
termination by (relation "measure (\<lambda>(E, c, i, f). Argc c - i)") auto

declare scan_options.simps [simp del]

definition scan_fn :: "bytes option \<Rightarrow> bytes \<Rightarrow> Record \<Rightarrow> bytes list \<Rightarrow> bool \<times> bytes list" where
  "scan_fn pat key rec acc =
     (True, if (case pat of None \<Rightarrow> True | Some p \<Rightarrow> isTrivialPattern p \<or> matchPattern p key False) then acc @ [key] else acc)"

definition cmdScan :: "('s, 'f) handler" where
  "cmdScan E c w =
     (case ParseUint (Arg c 1) of
        None \<Rightarrow> Err ''invalid cursor'' w
      | Some cursor \<Rightarrow>
          (case scan_options E c 2 \<lparr>so_pattern = None, so_count = 10, so_type = []\<rparr> of
             None \<Rightarrow> ErrSyntax w
           | Some f \<Rightarrow>
               if so_type f \<noteq> [] \<and> so_type f \<noteq> ''string'' then
                 fin (on_out (WriteArrayHeader 0) (on_out (WriteBulkString ''0'') (on_out (WriteArrayHeader 2) w)))
               else
                 try_store E (Scan (en_Store E) (eclk c 0) cursor (so_count f) (scan_fn (so_pattern f)) []) (\<lambda>(nx, keys) w.
                   fin (write_keys keys (on_out (WriteBulkString (FormatUint nx)) (on_out (WriteArrayHeader 2) w)))) w))"

definition cmdRandomKey :: "('s, 'f) handler" where
  "cmdRandomKey E c =
     (let start = in_rand (ctx_in c) mod 1024;
          first = (\<lambda>key rec acc. (False, [key])) in
      try_store E (Scan (en_Store E) (eclk c 0) start 1 first []) (\<lambda>(_, found).
        if found \<noteq> [] then Bulk (Some (hd found))
        else try_store E (Scan (en_Store E) (eclk c 1) 0 1 first []) (\<lambda>(_, found).
          if found \<noteq> [] then Bulk (Some (hd found)) else Null)))"

definition cmdDBSize :: "('s, 'f) handler" where
  "cmdDBSize E c = try_store E (Len (en_Store E) (eclk c 0)) IntR"

section \<open>Two keys\<close>

definition copy_fn :: "bool \<Rightarrow> Record \<Rightarrow> UpdateFunc" where
  "copy_fn replace rec cur found =
     (if found \<and> \<not> replace then (Ret (zero_record, ActionNone), caps0)
      else (Ret (rec, ActionPut), caps0\<lparr>c_wrote := True\<rparr>))"

text \<open>
  \<open>renameKey\<close> returns \<open>moved\<close>, \<open>existed\<close> and an error; the engine's errors are passed to the caller
  and end up in \<open>storeErr\<close>, so they are handled as they occur.
\<close>

definition renameKey :: "bool \<Rightarrow> ('s, 'f) env \<Rightarrow> ctx \<Rightarrow> (bool \<Rightarrow> bool \<Rightarrow> ('s World, unit) action) \<Rightarrow> ('s World, unit) action" where
  "renameKey nx E c k =
     (let src = Arg c 1; dst = Arg c 2 in
      try_store E (Get (en_Store E) (eclk c 0) src) (\<lambda>x.
        case x of
          None \<Rightarrow> k False False
        | Some rec \<Rightarrow>
            if src = dst then k (\<not> nx) True
            else
              let rm = try_store E (Delete (en_Store E) (eclk c 2) src) (\<lambda>_. k True True) in
              if nx then
                try_update E (eclk c 1) dst (copy_fn False rec) (\<lambda>cp. if \<not> c_wrote cp then k False True else rm)
              else try_store E (Put (en_Store E) (eclk c 1) dst rec) (\<lambda>_. rm)))"

definition cmdRename :: "('s, 'f) handler" where
  "cmdRename E c = renameKey False E c (\<lambda>moved existed. if \<not> existed then Err ''no such key'' else OK)"

definition cmdRenameNX :: "('s, 'f) handler" where
  "cmdRenameNX E c = renameKey True E c (\<lambda>moved existed. if \<not> existed then Err ''no such key'' else BoolR moved)"

text \<open>The options of \<open>COPY\<close>: whether \<open>REPLACE\<close> was given, or the error reply.\<close>

datatype copy_opts = Copy_ok bool | Copy_syntax | Copy_db

function copy_options :: "('s, 'f) env \<Rightarrow> ctx \<Rightarrow> nat \<Rightarrow> bool \<Rightarrow> copy_opts" where
  "copy_options E c i replace =
     (if i < Argc c then
        let a = ArgLower E c i in
        if a = ''replace'' then copy_options E c (i + 1) True
        else if a = ''db'' then
          (if i + 1 \<ge> Argc c then Copy_syntax
           else if Arg c (i + 1) \<noteq> ''0'' then Copy_db
           else copy_options E c (i + 2) replace)
        else Copy_syntax
      else Copy_ok replace)"
  by auto
termination by (relation "measure (\<lambda>(E, c, i, r). Argc c - i)") auto

declare copy_options.simps [simp del]

definition cmdCopy :: "('s, 'f) handler" where
  "cmdCopy E c w =
     (let src = Arg c 1; dst = Arg c 2 in
      case copy_options E c 3 False of
        Copy_syntax \<Rightarrow> ErrSyntax w
      | Copy_db \<Rightarrow> Err msgSingleDB w
      | Copy_ok replace \<Rightarrow>
          if src = dst then Err ''source and destination objects are the same'' w
          else
            try_store E (Get (en_Store E) (eclk c 0) src) (\<lambda>x.
              case x of
                None \<Rightarrow> IntR 0
              | Some rec \<Rightarrow>
                  try_update E (eclk c 1) dst (copy_fn replace rec) (\<lambda>cp. BoolR (c_wrote cp))) w)"

definition cmdFlush :: "('s, 'f) handler" where
  "cmdFlush E c w =
     (if list_all (\<lambda>i. ArgLower E c i \<in> {''async'', ''sync''}) [1..<Argc c]
      then try_store E (FlushAll (en_Store E) (eclk c 0)) (\<lambda>_. OK) w
      else ErrSyntax w)"

end
