(* ===== verification/Cmd_Conn.thy ===== *)
theory Cmd_Conn
  imports Cmd_Core
begin

text \<open>
  The connection commands, \<open>src/internal/command/connection.go\<close>: handshake and authentication,
  database selection, and \<open>CLIENT\<close>. The list of clients and the kill switch are those of
  \<open>src/internal/server/env.go\<close>; a killed connection's socket is closed with the flag set.
\<close>

definition on_conn :: "(Conn \<Rightarrow> Conn) \<Rightarrow> 's World \<Rightarrow> 's World" where
  "on_conn f w = w\<lparr>wd_conn := f (wd_conn w)\<rparr>"

definition cmdPing :: "('s, 'f) handler" where
  "cmdPing E c =
     (if Argc c = 1 then SimpleString ''PONG''
      else if Argc c = 2 then Bulk (Arg_slice c 1)
      else ErrWrongArgs c)"

definition cmdEcho :: "('s, 'f) handler" where
  "cmdEcho E c = Bulk (Arg_slice c 1)"

section \<open>Handshake and authentication\<close>

text \<open>\<open>ConstantTimeCompare\<close> returns 1 exactly on equal slices.\<close>

definition checkPassword :: "'s World \<Rightarrow> bytes \<Rightarrow> bool" where
  "checkPassword w given = (let want = RequirePass (wd_cfg w) in if want = [] then True else given = want)"

abbreviation msgNoAuth :: bytes where "msgNoAuth \<equiv> ''Authentication required.''"
abbreviation msgWrongPass :: bytes where "msgWrongPass \<equiv> ''invalid username-password pair or user is disabled.''"

text \<open>The option loop of \<open>HELLO\<close> over the arguments left, and what follows it.\<close>

fun hello_loop :: "('s, 'f) env \<Rightarrow> ('s World, unit) action \<Rightarrow> bytes list \<Rightarrow> ('s World, unit) action" where
  "hello_loop E k [] w = k w"
| "hello_loop E k (a # as) w =
     (let o1 = StrToLower (en_lower E) a in
      if o1 = ''auth'' then
        (case as of
           user # pass # rest \<Rightarrow>
             if \<not> checkPassword w pass then ErrCode ''WRONGPASS'' msgWrongPass w
             else hello_loop E k rest (on_conn (Authenticated_update (\<lambda>_. True)) w)
         | _ \<Rightarrow> ErrSyntax w)
      else if o1 = ''setname'' then
        (case as of
           name # rest \<Rightarrow> hello_loop E k rest (on_conn (conn_name_update (\<lambda>_. name)) w)
         | _ \<Rightarrow> ErrSyntax w)
      else ErrSyntax w)"

definition hello_reply :: "('s, 'f) env \<Rightarrow> 's World \<Rightarrow> 's World" where
  "hello_reply E w =
     fold on_out
       [WriteMapHeader 7, WriteBulkString ''server'', WriteBulkString ''redis-from-scratch'',
        WriteBulkString ''version'', WriteBulkString (en_Version E),
        WriteBulkString ''proto'', WriteInt (int (Proto (wd_conn w))),
        WriteBulkString ''id'', WriteInt (i64 (int (ID (wd_conn w)))),
        WriteBulkString ''mode'', WriteBulkString ''standalone'',
        WriteBulkString ''role'', WriteBulkString ''master'',
        WriteBulkString ''modules'', WriteArrayHeader 0] w"

definition cmdHello :: "('s, 'f) handler" where
  "cmdHello E c w =
     (let k = (\<lambda>requested. hello_loop E (\<lambda>w.
            if \<not> Authenticated (wd_conn w) then ErrCode ''NOAUTH'' msgNoAuth w
            else fin (hello_reply E (on_out (SetVersion requested) (on_conn (Proto_update (\<lambda>_. requested)) w))))) in
      if Argc c > 1 then
        (case ParseInt (Arg c 1) of
           None \<Rightarrow> Err ''Protocol version is not an integer or out of range'' w
         | Some n \<Rightarrow>
             if \<not> Version_Valid n then ErrCode ''NOPROTO'' ''unsupported protocol version'' w
             else k (nat n) (drop 2 (Args c)) w)
      else k (Proto (wd_conn w)) (drop 1 (Args c)) w)"

definition cmdAuth :: "('s, 'f) handler" where
  "cmdAuth E c w =
     (let k = (\<lambda>password.
            if RequirePass (wd_cfg w) = [] then
              Err ''Client sent AUTH, but no password is set. Did you mean AUTH <username> <password>?'' w
            else if \<not> checkPassword w password then ErrCode ''WRONGPASS'' msgWrongPass w
            else OK (on_conn (Authenticated_update (\<lambda>_. True)) w)) in
      if Argc c = 2 then k (Arg c 1)
      else if Argc c = 3 then
        (if ArgLower E c 1 \<noteq> ''default'' then ErrCode ''WRONGPASS'' msgWrongPass w else k (Arg c 2))
      else ErrWrongArgs c w)"

definition cmdSelect :: "('s, 'f) handler" where
  "cmdSelect E c =
     (case ParseInt (Arg c 1) of
        None \<Rightarrow> ErrNotInteger
      | Some n \<Rightarrow> if n \<noteq> 0 then Err msgSingleDB else OK)"

definition cmdSwapDB :: "('s, 'f) handler" where
  "cmdSwapDB E c = Err msgSingleDB"

definition cmdQuit :: "('s, 'f) handler" where
  "cmdQuit E c w = OK (on_conn (closeAfterReply_update (\<lambda>_. True)) w)"

definition cmdReset :: "('s, 'f) handler" where
  "cmdReset E c w =
     SimpleString ''RESET''
       (on_conn (Authenticated_update (\<lambda>_. RequirePass (wd_cfg w) = []))
         (on_conn (conn_name_update (\<lambda>_. []))
           (on_out (SetVersion RESP2) (on_conn (Proto_update (\<lambda>_. RESP2)) w))))"

section \<open>CLIENT\<close>

text \<open>\<open>time.Time.Sub\<close> saturates.\<close>

definition time_Sub :: "int \<Rightarrow> int \<Rightarrow> int" where
  "time_Sub a b = max MinInt64 (min MaxInt64 (a - b))"

definition formatClientLine :: "('s, 'f) env \<Rightarrow> int \<Rightarrow> Conn \<Rightarrow> bytes" where
  "formatClientLine E now cn =
     ''id='' @ FormatUint (ID cn) @ '' addr='' @ RemoteAddr cn @ '' laddr='' @ LocalAddr cn
     @ '' name='' @ conn_name cn @ '' age='' @ FormatInt (en_seconds E (time_Sub now (CreatedAt cn)))
     @ '' idle='' @ FormatInt (IdleSeconds now cn) @ '' db=0 resp='' @ FormatUint (Proto cn)
     @ '' cmd='' @ (if lastCommand cn \<noteq> [] then lastCommand cn else ''NULL'')
     @ '' numcmds='' @ FormatUint (commandCount cn)"

definition Clients :: "'s World \<Rightarrow> Conn list" where
  "Clients w = sort_key ID (wd_conn w # wd_others w)"

definition KillClient :: "nat \<Rightarrow> 's World \<Rightarrow> bool \<times> 's World" where
  "KillClient cid w =
     (if cid = ID (wd_conn w) then (True, on_conn (killed_update (\<lambda>_. True)) w)
      else if cid \<in> ID ` set (wd_others w) then
        (True, w\<lparr>wd_others := map (\<lambda>cn. if ID cn = cid then cn\<lparr>killed := True\<rparr> else cn) (wd_others w)\<rparr>)
      else (False, w))"

record kill_filter =
  kf_id :: "nat option"
  kf_addr :: bytes
  kf_skipMe :: bool
  kf_maxAge :: "int option"

text \<open>\<open>strings.EqualFold(value, "yes")\<close>: the letter \<open>s\<close> also folds with the long s, U+017F.\<close>

definition EqualFold_yes :: "bytes \<Rightarrow> bool" where
  "EqualFold_yes v \<longleftrightarrow>
     map ascii_lower v = ''yes''
     \<or> (map ascii_lower (take 2 v) = ''ye'' \<and> drop 2 v = [CHR 0xC5, CHR 0xBF])"

datatype kill_opts = Kill_ok kill_filter | Kill_syntax | Kill_id

fun kill_options :: "('s, 'f) env \<Rightarrow> bytes list \<Rightarrow> kill_filter \<Rightarrow> kill_opts" where
  "kill_options E [] f = Kill_ok f"
| "kill_options E [a] f = Kill_syntax"
| "kill_options E (a # value # rest) f =
     (let o1 = StrToLower (en_lower E) a in
      if o1 = ''id'' then
        (case ParseUint value of
           None \<Rightarrow> Kill_id
         | Some n \<Rightarrow> kill_options E rest (f\<lparr>kf_id := Some n\<rparr>))
      else if o1 = ''addr'' \<or> o1 = ''laddr'' then kill_options E rest (f\<lparr>kf_addr := value\<rparr>)
      else if o1 = ''skipme'' then kill_options E rest (f\<lparr>kf_skipMe := EqualFold_yes value\<rparr>)
      else if o1 = ''maxage'' then
        (case ParseInt value of
           None \<Rightarrow> Kill_syntax
         | Some n \<Rightarrow> if n < 0 then Kill_syntax else kill_options E rest (f\<lparr>kf_maxAge := Some n\<rparr>))
      else if o1 = ''type'' \<or> o1 = ''user'' then kill_options E rest f
      else Kill_syntax)"

definition kill_selects :: "('s, 'f) env \<Rightarrow> int \<Rightarrow> kill_filter \<Rightarrow> nat \<Rightarrow> Conn \<Rightarrow> bool" where
  "kill_selects E now f me cn \<longleftrightarrow>
     \<not> (kf_skipMe f \<and> ID cn = me)
     \<and> (case kf_id f of None \<Rightarrow> True | Some n \<Rightarrow> ID cn = n)
     \<and> (kf_addr f = [] \<or> RemoteAddr cn = kf_addr f)
     \<and> (case kf_maxAge f of None \<Rightarrow> True | Some m \<Rightarrow> \<not> en_seconds E (time_Sub now (CreatedAt cn)) < m)"

fun kill_loop :: "('s, 'f) env \<Rightarrow> int \<Rightarrow> kill_filter \<Rightarrow> Conn list \<Rightarrow> int \<Rightarrow> ('s World, unit) action" where
  "kill_loop E now f [] n w = IntR n w"
| "kill_loop E now f (cn # cns) n w =
     (if \<not> kill_selects E now f (ID (wd_conn w)) cn then kill_loop E now f cns n w
      else
        let (found, w) = KillClient (ID cn) w
        in kill_loop E now f cns (if found then i64 (n + 1) else n) w)"

definition clientKill :: "('s, 'f) handler" where
  "clientKill E c w =
     (if Argc c = 3 then
        (case find (\<lambda>cn. RemoteAddr cn = Arg c 2) (Clients w) of
           Some cn \<Rightarrow> OK (snd (KillClient (ID cn) w))
         | None \<Rightarrow> Err ''No such client address in client list'' w)
      else
        (case kill_options E (drop 2 (Args c)) \<lparr>kf_id = None, kf_addr = [], kf_skipMe = True, kf_maxAge = None\<rparr> of
           Kill_syntax \<Rightarrow> ErrSyntax w
         | Kill_id \<Rightarrow> Err ''client-id should be greater than 0'' w
         | Kill_ok f \<Rightarrow> kill_loop E (in_now (ctx_in c) 0) f (Clients w) 0 w))"

definition cmdClient :: "('s, 'f) handler" where
  "cmdClient E c w =
     (let sub = ArgLower E c 1; now = in_now (ctx_in c) in
      if sub = ''id'' then IntR (i64 (int (ID (wd_conn w)))) w
      else if sub = ''getname'' then
        (if conn_name (wd_conn w) \<noteq> [] then BulkString (conn_name (wd_conn w)) w else Null w)
      else if sub = ''setname'' then
        (if Argc c \<noteq> 3 then ErrWrongArgs c w
         else if list_ex (\<lambda>b. b \<in> {CHR '' '', LF, CR}) (Arg c 2) then
           Err ''Client names cannot contain spaces, newlines or special characters.'' w
         else OK (on_conn (conn_name_update (\<lambda>_. Arg c 2)) w))
      else if sub = ''info'' then BulkString (formatClientLine E (now 0) (wd_conn w)) w
      else if sub = ''list'' then
        BulkString (concat (map2 (\<lambda>i cn. formatClientLine E (now i) cn @ [LF]) [0..<length (Clients w)] (Clients w))) w
      else if sub = ''kill'' then clientKill E c w
      else if sub = ''no-evict'' \<or> sub = ''no-touch'' then OK w
      else if sub = ''setinfo'' then (if Argc c \<noteq> 4 then ErrWrongArgs c w else OK w)
      else Err (''Unknown CLIENT subcommand or wrong number of arguments for '' @ [CHR 0x27] @ Arg c 1 @ [CHR 0x27]) w)"

end
