(* ===== verification/Cmd_Table.thy ===== *)
theory Cmd_Table
  imports Cmd_Core "HOL-Library.List_Lexorder"
begin

text \<open>
  The command table, \<open>src/internal/command/table.go\<close> with the four \<open>register\<close> functions: what is
  registered under which name, the lookups, and the arity rule. The handlers themselves are
  attached to the names in \<open>Cmd_Dispatch\<close>, because \<open>COMMAND\<close> reads the table it is part of.
\<close>

datatype Flag = FlagWrite | FlagReadonly | FlagAdmin | FlagFast | FlagNoAuth | FlagLoading

text \<open>The flag word is the list of its bits.\<close>

definition Has :: "Flag list \<Rightarrow> Flag \<Rightarrow> bool" where
  "Has fs f \<longleftrightarrow> f \<in> set fs"

record Command =
  Name :: bytes
  Arity :: int
  Flags :: "Flag list"
  FirstKey :: int
  LastKey :: int
  KeyStep :: int
  Summary :: bytes
  Since :: bytes

definition cmd :: "bytes \<Rightarrow> int \<Rightarrow> Flag list \<Rightarrow> int \<Rightarrow> int \<Rightarrow> int \<Rightarrow> bytes \<Rightarrow> bytes \<Rightarrow> Command" where
  "cmd name arity flags firstKey lastKey keyStep summary since =
     \<lparr>Name = name, Arity = arity, Flags = flags, FirstKey = firstKey, LastKey = lastKey, KeyStep = keyStep,
      Summary = summary, Since = since\<rparr>"

section \<open>Registration\<close>

definition registerConnection :: "Command list" where
  "registerConnection =
     [cmd ''ping'' (- 1) [FlagFast, FlagLoading] 0 0 0 ''Ping the server'' ''1.0.0'',
      cmd ''echo'' 2 [FlagFast] 0 0 0 ''Echo the given string'' ''1.0.0'',
      cmd ''hello'' (- 1) [FlagFast, FlagNoAuth, FlagLoading] 0 0 0 ''Handshake and optionally switch protocol version'' ''6.0.0'',
      cmd ''auth'' (- 2) [FlagFast, FlagNoAuth, FlagLoading] 0 0 0 ''Authenticate'' ''1.0.0'',
      cmd ''select'' 2 [FlagFast, FlagLoading] 0 0 0 ''Select a database'' ''1.0.0'',
      cmd ''swapdb'' 3 [FlagWrite, FlagFast] 0 0 0 ''Swap two databases'' ''4.0.0'',
      cmd ''quit'' (- 1) [FlagFast, FlagNoAuth, FlagLoading] 0 0 0 ''Close the connection'' ''1.0.0'',
      cmd ''reset'' 1 [FlagFast, FlagNoAuth, FlagLoading] 0 0 0 ''Reset the connection to its initial state'' ''6.2.0'',
      cmd ''client'' (- 2) [FlagAdmin, FlagLoading] 0 0 0 ''Inspect and control connections'' ''2.4.0'']"

definition registerString :: "Command list" where
  "registerString =
     [cmd ''get'' 2 [FlagReadonly, FlagFast] 1 1 1 ''Return the string value of a key'' ''1.0.0'',
      cmd ''set'' (- 3) [FlagWrite] 1 1 1 ''Set the string value of a key'' ''1.0.0'',
      cmd ''setnx'' 3 [FlagWrite, FlagFast] 1 1 1 ''Set the value of a key only when it does not exist'' ''1.0.0'',
      cmd ''setex'' 4 [FlagWrite] 1 1 1 ''Set the value and expiration of a key in seconds'' ''2.0.0'',
      cmd ''psetex'' 4 [FlagWrite] 1 1 1 ''Set the value and expiration of a key in milliseconds'' ''2.6.0'',
      cmd ''getset'' 3 [FlagWrite, FlagFast] 1 1 1 ''Set a key and return its old value'' ''1.0.0'',
      cmd ''getdel'' 2 [FlagWrite, FlagFast] 1 1 1 ''Return the value of a key and delete it'' ''6.2.0'',
      cmd ''getex'' (- 2) [FlagWrite, FlagFast] 1 1 1 ''Return the value of a key and change its expiration'' ''6.2.0'',
      cmd ''mget'' (- 2) [FlagReadonly, FlagFast] 1 (- 1) 1 ''Return the values of several keys'' ''1.0.0'',
      cmd ''mset'' (- 3) [FlagWrite] 1 (- 1) 2 ''Set several keys'' ''1.0.1'',
      cmd ''msetnx'' (- 3) [FlagWrite] 1 (- 1) 2 ''Set several keys only when none of them exist'' ''1.0.1'',
      cmd ''append'' 3 [FlagWrite, FlagFast] 1 1 1 ''Append a value to a key'' ''2.0.0'',
      cmd ''strlen'' 2 [FlagReadonly, FlagFast] 1 1 1 ''Return the length of the value stored at a key'' ''2.2.0'',
      cmd ''incr'' 2 [FlagWrite, FlagFast] 1 1 1 ''Increment the integer value of a key by one'' ''1.0.0'',
      cmd ''decr'' 2 [FlagWrite, FlagFast] 1 1 1 ''Decrement the integer value of a key by one'' ''1.0.0'',
      cmd ''incrby'' 3 [FlagWrite, FlagFast] 1 1 1 ''Increment the integer value of a key'' ''1.0.0'',
      cmd ''decrby'' 3 [FlagWrite, FlagFast] 1 1 1 ''Decrement the integer value of a key'' ''1.0.0'',
      cmd ''incrbyfloat'' 3 [FlagWrite, FlagFast] 1 1 1 ''Increment the float value of a key'' ''2.6.0'',
      cmd ''getrange'' 4 [FlagReadonly] 1 1 1 ''Return a substring of the value at a key'' ''2.4.0'',
      cmd ''substr'' 4 [FlagReadonly] 1 1 1 ''Deprecated alias for GETRANGE'' ''1.0.0'',
      cmd ''setrange'' 4 [FlagWrite] 1 1 1 ''Overwrite part of the value at a key'' ''2.2.0'']"

definition registerGeneric :: "Command list" where
  "registerGeneric =
     [cmd ''del'' (- 2) [FlagWrite] 1 (- 1) 1 ''Delete one or more keys'' ''1.0.0'',
      cmd ''unlink'' (- 2) [FlagWrite, FlagFast] 1 (- 1) 1 ''Delete one or more keys, reclaiming memory lazily'' ''4.0.0'',
      cmd ''exists'' (- 2) [FlagReadonly, FlagFast] 1 (- 1) 1 ''Count how many of the given keys exist'' ''1.0.0'',
      cmd ''touch'' (- 2) [FlagReadonly, FlagFast] 1 (- 1) 1 ''Count how many of the given keys exist, updating their access time'' ''3.2.1'',
      cmd ''type'' 2 [FlagReadonly, FlagFast] 1 1 1 ''Return the type of the value stored at a key'' ''1.0.0'',
      cmd ''expire'' (- 3) [FlagWrite, FlagFast] 1 1 1 (''Set a key'' @ [CHR 0x27] @ ''s time to live in seconds'') ''1.0.0'',
      cmd ''pexpire'' (- 3) [FlagWrite, FlagFast] 1 1 1 (''Set a key'' @ [CHR 0x27] @ ''s time to live in milliseconds'') ''2.6.0'',
      cmd ''expireat'' (- 3) [FlagWrite, FlagFast] 1 1 1 ''Set the expiration of a key as a Unix timestamp in seconds'' ''1.2.0'',
      cmd ''pexpireat'' (- 3) [FlagWrite, FlagFast] 1 1 1 ''Set the expiration of a key as a Unix timestamp in milliseconds'' ''2.6.0'',
      cmd ''ttl'' 2 [FlagReadonly, FlagFast] 1 1 1 (''Return a key'' @ [CHR 0x27] @ ''s remaining time to live in seconds'') ''1.0.0'',
      cmd ''pttl'' 2 [FlagReadonly, FlagFast] 1 1 1 (''Return a key'' @ [CHR 0x27] @ ''s remaining time to live in milliseconds'') ''2.6.0'',
      cmd ''expiretime'' 2 [FlagReadonly, FlagFast] 1 1 1 ''Return the absolute expiry of a key in seconds'' ''7.0.0'',
      cmd ''pexpiretime'' 2 [FlagReadonly, FlagFast] 1 1 1 ''Return the absolute expiry of a key in milliseconds'' ''7.0.0'',
      cmd ''persist'' 2 [FlagWrite, FlagFast] 1 1 1 (''Remove a key'' @ [CHR 0x27] @ ''s expiration'') ''2.2.0'',
      cmd ''keys'' 2 [FlagReadonly] 0 0 0 ''Return all keys matching a pattern'' ''1.0.0'',
      cmd ''scan'' (- 2) [FlagReadonly] 0 0 0 ''Incrementally iterate the keyspace'' ''2.8.0'',
      cmd ''randomkey'' 1 [FlagReadonly] 0 0 0 ''Return a random key'' ''1.0.0'',
      cmd ''dbsize'' 1 [FlagReadonly, FlagFast] 0 0 0 ''Return the number of keys'' ''1.0.0'',
      cmd ''rename'' 3 [FlagWrite] 1 2 1 ''Rename a key'' ''1.0.0'',
      cmd ''renamenx'' 3 [FlagWrite, FlagFast] 1 2 1 ''Rename a key only when the destination does not exist'' ''1.0.0'',
      cmd ''copy'' (- 3) [FlagWrite] 1 2 1 ''Copy a key'' ''6.2.0'',
      cmd ''flushdb'' (- 1) [FlagWrite] 0 0 0 ''Remove every key'' ''1.0.0'',
      cmd ''flushall'' (- 1) [FlagWrite] 0 0 0 ''Remove every key'' ''1.0.0'']"

definition registerServer :: "Command list" where
  "registerServer =
     [cmd ''info'' (- 1) [FlagReadonly, FlagLoading] 0 0 0 ''Report server statistics'' ''1.0.0'',
      cmd ''command'' (- 1) [FlagLoading, FlagNoAuth] 0 0 0 ''Describe the command table'' ''2.8.13'',
      cmd ''config'' (- 2) [FlagAdmin, FlagLoading] 0 0 0 ''Read and change configuration'' ''2.0.0'',
      cmd ''save'' 1 [FlagAdmin] 0 0 0 ''Write a snapshot synchronously'' ''1.0.0'',
      cmd ''bgsave'' (- 1) [FlagAdmin] 0 0 0 ''Write a snapshot in the background'' ''1.0.0'',
      cmd ''bgrewriteaof'' 1 [FlagAdmin] 0 0 0 ''Compact the write-ahead log'' ''1.0.0'',
      cmd ''lastsave'' 1 [FlagReadonly, FlagFast] 0 0 0 ''Report the last snapshot time'' ''1.0.0'',
      cmd ''shutdown'' (- 1) [FlagAdmin, FlagNoAuth, FlagLoading] 0 0 0 ''Stop the server'' ''1.0.0'',
      cmd ''time'' 1 [FlagReadonly, FlagFast] 0 0 0 ''Report server time'' ''2.6.0'',
      cmd ''debug'' (- 2) [FlagAdmin] 0 0 0 ''Internal diagnostics'' ''1.0.0'',
      cmd ''object'' (- 2) [FlagReadonly] 0 0 0 (''Inspect a key'' @ [CHR 0x27] @ ''s representation'') ''2.2.3'',
      cmd ''memory'' (- 2) [FlagReadonly] 0 0 0 ''Report memory usage'' ''4.0.0'',
      cmd ''wait'' 3 [FlagFast] 0 0 0 ''Wait for replication acknowledgements'' ''3.0.0'',
      cmd ''failover'' (- 1) [FlagAdmin] 0 0 0 ''Trigger a failover'' ''6.2.0'']"

text \<open>\<open>add\<close> panics on a name that is registered already.\<close>

definition add :: "Command \<Rightarrow> Command list \<Rightarrow> Command list res" where
  "add c cmds = (if Name c \<in> Name ` set cmds then Panic else Ret (cmds @ [c]))"

fun add_all :: "Command list \<Rightarrow> Command list \<Rightarrow> Command list res" where
  "add_all [] cmds = Ret cmds"
| "add_all (c # cs) cmds = bind_res (add c cmds) (add_all cs)"

definition commands :: "Command list" where
  "commands = registerConnection @ registerString @ registerGeneric @ registerServer"

definition NewTable :: "(Command list \<times> bytes list) res" where
  "NewTable = bind_res (add_all commands []) (\<lambda>cmds. Ret (cmds, sort (map Name cmds)))"

definition lookup_cmd :: "bytes \<Rightarrow> Command option" where
  "lookup_cmd name = find (\<lambda>c. Name c = name) commands"

definition Lookup :: "(bytes \<Rightarrow> bytes) \<Rightarrow> bytes \<Rightarrow> Command option" where
  "Lookup u name = lookup_cmd (StrToLower u name)"

definition maxCommandName :: nat where
  "maxCommandName = 32"

definition lookupFast :: "bytes \<Rightarrow> Command option" where
  "lookupFast name =
     (if length name = 0 \<or> length name > maxCommandName then None else lookup_cmd (map ascii_lower name))"

definition arityOK :: "int \<Rightarrow> int \<Rightarrow> bool" where
  "arityOK arity argc = (if arity \<ge> 0 then argc = arity else argc \<ge> - arity)"

text \<open>\<open>i\<close> is the index of the first argument left.\<close>

fun preview_loop :: "nat \<Rightarrow> bytes list \<Rightarrow> bytes" where
  "preview_loop i [] = []"
| "preview_loop i (a # as) =
     (if i = 3 then '', ...''
      else (if i > 0 then '', '' else []) @ [CHR 0x27] @ (if length a > 32 then take 32 a @ ''...'' else a) @ [CHR 0x27]
        @ preview_loop (i + 1) as)"

definition argPreview :: "bytes list \<Rightarrow> bytes" where
  "argPreview args = preview_loop 0 args"

section \<open>The table is well formed\<close>

lemma distinct_names: "distinct (map Name commands)"
  by (simp add: commands_def registerConnection_def registerString_def registerGeneric_def registerServer_def cmd_def)

lemma add_all_distinct: "distinct (map Name (cmds @ cs)) \<Longrightarrow> add_all cs cmds = Ret (cmds @ cs)"
  by (induction cs arbitrary: cmds) (auto simp: add_def)

lemma NewTable_names: "NewTable = Ret (commands, sort (map Name commands))"
  using add_all_distinct [of "[]" commands] distinct_names by (simp add: NewTable_def)

lemma lookup_cmd_Some: "lookup_cmd n = Some c \<longleftrightarrow> c \<in> set commands \<and> Name c = n"
proof
  assume "lookup_cmd n = Some c"
  then show "c \<in> set commands \<and> Name c = n" by (auto simp: lookup_cmd_def find_Some_iff)
next
  assume c: "c \<in> set commands \<and> Name c = n"
  then obtain d where d: "lookup_cmd n = Some d"
    by (cases "lookup_cmd n") (auto simp: lookup_cmd_def find_None_iff)
  then have "d \<in> set commands" "Name d = n" by (auto simp: lookup_cmd_def find_Some_iff)
  with c distinct_names have "c = d" by (metis distinct_map inj_on_contraD)
  with d show "lookup_cmd n = Some c" by simp
qed

lemma argPreview_bounded: "length (argPreview args) \<le> 3 * (32 + 3 + 2 + 2) + 5"
proof -
  have "i \<le> 3 \<Longrightarrow> length (preview_loop i args) \<le> (3 - i) * 39 + 5" for i
  proof (induction args arbitrary: i)
    case (Cons a as)
    show ?case
    proof (cases "i = 3")
      case False
      with Cons.prems have "i < 3" by simp
      then have "i = 0 \<or> i = 1 \<or> i = 2" by auto
      with Cons.IH [of "i + 1"] show ?thesis by auto
    qed simp
  qed simp
  from this [of 0] show ?thesis by (simp add: argPreview_def)
qed

end
