(* ===== verification/Cmd_Server.thy ===== *)
theory Cmd_Server
  imports Cmd_String Cmd_Conn Cmd_Table
begin

text \<open>
  The server commands, \<open>src/internal/command/serverinfo.go\<close>: introspection of the command table,
  configuration, snapshots, shutdown and the diagnostics. The save and shutdown requests are
  those of \<open>src/internal/server/env.go\<close>.
\<close>

section \<open>Requests to the server\<close>

text \<open>The text of an error: the message where the sources give one.\<close>

definition err_text :: "('s, 'f) env \<Rightarrow> gerror \<Rightarrow> bytes" where
  "err_text E e = (case e of OtherErr s \<Rightarrow> s | _ \<Rightarrow> en_Error E e)"

definition errNoPersistence :: gerror where
  "errNoPersistence = OtherErr ''persistence is disabled on this server''"

definition env_Save :: "('s, 'f) env \<Rightarrow> clock \<Rightarrow> ('s World, unit) action" where
  "env_Save E clk w =
     (case en_Saver E of
        None \<Rightarrow> (Fail errNoPersistence, w)
      | Some sv \<Rightarrow> store_call (Saver_Snapshot sv clk) w)"

text \<open>
  \<open>BackgroundSave\<close> claims the flag and starts the snapshot; \<open>bgsave_run\<close> is the body of the
  goroutine, which releases the flag whatever the outcome.
\<close>

definition BackgroundSave :: "('s, 'f) env \<Rightarrow> ('s World, unit) action" where
  "BackgroundSave E w =
     (case en_Saver E of
        None \<Rightarrow> (Fail errNoPersistence, w)
      | Some sv \<Rightarrow>
          if wd_bgsave w then (Fail (OtherErr ''background save already in progress''), w)
          else (Ret (), w\<lparr>wd_bgsave := True\<rparr>))"

definition bgsave_run :: "'s Saver \<Rightarrow> clock \<Rightarrow> 's World \<Rightarrow> 's World" where
  "bgsave_run sv clk w = (snd (store_call (Saver_Snapshot sv clk) w))\<lparr>wd_bgsave := False\<rparr>"

definition LastSave :: "('s, 'f) env \<Rightarrow> 's World \<Rightarrow> int" where
  "LastSave E w = (case en_Saver E of None \<Rightarrow> 0 | Some sv \<Rightarrow> fst (Saver_LastSnapshot sv (wd_store w)))"

definition env_Shutdown :: "bool \<Rightarrow> 's World \<Rightarrow> 's World" where
  "env_Shutdown save w =
     (let w = w\<lparr>wd_shutdownSave := save\<rparr>
      in case wd_shutdown w of None \<Rightarrow> w\<lparr>wd_shutdown := Some save\<rparr> | Some _ \<Rightarrow> w)"

section \<open>The command table\<close>

definition cmdInfo :: "('s, 'f) handler" where
  "cmdInfo E c w = fin (on_out (WriteVerbatim ''txt'' (en_Info E (map (ArgLower E c) [1..<Argc c]) w)) w)"

definition flag_names :: "Flag list \<Rightarrow> bytes list" where
  "flag_names fs =
     (if Has fs FlagWrite then [''write'', ''denyoom''] else [])
     @ (if Has fs FlagReadonly then [''readonly''] else [])
     @ (if Has fs FlagAdmin then [''admin'', ''noscript''] else [])
     @ (if Has fs FlagFast then [''fast''] else [])
     @ (if Has fs FlagLoading then [''loading''] else [])"

definition writeCommandInfo :: "Command \<Rightarrow> 's World \<Rightarrow> 's World" where
  "writeCommandInfo cm w =
     (let flags = flag_names (Flags cm) in
      fold on_out
        ([WriteArrayHeader 10, WriteBulkString (Name cm), WriteInt (Arity cm), WriteArrayHeader (int (length flags))]
         @ map WriteSimpleString flags
         @ [WriteInt (FirstKey cm), WriteInt (LastKey cm), WriteInt (KeyStep cm),
            WriteArrayHeader 0, WriteArrayHeader 0, WriteArrayHeader 0, WriteArrayHeader 0]) w)"

text \<open>Describing a name that is not registered dereferences a nil pointer.\<close>

fun infos_loop :: "('s, 'f) env \<Rightarrow> bytes list \<Rightarrow> ('s World, unit) action" where
  "infos_loop E [] w = fin w"
| "infos_loop E (n # ns) w =
     (case Lookup (en_lower E) n of
        None \<Rightarrow> (Panic, w)
      | Some cm \<Rightarrow> infos_loop E ns (writeCommandInfo cm w))"

fun docs_loop :: "('s, 'f) env \<Rightarrow> bytes list \<Rightarrow> ('s World, unit) action" where
  "docs_loop E [] w = fin w"
| "docs_loop E (n # ns) w =
     (case Lookup (en_lower E) n of
        None \<Rightarrow> (Panic, w)
      | Some cm \<Rightarrow>
          docs_loop E ns
            (fold on_out
               [WriteBulkString (Name cm), WriteMapHeader 3,
                WriteBulkString ''summary'', WriteBulkString (Summary cm),
                WriteBulkString ''since'', WriteBulkString (Since cm),
                WriteBulkString ''arity'', WriteInt (Arity cm)] w))"

text \<open>
  \<open>COMMAND DOCS\<close> with arguments reuses the array of the table's own name list: \<open>names[:0]\<close> keeps its
  capacity, so the names appended overwrite the list from the front until it is full.
\<close>

definition overwrite_names :: "bytes list \<Rightarrow> bytes list \<Rightarrow> bytes list" where
  "overwrite_names new old = take (length old) new @ drop (length new) old"

definition docs_names :: "('s, 'f) env \<Rightarrow> ctx \<Rightarrow> bytes list" where
  "docs_names E c =
     map (ArgLower E c) (filter (\<lambda>i. Lookup (en_lower E) (Arg c i) \<noteq> None) [2..<Argc c])"

fun info_args_loop :: "('s, 'f) env \<Rightarrow> bytes list \<Rightarrow> 's World \<Rightarrow> 's World" where
  "info_args_loop E [] w = w"
| "info_args_loop E (n # ns) w =
     (case Lookup (en_lower E) n of
        None \<Rightarrow> info_args_loop E ns (on_out WriteNullArray w)
      | Some cm \<Rightarrow> info_args_loop E ns (writeCommandInfo cm w))"

text \<open>\<open>getkeys_loop\<close> collects the positions from \<open>i\<close> on; the step is at least one.\<close>

function getkeys_loop :: "int \<Rightarrow> int \<Rightarrow> int \<Rightarrow> int \<Rightarrow> int list" where
  "getkeys_loop i lst argc step =
     (if i \<le> lst \<and> i < argc then i # getkeys_loop (i + max step 1) lst argc step else [])"
  by auto
termination by (relation "measure (\<lambda>(i, lst, argc, step). nat (argc - i))") auto

declare getkeys_loop.simps [simp del]

definition commandGetKeys :: "('s, 'f) handler" where
  "commandGetKeys E c w =
     (if Argc c < 3 then
        Err (''Unknown subcommand or wrong number of arguments for '' @ [CHR 0x27] @ ''GETKEYS'' @ [CHR 0x27]) w
      else
        case Lookup (en_lower E) (Arg c 2) of
          None \<Rightarrow> Err ''Invalid command specified'' w
        | Some cm \<Rightarrow>
            let argc = int (Argc c) - 2 in
            if \<not> arityOK (Arity cm) argc then Err ''Invalid number of arguments specified for command'' w
            else if FirstKey cm = 0 then Err ''The command has no key arguments'' w
            else
              let lst = (if LastKey cm < 0 then argc + LastKey cm else LastKey cm);
                  keys = map (\<lambda>i. Arg_slice c (nat (i + 2))) (getkeys_loop (FirstKey cm) lst argc (KeyStep cm)) in
              if keys = [] then Err ''Invalid arguments specified for command'' w
              else fin (fold (\<lambda>k. on_out (WriteBulk k)) keys (on_out (WriteArrayHeader (int (length keys))) w)))"

definition cmdCommand :: "('s, 'f) handler" where
  "cmdCommand E c w =
     (let n = int (length commands); sub = ArgLower E c 1 in
      if Argc c = 1 then infos_loop E (wd_names w) (on_out (WriteArrayHeader n) w)
      else if sub = ''count'' then IntR n w
      else if sub = ''docs'' then
        (let (names, w) =
           (if Argc c > 2 then (docs_names E c, w\<lparr>wd_names := overwrite_names (docs_names E c) (wd_names w)\<rparr>)
            else (wd_names w, w))
         in docs_loop E names (on_out (WriteMapHeader (int (length names))) w))
      else if sub = ''info'' then
        (if Argc c = 2 then infos_loop E (wd_names w) (on_out (WriteArrayHeader n) w)
         else fin (info_args_loop E (drop 2 (Args c)) (on_out (WriteArrayHeader (int (Argc c) - 2)) w)))
      else if sub = ''list'' then
        fin (fold (\<lambda>n. on_out (WriteBulkString n)) (wd_names w) (on_out (WriteArrayHeader n) w))
      else if sub = ''getkeys'' then commandGetKeys E c w
      else Err (''Unknown subcommand '' @ [CHR 0x27] @ Arg c 1 @ [CHR 0x27]) w)"

section \<open>Configuration\<close>

fun config_set_loop :: "('s, 'f) env \<Rightarrow> (bytes \<times> bytes) list \<Rightarrow> ('s World, unit) action" where
  "config_set_loop E [] w = OK w"
| "config_set_loop E ((k, v) # ps) w =
     (case Config_Set (en_lower E) (en_seconds E) k v (wd_cfg w) of
        (Ret _, cfg) \<Rightarrow> config_set_loop E ps (w\<lparr>wd_cfg := cfg\<rparr>)
      | (Fail e, cfg) \<Rightarrow> Err (''CONFIG SET failed - '' @ err_text E e) (w\<lparr>wd_cfg := cfg\<rparr>)
      | (Panic, cfg) \<Rightarrow> (Panic, w\<lparr>wd_cfg := cfg\<rparr>))"

definition config_pairs :: "ctx \<Rightarrow> (bytes \<times> bytes) list" where
  "config_pairs c = map (\<lambda>i. (Arg c i, Arg c (i + 1))) (filter even [2..<Argc c])"

definition cmdConfig :: "('s, 'f) handler" where
  "cmdConfig E c w =
     (let sub = ArgLower E c 1 in
      if sub = ''get'' then
        (if Argc c < 3 then ErrWrongArgs c w
         else
           let matched = filter (\<lambda>(k, v). list_ex (\<lambda>i. matchPattern (Arg c i) k True) [2..<Argc c])
                           (Config_All (en_seconds E) (wd_cfg w)) in
           fin (fold (\<lambda>(k, v). on_out (WriteBulkString v) \<circ> on_out (WriteBulkString k)) (in_order (ctx_in c) matched)
                 (on_out (WriteMapHeader (int (length matched))) w)))
      else if sub = ''set'' then
        (if Argc c < 4 \<or> Argc c mod 2 \<noteq> 0 then ErrWrongArgs c w
         else
           case find (\<lambda>(k, v). Config_Get (en_lower E) (en_seconds E) (wd_cfg w) k = None) (config_pairs c) of
             Some (k, v) \<Rightarrow>
               Err (''Unknown option or number of arguments for CONFIG SET - '' @ [CHR 0x27] @ k @ [CHR 0x27]) w
           | None \<Rightarrow> config_set_loop E (config_pairs c) w)
      else if sub = ''resetstat'' then OK (w\<lparr>wd_stats := ResetStat (wd_stats w)\<rparr>)
      else if sub = ''rewrite'' then Err ''The server is running without a config file'' w
      else Err (''Unknown CONFIG subcommand or wrong number of arguments for '' @ [CHR 0x27] @ Arg c 1 @ [CHR 0x27]) w)"

section \<open>Snapshots and shutdown\<close>

definition cmdSave :: "('s, 'f) handler" where
  "cmdSave E c w =
     (case env_Save E (eclk c 0) w of
        (Ret _, w) \<Rightarrow> OK w
      | (Fail e, w) \<Rightarrow> Err (err_text E e) w
      | (Panic, w) \<Rightarrow> (Panic, w))"

definition bgsave_cmd :: "bytes \<Rightarrow> ('s, 'f) handler" where
  "bgsave_cmd msg E c w =
     (case BackgroundSave E w of
        (Ret _, w) \<Rightarrow> SimpleString msg w
      | (Fail e, w) \<Rightarrow> Err (err_text E e) w
      | (Panic, w) \<Rightarrow> (Panic, w))"

definition cmdBGSave :: "('s, 'f) handler" where
  "cmdBGSave = bgsave_cmd ''Background saving started''"

definition cmdBGRewriteAOF :: "('s, 'f) handler" where
  "cmdBGRewriteAOF = bgsave_cmd ''Background append only file rewriting started''"

definition cmdLastSave :: "('s, 'f) handler" where
  "cmdLastSave E c w = IntR (LastSave E w) w"

fun shutdown_options :: "('s, 'f) env \<Rightarrow> bytes list \<Rightarrow> bool \<Rightarrow> bool option" where
  "shutdown_options E [] save = Some save"
| "shutdown_options E (a # as) save =
     (let a = StrToLower (en_lower E) a in
      if a = ''nosave'' then shutdown_options E as False
      else if a = ''save'' then shutdown_options E as True
      else if a = ''now'' \<or> a = ''force'' then shutdown_options E as save
      else None)"

definition cmdShutdown :: "('s, 'f) handler" where
  "cmdShutdown E c w =
     (case shutdown_options E (drop 1 (Args c)) True of
        None \<Rightarrow> ErrSyntax w
      | Some save \<Rightarrow> fin (on_conn (closeAfterReply_update (\<lambda>_. True)) (env_Shutdown save w)))"

section \<open>Diagnostics\<close>

text \<open>\<open>Nanosecond()/1000\<close> of a time in nanoseconds.\<close>

definition cmdTime :: "('s, 'f) handler" where
  "cmdTime E c w =
     (let now = in_now (ctx_in c) 0 in
      fin (fold on_out
             [WriteArrayHeader 2, WriteBulkString (FormatInt (Unix now)),
              WriteBulkString (FormatInt ((now mod 1000000000) div 1000))] w))"

text \<open>\<open>DEBUG SLEEP\<close> waits and changes nothing.\<close>

definition cmdDebug :: "('s, 'f) handler" where
  "cmdDebug E c w =
     (let sub = ArgLower E c 1 in
      if sub = ''sleep'' then
        (if Argc c \<noteq> 3 then ErrWrongArgs c w
         else case floatArg E c 2 of
                None \<Rightarrow> ErrSyntax w
              | Some secs \<Rightarrow> if f_negative (en_F E) secs then ErrSyntax w else OK w)
      else if sub \<in> {''jmap'', ''set-active-expire'', ''quicklist-packed-threshold'', ''stringmatch-len'', ''change-repl-id''}
        then OK w
      else if sub = ''object'' then
        (if Argc c \<noteq> 3 then ErrWrongArgs c w
         else try_store E (Get (en_Store E) (eclk c 0) (Arg c 2)) (\<lambda>x.
                case x of
                  None \<Rightarrow> Err ''no such key''
                | Some rec \<Rightarrow>
                    SimpleString (''Value at:0x0 refcount:1 encoding:raw serializedlength:''
                      @ FormatInt (int (length (Value rec))) @ '' lru:0 lru_seconds_idle:0'')) w)
      else if sub = ''help'' then
        fin (fold on_out
               [WriteArrayHeader 2, WriteSimpleString ''DEBUG SLEEP <seconds> -- stall this connection'',
                WriteSimpleString (''DEBUG OBJECT <key> -- describe a key'' @ [CHR 0x27] @ ''s representation'')] w)
      else Err (''DEBUG subcommand '' @ [CHR 0x27] @ Arg c 1 @ [CHR 0x27] @ '' not supported by this server'') w)"

definition cmdObject :: "('s, 'f) handler" where
  "cmdObject E c w =
     (if Argc c < 3 then
        (if ArgLower E c 1 = ''help'' then
           fin (fold on_out [WriteArrayHeader 1, WriteSimpleString ''OBJECT <ENCODING|REFCOUNT|IDLETIME|FREQ> <key>''] w)
         else ErrWrongArgs c w)
      else
        try_store E (Get (en_Store E) (eclk c 0) (Arg c 2)) (\<lambda>x.
          case x of
            None \<Rightarrow> Err ''no such key''
          | Some rec \<Rightarrow>
              let sub = ArgLower E c 1 in
              if sub = ''encoding'' then
                (if parseStrictInt (Value rec) \<noteq> None then BulkString ''int'' else BulkString ''raw'')
              else if sub = ''refcount'' then IntR 1
              else if sub = ''idletime'' then IntR 0
              else if sub = ''freq'' then Err ''An LFU maxmemory policy is not selected, access frequency not tracked''
              else Err (''Unknown subcommand or wrong number of arguments for '' @ [CHR 0x27] @ Arg c 1 @ [CHR 0x27])) w)"

definition cmdMemory :: "('s, 'f) handler" where
  "cmdMemory E c w =
     (let sub = ArgLower E c 1 in
      if sub = ''usage'' then
        (if Argc c < 3 then ErrWrongArgs c w
         else try_store E (Get (en_Store E) (eclk c 0) (Arg c 2)) (\<lambda>x.
                case x of
                  None \<Rightarrow> Null
                | Some rec \<Rightarrow> IntR (i64 (int (length (Arg c 2)) + int (length (Value rec)) + 64))) w)
      else if sub = ''doctor'' then
        BulkString ''Memory reporting here is estimated, not measured. Run with a heap profile for real numbers.'' w
      else if sub = ''stats'' then
        try_store E (en_StoreStats E) (\<lambda>st w.
          fin (fold on_out
                 [WriteMapHeader 3, WriteBulkString ''keys.count'', WriteInt (Keys st),
                  WriteBulkString ''keys.volatile'', WriteInt (VolatileKeys st),
                  WriteBulkString ''dataset.bytes'', WriteInt (MemoryBytes st)] w)) w
      else Err (''Unknown subcommand or wrong number of arguments for '' @ [CHR 0x27] @ Arg c 1 @ [CHR 0x27]) w)"

definition cmdWait :: "('s, 'f) handler" where
  "cmdWait E c = IntR 0"

definition cmdFailover :: "('s, 'f) handler" where
  "cmdFailover E c =
     (if Argc c > 1 \<and> ArgLower E c 1 = ''abort'' then Err ''No failover in progress.''
      else Err ''FAILOVER requires connected replicas; this server is standalone'')"

end
