(* ===== verification/Cmd_Dispatch.thy ===== *)
theory Cmd_Dispatch
  imports Cmd_Generic Cmd_Server
begin

text \<open>
  \<open>Dispatch\<close> of \<open>src/internal/command/table.go\<close>: the handler registered under each name, the checks in
  front of it and the counters behind it.
\<close>

section \<open>Handlers\<close>

definition connection_handlers :: "(bytes \<times> ('s, 'f) handler) list" where
  "connection_handlers =
     [(''ping'', cmdPing), (''echo'', cmdEcho), (''hello'', cmdHello), (''auth'', cmdAuth),
      (''select'', cmdSelect), (''swapdb'', cmdSwapDB), (''quit'', cmdQuit), (''reset'', cmdReset),
      (''client'', cmdClient)]"

definition string_handlers :: "(bytes \<times> ('s, 'f) handler) list" where
  "string_handlers =
     [(''get'', cmdGet), (''set'', cmdSet), (''setnx'', cmdSetNX), (''setex'', cmdSetEX),
      (''psetex'', cmdPSetEX), (''getset'', cmdGetSet), (''getdel'', cmdGetDel), (''getex'', cmdGetEx),
      (''mget'', cmdMGet), (''mset'', cmdMSet), (''msetnx'', cmdMSetNX), (''append'', cmdAppend),
      (''strlen'', cmdStrlen), (''incr'', cmdIncr), (''decr'', cmdDecr), (''incrby'', cmdIncrBy),
      (''decrby'', cmdDecrBy), (''incrbyfloat'', cmdIncrByFloat), (''getrange'', cmdGetRange),
      (''substr'', cmdGetRange), (''setrange'', cmdSetRange)]"

definition generic_handlers :: "(bytes \<times> ('s, 'f) handler) list" where
  "generic_handlers =
     [(''del'', cmdDel), (''unlink'', cmdDel), (''exists'', cmdExists), (''touch'', cmdExists),
      (''type'', cmdType), (''expire'', expireCmd ''ex''), (''pexpire'', expireCmd ''px''),
      (''expireat'', expireCmd ''exat''), (''pexpireat'', expireCmd ''pxat''), (''ttl'', ttlCmd 1000),
      (''pttl'', ttlCmd 1), (''expiretime'', expireTimeCmd 1000), (''pexpiretime'', expireTimeCmd 1),
      (''persist'', cmdPersist), (''keys'', cmdKeys), (''scan'', cmdScan), (''randomkey'', cmdRandomKey),
      (''dbsize'', cmdDBSize), (''rename'', cmdRename), (''renamenx'', cmdRenameNX), (''copy'', cmdCopy),
      (''flushdb'', cmdFlush), (''flushall'', cmdFlush)]"

definition server_handlers :: "(bytes \<times> ('s, 'f) handler) list" where
  "server_handlers =
     [(''info'', cmdInfo), (''command'', cmdCommand), (''config'', cmdConfig), (''save'', cmdSave),
      (''bgsave'', cmdBGSave), (''bgrewriteaof'', cmdBGRewriteAOF), (''lastsave'', cmdLastSave),
      (''shutdown'', cmdShutdown), (''time'', cmdTime), (''debug'', cmdDebug), (''object'', cmdObject),
      (''memory'', cmdMemory), (''wait'', cmdWait), (''failover'', cmdFailover)]"

definition handlers :: "(bytes \<times> ('s, 'f) handler) list" where
  "handlers = connection_handlers @ string_handlers @ generic_handlers @ server_handlers"

text \<open>Calling a nil handler would panic; every registered command has one.\<close>

definition handler_of :: "bytes \<Rightarrow> ('s, 'f) handler" where
  "handler_of name = (case map_of handlers name of Some h \<Rightarrow> h | None \<Rightarrow> (\<lambda>E c w. (Panic, w)))"

section \<open>Dispatch\<close>

definition rejected :: "'s World \<Rightarrow> 's World" where
  "rejected w = w\<lparr>wd_stats := (wd_stats w)\<lparr>CommandsRejected := u64 (CommandsRejected (wd_stats w) + 1)\<rparr>\<rparr>"

definition processed :: "int \<Rightarrow> 's World \<Rightarrow> 's World" where
  "processed d w =
     w\<lparr>wd_stats := ObserveLatency d ((wd_stats w)\<lparr>CommandsProcessed := u64 (CommandsProcessed (wd_stats w) + 1)\<rparr>)\<rparr>"

text \<open>A panic of the handler leaves \<open>Dispatch\<close> before the counters.\<close>

definition Dispatch :: "('s, 'f) handler" where
  "Dispatch E c w =
     (if Args c = [] then (Ret (), w)
      else
        case lookupFast (Args c ! 0) of
          None \<Rightarrow>
            Err (''unknown command '' @ [CHR 0x27] @ StrToLower (en_lower E) (Args c ! 0) @ [CHR 0x27]
                 @ '', with args beginning with: '' @ argPreview (tl (Args c))) (rejected w)
        | Some cm \<Rightarrow>
            let c = c\<lparr>ctx_name := Name cm\<rparr> in
            if \<not> arityOK (Arity cm) (int (Argc c)) then ErrWrongArgs c (rejected w)
            else if \<not> Authenticated (wd_conn w) \<and> \<not> Has (Flags cm) FlagNoAuth then
              ErrCode ''NOAUTH'' msgNoAuth (rejected w)
            else
              (case handler_of (Name cm) E c w of
                 (Panic, w) \<Rightarrow> (Panic, w)
               | (r, w) \<Rightarrow>
                   (r, on_conn (Touch (Name cm) (Unix (in_end (ctx_in c))))
                         (processed (time_Sub (in_end (ctx_in c)) (in_start (ctx_in c))) w))))"

section \<open>The handler table\<close>

lemma handler_names: "map fst (handlers :: (bytes \<times> ('s, 'f) handler) list) = map Name commands"
  by (simp add: handlers_def connection_handlers_def string_handlers_def generic_handlers_def server_handlers_def
      commands_def registerConnection_def registerString_def registerGeneric_def registerServer_def cmd_def)

lemma handler_of_registered:
  assumes "cm \<in> set commands"
  shows "(Name cm, handler_of (Name cm) :: ('s, 'f) handler) \<in> set handlers"
proof -
  have "Name cm \<in> set (map fst (handlers :: (bytes \<times> ('s, 'f) handler) list))" using assms by (simp add: handler_names)
  then obtain h where "map_of (handlers :: (bytes \<times> ('s, 'f) handler) list) (Name cm) = Some h"
    by (metis map_of_eq_None_iff not_None_eq set_map)
  then show ?thesis by (simp add: handler_of_def map_of_SomeD)
qed

lemma lookupFast_Some:
  assumes "lookupFast n = Some cm"
  shows "cm \<in> set commands" "Name cm = map ascii_lower n" "n \<noteq> []"
  using assms by (auto simp: lookupFast_def lookup_cmd_Some split: if_splits)

text \<open>What \<open>Dispatch\<close> does, by case.\<close>

lemma Dispatch_cases:
  assumes "Dispatch E c w = (r, w')"
  obtains (empty) "Args c = []" "r = Ret ()" "w' = w"
  | (rejected) msg where "Args c \<noteq> []" "r = Ret ()" "w' = on_out (WriteError msg) (failed (rejected w))"
  | (panic) cm where "lookupFast (Args c ! 0) = Some cm" "r = Panic"
      "Authenticated (wd_conn w) \<or> Has (Flags cm) FlagNoAuth" "arityOK (Arity cm) (int (Argc c))"
      "handler_of (Name cm) E (c\<lparr>ctx_name := Name cm\<rparr>) w = (Panic, w')"
  | (run) cm w1 d t where "lookupFast (Args c ! 0) = Some cm" "r \<noteq> Panic"
      "Authenticated (wd_conn w) \<or> Has (Flags cm) FlagNoAuth" "arityOK (Arity cm) (int (Argc c))"
      "handler_of (Name cm) E (c\<lparr>ctx_name := Name cm\<rparr>) w = (r, w1)"
      "w' = on_conn (Touch (Name cm) t) (processed d w1)"
proof (cases "Args c = []")
  case True
  with assms show ?thesis by (intro that(1)) (auto simp: Dispatch_def)
next
  case ne: False
  show ?thesis
  proof (cases "lookupFast (Args c ! 0)")
    case None
    with assms ne have "\<exists>msg. r = Ret () \<and> w' = on_out (WriteError msg) (failed (rejected w))"
      by (auto simp: Dispatch_def Err_def fin_def)
    with ne that(2) show ?thesis by blast
  next
    case (Some cm)
    show ?thesis
    proof (cases "arityOK (Arity cm) (int (Argc c)) \<and> (Authenticated (wd_conn w) \<or> Has (Flags cm) FlagNoAuth)")
      case False
      with assms ne Some have "\<exists>msg. r = Ret () \<and> w' = on_out (WriteError msg) (failed (rejected w))"
        by (auto simp: Dispatch_def Let_def Argc_def ErrWrongArgs_def Err_def ErrCode_def fin_def split: if_splits)
      with ne that(2) show ?thesis by blast
    next
      case ok: True
      obtain r1 w1 where h: "handler_of (Name cm) E (c\<lparr>ctx_name := Name cm\<rparr>) w = (r1, w1)" by fastforce
      show ?thesis
      proof (cases "r1 = Panic")
        case True
        with assms ne Some ok h show ?thesis by (intro that(3)) (auto simp: Dispatch_def Let_def Argc_def)
      next
        case False
        with assms ne Some ok h show ?thesis
          by (intro that(4)) (auto simp: Dispatch_def Let_def Argc_def split: res.splits)
      qed
    qed
  qed
qed

end
