(* ===== verification/Cmd_Replies.thy ===== *)
theory Cmd_Replies
  imports Cmd_Dispatch
begin

text \<open>
  A handler writes exactly one reply: the bytes it appends are the encoding of one reply tree, in
  the dialect the connection has afterwards. The rules below carry this through the shapes the
  handlers are made of.
\<close>

section \<open>Well-formed worlds\<close>

text \<open>
  The command table's name list has one registered name per command (not necessarily each once),
  the writer speaks the connection's dialect, and only mutable parameters were changed.
\<close>

definition mutable_names :: "bytes list" where
  "mutable_names = [''appendfsync'', ''maxclients'', ''requirepass'', ''proto-max-bulk-len'', ''activeexpire'', ''loglevel'']"

definition wf_world :: "'s World \<Rightarrow> bool" where
  "wf_world w \<longleftrightarrow>
     length (wd_names w) = length commands \<and> set (wd_names w) \<subseteq> Name ` set commands
     \<and> w_ver (wd_out w) = Proto (wd_conn w) \<and> Proto (wd_conn w) \<in> {RESP2, RESP3}
     \<and> fst ` set (cfg_mutable (wd_cfg w)) \<subseteq> set mutable_names"

text \<open>Ready to reply: well formed, and nothing written since the output was \<open>p\<close>.\<close>

definition ready :: "Writer \<Rightarrow> 's World \<Rightarrow> bool" where
  "ready p w \<longleftrightarrow> wf_world w \<and> wd_out w = p"

definition good :: "Writer \<Rightarrow> unit res \<times> 's World \<Rightarrow> bool" where
  "good p x \<longleftrightarrow>
     fst x \<noteq> Panic \<and> wf_world (snd x)
     \<and> (\<exists>t. w_bw (wd_out (snd x)) = w_bw p @ enc (Proto (wd_conn (snd x))) t)"

named_theorems replies \<open>what a handler is made of writes one reply\<close>

lemma ready_frame [simp]:
  "ready p (Hit w) = ready p w" "ready p (Miss w) = ready p w" "ready p (failed w) = ready p w"
  "ready p (rejected w) = ready p w" "ready p (w\<lparr>wd_store := s\<rparr>) = ready p w"
  "ready p (w\<lparr>wd_bgsave := b\<rparr>) = ready p w" "ready p (w\<lparr>wd_stats := st\<rparr>) = ready p w"
  "ready p (w\<lparr>wd_others := cs\<rparr>) = ready p w"
  by (simp_all add: ready_def wf_world_def Hit_def Miss_def failed_def rejected_def)

lemma ready_conn [simp]:
  "ready p (on_conn (Authenticated_update f) w) = ready p w"
  "ready p (on_conn (conn_name_update g) w) = ready p w"
  "ready p (on_conn (closeAfterReply_update f) w) = ready p w"
  "ready p (on_conn (killed_update f) w) = ready p w"
  by (simp_all add: ready_def wf_world_def on_conn_def)

lemma good_emit [replies]: "ready p w \<Longrightarrow> good p (fin (on_out (emit t) w))"
  by (auto simp: ready_def good_def fin_def on_out_def wf_world_def)

lemma write_emit:
  "WriteSimpleString s = emit (RSimple s)" "WriteError s = emit (RError (sanitizeLine s))"
  "WriteInt n = emit (RInteger n)" "WriteNull = emit RNil" "WriteNullArray = emit RNilArray"
  "WriteBulkString s = emit (RBulk s)" "WriteBulk b = emit (case b of None \<Rightarrow> RNil | Some b \<Rightarrow> RBulk b)"
  "WriteBool x = emit (RBool x)" "WriteVerbatim f s = emit (RVerbatim f s)" "WriteArrayHeader 0 = emit (RArray [])"
  using WriteArray_emit [of 0 "[]"] by (simp_all add: fun_eq_iff write_simps)

lemma good_simple [replies]:
  assumes "ready p w"
  shows "good p (Err m w)" "good p (ErrCode k m w)" "good p (ErrWrongArgs c w)" "good p (ErrSyntax w)" "good p (ErrNotInteger w)"
    "good p (OK w)" "good p (IntR n w)" "good p (Bulk b w)" "good p (BulkString s w)" "good p (Null w)" "good p (BoolR x w)"
    "good p (SimpleString s w)"
  using assms
  by (simp_all add: Err_def ErrCode_def ErrWrongArgs_def ErrSyntax_def ErrNotInteger_def OK_def IntR_def Bulk_def BulkString_def
      Null_def BoolR_def SimpleString_def write_emit good_emit)

lemma good_storeErr [replies]: "ready p w \<Longrightarrow> good p (storeErr E e w)"
  by (simp add: storeErr_def write_emit replies split: gerror.splits)

section \<open>Arrays and maps\<close>

lemma on_out_on_out [simp]: "on_out f (on_out g w) = on_out (\<lambda>x. f (g x)) w"
  by (simp add: on_out_def)

lemma fold_on_out: "fold (\<lambda>x. on_out (f x)) xs w = on_out (\<lambda>y. fold f xs y) w"
  by (induction xs arbitrary: w) (simp_all add: on_out_def)

lemma array_reply: "n = int (length ts) \<Longrightarrow> on_out (fold emit ts) (on_out (WriteArrayHeader n) w) = on_out (emit (RArray ts)) w"
  by (simp add: WriteArray_emit)

lemma map_reply:
  "int (length ts) = 2 * n \<Longrightarrow> int (length ts) \<le> MaxInt64 \<Longrightarrow>
   on_out (fold emit ts) (on_out (WriteMapHeader n) w) = on_out (emit (RMap ts)) w"
  by (simp add: WriteMap_emit)

lemma lower_names: "list_all (\<lambda>c. is_ascii (Name c) \<and> map ascii_lower (Name c) = Name c) commands"
  by code_simp

lemma Lookup_registered: "n \<in> Name ` set commands \<Longrightarrow> \<exists>cm. Lookup u n = Some cm"
proof -
  assume "n \<in> Name ` set commands"
  then obtain cm where cm: "cm \<in> set commands" "n = Name cm" by auto
  with lower_names have "StrToLower u n = n" by (auto simp: list_all_iff StrToLower_def ToLower_def)
  with cm show ?thesis by (auto simp: Lookup_def lookup_cmd_Some)
qed

text \<open>A world that only got more output.\<close>

definition extends :: "reply list \<Rightarrow> 's World \<Rightarrow> 's World \<Rightarrow> bool" where
  "extends ts w w' \<longleftrightarrow>
     wd_out w' = fold emit ts (wd_out w) \<and> wd_names w' = wd_names w \<and> wd_conn w' = wd_conn w \<and> wd_cfg w' = wd_cfg w"

lemma extends_Nil: "extends [] w w"
  by (simp add: extends_def)

lemma extends_Cons: "extends ts (on_out (emit t) w1) w' \<Longrightarrow> wd_out w1 = wd_out w \<Longrightarrow> wd_names w1 = wd_names w \<Longrightarrow>
    wd_conn w1 = wd_conn w \<Longrightarrow> wd_cfg w1 = wd_cfg w \<Longrightarrow> extends (t # ts) w w'"
  by (simp add: extends_def on_out_def)

lemma good_extends:
  assumes "ready p w" "extends ts (on_out h w) w'" "fold emit ts (h p) = emit t p" "r \<noteq> Panic"
  shows "good p (r, w')"
proof -
  have "wd_out w' = emit t p" "wd_names w' = wd_names w" "wd_conn w' = wd_conn w" "wd_cfg w' = wd_cfg w"
    using assms by (simp_all add: extends_def on_out_def ready_def)
  with assms(1,4) show ?thesis by (auto simp: good_def ready_def wf_world_def)
qed

lemma good_array:
  assumes "ready p w" "extends ts (on_out (WriteArrayHeader n) w) w'" "n = int (length ts)" "r \<noteq> Panic"
  shows "good p (r, w')"
  using assms by (intro good_extends [where t = "RArray ts"]) (auto simp: WriteArray_emit)

lemma good_map:
  assumes "ready p w" "extends ts (on_out (WriteMapHeader n) w) w'" "int (length ts) = 2 * n" "int (length ts) \<le> MaxInt64"
    "r \<noteq> Panic"
  shows "good p (r, w')"
  using assms by (intro good_extends [where t = "RMap ts"]) (auto simp: WriteMap_emit)

lemma extends_fold: "extends (map f xs) w (fold (\<lambda>x. on_out (emit (f x))) xs w)"
proof (induction xs arbitrary: w)
  case (Cons x xs)
  then show ?case by (auto intro: extends_Cons)
qed (simp add: extends_Nil)

section \<open>The table's descriptions\<close>

definition info_tree :: "Command \<Rightarrow> reply" where
  "info_tree cm =
     RArray ([RBulk (Name cm), RInteger (Arity cm), RArray (map RSimple (flag_names (Flags cm))),
        RInteger (FirstKey cm), RInteger (LastKey cm), RInteger (KeyStep cm), RArray [], RArray [], RArray [], RArray []])"

lemma writeCommandInfo_tree: "writeCommandInfo cm w = on_out (emit (info_tree cm)) w"
proof -
  have *: "fold on_out (map WriteSimpleString fs) w = on_out (fold emit (map RSimple fs)) w" for fs and w :: "'a World"
    by (induction fs arbitrary: w) (simp_all add: on_out_def write_emit)
  have tree: "emit a (emit b (emit c (emit d (emit e (emit f (emit g (fold emit fs (WriteArrayHeader n
      (emit h (emit i (WriteArrayHeader 10 y))))))))))) = emit (RArray [i, h, RArray fs, g, f, e, d, c, b, a]) y"
    if "n = int (length fs)" for a b c d e f g h i n fs y
    using that WriteArray_emit [of 10 "[i, h, RArray fs, g, f, e, d, c, b, a]" y] by (simp add: WriteArray_emit)
  show ?thesis
    by (simp add: writeCommandInfo_def write_emit Let_def * info_tree_def on_out_def tree)
qed

lemma infos_loop_ext:
  assumes "set ns \<subseteq> Name ` set commands"
  shows "\<exists>ts w'. infos_loop E ns w = (Ret (), w') \<and> length ts = length ns \<and> extends ts w w'"
  using assms
proof (induction ns arbitrary: w)
  case (Cons n ns)
  then have "n \<in> Name ` set commands" by simp
  from Lookup_registered [OF this] obtain cm where cm: "Lookup (en_lower E) n = Some cm" by blast
  from Cons obtain ts w' where "infos_loop E ns (on_out (emit (info_tree cm)) w) = (Ret (), w')" "length ts = length ns"
    "extends ts (on_out (emit (info_tree cm)) w) w'" by (metis list.set_intros(2) subset_iff)
  with cm show ?case
    by (intro exI [of _ "info_tree cm # ts"] exI [of _ w']) (auto simp: writeCommandInfo_tree intro: extends_Cons)
qed (auto simp: fin_def intro: extends_Nil)

definition doc_trees :: "Command \<Rightarrow> reply list" where
  "doc_trees cm =
     [RBulk (Name cm), RMap [RBulk ''summary'', RBulk (Summary cm), RBulk ''since'', RBulk (Since cm), RBulk ''arity'',
        RInteger (Arity cm)]]"

lemma doc_entry:
  "fold on_out
     [WriteBulkString (Name cm), WriteMapHeader 3, WriteBulkString ''summary'', WriteBulkString (Summary cm),
      WriteBulkString ''since'', WriteBulkString (Since cm), WriteBulkString ''arity'', WriteInt (Arity cm)] w
   = on_out (emit (doc_trees cm ! 1)) (on_out (emit (doc_trees cm ! 0)) w)"
proof -
  have tree: "emit a (emit b (emit c (emit d (emit e (emit f (WriteMapHeader 3 y)))))) = emit (RMap [f, e, d, c, b, a]) y"
    for a b c d e f y
    using WriteMap_emit [of "[f, e, d, c, b, a]" 3 y] by simp
  show ?thesis by (simp add: write_emit tree doc_trees_def)
qed

lemma docs_loop_ext:
  assumes "set ns \<subseteq> Name ` set commands"
  shows "\<exists>ts w'. docs_loop E ns w = (Ret (), w') \<and> length ts = 2 * length ns \<and> extends ts w w'"
  using assms
proof (induction ns arbitrary: w)
  case (Cons n ns)
  then have "n \<in> Name ` set commands" by simp
  from Lookup_registered [OF this] obtain cm where cm: "Lookup (en_lower E) n = Some cm" by blast
  let ?w = "on_out (emit (doc_trees cm ! 1)) (on_out (emit (doc_trees cm ! 0)) w)"
  from Cons obtain ts w' where "docs_loop E ns ?w = (Ret (), w')" "length ts = 2 * length ns" "extends ts ?w w'"
    by (metis list.set_intros(2) subset_iff)
  with cm show ?case
    by (intro exI [of _ "doc_trees cm ! 0 # doc_trees cm ! 1 # ts"] exI [of _ w'])
      (auto simp: doc_entry simp del: fold.simps on_out_on_out intro!: extends_Cons)
qed (auto simp: fin_def intro: extends_Nil)

lemma info_args_ext: "\<exists>ts. length ts = length ns \<and> extends ts w (info_args_loop E ns w)"
proof (induction ns arbitrary: w)
  case (Cons n ns)
  define t where "t = (case Lookup (en_lower E) n of None \<Rightarrow> RNilArray | Some cm \<Rightarrow> info_tree cm)"
  from Cons obtain ts where "length ts = length ns" "extends ts (on_out (emit t) w) (info_args_loop E ns (on_out (emit t) w))"
    by blast
  then show ?case
    by (intro exI [of _ "t # ts"])
      (auto simp: t_def writeCommandInfo_tree write_emit split: option.splits intro: extends_Cons)
qed (auto intro: extends_Nil)

section \<open>Handlers on a quiet engine\<close>

text \<open>
  What the handlers rely on: the operations of the engine and the snapshotter return or fail,
  \<open>Update\<close> panics only if the closure does, and the cursors of a \<open>Scan\<close> walk that starts at zero
  increase, up to a bound, until the walk is over.
\<close>

locale quiet_env =
  fixes E :: "('s, 'f) env" and max_cursor :: nat
  assumes get_quiet: "fst (Get (en_Store E) clk k s) \<noteq> Panic"
    and put_quiet: "fst (Put (en_Store E) clk k rec s) \<noteq> Panic"
    and delete_quiet: "fst (Delete (en_Store E) clk k s) \<noteq> Panic"
    and multi_quiet: "fst (MultiWrite (en_Store E) clk muts s) \<noteq> Panic"
    and scan_quiet: "fst (Scan (en_Store E) clk cur n fn acc s) \<noteq> Panic"
    and len_quiet: "fst (Len (en_Store E) clk s) \<noteq> Panic"
    and flush_quiet: "fst (FlushAll (en_Store E) clk s) \<noteq> Panic"
    and stats_quiet: "fst (en_StoreStats E s) \<noteq> Panic"
    and saver_quiet: "en_Saver E = Some sv \<Longrightarrow> fst (Saver_Snapshot sv clk s) \<noteq> Panic"
    and update_quiet: "(\<And>cur found. fst (upd cur found) \<noteq> Panic) \<Longrightarrow> fst (fst (Update (en_Store E) clk k upd s)) \<noteq> Panic"
    and scan_progress: "cur \<le> max_cursor \<Longrightarrow> Scan (en_Store E) clk cur n fn acc s = (Ret (nx, acc'), s') \<Longrightarrow>
      nx = 0 \<or> cur < nx \<and> nx \<le> max_cursor"
begin

lemma good_try_store:
  assumes "ready p w" "\<And>s. fst (f s) \<noteq> Panic" "\<And>x w'. ready p w' \<Longrightarrow> good p (k x w')"
  shows "good p (try_store E f k w)"
  using assms(1) assms(2) [of "wd_store w"] assms(3)
  by (auto simp: try_store_def store_call_def good_storeErr split: prod.splits res.splits)

lemma good_try_update:
  assumes "ready p w" "\<And>cur found. fst (fn cur found) \<noteq> Panic" "\<And>cp w'. ready p w' \<Longrightarrow> good p (k cp w')"
  shows "good p (try_update E clk key fn k w)"
  using assms(1) update_quiet [of fn clk key "wd_store w", OF assms(2)] assms(3)
  by (auto simp: try_update_def good_storeErr split: prod.splits res.splits)

lemmas quiet = get_quiet put_quiet delete_quiet multi_quiet scan_quiet len_quiet flush_quiet stats_quiet

lemmas reply_rules = good_try_store good_try_update good_simple good_storeErr good_emit quiet

lemma string_reads:
  assumes "ready p w"
  shows "good p (cmdGet E c w)" "good p (cmdStrlen E c w)" "good p (cmdGetRange E c w)"
  using assms
  by (auto simp: cmdGet_def cmdStrlen_def cmdGetRange_def intro!: reply_rules split: option.splits)

lemma closures_quiet:
  "fst (set_fn f v cur found) \<noteq> Panic" "fst (setnx_fn v cur found) \<noteq> Panic" "fst (getset_fn v cur found) \<noteq> Panic"
  "fst (getdel_fn cur found) \<noteq> Panic" "fst (getex_fn ex ps cur found) \<noteq> Panic" "fst (append_fn n v cur found) \<noteq> Panic"
  "fst (incr_fn d cur found) \<noteq> Panic" "fst (incrbyfloat_fn F x cur found) \<noteq> Panic" "fst (expire_fn eo at now cur found) \<noteq> Panic"
  "fst (persist_fn cur found) \<noteq> Panic" "fst (copy_fn rp rec cur found) \<noteq> Panic"
  by (simp_all add: set_fn_def setnx_fn_def getset_fn_def getdel_fn_def getex_fn_def append_fn_def incr_fn_def incrbyfloat_fn_def
      expire_fn_def persist_fn_def copy_fn_def Let_def split: option.splits)

lemma string_writes:
  assumes "ready p w"
  shows "good p (cmdSet E c w)" "good p (cmdSetNX E c w)" "good p (setWithTTL u E c w)" "good p (cmdGetSet E c w)"
    "good p (cmdGetDel E c w)" "good p (cmdGetEx E c w)" "good p (cmdMSet E c w)" "good p (cmdAppend E c w)"
  using assms
  by (auto simp: cmdSet_def cmdSetNX_def setWithTTL_def cmdGetSet_def cmdGetDel_def cmdGetEx_def cmdMSet_def cmdAppend_def Let_def
      intro!: reply_rules closures_quiet split: option.splits getex_opts.splits)

lemma number_writes:
  assumes "ready p w"
  shows "good p (incrBy d E c w)" "good p (cmdIncrByFloat E c w)"
  using assms by (auto simp: incrBy_def cmdIncrByFloat_def intro!: reply_rules closures_quiet split: option.splits)

lemma incr_cmds:
  assumes "ready p w"
  shows "good p (cmdIncr E c w)" "good p (cmdDecr E c w)" "good p (cmdIncrBy E c w)" "good p (cmdDecrBy E c w)"
    "good p (cmdSetEX E c w)" "good p (cmdPSetEX E c w)"
  using assms
  by (auto simp: cmdIncr_def cmdDecr_def cmdIncrBy_def cmdDecrBy_def cmdSetEX_def cmdPSetEX_def
      intro!: number_writes string_writes good_simple split: option.splits)

lemma msetnx_loop_good:
  assumes "ready p w" "\<And>w. ready p w \<Longrightarrow> good p (k w)"
  shows "good p (msetnx_loop E c is k w)"
  using assms by (induction "is" arbitrary: w) (auto intro!: reply_rules)

lemma mget_loop_ext:
  "\<exists>ts r w'. mget_loop E c is w = (r, w') \<and> r \<noteq> Panic \<and> length ts = length is \<and> extends ts w w'"
proof (induction "is" arbitrary: w)
  case (Cons i "is")
  obtain r s where g: "Get (en_Store E) (eclk c i) (Arg c i) (wd_store w) = (r, s)" by fastforce
  then have "r \<noteq> Panic" using get_quiet [of "eclk c i" "Arg c i" "wd_store w"] by auto
  then consider (none) "r = Ret None" | (some) rec where "r = Ret (Some rec)" | (err) e where "r = Fail e"
    by (cases r) auto
  then show ?case
  proof cases
    case none
    from Cons obtain ts r w' where "mget_loop E c is (on_out (emit RNil) (Miss (w\<lparr>wd_store := s\<rparr>))) = (r, w')" "r \<noteq> Panic"
      "length ts = length is" "extends ts (on_out (emit RNil) (Miss (w\<lparr>wd_store := s\<rparr>))) w'" by blast
    with none g show ?thesis
      by (intro exI [of _ "RNil # ts"] exI [of _ r] exI [of _ w'])
        (auto simp: store_call_def write_emit Miss_def intro: extends_Cons)
  next
    case some
    let ?w = "on_out (emit (RBulk (Value rec))) (Hit (w\<lparr>wd_store := s\<rparr>))"
    from Cons obtain ts r w' where "mget_loop E c is ?w = (r, w')" "r \<noteq> Panic" "length ts = length is" "extends ts ?w w'"
      by blast
    with some g show ?thesis
      by (intro exI [of _ "RBulk (Value rec) # ts"] exI [of _ r] exI [of _ w'])
        (auto simp: store_call_def write_emit Hit_def intro: extends_Cons)
  next
    case err
    have "extends (map (\<lambda>_. RNil) (i # is)) (w\<lparr>wd_store := s\<rparr>) (fold (\<lambda>_. on_out (emit RNil)) (i # is) (w\<lparr>wd_store := s\<rparr>))"
      by (rule extends_fold)
    then have "extends (map (\<lambda>_. RNil) (i # is)) w (fold (\<lambda>_. on_out WriteNull) (i # is) (w\<lparr>wd_store := s\<rparr>))"
      by (simp add: extends_def write_emit)
    with err g show ?thesis
      by (intro exI [of _ "map (\<lambda>_. RNil) (i # is)"]) (auto simp: store_call_def)
  qed
qed (auto intro: extends_Nil)

lemma many_keys:
  assumes "ready p w" "Args c \<noteq> []"
  shows "good p (cmdMSetNX E c w)" "good p (cmdMGet E c w)"
proof -
  show "good p (cmdMSetNX E c w)"
    using assms by (auto simp: cmdMSetNX_def intro!: msetnx_loop_good reply_rules)
  obtain ts r w' where "mget_loop E c [1..<Argc c] (on_out (WriteArrayHeader (int (Argc c) - 1)) w) = (r, w')" "r \<noteq> Panic"
    "length ts = length [1..<Argc c]" "extends ts (on_out (WriteArrayHeader (int (Argc c) - 1)) w) w'"
    using mget_loop_ext by blast
  with assms show "good p (cmdMGet E c w)"
    by (auto simp: cmdMGet_def Argc_def intro!: good_array [where ts = ts] simp: of_nat_diff Suc_le_eq)
qed

text \<open>The two handlers that may not come back: a slice out of range, and a walk that never ends.\<close>

lemma setrange_good:
  assumes "ready p w" "\<And>n. intArg c 2 = Some n \<Longrightarrow> is_i64 (n + int (length (Arg c 3)))"
  shows "good p (cmdSetRange E c w)"
proof -
  have "fst (setrange_fn n (Arg c 3) cur found) \<noteq> Panic" if "intArg c 2 = Some n" for n cur found
    using assms(2) [OF that] by (auto simp: setrange_fn_def Let_def)
  with assms(1) show ?thesis
    by (auto simp: cmdSetRange_def Let_def intro!: reply_rules split: option.splits)
qed

lemma setrange_panics:
  assumes "ready p w"
  shows "fst (cmdSetRange E c w) = Panic \<or> good p (cmdSetRange E c w)"
proof -
  have "fst (try_update E clk key fn (\<lambda>cp. IntR (c_int cp)) w) = Panic \<or> good p (try_update E clk key fn (\<lambda>cp. IntR (c_int cp)) w)"
    for clk key fn
    using assms by (auto simp: try_update_def good_storeErr good_simple split: prod.splits res.splits)
  with assms show ?thesis by (auto simp: cmdSetRange_def Let_def good_simple split: option.splits)
qed

lemma del_exists_good:
  assumes "ready p w"
  shows "good p (del_loop E c is n w)" "good p (exists_loop E c is n w)"
  using assms by (induction "is" arbitrary: n w) (auto intro!: reply_rules)

lemma key_reads:
  assumes "ready p w"
  shows "good p (cmdDel E c w)" "good p (cmdExists E c w)" "good p (cmdType E c w)" "good p (ttlCmd d E c w)"
    "good p (expireTimeCmd d E c w)" "good p (cmdDBSize E c w)" "good p (cmdRandomKey E c w)"
  using assms
  by (auto simp: cmdDel_def cmdExists_def cmdType_def ttlCmd_def expireTimeCmd_def cmdDBSize_def cmdRandomKey_def Let_def
      intro!: del_exists_good reply_rules split: option.splits)

lemma rename_good:
  assumes "ready p w" "\<And>a b w. ready p w \<Longrightarrow> good p (k a b w)"
  shows "good p (renameKey nx E c k w)"
  using assms by (auto simp: renameKey_def Let_def intro!: reply_rules closures_quiet split: option.splits)

lemma key_writes:
  assumes "ready p w"
  shows "good p (expireCmd u E c w)" "good p (cmdPersist E c w)" "good p (cmdRename E c w)" "good p (cmdRenameNX E c w)"
    "good p (cmdCopy E c w)" "good p (cmdFlush E c w)"
  using assms
  by (auto simp: expireCmd_def cmdPersist_def cmdRename_def cmdRenameNX_def cmdCopy_def cmdFlush_def Let_def
      intro!: rename_good reply_rules closures_quiet split: option.splits copy_opts.splits)

lemma write_keys_emit: "write_keys keys w = on_out (emit (RArray (map RBulk keys))) w"
proof -
  have "fold (\<lambda>k. on_out (WriteBulk (Some k))) ks v = on_out (fold emit (map RBulk ks)) v" for ks and v :: "'a World"
    by (induction ks arbitrary: v) (simp_all add: on_out_def write_emit)
  then show ?thesis by (simp add: write_keys_def WriteArray_emit del: fold_simps)
qed

lemma scan_good:
  assumes "ready p w"
  shows "good p (cmdScan E c w)"
proof -
  have pair: "emit t (emit u (WriteArrayHeader 2 y)) = emit (RArray [u, t]) y" for t u y
    using WriteArray_emit [of 2 "[u, t]" y] by simp
  from assms show ?thesis
    by (auto simp: cmdScan_def write_keys_emit write_emit pair intro!: reply_rules split: option.splits)
qed

lemma keys_loop_good:
  assumes "keys_loop E c pat i cur keys w = Some x" "ready p w"
  shows "good p x"
proof -
  have "E = E \<longrightarrow> ready p w \<longrightarrow> good p x"
  proof (rule keys_loop.raw_induct [OF _ assms(1), where P = "\<lambda>E' c pat i cur keys w x. E' = E \<longrightarrow> ready p w \<longrightarrow> good p x"])
    fix rec_call E' c pat i cur keys w x
    assume IH: "\<And>E' c pat i cur keys w x. rec_call E' c pat i cur keys w = Some x \<Longrightarrow> E' = E \<longrightarrow> ready p w \<longrightarrow> good p x"
      and step: "(case store_call (Scan (en_Store E') (eclk c i) cur 1000 (keys_fn keysScanBudget pat) keys) w of
        (Ret (nx, keys), w) \<Rightarrow>
          if length keys > keysScanBudget then Some (Err ''KEYS matched more than 1000000 keys; use SCAN instead'' w)
          else if nx = 0 then Some (Ret (), write_keys keys w)
          else rec_call E' c pat (i + 1) nx keys w
      | (Fail e, w) \<Rightarrow> Some (storeErr E' e w)
      | (Panic, w) \<Rightarrow> Some (Panic, w)) = Some x"
    show "E' = E \<longrightarrow> ready p w \<longrightarrow> good p x"
    proof (intro impI)
      assume E: "E' = E" and rdy: "ready p w"
      obtain r s where sc: "Scan (en_Store E) (eclk c i) cur 1000 (keys_fn keysScanBudget pat) keys (wd_store w) = (r, s)"
        by fastforce
      then have "r \<noteq> Panic" using scan_quiet [of "eclk c i" cur 1000 "keys_fn keysScanBudget pat" keys "wd_store w"] by auto
      moreover have "ready p (w\<lparr>wd_store := s\<rparr>)" using rdy by simp
      ultimately show "good p x"
        using step sc IH rdy good_emit [of p "w\<lparr>wd_store := s\<rparr>"]
        by (auto simp: E store_call_def write_keys_emit fin_def good_simple good_storeErr split: res.splits if_splits prod.splits)
    qed
  qed
  with assms(2) show ?thesis by simp
qed

lemma keys_loop_ends: "cur \<le> max_cursor \<Longrightarrow> \<exists>x. keys_loop E c pat i cur keys w = Some x"
proof (induction "max_cursor - cur" arbitrary: i cur keys w rule: less_induct)
  case less
  obtain r s where sc: "Scan (en_Store E) (eclk c i) cur 1000 (keys_fn keysScanBudget pat) keys (wd_store w) = (r, s)"
    by fastforce
  show ?case
  proof (cases "\<exists>nx keys'. r = Ret (nx, keys') \<and> nx \<noteq> 0")
    case True
    then obtain nx keys' where r: "r = Ret (nx, keys')" "nx \<noteq> 0" by blast
    have "nx = 0 \<or> cur < nx \<and> nx \<le> max_cursor" by (rule scan_progress [OF less.prems sc [unfolded r(1)]])
    with r(2) have nx: "cur < nx" "nx \<le> max_cursor" by auto
    then have "\<exists>x. keys_loop E c pat (i + 1) nx keys' (w\<lparr>wd_store := s\<rparr>) = Some x"
      by (intro less.hyps) auto
    with sc r show ?thesis by (subst keys_loop.simps) (auto simp: store_call_def)
  next
    case False
    with sc show ?thesis
      by (subst keys_loop.simps) (auto simp: store_call_def split: res.splits)
  qed
qed

lemma keys_good:
  assumes "ready p w"
  shows "good p (cmdKeys E c w)"
  using keys_loop_good [OF _ assms] keys_loop_ends [of 0 c "Arg c 1" 0 "[]" w] by (auto simp: cmdKeys_def)

end

section \<open>Connection and server commands\<close>

lemma good_switch:
  assumes "ready p w" "v \<in> {RESP2, RESP3}"
  shows "good p (fin (on_out (emit t) (on_out (SetVersion v) (on_conn (Proto_update (\<lambda>_. v)) w))))"
  using assms by (auto simp: good_def ready_def wf_world_def fin_def on_out_def on_conn_def SetVersion_def)

lemma hello_reply_emit: "\<exists>t. hello_reply E w = on_out (emit t) w"
proof -
  have tree: "emit a (emit b (emit c (emit d (emit e (emit f (emit g (emit h (emit i (emit j (emit k (emit l (emit m (emit n
      (WriteMapHeader 7 y)))))))))))))) = emit (RMap [n, m, l, k, j, i, h, g, f, e, d, c, b, a]) y"
    for a b c d e f g h i j k l m n y
    using WriteMap_emit [of "[n, m, l, k, j, i, h, g, f, e, d, c, b, a]" 7 y] by simp
  show ?thesis by (auto simp: hello_reply_def write_emit tree)
qed

lemma hello_loop_good:
  assumes "ready p w" "\<And>w. ready p w \<Longrightarrow> good p (k w)"
  shows "good p (hello_loop E k as w)"
  using assms
proof (induction E k as w rule: hello_loop.induct)
  case (2 E k a as w)
  then show ?case by (auto simp: Let_def intro!: good_simple split: list.splits)
qed simp

lemma hello_good:
  assumes "ready p w"
  shows "good p (cmdHello E c w)"
proof -
  have k: "good p (hello_loop E (\<lambda>w. if \<not> Authenticated (wd_conn w) then ErrCode ''NOAUTH'' msgNoAuth w
      else fin (hello_reply E (on_out (SetVersion v) (on_conn (Proto_update (\<lambda>_. v)) w)))) as w)" if v: "v \<in> {RESP2, RESP3}" for v as
  proof (rule hello_loop_good [OF assms])
    fix w :: "'a World" assume w: "ready p w"
    obtain t where "hello_reply E (on_out (SetVersion v) (on_conn (Proto_update (\<lambda>_. v)) w))
        = on_out (emit t) (on_out (SetVersion v) (on_conn (Proto_update (\<lambda>_. v)) w))" using hello_reply_emit by blast
    with good_switch [OF w v, of t] show "good p (if \<not> Authenticated (wd_conn w) then ErrCode ''NOAUTH'' msgNoAuth w
      else fin (hello_reply E (on_out (SetVersion v) (on_conn (Proto_update (\<lambda>_. v)) w))))" using w by (auto intro: good_simple)
  qed
  have "Proto (wd_conn w) \<in> {RESP2, RESP3}" using assms by (simp add: ready_def wf_world_def)
  moreover have "nat n \<in> {RESP2, RESP3}" if "Version_Valid n" for n using that by (auto simp: Version_Valid_def)
  ultimately show ?thesis
    using assms k unfolding cmdHello_def Let_def by (auto intro: good_simple split: option.splits)
qed

lemma ready_kill [simp]: "ready p (snd (KillClient i w)) = ready p w"
  by (simp add: KillClient_def)

lemma kill_loop_good: "ready p w \<Longrightarrow> good p (kill_loop E now f cns n w)"
proof (induction cns arbitrary: n w)
  case (Cons cn cns)
  have "ready p (snd (KillClient (ID cn) w))" using Cons.prems by simp
  from Cons.IH [OF this] Cons.IH [OF Cons.prems] show ?case by (auto split: prod.splits)
qed (simp add: good_simple)

lemma connection_good:
  assumes "ready p w"
  shows "good p (cmdPing E c w)" "good p (cmdEcho E c w)" "good p (cmdAuth E c w)" "good p (cmdSelect E c w)"
    "good p (cmdSwapDB E c w)" "good p (cmdQuit E c w)" "good p (cmdClient E c w)"
proof -
  show "good p (cmdPing E c w)" "good p (cmdEcho E c w)" "good p (cmdSelect E c w)" "good p (cmdSwapDB E c w)" "good p (cmdQuit E c w)"
    using assms by (auto simp: cmdPing_def cmdEcho_def cmdSelect_def cmdSwapDB_def cmdQuit_def intro!: good_simple split: option.splits)
  show "good p (cmdAuth E c w)"
    using assms by (auto simp: cmdAuth_def Let_def intro!: good_simple)
  have "good p (clientKill E c w)"
    using assms by (auto simp: clientKill_def intro!: good_simple kill_loop_good split: option.splits kill_opts.splits)
  then show "good p (cmdClient E c w)"
    using assms by (simp add: cmdClient_def Let_def good_simple)
qed

lemma reset_good:
  assumes "ready p w"
  shows "good p (cmdReset E c w)"
proof -
  let ?w = "on_conn (Authenticated_update (\<lambda>_. RequirePass (wd_cfg w) = [])) (on_conn (conn_name_update (\<lambda>_. [])) w)"
  have "ready p ?w" using assms by simp
  from good_switch [OF this, of RESP2 "RSimple ''RESET''"] show ?thesis
    by (cases w; cases "wd_conn w") (simp add: cmdReset_def SimpleString_def write_emit on_out_def on_conn_def)
qed

lemma emit2: "emit t (emit u (WriteArrayHeader 2 y)) = emit (RArray [u, t]) y"
  using WriteArray_emit [of 2 "[u, t]" y] by simp

lemma emit1: "emit t (WriteArrayHeader 1 y) = emit (RArray [t]) y"
  using WriteArray_emit [of 1 "[t]" y] by simp

lemma emit6: "emit a (emit b (emit c (emit d (emit e (emit f (WriteMapHeader 3 y)))))) = emit (RMap [f, e, d, c, b, a]) y"
  using WriteMap_emit [of "[f, e, d, c, b, a]" 3 y] by simp

lemma getkeys_good: "ready p w \<Longrightarrow> good p (commandGetKeys E c w)"
proof -
  assume rdy: "ready p w"
  have ks: "fold (\<lambda>k. on_out (WriteBulk k)) ks v = on_out (fold emit (map (\<lambda>b. case b of None \<Rightarrow> RNil | Some b \<Rightarrow> RBulk b) ks)) v"
    for ks and v :: "'a World" by (induction ks arbitrary: v) (simp_all add: on_out_def write_emit)
  show ?thesis
    using rdy unfolding commandGetKeys_def Let_def ks
    by (auto simp: WriteArray_emit intro!: good_simple good_emit split: option.splits)
qed

lemma docs_names_registered: "set (docs_names E c) \<subseteq> Name ` set commands" "length (docs_names E c) \<le> Argc c"
proof -
  have "StrToLower (en_lower E) (Arg c i) \<in> Name ` set commands" if "Lookup (en_lower E) (Arg c i) \<noteq> None" for i
    using that unfolding Lookup_def by (metis image_eqI lookup_cmd_Some not_None_eq)
  then show "set (docs_names E c) \<subseteq> Name ` set commands" by (auto simp: docs_names_def ArgLower_def)
  show "length (docs_names E c) \<le> Argc c"
    using length_filter_le [of _ "[2..<Argc c]"] by (simp add: docs_names_def) (meson diff_le_self order_trans)
qed

lemma overwrite_ready:
  assumes "ready p w"
  shows "ready p (w\<lparr>wd_names := overwrite_names (docs_names E c) (wd_names w)\<rparr>)"
proof -
  have "set (overwrite_names (docs_names E c) (wd_names w)) \<subseteq> Name ` set commands"
    using assms docs_names_registered(1) [of E c] unfolding ready_def wf_world_def overwrite_names_def
    by (auto dest!: in_set_takeD in_set_dropD)
  moreover have "length (overwrite_names (docs_names E c) (wd_names w)) = length (wd_names w)"
    by (simp add: overwrite_names_def)
  ultimately show ?thesis using assms by (auto simp: ready_def wf_world_def)
qed

lemma infos_good:
  assumes "ready p w"
  shows "good p (infos_loop E (wd_names w) (on_out (WriteArrayHeader (int (length commands))) w))"
proof -
  have n: "set (wd_names w) \<subseteq> Name ` set commands" "length (wd_names w) = length commands"
    using assms by (simp_all add: ready_def wf_world_def)
  from infos_loop_ext [OF n(1)] obtain ts w' where
    "infos_loop E (wd_names w) (on_out (WriteArrayHeader (int (length commands))) w) = (Ret (), w')"
    "length ts = length (wd_names w)" "extends ts (on_out (WriteArrayHeader (int (length commands))) w) w'" by blast
  with assms n(2) show ?thesis by (auto intro: good_array)
qed

lemma docs_good:
  assumes "ready p w" "set ns \<subseteq> Name ` set commands" "2 * int (length ns) \<le> MaxInt64"
  shows "good p (docs_loop E ns (on_out (WriteMapHeader (int (length ns))) w))"
proof -
  from docs_loop_ext [OF assms(2)] obtain ts w' where
    "docs_loop E ns (on_out (WriteMapHeader (int (length ns))) w) = (Ret (), w')"
    "length ts = 2 * length ns" "extends ts (on_out (WriteMapHeader (int (length ns))) w) w'" by blast
  with assms show ?thesis by (auto intro!: good_map [where ts = ts])
qed

lemma length_commands: "length commands = 67"
  by (simp add: commands_def registerConnection_def registerString_def registerGeneric_def registerServer_def)

lemma command_good:
  assumes "ready p w" "2 * int (Argc c) \<le> MaxInt64" "Args c \<noteq> []"
  shows "good p (cmdCommand E c w)"
proof -
  have docs: "good p (docs_loop E (docs_names E c) (on_out (WriteMapHeader (int (length (docs_names E c))))
      (w\<lparr>wd_names := overwrite_names (docs_names E c) (wd_names w)\<rparr>)))"
    using docs_names_registered [of E c] assms(2) by (intro docs_good overwrite_ready assms(1)) auto
  have docs0: "good p (docs_loop E (wd_names w) (on_out (WriteMapHeader (int (length (wd_names w)))) w))"
    using assms(1) length_commands by (intro docs_good) (auto simp: ready_def wf_world_def)
  have lst: "good p (fin (fold (\<lambda>n. on_out (WriteBulkString n)) (wd_names w) (on_out (WriteArrayHeader (int (length commands))) w)))"
    using assms(1) unfolding fin_def write_emit
    by (intro good_array [OF _ extends_fold]) (auto simp: ready_def wf_world_def)
  have args: "good p (fin (info_args_loop E (drop 2 (Args c)) (on_out (WriteArrayHeader (int (Argc c) - 2)) w)))" if "Argc c \<noteq> 1"
  proof -
    from info_args_ext obtain ts where "length ts = length (drop 2 (Args c))"
      "extends ts (on_out (WriteArrayHeader (int (Argc c) - 2)) w) (info_args_loop E (drop 2 (Args c)) (on_out (WriteArrayHeader (int (Argc c) - 2)) w))"
      by blast
    moreover have "int (Argc c) - 2 = int (length (drop 2 (Args c)))"
      using that assms(3) by (cases "Args c"; cases "tl (Args c)") (auto simp: Argc_def)
    ultimately show ?thesis using assms(1) unfolding fin_def by (auto intro: good_array)
  qed
  show ?thesis
    using assms(1) unfolding cmdCommand_def Let_def
    by (simp add: infos_good docs docs0 lst args getkeys_good good_simple split: prod.splits)
qed

lemma mutable_registered: "mutableParams u n \<noteq> None \<Longrightarrow> n \<in> set mutable_names"
  unfolding mutableParams_def mutable_names_def by (simp split: if_splits)

lemma mutable_quiet:
  assumes "mutableParams u n = Some ap"
  shows "ap cfg v \<noteq> Panic"
proof -
  have "parseBytes u v \<noteq> Panic" by (simp add: parseBytes_def Let_def split: option.splits)
  moreover have "ParseSyncPolicy v \<noteq> Panic" by (simp add: ParseSyncPolicy_def)
  ultimately show ?thesis
    using assms unfolding mutableParams_def
    by (cases "parseBytes u v"; cases "ParseSyncPolicy v") (auto split: if_splits option.splits)
qed

lemma Config_Set_ready:
  assumes "ready p w" "Config_Set u sec k v (wd_cfg w) = (r, cfg)"
  shows "r \<noteq> Panic" "ready p (w\<lparr>wd_cfg := cfg\<rparr>)"
proof -
  let ?n = "StrToLower u k"
  have "r \<noteq> Panic \<and> fst ` set (cfg_mutable cfg) \<subseteq> set mutable_names"
  proof (cases "mutableParams u ?n")
    case None
    with assms show ?thesis by (auto simp: Config_Set_def Let_def ready_def wf_world_def split: option.splits)
  next
    case (Some ap)
    have n: "?n \<in> set mutable_names" using mutable_registered Some by blast
    show ?thesis
    proof (cases "ap (wd_cfg w) v")
      case (Ret c1)
      have "cfg_mutable c1 = cfg_mutable (wd_cfg w)" using mutableParams_frame [OF Some Ret] by blast
      with assms(2) Some Ret have "r = Ret ()" "cfg_mutable cfg = AList.update ?n v (cfg_mutable (wd_cfg w))"
        by (auto simp: Config_Set_def Let_def)
      with assms(1) n show ?thesis by (simp add: dom_update ready_def wf_world_def)
    qed (use assms Some mutable_quiet [OF Some] in \<open>auto simp: Config_Set_def Let_def ready_def wf_world_def\<close>)
  qed
  then show "r \<noteq> Panic" "ready p (w\<lparr>wd_cfg := cfg\<rparr>)" using assms(1) by (auto simp: ready_def wf_world_def)
qed

lemma update_existing: "k \<in> fst ` set xs \<Longrightarrow> map fst (AList.update k v xs) = map fst xs"
  by (induction xs) auto

lemma Config_All_names:
  assumes "fst ` set (cfg_mutable cfg) \<subseteq> set mutable_names"
  shows "length (Config_All sec cfg) = length (snapshotLocked sec cfg)"
proof -
  have "fst ` set ms \<subseteq> fst ` set xs \<Longrightarrow> map fst (fold (\<lambda>(k, v). AList.update k v) ms xs) = map fst xs" for ms xs :: "(bytes \<times> bytes) list"
  proof (induction ms arbitrary: xs)
    case (Cons m ms)
    then have "map fst (AList.update (fst m) (snd m) xs) = map fst xs" by (intro update_existing) auto
    moreover from this have "fst ` set (AList.update (fst m) (snd m) xs) = fst ` set xs" by (metis set_map)
    ultimately show ?case using Cons by (auto simp: case_prod_beta)
  qed simp
  moreover have "set mutable_names \<subseteq> fst ` set (snapshotLocked sec cfg)" by (simp add: mutable_names_def snapshotLocked_def)
  then have "fst ` set (cfg_mutable cfg) \<subseteq> fst ` set (snapshotLocked sec cfg)" using assms by (rule order_trans [rotated])
  ultimately have "map fst (Config_All sec cfg) = map fst (snapshotLocked sec cfg)" unfolding Config_All_def by blast
  then show ?thesis by (rule map_eq_imp_length_eq)
qed

lemma config_set_good: "ready p w \<Longrightarrow> good p (config_set_loop E ps w)"
proof (induction ps arbitrary: w)
  case (Cons kv ps)
  obtain k v where kv: "kv = (k, v)" by fastforce
  obtain r cfg where run: "Config_Set (en_lower E) (en_seconds E) k v (wd_cfg w) = (r, cfg)" by fastforce
  from Config_Set_ready [OF Cons.prems run] Cons.IH show ?case
    by (auto simp: kv run intro: good_simple split: res.splits)
qed (simp add: good_simple)

text \<open>Iterating a map visits its entries, each once, in some order.\<close>

definition map_order :: "ctx \<Rightarrow> bool" where
  "map_order c \<longleftrightarrow> (\<forall>ms. mset (in_order (ctx_in c) ms) = mset ms)"

lemma extends_pairs:
  "extends (concat (map (\<lambda>(k, v). [RBulk k, RBulk v]) kvs)) w
     (fold (\<lambda>(k, v). on_out (WriteBulkString v) \<circ> on_out (WriteBulkString k)) kvs w)"
proof (induction kvs arbitrary: w)
  case (Cons kv kvs)
  obtain k v where kv: "kv = (k, v)" by fastforce
  from Cons [of "on_out (emit (RBulk v)) (on_out (emit (RBulk k)) w)"] show ?case
    by (auto simp: kv write_emit simp del: on_out_on_out intro!: extends_Cons)
qed (simp add: extends_Nil)

lemma config_good:
  assumes "ready p w" "map_order c"
  shows "good p (cmdConfig E c w)"
proof -
  define ms where "ms = filter (\<lambda>(k, v). list_ex (\<lambda>i. matchPattern (Arg c i) k True) [2..<Argc c])
    (Config_All (en_seconds E) (wd_cfg w))"
  have "fst ` set (cfg_mutable (wd_cfg w)) \<subseteq> set mutable_names" using assms(1) by (simp add: ready_def wf_world_def)
  then have "length (Config_All (en_seconds E) (wd_cfg w)) = 21" by (simp add: Config_All_names snapshotLocked_def)
  then have "length ms \<le> 21" unfolding ms_def by (metis length_filter_le)
  moreover have len: "length (in_order (ctx_in c) ms) = length ms" using assms(2) by (metis map_order_def size_mset)
  have "length (concat (map (\<lambda>(k, v). [RBulk k, RBulk v]) kvs)) = 2 * length kvs" for kvs :: "(bytes \<times> bytes) list"
    by (induction kvs) auto
  ultimately have get: "good p (fin (fold (\<lambda>(k, v). on_out (WriteBulkString v) \<circ> on_out (WriteBulkString k)) (in_order (ctx_in c) ms)
      (on_out (WriteMapHeader (int (length ms))) w)))"
    unfolding fin_def using len by (intro good_map [OF assms(1) extends_pairs]) auto
  show ?thesis
    using assms(1) get unfolding cmdConfig_def Let_def ms_def [symmetric]
    by (auto intro!: good_simple config_set_good split: option.splits)
qed

lemma bgsave_good: "ready p w \<Longrightarrow> good p (bgsave_cmd msg E c w)"
  by (auto simp: bgsave_cmd_def BackgroundSave_def intro: good_simple split: option.splits)

lemma server_good:
  assumes "ready p w"
  shows "good p (cmdInfo E c w)" "good p (cmdBGSave E c w)" "good p (cmdBGRewriteAOF E c w)" "good p (cmdLastSave E c w)"
    "good p (cmdTime E c w)" "good p (cmdWait E c w)" "good p (cmdFailover E c w)"
  using assms
  by (simp_all add: cmdInfo_def cmdBGSave_def cmdBGRewriteAOF_def bgsave_good cmdLastSave_def cmdTime_def cmdWait_def
      cmdFailover_def Let_def write_emit emit2 good_simple good_emit)

definition replies_once :: "('s, 'f) env \<Rightarrow> ('s, 'f) handler \<Rightarrow> bool" where
  "replies_once E h \<longleftrightarrow>
     (\<forall>p c w. ready p w \<longrightarrow> map_order c \<longrightarrow> 2 * int (Argc c) \<le> MaxInt64 \<longrightarrow> Args c \<noteq> [] \<longrightarrow> good p (h E c w))"

lemma replies_onceI:
  "(\<And>p c w. ready p w \<Longrightarrow> map_order c \<Longrightarrow> 2 * int (Argc c) \<le> MaxInt64 \<Longrightarrow> Args c \<noteq> [] \<Longrightarrow> good p (h E c w)) \<Longrightarrow> replies_once E h"
  by (simp add: replies_once_def)

context quiet_env
begin

lemma save_good:
  assumes "ready p w"
  shows "good p (cmdSave E c w)"
proof (cases "en_Saver E")
  case None
  with assms show ?thesis by (simp add: cmdSave_def env_Save_def good_simple)
next
  case (Some sv)
  obtain r s where "Saver_Snapshot sv (eclk c 0) (wd_store w) = (r, s)" by fastforce
  with assms Some saver_quiet [OF Some, of "eclk c 0" "wd_store w"] show ?thesis
    by (cases r) (simp_all add: cmdSave_def env_Save_def store_call_def good_simple)
qed

lemma engine_good:
  assumes "ready p w"
  shows "good p (cmdDebug E c w)" "good p (cmdObject E c w)" "good p (cmdMemory E c w)"
proof -
  have if_rule: "good p x \<Longrightarrow> good p y \<Longrightarrow> good p (if b then x else y)" for b and x y :: "unit res \<times> 's World" by simp
  have opt_rule: "good p (x v) \<Longrightarrow> (\<And>a. good p (y a v)) \<Longrightarrow> good p ((case b of None \<Rightarrow> x | Some a \<Rightarrow> y a) v)"
    for b :: "Record option" and v :: "'s World" and x y by (cases b) simp_all
  have opt_rule': "good p x \<Longrightarrow> (\<And>a. good p (y a)) \<Longrightarrow> good p (case b of None \<Rightarrow> x | Some a \<Rightarrow> y a)"
    for b :: "'f option" and x :: "unit res \<times> 's World" and y by (cases b) simp_all
  have app_rule: "good p (x v) \<Longrightarrow> good p (y v) \<Longrightarrow> good p ((if b then x else y) v)" for b x y and v :: "'s World" by simp
  note rules = if_rule opt_rule opt_rule' app_rule good_try_store good_simple good_emit quiet
  show "good p (cmdDebug E c w)"
    unfolding cmdDebug_def Let_def fold_simps on_out_on_out write_emit emit2 by (intro rules assms; assumption)
  show "good p (cmdObject E c w)"
    unfolding cmdObject_def Let_def fold_simps on_out_on_out write_emit emit1 by (intro rules assms; assumption)
  show "good p (cmdMemory E c w)"
    unfolding cmdMemory_def Let_def fold_simps on_out_on_out write_emit emit6 by (intro rules assms; assumption)
qed

lemmas handler_facts = string_reads string_writes incr_cmds many_keys key_reads key_writes scan_good keys_good hello_good
  connection_good reset_good command_good config_good server_good save_good engine_good

lemma handlers_once:
  "replies_once E cmdPing" "replies_once E cmdEcho" "replies_once E cmdHello" "replies_once E cmdAuth"
  "replies_once E cmdSelect" "replies_once E cmdSwapDB" "replies_once E cmdQuit" "replies_once E cmdReset"
  "replies_once E cmdClient" "replies_once E cmdGet" "replies_once E cmdSet" "replies_once E cmdSetNX"
  "replies_once E cmdSetEX" "replies_once E cmdPSetEX" "replies_once E cmdGetSet" "replies_once E cmdGetDel"
  "replies_once E cmdGetEx" "replies_once E cmdMGet" "replies_once E cmdMSet" "replies_once E cmdMSetNX"
  "replies_once E cmdAppend" "replies_once E cmdStrlen" "replies_once E cmdIncr" "replies_once E cmdDecr"
  "replies_once E cmdIncrBy" "replies_once E cmdDecrBy" "replies_once E cmdIncrByFloat" "replies_once E cmdGetRange"
  "replies_once E cmdDel" "replies_once E cmdExists" "replies_once E cmdType" "replies_once E (expireCmd u)"
  "replies_once E (ttlCmd d)" "replies_once E (expireTimeCmd d)" "replies_once E cmdPersist" "replies_once E cmdScan" "replies_once E cmdKeys"
  "replies_once E cmdRandomKey" "replies_once E cmdDBSize" "replies_once E cmdRename" "replies_once E cmdRenameNX"
  "replies_once E cmdCopy" "replies_once E cmdFlush" "replies_once E cmdInfo" "replies_once E cmdCommand"
  "replies_once E cmdConfig" "replies_once E cmdSave" "replies_once E cmdBGSave" "replies_once E cmdBGRewriteAOF"
  "replies_once E cmdLastSave" "replies_once E cmdTime" "replies_once E cmdDebug" "replies_once E cmdObject"
  "replies_once E cmdMemory" "replies_once E cmdWait" "replies_once E cmdFailover"
  by (rule replies_onceI, (rule handler_facts number_writes; assumption))+

lemma handlers_good:
  "list_all (\<lambda>(n, h). replies_once E h \<or> n \<in> {''setrange'', ''shutdown''}) handlers"
  unfolding handlers_def connection_handlers_def string_handlers_def generic_handlers_def server_handlers_def
  by (simp add: handlers_once)

lemma handler_good:
  assumes "cm \<in> set commands" "Name cm \<notin> {''setrange'', ''shutdown''}"
    "ready p w" "map_order c" "2 * int (Argc c) \<le> MaxInt64" "Args c \<noteq> []"
  shows "good p (handler_of (Name cm) E c w)"
proof -
  have "replies_once E (handler_of (Name cm))"
    using handlers_good handler_of_registered [OF assms(1), where 's = 's and 'f = 'f] assms(2) by (auto simp: list_all_iff)
  with assms(3-) show ?thesis by (simp add: replies_once_def)
qed

end

lemma handler_of_special:
  "handler_of ''setrange'' = cmdSetRange" "handler_of ''shutdown'' = cmdShutdown"
  by (simp_all add: handler_of_def handlers_def connection_handlers_def string_handlers_def generic_handlers_def server_handlers_def)

lemma shutdown_cases:
  assumes "ready p w" "cmdShutdown E c w = (r, w')"
  shows "good p (r, w') \<or> r = Ret () \<and> ready p w' \<and> closeAfterReply (wd_conn w') \<and> wd_shutdown w' \<noteq> None"
proof (cases "shutdown_options E (drop 1 (Args c)) True")
  case None
  with assms show ?thesis using good_simple(4) [OF assms(1)] by (auto simp: cmdShutdown_def)
next
  case (Some save)
  have "ready p (env_Shutdown save w)" "wd_shutdown (env_Shutdown save w) \<noteq> None"
    using assms(1) by (auto simp: env_Shutdown_def Let_def ready_def wf_world_def split: option.splits)
  moreover have "r = Ret ()" "w' = on_conn (closeAfterReply_update (\<lambda>_. True)) (env_Shutdown save w)"
    using assms(2) Some by (simp_all add: cmdShutdown_def fin_def)
  moreover have "closeAfterReply (wd_conn (on_conn (closeAfterReply_update (\<lambda>_. True)) v))"
    "wd_shutdown (on_conn f v) = wd_shutdown v" for f and v :: "'a World"
    by (simp_all add: on_conn_def)
  ultimately show ?thesis by simp
qed

lemma good_processed: "good p (r, w) \<Longrightarrow> good p (r, on_conn (Touch n t) (processed d w))"
  by (auto simp: good_def wf_world_def on_conn_def Touch_def processed_def)

section \<open>The server without persistence\<close>

text \<open>What \<open>main\<close> assembles for the memory engine without a journal.\<close>

definition cache_env :: "'j mem_env \<Rightarrow> 'f float_ops \<Rightarrow> (bytes list \<Rightarrow> 'j memstore World \<Rightarrow> bytes) \<Rightarrow> bytes \<Rightarrow> (bytes \<Rightarrow> bytes) \<Rightarrow>
    (int \<Rightarrow> int) \<Rightarrow> (gerror \<Rightarrow> bytes) \<Rightarrow> ('j memstore, 'f) env" where
  "cache_env M F info ver low secs err =
     \<lparr>en_Store = mem_store (M\<lparr>jrn := None\<rparr>), en_StoreStats = mem_Stats, en_Saver = None, en_F = F, en_Info = info,
      en_Version = ver, en_lower = low, en_seconds = secs, en_Error = err\<rparr>"

lemma cache_journal:
  "logPut (M\<lparr>jrn := None\<rparr>) k r s = (Ret 0, s)" "logDelete (M\<lparr>jrn := None\<rparr>) k s = (Ret 0, s)"
  "logBatch (M\<lparr>jrn := None\<rparr>) mu s = (Ret 0, s)" "logFlushAll (M\<lparr>jrn := None\<rparr>) s = (Ret 0, s)"
  "await (M\<lparr>jrn := None\<rparr>) n s = (Ret (), s)"
  by (simp_all add: logPut_def logDelete_def logBatch_def logFlushAll_def await_def)

lemma cache_update_quiet:
  assumes "\<And>cur found. fst (fn cur found) \<noteq> Panic"
  shows "fst (fst (mem_Update (M\<lparr>jrn := None\<rparr>) clk k fn s)) \<noteq> Panic"
proof -
  have "fn cur found \<noteq> (Panic, cp)" for cur found cp using assms by (metis fst_conv)
  then show ?thesis
    unfolding mem_Update_def Let_def
    by (simp add: sbind_def cache_journal split: prod.splits res.splits Action.splits option.splits)
qed

lemma alive_quiet: "(\<And>s. fst (f () s) \<noteq> Panic) \<Longrightarrow> fst (sbind alive f s) \<noteq> Panic"
  by (simp add: sbind_def alive_def)

lemma ret_quiet: "fst (Ret x, s) \<noteq> Panic"
  by simp

lemma cache_quiet:
  "fst (mem_Get (M\<lparr>jrn := None\<rparr>) clk k s) \<noteq> Panic" "fst (mem_Put (M\<lparr>jrn := None\<rparr>) clk k r s) \<noteq> Panic"
  "fst (mem_Delete (M\<lparr>jrn := None\<rparr>) clk k s) \<noteq> Panic" "fst (mem_MultiWrite (M\<lparr>jrn := None\<rparr>) clk mu s) \<noteq> Panic"
  "fst (mem_FlushAll (M\<lparr>jrn := None\<rparr>) clk s) \<noteq> Panic" "fst (mem_Scan (M\<lparr>jrn := None\<rparr>) clk cur n fn acc s) \<noteq> Panic"
  unfolding mem_Get_def mem_Put_def mem_Delete_def mem_MultiWrite_def mem_FlushAll_def mem_Scan_def
  by (rule alive_quiet; simp add: Let_def sbind_def cache_journal split: option.splits)+

lemma walks_quiet: "fst (mem_Len M clk s) \<noteq> Panic" "fst (mem_Stats s) \<noteq> Panic"
  unfolding mem_Len_def mem_Stats_def by (rule alive_quiet, rule ret_quiet)+

lemma scan_loop_progress:
  "scan_loop M now cnt fn nx em acc s = (nx', acc') \<Longrightarrow> nx' = 0 \<or> nx < nx' \<and> nx' \<le> shardCount"
proof (induction M now cnt fn nx em acc s rule: scan_loop.induct)
  case (1 M now cnt fn nx em acc s)
  define batch where "batch = filter (\<lambda>(k, r). \<not> Expired r now) (iter M nx (sh_m (shards s nx)))"
  obtain go acc1 where b: "scan_batch fn batch acc = (go, acc1)" by fastforce
  show ?case
  proof (cases "nx < shardCount \<and> go \<and> \<not> em + int (length batch) \<ge> cnt")
    case True
    then have "scan_loop M now cnt fn (nx + 1) (em + int (length batch)) acc1 s = (nx', acc')"
      using 1(2) b by (auto simp: scan_loop.simps [of M now cnt fn nx em acc s] batch_def Let_def)
    with 1(1) True b have "nx' = 0 \<or> nx + 1 < nx' \<and> nx' \<le> shardCount" by (auto simp: batch_def)
    then show ?thesis by auto
  next
    case False
    with 1(2) b show ?thesis
      by (auto simp: scan_loop.simps [of M now cnt fn nx em acc s] batch_def Let_def split: if_splits bool.splits)
  qed
qed

lemma mem_Scan_progress:
  assumes "cur \<le> shardCount" "mem_Scan M clk cur n fn acc s = (Ret (nx, acc'), s')"
  shows "nx = 0 \<or> cur < nx \<and> nx \<le> shardCount"
proof -
  have "i64 (int cur) = int cur" using assms(1) by (intro i64_id) (simp add: is_i64_def shardCount_def)
  then show ?thesis
    using assms(2) scan_loop_progress [where M = M and nx = cur and nx' = nx and acc' = acc']
    by (auto simp: mem_Scan_def sbind_def alive_def Let_def split: if_splits)
qed

interpretation cache: quiet_env "cache_env M F info ver low secs err" shardCount for M F info ver low secs err
  by unfold_locales
    (simp_all add: cache_env_def mem_store_def cache_quiet walks_quiet cache_update_quiet mem_Scan_progress)

text \<open>A connection just accepted by a server just started.\<close>

definition start_world :: "'s \<Rightarrow> Config \<Rightarrow> Conn \<Rightarrow> int \<Rightarrow> 's World" where
  "start_world s cfg cn now =
     \<lparr>wd_store = s, wd_stats = New_ServerStats now, wd_cfg = cfg, wd_conn = cn, wd_others = [], wd_out = NewWriter,
      wd_bgsave = False, wd_shutdown = None, wd_shutdownSave = False, wd_names = sort (map Name commands)\<rparr>"

lemma wf_start: "Proto cn = RESP2 \<Longrightarrow> cfg_mutable cfg = [] \<Longrightarrow> wf_world (start_world s cfg cn now)"
  by (simp add: wf_world_def start_world_def NewWriter_def)

text \<open>A server, a client and the inputs of a call for concrete instances.\<close>

definition demo_env :: "(unit memstore, int) env" where
  "demo_env = cache_env plain_env whole_floats (\<lambda>_ _. []) ''1.0'' id (\<lambda>d. d div 1000000000) (\<lambda>_. [])"

definition demo_conn :: Conn where
  "demo_conn = NewConn 1 ''10.0.0.1:5000'' ''10.0.0.2:6379'' True 0"

definition demo_ctx :: "bytes list \<Rightarrow> ctx" where
  "demo_ctx args =
     \<lparr>Args = args, ctx_name = [],
      ctx_in = \<lparr>in_ms = (\<lambda>_. 1000), in_clk = (\<lambda>_ _. 1000), in_now = (\<lambda>_. 1000000000), in_start = 0, in_end = 5,
                in_rand = 0, in_order = id\<rparr>\<rparr>"

lemma demo_order: "map_order (demo_ctx args)"
  by (simp add: map_order_def demo_ctx_def)

section \<open>One reply\<close>

lemma Dispatch_one_reply:
  assumes "quiet_env E n" "wf_world w" "map_order c" "2 * int (Argc c) \<le> MaxInt64" "Args c \<noteq> []"
    and "Dispatch E c w = (r, w')"
  shows "if r = Panic
         then map ascii_lower (Args c ! 0) = ''setrange'' \<and> (\<exists>off. intArg c 2 = Some off \<and> \<not> is_i64 (off + int (length (Arg c 3))))
         else wf_world w'
           \<and> ((\<exists>t. w_bw (wd_out w') = w_bw (wd_out w) @ enc (Proto (wd_conn w')) t)
              \<or> map ascii_lower (Args c ! 0) = ''shutdown'' \<and> wd_out w' = wd_out w \<and> closeAfterReply (wd_conn w')
                \<and> wd_shutdown w' \<noteq> None)"
proof -
  note E = assms(1)
  define p where "p = wd_out w"
  have rdy: "ready p w" using assms(2) by (simp add: ready_def p_def)
  have inputs: "map_order (c\<lparr>ctx_name := m\<rparr>) = map_order c" "Argc (c\<lparr>ctx_name := m\<rparr>) = Argc c"
    "intArg (c\<lparr>ctx_name := m\<rparr>) i = intArg c i" "Arg (c\<lparr>ctx_name := m\<rparr>) i = Arg c i" for m i
    by (simp_all add: map_order_def Argc_def intArg_def Arg_def)
  have goodD: "good p (r, v) \<Longrightarrow> r \<noteq> Panic \<and> wf_world v \<and> (\<exists>t. w_bw (wd_out v) = w_bw (wd_out w) @ enc (Proto (wd_conn v)) t)" for v
    by (simp add: good_def p_def)
  have name: "Name cm = map ascii_lower (Args c ! 0)" "cm \<in> set commands" if "lookupFast (Args c ! 0) = Some cm" for cm
    using lookupFast_Some [OF that] by simp_all
  have handled: "good p (r, w1)
      \<or> r = Panic \<and> Name cm = ''setrange'' \<and> (\<exists>off. intArg c 2 = Some off \<and> \<not> is_i64 (off + int (length (Arg c 3))))
      \<or> Name cm = ''shutdown'' \<and> r = Ret () \<and> ready p w1 \<and> closeAfterReply (wd_conn w1) \<and> wd_shutdown w1 \<noteq> None"
    if "lookupFast (Args c ! 0) = Some cm" "handler_of (Name cm) E (c\<lparr>ctx_name := Name cm\<rparr>) w = (r, w1)" for cm w1
  proof (cases "Name cm \<in> {''setrange'', ''shutdown''}")
    case False
    from quiet_env.handler_good [OF E name(2) [OF that(1)] False rdy, of "c\<lparr>ctx_name := Name cm\<rparr>"] assms(3-5) that(2)
    show ?thesis by (simp add: inputs)
  next
    case True
    then consider "Name cm = ''setrange''" | "Name cm = ''shutdown''" by blast
    then show ?thesis
    proof cases
      case 1
      with quiet_env.setrange_good [OF E rdy, of "c\<lparr>ctx_name := ''setrange''\<rparr>"]
        quiet_env.setrange_panics [OF E rdy, of "c\<lparr>ctx_name := ''setrange''\<rparr>"] that(2)
      show ?thesis by (auto simp: inputs handler_of_special)
    next
      case 2
      with shutdown_cases [OF rdy, of E "c\<lparr>ctx_name := ''shutdown''\<rparr>"] that(2) show ?thesis
        by (auto simp: handler_of_special)
    qed
  qed
  from assms(6) show ?thesis
  proof (cases rule: Dispatch_cases)
    case empty
    with assms(5) show ?thesis by simp
  next
    case (rejected msg)
    have "ready p (failed (rejected w))" using rdy by simp
    from good_emit [OF this, of "RError (sanitizeLine msg)"] rejected have "good p (r, w')" by (simp add: fin_def write_emit)
    from goodD [OF this] show ?thesis by auto
  next
    case (panic cm)
    with handled [OF panic(1)] name [OF panic(1)] show ?thesis by (auto simp: good_def)
  next
    case (run cm w1 d t)
    from handled [OF run(1,5)] run(2) consider "good p (r, w1)"
      | "Name cm = ''shutdown''" "ready p w1" "closeAfterReply (wd_conn w1)" "wd_shutdown w1 \<noteq> None" by blast
    then show ?thesis
    proof cases
      case 1
      from goodD [OF good_processed [OF this]] run(6) show ?thesis by simp
    next
      case 2
      then show ?thesis
        using run(2,6) name(1) [OF run(1)] by (auto simp: ready_def wf_world_def on_conn_def Touch_def processed_def p_def)
    qed
  qed
qed

text \<open>The panic leaves everything but the engine as it was.\<close>

lemma Dispatch_panic:
  assumes "quiet_env E n" "wf_world w" "map_order c" "2 * int (Argc c) \<le> MaxInt64" "Args c \<noteq> []"
    and "Dispatch E c w = (Panic, w')"
  shows "\<exists>s. w' = w\<lparr>wd_store := s\<rparr>"
proof -
  have set: "map ascii_lower (Args c ! 0) = ''setrange''" using Dispatch_one_reply [OF assms] by simp
  from assms(6) show ?thesis
  proof (cases rule: Dispatch_cases)
    case (panic cm)
    then have "cmdSetRange E (c\<lparr>ctx_name := Name cm\<rparr>) w = (Panic, w')"
      using set lookupFast_Some(2) [OF panic(1)] by (simp add: handler_of_special)
    then show ?thesis
      by (auto simp: cmdSetRange_def try_update_def storeErr_def Err_def ErrNotInteger_def IntR_def fin_def Let_def
          split: option.splits if_splits prod.splits res.splits gerror.splits)
  qed simp_all
qed

section \<open>Properties\<close>



end
