(* ===== verification/Cmd_Auth.thy ===== *)
theory Cmd_Auth
  imports Cmd_Replies
begin

text \<open>
  What a connection that has not authenticated can do: the commands flagged \<open>FlagNoAuth\<close> in the
  table leave the keyspace, the configuration and the other connections alone, and the only way
  to become authenticated is to present the password.
\<close>

lemma noauth_commands:
  assumes "cm \<in> set commands" "Has (Flags cm) FlagNoAuth"
  shows "Name cm \<in> {''hello'', ''auth'', ''quit'', ''reset'', ''command'', ''shutdown''}"
proof -
  have "list_all (\<lambda>c. Has (Flags c) FlagNoAuth \<longrightarrow> Name c \<in> {''hello'', ''auth'', ''quit'', ''reset'', ''command'', ''shutdown''}) commands"
    by code_simp
  with assms show ?thesis by (auto simp: list_all_iff)
qed

lemma noauth_handlers:
  "handler_of ''hello'' = cmdHello" "handler_of ''auth'' = cmdAuth" "handler_of ''quit'' = cmdQuit"
  "handler_of ''reset'' = cmdReset" "handler_of ''command'' = cmdCommand" "handler_of ''shutdown'' = cmdShutdown"
  by (simp_all add: handler_of_def handlers_def connection_handlers_def string_handlers_def generic_handlers_def server_handlers_def)

text \<open>What everyone else can see of a world: the keyspace, the configuration, the other clients, the save flag.\<close>

definition shared :: "'s World \<Rightarrow> 's \<times> Config \<times> Conn list \<times> bool" where
  "shared w = (wd_store w, wd_cfg w, wd_others w, wd_bgsave w)"

lemma shared_frame [simp]:
  "shared (on_out f w) = shared w" "shared (on_conn g w) = shared w" "shared (failed w) = shared w"
  "shared (rejected w) = shared w" "shared (processed d w) = shared w" "shared (w\<lparr>wd_names := ns\<rparr>) = shared w"
  "shared (env_Shutdown sv w) = shared w"
  by (simp_all add: shared_def on_out_def on_conn_def failed_def rejected_def processed_def env_Shutdown_def Let_def split: option.splits)

lemma shared_replies [simp]:
  "shared (snd (fin w)) = shared w" "shared (snd (Err m w)) = shared w" "shared (snd (ErrCode k m w)) = shared w"
  "shared (snd (ErrSyntax w)) = shared w" "shared (snd (ErrWrongArgs c w)) = shared w" "shared (snd (OK w)) = shared w"
  "shared (snd (IntR n w)) = shared w" "shared (snd (SimpleString s w)) = shared w"
  by (simp_all add: fin_def Err_def ErrCode_def ErrSyntax_def ErrWrongArgs_def OK_def IntR_def SimpleString_def)

lemma shared_folds [simp]:
  "shared (fold on_out fs w) = shared w" "shared (fold (\<lambda>x. on_out (f x)) xs w) = shared w"
  by (induction fs arbitrary: w, simp_all) (induction xs arbitrary: w, simp_all)

lemma shared_loops [simp]:
  "shared (snd (infos_loop E ns w)) = shared w" "shared (snd (docs_loop E ns w)) = shared w"
  "shared (info_args_loop E ns w) = shared w"
  by (induction ns arbitrary: w, simp_all add: writeCommandInfo_def Let_def split: option.splits)+

lemma shared_command: "shared (snd (cmdCommand E c w)) = shared w"
  unfolding cmdCommand_def commandGetKeys_def Let_def by (simp split: option.splits prod.splits)

lemma shared_hello_loop: "(\<And>w. shared (snd (k w)) = shared w) \<Longrightarrow> shared (snd (hello_loop E k as w)) = shared w"
proof (induction E k as w rule: hello_loop.induct)
  case (2 E k a as w)
  then show ?case by (auto simp: Let_def split: list.splits)
qed simp

lemma shared_hello: "shared (snd (cmdHello E c w)) = shared w"
  unfolding cmdHello_def Let_def
  by (auto simp: hello_reply_def simp del: fold_simps intro!: shared_hello_loop split: option.splits)

lemma shared_auth: "shared (snd (cmdAuth E c w)) = shared w"
  by (simp add: cmdAuth_def Let_def)

lemma shared_others:
  "shared (snd (cmdQuit E c w)) = shared w" "shared (snd (cmdReset E c w)) = shared w" "shared (snd (cmdShutdown E c w)) = shared w"
  by (simp_all add: cmdQuit_def cmdReset_def cmdShutdown_def split: option.splits)

section \<open>Becoming authenticated\<close>

definition auth :: "'s World \<Rightarrow> bool" where
  "auth w = Authenticated (wd_conn w)"

definition knows :: "bytes list \<Rightarrow> 's World \<Rightarrow> bool" where
  "knows args w \<longleftrightarrow> RequirePass (wd_cfg w) = [] \<or> RequirePass (wd_cfg w) \<in> set args"

lemma auth_frame [simp]:
  "auth (on_out f w) = auth w" "auth (failed w) = auth w" "auth (rejected w) = auth w" "auth (processed d w) = auth w"
  "auth (w\<lparr>wd_names := ns\<rparr>) = auth w" "auth (env_Shutdown sv w) = auth w"
  "auth (on_conn (Touch n t) w) = auth w" "auth (on_conn (closeAfterReply_update f1) w) = auth w"
  "auth (on_conn (conn_name_update f2) w) = auth w" "auth (on_conn (Proto_update f3) w) = auth w"
  "auth (on_conn (Authenticated_update (\<lambda>_. b)) w) = b"
  by (simp_all add: auth_def on_out_def on_conn_def failed_def rejected_def processed_def env_Shutdown_def Touch_def Let_def
      split: option.splits)

lemma auth_replies [simp]:
  "auth (snd (fin w)) = auth w" "auth (snd (Err m w)) = auth w" "auth (snd (ErrCode k m w)) = auth w"
  "auth (snd (ErrSyntax w)) = auth w" "auth (snd (ErrWrongArgs c w)) = auth w" "auth (snd (OK w)) = auth w"
  "auth (snd (IntR n w)) = auth w" "auth (snd (SimpleString s w)) = auth w"
  by (simp_all add: fin_def Err_def ErrCode_def ErrSyntax_def ErrWrongArgs_def OK_def IntR_def SimpleString_def)

lemma auth_folds [simp]:
  "auth (fold on_out fs w) = auth w" "auth (fold (\<lambda>x. on_out (f x)) xs w) = auth w"
  by (induction fs arbitrary: w, simp_all) (induction xs arbitrary: w, simp_all)

lemma auth_loops [simp]:
  "auth (snd (infos_loop E ns w)) = auth w" "auth (snd (docs_loop E ns w)) = auth w" "auth (info_args_loop E ns w) = auth w"
  by (induction ns arbitrary: w, simp_all add: writeCommandInfo_def Let_def split: option.splits)+

lemma auth_command: "auth (snd (cmdCommand E c w)) = auth w"
  unfolding cmdCommand_def commandGetKeys_def Let_def by (simp split: option.splits prod.splits)

lemma knows_frame [simp]:
  "knows args (on_conn f w) = knows args w" "knows args (on_out g w) = knows args w"
  by (simp_all add: knows_def on_conn_def on_out_def)

lemma checkPassword_knows: "checkPassword w pw \<Longrightarrow> pw \<in> set args \<Longrightarrow> knows args w"
  by (auto simp: checkPassword_def knows_def Let_def split: if_splits)

lemma auth_hello_loop:
  assumes "\<And>w. auth (snd (k w)) = auth w" "auth (snd (hello_loop E k as w))" "set as \<subseteq> set args"
  shows "auth w \<or> knows args w"
  using assms
proof (induction E k as w rule: hello_loop.induct)
  case (2 E k a as w)
  then show ?case
    by (auto simp: Let_def checkPassword_knows split: if_splits list.splits)
qed simp

lemma auth_hello: "auth (snd (cmdHello E c w)) \<Longrightarrow> auth w \<or> knows (Args c) w"
proof -
  assume a: "auth (snd (cmdHello E c w))"
  have k: "auth w \<or> knows (Args c) w" if "auth (snd (hello_loop E (\<lambda>w. if \<not> Authenticated (wd_conn w) then ErrCode ''NOAUTH'' msgNoAuth w
      else fin (hello_reply E (on_out (SetVersion v) (on_conn (Proto_update (\<lambda>_. v)) w)))) as w))" "set as \<subseteq> set (Args c)" for v as
    using that by (intro auth_hello_loop [OF _ that]) (simp add: hello_reply_def del: fold_simps)
  show ?thesis
    using a k [where as = "drop 2 (Args c)"] k [where as = "drop 1 (Args c)"]
    unfolding cmdHello_def Let_def by (simp add: set_drop_subset split: if_splits option.splits)
qed

lemma auth_auth: "auth (snd (cmdAuth E c w)) \<Longrightarrow> auth w \<or> knows (Args c) w"
proof -
  have "knows (Args c) w" if "checkPassword w (Arg c i)" "i < Argc c" for i
    using that by (intro checkPassword_knows [OF that(1)]) (simp add: Arg_def Argc_def)
  then show "auth (snd (cmdAuth E c w)) \<Longrightarrow> auth w \<or> knows (Args c) w"
    by (auto simp: cmdAuth_def Let_def split: if_splits)
qed

lemma auth_others:
  "auth (snd (cmdQuit E c w)) = auth w" "auth (snd (cmdReset E c w)) \<Longrightarrow> knows (Args c) w" "auth (snd (cmdShutdown E c w)) = auth w"
  by (simp_all add: cmdQuit_def cmdReset_def cmdShutdown_def knows_def split: option.splits)

section \<open>Seeing the keyspace\<close>

text \<open>The same world over another keyspace, and an action that cannot tell the two apart.\<close>

definition over :: "'s \<Rightarrow> 's World \<Rightarrow> 's World" where
  "over s w = w\<lparr>wd_store := s\<rparr>"

definition shift :: "'s \<Rightarrow> 'a \<times> 's World \<Rightarrow> 'a \<times> 's World" where
  "shift s x = (fst x, over s (snd x))"

definition blind :: "('s World, 'a) action \<Rightarrow> bool" where
  "blind f \<longleftrightarrow> (\<forall>s w. f (over s w) = shift s (f w))"

lemma over_frame [simp]:
  "on_out f (over s w) = over s (on_out f w)" "on_conn g (over s w) = over s (on_conn g w)"
  "failed (over s w) = over s (failed w)" "rejected (over s w) = over s (rejected w)"
  "processed d (over s w) = over s (processed d w)" "env_Shutdown sv (over s w) = over s (env_Shutdown sv w)"
  "(over s w)\<lparr>wd_names := ns\<rparr> = over s (w\<lparr>wd_names := ns\<rparr>)" "wd_names (over s w) = wd_names w" "wd_conn (over s w) = wd_conn w"
  "wd_cfg (over s w) = wd_cfg w" "fin (over s w) = shift s (fin w)"
  by (simp_all add: over_def on_out_def on_conn_def failed_def rejected_def processed_def env_Shutdown_def Let_def fin_def
      shift_def split: option.splits)

lemma shift_Pair [simp]: "shift s (r, w) = (r, over s w)"
  by (simp add: shift_def)

lemma over_replies [simp]:
  "Err m (over s w) = shift s (Err m w)" "ErrCode k m (over s w) = shift s (ErrCode k m w)"
  "ErrSyntax (over s w) = shift s (ErrSyntax w)" "ErrWrongArgs c (over s w) = shift s (ErrWrongArgs c w)"
  "OK (over s w) = shift s (OK w)" "IntR n (over s w) = shift s (IntR n w)"
  "SimpleString t (over s w) = shift s (SimpleString t w)"
  by (simp_all add: Err_def ErrCode_def ErrSyntax_def ErrWrongArgs_def OK_def IntR_def SimpleString_def)

lemma over_folds [simp]:
  "fold on_out fs (over s w) = over s (fold on_out fs w)"
  "fold (\<lambda>x. on_out (f x)) xs (over s w) = over s (fold (\<lambda>x. on_out (f x)) xs w)"
  by (induction fs arbitrary: w, simp_all) (induction xs arbitrary: w, simp_all)

lemma over_loops [simp]:
  "infos_loop E ns (over s w) = shift s (infos_loop E ns w)"
  "docs_loop E ns (over s w) = shift s (docs_loop E ns w)"
  "info_args_loop E ns (over s w) = over s (info_args_loop E ns w)"
  by (induction ns arbitrary: w, simp_all add: writeCommandInfo_def Let_def split: option.splits)+

lemma over_hello_loop:
  "(\<And>w. k (over s w) = shift s (k w)) \<Longrightarrow> hello_loop E k as (over s w) = shift s (hello_loop E k as w)"
proof (induction E k as w rule: hello_loop.induct)
  case (2 E k a as w)
  then show ?case by (auto simp: Let_def checkPassword_def split: list.splits)
qed simp

lemma blind_hello: "blind (cmdHello E c)"
  unfolding cmdHello_def blind_def Let_def over_frame
  by (auto simp: hello_reply_def over_hello_loop simp del: fold_simps split: option.splits)

lemma blind_others:
  "blind (cmdCommand E c)" "blind (cmdAuth E c)" "blind (cmdQuit E c)" "blind (cmdReset E c)" "blind (cmdShutdown E c)"
  unfolding blind_def cmdCommand_def commandGetKeys_def cmdAuth_def cmdQuit_def cmdReset_def cmdShutdown_def checkPassword_def Let_def
  by (simp_all split: option.splits prod.splits)

section \<open>Properties\<close>



end
