(* ===== verification/Cmd_Keyspace.thy ===== *)
theory Cmd_Keyspace
  imports Cmd_Auth
begin

text \<open>
  What the commands do to the keyspace. The handlers reach the engine only through the Store
  interface, so their effect is proved once for every engine that keeps the contract, and holds
  of the memory engine with and without the log.
\<close>

section \<open>Worlds with the same keyspace\<close>

lemma store_frame [simp]:
  "wd_store (on_out f w) = wd_store w" "wd_store (on_conn g w) = wd_store w" "wd_store (failed w) = wd_store w"
  "wd_store (rejected w) = wd_store w" "wd_store (processed d w) = wd_store w" "wd_store (Hit w) = wd_store w"
  "wd_store (Miss w) = wd_store w" "wd_store (env_Shutdown sv w) = wd_store w" "wd_store (snd (KillClient i w)) = wd_store w"
  by (simp_all add: on_out_def on_conn_def failed_def rejected_def processed_def Hit_def Miss_def env_Shutdown_def KillClient_def
      Let_def split: option.splits)

lemma store_replies [simp]:
  "wd_store (snd (fin w)) = wd_store w" "wd_store (snd (Err m w)) = wd_store w" "wd_store (snd (ErrCode k m w)) = wd_store w"
  "wd_store (snd (ErrSyntax w)) = wd_store w" "wd_store (snd (ErrNotInteger w)) = wd_store w"
  "wd_store (snd (ErrWrongArgs c w)) = wd_store w" "wd_store (snd (OK w)) = wd_store w" "wd_store (snd (IntR n w)) = wd_store w"
  "wd_store (snd (SimpleString t w)) = wd_store w" "wd_store (snd (Bulk b w)) = wd_store w"
  "wd_store (snd (BulkString t w)) = wd_store w" "wd_store (snd (Null w)) = wd_store w" "wd_store (snd (BoolR x w)) = wd_store w"
  "wd_store (snd (storeErr E e w)) = wd_store w"
  by (simp_all add: fin_def Err_def ErrCode_def ErrSyntax_def ErrNotInteger_def ErrWrongArgs_def OK_def IntR_def SimpleString_def
      Bulk_def BulkString_def Null_def BoolR_def storeErr_def split: gerror.splits)

lemma store_folds [simp]:
  "wd_store (fold on_out fs w) = wd_store w" "wd_store (fold (\<lambda>x. on_out (f x)) xs w) = wd_store w"
  "wd_store (fold (\<lambda>(k, v). on_out (g v) \<circ> on_out (h k)) kvs w) = wd_store w"
  by (induction fs arbitrary: w, simp_all, induction xs arbitrary: w, simp_all, induction kvs arbitrary: w, simp_all add: case_prod_beta)

lemma store_kill_loop [simp]: "wd_store (snd (kill_loop E now f cns n w)) = wd_store w"
proof (induction cns arbitrary: n w)
  case (Cons cn cns)
  have "wd_store (snd (KillClient (ID cn) w)) = wd_store w" by simp
  with Cons show ?case by (auto simp: case_prod_beta)
qed simp

lemma store_config_set [simp]: "wd_store (snd (config_set_loop E ps w)) = wd_store w"
proof (induction ps arbitrary: w)
  case (Cons kv ps)
  then show ?case by (cases kv) (auto split: prod.splits res.splits)
qed simp

text \<open>The handlers that do not reach the engine.\<close>

lemma store_untouched:
  "wd_store (snd (cmdPing E c w)) = wd_store w" "wd_store (snd (cmdEcho E c w)) = wd_store w"
  "wd_store (snd (cmdHello E c w)) = wd_store w" "wd_store (snd (cmdAuth E c w)) = wd_store w"
  "wd_store (snd (cmdSelect E c w)) = wd_store w" "wd_store (snd (cmdQuit E c w)) = wd_store w"
  "wd_store (snd (cmdReset E c w)) = wd_store w" "wd_store (snd (cmdClient E c w)) = wd_store w"
  "wd_store (snd (cmdInfo E c w)) = wd_store w" "wd_store (snd (cmdCommand E c w)) = wd_store w"
  "wd_store (snd (cmdConfig E c w)) = wd_store w" "wd_store (snd (bgsave_cmd msg E c w)) = wd_store w"
  "wd_store (snd (cmdLastSave E c w)) = wd_store w" "wd_store (snd (cmdShutdown E c w)) = wd_store w"
  "wd_store (snd (cmdTime E c w)) = wd_store w" "wd_store (snd (cmdWait E c w)) = wd_store w"
  "wd_store (snd (cmdFailover E c w)) = wd_store w"
proof -
  have sh: "shared x = shared y \<Longrightarrow> wd_store x = wd_store y" for x y :: "'a World" by (simp add: shared_def)
  show "wd_store (snd (cmdHello E c w)) = wd_store w" "wd_store (snd (cmdAuth E c w)) = wd_store w"
    "wd_store (snd (cmdQuit E c w)) = wd_store w" "wd_store (snd (cmdReset E c w)) = wd_store w"
    "wd_store (snd (cmdCommand E c w)) = wd_store w" "wd_store (snd (cmdShutdown E c w)) = wd_store w"
    by (rule sh, simp add: shared_hello shared_auth shared_others shared_command)+
  show "wd_store (snd (cmdPing E c w)) = wd_store w" "wd_store (snd (cmdEcho E c w)) = wd_store w"
    "wd_store (snd (cmdSelect E c w)) = wd_store w" "wd_store (snd (cmdLastSave E c w)) = wd_store w"
    "wd_store (snd (cmdTime E c w)) = wd_store w" "wd_store (snd (cmdWait E c w)) = wd_store w"
    "wd_store (snd (cmdFailover E c w)) = wd_store w" "wd_store (snd (cmdInfo E c w)) = wd_store w"
    by (simp_all add: cmdPing_def cmdEcho_def cmdSelect_def cmdLastSave_def cmdTime_def cmdWait_def cmdFailover_def cmdInfo_def
        Let_def del: fold_simps split: option.splits)
  show "wd_store (snd (cmdClient E c w)) = wd_store w"
    by (simp add: cmdClient_def clientKill_def Let_def split: option.splits kill_opts.splits)
  show "wd_store (snd (cmdConfig E c w)) = wd_store w"
    by (simp add: cmdConfig_def Let_def split: option.splits prod.splits)
  show "wd_store (snd (bgsave_cmd msg E c w)) = wd_store w"
    by (simp add: bgsave_cmd_def BackgroundSave_def split: option.splits)
qed

text \<open>
  A keyspace no reader can tell from \<open>K\<close> from time \<open>T\<close> on, and clock readings that do not go back
  during a call and are not later than \<open>T\<close>.
\<close>

definition same :: "('s \<Rightarrow> bool) \<Rightarrow> ('s \<Rightarrow> keyspace) \<Rightarrow> int \<Rightarrow> keyspace \<Rightarrow> 's \<Rightarrow> bool" where
  "same I A T K s \<longleftrightarrow> I s \<and> agree T (A s) K"

definition clocks :: "int \<Rightarrow> ctx \<Rightarrow> bool" where
  "clocks T c \<longleftrightarrow> (\<forall>i. in_clk (ctx_in c) i 0 \<le> in_clk (ctx_in c) i 1 \<and> in_clk (ctx_in c) i 1 \<le> T)"

lemma clocks_name [simp]: "clocks T (c\<lparr>ctx_name := n\<rparr>) = clocks T c"
  by (simp add: clocks_def)

text \<open>The commands the table flags as writes.\<close>

definition write_names :: "bytes list" where
  "write_names =
     [''swapdb'', ''set'', ''setnx'', ''setex'', ''psetex'', ''getset'', ''getdel'', ''getex'', ''mset'', ''msetnx'', ''append'',
      ''incr'', ''decr'', ''incrby'', ''decrby'', ''incrbyfloat'', ''setrange'', ''del'', ''unlink'', ''expire'', ''pexpire'',
      ''expireat'', ''pexpireat'', ''persist'', ''rename'', ''renamenx'', ''copy'', ''flushdb'', ''flushall'']"

lemma write_flag:
  assumes "cm \<in> set commands"
  shows "Has (Flags cm) FlagWrite \<longleftrightarrow> Name cm \<in> set write_names"
proof -
  have "list_all (\<lambda>c. Has (Flags c) FlagWrite \<longleftrightarrow> Name c \<in> set write_names) commands" by code_simp
  with assms show ?thesis by (auto simp: list_all_iff)
qed

section \<open>Handlers over an engine\<close>

text \<open>
  Besides the store contract: a \<open>Scan\<close> and the statistics change nothing, and a snapshot keeps the
  keyspace.
\<close>

locale command_store = store_contract S inv abs for S :: "'s store" and inv :: "'s \<Rightarrow> bool" and abs :: "'s \<Rightarrow> keyspace" +
  fixes E :: "('s, 'f) env"
  assumes engine: "en_Store E = S"
    and scan_law: "inv s \<Longrightarrow> Scan S clk cur n fn acc s = (rs, s') \<Longrightarrow> s' = s"
    and stats_law: "inv s \<Longrightarrow> en_StoreStats E s = (rt, s') \<Longrightarrow> s' = s"
    and snapshot_law: "en_Saver E = Some sv \<Longrightarrow> inv s \<Longrightarrow> Saver_Snapshot sv clk s = (r, s') \<Longrightarrow> inv s' \<and> abs s' = abs s"
begin

abbreviation ok :: "int \<Rightarrow> keyspace \<Rightarrow> 's World \<Rightarrow> bool" where
  "ok T K w \<equiv> same inv abs T K (wd_store w)"

lemma ok_get:
  assumes "ok T K w" "clocks T c" "\<And>x w'. ok T K w' \<Longrightarrow> ok T K (snd (k x w'))"
  shows "ok T K (snd (try_store E (Get (en_Store E) (eclk c i) key) k w))"
proof -
  obtain r s where g: "Get S (eclk c i) key (wd_store w) = (r, s)" by fastforce
  have clk: "eclk c i 0 \<le> eclk c i 1" "eclk c i 1 \<le> T" using assms(2) by (simp_all add: clocks_def)
  with get_law [OF _ g] assms(1) have "same inv abs T K s"
    unfolding same_def by (meson agree_later agree_trans)
  then show ?thesis using assms(3) by (cases r) (simp_all add: try_store_def store_call_def engine g)
qed

lemma ok_scan:
  assumes "ok T K w" "\<And>x w'. ok T K w' \<Longrightarrow> ok T K (snd (k x w'))"
  shows "ok T K (snd (try_store E (Scan (en_Store E) clk cur n fn acc) k w))"
proof -
  obtain r s where g: "Scan S clk cur n fn acc (wd_store w) = (r, s)" by fastforce
  with scan_law [OF _ g] assms(1) have "same inv abs T K s" by (simp add: same_def)
  then show ?thesis using assms(2) by (cases r) (simp_all add: try_store_def store_call_def engine g)
qed

lemma ok_len:
  assumes "ok T K w" "\<And>x w'. ok T K w' \<Longrightarrow> ok T K (snd (k x w'))"
  shows "ok T K (snd (try_store E (Len (en_Store E) clk) k w))"
proof -
  obtain r s where g: "Len S clk (wd_store w) = (r, s)" by fastforce
  with len_law [OF _ g] assms(1) have "same inv abs T K s" by (simp add: same_def)
  then show ?thesis using assms(2) by (cases r) (simp_all add: try_store_def store_call_def engine g)
qed

lemma ok_stats:
  assumes "ok T K w" "\<And>x w'. ok T K w' \<Longrightarrow> ok T K (snd (k x w'))"
  shows "ok T K (snd (try_store E (en_StoreStats E) k w))"
proof -
  obtain r s where g: "en_StoreStats E (wd_store w) = (r, s)" by fastforce
  with stats_law [OF _ g] assms(1) have "same inv abs T K s" by (simp add: same_def)
  then show ?thesis using assms(2) by (cases r) (simp_all add: try_store_def store_call_def g)
qed

lemma get_same:
  assumes "ok T K w" "clocks T c" "Get S (eclk c i) key (wd_store w) = (r, s)"
  shows "same inv abs T K s"
proof -
  have clk: "eclk c i 0 \<le> eclk c i 1" "eclk c i 1 \<le> T" using assms(2) by (simp_all add: clocks_def)
  with get_law [OF _ assms(3)] assms(1) show ?thesis unfolding same_def by (meson agree_later agree_trans)
qed

lemma mget_ok: "ok T K w \<Longrightarrow> clocks T c \<Longrightarrow> ok T K (snd (mget_loop E c is w))"
proof (induction "is" arbitrary: w)
  case (Cons i "is")
  obtain r s where g: "Get S (eclk c i) (Arg c i) (wd_store w) = (r, s)" by fastforce
  have "same inv abs T K s" by (rule get_same [OF Cons.prems g])
  with Cons.IH Cons.prems(2) show ?case
    by (auto simp: store_call_def engine g simp del: fold_simps split: res.splits option.splits)
qed simp

lemma exists_ok: "ok T K w \<Longrightarrow> clocks T c \<Longrightarrow> ok T K (snd (exists_loop E c is n w))"
  by (induction "is" arbitrary: n w) (auto intro!: ok_get)

lemma reads_ok:
  assumes "ok T K w" "clocks T c"
  shows "ok T K (snd (cmdGet E c w))" "ok T K (snd (cmdMGet E c w))" "ok T K (snd (cmdStrlen E c w))"
    "ok T K (snd (cmdGetRange E c w))" "ok T K (snd (cmdExists E c w))" "ok T K (snd (cmdType E c w))"
    "ok T K (snd (ttlCmd d E c w))" "ok T K (snd (expireTimeCmd d E c w))"
  using assms
  by (auto simp: cmdGet_def cmdMGet_def cmdStrlen_def cmdGetRange_def cmdExists_def cmdType_def ttlCmd_def expireTimeCmd_def Let_def
      intro!: ok_get mget_ok exists_ok split: option.splits)

lemma walks_ok:
  assumes "ok T K w" "clocks T c"
  shows "ok T K (snd (cmdScan E c w))" "ok T K (snd (cmdRandomKey E c w))" "ok T K (snd (cmdDBSize E c w))"
  using assms
  by (auto simp: cmdScan_def cmdRandomKey_def cmdDBSize_def write_keys_def Let_def intro!: ok_scan ok_len split: option.splits)

lemma keys_loop_ok:
  assumes "keys_loop E c pat i cur keys w = Some x" "ok T K w"
  shows "ok T K (snd x)"
proof -
  have "E = E \<longrightarrow> ok T K w \<longrightarrow> ok T K (snd x)"
  proof (rule keys_loop.raw_induct [OF _ assms(1), where P = "\<lambda>E' c pat i cur keys w x. E' = E \<longrightarrow> ok T K w \<longrightarrow> ok T K (snd x)"])
    fix rec_call E' c pat i cur keys w x
    assume IH: "\<And>E' c pat i cur keys w x. rec_call E' c pat i cur keys w = Some x \<Longrightarrow> E' = E \<longrightarrow> ok T K w \<longrightarrow> ok T K (snd x)"
      and step: "(case store_call (Scan (en_Store E') (eclk c i) cur 1000 (keys_fn keysScanBudget pat) keys) w of
        (Ret (nx, keys), w) \<Rightarrow>
          if length keys > keysScanBudget then Some (Err ''KEYS matched more than 1000000 keys; use SCAN instead'' w)
          else if nx = 0 then Some (Ret (), write_keys keys w)
          else rec_call E' c pat (i + 1) nx keys w
      | (Fail e, w) \<Rightarrow> Some (storeErr E' e w)
      | (Panic, w) \<Rightarrow> Some (Panic, w)) = Some x"
    show "E' = E \<longrightarrow> ok T K w \<longrightarrow> ok T K (snd x)"
    proof (intro impI)
      assume E: "E' = E" and ok: "ok T K w"
      obtain r s where sc: "Scan S (eclk c i) cur 1000 (keys_fn keysScanBudget pat) keys (wd_store w) = (r, s)" by fastforce
      with scan_law [OF _ sc] ok have "ok T K (w\<lparr>wd_store := s\<rparr>)" by (simp add: same_def)
      with step sc IH show "ok T K (snd x)"
        by (auto simp: E engine store_call_def write_keys_def split: res.splits if_splits prod.splits)
    qed
  qed
  with assms(2) show ?thesis by simp
qed

lemma keys_ok: "ok T K w \<Longrightarrow> ok T K (snd (cmdKeys E c w))"
  using keys_loop_ok by (auto simp: cmdKeys_def split: option.splits)

lemma save_ok: "ok T K w \<Longrightarrow> ok T K (snd (cmdSave E c w))"
  using snapshot_law
  by (auto simp: cmdSave_def env_Save_def store_call_def same_def split: option.splits prod.splits res.splits)

lemma diagnostics_ok:
  assumes "ok T K w" "clocks T c"
  shows "ok T K (snd (cmdDebug E c w))" "ok T K (snd (cmdObject E c w))" "ok T K (snd (cmdMemory E c w))"
proof -
  have if_rule: "ok T K (snd x) \<Longrightarrow> ok T K (snd y) \<Longrightarrow> ok T K (snd (if b then x else y))" for b and x y :: "unit res \<times> 's World" by simp
  have opt_rule: "ok T K (snd (x v)) \<Longrightarrow> (\<And>a. ok T K (snd (y a v))) \<Longrightarrow> ok T K (snd ((case b of None \<Rightarrow> x | Some a \<Rightarrow> y a) v))"
    for b :: "Record option" and v :: "'s World" and x :: "'s World \<Rightarrow> unit res \<times> 's World" and y by (cases b) simp_all
  have opt_rule': "ok T K (snd x) \<Longrightarrow> (\<And>a. ok T K (snd (y a))) \<Longrightarrow> ok T K (snd (case b of None \<Rightarrow> x | Some a \<Rightarrow> y a))"
    for b :: "'f option" and x :: "unit res \<times> 's World" and y by (cases b) simp_all
  have app_rule: "ok T K (snd (x v)) \<Longrightarrow> ok T K (snd (y v)) \<Longrightarrow> ok T K (snd ((if b then x else y) v))"
    for b and x y :: "'s World \<Rightarrow> unit res \<times> 's World" and v by simp
  note rules = if_rule opt_rule opt_rule' app_rule ok_get ok_stats
  show "ok T K (snd (cmdDebug E c w))"
    unfolding cmdDebug_def Let_def using assms by (intro rules) (simp_all del: fold_simps)
  show "ok T K (snd (cmdObject E c w))"
    unfolding cmdObject_def Let_def using assms by (intro rules) (simp_all del: fold_simps)
  show "ok T K (snd (cmdMemory E c w))"
    unfolding cmdMemory_def Let_def using assms by (intro rules) (simp_all del: fold_simps)
qed

definition reader :: "('s, 'f) handler \<Rightarrow> bool" where
  "reader h \<longleftrightarrow> (\<forall>T K c w. ok T K w \<longrightarrow> clocks T c \<longrightarrow> ok T K (snd (h E c w)))"

lemma readers:
  "reader cmdPing" "reader cmdEcho" "reader cmdHello" "reader cmdAuth" "reader cmdSelect" "reader cmdQuit"
  "reader cmdReset" "reader cmdClient" "reader cmdGet" "reader cmdMGet" "reader cmdStrlen" "reader cmdGetRange"
  "reader cmdExists" "reader cmdType" "reader (ttlCmd d)" "reader (expireTimeCmd d)" "reader cmdKeys" "reader cmdScan"
  "reader cmdRandomKey" "reader cmdDBSize" "reader cmdInfo" "reader cmdCommand" "reader cmdConfig" "reader cmdSave"
  "reader cmdBGSave" "reader cmdBGRewriteAOF" "reader cmdLastSave" "reader cmdShutdown" "reader cmdTime"
  "reader cmdDebug" "reader cmdObject" "reader cmdMemory" "reader cmdWait" "reader cmdFailover"
  by (simp_all add: reader_def store_untouched reads_ok walks_ok keys_ok save_ok diagnostics_ok cmdBGSave_def cmdBGRewriteAOF_def)

lemma handlers_readers: "list_all (\<lambda>(n, h). reader h \<or> n \<in> set write_names) handlers"
  unfolding handlers_def connection_handlers_def string_handlers_def generic_handlers_def server_handlers_def write_names_def
  by (simp add: readers)

lemma handler_reader:
  assumes "cm \<in> set commands" "\<not> Has (Flags cm) FlagWrite"
  shows "reader (handler_of (Name cm))"
  using handlers_readers handler_of_registered [OF assms(1), where 's = 's and 'f = 'f] write_flag [OF assms(1)] assms(2)
  by (auto simp: list_all_iff)

lemma Dispatch_reader:
  assumes "Dispatch E c w = (r, w')" "ok T K w" "clocks T c"
    and "\<And>cm. lookupFast (Args c ! 0) = Some cm \<Longrightarrow> \<not> Has (Flags cm) FlagWrite"
  shows "ok T K w'"
proof -
  have ran: "ok T K (snd (handler_of (Name cm) E (c\<lparr>ctx_name := Name cm\<rparr>) w))" if "lookupFast (Args c ! 0) = Some cm" for cm
    using handler_reader [OF lookupFast_Some(1) [OF that] assms(4) [OF that]] assms(2,3) unfolding reader_def by simp
  from assms(1) show ?thesis
  proof (cases rule: Dispatch_cases)
    case (panic cm)
    from ran [OF panic(1)] panic(5) show ?thesis by simp
  next
    case (run cm w1 d t)
    from ran [OF run(1)] run(5,6) show ?thesis by simp
  qed (use assms(2) in simp_all)
qed

end

section \<open>The durable server\<close>

text \<open>What \<open>main\<close> assembles for the memory engine behind the log: the engine is its own snapshotter.\<close>

definition durable_env :: "persist_opt \<Rightarrow> pstate mem_env \<Rightarrow> snap_io \<Rightarrow> 'f float_ops \<Rightarrow> (bytes list \<Rightarrow> Engine World \<Rightarrow> bytes) \<Rightarrow> bytes \<Rightarrow>
    (bytes \<Rightarrow> bytes) \<Rightarrow> (int \<Rightarrow> int) \<Rightarrow> (gerror \<Rightarrow> bytes) \<Rightarrow> (Engine, 'f) env" where
  "durable_env P M sio F info ver low secs err =
     \<lparr>en_Store = mem_store (M\<lparr>jrn := Some (persist_journal P)\<rparr>), en_StoreStats = mem_Stats,
      en_Saver = Some \<lparr>Saver_Snapshot = Engine_Snapshot P M sio, Saver_LastSnapshot = (\<lambda>e. LastSnapshot (jst e))\<rparr>, en_F = F,
      en_Info = info, en_Version = ver, en_lower = low, en_seconds = secs, en_Error = err\<rparr>"

lemma Engine_Snapshot_frame: "Engine_Snapshot P M sio clk e = (r, e') \<Longrightarrow> e' = e\<lparr>jst := jst e'\<rparr>"
  by (auto simp: Engine_Snapshot_def Let_def split: res.splits prod.splits option.splits)

lemma jst_frame: "mem_inv M (e\<lparr>jst := j\<rparr>) = mem_inv M e" "view M (e\<lparr>jst := j\<rparr>) = view M e"
  by (simp_all add: mem_inv_def view_def fun_eq_iff)

interpretation durable: command_store "mem_store (M\<lparr>jrn := Some (persist_journal P)\<rparr>)" "mem_ok (M\<lparr>jrn := Some (persist_journal P)\<rparr>)"
  "view (M\<lparr>jrn := Some (persist_journal P)\<rparr>)" "durable_env P M sio F info ver low secs err" for P M sio F info ver low secs err
proof (unfold_locales, goal_cases)
  case 1
  then show ?case by (simp add: durable_env_def)
next
  case (2 s clk cur n fn acc rs s')
  then show ?case by (auto simp: mem_store_def mem_Scan_def sbind_def alive_def Let_def split: if_splits)
next
  case (3 s rt s')
  then show ?case by (auto simp: durable_env_def mem_Stats_def sbind_def alive_def split: if_splits)
next
  case (4 sv s clk r s')
  then have "s' = s\<lparr>jst := jst s'\<rparr>" by (auto simp: durable_env_def intro: Engine_Snapshot_frame)
  with 4(2) show ?case by (metis jst_frame)
qed

section \<open>Writes without a log\<close>

lemma cache_update_result:
  fixes M :: "'j mem_env" and clk :: clock and k :: bytes and s :: "'j memstore" and fn :: UpdateFunc
  assumes "\<not> isDead s"
  defines "cur \<equiv> live (clk 0) (view (M\<lparr>jrn := None\<rparr>) s) k"
  defines "called \<equiv> fn (case cur of None \<Rightarrow> zero_record | Some x \<Rightarrow> x) (cur \<noteq> None)"
  shows "fst (fst (mem_Update (M\<lparr>jrn := None\<rparr>) clk k fn s)) = (case fst called of Ret _ \<Rightarrow> Ret () | Fail e \<Rightarrow> Fail e | Panic \<Rightarrow> Panic)"
proof -
  let ?M = "M\<lparr>jrn := None\<rparr>"
  let ?cur = "map_of (sh_m (shards s (shardFor ?M k))) k"
  have cur: "cur = (if (case ?cur of Some r \<Rightarrow> Expired r (clk 0) | None \<Rightarrow> False) then None else ?cur)"
    by (simp add: cur_def live_def view_def split: option.splits)
  obtain x cp where called: "called = (x, cp)" by fastforce
  then have fn: "fn (case cur of None \<Rightarrow> zero_record | Some x \<Rightarrow> x) (cur \<noteq> None) = (x, cp)" by (simp add: called_def)
  show ?thesis
    using assms(1) fn
    by (auto simp: mem_Update_def Let_def cur [symmetric] called sbind_def cache_journal
        split: res.splits Action.splits option.splits prod.splits)
qed

lemma cache_update_dead: "isDead (snd (mem_Update (M\<lparr>jrn := None\<rparr>) clk k fn s)) = isDead s"
  unfolding mem_Update_def Let_def
  by (simp add: sbind_def cache_journal split: prod.splits res.splits Action.splits option.splits)

lemma cache_try_update:
  fixes w :: "'j memstore World" and M :: "'j mem_env" and clk :: clock and key :: bytes and fn :: UpdateFunc
  assumes "mem_inv (M\<lparr>jrn := None\<rparr>) (wd_store w)" "\<not> isDead (wd_store w)"
  defines "K \<equiv> view (M\<lparr>jrn := None\<rparr>) (wd_store w)"
  defines "cur \<equiv> live (clk 0) K key"
  defines "called \<equiv> fn (case cur of None \<Rightarrow> zero_record | Some x \<Rightarrow> x) (cur \<noteq> None)"
  obtains s' where "try_update (cache_env M F info ver low secs err) clk key fn k w
      = (case fst called of
           Ret _ \<Rightarrow> k (snd called) (w\<lparr>wd_store := s'\<rparr>)
         | Fail e \<Rightarrow> storeErr (cache_env M F info ver low secs err) e (w\<lparr>wd_store := s'\<rparr>)
         | Panic \<Rightarrow> (Panic, w\<lparr>wd_store := s'\<rparr>))"
    "mem_inv (M\<lparr>jrn := None\<rparr>) s'" "agree (clk 0) (view (M\<lparr>jrn := None\<rparr>) s') (update_result K key (fst called))" "\<not> isDead s'"
proof -
  obtain r cp s' where run: "mem_Update (M\<lparr>jrn := None\<rparr>) clk key fn (wd_store w) = ((r, cp), s')" by (metis prod.collapse)
  from mem_Update_cases [OF assms(1,2) run, folded K_def, folded cur_def, folded called_def]
  have inv: "mem_inv (M\<lparr>jrn := None\<rparr>) s'" and cp: "cp = Some (snd called)" by simp_all
  have r: "r = (case fst called of Ret _ \<Rightarrow> Ret () | Fail e \<Rightarrow> Fail e | Panic \<Rightarrow> Panic)"
    using cache_update_result [OF assms(2), of M clk key fn] run by (simp add: called_def cur_def K_def)
  have "view (M\<lparr>jrn := None\<rparr>) s' = update_result (K(key := cur)) key (fst called)"
    using mem_Update_cases [OF assms(1,2) run, folded K_def, folded cur_def, folded called_def] r
    by (cases "fst called") (simp_all add: update_result_def)
  moreover have "agree (clk 0) (K(key := cur)) K" unfolding cur_def by (rule agree_reclaim)
  ultimately have "agree (clk 0) (view (M\<lparr>jrn := None\<rparr>) s') (update_result K key (fst called))"
    by (simp add: agree_update_result)
  moreover have "try_update (cache_env M F info ver low secs err) clk key fn k w
      = (case fst called of
           Ret _ \<Rightarrow> k (snd called) (w\<lparr>wd_store := s'\<rparr>)
         | Fail e \<Rightarrow> storeErr (cache_env M F info ver low secs err) e (w\<lparr>wd_store := s'\<rparr>)
         | Panic \<Rightarrow> (Panic, w\<lparr>wd_store := s'\<rparr>))"
    using r cp run by (cases "fst called") (simp_all add: try_update_def cache_env_def mem_store_def)
  moreover have "\<not> isDead s'" using cache_update_dead [of M clk key fn "wd_store w"] run assms(2) by simp
  ultimately show ?thesis using inv that by blast
qed

lemma dec_digits_lead: "dec_digits n ! 0 = CHR ''0'' \<Longrightarrow> length (dec_digits n) = 1"
proof (induction n rule: dec_digits.induct)
  case (1 n)
  show ?case
  proof (cases "n < 10")
    case True
    then show ?thesis by (simp add: dec_digits.simps [of n])
  next
    case False
    have ne: "dec_digits (n div 10) \<noteq> []" by simp
    from 1(2) False have lead: "dec_digits (n div 10) ! 0 = CHR ''0''"
      by (simp add: dec_digits.simps [of n] nth_append ne)
    with 1(1) False have "length (dec_digits (n div 10)) = 1" by blast
    with lead have "dec_digits (n div 10) = ''0''" by (cases "dec_digits (n div 10)") auto
    then have "n div 10 = 0" using dec_digits_props(1) [of "n div 10"] by (simp add: dec_val_def digit_val_def)
    with False show ?thesis by simp
  qed
qed

lemma parseStrictInt_FormatInt:
  assumes "is_i64 n"
  shows "parseStrictInt (FormatInt n) = Some n"
proof -
  have len: "length (FormatInt n) \<le> 20" by (rule length_FormatInt_i64 [OF assms])
  have ne: "dec_digits m \<noteq> []" for m by simp
  have sign: "dec_digits m ! 0 \<noteq> CHR ''-''" for m
    using dec_digits_props(2) [of m] ne [of m] by (cases "dec_digits m") (auto simp: all_digits_def isdigit_def)
  show ?thesis
  proof (cases "n < 0")
    case True
    have "\<not> (dec_digits (nat (- n)) ! 0 = CHR ''0'' \<and> length (dec_digits (nat (- n))) > 1)"
      using dec_digits_lead [of "nat (- n)"] by auto
    moreover have "ParseInt (CHR ''-'' # dec_digits (nat (- n))) = Some n"
      using ParseInt_FormatInt [OF assms] True by (simp add: FormatInt_def)
    ultimately show ?thesis using True len by (auto simp: parseStrictInt_def FormatInt_def parseInt_ParseInt Let_def)
  next
    case False
    have "\<not> (dec_digits (nat n) ! 0 = CHR ''0'' \<and> length (dec_digits (nat n)) > 1)" using dec_digits_lead [of "nat n"] by auto
    with False len sign show ?thesis
      using ParseInt_FormatInt [OF assms] by (auto simp: parseStrictInt_def FormatInt_def parseInt_ParseInt Let_def)
  qed
qed

lemma ParseInt_i64: "ParseInt s = Some n \<Longrightarrow> is_i64 n"
  by (auto simp: ParseInt_def is_i64_def Let_def split: if_splits list.splits)

lemma parseStrictInt_i64: "parseStrictInt s = Some n \<Longrightarrow> is_i64 n"
  by (auto simp: parseStrictInt_def parseInt_ParseInt Let_def intro: ParseInt_i64 split: if_splits option.splits)

lemma incr_fn_exact:
  assumes "is_i64 d" "(if found then parseStrictInt (Value cur) else Some 0) = Some n"
  shows "incr_fn d cur found =
    (if is_i64 (n + d) then (Ret (\<lparr>Value = FormatInt (n + d), ExpireAt = ExpireAt cur\<rparr>, ActionPut), caps0\<lparr>c_int := n + d\<rparr>)
     else (Fail IncrOverflow, caps0))"
proof -
  have n: "is_i64 n" using assms(2) by (auto simp: is_i64_def dest: parseStrictInt_i64 split: if_splits)
  have "is_i64 (MaxInt64 - d)" if "d > 0" using that assms(1) by (simp add: is_i64_def)
  moreover have "is_i64 (MinInt64 - d)" if "d < 0" using that assms(1) by (simp add: is_i64_def)
  ultimately have "(d > 0 \<and> n > i64 (MaxInt64 - d) \<or> d < 0 \<and> n < i64 (MinInt64 - d)) \<longleftrightarrow> \<not> is_i64 (n + d)"
    using n assms(1) by (auto simp: is_i64_def)
  then show ?thesis unfolding incr_fn_def assms(2) Let_def by auto
qed

section \<open>Properties\<close>



text \<open>
  C30: A command the table does not flag as a write leaves the keyspace as it was, whatever its
  arguments and its outcome; this covers every lookup, scan, expiry query, diagnostic, \<open>SAVE\<close> and
  \<open>CONFIG\<close>, unknown commands and rejected ones. Reclaiming expired records is the only change.
\<close>

theorem readers_keep_the_keyspace:
  fixes M :: "pstate mem_env" and P :: persist_opt
  defines "M1 \<equiv> M\<lparr>jrn := Some (persist_journal P)\<rparr>"
  assumes "mem_ok M1 (wd_store w)" "clocks T c"
    and "Dispatch (durable_env P M sio F info ver low secs err) c w = (r, w')"
    and "\<forall>cm. lookupFast (Args c ! 0) = Some cm \<longrightarrow> \<not> Has (Flags cm) FlagWrite"
  shows "mem_ok M1 (wd_store w') \<and> agree T (view M1 (wd_store w')) (view M1 (wd_store w))"
proof -
  have "same (mem_ok M1) (view M1) T (view M1 (wd_store w)) (wd_store w)" using assms(2) by (simp add: same_def)
  from durable.Dispatch_reader [OF assms(4) this [unfolded M1_def] assms(3)] assms(5)
  have "same (mem_ok M1) (view M1) T (view M1 (wd_store w)) (wd_store w')" unfolding M1_def by blast
  then show ?thesis by (simp add: same_def)
qed

theorem readers_keep_the_keyspace_witness:
  "\<exists>e. view calm_mem e = [''k'' \<mapsto> \<lparr>Value = ''v'', ExpireAt = 0\<rparr>]
     \<and> agree 1000
         (view calm_mem (wd_store (snd (Dispatch (durable_env calm_opt calm_mem snap_calm whole_floats (\<lambda>_ _. []) [] id id (\<lambda>_. []))
            (demo_ctx [''KEYS'', ''*'']) (start_world e Default demo_conn 0)))))
         [''k'' \<mapsto> \<lparr>Value = ''v'', ExpireAt = 0\<rparr>]"
proof -
  obtain e where e: "lives calm_opt calm_mem 0 e" "view calm_mem e = [''k'' \<mapsto> \<lparr>Value = ''v'', ExpireAt = 0\<rparr>]" by (rule one_write)
  let ?E = "durable_env calm_opt calm_mem snap_calm whole_floats (\<lambda>_ _. []) [] id id (\<lambda>_. [])"
  let ?c = "demo_ctx [''KEYS'', ''*'']" and ?w = "start_world e Default demo_conn 0"
  obtain r w' where run: "Dispatch ?E ?c ?w = (r, w')" by fastforce
  have M: "calm_mem\<lparr>jrn := Some (persist_journal calm_opt)\<rparr> = calm_mem" by (simp add: calm_mem_def)
  have "mem_ok calm_mem (wd_store ?w)" using lives_tied [OF e(1)] by (simp add: engine_env_def start_world_def)
  moreover have "clocks 1000 ?c" by (simp add: clocks_def demo_ctx_def)
  moreover have low: "map ascii_lower ''KEYS'' = ''keys''" by code_simp
  have "\<not> Has (Flags cm) FlagWrite" if "lookupFast (Args ?c ! 0) = Some cm" for cm
  proof -
    have "Name cm = map ascii_lower ''KEYS''" using lookupFast_Some(2) [OF that] by (simp only: demo_ctx_def ctx.simps nth_Cons_0)
    then show ?thesis unfolding low write_flag [OF lookupFast_Some(1) [OF that]] by (simp add: write_names_def)
  qed
  ultimately have "agree 1000 (view calm_mem (wd_store w')) (view calm_mem (wd_store ?w))"
    using readers_keep_the_keyspace [where M = calm_mem and P = calm_opt, unfolded M, OF _ _ run] by blast
  with e(2) run show ?thesis by (intro exI [of _ e]) (simp add: start_world_def)
qed

text \<open>
  C32: A value stored with \<open>SET key value PX n\<close> is what \<open>GET\<close> returns at every moment before \<open>n\<close>
  milliseconds have passed and never after, counting from the time the command read the clock.
\<close>

theorem SET_PX_expires_on_time:
  fixes w :: "'j memstore World" and M :: "'j mem_env"
  defines "M0 \<equiv> M\<lparr>jrn := None\<rparr>"
  assumes "mem_ok M0 (wd_store w)" "\<not> isDead (wd_store w)"
    and "Args c = [''SET'', k, v, ''PX'', FormatInt n]" "0 < n" "0 \<le> NowMs c 0" "is_i64 (NowMs c 0 + n)"
    and "cmdSet (cache_env M F info ver low secs err) c w = (r, w1)"
    and "Args c' = [''GET'', k]" "in_clk (ctx_in c) 0 0 \<le> in_clk (ctx_in c') 0 0" "in_clk (ctx_in c') 0 0 \<le> in_clk (ctx_in c') 0 1"
    and "cmdGet (cache_env M F info ver low secs err) c' w1 = (r', w2)"
  shows "wd_out w1 = emit (RSimple ''OK'') (wd_out w)
    \<and> wd_out w2 = emit (if in_clk (ctx_in c') 0 0 < NowMs c 0 + n then RBulk v else RNil) (wd_out w1)"
proof -
  let ?E = "cache_env M F info ver low secs err"
  let ?f = "setFlags0\<lparr>sf_hasExp := True, sf_expireAt := NowMs c 0 + n\<rparr>"
  have n: "is_i64 n" "is_i64 (NowMs c 0)" using assms(5-7) by (simp_all add: is_i64_def)
  have args: "Argc c = 5" "Arg c 1 = k" "Arg c 2 = v" "Arg c 3 = ''PX''" "Arg c 4 = FormatInt n" "Arg c' 1 = k"
    using assms(4,9) by (simp_all add: Argc_def Arg_def)
  have px: "StrToLower u ''PX'' = ''px''" for u by code_simp
  have "addClamped (NowMs c 0) n = NowMs c 0 + n"
    using assms(5-7) n by (simp add: addClamped_def is_i64_def)
  then have "absoluteExpiry ''px'' n (NowMs c 0) = Some (NowMs c 0 + n)" by (simp add: absoluteExpiry_def)
  then have opts: "parseSetOptions ?E c 3 = Some ?f"
    using n by (simp add: parseSetOptions_def set_options.simps [of ?E c _ 3] set_options.simps [of ?E c _ 5] args ArgLower_def px intArg_def setFlags0_def Let_def)
  have "indexOfExpiryValue ?E c = 4" by (simp add: indexOfExpiryValue_def args ArgLower_def px)
  then have set: "cmdSet ?E c w = try_update ?E (eclk c 0) k (set_fn ?f v) (\<lambda>cp.
      if sf_get ?f then (if \<not> c_found cp then Null else Bulk (c_prev cp)) else if \<not> c_wrote cp then Null else OK) w"
    unfolding cmdSet_def args opts using n assms(5) by (simp add: intArg_def args)
  let ?now = "eclk c 0 0" and ?t = "eclk c' 0 0" and ?rec = "\<lparr>Value = v, ExpireAt = NowMs c 0 + n\<rparr>"
  define K where "K = view M0 (wd_store w)"
  let ?ans = "(Ret (?rec, ActionPut), caps0\<lparr>c_wrote := True\<rparr>)"
  have called: "set_fn ?f v = (\<lambda>cur found. ?ans)" by (simp add: fun_eq_iff set_fn_def setFlags0_def)
  let ?k = "\<lambda>cp. if sf_get ?f then (if \<not> c_found cp then Null else Bulk (c_prev cp)) else if \<not> c_wrote cp then Null else OK"
  obtain s' where s0: "try_update ?E (eclk c 0) k (\<lambda>cur found. ?ans) ?k w =
      (case fst ?ans of Ret _ \<Rightarrow> ?k (snd ?ans) (w\<lparr>wd_store := s'\<rparr>) | Fail e \<Rightarrow> storeErr ?E e (w\<lparr>wd_store := s'\<rparr>)
        | Panic \<Rightarrow> (Panic, w\<lparr>wd_store := s'\<rparr>))"
    and s1: "mem_inv M0 s'" "agree ?now (view M0 s') (update_result K k (fst ?ans))" and dead: "\<not> isDead s'"
    unfolding K_def M0_def by (rule cache_try_update [OF assms(2) [THEN conjunct2, unfolded M0_def] assms(3)])
  have "cmdSet ?E c w = OK (w\<lparr>wd_store := s'\<rparr>)" unfolding set called s0 by (simp add: setFlags0_def)
  moreover have "agree ?now (view M0 s') (K(k \<mapsto> ?rec))" using s1(2) by (simp add: update_result_def)
  ultimately have s': "cmdSet ?E c w = OK (w\<lparr>wd_store := s'\<rparr>)" "mem_inv M0 s'" "agree ?now (view M0 s') (K(k \<mapsto> ?rec))"
    using s1(1) by blast+
  then have w1: "wd_store w1 = s'" "wd_out w1 = emit (RSimple ''OK'') (wd_out w)"
    using assms(8) by (auto simp: OK_def fin_def on_out_def WriteSimpleString_emit)
  have lv: "live ?t (view M0 s') k = (if ?t < NowMs c 0 + n then Some ?rec else None)"
    using agree_live [OF s'(3) assms(10)] assms(5,6) by (simp add: live_upd Expired_def)
  obtain g s2 where g: "mem_Get M0 (eclk c' 0) k s' = (g, s2)" by fastforce
  have "mem_ok M0 s'" using assms(2) s'(2) by simp
  from mem.get_law [OF this, of "eclk c' 0" k g s2] g assms(11) have "\<forall>x. g = Ret x \<longrightarrow> x = live ?t (view M0 s') k"
    by (simp add: mem_store_def)
  moreover have "\<exists>x. g = Ret x" using g dead by (auto simp: mem_Get_def sbind_def alive_def Let_def split: option.splits if_splits)
  ultimately have "g = Ret (if ?t < NowMs c 0 + n then Some ?rec else None)" using lv by auto
  moreover have "store_call (Get (en_Store ?E) (eclk c' 0) k) w1 = (g, w1\<lparr>wd_store := s2\<rparr>)"
    using g w1(1) by (simp add: store_call_def cache_env_def mem_store_def M0_def)
  ultimately have "wd_out w2 = emit (if ?t < NowMs c 0 + n then RBulk v else RNil) (wd_out w1)"
    using assms(12) unfolding cmdGet_def args try_store_def
    by (auto simp: Null_def Bulk_def fin_def on_out_def Hit_def Miss_def WriteNull_emit WriteBulk_emit split: if_splits)
  with w1(2) show ?thesis by blast
qed

theorem SET_PX_expires_on_time_witness:
  "(let w1 = snd (cmdSet demo_env (demo_ctx [''SET'', ''k'', ''v'', ''PX'', FormatInt 500]) (start_world (New ()) Default demo_conn 0));
        seen = (\<lambda>t. wd_out (snd (cmdGet demo_env ((demo_ctx [''GET'', ''k''])\<lparr>ctx_in := (ctx_in (demo_ctx []))\<lparr>in_clk := (\<lambda>_ _. t)\<rparr>\<rparr>) w1)))
    in seen 1499 = emit (RBulk ''v'') (emit (RSimple ''OK'') NewWriter)
       \<and> seen 1500 = emit RNil (emit (RSimple ''OK'') NewWriter))"
proof -
  let ?c = "demo_ctx [''SET'', ''k'', ''v'', ''PX'', FormatInt 500]" and ?w = "start_world (New ()) Default demo_conn 0"
  let ?c' = "\<lambda>t. (demo_ctx [''GET'', ''k''])\<lparr>ctx_in := (ctx_in (demo_ctx []))\<lparr>in_clk := (\<lambda>_ _. t)\<rparr>\<rparr>"
  obtain r w1 where run: "cmdSet demo_env ?c ?w = (r, w1)" by fastforce
  have st: "wd_store ?w = New ()" "wd_out ?w = NewWriter" by (simp_all add: start_world_def)
  have init: "mem_ok (plain_env\<lparr>jrn := None\<rparr>) (wd_store ?w)" "\<not> isDead (wd_store ?w)" by (simp_all add: st mem_inv_New env_ok_def plain_env_def)
  have c: "Args ?c = [''SET'', ''k'', ''v'', ''PX'', FormatInt 500]" "NowMs ?c 0 = 1000" "in_clk (ctx_in ?c) 0 0 = 1000"
    by (simp_all add: demo_ctx_def NowMs_def)
  have c': "Args (?c' t) = [''GET'', ''k'']" "in_clk (ctx_in (?c' t)) 0 i = t" for t i by (simp_all add: demo_ctx_def)
  have "wd_out (snd (cmdGet demo_env (?c' t) w1)) = emit (if t < 1500 then RBulk ''v'' else RNil) (emit (RSimple ''OK'') NewWriter)"
    if "1000 \<le> t" for t
  proof -
    obtain r' w2 where run': "cmdGet demo_env (?c' t) w1 = (r', w2)" by fastforce
    have "wd_out w1 = emit (RSimple ''OK'') (wd_out ?w)
        \<and> wd_out w2 = emit (if in_clk (ctx_in (?c' t)) 0 0 < NowMs ?c 0 + 500 then RBulk ''v'' else RNil) (wd_out w1)"
      by (rule SET_PX_expires_on_time [OF init c(1) _ _ _ run [unfolded demo_env_def] c'(1) _ _ run' [unfolded demo_env_def]])
        (simp_all only: c c', simp_all add: is_i64_def that)
    with run' show ?thesis by (simp add: c c' st)
  qed
  with run show ?thesis by simp
qed

end
