(* ===== verification/Bufio_Writer.thy ===== *)
theory Bufio_Writer
  imports GoStd "HOL-Library.Sublist"
begin

text \<open>
  Go's \<open>bufio.Writer\<close> on top of a socket, as the reply writer of \<open>src/internal/resp/writer.go\<close> uses
  it. \<open>ob_sent\<close> is what the kernel has accepted, \<open>ob_buf\<close> the buffer, and \<open>ob_err\<close> whether the writer
  has failed, which is permanent. The network is a function: \<open>net i = None\<close> when the \<open>i\<close>-th write
  on the socket is accepted whole, \<open>net i = Some k\<close> when it fails after \<open>k\<close> bytes.
\<close>

section \<open>The writer\<close>

record out =
  ob_buf :: bytes
  ob_sent :: bytes
  ob_err :: bool
  ob_n :: nat

type_synonym network = "nat \<Rightarrow> nat option"

definition accepted :: "network \<Rightarrow> bytes \<Rightarrow> out \<Rightarrow> nat" where
  "accepted net p b = (case net (ob_n b) of None \<Rightarrow> length p | Some k \<Rightarrow> min k (length p))"

definition sock_Write :: "network \<Rightarrow> bytes \<Rightarrow> out \<Rightarrow> out" where
  "sock_Write net p b =
     b\<lparr>ob_sent := ob_sent b @ take (accepted net p b) p, ob_err := net (ob_n b) \<noteq> None, ob_n := Suc (ob_n b)\<rparr>"

definition bw_Flush :: "network \<Rightarrow> out \<Rightarrow> out" where
  "bw_Flush net b =
     (if ob_err b \<or> ob_buf b = [] then b
      else (sock_Write net (ob_buf b) b)\<lparr>ob_buf := drop (accepted net (ob_buf b) b) (ob_buf b)\<rparr>)"

text \<open>
  \<open>Write\<close>, \<open>WriteString\<close> and \<open>WriteByte\<close>: while the bytes do not fit, an empty buffer is bypassed and
  a partly filled one is filled up and flushed.
\<close>

function bw_Write :: "nat \<Rightarrow> network \<Rightarrow> bytes \<Rightarrow> out \<Rightarrow> out" where
  "bw_Write N net p b =
     (if ob_err b then b
      else if length p > N - length (ob_buf b) then
        if ob_buf b = [] then bw_Write N net (drop (accepted net p b) p) (sock_Write net p b)
        else
          let n = N - length (ob_buf b)
          in bw_Write N net (drop n p) (bw_Flush net (b\<lparr>ob_buf := ob_buf b @ take n p\<rparr>))
      else b\<lparr>ob_buf := ob_buf b @ p\<rparr>)"
  by auto
termination
proof (relation "measure (\<lambda>(N, net, p, b). if ob_err b then 0 else 1 + length p + length (ob_buf b))", goal_cases)
  case (2 N net p b)
  then show ?case by (cases "net (ob_n b)") (auto simp: sock_Write_def accepted_def)
next
  case (3 N net p b n)
  have "0 < length (ob_buf b)" using 3 by (simp only: length_greater_0_conv simp_thms)
  then have "length p - n < length p + length (ob_buf b)" by linarith
  with 3 show ?case by (cases "net (ob_n b)") (auto simp: bw_Flush_def sock_Write_def accepted_def)
qed simp

declare bw_Write.simps [simp del]

text \<open>
  A reply handed to the writer in several calls: the cut points say where one call ends and the
  next one begins.
\<close>

fun chop :: "nat list \<Rightarrow> bytes \<Rightarrow> bytes list" where
  "chop [] p = [p]"
| "chop (n # ns) p = take n p # chop ns (drop n p)"

definition bw_Writes :: "nat \<Rightarrow> network \<Rightarrow> nat list \<Rightarrow> bytes \<Rightarrow> out \<Rightarrow> out" where
  "bw_Writes N net cuts p b = fold (bw_Write N net) (chop cuts p) b"

section \<open>Nothing is lost, nothing is reordered\<close>

lemma concat_chop [simp]: "concat (chop ns p) = p"
  by (induction ns p rule: chop.induct) auto

text \<open>
  \<open>H\<close> is everything handed to the writer so far: the socket has got a prefix of it and, without a
  failure, the buffer holds exactly the rest.
\<close>

definition carries :: "bytes \<Rightarrow> out \<Rightarrow> bool" where
  "carries H b \<longleftrightarrow> prefix (ob_sent b) H \<and> (\<not> ob_err b \<longrightarrow> ob_sent b @ ob_buf b = H)"

lemma carries_flush:
  assumes "carries H b"
  shows "carries H (bw_Flush net b)"
proof (cases "net (ob_n b)")
  case (Some k)
  with assms show ?thesis
    by (auto simp: carries_def bw_Flush_def sock_Write_def accepted_def take_is_prefix)
qed (use assms in \<open>auto simp: carries_def bw_Flush_def sock_Write_def accepted_def\<close>)

lemma bw_Flush_ok:
  assumes "\<not> ob_err (bw_Flush net b)"
  shows "ob_buf (bw_Flush net b) = []"
  using assms by (auto simp: bw_Flush_def sock_Write_def accepted_def)

lemma bw_Write_err [simp]: "ob_err b \<Longrightarrow> bw_Write N net p b = b"
  by (simp add: bw_Write.simps)

lemma bw_Write_fits:
  "\<not> ob_err b \<Longrightarrow> length p \<le> N - length (ob_buf b) \<Longrightarrow> bw_Write N net p b = b\<lparr>ob_buf := ob_buf b @ p\<rparr>"
  by (simp add: bw_Write.simps)

lemma carries_fill: "carries H b \<Longrightarrow> carries (H @ p) (b\<lparr>ob_buf := ob_buf b @ p\<rparr>)"
  by (auto simp: carries_def)

lemma carries_direct:
  assumes "carries H b" "ob_buf b = []" "\<not> ob_err b"
  shows "carries (H @ take (accepted net p b) p) (sock_Write net p b)"
  using assms by (auto simp: carries_def sock_Write_def)

lemma carries_more: "carries H b \<Longrightarrow> ob_err b \<Longrightarrow> carries (H @ p) b"
  by (auto simp: carries_def)

lemma carries_Write: "carries H b \<Longrightarrow> carries (H @ p) (bw_Write N net p b)"
proof (induction N net p b arbitrary: H rule: bw_Write.induct)
  case (1 N net p b)
  let ?n = "N - length (ob_buf b)"
  consider "ob_err b" | "\<not> ob_err b" "length p \<le> ?n" | "\<not> ob_err b" "length p > ?n" "ob_buf b = []"
    | "\<not> ob_err b" "length p > ?n" "ob_buf b \<noteq> []" by linarith
  then show ?case
  proof cases
    case 3
    from "1.IH"(1) [OF 3 carries_direct [OF "1.prems" 3(3,1)]] 3 show ?thesis
      by (simp add: bw_Write.simps [of N net p b])
  next
    case 4
    from "1.IH"(2) [OF 4 refl carries_flush [OF carries_fill [OF "1.prems"]]] 4 show ?thesis
      by (simp add: bw_Write.simps [of N net p b] Let_def)
  qed (use "1.prems" in \<open>simp_all add: carries_more bw_Write_fits carries_fill\<close>)
qed

lemma carries_fold: "carries H b \<Longrightarrow> carries (H @ concat ps) (fold (bw_Write N net) ps b)"
proof (induction ps arbitrary: H b)
  case (Cons p ps)
  from Cons.IH [OF carries_Write [OF Cons.prems, of p N net]] show ?case by simp
qed simp

lemma carries_Writes: "carries H b \<Longrightarrow> carries (H @ p) (bw_Writes N net cuts p b)"
  using carries_fold [of H b "chop cuts p" N net] by (simp add: bw_Writes_def)

section \<open>When bytes reach the socket\<close>

lemma sent_Flush: "prefix (ob_sent b) (ob_sent (bw_Flush net b))"
  by (simp add: bw_Flush_def sock_Write_def)

lemma sent_Write: "prefix (ob_sent b) (ob_sent (bw_Write N net p b))"
proof (induction N net p b rule: bw_Write.induct)
  case (1 N net p b)
  have d: "prefix (ob_sent b) (ob_sent (sock_Write net p b))" by (simp add: sock_Write_def)
  have f: "prefix (ob_sent b) (ob_sent (bw_Flush net (b\<lparr>ob_buf := x\<rparr>)))" for x
    using sent_Flush [of "b\<lparr>ob_buf := x\<rparr>" net] by simp
  show ?case
    using 1 d f by (auto simp: bw_Write.simps [of N net p b] Let_def intro: prefix_order.trans)
qed

lemma sent_Writes: "prefix (ob_sent b) (ob_sent (bw_Writes N net cuts p b))"
proof -
  have "prefix (ob_sent b) (ob_sent (fold (bw_Write N net) ps b))" for ps
    by (induction ps arbitrary: b) (auto intro: prefix_order.trans sent_Write)
  then show ?thesis by (simp add: bw_Writes_def)
qed

text \<open>Replies that fit the buffer stay in it until the next flush.\<close>

lemma fold_Write_fits:
  "\<not> ob_err b \<Longrightarrow> length (ob_buf b) + length (concat ps) \<le> N \<Longrightarrow> fold (bw_Write N net) ps b = b\<lparr>ob_buf := ob_buf b @ concat ps\<rparr>"
proof (induction ps arbitrary: b)
  case (Cons p ps)
  then have "bw_Write N net p b = b\<lparr>ob_buf := ob_buf b @ p\<rparr>" by (simp add: bw_Write_fits)
  with Cons show ?case by simp
qed simp

lemma bw_Writes_fits:
  "\<not> ob_err b \<Longrightarrow> length (ob_buf b) + length p \<le> N \<Longrightarrow> bw_Writes N net cuts p b = b\<lparr>ob_buf := ob_buf b @ p\<rparr>"
  using fold_Write_fits [of b "chop cuts p" N net] by (simp add: bw_Writes_def)

lemma Writes_err [simp]: "ob_err b \<Longrightarrow> bw_Writes N net cuts p b = b"
proof -
  assume "ob_err b"
  then have "fold (bw_Write N net) ps b = b" for ps by (induction ps) simp_all
  then show ?thesis by (simp add: bw_Writes_def)
qed

text \<open>The buffer never holds more than its size, so replies that do not fit leave it early.\<close>

lemma room_Flush: "length (ob_buf (bw_Flush net b)) \<le> length (ob_buf b)"
  by (simp add: bw_Flush_def)

lemma room_Write: "length (ob_buf b) \<le> N \<Longrightarrow> length (ob_buf (bw_Write N net p b)) \<le> N"
proof (induction N net p b rule: bw_Write.induct)
  case (1 N net p b)
  let ?n = "N - length (ob_buf b)"
  have "length (ob_buf b) + length (take ?n p) \<le> N" using "1.prems" by simp
  with room_Flush [of net "b\<lparr>ob_buf := ob_buf b @ take ?n p\<rparr>"]
  have f: "length (ob_buf (bw_Flush net (b\<lparr>ob_buf := ob_buf b @ take ?n p\<rparr>))) \<le> N" by simp
  have d: "ob_buf (sock_Write net p b) = ob_buf b" by (simp add: sock_Write_def)
  show ?case
    using 1 f d by (auto simp: bw_Write.simps [of N net p b] Let_def)
qed

lemma room_Writes: "length (ob_buf b) \<le> N \<Longrightarrow> length (ob_buf (bw_Writes N net cuts p b)) \<le> N"
proof -
  have "length (ob_buf b) \<le> N \<Longrightarrow> length (ob_buf (fold (bw_Write N net) ps b)) \<le> N" for ps
    by (induction ps arbitrary: b) (auto simp: room_Write)
  then show "length (ob_buf b) \<le> N \<Longrightarrow> ?thesis" by (simp add: bw_Writes_def)
qed

end
