(* ===== verification/Resp_Stream.thy ===== *)
theory Resp_Stream
  imports Resp_Reader
begin

text \<open>
  Reading commands from a connection on which the bytes arrive piece by piece. What
  \<open>ReadCommand\<close> makes of a stream does not depend on where the pieces end: a command that has
  been returned, or a protocol error that has been reported, would have been the same had more
  bytes been there; when a command is cut off the call fails with the error of the connection.
\<close>

section \<open>Results more input cannot change\<close>

definition IsProtocolError :: "gerror \<Rightarrow> bool" where
  "IsProtocolError e = (case e of ProtocolError _ \<Rightarrow> True | ProtocolErrorQ _ _ \<Rightarrow> True | _ \<Rightarrow> False)"

text \<open>The errors a socket returns.\<close>

definition io_error :: "gerror \<Rightarrow> bool" where
  "io_error e \<longleftrightarrow> \<not> IsProtocolError e \<and> e \<noteq> ErrBufferFull"

definition decided :: "'a res \<Rightarrow> bool" where
  "decided res = (case res of Fail e \<Rightarrow> IsProtocolError e | _ \<Rightarrow> True)"

definition firm :: "(Reader, 'a) action \<Rightarrow> bool" where
  "firm m \<longleftrightarrow> (\<forall>r res r'. io_error (r_err r) \<longrightarrow> m r = (res, r') \<longrightarrow> decided res \<longrightarrow> settles m r res r')"

lemma decided_simps [simp]:
  "decided (Ret x)" "decided Panic" "decided (Fail e) = IsProtocolError e" "IsProtocolError (ProtocolError m)"
  by (simp_all add: decided_def IsProtocolError_def)

lemma io_error_unexpected [simp]: "io_error e \<Longrightarrow> \<not> IsProtocolError (ioOrUnexpected e)" "io_error e \<Longrightarrow> \<not> IsProtocolError e"
  by (simp_all add: ioOrUnexpected_def io_error_def IsProtocolError_def)

lemma firmI: "(\<And>r res r'. io_error (r_err r) \<Longrightarrow> m r = (res, r') \<Longrightarrow> decided res \<Longrightarrow> settles m r res r') \<Longrightarrow> firm m"
  by (simp add: firm_def)

lemma firmD: "firm m \<Longrightarrow> io_error (r_err r) \<Longrightarrow> m r = (res, r') \<Longrightarrow> decided res \<Longrightarrow> settles m r res r'"
  by (simp add: firm_def)

lemma settles_err: "settles m r res r' \<Longrightarrow> m r = (res, r') \<Longrightarrow> r_err r' = r_err r"
proof -
  assume "settles m r res r'" "m r = (res, r')"
  then have "(res, r') = (res, r'\<lparr>r_br := r_br r' @ [], r_err := r_err r\<rparr>)"
    unfolding settles_def by (metis Reader.surjective Reader.update_convs(1,2) append_Nil2)
  then show ?thesis by (metis Pair_inject Reader.select_convs(2) Reader.surjective Reader.update_convs(2))
qed

lemma firm_sbind:
  assumes "firm m" "\<And>x. firm (f x)"
  shows "firm (sbind m f)"
proof (rule firmI)
  fix r res r'
  assume io: "io_error (r_err r)" and run: "sbind m f r = (res, r')" and dec: "decided res"
  obtain x r1 where m: "m r = (x, r1)" by fastforce
  show "settles (sbind m f) r res r'"
  proof (cases x)
    case (Ret v)
    then have s: "settles m r (Ret v) r1" using firmD [OF assms(1) io m] by simp
    with m Ret io have "io_error (r_err r1)" using settles_err [of m r "Ret v" r1] by simp
    with run m Ret dec have "settles (f v) r1 res r'" by (intro firmD [OF assms(2)]) simp_all
    with s show ?thesis by (rule settles_sbind_Ret)
  next
    case (Fail e)
    with run m dec have "res = Fail e" "r' = r1" "decided x" by auto
    with firmD [OF assms(1) io m] Fail settles_sbind_Fail show ?thesis by blast
  next
    case Panic
    with run m have "res = Panic" "r' = r1" by auto
    with firmD [OF assms(1) io m] Panic show ?thesis by (simp add: settles_def)
  qed
qed

lemma firm_readLine: "firm readLine"
proof (rule firmI)
  fix r res r'
  assume io: "io_error (r_err r)" and run: "readLine r = (res, r')" and dec: "decided res"
  let ?i = "length (takeWhile (\<lambda>b. b \<noteq> LF) (r_br r))" and ?N = "line_room r"
  have pre: "takeWhile (\<lambda>b. b \<noteq> LF) (r_br r @ z) = takeWhile (\<lambda>b. b \<noteq> LF) (r_br r)" if "?i < length (r_br r)" for z
  proof (rule takeWhile_append_LF, rule ccontr)
    assume "LF \<notin> set (r_br r)"
    then have "takeWhile (\<lambda>b. b \<noteq> LF) (r_br r) = r_br r" by (auto simp: takeWhile_eq_all_conv)
    with that show False by simp
  qed
  consider (line) "?i < length (r_br r)" "?i < ?N" | (full) "\<not> (?i < length (r_br r) \<and> ?i < ?N)" "?N \<le> length (r_br r)"
    | (out) "\<not> (?i < length (r_br r) \<and> ?i < ?N)" "length (r_br r) < ?N" by linarith
  then show "settles readLine r res r'"
  proof cases
    case line
    have "ReadSlice ?N e (r_br r @ z) = (Ret (take (?i + 1) (r_br r)), drop (?i + 1) (r_br r) @ z)" for e z
      using line pre by (simp add: ReadSlice_def Let_def)
    then show ?thesis
      using run line by (auto simp: settles_def readLine_def ReadSlice_def Let_def split: if_splits)
  next
    case full
    have long: "?N \<le> length (takeWhile (\<lambda>b. b \<noteq> LF) (r_br r @ z))" for z
    proof (cases "?i < length (r_br r)")
      case True
      with full pre show ?thesis by simp
    next
      case False
      then have "\<forall>b \<in> set (r_br r). b \<noteq> LF" using length_takeWhile_LF by blast
      with full(2) show ?thesis by simp
    qed
    have rs: "ReadSlice ?N e (r_br r @ z) = (Fail ErrBufferFull, drop ?N (r_br r) @ z)" for e z
      using long [of z] full(2) by (auto simp: ReadSlice_def Let_def)
    from run rs [of "r_err r" "[]"] have "res = Fail (ProtocolError ''too big inline request'')" "r' = r\<lparr>r_br := drop ?N (r_br r)\<rparr>"
      by (simp_all add: readLine_def)
    then show ?thesis by (simp add: settles_def readLine_def rs err_br_swap)
  next
    case out
    then have "res = Fail (ioOrUnexpected (r_err r))" using run io by (auto simp: readLine_def ReadSlice_def Let_def io_error_def)
    with dec io show ?thesis by simp
  qed
qed

lemma firm_readCount: "firm (readCount what)"
  unfolding readCount_def
  by (rule firm_sbind [OF firm_readLine], rule firmI)
    (auto simp: settles_def split: option.splits if_splits)

lemma firm_bulk_body: "firm (bulk_body n)"
proof (rule firmI)
  fix r res r'
  assume io: "io_error (r_err r)" and run: "bulk_body n r = (res, r')" and dec: "decided res"
  show "settles (bulk_body n) r res r'"
  proof (cases "n < 0 \<or> n > MaxBulkSize (r_lim r)")
    case True
    with run show ?thesis by (auto simp: bulk_body_def settles_def)
  next
    case False
    have enough: "nat n + 2 \<le> length (r_br r)"
    proof (rule ccontr)
      assume "\<not> ?thesis"
      with False have "\<exists>e. fst (bulk_body n r) = Fail (ioOrUnexpected e) \<and> (e = ErrUnexpectedEOF \<or> e = r_err r)"
        by (auto simp: bulk_body_def case_prod_beta Let_def ReadFull_def)
      moreover have "\<not> IsProtocolError (ioOrUnexpected ErrUnexpectedEOF)" by (simp add: ioOrUnexpected_def IsProtocolError_def)
      ultimately have "\<not> decided res" using run io by auto
      with dec show False by simp
    qed
    obtain res1 r1 where s: "settles (bulk_body n) r res1 r1" using settles_bulk_body [OF _ _ enough] False by (meson leI)
    then have "bulk_body n r = (res1, r1\<lparr>r_br := r_br r1 @ [], r_err := r_err r\<rparr>)"
      unfolding settles_def by (metis Reader.surjective Reader.update_convs(1,2) append_Nil2)
    with run have "res = res1" "r' = r1\<lparr>r_err := r_err r\<rparr>" by (auto simp: err_br_swap)
    with s show ?thesis by (simp add: settles_def)
  qed
qed

lemma firm_readBulk: "firm readBulk"
proof (rule firmI)
  fix r res r'
  assume io: "io_error (r_err r)" and run: "readBulk r = (res, r')" and dec: "decided res"
  show "settles readBulk r res r'"
  proof (cases "r_br r")
    case Nil
    with run io dec show ?thesis by (auto simp: readBulk_def ReadByte_def)
  next
    case (Cons t br)
    have eq: "readBulk (r\<lparr>r_br := r_br r @ z, r_err := e\<rparr>) =
        (if t \<noteq> TypeBulkString
         then (Fail (ProtocolError (''expected '' @ [CHR 0x27] @ ''$'' @ [CHR 0x27] @ '', got ''
              @ [CHR 0x27] @ fmt_c t @ [CHR 0x27])), r\<lparr>r_br := br @ z, r_err := e\<rparr>)
         else sbind (readCount ''bulk'') bulk_body (r\<lparr>r_br := br @ z, r_err := e\<rparr>))" for z e
      by (subst readBulk_Cons [of _ t "br @ z"]) (simp_all add: Cons err_br_swap)
    show ?thesis
    proof (cases "t = TypeBulkString")
      case True
      have "sbind (readCount ''bulk'') bulk_body (r\<lparr>r_br := br\<rparr>) = (res, r')"
        using run True by (simp add: readBulk_Cons [OF Cons])
      from firmD [OF firm_sbind [OF firm_readCount firm_bulk_body] _ this dec] io
      have "settles (sbind (readCount ''bulk'') bulk_body) (r\<lparr>r_br := br\<rparr>) res r'" by simp
      then show ?thesis unfolding settles_def eq using True by simp
    next
      case False
      with run show ?thesis unfolding settles_def eq by (auto simp: readBulk_Cons [OF Cons])
    qed
  qed
qed

lemma firm_args: "firm (f :: (Reader, 'a) action) \<Longrightarrow> firm (\<lambda>r. f (r\<lparr>r_args := r_args r @ [g]\<rparr>))"
proof (rule firmI)
  fix r res r'
  assume f: "firm f" and io: "io_error (r_err r)" and run: "f (r\<lparr>r_args := r_args r @ [g]\<rparr>) = (res, r')" and dec: "decided res"
  from firmD [OF f _ run dec] io have "settles f (r\<lparr>r_args := r_args r @ [g]\<rparr>) res r'" by simp
  then show "settles (\<lambda>r. f (r\<lparr>r_args := r_args r @ [g]\<rparr>)) r res r'" by (simp add: settles_def args_swap)
qed

lemma firm_read_args: "firm (read_args k)"
proof (induction k)
  case 0
  show ?case by (rule firmI) (auto simp: settles_def)
next
  case (Suc k)
  have "firm (sbind readBulk (\<lambda>arg r. read_args k (r\<lparr>r_args := r_args r @ [arg]\<rparr>)))"
    by (intro firm_sbind firm_readBulk firm_args Suc)
  moreover have "read_args (Suc k) = sbind readBulk (\<lambda>arg r. read_args k (r\<lparr>r_args := r_args r @ [arg]\<rparr>))"
    by (simp add: fun_eq_iff)
  ultimately show ?case by simp
qed

lemma firm_command_body: "firm (command_body n)"
proof -
  have "firm (sbind (read_args (nat n)) (\<lambda>_ r. (Ret (Some (r_args r)), r\<lparr>r_inFlight := False\<rparr>)))"
    by (rule firm_sbind [OF firm_read_args], rule firmI) (auto simp: settles_def inFlight_swap)
  note f = firmD [OF this]
  show ?thesis
  proof (rule firmI)
    fix r res r'
    assume io: "io_error (r_err r)" and run: "command_body n r = (res, r')" and dec: "decided res"
    show "settles (command_body n) r res r'"
    proof (cases "n \<le> 0 \<or> n > MaxMultiBulkLen (r_lim r)")
      case True
      with run show ?thesis by (auto simp: command_body_def settles_def inFlight_swap)
    next
      case False
      with run have "sbind (read_args (nat n)) (\<lambda>_ r. (Ret (Some (r_args r)), r\<lparr>r_inFlight := False\<rparr>)) r = (res, r')"
        by (simp add: command_body_def)
      from f [OF io this dec] False show ?thesis by (simp add: settles_def command_body_def)
    qed
  qed
qed

lemma firm_readInline: "firm readInline"
  unfolding readInline_body
proof (rule firm_sbind [OF firm_readLine], rule firmI)
  fix line r res r'
  assume "inline_body line r = (res, r')"
  with settles_inline_body [of line r] show "settles (inline_body line) r res r'" by simp
qed

lemma firm_ReadCommand: "firm ReadCommand"
proof (rule firmI)
  fix r res r'
  assume io: "io_error (r_err r)" and run: "ReadCommand r = (res, r')" and dec: "decided res"
  show "settles ReadCommand r res r'"
  proof (cases "r_br r")
    case Nil
    with run io dec show ?thesis by (auto simp: ReadCommand_def)
  next
    case (Cons t br)
    let ?r0 = "r\<lparr>r_args := [], r_used := 0, r_inFlight := True\<rparr>"
    have eq: "ReadCommand (r\<lparr>r_br := r_br r @ z, r_err := e\<rparr>) =
        (if t \<noteq> TypeArray then
           (case readInline (?r0\<lparr>r_br := r_br r @ z, r_err := e\<rparr>) of
              (Ret args, r) \<Rightarrow> (Ret args, r\<lparr>r_inFlight := False\<rparr>)
            | (Fail e, r) \<Rightarrow> (Fail e, r)
            | (Panic, r) \<Rightarrow> (Panic, r))
         else sbind (readCount ''multibulk'') command_body (?r0\<lparr>r_br := br @ z, r_err := e\<rparr>))" for z e
      by (subst ReadCommand_Cons [of _ t "br @ z"]) (simp_all add: Cons reset_swap err_br_swap)
    show ?thesis
    proof (cases "t = TypeArray")
      case True
      have "sbind (readCount ''multibulk'') command_body (?r0\<lparr>r_br := br\<rparr>) = (res, r')"
        using run True by (simp add: ReadCommand_Cons [OF Cons])
      from firmD [OF firm_sbind [OF firm_readCount firm_command_body] _ this dec] io
      have "settles (sbind (readCount ''multibulk'') command_body) (?r0\<lparr>r_br := br\<rparr>) res r'" by simp
      then show ?thesis unfolding settles_def eq using True by simp
    next
      case False
      obtain x r1 where x: "readInline ?r0 = (x, r1)" by fastforce
      have x': "res = x" "r' = (case x of Ret _ \<Rightarrow> r1\<lparr>r_inFlight := False\<rparr> | _ \<Rightarrow> r1)"
        using run False x by (auto simp: ReadCommand_Cons [OF Cons] split: res.splits)
      have "settles readInline ?r0 x r1" using firmD [OF firm_readInline _ x] io dec x'(1) by simp
      then show ?thesis unfolding settles_def eq using False x'
        by (auto simp: inFlight_swap split: res.splits)
    qed
  qed
qed

section \<open>A stream of commands\<close>

text \<open>A command of which only a part has arrived is not returned and is not a protocol error.\<close>

lemma ReadCommand_cut:
  assumes "io_error (r_err r)" "arena_ok r" "21 < line_room r" "cmd_fits (r_lim r) c"
    and "r_br r @ z = cmd_enc c @ rest" "length (r_br r) < length (cmd_enc c)"
  shows "\<exists>e r'. ReadCommand r = (Fail e, r') \<and> \<not> IsProtocolError e"
proof -
  obtain res r' where rc: "ReadCommand r = (res, r')" by fastforce
  have "\<not> decided res"
  proof
    assume "decided res"
    from firmD [OF firm_ReadCommand assms(1) rc this]
    have s: "ReadCommand (r\<lparr>r_br := r_br r @ z, r_err := r_err r\<rparr>) = (res, r'\<lparr>r_br := r_br r' @ z, r_err := r_err r\<rparr>)"
      unfolding settles_def by blast
    obtain r2 where "ReadCommand (r\<lparr>r_br := r_br r @ z, r_err := r_err r\<rparr>) = (Ret (Some (r_args r2)), r2)" "r_br r2 = rest"
      using ReadCommand_enc [of "r\<lparr>r_br := r_br r @ z, r_err := r_err r\<rparr>" c rest] assms by (auto simp: arena_ok_def)
    with s have "r_br r' @ z = rest" by auto
    then have "length z \<le> length rest" by auto
    moreover have "length (r_br r) + length z = length (cmd_enc c) + length rest" using assms(5) by (metis length_append)
    ultimately show False using assms(6) by linarith
  qed
  with rc show ?thesis by (cases res) auto
qed

section \<open>A command has no more arguments than bytes\<close>

lemma readLine_shrinks: "readLine r = (res, r') \<Longrightarrow> length (r_br r') \<le> length (r_br r)"
  using ReadSlice_length_le by (fastforce simp: readLine_def split: prod.splits res.splits)

lemma readCount_shrinks: "readCount what r = (Ret n, r') \<Longrightarrow> length (r_br r') \<le> length (r_br r)"
  by (auto simp: readCount_def sbind_eq_Ret split: option.splits if_splits dest: readLine_shrinks)

lemma readBulk_shrinks:
  assumes "readBulk r = (Ret g, r')"
  shows "length (r_br r') < length (r_br r) \<and> r_args r' = r_args r"
proof -
  obtain t br where br: "r_br r = t # br" using assms by (cases "r_br r") (auto simp: readBulk_def ReadByte_def)
  obtain n r1 where rc: "readCount ''bulk'' (r\<lparr>r_br := br\<rparr>) = (Ret n, r1)" and bb: "bulk_body n r1 = (Ret g, r')"
    using assms by (auto simp: readBulk_Cons [OF br] sbind_eq_Ret split: if_splits)
  have "length (r_br r') \<le> length (r_br r1)"
    using bb by (auto simp: bulk_body_def case_prod_beta Let_def ReadFull_def split: if_splits)
  moreover have "r_args r' = r_args r1" "r_args r1 = r_args r"
    using bulk_body_frame(3) [of n r1] readCount_frame(6) [of "''bulk''" "r\<lparr>r_br := br\<rparr>"] by (simp_all add: bb rc)
  ultimately show ?thesis using readCount_shrinks [OF rc] br by simp
qed

lemma read_args_shrinks:
  "read_args k r = (Ret (), r') \<Longrightarrow> length (r_args r') = length (r_args r) + k \<and> length (r_br r') + k \<le> length (r_br r)"
proof (induction k arbitrary: r)
  case (Suc k)
  then obtain g r1 where g: "readBulk r = (Ret g, r1)" "read_args k (r1\<lparr>r_args := r_args r1 @ [g]\<rparr>) = (Ret (), r')"
    by (auto simp: sbind_eq_Ret)
  from Suc.IH [OF g(2)] readBulk_shrinks [OF g(1)] show ?case by simp
qed simp

lemma inline_loop_length: "length (inline_loop buf g i args) \<le> length args + (length buf - i)"
proof (induction buf g i args rule: inline_loop.induct)
  case (1 buf g i args)
  show ?case
  proof (cases "i < length buf \<and> skip_space buf i < length buf")
    case True
    then have "i < skip_word buf (skip_space buf i)" by (intro skip_word_progress) simp
    moreover from 1 True have "length (inline_loop buf g (skip_word buf (skip_space buf i)) (args @ [x]))
        \<le> Suc (length args + (length buf - skip_word buf (skip_space buf i)))"
      if "x = \<lparr>blk = blk g, off = off g + skip_space buf i, len = skip_word buf (skip_space buf i) - skip_space buf i\<rparr>" for x
      using that by auto
    ultimately show ?thesis using True by (simp add: inline_loop.simps [of buf g i args] Let_def) linarith
  next
    case False
    then show ?thesis by (auto simp: inline_loop.simps [of buf g i args] Let_def)
  qed
qed

lemma readInline_args:
  assumes "readInline r = (Ret (Some gs), r')" "r_args r = []"
  shows "gs \<noteq> [] \<and> length gs \<le> length (r_br r)"
proof -
  obtain line r1 where l: "readLine r = (Ret line, r1)" and b: "inline_body line r1 = (Ret (Some gs), r')"
    using assms(1) by (auto simp: readInline_body sbind_eq_Ret)
  have "r_args r1 = []" using readLine_frame(6) [of r] assms(2) by (simp add: l)
  with b have "gs \<noteq> []" "gs = inline_loop line (fst (alloc (length line) r1)) 0 []"
    by (auto simp: inline_body_def case_prod_beta Let_def split: if_splits)
  with inline_loop_length [of line _ 0 "[]"] have "gs \<noteq> []" "length gs \<le> length line" by auto
  moreover have "length line \<le> length (r_br r)"
    using l by (auto simp: readLine_def ReadSlice_def Let_def split: if_splits)
  ultimately show ?thesis by simp
qed

lemma ReadCommand_args:
  assumes "ReadCommand r = (Ret (Some gs), r')"
  shows "gs \<noteq> [] \<and> length gs \<le> length (r_br r)"
proof -
  let ?r0 = "r\<lparr>r_args := [], r_used := 0, r_inFlight := True\<rparr>"
  obtain t br where br: "r_br r = t # br" using assms by (cases "r_br r") (auto simp: ReadCommand_def)
  show ?thesis
  proof (cases "t = TypeArray")
    case False
    then obtain r1 where "readInline ?r0 = (Ret (Some gs), r1)"
      using assms by (auto simp: ReadCommand_Cons [OF br] split: prod.splits res.splits)
    from readInline_args [OF this] show ?thesis by simp
  next
    case True
    then obtain n r1 where rc: "readCount ''multibulk'' (?r0\<lparr>r_br := br\<rparr>) = (Ret n, r1)" and cb: "command_body n r1 = (Ret (Some gs), r')"
      using assms by (auto simp: ReadCommand_Cons [OF br] sbind_eq_Ret)
    have "r_args r1 = []" using readCount_frame(6) [of "''multibulk''" "?r0\<lparr>r_br := br\<rparr>"] by (simp add: rc)
    moreover obtain r2 where r2: "0 < n" "read_args (nat n) r1 = (Ret (), r2)" "gs = r_args r2"
      using cb by (auto simp: command_body_def sbind_eq_Ret split: if_splits)
    moreover have "length (r_br r1) \<le> length br" using readCount_shrinks [OF rc] by simp
    moreover note read_args_shrinks [OF r2(2)]
    ultimately have "0 < length gs" "length gs \<le> length (r_br r)" using br by simp_all
    then show ?thesis by auto
  qed
qed

text \<open>The limits of a reader never change.\<close>

lemma ReadCommand_lim: "r_lim (snd (ReadCommand r)) = r_lim r"
proof (cases "r_br r")
  case (Cons t br)
  let ?r0 = "r\<lparr>r_args := [], r_used := 0, r_inFlight := True\<rparr>"
  have body: "r_lim (snd (inline_body line q)) = r_lim q" for line q
    by (simp add: inline_body_def case_prod_beta Let_def)
  have "r_lim (snd (readInline q)) = r_lim q" for q
    using readLine_frame(7) [of q] body by (auto simp: readInline_body sbind_def split: prod.splits res.splits)
  moreover have "r_lim (snd (command_body n q)) = r_lim q" for n q
    using read_args_frame [of "nat n" q] by (auto simp: command_body_def sbind_def split: prod.splits res.splits)
  moreover have "r_lim (snd (readCount w q)) = r_lim q" for w q by (rule readCount_frame(7))
  ultimately have "r_lim (snd (readInline q)) = r_lim q" "r_lim (snd (sbind (readCount w) command_body q)) = r_lim q" for w q
    by (auto simp: sbind_def split: prod.splits res.splits) (metis snd_conv)+
  from this(1) [of ?r0] this(2) [of "''multibulk''" "?r0\<lparr>r_br := br\<rparr>"] show ?thesis
    by (auto simp: ReadCommand_Cons [OF Cons] split: prod.splits res.splits)
qed (simp add: ReadCommand_def)

definition shrinks :: "(Reader, 'a) action \<Rightarrow> bool" where
  "shrinks m \<longleftrightarrow> (\<forall>q. length (r_br (snd (m q))) \<le> length (r_br q))"

lemma shrinks_sbind:
  assumes "shrinks m" "\<And>x. shrinks (f x)"
  shows "shrinks (sbind m f)"
  unfolding shrinks_def
proof
  fix q
  obtain x q1 where m: "m q = (x, q1)" by fastforce
  have "length (r_br q1) \<le> length (r_br q)" using assms(1) m by (metis shrinks_def snd_conv)
  moreover have "length (r_br (snd (f y q1))) \<le> length (r_br q1)" for y using assms(2) by (simp add: shrinks_def)
  ultimately show "length (r_br (snd (sbind m f q))) \<le> length (r_br q)"
    using order_trans by (cases x) (auto simp: m)
qed

lemma shrinks_line: "shrinks readLine"
  unfolding shrinks_def using readLine_shrinks by (metis prod.collapse)

lemma shrinks_count: "shrinks (readCount what)"
  unfolding readCount_def by (rule shrinks_sbind [OF shrinks_line]) (simp add: shrinks_def split: option.splits)

lemma shrinks_bulk: "shrinks readBulk"
  unfolding shrinks_def
proof
  fix q
  have "shrinks (bulk_body n)" for n
    by (simp add: shrinks_def bulk_body_def case_prod_beta Let_def ReadFull_def)
  then have s: "shrinks (sbind (readCount ''bulk'') bulk_body)" by (rule shrinks_sbind [OF shrinks_count])
  show "length (r_br (snd (readBulk q))) \<le> length (r_br q)"
  proof (cases "r_br q")
    case (Cons t br)
    have "length (r_br (snd (sbind (readCount ''bulk'') bulk_body (q\<lparr>r_br := br\<rparr>)))) \<le> length br"
      using s [unfolded shrinks_def, rule_format, of "q\<lparr>r_br := br\<rparr>"] by simp
    with Cons show ?thesis by (simp add: readBulk_Cons)
  qed (simp add: readBulk_def ReadByte_def)
qed

lemma shrinks_args: "shrinks (read_args k)"
proof (induction k)
  case (Suc k)
  have "shrinks (\<lambda>r. read_args k (r\<lparr>r_args := r_args r @ [g]\<rparr>))" for g
    unfolding shrinks_def
  proof
    fix q
    from Suc [unfolded shrinks_def, rule_format, of "q\<lparr>r_args := r_args q @ [g]\<rparr>"]
    show "length (r_br (snd (read_args k (q\<lparr>r_args := r_args q @ [g]\<rparr>)))) \<le> length (r_br q)" by simp
  qed
  from shrinks_sbind [OF shrinks_bulk this] show ?case by (simp add: shrinks_def)
qed (simp add: shrinks_def)

lemma ReadCommand_shrinks: "length (r_br (snd (ReadCommand r))) \<le> length (r_br r)"
proof (cases "r_br r")
  case (Cons t br)
  let ?r0 = "r\<lparr>r_args := [], r_used := 0, r_inFlight := True\<rparr>"
  have inl: "shrinks readInline"
    unfolding readInline_body
    by (rule shrinks_sbind [OF shrinks_line]) (simp add: shrinks_def inline_body_def case_prod_beta Let_def)
  have "shrinks (sbind (read_args n) (\<lambda>_ r. (Ret (Some (r_args r)), r\<lparr>r_inFlight := False\<rparr>)))" for n
    by (rule shrinks_sbind [OF shrinks_args]) (simp add: shrinks_def)
  then have "shrinks (command_body n)" for n by (simp add: shrinks_def command_body_def)
  then have cmd: "shrinks (sbind (readCount ''multibulk'') command_body)" by (rule shrinks_sbind [OF shrinks_count])
  have "length (r_br (snd (readInline ?r0))) \<le> length (r_br r)"
    using inl [unfolded shrinks_def, rule_format, of ?r0] by simp
  moreover have "length (r_br (snd (sbind (readCount ''multibulk'') command_body (?r0\<lparr>r_br := br\<rparr>)))) \<le> length br"
    using cmd [unfolded shrinks_def, rule_format, of "?r0\<lparr>r_br := br\<rparr>"] by simp
  ultimately show ?thesis
    using Cons by (auto simp: ReadCommand_Cons [OF Cons] split: prod.splits res.splits)
qed (simp add: ReadCommand_def)

end
