(* ===== verification/Server.thy ===== *)
theory Server
  imports Cmd_Keyspace Bufio_Writer Resp_Stream
begin

text \<open>
  The network side, \<open>src/internal/server/server.go\<close>: accepting and refusing connections, the command
  loop of a connection, the order of log and replies in \<open>finish\<close>, read errors and deadlines, the
  background expiry cycle and closing down. Each goroutine is a program counter on its connection,
  and a step of the server is one step of one goroutine: reading a command and running it is one
  step, so is \<open>finish\<close>. Everything the outside decides about a step (clock readings, bytes that have
  arrived, errors of the socket) is its \<open>tick\<close>.
\<close>

section \<open>State\<close>

text \<open>
  Where a connection's goroutine is: blocked in the read at the top of the loop, in the pipeline
  loop with the given number of commands served, or before \<open>finish\<close>, after which it leaves when the
  flag is set.
\<close>

datatype pc = Reading | Batching nat | Finishing bool

text \<open>
  A connection: the command layer's view of it, the reader and the writer \<open>serveConn\<close> works with, and
  the socket; \<open>cn_room\<close> is the size of the writer's buffer. Two fields record what happened:
  \<open>cn_in\<close> the bytes that have arrived, \<open>cn_hist\<close> the commands run so far, each with the bytes it wrote.
\<close>

record connection =
  cn_id :: nat
  cn_state :: Conn
  cn_r :: Reader
  cn_out :: out
  cn_ver :: nat
  cn_room :: nat
  cn_net :: network
  cn_closed :: bool
  cn_idle :: "int option"
  cn_pc :: pc
  cn_in :: bytes
  cn_hist :: "(bytes list \<times> bytes) list"

text \<open>
  The server. The channel \<open>slots\<close> is its capacity and the number of slots taken, \<open>sv_cancelled\<close> is
  \<open>ctx.Err() != nil\<close>. \<open>sv_past\<close> keeps the connections that ended and \<open>sv_refused\<close> what refused
  clients received.
\<close>

record 's Server =
  sv_store :: 's
  sv_stats :: ServerStats
  sv_cfg :: Config
  sv_conns :: "connection list"
  sv_nextID :: nat
  sv_slots :: nat
  sv_cap :: nat
  sv_cancelled :: bool
  sv_bgsave :: bool
  sv_shutdown :: "bool option"
  sv_shutdownSave :: bool
  sv_names :: "bytes list"
  sv_past :: "connection list"
  sv_refused :: "bytes list"

text \<open>
  What the server is built on: the environment of the commands, \<open>FlushWAL\<close> when the engine has it,
  and the engine's \<open>SampleVolatile\<close>, whose choice the tick makes.
\<close>

record ('s, 'f) backend =
  bk_env :: "('s, 'f) env"
  bk_flushWAL :: "('s, unit) action option"
  bk_Sample :: "nat \<Rightarrow> int \<Rightarrow> ('s, bytes list) action"

record tick =
  tk_now :: "nat \<Rightarrow> int"
  tk_err :: gerror
  tk_badRead :: bool
  tk_badWrite :: bool
  tk_in :: inputs
  tk_cuts :: "nat list"
  tk_buffered :: nat

section \<open>Starting\<close>

text \<open>
  \<open>New\<close>: the configuration must be valid. A missing clock, logger or counter set is replaced by a
  default one, which here is the counters passed in. The room for connections is fixed here.
\<close>

definition Server_New :: "Config \<Rightarrow> 's \<Rightarrow> ServerStats \<Rightarrow> 's Server res" where
  "Server_New cfg st stat =
     bind_res (Validate cfg) (\<lambda>_.
       Ret \<lparr>sv_store = st, sv_stats = stat, sv_cfg = cfg, sv_conns = [], sv_nextID = 0, sv_slots = 0,
            sv_cap = nat (MaxClients cfg), sv_cancelled = False, sv_bgsave = False, sv_shutdown = None,
            sv_shutdownSave = False, sv_names = sort (map Name commands), sv_past = [], sv_refused = []\<rparr>)"

text \<open>\<open>NewWriter\<close>'s default, and \<open>bufio.NewWriterSize\<close> of a positive size.\<close>

definition reply_room :: "Config \<Rightarrow> nat" where
  "reply_room cfg = (if ReplyBufferSize cfg \<le> 0 then 16384 else nat (ReplyBufferSize cfg))"

definition empty_out :: out where
  "empty_out = \<lparr>ob_buf = [], ob_sent = [], ob_err = False, ob_n = 0\<rparr>"

section \<open>Sockets and deadlines\<close>

definition deadlineFor :: "int \<Rightarrow> int \<Rightarrow> int option" where
  "deadlineFor d now = (if d \<le> 0 then None else Some (now + d))"

definition ProtocolError_Error :: "(gerror \<Rightarrow> bytes) \<Rightarrow> gerror \<Rightarrow> bytes" where
  "ProtocolError_Error text e = (case e of ProtocolError m \<Rightarrow> ''Protocol error: '' @ m | _ \<Rightarrow> text e)"

definition isTimeout :: "gerror \<Rightarrow> bool" where
  "isTimeout e \<longleftrightarrow> e = ErrTimeout \<or> e = CtxDeadlineExceeded"

text \<open>A closed socket accepts nothing.\<close>

definition socket :: "connection \<Rightarrow> network" where
  "socket cn = (if cn_closed cn then (\<lambda>_. Some 0) else cn_net cn)"

definition refuse :: "network \<Rightarrow> bytes" where
  "refuse net = ob_sent (sock_Write net (''-ERR max number of clients reached'' @ crlf) empty_out)"

section \<open>Commands\<close>

text \<open>
  The world a handler sees from connection \<open>cn\<close>. Its writer starts empty: what it holds after the
  call is what the handler wrote.
\<close>

definition others :: "connection \<Rightarrow> 's Server \<Rightarrow> connection list" where
  "others cn s = filter (\<lambda>x. cn_id x \<noteq> cn_id cn) (sv_conns s)"

definition world_of :: "connection \<Rightarrow> 's Server \<Rightarrow> 's World" where
  "world_of cn s =
     \<lparr>wd_store = sv_store s, wd_stats = sv_stats s, wd_cfg = sv_cfg s, wd_conn = cn_state cn,
      wd_others = map cn_state (others cn s), wd_out = \<lparr>w_bw = [], w_ver = cn_ver cn\<rparr>, wd_bgsave = sv_bgsave s,
      wd_shutdown = sv_shutdown s, wd_shutdownSave = sv_shutdownSave s, wd_names = sv_names s\<rparr>"

text \<open>
  \<open>KillClient\<close> sets the flag and closes the socket; that is all a command does to the other
  connections.
\<close>

definition on_state :: "Conn \<Rightarrow> connection \<Rightarrow> connection" where
  "on_state c cn = cn\<lparr>cn_state := c, cn_closed := cn_closed cn \<or> killed c\<rparr>"

definition relook :: "Conn list \<Rightarrow> connection \<Rightarrow> connection" where
  "relook cs cn =
     (if list_ex (\<lambda>c. ID c = cn_id cn \<and> killed c) cs then on_state ((cn_state cn)\<lparr>killed := True\<rparr>) cn else cn)"

definition absorb :: "'s World \<Rightarrow> 's Server \<Rightarrow> 's Server" where
  "absorb w s =
     s\<lparr>sv_store := wd_store w, sv_stats := wd_stats w, sv_cfg := wd_cfg w, sv_conns := map (relook (wd_others w)) (sv_conns s),
       sv_bgsave := wd_bgsave w, sv_shutdown := wd_shutdown w, sv_shutdownSave := wd_shutdownSave w, sv_names := wd_names w\<rparr>"

text \<open>The bytes of a reply go through the connection's buffer, which may pass some of them on.\<close>

definition write_out :: "tick \<Rightarrow> bytes \<Rightarrow> connection \<Rightarrow> connection" where
  "write_out tk p cn = cn\<lparr>cn_out := bw_Writes (cn_room cn) (socket cn) (tk_cuts tk) p (cn_out cn)\<rparr>"

definition count_in :: "bytes list \<Rightarrow> 's Server \<Rightarrow> 's Server" where
  "count_in args s =
     s\<lparr>sv_stats := (sv_stats s)\<lparr>NetInputBytes := u64 (NetInputBytes (sv_stats s) + u64 (sum_list (map length args)))\<rparr>\<rparr>"

text \<open>
  \<open>dispatch\<close>. A context deadline only shows in what the engine answers. A panic leaves the loop; the
  bytes written before it stay in the buffer.
\<close>

definition dispatch :: "('s, 'f) backend \<Rightarrow> tick \<Rightarrow> bytes list \<Rightarrow> connection \<Rightarrow> 's Server \<Rightarrow> bool res \<times> connection \<times> 's Server" where
  "dispatch B tk args cn s =
     (if killed (cn_state cn) then (Ret False, cn, s)
      else
        let s = count_in args s in
        case Dispatch (bk_env B) \<lparr>Args = args, ctx_name = [], ctx_in = tk_in tk\<rparr> (world_of cn s) of (r, w) \<Rightarrow>
          let cn = on_state (wd_conn w) cn;
              cn = cn\<lparr>cn_ver := w_ver (wd_out w), cn_hist := cn_hist cn @ [(args, w_bw (wd_out w))]\<rparr>;
              cn = write_out tk (w_bw (wd_out w)) cn
          in (case r of
                Ret _ \<Rightarrow> Ret (\<not> ShouldClose (cn_state cn))
              | Fail _ \<Rightarrow> Ret False
              | Panic \<Rightarrow> Panic,
              cn, absorb w s))"

section \<open>Making a batch durable, then visible\<close>

definition flush_wal :: "('s, 'f) backend \<Rightarrow> ('s Server, unit) action" where
  "flush_wal B s =
     (case bk_flushWAL B of
        None \<Rightarrow> (Ret (), s)
      | Some fl \<Rightarrow> (case fl (sv_store s) of (r, e) \<Rightarrow> (r, s\<lparr>sv_store := e\<rparr>)))"

definition finish :: "('s, 'f) backend \<Rightarrow> tick \<Rightarrow> connection \<Rightarrow> 's Server \<Rightarrow> bool res \<times> connection \<times> 's Server" where
  "finish B tk cn s =
     (case flush_wal B s of
        (Panic, s) \<Rightarrow> (Panic, cn, s)
      | (Fail _, s) \<Rightarrow> (Ret False, cn, s)
      | (Ret _, s) \<Rightarrow>
          let pending = length (ob_buf (cn_out cn)) in
          if pending = 0 then (Ret True, cn, s)
          else if tk_badWrite tk then (Ret False, cn, s)
          else
            let b = bw_Flush (socket cn) (cn_out cn); cn = cn\<lparr>cn_out := b\<rparr> in
            if ob_err b then (Ret False, cn, s)
            else (Ret True, cn,
                  s\<lparr>sv_stats := (sv_stats s)\<lparr>NetOutputBytes := u64 (NetOutputBytes (sv_stats s) + pending)\<rparr>\<rparr>))"

text \<open>The counters a read error bumps.\<close>

definition timed_out :: "'s Server \<Rightarrow> 's Server" where
  "timed_out s = s\<lparr>sv_stats := (sv_stats s)\<lparr>TimeoutDisconnects := u64 (TimeoutDisconnects (sv_stats s) + 1)\<rparr>\<rparr>"

definition bad_frame :: "'s Server \<Rightarrow> 's Server" where
  "bad_frame s = s\<lparr>sv_stats := (sv_stats s)\<lparr>ProtocolErrors := u64 (ProtocolErrors (sv_stats s) + 1)\<rparr>\<rparr>"

definition close_after_reply :: "connection \<Rightarrow> connection" where
  "close_after_reply cn = cn\<lparr>cn_state := (cn_state cn)\<lparr>closeAfterReply := True\<rparr>\<rparr>"

definition handleReadError :: "('s, 'f) backend \<Rightarrow> tick \<Rightarrow> gerror \<Rightarrow> connection \<Rightarrow> 's Server \<Rightarrow> bool res \<times> connection \<times> 's Server" where
  "handleReadError B tk e cn s =
     (if e = ErrEOF then (Ret False, cn, s)
      else if IsProtocolError e then
        let s = bad_frame s;
            msg = w_bw (WriteError (''ERR '' @ ProtocolError_Error (en_Error (bk_env B)) e) \<lparr>w_bw = [], w_ver = cn_ver cn\<rparr>);
            cn = close_after_reply (write_out tk msg (cn\<lparr>cn_hist := cn_hist cn @ [([], msg)]\<rparr>))
        in (case finish B tk cn s of (Panic, cn, s) \<Rightarrow> (Panic, cn, s) | (_, cn, s) \<Rightarrow> (Ret False, cn, s))
      else if isTimeout e then
        if r_inFlight (cn_r cn) then (Ret False, cn, timed_out s)
        else if (case cn_idle cn of None \<Rightarrow> False | Some d \<Rightarrow> d < tk_now tk 2) then (Ret False, cn, timed_out s)
        else (Ret True, cn, s)
      else (Ret False, cn, s))"

section \<open>The command loop\<close>

definition maxBatch :: nat where
  "maxBatch = 1024"

definition flushThreshold :: nat where
  "flushThreshold = 262144"

text \<open>
  A step of \<open>serveConn\<close> leaves the connection at its next program counter, or (\<open>None\<close>) the goroutine
  has left the loop. Reading with the bytes that arrived before the call can decide; \<open>tk_err\<close> is what
  the socket answers when they do not suffice.
\<close>

definition read_command :: "tick \<Rightarrow> connection \<Rightarrow> bytes list option res \<times> connection" where
  "read_command tk cn =
     (case ReadCommand ((cn_r cn)\<lparr>r_err := tk_err tk\<rparr>) of
        (Ret None, r) \<Rightarrow> (Ret None, cn\<lparr>cn_r := r\<rparr>)
      | (Ret (Some gs), r) \<Rightarrow> (Ret (Some (map (deref (r_heap r)) gs)), cn\<lparr>cn_r := r\<rparr>)
      | (Fail e, r) \<Rightarrow> (Fail e, cn\<lparr>cn_r := r\<rparr>)
      | (Panic, r) \<Rightarrow> (Panic, cn\<lparr>cn_r := r\<rparr>))"

definition serve_read :: "('s, 'f) backend \<Rightarrow> tick \<Rightarrow> connection \<Rightarrow> 's Server \<Rightarrow> pc option \<times> connection \<times> 's Server" where
  "serve_read B tk cn s =
     (if sv_cancelled s \<or> tk_badRead tk then (None, cn, s)
      else
        case read_command tk cn of
          (Panic, cn) \<Rightarrow> (None, cn, s)
        | (Fail e, cn) \<Rightarrow>
            (case handleReadError B tk e cn s of
               (Ret True, cn, s) \<Rightarrow> (Some Reading, cn, s)
             | (_, cn, s) \<Rightarrow> (None, cn, s))
        | (Ret args, cn) \<Rightarrow>
            let cn = (if cn_idle cn \<noteq> None then cn\<lparr>cn_idle := deadlineFor (IdleTimeout (sv_cfg s)) (tk_now tk 1)\<rparr> else cn) in
            case args of
              None \<Rightarrow> (Some (Batching 1), cn, s)
            | Some args \<Rightarrow>
                (case dispatch B tk args cn s of
                   (Panic, cn, s) \<Rightarrow> (None, cn, s)
                 | (Ret True, cn, s) \<Rightarrow> (Some (Batching 1), cn, s)
                 | (_, cn, s) \<Rightarrow> (Some (Finishing True), cn, s)))"

text \<open>The bytes the reader has buffered: a prefix of those that arrived, as long as its buffer at most.\<close>

definition buffered :: "tick \<Rightarrow> connection \<Rightarrow> bytes" where
  "buffered tk cn = take (min (tk_buffered tk) (buffer_size (ReadBufferSize (r_lim (cn_r cn))))) (r_br (cn_r cn))"

definition batch_done :: "nat \<Rightarrow> 's Server \<Rightarrow> 's Server" where
  "batch_done n s =
     (if n > 1 then s\<lparr>sv_stats := (sv_stats s)\<lparr>PipelineBatches := u64 (PipelineBatches (sv_stats s) + 1)\<rparr>\<rparr> else s)"

definition serve_batch :: "('s, 'f) backend \<Rightarrow> tick \<Rightarrow> nat \<Rightarrow> connection \<Rightarrow> 's Server \<Rightarrow> pc option \<times> connection \<times> 's Server" where
  "serve_batch B tk n cn s =
     (if n < maxBatch \<and> length (ob_buf (cn_out cn)) < flushThreshold then
        case HasCompleteCommand (r_lim (cn_r cn)) (buffered tk cn) of
          Panic \<Rightarrow> (None, cn, s)
        | Ret True \<Rightarrow>
            (case read_command tk cn of
               (Panic, cn) \<Rightarrow> (None, cn, s)
             | (Fail e, cn) \<Rightarrow>
                 (case handleReadError B tk e cn s of
                    (Panic, cn, s) \<Rightarrow> (None, cn, s)
                  | (Ret True, cn, s) \<Rightarrow> (Some (Finishing False), cn, batch_done n s)
                  | (_, cn, s) \<Rightarrow> (Some (Finishing True), cn, s))
             | (Ret None, cn) \<Rightarrow> (Some (Batching n), cn, s)
             | (Ret (Some args), cn) \<Rightarrow>
                 (case dispatch B tk args cn s of
                    (Panic, cn, s) \<Rightarrow> (None, cn, s)
                  | (Ret True, cn, s) \<Rightarrow> (Some (Batching (n + 1)), cn, s)
                  | (_, cn, s) \<Rightarrow> (Some (Finishing True), cn, s)))
        | _ \<Rightarrow> (Some (Finishing False), cn, batch_done n s)
      else (Some (Finishing False), cn, batch_done n s))"

definition serve_finish :: "('s, 'f) backend \<Rightarrow> tick \<Rightarrow> bool \<Rightarrow> connection \<Rightarrow> 's Server \<Rightarrow> pc option \<times> connection \<times> 's Server" where
  "serve_finish B tk stop cn s =
     (case finish B tk cn s of
        (Ret True, cn, s) \<Rightarrow> (if stop \<or> ShouldClose (cn_state cn) then None else Some Reading, cn, s)
      | (_, cn, s) \<Rightarrow> (None, cn, s))"

fun serveConn :: "('s, 'f) backend \<Rightarrow> tick \<Rightarrow> pc \<Rightarrow> connection \<Rightarrow> 's Server \<Rightarrow> pc option \<times> connection \<times> 's Server" where
  "serveConn B tk Reading cn s = serve_read B tk cn s"
| "serveConn B tk (Batching n) cn s = serve_batch B tk n cn s"
| "serveConn B tk (Finishing stop) cn s = serve_finish B tk stop cn s"

section \<open>Connections come and go\<close>

text \<open>\<open>handle\<close> up to the loop: the connection gets the next number and is registered.\<close>

definition handle :: "bytes \<Rightarrow> bytes \<Rightarrow> network \<Rightarrow> tick \<Rightarrow> 's Server \<Rightarrow> 's Server" where
  "handle remote loc net tk s =
     (let cid = u64 (sv_nextID s + 1);
          cn = \<lparr>cn_id = cid, cn_state = NewConn cid remote loc (RequirePass (sv_cfg s) = []) (tk_now tk 0),
                cn_r = NewReader [] ErrEOF (Limits (sv_cfg s)), cn_out = empty_out, cn_ver = RESP2,
                cn_room = reply_room (sv_cfg s), cn_net = net, cn_closed = False,
                cn_idle = deadlineFor (IdleTimeout (sv_cfg s)) (tk_now tk 1), cn_pc = Reading, cn_in = [], cn_hist = []\<rparr>
      in s\<lparr>sv_nextID := cid, sv_conns := cn # filter (\<lambda>x. cn_id x \<noteq> cid) (sv_conns s),
           sv_stats := (sv_stats s)\<lparr>ConnectionsActive := i64 (ConnectionsActive (sv_stats s) + 1)\<rparr>\<rparr>)"

text \<open>
  One turn of the accept loop of \<open>Serve\<close> for a connection that arrived: it takes a slot and is
  handled, or it is refused.
\<close>

definition Serve_accept :: "bytes \<Rightarrow> bytes \<Rightarrow> network \<Rightarrow> tick \<Rightarrow> 's Server \<Rightarrow> 's Server" where
  "Serve_accept remote loc net tk s =
     (let s = s\<lparr>sv_stats := (sv_stats s)\<lparr>ConnectionsReceived := u64 (ConnectionsReceived (sv_stats s) + 1)\<rparr>\<rparr> in
      if sv_slots s < sv_cap s then handle remote loc net tk (s\<lparr>sv_slots := sv_slots s + 1\<rparr>)
      else s\<lparr>sv_stats := (sv_stats s)\<lparr>ConnectionsRejected := u64 (ConnectionsRejected (sv_stats s) + 1)\<rparr>,
             sv_refused := sv_refused s @ [refuse net]\<rparr>)"

text \<open>The deferred clean-up of \<open>handle\<close>, and the slot given back.\<close>

definition leave :: "connection \<Rightarrow> 's Server \<Rightarrow> 's Server" where
  "leave cn s =
     s\<lparr>sv_conns := filter (\<lambda>x. cn_id x \<noteq> cn_id cn) (sv_conns s),
       sv_stats := (sv_stats s)\<lparr>ConnectionsActive := i64 (ConnectionsActive (sv_stats s) - 1)\<rparr>,
       sv_slots := sv_slots s - 1, sv_past := sv_past s @ [cn\<lparr>cn_closed := True\<rparr>]\<rparr>"

text \<open>One step of the goroutine of connection \<open>cn\<close>.\<close>

definition put_conn :: "connection \<Rightarrow> 's Server \<Rightarrow> 's Server" where
  "put_conn cn s = s\<lparr>sv_conns := map (\<lambda>x. if cn_id x = cn_id cn then cn else x) (sv_conns s)\<rparr>"

definition conn_step :: "('s, 'f) backend \<Rightarrow> tick \<Rightarrow> connection \<Rightarrow> 's Server \<Rightarrow> 's Server" where
  "conn_step B tk cn s =
     (case serveConn B tk (cn_pc cn) cn s of
        (Some p, cn, s) \<Rightarrow> put_conn (cn\<lparr>cn_pc := p\<rparr>) s
      | (None, cn, s) \<Rightarrow> leave cn s)"

text \<open>Bytes arrive at the socket of connection \<open>cn\<close>.\<close>

definition arrive :: "bytes \<Rightarrow> connection \<Rightarrow> connection" where
  "arrive p cn = cn\<lparr>cn_r := (cn_r cn)\<lparr>r_br := r_br (cn_r cn) @ p\<rparr>, cn_in := cn_in cn @ p\<rparr>"

text \<open>\<open>Close\<close>: the context is cancelled and every socket closed, which makes the reads return.\<close>

definition Server_Close :: "'s Server \<Rightarrow> 's Server" where
  "Server_Close s = s\<lparr>sv_cancelled := True, sv_conns := map (cn_closed_update (\<lambda>_. True)) (sv_conns s)\<rparr>"

section \<open>Background expiry\<close>

text \<open>
  The loop of \<open>expireCycle\<close> over the sampled keys: how many were read, how many were gone, and
  whether the engine failed.
\<close>

fun expire_keys :: "('s, 'f) backend \<Rightarrow> (nat \<Rightarrow> clock) \<Rightarrow> int \<Rightarrow> bytes list \<Rightarrow> nat \<Rightarrow> nat \<Rightarrow> 's Server \<Rightarrow> (nat \<times> nat) res \<times> 's Server" where
  "expire_keys B clk now [] sampled expired s = (Ret (sampled, expired), s)"
| "expire_keys B clk now (k # ks) sampled expired s =
     (case Get (en_Store (bk_env B)) (clk sampled) k (sv_store s) of
        (Panic, e) \<Rightarrow> (Panic, s\<lparr>sv_store := e\<rparr>)
      | (Fail _, e) \<Rightarrow> (Ret (sampled + 1, expired), s\<lparr>sv_store := e\<rparr>)
      | (Ret x, e) \<Rightarrow>
          let s = s\<lparr>sv_store := e\<rparr> in
          if (case x of None \<Rightarrow> True | Some rec \<Rightarrow> Expired rec now)
          then expire_keys B clk now ks (sampled + 1) (expired + 1)
                 (s\<lparr>sv_stats := (sv_stats s)\<lparr>ExpiredKeys := u64 (ExpiredKeys (sv_stats s) + 1)\<rparr>\<rparr>)
          else expire_keys B clk now ks (sampled + 1) expired s)"

definition expireCycle :: "('s, 'f) backend \<Rightarrow> (nat \<Rightarrow> clock) \<Rightarrow> int \<Rightarrow> nat \<Rightarrow> 's Server \<Rightarrow> (nat \<times> nat) res \<times> 's Server" where
  "expireCycle B clk now choice s =
     (case bk_Sample B choice (ActiveExpireSample (sv_cfg s)) (sv_store s) of
        (Panic, e) \<Rightarrow> (Panic, s\<lparr>sv_store := e\<rparr>)
      | (Fail _, e) \<Rightarrow> (Ret (0, 0), s\<lparr>sv_store := e\<rparr>)
      | (Ret keys, e) \<Rightarrow>
          if keys = [] then (Ret (0, 0), s\<lparr>sv_store := e\<rparr>)
          else expire_keys B clk now keys 0 0 (s\<lparr>sv_store := e\<rparr>))"

text \<open>
  One tick of \<open>activeExpireLoop\<close>: at most 16 rounds, going on while enough of the sample was expired.
  The threshold is a fraction; for samples below $2^{52}$ keys the floating-point quotient compares
  with it as the exact one does. \<open>clk round\<close>, \<open>now round\<close> and \<open>choice round\<close> are the inputs of a round.
\<close>

fun expire_rounds :: "('s, 'f) backend \<Rightarrow> (nat \<Rightarrow> nat \<Rightarrow> clock) \<Rightarrow> (nat \<Rightarrow> int) \<Rightarrow> (nat \<Rightarrow> nat) \<Rightarrow> nat \<Rightarrow> ('s Server, unit) action" where
  "expire_rounds B clk now choice 0 s = (Ret (), s)"
| "expire_rounds B clk now choice (Suc left) s =
     (let round = 15 - left in
      case expireCycle B (clk round) (now round) (choice round) s of
        (Panic, s) \<Rightarrow> (Panic, s)
      | (Fail e, s) \<Rightarrow> (Fail e, s)
      | (Ret (sampled, expired), s) \<Rightarrow>
          (case ActiveExpireThreshold (sv_cfg s) of (num, den) \<Rightarrow>
             if sampled = 0 \<or> expired * den < num * sampled then (Ret (), s)
             else if sv_cancelled s then (Ret (), s)
             else expire_rounds B clk now choice left s))"

definition activeExpireLoop :: "('s, 'f) backend \<Rightarrow> (nat \<Rightarrow> nat \<Rightarrow> clock) \<Rightarrow> (nat \<Rightarrow> int) \<Rightarrow> (nat \<Rightarrow> nat) \<Rightarrow> ('s Server, unit) action" where
  "activeExpireLoop B clk now choice s =
     (if sv_cancelled s then (Ret (), s) else expire_rounds B clk now choice 16 s)"

text \<open>The goroutine \<open>BackgroundSave\<close> starts, seen from the server.\<close>

definition bgsave_step :: "'s Saver \<Rightarrow> clock \<Rightarrow> 's Server \<Rightarrow> 's Server" where
  "bgsave_step sv clk s = s\<lparr>sv_store := snd (Saver_Snapshot sv clk (sv_store s)), sv_bgsave := False\<rparr>"

section \<open>The server as a transition system\<close>

text \<open>
  What holds of every step: the order in which Go iterates a map is an order of its entries, a
  socket does not answer with a protocol error, and the bytes waiting for a reader fit the address
  space.
\<close>

definition fair_tick :: "tick \<Rightarrow> bool" where
  "fair_tick tk \<longleftrightarrow> (\<forall>ms. mset (in_order (tk_in tk) ms) = mset ms) \<and> io_error (tk_err tk)"

definition addressable :: nat where
  "addressable = 2 ^ 60"

inductive server_step :: "('s, 'f) backend \<Rightarrow> 's Server \<Rightarrow> 's Server \<Rightarrow> bool" for B where
  step_accept: "server_step B s (Serve_accept remote loc net tk s)"
| step_arrive: "cn \<in> set (sv_conns s) \<Longrightarrow> length (r_br (cn_r cn) @ p) \<le> addressable \<Longrightarrow> server_step B s (put_conn (arrive p cn) s)"
| step_conn: "cn \<in> set (sv_conns s) \<Longrightarrow> fair_tick tk \<Longrightarrow> server_step B s (conn_step B tk cn s)"
| step_expire: "server_step B s (snd (activeExpireLoop B clk now choice s))"
| step_bgsave: "sv_bgsave s \<Longrightarrow> en_Saver (bk_env B) = Some sv \<Longrightarrow> server_step B s (bgsave_step sv clk s)"
| step_close: "server_step B s (Server_Close s)"

inductive server_run :: "('s, 'f) backend \<Rightarrow> Config \<Rightarrow> 's \<Rightarrow> 's Server \<Rightarrow> bool" for B cfg st where
  run_new: "Server_New cfg st stat = Ret s \<Longrightarrow> cfg_mutable cfg = [] \<Longrightarrow> server_run B cfg st s"
| run_step: "server_run B cfg st s \<Longrightarrow> server_step B s s' \<Longrightarrow> server_run B cfg st s'"

section \<open>Invariants of a server\<close>

text \<open>What a step of a connection leaves alone: the other connections can only be killed.\<close>

definition framed :: "'s Server \<Rightarrow> 's Server \<Rightarrow> bool" where
  "framed s s' \<longleftrightarrow> (\<exists>cs. sv_conns s' = map (relook cs) (sv_conns s)) \<and> sv_past s' = sv_past s \<and> sv_cap s' = sv_cap s
     \<and> sv_slots s' = sv_slots s \<and> sv_nextID s' = sv_nextID s \<and> sv_cancelled s' = sv_cancelled s"

lemma relook_Nil [simp]: "relook [] = id"
  by (simp add: relook_def fun_eq_iff)

lemma framedI: "sv_conns s' = sv_conns s \<Longrightarrow> sv_past s' = sv_past s \<Longrightarrow> sv_cap s' = sv_cap s \<Longrightarrow> sv_slots s' = sv_slots s \<Longrightarrow>
    sv_nextID s' = sv_nextID s \<Longrightarrow> sv_cancelled s' = sv_cancelled s \<Longrightarrow> framed s s'"
  unfolding framed_def by (intro conjI exI [of _ "[]"]) simp_all

lemma flush_wal_frame: "flush_wal B s = (r, s') \<Longrightarrow> s' = s\<lparr>sv_store := sv_store s'\<rparr>"
  by (auto simp: flush_wal_def split: option.splits prod.splits)

lemma out_only:
  "cn' = cn\<lparr>cn_out := cn_out cn'\<rparr> \<Longrightarrow> cn_id cn' = cn_id cn \<and> cn_state cn' = cn_state cn \<and> cn_r cn' = cn_r cn \<and> cn_ver cn' = cn_ver cn
     \<and> cn_room cn' = cn_room cn \<and> cn_net cn' = cn_net cn \<and> cn_closed cn' = cn_closed cn \<and> cn_in cn' = cn_in cn \<and> cn_hist cn' = cn_hist cn"
  by (cases cn, cases cn') simp

lemma finish_frame:
  assumes "finish B tk cn s = (r, cn', s')"
  shows "framed s s' \<and> sv_cfg s' = sv_cfg s \<and> sv_names s' = sv_names s \<and> cn' = cn\<lparr>cn_out := cn_out cn'\<rparr>"
proof -
  obtain x s1 where f: "flush_wal B s = (x, s1)" by fastforce
  obtain e where s1: "s1 = s\<lparr>sv_store := e\<rparr>" using flush_wal_frame [OF f] by blast
  from assms show ?thesis
    unfolding finish_def f s1 by (auto simp: Let_def intro: framedI split: res.splits if_splits)
qed

lemma handleReadError_frame:
  assumes "handleReadError B tk e cn s = (r, cn', s')"
  shows "framed s s' \<and> sv_cfg s' = sv_cfg s \<and> sv_names s' = sv_names s \<and> cn_id cn' = cn_id cn"
proof (cases "e \<noteq> ErrEOF \<and> IsProtocolError e")
  case True
  then obtain cn1 x where f: "finish B tk cn1 (bad_frame s) = (x, cn', s')" "cn_id cn1 = cn_id cn"
    using assms by (auto simp: handleReadError_def Let_def close_after_reply_def write_out_def split: prod.splits res.splits)
  have "framed (bad_frame s) s' \<Longrightarrow> framed s s'" by (simp add: framed_def bad_frame_def)
  moreover have "cn_id cn' = cn_id cn1" using finish_frame [OF f(1)] out_only by blast
  ultimately show ?thesis using finish_frame [OF f(1)] f(2) by (simp add: bad_frame_def)
next
  case False
  with assms show ?thesis
    by (auto simp: handleReadError_def timed_out_def intro!: framedI split: if_splits)
qed

lemma dispatch_frame: "dispatch B tk args cn s = (r, cn', s') \<Longrightarrow> framed s s' \<and> cn_id cn' = cn_id cn"
  by (auto simp: dispatch_def Let_def write_out_def on_state_def framed_def absorb_def count_in_def intro: exI [of _ "[]"]
      split: if_splits prod.splits)

lemma read_command_frame: "read_command tk cn = (r, cn') \<Longrightarrow> \<exists>q. cn' = cn\<lparr>cn_r := q\<rparr>"
  by (auto simp: read_command_def split: prod.splits res.splits option.splits)

lemma serve_read_frame:
  assumes "serve_read B tk cn s = (q, cn', s')"
  shows "framed s s' \<and> cn_id cn' = cn_id cn"
proof (cases "sv_cancelled s \<or> tk_badRead tk")
  case True
  with assms show ?thesis by (auto simp: serve_read_def intro: framedI)
next
  case False
  obtain x cn1 where rd: "read_command tk cn = (x, cn1)" by fastforce
  have id1: "cn_id cn1 = cn_id cn" using read_command_frame [OF rd] by auto
  show ?thesis
    using assms False rd id1
    by (auto simp: serve_read_def Let_def intro: framedI dest: handleReadError_frame dispatch_frame
        split: res.splits prod.splits option.splits bool.splits if_splits)
qed

lemma serve_batch_frame:
  assumes "serve_batch B tk n cn s = (q, cn', s')"
  shows "framed s s' \<and> cn_id cn' = cn_id cn"
proof -
  obtain x cn1 where rd: "read_command tk cn = (x, cn1)" by fastforce
  have id1: "cn_id cn1 = cn_id cn" using read_command_frame [OF rd] by auto
  have fr: "framed s (batch_done n t) = framed s t" for t by (simp add: framed_def batch_done_def)
  show ?thesis
    using assms rd id1
    by (auto simp: serve_batch_def fr intro: framedI dest: handleReadError_frame dispatch_frame
        split: res.splits prod.splits option.splits bool.splits if_splits)
qed

lemma serveConn_frame:
  assumes "serveConn B tk p cn s = (q, cn', s')"
  shows "framed s s' \<and> cn_id cn' = cn_id cn"
proof (cases p)
  case (Finishing stop)
  with assms show ?thesis
    by (auto simp: serve_finish_def dest!: finish_frame dest: out_only split: prod.splits res.splits bool.splits)
next
  case Reading
  with assms show ?thesis by (simp add: serve_read_frame)
next
  case (Batching n)
  with assms show ?thesis by (simp add: serve_batch_frame)
qed

lemma expire_keys_frame:
  "expire_keys B clk now ks i n s = (r, s') \<Longrightarrow> sv_conns s' = sv_conns s \<and> sv_past s' = sv_past s \<and> sv_cap s' = sv_cap s
     \<and> sv_slots s' = sv_slots s \<and> sv_cfg s' = sv_cfg s \<and> sv_names s' = sv_names s"
proof (induction ks arbitrary: i n s)
  case (Cons k ks)
  then show ?case by (fastforce simp: Let_def split: prod.splits res.splits if_splits)
qed simp

lemma expire_rounds_frame:
  "expire_rounds B clk now choice n s = (r, s') \<Longrightarrow> sv_conns s' = sv_conns s \<and> sv_past s' = sv_past s \<and> sv_cap s' = sv_cap s
     \<and> sv_slots s' = sv_slots s \<and> sv_cfg s' = sv_cfg s \<and> sv_names s' = sv_names s"
proof (induction n arbitrary: s)
  case (Suc n)
  obtain x s1 where c: "expireCycle B (clk (15 - n)) (now (15 - n)) (choice (15 - n)) s = (x, s1)" by fastforce
  have "sv_conns s1 = sv_conns s \<and> sv_past s1 = sv_past s \<and> sv_cap s1 = sv_cap s \<and> sv_slots s1 = sv_slots s
      \<and> sv_cfg s1 = sv_cfg s \<and> sv_names s1 = sv_names s"
    using c by (auto simp: expireCycle_def dest: expire_keys_frame split: prod.splits res.splits if_splits)
  with Suc c show ?case by (fastforce simp: Let_def split: prod.splits res.splits if_splits)
qed simp

lemma expire_frame:
  assumes "activeExpireLoop B clk now choice s = (r, s')"
  shows "sv_conns s' = sv_conns s" "sv_past s' = sv_past s" "sv_cap s' = sv_cap s" "sv_slots s' = sv_slots s"
    "sv_cfg s' = sv_cfg s" "sv_names s' = sv_names s"
  using assms expire_rounds_frame [of B clk now choice 16 s r s']
  by (auto simp only: activeExpireLoop_def prod.inject split: if_splits)

text \<open>
  What holds of every connection in every reachable state: \<open>G\<close> of what the connections share,
  \<open>C\<close> of every connection being served, \<open>D\<close> of every connection that ended.
\<close>

locale server_invariant =
  fixes B :: "('s, 'f) backend" and G :: "Config \<Rightarrow> bytes list \<Rightarrow> bool" and C D :: "connection \<Rightarrow> bool"
  assumes fresh: "cn_r cn = NewReader [] ErrEOF lim \<Longrightarrow> cn_out cn = empty_out \<Longrightarrow> cn_ver cn = RESP2 \<Longrightarrow>
      cn_state cn = NewConn cid remote loc authd now \<Longrightarrow> cn_pc cn = Reading \<Longrightarrow> cn_in cn = [] \<Longrightarrow> cn_hist cn = [] \<Longrightarrow> C cn"
    and arrives: "C cn \<Longrightarrow> length (r_br (cn_r cn) @ p) \<le> addressable \<Longrightarrow> C (arrive p cn)"
    and closes: "C cn \<Longrightarrow> C (cn\<lparr>cn_closed := True\<rparr>)" "D cn \<Longrightarrow> D (cn\<lparr>cn_closed := True\<rparr>)"
    and killing: "C cn \<Longrightarrow> C (cn\<lparr>cn_state := (cn_state cn)\<lparr>killed := True\<rparr>, cn_closed := True\<rparr>)"
    and serves: "G (sv_cfg s) (sv_names s) \<Longrightarrow> C cn \<Longrightarrow> fair_tick tk \<Longrightarrow> serveConn B tk (cn_pc cn) cn s = (next_pc, cn', s') \<Longrightarrow>
      G (sv_cfg s') (sv_names s') \<and> (case next_pc of Some q \<Rightarrow> C (cn'\<lparr>cn_pc := q\<rparr>) | None \<Rightarrow> D cn')"
begin

definition keeps :: "'s Server \<Rightarrow> bool" where
  "keeps s \<longleftrightarrow> G (sv_cfg s) (sv_names s) \<and> (\<forall>cn \<in> set (sv_conns s). C cn) \<and> (\<forall>cn \<in> set (sv_past s). D cn)"

lemma keeps_put: "keeps s \<Longrightarrow> C cn \<Longrightarrow> keeps (put_conn cn s)"
  by (auto simp: keeps_def put_conn_def)

lemma keeps_relook: "C cn \<Longrightarrow> C (relook cs cn)"
  using killing by (simp add: relook_def on_state_def)

lemma keeps_conn_step:
  assumes "keeps s" "cn \<in> set (sv_conns s)" "fair_tick tk"
  shows "keeps (conn_step B tk cn s)"
proof -
  obtain q cn' s' where run: "serveConn B tk (cn_pc cn) cn s = (q, cn', s')" by (metis prod_cases3)
  obtain cs where fr: "sv_conns s' = map (relook cs) (sv_conns s)" "sv_past s' = sv_past s"
    using serveConn_frame [OF run] by (auto simp: framed_def)
  have after: "G (sv_cfg s') (sv_names s') \<and> (case q of Some q \<Rightarrow> C (cn'\<lparr>cn_pc := q\<rparr>) | None \<Rightarrow> D cn')"
    using assms serves [OF _ _ _ run] by (simp add: keeps_def)
  have kept: "keeps s'" using assms(1) after keeps_relook by (auto simp: keeps_def fr)
  show ?thesis
  proof (cases q)
    case None
    with after kept run closes(2) show ?thesis by (auto simp: conn_step_def leave_def keeps_def)
  next
    case (Some p)
    with after kept run keeps_put show ?thesis by (simp add: conn_step_def)
  qed
qed

lemma keeps_step: "server_step B s s' \<Longrightarrow> keeps s \<Longrightarrow> keeps s'"
proof (induction rule: server_step.cases)
  case (step_accept s remote loc net tk)
  have "C cn" if "cn = \<lparr>cn_id = cid, cn_state = NewConn cid remote loc a t, cn_r = NewReader [] ErrEOF lim, cn_out = empty_out,
      cn_ver = RESP2, cn_room = room, cn_net = net, cn_closed = False, cn_idle = idle, cn_pc = Reading, cn_in = [], cn_hist = []\<rparr>"
    for cn cid a t lim room idle by (rule fresh) (simp_all add: that)
  with step_accept show ?case by (auto simp: Serve_accept_def handle_def keeps_def Let_def)
next
  case (step_arrive cn s p)
  then have "C (arrive p cn)" by (intro arrives) (simp_all add: keeps_def)
  with step_arrive show ?case by (simp add: keeps_put)
next
  case (step_conn cn s tk)
  then show ?case by (simp add: keeps_conn_step)
next
  case (step_expire s clk now choice)
  then show ?case using expire_frame [of B clk now choice s, OF prod.collapse [symmetric]] by (simp add: keeps_def)
next
  case (step_bgsave s sv clk)
  then show ?case by (simp add: keeps_def bgsave_step_def)
next
  case (step_close s)
  then show ?case using closes(1) by (auto simp: keeps_def Server_Close_def)
qed

lemma keeps_run:
  assumes "server_run B cfg st s" "cfg_mutable cfg = [] \<Longrightarrow> G cfg (sort (map Name commands))"
  shows "keeps s"
  using assms
proof (induction rule: server_run.induct)
  case (run_new stat s)
  then show ?case by (auto simp: keeps_def Server_New_def bind_res_eq_Ret)
qed (blast intro: keeps_step)

end

end
