(* ===== verification/Server_Replies.thy ===== *)
theory Server_Replies
  imports Server
begin

text \<open>
  What a client of the server observes: every command gets its one reply, the replies come in the
  order of the commands, and no reply is held back while the server waits for input.
\<close>

section \<open>No reply is held back\<close>

lemma finish_True: "finish B tk cn s = (Ret True, cn', s') \<Longrightarrow> ob_buf (cn_out cn') = []"
  using bw_Flush_ok [of "socket cn" "cn_out cn"]
  by (auto simp: finish_def Let_def split: prod.splits res.splits if_splits)

lemma handleReadError_True: "handleReadError B tk e cn s = (Ret True, cn', s') \<Longrightarrow> cn' = cn \<and> s' = s \<and> isTimeout e \<and> \<not> r_inFlight (cn_r cn)"
  by (auto simp: handleReadError_def Let_def split: prod.splits res.splits if_splits)

definition nothing_held :: "connection \<Rightarrow> bool" where
  "nothing_held cn \<longleftrightarrow> (cn_pc cn = Reading \<longrightarrow> ob_buf (cn_out cn) = [])"

lemma held_serves:
  assumes "nothing_held cn" "serveConn B tk (cn_pc cn) cn s = (Some Reading, cn', s')"
  shows "ob_buf (cn_out cn') = []"
proof (cases "cn_pc cn")
  case Reading
  obtain x cn1 where rd: "read_command tk cn = (x, cn1)" by fastforce
  obtain q where "cn1 = cn\<lparr>cn_r := q\<rparr>" using read_command_frame [OF rd] by blast
  then have cn1: "ob_buf (cn_out cn1) = []" using assms(1) Reading by (simp add: nothing_held_def)
  show ?thesis
    using assms(2) Reading rd cn1
    by (auto simp: serve_read_def Let_def dest: handleReadError_True split: if_splits res.splits prod.splits option.splits bool.splits)
next
  case (Batching n)
  with assms(2) show ?thesis
    by (auto simp: serve_batch_def split: if_splits res.splits prod.splits option.splits bool.splits)
next
  case (Finishing stop)
  with assms(2) show ?thesis
    by (auto simp: serve_finish_def dest: finish_True split: if_splits res.splits prod.splits bool.splits)
qed

interpretation held: server_invariant B "\<lambda>_ _. True" nothing_held "\<lambda>_. True" for B :: "('s, 'f) backend"
proof (unfold_locales, goal_cases)
  case (6 s cn tk next_pc cn' s')
  then show ?case
    using held_serves [of cn B tk s cn' s'] by (auto simp: nothing_held_def split: option.splits)
qed (auto simp: nothing_held_def arrive_def empty_out_def)

section \<open>One reply per command, in order\<close>

text \<open>
  The shared state every command finds, a reply for a command (\<open>SHUTDOWN\<close> and the \<open>SETRANGE\<close> that panics
  write nothing), and the invariant of a connection.
\<close>

definition shared_ok :: "Config \<Rightarrow> bytes list \<Rightarrow> bool" where
  "shared_ok cfg names \<longleftrightarrow> length names = length commands \<and> set names \<subseteq> Name ` set commands
     \<and> fst ` set (cfg_mutable cfg) \<subseteq> set mutable_names"

definition answered :: "bytes list \<times> bytes \<Rightarrow> bool" where
  "answered x \<longleftrightarrow> (\<exists>ver t. snd x = enc ver t) \<or> snd x = [] \<and> map ascii_lower (fst x ! 0) \<in> {''shutdown'', ''setrange''}"

definition replied :: "connection \<Rightarrow> bool" where
  "replied cn \<longleftrightarrow> carries (concat (map snd (cn_hist cn))) (cn_out cn) \<and> (\<forall>x \<in> set (cn_hist cn). answered x)"

text \<open>
  The commands run are the first ones of the stream \<open>cmds\<close> the client sends, if what has arrived is the
  beginning of such a stream.
\<close>

definition sends :: "bytes list list \<Rightarrow> connection \<Rightarrow> bool" where
  "sends cmds cn \<longleftrightarrow> prefix (cn_in cn) (concat (map cmd_enc cmds)) \<and> (\<forall>c \<in> set cmds. cmd_fits (r_lim (cn_r cn)) c)
     \<and> 21 < line_room (cn_r cn)"

definition follows :: "bytes list list \<Rightarrow> connection \<Rightarrow> bool" where
  "follows cmds cn \<longleftrightarrow> (sends cmds cn \<longrightarrow>
     (\<exists>k \<le> length cmds. map fst (cn_hist cn) = take k cmds
        \<and> (cn_pc cn \<noteq> Finishing True \<longrightarrow> arena_ok (cn_r cn) \<and> cn_in cn = concat (map cmd_enc (take k cmds)) @ r_br (cn_r cn))))"

definition conn_ok :: "bytes list list \<Rightarrow> connection \<Rightarrow> bool" where
  "conn_ok cmds cn \<longleftrightarrow> cn_ver cn = Proto (cn_state cn) \<and> Proto (cn_state cn) \<in> {RESP2, RESP3}
     \<and> length (r_br (cn_r cn)) \<le> addressable \<and> replied cn \<and> follows cmds cn"

definition past_ok :: "bytes list list \<Rightarrow> connection \<Rightarrow> bool" where
  "past_ok cmds cn \<longleftrightarrow> replied cn \<and> (sends cmds cn \<longrightarrow> (\<exists>k \<le> length cmds. map fst (cn_hist cn) = take k cmds))"

lemma replied_finish: "finish B tk cn s = (r, cn', s') \<Longrightarrow> replied cn \<Longrightarrow> replied cn'"
  by (auto simp: finish_def replied_def Let_def carries_flush split: prod.splits res.splits if_splits)

text \<open>What running a command does to the connection.\<close>

definition ran :: "bytes list \<Rightarrow> connection \<Rightarrow> connection \<Rightarrow> bool" where
  "ran args cn cn' \<longleftrightarrow> cn_r cn' = cn_r cn \<and> cn_in cn' = cn_in cn \<and> cn_pc cn' = cn_pc cn
     \<and> (\<exists>p. cn_hist cn' = cn_hist cn @ [(args, p)])"

lemma dispatch_ran: "dispatch B tk args cn s = (r, cn', s') \<Longrightarrow> ran args cn cn' \<or> r = Ret False \<and> cn' = cn \<and> s' = s"
  by (auto simp: dispatch_def ran_def Let_def write_out_def on_state_def split: if_splits prod.splits)

lemma replied_write:
  "replied cn \<Longrightarrow> answered (args, p) \<Longrightarrow> replied (write_out tk p (cn\<lparr>cn_hist := cn_hist cn @ [(args, p)]\<rparr>))"
  using carries_Writes by (auto simp: replied_def write_out_def socket_def)

lemma dispatch_ok:
  assumes "quiet_env (bk_env B) n" "fair_tick tk" "shared_ok (sv_cfg s) (sv_names s)" "args \<noteq> []" "length args \<le> addressable"
    and "cn_ver cn = Proto (cn_state cn)" "Proto (cn_state cn) \<in> {RESP2, RESP3}" "replied cn"
    and "dispatch B tk args cn s = (r, cn', s')"
  shows "shared_ok (sv_cfg s') (sv_names s') \<and> replied cn'
    \<and> (r \<noteq> Panic \<longrightarrow> cn_ver cn' = Proto (cn_state cn') \<and> Proto (cn_state cn') \<in> {RESP2, RESP3})"
proof (cases "killed (cn_state cn)")
  case True
  with assms show ?thesis by (auto simp: dispatch_def)
next
  case False
  let ?c = "\<lparr>Args = args, ctx_name = [], ctx_in = tk_in tk\<rparr>" and ?w = "world_of cn (count_in args s)"
  obtain x w where run: "Dispatch (bk_env B) ?c ?w = (x, w)" by fastforce
  have wf: "wf_world ?w" using assms(3,6,7) by (auto simp: wf_world_def world_of_def count_in_def shared_ok_def)
  have c: "map_order ?c" "2 * int (Argc ?c) \<le> MaxInt64" "Args ?c \<noteq> []"
    using assms(2,4,5) by (simp_all add: map_order_def fair_tick_def Argc_def addressable_def)
  define q where "q = w_bw (wd_out w)"
  have cn': "cn' = write_out tk q ((on_state (wd_conn w) cn)\<lparr>cn_ver := w_ver (wd_out w), cn_hist := cn_hist cn @ [(args, q)]\<rparr>)"
    and s': "s' = absorb w (count_in args s)" and r: "r = Panic \<longleftrightarrow> x = Panic"
    using assms(9) False run by (auto simp: dispatch_def Let_def q_def on_state_def split: res.splits)
  have ans: "answered (args, q) \<and> shared_ok (wd_cfg w) (wd_names w) \<and> (x \<noteq> Panic \<longrightarrow> wf_world w)"
  proof (cases "x = Panic")
    case True
    from Dispatch_panic [OF assms(1) wf c run [unfolded True]] obtain e where "w = ?w\<lparr>wd_store := e\<rparr>" by blast
    moreover have "map ascii_lower (args ! 0) = ''setrange''" using Dispatch_one_reply [OF assms(1) wf c run] True by simp
    ultimately show ?thesis using True assms(3) by (simp add: answered_def q_def world_of_def count_in_def)
  next
    case False
    with Dispatch_one_reply [OF assms(1) wf c run]
    have "wf_world w" "(\<exists>t. q = enc (Proto (wd_conn w)) t) \<or> map ascii_lower (args ! 0) = ''shutdown'' \<and> q = []"
      by (auto simp: q_def world_of_def)
    then show ?thesis by (auto simp: answered_def wf_world_def shared_ok_def)
  qed
  have "replied ((on_state (wd_conn w) cn)\<lparr>cn_ver := w_ver (wd_out w)\<rparr>)" using assms(8) by (simp add: replied_def on_state_def)
  from replied_write [OF this] ans have "replied cn'" by (simp add: cn' on_state_def)
  moreover have "cn_ver cn' = w_ver (wd_out w)" "cn_state cn' = wd_conn w" by (simp_all add: cn' write_out_def on_state_def)
  ultimately show ?thesis using ans r by (auto simp: s' absorb_def wf_world_def)
qed

text \<open>Reading the next command of the stream.\<close>

lemma next_cmd:
  assumes "prefix (concat (map cmd_enc (take k cmds)) @ b) (concat (map cmd_enc cmds))" "b \<noteq> []"
  obtains z where "k < length cmds" "b @ z = cmd_enc (cmds ! k) @ concat (map cmd_enc (drop (Suc k) cmds))"
proof -
  let ?e = "\<lambda>cs. concat (map cmd_enc cs)"
  have split: "?e cmds = ?e (take k cmds) @ ?e (drop k cmds)" by (metis append_take_drop_id concat_append map_append)
  then have "prefix b (?e (drop k cmds))" using assms(1) by simp
  then obtain z where z: "?e (drop k cmds) = b @ z" by (auto simp: prefix_def)
  with assms(2) have "drop k cmds \<noteq> []" by auto
  then have k: "k < length cmds" by simp
  then have "drop k cmds = cmds ! k # drop (Suc k) cmds" by (simp add: Cons_nth_drop_Suc)
  with z have "b @ z = cmd_enc (cmds ! k) @ ?e (drop (Suc k) cmds)" by simp
  with k that show ?thesis by blast
qed

lemma read_stream:
  assumes "sends cmds cn" "k \<le> length cmds" "arena_ok (cn_r cn)" "cn_in cn = concat (map cmd_enc (take k cmds)) @ r_br (cn_r cn)"
    and "io_error (tk_err tk)" "read_command tk cn = (x, cn1)"
  shows "case x of
      Ret None \<Rightarrow> False
    | Ret (Some args) \<Rightarrow> k < length cmds \<and> args = cmds ! k \<and> arena_ok (cn_r cn1)
        \<and> cn_in cn = concat (map cmd_enc (take (Suc k) cmds)) @ r_br (cn_r cn1)
    | Fail e \<Rightarrow> \<not> IsProtocolError e \<and> (\<not> r_inFlight (cn_r cn1) \<longrightarrow> r_br (cn_r cn1) = r_br (cn_r cn) \<and> arena_ok (cn_r cn1))
    | Panic \<Rightarrow> False"
proof (cases "r_br (cn_r cn) = []")
  case True
  with assms(3,5,6) show ?thesis by (auto simp: read_command_def ReadCommand_def arena_ok_def)
next
  case False
  let ?r = "(cn_r cn)\<lparr>r_err := tk_err tk\<rparr>"
  have "prefix (concat (map cmd_enc (take k cmds)) @ r_br (cn_r cn)) (concat (map cmd_enc cmds))"
    using assms(1,4) by (simp add: sends_def)
  from next_cmd [OF this False] obtain z where k: "k < length cmds"
    and z: "r_br (cn_r cn) @ z = cmd_enc (cmds ! k) @ concat (map cmd_enc (drop (Suc k) cmds))" by blast
  have fits: "cmd_fits (r_lim ?r) (cmds ! k)" "21 < line_room ?r" "arena_ok ?r" "io_error (r_err ?r)"
    using assms(1,3,5) k by (simp_all add: sends_def arena_ok_def)
  show ?thesis
  proof (cases "length (r_br (cn_r cn)) < length (cmd_enc (cmds ! k))")
    case True
    obtain e r' where e: "ReadCommand ?r = (Fail e, r')" "\<not> IsProtocolError e"
      using ReadCommand_cut [of ?r "cmds ! k" z] fits z True by auto
    moreover have "r_inFlight r'" using ReadCommand_inFlight [of ?r] e(1) False by simp
    ultimately show ?thesis using assms(6) by (auto simp: read_command_def)
  next
    case False
    then have "take (length (cmd_enc (cmds ! k))) (r_br (cn_r cn)) = cmd_enc (cmds ! k)"
      using arg_cong [OF z, of "take (length (cmd_enc (cmds ! k)))"] by simp
    then obtain rest where rest: "r_br (cn_r cn) = cmd_enc (cmds ! k) @ rest" by (metis append_take_drop_id)
    then obtain r' where r': "ReadCommand ?r = (Ret (Some (r_args r')), r')" "r_br r' = rest" "args_of r' = cmds ! k" "arena_inv r'"
      using ReadCommand_enc [of ?r "cmds ! k" rest] fits by auto
    have "concat (map cmd_enc (take (Suc k) cmds)) = concat (map cmd_enc (take k cmds)) @ cmd_enc (cmds ! k)"
      using k by (simp add: take_Suc_conv_app_nth)
    with r' rest assms(4,6) k show ?thesis by (auto simp: read_command_def args_of_def arena_inv_def)
  qed
qed

lemma read_bounds:
  assumes "length (r_br (cn_r cn)) \<le> addressable" "read_command tk cn = (x, cn1)"
  shows "length (r_br (cn_r cn1)) \<le> addressable \<and> r_lim (cn_r cn1) = r_lim (cn_r cn)
    \<and> (\<forall>args. x = Ret (Some args) \<longrightarrow> args \<noteq> [] \<and> length args \<le> addressable)"
proof -
  let ?r = "(cn_r cn)\<lparr>r_err := tk_err tk\<rparr>"
  obtain y r' where rc: "ReadCommand ?r = (y, r')" by fastforce
  have "length (r_br r') \<le> length (r_br (cn_r cn))" "r_lim r' = r_lim (cn_r cn)"
    using ReadCommand_shrinks [of ?r] ReadCommand_lim [of ?r] by (simp_all add: rc)
  moreover have "cn_r cn1 = r'" "x = Ret (Some args) \<Longrightarrow> \<exists>gs. y = Ret (Some gs) \<and> args = map (deref (r_heap r')) gs" for args
    using assms(2) rc by (auto simp: read_command_def split: res.splits option.splits)
  ultimately show ?thesis using assms(1) ReadCommand_args [of ?r] rc by fastforce
qed

text \<open>A step of a connection keeps the invariant.\<close>

lemma follows_eq:
  assumes "cn_in cn' = cn_in cn" "r_lim (cn_r cn') = r_lim (cn_r cn)"
  shows "sends cmds cn' = sends cmds cn"
  using assms by (simp add: sends_def)

lemma readError_ok:
  assumes "handleReadError B tk e cn s = (r, cn', s')" "replied cn"
  shows "replied cn' \<and> cn_ver cn' = cn_ver cn \<and> Proto (cn_state cn') = Proto (cn_state cn) \<and> cn_r cn' = cn_r cn \<and> cn_in cn' = cn_in cn
    \<and> (\<not> IsProtocolError e \<longrightarrow> cn_hist cn' = cn_hist cn)"
proof (cases "e \<noteq> ErrEOF \<and> IsProtocolError e")
  case True
  define msg where "msg = w_bw (WriteError (''ERR '' @ ProtocolError_Error (en_Error (bk_env B)) e) \<lparr>w_bw = [], w_ver = cn_ver cn\<rparr>)"
  define cn1 where "cn1 = close_after_reply (write_out tk msg (cn\<lparr>cn_hist := cn_hist cn @ [([], msg)]\<rparr>))"
  obtain x where f: "finish B tk cn1 (bad_frame s) = (x, cn', s')"
    using assms(1) True by (auto simp: handleReadError_def Let_def cn1_def msg_def split: prod.splits res.splits)
  have "msg = enc (cn_ver cn) (RError (sanitizeLine (''ERR '' @ ProtocolError_Error (en_Error (bk_env B)) e)))"
    unfolding msg_def write_emit emit_def by simp
  then have "answered ([], msg)" unfolding answered_def snd_conv by blast
  from replied_write [OF assms(2) this, of tk] have "replied cn1" by (simp add: cn1_def close_after_reply_def replied_def)
  moreover have "cn_ver cn1 = cn_ver cn" "Proto (cn_state cn1) = Proto (cn_state cn)" "cn_r cn1 = cn_r cn" "cn_in cn1 = cn_in cn"
    by (simp_all add: cn1_def close_after_reply_def write_out_def)
  moreover note replied_finish [OF f] out_only [of cn' cn1] finish_frame [OF f]
  ultimately show ?thesis using True by simp
next
  case False
  with assms show ?thesis by (auto simp: handleReadError_def split: if_splits)
qed

definition step_ok :: "bytes list list \<Rightarrow> pc option \<times> connection \<times> 's Server \<Rightarrow> bool" where
  "step_ok cmds x = (case x of (q, cn, s) \<Rightarrow> shared_ok (sv_cfg s) (sv_names s)
     \<and> (case q of Some p \<Rightarrow> conn_ok cmds (cn\<lparr>cn_pc := p\<rparr>) | None \<Rightarrow> past_ok cmds cn))"

lemma replied_pc [simp]: "replied (cn\<lparr>cn_pc := p\<rparr>) = replied cn" "replied (cn\<lparr>cn_r := r\<rparr>) = replied cn"
  "replied (cn\<lparr>cn_idle := d\<rparr>) = replied cn"
  by (simp_all add: replied_def)

lemma sends_pc [simp]: "sends cmds (cn\<lparr>cn_pc := p\<rparr>) = sends cmds cn"
  by (simp add: sends_def)

lemma conn_past: "conn_ok cmds (cn\<lparr>cn_pc := p\<rparr>) \<Longrightarrow> past_ok cmds cn"
  by (auto simp: conn_ok_def past_ok_def follows_def)

lemma conn_leaves: "conn_ok cmds cn \<Longrightarrow> past_ok cmds cn"
  by (auto simp: conn_ok_def past_ok_def follows_def)

lemma idle_ok: "conn_ok cmds (cn\<lparr>cn_idle := d, cn_pc := p\<rparr>) = conn_ok cmds (cn\<lparr>cn_pc := p\<rparr>)"
  by (simp add: conn_ok_def follows_def sends_def)

lemma ran_step:
  assumes "quiet_env (bk_env B) n" "fair_tick tk" "shared_ok (sv_cfg s) (sv_names s)"
    and "conn_ok cmds cn" "cn_pc cn \<noteq> Finishing True" "read_command tk cn = (Ret (Some args), cn1)"
    and "dispatch B tk args (cn1\<lparr>cn_idle := d\<rparr>) s = (r, cn', s')"
  shows "step_ok cmds (case r of Panic \<Rightarrow> None | Ret True \<Rightarrow> Some p | _ \<Rightarrow> Some (Finishing True), cn', s')"
proof -
  let ?cn = "cn1\<lparr>cn_idle := d\<rparr>"
  obtain r1 where cn1: "cn1 = cn\<lparr>cn_r := r1\<rparr>" using read_command_frame [OF assms(6)] by blast
  have b: "length (r_br r1) \<le> addressable" "r_lim r1 = r_lim (cn_r cn)" "args \<noteq> []" "length args \<le> addressable"
    using read_bounds [OF _ assms(6)] assms(4) by (auto simp: conn_ok_def cn1)
  have d: "shared_ok (sv_cfg s') (sv_names s')" "replied cn'"
    "r \<noteq> Panic \<Longrightarrow> cn_ver cn' = Proto (cn_state cn') \<and> Proto (cn_state cn') \<in> {RESP2, RESP3}"
    using dispatch_ok [OF assms(1-3) b(3,4) _ _ _ assms(7)] assms(4) by (auto simp: conn_ok_def cn1)
  have ran: "ran args ?cn cn' \<or> r = Ret False \<and> cn' = ?cn" using dispatch_ran [OF assms(7)] by blast
  then have cn': "cn_r cn' = r1" "cn_in cn' = cn_in cn" by (auto simp: ran_def cn1)
  have stream: "\<exists>k \<le> length cmds. map fst (cn_hist cn') = take k cmds
      \<and> (r \<noteq> Ret False \<longrightarrow> arena_ok r1 \<and> cn_in cn = concat (map cmd_enc (take k cmds)) @ r_br r1)" if sc: "sends cmds cn"
  proof -
    obtain k where k: "k \<le> length cmds" "map fst (cn_hist cn) = take k cmds" "arena_ok (cn_r cn)"
      "cn_in cn = concat (map cmd_enc (take k cmds)) @ r_br (cn_r cn)"
      using assms(4,5) sc by (auto simp: conn_ok_def follows_def)
    from read_stream [OF sc k(1,3,4) _ assms(6)] assms(2)
    have nx: "k < length cmds" "args = cmds ! k" "arena_ok r1" "cn_in cn = concat (map cmd_enc (take (Suc k) cmds)) @ r_br r1"
      by (simp_all add: fair_tick_def cn1)
    show ?thesis
    proof (cases "ran args ?cn cn'")
      case True
      with k nx show ?thesis by (intro exI [of _ "Suc k"]) (auto simp: ran_def cn1 take_Suc_conv_app_nth)
    next
      case False
      with ran have "r = Ret False" "cn' = ?cn" by auto
      with k show ?thesis by (intro exI [of _ k]) (simp add: cn1)
    qed
  qed
  have sd: "sends cmds cn' = sends cmds cn" using cn' b(2) by (intro follows_eq) simp_all
  have "follows cmds (cn'\<lparr>cn_pc := Finishing True\<rparr>)" "r \<noteq> Ret False \<Longrightarrow> follows cmds (cn'\<lparr>cn_pc := p\<rparr>)"
    using stream cn' sd by (auto simp: follows_def)
  then have c: "r \<noteq> Panic \<Longrightarrow> conn_ok cmds (cn'\<lparr>cn_pc := Finishing True\<rparr>)"
    "r \<noteq> Panic \<Longrightarrow> r \<noteq> Ret False \<Longrightarrow> conn_ok cmds (cn'\<lparr>cn_pc := p\<rparr>)"
    using d b(1) cn' by (simp_all add: conn_ok_def)
  have "past_ok cmds cn'" using stream sd d(2) by (auto simp: past_ok_def)
  with c d(1) show ?thesis by (auto simp: step_ok_def split: res.splits bool.splits)
qed

lemma failed_step:
  assumes "fair_tick tk" "conn_ok cmds cn" "cn_pc cn \<noteq> Finishing True" "read_command tk cn = (Fail e, cn1)"
    and "handleReadError B tk e cn1 s = (r, cn', s')"
  shows "past_ok cmds cn' \<and> conn_ok cmds (cn'\<lparr>cn_pc := Finishing True\<rparr>) \<and> (r = Ret True \<longrightarrow> conn_ok cmds (cn'\<lparr>cn_pc := p\<rparr>))"
proof -
  obtain r1 where cn1: "cn1 = cn\<lparr>cn_r := r1\<rparr>" using read_command_frame [OF assms(4)] by blast
  have b: "length (r_br r1) \<le> addressable" "r_lim r1 = r_lim (cn_r cn)"
    using read_bounds [OF _ assms(4)] assms(2) by (auto simp: conn_ok_def cn1)
  have rp: "replied cn1" using assms(2) by (simp add: conn_ok_def cn1)
  note h = readError_ok [OF assms(5) rp]
  have sd: "sends cmds cn' = sends cmds cn" using h b(2) by (intro follows_eq) (simp_all add: cn1)
  have stream: "\<exists>k \<le> length cmds. map fst (cn_hist cn') = take k cmds
      \<and> (r = Ret True \<longrightarrow> arena_ok r1 \<and> cn_in cn = concat (map cmd_enc (take k cmds)) @ r_br r1)" if sc: "sends cmds cn"
  proof -
    obtain k where k: "k \<le> length cmds" "map fst (cn_hist cn) = take k cmds" "arena_ok (cn_r cn)"
      "cn_in cn = concat (map cmd_enc (take k cmds)) @ r_br (cn_r cn)"
      using assms(2,3) sc by (auto simp: conn_ok_def follows_def)
    from read_stream [OF sc k(1,3,4) _ assms(4)] assms(1)
    have "\<not> IsProtocolError e" "\<not> r_inFlight r1 \<longrightarrow> r_br r1 = r_br (cn_r cn) \<and> arena_ok r1"
      by (simp_all add: fair_tick_def cn1)
    with k h show ?thesis using handleReadError_True [of B tk e cn1 s cn' s'] assms(5)
      by (intro exI [of _ k]) (auto simp: cn1)
  qed
  have "follows cmds (cn'\<lparr>cn_pc := Finishing True\<rparr>)" "r = Ret True \<Longrightarrow> follows cmds (cn'\<lparr>cn_pc := p\<rparr>)"
    using stream h sd by (auto simp: follows_def cn1)
  moreover have "cn_ver cn' = Proto (cn_state cn')" "Proto (cn_state cn') \<in> {RESP2, RESP3}"
    using h assms(2) by (simp_all add: conn_ok_def cn1)
  ultimately have "conn_ok cmds (cn'\<lparr>cn_pc := Finishing True\<rparr>)" "r = Ret True \<Longrightarrow> conn_ok cmds (cn'\<lparr>cn_pc := p\<rparr>)"
    using h b(1) by (simp_all add: conn_ok_def cn1)
  then show ?thesis using conn_past by blast
qed

lemma blank_step:
  assumes "fair_tick tk" "conn_ok cmds cn" "cn_pc cn \<noteq> Finishing True" "read_command tk cn = (Ret None, cn1)"
  shows "conn_ok cmds (cn1\<lparr>cn_pc := p\<rparr>)"
proof -
  obtain r1 where cn1: "cn1 = cn\<lparr>cn_r := r1\<rparr>" using read_command_frame [OF assms(4)] by blast
  have b: "length (r_br r1) \<le> addressable" "r_lim r1 = r_lim (cn_r cn)"
    using read_bounds [OF _ assms(4)] assms(2) by (auto simp: conn_ok_def cn1)
  have "\<not> sends cmds cn"
  proof
    assume sc: "sends cmds cn"
    obtain k where "k \<le> length cmds" "arena_ok (cn_r cn)" "cn_in cn = concat (map cmd_enc (take k cmds)) @ r_br (cn_r cn)"
      using assms(2,3) sc by (auto simp: conn_ok_def follows_def)
    from read_stream [OF sc this _ assms(4)] assms(1) show False by (simp add: fair_tick_def)
  qed
  moreover have "sends cmds cn1 = sends cmds cn" using b(2) by (intro follows_eq) (simp_all add: cn1)
  ultimately show ?thesis using assms(2) b(1) by (auto simp: conn_ok_def follows_def cn1)
qed

lemma read_panic_free: "read_command tk cn \<noteq> (Panic, cn1)"
proof -
  have "fst (ReadCommand r) \<noteq> Panic" for r
  proof (cases "r_br r")
    case (Cons t br)
    let ?r0 = "r\<lparr>r_args := [], r_used := 0, r_inFlight := True\<rparr>"
    have "fst (sbind (readCount ''multibulk'') command_body q) \<noteq> Panic" for q
      using readCount_frame(2) [of "''multibulk''" q] command_body_inFlight(2) by (auto simp: sbind_def split: prod.splits res.splits)
    with readInline_frame [of ?r0] show ?thesis by (auto simp: ReadCommand_Cons [OF Cons] split: prod.splits res.splits)
  qed (simp add: ReadCommand_def)
  then show ?thesis by (auto simp: read_command_def split: prod.splits res.splits option.splits) (metis fst_conv)
qed

lemma serve_read_ok:
  assumes "quiet_env (bk_env B) n" "fair_tick tk" "shared_ok (sv_cfg s) (sv_names s)" "conn_ok cmds cn" "cn_pc cn = Reading"
  shows "step_ok cmds (serve_read B tk cn s)"
proof (cases "sv_cancelled s \<or> tk_badRead tk")
  case True
  then show ?thesis using assms(3) conn_leaves [OF assms(4)] by (auto simp: serve_read_def step_ok_def)
next
  case go: False
  have pc: "cn_pc cn \<noteq> Finishing True" using assms(5) by simp
  obtain x cn1 where rd: "read_command tk cn = (x, cn1)" by fastforce
  define d where "d = (if cn_idle cn1 \<noteq> None then deadlineFor (IdleTimeout (sv_cfg s)) (tk_now tk 1) else cn_idle cn1)"
  have idle: "(if cn_idle cn1 \<noteq> None then cn1\<lparr>cn_idle := deadlineFor (IdleTimeout (sv_cfg s)) (tk_now tk 1)\<rparr> else cn1) = cn1\<lparr>cn_idle := d\<rparr>"
    by (simp add: d_def)
  show ?thesis
  proof (cases x)
    case (Ret a)
    show ?thesis
    proof (cases a)
      case None
      from blank_step [OF assms(2,4) pc rd [unfolded Ret None], of "Batching 1"] show ?thesis
        using go rd Ret None assms(3) by (simp add: serve_read_def step_ok_def idle_ok)
    next
      case (Some args)
      obtain r cn' s' where dp: "dispatch B tk args (cn1\<lparr>cn_idle := d\<rparr>) s = (r, cn', s')" by (metis prod_cases3)
      from ran_step [OF assms(1-4) pc rd [unfolded Ret Some] dp, of "Batching 1"] show ?thesis
        using go rd Ret Some dp idle by (auto simp: serve_read_def Let_def split: res.splits bool.splits)
    qed
  next
    case (Fail e)
    obtain r cn' s' where h: "handleReadError B tk e cn1 s = (r, cn', s')" by (metis prod_cases3)
    have "shared_ok (sv_cfg s') (sv_names s')" using handleReadError_frame [OF h] assms(3) by simp
    with failed_step [OF assms(2,4) pc rd [unfolded Fail] h, of Reading] go rd Fail h show ?thesis
      by (auto simp: serve_read_def step_ok_def split: res.splits bool.splits)
  next
    case Panic
    with rd read_panic_free show ?thesis by blast
  qed
qed

lemma serve_batch_ok:
  assumes "quiet_env (bk_env B) n" "fair_tick tk" "shared_ok (sv_cfg s) (sv_names s)" "conn_ok cmds cn" "cn_pc cn = Batching k"
  shows "step_ok cmds (serve_batch B tk k cn s)"
proof -
  have pc: "cn_pc cn \<noteq> Finishing True" using assms(5) by simp
  have fr: "sv_cfg (batch_done k t) = sv_cfg t" "sv_names (batch_done k t) = sv_names t" for t :: "'a Server" by (simp_all add: batch_done_def)
  have stay: "conn_ok cmds (cn\<lparr>cn_pc := Finishing False\<rparr>)" using assms(4) pc by (simp add: conn_ok_def follows_def sends_def)
  have leave: "past_ok cmds cn" by (rule conn_leaves [OF assms(4)])
  obtain x cn1 where rd: "read_command tk cn = (x, cn1)" by fastforce
  show ?thesis
  proof (cases "k < maxBatch \<and> length (ob_buf (cn_out cn)) < flushThreshold \<and> HasCompleteCommand (r_lim (cn_r cn)) (buffered tk cn) = Ret True")
    case False
    with stay leave assms(3) show ?thesis
      by (auto simp: serve_batch_def step_ok_def fr split: res.splits bool.splits)
  next
    case go: True
    show ?thesis
    proof (cases x)
      case (Ret a)
      show ?thesis
      proof (cases a)
        case None
        from blank_step [OF assms(2,4) pc rd [unfolded Ret None], of "Batching k"] go rd Ret None assms(3) show ?thesis
          by (simp add: serve_batch_def step_ok_def)
      next
        case (Some args)
        obtain r cn' s' where dp: "dispatch B tk args (cn1\<lparr>cn_idle := cn_idle cn1\<rparr>) s = (r, cn', s')" by (metis prod_cases3)
        from ran_step [OF assms(1-4) pc rd [unfolded Ret Some] dp, of "Batching (k + 1)"] show ?thesis
          using go rd Ret Some dp by (auto simp: serve_batch_def split: res.splits bool.splits)
      qed
    next
      case (Fail e)
      obtain r cn' s' where h: "handleReadError B tk e cn1 s = (r, cn', s')" by (metis prod_cases3)
      have "shared_ok (sv_cfg s') (sv_names s')" using handleReadError_frame [OF h] assms(3) by simp
      with failed_step [OF assms(2,4) pc rd [unfolded Fail] h, of "Finishing False"] go rd Fail h show ?thesis
        by (auto simp: serve_batch_def step_ok_def fr split: res.splits bool.splits)
    next
      case Panic
      with rd read_panic_free show ?thesis by blast
    qed
  qed
qed

lemma serve_finish_ok:
  assumes "shared_ok (sv_cfg s) (sv_names s)" "conn_ok cmds cn" "cn_pc cn = Finishing stop"
  shows "step_ok cmds (serve_finish B tk stop cn s)"
proof -
  obtain r cn' s' where f: "finish B tk cn s = (r, cn', s')" by (metis prod_cases3)
  note fr = finish_frame [OF f] and o = out_only [of cn' cn]
  have "replied cn'" using replied_finish [OF f] assms(2) by (simp add: conn_ok_def)
  moreover have "sends cmds cn' = sends cmds cn" using fr o by (intro follows_eq) simp_all
  ultimately have "past_ok cmds cn'" "\<not> stop \<Longrightarrow> conn_ok cmds (cn'\<lparr>cn_pc := Reading\<rparr>)"
    using assms(2,3) fr o by (auto simp: conn_ok_def past_ok_def follows_def)
  with f fr assms(1) show ?thesis by (auto simp: serve_finish_def step_ok_def split: res.splits bool.splits)
qed

lemma stream_invariant:
  assumes "quiet_env (bk_env B) n"
  shows "server_invariant B shared_ok (conn_ok cmds) (past_ok cmds)"
proof (unfold_locales, goal_cases)
  case (1 cn lim cid remote loc authd now)
  then show ?case
    by (auto simp: conn_ok_def NewConn_def NewReader_def Let_def replied_def carries_def empty_out_def follows_def addressable_def
        arena_ok_def arenaBlock_def intro!: exI [of _ 0])
next
  case (2 cn p)
  have "sends cmds (arrive p cn) \<Longrightarrow> sends cmds cn" by (auto simp: sends_def arrive_def dest: append_prefixD)
  with 2 show ?case by (fastforce simp: conn_ok_def follows_def arrive_def replied_def arena_ok_def)
next
  case (6 s cn tk next_pc cn' s')
  have "step_ok cmds (serveConn B tk (cn_pc cn) cn s)"
    by (cases "cn_pc cn")
      (simp_all add: serve_read_ok [OF assms 6(3,1,2)] serve_batch_ok [OF assms 6(3,1,2)] serve_finish_ok [OF 6(1,2)])
  with 6(4) show ?case by (simp add: step_ok_def)
qed (auto simp: conn_ok_def past_ok_def replied_def follows_def sends_def)

section \<open>The bound on connections\<close>

definition slots_ok :: "nat \<Rightarrow> 's Server \<Rightarrow> bool" where
  "slots_ok cap s \<longleftrightarrow> distinct (map cn_id (sv_conns s)) \<and> length (sv_conns s) \<le> sv_slots s \<and> sv_slots s \<le> cap \<and> sv_cap s = cap"

lemma relook_id [simp]: "cn_id (relook cs cn) = cn_id cn"
  by (simp add: relook_def on_state_def)

lemma put_ids: "map cn_id (sv_conns (put_conn cn s)) = map cn_id (sv_conns s)"
  by (auto simp: put_conn_def)

lemma slots_framed: "framed s s' \<Longrightarrow> slots_ok cap s \<Longrightarrow> slots_ok cap s'"
  by (auto simp: framed_def slots_ok_def comp_def)

lemma slots_put: "slots_ok cap (put_conn cn s) = slots_ok cap s"
proof -
  have "length (sv_conns (put_conn cn s)) = length (sv_conns s)" "sv_slots (put_conn cn s) = sv_slots s" "sv_cap (put_conn cn s) = sv_cap s"
    by (simp_all add: put_conn_def)
  then show ?thesis by (simp add: slots_ok_def put_ids)
qed

lemma slots_leave:
  assumes "slots_ok cap s" "cn_id cn \<in> set (map cn_id (sv_conns s))"
  shows "slots_ok cap (leave cn s)"
proof -
  from assms(2) obtain x where x: "x \<in> set (sv_conns s)" "cn_id x = cn_id cn" by auto
  have "length (filter (\<lambda>y. cn_id y \<noteq> cn_id cn) (sv_conns s)) < length (sv_conns s)"
    using length_filter_less [of x "sv_conns s" "\<lambda>y. cn_id y \<noteq> cn_id cn"] x by simp
  moreover have "distinct (map cn_id (filter (\<lambda>y. cn_id y \<noteq> cn_id cn) (sv_conns s)))"
    using assms(1) by (simp add: slots_ok_def distinct_map_filter)
  ultimately show ?thesis using assms(1) by (auto simp: slots_ok_def leave_def)
qed

lemma slots_step:
  assumes "server_step B s s'" "slots_ok cap s"
  shows "slots_ok cap s'"
  using assms
proof (induction rule: server_step.cases)
  case (step_accept s remote loc net tk)
  then have "length (filter (\<lambda>x. cn_id x \<noteq> c) (sv_conns s)) \<le> sv_slots s" "distinct (map cn_id (filter (\<lambda>x. cn_id x \<noteq> c) (sv_conns s)))" for c
    by (auto simp: slots_ok_def distinct_map_filter intro: order_trans [OF length_filter_le])
  with step_accept show ?case by (auto simp: slots_ok_def Serve_accept_def handle_def Let_def)
next
  case (step_arrive cn s p)
  then show ?case by (simp add: slots_put)
next
  case (step_conn cn s tk)
  obtain q cn' s1 where run: "serveConn B tk (cn_pc cn) cn s = (q, cn', s1)" by (metis prod_cases3)
  note fr = serveConn_frame [OF run]
  have ok: "slots_ok cap s1" using slots_framed fr step_conn by blast
  have "map cn_id (sv_conns s1) = map cn_id (sv_conns s)" using fr by (auto simp: framed_def comp_def)
  with fr step_conn have "cn_id cn' \<in> set (map cn_id (sv_conns s1))" by auto
  with ok step_conn run show ?case by (auto simp: conn_step_def slots_put slots_leave split: option.splits)
next
  case (step_expire s clk now choice)
  then show ?case using expire_frame [of B clk now choice s, OF prod.collapse [symmetric]] by (simp add: slots_ok_def)
next
  case (step_bgsave s sv clk)
  then show ?case by (simp add: slots_ok_def bgsave_step_def)
next
  case (step_close s)
  then show ?case by (simp add: slots_ok_def Server_Close_def comp_def)
qed

text \<open>The reply buffers stay within their size.\<close>

definition roomy :: "connection \<Rightarrow> bool" where
  "roomy cn \<longleftrightarrow> length (ob_buf (cn_out cn)) \<le> cn_room cn"

lemma roomy_write: "roomy cn \<Longrightarrow> roomy (write_out tk p cn)"
  by (simp add: roomy_def write_out_def room_Writes)

lemma roomy_finish: "finish B tk cn s = (r, cn', s') \<Longrightarrow> roomy cn \<Longrightarrow> roomy cn'"
  using room_Flush [of "socket cn" "cn_out cn"]
  by (auto simp: finish_def roomy_def Let_def split: prod.splits res.splits if_splits)

lemma roomy_dispatch: "dispatch B tk args cn s = (r, cn', s') \<Longrightarrow> roomy cn \<Longrightarrow> roomy cn'"
  by (auto simp: dispatch_def Let_def on_state_def roomy_def write_out_def room_Writes split: if_splits prod.splits)

lemma roomy_readError: "handleReadError B tk e cn s = (r, cn', s') \<Longrightarrow> roomy cn \<Longrightarrow> roomy cn'"
  by (auto simp: handleReadError_def Let_def close_after_reply_def write_out_def roomy_def room_Writes
      dest!: roomy_finish split: if_splits prod.splits res.splits)

lemma roomy_serves:
  assumes "serveConn B tk (cn_pc cn) cn s = (q, cn', s')" "roomy cn"
  shows "roomy cn'"
proof -
  obtain x cn1 where rd: "read_command tk cn = (x, cn1)" by fastforce
  have cn1: "roomy cn1" "roomy (cn1\<lparr>cn_idle := d\<rparr>)" for d using read_command_frame [OF rd] assms(2) by (auto simp: roomy_def)
  note rules = roomy_readError [OF _ cn1(1)] roomy_dispatch [OF _ cn1(1)] roomy_dispatch [OF _ cn1(2)]
  show ?thesis
  proof (cases "cn_pc cn")
    case Reading
    with assms rd cn1 rules show ?thesis
      by (auto simp: serve_read_def Let_def split: if_splits res.splits prod.splits option.splits bool.splits)
  next
    case (Batching n)
    with assms rd cn1 rules show ?thesis
      by (auto simp: serve_batch_def split: if_splits res.splits prod.splits option.splits bool.splits)
  next
    case (Finishing stop)
    with assms show ?thesis
      by (auto simp: serve_finish_def dest: roomy_finish split: res.splits prod.splits bool.splits)
  qed
qed

interpretation room: server_invariant B "\<lambda>_ _. True" roomy "\<lambda>_. True" for B :: "('s, 'f) backend"
proof (unfold_locales, goal_cases)
  case (6 s cn tk next_pc cn' s')
  then show ?case using roomy_serves [of B tk cn s next_pc cn' s'] by (auto simp: roomy_def split: option.splits)
qed (auto simp: roomy_def arrive_def empty_out_def)

section \<open>Concrete servers\<close>

text \<open>What \<open>main\<close> assembles for the memory engine without a journal, and a server on it for concrete instances.\<close>

definition cache_backend :: "('j memstore, 'f) env \<Rightarrow> (nat \<Rightarrow> (bytes list \<Rightarrow> bytes list) \<times> (nat \<Rightarrow> nat)) \<Rightarrow> ('j memstore, 'f) backend" where
  "cache_backend E sample =
     \<lparr>bk_env = E, bk_flushWAL = None, bk_Sample = (\<lambda>i n. case sample i of (ord, rnd) \<Rightarrow> mem_SampleVolatile ord rnd n)\<rparr>"

interpretation cached: server_invariant "cache_backend (cache_env M F info ver low secs err) sample" shared_ok "conn_ok cmds" "past_ok cmds"
  for M F info ver low secs err sample cmds
  by (rule stream_invariant [of _ shardCount]) (simp add: cache_backend_def cache.quiet_env_axioms)

definition demo_tick :: tick where
  "demo_tick =
     \<lparr>tk_now = (\<lambda>_. 0), tk_err = ErrTimeout, tk_badRead = False, tk_badWrite = False, tk_in = ctx_in (demo_ctx []), tk_cuts = [],
      tk_buffered = 0\<rparr>"

lemma demo_fair: "fair_tick demo_tick"
  by (simp add: fair_tick_def demo_tick_def demo_ctx_def io_error_def IsProtocolError_def)

definition demo_start :: "unit memstore Server" where
  "demo_start = (case Server_New Default (New ()) (New_ServerStats 0) of Ret s \<Rightarrow> s)"

lemma Validate_Default: "Validate Default = Ret ()"
  by code_simp

lemma demo_run: "server_run B Default (New ()) demo_start"
  by (rule run_new [of _ _ "New_ServerStats 0"]) (simp_all add: demo_start_def Server_New_def Validate_Default, simp add: Default_def)

text \<open>A client that has sent a \<open>PING\<close>, and the server after it has run the command.\<close>

definition demo_backend :: "(unit memstore, int) backend" where
  "demo_backend = cache_backend demo_env (\<lambda>_. (id, id))"

definition demo_accepted :: "unit memstore Server" where
  "demo_accepted = Serve_accept [] [] (\<lambda>_. None) demo_tick demo_start"

definition demo_client :: connection where
  "demo_client = arrive (cmd_enc [''PING'']) (hd (sv_conns demo_accepted))"

definition demo_ran :: "unit memstore Server" where
  "demo_ran = conn_step demo_backend demo_tick demo_client (put_conn demo_client demo_accepted)"

lemma demo_accepted_conn:
  "\<exists>cn. sv_conns demo_accepted = [cn] \<and> cn_r cn = NewReader [] ErrEOF DefaultLimits \<and> cn_pc cn = Reading \<and> cn_hist cn = [] \<and> cn_in cn = []
     \<and> \<not> killed (cn_state cn)"
  "\<not> sv_cancelled demo_accepted"
  unfolding demo_accepted_def demo_start_def
  by (simp_all add: Server_New_def Validate_Default Serve_accept_def handle_def Let_def)
    (simp_all add: Default_def NewConn_def)

lemma demo_client_facts:
  "cn_r demo_client = (NewReader [] ErrEOF DefaultLimits)\<lparr>r_br := cmd_enc [''PING'']\<rparr>" "cn_pc demo_client = Reading" "cn_hist demo_client = []"
  "cn_in demo_client = cmd_enc [''PING'']" "\<not> killed (cn_state demo_client)" "put_conn demo_client demo_accepted = demo_accepted\<lparr>sv_conns := [demo_client]\<rparr>"
  using demo_accepted_conn(1) by (auto simp: demo_client_def arrive_def put_conn_def NewReader_def Let_def)

lemma demo_ran_run: "server_run demo_backend Default (New ()) demo_ran"
proof -
  obtain cn where cn: "sv_conns demo_accepted = [cn]" "cn_r cn = NewReader [] ErrEOF DefaultLimits" using demo_accepted_conn by blast
  have "server_run demo_backend Default (New ()) demo_accepted"
    unfolding demo_accepted_def by (rule run_step [OF demo_run step_accept])
  moreover have "length (cmd_enc [''PING'']) = 14" by code_simp
  then have "length (cmd_enc [''PING'']) \<le> addressable" by (simp add: addressable_def)
  then have "server_step demo_backend demo_accepted (put_conn demo_client demo_accepted)"
    using cn unfolding demo_client_def by (intro step_arrive) (simp_all add: NewReader_def Let_def)
  ultimately have "server_run demo_backend Default (New ()) (put_conn demo_client demo_accepted)" by (rule run_step)
  then show ?thesis
    unfolding demo_ran_def by (rule run_step) (rule step_conn [OF _ demo_fair], simp add: demo_client_facts(6))
qed

lemma demo_ran_conn:
  obtains cn p where "cn \<in> set (sv_conns demo_ran) \<union> set (sv_past demo_ran)" "cn_hist cn = [([''PING''], p)]"
    "cn_in cn = cmd_enc [''PING'']" "r_lim (cn_r cn) = DefaultLimits"
proof -
  let ?s = "demo_accepted\<lparr>sv_conns := [demo_client]\<rparr>" and ?r = "(cn_r demo_client)\<lparr>r_err := tk_err demo_tick\<rparr>"
  have lim: "DefaultLimits = r_lim (NewReader [] ErrEOF DefaultLimits)" by (simp add: NewReader_def DefaultLimits_def)
  have r: "r_br ?r = cmd_enc [''PING''] @ []" "arena_ok ?r" "21 < line_room ?r" "cmd_fits (r_lim ?r) [''PING'']" "r_lim ?r = DefaultLimits"
    by (simp_all add: demo_client_facts NewReader_def Let_def arena_ok_def arenaBlock_def cmd_fits_def DefaultLimits_def buffer_size_def)
  from ReadCommand_enc [OF r(1-4)] obtain r' where r': "ReadCommand ?r = (Ret (Some (r_args r')), r')" "args_of r' = [''PING'']" "r_lim r' = DefaultLimits"
    using r(5) by auto
  have rd: "read_command demo_tick demo_client = (Ret (Some [''PING'']), demo_client\<lparr>cn_r := r'\<rparr>)"
    using r' by (simp add: read_command_def args_of_def)
  define cn1 where "cn1 = (if cn_idle demo_client \<noteq> None
    then demo_client\<lparr>cn_r := r', cn_idle := deadlineFor (IdleTimeout (sv_cfg ?s)) (tk_now demo_tick 1)\<rparr> else demo_client\<lparr>cn_r := r'\<rparr>)"
  have cn1: "cn_r cn1 = r'" "cn_hist cn1 = []" "cn_in cn1 = cmd_enc [''PING'']" "\<not> killed (cn_state cn1)"
    by (simp_all add: cn1_def demo_client_facts)
  obtain x cn' s' where d: "dispatch demo_backend demo_tick [''PING''] cn1 ?s = (x, cn', s')" by (metis prod_cases3)
  have "ran [''PING''] cn1 cn'" using d cn1(4) by (auto simp: dispatch_def ran_def Let_def write_out_def on_state_def split: prod.splits)
  then obtain p where cn': "cn_hist cn' = [([''PING''], p)]" "cn_in cn' = cmd_enc [''PING'']" "r_lim (cn_r cn') = DefaultLimits"
    using cn1 r'(3) by (auto simp: ran_def)
  have "\<exists>q. serveConn demo_backend demo_tick (cn_pc demo_client) demo_client ?s = (q, cn', s')"
    using demo_accepted_conn(2) rd d unfolding demo_client_facts(2) serveConn.simps serve_read_def cn1_def
    by (simp add: demo_tick_def Let_def split: res.splits bool.splits)
  then obtain q where run: "serveConn demo_backend demo_tick (cn_pc demo_client) demo_client ?s = (q, cn', s')" by blast
  note fr = serveConn_frame [OF run]
  have "cn_id cn' \<in> cn_id ` set (sv_conns s')" using fr by (auto simp: framed_def)
  then have "\<exists>cn \<in> set (sv_conns demo_ran) \<union> set (sv_past demo_ran). cn_hist cn = cn_hist cn' \<and> cn_in cn = cn_in cn' \<and> cn_r cn = cn_r cn'"
    unfolding demo_ran_def demo_client_facts(6) conn_step_def run
  proof (cases q)
    case (Some p)
    with \<open>cn_id cn' \<in> cn_id ` set (sv_conns s')\<close> show "\<exists>cn \<in> set (sv_conns (case (q, cn', s') of (Some p, cn, s) \<Rightarrow> put_conn (cn\<lparr>cn_pc := p\<rparr>) s
        | (None, cn, s) \<Rightarrow> leave cn s)) \<union> set (sv_past (case (q, cn', s') of (Some p, cn, s) \<Rightarrow> put_conn (cn\<lparr>cn_pc := p\<rparr>) s
        | (None, cn, s) \<Rightarrow> leave cn s)). cn_hist cn = cn_hist cn' \<and> cn_in cn = cn_in cn' \<and> cn_r cn = cn_r cn'"
      by (intro bexI [of _ "cn'\<lparr>cn_pc := p\<rparr>"]) (auto simp: put_conn_def)
  qed (simp add: leave_def)
  then obtain cn where "cn \<in> set (sv_conns demo_ran) \<union> set (sv_past demo_ran)" "cn_hist cn = cn_hist cn'" "cn_in cn = cn_in cn'"
    "cn_r cn = cn_r cn'" by blast
  with cn' show ?thesis by (intro that [of cn p]) simp_all
qed

section \<open>Properties\<close>

text \<open>
  C9: A client that sends a pipeline of commands, in pieces of any size and whatever the other clients,
  the engine and the clocks do, has the commands run in the order sent, each exactly once and each with
  exactly one reply (\<open>SHUTDOWN\<close> and the \<open>SETRANGE\<close> that panics have none). What its socket has received is
  at every moment a prefix of these replies in this order, and all of them when the server waits for
  the next command, unless a write on the socket failed.
\<close>

theorem replies_come_in_order:
  assumes "server_run B cfg st s" "quiet_env (bk_env B) n" "cn \<in> set (sv_conns s) \<union> set (sv_past s)" "sends cmds cn"
  shows "(\<exists>k \<le> length cmds. map fst (cn_hist cn) = take k cmds) \<and> (\<forall>x \<in> set (cn_hist cn). answered x)
    \<and> prefix (ob_sent (cn_out cn)) (concat (map snd (cn_hist cn)))
    \<and> (cn \<in> set (sv_conns s) \<longrightarrow> cn_pc cn = Reading \<longrightarrow> \<not> ob_err (cn_out cn) \<longrightarrow> ob_sent (cn_out cn) = concat (map snd (cn_hist cn)))"
proof -
  note inv = stream_invariant [OF assms(2), of cmds]
  have "cfg_mutable cfg = [] \<Longrightarrow> shared_ok cfg (sort (map Name commands))" by (auto simp: shared_ok_def)
  from server_invariant.keeps_run [OF inv assms(1) this]
  have k: "past_ok cmds cn" using assms(3) conn_leaves by (auto simp: server_invariant.keeps_def [OF inv])
  have "nothing_held cn" if "cn \<in> set (sv_conns s)" using held.keeps_run [OF assms(1)] that by (simp add: held.keeps_def)
  then have "ob_sent (cn_out cn) = concat (map snd (cn_hist cn))"
    if "cn \<in> set (sv_conns s)" "cn_pc cn = Reading" "\<not> ob_err (cn_out cn)"
    using k that by (simp add: past_ok_def replied_def carries_def nothing_held_def)
  with k assms(4) show ?thesis by (auto simp: past_ok_def replied_def carries_def)
qed

theorem replies_come_in_order_witness:
  "\<exists>cn p. cn \<in> set (sv_conns demo_ran) \<union> set (sv_past demo_ran) \<and> cn_hist cn = [([''PING''], p)] \<and> answered ([''PING''], p)
     \<and> prefix (ob_sent (cn_out cn)) p"
proof -
  obtain cn p where cn: "cn \<in> set (sv_conns demo_ran) \<union> set (sv_past demo_ran)" "cn_hist cn = [([''PING''], p)]"
    "cn_in cn = cmd_enc [''PING'']" "r_lim (cn_r cn) = DefaultLimits" by (rule demo_ran_conn)
  have "sends [[''PING'']] cn" using cn(3,4) by (simp add: sends_def cmd_fits_def DefaultLimits_def buffer_size_def)
  moreover have "quiet_env (bk_env demo_backend) shardCount"
    by (simp add: demo_backend_def cache_backend_def demo_env_def cache.quiet_env_axioms)
  ultimately show ?thesis using replies_come_in_order [OF demo_ran_run _ cn(1)] cn(1,2) by force
qed

text \<open>
  C11: In every reachable state of the server at most \<open>MaxClients\<close> connections are being served, where
  \<open>MaxClients\<close> is the value the server was started with, whatever \<open>CONFIG SET maxclients\<close> has stored
  since; every one of them holds a slot, has its own number, and buffers no more reply bytes than its
  reply buffer has room for.
\<close>

theorem connections_are_bounded:
  assumes "server_run B cfg st s"
  shows "length (sv_conns s) \<le> sv_slots s \<and> sv_slots s \<le> nat (MaxClients cfg) \<and> distinct (map cn_id (sv_conns s))
    \<and> (\<forall>cn \<in> set (sv_conns s). length (ob_buf (cn_out cn)) \<le> cn_room cn)"
proof -
  have "slots_ok (nat (MaxClients cfg)) s"
    using assms
  proof (induction rule: server_run.induct)
    case (run_new stat s)
    then show ?case by (auto simp: slots_ok_def Server_New_def bind_res_eq_Ret)
  qed (rule slots_step)
  with room.keeps_run [OF assms] show ?thesis by (simp add: slots_ok_def room.keeps_def roomy_def)
qed

theorem connections_are_bounded_witness:
  "length (sv_conns demo_accepted) = 1 \<and> sv_slots demo_accepted \<le> 10000"
proof -
  have "server_run demo_backend Default (New ()) demo_accepted"
    unfolding demo_accepted_def by (rule run_step [OF demo_run step_accept])
  from connections_are_bounded [OF this] demo_accepted_conn(1) show ?thesis by (auto simp: Default_def)
qed

end
