(* ===== verification/Server_Durable.thy ===== *)
theory Server_Durable
  imports Server_Replies
begin

text \<open>
  The order of the log and the replies. \<open>finish\<close> flushes the write-ahead log before it flushes the
  replies; the reply buffer passes bytes on by itself when it overflows. The first gives the guarantee
  the comment on \<open>finish\<close> states, the second is the case it does not cover.
\<close>

section \<open>When bytes reach a client\<close>

lemma finish_sends:
  assumes "finish B tk cn s = (r, cn', s')" "ob_sent (cn_out cn') \<noteq> ob_sent (cn_out cn)"
  shows "\<exists>s1. flush_wal B s = (Ret (), s1) \<and> sv_store s' = sv_store s1"
  using assms by (auto simp: finish_def Let_def split: prod.splits res.splits if_splits)

lemma write_quiet:
  assumes "length (ob_buf (cn_out cn)) + length p \<le> cn_room cn"
  shows "ob_sent (cn_out (write_out tk p cn)) = ob_sent (cn_out cn)"
  using assms by (cases "ob_err (cn_out cn)") (simp_all add: write_out_def bw_Writes_fits)

text \<open>The bytes a step writes.\<close>

definition written :: "connection \<Rightarrow> connection \<Rightarrow> bytes" where
  "written cn cn' = concat (map snd (drop (length (cn_hist cn)) (cn_hist cn')))"

definition fits_room :: "connection \<Rightarrow> connection \<Rightarrow> bool" where
  "fits_room cn cn' \<longleftrightarrow> length (ob_buf (cn_out cn)) + length (written cn cn') \<le> cn_room cn"

lemma dispatch_quiet:
  assumes "dispatch B tk args cn s = (r, cn', s')" "fits_room cn cn'"
  shows "ob_sent (cn_out cn') = ob_sent (cn_out cn)"
proof (cases "killed (cn_state cn)")
  case False
  obtain x w where "Dispatch (bk_env B) \<lparr>Args = args, ctx_name = [], ctx_in = tk_in tk\<rparr> (world_of cn (count_in args s)) = (x, w)" by fastforce
  with False have cn': "cn' = write_out tk (w_bw (wd_out w)) ((on_state (wd_conn w) cn)\<lparr>cn_ver := w_ver (wd_out w),
      cn_hist := cn_hist cn @ [(args, w_bw (wd_out w))]\<rparr>)"
    using assms(1) by (simp add: dispatch_def Let_def on_state_def)
  then have "written cn cn' = w_bw (wd_out w)" by (simp add: written_def write_out_def on_state_def)
  with assms(2) show ?thesis unfolding cn' by (subst write_quiet) (simp_all add: fits_room_def on_state_def)
qed (use assms(1) in \<open>simp add: dispatch_def\<close>)

lemma readError_sends:
  assumes "handleReadError B tk e cn s = (r, cn', s')" "fits_room cn cn'" "ob_sent (cn_out cn') \<noteq> ob_sent (cn_out cn)"
  shows "\<exists>s1. flush_wal B s = (Ret (), s1) \<and> sv_store s' = sv_store s1"
proof (cases "e \<noteq> ErrEOF \<and> IsProtocolError e")
  case True
  define msg where "msg = w_bw (WriteError (''ERR '' @ ProtocolError_Error (en_Error (bk_env B)) e) \<lparr>w_bw = [], w_ver = cn_ver cn\<rparr>)"
  define cn1 where "cn1 = close_after_reply (write_out tk msg (cn\<lparr>cn_hist := cn_hist cn @ [([], msg)]\<rparr>))"
  obtain x where f: "finish B tk cn1 (bad_frame s) = (x, cn', s')"
    using assms(1) True by (auto simp: handleReadError_def Let_def cn1_def msg_def split: prod.splits res.splits)
  have "cn_hist cn' = cn_hist cn @ [([], msg)]"
    using out_only [of cn' cn1] finish_frame [OF f] by (simp add: cn1_def close_after_reply_def write_out_def)
  then have "written cn cn' = msg" by (simp add: written_def)
  with assms(2) have "ob_sent (cn_out (write_out tk msg (cn\<lparr>cn_hist := cn_hist cn @ [([], msg)]\<rparr>))) = ob_sent (cn_out cn)"
    by (subst write_quiet) (simp_all add: fits_room_def)
  then have "ob_sent (cn_out cn1) = ob_sent (cn_out cn)" by (simp add: cn1_def close_after_reply_def)
  with finish_sends [OF f] assms(3) obtain s1 where "flush_wal B (bad_frame s) = (Ret (), s1)" "sv_store s' = sv_store s1" by auto
  then show ?thesis
    by (auto simp: flush_wal_def bad_frame_def split: option.splits prod.splits)
next
  case False
  with assms show ?thesis by (auto simp: handleReadError_def split: if_splits)
qed

lemma fits_room_read:
  "read_command tk cn = (x, cn1) \<Longrightarrow> fits_room cn cn' \<Longrightarrow> fits_room cn1 cn' \<and> fits_room (cn1\<lparr>cn_idle := d\<rparr>) cn' \<and> ob_sent (cn_out cn1) = ob_sent (cn_out cn)"
  using read_command_frame [of tk cn x cn1] by (auto simp: fits_room_def written_def)

text \<open>A step that hands bytes to the socket has flushed the log, if what it wrote fits the buffer.\<close>

lemma serve_sends:
  assumes "serveConn B tk (cn_pc cn) cn s = (q, cn', s')" "fits_room cn cn'" "ob_sent (cn_out cn') \<noteq> ob_sent (cn_out cn)"
  shows "\<exists>s1. flush_wal B s = (Ret (), s1) \<and> sv_store s' = sv_store s1"
proof -
  obtain x cn1 where rd: "read_command tk cn = (x, cn1)" by fastforce
  have cn1: "fits_room cn1 cn'" "fits_room (cn1\<lparr>cn_idle := d\<rparr>) cn'" "ob_sent (cn_out cn1) = ob_sent (cn_out cn)" for d
    using fits_room_read [OF rd assms(2)] by auto
  have e: "\<exists>s2. flush_wal B s = (Ret (), s2) \<and> sv_store s1 = sv_store s2" if "handleReadError B tk y cn1 s = (r, cn', s1)" for y r s1
    using readError_sends [OF that cn1(1)] cn1(3) assms(3) by simp
  have d: "\<not> (dispatch B tk args cn1 s = (r, cn', s1))" "\<not> (dispatch B tk args (cn1\<lparr>cn_idle := i\<rparr>) s = (r, cn', s1))" for args r s1 i
    using dispatch_quiet [of B tk args cn1 s r cn' s1] dispatch_quiet [of B tk args "cn1\<lparr>cn_idle := i\<rparr>" s r cn' s1] cn1 assms(3) by auto
  show ?thesis
  proof (cases "cn_pc cn")
    case Reading
    with assms rd cn1(3) show ?thesis
      by (auto simp: serve_read_def Let_def d intro: e split: if_splits res.splits prod.splits option.splits bool.splits)
  next
    case (Batching n)
    have fr: "sv_store (batch_done n t) = sv_store t" for t :: "'a Server" by (simp add: batch_done_def)
    with Batching assms rd cn1(3) show ?thesis
      by (auto simp: serve_batch_def d intro: e split: if_splits res.splits prod.splits option.splits bool.splits)
  next
    case (Finishing stop)
    then obtain r where "finish B tk cn s = (r, cn', s')"
      using assms(1) by (auto simp: serve_finish_def split: res.splits prod.splits bool.splits)
    from finish_sends [OF this assms(3)] show ?thesis .
  qed
qed

section \<open>When replies do not fit\<close>

abbreviation fine :: network where
  "fine \<equiv> \<lambda>_. None"

lemma write_ok: "\<not> ob_err b \<Longrightarrow> \<not> ob_err (bw_Write N fine p b)"
proof (induction N fine p b rule: bw_Write.induct)
  case (1 N p b)
  have f: "\<not> ob_err x \<Longrightarrow> \<not> ob_err (bw_Flush fine x)" "\<not> ob_err (sock_Write fine q x)" for x q
    by (simp_all add: bw_Flush_def sock_Write_def)
  with 1 show ?case by (auto simp: bw_Write.simps [of N fine p b] Let_def)
qed

lemma writes_ok: "\<not> ob_err b \<Longrightarrow> \<not> ob_err (bw_Writes N fine cuts p b)"
proof -
  have "\<not> ob_err b \<Longrightarrow> \<not> ob_err (fold (bw_Write N fine) ps b)" for ps b
    by (induction ps arbitrary: b) (simp_all add: write_ok)
  then show "\<not> ob_err b \<Longrightarrow> ?thesis" by (simp add: bw_Writes_def)
qed

text \<open>What the writer cannot keep it has passed on.\<close>

lemma overflow_sends:
  assumes "\<not> ob_err b" "length (ob_buf b) \<le> N"
  shows "\<exists>k. ob_sent (bw_Writes N fine cuts p b) = ob_sent b @ take k (ob_buf b @ p) \<and> length (ob_buf b) + length p \<le> k + N"
proof -
  let ?b = "bw_Writes N fine cuts p b"
  have "carries (ob_sent b @ ob_buf b) b" using assms(1) by (simp add: carries_def)
  from carries_Writes [OF this, of p N fine cuts] writes_ok [OF assms(1)]
  have all: "ob_sent ?b @ ob_buf ?b = ob_sent b @ ob_buf b @ p" by (simp add: carries_def)
  obtain q where q: "ob_sent ?b = ob_sent b @ q" using sent_Writes [of b N fine cuts p] by (auto simp: prefix_def)
  with all have eq: "q @ ob_buf ?b = ob_buf b @ p" by simp
  then have "length q + length (ob_buf ?b) = length (ob_buf b) + length p" by (metis length_append)
  moreover have "length (ob_buf ?b) \<le> N" by (rule room_Writes [OF assms(2)])
  moreover have "take (length q) (ob_buf b @ p) = q" by (metis append_eq_conv_conj eq)
  ultimately show ?thesis using q by (intro exI [of _ "length q"]) auto
qed

section \<open>Background expiry\<close>

text \<open>
  Reading the sampled keys changes the keyspace for no reader, whatever engine keeps the contract; the
  readings of the clock during one read do not go back and are not later than \<open>T\<close>.
\<close>

context command_store
begin

lemma expire_keys_ok:
  assumes "\<And>i. clk i 0 \<le> clk i 1 \<and> clk i 1 \<le> T" "bk_env B = E" "same inv abs T K (sv_store s)"
    and "expire_keys B clk now ks sampled expired s = (r, s')"
  shows "same inv abs T K (sv_store s')"
  using assms(3,4)
proof (induction ks arbitrary: sampled expired s)
  case (Cons k ks)
  obtain x e where g: "Get S (clk sampled) k (sv_store s) = (x, e)" by fastforce
  have "clk sampled 0 \<le> clk sampled 1" "clk sampled 1 \<le> T" using assms(1) by simp_all
  with get_law [OF _ g] Cons.prems(1) have "same inv abs T K e" unfolding same_def by (meson agree_later agree_trans)
  then have e: "same inv abs T K (sv_store (s\<lparr>sv_store := e\<rparr>))"
    "same inv abs T K (sv_store (s\<lparr>sv_store := e, sv_stats := st\<rparr>))" for st by simp_all
  show ?case
    using Cons.prems(2) Cons.IH [OF e(1)] Cons.IH [OF e(2)] e
    by (auto simp: assms(2) engine g Let_def split: res.splits if_splits)
qed simp

lemma expire_rounds_ok:
  assumes "\<And>n i. clk n i 0 \<le> clk n i 1 \<and> clk n i 1 \<le> T" "bk_env B = E"
    and "\<And>i n e x e'. bk_Sample B i n e = (x, e') \<Longrightarrow> e' = e" "same inv abs T K (sv_store s)"
    and "expire_rounds B clk now choice left s = (r, s')"
  shows "same inv abs T K (sv_store s')"
  using assms(4,5)
proof (induction left arbitrary: s)
  case (Suc left)
  let ?i = "15 - left"
  obtain x s1 where c: "expireCycle B (clk ?i) (now ?i) (choice ?i) s = (x, s1)" by fastforce
  obtain y e where sm: "bk_Sample B (choice ?i) (ActiveExpireSample (sv_cfg s)) (sv_store s) = (y, e)" by fastforce
  have "same inv abs T K (sv_store (s\<lparr>sv_store := e\<rparr>))" using assms(3) [OF sm] Suc.prems(1) by simp
  with expire_keys_ok [of "clk ?i" T B K "s\<lparr>sv_store := e\<rparr>"] assms(1,2) c sm have "same inv abs T K (sv_store s1)"
    by (auto simp: expireCycle_def split: res.splits if_splits)
  with Suc c show ?case by (auto simp: Let_def split: res.splits if_splits prod.splits)
qed simp

end

section \<open>The durable server\<close>

text \<open>What \<open>main\<close> assembles for the memory engine behind the log.\<close>

definition durable_backend :: "persist_opt \<Rightarrow> (Engine, 'f) env \<Rightarrow> (nat \<Rightarrow> (bytes list \<Rightarrow> bytes list) \<times> (nat \<Rightarrow> nat)) \<Rightarrow> (Engine, 'f) backend" where
  "durable_backend P E sample =
     \<lparr>bk_env = E, bk_flushWAL = Some (FlushWAL P),
      bk_Sample = (\<lambda>i n. case sample i of (ord, rnd) \<Rightarrow> mem_SampleVolatile ord rnd n)\<rparr>"

lemma durable_flush: "flush_wal (durable_backend P E sample) s = (Ret (), s1) \<Longrightarrow> FlushWAL P (sv_store s) = (Ret (), sv_store s1)"
  by (auto simp: flush_wal_def durable_backend_def split: prod.splits)

text \<open>A connection about to finish with a pending reply, for concrete instances.\<close>

definition demo_pending :: connection where
  "demo_pending =
     \<lparr>cn_id = 1, cn_state = demo_conn, cn_r = NewReader [] ErrEOF DefaultLimits, cn_out = empty_out\<lparr>ob_buf := ''+OK'' @ crlf\<rparr>,
      cn_ver = RESP2, cn_room = 16384, cn_net = (\<lambda>_. None), cn_closed = False, cn_idle = None, cn_pc = Finishing False, cn_in = [],
      cn_hist = []\<rparr>"

definition demo_serving :: "'s \<Rightarrow> 's Server" where
  "demo_serving e =
     \<lparr>sv_store = e, sv_stats = New_ServerStats 0, sv_cfg = Default, sv_conns = [demo_pending], sv_nextID = 1, sv_slots = 1, sv_cap = 10000,
      sv_cancelled = False, sv_bgsave = False, sv_shutdown = None, sv_shutdownSave = False, sv_names = sort (map Name commands),
      sv_past = [], sv_refused = []\<rparr>"

lemma ping_lookup: "lookupFast ''PING'' = Some (hd registerConnection)" "arityOK (Arity (hd registerConnection)) 1"
  "Name (hd registerConnection) = ''ping''"
  by code_simp+

lemma ping_handler: "handler_of ''ping'' = cmdPing"
  by (simp add: handler_of_def handlers_def connection_handlers_def)

lemma Dispatch_ping:
  "Authenticated (wd_conn w) \<Longrightarrow> Dispatch E \<lparr>Args = [''PING''], ctx_name = n, ctx_in = i\<rparr> w =
     (Ret (), on_conn (Touch ''ping'' (Unix (in_end i))) (processed (time_Sub (in_end i) (in_start i)) (on_out (emit (RSimple ''PONG'')) w)))"
  by (simp add: Dispatch_def ping_lookup Argc_def Let_def ping_handler cmdPing_def SimpleString_def fin_def write_emit)

section \<open>Properties\<close>







end
