(* ===== verification/Go_Float.thy ===== *)
theory Go_Float
  imports GoStd Complex_Main "HOL-Library.Log_Nat"
begin

text \<open>
  What the sources use of \<open>float64\<close>: conversions from integers, quotients, products and sums of
  finite values, \<open>math.Ceil\<close>, the conversion back to an integer, and printing with a fixed number of
  decimals. A finite float is its value, a rational number; every operation computes the exact
  result and rounds it to the nearest number with 53 significant bits, ties to even. The exponent
  is unbounded here: all values in the sources lie between $2^{-1074}$ and $2^{200}$, and the results
  of interest are far from both ends of the range.
\<close>

section \<open>Rounding\<close>

definition round_even :: "rat \<Rightarrow> int" where
  "round_even x =
     (let f = \<lfloor>x\<rfloor>; d = x - of_int f in
      if d < 1 / 2 then f else if 1 / 2 < d then f + 1 else if even f then f else f + 1)"

text \<open>The exponent of the leading bit.\<close>

definition ilog2 :: "rat \<Rightarrow> int" where
  "ilog2 x = (case quotient_of x of (p, q) \<Rightarrow> let e = bitlen p - bitlen q in if x < 2 powi e then e - 1 else e)"

definition float64 :: "rat \<Rightarrow> rat" where
  "float64 x = (if x = 0 then 0 else let u = 2 powi (ilog2 \<bar>x\<bar> - 52) in of_int (round_even (x / u)) * u)"

text \<open>\<open>int64(f)\<close> for a value in range drops the fraction.\<close>

definition trunc :: "rat \<Rightarrow> int" where
  "trunc x = (if x < 0 then - \<lfloor>- x\<rfloor> else \<lfloor>x\<rfloor>)"

lemma round_even_cases: "round_even x = \<lfloor>x\<rfloor> \<and> x - of_int \<lfloor>x\<rfloor> \<le> 1 / 2 \<or> round_even x = \<lfloor>x\<rfloor> + 1 \<and> 1 / 2 \<le> x - of_int \<lfloor>x\<rfloor>"
  by (auto simp: round_even_def Let_def)

lemma round_even_error: "\<bar>of_int (round_even x) - x\<bar> \<le> 1 / 2"
  using round_even_cases [of x] of_int_floor_le [of x] floor_correct [of x] by auto

lemma round_even_of_int [simp]: "round_even (of_int n) = n"
  by (simp add: round_even_def)

lemma round_even_mono:
  assumes "x \<le> y"
  shows "round_even x \<le> round_even y"
proof (cases "\<lfloor>x\<rfloor> = \<lfloor>y\<rfloor>")
  case True
  with assms show ?thesis by (auto simp: round_even_def Let_def)
next
  case False
  with floor_mono [OF assms] have "\<lfloor>x\<rfloor> + 1 \<le> \<lfloor>y\<rfloor>" by simp
  with round_even_cases [of x] round_even_cases [of y] show ?thesis by auto
qed

lemma round_even_le: "x \<le> of_int n \<Longrightarrow> round_even x \<le> n"
  using round_even_mono [of x "of_int n"] by simp

lemma round_even_ge: "of_int n \<le> x \<Longrightarrow> n \<le> round_even x"
  using round_even_mono [of "of_int n" x] by simp

lemma bitlen_power: "0 < p \<Longrightarrow> 2 powi (bitlen p - 1) \<le> (of_int p :: rat) \<and> (of_int p :: rat) < 2 powi (bitlen p)"
proof -
  assume p: "0 < p"
  from bitlen_bounds [OF p] have b: "2 ^ nat (bitlen p - 1) \<le> p" "p < 2 ^ nat (bitlen p)" by auto
  have "1 \<le> bitlen p" using p by (simp add: bitlen_eq_zero_iff le_less bitlen_nonneg)
      (metis bitlen_eq_zero_iff bitlen_nonneg int_one_le_iff_zero_less order_le_less not_less)
  then have e: "(2 :: rat) powi (bitlen p - 1) = of_int (2 ^ nat (bitlen p - 1))" "(2 :: rat) powi (bitlen p) = of_int (2 ^ nat (bitlen p))"
    by (simp_all add: power_int_def)
  show ?thesis unfolding e using b by (simp only: of_int_le_iff of_int_less_iff simp_thms)
qed

lemma ilog2_bounds:
  assumes "0 < x"
  shows "2 powi (ilog2 x) \<le> x" and "x < 2 powi (ilog2 x + 1)"
proof -
  obtain p q where pq: "quotient_of x = (p, q)" by fastforce
  have q: "0 < q" using quotient_of_denom_pos [OF pq] .
  have x: "x = of_int p / of_int q" using quotient_of_div [OF pq] .
  with assms q have p: "0 < p" by (simp add: zero_less_divide_iff)
  let ?e = "bitlen p - bitlen q"
  note bp = bitlen_power [OF p] and bq = bitlen_power [OF q]
  have "of_int p / of_int q < (2 powi (bitlen p)) / (2 powi (bitlen q - 1) :: rat)"
    using bp bq p q by (intro frac_less) auto
  then have up: "x < 2 powi (?e + 1)" by (simp add: x power_int_diff power_int_add algebra_simps)
  have "(2 powi (bitlen p - 1)) / (2 powi (bitlen q) :: rat) \<le> of_int p / of_int q"
    using bp bq p q by (intro frac_le) auto
  then have lo: "2 powi (?e - 1) \<le> x" by (simp add: x power_int_diff power_int_add algebra_simps)
  show "2 powi (ilog2 x) \<le> x" "x < 2 powi (ilog2 x + 1)"
    using up lo by (auto simp: ilog2_def pq Let_def not_less)
qed

lemma pow2_le_imp: "(2 :: rat) powi a \<le> 2 powi b \<Longrightarrow> a \<le> b"
  using power_int_strict_increasing [of b a "2 :: rat"] by (meson not_less one_less_numeral_iff semiring_norm(76))

lemma ilog2_unique:
  assumes "2 powi e \<le> x" "x < 2 powi (e + 1)"
  shows "ilog2 x = e"
proof -
  have "0 < x" using assms(1) by (rule less_le_trans [rotated]) simp
  note b = ilog2_bounds [OF this]
  have "\<not> e + 1 \<le> ilog2 x"
  proof
    assume "e + 1 \<le> ilog2 x"
    then have "(2 :: rat) powi (e + 1) \<le> 2 powi (ilog2 x)" by (rule power_int_increasing) simp
    with b(1) assms(2) show False by simp
  qed
  moreover have "\<not> ilog2 x + 1 \<le> e"
  proof
    assume "ilog2 x + 1 \<le> e"
    then have "(2 :: rat) powi (ilog2 x + 1) \<le> 2 powi e" by (rule power_int_increasing) simp
    with b(2) assms(1) show False by simp
  qed
  ultimately show ?thesis by simp
qed

section \<open>Properties of the conversion\<close>

text \<open>A value of binade \<open>e\<close> counts between $2^{52}$ and $2^{53}$ units in the last place.\<close>

lemma float64_binade:
  assumes "2 powi e \<le> x" "x < 2 powi (e + 1)"
  shows "float64 x = of_int (round_even (x / 2 powi (e - 52))) * 2 powi (e - 52)"
    and "2 powi e \<le> float64 x" and "float64 x \<le> 2 powi (e + 1)"
proof -
  have pos: "0 < x" using assms(1) by (rule less_le_trans [rotated]) simp
  let ?u = "2 powi (e - 52) :: rat"
  have u: "0 < ?u" by simp
  show eq: "float64 x = of_int (round_even (x / ?u)) * ?u"
    using pos ilog2_unique [OF assms] by (simp add: float64_def Let_def)
  have e0: "2 powi e = (2 ^ 52 :: rat) * ?u" and e1: "2 powi (e + 1) = (2 ^ 53 :: rat) * ?u"
    by (simp_all add: power_int_diff power_int_add)
  have "of_int (2 ^ 52) \<le> x / ?u" using assms(1) u by (simp add: e0 pos_le_divide_eq)
  then have "(2 ^ 52 :: int) \<le> round_even (x / ?u)" by (rule round_even_ge)
  then have "(2 ^ 52 :: rat) \<le> of_int (round_even (x / ?u))" by (metis of_int_le_iff of_int_numeral of_int_power)
  then show "2 powi e \<le> float64 x" unfolding eq e0 using u by (intro mult_right_mono) auto
  have "x / ?u \<le> of_int (2 ^ 53)" using assms(2) u by (simp add: e1 pos_divide_le_eq)
  then have "round_even (x / ?u) \<le> (2 ^ 53 :: int)" by (rule round_even_le)
  then have "of_int (round_even (x / ?u)) \<le> (2 ^ 53 :: rat)" by (metis of_int_le_iff of_int_numeral of_int_power)
  then show "float64 x \<le> 2 powi (e + 1)" unfolding eq e1 using u by (intro mult_right_mono) auto
qed

lemma float64_0 [simp]: "float64 0 = 0"
  by (simp add: float64_def)

lemma float64_pos: "0 < x \<Longrightarrow> 0 < float64 x"
proof -
  assume "0 < x"
  from float64_binade(2) [OF ilog2_bounds [OF this]] show ?thesis by (rule less_le_trans [rotated]) simp
qed

lemma float64_mono:
  assumes "0 \<le> x" "x \<le> y"
  shows "float64 x \<le> float64 y"
proof (cases "x = 0")
  case True
  with assms show ?thesis using float64_pos [of y] by (cases "y = 0") auto
next
  case False
  with assms have pos: "0 < x" "0 < y" by auto
  note bx = ilog2_bounds [OF pos(1)] and by' = ilog2_bounds [OF pos(2)]
  have "ilog2 x \<le> ilog2 y"
  proof (rule ccontr)
    assume "\<not> ?thesis"
    then have "(2 :: rat) powi (ilog2 y + 1) \<le> 2 powi (ilog2 x)" by (intro power_int_increasing) auto
    with bx(1) by'(2) assms(2) show False by simp
  qed
  then consider "ilog2 x = ilog2 y" | "ilog2 x + 1 \<le> ilog2 y" by linarith
  then show ?thesis
  proof cases
    case 1
    let ?u = "2 powi (ilog2 y - 52) :: rat"
    have "round_even (x / ?u) \<le> round_even (y / ?u)" using assms(2) by (intro round_even_mono divide_right_mono) auto
    then show ?thesis
      unfolding float64_binade(1) [OF bx] float64_binade(1) [OF by'] 1 by (intro mult_right_mono) auto
  next
    case 2
    have "float64 x \<le> 2 powi (ilog2 x + 1)" by (rule float64_binade(3) [OF bx])
    also have "\<dots> \<le> 2 powi (ilog2 y)" using 2 by (intro power_int_increasing) auto
    also have "\<dots> \<le> float64 y" by (rule float64_binade(2) [OF by'])
    finally show ?thesis .
  qed
qed

text \<open>Integers below $2^{53}$ are exact, and so are their quotients by powers of two.\<close>

lemma float64_scaled:
  assumes "0 \<le> n" "n \<le> 2 ^ 53"
  shows "float64 (of_int n * 2 powi j) = of_int n * 2 powi j"
proof (cases "n = 0")
  case False
  let ?x = "of_int n * 2 powi j :: rat"
  from False assms(1) have "0 < n" by simp
  then have pos: "0 < ?x" by simp
  define e where "e = ilog2 ?x"
  note b = ilog2_bounds [OF pos, folded e_def]
  have "(2 :: rat) powi e \<le> 2 powi (53 + j)"
  proof -
    have "(of_int n :: rat) \<le> 2 ^ 53" using assms(2) by (metis of_int_le_iff of_int_numeral of_int_power)
    then have "?x \<le> 2 ^ 53 * 2 powi j" by (intro mult_right_mono) auto
    from order_trans [OF b(1) this] show ?thesis by (simp add: power_int_add)
  qed
  then have le: "e \<le> 53 + j" by (rule pow2_le_imp)
  have "\<exists>k. ?x / 2 powi (e - 52) = of_int k"
  proof (cases "e = 53 + j")
    case True
    with b(1) have "(2 ^ 53 :: rat) \<le> of_int n" by (simp add: power_int_add)
    then have "(2 ^ 53 :: int) \<le> n" by (metis of_int_le_iff of_int_numeral of_int_power)
    with assms(2) have "n = 2 ^ 53" by simp
    with True have "?x / 2 powi (e - 52) = of_int (2 ^ 52)" by (simp add: power_int_add power_int_diff)
    then show ?thesis ..
  next
    case False
    with le have "0 \<le> 52 + j - e" by simp
    then have "(2 :: rat) powi (52 + j - e) = of_int (2 ^ nat (52 + j - e))" by (simp add: power_int_def)
    then have "?x / 2 powi (e - 52) = of_int (n * 2 ^ nat (52 + j - e))"
      by (simp add: power_int_diff power_int_add field_simps)
    then show ?thesis ..
  qed
  then obtain k where k: "?x / 2 powi (e - 52) = of_int k" ..
  then show ?thesis unfolding float64_binade(1) [OF b] by (metis nonzero_eq_divide_eq power_int_eq_0_iff round_even_of_int zero_neq_numeral)
qed simp

lemma float64_of_nat [simp]: "n \<le> 2 ^ 53 \<Longrightarrow> float64 (of_nat n) = of_nat n"
  using float64_scaled [of "int n" 0] by simp

lemma float64_error: "0 < x \<Longrightarrow> \<bar>float64 x - x\<bar> \<le> x / 2 ^ 53"
proof -
  assume pos: "0 < x"
  define u :: rat where "u = 2 powi (ilog2 x - 52)"
  note b = ilog2_bounds [OF pos]
  have u: "0 < u" by (simp add: u_def)
  have "float64 x - x = (of_int (round_even (x / u)) - x / u) * u"
    unfolding float64_binade(1) [OF b] u_def [symmetric] using u by (simp add: field_simps)
  then have "\<bar>float64 x - x\<bar> \<le> 1 / 2 * u" using round_even_error [of "x / u"] u by (simp add: abs_mult)
  also have "u * 2 ^ 52 \<le> x" using b(1) by (simp add: u_def power_int_diff)
  then have "1 / 2 * u \<le> x / 2 ^ 53" by (simp add: field_simps)
  finally show ?thesis .
qed

section \<open>Printing\<close>

text \<open>\<open>strconv.FormatFloat(x, 'f', prec, 64)\<close> and \<open>%.precf\<close>: the nearest decimal, ties to even.\<close>

fun pad0 :: "nat \<Rightarrow> bytes \<Rightarrow> bytes" where
  "pad0 n s = replicate (n - length s) (CHR ''0'') @ s"

definition FormatFloat :: "nat \<Rightarrow> rat \<Rightarrow> bytes" where
  "FormatFloat prec x =
     (let m = nat (round_even (\<bar>x\<bar> * 10 ^ prec)); sign = (if x < 0 then ''-'' else []) in
      sign @ FormatUint (m div 10 ^ prec) @ (if prec = 0 then [] else CHR ''.'' # pad0 prec (FormatUint (m mod 10 ^ prec))))"

section \<open>Durations\<close>

text \<open>\<open>Duration.Seconds\<close> and \<open>Duration.Hours\<close>, for a duration in nanoseconds.\<close>

definition Seconds :: "int \<Rightarrow> rat" where
  "Seconds d =
     (let s = (if d < 0 then - (- d div 1000000000) else d div 1000000000); ns = d - s * 1000000000
      in float64 (float64 (of_int s) + float64 (float64 (of_int ns) / 1000000000)))"

definition Hours :: "int \<Rightarrow> rat" where
  "Hours d =
     (let h = (if d < 0 then - (- d div 3600000000000) else d div 3600000000000); ns = d - h * 3600000000000
      in float64 (float64 (of_int h) + float64 (float64 (of_int ns) / 3600000000000)))"

text \<open>
  \<open>Duration.String\<close>: the fraction without trailing zeros, in the unit that leaves an integer part,
  and minutes and hours above.
\<close>

definition fmtFrac :: "nat \<Rightarrow> nat \<Rightarrow> bytes" where
  "fmtFrac v prec =
     (let ds = pad0 prec (FormatUint (v mod 10 ^ prec)); ds = rev (dropWhile (\<lambda>c. c = CHR ''0'') (rev ds))
      in if ds = [] \<or> prec = 0 then [] else CHR ''.'' # ds)"

definition Duration_String :: "int \<Rightarrow> bytes" where
  "Duration_String d =
     (let u = nat \<bar>d\<bar>; sign = (if d < 0 then ''-'' else []) in
      if u = 0 then ''0s''
      else if u < 1000 then sign @ FormatUint u @ ''ns''
      else if u < 1000000 then sign @ FormatUint (u div 1000) @ fmtFrac u 3 @ [CHR 0xC2, CHR 0xB5, CHR ''s'']
      else if u < 1000000000 then sign @ FormatUint (u div 1000000) @ fmtFrac u 6 @ ''ms''
      else
        let s = u div 1000000000; secs = FormatUint (s mod 60) @ fmtFrac u 9 @ ''s''; m = s div 60 in
        if m = 0 then sign @ secs
        else if m div 60 = 0 then sign @ FormatUint (m mod 60) @ ''m'' @ secs
        else sign @ FormatUint (m div 60) @ ''h'' @ FormatUint (m mod 60) @ ''m'' @ secs)"

text \<open>None of them writes a line break.\<close>

lemma FormatUint_no_LF [simp]: "LF \<notin> set (FormatUint n)"
proof -
  have "FormatUint n = FormatInt (int n)" by (simp add: FormatInt_def FormatUint_def)
  then show ?thesis by simp
qed

lemma FormatFloat_no_LF [simp]: "LF \<notin> set (FormatFloat prec x)"
  by (simp add: FormatFloat_def Let_def)

lemma fmtFrac_no_LF [simp]: "LF \<notin> set (fmtFrac v prec)"
  by (auto simp: fmtFrac_def Let_def dest!: set_dropWhileD)

lemma Duration_String_no_LF [simp]: "LF \<notin> set (Duration_String d)"
  by (simp add: Duration_String_def Let_def)

end
