(* ===== verification/Bench_Histogram.thy ===== *)
theory Bench_Histogram
  imports Go_Float
begin

text \<open>
  The latency recorder of the load generator, \<open>src/internal/bench/histogram.go\<close>: log-linear buckets,
  recording, merging and quantiles. An index outside the bucket array would panic; the bucket of a
  64-bit value never is. What a histogram knows about a list of samples is \<open>summary\<close>; recording them
  in any split over workers and merging gives it, and a quantile is the lower bound of the bucket
  that holds the sample of that rank.
\<close>

unbundle bit_operations_syntax

section \<open>Buckets\<close>

definition linearLimit :: nat where "linearLimit = 256"

definition subBuckets :: nat where "subBuckets = 128"

definition bucketCount :: nat where "bucketCount = linearLimit + (64 - 8) * subBuckets"

text \<open>\<open>bits.Len64(v)\<close> is \<open>floorlog 2 v\<close>.\<close>

definition indexOf :: "nat \<Rightarrow> nat" where
  "indexOf v =
     (if v < linearLimit then v
      else
        let msb = floorlog 2 v - 1; shift = msb - 7; sub = drop_bit shift v AND (subBuckets - 1)
        in linearLimit + (msb - 8) * subBuckets + sub)"

definition valueOf :: "nat \<Rightarrow> nat" where
  "valueOf i =
     (if i < linearLimit then i
      else
        let rel = i - linearLimit; msb = rel div subBuckets + 8; sub = rel mod subBuckets; shift = msb - 7
        in u64 (push_bit shift (subBuckets + sub)))"

section \<open>Recording\<close>

record Histogram =
  h_counts :: "nat list"
  h_total :: nat
  h_sum :: nat
  h_min :: nat
  h_max :: nat

definition NewHistogram :: Histogram where
  "NewHistogram = \<lparr>h_counts = replicate bucketCount 0, h_total = 0, h_sum = 0, h_min = MaxUint64, h_max = 0\<rparr>"

definition Histogram_Record :: "nat \<Rightarrow> Histogram \<Rightarrow> Histogram res" where
  "Histogram_Record ns h =
     (if indexOf ns \<ge> length (h_counts h) then Panic
      else Ret \<lparr>h_counts = (h_counts h)[indexOf ns := u64 (h_counts h ! indexOf ns + 1)], h_total = u64 (h_total h + 1),
                h_sum = u64 (h_sum h + ns), h_min = (if ns < h_min h then ns else h_min h),
                h_max = (if ns > h_max h then ns else h_max h)\<rparr>)"

definition RecordDuration :: "int \<Rightarrow> Histogram \<Rightarrow> Histogram res" where
  "RecordDuration d = Histogram_Record (nat (if d < 0 then 0 else d))"

definition Merge :: "Histogram \<Rightarrow> Histogram \<Rightarrow> Histogram" where
  "Merge h other =
     (let h = h\<lparr>h_counts := map2 (\<lambda>a b. u64 (a + b)) (h_counts h) (h_counts other), h_total := u64 (h_total h + h_total other),
                h_sum := u64 (h_sum h + h_sum other)\<rparr> in
      if h_total other > 0
      then h\<lparr>h_min := (if h_min other < h_min h then h_min other else h_min h),
             h_max := (if h_max other > h_max h then h_max other else h_max h)\<rparr>
      else h)"

definition Histogram_Count :: "Histogram \<Rightarrow> nat" where
  "Histogram_Count h = h_total h"

definition Histogram_Mean :: "Histogram \<Rightarrow> rat" where
  "Histogram_Mean h = (if h_total h = 0 then 0 else float64 (float64 (of_nat (h_sum h)) / float64 (of_nat (h_total h))))"

definition Histogram_Min :: "Histogram \<Rightarrow> nat" where
  "Histogram_Min h = (if h_total h = 0 then 0 else h_min h)"

definition Histogram_Max :: "Histogram \<Rightarrow> nat" where
  "Histogram_Max h = h_max h"

section \<open>Quantiles\<close>

text \<open>The rank \<open>uint64(math.Ceil(q * float64(total)))\<close>.\<close>

definition rank :: "rat \<Rightarrow> nat \<Rightarrow> nat" where
  "rank q n = nat \<lceil>float64 (q * float64 (of_nat n))\<rceil>"

fun quantile_loop :: "nat \<Rightarrow> nat \<Rightarrow> nat \<Rightarrow> nat list \<Rightarrow> nat option" where
  "quantile_loop want seen i [] = None"
| "quantile_loop want seen i (c # cs) =
     (if c = 0 then quantile_loop want seen (Suc i) cs
      else
        let seen = u64 (seen + c) in
        if seen \<ge> want then Some (valueOf i) else quantile_loop want seen (Suc i) cs)"

definition Quantile :: "rat \<Rightarrow> Histogram \<Rightarrow> nat" where
  "Quantile q h =
     (if h_total h = 0 then 0
      else if q \<le> 0 then h_min h
      else if q \<ge> 1 then h_max h
      else case quantile_loop (rank q (h_total h)) 0 0 (h_counts h) of None \<Rightarrow> h_max h | Some v \<Rightarrow> v)"

text \<open>
  \<open>Quantiles\<close> walks the buckets once for all the ranks, which it has sorted; a bucket may answer
  several of them. The result maps each \<open>q\<close> to its value.
\<close>

fun answer :: "nat \<Rightarrow> nat \<Rightarrow> (rat \<times> nat) list \<Rightarrow> (rat \<times> nat) list \<times> (rat \<times> nat) list" where
  "answer seen v [] = ([], [])"
| "answer seen v ((q, want) # ts) =
     (if seen \<ge> want then (case answer seen v ts of (out, rest) \<Rightarrow> ((q, v) # out, rest)) else ([], (q, want) # ts))"

fun quantiles_loop :: "(rat \<times> nat) list \<Rightarrow> nat \<Rightarrow> nat \<Rightarrow> nat list \<Rightarrow> (rat \<times> nat) list \<times> (rat \<times> nat) list" where
  "quantiles_loop ts seen i [] = ([], ts)"
| "quantiles_loop ts seen i (c # cs) =
     (if c = 0 then quantiles_loop ts seen (Suc i) cs
      else
        let seen = u64 (seen + c) in
        case answer seen (valueOf i) ts of (out, rest) \<Rightarrow>
          if rest = [] then (out, [])
          else case quantiles_loop rest seen (Suc i) cs of (out', rest') \<Rightarrow> (out @ out', rest'))"

definition Quantiles :: "rat list \<Rightarrow> Histogram \<Rightarrow> rat \<rightharpoonup> nat" where
  "Quantiles qs h =
     (if h_total h = 0 then (\<lambda>q. if q \<in> set qs then Some 0 else None)
      else
        let ts = map (\<lambda>q. (q, let t = rank q (h_total h) in if t = 0 then 1 else t)) (sort qs) in
        case quantiles_loop ts 0 0 (h_counts h) of (out, rest) \<Rightarrow>
          map_of (rev (out @ map (\<lambda>t. (fst t, h_max h)) rest)))"

section \<open>The bucket of a value\<close>

text \<open>A value above the linear range with leading bit \<open>m\<close> lies in bucket \<open>128 * (m - 8) + 256 + sub\<close>.\<close>

lemma indexOf_above:
  assumes "2 ^ m \<le> v" "v < 2 ^ (m + 1)" "8 \<le> m"
  shows "indexOf v = 256 + (m - 8) * 128 + (v div 2 ^ (m - 7) - 128)"
    and "128 \<le> v div 2 ^ (m - 7)" and "v div 2 ^ (m - 7) < 256"
proof -
  have big: "256 \<le> v" using assms(1,3) power_increasing [OF assms(3), of "2 :: nat"] by simp
  have fl: "floorlog 2 v = m + 1"
  proof -
    have f: "2 ^ (floorlog 2 v - 1) \<le> v" "v < 2 ^ floorlog 2 v" using floorlog_bounds [of v 2] big by auto
    have "(2 :: nat) ^ (floorlog 2 v - 1) < 2 ^ (m + 1)" using f(1) assms(2) by (rule le_less_trans)
    then have "floorlog 2 v - 1 < m + 1" by (rule power_less_imp_less_exp [rotated]) simp
    moreover have "(2 :: nat) ^ m < 2 ^ floorlog 2 v" using assms(1) f(2) by (rule le_less_trans)
    then have "m < floorlog 2 v" by (rule power_less_imp_less_exp [rotated]) simp
    ultimately show ?thesis by simp
  qed
  have m: "(2 :: nat) ^ m = 2 ^ (m - 7) * 128"
  proof -
    have "m = (m - 7) + 7" using assms(3) by simp
    then have "(2 :: nat) ^ m = 2 ^ (m - 7) * 2 ^ 7" by (metis power_add)
    then show ?thesis by simp
  qed
  show lo: "128 \<le> v div 2 ^ (m - 7)" using div_le_mono [OF assms(1), of "2 ^ (m - 7)"] by (simp add: m)
  show hi: "v div 2 ^ (m - 7) < 256" using assms(2) by (simp add: m less_mult_imp_div_less mult.commute)
  have "drop_bit (m - 7) v AND 127 = (v div 2 ^ (m - 7)) mod 128"
    using take_bit_eq_mask [of 7 "drop_bit (m - 7) v"]
    by (simp add: drop_bit_eq_div take_bit_eq_mod mask_eq_exp_minus_1)
  also have "\<dots> = v div 2 ^ (m - 7) - 128" using lo hi by (simp add: mod_if)
  finally show "indexOf v = 256 + (m - 8) * 128 + (v div 2 ^ (m - 7) - 128)"
    using big fl by (simp add: indexOf_def linearLimit_def subBuckets_def Let_def)
qed

lemma leading_bit:
  fixes v :: nat
  assumes "256 \<le> v" "v < 2 ^ 64"
  obtains m where "2 ^ m \<le> v" "v < 2 ^ (m + 1)" "8 \<le> m" "m \<le> 63"
proof -
  define m where "m = floorlog 2 v - 1"
  have f: "2 ^ (floorlog 2 v - 1) \<le> v" "v < 2 ^ floorlog 2 v" using floorlog_bounds [of v 2] assms(1) by auto
  have "(2 :: nat) ^ 8 < 2 ^ floorlog 2 v" using assms(1) f(2) by simp
  then have pos: "8 < floorlog 2 v" by (rule power_less_imp_less_exp [rotated]) simp
  have "(2 :: nat) ^ m < 2 ^ 64" using f(1) assms(2) by (simp add: m_def)
  then have "m < 64" by (rule power_less_imp_less_exp [rotated]) simp
  with f pos show thesis by (intro that [of m]) (auto simp: m_def)
qed

lemma indexOf_below [simp]: "v < 256 \<Longrightarrow> indexOf v = v"
  by (simp add: indexOf_def linearLimit_def)

lemma valueOf_below [simp]: "i < 256 \<Longrightarrow> valueOf i = i"
  by (simp add: valueOf_def linearLimit_def)

lemma valueOf_above:
  assumes "8 \<le> m" "m \<le> 63" "k < 128"
  shows "valueOf (256 + (m - 8) * 128 + k) = (128 + k) * 2 ^ (m - 7)"
proof -
  have "(128 + k) * 2 ^ (m - 7) < 2 ^ 64"
  proof -
    have "(128 + k) * 2 ^ (m - 7) < (2 ^ 8) * (2 :: nat) ^ (m - 7)" using assms(3) by simp
    also have "\<dots> = 2 ^ (8 + (m - 7))" by (simp add: power_add)
    also have "\<dots> \<le> 2 ^ 64" using assms(2) by (intro power_increasing) auto
    finally show ?thesis .
  qed
  moreover have "(2 :: nat) ^ (m - 7) = 2 * 2 ^ (m - 8)" using assms(1) by (simp add: Suc_diff_Suc flip: power_Suc)
  ultimately show ?thesis
    using assms(3) by (simp add: valueOf_def linearLimit_def subBuckets_def Let_def push_bit_eq_mult u64_def)
qed

lemma indexOf_less: "v < 2 ^ 64 \<Longrightarrow> indexOf v < bucketCount"
proof (cases "v < 256")
  case False
  assume "v < 2 ^ 64"
  with False obtain m where m: "2 ^ m \<le> v" "v < 2 ^ (m + 1)" "8 \<le> m" "m \<le> 63" by (metis leading_bit not_less)
  note i = indexOf_above [OF m(1-3)]
  have "(m - 8) * 128 \<le> 55 * 128" using m(4) by (intro mult_right_mono) auto
  moreover have "v div 2 ^ (m - 7) - 128 < 128" using i(3) by simp
  ultimately have "(m - 8) * 128 + (v div 2 ^ (m - 7) - 128) < 7168" by linarith
  then show ?thesis by (simp add: i(1) bucketCount_def linearLimit_def subBuckets_def)
qed (simp add: bucketCount_def linearLimit_def subBuckets_def)

text \<open>The lower bound of the bucket is below the value, by less than one part in 128.\<close>

lemma valueOf_indexOf:
  assumes "v < 2 ^ 64"
  shows "valueOf (indexOf v) \<le> v" and "(v - valueOf (indexOf v)) * 128 \<le> v"
proof -
  have "valueOf (indexOf v) \<le> v \<and> (v - valueOf (indexOf v)) * 128 \<le> v"
  proof (cases "v < 256")
    case False
    with assms obtain m where m: "2 ^ m \<le> v" "v < 2 ^ (m + 1)" "8 \<le> m" "m \<le> 63" by (metis leading_bit not_less)
    note i = indexOf_above [OF m(1-3)]
    let ?d = "v div 2 ^ (m - 7)"
    have "valueOf (indexOf v) = (128 + (?d - 128)) * 2 ^ (m - 7)"
      unfolding i(1) using i(3) m by (intro valueOf_above) auto
    then have eq: "valueOf (indexOf v) = ?d * 2 ^ (m - 7)" using i(2) by simp
    have le: "?d * 2 ^ (m - 7) \<le> v" by simp
    have "v - ?d * 2 ^ (m - 7) = v mod 2 ^ (m - 7)" by (simp add: minus_div_mult_eq_mod)
    also have "\<dots> \<le> 2 ^ (m - 7)" by (simp add: less_imp_le)
    finally have "(v - ?d * 2 ^ (m - 7)) * 128 \<le> 2 ^ (m - 7) * 128" by (rule mult_right_mono) simp
    also have "\<dots> \<le> ?d * 2 ^ (m - 7)" using i(2) by simp
    also note le
    finally show ?thesis using le eq by simp
  qed simp
  then show "valueOf (indexOf v) \<le> v" "(v - valueOf (indexOf v)) * 128 \<le> v" by auto
qed

lemma indexOf_mono:
  assumes "v \<le> w" "w < 2 ^ 64"
  shows "indexOf v \<le> indexOf w"
proof (cases "w < 256")
  case False
  then obtain n where n: "2 ^ n \<le> w" "w < 2 ^ (n + 1)" "8 \<le> n" "n \<le> 63" using assms(2) by (metis leading_bit not_less)
  note iw = indexOf_above [OF n(1-3)]
  show ?thesis
  proof (cases "v < 256")
    case True
    then show ?thesis unfolding iw(1) by simp
  next
    case False
    then obtain m where m: "2 ^ m \<le> v" "v < 2 ^ (m + 1)" "8 \<le> m" "m \<le> 63"
      using assms by (metis leading_bit not_less order_le_less_trans)
    note iv = indexOf_above [OF m(1-3)]
    have "(2 :: nat) ^ m < 2 ^ (n + 1)" using m(1) n(2) assms(1) by linarith
    then have "m < n + 1" by (rule power_less_imp_less_exp [rotated]) simp
    then consider "m = n" | "m + 1 \<le> n" by linarith
    then show ?thesis
    proof cases
      case 1
      with assms(1) show ?thesis unfolding iv(1) iw(1) by (simp add: div_le_mono diff_le_mono)
    next
      case 2
      then have "(m - 8 + 1) * 128 \<le> (n - 8) * 128" using m(3) by (intro mult_right_mono) auto
      moreover have "v div 2 ^ (m - 7) - 128 < 128" using iv(3) by simp
      ultimately show ?thesis unfolding iv(1) iw(1) by simp
    qed
  qed
qed (use assms in simp)

section \<open>What a histogram knows about its samples\<close>

definition samples :: "nat list \<Rightarrow> bool" where
  "samples vs \<longleftrightarrow> (\<forall>v \<in> set vs. v < 2 ^ 64) \<and> length vs < 2 ^ 64"

definition hits :: "nat list \<Rightarrow> nat \<Rightarrow> nat" where
  "hits vs i = length (filter (\<lambda>v. indexOf v = i) vs)"

definition summary :: "nat list \<Rightarrow> Histogram" where
  "summary vs =
     \<lparr>h_counts = map (hits vs) [0..<bucketCount], h_total = length vs, h_sum = u64 (sum_list vs),
      h_min = fold min vs MaxUint64, h_max = fold max vs 0\<rparr>"

fun record_all :: "nat list \<Rightarrow> Histogram \<Rightarrow> Histogram res" where
  "record_all [] h = Ret h"
| "record_all (v # vs) h = bind_res (Histogram_Record v h) (record_all vs)"

lemma hits_le: "hits vs i \<le> length vs"
  by (simp add: hits_def)

lemma hits_append: "hits (vs @ ws) i = hits vs i + hits ws i"
  by (simp add: hits_def)

lemma u64_small [simp]: "n < 2 ^ 64 \<Longrightarrow> u64 n = n"
  by (simp add: u64_def)

lemma u64_add: "u64 (u64 a + b) = u64 (a + b)" "u64 (a + u64 b) = u64 (a + b)"
  by (simp_all add: u64_def mod_simps)

lemma summary_Nil: "summary [] = NewHistogram"
  by (auto simp: summary_def NewHistogram_def hits_def u64_def intro!: nth_equalityI)

lemma Record_summary:
  assumes "samples (vs @ [v])"
  shows "Histogram_Record v (summary vs) = Ret (summary (vs @ [v]))"
proof -
  have v: "v < 2 ^ 64" and n: "length vs + 1 < 2 ^ 64" using assms by (auto simp: samples_def)
  have "hits vs i + 1 < 2 ^ 64" for i using hits_le [of vs i] n by simp
  then have "(map (hits vs) [0..<bucketCount])[indexOf v := u64 (hits vs (indexOf v) + 1)] = map (hits (vs @ [v])) [0..<bucketCount]"
    using indexOf_less [OF v] by (intro nth_equalityI) (auto simp: nth_list_update hits_append hits_def u64_def)
  moreover have "(if v < m then v else m) = min m v" "(if v > m then v else m) = max m v" for m :: nat by (auto simp: min_def max_def)
  ultimately show ?thesis
    using indexOf_less [OF v] n by (simp add: Histogram_Record_def summary_def u64_def mod_simps fold_append min.commute max.commute)
qed

lemma record_all_summary:
  assumes "samples (vs @ ws)"
  shows "record_all ws (summary vs) = Ret (summary (vs @ ws))"
  using assms
proof (induction ws arbitrary: vs)
  case (Cons w ws)
  then have "samples (vs @ [w])" "samples ((vs @ [w]) @ ws)" by (auto simp: samples_def)
  with Cons.IH [of "vs @ [w]"] show ?case by (simp add: Record_summary)
qed simp

lemma fold_min_start: "fold min vs (min a b) = min a (fold min vs (b :: nat))"
proof (induction vs arbitrary: b)
  case (Cons v vs)
  from Cons.IH [of "min v b"] show ?case by (simp add: min.left_commute)
qed simp

lemma fold_max_start: "fold max vs (max a b) = max a (fold max vs (b :: nat))"
proof (induction vs arbitrary: b)
  case (Cons v vs)
  from Cons.IH [of "max v b"] show ?case by (simp add: max.left_commute)
qed simp

lemma fold_max_split: "fold max ws a = max a (fold max ws (0 :: nat))"
  using fold_max_start [of ws a 0] by simp

lemma Merge_summary:
  assumes "samples (vs @ ws)"
  shows "Merge (summary vs) (summary ws) = summary (vs @ ws)"
proof -
  have le: "fold min xs m \<le> m" for xs and m :: nat using fold_min_start [of xs m m] by (metis min.cobounded1 min.idem)
  have mn: "fold min ws (fold min vs MaxUint64) = min (fold min ws MaxUint64) (fold min vs MaxUint64)"
    using fold_min_start [of ws "fold min vs MaxUint64" MaxUint64] le [of vs MaxUint64] by (simp add: min_def)
  have mx: "fold max ws (fold max vs 0) = max (fold max ws 0) (fold max vs (0 :: nat))"
    by (subst fold_max_split) (simp add: max.commute)
  have "hits vs i + hits ws i < 2 ^ 64" for i
    using assms hits_le [of vs i] hits_le [of ws i] by (simp add: samples_def)
  then have "map2 (\<lambda>a b. u64 (a + b)) (h_counts (summary vs)) (h_counts (summary ws)) = h_counts (summary (vs @ ws))"
    by (intro nth_equalityI) (auto simp: summary_def hits_append u64_def)
  moreover have "(if a < b then a else b) = min a b" "(if b < a then a else b) = max a b" for a b :: nat by (auto simp: min_def max_def)
  ultimately show ?thesis
    using assms mn mx by (cases "ws = []") (auto simp: Merge_def Let_def samples_def u64_def mod_simps summary_def fold_append)
qed

section \<open>The sample of a given rank\<close>

lemma sorted_rank:
  assumes "sorted ys" "w < length (ys :: nat list)"
  shows "w < length (filter (\<lambda>v. v \<le> ys ! w) ys)" and "length (filter (\<lambda>v. v < ys ! w) ys) \<le> w"
proof -
  have "filter (\<lambda>v. v \<le> ys ! w) (take (Suc w) ys) = take (Suc w) ys"
    using assms by (auto simp: filter_id_conv in_set_conv_nth less_Suc_eq_le sorted_nth_mono)
  moreover have "filter (\<lambda>v. v \<le> ys ! w) ys = filter (\<lambda>v. v \<le> ys ! w) (take (Suc w) ys) @ filter (\<lambda>v. v \<le> ys ! w) (drop (Suc w) ys)"
    by (metis append_take_drop_id filter_append)
  ultimately show "w < length (filter (\<lambda>v. v \<le> ys ! w) ys)" using assms(2) by simp
  have "filter (\<lambda>v. v < ys ! w) (drop w ys) = []"
    using assms by (auto simp: filter_empty_conv in_set_conv_nth not_less sorted_nth_mono)
  moreover have "filter (\<lambda>v. v < ys ! w) ys = filter (\<lambda>v. v < ys ! w) (take w ys) @ filter (\<lambda>v. v < ys ! w) (drop w ys)"
    by (metis append_take_drop_id filter_append)
  moreover have "length (filter (\<lambda>v. v < ys ! w) (take w ys)) \<le> w" by (rule order_trans [OF length_filter_le]) simp
  ultimately show "length (filter (\<lambda>v. v < ys ! w) ys) \<le> w" by simp
qed

lemma length_filter_sort: "length (filter P (sort vs)) = length (filter P vs)"
  by (metis mset_filter mset_sort size_mset)

lemma length_filter_imp: "(\<And>x. P x \<Longrightarrow> x \<in> set xs \<Longrightarrow> Q x) \<Longrightarrow> length (filter P xs) \<le> length (filter Q xs)"
  by (induction xs) auto

lemma cumulative: "sum (hits vs) {0..k} = length (filter (\<lambda>v. indexOf v \<le> k) vs)"
proof (induction k)
  case (Suc k)
  have "length (filter (\<lambda>v. indexOf v \<le> Suc k) vs) = length (filter (\<lambda>v. indexOf v \<le> k) vs) + hits vs (Suc k)"
    by (induction vs) (auto simp: hits_def le_Suc_eq)
  with Suc show ?case by simp
qed (simp add: hits_def)

lemma quantile_loop_finds:
  assumes "i \<le> j" "j < n" "seen < want" "\<And>k. i \<le> k \<Longrightarrow> k < j \<Longrightarrow> seen + sum f {i..k} < want"
    and "want \<le> seen + sum f {i..j}" "seen + sum f {i..j} < 2 ^ 64"
  shows "quantile_loop want seen i (map f [i..<n]) = Some (valueOf j)"
  using assms
proof (induction "j - i" arbitrary: i seen)
  case 0
  then have "i = j" by simp
  with 0 have "f i \<noteq> 0" "want \<le> u64 (seen + f i)" by (auto simp: u64_def)
  with 0 \<open>i = j\<close> show ?case by (simp add: upt_conv_Cons)
next
  case (Suc d)
  then have ij: "i < j" by simp
  have sum: "sum f {i..k} = f i + sum f {Suc i..k}" if "i \<le> k" for k using that by (simp add: sum.atLeast_Suc_atMost)
  have "f i \<le> sum f {i..j}" using ij by (simp add: sum)
  then have wrap: "u64 (seen + f i) = seen + f i" using Suc.prems(6) by simp
  have now: "seen + f i < want" using Suc.prems(4) [of i] ij by simp
  have "quantile_loop want (seen + f i) (Suc i) (map f [Suc i..<n]) = Some (valueOf j)"
  proof (rule Suc.hyps(1))
    show "d = j - Suc i" using Suc.hyps(2) by simp
    show "seen + f i + sum f {Suc i..k} < want" if "Suc i \<le> k" "k < j" for k
      using Suc.prems(4) [of k] that by (simp add: sum)
    show "want \<le> seen + f i + sum f {Suc i..j}" "seen + f i + sum f {Suc i..j} < 2 ^ 64"
      using Suc.prems(5,6) ij by (simp_all add: sum)
  qed (use ij Suc.prems now in auto)
  then show ?case
    using now wrap ij Suc.prems(2) by (cases "f i = 0") (simp_all add: upt_conv_Cons [of i n] Let_def del: upt_Suc)
qed

lemma rank_bounds:
  assumes "0 < q" "q < 1" "0 < n" "n \<le> 2 ^ 53"
  shows "1 \<le> rank q n" and "rank q n \<le> n"
proof -
  have n: "float64 (of_nat n) = (of_nat n :: rat)" using assms(4) by simp
  have "0 < float64 (q * of_nat n)" using assms(1,3) by (intro float64_pos) simp
  then show "1 \<le> rank q n" by (simp add: rank_def n) linarith
  have "q * of_nat n \<le> of_nat n" using assms(2) mult_right_mono [of q 1 "of_nat n"] by simp
  then have "float64 (q * of_nat n) \<le> float64 (of_nat n)" using assms(1) by (intro float64_mono) auto
  then have "\<lceil>float64 (q * of_nat n)\<rceil> \<le> int n" by (simp add: n ceiling_le_iff)
  then show "rank q n \<le> n" by (simp add: rank_def n)
qed

lemma Quantile_summary:
  assumes "samples vs" "vs \<noteq> []" "length vs \<le> 2 ^ 53" "0 < q" "q < 1"
  shows "Quantile q (summary vs) = valueOf (indexOf (sort vs ! (rank q (length vs) - 1)))"
proof -
  define w where "w = rank q (length vs)"
  define x where "x = sort vs ! (w - 1)"
  have w: "1 \<le> w" "w \<le> length vs" using rank_bounds [OF assms(4,5) _ assms(3)] assms(2) by (auto simp: w_def)
  have "x \<in> set (sort vs)" unfolding x_def using w by (intro nth_mem) simp
  then have x: "x < 2 ^ 64" using assms(1) by (auto simp: samples_def)
  have "w - 1 < length (sort vs)" using w by simp
  note r = sorted_rank [OF sorted_sort this, folded x_def, unfolded length_filter_sort]
  have "quantile_loop w 0 0 (map (hits vs) [0..<bucketCount]) = Some (valueOf (indexOf x))"
  proof (rule quantile_loop_finds)
    show "indexOf x < bucketCount" by (rule indexOf_less [OF x])
    show "w \<le> 0 + sum (hits vs) {0..indexOf x}"
    proof -
      have "length (filter (\<lambda>v. v \<le> x) vs) \<le> length (filter (\<lambda>v. indexOf v \<le> indexOf x) vs)"
        using x by (intro length_filter_imp indexOf_mono)
      with r(1) show ?thesis by (simp add: cumulative)
    qed
    show "0 + sum (hits vs) {0..k} < w" if "k < indexOf x" for k
    proof -
      have "length (filter (\<lambda>v. indexOf v \<le> k) vs) \<le> length (filter (\<lambda>v. v < x) vs)"
        using that assms(1) indexOf_mono [of x] by (intro length_filter_imp) (metis leD leI le_less_trans samples_def)
      with r(2) w show ?thesis by (simp add: cumulative)
    qed
    have "length (filter (\<lambda>v. indexOf v \<le> indexOf x) vs) \<le> length vs" by simp
    then show "0 + sum (hits vs) {0..indexOf x} < 2 ^ 64" using assms(3) unfolding cumulative by (simp del: length_filter_le)
  qed (use w in auto)
  then show ?thesis using assms(2,4,5) by (simp add: Quantile_def summary_def w_def [symmetric] x_def)
qed

section \<open>All quantiles in one pass\<close>

lemma answer_sorted:
  assumes "sorted (map snd ts)"
  shows "answer seen v ts = (map (\<lambda>t. (fst t, v)) (filter (\<lambda>t. snd t \<le> seen) ts), filter (\<lambda>t. \<not> snd t \<le> seen) ts)"
  using assms
proof (induction ts)
  case (Cons t ts)
  obtain q w where t: "t = (q, w)" by fastforce
  show ?case
  proof (cases "w \<le> seen")
    case True
    with Cons t show ?thesis by simp
  next
    case False
    with Cons.prems t have "\<forall>x \<in> set ts. \<not> snd x \<le> seen" by fastforce
    with False t show ?thesis by (simp add: filter_empty_conv filter_id_conv)
  qed
qed simp

lemma quantiles_loop_finds:
  assumes "sorted (map snd ts)" "quantiles_loop ts seen i cs = (out, rest)"
  shows "set out = {(q, v). \<exists>w. (q, w) \<in> set ts \<and> quantile_loop w seen i cs = Some v}
    \<and> set rest = {(q, w). (q, w) \<in> set ts \<and> quantile_loop w seen i cs = None}"
  using assms
proof (induction cs arbitrary: ts seen i out rest)
  case (Cons c cs)
  show ?case
  proof (cases "c = 0")
    case True
    with Cons.IH [OF Cons.prems(1)] Cons.prems(2) show ?thesis by simp
  next
    case False
    define m where "m = u64 (seen + c)"
    let ?now = "filter (\<lambda>t. snd t \<le> m) ts" and ?later = "filter (\<lambda>t. \<not> snd t \<le> m) ts"
    have ql: "quantile_loop w seen i (c # cs) = (if w \<le> m then Some (valueOf i) else quantile_loop w m (Suc i) cs)" for w
      using False by (simp add: m_def Let_def)
    obtain out' rest' where l: "quantiles_loop ?later m (Suc i) cs = (out', rest')" by fastforce
    have "sorted (map snd ?later)" using Cons.prems(1) by (rule sorted_filter)
    note IH = Cons.IH [OF this l]
    have r: "(out, rest) = (if ?later = [] then (map (\<lambda>t. (fst t, valueOf i)) ?now, []) else (map (\<lambda>t. (fst t, valueOf i)) ?now @ out', rest'))"
      using Cons.prems(2) False answer_sorted [OF Cons.prems(1), of m "valueOf i"] l
      by (auto simp: m_def [symmetric] Let_def split: if_splits)
    show ?thesis
    proof (cases "?later = []")
      case True
      then have "\<forall>t \<in> set ts. snd t \<le> m" by (simp add: filter_empty_conv)
      with True r show ?thesis unfolding ql by (force simp: image_iff)
    next
      case False
      with r have "out = map (\<lambda>t. (fst t, valueOf i)) ?now @ out'" "rest = rest'" by auto
      with IH show ?thesis unfolding ql by (auto simp: image_iff split: if_splits)
    qed
  qed
qed auto

lemma rank_mono: "0 \<le> q \<Longrightarrow> q \<le> r \<Longrightarrow> rank q n \<le> rank r n"
proof -
  assume "0 \<le> q" "q \<le> r"
  moreover have "0 \<le> float64 (of_nat n)" using float64_mono [of 0 "of_nat n"] by simp
  ultimately have "float64 (q * float64 (of_nat n)) \<le> float64 (r * float64 (of_nat n))" by (intro float64_mono mult_right_mono) auto
  then show ?thesis unfolding rank_def by (intro nat_mono ceiling_mono)
qed

lemma map_of_function: "(\<forall>(a, b) \<in> set xs. b = F a) \<Longrightarrow> map_of xs a = (if a \<in> fst ` set xs then Some (F a) else None)"
  by (induction xs) auto

section \<open>Properties\<close>

text \<open>
  Whatever split of the samples over the workers, merging their histograms gives the histogram of
  all samples: recording never panics, and counts, total, sum, minimum and maximum come out the same
  as if one worker had recorded everything.
\<close>

theorem merging_loses_nothing:
  assumes "samples (concat parts)" "map (\<lambda>p. record_all p NewHistogram) parts = map Ret hs"
  shows "record_all (concat parts) NewHistogram = Ret (fold (\<lambda>h m. Merge m h) hs NewHistogram)"
proof -
  have part: "samples p" if "p \<in> set parts" for p
  proof -
    from that obtain as bs where "parts = as @ p # bs" by (meson split_list)
    with assms(1) show ?thesis by (auto simp: samples_def)
  qed
  have all: "record_all p NewHistogram = Ret (summary p)" if "samples p" for p
    using record_all_summary [of "[]" p] that by (simp add: summary_Nil)
  have "map Ret hs = map (\<lambda>p. Ret (summary p)) parts" unfolding assms(2) [symmetric] using all part by auto
  then have "map Ret hs = map Ret (map summary parts)" by simp
  then have hs: "hs = map summary parts" by (rule map_injective) (simp add: inj_def)
  have "fold (\<lambda>h m. Merge m h) (map summary ps) (summary vs) = summary (vs @ concat ps)" if "samples (vs @ concat ps)" for vs ps
    using that
  proof (induction ps arbitrary: vs)
    case (Cons p ps)
    then have "samples (vs @ p)" "samples ((vs @ p) @ concat ps)" by (auto simp: samples_def)
    with Cons.IH [of "vs @ p"] show ?case by (simp add: Merge_summary)
  qed simp
  from this [of "[]" parts] assms(1) show ?thesis unfolding hs by (simp add: all summary_Nil)
qed



text \<open>
  Asking for several quantiles at once gives, for each strictly between 0 and 1, what asking for it
  alone gives, in whatever order and however often it is asked for.
\<close>

theorem Quantiles_agree:
  assumes "\<forall>q \<in> set qs. 0 < q \<and> q < 1" "q \<in> set qs"
  shows "Quantiles qs h q = Some (Quantile q h)"
proof (cases "h_total h = 0")
  case True
  with assms(2) show ?thesis by (simp add: Quantiles_def Quantile_def)
next
  case False
  let ?n = "h_total h"
  define tgt where "tgt r = (let t = rank r ?n in if t = 0 then 1 else t)" for r
  define ts where "ts = map (\<lambda>r. (r, tgt r)) (sort qs)"
  have pos: "rank r ?n \<noteq> 0" if "r \<in> set qs" for r
  proof -
    have "0 < float64 (of_nat ?n)" using False by (intro float64_pos) simp
    then have "0 < float64 (r * float64 (of_nat ?n))" using assms(1) that by (intro float64_pos) simp
    then show ?thesis by (simp add: rank_def)
  qed
  then have tgt: "tgt r = rank r ?n" if "r \<in> set qs" for r using that by (simp add: tgt_def Let_def)
  have srt: "sorted (map snd ts)"
  proof -
    have "sorted_wrt (\<lambda>x y. tgt x \<le> tgt y) (sort qs)"
      using assms(1) by (intro sorted_wrt_mono_rel [OF _ sorted_sort]) (auto simp: tgt less_imp_le intro: rank_mono)
    then show ?thesis by (simp add: ts_def comp_def sorted_map)
  qed
  obtain out rest where l: "quantiles_loop ts 0 0 (h_counts h) = (out, rest)" by fastforce
  note q = quantiles_loop_finds [OF srt l]
  let ?all = "out @ map (\<lambda>t. (fst t, h_max h)) rest"
  have F: "Quantile r h = (case quantile_loop (tgt r) 0 0 (h_counts h) of None \<Rightarrow> h_max h | Some v \<Rightarrow> v)" if "r \<in> set qs" for r
    using that assms(1) False by (auto simp: Quantile_def tgt)
  have "\<forall>(a, b) \<in> set (rev ?all). b = Quantile a h" using q F by (auto simp: ts_def)
  moreover have "q \<in> fst ` set (rev ?all)"
    using q assms(2) by (cases "quantile_loop (tgt q) 0 0 (h_counts h)") (force simp: ts_def image_iff)+
  ultimately have "map_of (rev ?all) q = Some (Quantile q h)" by (subst map_of_function) auto
  then show ?thesis using False l by (simp add: Quantiles_def ts_def tgt_def)
qed

end
