(* ===== verification/Info.thy ===== *)
theory Info
  imports Cmd_Keyspace Go_Float
begin

text \<open>
  The reply of \<open>INFO\<close>: the builder of \<open>src/internal/command/serverinfo.go\<close> and what
  \<open>src/internal/server/env.go\<close> puts into it, with the counters of the engine and its log. Readings of
  the Go runtime and of the operating system are inputs.
\<close>

section \<open>The builder\<close>

record InfoBuilder =
  ib_sb :: bytes
  ib_wanted :: "bytes list"
  ib_all :: bool
  ib_inWanted :: bool

fun wanted_loop :: "bytes list \<Rightarrow> InfoBuilder \<Rightarrow> InfoBuilder" where
  "wanted_loop [] b = b"
| "wanted_loop (s # ss) b =
     wanted_loop ss
       (if s = ''all'' \<or> s = ''default'' \<or> s = ''everything'' then b\<lparr>ib_all := True\<rparr> else b\<lparr>ib_wanted := s # ib_wanted b\<rparr>)"

definition NewInfoBuilder :: "bytes list \<Rightarrow> InfoBuilder" where
  "NewInfoBuilder sections =
     (let b = \<lparr>ib_sb = [], ib_wanted = [], ib_all = False, ib_inWanted = False\<rparr> in
      if sections = [] then b\<lparr>ib_all := True\<rparr> else wanted_loop sections b)"

text \<open>\<open>strings.ToUpper\<close> of an ASCII letter; the section names are words of lower-case letters.\<close>

definition ascii_upper :: "byte \<Rightarrow> byte" where
  "ascii_upper c = (if 97 \<le> bval c \<and> bval c \<le> 122 then mkbyte (bval c - 32) else c)"

definition Section :: "bytes \<Rightarrow> InfoBuilder \<Rightarrow> bool \<times> InfoBuilder" where
  "Section name b =
     (let b = b\<lparr>ib_inWanted := ib_all b \<or> name \<in> set (ib_wanted b)\<rparr> in
      if \<not> ib_inWanted b then (False, b)
      else
        let b = (if ib_sb b \<noteq> [] then b\<lparr>ib_sb := ib_sb b @ crlf\<rparr> else b) in
        (True, b\<lparr>ib_sb := ib_sb b @ ''# '' @ map ascii_upper (take 1 name) @ drop 1 name @ crlf\<rparr>))"

definition Field :: "bytes \<Rightarrow> bytes \<Rightarrow> InfoBuilder \<Rightarrow> InfoBuilder" where
  "Field key val b =
     (if \<not> ib_inWanted b then b else b\<lparr>ib_sb := ib_sb b @ key @ '':'' @ val @ crlf\<rparr>)"

text \<open>
  The other methods call \<open>Field\<close> with the value as text; a call is written here as the key and the
  text it passes, and a block \<open>if b.Section(name) { ... }\<close> as the name and its calls in order.
\<close>

definition info_Int :: "bytes \<Rightarrow> int \<Rightarrow> bytes \<times> bytes" where
  "info_Int key v = (key, FormatInt v)"

definition info_Uint :: "bytes \<Rightarrow> nat \<Rightarrow> bytes \<times> bytes" where
  "info_Uint key v = (key, FormatUint v)"

definition info_Float :: "bytes \<Rightarrow> rat \<Rightarrow> bytes \<times> bytes" where
  "info_Float key v = (key, FormatFloat 2 v)"

definition info_Bool :: "bytes \<Rightarrow> bool \<Rightarrow> bytes \<times> bytes" where
  "info_Bool key v = (key, if v then ''1'' else ''0'')"

definition in_section :: "bytes \<Rightarrow> (bytes \<times> bytes) list \<Rightarrow> InfoBuilder \<Rightarrow> InfoBuilder" where
  "in_section name calls b = (case Section name b of (True, b) \<Rightarrow> fold (\<lambda>(k, v). Field k v) calls b | (False, b) \<Rightarrow> b)"

section \<open>Counters of the engine and its log\<close>

record wal_Stats =
  ws_Appends :: nat
  ws_Writes :: nat
  ws_Fsyncs :: nat
  ws_BytesOut :: nat
  ws_LastLSN :: nat
  ws_SyncedLSN :: nat
  ws_SegmentSeq :: nat
  ws_Policy :: bytes

definition Log_Stats :: "wal_env \<Rightarrow> Log \<Rightarrow> wal_Stats" where
  "Log_Stats E l =
     \<lparr>ws_Appends = l_appends l, ws_Writes = l_writes l, ws_Fsyncs = l_fsyncs l, ws_BytesOut = l_bytesOut l,
      ws_LastLSN = Log_LastLSN l, ws_SyncedLSN = l_syncedLSN l, ws_SegmentSeq = l_segSeq l,
      ws_Policy = SyncPolicy_String (wo_Policy E)\<rparr>"

definition WALStats :: "persist_opt \<Rightarrow> pstate \<Rightarrow> wal_Stats option" where
  "WALStats P j = (case e_log j of None \<Rightarrow> None | Some lg \<Rightarrow> Some (Log_Stats (p_wal P) lg))"

record PersistenceStats =
  Saves :: nat
  SavesFailed :: nat
  LastSaveMs :: int
  LastSaveOK :: bool
  DirtyChanges :: nat

definition Engine_PersistenceStats :: "pstate \<Rightarrow> PersistenceStats" where
  "Engine_PersistenceStats j =
     \<lparr>Saves = e_savesTotal j, SavesFailed = e_savesFailed j, LastSaveMs = e_lastSaveMs j, LastSaveOK = e_lastSaveOK j,
      DirtyChanges = e_dirty j\<rparr>"

text \<open>The parts of \<open>Recovery\<close> only \<open>INFO\<close> shows: how long it took, and where the log was cut.\<close>

record persist_view =
  pv_stats :: PersistenceStats
  pv_wal :: "wal_Stats option"
  pv_rec :: Recovery
  pv_Elapsed :: int
  pv_TruncatedPath :: bytes
  pv_TruncatedAt :: nat

section \<open>Helpers\<close>

definition hitRatio :: "ServerStats \<Rightarrow> rat" where
  "hitRatio st =
     (let h = KeyspaceHits st; m = KeyspaceMisses st in
      if u64 (h + m) = 0 then 0 else float64 (float64 (of_nat h) / float64 (of_nat (u64 (h + m)))))"

definition statusOf :: "bool \<Rightarrow> bytes" where
  "statusOf ok = (if ok then ''ok'' else ''err'')"

function human_loop :: "int \<Rightarrow> int \<Rightarrow> nat \<Rightarrow> int \<times> nat" where
  "human_loop v d e = (if v \<ge> 1024 \<and> e < 4 then human_loop (v div 1024) (d * 1024) (e + 1) else (d, e))"
  by auto
termination by (relation "measure (\<lambda>(v, d, e). 4 - e)") auto

declare human_loop.simps [simp del]

definition humanBytes :: "int \<Rightarrow> bytes" where
  "humanBytes n =
     (if n < 1024 then FormatInt n @ ''B''
      else
        case human_loop (n div 1024) 1024 0 of (d, e) \<Rightarrow>
          FormatFloat 2 (float64 (float64 (of_int n) / float64 (of_int d))) @ [''KMGTP'' ! e])"

definition addr_port :: "bytes \<Rightarrow> bytes" where
  "addr_port addr = (if CHR '':'' \<in> set addr then rev (takeWhile (\<lambda>c. c \<noteq> CHR '':'') (rev addr)) else addr)"

definition opsPerSec :: "int \<Rightarrow> ServerStats \<Rightarrow> int" where
  "opsPerSec since st =
     (let elapsed = Seconds since in
      if elapsed < 1 then 0 else trunc (float64 (float64 (of_nat (CommandsProcessed st)) / elapsed)))"

section \<open>The sections\<close>

text \<open>Readings of the runtime and the operating system.\<close>

record runtime =
  rt_GOOS :: bytes
  rt_GOARCH :: bytes
  rt_Version :: bytes
  rt_pid :: int
  rt_exe :: bytes
  rt_Alloc :: nat
  rt_Sys :: nat
  rt_PauseTotalNs :: nat
  rt_NumGC :: nat
  rt_NumGoroutine :: int
  rt_NumCPU :: int
  rt_GOMAXPROCS :: int

text \<open>
  What \<open>env.Info\<close> reads besides the world of the command: the server's identity, its clocks in
  nanoseconds (\<open>is_now\<close> the injected one, \<open>is_since\<close> the time since the start), the engine's \<open>Name\<close>,
  \<open>Stats\<close> and \<open>Len\<close>, and the saver: none, one of another type, or the durable engine.
\<close>

record 's info_src =
  is_rt :: runtime
  is_version :: bytes
  is_runID :: bytes
  is_addr :: bytes
  is_startedAt :: int
  is_now :: int
  is_since :: int
  is_Name :: bytes
  is_Stats :: "('s, Stats) action"
  is_Len :: "('s, int) action"
  is_saver :: "'s \<Rightarrow> persist_view option option"

definition Stats0 :: Stats where
  "Stats0 = \<lparr>Keys = 0, VolatileKeys = 0, MemoryBytes = 0, Extra = []\<rparr>"

text \<open>\<open>st, _ := e.store.Stats(...)\<close> keeps the zero value when there is an error.\<close>

definition stats_or_zero :: "'s info_src \<Rightarrow> 's \<Rightarrow> Stats" where
  "stats_or_zero src e = (case fst (is_Stats src e) of Ret st \<Rightarrow> st | _ \<Rightarrow> Stats0)"

definition log_lines :: "wal_Stats \<Rightarrow> (bytes \<times> bytes) list" where
  "log_lines ws =
     [info_Bool ''aof_enabled'' True, (''aof_fsync_policy'', ws_Policy ws), info_Uint ''aof_appends'' (ws_Appends ws),
      info_Uint ''aof_writes'' (ws_Writes ws), info_Uint ''aof_fsyncs'' (ws_Fsyncs ws), info_Uint ''aof_bytes_written'' (ws_BytesOut ws),
      info_Uint ''wal_last_lsn'' (ws_LastLSN ws), info_Uint ''wal_synced_lsn'' (ws_SyncedLSN ws), info_Uint ''wal_segment'' (ws_SegmentSeq ws),
      info_Uint ''wal_unsynced_records'' (nat ((int (ws_LastLSN ws) - int (ws_SyncedLSN ws)) mod 18446744073709551616))]"

definition recovery_lines :: "persist_view \<Rightarrow> (bytes \<times> bytes) list" where
  "recovery_lines pv =
     (let rec = pv_rec pv in
      [info_Bool ''recovery_snapshot_loaded'' (SnapshotLoaded rec), info_Uint ''recovery_snapshot_keys'' (SnapshotKeys rec),
       info_Int ''recovery_log_records_applied'' (int (LogApplied rec)), info_Int ''recovery_log_segments_read'' (int (LogSegments rec)),
       (''recovery_duration'', Duration_String (pv_Elapsed pv)), info_Bool ''recovery_truncated_torn_tail'' (LogTruncated rec)]
      @ (if LogTruncated rec then [(''recovery_truncated_at'', pv_TruncatedPath pv @ '':'' @ FormatInt (int (pv_TruncatedAt pv)))] else []))"

text \<open>\<open>ps.LastSaveMs / 1000\<close> truncates towards zero.\<close>

definition infoPersistence :: "bool \<Rightarrow> persist_view option option \<Rightarrow> (bytes \<times> bytes) list" where
  "infoPersistence bgsave saver =
     info_Bool ''loading'' False #
     (case saver of
        None \<Rightarrow> [info_Bool ''persistence_enabled'' False, (''note'', ''running as a cache: data is lost on restart'')]
      | Some pe \<Rightarrow>
          info_Bool ''persistence_enabled'' True # info_Bool ''rdb_bgsave_in_progress'' bgsave #
          (case pe of
             None \<Rightarrow> []
           | Some pv \<Rightarrow>
               let ps = pv_stats pv in
               [info_Int ''rdb_last_save_time'' (if LastSaveMs ps < 0 then - (- LastSaveMs ps div 1000) else LastSaveMs ps div 1000),
                (''rdb_last_bgsave_status'', statusOf (LastSaveOK ps)), info_Uint ''rdb_changes_since_last_save'' (DirtyChanges ps),
                info_Uint ''rdb_saves_total'' (Saves ps), info_Uint ''rdb_saves_failed'' (SavesFailed ps)]
               @ (case pv_wal pv of None \<Rightarrow> [] | Some ws \<Rightarrow> log_lines ws)
               @ recovery_lines pv))"

definition server_lines :: "'s info_src \<Rightarrow> (bytes \<times> bytes) list" where
  "server_lines src =
     (let rt = is_rt src; up = is_now src - is_startedAt src in
      [(''redis_version'', ''7.2.0-compatible''), (''rfs_version'', is_version src), (''redis_mode'', ''standalone''),
       (''os'', rt_GOOS rt @ '' '' @ rt_GOARCH rt), (''go_version'', rt_Version rt), (''process_id'', FormatInt (rt_pid rt)),
       (''run_id'', is_runID src), (''tcp_port'', addr_port (is_addr src)), info_Int ''uptime_in_seconds'' (trunc (Seconds up)),
       info_Int ''uptime_in_days'' (trunc (float64 (Hours up / 24))), (''executable'', rt_exe rt), (''storage_engine'', is_Name src)])"

definition memory_lines :: "runtime \<Rightarrow> Stats \<Rightarrow> (bytes \<times> bytes) list" where
  "memory_lines rt st =
     [info_Uint ''used_memory'' (rt_Alloc rt), (''used_memory_human'', humanBytes (i64 (int (rt_Alloc rt)))),
      info_Uint ''used_memory_rss'' (rt_Sys rt), info_Int ''used_memory_dataset'' (MemoryBytes st),
      (''used_memory_dataset_human'', humanBytes (MemoryBytes st)), info_Uint ''mem_fragmentation_ratio_numerator'' (rt_Sys rt),
      (''mem_allocator'', ''go-runtime''), info_Uint ''gc_pause_total_ns'' (rt_PauseTotalNs rt), info_Uint ''gc_cycles'' (rt_NumGC rt),
      (''used_memory_dataset_is_estimate'', ''1'')]"

definition stats_lines :: "int \<Rightarrow> ServerStats \<Rightarrow> (bytes \<times> bytes) list" where
  "stats_lines since st =
     [info_Uint ''total_connections_received'' (ConnectionsReceived st), info_Uint ''total_commands_processed'' (CommandsProcessed st),
      info_Uint ''total_commands_failed'' (CommandsFailed st), info_Uint ''total_commands_rejected'' (CommandsRejected st),
      info_Uint ''total_net_input_bytes'' (NetInputBytes st), info_Uint ''total_net_output_bytes'' (NetOutputBytes st),
      info_Uint ''keyspace_hits'' (KeyspaceHits st), info_Uint ''keyspace_misses'' (KeyspaceMisses st),
      info_Float ''keyspace_hit_ratio'' (hitRatio st), info_Uint ''expired_keys'' (ExpiredKeys st),
      info_Uint ''protocol_errors'' (ProtocolErrors st), info_Uint ''timeout_disconnects'' (TimeoutDisconnects st),
      info_Uint ''pipeline_batches'' (PipelineBatches st),
      info_Float ''mean_command_latency_usec'' (float64 (float64 (of_int (MeanLatency st)) / 1000)),
      info_Float ''max_command_latency_usec'' (float64 (float64 (of_nat (LatencyMaxNanos st)) / 1000)),
      info_Int ''instantaneous_ops_per_sec'' (opsPerSec since st)]"

definition keyspace_lines :: "'s info_src \<Rightarrow> 's \<Rightarrow> (bytes \<times> bytes) list" where
  "keyspace_lines src e =
     (case fst (is_Len src e) of
        Ret n \<Rightarrow>
          if n > 0
          then [(''db0'', ''keys='' @ FormatInt n @ '',expires='' @ FormatInt (VolatileKeys (stats_or_zero src e)) @ '',avg_ttl=0'')]
          else []
      | _ \<Rightarrow> [])"

definition clients_lines :: "Config \<Rightarrow> ServerStats \<Rightarrow> (bytes \<times> bytes) list" where
  "clients_lines cfg st =
     [info_Int ''connected_clients'' (ConnectionsActive st), info_Int ''maxclients'' (MaxClients cfg),
      info_Uint ''rejected_connections'' (ConnectionsRejected st), info_Int ''blocked_clients'' 0]"

definition replication_lines :: "bytes \<Rightarrow> (bytes \<times> bytes) list" where
  "replication_lines runID =
     [(''role'', ''master''), info_Int ''connected_slaves'' 0, (''master_replid'', runID), info_Int ''master_repl_offset'' 0]"

definition cpu_lines :: "runtime \<Rightarrow> (bytes \<times> bytes) list" where
  "cpu_lines rt =
     [info_Int ''num_goroutines'' (rt_NumGoroutine rt), info_Int ''num_cpu'' (rt_NumCPU rt), info_Int ''gomaxprocs'' (rt_GOMAXPROCS rt)]"

definition info_sections :: "'s info_src \<Rightarrow> 's World \<Rightarrow> (bytes \<times> (bytes \<times> bytes) list) list" where
  "info_sections src w =
     [(''server'', server_lines src), (''clients'', clients_lines (wd_cfg w) (wd_stats w)),
      (''memory'', memory_lines (is_rt src) (stats_or_zero src (wd_store w))),
      (''persistence'', infoPersistence (wd_bgsave w) (is_saver src (wd_store w))), (''stats'', stats_lines (is_since src) (wd_stats w)),
      (''replication'', replication_lines (is_runID src)), (''cpu'', cpu_lines (is_rt src)),
      (''commandstats'', [(''note'', ''per-command breakdown is exported via Prometheus at '' @ MetricsAddr (wd_cfg w))]),
      (''keyspace'', keyspace_lines src (wd_store w))]"

definition Info :: "'s info_src \<Rightarrow> bytes list \<Rightarrow> 's World \<Rightarrow> bytes" where
  "Info src sections w = ib_sb (fold (\<lambda>(name, calls). in_section name calls) (info_sections src w) (NewInfoBuilder sections))"

text \<open>The durable engine as \<open>INFO\<close> sees it.\<close>

definition engine_view :: "persist_opt \<Rightarrow> Recovery \<Rightarrow> int \<Rightarrow> bytes \<Rightarrow> nat \<Rightarrow> Engine \<Rightarrow> persist_view option option" where
  "engine_view P rec elapsed path cutAt e =
     Some (Some \<lparr>pv_stats = Engine_PersistenceStats (jst e), pv_wal = WALStats P (jst e), pv_rec = rec, pv_Elapsed = elapsed,
                 pv_TruncatedPath = path, pv_TruncatedAt = cutAt\<rparr>)"

end
