(* ===== verification/Bench_Client.thy ===== *)
theory Bench_Client
  imports Bench_Histogram Info Resp_Reply
begin

text \<open>
  The load generator, \<open>src/internal/bench/workload.go\<close> and \<open>runner.go\<close>: the workloads, the workers
  that drive the connections, preloading, and reading the server's \<open>INFO\<close>. Random draws, clock
  readings and what the sockets deliver are inputs of a step. A worker's turn is two steps, since
  other workers run between its claim on the budget and its batch.
\<close>

section \<open>Configuration\<close>

record bench_Config =
  bc_Addr :: bytes
  bc_Password :: bytes
  bc_Connections :: int
  bc_Pipeline :: int
  bc_Duration :: int
  bc_Requests :: int
  bc_Warmup :: int
  bc_Rate :: int
  bc_KeySpace :: int
  bc_ValueSize :: int
  bc_ReadRatio :: rat
  bc_Workload :: bytes
  bc_Distribution :: bytes
  bc_Preload :: bool
  bc_Label :: bytes

definition ParseDistribution :: "bytes \<Rightarrow> bytes res" where
  "ParseDistribution s =
     (if s = ''uniform'' \<or> s = ''zipf'' \<or> s = ''sequential'' then Ret s
      else Fail (FmtErr ''bench: unknown distribution %q (want uniform, zipf or sequential)'' s))"

definition ParseWorkload :: "bytes \<Rightarrow> bytes res" where
  "ParseWorkload s =
     (if s = ''get'' \<or> s = ''set'' \<or> s = ''mixed'' \<or> s = ''incr'' \<or> s = ''ping'' then Ret s
      else Fail (FmtErr ''bench: unknown workload %q (want get, set, mixed, incr or ping)'' s))"

definition bench_withDefaults :: "(bench_Config, unit) action" where
  "bench_withDefaults c =
     (if bc_Addr c = [] then (Fail (OtherErr ''bench: Addr is required''), c)
      else
        let c = (if bc_Connections c \<le> 0 then c\<lparr>bc_Connections := 50\<rparr> else c);
            c = (if bc_Pipeline c \<le> 0 then c\<lparr>bc_Pipeline := 1\<rparr> else c);
            c = (if bc_KeySpace c \<le> 0 then c\<lparr>bc_KeySpace := 100000\<rparr> else c);
            c = (if bc_ValueSize c \<le> 0 then c\<lparr>bc_ValueSize := 64\<rparr> else c);
            c = (if bc_Workload c = [] then c\<lparr>bc_Workload := ''mixed''\<rparr> else c);
            c = (if bc_Distribution c = [] then c\<lparr>bc_Distribution := ''uniform''\<rparr> else c);
            c = (if bc_Requests c \<le> 0 \<and> bc_Duration c \<le> 0 then c\<lparr>bc_Duration := 10000000000\<rparr> else c)
        in if bc_ReadRatio c < 0 \<or> bc_ReadRatio c > 1
           then (Fail (FmtErr ''bench: ReadRatio %.2f is outside [0,1]'' (FormatFloat 2 (bc_ReadRatio c))), c)
           else (Ret (), if bc_Label c = [] then c\<lparr>bc_Label := bc_Workload c\<rparr> else c))"

section \<open>Keys and commands\<close>

definition keyPrefix :: bytes where
  "keyPrefix = ''rfs:bench:''"

record generator =
  g_workload :: bytes
  g_dist :: bytes
  g_keySpace :: nat
  g_readRatio :: rat
  g_seq :: nat
  g_value :: bytes

text \<open>One draw from the random source: \<open>Uint64N(keySpace)\<close>, the Zipf generator and \<open>Float64()\<close>.\<close>

record draw =
  dr_uniform :: nat
  dr_zipf :: nat
  dr_float :: rat

definition makeValue :: "int \<Rightarrow> (nat \<Rightarrow> nat) \<Rightarrow> bytes" where
  "makeValue n letters = map (\<lambda>i. mkbyte (97 + letters i)) [0..<nat (if n \<le> 0 then 1 else n)]"

definition newGenerator :: "bench_Config \<Rightarrow> (nat \<Rightarrow> nat) \<Rightarrow> generator" where
  "newGenerator cfg letters =
     \<lparr>g_workload = bc_Workload cfg, g_dist = bc_Distribution cfg, g_keySpace = nat (bc_KeySpace cfg mod 18446744073709551616),
      g_readRatio = bc_ReadRatio cfg, g_seq = 0, g_value = makeValue (bc_ValueSize cfg) letters\<rparr>"

text \<open>A modulus or a bound of zero panics.\<close>

definition nextKey :: "draw \<Rightarrow> (generator, bytes) action" where
  "nextKey d g =
     (if g_dist g = ''sequential'' then
        if g_keySpace g = 0 then (Panic, g)
        else (Ret (keyPrefix @ FormatUint (g_seq g mod g_keySpace g)), g\<lparr>g_seq := u64 (g_seq g + 1)\<rparr>)
      else if g_dist g = ''zipf'' then (Ret (keyPrefix @ FormatUint (dr_zipf d)), g)
      else if g_keySpace g = 0 then (Panic, g)
      else (Ret (keyPrefix @ FormatUint (dr_uniform d)), g))"

definition isRead :: "draw \<Rightarrow> generator \<Rightarrow> bool" where
  "isRead d g =
     (if g_workload g = ''get'' then True
      else if g_workload g = ''set'' \<or> g_workload g = ''incr'' then False
      else if g_workload g = ''ping'' then True
      else dr_float d < g_readRatio g)"

text \<open>\<open>encode\<close>: the command to write and whether it is a read.\<close>

definition encode :: "bench_Config \<Rightarrow> draw \<Rightarrow> (generator, bytes list \<times> bool) action" where
  "encode cfg d =
     (let keyed = (\<lambda>f. sbind (nextKey d) (\<lambda>k g. (Ret (f k g), g)));
          get = keyed (\<lambda>k g. ([''GET'', k], True)); set = keyed (\<lambda>k g. ([''SET'', k, g_value g], False)) in
      if bc_Workload cfg = ''ping'' then (\<lambda>g. (Ret ([''PING''], True), g))
      else if bc_Workload cfg = ''incr'' then keyed (\<lambda>k g. ([''INCR'', k], False))
      else if bc_Workload cfg = ''get'' then get
      else if bc_Workload cfg = ''set'' then set
      else (\<lambda>g. if isRead d g then get g else set g))"

fun encode_batch :: "bench_Config \<Rightarrow> (nat \<Rightarrow> draw) \<Rightarrow> nat \<Rightarrow> nat \<Rightarrow> nat \<Rightarrow> Writer \<Rightarrow> (generator, nat \<times> nat \<times> Writer) action" where
  "encode_batch cfg ds 0 rs ws w g = (Ret (rs, ws, w), g)"
| "encode_batch cfg ds (Suc n) rs ws w g =
     (case encode cfg (ds n) g of
        (Ret (args, rd), g) \<Rightarrow>
          encode_batch cfg ds n (if rd then rs + 1 else rs) (if rd then ws else ws + 1) (WriteCommand args w) g
      | (Fail e, g) \<Rightarrow> (Fail e, g)
      | (Panic, g) \<Rightarrow> (Panic, g))"

fun read_batch :: "'f rr_env \<Rightarrow> nat \<Rightarrow> nat \<Rightarrow> bytes \<Rightarrow> nat res \<times> bytes" where
  "read_batch E 0 errs br = (Ret errs, br)"
| "read_batch E (Suc n) errs br =
     (case the (ReplyReader_Read E br) of
        (Ret rep, br) \<Rightarrow> read_batch E n (if IsError rep then errs + 1 else errs) br
      | (Fail e, br) \<Rightarrow> (Fail e, br)
      | (Panic, br) \<Rightarrow> (Panic, br))"

section \<open>Workers\<close>

datatype worker_pc = Ready | Claimed | Ended "unit res"

record worker =
  wk_pc :: worker_pc
  wk_gen :: generator
  wk_hist :: Histogram
  wk_sent :: int
  wk_rest :: bytes
  wk_done :: nat

record shared_counts =
  sc_ops :: nat
  sc_errs :: nat
  sc_reads :: nat
  sc_writes :: nat
  sc_budget :: int

text \<open>
  What the outside decides about a step: whether the context has been cancelled at the top of the
  loop and while waiting, the clock when the batch is issued and when its replies are in, the random
  draws, the error of the flush, the bytes the server sends and how the stream ends after them.
\<close>

record batch_in =
  bi_cancelled :: bool
  bi_waitCancelled :: bool
  bi_until :: int
  bi_issued :: int
  bi_done :: int
  bi_draws :: "nat \<Rightarrow> draw"
  bi_flush :: "gerror option"
  bi_arrives :: bytes
  bi_err :: gerror

definition claim :: "bench_Config \<Rightarrow> batch_in \<Rightarrow> worker \<Rightarrow> shared_counts \<Rightarrow> worker \<times> shared_counts" where
  "claim cfg b w sh =
     (if bi_cancelled b then (w\<lparr>wk_pc := Ended (Ret ())\<rparr>, sh)
      else if bc_Requests cfg > 0 then
        let left = i64 (sc_budget sh - bc_Pipeline cfg); sh = sh\<lparr>sc_budget := left\<rparr> in
        if left < 0 then (w\<lparr>wk_pc := Ended (Ret ())\<rparr>, sh) else (w\<lparr>wk_pc := Claimed\<rparr>, sh)
      else (w\<lparr>wk_pc := Claimed\<rparr>, sh))"

fun record_batch :: "int \<Rightarrow> nat \<Rightarrow> Histogram \<Rightarrow> Histogram res" where
  "record_batch lat 0 h = Ret h"
| "record_batch lat (Suc n) h = bind_res (RecordDuration lat h) (record_batch lat n)"

text \<open>\<open>time.Since\<close> saturates.\<close>

definition sat64 :: "int \<Rightarrow> int" where
  "sat64 d = max MinInt64 (min MaxInt64 d)"

definition due_time :: "int \<Rightarrow> int \<Rightarrow> worker \<Rightarrow> int \<Rightarrow> int" where
  "due_time interval start w issued = (if interval > 0 then start + i64 (wk_sent w * interval) else issued)"

definition batch :: "'f rr_env \<Rightarrow> bench_Config \<Rightarrow> int \<Rightarrow> int \<Rightarrow> batch_in \<Rightarrow> worker \<Rightarrow> shared_counts \<Rightarrow> worker \<times> shared_counts" where
  "batch E cfg interval start b w sh =
     (let depth = nat (bc_Pipeline cfg); stop = (\<lambda>r. (w\<lparr>wk_pc := Ended r\<rparr>, sh)) in
      if interval > 0 \<and> bi_until b < due_time interval start w 0 \<and> bi_waitCancelled b then stop (Ret ())
      else
        case encode_batch cfg (bi_draws b) depth 0 0 NewWriter (wk_gen w) of
          (Fail e, _) \<Rightarrow> stop (Fail e)
        | (Panic, _) \<Rightarrow> stop Panic
        | (Ret (rs, ws, _), g) \<Rightarrow>
            (case bi_flush b of
               Some e \<Rightarrow> stop (Fail e)
             | None \<Rightarrow>
                 (case read_batch (E\<lparr>rr_err := bi_err b\<rparr>) depth 0 (wk_rest w @ bi_arrives b) of
                    (Fail e, _) \<Rightarrow> stop (Fail e)
                  | (Panic, _) \<Rightarrow> stop Panic
                  | (Ret errs, br) \<Rightarrow>
                      (case record_batch (sat64 (bi_done b - due_time interval start w (bi_issued b))) depth (wk_hist w) of
                         Ret h \<Rightarrow>
                           (w\<lparr>wk_pc := Ready, wk_gen := g, wk_hist := h, wk_sent := i64 (wk_sent w + bc_Pipeline cfg),
                              wk_rest := br, wk_done := wk_done w + depth\<rparr>,
                            sh\<lparr>sc_ops := u64 (sc_ops sh + depth), sc_reads := u64 (sc_reads sh + rs),
                               sc_writes := u64 (sc_writes sh + ws), sc_errs := u64 (sc_errs sh + errs)\<rparr>)
                       | _ \<Rightarrow> stop Panic))))"

section \<open>Driving all connections\<close>

record drive_state =
  dv_workers :: "worker list"
  dv_shared :: shared_counts

text \<open>
  \<open>time.Duration(float64(time.Second) / (float64(cfg.Rate) / float64(len(conns))))\<close>.
\<close>

definition perConnInterval :: "bench_Config \<Rightarrow> nat \<Rightarrow> int" where
  "perConnInterval cfg n =
     (if bc_Rate cfg > 0
      then trunc (float64 (1000000000 / float64 (float64 (of_int (bc_Rate cfg)) / float64 (of_nat n)))) else 0)"

text \<open>The deadline of the run: \<open>Duration\<close> bounds it whenever it is set, also when \<open>Requests\<close> is.\<close>

definition run_deadline :: "bench_Config \<Rightarrow> int option" where
  "run_deadline cfg = (if bc_Duration cfg > 0 then Some (bc_Duration cfg) else None)"

definition drive_start :: "bench_Config \<Rightarrow> (nat \<Rightarrow> nat \<Rightarrow> nat) \<Rightarrow> (nat \<Rightarrow> bytes) \<Rightarrow> nat \<Rightarrow> drive_state" where
  "drive_start cfg letters unread n =
     \<lparr>dv_workers = map (\<lambda>i. \<lparr>wk_pc = Ready, wk_gen = newGenerator cfg (letters i), wk_hist = NewHistogram, wk_sent = 0,
                             wk_rest = unread i, wk_done = 0\<rparr>) [0..<n],
      dv_shared = \<lparr>sc_ops = 0, sc_errs = 0, sc_reads = 0, sc_writes = 0,
                   sc_budget = (if bc_Requests cfg > 0 then bc_Requests cfg else 0)\<rparr>\<rparr>"

definition put_worker :: "nat \<Rightarrow> worker \<times> shared_counts \<Rightarrow> drive_state \<Rightarrow> drive_state" where
  "put_worker i x d = \<lparr>dv_workers = (dv_workers d)[i := fst x], dv_shared = snd x\<rparr>"

inductive drive_step :: "'f rr_env \<Rightarrow> bench_Config \<Rightarrow> int \<Rightarrow> int \<Rightarrow> drive_state \<Rightarrow> drive_state \<Rightarrow> bool"
  for E cfg interval start where
  step_claim: "i < length (dv_workers d) \<Longrightarrow> wk_pc (dv_workers d ! i) = Ready \<Longrightarrow>
     drive_step E cfg interval start d (put_worker i (claim cfg b (dv_workers d ! i) (dv_shared d)) d)"
| step_batch: "i < length (dv_workers d) \<Longrightarrow> wk_pc (dv_workers d ! i) = Claimed \<Longrightarrow>
     drive_step E cfg interval start d (put_worker i (batch E cfg interval start b (dv_workers d ! i) (dv_shared d)) d)"

inductive drive_run :: "'f rr_env \<Rightarrow> bench_Config \<Rightarrow> int \<Rightarrow> int \<Rightarrow> drive_state \<Rightarrow> drive_state \<Rightarrow> bool"
  for E cfg interval start d0 where
  drive_init: "drive_run E cfg interval start d0 d0"
| drive_next: "drive_run E cfg interval start d0 d \<Longrightarrow> drive_step E cfg interval start d d' \<Longrightarrow> drive_run E cfg interval start d0 d'"

text \<open>Errors that only mean the run is over.\<close>

definition isExpectedStop :: "gerror \<Rightarrow> bool" where
  "isExpectedStop e \<longleftrightarrow> e = CtxCanceled \<or> e = CtxDeadlineExceeded \<or> e = ErrEOF \<or> e = ErrClosed"

record measurement =
  me_elapsed :: int
  me_ops :: nat
  me_errs :: nat
  me_reads :: nat
  me_writes :: nat
  me_hist :: Histogram

text \<open>
  What \<open>drive\<close> returns once every worker has ended: the first unexpected error of a worker (\<open>pick\<close>
  says whose was stored first), or the sums with the merged histogram.
\<close>

definition unexpected :: "drive_state \<Rightarrow> gerror list" where
  "unexpected d =
     concat (map (\<lambda>w. case wk_pc w of Ended (Fail e) \<Rightarrow> if isExpectedStop e then [] else [e] | _ \<Rightarrow> []) (dv_workers d))"

definition merged :: "drive_state \<Rightarrow> Histogram" where
  "merged d = fold (\<lambda>h m. Merge m h) (map wk_hist (dv_workers d)) NewHistogram"

definition drive_result :: "(gerror list \<Rightarrow> gerror) \<Rightarrow> int \<Rightarrow> drive_state \<Rightarrow> measurement res" where
  "drive_result pick elapsed d =
     (if unexpected d \<noteq> [] then Fail (pick (unexpected d))
      else
        let sh = dv_shared d in
        Ret \<lparr>me_elapsed = elapsed, me_ops = sc_ops sh, me_errs = sc_errs sh, me_reads = sc_reads sh,
             me_writes = sc_writes sh, me_hist = merged d\<rparr>)"

section \<open>Preloading\<close>

definition preload_key :: "int \<Rightarrow> bytes" where
  "preload_key i = keyPrefix @ FormatInt i"

text \<open>The commands of each batch, in order; a batch is answered before the next is sent.\<close>

function preload_batches :: "int \<Rightarrow> bytes \<Rightarrow> int \<Rightarrow> bytes list list list" where
  "preload_batches keySpace val i =
     (if i < keySpace then
        map (\<lambda>j. [''SET'', preload_key (i + j), val]) [0..min 1000 (keySpace - i) - 1] # preload_batches keySpace val (i + 1000)
      else [])"
  by auto
termination by (relation "measure (\<lambda>(n, v, i). nat (n - i))") auto

declare preload_batches.simps [simp del]

definition preload :: "bench_Config \<Rightarrow> (nat \<Rightarrow> nat) \<Rightarrow> bytes list list list" where
  "preload cfg letters = preload_batches (bc_KeySpace cfg) (makeValue (bc_ValueSize cfg) letters) 0"

section \<open>Reading the server's own numbers\<close>

definition trimCR :: "bytes \<Rightarrow> bytes" where
  "trimCR s = (if s \<noteq> [] \<and> last s = CR then butlast s else s)"

text \<open>\<open>s[:i]\<close> and \<open>s[i+1:]\<close> at the first \<open>b\<close>.\<close>

definition before_byte :: "byte \<Rightarrow> bytes \<Rightarrow> bytes" where
  "before_byte b s = takeWhile (\<lambda>c. c \<noteq> b) s"

definition after_byte :: "byte \<Rightarrow> bytes \<Rightarrow> bytes" where
  "after_byte b s = drop 1 (dropWhile (\<lambda>c. c \<noteq> b) s)"

definition info_line :: "bytes \<Rightarrow> (bytes \<rightharpoonup> bytes) \<Rightarrow> (bytes \<rightharpoonup> bytes)" where
  "info_line line out =
     (let line = trimCR line in
      if line = [] \<or> hd line = CHR ''#'' then out
      else if CHR '':'' \<in> set line \<and> hd line \<noteq> CHR '':''
      then out(before_byte (CHR '':'') line \<mapsto> after_byte (CHR '':'') line) else out)"

function parse_lines :: "bytes \<Rightarrow> (bytes \<rightharpoonup> bytes) \<Rightarrow> (bytes \<rightharpoonup> bytes)" where
  "parse_lines s out = (if s = [] then out else parse_lines (after_byte LF s) (info_line (before_byte LF s) out))"
  by auto
termination
proof (relation "measure (\<lambda>(s, out). length s)")
  fix s :: bytes and out :: "bytes \<rightharpoonup> bytes"
  assume "s \<noteq> []"
  have "length (dropWhile (\<lambda>c. c \<noteq> LF) s) \<le> length s" by (rule length_dropWhile_le)
  with \<open>s \<noteq> []\<close> show "((after_byte LF s, info_line (before_byte LF s) out), s, out) \<in> measure (\<lambda>(s, out). length s)"
    by (cases s) (auto simp: after_byte_def less_Suc_eq_le)
qed simp

declare parse_lines.simps [simp del]

definition parseInfo :: "bytes \<Rightarrow> (bytes \<rightharpoonup> bytes)" where
  "parseInfo s = parse_lines s Map.empty"

definition fetchInfo :: "'f rr_env \<Rightarrow> bytes \<Rightarrow> (bytes \<rightharpoonup> bytes) res" where
  "fetchInfo E br =
     (case the (ReplyReader_Read E br) of
        (Fail e, _) \<Rightarrow> Fail e
      | (Panic, _) \<Rightarrow> Panic
      | (Ret rep, _) \<Rightarrow> if IsError rep then Fail (FmtErr ''INFO: %s'' (Str rep)) else Ret (parseInfo (Str rep)))"

section \<open>What a run counts\<close>

lemma encode_batch_counts: "encode_batch cfg ds n rs ws w g = (Ret (rs', ws', w'), g') \<Longrightarrow> rs' + ws' = rs + ws + n"
  by (induction n arbitrary: rs ws w g) (auto split: prod.splits res.splits if_splits)

lemma read_batch_counts: "read_batch E n errs br = (Ret errs', br') \<Longrightarrow> errs' \<le> errs + n"
proof (induction n arbitrary: errs br)
  case (Suc n)
  then show ?case by (auto split: prod.splits res.splits if_splits dest!: Suc.IH)
qed simp

lemma record_batch_all:
  "record_batch lat n h = record_all (replicate n (nat (if lat < 0 then 0 else lat))) h"
proof (induction n arbitrary: h)
  case (Suc n)
  then have "record_batch lat n = record_all (replicate n (nat (if lat < 0 then 0 else lat)))" by (simp add: fun_eq_iff)
  then show ?case by (simp add: RecordDuration_def)
qed simp

lemma record_batch_summary:
  assumes "samples vs" "length vs + n < 2 ^ 64"
  shows "\<exists>ws. record_batch (sat64 d) n (summary vs) = Ret (summary (vs @ ws)) \<and> length ws = n \<and> samples (vs @ ws)"
proof -
  let ?ws = "replicate n (nat (if sat64 d < 0 then 0 else sat64 d))"
  have "nat (if sat64 d < 0 then 0 else sat64 d) < 2 ^ 64" by (auto simp: sat64_def min_def max_def)
  then have "samples (vs @ ?ws)" using assms by (auto simp: samples_def)
  from record_all_summary [OF this] this show ?thesis unfolding record_batch_all by (intro exI [of _ ?ws]) simp
qed

definition worker_ok :: "worker \<Rightarrow> bool" where
  "worker_ok w \<longleftrightarrow> (\<exists>vs. wk_hist w = summary vs \<and> length vs = wk_done w \<and> samples vs)"

definition pcs :: "(worker_pc \<Rightarrow> bool) \<Rightarrow> worker list \<Rightarrow> nat" where
  "pcs P ws = sum_list (map (\<lambda>w. if P (wk_pc w) then 1 else 0) ws)"

definition is_ended :: "worker_pc \<Rightarrow> bool" where
  "is_ended p \<longleftrightarrow> (\<exists>r. p = Ended r)"

definition balanced :: "bench_Config \<Rightarrow> drive_state \<Rightarrow> bool" where
  "balanced cfg d \<longleftrightarrow>
     (let sh = dv_shared d; ws = dv_workers d; D = bc_Pipeline cfg; taken = int (sc_ops sh) + D * int (pcs (\<lambda>p. p = Claimed) ws) in
      sc_ops sh = sum_list (map wk_done ws) \<and> sc_ops sh = sc_reads sh + sc_writes sh \<and> sc_errs sh \<le> sc_ops sh
      \<and> taken \<le> bc_Requests cfg \<and> (sc_budget sh \<ge> 0 \<longrightarrow> taken \<le> bc_Requests cfg - sc_budget sh)
      \<and> - (D * int (pcs is_ended ws)) \<le> sc_budget sh \<and> sc_budget sh \<le> bc_Requests cfg \<and> list_all worker_ok ws)"

lemma sum_list_update_at: "i < length xs \<Longrightarrow> sum_list (map f (xs[i := x])) + f (xs ! i) = sum_list (map f xs) + (f x :: nat)"
  by (induction xs arbitrary: i) (auto split: nat.splits)

lemma pcs_update: "i < length ws \<Longrightarrow> pcs P (ws[i := w]) + (if P (wk_pc (ws ! i)) then 1 else 0) = pcs P ws + (if P (wk_pc w) then 1 else 0)"
  unfolding pcs_def using sum_list_update_at [of i ws "\<lambda>w. if P (wk_pc w) then 1 else 0" w] by simp

lemma pcs_le: "pcs P ws \<le> length ws"
  by (induction ws) (auto simp: pcs_def)

lemma list_all_update: "list_all P xs \<Longrightarrow> P x \<Longrightarrow> list_all P (xs[i := x])"
  by (auto simp: list_all_iff dest: set_update_subset_insert [THEN subsetD])

definition fixed_count :: "bench_Config \<Rightarrow> nat \<Rightarrow> bool" where
  "fixed_count cfg n \<longleftrightarrow> 0 < bc_Requests cfg \<and> bc_Requests cfg \<le> MaxInt64 \<and> 0 < bc_Pipeline cfg \<and> bc_Pipeline cfg * int n \<le> 2 ^ 62"

lemma done_update: "i < length ws \<Longrightarrow> sum_list (map wk_done (ws[i := w])) + wk_done (ws ! i) = sum_list (map wk_done ws) + wk_done w"
  by (rule sum_list_update_at)

lemma times_Suc: "a + 1 = b \<Longrightarrow> D * int b = D * int a + (D :: int)"
  by (auto simp: algebra_simps)

lemma balancedI:
  assumes "sc_ops sh = sum_list (map wk_done ws)" "sc_ops sh = sc_reads sh + sc_writes sh" "sc_errs sh \<le> sc_ops sh"
    and "int (sc_ops sh) + bc_Pipeline cfg * int (pcs (\<lambda>p. p = Claimed) ws) \<le> bc_Requests cfg"
    and "sc_budget sh \<ge> 0 \<Longrightarrow> int (sc_ops sh) + bc_Pipeline cfg * int (pcs (\<lambda>p. p = Claimed) ws) \<le> bc_Requests cfg - sc_budget sh"
    and "- (bc_Pipeline cfg * int (pcs is_ended ws)) \<le> sc_budget sh" "sc_budget sh \<le> bc_Requests cfg" "list_all worker_ok ws"
  shows "balanced cfg \<lparr>dv_workers = ws, dv_shared = sh\<rparr>"
  using assms by (simp add: balanced_def)

lemma claim_balanced:
  assumes "balanced cfg d" "fixed_count cfg (length (dv_workers d))" "i < length (dv_workers d)" "wk_pc (dv_workers d ! i) = Ready"
  shows "balanced cfg (put_worker i (claim cfg b (dv_workers d ! i) (dv_shared d)) d)"
proof -
  let ?ws = "dv_workers d" and ?sh = "dv_shared d" and ?D = "bc_Pipeline cfg" and ?R = "bc_Requests cfg"
  let ?w = "?ws ! i"
  note inv = assms(1) [unfolded balanced_def Let_def]
  have w: "worker_ok ?w" using inv assms(3) by (auto simp: list_all_length)
  have ok: "worker_ok (?w\<lparr>wk_pc := p\<rparr>)" for p using w by (simp add: worker_ok_def)
  have dn: "sum_list (map wk_done (?ws[i := ?w\<lparr>wk_pc := p\<rparr>])) = sum_list (map wk_done ?ws)" for p
    using done_update [OF assms(3), of "?w\<lparr>wk_pc := p\<rparr>"] by simp
  have cl: "pcs (\<lambda>p. p = Claimed) (?ws[i := ?w\<lparr>wk_pc := p\<rparr>]) = pcs (\<lambda>p. p = Claimed) ?ws + (if p = Claimed then 1 else 0)" for p
    using pcs_update [OF assms(3), of "\<lambda>p. p = Claimed" "?w\<lparr>wk_pc := p\<rparr>"] assms(4) by simp
  have en: "pcs is_ended (?ws[i := ?w\<lparr>wk_pc := p\<rparr>]) = pcs is_ended ?ws + (if is_ended p then 1 else 0)" for p
    using pcs_update [OF assms(3), of is_ended "?w\<lparr>wk_pc := p\<rparr>"] assms(4) by (simp add: is_ended_def)
  have D: "0 < ?D" using assms(2) by (simp add: fixed_count_def)
  have "pcs is_ended (?ws[i := ?w\<lparr>wk_pc := Ended (Ret ())\<rparr>]) \<le> length ?ws" using pcs_le [of is_ended] by (metis length_list_update)
  then have "pcs is_ended ?ws + 1 \<le> length ?ws" using en [of "Ended (Ret ())"] by (simp add: is_ended_def)
  then have "?D * (int (pcs is_ended ?ws) + 1) \<le> ?D * int (length ?ws)" using D by (intro mult_left_mono) auto
  then have lo: "- (2 ^ 62) \<le> sc_budget ?sh - ?D" using inv assms(2) by (simp add: fixed_count_def algebra_simps)
  then have wrap: "i64 (sc_budget ?sh - ?D) = sc_budget ?sh - ?D"
    using inv assms(2) D by (intro i64_id) (simp add: is_i64_def fixed_count_def)
  have "?D \<le> sc_budget ?sh \<Longrightarrow> ?D \<le> sc_budget ?sh + ?D * int (pcs is_ended ?ws)" using D by (simp add: add_increasing2)
  then show ?thesis
    using inv D assms(2)
    by (auto simp: claim_def Let_def wrap put_worker_def balanced_def dn cl en is_ended_def fixed_count_def algebra_simps
        intro!: list_all_update ok)
qed

lemma batch_balanced:
  assumes "balanced cfg d" "fixed_count cfg (length (dv_workers d))" "i < length (dv_workers d)" "wk_pc (dv_workers d ! i) = Claimed"
  shows "balanced cfg (put_worker i (batch E cfg interval start b (dv_workers d ! i) (dv_shared d)) d)"
proof -
  let ?ws = "dv_workers d" and ?sh = "dv_shared d" and ?D = "bc_Pipeline cfg" and ?R = "bc_Requests cfg"
  let ?w = "?ws ! i" and ?n = "nat (bc_Pipeline cfg)"
  note inv = assms(1) [unfolded balanced_def Let_def]
  have D: "0 < ?D" "?R \<le> MaxInt64" using assms(2) by (auto simp: fixed_count_def)
  have w: "worker_ok ?w" using inv assms(3) by (auto simp: list_all_length)
  have cl: "pcs (\<lambda>p. p = Claimed) (?ws[i := v]) + 1 = pcs (\<lambda>p. p = Claimed) ?ws + (if wk_pc v = Claimed then 1 else 0)" for v
    using pcs_update [OF assms(3), of "\<lambda>p. p = Claimed" v] assms(4) by simp
  have en: "pcs is_ended (?ws[i := v]) = pcs is_ended ?ws + (if is_ended (wk_pc v) then 1 else 0)" for v
    using pcs_update [OF assms(3), of is_ended v] assms(4) by (simp add: is_ended_def)
  have stop: "balanced cfg (put_worker i (?w\<lparr>wk_pc := Ended r\<rparr>, ?sh) d)" for r
  proof -
    have "sum_list (map wk_done (?ws[i := ?w\<lparr>wk_pc := Ended r\<rparr>])) = sum_list (map wk_done ?ws)"
      using done_update [OF assms(3), of "?w\<lparr>wk_pc := Ended r\<rparr>"] by simp
    moreover have "worker_ok (?w\<lparr>wk_pc := Ended r\<rparr>)" using w by (simp add: worker_ok_def)
    moreover have "?D * int (pcs (\<lambda>p. p = Claimed) ?ws) = ?D * int (pcs (\<lambda>p. p = Claimed) (?ws[i := ?w\<lparr>wk_pc := Ended r\<rparr>])) + ?D"
      using cl [of "?w\<lparr>wk_pc := Ended r\<rparr>"] by (intro times_Suc) simp
    moreover have "?D * int (pcs is_ended (?ws[i := ?w\<lparr>wk_pc := Ended r\<rparr>])) = ?D * int (pcs is_ended ?ws) + ?D"
      by (simp add: en is_ended_def algebra_simps)
    ultimately show ?thesis
      unfolding put_worker_def fst_conv snd_conv using inv D by (intro balancedI list_all_update) auto
  qed
  have claimed: "1 \<le> pcs (\<lambda>p. p = Claimed) ?ws" using cl [of "?w\<lparr>wk_pc := Ready\<rparr>"] by simp
  have room: "int (sc_ops ?sh) + ?D \<le> ?R"
  proof -
    have "?D * 1 \<le> ?D * int (pcs (\<lambda>p. p = Claimed) ?ws)" using D claimed by (intro mult_left_mono) auto
    then show ?thesis using inv by simp
  qed
  then have fit: "sc_ops ?sh + ?n < 2 ^ 64" using D by simp
  have go: "balanced cfg (put_worker i (?w\<lparr>wk_pc := Ready, wk_gen := g, wk_hist := summary (vs @ us), wk_sent := m, wk_rest := br, wk_done := wk_done ?w + ?n\<rparr>,
      ?sh\<lparr>sc_ops := u64 (sc_ops ?sh + ?n), sc_reads := u64 (sc_reads ?sh + rs), sc_writes := u64 (sc_writes ?sh + ws), sc_errs := u64 (sc_errs ?sh + errs)\<rparr>) d)"
    if "rs + ws = ?n" "errs \<le> ?n" "length vs = wk_done ?w" "length us = ?n" "samples (vs @ us)" for rs ws errs vs us g m br
  proof -
    let ?v = "?w\<lparr>wk_pc := Ready, wk_gen := g, wk_hist := summary (vs @ us), wk_sent := m, wk_rest := br, wk_done := wk_done ?w + ?n\<rparr>"
    have "sum_list (map wk_done (?ws[i := ?v])) = sum_list (map wk_done ?ws) + ?n" using done_update [OF assms(3), of ?v] by simp
    moreover have "worker_ok ?v" using that by (auto simp: worker_ok_def intro!: exI [of _ "vs @ us"])
    moreover have "?D * int (pcs (\<lambda>p. p = Claimed) ?ws) = ?D * int (pcs (\<lambda>p. p = Claimed) (?ws[i := ?v])) + ?D"
      using cl [of ?v] by (intro times_Suc) simp
    moreover have "pcs is_ended (?ws[i := ?v]) = pcs is_ended ?ws" by (simp add: en is_ended_def)
    moreover have "u64 (sc_ops ?sh + ?n) = sc_ops ?sh + ?n" "u64 (sc_reads ?sh + rs) = sc_reads ?sh + rs"
      "u64 (sc_writes ?sh + ws) = sc_writes ?sh + ws" "u64 (sc_errs ?sh + errs) = sc_errs ?sh + errs"
      using fit that(1,2) inv by (auto intro!: u64_small)
    ultimately show ?thesis
      unfolding put_worker_def fst_conv snd_conv using inv D that(1,2) by (intro balancedI list_all_update) auto
  qed
  obtain vs where vs: "wk_hist ?w = summary vs" "length vs = wk_done ?w" "samples vs" using w by (auto simp: worker_ok_def)
  have "wk_done ?w \<in> set (map wk_done ?ws)" using assms(3) by simp
  from member_le_sum_list [OF this] have "wk_done ?w \<le> sc_ops ?sh" using inv by simp
  then have "length vs + ?n < 2 ^ 64" using fit vs(2) by simp
  then obtain us where us: "record_batch (sat64 (bi_done b - due_time interval start ?w (bi_issued b))) ?n (wk_hist ?w) = Ret (summary (vs @ us))"
    "length us = ?n" "samples (vs @ us)" using record_batch_summary [OF vs(3)] vs(1) by metis
  show ?thesis
    unfolding batch_def Let_def us(1)
    by (auto intro!: stop go [OF _ _ vs(2) us(2,3)] dest: encode_batch_counts read_batch_counts split: prod.splits res.splits option.splits)
qed

lemma drive_keeps:
  assumes "drive_run E cfg interval start d0 d" "balanced cfg d0" "fixed_count cfg (length (dv_workers d0))"
  shows "balanced cfg d \<and> length (dv_workers d) = length (dv_workers d0)"
  using assms(1)
proof induction
  case (drive_next d d')
  from drive_next(2) show ?case
    using drive_next(3) assms(3) by cases (auto simp: put_worker_def intro: claim_balanced [unfolded put_worker_def] batch_balanced [unfolded put_worker_def])
qed (use assms(2) in simp)

lemma drive_start_balanced: "fixed_count cfg n \<Longrightarrow> balanced cfg (drive_start cfg letters unread n)"
proof -
  assume "fixed_count cfg n"
  moreover have "worker_ok \<lparr>wk_pc = Ready, wk_gen = g, wk_hist = NewHistogram, wk_sent = 0, wk_rest = r, wk_done = 0\<rparr>" for g r
    by (auto simp: worker_ok_def samples_def intro!: exI [of _ "[]"] summary_Nil [symmetric])
  moreover have "sum_list (map (\<lambda>_. 0) xs) = (0 :: nat)" for xs :: "nat list" by (induction xs) auto
  ultimately show ?thesis
    unfolding drive_start_def by (intro balancedI) (auto simp: pcs_def is_ended_def fixed_count_def list_all_iff comp_def)
qed

lemma merged_total:
  assumes "list_all worker_ok ws" "sum_list (map wk_done ws) < 2 ^ 64"
  shows "h_total (fold (\<lambda>h m. Merge m h) (map wk_hist ws) NewHistogram) = sum_list (map wk_done ws)"
proof -
  have "\<exists>us. fold (\<lambda>h m. Merge m h) (map wk_hist ws) (summary vs) = summary (vs @ us) \<and> length us = sum_list (map wk_done ws)"
    if "samples vs" "length vs + sum_list (map wk_done ws) < 2 ^ 64" for vs
    using that assms(1)
  proof (induction ws arbitrary: vs)
    case (Cons w ws)
    from Cons.prems(3) obtain us where us: "wk_hist w = summary us" "length us = wk_done w" "samples us" by (auto simp: worker_ok_def)
    then have s: "samples (vs @ us)" using Cons.prems(1,2) by (auto simp: samples_def)
    moreover have "length (vs @ us) + sum_list (map wk_done ws) < 2 ^ 64" using Cons.prems(2) us(2) by simp
    ultimately obtain us' where "fold (\<lambda>h m. Merge m h) (map wk_hist ws) (summary (vs @ us)) = summary ((vs @ us) @ us')"
      "length us' = sum_list (map wk_done ws)" using Cons.IH [of "vs @ us"] Cons.prems(3) by auto
    then show ?case using us s by (intro exI [of _ "us @ us'"]) (simp add: Merge_summary)
  qed simp
  from this [of "[]"] assms(2) obtain us where
    "fold (\<lambda>h m. Merge m h) (map wk_hist ws) NewHistogram = summary us" "length us = sum_list (map wk_done ws)"
    by (auto simp: samples_def summary_Nil)
  then show ?thesis by (simp add: summary_def)
qed

section \<open>The keyspace a run touches\<close>

lemma upto_head: "i \<le> j \<Longrightarrow> [i..j] = i # [i + 1..j]"
  by (simp add: upto.simps)

lemma upto_shift: "map (\<lambda>j. f (i + j)) [0..n - 1] = map f [i..i + n - 1]"
proof -
  have "map ((+) i) [0..n - 1] = [i..i + n - 1]"
    by (rule nth_equalityI) auto
  then show ?thesis by (metis (no_types, lifting) comp_apply map_cong map_map)
qed

lemma preload_batches_all: "0 \<le> i \<Longrightarrow> concat (preload_batches n v i) = map (\<lambda>j. [''SET'', preload_key j, v]) [i..n - 1]"
proof (induction n v i rule: preload_batches.induct)
  case (1 n v i)
  show ?case
  proof (cases "i < n")
    case True
    let ?m = "min 1000 (n - i)"
    have "[i..n - 1] = [i..i + ?m - 1] @ [i + 1000..n - 1]"
      using True by (cases "1000 \<le> n - i") (auto simp: min_def upto_split2 [of i "i + 999" "n - 1"] add.commute)
    moreover have "map (\<lambda>j. [''SET'', preload_key (i + j), v]) [0..?m - 1] = map (\<lambda>j. [''SET'', preload_key j, v]) [i..i + ?m - 1]"
      by (rule upto_shift)
    ultimately show ?thesis using "1" True by (subst preload_batches.simps) simp
  next
    case False
    then show ?thesis by (subst preload_batches.simps) simp
  qed
qed

lemma FormatInt_inj: "FormatInt i = FormatInt j \<Longrightarrow> 0 \<le> i \<Longrightarrow> 0 \<le> j \<Longrightarrow> i = j"
proof -
  assume "FormatInt i = FormatInt j" and ij: "0 \<le> i" "0 \<le> j"
  then have "dec_digits (nat i) = dec_digits (nat j)" by (simp add: FormatInt_def)
  then have "nat i = nat j" by (metis dec_digits_correct)
  with ij show ?thesis by simp
qed

lemma preload_once:
  assumes "0 \<le> i" "i < n"
  shows "count (mset (concat (preload_batches n v 0))) [''SET'', preload_key i, v] = 1"
proof -
  have "inj_on (\<lambda>j. [''SET'', preload_key j, v]) (set [0..n - 1])"
    by (auto simp: inj_on_def preload_key_def dest: FormatInt_inj)
  then have "distinct (concat (preload_batches n v 0))" by (simp add: preload_batches_all distinct_map)
  moreover have "[''SET'', preload_key i, v] \<in> set (concat (preload_batches n v 0))"
    unfolding preload_batches_all [OF order.refl] using assms by auto
  ultimately show ?thesis by (simp only: distinct_count_atmost_1 if_True)
qed

section \<open>Reading back what the builder wrote\<close>

text \<open>Complete lines can be parsed in two parts.\<close>

definition lines :: "bytes \<Rightarrow> bool" where
  "lines s \<longleftrightarrow> s = [] \<or> last s = LF"

lemma parse_Nil [simp]: "parse_lines [] out = out"
  by (subst parse_lines.simps) (rule if_P [OF refl])

lemma split_line: "LF \<notin> set l \<Longrightarrow> before_byte LF (l @ LF # r) = l" "LF \<notin> set l \<Longrightarrow> after_byte LF (l @ LF # r) = r"
  by (auto simp: before_byte_def after_byte_def dropWhile_append takeWhile_append)

lemma parse_line: "LF \<notin> set l \<Longrightarrow> parse_lines (l @ LF # r) out = parse_lines r (info_line l out)"
  by (subst parse_lines.simps) (simp add: split_line)

lemma parse_append: "lines s \<Longrightarrow> parse_lines (s @ t) out = parse_lines t (parse_lines s out)"
proof (induction "length s" arbitrary: s out rule: less_induct)
  case less
  show ?case
  proof (cases "s = []")
    case False
    then have "LF \<in> set s" using less.prems by (metis lines_def last_in_set)
    then obtain l r where s: "s = l @ LF # r" "LF \<notin> set l" by (meson split_list_first)
    have "lines r" using less.prems by (auto simp: s(1) lines_def split: if_splits)
    then show ?thesis using less.hyps [of r] s by (simp add: parse_line)
  qed simp
qed

definition good_key :: "bytes \<Rightarrow> bool" where
  "good_key k \<longleftrightarrow> k \<noteq> [] \<and> hd k \<noteq> CHR ''#'' \<and> CHR '':'' \<notin> set k \<and> LF \<notin> set k"

lemma field_line: "good_key k \<Longrightarrow> info_line (k @ '':'' @ v @ [CR]) out = out(k \<mapsto> v)"
  by (auto simp: info_line_def trimCR_def good_key_def before_byte_def after_byte_def butlast_append takeWhile_append dropWhile_append
      hd_append Let_def)

definition holds_info :: "(bytes \<rightharpoonup> bytes) \<Rightarrow> InfoBuilder \<Rightarrow> bool" where
  "holds_info m b \<longleftrightarrow> lines (ib_sb b) \<and> parseInfo (ib_sb b) = m"

lemma Field_holds:
  assumes "holds_info m b" "good_key k" "LF \<notin> set v"
  shows "holds_info (if ib_inWanted b then m(k \<mapsto> v) else m) (Field k v b)"
proof (cases "ib_inWanted b")
  case True
  have "LF \<notin> set (k @ '':'' @ v @ [CR])" using assms(2,3) by (simp add: good_key_def)
  from parse_line [OF this, of "[]"] have "parse_lines ((k @ '':'' @ v @ [CR]) @ LF # []) out = out(k \<mapsto> v)" for out
    unfolding field_line [OF assms(2)] by (simp add: parse_Nil)
  moreover have "lines (ib_sb b)" "parse_lines (ib_sb b) Map.empty = m" using assms(1) by (auto simp: holds_info_def parseInfo_def)
  ultimately have "parse_lines (ib_sb b @ (k @ '':'' @ v @ [CR]) @ LF # []) Map.empty = m(k \<mapsto> v)" by (simp only: parse_append)
  with True show ?thesis by (simp add: Field_def holds_info_def parseInfo_def lines_def)
qed (use assms in \<open>simp add: Field_def\<close>)

lemma ascii_upper_LF: "ascii_upper c = LF \<Longrightarrow> c = LF"
proof (cases "97 \<le> bval c \<and> bval c \<le> 122")
  case True
  then have "bval c - 32 < 256" by linarith
  with True have "bval (ascii_upper c) = bval c - 32" by (simp add: ascii_upper_def)
  moreover assume "ascii_upper c = LF"
  ultimately show ?thesis using True by auto
next
  case False
  then have "ascii_upper c = c" unfolding ascii_upper_def by (rule if_not_P)
  moreover assume "ascii_upper c = LF"
  ultimately show ?thesis by simp
qed

definition section_line :: "bytes \<Rightarrow> bytes" where
  "section_line name = ''# '' @ map ascii_upper (take 1 name) @ drop 1 name @ [CR]"

lemma section_line_LF: "LF \<notin> set name \<Longrightarrow> LF \<notin> set (section_line name)"
  by (auto simp: section_line_def dest: in_set_dropD dest!: in_set_takeD ascii_upper_LF [OF sym])

lemma section_line_ignored: "info_line (section_line name) out = out"
proof -
  have "trimCR (s @ [CR]) = s" for s by (simp add: trimCR_def)
  then have "trimCR (section_line name) = ''# '' @ map ascii_upper (take 1 name) @ drop 1 name"
    unfolding section_line_def by (metis append.assoc)
  then show ?thesis by (simp add: info_line_def Let_def)
qed

lemma parse_blank: "parse_lines (crlf @ t) out = parse_lines t out"
proof -
  have "info_line [CR] out = out" by (simp add: info_line_def trimCR_def)
  moreover have "crlf @ t = [CR] @ LF # t" by simp
  moreover have "LF \<notin> set [CR]" by simp
  ultimately show ?thesis using parse_line [of "[CR]" t out] by metis
qed

lemma parse_section:
  assumes "LF \<notin> set name"
  shows "parse_lines (section_line name @ [LF]) out = out"
  by (simp only: parse_line [OF section_line_LF [OF assms]] section_line_ignored parse_Nil)

lemma Section_holds:
  assumes "holds_info m b" "Section name b = (ok, b')" "LF \<notin> set name"
  shows "holds_info m b' \<and> ib_inWanted b' = ok \<and> ib_all b' = ib_all b \<and> ib_wanted b' = ib_wanted b \<and> ok = (ib_all b \<or> name \<in> set (ib_wanted b))"
proof (cases "ib_all b \<or> name \<in> set (ib_wanted b)")
  case True
  define pre where "pre = (if ib_sb b \<noteq> [] then ib_sb b @ crlf else ib_sb b)"
  have b: "lines (ib_sb b)" "parse_lines (ib_sb b) Map.empty = m" using assms(1) by (auto simp: holds_info_def parseInfo_def)
  have "lines pre" "parse_lines pre Map.empty = m"
    using b parse_append [OF b(1), of crlf] parse_blank [of "[]"] by (auto simp: pre_def lines_def parse_Nil)
  then have "parse_lines (pre @ section_line name @ [LF]) Map.empty = m" using parse_section [OF assms(3)] by (simp only: parse_append)
  moreover have "b' = b\<lparr>ib_inWanted := True, ib_sb := pre @ section_line name @ [LF]\<rparr>" "ok"
    using assms(2) True by (auto simp: Section_def Let_def pre_def section_line_def)
  ultimately show ?thesis using True by (simp add: holds_info_def parseInfo_def lines_def)
next
  case False
  with assms(1,2) show ?thesis by (auto simp: Section_def Let_def holds_info_def)
qed

definition good_fields :: "(bytes \<times> bytes) list \<Rightarrow> bool" where
  "good_fields kvs \<longleftrightarrow> list_all (\<lambda>(k, v). good_key k \<and> LF \<notin> set v) kvs"

lemma fields_hold:
  assumes "holds_info m b" "good_fields kvs" "ib_inWanted b"
  shows "holds_info (m ++ map_of (rev kvs)) (fold (\<lambda>(k, v). Field k v) kvs b) \<and> ib_all (fold (\<lambda>(k, v). Field k v) kvs b) = ib_all b"
  using assms
proof (induction kvs arbitrary: m b)
  case (Cons kv kvs)
  obtain k v where kv: "kv = (k, v)" by (cases kv)
  have f: "holds_info (m(k \<mapsto> v)) (Field k v b)" using Field_holds [OF Cons.prems(1), of k v] Cons.prems(2,3) by (simp add: good_fields_def kv)
  have "ib_inWanted (Field k v b)" "ib_all (Field k v b) = ib_all b" using Cons.prems(3) by (auto simp: Field_def)
  moreover have "m(k \<mapsto> v) ++ map_of (rev kvs) = m ++ map_of (rev (kv # kvs))" by (auto simp: kv map_add_def fun_eq_iff split: option.splits)
  ultimately show ?case using Cons.IH [OF f] Cons.prems(2) by (simp add: good_fields_def kv fun_upd_def)
qed simp

text \<open>Every section adds its fields to what the reader of a builder that wants everything finds.\<close>

lemma in_section_holds:
  assumes "holds_info m b" "ib_all b" "good_fields kvs" "LF \<notin> set name"
  shows "holds_info (m ++ map_of (rev kvs)) (in_section name kvs b) \<and> ib_all (in_section name kvs b)"
proof -
  obtain ok b' where s: "Section name b = (ok, b')" by (cases "Section name b")
  from Section_holds [OF assms(1) s assms(4)] assms(2) have "holds_info m b'" "ib_inWanted b'" "ib_all b'" "ok" by auto
  with fields_hold [of m b' kvs] assms(3) show ?thesis by (simp add: in_section_def s)
qed

lemma sections_hold:
  assumes "holds_info m b" "ib_all b" "list_all (\<lambda>(name, kvs). good_fields kvs \<and> LF \<notin> set name) secs"
  shows "holds_info (m ++ map_of (rev (concat (map snd secs)))) (fold (\<lambda>(name, kvs). in_section name kvs) secs b)"
  using assms
proof (induction secs arbitrary: m b)
  case (Cons sec secs)
  obtain name kvs where sec: "sec = (name, kvs)" by (cases sec)
  with in_section_holds [OF Cons.prems(1,2), of kvs name] Cons.prems(3)
  have "holds_info (m ++ map_of (rev kvs)) (in_section name kvs b)" "ib_all (in_section name kvs b)" by auto
  from Cons.IH [OF this] Cons.prems(3) show ?case by (simp add: sec)
qed simp

lemma humanBytes_no_LF [simp]: "LF \<notin> set (humanBytes n)"
proof -
  have "e \<le> 4 \<Longrightarrow> snd (human_loop v d e) \<le> 4" for v d e
    by (induction v d e rule: human_loop.induct) (subst human_loop.simps, simp)
  moreover obtain d e where h: "human_loop (n div 1024) 1024 0 = (d, e)" by (cases "human_loop (n div 1024) 1024 0")
  ultimately have "e \<le> 4" by (metis snd_conv zero_le)
  then have "e \<in> {0, 1, 2, 3, 4}" by auto
  then show ?thesis by (auto simp: humanBytes_def h)
qed

text \<open>The strings that come from outside hold no line break.\<close>

definition view_clean :: "persist_view option option \<Rightarrow> bool" where
  "view_clean saver = (case saver of Some (Some pv) \<Rightarrow> LF \<notin> set (pv_TruncatedPath pv)
     \<and> (case pv_wal pv of Some ws \<Rightarrow> LF \<notin> set (ws_Policy ws) | None \<Rightarrow> True) | _ \<Rightarrow> True)"

definition info_clean :: "'s info_src \<Rightarrow> 's World \<Rightarrow> bool" where
  "info_clean src w \<longleftrightarrow>
     list_all (\<lambda>s. LF \<notin> set s)
       [rt_GOOS (is_rt src), rt_GOARCH (is_rt src), rt_Version (is_rt src), rt_exe (is_rt src), is_version src, is_runID src,
        is_addr src, is_Name src, MetricsAddr (wd_cfg w)]
     \<and> view_clean (is_saver src (wd_store w))"

lemmas info_line_defs = good_fields_def good_key_def info_Int_def info_Uint_def info_Float_def info_Bool_def Let_def

lemma addr_port_no_LF: "LF \<notin> set s \<Longrightarrow> LF \<notin> set (addr_port s)"
  by (auto simp: addr_port_def dest!: set_takeWhileD)

lemma server_lines_good: "info_clean src w \<Longrightarrow> good_fields (server_lines src)"
  by (simp add: server_lines_def info_line_defs info_clean_def addr_port_no_LF)

lemma clients_lines_good: "good_fields (clients_lines cfg st)"
  by (simp add: clients_lines_def info_line_defs)

lemma memory_lines_good: "good_fields (memory_lines rt st)"
  by (simp add: memory_lines_def info_line_defs)

lemma log_lines_good: "LF \<notin> set (ws_Policy ws) \<Longrightarrow> good_fields (log_lines ws)"
  by (simp add: log_lines_def info_line_defs)

lemma recovery_lines_good: "LF \<notin> set (pv_TruncatedPath pv) \<Longrightarrow> good_fields (recovery_lines pv)"
  by (simp add: recovery_lines_def info_line_defs)

lemma persistence_lines_good: "view_clean saver \<Longrightarrow> good_fields (infoPersistence bg saver)"
  using log_lines_good recovery_lines_good
  by (auto simp: infoPersistence_def view_clean_def info_line_defs statusOf_def split: option.splits)

lemma stats_lines_good: "good_fields (stats_lines since st)"
  by (simp add: stats_lines_def info_line_defs)

lemma other_lines_good:
  "LF \<notin> set runID \<Longrightarrow> good_fields (replication_lines runID)" "good_fields (cpu_lines rt)" "good_fields (keyspace_lines src e)"
  by (auto simp: replication_lines_def cpu_lines_def keyspace_lines_def info_line_defs split: res.splits)

lemma info_sections_good:
  assumes "info_clean src w"
  shows "list_all (\<lambda>(name, kvs). good_fields kvs \<and> LF \<notin> set name) (info_sections src w)"
proof -
  have "good_fields [(''note'', ''per-command breakdown is exported via Prometheus at '' @ MetricsAddr (wd_cfg w))]"
    "LF \<notin> set (is_runID src)" "view_clean (is_saver src (wd_store w))"
    using assms by (simp_all add: info_line_defs info_clean_def)
  with server_lines_good [OF assms] show ?thesis
    by (simp add: info_sections_def clients_lines_good memory_lines_good persistence_lines_good stats_lines_good other_lines_good)
qed

section \<open>Properties\<close>

text \<open>
  However the workers of a fixed-count run interleave and wherever they stop, the operations they
  complete never exceed the number requested, and the four counters agree: every operation is one
  read or one write, at most one error, and one sample of the merged histogram.
\<close>

theorem fixed_count_runs_balance:
  assumes "fixed_count cfg n" and "drive_run E cfg interval start (drive_start cfg letters unread n) d"
  shows "int (sc_ops (dv_shared d)) \<le> bc_Requests cfg
    \<and> sc_ops (dv_shared d) = sc_reads (dv_shared d) + sc_writes (dv_shared d)
    \<and> sc_errs (dv_shared d) \<le> sc_ops (dv_shared d)
    \<and> Histogram_Count (merged d) = sc_ops (dv_shared d)"
proof -
  have "length (dv_workers (drive_start cfg letters unread n)) = n" by (simp add: drive_start_def)
  with drive_keeps [OF assms(2) drive_start_balanced [OF assms(1)]] assms(1) have b: "balanced cfg d" by simp
  have "0 \<le> bc_Pipeline cfg * int (pcs (\<lambda>p. p = Claimed) (dv_workers d))" using assms(1) by (simp add: fixed_count_def)
  then have le: "int (sc_ops (dv_shared d)) \<le> bc_Requests cfg" using b by (simp add: balanced_def Let_def)
  then have "sc_ops (dv_shared d) < 2 ^ 64" using assms(1) by (simp add: fixed_count_def)
  then have "Histogram_Count (merged d) = sc_ops (dv_shared d)"
    using b merged_total [of "dv_workers d"] by (simp add: balanced_def Let_def merged_def Histogram_Count_def)
  with le b show ?thesis by (simp add: balanced_def Let_def)
qed

definition two_pings :: bench_Config where
  "two_pings =
     \<lparr>bc_Addr = ''127.0.0.1:6379'', bc_Password = [], bc_Connections = 1, bc_Pipeline = 1, bc_Duration = 0, bc_Requests = 2,
      bc_Warmup = 0, bc_Rate = 0, bc_KeySpace = 3, bc_ValueSize = 2, bc_ReadRatio = 1, bc_Workload = ''ping'',
      bc_Distribution = ''uniform'', bc_Preload = False, bc_Label = ''ping''\<rparr>"

definition ping_answered :: batch_in where
  "ping_answered =
     \<lparr>bi_cancelled = False, bi_waitCancelled = False, bi_until = 0, bi_issued = 0, bi_done = 70,
      bi_draws = (\<lambda>_. \<lparr>dr_uniform = 0, dr_zipf = 0, dr_float = 0\<rparr>), bi_flush = None, bi_arrives = ''+PONG'' @ crlf, bi_err = ErrEOF\<rparr>"

text \<open>
  Preloading stores every key the workload can ask for, once: whatever key a generator draws, with
  draws inside the key space, is set by exactly one command of the preload.
\<close>

theorem preload_covers_the_workload:
  assumes "0 < bc_KeySpace cfg" "bc_KeySpace cfg \<le> MaxInt64"
    and "dr_uniform d < nat (bc_KeySpace cfg)" "dr_zipf d < nat (bc_KeySpace cfg)"
    and "nextKey d ((newGenerator cfg letters)\<lparr>g_seq := seq\<rparr>) = (Ret k, g)"
  shows "count (mset (concat (preload cfg letters'))) [''SET'', k, makeValue (bc_ValueSize cfg) letters'] = 1"
proof -
  have ks: "nat (bc_KeySpace cfg mod 18446744073709551616) = nat (bc_KeySpace cfg)" using assms(1,2) by simp
  have "\<exists>i. k = preload_key (int i) \<and> i < nat (bc_KeySpace cfg)"
    using assms(1,3-5) unfolding nextKey_def newGenerator_def preload_key_def
    by (auto simp: FormatInt_def FormatUint_def ks split: if_splits)
  then show ?thesis using preload_once [of "int _" "bc_KeySpace cfg"] by (auto simp: preload_def)
qed

text \<open>
  C20: What a client reads from \<open>INFO\<close> is what the server put there. Built with every section, sent as
  the reply of a RESP2 connection, received and parsed by the load generator, the text yields exactly
  the fields of the sections with their values, a later field winning over an earlier one of its name.
\<close>

theorem INFO_round_trip:
  assumes "22 \<le> ReadBufferSize (rr_lim E)" and "bulk_ok E (Info src [] w)" and "info_clean src w"
  shows "fetchInfo E (w_bw (WriteVerbatim ''txt'' (Info src [] w) NewWriter) @ rest)
    = Ret (map_of (rev (concat (map snd (info_sections src w)))))"
proof -
  have "holds_info Map.empty (NewInfoBuilder [])" "ib_all (NewInfoBuilder [])"
    by (simp_all add: holds_info_def lines_def parseInfo_def NewInfoBuilder_def)
  from sections_hold [OF this info_sections_good [OF assms(3)]]
  have "parseInfo (Info src [] w) = map_of (rev (concat (map snd (info_sections src w))))" by (simp add: holds_info_def Info_def)
  moreover have "accepted E RESP2 0 (RVerbatim ''txt'' (Info src [] w))"
    using assms(1,2) by (intro reply_accepted) (simp_all add: roomy_def buffer_size_def)
  ultimately show ?thesis
    by (simp add: fetchInfo_def ReplyReader_Read_def accepted_def write_simps NewWriter_def IsError_def del: read.simps enc.simps)
qed

definition demo_src :: "unit info_src" where
  "demo_src =
     \<lparr>is_rt = \<lparr>rt_GOOS = ''linux'', rt_GOARCH = ''amd64'', rt_Version = ''go1.25'', rt_pid = 7, rt_exe = ''/rfs'', rt_Alloc = 9,
               rt_Sys = 8, rt_PauseTotalNs = 0, rt_NumGC = 0, rt_NumGoroutine = 9, rt_NumCPU = 4, rt_GOMAXPROCS = 4\<rparr>,
      is_version = ''dev'', is_runID = ''ab12'', is_addr = '':6379'', is_startedAt = 0, is_now = 0, is_since = 0, is_Name = ''memory'',
      is_Stats = (\<lambda>s. (Ret Stats0, s)), is_Len = (\<lambda>s. (Ret 3, s)), is_saver = (\<lambda>_. None)\<rparr>"

definition demo_world :: "unit World" where
  "demo_world =
     \<lparr>wd_store = (), wd_stats = (New_ServerStats 0)\<lparr>CommandsProcessed := 42\<rparr>, wd_cfg = Default, wd_conn = demo_conn,
      wd_others = [], wd_out = NewWriter, wd_bgsave = False, wd_shutdown = None, wd_shutdownSave = False, wd_names = []\<rparr>"

lemma text_0: "FormatUint 0 = ''0''" "FormatUint 42 = ''42''" "FormatInt 0 = ''0''" "FormatFloat 2 0 = ''0.00''"
  by code_simp+

lemma text_10000: "FormatInt 10000 = ''10000''"
proof -
  have "digit_char 0 = CHR ''0''" "digit_char 1 = CHR ''1''" by code_simp+
  then show ?thesis by (simp add: FormatInt_def dec_digits.simps)
qed

lemma demo_stats_lines: "stats_lines 0 ((New_ServerStats 0)\<lparr>CommandsProcessed := 42\<rparr>) =
  [(''total_connections_received'', ''0''), (''total_commands_processed'', ''42''), (''total_commands_failed'', ''0''),
   (''total_commands_rejected'', ''0''), (''total_net_input_bytes'', ''0''), (''total_net_output_bytes'', ''0''), (''keyspace_hits'', ''0''),
   (''keyspace_misses'', ''0''), (''keyspace_hit_ratio'', ''0.00''), (''expired_keys'', ''0''), (''protocol_errors'', ''0''),
   (''timeout_disconnects'', ''0''), (''pipeline_batches'', ''0''), (''mean_command_latency_usec'', ''0.00''),
   (''max_command_latency_usec'', ''0.00''), (''instantaneous_ops_per_sec'', ''0'')]"
  by (simp add: stats_lines_def info_Uint_def info_Int_def info_Float_def New_ServerStats_def text_0 hitRatio_def MeanLatency_def opsPerSec_def
      Seconds_def Let_def u64_def)

lemma demo_world_parts:
  "wd_cfg demo_world = Default" "wd_stats demo_world = (New_ServerStats 0)\<lparr>CommandsProcessed := 42\<rparr>"
  "wd_store demo_world = ()" "wd_bgsave demo_world = False" "MetricsAddr Default = '':9121''" "is_since demo_src = 0"
  "clients_lines Default ((New_ServerStats 0)\<lparr>CommandsProcessed := 42\<rparr>)
    = [(''connected_clients'', ''0''), (''maxclients'', ''10000''), (''rejected_connections'', ''0''), (''blocked_clients'', ''0'')]"
  by (simp_all add: text_0 info_Int_def info_Uint_def text_10000 demo_world_def Default_def demo_src_def clients_lines_def New_ServerStats_def)

definition fields_size :: "(bytes \<times> bytes) list \<Rightarrow> nat" where
  "fields_size kvs = sum_list (map (\<lambda>(k, v). length k + length v + 3) kvs)"

lemma fields_length: "length (ib_sb (fold (\<lambda>(k, v). Field k v) kvs b)) \<le> length (ib_sb b) + fields_size kvs"
proof (induction kvs arbitrary: b)
  case (Cons kv kvs)
  obtain k v where kv: "kv = (k, v)" by (cases kv)
  have "length (ib_sb (Field k v b)) \<le> length (ib_sb b) + (length k + length v + 3)" by (simp add: Field_def)
  with Cons.IH [of "Field k v b"] show ?case by (simp add: kv fields_size_def)
qed (simp add: fields_size_def)

lemma in_section_length: "length (ib_sb (in_section name kvs b)) \<le> length (ib_sb b) + (length name + 6 + fields_size kvs)"
proof -
  obtain ok b' where s: "Section name b = (ok, b')" by (cases "Section name b")
  then have "length (ib_sb b') \<le> length (ib_sb b) + (length name + 6)" by (auto simp: Section_def Let_def split: if_splits)
  with fields_length [of kvs b'] s show ?thesis by (auto simp: in_section_def split: bool.splits)
qed

lemma sections_length:
  "length (ib_sb (fold (\<lambda>(name, kvs). in_section name kvs) secs b))
    \<le> length (ib_sb b) + sum_list (map (\<lambda>(name, kvs). length name + 6 + fields_size kvs) secs)"
proof (induction secs arbitrary: b)
  case (Cons sec secs)
  obtain name kvs where sec: "sec = (name, kvs)" by (cases sec)
  from Cons.IH [of "in_section name kvs b"] in_section_length [of name kvs b] show ?case by (simp add: sec)
qed simp

lemma demo_info_short: "length (Info demo_src [] demo_world) < 5000"
proof -
  have "sum_list (map (\<lambda>(name, kvs). length name + 6 + fields_size kvs) (info_sections demo_src demo_world)) < 5000"
    unfolding info_sections_def demo_world_parts demo_stats_lines by code_simp
  moreover have "ib_sb (NewInfoBuilder []) = []" by (simp add: NewInfoBuilder_def)
  ultimately show ?thesis using sections_length [of "info_sections demo_src demo_world" "NewInfoBuilder []"] by (simp add: Info_def)
qed

lemma demo_info_fields:
  "map_of (rev (concat (map snd (info_sections demo_src demo_world)))) ''total_commands_processed'' = Some ''42''"
  "map_of (rev (concat (map snd (info_sections demo_src demo_world)))) ''db0'' = Some ''keys=3,expires=0,avg_ttl=0''"
  "map_of (rev (concat (map snd (info_sections demo_src demo_world)))) ''role'' = Some ''master''"
  unfolding info_sections_def demo_world_parts demo_stats_lines by code_simp+
theorem INFO_round_trip_witness:
  "let E = NewReplyReader DefaultLimits ErrEOF whole_floats in
     case fetchInfo E (w_bw (WriteVerbatim ''txt'' (Info demo_src [] demo_world) NewWriter)) of
       Ret m \<Rightarrow> m ''total_commands_processed'' = Some ''42'' \<and> m ''db0'' = Some ''keys=3,expires=0,avg_ttl=0'' \<and> m ''role'' = Some ''master''
     | _ \<Rightarrow> False"
proof -
  let ?E = "NewReplyReader DefaultLimits ErrEOF whole_floats"
  have "info_clean demo_src demo_world" by (simp add: info_clean_def view_clean_def demo_src_def demo_world_def Default_def)
  moreover have "bulk_ok ?E (Info demo_src [] demo_world)"
    using demo_info_short by (simp add: bulk_ok_def NewReplyReader_def DefaultLimits_def)
  moreover have "22 \<le> ReadBufferSize (rr_lim ?E)" by (simp add: NewReplyReader_def DefaultLimits_def)
  ultimately show ?thesis using INFO_round_trip [of ?E demo_src demo_world "[]"] by (simp add: Let_def demo_info_fields del: map_of.simps)
qed

end
