(* ===== verification/Bench_Report.thy ===== *)
theory Bench_Report
  imports Bench_Client
begin

text \<open>
  What a benchmark run reports: \<open>Run\<close> and \<open>dial\<close> of \<open>src/internal/bench/runner.go\<close>, the summary and the
  Markdown table of \<open>report.go\<close>, and the suites of \<open>src/cmd/rfs-bench/main.go\<close>. The JSON encoder is the
  standard library's applied to the summaries and is not modelled.
\<close>

section \<open>One run\<close>

text \<open>The exchange after a connection is open: the reply to \<open>AUTH\<close>, when there is a password.\<close>

definition dial :: "'f rr_env \<Rightarrow> bench_Config \<Rightarrow> gerror option \<Rightarrow> gerror option \<Rightarrow> bytes \<Rightarrow> unit res" where
  "dial E cfg connect flush br =
     (case connect of
        Some e \<Rightarrow> Fail e
      | None \<Rightarrow>
          if bc_Password cfg = [] then Ret ()
          else case flush of
            Some e \<Rightarrow> Fail e
          | None \<Rightarrow>
              (case the (ReplyReader_Read E br) of
                 (Fail e, _) \<Rightarrow> Fail e
               | (Panic, _) \<Rightarrow> Panic
               | (Ret rep, _) \<Rightarrow> if IsError rep then Fail (FmtErr ''AUTH failed: %s'' (Str rep)) else Ret ()))"

record bench_Result =
  br_Config :: bench_Config
  br_StartedAt :: int
  br_Elapsed :: int
  br_Ops :: nat
  br_Errors :: nat
  br_Reads :: nat
  br_Writes :: nat
  br_Hist :: Histogram
  br_AchievedRate :: rat
  br_ServerInfo :: "bytes \<rightharpoonup> bytes"
  br_Notes :: "bytes list"

definition AchievedRate :: "measurement \<Rightarrow> rat" where
  "AchievedRate m = (if me_elapsed m > 0 then float64 (float64 (of_nat (me_ops m)) / Seconds (me_elapsed m)) else 0)"

definition run_notes :: "bench_Config \<Rightarrow> rat \<Rightarrow> bytes list" where
  "run_notes cfg rate =
     (if bc_Rate cfg > 0 \<and> rate < float64 (float64 (of_int (bc_Rate cfg)) * float64 (98 / 100))
      then [''open-loop target of '' @ FormatInt (bc_Rate cfg) @ '' ops/sec was not met: achieved '' @ FormatFloat 0 rate
            @ '', so latencies reflect a saturated server'']
      else [])"

text \<open>
  \<open>Run\<close>: \<open>dials\<close> are the outcomes of the connections in order, \<open>pre\<close> the one of preloading, \<open>warm\<close> and
  \<open>measured\<close> those of the two calls of \<open>drive\<close>, \<open>info\<close> the one of \<open>fetchInfo\<close>.
\<close>

fun dial_all :: "nat \<Rightarrow> unit res list \<Rightarrow> unit res" where
  "dial_all i [] = Ret ()"
| "dial_all i (Ret _ # ds) = dial_all (i + 1) ds"
| "dial_all i (Fail e # ds) = Fail (FmtErr ''bench: connection %d: %w'' (FormatUint i))"
| "dial_all i (Panic # ds) = Panic"

definition wrapped :: "bytes \<Rightarrow> 'a res \<Rightarrow> 'a res" where
  "wrapped what r = (case r of Fail e \<Rightarrow> Fail (OtherErr what) | _ \<Rightarrow> r)"

definition warmup_config :: "bench_Config \<Rightarrow> bench_Config" where
  "warmup_config cfg = cfg\<lparr>bc_Duration := bc_Warmup cfg, bc_Requests := 0, bc_Preload := False\<rparr>"

definition finish_run :: "bench_Config \<Rightarrow> int \<Rightarrow> (bytes \<rightharpoonup> bytes) res \<Rightarrow> measurement \<Rightarrow> bench_Result" where
  "finish_run cfg began info m =
     \<lparr>br_Config = cfg, br_StartedAt = began, br_Elapsed = me_elapsed m, br_Ops = me_ops m, br_Errors = me_errs m,
      br_Reads = me_reads m, br_Writes = me_writes m, br_Hist = me_hist m, br_AchievedRate = AchievedRate m,
      br_ServerInfo = (case info of Ret i \<Rightarrow> i | _ \<Rightarrow> Map.empty), br_Notes = run_notes cfg (AchievedRate m)\<rparr>"

definition Run ::
  "bench_Config \<Rightarrow> (bench_Config \<Rightarrow> unit res list) \<Rightarrow> unit res \<Rightarrow> (bench_Config \<Rightarrow> measurement res) \<Rightarrow> (bench_Config \<Rightarrow> measurement res)
    \<Rightarrow> int \<Rightarrow> (bytes \<rightharpoonup> bytes) res \<Rightarrow> bench_Result res" where
  "Run cfg dials pre warm measured began info =
     (case bench_withDefaults cfg of
        (Fail e, _) \<Rightarrow> Fail e
      | (Panic, _) \<Rightarrow> Panic
      | (Ret _, cfg) \<Rightarrow>
          bind_res (dial_all 0 (dials cfg)) (\<lambda>_.
          bind_res (if bc_Preload cfg then wrapped ''bench: preload: %w'' pre else Ret ()) (\<lambda>_.
          bind_res (if bc_Warmup cfg > 0 then bind_res (wrapped ''bench: warmup: %w'' (warm (warmup_config cfg))) (\<lambda>_. Ret ()) else Ret ()) (\<lambda>_.
          bind_res (measured cfg) (\<lambda>m. Ret (finish_run cfg began info m))))))"

section \<open>Summaries\<close>

definition reportedQuantiles :: "rat list" where
  "reportedQuantiles = map float64 [1 / 2, 9 / 10, 95 / 100, 99 / 100, 999 / 1000]"

text \<open>\<open>fmtG\<close> is \<open>fmt.Sprintf\<close> of \<open>%g\<close>, which no reported quantile reaches.\<close>

definition quantileName :: "(rat \<Rightarrow> bytes) \<Rightarrow> rat \<Rightarrow> bytes" where
  "quantileName fmtG q =
     (if q = float64 (1 / 2) then ''p50'' else if q = float64 (9 / 10) then ''p90'' else if q = float64 (95 / 100) then ''p95''
      else if q = float64 (99 / 100) then ''p99'' else if q = float64 (999 / 1000) then ''p99.9''
      else ''p'' @ fmtG (float64 (q * 100)))"

definition HasPrefix :: "bytes \<Rightarrow> bytes \<Rightarrow> bool" where
  "HasPrefix s p \<longleftrightarrow> take (length p) s = p"

definition isLoopback :: "bytes \<Rightarrow> bool" where
  "isLoopback addr \<longleftrightarrow> HasPrefix addr ''127.'' \<or> HasPrefix addr ''localhost'' \<or> HasPrefix addr ''[::1]'' \<or> HasPrefix addr '':''"

record ClientEnv =
  ce_GoVersion :: bytes
  ce_OS :: bytes
  ce_Arch :: bytes
  ce_NumCPU :: int
  ce_Colocated :: bool

record Summary =
  su_Label :: bytes
  su_Workload :: bytes
  su_Distribution :: bytes
  su_Addr :: bytes
  su_Connections :: int
  su_Pipeline :: int
  su_KeySpace :: int
  su_ValueBytes :: int
  su_ReadRatio :: rat
  su_TargetRate :: int
  su_StartedAt :: int
  su_ElapsedSec :: rat
  su_Ops :: nat
  su_Reads :: nat
  su_Writes :: nat
  su_Errors :: nat
  su_OpsPerSec :: rat
  su_LatencyUsec :: "bytes \<rightharpoonup> rat"
  su_Server :: "bytes \<rightharpoonup> bytes"
  su_Client :: ClientEnv
  su_Notes :: "bytes list"

definition interesting :: "bytes list" where
  "interesting =
     [''rfs_version'', ''storage_engine'', ''aof_enabled'', ''aof_fsync_policy'', ''aof_fsyncs'', ''aof_writes'', ''aof_appends'',
      ''wal_unsynced_records'', ''used_memory_human'', ''connected_clients'', ''total_commands_processed'', ''keyspace_hits'',
      ''keyspace_misses'', ''expired_keys'', ''db0'', ''redis_version'', ''pipeline_batches'']"

definition latencies :: "(rat \<Rightarrow> bytes) \<Rightarrow> Histogram \<Rightarrow> (bytes \<rightharpoonup> rat)" where
  "latencies fmtG h =
     (let q = Quantiles reportedQuantiles h; usec = (\<lambda>n. float64 (float64 (of_nat n) / 1000)) in
      fold (\<lambda>p m. m(quantileName fmtG p \<mapsto> usec (the (q p)))) reportedQuantiles
        [''min'' \<mapsto> usec (Histogram_Min h), ''mean'' \<mapsto> float64 (Histogram_Mean h / 1000), ''max'' \<mapsto> usec (Histogram_Max h)])"

definition Summarise :: "(rat \<Rightarrow> bytes) \<Rightarrow> runtime \<Rightarrow> bench_Result \<Rightarrow> Summary" where
  "Summarise fmtG rt r =
     (let c = br_Config r in
      \<lparr>su_Label = bc_Label c, su_Workload = bc_Workload c, su_Distribution = bc_Distribution c, su_Addr = bc_Addr c,
       su_Connections = bc_Connections c, su_Pipeline = bc_Pipeline c, su_KeySpace = bc_KeySpace c, su_ValueBytes = bc_ValueSize c,
       su_ReadRatio = bc_ReadRatio c, su_TargetRate = bc_Rate c, su_StartedAt = br_StartedAt r, su_ElapsedSec = Seconds (br_Elapsed r),
       su_Ops = br_Ops r, su_Reads = br_Reads r, su_Writes = br_Writes r, su_Errors = br_Errors r, su_OpsPerSec = br_AchievedRate r,
       su_LatencyUsec = latencies fmtG (br_Hist r), su_Server = (\<lambda>k. if k \<in> set interesting then br_ServerInfo r k else None),
       su_Client = \<lparr>ce_GoVersion = rt_Version rt, ce_OS = rt_GOOS rt, ce_Arch = rt_GOARCH rt, ce_NumCPU = rt_NumCPU rt,
                    ce_Colocated = isLoopback (bc_Addr c)\<rparr>,
       su_Notes = br_Notes r\<rparr>)"

section \<open>Numbers with separators\<close>

definition comma :: byte where
  "comma = CHR '',''"

text \<open>The digits with a comma wherever a multiple of three digits is left.\<close>

fun comma_groups :: "nat \<Rightarrow> bytes \<Rightarrow> bytes" where
  "comma_groups i [] = []"
| "comma_groups i (c # cs) = (if i > 0 \<and> (length cs + 1) mod 3 = 0 then [comma] else []) @ c # comma_groups (i + 1) cs"

definition thousands :: "rat \<Rightarrow> bytes" where
  "thousands f =
     (let n = trunc (float64 (f + 1 / 2)); s = FormatInt \<bar>n\<bar>; out = comma_groups 0 s
      in if n < 0 then ''-'' @ out else out)"

function three_loop :: "bytes \<Rightarrow> bytes list \<Rightarrow> bytes list" where
  "three_loop s parts =
     (if length s > 3 then three_loop (take (length s - 3) s) (drop (length s - 3) s # parts) else s # parts)"
  by auto
termination by (relation "measure (length \<circ> fst)") auto

declare three_loop.simps [simp del]

fun Join :: "bytes list \<Rightarrow> bytes \<Rightarrow> bytes" where
  "Join [] sep = []"
| "Join [p] sep = p"
| "Join (p # q # ps) sep = p @ sep @ Join (q # ps) sep"

definition thousandsInt :: "int \<Rightarrow> bytes" where
  "thousandsInt n = Join (three_loop (FormatInt n) []) [comma]"

section \<open>Suites\<close>

definition single_label :: "bench_Config \<Rightarrow> bytes" where
  "single_label c = bc_Workload c @ '' c='' @ FormatInt (bc_Connections c) @ '' P='' @ FormatInt (bc_Pipeline c)"

definition plan :: "bytes \<Rightarrow> bench_Config \<Rightarrow> bench_Config list res" where
  "plan suite base =
     (if suite = [] then Ret [if bc_Label base = [] then base\<lparr>bc_Label := single_label base\<rparr> else base]
      else if suite = ''standard'' then
        Ret (concat (map (\<lambda>wl. map (\<lambda>p.
               base\<lparr>bc_Workload := wl, bc_Pipeline := p, bc_Preload := (wl \<noteq> ''set''), bc_Label := wl @ '' P='' @ FormatInt p\<rparr>) [1, 8, 32])
               [''get'', ''set'', ''mixed''])
             @ map (\<lambda>conns. base\<lparr>bc_Workload := ''mixed'', bc_Pipeline := 1, bc_Connections := conns, bc_Label := ''mixed c='' @ FormatInt conns\<rparr>)
               [10, 50, 200, 500])
      else if suite = ''latency'' then
        Ret (map (\<lambda>r. base\<lparr>bc_Workload := ''mixed'', bc_Pipeline := 1, bc_Rate := r,
                           bc_Label := ''open-loop '' @ thousandsInt r @ '' ops/sec''\<rparr>) [10000, 50000, 100000, 200000])
      else Fail (FmtErr ''unknown suite %q (want standard or latency)'' suite))"

section \<open>The report\<close>

definition usec_text :: "Summary \<Rightarrow> bytes \<Rightarrow> bytes" where
  "usec_text s k = FormatFloat 0 (case su_LatencyUsec s k of Some v \<Rightarrow> v | None \<Rightarrow> 0)"

definition table_row :: "Summary \<Rightarrow> bytes" where
  "table_row s =
     ''| '' @ su_Label s @ '' | '' @ FormatInt (su_Connections s) @ '' | '' @ FormatInt (su_Pipeline s) @ '' | '' @ thousands (su_OpsPerSec s)
     @ '' | '' @ usec_text s ''p50'' @ '' | '' @ usec_text s ''p99'' @ '' | '' @ usec_text s ''p99.9'' @ '' | '' @ usec_text s ''max''
     @ '' | '' @ FormatUint (su_Errors s) @ '' |'' @ [LF]"

text \<open>The keys are sorted; those of \<open>su_Server\<close> are among \<open>interesting\<close>.\<close>

definition server_line :: "Summary \<Rightarrow> bytes" where
  "server_line s =
     (let keys = sort (filter (\<lambda>k. su_Server s k \<noteq> None) interesting) in
      if keys = [] then []
      else ''- server reported: '' @ Join (map (\<lambda>k. ''`'' @ k @ ''='' @ the (su_Server s k) @ ''`'') keys) '', '' @ [LF])"

definition details :: "Summary \<Rightarrow> bytes" where
  "details s =
     ''### '' @ su_Label s @ [LF, LF]
     @ ''- workload `'' @ su_Workload s @ ''`, key distribution `'' @ su_Distribution s @ ''`, '' @ thousands (float64 (of_int (su_KeySpace s)))
     @ '' keys, '' @ FormatInt (su_ValueBytes s) @ '' byte values'' @ [LF]
     @ ''- '' @ FormatInt (su_Connections s) @ '' connections, pipeline depth '' @ FormatInt (su_Pipeline s) @ '', ''
     @ FormatFloat 1 (su_ElapsedSec s) @ ''s measured, '' @ thousands (float64 (of_nat (su_Ops s))) @ '' operations'' @ [LF]
     @ (if su_TargetRate s > 0 then ''- open loop, target '' @ thousands (float64 (of_int (su_TargetRate s))) @ '' ops/sec''
        else ''- closed loop: each connection waits for its replies before sending again'') @ [LF]
     @ (if su_Reads s > 0 \<and> su_Writes s > 0
        then ''- '' @ thousands (float64 (of_nat (su_Reads s))) @ '' reads, '' @ thousands (float64 (of_nat (su_Writes s))) @ '' writes'' @ [LF]
        else [])
     @ server_line s
     @ concat (map (\<lambda>n. ''- **note:** '' @ n @ [LF]) (su_Notes s))
     @ [LF]"

definition howto :: bytes where
  "howto =
     ''- Latency is measured client side, from the moment a request was due to be sent until its reply was fully read.'' @ [LF]
     @ ''- Runs with a pipeline depth above 1 report **batch** latency, attributed to each command in the batch. A depth of 16 at 800 us does not mean each command took 800 us; it means a batch of 16 did.'' @ [LF]
     @ ''- Runs with a target rate are open loop: latency is measured from the intended send time, so a stall shows up instead of being hidden by the client pausing with the server.'' @ [LF]
     @ ''- Percentiles come from a log-linear histogram of every sample, not a reservoir, so the tail is real and not a sampling artefact. Bucket width bounds the error at 0.8%.'' @ [LF]"

definition colocated_note :: bytes where
  "colocated_note =
     ''> **The load generator ran on the same machine as the server.** Client and server therefore competed for the same CPUs, and there was no network. Treat these as a relative comparison between configurations, not as an absolute capacity figure for a deployed node.'' @ [LF, LF]"

text \<open>\<open>stamp\<close> is \<open>time.Now().UTC().Format(time.RFC3339)\<close>.\<close>

definition WriteMarkdown :: "bytes \<Rightarrow> bytes \<Rightarrow> Summary list \<Rightarrow> bytes" where
  "WriteMarkdown stamp title rows =
     ''# '' @ title @ [LF, LF]
     @ (case rows of
          [] \<Rightarrow> []
        | s # _ \<Rightarrow>
            let c = su_Client s in
            ''Generated '' @ stamp @ '' on '' @ ce_OS c @ ''/'' @ ce_Arch c @ '', '' @ FormatInt (ce_NumCPU c) @ '' logical CPUs, ''
            @ ce_GoVersion c @ ''.'' @ [LF, LF] @ (if ce_Colocated c then colocated_note else []))
     @ ''| run | conns | pipe | ops/sec | p50 us | p99 us | p99.9 us | max us | errors |'' @ [LF]
     @ ''|---|---:|---:|---:|---:|---:|---:|---:|---:|'' @ [LF]
     @ concat (map table_row rows)
     @ [LF] @ ''## How to read this'' @ [LF, LF] @ howto
     @ [LF] @ ''## Run details'' @ [LF, LF] @ concat (map details rows)"

section \<open>The two renderings of a number agree\<close>

lemma comma_groups_three:
  assumes "length b = 3" "a \<noteq> [] \<or> i > 0"
  shows "comma_groups i (a @ b) = comma_groups i a @ comma # b"
  using assms(2)
proof (induction a arbitrary: i)
  case Nil
  from assms(1) obtain x y z where "b = [x, y, z]" by (auto simp: length_Suc_conv numeral_3_eq_3)
  with Nil show ?case by simp
next
  case (Cons c cs)
  from assms(1) have "(length (cs @ b) + 1) mod 3 = (length cs + 1) mod 3" by simp presburger
  with Cons.IH [of "i + 1"] show ?case by simp
qed

lemma comma_groups_short: "length s \<le> 3 \<Longrightarrow> comma_groups 0 s = s"
proof -
  assume "length s \<le> 3"
  then consider "s = []" | x where "s = [x]" | x y where "s = [x, y]" | x y z where "s = [x, y, z]"
    by (cases s; cases "tl s"; cases "tl (tl s)"; cases "tl (tl (tl s))") auto
  then show ?thesis by cases simp_all
qed

lemma Join_Cons: "ps \<noteq> [] \<Longrightarrow> Join (p # ps) sep = p @ sep @ Join ps sep"
  by (cases ps) auto

lemma three_loop_groups: "Join (three_loop s parts) [comma] = comma_groups 0 s @ concat (map (\<lambda>p. comma # p) parts)"
proof (induction s parts rule: three_loop.induct)
  case (1 s parts)
  show ?case
  proof (cases "length s > 3")
    case True
    let ?a = "take (length s - 3) s" and ?b = "drop (length s - 3) s"
    have "comma_groups 0 s = comma_groups 0 ?a @ comma # ?b" using comma_groups_three [of ?b ?a 0] True by (cases "s = []") auto
    with "1" True show ?thesis by (subst three_loop.simps) simp
  next
    case False
    have "Join (s # parts) [comma] = s @ concat (map (\<lambda>p. comma # p) parts)"
      by (induction parts arbitrary: s) (auto simp: Join_Cons)
    with False comma_groups_short [of s] show ?thesis by (subst three_loop.simps) simp
  qed
qed

lemma thousands_thousandsInt: "n < 2 ^ 52 \<Longrightarrow> thousands (of_nat n) = thousandsInt (int n)"
proof -
  assume n: "n < 2 ^ 52"
  have "(of_nat n + 1 / 2 :: rat) = of_int (2 * int n + 1) * 2 powi (-1)" by (simp add: power_int_minus field_simps)
  also have "float64 \<dots> = \<dots>" using n by (intro float64_scaled) auto
  finally have "float64 (of_nat n + 1 / 2) = of_nat n + 1 / 2" by (simp add: power_int_minus field_simps)
  moreover have "trunc (of_nat n + 1 / 2) = int n" by (simp add: trunc_def) linarith
  ultimately show ?thesis by (simp add: thousands_def thousandsInt_def three_loop_groups)
qed

end
