(* ===== verification/Server_Main.thy ===== *)
theory Server_Main
  imports Server Info
begin

text \<open>
  The program \<open>src/cmd/server/main.go\<close>: the configuration assembled from defaults, file, environment
  and flags, the storage engine it selects, and the order in which \<open>run\<close> starts and stops the parts;
  with \<open>src/internal/version/version.go\<close>. The parsed flags, the environment, the bytes of the
  configuration file and what the parts return are inputs.
\<close>

section \<open>Build identity\<close>

text \<open>\<open>info.Settings\<close> as \<open>debug.ReadBuildInfo\<close> returns it, if it does.\<close>

fun revision :: "(bytes \<times> bytes) list \<Rightarrow> bytes option" where
  "revision [] = None"
| "revision ((k, v) # ss) = (if k = ''vcs.revision'' \<and> 7 \<le> length v then Some (take 7 v) else revision ss)"

definition version_String :: "bytes \<Rightarrow> bytes \<Rightarrow> (bytes \<times> bytes) list option \<Rightarrow> bytes" where
  "version_String Version Commit info =
     (if Commit \<noteq> [] then Version @ ''+'' @ Commit
      else case info of
        None \<Rightarrow> Version
      | Some settings \<Rightarrow> (case revision settings of Some r \<Rightarrow> Version @ ''+'' @ r | None \<Rightarrow> Version))"

definition hex_digit :: "nat \<Rightarrow> byte" where
  "hex_digit n = ''0123456789abcdef'' ! n"

definition EncodeToString :: "bytes \<Rightarrow> bytes" where
  "EncodeToString b = concat (map (\<lambda>c. [hex_digit (bval c div 16), hex_digit (bval c mod 16)]) b)"

text \<open>\<open>rand.Read\<close> fills the twenty bytes or fails.\<close>

definition NewRunID :: "bytes option \<Rightarrow> bytes" where
  "NewRunID random = (case random of None \<Rightarrow> replicate 40 (CHR ''0'') | Some b \<Rightarrow> EncodeToString b)"

section \<open>Configuration\<close>

record flags =
  fl_config :: bytes
  fl_addr :: bytes
  fl_dir :: bytes
  fl_engine :: bytes
  fl_engineAddr :: bytes
  fl_appendfsync :: bytes
  fl_appendonly :: bytes
  fl_metricsAddr :: bytes
  fl_loglevel :: bytes
  fl_logformat :: bytes
  fl_maxclients :: int
  fl_noSave :: bool
  fl_version :: bool

definition main_isYes :: "(bytes \<Rightarrow> bytes) \<Rightarrow> bytes \<Rightarrow> bool" where
  "main_isYes u s = (StrToLower u (TrimSpace s) \<in> {''yes'', ''y'', ''true'', ''1'', ''on''})"

text \<open>The setters of \<open>applyEnv\<close>: nine store the value, the last parses it first.\<close>

definition field_setters :: "(bytes \<Rightarrow> bytes) \<Rightarrow> (bytes \<times> (bytes \<Rightarrow> Config \<Rightarrow> Config)) list" where
  "field_setters u =
     [(''RFS_ADDR'', \<lambda>v c. c\<lparr>Addr := v\<rparr>), (''RFS_DIR'', \<lambda>v c. c\<lparr>Dir := v\<rparr>), (''RFS_ENGINE'', \<lambda>v c. c\<lparr>Engine_kind := v\<rparr>),
      (''RFS_ENGINE_ADDR'', \<lambda>v c. c\<lparr>EngineAddr := v\<rparr>), (''RFS_METRICS_ADDR'', \<lambda>v c. c\<lparr>MetricsAddr := v\<rparr>),
      (''RFS_LOGLEVEL'', \<lambda>v c. c\<lparr>LogLevel := v\<rparr>), (''RFS_LOGFORMAT'', \<lambda>v c. c\<lparr>LogFormat := v\<rparr>),
      (''RFS_REQUIREPASS'', \<lambda>v c. c\<lparr>RequirePass := v\<rparr>), (''RFS_APPENDONLY'', \<lambda>v c. c\<lparr>AppendOnly := main_isYes u v\<rparr>)]"

definition fsync_setter :: "bytes \<times> (bytes \<Rightarrow> Config \<Rightarrow> Config res)" where
  "fsync_setter = (''RFS_APPENDFSYNC'', \<lambda>v c. bind_res (ParseSyncPolicy v) (\<lambda>p. Ret (c\<lparr>AppendFsync := p\<rparr>)))"

definition env_setters :: "(bytes \<Rightarrow> bytes) \<Rightarrow> (bytes \<times> (bytes \<Rightarrow> Config \<Rightarrow> Config res)) list" where
  "env_setters u = map (\<lambda>(name, f). (name, \<lambda>v c. Ret (f v c))) (field_setters u) @ [fsync_setter]"

text \<open>The map is walked in an order the runtime picks: \<open>order\<close> permutes the setters.\<close>

fun env_loop :: "(bytes \<rightharpoonup> bytes) \<Rightarrow> (bytes \<times> (bytes \<Rightarrow> Config \<Rightarrow> Config res)) list \<Rightarrow> Config \<Rightarrow> Config res" where
  "env_loop env [] c = Ret c"
| "env_loop env ((name, apply) # ss) c =
     (case env name of
        None \<Rightarrow> env_loop env ss c
      | Some v \<Rightarrow>
          (case apply v c of
             Ret c \<Rightarrow> env_loop env ss c
           | Fail e \<Rightarrow> Fail (FmtErr ''%s: %w'' name)
           | Panic \<Rightarrow> Panic))"

definition applyEnv ::
  "(bytes \<Rightarrow> bytes) \<Rightarrow> ((bytes \<times> (bytes \<Rightarrow> Config \<Rightarrow> Config res)) list \<Rightarrow> (bytes \<times> (bytes \<Rightarrow> Config \<Rightarrow> Config res)) list)
    \<Rightarrow> (bytes \<rightharpoonup> bytes) \<Rightarrow> Config \<Rightarrow> Config res" where
  "applyEnv u order env c = env_loop env (order (env_setters u)) c"

text \<open>\<open>if *flag != "" { ... }\<close>.\<close>

definition set_if :: "bool \<Rightarrow> (Config \<Rightarrow> Config) \<Rightarrow> Config \<Rightarrow> Config" where
  "set_if b f c = (if b then f c else c)"

definition metrics_flag :: "bytes \<Rightarrow> bytes" where
  "metrics_flag s = (let a = TrimSpace s in if a = ''off'' \<or> a = ''none'' then [] else a)"

definition applyFlags :: "(bytes \<Rightarrow> bytes) \<Rightarrow> flags \<Rightarrow> Config \<Rightarrow> Config res" where
  "applyFlags u f c =
     (let c = set_if (fl_addr f \<noteq> []) (Addr_update (\<lambda>_. fl_addr f)) c;
          c = set_if (fl_dir f \<noteq> []) (Dir_update (\<lambda>_. fl_dir f)) c;
          c = set_if (fl_engine f \<noteq> []) (Engine_kind_update (\<lambda>_. fl_engine f)) c;
          c = set_if (fl_engineAddr f \<noteq> []) (EngineAddr_update (\<lambda>_. fl_engineAddr f)) c in
      bind_res
        (if fl_appendfsync f \<noteq> [] then bind_res (ParseSyncPolicy (fl_appendfsync f)) (\<lambda>p. Ret (c\<lparr>AppendFsync := p\<rparr>)) else Ret c)
        (\<lambda>c.
          let c = set_if (fl_appendonly f \<noteq> []) (AppendOnly_update (\<lambda>_. main_isYes u (fl_appendonly f))) c;
              c = set_if (fl_metricsAddr f \<noteq> []) (MetricsAddr_update (\<lambda>_. metrics_flag (fl_metricsAddr f))) c;
              c = set_if (fl_loglevel f \<noteq> []) (LogLevel_update (\<lambda>_. fl_loglevel f)) c;
              c = set_if (fl_logformat f \<noteq> []) (LogFormat_update (\<lambda>_. fl_logformat f)) c;
              c = set_if (fl_maxclients f > 0) (MaxClients_update (\<lambda>_. fl_maxclients f)) c
          in Ret (set_if (fl_noSave f) (SavePoints_update (\<lambda>_. [])) c)))"

text \<open>\<open>fs.Parse\<close> has succeeded with the flags \<open>f\<close>; \<open>file\<close> holds the bytes of the file they name.\<close>

definition loadConfig ::
  "(bytes \<Rightarrow> bytes) \<Rightarrow> ((bytes \<times> (bytes \<Rightarrow> Config \<Rightarrow> Config res)) list \<Rightarrow> (bytes \<times> (bytes \<Rightarrow> Config \<Rightarrow> Config res)) list)
    \<Rightarrow> (bytes \<rightharpoonup> bytes) \<Rightarrow> bytes option \<Rightarrow> flags \<Rightarrow> (Config \<times> bool) res" where
  "loadConfig u order env file f =
     (let c = Default in
      if fl_version f then Ret (c, True)
      else
        bind_res (if fl_config f \<noteq> [] then (case LoadFile u file c of (r, c) \<Rightarrow> bind_res r (\<lambda>_. Ret c)) else Ret c) (\<lambda>c.
        bind_res (applyEnv u order env c) (\<lambda>c.
        bind_res (applyFlags u f c) (\<lambda>c.
        bind_res (Validate c) (\<lambda>_. Ret (c, False))))))"

section \<open>The storage engine\<close>

datatype engine_choice =
    OpenLSM bytes int                                  \<comment> \<open>address and timeout\<close>
  | OpenCache
  | OpenDurable bytes SyncPolicy int "(int \<times> nat) list"  \<comment> \<open>directory, policy, segment size, save points\<close>

text \<open>Whether the engine it opens doubles as the \<open>Saver\<close> of the server.\<close>

definition openEngine :: "Config \<Rightarrow> engine_choice res" where
  "openEngine cfg =
     (if Engine_kind cfg = EngineLSM then Ret (OpenLSM (EngineAddr cfg) (EngineTimeout cfg))
      else if Engine_kind cfg = EngineMemory then
        if \<not> AppendOnly cfg \<and> SavePoints cfg = [] then Ret OpenCache
        else Ret (OpenDurable (Dir cfg) (if \<not> AppendOnly cfg then SyncNever else AppendFsync cfg) (SegmentSize cfg) (SavePoints cfg))
      else Fail (FmtErr ''unknown storage engine %q'' (Engine_kind cfg)))"

text \<open>The outcome of the engine's own \<open>Open\<close>; \<open>memory.New\<close> cannot fail.\<close>

definition opened :: "unit res \<Rightarrow> engine_choice \<Rightarrow> engine_choice res" where
  "opened r e =
     (case (e, r) of
        (OpenLSM addr t, Fail err) \<Rightarrow> Fail (FmtErr ''connect to storage engine at %s: %w'' addr)
      | (OpenDurable dir p seg sp, Fail err) \<Rightarrow> Fail (FmtErr ''open data directory %s: %w'' dir)
      | (OpenCache, _) \<Rightarrow> Ret e
      | (_, Panic) \<Rightarrow> Panic
      | (_, Ret _) \<Rightarrow> Ret e)"

definition has_saver :: "engine_choice \<Rightarrow> bool" where
  "has_saver e \<longleftrightarrow> e \<noteq> OpenCache"

section \<open>Starting and stopping\<close>

datatype phase = PrintVersion | EngineOpened engine_choice | ServerBuilt | MetricsStarted | Serving | ServerClosed | MetricsStopped | EngineClosed

datatype stop_event = Signalled | ShutdownRequested bool | ServeReturned "unit res"

text \<open>
  What the parts return: the engine's \<open>Open\<close>, \<open>server.New\<close>, the metrics listener, \<open>Serve\<close> if it
  returned within the first moments, and what ended the wait after that.
\<close>

record run_in =
  ri_open :: "unit res"
  ri_new :: "unit res"
  ri_metrics :: "unit res"
  ri_early :: "unit res option"
  ri_stop :: stop_event

definition serve_until_stopped :: "Config \<Rightarrow> run_in \<Rightarrow> unit res \<times> phase list" where
  "serve_until_stopped cfg i =
     (case ri_early i of
        Some r \<Rightarrow> (r, [Serving])
      | None \<Rightarrow>
          (case ri_stop i of
             ServeReturned r \<Rightarrow> (r, [Serving])
           | _ \<Rightarrow> (Ret (), [Serving, ServerClosed] @ (if MetricsAddr cfg \<noteq> [] then [MetricsStopped] else []))))"

text \<open>Building the server and, if it is configured, the metrics listener come first.\<close>

definition start_server :: "Config \<Rightarrow> run_in \<Rightarrow> unit res \<times> phase list" where
  "start_server cfg i =
     (case ri_new i of
        Ret _ \<Rightarrow>
          if MetricsAddr cfg \<noteq> [] then
            (case ri_metrics i of
               Ret _ \<Rightarrow> (case serve_until_stopped cfg i of (r, ps) \<Rightarrow> (r, [ServerBuilt, MetricsStarted] @ ps))
             | Fail e \<Rightarrow> (Fail (OtherErr ''metrics listener: %w''), [ServerBuilt])
             | Panic \<Rightarrow> (Panic, [ServerBuilt]))
          else (case serve_until_stopped cfg i of (r, ps) \<Rightarrow> (r, [ServerBuilt] @ ps))
      | Fail e \<Rightarrow> (Fail e, [])
      | Panic \<Rightarrow> (Panic, []))"

text \<open>\<open>defer closeEngine()\<close> runs on every return after the engine is open.\<close>

definition run_main :: "(Config \<times> bool) res \<Rightarrow> run_in \<Rightarrow> unit res \<times> phase list" where
  "run_main loaded i =
     (case loaded of
        Fail e \<Rightarrow> (Fail e, [])
      | Panic \<Rightarrow> (Panic, [])
      | Ret (cfg, True) \<Rightarrow> (Ret (), [PrintVersion])
      | Ret (cfg, False) \<Rightarrow>
          (case bind_res (openEngine cfg) (opened (ri_open i)) of
             Fail e \<Rightarrow> (Fail e, [])
           | Panic \<Rightarrow> (Panic, [])
           | Ret e \<Rightarrow>
               let (r, ps) = start_server cfg i
               in (r, [EngineOpened e] @ ps @ [EngineClosed])))"

section \<open>The order of the environment does not matter\<close>

definition env_act :: "(bytes \<rightharpoonup> bytes) \<Rightarrow> bytes \<times> (bytes \<Rightarrow> Config \<Rightarrow> Config res) \<Rightarrow> Config \<Rightarrow> Config res" where
  "env_act env s c =
     (case env (fst s) of
        None \<Rightarrow> Ret c
      | Some v \<Rightarrow> (case snd s v c of Ret c \<Rightarrow> Ret c | Fail e \<Rightarrow> Fail (FmtErr ''%s: %w'' (fst s)) | Panic \<Rightarrow> Panic))"

lemma env_loop_act: "env_loop env (s # ss) = (\<lambda>c. bind_res (env_act env s c) (env_loop env ss))"
  by (cases s) (auto simp: fun_eq_iff env_act_def split: option.splits res.splits)

definition commute :: "(bytes \<rightharpoonup> bytes) \<Rightarrow> (bytes \<times> (bytes \<Rightarrow> Config \<Rightarrow> Config res)) \<Rightarrow> (bytes \<times> (bytes \<Rightarrow> Config \<Rightarrow> Config res)) \<Rightarrow> bool" where
  "commute env s t \<longleftrightarrow> (\<forall>c. bind_res (env_act env s c) (env_act env t) = bind_res (env_act env t c) (env_act env s))"

lemma bind_res_assoc: "bind_res (bind_res r f) g = bind_res r (\<lambda>x. bind_res (f x) g)"
  by (cases r) auto

lemma env_loop_front:
  assumes "\<forall>s \<in> set as. commute env s x"
  shows "env_loop env (as @ x # bs) c = env_loop env (x # as @ bs) c"
  using assms
proof (induction as arbitrary: c)
  case (Cons a as)
  have "env_loop env ((a # as) @ x # bs) c = bind_res (env_act env a c) (\<lambda>c. env_loop env (as @ x # bs) c)"
    by (simp add: env_loop_act del: env_loop.simps)
  also have "\<dots> = bind_res (env_act env a c) (\<lambda>c. bind_res (env_act env x c) (env_loop env (as @ bs)))"
    using Cons by (simp add: env_loop_act del: env_loop.simps)
  also have "\<dots> = bind_res (bind_res (env_act env x c) (env_act env a)) (env_loop env (as @ bs))"
    using Cons.prems by (simp add: bind_res_assoc [symmetric] commute_def)
  finally show ?case by (simp add: env_loop_act bind_res_assoc del: env_loop.simps)
qed simp

lemma env_loop_permuted:
  assumes "mset xs = mset ys" "\<forall>s \<in> set xs. \<forall>t \<in> set xs. commute env s t"
  shows "env_loop env xs c = env_loop env ys c"
  using assms
proof (induction xs arbitrary: ys c)
  case (Cons x xs)
  from Cons.prems(1) have "x \<in> set ys" by (metis list.set_intros(1) set_mset_mset)
  then obtain as bs where ys: "ys = as @ x # bs" by (meson split_list)
  with Cons.prems(1) have m: "mset xs = mset (as @ bs)" by simp
  then have "set as \<subseteq> set xs" by (metis Un_upper1 set_append set_mset_mset)
  with Cons.prems(2) have "env_loop env ys c = env_loop env (x # as @ bs) c" unfolding ys by (intro env_loop_front) auto
  moreover have "env_loop env xs = env_loop env (as @ bs)" using Cons.IH [OF m] Cons.prems(2) by (simp add: fun_eq_iff)
  ultimately show ?case by (simp add: env_loop_act del: env_loop.simps)
qed simp

text \<open>Every setter writes one field from its value alone, and no two write the same field.\<close>

lemma commute_writes:
  assumes "\<And>v c. snd s v c = Ret (f v c)" "\<And>v c. snd t v c = Ret (g v c)" "\<And>v w c. f v (g w c) = g w (f v c)"
  shows "commute env s t"
  using assms by (auto simp: commute_def env_act_def split: option.splits)

lemma commute_parse:
  assumes "\<And>v c. snd s v c = Ret (f v c)" "\<And>v c. snd t v c = bind_res (P v) (\<lambda>p. Ret (g p c))" "\<And>v w c. f v (g w c) = g w (f v c)"
  shows "commute env s t" "commute env t s"
proof -
  have "P v = Panic \<or> (\<exists>e. P v = Fail e) \<or> (\<exists>p. P v = Ret p)" for v by (cases "P v") auto
  then have "env_act env t c = (case env (fst t) of None \<Rightarrow> Ret c | Some v \<Rightarrow>
      (case P v of Ret p \<Rightarrow> Ret (g p c) | Fail e \<Rightarrow> Fail (FmtErr ''%s: %w'' (fst t)) | Panic \<Rightarrow> Panic))" for c
    by (auto simp: env_act_def assms(2) split: option.splits res.splits)
  moreover have "env_act env s c = (case env (fst s) of None \<Rightarrow> Ret c | Some v \<Rightarrow> Ret (f v c))" for c
    by (simp add: env_act_def assms(1) split: option.splits)
  ultimately show "commute env s t" "commute env t s"
    by (auto simp: commute_def assms(3) split: option.splits res.splits)
qed

lemma field_setters_distinct: "distinct (map fst (field_setters u))"
  by (simp add: field_setters_def)

lemma field_setters_commute:
  "\<forall>s \<in> set (field_setters u). (\<forall>v w c. (snd s v c)\<lparr>AppendFsync := w\<rparr> = snd s v (c\<lparr>AppendFsync := w\<rparr>))
      \<and> (\<forall>t \<in> set (field_setters u). fst s \<noteq> fst t \<longrightarrow> (\<forall>v w c. snd s v (snd t w c) = snd t w (snd s v c)))"
  by (simp add: field_setters_def)

lemma env_setters_commute: "\<forall>s \<in> set (env_setters u). \<forall>t \<in> set (env_setters u). commute env s t"
proof -
  let ?r = "\<lambda>(name, f). (name, \<lambda>v c. Ret (f v c))" and ?F = "set (field_setters u)"
  have r: "snd (?r s) v c = Ret (snd s v c)" for s v c by (simp split: prod.splits)
  have self: "commute env s s" for s by (simp add: commute_def)
  have "commute env (?r s) (?r t)" if st: "s \<in> ?F" "t \<in> ?F" for s t
  proof (cases "fst s = fst t")
    case True
    with st field_setters_distinct [of u] have "s = t" by (metis eq_key_imp_eq_value prod.collapse)
    with self show ?thesis by simp
  next
    case False
    with field_setters_commute [of u] st have "snd s v (snd t w c) = snd t w (snd s v c)" for v w c by blast
    from commute_writes [where f = "snd s" and g = "snd t", OF r r this] show ?thesis .
  qed
  moreover have "commute env (?r s) fsync_setter" "commute env fsync_setter (?r s)" if "s \<in> ?F" for s
  proof -
    have f: "snd fsync_setter v c = bind_res (ParseSyncPolicy v) (\<lambda>p. Ret (c\<lparr>AppendFsync := p\<rparr>))" for v c
      by (simp add: fsync_setter_def)
    have "snd s v (c\<lparr>AppendFsync := w\<rparr>) = (snd s v c)\<lparr>AppendFsync := w\<rparr>" for v w c
      using field_setters_commute [of u] that by simp
    from commute_parse [where f = "snd s" and g = "\<lambda>p c. c\<lparr>AppendFsync := p\<rparr>", OF r f this]
    show "commute env (?r s) fsync_setter" "commute env fsync_setter (?r s)" by auto
  qed
  ultimately show ?thesis unfolding env_setters_def using self by auto
qed

lemma applyEnv_any_order:
  "mset (order (env_setters u)) = mset (env_setters u) \<Longrightarrow> applyEnv u order env c = applyEnv u id env c"
  unfolding applyEnv_def using env_loop_permuted [of "env_setters u" "order (env_setters u)" env c] env_setters_commute by simp

section \<open>What starts and stops\<close>

definition from_file :: "(bytes \<Rightarrow> bytes) \<Rightarrow> bytes option \<Rightarrow> flags \<Rightarrow> Config res" where
  "from_file u file f = (if fl_config f \<noteq> [] then (case LoadFile u file Default of (r, c) \<Rightarrow> bind_res r (\<lambda>_. Ret c)) else Ret Default)"

lemma env_loop_keeps:
  "env_loop env ss c = Ret c' \<Longrightarrow> (\<And>s v c c'. s \<in> set ss \<Longrightarrow> snd s v c = Ret c' \<Longrightarrow> P c' = P c) \<Longrightarrow> P c' = P c"
proof (induction ss arbitrary: c)
  case (Cons s ss)
  from Cons.prems(1) obtain c1 where c1: "env_act env s c = Ret c1" "env_loop env ss c1 = Ret c'"
    by (auto simp: env_loop_act bind_res_eq_Ret simp del: env_loop.simps)
  then have "P c1 = P c" using Cons.prems(2) [of s] by (auto simp: env_act_def split: option.splits res.splits)
  moreover have "P c' = P c1" using Cons.IH [OF c1(2)] Cons.prems(2) by (meson list.set_intros(2))
  ultimately show ?case by simp
qed simp

lemma applyEnv_Addr:
  assumes "applyEnv u id env c = Ret c'"
  shows "Addr c' = (case env ''RFS_ADDR'' of Some v \<Rightarrow> v | None \<Rightarrow> Addr c)"
proof -
  define c1 where "c1 = (case env ''RFS_ADDR'' of Some v \<Rightarrow> c\<lparr>Addr := v\<rparr> | None \<Rightarrow> c)"
  define ss where "ss = tl (env_setters u)"
  have "env_setters u = (''RFS_ADDR'', \<lambda>v c. Ret (c\<lparr>Addr := v\<rparr>)) # ss" by (simp add: ss_def env_setters_def field_setters_def)
  with assms have rest: "env_loop env ss c1 = Ret c'" by (simp add: applyEnv_def c1_def split: option.splits)
  have "Addr d' = Addr d" if "s \<in> set ss" "snd s v d = Ret d'" for s v d d'
    using that by (auto simp: ss_def env_setters_def field_setters_def fsync_setter_def bind_res_eq_Ret)
  from env_loop_keeps [where P = Addr, OF rest this] show ?thesis by (simp add: c1_def split: option.splits)
qed

lemma set_if_Addr: "(\<And>c. Addr (g c) = Addr c) \<Longrightarrow> Addr (set_if b g c) = Addr c"
  by (simp add: set_if_def)

lemma applyFlags_Addr:
  assumes "applyFlags u f c = Ret c'"
  shows "Addr c' = (if fl_addr f \<noteq> [] then fl_addr f else Addr c)"
proof -
  have "Addr c' = Addr (set_if (fl_addr f \<noteq> []) (Addr_update (\<lambda>_. fl_addr f)) c)"
    using assms unfolding applyFlags_def Let_def
    by (cases "fl_appendfsync f = []") (auto simp: bind_res_eq_Ret set_if_Addr)
  then show ?thesis by (simp add: set_if_def)
qed

text \<open>
  C26: A configuration \<open>loadConfig\<close> accepts is valid, selects an engine that \<open>openEngine\<close> knows, listens
  on the address of the flag, else of the environment, else of the file, and does not depend on the
  order in which the environment is read.
\<close>

theorem loadConfig_precedence:
  assumes "loadConfig u order env file f = Ret (cfg, False)"
    and "mset (order (env_setters u)) = mset (env_setters u)" "mset (order' (env_setters u)) = mset (env_setters u)"
  shows "Validate cfg = Ret () \<and> (\<exists>e. openEngine cfg = Ret e)
    \<and> loadConfig u order' env file f = Ret (cfg, False)
    \<and> (\<exists>base. from_file u file f = Ret base
        \<and> Addr cfg = (if fl_addr f \<noteq> [] then fl_addr f else case env ''RFS_ADDR'' of Some v \<Rightarrow> v | None \<Rightarrow> Addr base))"
proof -
  have same: "loadConfig u order' env file f = loadConfig u order env file f"
    by (simp only: loadConfig_def applyEnv_any_order [of order u, OF assms(2)] applyEnv_any_order [of order' u, OF assms(3)])
  from assms(1,2) obtain base c1 where c: "from_file u file f = Ret base" "applyEnv u id env base = Ret c1" "applyFlags u f c1 = Ret cfg"
    "Validate cfg = Ret ()"
    unfolding loadConfig_def applyEnv_any_order [of order u, OF assms(2)] from_file_def Let_def by (auto simp: bind_res_eq_Ret split: if_splits)
  from c(4) have "\<exists>e. openEngine cfg = Ret e" by (auto simp: Validate_def openEngine_def split: if_splits)
  with c same assms(1) applyEnv_Addr [OF c(2)] applyFlags_Addr [OF c(3)] show ?thesis by auto
qed

definition demo_flags :: flags where
  "demo_flags =
     \<lparr>fl_config = [], fl_addr = '':7000'', fl_dir = [], fl_engine = [], fl_engineAddr = [], fl_appendfsync = ''always'', fl_appendonly = [],
      fl_metricsAddr = [], fl_loglevel = [], fl_logformat = [], fl_maxclients = 0, fl_noSave = False, fl_version = False\<rparr>"

lemma env_loop_unset: "env_loop Map.empty ss c = Ret c"
  by (induction ss) auto

theorem loadConfig_precedence_witness:
  "loadConfig id rev Map.empty None demo_flags = Ret (Default\<lparr>Addr := '':7000'', AppendFsync := SyncAlways\<rparr>, False)
   \<and> (\<exists>e. openEngine (Default\<lparr>Addr := '':7000'', AppendFsync := SyncAlways\<rparr>) = Ret e)"
proof -
  have v: "Validate (Default\<lparr>Addr := '':7000'', AppendFsync := SyncAlways\<rparr>) = Ret ()"
    by (simp add: Validate_def Default_def DefaultLimits_def)
  have "applyFlags id demo_flags Default = Ret (Default\<lparr>Addr := '':7000'', AppendFsync := SyncAlways\<rparr>)"
    by (simp add: applyFlags_def demo_flags_def set_if_def ParseSyncPolicy_def)
  with v have l: "loadConfig id rev Map.empty None demo_flags = Ret (Default\<lparr>Addr := '':7000'', AppendFsync := SyncAlways\<rparr>, False)"
    by (simp add: loadConfig_def applyEnv_def env_loop_unset demo_flags_def)
  from loadConfig_precedence [OF l, of id] l show ?thesis by simp
qed

lemma serving_phases:
  assumes "serve_until_stopped cfg i = (r, ps)"
  shows "EngineClosed \<notin> set ps \<and> (ri_early i = None \<and> (\<forall>r. ri_stop i \<noteq> ServeReturned r) \<longrightarrow> ServerClosed \<in> set ps)"
  using assms unfolding serve_until_stopped_def by (cases "ri_early i"; cases "ri_stop i") auto

lemma start_server_ok:
  assumes "start_server cfg i = (r, ps)"
  shows "EngineClosed \<notin> set ps
    \<and> (Serving \<in> set ps \<and> ri_early i = None \<and> (\<forall>r. ri_stop i \<noteq> ServeReturned r) \<longrightarrow> ServerClosed \<in> set ps)"
proof -
  obtain r' qs where q: "serve_until_stopped cfg i = (r', qs)" by (cases "serve_until_stopped cfg i")
  from assms have "ps = [] \<or> ps = [ServerBuilt] \<or> ps = [ServerBuilt, MetricsStarted] @ qs \<or> ps = [ServerBuilt] @ qs"
    by (auto simp: start_server_def q split: res.splits if_splits)
  with serving_phases [OF q] show ?thesis by (elim disjE) simp_all
qed

text \<open>
  Whatever fails while the server starts and whatever stops it, an engine that was opened is closed,
  once and as the last thing; a shutdown by signal or command closes the server first.
\<close>

theorem engine_closed_last:
  "snd (run_main loaded i) = [] \<or> snd (run_main loaded i) = [PrintVersion]
   \<or> (\<exists>e ps. snd (run_main loaded i) = EngineOpened e # ps @ [EngineClosed] \<and> EngineClosed \<notin> set ps
        \<and> (Serving \<in> set ps \<and> ri_early i = None \<and> (\<forall>r. ri_stop i \<noteq> ServeReturned r) \<longrightarrow> ServerClosed \<in> set ps))"
proof (cases loaded)
  case (Ret x)
  obtain cfg v where x: "x = (cfg, v)" by (cases x)
  obtain r ps where b: "start_server cfg i = (r, ps)" by (cases "start_server cfg i")
  show ?thesis
  proof (cases "v \<or> (\<forall>e. bind_res (openEngine cfg) (opened (ri_open i)) \<noteq> Ret e)")
    case True
    then show ?thesis by (auto simp: run_main_def Ret x split: res.splits bool.splits)
  next
    case False
    then obtain e where "bind_res (openEngine cfg) (opened (ri_open i)) = Ret e" by auto
    with False have "snd (run_main loaded i) = EngineOpened e # ps @ [EngineClosed]" by (simp add: run_main_def Ret x b)
    with start_server_ok [OF b] show ?thesis by blast
  qed
qed (simp_all add: run_main_def)

definition signalled_run :: run_in where
  "signalled_run = \<lparr>ri_open = Ret (), ri_new = Ret (), ri_metrics = Ret (), ri_early = None, ri_stop = Signalled\<rparr>"

end
