(* ===== verification/Metrics.thy ===== *)
theory Metrics
  imports Info
begin

text \<open>
  The Prometheus collector, \<open>src/internal/metrics/metrics.go\<close>: the descriptors and what a scrape sends.
  \<open>prometheus.MustNewConstMetric\<close> is the parameter \<open>mk\<close>; it is documented to build a metric when it gets
  as many label values as the descriptor has label names and to panic otherwise. The registry rejects a
  scrape with two samples of one name and labels. The HTTP side is outside the model.
\<close>

section \<open>Descriptors\<close>

record Desc =
  d_name :: bytes
  d_labels :: "bytes list"

datatype value_type = CounterValue | GaugeValue

definition desc :: "bytes \<Rightarrow> bytes list \<Rightarrow> Desc" where
  "desc name labels = \<lparr>d_name = name, d_labels = labels\<rparr>"

definition descCommands :: Desc where
  "descCommands = desc ''rfs_commands_total'' [''outcome'']"

definition descConnections :: Desc where
  "descConnections = desc ''rfs_connections_total'' [''outcome'']"

definition descConnectionsActive :: Desc where
  "descConnectionsActive = desc ''rfs_connections_active'' []"

definition descNetBytes :: Desc where
  "descNetBytes = desc ''rfs_net_bytes_total'' [''direction'']"

definition descKeyspace :: Desc where
  "descKeyspace = desc ''rfs_keyspace_lookups_total'' [''result'']"

definition descExpired :: Desc where
  "descExpired = desc ''rfs_expired_keys_total'' []"

definition descProtocolErrors :: Desc where
  "descProtocolErrors = desc ''rfs_protocol_errors_total'' []"

definition descTimeouts :: Desc where
  "descTimeouts = desc ''rfs_timeout_disconnects_total'' []"

definition descPipelines :: Desc where
  "descPipelines = desc ''rfs_pipeline_batches_total'' []"

definition descLatencyMean :: Desc where
  "descLatencyMean = desc ''rfs_command_latency_mean_seconds'' []"

definition descLatencyMax :: Desc where
  "descLatencyMax = desc ''rfs_command_latency_max_seconds'' []"

definition descUptime :: Desc where
  "descUptime = desc ''rfs_uptime_seconds'' []"

definition descKeys :: Desc where
  "descKeys = desc ''rfs_keys'' []"

definition descVolatileKeys :: Desc where
  "descVolatileKeys = desc ''rfs_keys_volatile'' []"

definition descDatasetBytes :: Desc where
  "descDatasetBytes = desc ''rfs_dataset_bytes_estimate'' []"

definition descWALRecords :: Desc where
  "descWALRecords = desc ''rfs_wal_records_total'' []"

definition descWALWrites :: Desc where
  "descWALWrites = desc ''rfs_wal_writes_total'' []"

definition descWALFsyncs :: Desc where
  "descWALFsyncs = desc ''rfs_wal_fsyncs_total'' []"

definition descWALBytes :: Desc where
  "descWALBytes = desc ''rfs_wal_bytes_total'' []"

definition descWALUnsynced :: Desc where
  "descWALUnsynced = desc ''rfs_wal_unsynced_records'' []"

definition descSaves :: Desc where
  "descSaves = desc ''rfs_snapshots_total'' [''outcome'']"

definition descDirty :: Desc where
  "descDirty = desc ''rfs_changes_since_snapshot'' []"

definition descLastSave :: Desc where
  "descLastSave = desc ''rfs_last_snapshot_timestamp_seconds'' []"

definition descTornTail :: Desc where
  "descTornTail = desc ''rfs_recovery_truncated_torn_tail'' []"

section \<open>A scrape\<close>

type_synonym sample = "Desc \<times> value_type \<times> rat \<times> bytes list"

definition f64 :: "nat \<Rightarrow> rat" where
  "f64 n = float64 (of_nat n)"

definition f64i :: "int \<Rightarrow> rat" where
  "f64i n = (if n < 0 then - float64 (of_int (- n)) else float64 (of_int n))"

definition UptimeSeconds :: "int \<Rightarrow> int" where
  "UptimeSeconds since = trunc (Seconds since)"

definition counter :: "Desc \<Rightarrow> rat \<Rightarrow> bytes list \<Rightarrow> sample" where
  "counter d v ls = (d, CounterValue, v, ls)"

definition gauge :: "Desc \<Rightarrow> rat \<Rightarrow> bytes list \<Rightarrow> sample" where
  "gauge d v ls = (d, GaugeValue, v, ls)"

definition stats_samples :: "int \<Rightarrow> ServerStats \<Rightarrow> sample list" where
  "stats_samples since s =
     [counter descCommands (f64 (CommandsProcessed s)) [''ok''], counter descCommands (f64 (CommandsFailed s)) [''error''],
      counter descCommands (f64 (CommandsRejected s)) [''rejected''], counter descConnections (f64 (ConnectionsReceived s)) [''accepted''],
      counter descConnections (f64 (ConnectionsRejected s)) [''rejected''], gauge descConnectionsActive (f64i (ConnectionsActive s)) [],
      counter descNetBytes (f64 (NetInputBytes s)) [''in''], counter descNetBytes (f64 (NetOutputBytes s)) [''out''],
      counter descKeyspace (f64 (KeyspaceHits s)) [''hit''], counter descKeyspace (f64 (KeyspaceMisses s)) [''miss''],
      counter descExpired (f64 (ExpiredKeys s)) [], counter descProtocolErrors (f64 (ProtocolErrors s)) [],
      counter descTimeouts (f64 (TimeoutDisconnects s)) [], counter descPipelines (f64 (PipelineBatches s)) [],
      gauge descLatencyMean (Seconds (MeanLatency s)) [], gauge descLatencyMax (float64 (f64 (LatencyMaxNanos s) / 1000000000)) [],
      gauge descUptime (f64i (UptimeSeconds since)) []]"

definition store_samples :: "Stats \<Rightarrow> sample list" where
  "store_samples st =
     [gauge descKeys (f64i (Keys st)) [], gauge descVolatileKeys (f64i (VolatileKeys st)) [],
      gauge descDatasetBytes (f64i (MemoryBytes st)) []]"

definition wal_samples :: "wal_Stats \<Rightarrow> sample list" where
  "wal_samples ws =
     [counter descWALRecords (f64 (ws_Appends ws)) [], counter descWALWrites (f64 (ws_Writes ws)) [],
      counter descWALFsyncs (f64 (ws_Fsyncs ws)) [], counter descWALBytes (f64 (ws_BytesOut ws)) [],
      gauge descWALUnsynced (f64 (nat ((int (ws_LastLSN ws) - int (ws_SyncedLSN ws)) mod 18446744073709551616))) []]"

definition boolToFloat :: "bool \<Rightarrow> rat" where
  "boolToFloat b = (if b then 1 else 0)"

definition engine_samples :: "persist_view \<Rightarrow> sample list" where
  "engine_samples pv =
     (let ps = pv_stats pv in
      (case pv_wal pv of Some ws \<Rightarrow> wal_samples ws | None \<Rightarrow> [])
      @ [counter descSaves (f64 (Saves ps)) [''ok''], counter descSaves (f64 (SavesFailed ps)) [''error''],
         gauge descDirty (f64 (DirtyChanges ps)) [], gauge descLastSave (float64 (f64i (LastSaveMs ps) / 1000)) [],
         gauge descTornTail (boolToFloat (LogTruncated (pv_rec pv))) []])"

text \<open>
  The sources: the counters, if any; the store's \<open>Stats\<close>, if there is a store; the engine, if it is the
  durable one.
\<close>

record Sources =
  so_Stats :: "ServerStats option"
  so_Store :: "Stats res option"
  so_Engine :: "persist_view option"

definition scrape :: "int \<Rightarrow> Sources \<Rightarrow> sample list" where
  "scrape since src =
     (case so_Stats src of Some s \<Rightarrow> stats_samples since s | None \<Rightarrow> [])
     @ (case so_Store src of Some (Ret st) \<Rightarrow> store_samples st | _ \<Rightarrow> [])
     @ (case so_Engine src of Some pv \<Rightarrow> engine_samples pv | None \<Rightarrow> [])"

fun send :: "(Desc \<Rightarrow> value_type \<Rightarrow> rat \<Rightarrow> bytes list \<Rightarrow> 'm res) \<Rightarrow> sample list \<Rightarrow> 'm list res" where
  "send mk [] = Ret []"
| "send mk ((d, t, v, ls) # ss) = bind_res (mk d t v ls) (\<lambda>m. bind_res (send mk ss) (\<lambda>ms. Ret (m # ms)))"

definition collector_Collect ::
  "(Desc \<Rightarrow> value_type \<Rightarrow> rat \<Rightarrow> bytes list \<Rightarrow> 'm res) \<Rightarrow> int \<Rightarrow> Sources \<Rightarrow> 'm list res" where
  "collector_Collect mk since src = send mk (scrape since src)"

section \<open>Every scrape is well formed\<close>

definition labelled :: "sample \<Rightarrow> bool" where
  "labelled s = (case s of (d, t, v, ls) \<Rightarrow> length ls = length (d_labels d))"

definition series :: "sample \<Rightarrow> bytes \<times> bytes list" where
  "series s = (case s of (d, t, v, ls) \<Rightarrow> (d_name d, ls))"

lemma send_labelled:
  assumes "\<And>d t v ls. length ls = length (d_labels d) \<Longrightarrow> \<exists>m. mk d t v ls = Ret m"
  shows "list_all labelled ss \<Longrightarrow> \<exists>ms. send mk ss = Ret ms \<and> length ms = length ss"
proof (induction ss)
  case (Cons s ss)
  obtain d t v ls where s: "s = (d, t, v, ls)" by (cases s) auto
  with Cons.prems have "length ls = length (d_labels d)" by (simp add: labelled_def)
  from assms [OF this] obtain m where "mk d t v ls = Ret m" by blast
  with Cons s show ?case by auto
qed simp

lemmas desc_defs = descCommands_def descConnections_def descConnectionsActive_def descNetBytes_def descKeyspace_def descExpired_def
  descProtocolErrors_def descTimeouts_def descPipelines_def descLatencyMean_def descLatencyMax_def descUptime_def descKeys_def
  descVolatileKeys_def descDatasetBytes_def descWALRecords_def descWALWrites_def descWALFsyncs_def descWALBytes_def descWALUnsynced_def
  descSaves_def descDirty_def descLastSave_def descTornTail_def desc_def counter_def gauge_def

text \<open>The series each source contributes.\<close>

type_synonym series_key = "bytes \<times> bytes list"

definition stats_names :: "series_key list" where
  "stats_names =
  [(''rfs_commands_total'', [''ok'']), (''rfs_commands_total'', [''error'']), (''rfs_commands_total'', [''rejected'']),
   (''rfs_connections_total'', [''accepted'']), (''rfs_connections_total'', [''rejected'']), (''rfs_connections_active'', []),
   (''rfs_net_bytes_total'', [''in'']), (''rfs_net_bytes_total'', [''out'']), (''rfs_keyspace_lookups_total'', [''hit'']),
   (''rfs_keyspace_lookups_total'', [''miss'']), (''rfs_expired_keys_total'', []), (''rfs_protocol_errors_total'', []),
   (''rfs_timeout_disconnects_total'', []), (''rfs_pipeline_batches_total'', []), (''rfs_command_latency_mean_seconds'', []),
   (''rfs_command_latency_max_seconds'', []), (''rfs_uptime_seconds'', [])]"

definition store_names :: "series_key list" where
  "store_names =
  [(''rfs_keys'', []), (''rfs_keys_volatile'', []), (''rfs_dataset_bytes_estimate'', [])]"

definition wal_names :: "series_key list" where
  "wal_names =
  [(''rfs_wal_records_total'', []), (''rfs_wal_writes_total'', []), (''rfs_wal_fsyncs_total'', []), (''rfs_wal_bytes_total'', []),
   (''rfs_wal_unsynced_records'', [])]"

definition save_names :: "series_key list" where
  "save_names =
  [(''rfs_snapshots_total'', [''ok'']), (''rfs_snapshots_total'', [''error'']), (''rfs_changes_since_snapshot'', []),
     (''rfs_last_snapshot_timestamp_seconds'', []), (''rfs_recovery_truncated_torn_tail'', [])]"

lemma names_distinct: "distinct (stats_names @ store_names @ wal_names @ save_names)"
  by (simp add: stats_names_def store_names_def wal_names_def save_names_def)

lemma scrape_series:
  "map series (stats_samples since s) = stats_names" "map series (store_samples st) = store_names"
  "map series (engine_samples pv) = (if pv_wal pv = None then [] else wal_names) @ save_names"
proof -
  show "map series (stats_samples since s) = stats_names"
    by (simp add: stats_samples_def stats_names_def series_def desc_defs)
  show "map series (store_samples st) = store_names"
    by (simp add: store_samples_def store_names_def series_def desc_defs)
  have "map series (wal_samples ws) = wal_names" for ws
    by (simp add: wal_samples_def wal_names_def series_def desc_defs)
  then show "map series (engine_samples pv) = (if pv_wal pv = None then [] else wal_names) @ save_names"
    by (simp add: engine_samples_def save_names_def Let_def series_def desc_defs split: option.splits)
qed

lemma scrape_labelled: "list_all labelled (scrape since src)"
  by (auto simp: scrape_def stats_samples_def store_samples_def engine_samples_def wal_samples_def Let_def labelled_def desc_defs
      split: option.splits res.splits)

lemma scrape_distinct: "distinct (map series (scrape since src))"
proof -
  have "map series (scrape since src) =
      (if so_Stats src = None then [] else stats_names) @ (case so_Store src of Some (Ret st) \<Rightarrow> store_names | _ \<Rightarrow> [])
      @ (case so_Engine src of None \<Rightarrow> [] | Some pv \<Rightarrow> (if pv_wal pv = None then [] else wal_names) @ save_names)"
    by (auto simp: scrape_def scrape_series split: option.splits res.splits)
  then show ?thesis using names_distinct by (auto split: option.splits res.splits)
qed


definition demo_metric :: "Desc \<Rightarrow> value_type \<Rightarrow> rat \<Rightarrow> bytes list \<Rightarrow> (bytes \<times> bytes list) res" where
  "demo_metric d t v ls = (if length ls = length (d_labels d) then Ret (d_name d, ls) else Panic)"


end
