(* ===== verification/Lsm_Types.thy ===== *)
theory Lsm_Types
  imports Store "HOL-Library.List_Lexorder"
begin

text \<open>
  The bottom of the storage engine under \<open>src/engine/src\<close>: its errors (\<open>error.rs\<close>), entries
  (\<open>types.rs\<close>), the encoding all its files share (\<open>coding.rs\<close>) and the memtable (\<open>memtable.rs\<close>).
  Keys are byte strings in lexicographic order. A Rust \<open>Result\<close> is a sum with the error on the left,
  without the text of the message; \<open>Panicked\<close> is a panic of the task that ran the call. A record is the
  one of \<open>store.go\<close>, which has the same two fields. The checksum comes from the crate \<open>crc32fast\<close>, so
  every definition that needs one takes it as the parameter \<open>crc\<close>.
\<close>

datatype lsm_error =
    Io
  | Corrupt
  | InvalidArgument
  | Closed
  | Poisoned bytes
  | Panicked

type_synonym 'a rust = "lsm_error + 'a"

fun rbind :: "'a rust \<Rightarrow> ('a \<Rightarrow> 'b rust) \<Rightarrow> 'b rust" where
  "rbind (Inl e) f = Inl e"
| "rbind (Inr x) f = f x"

lemma rbind_eq_Inr [simp]: "rbind m f = Inr y \<longleftrightarrow> (\<exists>x. m = Inr x \<and> f x = Inr y)"
  by (cases m) auto

lemma rbind_cong [fundef_cong]:
  "m = m' \<Longrightarrow> (\<And>x. m' = Inr x \<Longrightarrow> f x = f' x) \<Longrightarrow> rbind m f = rbind m' f'"
  by (cases m') auto

type_synonym checksum = "bytes \<Rightarrow> 32 word"

section \<open>Entries\<close>

datatype Entry = Entry_Put Record | Entry_Delete

type_synonym mutation = "bytes \<times> Entry"

text \<open>The sizes of \<open>Record\<close> and \<open>Entry\<close> on a 64-bit target: a fat pointer and an \<open>i64\<close>.\<close>

definition Record_heap_size :: "Record \<Rightarrow> nat" where
  "Record_heap_size r = length (Value r) + 24"

fun Entry_live :: "Entry \<Rightarrow> int \<Rightarrow> Record option" where
  "Entry_live (Entry_Put r) now_ms = (if Expired r now_ms then None else Some r)"
| "Entry_live Entry_Delete now_ms = None"

fun Entry_is_delete :: "Entry \<Rightarrow> bool" where
  "Entry_is_delete Entry_Delete = True"
| "Entry_is_delete (Entry_Put r) = False"

fun Entry_heap_size :: "Entry \<Rightarrow> nat" where
  "Entry_heap_size (Entry_Put r) = Record_heap_size r"
| "Entry_heap_size Entry_Delete = 24"

section \<open>Encoding\<close>

definition put_uvarint :: "nat \<Rightarrow> bytes" where
  "put_uvarint v = AppendUvarint v"

definition put_varint :: "int \<Rightarrow> bytes" where
  "put_varint v = put_uvarint (zigzag v)"

definition put_bytes :: "bytes \<Rightarrow> bytes" where
  "put_bytes b = put_uvarint (length b) @ b"

text \<open>A \<open>Cursor\<close> is what is left of its buffer.\<close>

type_synonym 'a cursor = "bytes \<Rightarrow> ('a \<times> bytes) rust"

definition cbind :: "'a cursor \<Rightarrow> ('a \<Rightarrow> 'b cursor) \<Rightarrow> 'b cursor" where
  "cbind m f c = rbind (m c) (\<lambda>(x, c). f x c)"

definition cret :: "'a \<Rightarrow> 'a cursor" where
  "cret x c = Inr (x, c)"

definition cfail :: "lsm_error \<Rightarrow> 'a cursor" where
  "cfail e c = Inl e"

text \<open>
  The loop of \<open>uvarint\<close>, with the iterations left first. The bits that \<open>|=\<close> adds lie above those of
  \<open>v\<close>; bits shifted out of the word are lost.
\<close>

fun uvarint_rs :: "nat \<Rightarrow> nat \<Rightarrow> nat \<Rightarrow> nat cursor" where
  "uvarint_rs 0 v shift c = Inl Corrupt"
| "uvarint_rs (Suc n) v shift c =
     (case c of
        [] \<Rightarrow> Inl Corrupt
      | b # c \<Rightarrow>
          if bval b < 128 then
            (let w = v + u64 (bval b * 2 ^ shift) in if is_u64 w then Inr (w, c) else Inl Corrupt)
          else uvarint_rs n (v + u64 ((bval b - 128) * 2 ^ shift)) (shift + 7) c)"

definition cur_uvarint :: "nat cursor" where
  "cur_uvarint = uvarint_rs 10 0 0"

definition cur_varint :: "int cursor" where
  "cur_varint = cbind cur_uvarint (\<lambda>u. cret (unzigzag u))"

definition cur_take :: "nat \<Rightarrow> bytes cursor" where
  "cur_take n c = (if length c < n then Inl Corrupt else Inr (take n c, drop n c))"

definition cur_bytes :: "bytes cursor" where
  "cur_bytes = cbind cur_uvarint cur_take"

definition cur_u8 :: "byte cursor" where
  "cur_u8 = cbind (cur_take 1) (\<lambda>b. cret (b ! 0))"

definition cur_u32 :: "nat cursor" where
  "cur_u32 = cbind (cur_take 4) (\<lambda>b. cret (le_val b))"

definition cur_u64 :: "nat cursor" where
  "cur_u64 = cbind (cur_take 8) (\<lambda>b. cret (le_val b))"

definition put_sum :: "checksum \<Rightarrow> bytes \<Rightarrow> bytes" where
  "put_sum crc b = b @ PutUint32 (unat (crc b))"

definition verify_trailing_checksum :: "checksum \<Rightarrow> bytes \<Rightarrow> bytes rust" where
  "verify_trailing_checksum crc block =
     (if length block < 4 then Inl Corrupt
      else
        let split = length block - 4; payload = take split block; tl = drop split block in
        if unat (crc payload) \<noteq> le_val tl then Inl Corrupt else Inr payload)"

subsection \<open>Round trips\<close>

lemma uvarint_rs_put:
  "s = 7 * i \<Longrightarrow> i \<le> 9 \<Longrightarrow> x < 2 ^ s \<Longrightarrow> v < 2 ^ (64 - s) \<Longrightarrow>
   uvarint_rs (10 - i) x s (AppendUvarint v @ rest) = Inr (x + v * 2 ^ s, rest)"
proof (induction v arbitrary: i s x rule: AppendUvarint.induct)
  case (1 v)
  note p = "1.prems"
  obtain k where k: "10 - i = Suc k" "k = 10 - (i + 1)" using p(2) by (cases "10 - i") auto
  have s64: "s \<le> 63" using p(1,2) by simp
  then have split64: "(2::nat) ^ 64 = 2 ^ (64 - s) * 2 ^ s" by (simp flip: power_add)
  have vs: "v * 2 ^ s + 2 ^ s \<le> 2 ^ 64"
  proof -
    have "(v + 1) * 2 ^ s \<le> 2 ^ (64 - s) * 2 ^ s" using p(4) by (intro mult_right_mono) auto
    then show ?thesis unfolding split64 by (simp only: distrib_right mult_1)
  qed
  show ?case
  proof (cases "v < 128")
    case True
    from vs p(3) have "v * 2 ^ s < 2 ^ 64" "x + v * 2 ^ s < 2 ^ 64" by linarith+
    with True k show ?thesis by (subst AppendUvarint.simps) (simp add: u64_def is_u64_def)
  next
    case False
    have i9: "i < 9"
    proof (rule ccontr)
      assume "\<not> i < 9"
      with p(1,2) have "s = 63" by simp
      with p(4) False show False by simp
    qed
    have m: "v mod 128 * 2 ^ s \<le> v * 2 ^ s" by (simp add: mult_right_mono)
    have "v mod 128 * 2 ^ s < 2 ^ 64" using vs m p(3) by linarith
    then have u: "u64 (v mod 128 * 2 ^ s) = v mod 128 * 2 ^ s" by (simp add: u64_def)
    have b: "bval (mkbyte (v mod 128 + 128)) = v mod 128 + 128"
      by (rule bval_mkbyte) (simp add: add.commute less_diff_conv [symmetric])
    have sm: "v div 128 < 2 ^ (64 - (s + 7))"
    proof -
      have "(2::nat) ^ (64 - s) = 128 * 2 ^ (64 - (s + 7))"
      proof -
        have "64 - s = 7 + (64 - (s + 7))" using p(1) i9 by simp
        then have "(2::nat) ^ (64 - s) = 2 ^ 7 * 2 ^ (64 - (s + 7))" by (simp only: power_add)
        then show ?thesis by simp
      qed
      with p(4) show ?thesis by (simp add: less_mult_imp_div_less mult.commute)
    qed
    have xs: "x + v mod 128 * 2 ^ s < 2 ^ (s + 7)"
    proof -
      have "v mod 128 * 2 ^ s \<le> 127 * 2 ^ s" by (rule mult_right_mono) (simp_all add: less_Suc_eq_le [symmetric])
      then have "x + v mod 128 * 2 ^ s < 128 * 2 ^ s" using p(3) by linarith
      then show ?thesis by (simp add: power_add mult.commute)
    qed
    have arith: "x + v mod 128 * 2 ^ s + v div 128 * 2 ^ (s + 7) = x + v * 2 ^ s"
    proof -
      have "m * q + d * (q * 128) = (m + d * 128) * q" for m d q :: nat
        by (simp add: distrib_right mult.assoc mult.left_commute)
      from this [of "v mod 128" "2 ^ s" "v div 128"] show ?thesis by (simp add: power_add)
    qed
    have "uvarint_rs (10 - (i + 1)) (x + v mod 128 * 2 ^ s) (s + 7) (AppendUvarint (v div 128) @ rest)
        = Inr (x + v mod 128 * 2 ^ s + v div 128 * 2 ^ (s + 7), rest)"
      by (rule "1.IH" [OF False]) (use p(1) i9 xs sm in auto)
    with False k u b arith show ?thesis by (subst AppendUvarint.simps) simp
  qed
qed

named_theorems cursor_simps

lemma cur_uvarint_put [cursor_simps]: "is_u64 v \<Longrightarrow> cur_uvarint (put_uvarint v @ rest) = Inr (v, rest)"
  using uvarint_rs_put [of 0 0 0 v rest] by (simp add: cur_uvarint_def put_uvarint_def is_u64_def)

lemma cur_varint_put [cursor_simps]: "is_i64 v \<Longrightarrow> cur_varint (put_varint v @ rest) = Inr (v, rest)"
  by (simp add: cur_varint_def put_varint_def cbind_def cret_def cur_uvarint_put zigzag_u64)

lemma cur_take_append [cursor_simps]: "n = length b \<Longrightarrow> cur_take n (b @ rest) = Inr (b, rest)"
  by (simp add: cur_take_def)

lemma cur_bytes_put [cursor_simps]: "is_u64 (length b) \<Longrightarrow> cur_bytes (put_bytes b @ rest) = Inr (b, rest)"
  by (simp add: cur_bytes_def put_bytes_def cbind_def cur_uvarint_put cur_take_append)

lemma cur_u8_Cons [cursor_simps]: "cur_u8 (b # rest) = Inr (b, rest)"
  by (simp add: cur_u8_def cbind_def cret_def cur_take_def)

lemma cur_u32_put [cursor_simps]: "v < 4294967296 \<Longrightarrow> cur_u32 (PutUint32 v @ rest) = Inr (v, rest)"
  by (simp add: cur_u32_def cbind_def cret_def cur_take_append le_val_PutUint32)

lemma cur_u64_put [cursor_simps]: "is_u64 v \<Longrightarrow> cur_u64 (PutUint64 v @ rest) = Inr (v, rest)"
  by (simp add: cur_u64_def cbind_def cret_def cur_take_append le_val_PutUint64)

lemma verify_put_sum [cursor_simps]: "verify_trailing_checksum crc (put_sum crc b) = Inr b"
  by (simp add: verify_trailing_checksum_def put_sum_def Let_def le_val_PutUint32 unat_crc_less)

lemma length_put_sum [simp]: "length (put_sum crc b) = length b + 4"
  by (simp add: put_sum_def)

lemma put_uvarint_ne [simp]: "put_uvarint v \<noteq> []" "0 < length (put_uvarint v)"
  by (simp_all add: put_uvarint_def)

lemma put_bytes_ne [simp]: "put_bytes b \<noteq> []"
  by (simp add: put_bytes_def)

section \<open>Sorted maps\<close>

text \<open>A \<open>BTreeMap\<close> as the list of its entries in ascending key order.\<close>

type_synonym ('k, 'v) btree = "('k \<times> 'v) list"

fun bt_insert :: "'k::linorder \<Rightarrow> 'v \<Rightarrow> ('k, 'v) btree \<Rightarrow> ('k, 'v) btree" where
  "bt_insert k v [] = [(k, v)]"
| "bt_insert k v ((k', v') # m) =
     (if k < k' then (k, v) # (k', v') # m
      else if k = k' then (k, v) # m
      else (k', v') # bt_insert k v m)"

definition bt_from :: "'k::linorder \<Rightarrow> ('k, 'v) btree \<Rightarrow> ('k, 'v) btree" where
  "bt_from start m = dropWhile (\<lambda>(k, _). k < start) m"

definition ascending :: "('k::linorder \<times> 'v) list \<Rightarrow> bool" where
  "ascending m \<longleftrightarrow> sorted_wrt (<) (map fst m)"

lemma ascending_simps [simp]:
  "ascending []"
  "ascending (kv # m) \<longleftrightarrow> (\<forall>kv'\<in>set m. fst kv < fst kv') \<and> ascending m"
  "ascending (m @ m') \<longleftrightarrow> ascending m \<and> ascending m' \<and> (\<forall>kv\<in>set m. \<forall>kv'\<in>set m'. fst kv < fst kv')"
  by (auto simp: ascending_def sorted_wrt_append)

lemma ascending_distinct: "ascending m \<Longrightarrow> distinct (map fst m)"
  by (auto simp: ascending_def strict_sorted_iff)

lemma ascending_filter: "ascending m \<Longrightarrow> ascending (filter P m)"
  by (induction m) auto

lemma ascending_take: "ascending m \<Longrightarrow> ascending (take n m)"
  by (auto simp: ascending_def take_map [symmetric] sorted_wrt_take)

lemma fst_set_bt_insert: "fst ` set (bt_insert k v m) = insert k (fst ` set m)"
  by (induction k v m rule: bt_insert.induct) auto

lemma ascending_bt_insert [simp, intro]: "ascending m \<Longrightarrow> ascending (bt_insert k v m)"
proof (induction k v m rule: bt_insert.induct)
  case (2 k v k' v' m)
  have "kv \<in> set (bt_insert k v m) \<Longrightarrow> fst kv = k \<or> fst kv \<in> fst ` set m" for kv
    using fst_set_bt_insert [of k v m] by (auto simp: set_eq_iff)
  with 2 show ?case by (auto simp: less_le_trans dest: order.strict_trans) fastforce+
qed simp

lemma map_of_bt_insert [simp]: "ascending m \<Longrightarrow> map_of (bt_insert k v m) = (map_of m)(k \<mapsto> v)"
  by (induction k v m rule: bt_insert.induct) (auto simp: fun_eq_iff)

lemma bt_from_eq_filter: "ascending m \<Longrightarrow> bt_from start m = filter (\<lambda>kv. start \<le> fst kv) m"
proof (induction m)
  case (Cons kv m)
  have "start \<le> fst kv \<Longrightarrow> filter (\<lambda>kv. start \<le> fst kv) m = m"
    using Cons.prems by (auto simp: filter_id_conv dest: order.strict_trans1 less_imp_le)
  with Cons show ?case by (auto simp: bt_from_def split: prod.splits) 
qed (simp add: bt_from_def)

lemma map_of_bt_from: "ascending m \<Longrightarrow> map_of (bt_from start m) k = (if start \<le> k then map_of m k else None)"
  unfolding bt_from_eq_filter by (induction m) auto

lemma set_bt_insert: "ascending m \<Longrightarrow> set (bt_insert k v m) = insert (k, v) {kv \<in> set m. fst kv \<noteq> k}"
  by (induction k v m rule: bt_insert.induct) auto

section \<open>The memtable\<close>

record MemTable =
  mt_map :: "(bytes, Entry) btree"
  mt_bytes :: nat

definition MemTable_new :: MemTable where
  "MemTable_new = \<lparr>mt_map = [], mt_bytes = 0\<rparr>"

definition MemTable_insert :: "bytes \<Rightarrow> Entry \<Rightarrow> MemTable \<Rightarrow> MemTable" where
  "MemTable_insert key entry t =
     (let added = length key + Entry_heap_size entry;
          map' = bt_insert key entry (mt_map t) in
      case map_of (mt_map t) key of
        Some old \<Rightarrow> \<lparr>mt_map = map', mt_bytes = mt_bytes t - Entry_heap_size old + (added - length key)\<rparr>
      | None \<Rightarrow> \<lparr>mt_map = map', mt_bytes = mt_bytes t + added\<rparr>)"

definition MemTable_get :: "bytes \<Rightarrow> MemTable \<Rightarrow> Entry option" where
  "MemTable_get key t = map_of (mt_map t) key"

definition MemTable_len :: "MemTable \<Rightarrow> nat" where
  "MemTable_len t = length (mt_map t)"

definition MemTable_is_empty :: "MemTable \<Rightarrow> bool" where
  "MemTable_is_empty t \<longleftrightarrow> mt_map t = []"

definition MemTable_range_from :: "bytes \<Rightarrow> MemTable \<Rightarrow> (bytes, Entry) btree" where
  "MemTable_range_from start t = bt_from start (mt_map t)"

definition MemTable_key_range :: "MemTable \<Rightarrow> (bytes \<times> bytes) option" where
  "MemTable_key_range t = (case mt_map t of [] \<Rightarrow> None | m \<Rightarrow> Some (fst (hd m), fst (last m)))"

definition MemTable_live_len :: "MemTable \<Rightarrow> int \<Rightarrow> nat" where
  "MemTable_live_len t now_ms = length (filter (\<lambda>(_, e). Entry_live e now_ms \<noteq> None) (mt_map t))"

text \<open>The outer option is whether the table knows the key, the inner one whether it is live.\<close>

definition MemTable_lookup :: "bytes \<Rightarrow> int \<Rightarrow> MemTable \<Rightarrow> Record option option" where
  "MemTable_lookup key now_ms t =
     (case map_of (mt_map t) key of
        None \<Rightarrow> None
      | Some Entry_Delete \<Rightarrow> Some None
      | Some (Entry_Put r) \<Rightarrow> if Expired r now_ms then Some None else Some (Some r))"

text \<open>A memtable is sorted and its byte counter is exact.\<close>

definition table_cost :: "(bytes, Entry) btree \<Rightarrow> nat" where
  "table_cost m = (\<Sum>(k, e) \<leftarrow> m. length k + Entry_heap_size e)"

definition MemTable_ok :: "MemTable \<Rightarrow> bool" where
  "MemTable_ok t \<longleftrightarrow> ascending (mt_map t) \<and> mt_bytes t = table_cost (mt_map t)"

lemma table_cost_insert:
  "ascending m \<Longrightarrow> table_cost (bt_insert k e m) =
     (case map_of m k of
        None \<Rightarrow> table_cost m + length k + Entry_heap_size e
      | Some old \<Rightarrow> table_cost m - Entry_heap_size old + Entry_heap_size e)
   \<and> (\<forall>old. map_of m k = Some old \<longrightarrow> length k + Entry_heap_size old \<le> table_cost m)"
proof (induction k e m rule: bt_insert.induct)
  case (2 k v k' v' m)
  have "k < k' \<Longrightarrow> map_of m k = None"
    using "2.prems" by (auto simp: map_of_eq_None_iff)
  moreover have "k = k' \<Longrightarrow> map_of m k = None"
    using "2.prems" by (auto simp: map_of_eq_None_iff)
  ultimately show ?case using 2 by (auto simp: table_cost_def split: option.splits)
qed (simp add: table_cost_def)

lemma MemTable_insert_ok: "MemTable_ok t \<Longrightarrow> MemTable_ok (MemTable_insert k e t)"
  using table_cost_insert [of "mt_map t" k e]
  by (auto simp: MemTable_ok_def MemTable_insert_def Let_def split: option.splits)

lemma mt_map_insert [simp]: "mt_map (MemTable_insert k e t) = bt_insert k e (mt_map t)"
  by (simp add: MemTable_insert_def Let_def split: option.splits)

lemma MemTable_new_ok [simp]: "MemTable_ok MemTable_new"
  by (simp add: MemTable_ok_def MemTable_new_def table_cost_def)

lemma MemTable_lookup_live: "MemTable_lookup k t m = map_option (\<lambda>e. Entry_live e t) (map_of (mt_map m) k)"
  by (auto simp: MemTable_lookup_def split: option.splits Entry.splits)

end
