(* ===== verification/Lsm_Bloom.thy ===== *)
theory Lsm_Bloom
  imports Lsm_Types Go_Float
begin

unbundle bit_operations_syntax

text \<open>
  The Bloom filter of \<open>src/engine/src/bloom.rs\<close>. Hashes are 64-bit words and probes 32-bit words that
  wrap; the bit array is a byte string. The property is that a filter never rejects one of its keys.
\<close>

section \<open>Hashing\<close>

definition fnv1a64 :: "bytes \<Rightarrow> 64 word" where
  "fnv1a64 data =
     (let h = foldl (\<lambda>h b. (h XOR word_of_nat (bval b)) * 0x100000001b3) 0xcbf29ce484222325 data;
          h = h XOR drop_bit 33 h;
          h = h * 0xff51afd7ed558ccd in
      h XOR drop_bit 33 h)"

definition hash_key :: "bytes \<Rightarrow> 64 word" where
  "hash_key key = fnv1a64 key"

definition seed_from_hash :: "64 word \<Rightarrow> 32 word \<times> 32 word" where
  "seed_from_hash h =
     (let h1 = ucast h :: 32 word; h2 = ucast (drop_bit 32 h) :: 32 word in
      (h1, word_rotl 15 h2 OR 1))"

section \<open>The filter\<close>

record Bloom =
  bl_bits :: bytes
  bl_hashes :: nat

definition set_probe :: "nat \<Rightarrow> bytes \<Rightarrow> bytes" where
  "set_probe i bits = bits[i div 8 := mkbyte (set_bit (i mod 8) (bval (bits ! (i div 8))))]"

definition has_probe :: "nat \<Rightarrow> bytes \<Rightarrow> bool" where
  "has_probe i bits = bit (bval (bits ! (i div 8))) (i mod 8)"

fun set_probes :: "nat \<Rightarrow> 32 word \<Rightarrow> 32 word \<Rightarrow> nat \<Rightarrow> bytes \<Rightarrow> bytes" where
  "set_probes 0 probe delta num_bits bits = bits"
| "set_probes (Suc n) probe delta num_bits bits =
     set_probes n (probe + delta) delta num_bits (set_probe (unat probe mod num_bits) bits)"

fun has_probes :: "nat \<Rightarrow> 32 word \<Rightarrow> 32 word \<Rightarrow> nat \<Rightarrow> bytes \<Rightarrow> bool" where
  "has_probes 0 h delta num_bits bits = True"
| "has_probes (Suc n) h delta num_bits bits =
     (if \<not> has_probe (unat h mod num_bits) bits then False
      else has_probes n (h + delta) delta num_bits bits)"

definition probe_count :: "nat \<Rightarrow> nat" where
  "probe_count bits_per_key =
     min 30 (max 1 (nat (trunc (float64 (float64 (of_nat bits_per_key) * float64 (69 / 100))))))"

definition set_hash :: "nat \<Rightarrow> nat \<Rightarrow> 64 word \<Rightarrow> bytes \<Rightarrow> bytes" where
  "set_hash hashes num_bits h bits =
     (let (probe, delta) = seed_from_hash h in set_probes hashes probe delta num_bits bits)"

definition Bloom_from_hashes :: "64 word list \<Rightarrow> nat \<Rightarrow> Bloom" where
  "Bloom_from_hashes hashes_of_keys bits_per_key =
     (let bits_per_key = max bits_per_key 1;
          num_bits = max (length hashes_of_keys * bits_per_key) 64;
          num_bytes = (num_bits + 7) div 8;
          num_bits = num_bytes * 8;
          hashes = probe_count bits_per_key in
      \<lparr>bl_bits = fold (set_hash hashes num_bits) hashes_of_keys (replicate num_bytes (mkbyte 0)),
       bl_hashes = hashes\<rparr>)"

definition Bloom_from_parts :: "bytes \<Rightarrow> nat \<Rightarrow> Bloom" where
  "Bloom_from_parts bits hashes = \<lparr>bl_bits = bits, bl_hashes = hashes\<rparr>"

definition Bloom_may_contain :: "bytes \<Rightarrow> Bloom \<Rightarrow> bool" where
  "Bloom_may_contain key b =
     (if bl_bits b = [] \<or> bl_hashes b = 0 then True
      else
        let num_bits = length (bl_bits b) * 8; (h, delta) = seed_from_hash (hash_key key) in
        has_probes (bl_hashes b) h delta num_bits (bl_bits b))"

section \<open>No false negatives\<close>

lemma set_bit_byte: "n < 8 \<Longrightarrow> x < 256 \<Longrightarrow> set_bit n x < (256 :: nat)"
  using take_bit_set_bit_eq [of 8 n x] take_bit_nat_eq_self_iff [of 8 x] take_bit_nat_eq_self_iff [of 8 "set_bit n x"] by simp

lemma length_set_probe [simp]: "length (set_probe i bits) = length bits"
  by (simp add: set_probe_def)

lemma has_set_probe:
  assumes "i < 8 * length bits"
  shows "has_probe j (set_probe i bits) \<longleftrightarrow> has_probe j bits \<or> i = j"
proof (cases "i div 8 = j div 8")
  case True
  have "i div 8 < length bits" using assms by simp
  moreover have "i = j \<longleftrightarrow> i mod 8 = j mod 8" using True by (metis mod_div_mult_eq)
  moreover have "bval (mkbyte (set_bit (i mod 8) (bval (bits ! (i div 8))))) = set_bit (i mod 8) (bval (bits ! (i div 8)))"
    by (rule bval_mkbyte) (simp add: set_bit_byte)
  ultimately show ?thesis using True by (auto simp: has_probe_def set_probe_def bit_set_bit_iff)
next
  case False
  then show ?thesis by (auto simp: has_probe_def set_probe_def)
qed

lemma length_set_probes [simp]: "length (set_probes n p d m bits) = length bits"
  by (induction n arbitrary: p bits) simp_all

lemma set_probes_keeps:
  "8 * length bits = m \<Longrightarrow> 0 < m \<Longrightarrow> has_probe j bits \<Longrightarrow> has_probe j (set_probes n p d m bits)"
  by (induction n arbitrary: p bits) (simp_all add: has_set_probe)

lemma set_probes_has:
  "8 * length bits = m \<Longrightarrow> 0 < m \<Longrightarrow> has_probes n p d m (set_probes n p d m bits)"
  by (induction n arbitrary: p bits) (simp_all add: has_set_probe set_probes_keeps)

lemma has_probes_mono:
  "(\<And>j. has_probe j bits \<Longrightarrow> has_probe j bits') \<Longrightarrow> has_probes n p d m bits \<Longrightarrow> has_probes n p d m bits'"
  by (induction n arbitrary: p) (auto split: if_splits)

lemma length_set_hash [simp]: "length (set_hash k m h bits) = length bits"
  by (simp add: set_hash_def split: prod.splits)

lemma length_fold_set_hash [simp]: "length (fold (set_hash k m) hs bits) = length bits"
  by (induction hs arbitrary: bits) simp_all

lemma set_hash_keeps: "8 * length bits = m \<Longrightarrow> 0 < m \<Longrightarrow> has_probe j bits \<Longrightarrow> has_probe j (set_hash k m h bits)"
  by (simp add: set_hash_def set_probes_keeps split: prod.splits)

lemma fold_set_hash_keeps:
  "8 * length bits = m \<Longrightarrow> 0 < m \<Longrightarrow> has_probe j bits \<Longrightarrow> has_probe j (fold (set_hash k m) hs bits)"
  by (induction hs arbitrary: bits) (simp_all add: set_hash_keeps)

lemma fold_set_hash_has:
  assumes "seed_from_hash h = (p, d)"
  shows "8 * length bits = m \<Longrightarrow> 0 < m \<Longrightarrow> h \<in> set hs \<Longrightarrow> has_probes k p d m (fold (set_hash k m) hs bits)"
proof (induction hs arbitrary: bits)
  case (Cons g hs)
  show ?case
  proof (cases "h \<in> set hs")
    case True
    show ?thesis using Cons.IH [of "set_hash k m g bits"] Cons.prems(1,2) True by simp
  next
    case False
    with Cons.prems assms have "has_probes k p d m (set_hash k m g bits)"
      by (auto simp: set_hash_def set_probes_has)
    then have "has_probes k p d m (fold (set_hash k m) hs (set_hash k m g bits))"
      using Cons.prems(1,2) by (intro has_probes_mono [OF fold_set_hash_keeps]) simp_all
    then show ?thesis by simp
  qed
qed simp

lemma probe_count_bounds: "1 \<le> probe_count n" "probe_count n \<le> 30"
  by (simp_all add: probe_count_def)

theorem Bloom_no_false_negatives:
  assumes "key \<in> set keys"
  shows "Bloom_may_contain key (Bloom_from_hashes (map hash_key keys) bits_per_key)"
proof -
  define nb where "nb = (max (length keys * max bits_per_key 1) 64 + 7) div 8"
  have nb: "0 < nb" by (simp add: nb_def)
  obtain p d where pd: "seed_from_hash (hash_key key) = (p, d)" by fastforce
  have "has_probes (probe_count (max bits_per_key 1)) p d (nb * 8)
      (fold (set_hash (probe_count (max bits_per_key 1)) (nb * 8)) (map hash_key keys) (replicate nb (mkbyte 0)))"
    by (rule fold_set_hash_has [OF pd]) (use assms nb in auto)
  with nb show ?thesis
    by (simp add: Bloom_may_contain_def Bloom_from_hashes_def Let_def nb_def [symmetric, simplified] pd
        del: set_map map_map fold_map)
qed

end
