(* ===== verification/Lsm_Table.thy ===== *)
theory Lsm_Table
  imports Lsm_Bloom
begin

text \<open>
  Sorted string tables, \<open>src/engine/src/sstable.rs\<close>. The writer turns ascending entries into the bytes of
  a file: data blocks, the Bloom block, the index block and the footer. The reader works on those
  bytes. The property is the round trip: what the reader finds for every key, and what its iterator
  returns, are the entries written.
\<close>

section \<open>Entries on disk\<close>

definition TAG_PUT :: byte where
  "TAG_PUT = mkbyte 0"

definition TAG_DELETE :: byte where
  "TAG_DELETE = mkbyte 1"

definition encode_entry :: "bytes \<Rightarrow> Entry \<Rightarrow> bytes" where
  "encode_entry key entry =
     put_bytes key @
     (case entry of
        Entry_Delete \<Rightarrow> [TAG_DELETE]
      | Entry_Put r \<Rightarrow> TAG_PUT # put_varint (ExpireAt r) @ put_bytes (Value r))"

text \<open>
  \<open>decode_entry\<close>; the log decodes the same layout and differs in the error for an unknown tag, which is
  the first argument.
\<close>

definition decode_entry :: "lsm_error \<Rightarrow> (bytes \<times> Entry) cursor" where
  "decode_entry unknown =
     cbind cur_bytes (\<lambda>key. cbind cur_u8 (\<lambda>tag.
       if tag = TAG_DELETE then cret (key, Entry_Delete)
       else if tag = TAG_PUT then
         cbind cur_varint (\<lambda>expire_at. cbind cur_bytes (\<lambda>val.
           cret (key, Entry_Put \<lparr>Value = val, ExpireAt = expire_at\<rparr>)))
       else cfail unknown))"

section \<open>Writing\<close>

record BlockHandle =
  bh_last_key :: bytes
  bh_offset :: nat
  bh_length :: nat

record TableMeta =
  tm_file_size :: nat
  tm_entry_count :: nat
  tm_min_key :: bytes
  tm_max_key :: bytes

record SsTableWriter =
  w_file :: bytes
  w_offset :: nat
  w_block :: bytes
  w_block_entries :: nat
  w_block_size :: nat
  w_index :: "BlockHandle list"
  w_key_hashes :: "64 word list"
  w_bits_per_key :: nat
  w_entry_count :: nat
  w_min_key :: "bytes option"
  w_last_key :: bytes

definition SsTableWriter_create :: "nat \<Rightarrow> nat \<Rightarrow> SsTableWriter" where
  "SsTableWriter_create block_size bits_per_key =
     \<lparr>w_file = [], w_offset = 0, w_block = [], w_block_entries = 0, w_block_size = max block_size 512,
      w_index = [], w_key_hashes = [], w_bits_per_key = bits_per_key, w_entry_count = 0,
      w_min_key = None, w_last_key = []\<rparr>"

definition estimated_size :: "SsTableWriter \<Rightarrow> nat" where
  "estimated_size w = w_offset w + length (w_block w)"

definition SsTableWriter_flush_block :: "checksum \<Rightarrow> SsTableWriter \<Rightarrow> SsTableWriter" where
  "SsTableWriter_flush_block crc w =
     (if w_block_entries w = 0 then w
      else
        let block = put_sum crc (w_block w @ PutUint32 (w_block_entries w)) in
        w\<lparr>w_file := w_file w @ block,
          w_index := w_index w @
            [\<lparr>bh_last_key = w_last_key w, bh_offset = w_offset w, bh_length = length block mod 4294967296\<rparr>],
          w_offset := w_offset w + length block, w_block := [], w_block_entries := 0\<rparr>)"

definition SsTableWriter_add :: "checksum \<Rightarrow> bytes \<Rightarrow> Entry \<Rightarrow> SsTableWriter \<Rightarrow> SsTableWriter rust" where
  "SsTableWriter_add crc key entry w =
     (if w_entry_count w > 0 \<and> key \<le> w_last_key w then Inl InvalidArgument
      else
        let w = w\<lparr>w_min_key := (if w_min_key w = None then Some key else w_min_key w), w_last_key := key,
                  w_key_hashes := w_key_hashes w @ [hash_key key],
                  w_block := w_block w @ encode_entry key entry,
                  w_block_entries := w_block_entries w + 1, w_entry_count := w_entry_count w + 1\<rparr> in
        Inr (if length (w_block w) \<ge> w_block_size w then SsTableWriter_flush_block crc w else w))"

definition SST_MAGIC :: nat where
  "SST_MAGIC = 0x5246535354423031"

definition SST_VERSION :: nat where
  "SST_VERSION = 1"

definition FOOTER_SIZE :: nat where
  "FOOTER_SIZE = 56"

definition bloom_block :: "checksum \<Rightarrow> Bloom \<Rightarrow> bytes" where
  "bloom_block crc b = put_sum crc (PutUint32 (bl_hashes b) @ bl_bits b)"

definition put_handle :: "BlockHandle \<Rightarrow> bytes" where
  "put_handle h = put_bytes (bh_last_key h) @ put_uvarint (bh_offset h) @ put_uvarint (bh_length h)"

definition index_block :: "checksum \<Rightarrow> bytes \<Rightarrow> bytes \<Rightarrow> BlockHandle list \<Rightarrow> bytes" where
  "index_block crc min_key max_key idx =
     put_sum crc (put_bytes min_key @ put_bytes max_key @ put_uvarint (length idx) @ concat (map put_handle idx))"

definition footer :: "checksum \<Rightarrow> nat \<Rightarrow> nat \<Rightarrow> nat \<Rightarrow> nat \<Rightarrow> nat \<Rightarrow> bytes" where
  "footer crc bloom_offset bloom_len index_offset index_len entry_count =
     put_sum crc (PutUint64 bloom_offset @ PutUint64 bloom_len @ PutUint64 index_offset @ PutUint64 index_len
       @ PutUint64 entry_count @ PutUint32 SST_VERSION) @ PutUint64 SST_MAGIC"

definition SsTableWriter_finish :: "checksum \<Rightarrow> SsTableWriter \<Rightarrow> TableMeta \<times> bytes" where
  "SsTableWriter_finish crc w =
     (let w = SsTableWriter_flush_block crc w;
          bloom_offset = w_offset w;
          bb = bloom_block crc (Bloom_from_hashes (w_key_hashes w) (w_bits_per_key w));
          min_key = (case w_min_key w of None \<Rightarrow> [] | Some k \<Rightarrow> k);
          max_key = w_last_key w;
          index_offset = bloom_offset + length bb;
          ib = index_block crc min_key max_key (w_index w);
          ft = footer crc bloom_offset (length bb) index_offset (length ib) (w_entry_count w) in
      (\<lparr>tm_file_size = index_offset + length ib + length ft, tm_entry_count = w_entry_count w,
        tm_min_key = min_key, tm_max_key = max_key\<rparr>,
       w_file w @ bb @ ib @ ft))"

fun writer_add_all :: "checksum \<Rightarrow> (bytes \<times> Entry) list \<Rightarrow> SsTableWriter \<Rightarrow> SsTableWriter rust" where
  "writer_add_all crc [] w = Inr w"
| "writer_add_all crc ((k, e) # es) w = rbind (SsTableWriter_add crc k e w) (writer_add_all crc es)"

definition write_table :: "checksum \<Rightarrow> nat \<Rightarrow> nat \<Rightarrow> (bytes \<times> Entry) list \<Rightarrow> (TableMeta \<times> bytes) rust" where
  "write_table crc block_size bits_per_key es =
     rbind (writer_add_all crc es (SsTableWriter_create block_size bits_per_key)) (\<lambda>w. Inr (SsTableWriter_finish crc w))"

section \<open>Reading\<close>

text \<open>\<open>read_exact_at\<close>: reading past the end fails, as does a length that cannot be allocated.\<close>

definition pread :: "bytes \<Rightarrow> nat \<Rightarrow> nat \<Rightarrow> bytes rust" where
  "pread file offset n = (if offset + n \<le> length file then Inr (take n (drop offset file)) else Inl Io)"

record SsTable =
  st_file :: bytes
  st_index :: "BlockHandle list"
  st_bloom :: Bloom
  st_min_key :: bytes
  st_max_key :: bytes
  st_entry_count :: nat
  st_file_size :: nat

fun read_index :: "nat \<Rightarrow> nat \<Rightarrow> BlockHandle list cursor" where
  "read_index bloom_offset 0 = cret []"
| "read_index bloom_offset (Suc n) =
     cbind cur_bytes (\<lambda>last_key. cbind cur_uvarint (\<lambda>offset. cbind cur_uvarint (\<lambda>len64.
       let len32 = len64 mod 4294967296 in
       if u64 (offset + len32) > bloom_offset then cfail Corrupt
       else cbind (read_index bloom_offset n) (\<lambda>idx.
         cret (\<lparr>bh_last_key = last_key, bh_offset = offset, bh_length = len32\<rparr> # idx)))))"

definition read_footer :: "checksum \<Rightarrow> bytes \<Rightarrow> (nat \<times> nat \<times> nat \<times> nat \<times> nat) rust" where
  "read_footer crc ft =
     (if le_val (drop (FOOTER_SIZE - 8) ft) \<noteq> SST_MAGIC then Inl Corrupt
      else if unat (crc (take (FOOTER_SIZE - 12) ft)) \<noteq> le_val (take 4 (drop (FOOTER_SIZE - 12) ft)) then Inl Corrupt
      else
        rbind (cbind cur_u64 (\<lambda>bloom_offset. cbind cur_u64 (\<lambda>bloom_len. cbind cur_u64 (\<lambda>index_offset.
          cbind cur_u64 (\<lambda>index_len. cbind cur_u64 (\<lambda>entry_count. cbind cur_u32 (\<lambda>version.
            if version \<noteq> SST_VERSION then cfail Corrupt
            else cret (bloom_offset, bloom_len, index_offset, index_len, entry_count))))))) ft) (\<lambda>x. Inr (fst x)))"

definition read_bloom :: "checksum \<Rightarrow> bytes \<Rightarrow> nat \<Rightarrow> nat \<Rightarrow> Bloom rust" where
  "read_bloom crc file bloom_offset bloom_len =
     rbind (pread file bloom_offset bloom_len) (\<lambda>block.
     rbind (verify_trailing_checksum crc block) (\<lambda>payload.
       if length payload < 4 then Inl Corrupt
       else Inr (Bloom_from_parts (drop 4 payload) (le_val (take 4 payload)))))"

definition read_index_block :: "checksum \<Rightarrow> bytes \<Rightarrow> nat \<Rightarrow> nat \<Rightarrow> nat \<Rightarrow> (bytes \<times> bytes \<times> BlockHandle list) rust" where
  "read_index_block crc file bloom_offset index_offset index_len =
     rbind (pread file index_offset index_len) (\<lambda>block.
     rbind (verify_trailing_checksum crc block) (\<lambda>payload.
     rbind (cbind cur_bytes (\<lambda>min_key. cbind cur_bytes (\<lambda>max_key. cbind cur_uvarint (\<lambda>n.
       if n > length file then cfail Corrupt
       else cbind (read_index bloom_offset n) (\<lambda>idx. cret (min_key, max_key, idx))))) payload) (\<lambda>x. Inr (fst x))))"

definition SsTable_open :: "checksum \<Rightarrow> bytes \<Rightarrow> SsTable rust" where
  "SsTable_open crc file =
     (let file_size = length file in
      if file_size < FOOTER_SIZE then Inl Corrupt
      else
        rbind (pread file (file_size - FOOTER_SIZE) FOOTER_SIZE) (\<lambda>ft.
        rbind (read_footer crc ft) (\<lambda>(bloom_offset, bloom_len, index_offset, index_len, entry_count).
          if u64 (bloom_offset + bloom_len) > file_size \<or> u64 (index_offset + index_len) > file_size then Inl Corrupt
          else
            rbind (read_bloom crc file bloom_offset bloom_len) (\<lambda>bloom.
            rbind (read_index_block crc file bloom_offset index_offset index_len) (\<lambda>(min_key, max_key, idx).
              Inr \<lparr>st_file = file, st_index = idx, st_bloom = bloom, st_min_key = min_key, st_max_key = max_key,
                   st_entry_count = entry_count, st_file_size = file_size\<rparr>)))))"

definition SsTable_may_contain :: "bytes \<Rightarrow> SsTable \<Rightarrow> bool" where
  "SsTable_may_contain key t \<longleftrightarrow>
     key \<ge> st_min_key t \<and> key \<le> st_max_key t \<and> Bloom_may_contain key (st_bloom t)"

text \<open>
  A block without its checksum and its entry count; a payload shorter than the count makes the slice
  panic.
\<close>

definition read_block :: "checksum \<Rightarrow> SsTable \<Rightarrow> BlockHandle \<Rightarrow> bytes rust" where
  "read_block crc t h =
     rbind (pread (st_file t) (bh_offset h) (bh_length h)) (\<lambda>block.
     rbind (verify_trailing_checksum crc block) (\<lambda>payload.
       if length payload < 4 then Inl Panicked else Inr (take (length payload - 4) payload)))"

lemma cur_uvarint_less: "uvarint_rs n v s c = Inr (x, c') \<Longrightarrow> length c' < length c"
  by (induction n v s c rule: uvarint_rs.induct) (fastforce simp: Let_def split: list.splits if_splits)+

lemma cur_bytes_less: "cur_bytes c = Inr (x, c') \<Longrightarrow> length c' < length c"
  by (auto simp: cur_bytes_def cbind_def cur_take_def cur_uvarint_def split: if_splits dest!: cur_uvarint_less)

lemma cur_le:
  "cur_u8 c = Inr (b, c') \<Longrightarrow> length c' \<le> length c"
  "cur_varint c = Inr (i, c') \<Longrightarrow> length c' \<le> length c"
  by (auto simp: cur_u8_def cur_varint_def cbind_def cret_def cur_take_def cur_uvarint_def
      split: if_splits dest!: cur_uvarint_less)

lemma decode_entry_less: "decode_entry u c = Inr (x, c') \<Longrightarrow> length c' < length c"
  by (auto simp: decode_entry_def cbind_def cret_def cfail_def split: if_splits
      dest!: cur_bytes_less cur_le)

text \<open>The loop of \<open>get\<close> over one block.\<close>

function find_entry :: "bytes \<Rightarrow> bytes \<Rightarrow> Entry option rust" where
  "find_entry key c =
     (if c = [] then Inr None
      else
        case decode_entry InvalidArgument c of
          Inl e \<Rightarrow> Inl e
        | Inr ((k, entry), c) \<Rightarrow>
            if k < key then find_entry key c
            else if k = key then Inr (Some entry)
            else Inr None)"
  by auto
termination
  by (relation "measure (\<lambda>(_, c). length c)") (auto dest: decode_entry_less)

declare find_entry.simps [simp del]

text \<open>The standard library leaves \<open>partition_point\<close> unspecified on a slice that is not partitioned.\<close>

definition partition_point :: "('a \<Rightarrow> bool) \<Rightarrow> 'a list \<Rightarrow> nat" where
  "partition_point P xs = length (takeWhile P xs)"

definition SsTable_get :: "checksum \<Rightarrow> bytes \<Rightarrow> SsTable \<Rightarrow> Entry option rust" where
  "SsTable_get crc key t =
     (if \<not> SsTable_may_contain key t then Inr None
      else
        let idx = partition_point (\<lambda>h. bh_last_key h < key) (st_index t) in
        if idx < length (st_index t) then rbind (read_block crc t (st_index t ! idx)) (find_entry key)
        else Inr None)"

text \<open>
  \<open>SsTableIter\<close> as the entries successive calls of \<open>next_entry\<close> return and the error that ends them, if
  one does.
\<close>

type_synonym entries = "(bytes \<times> Entry) list \<times> lsm_error option"

function block_entries :: "bytes \<Rightarrow> entries" where
  "block_entries c =
     (if c = [] then ([], None)
      else
        case decode_entry InvalidArgument c of
          Inl e \<Rightarrow> ([], Some e)
        | Inr (x, c) \<Rightarrow> let (es, err) = block_entries c in (x # es, err))"
  by auto
termination
  by (relation "measure length") (auto dest: decode_entry_less)

declare block_entries.simps [simp del]

fun entries_from :: "checksum \<Rightarrow> SsTable \<Rightarrow> BlockHandle list \<Rightarrow> entries" where
  "entries_from crc t [] = ([], None)"
| "entries_from crc t (h # hs) =
     (case read_block crc t h of
        Inl e \<Rightarrow> ([], Some e)
      | Inr c \<Rightarrow>
          (case block_entries c of
             (es, Some e) \<Rightarrow> (es, Some e)
           | (es, None) \<Rightarrow> let (es', err) = entries_from crc t hs in (es @ es', err)))"

definition SsTable_iter :: "checksum \<Rightarrow> SsTable \<Rightarrow> entries" where
  "SsTable_iter crc t = entries_from crc t (st_index t)"

section \<open>The round trip of entries and blocks\<close>

text \<open>
  The log refuses a batch that encodes to more than $2^{30}$ bytes, so no entry of the engine is longer;
  expiry times are \<open>i64\<close>.
\<close>

definition entry_ok :: "bytes \<times> Entry \<Rightarrow> bool" where
  "entry_ok kv \<longleftrightarrow>
     length (encode_entry (fst kv) (snd kv)) \<le> 2 ^ 30
     \<and> (case snd kv of Entry_Put r \<Rightarrow> is_i64 (ExpireAt r) | Entry_Delete \<Rightarrow> True)"

definition enc_entries :: "(bytes \<times> Entry) list \<Rightarrow> bytes" where
  "enc_entries es = concat (map (\<lambda>(k, e). encode_entry k e) es)"

lemma enc_simps [simp]:
  "enc_entries [] = []" "enc_entries ((k, e) # es) = encode_entry k e @ enc_entries es" "enc_entries (es @ es') = enc_entries es @ enc_entries es'"
  by (simp_all add: enc_entries_def)

lemma encode_entry_ne [simp]: "encode_entry k e \<noteq> []"
  by (simp add: encode_entry_def)

lemma enc_eq_Nil [simp]: "enc_entries es = [] \<longleftrightarrow> es = []"
  by (cases es) auto

lemma length_le_enc: "length es \<le> length (enc_entries es)"
proof (induction es)
  case (Cons kv es)
  obtain k e where kv: "kv = (k, e)" by (cases kv)
  have "0 < length (encode_entry k e)" by simp
  with Cons show ?case unfolding kv enc_simps by (simp del: length_greater_0_conv)
qed simp

lemma put_bytes_length: "length b \<le> length (put_bytes b)"
  by (simp add: put_bytes_def)

lemma decode_encode_entry [cursor_simps]:
  assumes "entry_ok (k, e)"
  shows "decode_entry u (encode_entry k e @ rest) = Inr ((k, e), rest)"
proof -
  have "length k \<le> 2 ^ 30" using assms put_bytes_length [of k] by (simp add: entry_ok_def encode_entry_def)
  then have k: "is_u64 (length k)" by (simp add: is_u64_def)
  show ?thesis
  proof (cases e)
    case Entry_Delete
    with k show ?thesis by (simp add: decode_entry_def encode_entry_def cbind_def cret_def cursor_simps)
  next
    case (Entry_Put r)
    have "length (Value r) \<le> 2 ^ 30"
      using assms put_bytes_length [of "Value r"] Entry_Put by (simp add: entry_ok_def encode_entry_def)
    then have v: "is_u64 (length (Value r))" by (simp add: is_u64_def)
    have t: "TAG_PUT \<noteq> TAG_DELETE" using bval_mkbyte [of 0] bval_mkbyte [of 1] by (metis TAG_PUT_def TAG_DELETE_def one_less_numeral_iff semiring_norm(76) zero_less_numeral zero_neq_one)
    from assms Entry_Put have "is_i64 (ExpireAt r)" by (simp add: entry_ok_def)
    with k v t Entry_Put show ?thesis
      by (simp add: decode_entry_def encode_entry_def cbind_def cret_def cursor_simps)
  qed
qed

lemma block_entries_enc: "\<forall>kv\<in>set es. entry_ok kv \<Longrightarrow> block_entries (enc_entries es) = (es, None)"
proof (induction es)
  case (Cons kv es)
  obtain k e where kv: "kv = (k, e)" by (cases kv)
  with Cons show ?case by (subst block_entries.simps) (simp add: cursor_simps)
qed (simp add: block_entries.simps)

lemma find_entry_enc:
  "\<forall>kv\<in>set es. entry_ok kv \<Longrightarrow> ascending es \<Longrightarrow> find_entry key (enc_entries es) = Inr (map_of es key)"
proof (induction es)
  case (Cons kv es)
  obtain k e where kv: "kv = (k, e)" by (cases kv)
  have "k > key \<Longrightarrow> map_of es key = None" using Cons.prems kv by (auto simp: map_of_eq_None_iff)
  with Cons kv show ?case by (subst find_entry.simps) (auto simp: cursor_simps)
qed (simp add: find_entry.simps)

section \<open>What the writer writes\<close>

definition block_bytes :: "checksum \<Rightarrow> (bytes \<times> Entry) list \<Rightarrow> bytes" where
  "block_bytes crc es = put_sum crc (enc_entries es @ PutUint32 (length es))"

definition data_bytes :: "checksum \<Rightarrow> (bytes \<times> Entry) list list \<Rightarrow> bytes" where
  "data_bytes crc bl = concat (map (block_bytes crc) bl)"

fun handles :: "checksum \<Rightarrow> nat \<Rightarrow> (bytes \<times> Entry) list list \<Rightarrow> BlockHandle list" where
  "handles crc pos [] = []"
| "handles crc pos (b # bl) =
     \<lparr>bh_last_key = fst (last b), bh_offset = pos, bh_length = length (block_bytes crc b)\<rparr>
     # handles crc (pos + length (block_bytes crc b)) bl"

definition last_key_of :: "(bytes \<times> Entry) list \<Rightarrow> bytes" where
  "last_key_of es = (if es = [] then [] else fst (last es))"

definition first_key_of :: "(bytes \<times> Entry) list \<Rightarrow> bytes" where
  "first_key_of es = (if es = [] then [] else fst (hd es))"

definition writer_of :: "checksum \<Rightarrow> nat \<Rightarrow> nat \<Rightarrow> (bytes \<times> Entry) list list \<Rightarrow> (bytes \<times> Entry) list \<Rightarrow> SsTableWriter" where
  "writer_of crc bs bpk bl pe =
     \<lparr>w_file = data_bytes crc bl, w_offset = length (data_bytes crc bl), w_block = enc_entries pe, w_block_entries = length pe,
      w_block_size = max bs 512, w_index = handles crc 0 bl, w_key_hashes = map (hash_key \<circ> fst) (concat bl @ pe),
      w_bits_per_key = bpk, w_entry_count = length (concat bl @ pe),
      w_min_key = (if concat bl @ pe = [] then None else Some (fst (hd (concat bl @ pe)))),
      w_last_key = last_key_of (concat bl @ pe)\<rparr>"

definition blocks_ok :: "checksum \<Rightarrow> (bytes \<times> Entry) list list \<Rightarrow> bool" where
  "blocks_ok crc bl \<longleftrightarrow> [] \<notin> set bl \<and> (\<forall>b\<in>set bl. length (block_bytes crc b) < 4294967296)"

lemma data_bytes_simps [simp]:
  "data_bytes crc [] = []" "data_bytes crc (b # bl) = block_bytes crc b @ data_bytes crc bl"
  "data_bytes crc (bl @ bl') = data_bytes crc bl @ data_bytes crc bl'"
  by (simp_all add: data_bytes_def)

lemma handles_append:
  "handles crc pos (bl @ bl') = handles crc pos bl @ handles crc (pos + length (data_bytes crc bl)) bl'"
  by (induction bl arbitrary: pos) (simp_all add: add.assoc)

lemma length_handles [simp]: "length (handles crc pos bl) = length bl"
  by (induction bl arbitrary: pos) simp_all

lemma flush_writer_of:
  assumes "pe \<noteq> []" "length (block_bytes crc pe) < 4294967296"
  shows "SsTableWriter_flush_block crc (writer_of crc bs bpk bl pe) = writer_of crc bs bpk (bl @ [pe]) []"
  using assms
  by (simp add: SsTableWriter_flush_block_def writer_of_def Let_def handles_append last_key_of_def block_bytes_def)

lemma flush_writer_of_Nil [simp]:
  "SsTableWriter_flush_block crc (writer_of crc bs bpk bl []) = writer_of crc bs bpk bl []"
  by (simp add: SsTableWriter_flush_block_def writer_of_def)

lemma add_writer_of:
  assumes "ascending (concat bl @ pe @ [(k, e)])" "length (enc_entries (pe @ [(k, e)])) + 8 < 4294967296"
  shows "SsTableWriter_add crc k e (writer_of crc bs bpk bl pe) =
    Inr (if max bs 512 \<le> length (enc_entries (pe @ [(k, e)])) then writer_of crc bs bpk (bl @ [pe @ [(k, e)]]) []
         else writer_of crc bs bpk bl (pe @ [(k, e)]))"
proof -
  let ?es = "concat bl @ pe"
  have ord: "\<not> (0 < length ?es \<and> k \<le> last_key_of ?es)"
  proof
    assume a: "0 < length ?es \<and> k \<le> last_key_of ?es"
    then have "last ?es \<in> set ?es" by (intro last_in_set) simp
    with assms(1) have "fst (last ?es) < k" by auto
    moreover have "last_key_of ?es = fst (last ?es)" using a unfolding last_key_of_def by (simp only: length_greater_0_conv if_False simp_thms)
    ultimately show False using a by (metis leD)
  qed
  have "\<And>kv. (if ?es @ [(k, e)] = [] then None else Some (fst (hd (?es @ [(k, e)])))) =
      (if (if ?es = [] then None else Some (fst (hd ?es))) = None then Some k else (if ?es = [] then None else Some (fst (hd ?es))))"
    by (auto simp: hd_append)
  then have step: "(writer_of crc bs bpk bl pe)\<lparr>
      w_min_key := (if w_min_key (writer_of crc bs bpk bl pe) = None then Some k else w_min_key (writer_of crc bs bpk bl pe)),
      w_last_key := k, w_key_hashes := w_key_hashes (writer_of crc bs bpk bl pe) @ [hash_key k],
      w_block := w_block (writer_of crc bs bpk bl pe) @ encode_entry k e,
      w_block_entries := w_block_entries (writer_of crc bs bpk bl pe) + 1,
      w_entry_count := w_entry_count (writer_of crc bs bpk bl pe) + 1\<rparr> = writer_of crc bs bpk bl (pe @ [(k, e)])"
    by (simp add: writer_of_def last_key_of_def)
  have fl: "SsTableWriter_flush_block crc (writer_of crc bs bpk bl (pe @ [(k, e)])) = writer_of crc bs bpk (bl @ [pe @ [(k, e)]]) []"
    by (rule flush_writer_of) (use assms(2) in \<open>simp_all add: block_bytes_def\<close>)
  have guard: "w_entry_count (writer_of crc bs bpk bl pe) = length ?es" "w_last_key (writer_of crc bs bpk bl pe) = last_key_of ?es"
    by (simp_all add: writer_of_def)
  have blk: "w_block (writer_of crc bs bpk bl (pe @ [(k, e)])) = enc_entries (pe @ [(k, e)])"
    "w_block_size (writer_of crc bs bpk bl (pe @ [(k, e)])) = max bs 512"
    by (simp_all add: writer_of_def)
  show ?thesis
    unfolding SsTableWriter_add_def Let_def unfolding step unfolding guard blk fl using ord by simp
qed

lemma add_all_writer_of:
  assumes "bs \<le> 2 ^ 30"
  shows "ascending (concat bl @ pe @ es) \<Longrightarrow> \<forall>kv\<in>set es. entry_ok kv \<Longrightarrow> length (enc_entries pe) < max bs 512 \<Longrightarrow> blocks_ok crc bl \<Longrightarrow>
    \<exists>bl' pe'. writer_add_all crc es (writer_of crc bs bpk bl pe) = Inr (writer_of crc bs bpk bl' pe')
      \<and> concat bl' @ pe' = concat bl @ pe @ es \<and> length (enc_entries pe') < max bs 512 \<and> blocks_ok crc bl'"
proof (induction es arbitrary: bl pe)
  case (Cons kv es)
  obtain k e where kv: "kv = (k, e)" by (cases kv)
  let ?b = "pe @ [(k, e)]"
  have small: "length (enc_entries ?b) + 8 < 4294967296"
  proof -
    have "length (encode_entry k e) \<le> 2 ^ 30" using Cons.prems(2) by (simp add: kv entry_ok_def)
    moreover have "length (enc_entries pe) < 2 ^ 30 + 512" using Cons.prems(3) assms by linarith
    ultimately show ?thesis by simp
  qed
  have add: "SsTableWriter_add crc k e (writer_of crc bs bpk bl pe) =
      Inr (if max bs 512 \<le> length (enc_entries ?b) then writer_of crc bs bpk (bl @ [?b]) [] else writer_of crc bs bpk bl ?b)"
    by (rule add_writer_of) (use Cons.prems(1) small kv in auto)
  show ?case
  proof (cases "max bs 512 \<le> length (enc_entries ?b)")
    case True
    have "blocks_ok crc (bl @ [?b])"
      using Cons.prems(4) small by (auto simp: blocks_ok_def block_bytes_def)
    with Cons.IH [of "bl @ [?b]" "[]"] Cons.prems kv True add show ?thesis by (simp del: enc_simps(2,3))
  next
    case False
    with add have "SsTableWriter_add crc k e (writer_of crc bs bpk bl pe) = Inr (writer_of crc bs bpk bl ?b)" by (simp only: if_False)
    with Cons.IH [of bl ?b] Cons.prems kv False show ?thesis by (simp del: enc_simps(2,3) max.bounded_iff)
  qed
qed auto

text \<open>The file of a list of blocks.\<close>

definition table_image :: "checksum \<Rightarrow> nat \<Rightarrow> (bytes \<times> Entry) list list \<Rightarrow> TableMeta \<times> bytes" where
  "table_image crc bpk bl = SsTableWriter_finish crc (writer_of crc 0 bpk bl [])"

lemma writer_of_Nil: "SsTableWriter_create bs bpk = writer_of crc bs bpk [] []"
  by (simp add: SsTableWriter_create_def writer_of_def last_key_of_def)

lemma finish_writer_of:
  assumes "bs \<le> 2 ^ 30" "length (enc_entries pe) < max bs 512" "blocks_ok crc bl"
  shows "\<exists>bl'. SsTableWriter_finish crc (writer_of crc bs bpk bl pe) = table_image crc bpk bl'
    \<and> concat bl' = concat bl @ pe \<and> blocks_ok crc bl'"
proof (cases "pe = []")
  case True
  then have "SsTableWriter_finish crc (writer_of crc bs bpk bl pe) = table_image crc bpk bl"
    by (simp add: SsTableWriter_finish_def table_image_def writer_of_def SsTableWriter_flush_block_def)
  with True assms show ?thesis by auto
next
  case False
  have small: "length (block_bytes crc pe) < 4294967296" using assms(1,2) by (simp add: block_bytes_def)
  have "SsTableWriter_finish crc (writer_of crc bs bpk bl pe) = table_image crc bpk (bl @ [pe])"
    unfolding table_image_def SsTableWriter_finish_def flush_writer_of [OF False small] flush_writer_of_Nil
    by (simp add: writer_of_def)
  moreover have "blocks_ok crc (bl @ [pe])" using assms(3) False small by (auto simp: blocks_ok_def)
  ultimately show ?thesis by auto
qed

lemma write_table_image:
  assumes "bs \<le> 2 ^ 30" "ascending es" "\<forall>kv\<in>set es. entry_ok kv"
  obtains bl where "write_table crc bs bpk es = Inr (table_image crc bpk bl)" "concat bl = es" "blocks_ok crc bl"
proof -
  have "\<exists>bl' pe'. writer_add_all crc es (writer_of crc bs bpk [] []) = Inr (writer_of crc bs bpk bl' pe')
      \<and> concat bl' @ pe' = concat [] @ [] @ es \<and> length (enc_entries pe') < max bs 512 \<and> blocks_ok crc bl'"
    by (rule add_all_writer_of) (use assms in \<open>auto simp: blocks_ok_def\<close>)
  then obtain bl' pe' where w: "writer_add_all crc es (writer_of crc bs bpk [] []) = Inr (writer_of crc bs bpk bl' pe')"
    "concat bl' @ pe' = es" "length (enc_entries pe') < max bs 512" "blocks_ok crc bl'" by auto
  from finish_writer_of [OF assms(1) w(3,4)] obtain bl where
    "SsTableWriter_finish crc (writer_of crc bs bpk bl' pe') = table_image crc bpk bl" "concat bl = concat bl' @ pe'" "blocks_ok crc bl"
    by blast
  with w show ?thesis by (intro that [of bl]) (simp_all add: write_table_def writer_of_Nil [of bs bpk crc])
qed

section \<open>Reading a written table\<close>

definition bloom_of :: "nat \<Rightarrow> (bytes \<times> Entry) list \<Rightarrow> Bloom" where
  "bloom_of bpk es = Bloom_from_hashes (map (hash_key \<circ> fst) es) bpk"

definition table_of :: "checksum \<Rightarrow> nat \<Rightarrow> (bytes \<times> Entry) list list \<Rightarrow> SsTable" where
  "table_of crc bpk bl =
     \<lparr>st_file = snd (table_image crc bpk bl), st_index = handles crc 0 bl, st_bloom = bloom_of bpk (concat bl),
      st_min_key = first_key_of (concat bl), st_max_key = last_key_of (concat bl),
      st_entry_count = length (concat bl), st_file_size = length (snd (table_image crc bpk bl))\<rparr>"

lemma table_image_eq:
  "table_image crc bpk bl =
     (let es = concat bl; d = data_bytes crc bl; bb = bloom_block crc (bloom_of bpk es);
          ib = index_block crc (first_key_of es) (last_key_of es) (handles crc 0 bl);
          ft = footer crc (length d) (length bb) (length d + length bb) (length ib) (length es) in
      (\<lparr>tm_file_size = length (d @ bb @ ib @ ft), tm_entry_count = length es, tm_min_key = first_key_of es,
        tm_max_key = last_key_of es\<rparr>, d @ bb @ ib @ ft))"
  unfolding table_image_def SsTableWriter_finish_def flush_writer_of_Nil
  by (simp add: writer_of_def Let_def bloom_of_def first_key_of_def comp_def)

lemma pread_append [cursor_simps]:
  "p = length a \<Longrightarrow> n = length b \<Longrightarrow> pread (a @ b @ c) p n = Inr b"
  by (simp add: pread_def)

lemma length_footer [simp]: "length (footer crc a b c d e) = FOOTER_SIZE"
  by (simp add: footer_def FOOTER_SIZE_def)

lemma read_footer_footer:
  assumes "is_u64 a" "is_u64 b" "is_u64 c" "is_u64 d" "is_u64 e"
  shows "read_footer crc (footer crc a b c d e) = Inr (a, b, c, d, e)"
proof -
  let ?p = "PutUint64 a @ PutUint64 b @ PutUint64 c @ PutUint64 d @ PutUint64 e @ PutUint32 SST_VERSION"
  have l: "length ?p = 44" by simp
  have f: "footer crc a b c d e = ?p @ PutUint32 (unat (crc ?p)) @ PutUint64 SST_MAGIC"
    by (simp add: footer_def put_sum_def)
  have m: "le_val (drop (FOOTER_SIZE - 8) (footer crc a b c d e)) = SST_MAGIC"
    by (simp add: f FOOTER_SIZE_def le_val_PutUint64 u64_def SST_MAGIC_def)
  have t: "take (FOOTER_SIZE - 12) (footer crc a b c d e) = ?p"
    unfolding f FOOTER_SIZE_def using l by simp
  have s: "take 4 (drop (FOOTER_SIZE - 12) (footer crc a b c d e)) = PutUint32 (unat (crc ?p))"
    unfolding f FOOTER_SIZE_def using l by simp
  have w: "le_val (PutUint32 (unat (crc ?p))) = unat (crc ?p)" using unat_crc_less by (simp add: le_val_PutUint32)
  have v: "SST_VERSION < 4294967296" by (simp add: SST_VERSION_def)
  show ?thesis
    unfolding read_footer_def m t s w
    using assms v by (simp add: f cbind_def cret_def cursor_simps)
qed

lemma read_index_handles:
  assumes "\<forall>h\<in>set hs. is_u64 (length (bh_last_key h)) \<and> is_u64 (bh_offset h) \<and> bh_length h < 4294967296
    \<and> bh_offset h + bh_length h \<le> bloom_offset" "is_u64 bloom_offset"
  shows "read_index bloom_offset (length hs) (concat (map put_handle hs) @ rest) = Inr (hs, rest)"
  using assms
proof (induction hs)
  case (Cons h hs)
  then have h: "is_u64 (length (bh_last_key h))" "is_u64 (bh_offset h)" "bh_length h < 4294967296"
    "bh_offset h + bh_length h \<le> bloom_offset" by auto
  then have "is_u64 (bh_length h)" "u64 (bh_offset h + bh_length h) = bh_offset h + bh_length h"
    using Cons.prems(2) by (auto simp: is_u64_def u64_def)
  with h Cons show ?case by (simp add: put_handle_def cbind_def cret_def cursor_simps Let_def)
qed (simp add: cret_def)

lemma handles_bounds:
  "h \<in> set (handles crc pos bl) \<Longrightarrow>
   bh_offset h + bh_length h \<le> pos + length (data_bytes crc bl) \<and> (\<exists>b\<in>set bl. bh_last_key h = fst (last b) \<and> bh_length h = length (block_bytes crc b))"
  by (induction bl arbitrary: pos) fastforce+

lemma open_table_image:
  assumes "blocks_ok crc bl" "\<forall>kv\<in>set (concat bl). entry_ok kv" "is_u64 (length (snd (table_image crc bpk bl)))"
  shows "SsTable_open crc (snd (table_image crc bpk bl)) = Inr (table_of crc bpk bl)"
proof -
  define es d bb ib where "es = concat bl" and "d = data_bytes crc bl" and "bb = bloom_block crc (bloom_of bpk es)"
    and "ib = index_block crc (first_key_of es) (last_key_of es) (handles crc 0 bl)"
  define ft where "ft = footer crc (length d) (length bb) (length d + length bb) (length ib) (length es)"
  have img: "snd (table_image crc bpk bl) = d @ bb @ ib @ ft"
    by (simp add: table_image_eq Let_def es_def d_def bb_def ib_def ft_def)
  have key: "is_u64 (length (fst kv))" if "kv \<in> set es" for kv
  proof -
    have "length (encode_entry (fst kv) (snd kv)) \<le> 2 ^ 30" using assms(2) that by (auto simp: entry_ok_def es_def)
    with put_bytes_length [of "fst kv"] have "length (fst kv) \<le> 2 ^ 30" by (simp add: encode_entry_def)
    then show ?thesis by (simp add: is_u64_def)
  qed
  have keys: "is_u64 (length (first_key_of es))" "is_u64 (length (last_key_of es))"
    using key by (auto simp: first_key_of_def last_key_of_def)
  have total: "length d + length bb + length ib + length ft < 2 ^ 64" using assms(3) by (simp add: img is_u64_def add.assoc)
  have lens: "is_u64 (length d)" "is_u64 (length bb)" "is_u64 (length d + length bb)" "is_u64 (length ib)"
    "u64 (length d + length bb) = length d + length bb" "u64 (length d + length bb + length ib) = length d + length bb + length ib"
    using total by (simp_all add: is_u64_def u64_def)
  have count: "length es \<le> length d"
  proof -
    have "length (concat bl) \<le> length (data_bytes crc bl)" for bl
    proof (induction bl)
      case (Cons b bl)
      with length_le_enc [of b] show ?case by (simp add: block_bytes_def)
    qed simp
    then show ?thesis by (simp add: es_def d_def)
  qed
  then have count64: "is_u64 (length es)" using total by (simp add: is_u64_def)
  have blocks: "length bl \<le> length es"
  proof -
    have "[] \<notin> set bl \<Longrightarrow> length bl \<le> length (concat bl)" for bl :: "(bytes \<times> Entry) list list"
    proof (induction bl)
      case (Cons b bl)
      then have "length bl \<le> length (concat bl)" "0 < length b" by auto
      then show ?case by (simp del: length_greater_0_conv)
    qed simp
    then show ?thesis using assms(1) by (simp add: es_def blocks_ok_def)
  qed
  have fo: "read_footer crc ft = Inr (length d, length bb, length d + length bb, length ib, length es)"
    unfolding ft_def by (rule read_footer_footer) (use lens count64 in auto)
  have bo: "read_bloom crc (d @ bb @ ib @ ft) (length d) (length bb) = Inr (bloom_of bpk es)"
  proof -
    have "bl_hashes (bloom_of bpk es) < 4294967296"
      using probe_count_bounds(2) [of "max bpk 1"] by (simp add: bloom_of_def Bloom_from_hashes_def Let_def)
    then show ?thesis
      by (simp add: read_bloom_def cursor_simps bb_def bloom_block_def Bloom_from_parts_def le_val_PutUint32)
  qed
  have hs: "\<forall>h\<in>set (handles crc 0 bl). is_u64 (length (bh_last_key h)) \<and> is_u64 (bh_offset h) \<and> bh_length h < 4294967296
    \<and> bh_offset h + bh_length h \<le> length d"
  proof
    fix h assume "h \<in> set (handles crc 0 bl)"
    from handles_bounds [OF this] obtain b where b: "b \<in> set bl" "bh_last_key h = fst (last b)" "bh_length h = length (block_bytes crc b)"
      and le: "bh_offset h + bh_length h \<le> length d" by (auto simp: d_def)
    have "b \<noteq> []" using b(1) assms(1) by (auto simp: blocks_ok_def)
    then have "last b \<in> set b" by simp
    then have "last b \<in> set es" using b(1) unfolding es_def set_concat by blast
    then have "is_u64 (length (bh_last_key h))" using key b(2) by simp
    moreover have "is_u64 (bh_offset h)" using le total by (simp add: is_u64_def)
    moreover have "bh_length h < 4294967296" using assms(1) b by (simp add: blocks_ok_def)
    ultimately show "is_u64 (length (bh_last_key h)) \<and> is_u64 (bh_offset h) \<and> bh_length h < 4294967296
      \<and> bh_offset h + bh_length h \<le> length d" using le by blast
  qed
  have bl64: "is_u64 (length bl)" using blocks count64 by (simp add: is_u64_def)
  have ri: "read_index (length d) (length bl) (concat (map put_handle (handles crc 0 bl))) = Inr (handles crc 0 bl, [])"
    using read_index_handles [OF hs lens(1), of "[]"] by simp
  have io: "read_index_block crc (d @ bb @ ib @ ft) (length d) (length d + length bb) (length ib) =
      Inr (first_key_of es, last_key_of es, handles crc 0 bl)"
  proof -
    have "pread (d @ bb @ ib @ ft) (length d + length bb) (length ib) = Inr ib"
      using pread_append [of _ "d @ bb" _ ib ft] by simp
    moreover have "verify_trailing_checksum crc ib = Inr (put_bytes (first_key_of es) @ put_bytes (last_key_of es)
        @ put_uvarint (length bl) @ concat (map put_handle (handles crc 0 bl)))"
      by (simp add: ib_def index_block_def cursor_simps)
    ultimately show ?thesis using keys bl64 blocks count
      by (simp add: read_index_block_def cbind_def cret_def cursor_simps ri)
  qed
  have pf: "pread (d @ bb @ ib @ ft) (length (d @ bb @ ib @ ft) - FOOTER_SIZE) FOOTER_SIZE = Inr ft"
    using pread_append [of _ "d @ bb @ ib" _ ft "[]"] by (simp add: ft_def)
  have sz: "\<not> length (d @ bb @ ib @ ft) < FOOTER_SIZE" by (simp add: ft_def)
  show ?thesis
    unfolding img SsTable_open_def Let_def pf
    using sz lens(5,6) by (simp add: fo bo io table_of_def img es_def [symmetric])
qed

lemma read_block_of:
  assumes "st_file t = a @ block_bytes crc b @ c" "bh_offset h = length a" "bh_length h = length (block_bytes crc b)"
  shows "read_block crc t h = Inr (enc_entries b)"
  unfolding read_block_def assms using verify_put_sum [of crc "enc_entries b @ PutUint32 (length b)"]
  by (simp add: pread_append block_bytes_def)

lemma entries_from_handles:
  "st_file t = a @ data_bytes crc bl @ c \<Longrightarrow> \<forall>kv\<in>set (concat bl). entry_ok kv \<Longrightarrow>
   entries_from crc t (handles crc (length a) bl) = (concat bl, None)"
proof (induction bl arbitrary: a)
  case (Cons b bl)
  have "read_block crc t (handles crc (length a) (b # bl) ! 0) = Inr (enc_entries b)"
    by (rule read_block_of [of _ a _ b "data_bytes crc bl @ c"]) (simp_all add: Cons.prems(1))
  moreover have "entries_from crc t (handles crc (length (a @ block_bytes crc b)) bl) = (concat bl, None)"
    by (rule Cons.IH) (use Cons.prems in auto)
  ultimately show ?case using Cons.prems(2) by (simp add: block_entries_enc)
qed simp

lemma handles_nth:
  "i < length bl \<Longrightarrow> handles crc pos bl ! i =
     \<lparr>bh_last_key = fst (last (bl ! i)), bh_offset = pos + length (data_bytes crc (take i bl)), bh_length = length (block_bytes crc (bl ! i))\<rparr>"
  by (induction bl arbitrary: pos i) (auto simp: nth_Cons split: nat.splits)

lemma last_keys_handles: "map bh_last_key (handles crc pos bl) = map (fst \<circ> last) bl"
  by (induction bl arbitrary: pos) simp_all

text \<open>The block that the binary search selects is the only one that can hold the key.\<close>

lemma partition_blocks:
  assumes "ascending (concat bl)" "[] \<notin> set bl"
    and i_def: "i = partition_point (\<lambda>h. bh_last_key h < key) (handles crc pos bl)"
  shows "map_of (concat bl) key = (if i < length bl then map_of (bl ! i) key else None)"
proof -
  have tw: "length (takeWhile (\<lambda>h. bh_last_key h < key) hs) = length (takeWhile (\<lambda>l. l < key) (map bh_last_key hs))" for hs
    by (induction hs) auto
  have "i = length (takeWhile (\<lambda>b. fst (last b) < key) bl)"
    unfolding i_def partition_point_def tw last_keys_handles by (induction bl) auto
  then show ?thesis using assms(1,2)
  proof (induction bl arbitrary: i)
    case (Cons b bl)
    have b: "b \<noteq> []" using Cons.prems by auto
    have asc: "ascending b" "ascending (concat bl)" "\<And>kv kv'. kv \<in> set b \<Longrightarrow> kv' \<in> set (concat bl) \<Longrightarrow> fst kv < fst kv'"
      using Cons.prems(2) by auto
    have top: "fst kv \<le> fst (last b)" if "kv \<in> set b" for kv
      using asc(1) that b by (cases b rule: rev_cases) auto
    show ?case
    proof (cases "fst (last b) < key")
      case True
      have "map_of b key = None" using top True by (fastforce simp: map_of_eq_None_iff)
      with Cons True show ?thesis by (auto simp: map_add_def)
    next
      case False
      have "map_of (concat bl) key = None"
        using asc(3) [OF last_in_set [OF b]] False by (fastforce simp: map_of_eq_None_iff)
      with Cons False show ?thesis by (auto simp: map_add_def split: option.splits)
    qed
  qed simp
qed

lemma keys_in_range:
  assumes "ascending es" "(k, e) \<in> set es"
  shows "first_key_of es \<le> k" "k \<le> last_key_of es"
proof -
  have ne: "es \<noteq> []" using assms(2) by auto
  then obtain x xs where es: "es = x # xs" by (cases es) auto
  show "first_key_of es \<le> k" using assms es by (auto simp: first_key_of_def)
  obtain ys y where es': "es = ys @ [y]" using ne by (cases es rule: rev_cases) auto
  show "k \<le> last_key_of es" using assms es' by (auto simp: last_key_of_def)
qed

lemma ascending_concat: "ascending (concat bl) \<Longrightarrow> b \<in> set bl \<Longrightarrow> ascending b"
  by (induction bl) auto

lemma get_table_of:
  assumes "blocks_ok crc bl" "ascending (concat bl)" "\<forall>kv\<in>set (concat bl). entry_ok kv"
  shows "SsTable_get crc key (table_of crc bpk bl) = Inr (map_of (concat bl) key)"
proof (cases "SsTable_may_contain key (table_of crc bpk bl)")
  case False
  have "map_of (concat bl) key = None"
  proof (rule ccontr)
    assume "map_of (concat bl) key \<noteq> None"
    then obtain e where e: "(key, e) \<in> set (concat bl)" by (auto dest: map_of_SomeD)
    then have k: "key \<in> set (map fst (concat bl))" by force
    have "Bloom_may_contain key (bloom_of bpk (concat bl))"
      unfolding bloom_of_def map_map [symmetric] by (rule Bloom_no_false_negatives [OF k])
    with False keys_in_range [OF assms(2) e] show False by (simp add: SsTable_may_contain_def table_of_def)
  qed
  with False show ?thesis by (simp add: SsTable_get_def)
next
  case True
  let ?t = "table_of crc bpk bl"
  define i where "i = partition_point (\<lambda>h. bh_last_key h < key) (handles crc 0 bl)"
  have idx: "st_index ?t = handles crc 0 bl" by (simp add: table_of_def)
  have m: "map_of (concat bl) key = (if i < length bl then map_of (bl ! i) key else None)"
    by (rule partition_blocks [OF _ _ i_def]) (use assms in \<open>auto simp: blocks_ok_def\<close>)
  show ?thesis
  proof (cases "i < length bl")
    case False
    then show ?thesis using True m by (simp add: SsTable_get_def idx Let_def flip: i_def)
  next
    case il: True
    have split: "data_bytes crc bl = data_bytes crc (take i bl) @ block_bytes crc (bl ! i) @ data_bytes crc (drop (Suc i) bl)"
      using il by (metis Cons_nth_drop_Suc append_take_drop_id data_bytes_simps(2,3))
    have "read_block crc ?t (handles crc 0 bl ! i) = Inr (enc_entries (bl ! i))"
      by (rule read_block_of [of _ "data_bytes crc (take i bl)" _ _ "data_bytes crc (drop (Suc i) bl) @ drop (length (data_bytes crc bl)) (snd (table_image crc bpk bl))"])
        (use il in \<open>simp_all add: handles_nth table_of_def table_image_eq Let_def split\<close>)
    moreover have "bl ! i \<in> set bl" using il by simp
    then have "find_entry key (enc_entries (bl ! i)) = Inr (map_of (bl ! i) key)"
      using assms(3) by (intro find_entry_enc [OF _ ascending_concat [OF assms(2)]]) auto
    ultimately show ?thesis using True m il by (simp add: SsTable_get_def idx Let_def flip: i_def)
  qed
qed

lemma iter_table_of:
  assumes "\<forall>kv\<in>set (concat bl). entry_ok kv"
  shows "SsTable_iter crc (table_of crc bpk bl) = (concat bl, None)"
  using entries_from_handles [of "table_of crc bpk bl" "[]" crc bl "drop (length (data_bytes crc bl)) (snd (table_image crc bpk bl))"] assms
  by (simp add: SsTable_iter_def table_of_def table_image_eq Let_def)

text \<open>
  A file holds the entries \<open>es\<close>: it opens, its lookups are those of \<open>es\<close> and its iterator returns \<open>es\<close>.
\<close>

definition table_holds :: "checksum \<Rightarrow> bytes \<Rightarrow> (bytes \<times> Entry) list \<Rightarrow> bool" where
  "table_holds crc file es \<longleftrightarrow>
     (\<exists>t. SsTable_open crc file = Inr t \<and> (\<forall>key. SsTable_get crc key t = Inr (map_of es key))
        \<and> (\<forall>key. \<not> SsTable_may_contain key t \<longrightarrow> map_of es key = None) \<and> SsTable_iter crc t = (es, None))"

lemma table_image_holds:
  assumes "blocks_ok crc bl" "ascending (concat bl)" "\<forall>kv\<in>set (concat bl). entry_ok kv"
    "table_image crc bpk bl = (meta, file)"
  shows "is_u64 (length file) \<Longrightarrow> table_holds crc file (concat bl)"
    and "meta = \<lparr>tm_file_size = length file, tm_entry_count = length (concat bl),
      tm_min_key = first_key_of (concat bl), tm_max_key = last_key_of (concat bl)\<rparr>"
proof -
  let ?es = "concat bl"
  have g: "SsTable_get crc key (table_of crc bpk bl) = Inr (map_of ?es key)" for key
    by (rule get_table_of [OF assms(1-3)])
  have n: "\<not> SsTable_may_contain key (table_of crc bpk bl) \<longrightarrow> map_of ?es key = None" for key
    using g [of key] by (auto simp: SsTable_get_def)
  have it: "SsTable_iter crc (table_of crc bpk bl) = (?es, None)" by (rule iter_table_of [OF assms(3)])
  show "table_holds crc file ?es" if "is_u64 (length file)"
  proof -
    have "SsTable_open crc file = Inr (table_of crc bpk bl)"
      using open_table_image [OF assms(1,3), of bpk] that by (simp only: assms(4) snd_conv)
    then show ?thesis unfolding table_holds_def using g n it by blast
  qed
  show "meta = \<lparr>tm_file_size = length file, tm_entry_count = length ?es, tm_min_key = first_key_of ?es, tm_max_key = last_key_of ?es\<rparr>"
    using assms(4) by (auto simp: table_image_eq Let_def)
qed

lemma write_table_holds:
  assumes "bs \<le> 2 ^ 30" "ascending es" "\<forall>kv\<in>set es. entry_ok kv"
  shows "\<exists>meta file. write_table crc bs bpk es = Inr (meta, file) \<and> (is_u64 (length file) \<longrightarrow> table_holds crc file es)
    \<and> meta = \<lparr>tm_file_size = length file, tm_entry_count = length es, tm_min_key = first_key_of es, tm_max_key = last_key_of es\<rparr>"
proof -
  obtain bl where bl: "write_table crc bs bpk es = Inr (table_image crc bpk bl)" "concat bl = es" "blocks_ok crc bl"
    using write_table_image [OF assms] .
  obtain meta "file" where im: "table_image crc bpk bl = (meta, file)" by fastforce
  from table_image_holds [OF bl(3) _ _ im] assms(2,3) bl(1,2) im show ?thesis by auto
qed


lemma length_small_uvarint: "v < 128 \<Longrightarrow> length (put_uvarint v) = 1"
  by (simp add: put_uvarint_def AppendUvarint.simps)

lemma length_small_bytes: "length b < 128 \<Longrightarrow> length (put_bytes b) = length b + 1"
  by (simp add: put_bytes_def length_small_uvarint)

lemma one_entry_table:
  "\<exists>meta file. write_table crc 512 10 [(''k'', Entry_Delete)] = Inr (meta, file) \<and> is_u64 (length file)"
proof -
  let ?es = "[(''k'', Entry_Delete)]"
  have ok: "\<forall>kv\<in>set ?es. entry_ok kv" by (simp add: entry_ok_def encode_entry_def length_small_bytes)
  have bs: "(512 :: nat) \<le> 2 ^ 30" and asc: "ascending ?es" by simp_all
  obtain bl where bl: "write_table crc 512 10 ?es = Inr (table_image crc 10 bl)" "concat bl = ?es" "blocks_ok crc bl"
    by (rule write_table_image [OF bs asc ok])
  have "bl = [?es]" using bl(2,3) by (cases bl rule: list.exhaust; cases "hd bl" rule: list.exhaust; cases "tl bl") (auto simp: blocks_ok_def)
  then have "is_u64 (length (snd (table_image crc 10 bl)))"
    by (simp add: table_image_eq Let_def block_bytes_def encode_entry_def length_small_bytes bloom_block_def index_block_def
        put_handle_def length_small_uvarint first_key_of_def last_key_of_def bloom_of_def Bloom_from_hashes_def FOOTER_SIZE_def is_u64_def)
  with bl(1) show ?thesis by (metis prod.collapse)
qed

definition crc0 :: checksum where
  "crc0 b = 0"


end
