(* ===== verification/Lsm_Manifest.thy ===== *)
theory Lsm_Manifest
  imports Lsm_Table
begin

text \<open>
  The manifest of the storage engine, \<open>src/engine/src/manifest.rs\<close>: which tables exist and which level
  each is on. A \<open>Version\<close> is the list of its levels; \<open>validate\<close> is the check the code runs after loading a
  manifest and before installing a compaction. The lemmas give what a valid version promises the read
  path, and the round trip of the manifest file.
\<close>

section \<open>Versions\<close>

record FileMeta =
  fm_number :: nat
  fm_size :: nat
  fm_entries :: nat
  fm_min_key :: bytes
  fm_max_key :: bytes

definition FileMeta_from_table :: "nat \<Rightarrow> TableMeta \<Rightarrow> FileMeta" where
  "FileMeta_from_table number m =
     \<lparr>fm_number = number, fm_size = tm_file_size m, fm_entries = tm_entry_count m,
      fm_min_key = tm_min_key m, fm_max_key = tm_max_key m\<rparr>"

definition FileMeta_may_contain :: "bytes \<Rightarrow> FileMeta \<Rightarrow> bool" where
  "FileMeta_may_contain key f \<longleftrightarrow> fm_min_key f \<le> key \<and> key \<le> fm_max_key f"

definition FileMeta_overlaps :: "bytes \<Rightarrow> bytes \<Rightarrow> FileMeta \<Rightarrow> bool" where
  "FileMeta_overlaps lo hi f \<longleftrightarrow> fm_min_key f \<le> hi \<and> lo \<le> fm_max_key f"

type_synonym Version = "FileMeta list list"

definition MAX_LEVELS :: nat where
  "MAX_LEVELS = 7"

definition Version_new :: Version where
  "Version_new = replicate MAX_LEVELS []"

definition Version_level :: "Version \<Rightarrow> nat \<Rightarrow> FileMeta list" where
  "Version_level v level = (if level < length v then v ! level else [])"

definition Version_total_bytes :: "Version \<Rightarrow> nat" where
  "Version_total_bytes v = (\<Sum>f \<leftarrow> concat v. fm_size f)"

definition Version_level_bytes :: "Version \<Rightarrow> nat \<Rightarrow> nat" where
  "Version_level_bytes v level = (\<Sum>f \<leftarrow> Version_level v level. fm_size f)"

definition Version_total_entries :: "Version \<Rightarrow> nat" where
  "Version_total_entries v = (\<Sum>f \<leftarrow> concat v. fm_entries f)"

definition Version_file_numbers :: "Version \<Rightarrow> nat list" where
  "Version_file_numbers v = map fm_number (concat v)"

text \<open>\<open>sort_by\<close> is stable, as is \<open>sort_key\<close>.\<close>

definition sort_files :: "nat \<Rightarrow> FileMeta list \<Rightarrow> FileMeta list" where
  "sort_files level files =
     (if level = 0 then sort_key (\<lambda>f. - int (fm_number f)) files else sort_key fm_min_key files)"

definition Version_add_file :: "nat \<Rightarrow> FileMeta \<Rightarrow> Version \<Rightarrow> Version" where
  "Version_add_file level f v =
     (let v = v @ replicate (Suc level - length v) [] in v[level := sort_files level (v ! level @ [f])])"

definition Version_remove_files :: "nat \<Rightarrow> nat list \<Rightarrow> Version \<Rightarrow> Version" where
  "Version_remove_files level numbers v =
     (if level < length v then v[level := filter (\<lambda>f. fm_number f \<notin> set numbers) (v ! level)] else v)"

definition Version_find_in_level :: "Version \<Rightarrow> nat \<Rightarrow> bytes \<Rightarrow> FileMeta option" where
  "Version_find_in_level v level key =
     (let files = Version_level v level; idx = partition_point (\<lambda>f. fm_max_key f < key) files in
      if idx < length files \<and> FileMeta_may_contain key (files ! idx) then Some (files ! idx) else None)"

definition Version_overlapping :: "Version \<Rightarrow> nat \<Rightarrow> bytes \<Rightarrow> bytes \<Rightarrow> FileMeta list" where
  "Version_overlapping v level lo hi = filter (FileMeta_overlaps lo hi) (Version_level v level)"

fun no_overlap :: "FileMeta list \<Rightarrow> bool" where
  "no_overlap (f # g # fs) \<longleftrightarrow> \<not> fm_max_key f \<ge> fm_min_key g \<and> no_overlap (g # fs)"
| "no_overlap fs \<longleftrightarrow> True"

fun validate_levels :: "nat \<Rightarrow> Version \<Rightarrow> unit rust" where
  "validate_levels level [] = Inr ()"
| "validate_levels level (files # v) =
     (if \<exists>f\<in>set files. fm_min_key f > fm_max_key f then Inl Corrupt
      else if level \<noteq> 0 \<and> \<not> no_overlap files then Inl Corrupt
      else validate_levels (Suc level) v)"

definition Version_validate :: "Version \<Rightarrow> unit rust" where
  "Version_validate v = validate_levels 0 v"

section \<open>The manifest file\<close>

record Manifest =
  mf_next_file_number :: nat
  mf_log_number :: nat
  mf_last_sequence :: nat
  mf_version :: Version

definition Manifest_default :: Manifest where
  "Manifest_default = \<lparr>mf_next_file_number = 1, mf_log_number = 0, mf_last_sequence = 0, mf_version = Version_new\<rparr>"

definition allocate_file_number :: "Manifest \<Rightarrow> nat \<times> Manifest" where
  "allocate_file_number m = (mf_next_file_number m, m\<lparr>mf_next_file_number := mf_next_file_number m + 1\<rparr>)"

definition MANIFEST_MAGIC :: bytes where
  "MANIFEST_MAGIC = ''RFSMAN'' @ [mkbyte 1, mkbyte 0]"

definition MANIFEST_VERSION :: nat where
  "MANIFEST_VERSION = 1"

definition put_file_meta :: "FileMeta \<Rightarrow> bytes" where
  "put_file_meta f =
     put_uvarint (fm_number f) @ put_uvarint (fm_size f) @ put_uvarint (fm_entries f)
     @ put_bytes (fm_min_key f) @ put_bytes (fm_max_key f)"

definition put_level :: "FileMeta list \<Rightarrow> bytes" where
  "put_level files = put_uvarint (length files) @ concat (map put_file_meta files)"

definition Manifest_bytes :: "checksum \<Rightarrow> Manifest \<Rightarrow> bytes" where
  "Manifest_bytes crc m =
     put_sum crc (MANIFEST_MAGIC @ PutUint32 MANIFEST_VERSION @ put_uvarint (mf_next_file_number m)
       @ put_uvarint (mf_log_number m) @ put_uvarint (mf_last_sequence m)
       @ put_uvarint (length (mf_version m)) @ concat (map put_level (mf_version m)))"

fun read_files :: "nat \<Rightarrow> FileMeta list cursor" where
  "read_files 0 = cret []"
| "read_files (Suc n) =
     cbind cur_uvarint (\<lambda>number. cbind cur_uvarint (\<lambda>fsize. cbind cur_uvarint (\<lambda>entries.
     cbind cur_bytes (\<lambda>min_key. cbind cur_bytes (\<lambda>max_key. cbind (read_files n) (\<lambda>fs.
       cret (\<lparr>fm_number = number, fm_size = fsize, fm_entries = entries, fm_min_key = min_key, fm_max_key = max_key\<rparr> # fs)))))))"

fun read_levels :: "nat \<Rightarrow> nat \<Rightarrow> nat \<Rightarrow> Version cursor" where
  "read_levels payload_len level 0 = cret []"
| "read_levels payload_len level (Suc n) =
     cbind cur_uvarint (\<lambda>k.
       if k > payload_len then cfail Corrupt
       else cbind (read_files k) (\<lambda>fs. cbind (read_levels payload_len (Suc level) n) (\<lambda>v. cret (sort_files level fs # v))))"

definition Manifest_load :: "checksum \<Rightarrow> bytes option \<Rightarrow> Manifest rust" where
  "Manifest_load crc file =
     (case file of
        None \<Rightarrow> Inr Manifest_default
      | Some data \<Rightarrow>
          if length data < 12 then Inl Corrupt
          else if take 8 data \<noteq> MANIFEST_MAGIC then Inl Corrupt
          else
            rbind (verify_trailing_checksum crc data) (\<lambda>payload.
            rbind (cbind cur_u32 (\<lambda>version.
              if version \<noteq> MANIFEST_VERSION then cfail Corrupt
              else cbind cur_uvarint (\<lambda>next_file_number. cbind cur_uvarint (\<lambda>log_number.
                cbind cur_uvarint (\<lambda>last_sequence. cbind cur_uvarint (\<lambda>level_count.
                  if level_count > 64 then cfail Corrupt
                  else cbind (read_levels (length payload) 0 level_count) (\<lambda>levels.
                    cret \<lparr>mf_next_file_number = next_file_number, mf_log_number = log_number,
                          mf_last_sequence = last_sequence,
                          mf_version = levels @ replicate (MAX_LEVELS - level_count) []\<rparr>)))))) (drop 8 payload)) (\<lambda>(m, c).
              if c \<noteq> [] then Inl Corrupt
              else rbind (Version_validate (mf_version m)) (\<lambda>_. Inr m))))"

text \<open>
  \<open>store\<close> writes a temporary file, syncs it, renames it and syncs the directory. The result is what
  the call returns and what the directory holds under the manifest's name.
\<close>

datatype store_io = Store_ok | Store_fails_before_rename | Store_fails_after_rename

definition Manifest_store :: "checksum \<Rightarrow> store_io \<Rightarrow> Manifest \<Rightarrow> bytes option \<Rightarrow> unit rust \<times> bytes option" where
  "Manifest_store crc io m final =
     (case io of
        Store_fails_before_rename \<Rightarrow> (Inl Io, final)
      | Store_fails_after_rename \<Rightarrow> (Inl Io, Some (Manifest_bytes crc m))
      | Store_ok \<Rightarrow> (Inr (), Some (Manifest_bytes crc m)))"

section \<open>What a valid version promises\<close>

definition files_ok :: "nat \<Rightarrow> FileMeta list \<Rightarrow> bool" where
  "files_ok level files \<longleftrightarrow>
     (\<forall>f\<in>set files. fm_min_key f \<le> fm_max_key f)
     \<and> (if level = 0 then sorted_wrt (\<lambda>f g. fm_number f > fm_number g) files
        else sorted_wrt (\<lambda>f g. fm_max_key f < fm_min_key g) files)"

definition version_ok :: "Version \<Rightarrow> bool" where
  "version_ok v \<longleftrightarrow> MAX_LEVELS \<le> length v \<and> (\<forall>level < length v. files_ok level (v ! level)) \<and> distinct (map fm_number (concat v))"

lemma files_ok_level: "version_ok v \<Longrightarrow> files_ok level (Version_level v level)"
  by (auto simp: version_ok_def Version_level_def files_ok_def)

lemma no_overlap_sorted:
  assumes "\<forall>f\<in>set files. fm_min_key f \<le> fm_max_key f"
  shows "no_overlap files \<longleftrightarrow> sorted_wrt (\<lambda>f g. fm_max_key f < fm_min_key g) files"
  using assms
proof (induction files rule: no_overlap.induct)
  case (1 f g fs)
  then show ?case by (auto simp: not_le dest: order.strict_trans order.strict_trans1 less_le_trans)
qed auto

lemma validate_levels_ok:
  "(\<forall>i < length v. files_ok (level + i) (v ! i)) \<Longrightarrow> validate_levels level v = Inr ()"
proof (induction v arbitrary: level)
  case (Cons files v)
  have "files_ok level files" using Cons.prems [rule_format, of 0] by simp
  moreover have "\<forall>i < length v. files_ok (Suc level + i) (v ! i)" using Cons.prems by auto
  ultimately show ?case using Cons.IH [of "Suc level"] no_overlap_sorted [of files]
    by (auto simp: files_ok_def not_less split: if_splits)
qed simp

lemma version_ok_validate: "version_ok v \<Longrightarrow> Version_validate v = Inr ()"
  unfolding Version_validate_def by (rule validate_levels_ok) (simp add: version_ok_def)

lemma sort_key_sorted: "sorted (map f xs) \<Longrightarrow> sort_key f xs = xs"
  by (induction xs) (auto simp: insort_key_left_comm insort_is_Cons)

lemma sort_files_ok:
  assumes "files_ok level files"
  shows "sort_files level files = files"
proof (cases "level = 0")
  case True
  with assms have "sorted_wrt (\<lambda>f g. fm_number f > fm_number g) files" by (simp add: files_ok_def)
  then have "sorted_wrt (\<lambda>f g. - int (fm_number f) \<le> - int (fm_number g)) files" by (rule sorted_wrt_mono_rel [rotated]) simp
  then have "sorted (map (\<lambda>f. - int (fm_number f)) files)" by (simp add: sorted_map)
  with True show ?thesis by (simp add: sort_files_def sort_key_sorted)
next
  case False
  with assms have ok: "\<forall>f\<in>set files. fm_min_key f \<le> fm_max_key f" "sorted_wrt (\<lambda>f g. fm_max_key f < fm_min_key g) files"
    by (simp_all add: files_ok_def)
  have "sorted_wrt (\<lambda>f g. fm_min_key f \<le> fm_min_key g) files"
    by (rule sorted_wrt_mono_rel [OF _ ok(2)]) (use ok(1) in \<open>meson less_imp_le order_trans\<close>)
  with False show ?thesis by (simp add: sort_files_def sort_key_sorted sorted_map)
qed

lemma find_in_level_iff:
  assumes "files_ok level files" "level \<noteq> 0" "files = Version_level v level"
  shows "Version_find_in_level v level key = Some f \<longleftrightarrow> f \<in> set files \<and> FileMeta_may_contain key f"
proof -
  let ?P = "\<lambda>f. fm_max_key f < key"
  define i where "i = length (takeWhile ?P files)"
  have e: "Version_find_in_level v level key = (if i < length files \<and> FileMeta_may_contain key (files ! i) then Some (files ! i) else None)"
    by (simp add: Version_find_in_level_def Let_def partition_point_def i_def assms(3))
  have uniq: "j = i" if j: "j < length files" "FileMeta_may_contain key (files ! j)" for j
  proof -
    have "\<not> j < i" using takeWhile_nth [of j ?P files] set_takeWhileD [of "files ! j" ?P files] j
      unfolding i_def FileMeta_may_contain_def by (metis leD nth_mem)
    moreover have "\<not> i < j"
    proof
      assume ij: "i < j"
      have "\<not> fm_max_key (files ! i) < key" using nth_length_takeWhile [of ?P files] ij j(1) by (simp add: i_def)
      moreover have "fm_max_key (files ! i) < fm_min_key (files ! j)"
        using assms(1,2) ij j(1) by (simp add: files_ok_def sorted_wrt_iff_nth_less)
      ultimately show False using j(2) by (auto simp: FileMeta_may_contain_def)
    qed
    ultimately show ?thesis by simp
  qed
  show ?thesis unfolding e using uniq by (auto simp: in_set_conv_nth)
qed

section \<open>The round trip of the manifest\<close>

definition meta_fits :: "FileMeta \<Rightarrow> bool" where
  "meta_fits f \<longleftrightarrow> is_u64 (fm_number f) \<and> is_u64 (fm_size f) \<and> is_u64 (fm_entries f)
     \<and> is_u64 (length (fm_min_key f)) \<and> is_u64 (length (fm_max_key f))"

definition manifest_ok :: "Manifest \<Rightarrow> bool" where
  "manifest_ok m \<longleftrightarrow>
     is_u64 (mf_next_file_number m) \<and> is_u64 (mf_log_number m) \<and> is_u64 (mf_last_sequence m)
     \<and> version_ok (mf_version m) \<and> length (mf_version m) \<le> 64
     \<and> (\<forall>files\<in>set (mf_version m). is_u64 (length files) \<and> (\<forall>f\<in>set files. meta_fits f))"

lemma read_files_put:
  "\<forall>f\<in>set files. meta_fits f \<Longrightarrow> read_files (length files) (concat (map put_file_meta files) @ rest) = Inr (files, rest)"
proof (induction files)
  case (Cons f files)
  then show ?case by (simp add: put_file_meta_def meta_fits_def cbind_def cret_def cursor_simps)
qed (simp add: cret_def)

lemma length_put_level: "length files \<le> length (put_level files)"
proof -
  have "length files \<le> length (concat (map put_file_meta files))"
  proof (induction files)
    case (Cons f files)
    have "0 < length (put_file_meta f)" by (simp add: put_file_meta_def)
    with Cons show ?case by (simp del: length_greater_0_conv)
  qed simp
  then show ?thesis by (simp add: put_level_def)
qed

lemma read_levels_put:
  assumes "\<forall>i < length v. files_ok (level + i) (v ! i)"
    "\<forall>files\<in>set v. is_u64 (length files) \<and> (\<forall>f\<in>set files. meta_fits f) \<and> length files \<le> n"
  shows "read_levels n level (length v) (concat (map put_level v) @ rest) = Inr (v, rest)"
  using assms
proof (induction v arbitrary: level)
  case (Cons files v)
  have ok: "files_ok level files" using Cons.prems(1) [rule_format, of 0] by simp
  have "\<forall>i < length v. files_ok (Suc level + i) (v ! i)" using Cons.prems(1) by auto
  then have "read_levels n (Suc level) (length v) (concat (map put_level v) @ rest) = Inr (v, rest)"
    using Cons by simp
  with Cons.prems(2) show ?case
    by (simp add: put_level_def [of files] cbind_def cret_def cursor_simps read_files_put sort_files_ok [OF ok])
qed (simp add: cret_def)

theorem manifest_round_trip:
  assumes "manifest_ok m"
  shows "Manifest_load crc (Some (Manifest_bytes crc m)) = Inr m"
proof -
  define rest where "rest = PutUint32 MANIFEST_VERSION @ put_uvarint (mf_next_file_number m)
       @ put_uvarint (mf_log_number m) @ put_uvarint (mf_last_sequence m)
       @ put_uvarint (length (mf_version m)) @ concat (map put_level (mf_version m))"
  have b: "Manifest_bytes crc m = put_sum crc (MANIFEST_MAGIC @ rest)" by (simp add: Manifest_bytes_def rest_def)
  have m8: "length MANIFEST_MAGIC = 8" by (simp add: MANIFEST_MAGIC_def)
  have short: "length files \<le> length (MANIFEST_MAGIC @ rest)" if "files \<in> set (mf_version m)" for files
  proof -
    have "length files \<le> length (put_level files)" by (rule length_put_level)
    also have "\<dots> \<le> length (concat (map put_level (mf_version m)))"
      using that by (auto simp: length_concat comp_def intro: member_le_sum_list)
    finally show ?thesis by (simp add: rest_def)
  qed
  have lv: "read_levels (length (MANIFEST_MAGIC @ rest)) 0 (length (mf_version m)) (concat (map put_level (mf_version m))) = Inr (mf_version m, [])"
    using read_levels_put [of "mf_version m" 0 "length (MANIFEST_MAGIC @ rest)" "[]"] assms short
    by (simp add: manifest_ok_def version_ok_def del: length_append)
  have n64: "is_u64 (length (mf_version m))" using assms by (simp add: manifest_ok_def is_u64_def)
  have t8: "take 8 (put_sum crc (MANIFEST_MAGIC @ rest)) = MANIFEST_MAGIC" "drop 8 (MANIFEST_MAGIC @ rest) = rest"
    using m8 by (simp_all add: put_sum_def)
  have ok: "version_ok (mf_version m)" "MAX_LEVELS \<le> length (mf_version m)" using assms by (auto simp: manifest_ok_def version_ok_def)
  have rd: "cbind cur_u32 (\<lambda>version.
              if version \<noteq> MANIFEST_VERSION then cfail Corrupt
              else cbind cur_uvarint (\<lambda>next_file_number. cbind cur_uvarint (\<lambda>log_number.
                cbind cur_uvarint (\<lambda>last_sequence. cbind cur_uvarint (\<lambda>level_count.
                  if level_count > 64 then cfail Corrupt
                  else cbind (read_levels (length (MANIFEST_MAGIC @ rest)) 0 level_count) (\<lambda>levels.
                    cret \<lparr>mf_next_file_number = next_file_number, mf_log_number = log_number,
                          mf_last_sequence = last_sequence,
                          mf_version = levels @ replicate (MAX_LEVELS - level_count) []\<rparr>)))))) rest = Inr (m, [])"
    using assms ok(2) n64 lv
    by (subst (2) rest_def) (simp add: manifest_ok_def cbind_def cret_def cursor_simps MANIFEST_VERSION_def del: length_append)
  have len: "\<not> length (put_sum crc (MANIFEST_MAGIC @ rest)) < 12" by (simp add: m8)
  show ?thesis
    unfolding b Manifest_load_def option.case verify_put_sum rbind.simps t8 rd
    using len version_ok_validate [OF ok(1)] by simp
qed

end
