(* ===== verification/Lsm_Wal.thy ===== *)
theory Lsm_Wal
  imports Lsm_Table
begin

text \<open>
  The write-ahead log of the storage engine, \<open>src/engine/src/wal.rs\<close>. A \<open>Wal\<close> is its append buffer, the
  bytes the kernel has of its file and how many of them are on stable storage. \<open>replay\<close> works on the
  bytes of a file and returns the batches it applies, whether it cut a torn tail and the file it leaves.
\<close>

datatype SyncPolicy_rs = Always | EverySecond | Never

definition SyncPolicy_parse :: "bytes \<Rightarrow> SyncPolicy_rs rust" where
  "SyncPolicy_parse s =
     (if s = ''always'' then Inr Always
      else if s = ''everysec'' \<or> s = [] then Inr EverySecond
      else if s = ''no'' \<or> s = ''never'' then Inr Never
      else Inl InvalidArgument)"

fun SyncPolicy_as_str :: "SyncPolicy_rs \<Rightarrow> bytes" where
  "SyncPolicy_as_str Always = ''always''"
| "SyncPolicy_as_str EverySecond = ''everysec''"
| "SyncPolicy_as_str Never = ''no''"

definition LOG_MAGIC :: bytes where
  "LOG_MAGIC = ''RFSWAL'' @ [mkbyte 2, mkbyte 0]"

definition REC_HEADER :: nat where
  "REC_HEADER = 16"

definition MAX_RECORD :: nat where
  "MAX_RECORD = 2 ^ 30"

definition MAX_BUFFERED :: nat where
  "MAX_BUFFERED = 2 ^ 20"

record Wal =
  wl_number :: nat
  wl_policy :: SyncPolicy_rs
  wl_bytes :: bytes
  wl_next_seq :: nat
  wl_file :: bytes
  wl_stable :: nat
  wl_written :: nat
  wl_synced :: nat

text \<open>What the system calls of one call do: how many bytes a failing write still wrote, whether \<open>fsync\<close> works.\<close>

record wal_io =
  wo_write :: "nat option"
  wo_fsync :: bool

definition wal_calm :: wal_io where
  "wal_calm = \<lparr>wo_write = None, wo_fsync = True\<rparr>"

definition log_header :: "checksum \<Rightarrow> nat \<Rightarrow> nat \<Rightarrow> bytes" where
  "log_header crc number start_seq = put_sum crc (LOG_MAGIC @ PutUint64 number @ PutUint64 start_seq)"

definition Wal_create :: "checksum \<Rightarrow> nat \<Rightarrow> nat \<Rightarrow> SyncPolicy_rs \<Rightarrow> Wal" where
  "Wal_create crc number start_seq policy =
     (let header = log_header crc number start_seq in
      \<lparr>wl_number = number, wl_policy = policy, wl_bytes = [], wl_next_seq = start_seq + 1, wl_file = header,
       wl_stable = length header, wl_written = start_seq, wl_synced = start_seq\<rparr>)"

definition last_sequence :: "Wal \<Rightarrow> nat" where
  "last_sequence w = wl_next_seq w - 1"

section \<open>Appending\<close>

definition Wal_drain :: "wal_io \<Rightarrow> Wal \<Rightarrow> unit rust \<times> Wal" where
  "Wal_drain io w =
     (if wl_bytes w = [] then (Inr (), w)
      else
        let pending = wl_bytes w; upto = wl_next_seq w - 1 in
        case wo_write io of
          Some n \<Rightarrow> (Inl Io, w\<lparr>wl_bytes := [], wl_file := wl_file w @ take n pending\<rparr>)
        | None \<Rightarrow> (Inr (), w\<lparr>wl_bytes := [], wl_file := wl_file w @ pending, wl_written := upto\<rparr>))"

definition Wal_flush :: "wal_io \<Rightarrow> Wal \<Rightarrow> unit rust \<times> Wal" where
  "Wal_flush io w = (if last_sequence w \<le> wl_written w then (Inr (), w) else Wal_drain io w)"

definition Wal_sync_locked :: "wal_io \<Rightarrow> Wal \<Rightarrow> unit rust \<times> Wal" where
  "Wal_sync_locked io w =
     (case Wal_drain io w of
        (Inl e, w) \<Rightarrow> (Inl e, w)
      | (Inr _, w) \<Rightarrow>
          let upto = wl_written w in
          if wl_synced w \<ge> upto then (Inr (), w)
          else if \<not> wo_fsync io then (Inl Io, w)
          else (Inr (), w\<lparr>wl_stable := length (wl_file w), wl_synced := upto\<rparr>))"

definition Wal_sync_to :: "wal_io \<Rightarrow> nat \<Rightarrow> Wal \<Rightarrow> unit rust \<times> Wal" where
  "Wal_sync_to io seq w = (if wl_synced w \<ge> seq then (Inr (), w) else Wal_sync_locked io w)"

definition Wal_sync_all :: "wal_io \<Rightarrow> Wal \<Rightarrow> unit rust \<times> Wal" where
  "Wal_sync_all io w = Wal_sync_locked io w"

definition Wal_commit :: "wal_io \<Rightarrow> nat \<Rightarrow> Wal \<Rightarrow> unit rust \<times> Wal" where
  "Wal_commit io seq w =
     (case wl_policy w of
        Always \<Rightarrow> Wal_sync_to io seq w
      | EverySecond \<Rightarrow> Wal_flush io w
      | Never \<Rightarrow> (Inr (), w))"

definition encode_batch_rs :: "mutation list \<Rightarrow> bytes" where
  "encode_batch_rs muts = put_uvarint (length muts) @ enc_entries muts"

definition log_record :: "checksum \<Rightarrow> nat \<Rightarrow> mutation list \<Rightarrow> bytes" where
  "log_record crc seq muts =
     (let payload = encode_batch_rs muts; body = PutUint32 (length payload) @ PutUint64 seq @ payload in
      PutUint32 (unat (crc body)) @ body)"

definition Wal_append :: "checksum \<Rightarrow> wal_io \<Rightarrow> mutation list \<Rightarrow> Wal \<Rightarrow> nat rust \<times> Wal" where
  "Wal_append crc io muts w =
     (if length (encode_batch_rs muts) > MAX_RECORD then (Inl InvalidArgument, w)
      else
        let seq = wl_next_seq w;
            w = w\<lparr>wl_next_seq := seq + 1, wl_bytes := wl_bytes w @ log_record crc seq muts\<rparr> in
        if length (wl_bytes w) \<ge> MAX_BUFFERED then
          (case Wal_flush io w of (Inl e, w) \<Rightarrow> (Inl e, w) | (Inr _, w) \<Rightarrow> (Inr seq, w))
        else (Inr seq, w))"

section \<open>Replay\<close>

fun decode_muts :: "nat \<Rightarrow> mutation list cursor" where
  "decode_muts 0 = cret []"
| "decode_muts (Suc n) = cbind (decode_entry Corrupt) (\<lambda>m. cbind (decode_muts n) (\<lambda>ms. cret (m # ms)))"

definition decode_batch :: "bytes \<Rightarrow> mutation list rust" where
  "decode_batch body =
     rbind (cbind cur_uvarint (\<lambda>n. if n > length body + 1 then cfail Corrupt else decode_muts n) body)
       (\<lambda>(muts, c). if c \<noteq> [] then Inl Corrupt else Inr muts)"

text \<open>
  The loop, on the bytes from \<open>pos\<close> on. It returns the batches, and the number of bytes of a torn tail
  it cuts off.
\<close>

function wal_replay_loop :: "checksum \<Rightarrow> nat \<Rightarrow> bytes \<Rightarrow> ((nat \<times> mutation list) list \<times> nat) rust" where
  "wal_replay_loop crc expect_seq data =
     (if data = [] then Inr ([], 0)
      else if length data < REC_HEADER then Inr ([], length data)
      else
        let want_sum = le_val (take 4 data); n = le_val (take 4 (drop 4 data)); seq = le_val (take 8 (drop 8 data)) in
        if n > MAX_RECORD \<or> length data - REC_HEADER < n then Inr ([], length data)
        else if unat (crc (take (12 + n) (drop 4 data))) \<noteq> want_sum then Inr ([], length data)
        else if seq \<noteq> expect_seq then Inl Corrupt
        else
          rbind (decode_batch (take n (drop REC_HEADER data))) (\<lambda>muts.
          rbind (wal_replay_loop crc (seq + 1) (drop (REC_HEADER + n) data)) (\<lambda>(bs, torn).
            Inr ((seq, muts) # bs, torn))))"
  by pat_completeness auto
termination
  by (relation "measure (\<lambda>(_, _, data). length data)") (auto simp: REC_HEADER_def)

declare wal_replay_loop.simps [simp del]

record Replayed =
  rp_batches :: "(nat \<times> mutation list) list"
  rp_last_sequence :: nat
  rp_truncated :: bool
  rp_file :: "bytes option"

definition LOG_HEADER :: nat where
  "LOG_HEADER = 28"

definition replay :: "checksum \<Rightarrow> bytes option \<Rightarrow> Replayed rust" where
  "replay crc file =
     (case file of
        None \<Rightarrow> Inr \<lparr>rp_batches = [], rp_last_sequence = 0, rp_truncated = False, rp_file = None\<rparr>
      | Some data \<Rightarrow>
          if length data < LOG_HEADER then Inl Corrupt
          else if take 8 data \<noteq> LOG_MAGIC then Inl Corrupt
          else if unat (crc (take (LOG_HEADER - 4) data)) \<noteq> le_val (take 4 (drop (LOG_HEADER - 4) data)) then Inl Corrupt
          else
            let start_seq = le_val (take 8 (drop 16 data)) in
            rbind (wal_replay_loop crc (start_seq + 1) (drop LOG_HEADER data)) (\<lambda>(bs, torn).
              Inr \<lparr>rp_batches = bs, rp_last_sequence = (if bs = [] then start_seq else fst (last bs)),
                   rp_truncated = (torn > 0), rp_file = Some (take (length data - torn) data)\<rparr>))"

section \<open>The round trip of the log\<close>

definition batch_ok :: "mutation list \<Rightarrow> bool" where
  "batch_ok muts \<longleftrightarrow> length (encode_batch_rs muts) \<le> MAX_RECORD
     \<and> (\<forall>kv\<in>set muts. case snd kv of Entry_Put r \<Rightarrow> is_i64 (ExpireAt r) | Entry_Delete \<Rightarrow> True)"

lemma enc_member_length: "kv \<in> set es \<Longrightarrow> length (encode_entry (fst kv) (snd kv)) \<le> length (enc_entries es)"
  by (induction es) auto

lemma batch_ok_entries: "batch_ok muts \<Longrightarrow> kv \<in> set muts \<Longrightarrow> entry_ok kv"
  using enc_member_length [of kv muts] by (auto simp: batch_ok_def encode_batch_rs_def entry_ok_def MAX_RECORD_def)

lemma decode_muts_enc: "\<forall>kv\<in>set muts. entry_ok kv \<Longrightarrow> decode_muts (length muts) (enc_entries muts @ rest) = Inr (muts, rest)"
  by (induction muts) (auto simp: cret_def cbind_def cursor_simps)

lemma decode_batch_payload:
  assumes "batch_ok muts"
  shows "decode_batch (encode_batch_rs muts) = Inr muts"
proof -
  have n: "length muts \<le> length (encode_batch_rs muts)" using length_le_enc [of muts] by (simp add: encode_batch_rs_def)
  then have "is_u64 (length muts)" using assms by (simp add: batch_ok_def is_u64_def MAX_RECORD_def)
  moreover have "decode_muts (length muts) (enc_entries muts) = Inr (muts, [])"
    using decode_muts_enc [of muts "[]"] assms by (auto intro: batch_ok_entries)
  moreover have "\<not> length muts > length (encode_batch_rs muts) + 1" using n by simp
  ultimately show ?thesis
    by (simp add: decode_batch_def cbind_def encode_batch_rs_def cursor_simps)
qed

lemma log_record_parts:
  fixes crc seq muts
  defines "r \<equiv> log_record crc seq muts" and "p \<equiv> encode_batch_rs muts"
  assumes "batch_ok muts" "is_u64 seq"
  shows "length r = REC_HEADER + length p" "le_val (take 4 (drop 4 (r @ rest))) = length p"
    "le_val (take 8 (drop 8 (r @ rest))) = seq"
    "unat (crc (take (12 + length p) (drop 4 (r @ rest)))) = le_val (take 4 (r @ rest))"
    "take (length p) (drop REC_HEADER (r @ rest)) = p" "drop (REC_HEADER + length p) (r @ rest) = rest"
proof -
  let ?body = "PutUint32 (length p) @ PutUint64 seq @ p"
  have r: "r = PutUint32 (unat (crc ?body)) @ ?body" by (simp add: r_def p_def log_record_def Let_def)
  have small: "length p < 4294967296" using assms(3) by (simp add: p_def batch_ok_def MAX_RECORD_def)
  show "length r = REC_HEADER + length p" by (simp add: r REC_HEADER_def)
  show "le_val (take 4 (drop 4 (r @ rest))) = length p" using small by (simp add: r le_val_PutUint32)
  show "le_val (take 8 (drop 8 (r @ rest))) = seq" using assms(4) by (simp add: r le_val_PutUint64)
  have "take (12 + length p) (drop 4 (r @ rest)) = ?body" by (simp add: r)
  moreover have "take 4 (r @ rest) = PutUint32 (unat (crc ?body))" by (simp add: r)
  ultimately show "unat (crc (take (12 + length p) (drop 4 (r @ rest)))) = le_val (take 4 (r @ rest))"
    using unat_crc_less by (simp add: le_val_PutUint32)
  show "take (length p) (drop REC_HEADER (r @ rest)) = p" by (simp add: r REC_HEADER_def)
  show "drop (REC_HEADER + length p) (r @ rest) = rest" by (simp add: r REC_HEADER_def)
qed

fun log_records :: "checksum \<Rightarrow> nat \<Rightarrow> mutation list list \<Rightarrow> bytes" where
  "log_records crc seq [] = []"
| "log_records crc seq (b # bs) = log_record crc seq b @ log_records crc (seq + 1) bs"

fun numbered :: "nat \<Rightarrow> 'a list \<Rightarrow> (nat \<times> 'a) list" where
  "numbered n [] = []"
| "numbered n (x # xs) = (n, x) # numbered (n + 1) xs"

lemma wal_replay_loop_torn:
  assumes "batch_ok b" "is_u64 seq" "n < length (log_record crc seq b)"
  shows "wal_replay_loop crc s (take n (log_record crc seq b)) = Inr ([], n)"
proof -
  let ?d = "take n (log_record crc seq b)"
  have l: "length ?d = n" using assms(3) by simp
  note parts = log_record_parts [OF assms(1,2), of crc]
  consider "n = 0" | "0 < n" "n < REC_HEADER" | "REC_HEADER \<le> n" by linarith
  then show ?thesis
  proof cases
    case 3
    have "take 4 (drop 4 ?d) = take 4 (drop 4 (log_record crc seq b @ []))"
      using 3 assms(3) by (simp add: REC_HEADER_def drop_take min_def)
    then have len: "le_val (take 4 (drop 4 ?d)) = length (encode_batch_rs b)" using parts(2) [of "[]"] by simp
    have "length ?d - REC_HEADER < length (encode_batch_rs b)" using assms(3) parts(1) 3 unfolding l by linarith
    then show ?thesis using 3 l len by (subst wal_replay_loop.simps) (auto simp: Let_def REC_HEADER_def)
  next
    case 2
    with l have "?d \<noteq> []" "length ?d < REC_HEADER" by auto
    then show ?thesis using l by (subst wal_replay_loop.simps) simp
  next
    case 1
    then show ?thesis by (subst wal_replay_loop.simps) simp
  qed
qed

lemma replay_loop_records:
  assumes "\<forall>b\<in>set bs. batch_ok b" "is_u64 (seq + length bs)"
    "wal_replay_loop crc (seq + length bs) rest = Inr ([], length rest)"
  shows "wal_replay_loop crc seq (log_records crc seq bs @ rest) = Inr (numbered seq bs, length rest)"
  using assms
proof (induction bs arbitrary: seq)
  case (Cons b bs)
  let ?r = "log_record crc seq b" and ?rest = "log_records crc (seq + 1) bs @ rest"
  have ok: "batch_ok b" "is_u64 seq" using Cons.prems(1,2) by (auto simp: is_u64_def)
  note parts = log_record_parts(2-) [OF ok, of crc, where rest = ?rest]
  have IH: "wal_replay_loop crc (seq + 1) ?rest = Inr (numbered (seq + 1) bs, length rest)"
    using Cons.IH [of "seq + 1"] Cons.prems by simp
  have mx: "\<not> (length (encode_batch_rs b) > MAX_RECORD \<or> length (?r @ ?rest) - REC_HEADER < length (encode_batch_rs b))"
    using ok(1) log_record_parts(1) [OF ok, of crc] by (simp add: batch_ok_def)
  have ln: "?r @ ?rest \<noteq> []" "\<not> length (?r @ ?rest) < REC_HEADER"
    using log_record_parts(1) [OF ok, of crc] by (auto simp: REC_HEADER_def)
  have "wal_replay_loop crc seq (?r @ ?rest) = Inr ((seq, b) # numbered (seq + 1) bs, length rest)"
    unfolding wal_replay_loop.simps [of crc seq "?r @ ?rest"] Let_def parts IH decode_batch_payload [OF ok(1)]
    by (simp only: ln mx if_False rbind.simps prod.case refl simp_thms)
  then show ?case by simp
qed simp

definition log_image :: "checksum \<Rightarrow> nat \<Rightarrow> nat \<Rightarrow> mutation list list \<Rightarrow> bytes" where
  "log_image crc number start_seq bs = log_header crc number start_seq @ log_records crc (start_seq + 1) bs"

text \<open>
  Replaying a log whose last record was cut off at any byte applies exactly the complete batches, in
  order, and leaves the file without the torn record.
\<close>

lemma replay_log_image:
  assumes "\<forall>b\<in>set bs. batch_ok b" "is_u64 (start_seq + length bs + 1)" "is_u64 number"
    "wal_replay_loop crc (start_seq + 1 + length bs) torn = Inr ([], length torn)"
  shows "replay crc (Some (log_image crc number start_seq bs @ torn)) =
    Inr \<lparr>rp_batches = numbered (start_seq + 1) bs, rp_last_sequence = start_seq + length bs,
         rp_truncated = (torn \<noteq> []), rp_file = Some (log_image crc number start_seq bs)\<rparr>"
proof -
  let ?h = "log_header crc number start_seq"
  let ?p = "LOG_MAGIC @ PutUint64 number @ PutUint64 start_seq"
  let ?d = "log_image crc number start_seq bs @ torn"
  have m8: "length LOG_MAGIC = 8" by (simp add: LOG_MAGIC_def)
  have h: "?h = ?p @ PutUint32 (unat (crc ?p))" by (simp add: log_header_def put_sum_def)
  have lh: "length ?h = LOG_HEADER" by (simp add: h m8 LOG_HEADER_def)
  have d: "?d = ?h @ log_records crc (start_seq + 1) bs @ torn" by (simp add: log_image_def)
  have s64: "is_u64 start_seq" using assms(2) by (simp add: is_u64_def)
  have t8: "take 8 ?d = LOG_MAGIC" using m8 by (simp add: d h)
  have sum: "take (LOG_HEADER - 4) ?d = ?p" "take 4 (drop (LOG_HEADER - 4) ?d) = PutUint32 (unat (crc ?p))"
    using m8 by (simp_all add: d h LOG_HEADER_def)
  have st: "le_val (take 8 (drop 16 ?d)) = start_seq" using m8 s64 by (simp add: d h le_val_PutUint64)
  have dr: "drop LOG_HEADER ?d = log_records crc (start_seq + 1) bs @ torn" using lh by (simp add: d)
  have lp: "wal_replay_loop crc (start_seq + 1) (log_records crc (start_seq + 1) bs @ torn) = Inr (numbered (start_seq + 1) bs, length torn)"
    by (rule replay_loop_records) (use assms in \<open>simp_all add: add.commute add.left_commute\<close>)
  have nb: "fst (last (numbered n xs)) = n + length xs - 1" if "xs \<noteq> []" for n and xs :: "mutation list list"
    using that
  proof (induction xs arbitrary: n)
    case (Cons x xs)
    then show ?case by (cases xs) auto
  qed simp
  have ne: "numbered n xs = [] \<longleftrightarrow> xs = []" for n and xs :: "mutation list list" by (cases xs) auto
  have len: "\<not> length ?d < LOG_HEADER" using lh by (simp add: d)
  have w: "le_val (PutUint32 (unat (crc ?p))) = unat (crc ?p)" using unat_crc_less by (simp add: le_val_PutUint32)
  have lastseq: "(if numbered (start_seq + 1) bs = [] then start_seq else fst (last (numbered (start_seq + 1) bs))) = start_seq + length bs"
    using nb [of bs "start_seq + 1"] by (simp add: ne)
  have cutf: "take (length ?d - length torn) ?d = log_image crc number start_seq bs" by simp
  have tr: "(length torn > 0) = (torn \<noteq> [])" by simp
  show ?thesis
    unfolding replay_def option.case t8 sum st dr Let_def lp w
    by (simp only: len if_False rbind.simps prod.case lastseq cutf tr refl simp_thms)
qed

section \<open>A log in use\<close>

text \<open>
  The file and the buffer of a log hold the batches \<open>bs\<close>, and the file holds them all unless records
  are counted as not yet written.
\<close>

definition wal_holds :: "checksum \<Rightarrow> Wal \<Rightarrow> mutation list list \<Rightarrow> bool" where
  "wal_holds crc w bs \<longleftrightarrow>
     (\<exists>start. wl_file w @ wl_bytes w = log_image crc (wl_number w) start bs \<and> wl_next_seq w = start + length bs + 1)
     \<and> (\<forall>b\<in>set bs. batch_ok b) \<and> wl_written w \<le> last_sequence w
     \<and> (wl_bytes w = [] \<or> wl_written w < last_sequence w)"

lemma log_records_append:
  "log_records crc seq (bs @ bs') = log_records crc seq bs @ log_records crc (seq + length bs) bs'"
  by (induction bs arbitrary: seq) (simp_all add: add.assoc)

lemma wal_holds_create: "wal_holds crc (Wal_create crc number start policy) []"
  by (auto simp: wal_holds_def Wal_create_def Let_def log_image_def last_sequence_def)

lemma Wal_append_number: "Wal_append crc io muts w = (r, w') \<Longrightarrow> wl_number w' = wl_number w \<and> wl_policy w' = wl_policy w"
  by (auto simp: Wal_append_def Let_def Wal_flush_def Wal_drain_def split: if_splits option.splits sum.splits prod.splits)

lemma flush_calm:
  assumes "wal_holds crc w bs" "Wal_flush wal_calm w = (r, w')"
  shows "r = Inr ()" "wal_holds crc w' bs" "wl_bytes w' = []" "wl_number w' = wl_number w" "wl_policy w' = wl_policy w"
    "wl_next_seq w' = wl_next_seq w"
  using assms by (auto simp: wal_holds_def Wal_flush_def Wal_drain_def wal_calm_def last_sequence_def Let_def split: if_splits)

lemma sync_calm:
  assumes "wal_holds crc w bs" "Wal_sync_locked wal_calm w = (r, w')"
  shows "r = Inr ()" "wal_holds crc w' bs" "wl_bytes w' = []" "wl_number w' = wl_number w" "wl_policy w' = wl_policy w"
    "wl_next_seq w' = wl_next_seq w"
  using assms by (auto simp: wal_holds_def Wal_sync_locked_def Wal_drain_def wal_calm_def last_sequence_def Let_def split: if_splits)

lemma append_calm:
  assumes "wal_holds crc w bs" "batch_ok muts" "Wal_append crc wal_calm muts w = (r, w')"
  shows "r = Inr (wl_next_seq w)" "wal_holds crc w' (bs @ [muts])" "wl_next_seq w' = wl_next_seq w + 1"
proof -
  define v where "v = w\<lparr>wl_next_seq := wl_next_seq w + 1, wl_bytes := wl_bytes w @ log_record crc (wl_next_seq w) muts\<rparr>"
  obtain start where start: "wl_file w @ wl_bytes w = log_image crc (wl_number w) start bs" "wl_next_seq w = start + length bs + 1"
    and ok: "\<forall>b\<in>set bs. batch_ok b" and wr: "wl_written w \<le> last_sequence w"
    using assms(1) by (auto simp: wal_holds_def)
  have "wl_file v @ wl_bytes v = log_image crc (wl_number v) start (bs @ [muts])"
    using start by (simp add: v_def log_image_def log_records_append flip: append_assoc)
  then have holds: "wal_holds crc v (bs @ [muts])"
    using start(2) ok assms(2) wr by (auto simp: wal_holds_def v_def last_sequence_def)
  obtain r' v' where fl: "Wal_flush wal_calm v = (r', v')" by fastforce
  note calm = flush_calm [OF holds fl]
  have mx: "\<not> MAX_RECORD < length (encode_batch_rs muts)" using assms(2) by (simp add: batch_ok_def)
  have "(r, w') = (if MAX_BUFFERED \<le> length (wl_bytes v) then (Inr (wl_next_seq w), v') else (Inr (wl_next_seq w), v))"
    unfolding assms(3) [symmetric] Wal_append_def Let_def v_def [symmetric] fl
    using mx calm(1) by simp
  moreover have "wl_next_seq v = wl_next_seq w + 1" by (simp add: v_def)
  ultimately show "r = Inr (wl_next_seq w)" "wal_holds crc w' (bs @ [muts])" "wl_next_seq w' = wl_next_seq w + 1"
    using holds calm(2,6) by (simp_all split: if_splits)
qed

end
