(* ===== verification/Lsm_Db.thy ===== *)
theory Lsm_Db
  imports Lsm_Manifest Lsm_Wal
begin

text \<open>
  The log-structured merge tree, \<open>src/engine/src/db.rs\<close>. The state \<open>Db\<close> is the memtables, the log, the
  version, the manifest and the directory; every operation is a function on it, with the outcomes of
  system calls and the clock readings of one call in a \<open>db_io\<close>. The sections the code runs under one lock
  are definitions of their own, so that histories may interleave them. The cache of open tables holds
  nothing the files do not say and is left out, as are the counters that only \<open>stats\<close> reports.
\<close>

section \<open>State\<close>

record Options =
  op_memtable_bytes :: nat
  op_block_size :: nat
  op_bits_per_key :: nat
  op_sync_policy :: SyncPolicy_rs
  op_l0_compaction_trigger :: nat
  op_l0_stop_writes_trigger :: nat
  op_level_base_bytes :: nat
  op_level_multiplier :: nat
  op_max_file_bytes :: nat
  op_max_immutable :: nat

definition Options_default :: Options where
  "Options_default =
     \<lparr>op_memtable_bytes = 64 * 2 ^ 20, op_block_size = 4096, op_bits_per_key = 10, op_sync_policy = EverySecond,
      op_l0_compaction_trigger = 4, op_l0_stop_writes_trigger = 12, op_level_base_bytes = 64 * 2 ^ 20,
      op_level_multiplier = 10, op_max_file_bytes = 64 * 2 ^ 20, op_max_immutable = 2\<rparr>"

definition max_bytes_for_level :: "Options \<Rightarrow> nat \<Rightarrow> nat" where
  "max_bytes_for_level opts level =
     (if level \<le> 1 then op_level_base_bytes opts
      else ((\<lambda>b. min (2 ^ 64 - 1) (b * op_level_multiplier opts)) ^^ (level - 1)) (op_level_base_bytes opts))"

text \<open>The directory: the manifest, the tables and the logs by number. The current log's file is in its \<open>Wal\<close>.\<close>

record Disk =
  dk_manifest :: "bytes option"
  dk_ssts :: "(nat, bytes) btree"
  dk_logs :: "(nat, bytes) btree"

text \<open>The frozen tables are newest first, each with the number of the log that backs it.\<close>

record Db =
  db_active :: MemTable
  db_immutable :: "(nat \<times> MemTable) list"
  db_log :: Wal
  db_version :: Version
  db_manifest :: Manifest
  db_disk :: Disk
  db_pending :: "nat list list"
  db_pointer :: "nat \<Rightarrow> bytes"
  db_stopping :: bool
  db_fatal :: "bytes option"

text \<open>
  What the environment does during one call: the log's system calls, whether a stalled writer is
  stopped, whether a log can be created, which tables can be written, how the first and the second
  manifest write end, whether files can be removed, how many superseded versions no reader holds any
  more, and the readings of the wall clock.
\<close>

record db_io =
  io_log :: wal_io
  io_stopped :: bool
  io_create_log :: bool
  io_build :: "nat \<Rightarrow> bool"
  io_store :: "nat \<Rightarrow> store_io"
  io_remove :: bool
  io_releasable :: nat
  io_now :: "nat \<Rightarrow> int"

definition db_calm :: "int \<Rightarrow> db_io" where
  "db_calm now = \<lparr>io_log = wal_calm, io_stopped = False, io_create_log = True, io_build = (\<lambda>_. True),
     io_store = (\<lambda>_. Store_ok), io_remove = True, io_releasable = 0, io_now = (\<lambda>_. now)\<rparr>"

section \<open>Writing\<close>

definition check_healthy :: "Db \<Rightarrow> unit rust" where
  "check_healthy db =
     (if db_stopping db then Inl Closed
      else case db_fatal db of Some msg \<Rightarrow> Inl (Poisoned msg) | None \<Rightarrow> Inr ())"

definition poison :: "bytes \<Rightarrow> Db \<Rightarrow> Db" where
  "poison msg db = (if db_fatal db = None then db\<lparr>db_fatal := Some msg\<rparr> else db)"

definition insert_all :: "mutation list \<Rightarrow> MemTable \<Rightarrow> MemTable" where
  "insert_all muts t = fold (\<lambda>(k, e). MemTable_insert k e) muts t"

text \<open>The part of \<open>write\<close> under the memtable lock.\<close>

definition write_apply :: "checksum \<Rightarrow> db_io \<Rightarrow> mutation list \<Rightarrow> Db \<Rightarrow> nat rust \<times> Db" where
  "write_apply crc io muts db =
     (case Wal_append crc (io_log io) muts (db_log db) of
        (Inl e, w) \<Rightarrow> (Inl e, db\<lparr>db_log := w\<rparr>)
      | (Inr seq, w) \<Rightarrow> (Inr seq, db\<lparr>db_log := w, db_active := insert_all muts (db_active db)\<rparr>))"

definition write_commit :: "db_io \<Rightarrow> nat \<Rightarrow> Db \<Rightarrow> unit rust \<times> Db" where
  "write_commit io seq db =
     (case Wal_commit (io_log io) seq (db_log db) of (r, w) \<Rightarrow> (r, db\<lparr>db_log := w\<rparr>))"

definition force_freeze :: "checksum \<Rightarrow> Options \<Rightarrow> db_io \<Rightarrow> Db \<Rightarrow> unit rust \<times> Db" where
  "force_freeze crc opts io db =
     (if MemTable_is_empty (db_active db) then (Inr (), db)
      else
        case Wal_flush (io_log io) (db_log db) of
          (Inl e, w) \<Rightarrow> (Inl e, db\<lparr>db_log := w\<rparr>)
        | (Inr _, old_log) \<Rightarrow>
            let (new_number, man) = allocate_file_number (db_manifest db);
                db = db\<lparr>db_log := old_log, db_manifest := man\<rparr> in
            if \<not> io_create_log io then (Inl Io, db)
            else
              (Inr (),
               db\<lparr>db_active := MemTable_new,
                  db_immutable := (wl_number old_log, db_active db) # db_immutable db,
                  db_log := Wal_create crc new_number (last_sequence old_log) (op_sync_policy opts),
                  db_disk := (db_disk db)\<lparr>dk_logs := bt_insert (wl_number old_log) (wl_file old_log) (dk_logs (db_disk db))\<rparr>\<rparr>))"

definition maybe_freeze :: "checksum \<Rightarrow> Options \<Rightarrow> db_io \<Rightarrow> Db \<Rightarrow> unit rust \<times> Db" where
  "maybe_freeze crc opts io db =
     (if mt_bytes (db_active db) \<ge> op_memtable_bytes opts then force_freeze crc opts io db else (Inr (), db))"

text \<open>
  \<open>write\<close>. \<open>await_space\<close> changes nothing; it returns at once or when there is room or after ten seconds,
  unless the engine is stopped while it waits.
\<close>

definition needs_space :: "Options \<Rightarrow> Db \<Rightarrow> bool" where
  "needs_space opts db \<longleftrightarrow>
     \<not> (length (Version_level (db_version db) 0) < op_l0_stop_writes_trigger opts
        \<and> length (db_immutable db) < op_max_immutable opts)"

definition Db_write :: "checksum \<Rightarrow> Options \<Rightarrow> db_io \<Rightarrow> mutation list \<Rightarrow> Db \<Rightarrow> nat rust \<times> Db" where
  "Db_write crc opts io muts db =
     (case check_healthy db of
        Inl e \<Rightarrow> (Inl e, db)
      | Inr _ \<Rightarrow>
          if muts = [] then (Inr 0, db)
          else if needs_space opts db \<and> io_stopped io then (Inl Closed, db)
          else
            case write_apply crc io muts db of
              (Inl e, db) \<Rightarrow> (Inl e, db)
            | (Inr seq, db) \<Rightarrow>
                (case write_commit io seq db of
                   (Inl e, db) \<Rightarrow> (Inl e, db)
                 | (Inr _, db) \<Rightarrow>
                     (case maybe_freeze crc opts io db of
                        (Inl e, db) \<Rightarrow> (Inl e, db)
                      | (Inr _, db) \<Rightarrow> (Inr seq, db))))"

definition Db_put :: "checksum \<Rightarrow> Options \<Rightarrow> db_io \<Rightarrow> bytes \<Rightarrow> bytes \<Rightarrow> int \<Rightarrow> Db \<Rightarrow> nat rust \<times> Db" where
  "Db_put crc opts io key val expire_at = Db_write crc opts io [(key, Entry_Put \<lparr>Value = val, ExpireAt = expire_at\<rparr>)]"

definition Db_delete :: "checksum \<Rightarrow> Options \<Rightarrow> db_io \<Rightarrow> bytes \<Rightarrow> Db \<Rightarrow> nat rust \<times> Db" where
  "Db_delete crc opts io key = Db_write crc opts io [(key, Entry_Delete)]"

definition Db_sync :: "db_io \<Rightarrow> Db \<Rightarrow> unit rust \<times> Db" where
  "Db_sync io db = (case Wal_sync_all (io_log io) (db_log db) of (r, w) \<Rightarrow> (r, db\<lparr>db_log := w\<rparr>))"

section \<open>Reading\<close>

definition open_table :: "checksum \<Rightarrow> Db \<Rightarrow> FileMeta \<Rightarrow> SsTable rust" where
  "open_table crc db f =
     (case map_of (dk_ssts (db_disk db)) (fm_number f) of None \<Rightarrow> Inl Io | Some file \<Rightarrow> SsTable_open crc file)"

fun entry_to_live :: "Entry \<Rightarrow> int \<Rightarrow> Record option" where
  "entry_to_live Entry_Delete now_ms = None"
| "entry_to_live (Entry_Put r) now_ms = (if Expired r now_ms then None else Some r)"

definition lookup_file :: "checksum \<Rightarrow> bytes \<Rightarrow> int \<Rightarrow> Db \<Rightarrow> FileMeta \<Rightarrow> Record option option rust" where
  "lookup_file crc key now_ms db f =
     (if \<not> FileMeta_may_contain key f then Inr None
      else
        rbind (open_table crc db f) (\<lambda>table.
          if \<not> SsTable_may_contain key table then Inr None
          else
            rbind (SsTable_get crc key table) (\<lambda>entry.
              case entry of
                None \<Rightarrow> Inr None
              | Some e \<Rightarrow> Inr (Some (entry_to_live e now_ms)))))"

fun first_mem :: "bytes \<Rightarrow> int \<Rightarrow> MemTable list \<Rightarrow> Record option option" where
  "first_mem key now_ms [] = None"
| "first_mem key now_ms (t # ts) =
     (case MemTable_lookup key now_ms t of Some answer \<Rightarrow> Some answer | None \<Rightarrow> first_mem key now_ms ts)"

fun first_file :: "checksum \<Rightarrow> bytes \<Rightarrow> int \<Rightarrow> Db \<Rightarrow> FileMeta list \<Rightarrow> Record option option rust" where
  "first_file crc key now_ms db [] = Inr None"
| "first_file crc key now_ms db (f # fs) =
     rbind (lookup_file crc key now_ms db f) (\<lambda>answer.
       case answer of Some a \<Rightarrow> Inr (Some a) | None \<Rightarrow> first_file crc key now_ms db fs)"

text \<open>One file per level below level 0.\<close>

definition candidates :: "Version \<Rightarrow> bytes \<Rightarrow> FileMeta list" where
  "candidates v key =
     concat (map (\<lambda>level. case Version_find_in_level v level key of None \<Rightarrow> [] | Some f \<Rightarrow> [f]) [1 ..< length v])"

definition Db_get :: "checksum \<Rightarrow> bytes \<Rightarrow> int \<Rightarrow> Db \<Rightarrow> Record option rust" where
  "Db_get crc key now_ms db =
     (case first_mem key now_ms (db_active db # map snd (db_immutable db)) of
        Some answer \<Rightarrow> Inr answer
      | None \<Rightarrow>
          rbind (first_file crc key now_ms db (Version_level (db_version db) 0)) (\<lambda>answer.
            case answer of
              Some a \<Rightarrow> Inr a
            | None \<Rightarrow>
                rbind (first_file crc key now_ms db (candidates (db_version db) key)) (\<lambda>answer.
                  case answer of Some a \<Rightarrow> Inr a | None \<Rightarrow> Inr None)))"

section \<open>Flushing\<close>

text \<open>Writing a table, which fails like any file beyond the largest offset the kernel supports.\<close>

definition build_table :: "checksum \<Rightarrow> Options \<Rightarrow> bool \<Rightarrow> (bytes \<times> Entry) list \<Rightarrow> (TableMeta \<times> bytes) rust" where
  "build_table crc opts works es =
     rbind (write_table crc (op_block_size opts) (op_bits_per_key opts) es) (\<lambda>(meta, file).
       if works \<and> length file < 2 ^ 63 then Inr (meta, file) else Inl Io)"

definition still_needed :: "Db \<Rightarrow> nat" where
  "still_needed db = (if db_immutable db = [] then wl_number (db_log db) else fst (last (db_immutable db)))"

definition store_manifest :: "checksum \<Rightarrow> store_io \<Rightarrow> Db \<Rightarrow> unit rust \<times> Db" where
  "store_manifest crc io db =
     (case Manifest_store crc io (db_manifest db) (dk_manifest (db_disk db)) of
        (r, final) \<Rightarrow> (r, db\<lparr>db_disk := (db_disk db)\<lparr>dk_manifest := final\<rparr>\<rparr>))"

definition retire_frozen :: "checksum \<Rightarrow> db_io \<Rightarrow> nat \<Rightarrow> Db \<Rightarrow> unit rust \<times> Db" where
  "retire_frozen crc io log_number db =
     (let db = db\<lparr>db_immutable := butlast (db_immutable db)\<rparr>;
          needed = still_needed db;
          (r, db) = (if mf_log_number (db_manifest db) \<noteq> needed
                     then store_manifest crc (io_store io 1) (db\<lparr>db_manifest := (db_manifest db)\<lparr>mf_log_number := needed\<rparr>\<rparr>)
                     else (Inr (), db)) in
      case r of
        Inl e \<Rightarrow> (Inl e, db)
      | Inr _ \<Rightarrow>
          if \<not> io_remove io then (Inl Io, db)
          else (Inr (), db\<lparr>db_disk := (db_disk db)\<lparr>dk_logs :=
            filter (\<lambda>(n, _). \<not> (n < needed \<and> n \<le> log_number)) (dk_logs (db_disk db))\<rparr>\<rparr>))"

definition flush_one :: "checksum \<Rightarrow> Options \<Rightarrow> db_io \<Rightarrow> Db \<Rightarrow> bool rust \<times> Db" where
  "flush_one crc opts io db =
     (if db_immutable db = [] then (Inr False, db)
      else
        let (log_number, table) = last (db_immutable db);
            (number, man) = allocate_file_number (db_manifest db);
            db = db\<lparr>db_manifest := man\<rparr> in
        case build_table crc opts (io_build io number) (mt_map table) of
          Inl e \<Rightarrow> (Inl e, db)
        | Inr (meta, file) \<Rightarrow>
            if tm_entry_count meta = 0 then
              (case retire_frozen crc io log_number db of (Inl e, db) \<Rightarrow> (Inl e, db) | (Inr _, db) \<Rightarrow> (Inr True, db))
            else
              let new_version = Version_add_file 0 (FileMeta_from_table number meta) (db_version db);
                  man = (db_manifest db)\<lparr>mf_version := new_version,
                    mf_last_sequence := max (mf_last_sequence (db_manifest db)) (MemTable_len table)\<rparr>;
                  db = db\<lparr>db_disk := (db_disk db)\<lparr>dk_ssts := bt_insert number file (dk_ssts (db_disk db))\<rparr>, db_manifest := man\<rparr> in
              case store_manifest crc (io_store io 0) db of
                (Inl e, db) \<Rightarrow> (Inl e, db)
              | (Inr _, db) \<Rightarrow>
                  (case retire_frozen crc io log_number
                          (db\<lparr>db_version := new_version, db_pending := db_pending db @ [[]]\<rparr>) of
                     (Inl e, db) \<Rightarrow> (Inl e, db)
                   | (Inr _, db) \<Rightarrow> (Inr True, db)))"

text \<open>\<open>drain_flushes\<close>: each successful step removes a frozen table, so their number bounds the loop.\<close>

fun drain_flushes :: "checksum \<Rightarrow> Options \<Rightarrow> (nat \<Rightarrow> db_io) \<Rightarrow> nat \<Rightarrow> Db \<Rightarrow> unit rust \<times> Db" where
  "drain_flushes crc opts io 0 db = (Inr (), db)"
| "drain_flushes crc opts io (Suc n) db =
     (case flush_one crc opts (io n) db of
        (Inl e, db) \<Rightarrow> (Inl e, db)
      | (Inr False, db) \<Rightarrow> (Inr (), db)
      | (Inr True, db) \<Rightarrow> drain_flushes crc opts io n db)"

definition flush_memtable :: "checksum \<Rightarrow> Options \<Rightarrow> db_io \<Rightarrow> (nat \<Rightarrow> db_io) \<Rightarrow> Db \<Rightarrow> unit rust \<times> Db" where
  "flush_memtable crc opts io ios db =
     (case force_freeze crc opts io db of
        (Inl e, db) \<Rightarrow> (Inl e, db)
      | (Inr _, db) \<Rightarrow> drain_flushes crc opts ios (length (db_immutable db)) db)"

section \<open>Compaction\<close>

record Plan =
  pl_level :: nat
  pl_output_level :: nat
  pl_inputs :: "FileMeta list"
  pl_overlapping :: "FileMeta list"

text \<open>A quotient of two \<open>f64\<close>; \<open>None\<close> for a division by zero, which no other score exceeds.\<close>

definition f64_score :: "nat \<Rightarrow> nat \<Rightarrow> rat option" where
  "f64_score a b = (if b = 0 then None else Some (float64 (float64 (of_nat a) / float64 (of_nat b))))"

definition better :: "rat option \<Rightarrow> (rat option \<times> nat) option \<Rightarrow> bool" where
  "better score best =
     (case best of
        None \<Rightarrow> True
      | Some (None, _) \<Rightarrow> False
      | Some (Some b, _) \<Rightarrow> (case score of None \<Rightarrow> True | Some s \<Rightarrow> s > b))"

definition score_level :: "Options \<Rightarrow> Version \<Rightarrow> nat \<Rightarrow> (rat option \<times> nat) option \<Rightarrow> (rat option \<times> nat) option" where
  "score_level opts v level best =
     (let budget = max_bytes_for_level opts level; score = f64_score (Version_level_bytes v level) budget in
      if budget = 0 then best
      else if (case score of None \<Rightarrow> False | Some s \<Rightarrow> s > 1) \<and> better score best then Some (score, level)
      else best)"

definition pick_level :: "Options \<Rightarrow> Version \<Rightarrow> nat option" where
  "pick_level opts v =
     (let l0 = length (Version_level v 0);
          best = (if l0 \<ge> op_l0_compaction_trigger opts then Some (f64_score l0 (op_l0_compaction_trigger opts), 0) else None) in
      map_option snd (fold (score_level opts v) [1 ..< length v - 1] best))"

definition pick_file_from_level :: "(nat \<Rightarrow> bytes) \<Rightarrow> Version \<Rightarrow> nat \<Rightarrow> FileMeta option" where
  "pick_file_from_level pointer v level =
     (let files = Version_level v level in
      if files = [] then None
      else case find (\<lambda>f. fm_max_key f > pointer level) files of Some f \<Rightarrow> Some f | None \<Rightarrow> Some (hd files))"

definition plan_range :: "FileMeta list \<Rightarrow> bytes \<times> bytes" where
  "plan_range inputs =
     fold (\<lambda>f (lo, hi). (if fm_min_key f < lo then fm_min_key f else lo, if fm_max_key f > hi then fm_max_key f else hi))
       (tl inputs) (fm_min_key (hd inputs), fm_max_key (hd inputs))"

definition pick_compaction :: "Options \<Rightarrow> (nat \<Rightarrow> bytes) \<Rightarrow> Version \<Rightarrow> Plan option" where
  "pick_compaction opts pointer v =
     (case pick_level opts v of
        None \<Rightarrow> None
      | Some level \<Rightarrow>
          if level + 1 \<ge> MAX_LEVELS then None
          else
            let inputs = (if level = 0 then Version_level v 0
                          else case pick_file_from_level pointer v level of None \<Rightarrow> [] | Some f \<Rightarrow> [f]) in
            if inputs = [] then None
            else
              let (lo, hi) = plan_range inputs in
              Some \<lparr>pl_level = level, pl_output_level = level + 1, pl_inputs = inputs,
                    pl_overlapping = Version_overlapping v (level + 1) lo hi\<rparr>)"

definition is_bottom_most :: "Version \<Rightarrow> nat \<Rightarrow> bool" where
  "is_bottom_most v output_level \<longleftrightarrow> (\<forall>l\<in>set [output_level + 1 ..< length v]. Version_level v l = [])"

definition key_exists_below :: "Version \<Rightarrow> nat \<Rightarrow> bytes \<Rightarrow> bool" where
  "key_exists_below v level key \<longleftrightarrow>
     (\<exists>l\<in>set [level + 1 ..< length v]. \<exists>f\<in>set (Version_level v l). FileMeta_may_contain key f)"

subsection \<open>The merge\<close>

text \<open>
  Each cursor of the merge is the list of entries still ahead of it. The linear scan keeps the first of
  equal keys, which is the newest.
\<close>

fun pick_head :: "nat \<Rightarrow> (bytes \<times> Entry) list list \<Rightarrow> (nat \<times> bytes \<times> Entry) option \<Rightarrow> (nat \<times> bytes \<times> Entry) option" where
  "pick_head i [] pick = pick"
| "pick_head i ([] # cs) pick = pick_head (i + 1) cs pick"
| "pick_head i ((kv # s) # cs) pick =
     pick_head (i + 1) cs
       (case pick of None \<Rightarrow> Some (i, kv) | Some (p, pkv) \<Rightarrow> if fst kv < fst pkv then Some (i, kv) else pick)"

fun advance_heads :: "nat \<Rightarrow> nat \<Rightarrow> bytes \<Rightarrow> (bytes \<times> Entry) list list \<Rightarrow> (bytes \<times> Entry) list list" where
  "advance_heads i winner key [] = []"
| "advance_heads i winner key (s # cs) =
     (if i = winner then tl s else dropWhile (\<lambda>kv. fst kv = key) s) # advance_heads (i + 1) winner key cs"

text \<open>The winner has the smallest key of all heads, and every earlier cursor is strictly behind it.\<close>

definition wins :: "nat \<Rightarrow> (bytes \<times> Entry) list list \<Rightarrow> nat \<Rightarrow> bytes \<times> Entry \<Rightarrow> bool" where
  "wins i cs w kv \<longleftrightarrow>
     (\<exists>pre s post. w = i + length pre \<and> cs = pre @ (kv # s) # post
        \<and> (\<forall>c\<in>set pre. c \<noteq> [] \<longrightarrow> fst kv < fst (hd c)) \<and> (\<forall>c\<in>set post. c \<noteq> [] \<longrightarrow> fst kv \<le> fst (hd c)))"

lemma wins_Cons: "wins (Suc i) cs w kv \<Longrightarrow> c \<noteq> [] \<longrightarrow> fst kv < fst (hd c) \<Longrightarrow> wins i (c # cs) w kv"
  unfolding wins_def by (elim exE conjE) (rule exI [of _ "c # _"], auto)

lemma pick_head_cases:
  "pick_head i cs pick = pick
     \<and> (case pick of None \<Rightarrow> \<forall>c\<in>set cs. c = [] | Some (p, x) \<Rightarrow> \<forall>c\<in>set cs. c \<noteq> [] \<longrightarrow> fst x \<le> fst (hd c))
   \<or> (\<exists>w kv. pick_head i cs pick = Some (w, kv) \<and> wins i cs w kv
     \<and> (case pick of None \<Rightarrow> True | Some (p, x) \<Rightarrow> fst kv < fst x))"
proof (induction i cs pick rule: pick_head.induct)
  case (2 i cs pick)
  then show ?case by (auto split: option.splits intro: wins_Cons)
next
  case (3 i kv s cs pick)
  define pick' where "pick' = (case pick of None \<Rightarrow> Some (i, kv) | Some (p, pkv) \<Rightarrow> if fst kv < fst pkv then Some (i, kv) else pick)"
  have IH: "pick_head (i + 1) cs pick' = pick'
     \<and> (case pick' of None \<Rightarrow> \<forall>c\<in>set cs. c = [] | Some (p, x) \<Rightarrow> \<forall>c\<in>set cs. c \<noteq> [] \<longrightarrow> fst x \<le> fst (hd c))
   \<or> (\<exists>w kv. pick_head (i + 1) cs pick' = Some (w, kv) \<and> wins (i + 1) cs w kv
     \<and> (case pick' of None \<Rightarrow> True | Some (p, x) \<Rightarrow> fst kv < fst x))"
    using 3 unfolding pick'_def by blast
  have eq: "pick_head i ((kv # s) # cs) pick = pick_head (i + 1) cs pick'" by (simp add: pick'_def)
  show ?case
  proof (cases "pick = None \<or> fst kv < fst (snd (the pick))")
    case True
    then have p: "pick' = Some (i, kv)" by (auto simp: pick'_def split: option.splits)
    from IH [unfolded p] consider
      (stay) "pick_head (i + 1) cs (Some (i, kv)) = Some (i, kv)" "\<forall>c\<in>set cs. c \<noteq> [] \<longrightarrow> fst kv \<le> fst (hd c)"
    | (later) w kv' where "pick_head (i + 1) cs (Some (i, kv)) = Some (w, kv')" "wins (i + 1) cs w kv'" "fst kv' < fst kv"
      by auto
    then show ?thesis
    proof cases
      case stay
      then have "wins i ((kv # s) # cs) i kv" unfolding wins_def by (intro exI [of _ "[]"] exI [of _ s] exI [of _ cs]) auto
      with stay True show ?thesis unfolding eq p by (auto split: option.splits)
    next
      case later
      then have "wins i ((kv # s) # cs) w kv'" by (auto intro: wins_Cons)
      with later True show ?thesis unfolding eq p by (auto split: option.splits)
    qed
  next
    case False
    then obtain q x where pk: "pick = Some (q, x)" "fst x \<le> fst kv" by (cases pick) (auto simp: not_less)
    then have p: "pick' = Some (q, x)" by (auto simp: pick'_def)
    from IH [unfolded p] pk show ?thesis unfolding eq p pk(1)
      by (auto intro!: wins_Cons dest: less_le_trans)
  qed
qed (auto split: option.splits)

lemma pick_head_None: "pick_head 0 cs None = None \<Longrightarrow> \<forall>c\<in>set cs. c = []"
  using pick_head_cases [of 0 cs None] by auto

lemma pick_head_Some: "pick_head 0 cs None = Some (w, kv) \<Longrightarrow> wins 0 cs w kv"
  using pick_head_cases [of 0 cs None] by auto

lemma advance_before: "i + length cs \<le> w \<Longrightarrow> advance_heads i w k cs = map (dropWhile (\<lambda>kv. fst kv = k)) cs"
  by (induction cs arbitrary: i) auto

lemma advance_after: "w < i \<Longrightarrow> advance_heads i w k cs = map (dropWhile (\<lambda>kv. fst kv = k)) cs"
  by (induction cs arbitrary: i) auto

lemma advance_append: "advance_heads i w k (cs @ cs') = advance_heads i w k cs @ advance_heads (i + length cs) w k cs'"
  by (induction cs arbitrary: i) (simp_all add: add.assoc)

lemma advance_winner:
  "advance_heads 0 (length pre) k (pre @ (kv # s) # post) =
     map (dropWhile (\<lambda>kv. fst kv = k)) pre @ s # map (dropWhile (\<lambda>kv. fst kv = k)) post"
  by (simp add: advance_append advance_before advance_after)

lemma advance_less:
  assumes "pick_head 0 cs None = Some (w, kv)"
  shows "sum_list (map length (advance_heads 0 w k cs)) < sum_list (map length cs)"
proof -
  from pick_head_Some [OF assms] obtain pre s post where cs: "w = length pre" "cs = pre @ (kv # s) # post"
    by (auto simp: wins_def)
  have le: "sum_list (map (\<lambda>x. length (dropWhile P x)) xs) \<le> sum_list (map length xs)" for P :: "'a \<Rightarrow> bool" and xs :: "'a list list"
    by (induction xs) (auto simp: length_dropWhile_le intro: add_mono)
  show ?thesis
    using le [of "\<lambda>kv. fst kv = k" pre] le [of "\<lambda>kv. fst kv = k" post]
    unfolding cs advance_winner by (simp add: comp_def)
qed

function merge :: "(bytes \<times> Entry) list list \<Rightarrow> (bytes \<times> Entry) list" where
  "merge cs =
     (case pick_head 0 cs None of
        None \<Rightarrow> []
      | Some (winner, key, entry) \<Rightarrow> (key, entry) # merge (advance_heads 0 winner key cs))"
  by auto
termination
  by (relation "measure (\<lambda>cs. sum_list (map length cs))") (auto dest: advance_less)

declare merge.simps [simp del]

fun obsolete :: "int \<Rightarrow> Entry \<Rightarrow> bool" where
  "obsolete now Entry_Delete = True"
| "obsolete now (Entry_Put r) = Expired r now"

fun keep_entries :: "(nat \<Rightarrow> int) \<Rightarrow> (bytes \<Rightarrow> bool) \<Rightarrow> nat \<Rightarrow> (bytes \<times> Entry) list \<Rightarrow> (bytes \<times> Entry) list" where
  "keep_entries now droppable i [] = []"
| "keep_entries now droppable i ((key, entry) # es) =
     (if obsolete (now i) entry \<and> droppable key then keep_entries now droppable (i + 1) es
      else (key, entry) # keep_entries now droppable (i + 1) es)"

subsection \<open>Output files\<close>

type_synonym outputs = "(nat \<times> TableMeta) list"

definition finish_output ::
  "checksum \<Rightarrow> (nat \<Rightarrow> bool) \<Rightarrow> nat \<Rightarrow> SsTableWriter \<Rightarrow> (nat, bytes) btree \<Rightarrow> outputs \<Rightarrow> outputs rust \<times> (nat, bytes) btree" where
  "finish_output crc works number w ssts outs =
     (let (meta, file) = SsTableWriter_finish crc w in
      if works number \<and> length file < 2 ^ 63 then (Inr (outs @ [(number, meta)]), bt_insert number file ssts) else (Inl Io, ssts))"

fun write_outputs ::
  "checksum \<Rightarrow> Options \<Rightarrow> (nat \<Rightarrow> bool) \<Rightarrow> (nat \<times> SsTableWriter) option \<Rightarrow> (bytes \<times> Entry) list \<Rightarrow> Manifest \<Rightarrow> (nat, bytes) btree
    \<Rightarrow> outputs \<Rightarrow> outputs rust \<times> Manifest \<times> (nat, bytes) btree" where
  "write_outputs crc opts works cur [] man ssts outs =
     (case cur of
        None \<Rightarrow> (Inr outs, man, ssts)
      | Some (number, w) \<Rightarrow> (case finish_output crc works number w ssts outs of (r, ssts) \<Rightarrow> (r, man, ssts)))"
| "write_outputs crc opts works cur ((key, entry) # es) man ssts outs =
     (let (number, w, man) =
        (case cur of
           Some (number, w) \<Rightarrow> (number, w, man)
         | None \<Rightarrow> let (number, man) = allocate_file_number man in
             (number, SsTableWriter_create (op_block_size opts) (op_bits_per_key opts), man)) in
      case SsTableWriter_add crc key entry w of
        Inl e \<Rightarrow> (Inl e, man, ssts)
      | Inr w \<Rightarrow>
          if estimated_size w \<ge> op_max_file_bytes opts then
            (case finish_output crc works number w ssts outs of
               (Inl e, ssts) \<Rightarrow> (Inl e, man, ssts)
             | (Inr outs, ssts) \<Rightarrow> write_outputs crc opts works None es man ssts outs)
          else write_outputs crc opts works (Some (number, w)) es man ssts outs)"

subsection \<open>Installing the result\<close>

definition sweep_pending_deletes :: "db_io \<Rightarrow> Db \<Rightarrow> unit rust \<times> Db" where
  "sweep_pending_deletes io db =
     (let retiring = concat (take (io_releasable io) (db_pending db));
          db = db\<lparr>db_pending := drop (io_releasable io) (db_pending db)\<rparr> in
      if \<not> io_remove io then (Inl Io, db)
      else (Inr (), db\<lparr>db_disk := (db_disk db)\<lparr>dk_ssts :=
        filter (\<lambda>(n, _). n \<notin> set retiring) (dk_ssts (db_disk db))\<rparr>\<rparr>))"

definition compacted_version :: "Plan \<Rightarrow> outputs \<Rightarrow> Version \<Rightarrow> Version" where
  "compacted_version plan outs v =
     fold (\<lambda>(number, meta). Version_add_file (pl_output_level plan) (FileMeta_from_table number meta)) outs
       (Version_remove_files (pl_output_level plan) (map fm_number (pl_overlapping plan))
         (Version_remove_files (pl_level plan) (map fm_number (pl_inputs plan)) v))"

definition install_compaction :: "checksum \<Rightarrow> db_io \<Rightarrow> Plan \<Rightarrow> outputs \<Rightarrow> Db \<Rightarrow> unit rust \<times> Db" where
  "install_compaction crc io plan outs db =
     (let v = compacted_version plan outs (db_version db) in
      case Version_validate v of
        Inl e \<Rightarrow> (Inl e, db)
      | Inr _ \<Rightarrow>
          (case store_manifest crc (io_store io 0) (db\<lparr>db_manifest := (db_manifest db)\<lparr>mf_version := v\<rparr>\<rparr>) of
             (Inl e, db) \<Rightarrow> (Inl e, db)
           | (Inr _, db) \<Rightarrow>
               sweep_pending_deletes io
                 (db\<lparr>db_version := v,
                     db_pending := db_pending db @ [map fm_number (pl_inputs plan @ pl_overlapping plan)]\<rparr>)))"

text \<open>
  Opening every source and reading it to its end; an entry that cannot be read stops the compaction
  when the merge reaches it. Files it finished before that are named by no version.
\<close>

fun read_sources :: "checksum \<Rightarrow> Db \<Rightarrow> FileMeta list \<Rightarrow> (bytes \<times> Entry) list list rust" where
  "read_sources crc db [] = Inr []"
| "read_sources crc db (f # fs) =
     rbind (open_table crc db f) (\<lambda>t.
     rbind (case SsTable_iter crc t of (es, None) \<Rightarrow> Inr es | (es, Some e) \<Rightarrow> Inl e) (\<lambda>es.
     rbind (read_sources crc db fs) (\<lambda>cs. Inr (es # cs))))"

definition run_compaction :: "checksum \<Rightarrow> Options \<Rightarrow> db_io \<Rightarrow> Plan \<Rightarrow> Db \<Rightarrow> unit rust \<times> Db" where
  "run_compaction crc opts io plan db =
     (case read_sources crc db (pl_inputs plan @ pl_overlapping plan) of
        Inl e \<Rightarrow> (Inl e, db)
      | Inr cs \<Rightarrow>
          let v = db_version db; level = pl_output_level plan;
              droppable = (\<lambda>key. is_bottom_most v level \<or> \<not> key_exists_below v level key);
              kept = keep_entries (io_now io) droppable 0 (merge cs) in
          case write_outputs crc opts (io_build io) None kept (db_manifest db) (dk_ssts (db_disk db)) [] of
            (r, man, ssts) \<Rightarrow>
              let db = db\<lparr>db_manifest := man, db_disk := (db_disk db)\<lparr>dk_ssts := ssts\<rparr>\<rparr> in
              (case r of
                 Inl e \<Rightarrow> (Inl e, db)
               | Inr outs \<Rightarrow>
                   (case install_compaction crc io plan outs db of
                      (Inl e, db) \<Rightarrow> (Inl e, db)
                    | (Inr _, db) \<Rightarrow>
                        (Inr (), db\<lparr>db_pointer := (db_pointer db)(pl_level plan := fm_max_key (last (pl_inputs plan)))\<rparr>))))"

definition compact_once :: "checksum \<Rightarrow> Options \<Rightarrow> db_io \<Rightarrow> Db \<Rightarrow> bool rust \<times> Db" where
  "compact_once crc opts io db =
     (case pick_compaction opts (db_pointer db) (db_version db) of
        None \<Rightarrow> (Inr False, db)
      | Some plan \<Rightarrow>
          (case run_compaction crc opts io plan db of (Inl e, db) \<Rightarrow> (Inl e, db) | (Inr _, db) \<Rightarrow> (Inr True, db)))"

fun compact_loop :: "checksum \<Rightarrow> Options \<Rightarrow> (nat \<Rightarrow> db_io) \<Rightarrow> nat \<Rightarrow> Db \<Rightarrow> unit rust \<times> Db" where
  "compact_loop crc opts io 0 db = (Inr (), db)"
| "compact_loop crc opts io (Suc n) db =
     (case compact_once crc opts (io n) db of
        (Inl e, db) \<Rightarrow> (Inl e, db)
      | (Inr False, db) \<Rightarrow> (Inr (), db)
      | (Inr True, db) \<Rightarrow> compact_loop crc opts io n db)"

definition compact_until_idle :: "checksum \<Rightarrow> Options \<Rightarrow> (nat \<Rightarrow> db_io) \<Rightarrow> (nat \<Rightarrow> db_io) \<Rightarrow> Db \<Rightarrow> unit rust \<times> Db" where
  "compact_until_idle crc opts fios cios db =
     (case drain_flushes crc opts fios (length (db_immutable db)) db of
        (Inl e, db) \<Rightarrow> (Inl e, db)
      | (Inr _, db) \<Rightarrow> compact_loop crc opts cios 1000 db)"

definition do_background_step :: "checksum \<Rightarrow> Options \<Rightarrow> db_io \<Rightarrow> Db \<Rightarrow> bool rust \<times> Db" where
  "do_background_step crc opts io db =
     (case flush_one crc opts io db of
        (Inl e, db) \<Rightarrow> (Inl e, db)
      | (Inr True, db) \<Rightarrow> (Inr True, db)
      | (Inr False, db) \<Rightarrow> compact_once crc opts io db)"

text \<open>
  One turn of \<open>background_loop\<close>; the first component says whether the loop goes on. \<open>elapsed\<close> is whether a
  second has passed since the last periodic fsync and \<open>msg\<close> the text of an error.
\<close>

definition flush_log :: "db_io \<Rightarrow> Db \<Rightarrow> unit rust \<times> Db" where
  "flush_log io db = (case Wal_flush (io_log io) (db_log db) of (r, w) \<Rightarrow> (r, db\<lparr>db_log := w\<rparr>))"

definition periodic_log_maintenance :: "db_io \<Rightarrow> bool \<Rightarrow> Db \<Rightarrow> unit rust \<times> Db" where
  "periodic_log_maintenance io elapsed db =
     (case flush_log io db of
        (Inl e, db) \<Rightarrow> (Inl e, db)
      | (Inr _, db) \<Rightarrow>
          if wl_policy (db_log db) \<noteq> EverySecond \<or> \<not> elapsed then (Inr (), db) else Db_sync io db)"

definition poison_on :: "(lsm_error \<Rightarrow> bytes) \<Rightarrow> 'a rust \<times> Db \<Rightarrow> Db" where
  "poison_on msg rdb = (case rdb of (Inl e, db) \<Rightarrow> poison (msg e) db | (Inr _, db) \<Rightarrow> db)"

definition background_turn ::
  "checksum \<Rightarrow> Options \<Rightarrow> db_io \<Rightarrow> (nat \<Rightarrow> db_io) \<Rightarrow> bool \<Rightarrow> bool \<Rightarrow> (lsm_error \<Rightarrow> bytes) \<Rightarrow> Db \<Rightarrow> bool \<times> Db" where
  "background_turn crc opts io ios halted elapsed msg db =
     (if db_stopping db then
        (False, if halted then db else snd (drain_flushes crc opts ios (length (db_immutable db)) db))
      else
        let step = do_background_step crc opts io db; db = poison_on msg step in
        if fst step = Inr True then (True, db)
        else (True, snd (sweep_pending_deletes io (poison_on msg (periodic_log_maintenance io elapsed db)))))"

definition Db_close :: "checksum \<Rightarrow> Options \<Rightarrow> db_io \<Rightarrow> (nat \<Rightarrow> db_io) \<Rightarrow> Db \<Rightarrow> unit rust \<times> Db" where
  "Db_close crc opts io ios db =
     (if db_stopping db then (Inr (), db)
      else
        case drain_flushes crc opts ios (length (db_immutable db)) (db\<lparr>db_stopping := True\<rparr>) of
          (_, db) \<Rightarrow> Db_sync io db)"

section \<open>Scanning\<close>

definition note_cut :: "bytes option \<Rightarrow> bytes option \<Rightarrow> bytes option" where
  "note_cut k boundary =
     (case k of
        None \<Rightarrow> boundary
      | Some k \<Rightarrow> (case boundary of Some b \<Rightarrow> if b \<le> k then Some b else Some k | None \<Rightarrow> Some k))"

type_synonym scan_map = "(bytes, Record option) btree \<times> bytes option"

text \<open>
  A source contributes at most \<open>n\<close> entries from \<open>start\<close> on; when it has more, the last key read bounds
  what the merge can be trusted for.
\<close>

definition cut_at :: "nat \<Rightarrow> (bytes \<times> Entry) list \<Rightarrow> bytes option" where
  "cut_at n es = (if length es > n then Some (fst (last (take n es))) else None)"

definition collect_from_memtable :: "bytes \<Rightarrow> nat \<Rightarrow> int \<Rightarrow> MemTable \<Rightarrow> scan_map \<Rightarrow> scan_map" where
  "collect_from_memtable start n now_ms t acc =
     (let es = MemTable_range_from start t in
      (fold (\<lambda>(k, e). bt_insert k (entry_to_live e now_ms)) (take n es) (fst acc), note_cut (cut_at n es) (snd acc)))"

fun raw_record :: "Entry \<Rightarrow> Record option" where
  "raw_record Entry_Delete = None"
| "raw_record (Entry_Put r) = Some r"

definition collect_from_file :: "checksum \<Rightarrow> Db \<Rightarrow> bytes \<Rightarrow> nat \<Rightarrow> FileMeta \<Rightarrow> scan_map \<Rightarrow> scan_map rust" where
  "collect_from_file crc db start n f acc =
     (if fm_max_key f < start then Inr acc
      else
        rbind (open_table crc db f) (\<lambda>t.
          let (es, err) = SsTable_iter crc t; es = filter (\<lambda>(k, _). \<not> k < start) es;
              acc' = (fold (\<lambda>(k, e). bt_insert k (raw_record e)) (take n es) (fst acc), note_cut (cut_at n es) (snd acc)) in
          if length es > n then Inr acc' else case err of Some e \<Rightarrow> Inl e | None \<Rightarrow> Inr acc'))"

fun collect_files :: "checksum \<Rightarrow> Db \<Rightarrow> bytes \<Rightarrow> nat \<Rightarrow> FileMeta list \<Rightarrow> scan_map \<Rightarrow> scan_map rust" where
  "collect_files crc db start n [] acc = Inr acc"
| "collect_files crc db start n (f # fs) acc =
     rbind (collect_from_file crc db start n f acc) (collect_files crc db start n fs)"

fun emit_page :: "nat \<Rightarrow> bytes option \<Rightarrow> (bytes \<times> Record) list \<Rightarrow> (bytes, Record option) btree \<Rightarrow> (bytes \<times> Record) list \<times> bytes option" where
  "emit_page limit boundary out [] = (out, None)"
| "emit_page limit boundary out ((k, v) # m) =
     (if length out = limit then (out, Some k)
      else if (case boundary of Some b \<Rightarrow> k > b | None \<Rightarrow> False) then (out, None)
      else emit_page limit boundary (case v of Some r \<Rightarrow> out @ [(k, r)] | None \<Rightarrow> out) m)"

definition successor :: "bytes \<Rightarrow> bytes" where
  "successor k = k @ [mkbyte 0]"

definition Db_scan :: "checksum \<Rightarrow> bytes \<Rightarrow> nat \<Rightarrow> int \<Rightarrow> Db \<Rightarrow> ((bytes \<times> Record) list \<times> bytes option) rust" where
  "Db_scan crc start limit now_ms db =
     (let limit = max limit 1; n = limit + 1; v = db_version db;
          tables = map snd (rev (db_immutable db)) @ [db_active db];
          (newest, boundary) = fold (collect_from_memtable start n now_ms) tables ([], None);
          files = concat (map (Version_level v) (rev [1 ..< length v])) @ rev (Version_level v 0) in
      rbind (collect_files crc db start n files ([], boundary)) (\<lambda>(scan_map, boundary).
        let scan_map = fold (\<lambda>(k, r). bt_insert k r) newest scan_map;
            (out, nxt) = emit_page limit boundary [] scan_map in
        Inr (out, case nxt of Some k \<Rightarrow> Some k | None \<Rightarrow> map_option successor boundary)))"

text \<open>
  \<open>exact_len\<close>; the first argument bounds the number of pages, \<open>None\<close> stands for a loop that needs more.
\<close>

fun exact_len :: "nat \<Rightarrow> checksum \<Rightarrow> bytes \<Rightarrow> int \<Rightarrow> Db \<Rightarrow> nat rust option" where
  "exact_len 0 crc start now_ms db = None"
| "exact_len (Suc n) crc start now_ms db =
     (case Db_scan crc start 10000 now_ms db of
        Inl e \<Rightarrow> Some (Inl e)
      | Inr (page, None) \<Rightarrow> Some (Inr (length page))
      | Inr (page, Some k) \<Rightarrow> map_option (\<lambda>r. rbind r (\<lambda>total. Inr (length page + total))) (exact_len n crc k now_ms db))"

definition I64_MIN :: int where
  "I64_MIN = - (2 ^ 63)"

text \<open>\<open>flush_all\<close> has its own bound; \<open>None\<close> is a call that has not returned after that many pages.\<close>

fun flush_all :: "nat \<Rightarrow> checksum \<Rightarrow> Options \<Rightarrow> db_io \<Rightarrow> nat \<Rightarrow> bytes \<Rightarrow> Db \<Rightarrow> unit rust option \<times> Db" where
  "flush_all 0 crc opts io page_size start db = (None, db)"
| "flush_all (Suc n) crc opts io page_size start db =
     (case Db_scan crc start page_size I64_MIN db of
        Inl e \<Rightarrow> (Some (Inl e), db)
      | Inr (page, nxt) \<Rightarrow>
          (case (if page \<noteq> [] then Db_write crc opts io (map (\<lambda>(k, _). (k, Entry_Delete)) page) db else (Inr 0, db)) of
             (Inl e, db) \<Rightarrow> (Some (Inl e), db)
           | (Inr _, db) \<Rightarrow>
               (case nxt of None \<Rightarrow> (Some (Inr ()), db) | Some k \<Rightarrow> flush_all n crc opts io page_size k db)))"

definition Db_flush_all :: "nat \<Rightarrow> checksum \<Rightarrow> Options \<Rightarrow> db_io \<Rightarrow> Db \<Rightarrow> unit rust option \<times> Db" where
  "Db_flush_all n crc opts io db = flush_all n crc opts io 10000 [] db"

section \<open>Reporting\<close>

definition estimated_len :: "Db \<Rightarrow> nat" where
  "estimated_len db =
     Version_total_entries (db_version db) + MemTable_len (db_active db) + (\<Sum>(_, t) \<leftarrow> db_immutable db. MemTable_len t)"

record db_stats =
  ds_keys :: nat
  ds_disk_bytes :: nat
  ds_memory_bytes :: nat
  ds_level_files :: "nat list"
  ds_level_bytes :: "nat list"

definition Db_stats :: "Db \<Rightarrow> db_stats" where
  "Db_stats db =
     \<lparr>ds_keys = estimated_len db, ds_disk_bytes = Version_total_bytes (db_version db),
      ds_memory_bytes = mt_bytes (db_active db) + (\<Sum>(_, t) \<leftarrow> db_immutable db. mt_bytes t),
      ds_level_files = map (\<lambda>l. length (Version_level (db_version db) l)) [0 ..< length (db_version db)],
      ds_level_bytes = map (Version_level_bytes (db_version db)) [0 ..< length (db_version db)]\<rparr>"

section \<open>Opening\<close>

fun replay_logs :: "checksum \<Rightarrow> nat list \<Rightarrow> MemTable \<Rightarrow> nat \<Rightarrow> (nat, bytes) btree \<Rightarrow> (MemTable \<times> nat \<times> (nat, bytes) btree) rust" where
  "replay_logs crc [] mem last_seq logs = Inr (mem, last_seq, logs)"
| "replay_logs crc (number # numbers) mem last_seq logs =
     rbind (replay crc (map_of logs number)) (\<lambda>r.
       replay_logs crc numbers (fold (\<lambda>(_, muts). insert_all muts) (rp_batches r) mem)
         (fold (\<lambda>(seq, _). max seq) (rp_batches r) last_seq)
         (case rp_file r of None \<Rightarrow> logs | Some file \<Rightarrow> bt_insert number file logs))"

definition Db_open :: "checksum \<Rightarrow> Options \<Rightarrow> db_io \<Rightarrow> Disk \<Rightarrow> Db rust" where
  "Db_open crc opts io disk =
     rbind (Manifest_load crc (dk_manifest disk)) (\<lambda>man.
       let logs = filter (\<lambda>n. n \<ge> mf_log_number man) (map fst (dk_logs disk)) in
       rbind (replay_logs crc logs MemTable_new (mf_last_sequence man) (dk_logs disk)) (\<lambda>(mem, last_seq, files).
         let (log_number, man) = allocate_file_number (man\<lparr>mf_last_sequence := last_seq\<rparr>) in
         if \<not> io_create_log io then Inl Io
         else
           let man = man\<lparr>mf_log_number := log_number\<rparr>;
               (r, final) = Manifest_store crc (io_store io 0) man (dk_manifest disk);
               ssts = filter (\<lambda>(n, _). n \<in> set (Version_file_numbers (mf_version man))) (dk_ssts disk);
               left = filter (\<lambda>(n, _). n < log_number \<and> n \<notin> set logs) files in
           rbind r (\<lambda>_.
             if \<not> io_remove io then Inl Io
             else
               let db = \<lparr>db_active = mem, db_immutable = [],
                         db_log = Wal_create crc log_number last_seq (op_sync_policy opts),
                         db_version = mf_version man, db_manifest = man,
                         db_disk = \<lparr>dk_manifest = final, dk_ssts = ssts, dk_logs = left\<rparr>,
                         db_pending = [], db_pointer = (\<lambda>_. []), db_stopping = False, db_fatal = None\<rparr> in
               (case maybe_freeze crc opts io db of (Inl e, _) \<Rightarrow> Inl e | (Inr _, db) \<Rightarrow> Inr db))))"

text \<open>What the directory holds when the process stops existing.\<close>

definition disk_of :: "Db \<Rightarrow> Disk" where
  "disk_of db = (db_disk db)\<lparr>dk_logs := bt_insert (wl_number (db_log db)) (wl_file (db_log db)) (dk_logs (db_disk db))\<rparr>"

definition empty_disk :: Disk where
  "empty_disk = \<lparr>dk_manifest = None, dk_ssts = [], dk_logs = []\<rparr>"

end
