(* ===== verification/Lsm_View.thy ===== *)
theory Lsm_View
  imports Lsm_Db
begin

text \<open>
  What the tree of \<open>Lsm_Db\<close> holds: the newest entry of each key over the memtables, level 0 and the
  levels below. The lemmas show that \<open>get\<close> returns it and that writing, freezing, flushing and compacting
  treat it as they should, whatever fails on the way.
\<close>

section \<open>The newest entry\<close>

fun orelse :: "'a option \<Rightarrow> 'a option \<Rightarrow> 'a option" where
  "orelse None y = y"
| "orelse (Some x) y = Some x"

fun first_some :: "'a option list \<Rightarrow> 'a option" where
  "first_some [] = None"
| "first_some (x # xs) = orelse x (first_some xs)"

lemma orelse_simps [simp]: "orelse x None = x" "orelse (orelse x y) z = orelse x (orelse y z)"
  "orelse x y = None \<longleftrightarrow> x = None \<and> y = None"
  by (cases x; simp)+

lemma first_some_append: "first_some (xs @ ys) = orelse (first_some xs) (first_some ys)"
  by (induction xs) simp_all

lemma first_some_None_iff: "first_some xs = None \<longleftrightarrow> (\<forall>x\<in>set xs. x = None)"
  by (induction xs) auto

lemma first_some_unique: "y \<in> set xs \<Longrightarrow> y \<noteq> None \<Longrightarrow> (\<And>x. x \<in> set xs \<Longrightarrow> x = None \<or> x = y) \<Longrightarrow> first_some xs = y"
proof (induction xs)
  case (Cons x xs)
  show ?case
  proof (cases "x = None")
    case True
    with Cons show ?thesis by auto
  next
    case False
    with Cons.prems(3) [of x] show ?thesis by auto
  qed
qed simp

definition ents :: "checksum \<Rightarrow> (nat, bytes) btree \<Rightarrow> FileMeta \<Rightarrow> (bytes \<times> Entry) list" where
  "ents crc ssts f =
     (case map_of ssts (fm_number f) of
        None \<Rightarrow> []
      | Some file \<Rightarrow> (case SsTable_open crc file of Inl e \<Rightarrow> [] | Inr t \<Rightarrow> fst (SsTable_iter crc t)))"

definition files_view :: "checksum \<Rightarrow> (nat, bytes) btree \<Rightarrow> FileMeta list \<Rightarrow> bytes \<Rightarrow> Entry option" where
  "files_view crc ssts fs key = first_some (map (\<lambda>f. map_of (ents crc ssts f) key) fs)"

definition tables_view :: "MemTable list \<Rightarrow> bytes \<Rightarrow> Entry option" where
  "tables_view ts key = first_some (map (\<lambda>t. map_of (mt_map t) key) ts)"

definition db_tables :: "Db \<Rightarrow> MemTable list" where
  "db_tables db = db_active db # map snd (db_immutable db)"

definition tree_view :: "checksum \<Rightarrow> Db \<Rightarrow> bytes \<Rightarrow> Entry option" where
  "tree_view crc db key =
     orelse (tables_view (db_tables db) key) (files_view crc (dk_ssts (db_disk db)) (concat (db_version db)) key)"

section \<open>The invariant\<close>

definition file_ok :: "checksum \<Rightarrow> (nat, bytes) btree \<Rightarrow> FileMeta \<Rightarrow> bool" where
  "file_ok crc ssts f \<longleftrightarrow>
     (\<exists>file es. map_of ssts (fm_number f) = Some file \<and> table_holds crc file es \<and> ascending es \<and> es \<noteq> []
        \<and> (\<forall>kv\<in>set es. entry_ok kv) \<and> fm_min_key f = fst (hd es) \<and> fm_max_key f = fst (last es))"

definition table_ok :: "MemTable \<Rightarrow> bool" where
  "table_ok t \<longleftrightarrow> MemTable_ok t \<and> (\<forall>kv\<in>set (mt_map t). entry_ok kv)"

definition parts_ok :: "checksum \<Rightarrow> MemTable list \<Rightarrow> Version \<Rightarrow> (nat, bytes) btree \<Rightarrow> nat \<Rightarrow> nat list list \<Rightarrow> bool" where
  "parts_ok crc ts v ssts fresh pending \<longleftrightarrow>
     (\<forall>t\<in>set ts. table_ok t) \<and> version_ok v \<and> ascending ssts
     \<and> (\<forall>f\<in>set (concat v). file_ok crc ssts f \<and> fm_number f < fresh)
     \<and> (\<forall>n\<in>set (concat pending). n < fresh \<and> n \<notin> fm_number ` set (concat v))"

definition db_ok :: "checksum \<Rightarrow> Db \<Rightarrow> bool" where
  "db_ok crc db =
     parts_ok crc (db_tables db) (db_version db) (dk_ssts (db_disk db)) (mf_next_file_number (db_manifest db)) (db_pending db)"

lemma parts_ok_next: "parts_ok crc ts v ssts n pending \<Longrightarrow> n \<le> n' \<Longrightarrow> parts_ok crc ts v ssts n' pending"
  unfolding parts_ok_def by fastforce

lemma parts_ok_tables: "parts_ok crc ts v ssts n pending \<Longrightarrow> \<forall>t\<in>set ts'. table_ok t \<Longrightarrow> parts_ok crc ts' v ssts n pending"
  unfolding parts_ok_def by blast

lemma file_ok_facts:
  assumes "file_ok crc ssts f"
  shows "\<exists>file t. map_of ssts (fm_number f) = Some file \<and> SsTable_open crc file = Inr t
      \<and> (\<forall>key. SsTable_get crc key t = Inr (map_of (ents crc ssts f) key))
      \<and> (\<forall>key. \<not> SsTable_may_contain key t \<longrightarrow> map_of (ents crc ssts f) key = None)
      \<and> SsTable_iter crc t = (ents crc ssts f, None)"
    and "ascending (ents crc ssts f)" "ents crc ssts f \<noteq> []" "\<forall>kv\<in>set (ents crc ssts f). entry_ok kv"
    and "fm_min_key f = fst (hd (ents crc ssts f))" "fm_max_key f = fst (last (ents crc ssts f))"
proof -
  from assms obtain "file" es t where w: "map_of ssts (fm_number f) = Some file" "SsTable_open crc file = Inr t"
    "\<forall>key. SsTable_get crc key t = Inr (map_of es key)" "\<forall>key. \<not> SsTable_may_contain key t \<longrightarrow> map_of es key = None"
    "SsTable_iter crc t = (es, None)" "ascending es" "es \<noteq> []" "\<forall>kv\<in>set es. entry_ok kv"
    "fm_min_key f = fst (hd es)" "fm_max_key f = fst (last es)"
    unfolding file_ok_def table_holds_def by blast
  have e: "ents crc ssts f = es" by (simp add: ents_def w)
  show "\<exists>file t. map_of ssts (fm_number f) = Some file \<and> SsTable_open crc file = Inr t
      \<and> (\<forall>key. SsTable_get crc key t = Inr (map_of (ents crc ssts f) key))
      \<and> (\<forall>key. \<not> SsTable_may_contain key t \<longrightarrow> map_of (ents crc ssts f) key = None)
      \<and> SsTable_iter crc t = (ents crc ssts f, None)"
    unfolding e using w(1-5) by blast
  show "ascending (ents crc ssts f)" "ents crc ssts f \<noteq> []" "\<forall>kv\<in>set (ents crc ssts f). entry_ok kv"
    "fm_min_key f = fst (hd (ents crc ssts f))" "fm_max_key f = fst (last (ents crc ssts f))"
    unfolding e by (fact w)+
qed

lemma file_range:
  assumes "file_ok crc ssts f" "(key, e) \<in> set (ents crc ssts f)"
  shows "FileMeta_may_contain key f"
  using keys_in_range [OF file_ok_facts(2) [OF assms(1)] assms(2)] file_ok_facts(3,5,6) [OF assms(1)]
  by (simp add: FileMeta_may_contain_def first_key_of_def last_key_of_def)

lemma out_of_range: "file_ok crc ssts f \<Longrightarrow> \<not> FileMeta_may_contain key f \<Longrightarrow> map_of (ents crc ssts f) key = None"
  using file_range [of crc ssts f key] by (auto simp: map_of_eq_None_iff)

section \<open>Reading\<close>

lemma entry_to_live_eq: "entry_to_live e now = Entry_live e now"
  by (cases e) auto

definition read_entry :: "int \<Rightarrow> Entry option \<Rightarrow> Record option" where
  "read_entry now e = (case e of None \<Rightarrow> None | Some e \<Rightarrow> Entry_live e now)"

lemma first_mem_view: "first_mem key now ts = map_option (\<lambda>e. Entry_live e now) (tables_view ts key)"
  by (induction ts) (auto simp: tables_view_def MemTable_lookup_live split: option.splits)

lemma lookup_file_view:
  assumes "file_ok crc (dk_ssts (db_disk db)) f"
  shows "lookup_file crc key now db f = Inr (map_option (\<lambda>e. Entry_live e now) (map_of (ents crc (dk_ssts (db_disk db)) f) key))"
proof -
  let ?es = "ents crc (dk_ssts (db_disk db)) f"
  obtain "file" t where t: "map_of (dk_ssts (db_disk db)) (fm_number f) = Some file" "SsTable_open crc file = Inr t"
    "\<forall>key. SsTable_get crc key t = Inr (map_of ?es key)"
    "\<forall>key. \<not> SsTable_may_contain key t \<longrightarrow> map_of ?es key = None"
    using file_ok_facts(1) [OF assms] by blast
  show ?thesis
  proof (cases "FileMeta_may_contain key f")
    case False
    then have "map_of ?es key = None" by (rule out_of_range [OF assms])
    with False show ?thesis by (simp add: lookup_file_def)
  next
    case True
    then show ?thesis using t by (auto simp: lookup_file_def open_table_def entry_to_live_eq split: option.splits)
  qed
qed

lemma first_file_view:
  assumes "\<forall>f\<in>set fs. file_ok crc (dk_ssts (db_disk db)) f"
  shows "first_file crc key now db fs = Inr (map_option (\<lambda>e. Entry_live e now) (files_view crc (dk_ssts (db_disk db)) fs key))"
  using assms by (induction fs) (auto simp: files_view_def lookup_file_view split: option.splits)

lemma files_view_append:
  "files_view crc ssts (fs @ gs) key = orelse (files_view crc ssts fs key) (files_view crc ssts gs key)"
  by (simp add: files_view_def first_some_append)

text \<open>Below level 0 the file that the binary search finds is the only one with the key.\<close>

lemma level_view:
  assumes "files_ok level fs" "level \<noteq> 0" "fs = Version_level v level" "\<forall>f\<in>set fs. file_ok crc ssts f"
  shows "files_view crc ssts fs key =
    files_view crc ssts (case Version_find_in_level v level key of None \<Rightarrow> [] | Some f \<Rightarrow> [f]) key"
proof (cases "Version_find_in_level v level key")
  case None
  have "map_of (ents crc ssts f) key = None" if "f \<in> set fs" for f
    using find_in_level_iff [OF assms(1-3), of key f] None that assms(4) by (intro out_of_range) auto
  with None show ?thesis by (auto simp: files_view_def first_some_None_iff)
next
  case (Some f)
  note find = find_in_level_iff [OF assms(1-3), of key]
  have f: "f \<in> set fs" using find [of f] Some by simp
  have other: "map_of (ents crc ssts g) key = None" if "g \<in> set fs" "g \<noteq> f" for g
    using find [of g] Some that assms(4) by (intro out_of_range) auto
  show ?thesis
  proof (cases "map_of (ents crc ssts f) key")
    case None
    with other have "\<forall>g\<in>set fs. map_of (ents crc ssts g) key = None" by blast
    with Some None show ?thesis by (auto simp: files_view_def first_some_None_iff)
  next
    case (Some e)
    then have "first_some (map (\<lambda>f. map_of (ents crc ssts f) key) fs) = Some e"
      by (intro first_some_unique) (use f other in force)+
    with Some \<open>Version_find_in_level v level key = Some f\<close> show ?thesis by (simp add: files_view_def)
  qed
qed

lemma concat_levels: "concat v = concat (map (Version_level v) [0 ..< length v])"
  by (rule arg_cong [of _ _ concat], rule nth_equalityI) (auto simp: Version_level_def)

lemma candidates_view:
  assumes "version_ok v" "\<forall>f\<in>set (concat v). file_ok crc ssts f"
  shows "files_view crc ssts (candidates v key) key = files_view crc ssts (concat (map (Version_level v) [1 ..< length v])) key"
proof -
  have "files_view crc ssts (concat (map (\<lambda>level. case Version_find_in_level v level key of None \<Rightarrow> [] | Some f \<Rightarrow> [f]) ls)) key
      = files_view crc ssts (concat (map (Version_level v) ls)) key" if "\<forall>l\<in>set ls. l \<noteq> 0 \<and> l < length v" for ls
    using that
  proof (induction ls)
    case (Cons l ls)
    have "files_view crc ssts (Version_level v l) key =
        files_view crc ssts (case Version_find_in_level v l key of None \<Rightarrow> [] | Some f \<Rightarrow> [f]) key"
      by (rule level_view [OF files_ok_level [OF assms(1)] _ refl]) (use Cons.prems assms(2) in \<open>auto simp: Version_level_def\<close>)
    with Cons show ?case by (simp add: files_view_append)
  qed simp
  from this [of "[1 ..< length v]"] show ?thesis by (simp add: candidates_def)
qed

lemma get_view:
  assumes "db_ok crc db"
  shows "Db_get crc key now db = Inr (read_entry now (tree_view crc db key))"
proof -
  let ?v = "db_version db" and ?ssts = "dk_ssts (db_disk db)"
  have v: "version_ok ?v" and files: "\<forall>f\<in>set (concat ?v). file_ok crc ?ssts f" using assms by (auto simp: db_ok_def parts_ok_def)
  have "0 < length ?v" using v by (cases ?v) (auto simp: version_ok_def MAX_LEVELS_def)
  then have split: "concat ?v = Version_level ?v 0 @ concat (map (Version_level ?v) [1 ..< length ?v])"
    by (subst concat_levels) (simp add: upt_conv_Cons)
  have "\<forall>f\<in>set (Version_level ?v 0). file_ok crc ?ssts f" using files split by auto
  note l0 = first_file_view [OF this]
  have "\<forall>f\<in>set (candidates ?v key). file_ok crc ?ssts f"
  proof
    fix f assume "f \<in> set (candidates ?v key)"
    then obtain l where l: "l \<in> {1 ..< length ?v}" "Version_find_in_level ?v l key = Some f"
      by (auto simp: candidates_def split: option.splits)
    then have "f \<in> set (Version_level ?v l)"
      using find_in_level_iff [OF files_ok_level [OF v, of l] _ refl, of key f] by auto
    with files l show "file_ok crc ?ssts f" by (auto simp: Version_level_def split: if_splits)
  qed
  note deep = first_file_view [OF this]
  show ?thesis
    unfolding Db_get_def first_mem_view l0 deep candidates_view [OF v files] tree_view_def split files_view_append db_tables_def
    by (auto simp: read_entry_def split: option.splits)
qed

section \<open>Writing and freezing\<close>

definition typed :: "mutation list \<Rightarrow> bool" where
  "typed muts \<longleftrightarrow> (\<forall>kv\<in>set muts. case snd kv of Entry_Put r \<Rightarrow> is_i64 (ExpireAt r) | Entry_Delete \<Rightarrow> True)"

lemma insert_all_map:
  "ascending (mt_map t) \<Longrightarrow> map_of (mt_map (insert_all muts t)) key = orelse (map_of (rev muts) key) (map_of (mt_map t) key)"
  unfolding insert_all_def
proof (induction muts arbitrary: t)
  case (Cons kv muts)
  obtain k e where kv: "kv = (k, e)" by (cases kv)
  have "ascending (mt_map (MemTable_insert k e t))" using Cons.prems by simp
  from Cons.IH [OF this] Cons.prems show ?case
    by (auto simp: kv map_add_def split: option.splits)
qed simp

lemma insert_all_ok: "table_ok t \<Longrightarrow> \<forall>kv\<in>set muts. entry_ok kv \<Longrightarrow> table_ok (insert_all muts t)"
  unfolding insert_all_def
proof (induction muts arbitrary: t)
  case (Cons kv muts)
  obtain k e where kv: "kv = (k, e)" by (cases kv)
  have "table_ok (MemTable_insert k e t)"
    using Cons.prems by (auto simp: table_ok_def kv MemTable_insert_ok set_bt_insert MemTable_ok_def [of t])
  with Cons kv show ?case by simp
qed simp

lemma tables_view_Cons: "tables_view (t # ts) key = orelse (map_of (mt_map t) key) (tables_view ts key)"
  by (simp add: tables_view_def)

lemma Wal_append_batch_ok: "Wal_append crc io muts w = (Inr seq, w') \<Longrightarrow> typed muts \<Longrightarrow> batch_ok muts"
proof -
  assume a: "Wal_append crc io muts w = (Inr seq, w')" "typed muts"
  have "length (encode_batch_rs muts) \<le> MAX_RECORD"
    by (rule ccontr) (use a(1) in \<open>simp add: Wal_append_def not_le\<close>)
  with a(2) show "batch_ok muts" by (simp add: typed_def batch_ok_def)
qed

lemma write_apply_ok:
  assumes "db_ok crc db" "typed muts" "write_apply crc io muts db = (r, db')"
  shows "db_ok crc db'"
    and "tree_view crc db' key = (case r of Inl _ \<Rightarrow> tree_view crc db key | Inr _ \<Rightarrow> orelse (map_of (rev muts) key) (tree_view crc db key))"
proof -
  obtain ra w where wa: "Wal_append crc (io_log io) muts (db_log db) = (ra, w)" by fastforce
  have ts: "\<forall>t\<in>set (db_tables db). table_ok t" using assms(1) by (simp add: db_ok_def parts_ok_def)
  then have act: "table_ok (db_active db)" by (simp add: db_tables_def)
  have "\<forall>t\<in>set (db_tables db'). table_ok t"
  proof (cases ra)
    case (Inr seq)
    have "table_ok (insert_all muts (db_active db))"
      using insert_all_ok [OF act] batch_ok_entries [OF Wal_append_batch_ok [OF _ assms(2)]] wa Inr by blast
    with ts assms(3) wa Inr show ?thesis by (auto simp: write_apply_def db_tables_def)
  qed (use ts assms(3) wa in \<open>auto simp: write_apply_def db_tables_def\<close>)
  moreover have "db_version db' = db_version db" "db_disk db' = db_disk db" "db_manifest db' = db_manifest db" "db_pending db' = db_pending db"
    using assms(3) by (auto simp: write_apply_def split: prod.splits sum.splits)
  ultimately show "db_ok crc db'" using assms(1) unfolding db_ok_def by (simp add: parts_ok_tables)
  have "ascending (mt_map (db_active db))" using act by (simp add: table_ok_def MemTable_ok_def)
  from insert_all_map [OF this, of muts key] assms(3) wa
  show "tree_view crc db' key = (case r of Inl _ \<Rightarrow> tree_view crc db key | Inr _ \<Rightarrow> orelse (map_of (rev muts) key) (tree_view crc db key))"
    by (cases ra) (auto simp: write_apply_def tree_view_def db_tables_def tables_view_Cons)
qed

lemma log_only: "db_ok crc (db\<lparr>db_log := w\<rparr>) = db_ok crc db" "tree_view crc (db\<lparr>db_log := w\<rparr>) = tree_view crc db"
  by (simp_all add: db_ok_def db_tables_def tree_view_def fun_eq_iff)

lemma write_commit_ok:
  assumes "write_commit io seq db = (r, db')"
  shows "db_ok crc db' = db_ok crc db" "tree_view crc db' = tree_view crc db"
  using assms by (auto simp: write_commit_def log_only split: prod.splits)

lemma table_ok_new [simp]: "table_ok MemTable_new"
  unfolding table_ok_def by (simp add: MemTable_new_ok) (simp add: MemTable_new_def)

lemma freeze_ok:
  assumes "db_ok crc db" "force_freeze crc opts io db = (r, db')"
  shows "db_ok crc db'" "tree_view crc db' = tree_view crc db"
proof -
  obtain rf w where fl: "Wal_flush (io_log io) (db_log db) = (rf, w)" by fastforce
  have new: "tables_view (MemTable_new # ts) = tables_view ts" for ts
    by (simp add: fun_eq_iff tables_view_Cons MemTable_new_def)
  have kept: "db_version db' = db_version db" "dk_ssts (db_disk db') = dk_ssts (db_disk db)" "db_pending db' = db_pending db"
    "mf_next_file_number (db_manifest db) \<le> mf_next_file_number (db_manifest db')"
    "db_tables db' = db_tables db \<or> db_tables db' = MemTable_new # db_tables db"
    using assms(2) fl by (cases rf; auto simp: force_freeze_def allocate_file_number_def Let_def db_tables_def split: if_splits)+
  have "\<forall>t\<in>set (db_tables db'). table_ok t" using assms(1) kept(5) by (auto simp: db_ok_def parts_ok_def)
  then show "db_ok crc db'" using parts_ok_next [OF parts_ok_tables] assms(1) kept unfolding db_ok_def by metis
  show "tree_view crc db' = tree_view crc db" using kept new by (auto simp: tree_view_def fun_eq_iff)
qed

section \<open>Flushing\<close>

lemma same_file:
  assumes "map_of ssts' (fm_number f) = map_of ssts (fm_number f)"
  shows "ents crc ssts' f = ents crc ssts f" "file_ok crc ssts' f = file_ok crc ssts f"
  using assms by (simp_all add: ents_def file_ok_def)

lemma same_files_view:
  assumes "\<And>f. f \<in> set fs \<Longrightarrow> map_of ssts' (fm_number f) = map_of ssts (fm_number f)"
  shows "files_view crc ssts' fs = files_view crc ssts fs"
proof
  fix key
  have "map (\<lambda>f. map_of (ents crc ssts' f) key) fs = map (\<lambda>f. map_of (ents crc ssts f) key) fs"
    using same_file(1) [OF assms, of _ crc] by (intro map_cong) simp_all
  then show "files_view crc ssts' fs key = files_view crc ssts fs key" by (simp only: files_view_def)
qed

lemma sort_newest:
  assumes "sorted_wrt (\<lambda>f g. fm_number f > fm_number g) fs" "\<forall>g\<in>set fs. fm_number g < fm_number f"
  shows "sort_files 0 (fs @ [f]) = f # fs"
proof -
  let ?key = "\<lambda>f. - int (fm_number f)"
  have "sort_key ?key (fs @ [f]) = f # fs"
  proof (rule properties_for_sort_key)
    show "filter (\<lambda>x. ?key k = ?key x) (f # fs) = filter (\<lambda>x. ?key k = ?key x) (fs @ [f])" if "k \<in> set (f # fs)" for k
    proof (cases "fm_number k = fm_number f")
      case True
      then have "filter (\<lambda>x. ?key k = ?key x) fs = []" using assms(2) by (auto simp: filter_empty_conv)
      with True show ?thesis by simp
    qed auto
    have "sorted_wrt (\<lambda>f g. ?key f \<le> ?key g) fs" by (rule sorted_wrt_mono_rel [OF _ assms(1)]) simp
    then show "sorted (map ?key (f # fs))" using assms(2) by (auto simp: sorted_map)
  qed auto
  then show ?thesis by (simp add: sort_files_def)
qed

lemma add_newest:
  assumes "version_ok v" "\<forall>g\<in>set (concat v). fm_number g < fm_number f" "fm_min_key f \<le> fm_max_key f"
  shows "concat (Version_add_file 0 f v) = f # concat v" "version_ok (Version_add_file 0 f v)"
proof -
  obtain l0 v' where v: "v = l0 # v'" using assms(1) by (cases v) (auto simp: version_ok_def MAX_LEVELS_def)
  have l0: "files_ok 0 l0" using assms(1) by (auto simp: version_ok_def v)
  have "sort_files 0 (l0 @ [f]) = f # l0"
    by (rule sort_newest) (use l0 assms(2) in \<open>auto simp: files_ok_def v\<close>)
  then have add: "Version_add_file 0 f v = (f # l0) # v'" by (simp add: Version_add_file_def v Let_def)
  show "concat (Version_add_file 0 f v) = f # concat v" unfolding add by (simp add: v)
  have "files_ok 0 (f # l0)" using l0 assms(2,3) by (auto simp: files_ok_def v)
  then have "\<forall>level < length ((f # l0) # v'). files_ok level (((f # l0) # v') ! level)"
    using assms(1) by (auto simp: version_ok_def v nth_Cons split: nat.splits)
  moreover have "distinct (map fm_number (concat ((f # l0) # v')))" using assms(1,2) by (auto simp: version_ok_def v)
  ultimately show "version_ok (Version_add_file 0 f v)" using assms(1) unfolding add by (simp add: version_ok_def v)
qed

lemma store_manifest_facts:
  assumes "store_manifest crc io db = (r, db')"
  shows "db_active db' = db_active db" "db_immutable db' = db_immutable db" "db_version db' = db_version db"
    "dk_ssts (db_disk db') = dk_ssts (db_disk db)" "db_pending db' = db_pending db" "db_manifest db' = db_manifest db" "db_log db' = db_log db"
  using assms by (auto simp: store_manifest_def split: prod.splits)

lemma retire_frozen_facts:
  assumes "retire_frozen crc io n db = (r, db')"
  shows "db_active db' = db_active db" "db_immutable db' = butlast (db_immutable db)" "db_version db' = db_version db"
    "dk_ssts (db_disk db') = dk_ssts (db_disk db)" "db_pending db' = db_pending db"
    "mf_next_file_number (db_manifest db') = mf_next_file_number (db_manifest db)"
proof -
  let ?db = "db\<lparr>db_immutable := butlast (db_immutable db)\<rparr>"
  obtain r1 db1 where st: "(if mf_log_number (db_manifest ?db) \<noteq> still_needed ?db
      then store_manifest crc (io_store io 1) (?db\<lparr>db_manifest := (db_manifest ?db)\<lparr>mf_log_number := still_needed ?db\<rparr>\<rparr>)
      else (Inr (), ?db)) = (r1, db1)" by fastforce
  have kept: "db_active db1 = db_active db \<and> db_immutable db1 = butlast (db_immutable db) \<and> db_version db1 = db_version db
    \<and> dk_ssts (db_disk db1) = dk_ssts (db_disk db) \<and> db_pending db1 = db_pending db
    \<and> mf_next_file_number (db_manifest db1) = mf_next_file_number (db_manifest db)"
  proof (cases "mf_log_number (db_manifest ?db) \<noteq> still_needed ?db")
    case True
    with st have "store_manifest crc (io_store io 1) (?db\<lparr>db_manifest := (db_manifest ?db)\<lparr>mf_log_number := still_needed ?db\<rparr>\<rparr>) = (r1, db1)" by simp
    note f = store_manifest_facts [OF this]
    show ?thesis using f by simp
  qed (use st in auto)
  have "db_active db' = db_active db1 \<and> db_immutable db' = db_immutable db1 \<and> db_version db' = db_version db1
    \<and> dk_ssts (db_disk db') = dk_ssts (db_disk db1) \<and> db_pending db' = db_pending db1 \<and> db_manifest db' = db_manifest db1"
    using assms unfolding retire_frozen_def Let_def st by (auto split: sum.splits if_splits)
  with kept show "db_active db' = db_active db" "db_immutable db' = butlast (db_immutable db)" "db_version db' = db_version db"
    "dk_ssts (db_disk db') = dk_ssts (db_disk db)" "db_pending db' = db_pending db"
    "mf_next_file_number (db_manifest db') = mf_next_file_number (db_manifest db)" by simp_all
qed

lemma db_ok_facts:
  assumes "db_active db' = db_active db" "db_immutable db' = db_immutable db" "db_version db' = db_version db"
    "dk_ssts (db_disk db') = dk_ssts (db_disk db)" "db_pending db' = db_pending db"
    "mf_next_file_number (db_manifest db) \<le> mf_next_file_number (db_manifest db')"
  shows "db_ok crc db \<Longrightarrow> db_ok crc db'" "tree_view crc db' = tree_view crc db"
proof -
  have t: "db_tables db' = db_tables db" using assms(1,2) by (simp add: db_tables_def)
  show "db_ok crc db \<Longrightarrow> db_ok crc db'"
    unfolding db_ok_def t assms(3-5) by (erule parts_ok_next) (rule assms(6))
  show "tree_view crc db' = tree_view crc db" by (rule ext) (simp add: tree_view_def t assms(3,4))
qed

lemma tables_view_snoc: "tables_view (ts @ [t]) key = orelse (tables_view ts key) (map_of (mt_map t) key)"
  by (simp add: tables_view_def first_some_append)

text \<open>A table that was written is the newest file of the tree.\<close>

lemma build_table_file:
  assumes "table_ok t" "op_block_size opts \<le> 2 ^ 30" "build_table crc opts works (mt_map t) = Inr (meta, file)"
    "mt_map t \<noteq> []" "ascending ssts"
    and f_def: "f = FileMeta_from_table number meta"
  shows "file_ok crc (bt_insert number file ssts) f" "ents crc (bt_insert number file ssts) f = mt_map t"
    "fm_number f = number" "fm_min_key f \<le> fm_max_key f" "tm_entry_count meta = length (mt_map t)"
proof -
  have asc: "ascending (mt_map t)" and ok: "\<forall>kv\<in>set (mt_map t). entry_ok kv"
    using assms(1) by (auto simp: table_ok_def MemTable_ok_def)
  from write_table_holds [OF assms(2) asc ok, of crc "op_bits_per_key opts"]
  have w: "is_u64 (length file) \<longrightarrow> table_holds crc file (mt_map t)" "length file < 2 ^ 63"
    "meta = \<lparr>tm_file_size = length file, tm_entry_count = length (mt_map t), tm_min_key = first_key_of (mt_map t), tm_max_key = last_key_of (mt_map t)\<rparr>"
    using assms(3) by (auto simp: build_table_def split: if_splits)
  from w(2) have "is_u64 (length file)" by (simp add: is_u64_def)
  with w(1) have holds: "table_holds crc file (mt_map t)" by blast
  show n: "fm_number f = number" by (simp add: f_def FileMeta_from_table_def)
  have m: "fm_min_key f = fst (hd (mt_map t))" "fm_max_key f = fst (last (mt_map t))"
    using assms(4) by (simp_all add: f_def FileMeta_from_table_def w(3) first_key_of_def last_key_of_def)
  show ok': "file_ok crc (bt_insert number file ssts) f"
    unfolding file_ok_def using holds asc ok assms(4,5) m by (intro exI [of _ "file"] exI [of _ "mt_map t"]) (simp add: n)
  show "ents crc (bt_insert number file ssts) f = mt_map t"
    using holds assms(5) by (auto simp: ents_def n table_holds_def)
  have "hd (mt_map t) \<in> set (mt_map t)" using assms(4) by simp
  then show "fm_min_key f \<le> fm_max_key f"
    using keys_in_range(2) [OF asc, of "fst (hd (mt_map t))" "snd (hd (mt_map t))"] assms(4) by (simp add: m last_key_of_def)
  show "tm_entry_count meta = length (mt_map t)" by (simp add: w(3))
qed

lemma flush_one_ok:
  assumes "db_ok crc db" "op_block_size opts \<le> 2 ^ 30" "flush_one crc opts io db = (r, db')"
  shows "db_ok crc db' \<and> tree_view crc db' = tree_view crc db"
proof (cases "db_immutable db = []")
  case True
  with assms show ?thesis by (simp add: flush_one_def)
next
  case False
  then obtain imm ln t where imm: "db_immutable db = imm @ [(ln, t)]" by (metis rev_exhaust surj_pair)
  let ?n = "mf_next_file_number (db_manifest db)"
  define man where "man = (db_manifest db)\<lparr>mf_next_file_number := ?n + 1\<rparr>"
  define db1 where "db1 = db\<lparr>db_manifest := man\<rparr>"
  have ok1: "db_ok crc db1" "tree_view crc db1 = tree_view crc db"
    using db_ok_facts [of db1 db] assms(1) by (simp_all add: db1_def man_def)
  have ts: "db_tables db = (db_active db # map snd imm) @ [t]" by (simp add: db_tables_def imm)
  have tv: "tables_view (db_tables db) key = orelse (tables_view (db_active db # map snd imm) key) (map_of (mt_map t) key)" for key
    unfolding ts tables_view_snoc ..
  have tok: "table_ok t" and tsok: "\<forall>t\<in>set (db_active db # map snd imm). table_ok t"
    using assms(1) by (auto simp: db_ok_def parts_ok_def ts)
  have fl: "flush_one crc opts io db =
     (case build_table crc opts (io_build io ?n) (mt_map t) of
          Inl e \<Rightarrow> (Inl e, db1)
        | Inr (meta, file) \<Rightarrow>
            if tm_entry_count meta = 0 then
              (case retire_frozen crc io ln db1 of (Inl e, db) \<Rightarrow> (Inl e, db) | (Inr _, db) \<Rightarrow> (Inr True, db))
            else
              let new_version = Version_add_file 0 (FileMeta_from_table ?n meta) (db_version db1);
                  man = (db_manifest db1)\<lparr>mf_version := new_version,
                    mf_last_sequence := max (mf_last_sequence (db_manifest db1)) (MemTable_len t)\<rparr>;
                  db = db1\<lparr>db_disk := (db_disk db1)\<lparr>dk_ssts := bt_insert ?n file (dk_ssts (db_disk db1))\<rparr>, db_manifest := man\<rparr> in
              case store_manifest crc (io_store io 0) db of
                (Inl e, db) \<Rightarrow> (Inl e, db)
              | (Inr _, db) \<Rightarrow>
                  (case retire_frozen crc io ln
                          (db\<lparr>db_version := new_version, db_pending := db_pending db @ [[]]\<rparr>) of
                     (Inl e, db) \<Rightarrow> (Inl e, db)
                   | (Inr _, db) \<Rightarrow> (Inr True, db)))"
    unfolding flush_one_def imm last_snoc allocate_file_number_def Let_def prod.case db1_def man_def
    by (simp only: append_is_Nil_conv list.distinct simp_thms if_False)
  show ?thesis
  proof (cases "build_table crc opts (io_build io ?n) (mt_map t)")
    case (Inl e)
    with fl assms(3) ok1 show ?thesis by simp
  next
    case (Inr mf)
    obtain meta "file" where mf: "mf = (meta, file)" by (cases mf)
    have cnt: "tm_entry_count meta = length (mt_map t)"
    proof -
      have asc: "ascending (mt_map t)" and ok: "\<forall>kv\<in>set (mt_map t). entry_ok kv"
        using tok by (auto simp: table_ok_def MemTable_ok_def)
      from write_table_holds [OF assms(2) asc ok, of crc "op_bits_per_key opts"] show ?thesis
        using Inr by (auto simp: mf build_table_def split: if_splits)
    qed
    show ?thesis
    proof (cases "mt_map t = []")
      case True
      obtain r1 where rt: "retire_frozen crc io ln db1 = (r1, db')"
        using fl assms(3) Inr mf cnt True by (auto split: prod.splits sum.splits)
      note f = retire_frozen_facts [OF rt]
      have t': "db_tables db' = db_active db # map snd imm" using f by (simp add: db_tables_def db1_def imm)
      have "parts_ok crc (db_active db # map snd imm) (db_version db1) (dk_ssts (db_disk db1)) (mf_next_file_number (db_manifest db1)) (db_pending db1)"
        using ok1(1) tsok unfolding db_ok_def by (rule parts_ok_tables)
      then have "db_ok crc db'" unfolding db_ok_def t' f(3-6) .
      moreover have "tree_view crc db' = tree_view crc db"
        by (rule ext) (simp add: tree_view_def t' f(3,4) tv True db1_def)
      ultimately show ?thesis ..
    next
      case ne: False
      let ?f = "FileMeta_from_table ?n meta" and ?ssts = "dk_ssts (db_disk db)"
      let ?v = "Version_add_file 0 ?f (db_version db)"
      define db2 where "db2 = db1\<lparr>db_disk := (db_disk db1)\<lparr>dk_ssts := bt_insert ?n file (dk_ssts (db_disk db1))\<rparr>,
        db_manifest := (db_manifest db1)\<lparr>mf_version := ?v, mf_last_sequence := max (mf_last_sequence (db_manifest db1)) (MemTable_len t)\<rparr>\<rparr>"
      obtain r3 db3 where st: "store_manifest crc (io_store io 0) db2 = (r3, db3)" by fastforce
      note s = store_manifest_facts [OF st]
      have asc: "ascending ?ssts" and fok: "\<forall>g\<in>set (concat (db_version db)). file_ok crc ?ssts g \<and> fm_number g < ?n"
        and vok: "version_ok (db_version db)" and pok: "\<forall>n\<in>set (concat (db_pending db)). n < ?n \<and> n \<notin> fm_number ` set (concat (db_version db))"
        using assms(1) by (auto simp: db_ok_def parts_ok_def)
      note new = build_table_file [OF tok assms(2) Inr [unfolded mf] ne asc refl [of ?f]]
      have old: "map_of (bt_insert ?n file ?ssts) (fm_number g) = map_of ?ssts (fm_number g)" if "g \<in> set (concat (db_version db))" for g
        using fok that asc by fastforce
      have oldv: "files_view crc (bt_insert ?n file ?ssts) (concat (db_version db)) = files_view crc ?ssts (concat (db_version db))"
        by (rule same_files_view) (rule old)
      have oldok: "\<forall>g\<in>set (concat (db_version db)). file_ok crc (bt_insert ?n file ?ssts) g" using same_file(2) [OF old] fok by blast
      have v2: "concat ?v = ?f # concat (db_version db)" "version_ok ?v"
        using add_newest [OF vok, of ?f] fok new(3,4) by auto
      show ?thesis
      proof (cases r3)
        case (Inl e)
        then have db': "db' = db3" using fl assms(3) Inr mf cnt ne st [unfolded db2_def] by (simp add: Let_def db1_def)
        have "parts_ok crc (db_tables db) (db_version db) (bt_insert ?n file ?ssts) (?n + 1) (db_pending db)"
          using assms(1) oldok fok pok by (auto simp: db_ok_def parts_ok_def less_Suc_eq)
        then have "db_ok crc db'" using s unfolding db' by (simp add: db_ok_def db_tables_def db2_def db1_def man_def)
        moreover have "tree_view crc db' = tree_view crc db"
          using s oldv unfolding db' by (auto simp: tree_view_def db_tables_def db2_def db1_def fun_eq_iff)
        ultimately show ?thesis ..
      next
        case (Inr u)
        obtain r4 where rt: "retire_frozen crc io ln (db3\<lparr>db_version := ?v, db_pending := db_pending db3 @ [[]]\<rparr>) = (r4, db')"
          using fl assms(3) \<open>build_table crc opts (io_build io ?n) (mt_map t) = Inr mf\<close> mf cnt ne st [unfolded db2_def] Inr
          by (auto simp: Let_def db1_def split: prod.splits sum.splits)
        note f = retire_frozen_facts [OF rt]
        have t': "db_tables db' = db_active db # map snd imm" using f s by (simp add: db_tables_def db2_def db1_def imm)
        have fresh: "mf_next_file_number (db_manifest db') = ?n + 1" using f s by (simp add: db2_def db1_def man_def)
        have ssts': "dk_ssts (db_disk db') = bt_insert ?n file ?ssts" using f s by (simp add: db2_def db1_def)
        have pend: "concat (db_pending db') = concat (db_pending db)" using f s by (simp add: db2_def db1_def)
        have ver: "db_version db' = ?v" using f by simp
        have "parts_ok crc (db_active db # map snd imm) ?v (bt_insert ?n file ?ssts) (?n + 1) (db_pending db')"
          unfolding parts_ok_def v2(1) pend using tsok v2(2) asc oldok fok pok new(1,3) by (auto simp: less_Suc_eq)
        then have "db_ok crc db'" unfolding db_ok_def t' ver ssts' fresh .
        moreover have "tree_view crc db' = tree_view crc db"
          by (rule ext) (simp add: tree_view_def t' ver ssts' v2(1) tv files_view_def new(2) oldv [unfolded files_view_def fun_eq_iff, rule_format])
        ultimately show ?thesis ..
      qed
    qed
  qed
qed

end
