(* ===== verification/Lsm_Compact.thy ===== *)
theory Lsm_Compact
  imports Lsm_View
begin

text \<open>
  Compaction keeps what the tree holds, except that an entry which has expired, or a tombstone, may go
  when nothing below it could come back. The lemmas follow the code: the merge keeps the newest
  version of each key, the outputs hold what was kept, and the installed version answers as before.
\<close>

section \<open>The merge\<close>

lemma map_of_dropWhile_key:
  "ascending c \<Longrightarrow> (\<And>kv. kv \<in> set c \<Longrightarrow> k0 \<le> fst kv) \<Longrightarrow>
   map_of (dropWhile (\<lambda>kv. fst kv = k0) c) k = (if k = k0 then None else map_of c k)"
proof (induction c)
  case (Cons kv c)
  show ?case
  proof (cases "fst kv = k0")
    case False
    then have "k0 < fst kv" using Cons.prems(2) [of kv] by auto
    then have "k0 \<notin> fst ` set (kv # c)" using Cons.prems(1) by auto
    then have "map_of (kv # c) k0 = None" by (simp only: map_of_eq_None_iff not_False_eq_True)
    with False show ?thesis by auto
  qed (use Cons in auto)
qed simp

lemma dropWhile_key_gt:
  "ascending c \<Longrightarrow> (\<And>kv. kv \<in> set c \<Longrightarrow> k0 \<le> fst kv) \<Longrightarrow> kv \<in> set (dropWhile (\<lambda>kv. fst kv = k0) c) \<Longrightarrow> k0 < fst kv"
proof (induction c)
  case (Cons x c)
  show ?case
  proof (cases "fst x = k0")
    case True
    with Cons show ?thesis by auto
  next
    case False
    then have "k0 < fst x" using Cons.prems(2) [of x] by auto
    moreover have "kv = x \<or> fst x < fst kv" using False Cons.prems(1,3) by auto
    ultimately show ?thesis by auto
  qed
qed simp

lemma head_least: "ascending c \<Longrightarrow> c \<noteq> [] \<longrightarrow> k0 \<le> fst (hd c) \<Longrightarrow> kv \<in> set c \<Longrightarrow> k0 \<le> fst kv"
  by (cases c) (auto intro: order.trans less_imp_le)

lemma merge_step:
  assumes "\<forall>c\<in>set cs. ascending c" "pick_head 0 cs None = Some (w, k0, e)"
  defines "cs' \<equiv> advance_heads 0 w k0 cs"
  shows "\<forall>c\<in>set cs'. ascending c" "\<forall>c\<in>set cs'. \<forall>kv\<in>set c. k0 < fst kv"
    "first_some (map (\<lambda>c. map_of c k) cs) = (if k = k0 then Some e else first_some (map (\<lambda>c. map_of c k) cs'))"
    "set (concat cs') \<subseteq> set (concat cs)" "(k0, e) \<in> set (concat cs)"
proof -
  obtain pre s post where cs: "w = length pre" "cs = pre @ ((k0, e) # s) # post"
    and pre: "\<forall>c\<in>set pre. c \<noteq> [] \<longrightarrow> k0 < fst (hd c)" and post: "\<forall>c\<in>set post. c \<noteq> [] \<longrightarrow> k0 \<le> fst (hd c)"
    using pick_head_Some [OF assms(2)] by (auto simp: wins_def)
  let ?d = "dropWhile (\<lambda>kv. fst kv = k0)"
  have cs': "cs' = map ?d pre @ s # map ?d post" unfolding cs'_def cs by (rule advance_winner)
  have ge: "k0 \<le> fst kv" if "c \<in> set pre \<union> set post" "kv \<in> set c" for c kv
    using head_least [of c k0 kv] assms(1) pre post that by (auto simp: cs less_imp_le)
  have s: "ascending s" "\<forall>kv\<in>set s. k0 < fst kv" using assms(1) by (auto simp: cs)
  have asc: "ascending c" if "c \<in> set pre \<union> set post" for c using assms(1) that by (auto simp: cs)
  have "ascending (?d c)" if "c \<in> set pre \<union> set post" for c
    using asc [OF that] by (simp add: ascending_def sorted_wrt_dropWhile dropWhile_map [symmetric] comp_def)
      (metis (mono_tags, lifting) append_is_Nil_conv map_append sorted_wrt_append takeWhile_dropWhile_id)
  then show "\<forall>c\<in>set cs'. ascending c" using s(1) by (auto simp: cs')
  have "k0 < fst kv" if "c \<in> set pre \<union> set post" "kv \<in> set (?d c)" for c kv
    using dropWhile_key_gt [OF asc [OF that(1)] ge [OF that(1)] that(2)] .
  then show "\<forall>c\<in>set cs'. \<forall>kv\<in>set c. k0 < fst kv" using s(2) by (auto simp: cs')
  have d1: "map_of (?d c) k = (if k = k0 then None else map_of c k)" if "c \<in> set pre \<union> set post" for c
    by (rule map_of_dropWhile_key [OF asc [OF that]]) (rule ge [OF that])
  then have d: "map (\<lambda>c. map_of (?d c) k) xs = map (\<lambda>c. if k = k0 then None else map_of c k) xs" if "set xs \<subseteq> set pre \<union> set post" for xs
    using that by (intro map_cong) auto
  have none: "map_of c k0 = None" if "c \<in> set pre" for c
  proof -
    have "k0 < fst kv" if "kv \<in> set c" for kv
      using asc [of c] pre \<open>c \<in> set pre\<close> that by (cases c) (auto intro: order.strict_trans)
    then show ?thesis by (force simp: map_of_eq_None_iff)
  qed
  have "first_some (map (\<lambda>c. map_of c k0) pre) = None" using none by (simp add: first_some_None_iff)
  then show "first_some (map (\<lambda>c. map_of c k) cs) = (if k = k0 then Some e else first_some (map (\<lambda>c. map_of c k) cs'))"
    unfolding cs cs' map_append list.map map_map comp_def first_some_append d [OF Un_upper1] d [OF Un_upper2] by auto
  show "set (concat cs') \<subseteq> set (concat cs)" by (auto simp: cs cs' dest: set_dropWhileD)
  show "(k0, e) \<in> set (concat cs)" by (simp add: cs)
qed

lemma merge_newest:
  assumes "\<forall>c\<in>set cs. ascending c"
  shows "ascending (merge cs) \<and> set (merge cs) \<subseteq> set (concat cs)
    \<and> (\<forall>k. map_of (merge cs) k = first_some (map (\<lambda>c. map_of c k) cs))"
  using assms
proof (induction cs rule: merge.induct)
  case (1 cs)
  show ?case
  proof (cases "pick_head 0 cs None")
    case None
    then have "first_some (map (\<lambda>c. map_of c k) cs) = None" for k using pick_head_None [OF None] by (fastforce simp: first_some_None_iff)
    moreover have "merge cs = []" by (subst merge.simps) (simp add: None)
    ultimately show ?thesis by simp
  next
    case (Some p)
    obtain w k0 e where p: "p = (w, k0, e)" by (cases p)
    note st = merge_step [OF "1.prems" Some [unfolded p]]
    have IH: "ascending (merge (advance_heads 0 w k0 cs))" "set (merge (advance_heads 0 w k0 cs)) \<subseteq> set (concat (advance_heads 0 w k0 cs))"
      "\<And>k. map_of (merge (advance_heads 0 w k0 cs)) k = first_some (map (\<lambda>c. map_of c k) (advance_heads 0 w k0 cs))"
      using "1.IH" [OF Some p [symmetric] refl st(1)] by auto
    have m: "merge cs = (k0, e) # merge (advance_heads 0 w k0 cs)" by (subst merge.simps) (simp add: Some p)
    have "\<forall>kv\<in>set (merge (advance_heads 0 w k0 cs)). k0 < fst kv" using IH(2) st(2) by fastforce
    with IH st show ?thesis unfolding m by auto
  qed
qed

section \<open>What is dropped\<close>

lemma keep_entries_sub: "set (keep_entries now d i es) \<subseteq> set es"
  by (induction now d i es rule: keep_entries.induct) auto

lemma keep_entries_ascending: "ascending es \<Longrightarrow> ascending (keep_entries now d i es)"
proof (induction now d i es rule: keep_entries.induct)
  case (2 now d i k e es)
  have "\<forall>kv\<in>set (keep_entries now d (i + 1) es). k < fst kv" using 2(3) keep_entries_sub [of now d "i + 1" es] by auto
  with 2 show ?case by auto
qed simp

lemma obsolete_mono: "obsolete t e \<Longrightarrow> t \<le> t' \<Longrightarrow> obsolete t' e"
  by (cases e) (auto simp: Expired_def)

lemma keep_entries_map:
  shows "(\<And>j. now j \<le> t) \<Longrightarrow> ascending es \<Longrightarrow> map_of (keep_entries now d i es) k = map_of es k
    \<or> map_of (keep_entries now d i es) k = None \<and> d k \<and> (\<exists>e. map_of es k = Some e \<and> obsolete t e)"
proof (induction now d i es rule: keep_entries.induct)
  case (2 now d i k' e es)
  have "k' \<notin> fst ` set es" using 2(4) by auto
  then have "map_of es k' = None" by (simp only: map_of_eq_None_iff not_False_eq_True)
  moreover have "obsolete (now i) e \<Longrightarrow> obsolete t e" by (rule obsolete_mono [OF _ 2(3)])
  moreover have "map_of (keep_entries now d (i + 1) es) k' = None"
    using \<open>k' \<notin> fst ` set es\<close> keep_entries_sub [of now d "i + 1" es] by (fastforce simp: map_of_eq_None_iff)
  ultimately show ?case using 2 by auto
qed simp

section \<open>The output files\<close>

definition writer_holds :: "checksum \<Rightarrow> Options \<Rightarrow> SsTableWriter \<Rightarrow> (bytes \<times> Entry) list \<Rightarrow> bool" where
  "writer_holds crc opts w es \<longleftrightarrow>
     (\<exists>bl pe. w = writer_of crc (op_block_size opts) (op_bits_per_key opts) bl pe \<and> es = concat bl @ pe
        \<and> length (enc_entries pe) < max (op_block_size opts) 512 \<and> blocks_ok crc bl)"

lemma writer_holds_create: "writer_holds crc opts (SsTableWriter_create (op_block_size opts) (op_bits_per_key opts)) []"
  unfolding writer_holds_def writer_of_Nil [of _ _ crc] by (intro exI [of _ "[]"]) (simp add: blocks_ok_def)

lemma writer_holds_add:
  assumes "op_block_size opts \<le> 2 ^ 30" "writer_holds crc opts w es" "ascending (es @ [(k, e)])" "entry_ok (k, e)"
  shows "\<exists>w'. SsTableWriter_add crc k e w = Inr w' \<and> writer_holds crc opts w' (es @ [(k, e)])"
proof -
  obtain bl pe where w: "w = writer_of crc (op_block_size opts) (op_bits_per_key opts) bl pe" "es = concat bl @ pe"
    "length (enc_entries pe) < max (op_block_size opts) 512" "blocks_ok crc bl"
    using assms(2) by (auto simp: writer_holds_def)
  obtain bl' pe' where a: "writer_add_all crc [(k, e)] w = Inr (writer_of crc (op_block_size opts) (op_bits_per_key opts) bl' pe')"
    "concat bl' @ pe' = concat bl @ pe @ [(k, e)]" "length (enc_entries pe') < max (op_block_size opts) 512" "blocks_ok crc bl'"
    using add_all_writer_of [OF assms(1), of bl pe "[(k, e)]" crc "op_bits_per_key opts"] assms(3,4) w by auto
  have "writer_holds crc opts (writer_of crc (op_block_size opts) (op_bits_per_key opts) bl' pe') (es @ [(k, e)])"
    unfolding writer_holds_def using a(2-4) w(2) by (intro exI [of _ bl'] exI [of _ pe']) simp
  with a(1) show ?thesis by simp
qed

text \<open>An output: its file holds a non-empty chunk and its summary is that of the chunk.\<close>

definition output_holds :: "checksum \<Rightarrow> (nat, bytes) btree \<Rightarrow> nat \<times> TableMeta \<Rightarrow> (bytes \<times> Entry) list \<Rightarrow> bool" where
  "output_holds crc ssts out ck \<longleftrightarrow>
     ck \<noteq> [] \<and> (\<exists>file. map_of ssts (fst out) = Some file \<and> table_holds crc file ck)
     \<and> tm_min_key (snd out) = fst (hd ck) \<and> tm_max_key (snd out) = fst (last ck)"

lemma finish_output_ok:
  assumes "op_block_size opts \<le> 2 ^ 30" "writer_holds crc opts w es" "ascending es" "\<forall>kv\<in>set es. entry_ok kv" "es \<noteq> []"
    "ascending ssts" "finish_output crc works n w ssts outs = (r, ssts')"
  shows "(\<exists>e. r = Inl e \<and> ssts' = ssts)
    \<or> (\<exists>meta file. r = Inr (outs @ [(n, meta)]) \<and> ssts' = bt_insert n file ssts \<and> output_holds crc ssts' (n, meta) es)"
proof -
  obtain bl pe where w: "w = writer_of crc (op_block_size opts) (op_bits_per_key opts) bl pe" "es = concat bl @ pe"
    "length (enc_entries pe) < max (op_block_size opts) 512" "blocks_ok crc bl"
    using assms(2) by (auto simp: writer_holds_def)
  obtain bl' where bl': "SsTableWriter_finish crc w = table_image crc (op_bits_per_key opts) bl'" "concat bl' = es" "blocks_ok crc bl'"
    using finish_writer_of [OF assms(1) w(3,4), of "op_bits_per_key opts"] w(1,2) by auto
  obtain meta "file" where im: "table_image crc (op_bits_per_key opts) bl' = (meta, file)" by fastforce
  note holds = table_image_holds [OF bl'(3) _ _ im, unfolded bl'(2), OF assms(3,4)]
  show ?thesis
  proof (cases "works n \<and> length file < 2 ^ 63")
    case True
    then have "is_u64 (length file)" by (simp add: is_u64_def)
    with holds assms(5,6) True assms(7) bl'(1) im show ?thesis
      by (auto simp: finish_output_def output_holds_def first_key_of_def last_key_of_def)
  next
    case False
    with assms(7) bl'(1) im show ?thesis by (auto simp: finish_output_def)
  qed
qed

definition outputs_hold ::
  "checksum \<Rightarrow> nat \<Rightarrow> (bytes \<times> Entry) list \<Rightarrow> (nat, bytes) btree \<Rightarrow> outputs \<Rightarrow> outputs rust \<times> Manifest \<times> (nat, bytes) btree \<Rightarrow> bool" where
  "outputs_hold crc lo es ssts outs res =
     (case res of (r, man', ssts') \<Rightarrow>
       lo \<le> mf_next_file_number man' \<and> ascending ssts' \<and> (\<forall>n < lo. map_of ssts' n = map_of ssts n)
       \<and> (\<forall>outs'. r = Inr outs' \<longrightarrow> (\<exists>new cks. outs' = outs @ new \<and> concat cks = es \<and> list_all2 (output_holds crc ssts') new cks
            \<and> (\<forall>x\<in>set new. lo \<le> fst x \<and> fst x < mf_next_file_number man') \<and> distinct (map fst new))))"

lemma outputs_hold_Cons:
  assumes "outputs_hold crc lo' es (bt_insert n file ssts) (outs @ [(n, meta)]) res" "output_holds crc (bt_insert n file ssts) (n, meta) es0"
    "n < lo'" "ascending ssts"
  shows "outputs_hold crc n (es0 @ es) ssts outs res"
proof -
  obtain r man' ssts' where res: "res = (r, man', ssts')" by (cases res)
  have old: "lo' \<le> mf_next_file_number man'" "ascending ssts'" "\<forall>m < lo'. map_of ssts' m = map_of (bt_insert n file ssts) m"
    and new: "\<forall>outs'. r = Inr outs' \<longrightarrow> (\<exists>new cks. outs' = (outs @ [(n, meta)]) @ new \<and> concat cks = es \<and> list_all2 (output_holds crc ssts') new cks
            \<and> (\<forall>x\<in>set new. lo' \<le> fst x \<and> fst x < mf_next_file_number man') \<and> distinct (map fst new))"
    using assms(1) by (auto simp: outputs_hold_def res)
  have first: "output_holds crc ssts' (n, meta) es0" using assms(2,3) old(3) by (auto simp: output_holds_def)
  show ?thesis unfolding outputs_hold_def res prod.case
  proof (intro conjI allI impI)
    fix outs' assume "r = Inr outs'"
    with new obtain new cks where nc: "outs' = (outs @ [(n, meta)]) @ new" "concat cks = es" "list_all2 (output_holds crc ssts') new cks"
      "\<forall>x\<in>set new. lo' \<le> fst x \<and> fst x < mf_next_file_number man'" "distinct (map fst new)" by blast
    from nc first old(1) assms(3)
    show "\<exists>new cks. outs' = outs @ new \<and> concat cks = es0 @ es \<and> list_all2 (output_holds crc ssts') new cks
        \<and> (\<forall>x\<in>set new. n \<le> fst x \<and> fst x < mf_next_file_number man') \<and> distinct (map fst new)"
      by (intro exI [of _ "(n, meta) # new"] exI [of _ "es0 # cks"]) auto
  qed (use old assms(3,4) in auto)
qed

lemma outputs_hold_Inl: "lo \<le> mf_next_file_number man' \<Longrightarrow> ascending ssts \<Longrightarrow> outputs_hold crc lo es ssts outs (Inl e, man', ssts)"
  by (simp add: outputs_hold_def)

lemma write_outputs_ok:
  assumes bs: "op_block_size opts \<le> 2 ^ 30"
  shows "ascending ssts \<Longrightarrow> ascending (es0 @ es) \<Longrightarrow> \<forall>kv\<in>set (es0 @ es). entry_ok kv \<Longrightarrow>
    (case cur of None \<Rightarrow> es0 = [] \<and> lo = mf_next_file_number man
     | Some (n, w) \<Rightarrow> lo = n \<and> n < mf_next_file_number man \<and> es0 \<noteq> [] \<and> writer_holds crc opts w es0) \<Longrightarrow>
    outputs_hold crc lo (es0 @ es) ssts outs (write_outputs crc opts works cur es man ssts outs)"
proof (induction es arbitrary: es0 cur man ssts outs lo)
  case Nil
  show ?case
  proof (cases cur)
    case None
    with Nil show ?thesis by (simp add: outputs_hold_def)
  next
    case (Some nw)
    obtain n w where nw: "nw = (n, w)" by (cases nw)
    obtain r ssts' where fin: "finish_output crc works n w ssts outs = (r, ssts')" by fastforce
    have cw: "lo = n" "n < mf_next_file_number man" "es0 \<noteq> []" "writer_holds crc opts w es0" using Nil Some nw by auto
    have res: "write_outputs crc opts works cur [] man ssts outs = (r, man, ssts')" by (simp add: Some nw fin)
    have asc: "ascending es0" and ok: "\<forall>kv\<in>set es0. entry_ok kv" using Nil(2,3) by simp_all
    from finish_output_ok [OF bs cw(4) asc ok cw(3) Nil(1) fin] show ?thesis
    proof (elim disjE exE conjE)
      fix meta "file" assume a: "r = Inr (outs @ [(n, meta)])" "ssts' = bt_insert n file ssts" "output_holds crc ssts' (n, meta) es0"
      have "outputs_hold crc (n + 1) [] (bt_insert n file ssts) (outs @ [(n, meta)]) (r, man, ssts')"
        using a cw(2) Nil(1) by (auto simp: outputs_hold_def intro: exI [of _ "[]"])
      from outputs_hold_Cons [OF this _ _ Nil(1)] a cw(1) show ?thesis unfolding res by simp
    next
      fix e assume "r = Inl e" "ssts' = ssts"
      then show ?thesis unfolding res using cw Nil(1) by (simp add: outputs_hold_Inl)
    qed
  qed
next
  case (Cons kv es)
  obtain k e where kv: "kv = (k, e)" by (cases kv)
  define n where "n = (case cur of None \<Rightarrow> mf_next_file_number man | Some (n, w) \<Rightarrow> n)"
  define w where "w = (case cur of None \<Rightarrow> SsTableWriter_create (op_block_size opts) (op_bits_per_key opts) | Some (n, w) \<Rightarrow> w)"
  define man1 where "man1 = (case cur of None \<Rightarrow> snd (allocate_file_number man) | Some _ \<Rightarrow> man)"
  have wh: "writer_holds crc opts w es0" "n < mf_next_file_number man1" "lo = n"
    using Cons.prems(4) writer_holds_create by (auto simp: n_def w_def man1_def allocate_file_number_def split: option.splits)
  have asc: "ascending (es0 @ [(k, e)])" and ok: "\<forall>kv\<in>set (es0 @ [(k, e)]). entry_ok kv" using Cons.prems(2,3) kv by auto
  obtain w' where w': "SsTableWriter_add crc k e w = Inr w'" "writer_holds crc opts w' (es0 @ [(k, e)])"
    using writer_holds_add [OF bs wh(1) asc] ok by auto
  have res: "write_outputs crc opts works cur (kv # es) man ssts outs =
      (if estimated_size w' \<ge> op_max_file_bytes opts then
         (case finish_output crc works n w' ssts outs of
            (Inl e, ssts) \<Rightarrow> (Inl e, man1, ssts)
          | (Inr outs, ssts) \<Rightarrow> write_outputs crc opts works None es man1 ssts outs)
       else write_outputs crc opts works (Some (n, w')) es man1 ssts outs)"
  proof -
    have cur: "(case cur of Some (number, w) \<Rightarrow> (number, w, man)
        | None \<Rightarrow> let (number, man) = allocate_file_number man in
            (number, SsTableWriter_create (op_block_size opts) (op_bits_per_key opts), man)) = (n, w, man1)"
      by (cases cur) (auto simp: n_def w_def man1_def allocate_file_number_def)
    show ?thesis unfolding kv write_outputs.simps cur unfolding Let_def prod.case w'(1) sum.case ..
  qed
  show ?case
  proof (cases "estimated_size w' \<ge> op_max_file_bytes opts")
    case False
    have "outputs_hold crc n ((es0 @ [(k, e)]) @ es) ssts outs (write_outputs crc opts works (Some (n, w')) es man1 ssts outs)"
      by (rule Cons.IH) (use Cons.prems wh w'(2) kv in auto)
    with False show ?thesis unfolding res by (simp add: wh(3) kv)
  next
    case True
    obtain r ssts' where fin: "finish_output crc works n w' ssts outs = (r, ssts')" by fastforce
    have ne: "es0 @ [(k, e)] \<noteq> []" by simp
    from finish_output_ok [OF bs w'(2) asc ok ne Cons.prems(1) fin] show ?thesis
    proof (elim disjE exE conjE)
      fix meta "file" assume a: "r = Inr (outs @ [(n, meta)])" "ssts' = bt_insert n file ssts" "output_holds crc ssts' (n, meta) (es0 @ [(k, e)])"
      have "outputs_hold crc (mf_next_file_number man1) ([] @ es) (bt_insert n file ssts) (outs @ [(n, meta)])
          (write_outputs crc opts works None es man1 (bt_insert n file ssts) (outs @ [(n, meta)]))"
        by (rule Cons.IH) (use Cons.prems kv in auto)
      from outputs_hold_Cons [OF this [simplified append_Nil] a(3) [unfolded a(2)] wh(2) Cons.prems(1)]
      show ?thesis unfolding res using True fin a by (simp add: wh(3) kv)
    next
      fix err assume "r = Inl err" "ssts' = ssts"
      then show ?thesis unfolding res using True fin wh Cons.prems(1) by (simp add: outputs_hold_Inl)
    qed
  qed
qed

section \<open>The plan\<close>

definition plan_ok :: "Version \<Rightarrow> Plan \<Rightarrow> bytes \<Rightarrow> bytes \<Rightarrow> bool" where
  "plan_ok v plan lo hi \<longleftrightarrow>
     pl_output_level plan = pl_level plan + 1 \<and> pl_output_level plan < length v \<and> pl_inputs plan \<noteq> []
     \<and> (if pl_level plan = 0 then pl_inputs plan = v ! 0
        else \<exists>f\<in>set (v ! pl_level plan). pl_inputs plan = [f] \<and> lo = fm_min_key f \<and> hi = fm_max_key f)
     \<and> (\<forall>f\<in>set (pl_inputs plan). lo \<le> fm_min_key f \<and> fm_max_key f \<le> hi)
     \<and> pl_overlapping plan = filter (FileMeta_overlaps lo hi) (v ! pl_output_level plan)"

lemma plan_range_covers:
  assumes "plan_range fs = (lo, hi)"
  shows "fs \<noteq> [] \<Longrightarrow> f \<in> set fs \<Longrightarrow> lo \<le> fm_min_key f \<and> fm_max_key f \<le> hi"
proof -
  let ?step = "\<lambda>f (lo, hi). (if fm_min_key f < lo then fm_min_key f else lo, if fm_max_key f > hi then fm_max_key f else hi)"
  have widen: "fold ?step gs (a, b) = (lo, hi) \<Longrightarrow> lo \<le> a \<and> b \<le> hi \<and> (\<forall>g\<in>set gs. lo \<le> fm_min_key g \<and> fm_max_key g \<le> hi)" for gs a b
  proof (induction gs arbitrary: a b)
    case (Cons g gs)
    let ?a = "if fm_min_key g < a then fm_min_key g else a" and ?b = "if fm_max_key g > b then fm_max_key g else b"
    have "fold ?step gs (?a, ?b) = (lo, hi)" using Cons.prems by simp
    from Cons.IH [OF this] have IH: "lo \<le> ?a" "?b \<le> hi" "\<forall>g\<in>set gs. lo \<le> fm_min_key g \<and> fm_max_key g \<le> hi" by blast+
    moreover have "?a \<le> a" "?a \<le> fm_min_key g" "b \<le> ?b" "fm_max_key g \<le> ?b" by auto
    ultimately show ?case by (auto intro: order.trans)
  qed simp
  show "fs \<noteq> [] \<Longrightarrow> f \<in> set fs \<Longrightarrow> lo \<le> fm_min_key f \<and> fm_max_key f \<le> hi"
    using widen [of "tl fs" "fm_min_key (hd fs)" "fm_max_key (hd fs)"] assms by (cases fs) (auto simp: plan_range_def)
qed

lemma pick_file_mem: "pick_file_from_level ptr v level = Some f \<Longrightarrow> f \<in> set (Version_level v level)"
  by (auto simp: pick_file_from_level_def Let_def find_Some_iff split: if_splits option.splits)

lemma pick_compaction_ok:
  assumes "version_ok v" "pick_compaction opts ptr v = Some plan"
  shows "\<exists>lo hi. plan_ok v plan lo hi"
proof -
  from assms(2) obtain level where level: "pick_level opts v = Some level" "level + 1 < MAX_LEVELS"
    by (auto simp: pick_compaction_def split: option.splits if_splits)
  define inputs where "inputs = (if level = 0 then Version_level v 0
                          else case pick_file_from_level ptr v level of None \<Rightarrow> [] | Some f \<Rightarrow> [f])"
  obtain lo hi where r: "plan_range inputs = (lo, hi)" by fastforce
  have plan: "inputs \<noteq> []" "plan = \<lparr>pl_level = level, pl_output_level = level + 1, pl_inputs = inputs,
                    pl_overlapping = Version_overlapping v (level + 1) lo hi\<rparr>"
    using assms(2) level unfolding pick_compaction_def inputs_def [symmetric] Let_def r by (auto simp: inputs_def [symmetric] r split: if_splits)
  have len: "level + 1 < length v" using level(2) assms(1) by (simp add: version_ok_def)
  have inp: "if level = 0 then inputs = v ! 0 else \<exists>f\<in>set (v ! level). inputs = [f] \<and> lo = fm_min_key f \<and> hi = fm_max_key f"
    using plan(1) len r pick_file_mem [of ptr v level]
    by (auto simp: inputs_def Version_level_def plan_range_def split: if_splits option.splits)
  show ?thesis
    using plan len inp plan_range_covers [OF r plan(1)]
    by (intro exI [of _ lo] exI [of _ hi]) (auto simp: plan_ok_def Version_overlapping_def Version_level_def)
qed

section \<open>The installed version\<close>

definition output_files :: "outputs \<Rightarrow> FileMeta list" where
  "output_files outs = map (\<lambda>(n, m). FileMeta_from_table n m) outs"

lemma add_files:
  assumes "ol \<noteq> 0" "ol < length v"
    and v'_def: "v' = fold (\<lambda>(n, m). Version_add_file ol (FileMeta_from_table n m)) outs v"
  shows "length v' = length v \<and> (\<forall>i. i \<noteq> ol \<longrightarrow> v' ! i = v ! i) \<and> mset (v' ! ol) = mset (v ! ol) + mset (output_files outs)"
  unfolding v'_def using assms(1,2)
proof (induction outs arbitrary: v)
  case (Cons x outs)
  obtain n m where x: "x = (n, m)" by (cases x)
  let ?v = "Version_add_file ol (FileMeta_from_table n m) v"
  have v: "?v = v[ol := sort_files ol (v ! ol @ [FileMeta_from_table n m])]"
    using Cons.prems by (simp add: Version_add_file_def Let_def)
  have "mset (?v ! ol) = mset (v ! ol) + {# FileMeta_from_table n m #}"
    using Cons.prems by (simp add: v sort_files_def)
  moreover have "?v ! i = v ! i" if "i \<noteq> ol" for i using that by (simp add: v)
  moreover have "length ?v = length v" by (simp add: v)
  ultimately show ?case using Cons.IH [of ?v] Cons.prems by (auto simp: x output_files_def)
qed (simp add: output_files_def)

lemma compacted_levels:
  assumes "plan_ok v plan lo hi" "version_ok v"
    and v'_def: "v' = compacted_version plan outs v" and l_def: "l = pl_level plan"
  shows "length v' = length v" "\<And>i. i \<noteq> l \<Longrightarrow> i \<noteq> l + 1 \<Longrightarrow> v' ! i = v ! i"
    "v' ! l = filter (\<lambda>f. f \<notin> set (pl_inputs plan)) (v ! l)"
    "mset (v' ! (l + 1)) = mset (filter (\<lambda>f. f \<notin> set (pl_overlapping plan)) (v ! (l + 1))) + mset (output_files outs)"
proof -
  have p: "pl_output_level plan = l + 1" "l + 1 < length v" "set (pl_inputs plan) \<subseteq> set (v ! l)" "set (pl_overlapping plan) \<subseteq> set (v ! (l + 1))"
    using assms(1) by (auto simp: plan_ok_def l_def split: if_splits)
  have inj: "f = g" if "f \<in> set (v ! i)" "g \<in> set (v ! i)" "i < length v" "fm_number f = fm_number g" for f g i
  proof -
    have "distinct (map fm_number (concat v))" using assms(2) by (simp add: version_ok_def)
    then have "inj_on fm_number (set (concat v))" by (simp add: distinct_map)
    moreover have "f \<in> set (concat v)" "g \<in> set (concat v)" using that(1-3) by (auto intro: nth_mem)
    ultimately show ?thesis using that(4) by (meson inj_onD)
  qed
  have nums: "filter (\<lambda>f. fm_number f \<notin> set (map fm_number xs)) (v ! i) = filter (\<lambda>f. f \<notin> set xs) (v ! i)"
    if "set xs \<subseteq> set (v ! i)" "i < length v" for xs i
    by (rule filter_cong [OF refl]) (use inj that in \<open>auto simp: subset_iff image_iff\<close>)
  define v2 where "v2 = v[l := filter (\<lambda>f. f \<notin> set (pl_inputs plan)) (v ! l), l + 1 := filter (\<lambda>f. f \<notin> set (pl_overlapping plan)) (v ! (l + 1))]"
  have v2: "Version_remove_files (pl_output_level plan) (map fm_number (pl_overlapping plan))
         (Version_remove_files (pl_level plan) (map fm_number (pl_inputs plan)) v) = v2"
    using p nums [OF p(3)] nums [OF p(4) p(2)] by (simp add: Version_remove_files_def v2_def l_def [symmetric])
  have l2: "length v2 = length v" by (simp add: v2_def)
  have v': "v' = fold (\<lambda>(n, m). Version_add_file (l + 1) (FileMeta_from_table n m)) outs v2"
    using v2 unfolding p(1) by (simp add: v'_def compacted_version_def p(1))
  show "length v' = length v" "\<And>i. i \<noteq> l \<Longrightarrow> i \<noteq> l + 1 \<Longrightarrow> v' ! i = v ! i"
    "v' ! l = filter (\<lambda>f. f \<notin> set (pl_inputs plan)) (v ! l)"
    "mset (v' ! (l + 1)) = mset (filter (\<lambda>f. f \<notin> set (pl_overlapping plan)) (v ! (l + 1))) + mset (output_files outs)"
    using add_files [OF _ _ v'] p(2) l2 by (auto simp: v2_def)
qed

lemma concat_split:
  assumes "l + 1 < length v"
  shows "concat v = concat (take l v) @ v ! l @ v ! (l + 1) @ concat (drop (l + 2) v)"
proof -
  have "v = take l v @ v ! l # v ! (l + 1) # drop (l + 2) v"
    using assms id_take_nth_drop [of l v] Cons_nth_drop_Suc [of "Suc l" v] by simp
  from arg_cong [OF this, of concat] show ?thesis by simp
qed

lemma plan_sources:
  assumes "plan_ok v plan lo hi"
  shows "set (pl_inputs plan @ pl_overlapping plan) \<subseteq> set (concat v)"
proof -
  have l: "pl_level plan + 1 < length v" using assms by (auto simp: plan_ok_def)
  then show ?thesis unfolding concat_split [OF l] using assms by (auto simp: plan_ok_def split: if_splits)
qed

lemma take_drop_same:
  assumes "length v' = length v" "\<And>i. i \<noteq> l \<Longrightarrow> i \<noteq> l + 1 \<Longrightarrow> v' ! i = v ! i"
  shows "take l v' = take l v" "drop (l + 2) v' = drop (l + 2) v"
  using assms by (auto intro: nth_equalityI)

lemma validate_levels_facts:
  "validate_levels level v = Inr () \<Longrightarrow> i < length v \<Longrightarrow>
    (\<forall>f\<in>set (v ! i). fm_min_key f \<le> fm_max_key f) \<and> (level + i \<noteq> 0 \<longrightarrow> no_overlap (v ! i))"
proof (induction v arbitrary: level i)
  case (Cons fs v)
  then show ?case by (cases i) (auto simp: not_less split: if_splits)
qed simp

lemma compacted_version_ok:
  assumes v: "version_ok v" and plan: "plan_ok v plan lo hi" and v': "v' = compacted_version plan outs v"
    and valid: "Version_validate v' = Inr ()"
    and new: "\<forall>f\<in>set (concat v). fm_number f < fresh" "\<forall>x\<in>set outs. fresh \<le> fst x" "distinct (map fst outs)"
  shows "version_ok v'" "set (concat v') \<subseteq> set (concat v) \<union> set (output_files outs)"
    "fm_number ` set (concat v') \<inter> fm_number ` set (pl_inputs plan @ pl_overlapping plan) = {}"
proof -
  define l where "l = pl_level plan"
  note lev = compacted_levels [OF plan v v' l_def]
  have l: "l + 1 < length v" using plan by (auto simp: plan_ok_def l_def)
  have old: "set (pl_inputs plan) \<subseteq> set (v ! l)" "set (pl_overlapping plan) \<subseteq> set (v ! (l + 1))"
    using plan by (auto simp: plan_ok_def l_def split: if_splits)
  define rest where "rest = concat (take l v) @ filter (\<lambda>f. f \<notin> set (pl_inputs plan)) (v ! l)
      @ filter (\<lambda>f. f \<notin> set (pl_overlapping plan)) (v ! (l + 1)) @ concat (drop (l + 2) v)"
  have ms: "mset (concat v') = mset (rest @ output_files outs)"
    using l lev take_drop_same [OF lev(1,2)] by (subst concat_split [of l v']) (simp_all add: rest_def)
  have dist: "distinct (map fm_number (concat v))" using v by (simp add: version_ok_def)
  have inj: "inj_on fm_number (set (concat v))" using dist by (simp add: distinct_map)
  have dc: "distinct (concat v)" using dist by (simp add: distinct_map)
  have sub: "set rest \<subseteq> set (concat v)" unfolding rest_def concat_split [OF l] by auto
  have "distinct rest" using dc unfolding rest_def concat_split [OF l] distinct_append by auto
  then have rest: "distinct (map fm_number rest)" "set rest \<subseteq> set (concat v)"
    using inj_on_subset [OF inj sub] sub by (simp_all add: distinct_map)
  have gone: "set rest \<inter> set (pl_inputs plan @ pl_overlapping plan) = {}"
    using dc old unfolding rest_def concat_split [OF l] distinct_append by auto
  note olds = plan_sources [OF plan]
  have apart: "fm_number ` set rest \<inter> fm_number ` set (pl_inputs plan @ pl_overlapping plan) = {}"
    using gone inj_on_image_Int [OF inj rest(2) olds] by simp
  have nums: "map fm_number (output_files outs) = map fst outs"
    by (auto simp: output_files_def FileMeta_from_table_def split: prod.splits)
  have outs: "fresh \<le> fm_number f" if "f \<in> set (output_files outs)" for f
  proof -
    have "fm_number f \<in> set (map fst outs)" using that unfolding nums [symmetric] by simp
    then show ?thesis using new(2) by auto
  qed
  have less: "f \<in> set rest \<Longrightarrow> g \<in> set (output_files outs) \<Longrightarrow> fm_number f \<noteq> fm_number g" for f g
    using outs [of g] new(1) rest(2) by fastforce
  have "distinct (map fm_number (rest @ output_files outs))"
    using rest(1) less new(3) [folded nums] unfolding map_append distinct_append set_map by blast
  then have d': "distinct (map fm_number (concat v'))"
    using mset_eq_imp_distinct_iff [of "map fm_number (concat v')" "map fm_number (rest @ output_files outs)"] ms by simp
  have set': "set (concat v') = set rest \<union> set (output_files outs)" using mset_eq_setD [OF ms] by simp
  show "set (concat v') \<subseteq> set (concat v) \<union> set (output_files outs)" using set' rest(2) by auto
  have "fm_number f < fresh" if "f \<in> set (pl_inputs plan @ pl_overlapping plan)" for f
    using that olds new(1) by blast
  then show "fm_number ` set (concat v') \<inter> fm_number ` set (pl_inputs plan @ pl_overlapping plan) = {}"
    using apart outs unfolding set' by fastforce
  have "files_ok i (v' ! i)" if "i < length v'" for i
  proof (cases "i = 0")
    case False
    with validate_levels_facts [OF valid [unfolded Version_validate_def] that] no_overlap_sorted [of "v' ! i"]
    show ?thesis by (simp add: files_ok_def)
  next
    case True
    have "0 < length v" using l by linarith
    then have ok: "files_ok 0 (v ! 0)" using v unfolding version_ok_def by blast
    show ?thesis
    proof (cases "l = 0")
      case True
      then show ?thesis using ok \<open>i = 0\<close> lev(3) by (auto simp: files_ok_def sorted_wrt_filter)
    next
      case False
      then show ?thesis using ok \<open>i = 0\<close> lev(2) [of 0] by simp
    qed
  qed
  then show "version_ok v'" using d' v lev(1) by (simp add: version_ok_def)
qed

section \<open>The tree after a compaction\<close>

lemma one_file:
  assumes "files_ok level fs" "level \<noteq> 0" "f \<in> set fs" "g \<in> set fs" "FileMeta_may_contain k f" "FileMeta_may_contain k g"
  shows "f = g"
proof (rule ccontr)
  assume "f \<noteq> g"
  moreover have "sorted_wrt (\<lambda>f g. fm_max_key f < fm_min_key g) fs" using assms(1,2) by (simp add: files_ok_def)
  ultimately have "fm_max_key f < fm_min_key g \<or> fm_max_key g < fm_min_key f"
    using assms(3,4) by (metis in_set_conv_nth linorder_neqE_nat sorted_wrt_nth_less)
  with assms(5,6) show False by (auto simp: FileMeta_may_contain_def)
qed

lemma set_view:
  assumes "files_ok level fs" "level \<noteq> 0" "\<forall>f\<in>set fs. file_ok crc ssts f" "set gs = set fs"
  shows "files_view crc ssts gs k = files_view crc ssts fs k"
proof -
  let ?v = "\<lambda>f. map_of (ents crc ssts f) k"
  have same: "?v f = None \<or> ?v f = ?v g" if "f \<in> set fs" "g \<in> set fs" "?v g \<noteq> None" for f g
    using one_file [OF assms(1,2) that(1,2)] out_of_range [of crc ssts _ k] assms(3) that by metis
  show ?thesis
  proof (cases "\<exists>g\<in>set fs. ?v g \<noteq> None")
    case True
    then obtain g where g: "g \<in> set fs" "?v g \<noteq> None" by blast
    have "first_some (map ?v hs) = ?v g" if "set hs = set fs" for hs
      by (rule first_some_unique) (use g same [OF _ g] that in auto)
    then show ?thesis using assms(4) by (simp add: files_view_def)
  next
    case False
    then show ?thesis using assms(4) by (simp add: files_view_def first_some_None_iff [THEN iffD2])
  qed
qed

lemma orelse_Some_iff: "orelse x y = Some e \<longleftrightarrow> x = Some e \<or> x = None \<and> y = Some e"
  by (cases x) auto

lemma files_view_None: "(\<And>f. f \<in> set fs \<Longrightarrow> file_ok crc ssts f \<and> \<not> FileMeta_may_contain k f) \<Longrightarrow> files_view crc ssts fs k = None"
  by (auto simp: files_view_def first_some_None_iff intro!: out_of_range)

lemma files_view_Some:
  assumes "files_view crc ssts fs k \<noteq> None" "\<forall>f\<in>set fs. file_ok crc ssts f"
  shows "\<exists>f\<in>set fs. FileMeta_may_contain k f"
proof (rule ccontr)
  assume "\<not> ?thesis"
  then have "files_view crc ssts fs k = None" using assms(2) by (intro files_view_None) blast
  with assms(1) show False by simp
qed

lemma inputs_view:
  assumes "version_ok v" "plan_ok v plan lo hi" "\<forall>f\<in>set (concat v). file_ok crc ssts f"
    and l: "l = pl_level plan" and rest: "rest = filter (\<lambda>f. f \<notin> set (pl_inputs plan)) (v ! l)"
  shows "files_view crc ssts (v ! l) k = orelse (files_view crc ssts (pl_inputs plan) k) (files_view crc ssts rest k)"
    and "lo \<le> k \<Longrightarrow> k \<le> hi \<Longrightarrow> files_view crc ssts rest k = None"
proof -
  have len: "l < length v" using assms(2) by (auto simp: plan_ok_def l)
  then have ok: "files_ok l (v ! l)" "\<forall>f\<in>set (v ! l). file_ok crc ssts f"
    using assms(1,3) by (auto simp: version_ok_def)
  consider (top) "l = 0" "pl_inputs plan = v ! 0"
    | (deep) f where "l \<noteq> 0" "f \<in> set (v ! l)" "pl_inputs plan = [f]" "lo = fm_min_key f" "hi = fm_max_key f"
    using assms(2) by (auto simp: plan_ok_def l split: if_splits)
  then have "files_view crc ssts (v ! l) k = files_view crc ssts (pl_inputs plan @ rest) k
      \<and> (lo \<le> k \<and> k \<le> hi \<longrightarrow> files_view crc ssts rest k = None)"
  proof cases
    case top
    then have "rest = []" by (simp add: rest)
    with top show ?thesis by (simp add: files_view_def)
  next
    case deep
    have "files_view crc ssts (pl_inputs plan @ rest) k = files_view crc ssts (v ! l) k"
      by (rule set_view [OF ok(1) deep(1) ok(2)]) (use deep in \<open>auto simp: rest\<close>)
    moreover have "files_view crc ssts rest k = None" if k: "lo \<le> k" "k \<le> hi"
    proof (rule files_view_None)
      fix g assume "g \<in> set rest"
      then have g: "g \<in> set (v ! l)" "g \<noteq> f" using deep by (auto simp: rest)
      have "FileMeta_may_contain k f" using k deep by (simp add: FileMeta_may_contain_def)
      then show "file_ok crc ssts g \<and> \<not> FileMeta_may_contain k g"
        using one_file [OF ok(1) deep(1,2) g(1)] ok(2) g by blast
    qed
    ultimately show ?thesis by simp
  qed
  then show "files_view crc ssts (v ! l) k = orelse (files_view crc ssts (pl_inputs plan) k) (files_view crc ssts rest k)"
    "lo \<le> k \<Longrightarrow> k \<le> hi \<Longrightarrow> files_view crc ssts rest k = None"
    by (simp_all add: files_view_append)
qed

lemma overlapping_view:
  assumes "version_ok v" "plan_ok v plan lo hi" "\<forall>f\<in>set (concat v). file_ok crc ssts f"
    and l: "l = pl_level plan" and rest: "rest = filter (\<lambda>f. f \<notin> set (pl_overlapping plan)) (v ! (l + 1))"
  shows "files_view crc ssts (v ! (l + 1)) k = orelse (files_view crc ssts (pl_overlapping plan) k) (files_view crc ssts rest k)"
    and "files_view crc ssts (pl_overlapping plan) k \<noteq> None \<Longrightarrow> files_view crc ssts rest k = None"
    and "lo \<le> k \<Longrightarrow> k \<le> hi \<Longrightarrow> files_view crc ssts rest k = None"
proof -
  have len: "l + 1 < length v" and ov: "pl_overlapping plan = filter (FileMeta_overlaps lo hi) (v ! (l + 1))"
    using assms(2) by (auto simp: plan_ok_def l)
  then have ok: "files_ok (l + 1) (v ! (l + 1))" "\<forall>f\<in>set (v ! (l + 1)). file_ok crc ssts f"
    using assms(1,3) by (auto simp: version_ok_def)
  have "files_view crc ssts (pl_overlapping plan @ rest) k = files_view crc ssts (v ! (l + 1)) k"
    by (rule set_view [OF ok(1) _ ok(2)]) (auto simp: rest ov)
  then show "files_view crc ssts (v ! (l + 1)) k = orelse (files_view crc ssts (pl_overlapping plan) k) (files_view crc ssts rest k)"
    by (simp add: files_view_append)
  show "files_view crc ssts rest k = None" if q: "files_view crc ssts (pl_overlapping plan) k \<noteq> None"
  proof -
    have "\<forall>f\<in>set (pl_overlapping plan). file_ok crc ssts f" using ok(2) by (simp add: ov)
    then obtain f where f: "f \<in> set (pl_overlapping plan)" "FileMeta_may_contain k f"
      using files_view_Some [OF q] by blast
    show ?thesis
    proof (rule files_view_None)
      fix g assume "g \<in> set rest"
      then have g: "g \<in> set (v ! (l + 1))" "g \<noteq> f" using f(1) by (auto simp: rest)
      have "f \<in> set (v ! (l + 1))" using f(1) by (simp add: ov)
      from one_file [OF ok(1) _ this g(1) f(2)] g ok(2) show "file_ok crc ssts g \<and> \<not> FileMeta_may_contain k g" by auto
    qed
  qed
  show "files_view crc ssts rest k = None" if "lo \<le> k" "k \<le> hi"
    by (rule files_view_None) (use ok(2) that in \<open>auto simp: rest ov FileMeta_may_contain_def FileMeta_overlaps_def\<close>)
qed

lemma below_view:
  assumes "\<forall>f\<in>set (concat v). file_ok crc ssts f" "is_bottom_most v level \<or> \<not> key_exists_below v level k"
  shows "files_view crc ssts (concat (drop (level + 1) v)) k = None"
proof (rule files_view_None)
  fix f assume "f \<in> set (concat (drop (level + 1) v))"
  then obtain fs where fs: "fs \<in> set (drop (level + 1) v)" "f \<in> set fs" by auto
  then obtain j where "j < length (drop (level + 1) v)" "drop (level + 1) v ! j = fs" by (meson in_set_conv_nth)
  with fs(2) have i: "level + 1 + j < length v" "f \<in> set (v ! (level + 1 + j))" by auto
  then have "\<not> is_bottom_most v level" by (force simp: is_bottom_most_def Version_level_def)
  then have "\<not> FileMeta_may_contain k f" using assms(2) i by (force simp: key_exists_below_def Version_level_def)
  moreover have "file_ok crc ssts f" using assms(1) i by (auto intro: nth_mem)
  ultimately show "file_ok crc ssts f \<and> \<not> FileMeta_may_contain k f" by simp
qed

text \<open>
  A compaction replaces the inputs and what they overlap by the merge of both. A key of the tree keeps
  its newest entry, or loses an entry that reads as absent and that nothing older stands behind.
\<close>

definition drops_dead :: "int \<Rightarrow> (bytes \<Rightarrow> Entry option) \<Rightarrow> (bytes \<Rightarrow> Entry option) \<Rightarrow> bool" where
  "drops_dead t m m' \<longleftrightarrow> (\<forall>k. m' k = m k \<or> m' k = None \<and> (\<exists>e. m k = Some e \<and> obsolete t e))"

lemma shrinks_refl [simp]: "drops_dead t m m"
  by (simp add: drops_dead_def)

lemma shrinks_trans: "drops_dead t m m' \<Longrightarrow> drops_dead t m' m'' \<Longrightarrow> drops_dead t m m''"
  unfolding drops_dead_def by (metis option.distinct(1))

lemma shrinks_under: "drops_dead t m m' \<Longrightarrow> drops_dead t (\<lambda>k. orelse (up k) (m k)) (\<lambda>k. orelse (up k) (m' k))"
  unfolding drops_dead_def
proof
  fix k assume "\<forall>k. m' k = m k \<or> m' k = None \<and> (\<exists>e. m k = Some e \<and> obsolete t e)"
  then show "orelse (up k) (m' k) = orelse (up k) (m k)
    \<or> orelse (up k) (m' k) = None \<and> (\<exists>e. orelse (up k) (m k) = Some e \<and> obsolete t e)"
    by (cases "up k") auto
qed

lemma merged_key:
  assumes "d = orelse i q \<or> d = None \<and> b = None \<and> (\<exists>e. orelse i q = Some e \<and> obsolete t e)"
    and "i \<noteq> None \<Longrightarrow> l = None \<and> r = None" "q \<noteq> None \<Longrightarrow> r = None"
  shows "orelse a (orelse l (orelse (orelse d r) b)) = orelse a (orelse (orelse i l) (orelse (orelse q r) b))
    \<or> orelse a (orelse l (orelse (orelse d r) b)) = None
      \<and> (\<exists>e. orelse a (orelse (orelse i l) (orelse (orelse q r) b)) = Some e \<and> obsolete t e)"
  using assms by (cases a; cases i; cases q; cases l) auto

lemma compaction_shrinks:
  assumes v: "version_ok v" "plan_ok v plan lo hi" and v': "v' = compacted_version plan outs v" "version_ok v'"
    and ok: "\<forall>f\<in>set (concat v). file_ok crc ssts f" "\<forall>f\<in>set (concat v'). file_ok crc ssts f"
    and kept: "\<And>k. files_view crc ssts (output_files outs) k =
        map_of (keep_entries now (\<lambda>key. is_bottom_most v (pl_output_level plan) \<or> \<not> key_exists_below v (pl_output_level plan) key) 0
          (merge (map (ents crc ssts) (pl_inputs plan @ pl_overlapping plan)))) k"
    and now: "\<And>j. now j \<le> t"
  shows "drops_dead t (files_view crc ssts (concat v)) (files_view crc ssts (concat v'))"
proof -
  define l where "l = pl_level plan"
  define rest where "rest = filter (\<lambda>f. f \<notin> set (pl_inputs plan)) (v ! l)"
  define rest' where "rest' = filter (\<lambda>f. f \<notin> set (pl_overlapping plan)) (v ! (l + 1))"
  note lev = compacted_levels [OF v(2,1) v'(1) l_def]
  have l: "l + 1 < length v" "pl_output_level plan = l + 1" using v(2) by (auto simp: plan_ok_def l_def)
  have olds: "set (pl_inputs plan) \<subseteq> set (v ! l)" "set (pl_overlapping plan) \<subseteq> set (v ! (l + 1))"
    and inr: "\<forall>f\<in>set (pl_inputs plan). lo \<le> fm_min_key f \<and> fm_max_key f \<le> hi"
    using v(2) by (auto simp: plan_ok_def l_def split: if_splits)
  let ?V = "\<lambda>fs k. files_view crc ssts fs k"
  have okl: "\<forall>f\<in>set (pl_inputs plan @ pl_overlapping plan). file_ok crc ssts f"
    using plan_sources [OF v(2)] ok(1) by blast
  have asc: "\<forall>c\<in>set (map (ents crc ssts) (pl_inputs plan @ pl_overlapping plan)). ascending c"
    using okl file_ok_facts(2) by auto
  have s': "set (v' ! (l + 1)) = set rest' \<union> set (output_files outs)"
    using arg_cong [OF lev(4), of set_mset] by (simp add: rest'_def)
  have l': "l + 1 < length v'" using l lev(1) by simp
  have fok: "files_ok (l + 1) (v' ! (l + 1))" "\<forall>f\<in>set (v' ! (l + 1)). file_ok crc ssts f"
    using v'(2) ok(2) l' nth_mem [OF l'] by (auto simp: version_ok_def)
  have new: "?V (v' ! (l + 1)) k = orelse (?V (output_files outs) k) (?V rest' k)" for k
  proof -
    have "?V (output_files outs @ rest') k = ?V (v' ! (l + 1)) k"
      by (rule set_view [OF fok(1) _ fok(2)]) (simp, unfold s' set_append, blast)
    then show ?thesis by (simp add: files_view_append)
  qed
  have split: "?V (concat v) k = orelse (?V (concat (take l v)) k) (orelse (?V (v ! l) k) (orelse (?V (v ! (l + 1)) k) (?V (concat (drop (l + 2) v)) k)))"
    if "l + 1 < length v" for v k by (subst concat_split [OF that]) (simp only: files_view_append)
  have same: "take l v' = take l v" "drop (l + 2) v' = drop (l + 2) v" by (rule take_drop_same [OF lev(1,2)]; assumption)+
  show ?thesis unfolding drops_dead_def
  proof
    fix k
    let ?d = "\<lambda>key. is_bottom_most v (pl_output_level plan) \<or> \<not> key_exists_below v (pl_output_level plan) key"
    let ?M = "merge (map (ents crc ssts) (pl_inputs plan @ pl_overlapping plan))"
    have m: "ascending ?M" "map_of ?M k = orelse (?V (pl_inputs plan) k) (?V (pl_overlapping plan) k)"
      using merge_newest [OF asc] by (simp_all add: files_view_def first_some_append comp_def)
    have D: "?V (output_files outs) k = map_of ?M k \<or> ?V (output_files outs) k = None \<and> ?V (concat (drop (l + 2) v)) k = None
        \<and> (\<exists>e. map_of ?M k = Some e \<and> obsolete t e)"
      using keep_entries_map [of now t ?M ?d 0 k, OF now m(1)] below_view [OF ok(1), of "l + 1" k] unfolding kept l(2) by auto
    have I: "?V (pl_inputs plan) k \<noteq> None \<Longrightarrow> lo \<le> k \<and> k \<le> hi"
    proof (rule ccontr)
      assume a: "?V (pl_inputs plan) k \<noteq> None" "\<not> (lo \<le> k \<and> k \<le> hi)"
      have "?V (pl_inputs plan) k = None"
        by (rule files_view_None) (use okl inr a(2) in \<open>auto simp: FileMeta_may_contain_def\<close>)
      with a(1) show False by simp
    qed
    note iv = inputs_view [OF v ok(1) l_def rest_def, of k] and ov = overlapping_view [OF v ok(1) l_def rest'_def, of k]
    show "?V (concat v') k = ?V (concat v) k \<or> ?V (concat v') k = None \<and> (\<exists>e. ?V (concat v) k = Some e \<and> obsolete t e)"
      unfolding split [of v', unfolded lev(1) same, OF l(1)] split [OF l(1)] lev(3) [folded rest_def] new iv(1) ov(1)
      by (rule merged_key [OF D [unfolded m(2)]]) (use I iv(2) ov(2,3) in blast)+
  qed
qed

section \<open>Running a compaction\<close>

lemma output_view:
  assumes "list_all2 (output_holds crc ssts) outs cks" "ascending (concat cks)" "\<forall>kv\<in>set (concat cks). entry_ok kv"
  shows "(\<forall>f\<in>set (output_files outs). file_ok crc ssts f) \<and> files_view crc ssts (output_files outs) = map_of (concat cks)"
  using assms
proof (induction rule: list_all2_induct)
  case Nil
  show ?case by (simp add: output_files_def files_view_def fun_eq_iff)
next
  case (Cons x outs ck cks)
  obtain n meta where x: "x = (n, meta)" by (cases x)
  let ?f = "FileMeta_from_table n meta"
  obtain "file" where h: "ck \<noteq> []" "map_of ssts n = Some file" "table_holds crc file ck" "tm_min_key meta = fst (hd ck)" "tm_max_key meta = fst (last ck)"
    using Cons.hyps(1) by (auto simp: output_holds_def x)
  have asc: "ascending ck" "ascending (concat cks)" "\<forall>kv\<in>set ck. entry_ok kv" using Cons.prems by auto
  have f: "fm_number ?f = n" "fm_min_key ?f = tm_min_key meta" "fm_max_key ?f = tm_max_key meta" by (simp_all add: FileMeta_from_table_def)
  have "file_ok crc ssts ?f" unfolding file_ok_def f using h asc by blast
  moreover have "ents crc ssts ?f = ck" using h(2,3) unfolding ents_def f by (auto simp: table_holds_def)
  moreover have IH: "(\<forall>f\<in>set (output_files outs). file_ok crc ssts f) \<and> files_view crc ssts (output_files outs) = map_of (concat cks)"
    using Cons.IH asc(2) Cons.prems(2) by simp
  moreover have "map_of (ck @ concat cks) k = orelse (map_of ck k) (map_of (concat cks) k)" for k
    by (cases "map_of ck k") (auto simp: map_add_def)
  moreover have "output_files (x # outs) = ?f # output_files outs" by (simp add: output_files_def x)
  ultimately show ?case
    by (auto simp: fun_eq_iff files_view_def)
qed

lemma read_sources_ok:
  assumes "\<forall>f\<in>set fs. file_ok crc (dk_ssts (db_disk db)) f"
  shows "read_sources crc db fs = Inr (map (ents crc (dk_ssts (db_disk db))) fs)"
  using assms
proof (induction fs)
  case (Cons f fs)
  then obtain "file" t where "map_of (dk_ssts (db_disk db)) (fm_number f) = Some file" "SsTable_open crc file = Inr t"
      "SsTable_iter crc t = (ents crc (dk_ssts (db_disk db)) f, None)"
    using file_ok_facts(1) [of crc "dk_ssts (db_disk db)" f] by auto
  with Cons show ?case by (simp add: open_table_def)
qed simp

lemma map_of_filter_key: "map_of (filter (\<lambda>(n, _). n \<notin> S) m) n = (if n \<in> S then None else map_of m n)"
  by (induction m) auto

lemma sweep_ok:
  assumes "db_ok crc db" "sweep_pending_deletes io db = (r, db')"
  shows "db_ok crc db' \<and> tree_view crc db' = tree_view crc db"
proof -
  let ?gone = "concat (take (io_releasable io) (db_pending db))" and ?kept = "drop (io_releasable io) (db_pending db)"
  let ?ssts = "dk_ssts (db_disk db)" and ?v = "db_version db"
  let ?ssts' = "filter (\<lambda>(n, _). n \<notin> set ?gone) ?ssts"
  have p: "set ?gone \<subseteq> set (concat (db_pending db))" "set (concat ?kept) \<subseteq> set (concat (db_pending db))"
    by (auto dest: in_set_takeD in_set_dropD)
  have ok: "parts_ok crc (db_tables db) ?v ?ssts (mf_next_file_number (db_manifest db)) (db_pending db)" using assms(1) by (simp add: db_ok_def)
  have same: "map_of ?ssts' (fm_number f) = map_of ?ssts (fm_number f)" if "f \<in> set (concat ?v)" for f
    using ok p(1) that unfolding map_of_filter_key parts_ok_def by (metis image_eqI subsetD)
  have "ascending ?ssts'" using ok by (intro ascending_filter) (simp add: parts_ok_def)
  moreover have "\<forall>f\<in>set (concat ?v). file_ok crc ?ssts' f \<and> fm_number f < mf_next_file_number (db_manifest db)"
    using ok same_file(2) [OF same] unfolding parts_ok_def by blast
  ultimately have ok': "parts_ok crc (db_tables db) ?v ?ssts' (mf_next_file_number (db_manifest db)) ?kept"
    using ok p(2) unfolding parts_ok_def by blast
  have ok'': "parts_ok crc (db_tables db) ?v ?ssts (mf_next_file_number (db_manifest db)) ?kept"
    using ok p(2) unfolding parts_ok_def by blast
  have v: "files_view crc ?ssts' (concat ?v) = files_view crc ?ssts (concat ?v)" by (rule same_files_view) (rule same)
  show ?thesis
  proof (cases "io_remove io")
    case True
    then have "db' = db\<lparr>db_pending := ?kept, db_disk := (db_disk db)\<lparr>dk_ssts := ?ssts'\<rparr>\<rparr>"
      using assms(2) by (auto simp: sweep_pending_deletes_def)
    with ok' v show ?thesis by (auto simp: db_ok_def db_tables_def tree_view_def fun_eq_iff)
  next
    case False
    then have "db' = db\<lparr>db_pending := ?kept\<rparr>" using assms(2) by (auto simp: sweep_pending_deletes_def)
    with ok'' show ?thesis by (auto simp: db_ok_def db_tables_def tree_view_def fun_eq_iff)
  qed
qed

lemma install_ok:
  assumes ok: "db_ok crc db" and plan: "plan_ok (db_version db) plan lo hi"
    and fresh: "\<forall>f\<in>set (concat (db_version db)). fm_number f < fresh" "\<forall>n\<in>set (concat (db_pending db)). n < fresh"
    and outs: "\<forall>x\<in>set outs. fresh \<le> fst x \<and> fst x < mf_next_file_number (db_manifest db)" "distinct (map fst outs)"
      "\<forall>f\<in>set (output_files outs). file_ok crc (dk_ssts (db_disk db)) f"
    and kept: "\<And>k. files_view crc (dk_ssts (db_disk db)) (output_files outs) k =
        map_of (keep_entries now (\<lambda>key. is_bottom_most (db_version db) (pl_output_level plan) \<or> \<not> key_exists_below (db_version db) (pl_output_level plan) key) 0
          (merge (map (ents crc (dk_ssts (db_disk db))) (pl_inputs plan @ pl_overlapping plan)))) k"
    and now: "\<And>j. now j \<le> t" and run: "install_compaction crc io plan outs db = (r, db')"
  shows "db_ok crc db' \<and> drops_dead t (tree_view crc db) (tree_view crc db')"
proof -
  let ?v = "db_version db" and ?ssts = "dk_ssts (db_disk db)" and ?next = "mf_next_file_number (db_manifest db)"
  define v' where "v' = compacted_version plan outs ?v"
  define db0 where "db0 = db\<lparr>db_manifest := (db_manifest db)\<lparr>mf_version := v'\<rparr>\<rparr>"
  obtain rs db1 where st: "store_manifest crc (io_store io 0) db0 = (rs, db1)" by fastforce
  note f = store_manifest_facts [OF st, unfolded db0_def, simplified]
  define db2 where "db2 = db1\<lparr>db_version := v', db_pending := db_pending db1 @ [map fm_number (pl_inputs plan @ pl_overlapping plan)]\<rparr>"
  have run': "(case Version_validate v' of Inl e \<Rightarrow> (Inl e, db)
      | Inr _ \<Rightarrow> (case rs of Inl e \<Rightarrow> (Inl e, db1) | Inr _ \<Rightarrow> sweep_pending_deletes io db2)) = (r, db')"
    using run unfolding install_compaction_def Let_def v'_def [symmetric] db0_def [symmetric] st db2_def
    by (auto split: sum.splits)
  have ok1: "db_ok crc db1" "tree_view crc db1 = tree_view crc db"
    using db_ok_facts [of db1 db] f ok by simp_all
  consider "db' = db" | "db' = db1" | "Version_validate v' = Inr ()" "sweep_pending_deletes io db2 = (r, db')"
    using run' by (auto split: sum.splits)
  then show ?thesis
  proof cases
    case 3
    have P: "version_ok ?v" "ascending ?ssts" "\<forall>t\<in>set (db_tables db). table_ok t"
      "\<forall>f\<in>set (concat ?v). file_ok crc ?ssts f" "\<forall>n\<in>set (concat (db_pending db)). n < ?next \<and> n \<notin> fm_number ` set (concat ?v)"
      "\<forall>f\<in>set (concat ?v). fm_number f < ?next"
      using ok by (auto simp: db_ok_def parts_ok_def)
    have outs_ge: "\<forall>x\<in>set outs. fresh \<le> fst x" using outs(1) by blast
    note V = compacted_version_ok [OF P(1) plan v'_def 3(1) fresh(1) outs_ge outs(2)]
    have okv': "\<forall>f\<in>set (concat v'). file_ok crc ?ssts f" using V(2) P(4) outs(3) by blast
    have new: "\<forall>f\<in>set (output_files outs). fresh \<le> fm_number f \<and> fm_number f < ?next"
      using outs(1) by (fastforce simp: output_files_def FileMeta_from_table_def)
    have lt': "\<forall>f\<in>set (concat v'). fm_number f < ?next" using V(2) P(6) new by blast
    have olds: "fm_number ` set (pl_inputs plan @ pl_overlapping plan) \<subseteq> fm_number ` set (concat ?v)"
      using plan_sources [OF plan] by (intro image_mono)
    have pend: "n < ?next \<and> n \<notin> fm_number ` set (concat v')"
      if mem: "n \<in> set (concat (db_pending db @ [map fm_number (pl_inputs plan @ pl_overlapping plan)]))" for n
    proof -
      consider (old) "n \<in> set (concat (db_pending db))" | (retired) "n \<in> fm_number ` set (pl_inputs plan @ pl_overlapping plan)"
        using mem unfolding concat_append set_append concat.simps set_map list.set by blast
      then show ?thesis
      proof cases
        case old
        then show ?thesis using P(5) fresh(2) V(2) new by (fastforce dest: subsetD)
      next
        case retired
        then have "n \<in> fm_number ` set (concat ?v)" by (rule subsetD [OF olds])
        then have "n < ?next" using P(6) by (elim imageE) blast
        moreover have "n \<notin> fm_number ` set (concat v')" using IntI [OF _ retired, of "fm_number ` set (concat v')"] unfolding V(3) by fast
        ultimately show ?thesis ..
      qed
    qed
    have "db_ok crc db2"
    proof -
      have d2: "db_tables db2 = db_tables db" "db_version db2 = v'" "dk_ssts (db_disk db2) = ?ssts" "mf_next_file_number (db_manifest db2) = ?next"
        "db_pending db2 = db_pending db @ [map fm_number (pl_inputs plan @ pl_overlapping plan)]"
        by (simp_all add: db2_def f db_tables_def)
      show ?thesis unfolding db_ok_def parts_ok_def d2 using P(2,3) V(1) okv' lt' pend by (intro conjI ballI) (assumption | blast)+
    qed
    from sweep_ok [OF this 3(2)] have s: "db_ok crc db'" "tree_view crc db' = tree_view crc db2" by auto
    have "tree_view crc db2 = (\<lambda>k. orelse (tables_view (db_tables db) k) (files_view crc ?ssts (concat v') k))"
      by (simp add: tree_view_def db2_def f db_tables_def fun_eq_iff)
    moreover have "drops_dead t (files_view crc ?ssts (concat ?v)) (files_view crc ?ssts (concat v'))"
      by (rule compaction_shrinks [OF P(1) plan v'_def V(1) P(4) okv' kept now])
    ultimately show ?thesis using s shrinks_under [of t _ _ "tables_view (db_tables db)"]
      by (simp add: tree_view_def [abs_def])
  qed (use ok ok1 in auto)
qed

lemma run_compaction_ok:
  assumes ok: "db_ok crc db" and plan: "plan_ok (db_version db) plan lo hi" and bs: "op_block_size opts \<le> 2 ^ 30"
    and now: "\<And>j. io_now io j \<le> t" and run: "run_compaction crc opts io plan db = (r, db')"
  shows "db_ok crc db' \<and> drops_dead t (tree_view crc db) (tree_view crc db')"
proof -
  let ?v = "db_version db" and ?ssts = "dk_ssts (db_disk db)" and ?next = "mf_next_file_number (db_manifest db)"
  let ?srcs = "pl_inputs plan @ pl_overlapping plan"
  have P: "ascending ?ssts" "\<forall>f\<in>set (concat ?v). file_ok crc ?ssts f \<and> fm_number f < ?next"
    "\<forall>n\<in>set (concat (db_pending db)). n < ?next"
    using ok by (auto simp: db_ok_def parts_ok_def)
  have src: "\<forall>f\<in>set ?srcs. file_ok crc ?ssts f \<and> fm_number f < ?next" using P(2) plan_sources [OF plan] by blast
  define kept where "kept = keep_entries (io_now io) (\<lambda>key. is_bottom_most ?v (pl_output_level plan) \<or> \<not> key_exists_below ?v (pl_output_level plan) key) 0
      (merge (map (ents crc ?ssts) ?srcs))"
  obtain ro man ssts' where w: "write_outputs crc opts (io_build io) None kept (db_manifest db) ?ssts [] = (ro, man, ssts')"
    by (metis prod_cases3)
  define db1 where "db1 = db\<lparr>db_manifest := man, db_disk := (db_disk db)\<lparr>dk_ssts := ssts'\<rparr>\<rparr>"
  have asc: "\<forall>c\<in>set (map (ents crc ?ssts) ?srcs). ascending c" using src file_ok_facts(2) unfolding set_map by blast
  have mn: "ascending (merge (map (ents crc ?ssts) ?srcs))" "set (merge (map (ents crc ?ssts) ?srcs)) \<subseteq> set (concat (map (ents crc ?ssts) ?srcs))"
    using merge_newest [OF asc] by blast+
  have kept: "ascending kept" "\<forall>kv\<in>set kept. entry_ok kv"
  proof -
    show "ascending kept" unfolding kept_def by (rule keep_entries_ascending) (rule mn(1))
    have "\<forall>kv\<in>set (concat (map (ents crc ?ssts) ?srcs)). entry_ok kv"
      using src file_ok_facts(4) unfolding set_concat set_map by blast
    then show "\<forall>kv\<in>set kept. entry_ok kv" using keep_entries_sub mn(2) unfolding kept_def by blast
  qed
  have oh: "outputs_hold crc ?next ([] @ kept) ?ssts [] (ro, man, ssts')"
    unfolding w [symmetric] by (rule write_outputs_ok [OF bs P(1)]) (use kept in simp_all)
  then have old: "?next \<le> mf_next_file_number man" "ascending ssts'" "\<forall>n < ?next. map_of ssts' n = map_of ?ssts n"
    by (auto simp: outputs_hold_def)
  have same: "map_of ssts' (fm_number f) = map_of ?ssts (fm_number f)" if "f \<in> set (concat ?v)" for f using old(3) P(2) that by blast
  have ok1: "db_ok crc db1" and view1: "tree_view crc db1 = tree_view crc db"
  proof -
    have "\<forall>f\<in>set (concat ?v). file_ok crc ssts' f" using same_file(2) [OF same] P(2) by blast
    with ok old(1,2) show "db_ok crc db1" unfolding db_ok_def parts_ok_def by (fastforce simp: db1_def db_tables_def)
    show "tree_view crc db1 = tree_view crc db" using same_files_view [of "concat ?v" ssts' ?ssts crc, OF same] by (simp add: tree_view_def db1_def db_tables_def fun_eq_iff)
  qed
  have rs: "read_sources crc db ?srcs = Inr (map (ents crc ?ssts) ?srcs)" using src by (intro read_sources_ok) blast
  have run': "(case ro of Inl e \<Rightarrow> (Inl e, db1)
      | Inr outs \<Rightarrow> (case install_compaction crc io plan outs db1 of (Inl e, db) \<Rightarrow> (Inl e, db)
          | (Inr _, db) \<Rightarrow> (Inr (), db\<lparr>db_pointer := (db_pointer db)(pl_level plan := fm_max_key (last (pl_inputs plan)))\<rparr>))) = (r, db')"
    using run unfolding run_compaction_def rs sum.case Let_def kept_def [symmetric] w prod.case db1_def [symmetric] .
  show ?thesis
  proof (cases ro)
    case (Inl e)
    then show ?thesis using run' ok1 view1 by simp
  next
    case (Inr outs)
    obtain r2 db2 where ins: "install_compaction crc io plan outs db1 = (r2, db2)" by fastforce
    from oh Inr obtain cks where o: "concat cks = kept" "list_all2 (output_holds crc ssts') outs cks"
      "\<forall>x\<in>set outs. ?next \<le> fst x \<and> fst x < mf_next_file_number man" "distinct (map fst outs)"
      by (auto simp: outputs_hold_def)
    note ov = output_view [OF o(2), unfolded o(1), OF kept]
    have srcs: "map (ents crc ssts') ?srcs = map (ents crc ?ssts) ?srcs"
      using same_file(1) [OF same] plan_sources [OF plan] by (intro map_cong) blast+
    have d1: "db_version db1 = ?v" "dk_ssts (db_disk db1) = ssts'" "db_pending db1 = db_pending db" "db_manifest db1 = man"
      by (simp_all add: db1_def)
    have "files_view crc ssts' (output_files outs) k =
        map_of (keep_entries (io_now io) (\<lambda>key. is_bottom_most ?v (pl_output_level plan) \<or> \<not> key_exists_below ?v (pl_output_level plan) key) 0
          (merge (map (ents crc ssts') ?srcs))) k" for k
      unfolding srcs kept_def [symmetric] using ov by simp
    then have "db_ok crc db2 \<and> drops_dead t (tree_view crc db1) (tree_view crc db2)"
      using plan P(2,3) o(3,4) ov now
      by (intro install_ok [OF ok1 _ _ _ _ _ _ _ _ ins, unfolded d1, where fresh = ?next and now = "io_now io" and lo = lo and hi = hi]) blast+
    moreover have "db' = db2 \<or> db' = db2\<lparr>db_pointer := (db_pointer db2)(pl_level plan := fm_max_key (last (pl_inputs plan)))\<rparr>"
      using run' Inr ins by (auto split: sum.splits)
    ultimately show ?thesis using db_ok_facts [of db' db2] view1 by auto
  qed
qed

lemma compact_once_ok:
  assumes "db_ok crc db" "op_block_size opts \<le> 2 ^ 30" "\<And>j. io_now io j \<le> t" "compact_once crc opts io db = (r, db')"
  shows "db_ok crc db' \<and> drops_dead t (tree_view crc db) (tree_view crc db')"
proof (cases "pick_compaction opts (db_pointer db) (db_version db)")
  case None
  with assms show ?thesis by (simp add: compact_once_def)
next
  case (Some plan)
  have "version_ok (db_version db)" using assms(1) by (simp add: db_ok_def parts_ok_def)
  from pick_compaction_ok [OF this Some] obtain lo hi where plan: "plan_ok (db_version db) plan lo hi" by blast
  obtain r2 db2 where run: "run_compaction crc opts io plan db = (r2, db2)" by fastforce
  then have "db' = db2" using assms(4) Some by (auto simp: compact_once_def split: sum.splits)
  with run_compaction_ok [OF assms(1) plan assms(2,3) run] show ?thesis by simp
qed

end
