(* ===== verification/Lsm_History.thy ===== *)
theory Lsm_History
  imports Lsm_Compact
begin

text \<open>
  Histories of the storage engine. A step is one section of \<open>db.rs\<close> that holds a lock, a background
  step or a sweep, with whatever the disk does to it; a run interleaves them in any order, as the
  writers and the background thread do. The engine refines the map in which the last write of a key
  wins, and its composed operations are runs.
\<close>

section \<open>Steps and runs\<close>

inductive engine_step :: "checksum \<Rightarrow> Options \<Rightarrow> int \<Rightarrow> Db \<Rightarrow> mutation list \<Rightarrow> Db \<Rightarrow> bool"
  for crc opts t where
  applied: "write_apply crc io muts db = (Inr seq, db') \<Longrightarrow> typed muts \<Longrightarrow> engine_step crc opts t db muts db'"
| refused: "write_apply crc io muts db = (Inl e, db') \<Longrightarrow> typed muts \<Longrightarrow> engine_step crc opts t db [] db'"
| commit: "write_commit io seq db = (r, db') \<Longrightarrow> engine_step crc opts t db [] db'"
| freeze: "force_freeze crc opts io db = (r, db') \<Longrightarrow> engine_step crc opts t db [] db'"
| sync: "Db_sync io db = (r, db') \<Longrightarrow> engine_step crc opts t db [] db'"
| flush_log: "flush_log io db = (r, db') \<Longrightarrow> engine_step crc opts t db [] db'"
| flush: "flush_one crc opts io db = (r, db') \<Longrightarrow> engine_step crc opts t db [] db'"
| compact: "compact_once crc opts io db = (r, db') \<Longrightarrow> \<forall>j. io_now io j \<le> t \<Longrightarrow> engine_step crc opts t db [] db'"
| sweep: "sweep_pending_deletes io db = (r, db') \<Longrightarrow> engine_step crc opts t db [] db'"
| poison: "engine_step crc opts t db [] (poison msg db)"
| stop: "engine_step crc opts t db [] (db\<lparr>db_stopping := True\<rparr>)"

inductive engine_run :: "checksum \<Rightarrow> Options \<Rightarrow> int \<Rightarrow> Db \<Rightarrow> mutation list \<Rightarrow> Db \<Rightarrow> bool"
  for crc opts t where
  run_refl: "engine_run crc opts t db [] db"
| run_step: "engine_run crc opts t db ms db' \<Longrightarrow> engine_step crc opts t db' ms' db'' \<Longrightarrow> engine_run crc opts t db (ms @ ms') db''"

lemma run_one: "engine_step crc opts t db ms db' \<Longrightarrow> engine_run crc opts t db ms db'"
  using run_step [OF run_refl] by fastforce

lemma run_trans: "engine_run crc opts t db' ms' db'' \<Longrightarrow> engine_run crc opts t db ms db' \<Longrightarrow> engine_run crc opts t db (ms @ ms') db''"
proof (induction rule: engine_run.induct)
  case (run_step db' ms' db1 ms1 db2)
  then show ?case using engine_run.run_step [of crc opts t db "ms @ ms'" db1 ms1 db2] by simp
qed simp

lemmas run_quiet = run_trans [where ms = "[]", simplified]

section \<open>The last write wins\<close>

text \<open>The map a sequence of mutations leaves, and what a reader sees of it.\<close>

definition last_write :: "mutation list \<Rightarrow> bytes \<Rightarrow> Entry option" where
  "last_write ms = map_of (rev ms)"

lemma last_write_append: "last_write (ms @ ms') k = orelse (last_write ms' k) (last_write ms k)"
  by (cases "map_of (rev ms') k") (simp_all add: last_write_def map_add_def)

lemma last_write_Nil [simp]: "last_write [] k = None"
  by (simp add: last_write_def)

lemma engine_step_ok:
  assumes "engine_step crc opts t db ms db'" "db_ok crc db" "op_block_size opts \<le> 2 ^ 30"
  shows "db_ok crc db' \<and> drops_dead t (\<lambda>k. orelse (last_write ms k) (tree_view crc db k)) (tree_view crc db')"
  using assms
proof cases
  case (applied io seq)
  with write_apply_ok [OF assms(2) applied(2,1)] show ?thesis by (simp add: last_write_def drops_dead_def)
next
  case (refused io muts e)
  with write_apply_ok [OF assms(2) refused(3,2)] show ?thesis by (simp add: drops_dead_def)
next
  case (commit io seq r)
  with write_commit_ok [of io seq db r db' crc] assms(2) show ?thesis by simp
next
  case (freeze io r)
  with freeze_ok [OF assms(2)] show ?thesis by simp
next
  case (sync io r)
  then show ?thesis using assms(2) by (auto simp: Db_sync_def log_only split: prod.splits)
next
  case (flush_log io r)
  then show ?thesis using assms(2) by (auto simp: flush_log_def log_only split: prod.splits)
next
  case (flush io r)
  with flush_one_ok [OF assms(2,3)] show ?thesis by simp
next
  case (compact io r)
  with compact_once_ok [OF assms(2,3), of io t] show ?thesis by simp
next
  case (sweep io r)
  with sweep_ok [OF assms(2)] show ?thesis by simp
next
  case (poison msg)
  then show ?thesis using db_ok_facts [of db' db crc] assms(2) by (simp add: poison_def)
next
  case stop
  then show ?thesis using db_ok_facts [of db' db crc] assms(2) by simp
qed

lemma engine_run_ok:
  assumes "engine_run crc opts t db ms db'" "db_ok crc db" "op_block_size opts \<le> 2 ^ 30"
  shows "db_ok crc db' \<and> drops_dead t (\<lambda>k. orelse (last_write ms k) (tree_view crc db k)) (tree_view crc db')"
  using assms
proof (induction rule: engine_run.induct)
  case (run_step db ms db' ms' db'')
  then have IH: "db_ok crc db'" "drops_dead t (\<lambda>k. orelse (last_write ms k) (tree_view crc db k)) (tree_view crc db')" by auto
  note st = engine_step_ok [OF run_step.hyps(2) IH(1) run_step.prems(2)]
  have "drops_dead t (\<lambda>k. orelse (last_write ms' k) (orelse (last_write ms k) (tree_view crc db k))) (\<lambda>k. orelse (last_write ms' k) (tree_view crc db' k))"
    by (rule shrinks_under [OF IH(2)])
  from shrinks_trans [OF this] st show ?case by (simp add: last_write_append)
qed simp

lemma shrinks_answer: "drops_dead t m m' \<Longrightarrow> t \<le> now \<Longrightarrow> read_entry now (m' k) = read_entry now (m k)"
proof -
  assume a: "drops_dead t m m'" "t \<le> now"
  have dead: "Entry_live e now = None" if "obsolete t e" for e
    using obsolete_mono [OF that a(2)] by (cases e) auto
  from a(1) have "m' k = m k \<or> m' k = None \<and> (\<exists>e. m k = Some e \<and> obsolete t e)" by (simp add: drops_dead_def)
  then show ?thesis using dead by (auto simp: read_entry_def)
qed

section \<open>The operations are runs\<close>

lemma Db_write_run:
  assumes "Db_write crc opts io muts db = (r, db')" "typed muts"
  shows "\<exists>ms. engine_run crc opts t db ms db' \<and> (ms = muts \<or> ms = [] \<and> isl r)"
proof -
  obtain ra db1 where a: "write_apply crc io muts db = (ra, db1)" by fastforce
  show ?thesis
  proof (cases "isl (check_healthy db) \<or> muts = [] \<or> needs_space opts db \<and> io_stopped io")
    case True
    then have "db' = db \<and> (muts = [] \<or> isl r)"
      using assms(1) by (auto simp: Db_write_def split: sum.splits if_splits)
    then show ?thesis using run_refl by (intro exI [of _ "[]"]) auto
  next
    case False
    note ok = False
    show ?thesis
    proof (cases ra)
      case (Inl e)
      with assms(1) ok a have "db' = db1 \<and> isl r" by (auto simp: Db_write_def split: sum.splits)
      then show ?thesis using run_one [OF refused] a Inl assms(2) by blast
    next
      case (Inr seq)
      obtain rc db2 where c: "write_commit io seq db1 = (rc, db2)" by fastforce
      obtain rf db3 where f: "maybe_freeze crc opts io db2 = (rf, db3)" by fastforce
      have applied: "engine_run crc opts t db muts db1" by (rule run_one, rule engine_step.applied) (use a Inr assms(2) in auto)
      then have comm: "engine_run crc opts t db muts db2" using run_step [OF _ engine_step.commit [OF c]] by fastforce
      have "db3 = db2 \<or> (\<exists>r. force_freeze crc opts io db2 = (r, db3))" using f by (auto simp: maybe_freeze_def split: if_splits)
      then have froz: "engine_run crc opts t db muts db3" using comm run_step [OF comm engine_step.freeze] by fastforce
      have "db' = db2 \<or> db' = db3" using assms(1) ok a Inr c f by (auto simp: Db_write_def split: sum.splits)
      with comm froz show ?thesis by blast
    qed
  qed
qed

lemma drain_flushes_run: "drain_flushes crc opts ios n db = (r, db') \<Longrightarrow> engine_run crc opts t db [] db'"
proof (induction n arbitrary: db r)
  case (Suc n)
  obtain rf db1 where f: "flush_one crc opts (ios n) db = (rf, db1)" by fastforce
  note one = run_one [OF engine_step.flush [OF f], of t]
  show ?case
  proof (cases "rf = Inr True")
    case True
    with Suc.prems f have "drain_flushes crc opts ios n db1 = (r, db')" by simp
    from run_quiet [OF Suc.IH [OF this] one] show ?thesis .
  next
    case False
    with Suc.prems f have "db' = db1" by (auto split: sum.splits bool.splits)
    with one show ?thesis by simp
  qed
qed (simp add: run_refl)

lemma compact_loop_run:
  "compact_loop crc opts ios n db = (r, db') \<Longrightarrow> \<forall>i j. io_now (ios i) j \<le> t \<Longrightarrow> engine_run crc opts t db [] db'"
proof (induction n arbitrary: db r)
  case (Suc n)
  obtain rf db1 where f: "compact_once crc opts (ios n) db = (rf, db1)" by fastforce
  have one: "engine_run crc opts t db [] db1" by (rule run_one, rule engine_step.compact [OF f]) (use Suc.prems(2) in blast)
  show ?case
  proof (cases "rf = Inr True")
    case True
    with Suc.prems f have "compact_loop crc opts ios n db1 = (r, db')" by simp
    from run_quiet [OF Suc.IH [OF this Suc.prems(2)] one] show ?thesis .
  next
    case False
    with Suc.prems f have "db' = db1" by (auto split: sum.splits bool.splits)
    with one show ?thesis by simp
  qed
qed (simp add: run_refl)

lemma background_run:
  assumes "do_background_step crc opts io db = (r, db')" "\<forall>j. io_now io j \<le> t"
  shows "engine_run crc opts t db [] db'"
proof -
  obtain rf db1 where f: "flush_one crc opts io db = (rf, db1)" by fastforce
  note one = run_one [OF engine_step.flush [OF f], of t]
  consider "db' = db1" | "compact_once crc opts io db1 = (r, db')"
    using assms(1) f by (auto simp: do_background_step_def split: sum.splits bool.splits)
  then show ?thesis
  proof cases
    case 2
    from run_quiet [OF run_one [OF engine_step.compact [OF this assms(2)]] one] show ?thesis .
  qed (use one in simp)
qed

lemma poison_on_run: "engine_run crc opts t db [] db' \<Longrightarrow> engine_run crc opts t db [] (poison_on msg (r, db'))"
  using run_step [OF _ engine_step.poison, of crc opts t db "[]" db'] by (auto simp: poison_on_def split: sum.splits)

lemma maintenance_run:
  assumes "periodic_log_maintenance io elapsed db = (r, db')"
  shows "engine_run crc opts t db [] db'"
proof -
  obtain rf db1 where f: "flush_log io db = (rf, db1)" by fastforce
  note one = run_one [OF engine_step.flush_log [OF f], of crc opts t]
  consider "db' = db1" | "Db_sync io db1 = (r, db')"
    using assms f by (auto simp: periodic_log_maintenance_def split: sum.splits if_splits)
  then show ?thesis
  proof cases
    case 2
    from run_quiet [OF run_one [OF engine_step.sync [OF this]] one] show ?thesis .
  qed (use one in simp)
qed

lemma background_turn_run:
  assumes "background_turn crc opts io ios halted elapsed msg db = (go, db')" "\<forall>j. io_now io j \<le> t"
  shows "engine_run crc opts t db [] db'"
proof (cases "db_stopping db")
  case True
  then show ?thesis using assms(1) drain_flushes_run [OF prod.collapse [symmetric]] run_refl
    by (auto simp: background_turn_def split: if_splits)
next
  case False
  obtain rb db1 where b: "do_background_step crc opts io db = (rb, db1)" by fastforce
  define db2 where "db2 = poison_on msg (rb, db1)"
  obtain rm db3 where m: "periodic_log_maintenance io elapsed db2 = (rm, db3)" by fastforce
  obtain rs db4 where s: "sweep_pending_deletes io (poison_on msg (rm, db3)) = (rs, db4)" by fastforce
  have r2: "engine_run crc opts t db [] db2" unfolding db2_def by (rule poison_on_run [OF background_run [OF b assms(2)]])
  have "engine_run crc opts t db [] (poison_on msg (rm, db3))" by (rule poison_on_run [OF run_quiet [OF maintenance_run [OF m] r2]])
  from run_quiet [OF run_one [OF engine_step.sweep [OF s]] this] have r4: "engine_run crc opts t db [] db4" .
  have "db' = db2 \<or> db' = db4" using assms(1) False b m s by (auto simp: background_turn_def Let_def db2_def split: if_splits)
  with r2 r4 show ?thesis by blast
qed

lemma compact_until_idle_run:
  assumes "compact_until_idle crc opts fios cios db = (r, db')" "\<forall>i j. io_now (cios i) j \<le> t"
  shows "engine_run crc opts t db [] db'"
proof -
  obtain rf db1 where f: "drain_flushes crc opts fios (length (db_immutable db)) db = (rf, db1)" by fastforce
  note one = drain_flushes_run [OF f, of t]
  consider "db' = db1" | "compact_loop crc opts cios 1000 db1 = (r, db')"
    using assms(1) f by (auto simp: compact_until_idle_def split: sum.splits)
  then show ?thesis
  proof cases
    case 2
    from run_quiet [OF compact_loop_run [OF this assms(2)] one] show ?thesis .
  qed (use one in simp)
qed

lemma flush_memtable_run:
  assumes "flush_memtable crc opts io ios db = (r, db')"
  shows "engine_run crc opts t db [] db'"
proof -
  obtain rf db1 where f: "force_freeze crc opts io db = (rf, db1)" by fastforce
  note one = run_one [OF engine_step.freeze [OF f], of t]
  consider "db' = db1" | "drain_flushes crc opts ios (length (db_immutable db1)) db1 = (r, db')"
    using assms f by (auto simp: flush_memtable_def split: sum.splits)
  then show ?thesis
  proof cases
    case 2
    from run_quiet [OF drain_flushes_run [OF this] one] show ?thesis .
  qed (use one in simp)
qed

lemma Db_close_run:
  assumes "Db_close crc opts io ios db = (r, db')"
  shows "engine_run crc opts t db [] db'"
proof (cases "db_stopping db")
  case True
  with assms show ?thesis by (simp add: Db_close_def run_refl)
next
  case False
  obtain rf db1 where f: "drain_flushes crc opts ios (length (db_immutable db)) (db\<lparr>db_stopping := True\<rparr>) = (rf, db1)" by fastforce
  note one = run_quiet [OF drain_flushes_run [OF f] run_one [OF stop], of t]
  from False assms f have "Db_sync io db1 = (r, db')" by (simp add: Db_close_def)
  from run_quiet [OF run_one [OF engine_step.sync [OF this]] one] show ?thesis .
qed

section \<open>A new directory\<close>

lemma open_empty:
  assumes "Db_open crc opts io empty_disk = Inr db"
  shows "db_ok crc db" "tree_view crc db = (\<lambda>_. None)"
proof -
  have empty: "MemTable_is_empty MemTable_new" by (simp add: MemTable_is_empty_def MemTable_new_def)
  have db: "db_active db = MemTable_new" "db_immutable db = []" "db_version db = Version_new" "dk_ssts (db_disk db) = []" "db_pending db = []"
    using assms empty
    by (auto simp: Db_open_def empty_disk_def Manifest_load_def Manifest_default_def allocate_file_number_def Let_def
        maybe_freeze_def force_freeze_def split: if_splits prod.splits option.splits)
  have "version_ok Version_new" by (auto simp: version_ok_def Version_new_def files_ok_def)
  then show "db_ok crc db" by (auto simp: db_ok_def parts_ok_def db db_tables_def Version_new_def)
  show "tree_view crc db = (\<lambda>_. None)"
    by (simp add: tree_view_def db db_tables_def Version_new_def MemTable_new_def tables_view_def files_view_def fun_eq_iff concat_eq_Nil_conv)
qed

text \<open>
  C5: an engine opened on an empty directory answers every read by the last write of the key. The
  history may interleave writes, commits, freezes, flushes, compactions and sweeps in any order, and any
  of their system calls may fail: a key reads as the newest value applied to it, and as absent when it
  was deleted, has expired or was never written. Compaction drops tombstones and expired values
  without letting an older value come back.
\<close>

theorem engine_last_write_wins:
  assumes "Db_open crc opts io empty_disk = Inr db0" "op_block_size opts \<le> 2 ^ 30"
    "engine_run crc opts t db0 ms db" "t \<le> now"
  shows "Db_get crc key now db =
    Inr (case last_write ms key of
           Some (Entry_Put r) \<Rightarrow> if Expired r now then None else Some r
         | _ \<Rightarrow> None)"
proof -
  note o = open_empty [OF assms(1)]
  from engine_run_ok [OF assms(3) o(1) assms(2)]
  have ok: "db_ok crc db" "drops_dead t (last_write ms) (tree_view crc db)" by (simp_all add: o(2))
  show ?thesis unfolding get_view [OF ok(1)] shrinks_answer [OF ok(2) assms(4)]
    by (simp add: read_entry_def split: option.splits Entry.splits)
qed

section \<open>When nothing fails\<close>

definition first_db :: "checksum \<Rightarrow> Options \<Rightarrow> Db" where
  "first_db crc opts =
     (let man = \<lparr>mf_next_file_number = 2, mf_log_number = 1, mf_last_sequence = 0, mf_version = Version_new\<rparr> in
      \<lparr>db_active = MemTable_new, db_immutable = [], db_log = Wal_create crc 1 0 (op_sync_policy opts), db_version = Version_new,
       db_manifest = man, db_disk = \<lparr>dk_manifest = Some (Manifest_bytes crc man), dk_ssts = [], dk_logs = []\<rparr>,
       db_pending = [], db_pointer = (\<lambda>_. []), db_stopping = False, db_fatal = None\<rparr>)"

lemma MemTable_new_empty [simp]: "MemTable_is_empty MemTable_new"
  by (simp add: MemTable_is_empty_def MemTable_new_def)

lemma open_calm: "Db_open crc opts (db_calm now) empty_disk = Inr (first_db crc opts)"
  by (simp add: Db_open_def empty_disk_def Manifest_load_def Manifest_default_def allocate_file_number_def Let_def db_calm_def
      Manifest_store_def maybe_freeze_def force_freeze_def first_db_def numeral_2_eq_2)

lemma write_apply_calm:
  assumes "wal_holds crc (db_log db) bs" "batch_ok muts"
  shows "\<exists>w. write_apply crc (db_calm now) muts db = (Inr (wl_next_seq (db_log db)), db\<lparr>db_log := w, db_active := insert_all muts (db_active db)\<rparr>)
    \<and> wal_holds crc w (bs @ [muts]) \<and> wl_next_seq w = wl_next_seq (db_log db) + 1 \<and> wl_number w = wl_number (db_log db) \<and> wl_policy w = wl_policy (db_log db)"
proof -
  obtain r w where a: "Wal_append crc wal_calm muts (db_log db) = (r, w)" by fastforce
  note c = append_calm [OF assms a]
  from c a Wal_append_number [OF a] show ?thesis by (intro exI [of _ w]) (simp add: write_apply_def db_calm_def)
qed

lemma force_freeze_calm:
  assumes "wal_holds crc (db_log db) bs" "\<not> MemTable_is_empty (db_active db)"
  shows "\<exists>w. Wal_flush wal_calm (db_log db) = (Inr (), w) \<and> wal_holds crc w bs \<and> wl_bytes w = [] \<and> wl_number w = wl_number (db_log db)
    \<and> wl_next_seq w = wl_next_seq (db_log db)
    \<and> force_freeze crc opts (db_calm now) db =
      (Inr (), db\<lparr>db_active := MemTable_new, db_immutable := (wl_number w, db_active db) # db_immutable db,
         db_log := Wal_create crc (mf_next_file_number (db_manifest db)) (last_sequence w) (op_sync_policy opts),
         db_manifest := (db_manifest db)\<lparr>mf_next_file_number := mf_next_file_number (db_manifest db) + 1\<rparr>,
         db_disk := (db_disk db)\<lparr>dk_logs := bt_insert (wl_number w) (wl_file w) (dk_logs (db_disk db))\<rparr>\<rparr>)"
proof -
  obtain r w where a: "Wal_flush wal_calm (db_log db) = (r, w)" by fastforce
  note c = flush_calm [OF assms(1) a]
  from c a assms(2) show ?thesis
    by (intro exI [of _ w]) (simp add: force_freeze_def db_calm_def allocate_file_number_def Let_def)
qed

lemma small_batch:
  assumes "length muts < 128" "\<forall>kv\<in>set muts. length (encode_entry (fst kv) (snd kv)) \<le> 1000
    \<and> (case snd kv of Entry_Put r \<Rightarrow> is_i64 (ExpireAt r) | Entry_Delete \<Rightarrow> True)"
  shows "batch_ok muts"
proof -
  have "length (enc_entries xs) \<le> 1000 * length xs" if "\<forall>kv\<in>set xs. length (encode_entry (fst kv) (snd kv)) \<le> 1000" for xs
    using that by (induction xs) (auto split: prod.splits)
  then have "length (enc_entries muts) \<le> 1000 * length muts" using assms(2) by blast
  then show ?thesis using assms by (simp add: batch_ok_def encode_batch_rs_def length_small_uvarint MAX_RECORD_def)
qed

lemma wal_holds_first [simp]: "wal_holds crc (db_log (first_db crc opts)) []"
  by (simp add: first_db_def Let_def wal_holds_create [simplified])

theorem engine_last_write_wins_witness:
  "\<exists>db. engine_run crc0 Options_default 5 (first_db crc0 Options_default) [(''k'', Entry_Put \<lparr>Value = ''v'', ExpireAt = 9\<rparr>)] db
     \<and> Db_get crc0 ''k'' 7 db = Inr (Some \<lparr>Value = ''v'', ExpireAt = 9\<rparr>) \<and> Db_get crc0 ''k'' 9 db = Inr None \<and> Db_get crc0 ''x'' 7 db = Inr None"
proof -
  let ?m = "[(''k'', Entry_Put \<lparr>Value = ''v'', ExpireAt = 9\<rparr>)]" and ?o = Options_default and ?d = "first_db crc0 Options_default"
  have b: "batch_ok ?m" by (rule small_batch) (simp_all add: encode_entry_def length_small_bytes is_i64_def put_varint_def length_small_uvarint zigzag_def)
  obtain db1 where w: "write_apply crc0 (db_calm 5) ?m ?d = (Inr (wl_next_seq (db_log ?d)), db1)"
    using write_apply_calm [OF wal_holds_first b] by blast
  define db2 where "db2 = snd (force_freeze crc0 ?o (db_calm 5) db1)"
  define db3 where "db3 = snd (flush_one crc0 ?o (db_calm 5) db2)"
  define db where "db = snd (compact_once crc0 ?o (db_calm 5) db3)"
  have ty: "typed ?m" by (simp add: typed_def is_i64_def)
  have "engine_run crc0 ?o 5 ?d ?m db1" by (rule run_one) (rule applied [OF w ty])
  from run_step [OF this freeze [OF prod.collapse [symmetric]]] have "engine_run crc0 ?o 5 ?d ?m db2" unfolding db2_def by simp
  from run_step [OF this flush [OF prod.collapse [symmetric]]] have "engine_run crc0 ?o 5 ?d ?m db3" unfolding db3_def by simp
  from run_step [OF this compact [OF prod.collapse [symmetric]]] have run: "engine_run crc0 ?o 5 ?d ?m db" unfolding db_def by (simp add: db_calm_def)
  have bs: "op_block_size ?o \<le> 2 ^ 30" by (simp add: Options_default_def)
  note g = engine_last_write_wins [OF open_calm bs run]
  show ?thesis using run g [of 7 "''k''"] g [of 9 "''k''"] g [of 7 "''x''"] by (auto simp: last_write_def Expired_def)
qed

end
