(* ===== verification/Lsm_Restart.thy ===== *)
theory Lsm_Restart
  imports Lsm_History
begin

text \<open>
  Restarts of the storage engine whose data are still in the log: a clean close by \<open>Db::close\<close> and
  \<open>Db::open\<close> on the directory it leaves (\<open>src/engine/src/db.rs\<close>), when no system call fails.
\<close>

section \<open>A life of the engine\<close>

definition restart_engine :: "checksum \<Rightarrow> Options \<Rightarrow> int \<Rightarrow> Db \<Rightarrow> Db rust" where
  "restart_engine crc opts now db =
     (case Db_close crc opts (db_calm now) (\<lambda>_. db_calm now) db of
        (Inl e, _) \<Rightarrow> Inl e
      | (Inr _, db) \<Rightarrow> Db_open crc opts (db_calm now) (disk_of db))"

fun write_batches :: "checksum \<Rightarrow> Options \<Rightarrow> int \<Rightarrow> mutation list list \<Rightarrow> Db \<Rightarrow> Db rust" where
  "write_batches crc opts now [] db = Inr db"
| "write_batches crc opts now (b # bs) db =
     (case Db_write crc opts (db_calm now) b db of
        (Inl e, _) \<Rightarrow> Inl e
      | (Inr _, db) \<Rightarrow> write_batches crc opts now bs db)"

text \<open>
  A database without tables whose current log, the only one, started at sequence \<open>q\<close> and holds \<open>bs\<close>;
  the memtable \<open>mem\<close> need not be what \<open>bs\<close> amounts to.
\<close>

definition life_manifest :: "nat \<Rightarrow> nat \<Rightarrow> Manifest" where
  "life_manifest n q = \<lparr>mf_next_file_number = n + 1, mf_log_number = n, mf_last_sequence = q, mf_version = Version_new\<rparr>"

definition log_life :: "checksum \<Rightarrow> nat \<Rightarrow> nat \<Rightarrow> MemTable \<Rightarrow> mutation list list \<Rightarrow> Db \<Rightarrow> bool" where
  "log_life crc n q mem bs db \<longleftrightarrow>
     db_active db = mem \<and> db_immutable db = [] \<and> db_version db = Version_new \<and> db_manifest db = life_manifest n q
     \<and> db_disk db = \<lparr>dk_manifest = Some (Manifest_bytes crc (life_manifest n q)), dk_ssts = [], dk_logs = []\<rparr>
     \<and> db_pending db = [] \<and> db_stopping db = False \<and> db_fatal db = None
     \<and> wal_holds crc (db_log db) bs \<and> wl_number (db_log db) = n \<and> wl_next_seq (db_log db) = q + length bs + 1"

lemma created_log: "wl_number (Wal_create crc n q policy) = n" "wl_next_seq (Wal_create crc n q policy) = q + 1"
  by (simp_all add: Wal_create_def Let_def)

lemma first_life: "log_life crc 1 0 MemTable_new [] (first_db crc opts)"
  unfolding log_life_def
  by (simp add: first_db_def life_manifest_def Let_def created_log wal_holds_create [simplified] numeral_2_eq_2)

lemma life_view: "log_life crc n q mem bs db \<Longrightarrow> tree_view crc db = map_of (mt_map mem)"
  by (simp add: log_life_def tree_view_def db_tables_def Version_new_def tables_view_def files_view_def fun_eq_iff concat_eq_Nil_conv)

lemma calm_io: "io_log (db_calm now) = wal_calm" "io_stopped (db_calm now) = False"
  by (simp_all add: db_calm_def)

lemma commit_calm:
  assumes "wal_holds crc w bs" "Wal_commit wal_calm seq w = (r, w')"
  shows "r = Inr ()" "wal_holds crc w' bs" "wl_number w' = wl_number w" "wl_next_seq w' = wl_next_seq w"
proof -
  have "Wal_commit wal_calm seq w \<in> {Wal_flush wal_calm w, Wal_sync_locked wal_calm w, (Inr (), w)}"
    by (cases "wl_policy w") (simp_all add: Wal_commit_def Wal_sync_to_def)
  then consider "Wal_flush wal_calm w = (r, w')" | "Wal_sync_locked wal_calm w = (r, w')" | "r = Inr ()" "w' = w"
    unfolding assms(2) by (elim insertE emptyE) auto
  then have "r = Inr () \<and> wal_holds crc w' bs \<and> wl_number w' = wl_number w \<and> wl_next_seq w' = wl_next_seq w"
  proof cases
    case 1
    from flush_calm [OF assms(1) 1] show ?thesis by blast
  next
    case 2
    from sync_calm [OF assms(1) 2] show ?thesis by blast
  next
    case 3
    with assms(1) show ?thesis by blast
  qed
  then show "r = Inr ()" "wal_holds crc w' bs" "wl_number w' = wl_number w" "wl_next_seq w' = wl_next_seq w" by blast+
qed

lemma life_write:
  assumes "log_life crc n q mem bs db" "batch_ok b" "b \<noteq> []" "mt_bytes (insert_all b mem) < op_memtable_bytes opts"
  shows "\<exists>seq db'. Db_write crc opts (db_calm now) b db = (Inr seq, db') \<and> log_life crc n q (insert_all b mem) (bs @ [b]) db'"
proof -
  have w: "wal_holds crc (db_log db) bs" using assms(1) by (simp add: log_life_def)
  obtain w1 where a: "write_apply crc (db_calm now) b db = (Inr (wl_next_seq (db_log db)), db\<lparr>db_log := w1, db_active := insert_all b (db_active db)\<rparr>)"
    "wal_holds crc w1 (bs @ [b])" "wl_next_seq w1 = wl_next_seq (db_log db) + 1" "wl_number w1 = wl_number (db_log db)"
    using write_apply_calm [OF w assms(2)] by blast
  obtain r w2 where c: "Wal_commit wal_calm (wl_next_seq (db_log db)) w1 = (r, w2)" by fastforce
  note cc = commit_calm [OF a(2) c]
  have db: "db_stopping db = False" "db_fatal db = None" "db_active db = mem" using assms(1) by (simp_all add: log_life_def)
  have "Db_write crc opts (db_calm now) b db = (Inr (wl_next_seq (db_log db)), db\<lparr>db_log := w2, db_active := insert_all b mem\<rparr>)"
    using assms(3,4) c cc(1) db by (simp add: Db_write_def check_healthy_def a(1) write_commit_def maybe_freeze_def calm_io)
  moreover have "log_life crc n q (insert_all b mem) (bs @ [b]) (db\<lparr>db_log := w2, db_active := insert_all b mem\<rparr>)"
    using assms(1) cc a(3,4) by (simp add: log_life_def)
  ultimately show ?thesis by blast
qed

lemma life_writes:
  assumes "log_life crc n q mem bs0 db" "\<forall>b\<in>set bs. batch_ok b \<and> b \<noteq> []"
    "\<forall>i \<le> length bs. mt_bytes (fold insert_all (take i bs) mem) < op_memtable_bytes opts"
  shows "\<exists>db'. write_batches crc opts now bs db = Inr db' \<and> log_life crc n q (fold insert_all bs mem) (bs0 @ bs) db'"
  using assms
proof (induction bs arbitrary: mem bs0 db)
  case (Cons b bs)
  have "mt_bytes (insert_all b mem) < op_memtable_bytes opts" using Cons.prems(3) [rule_format, of 1] by simp
  then obtain seq db1 where
    w: "Db_write crc opts (db_calm now) b db = (Inr seq, db1)" "log_life crc n q (insert_all b mem) (bs0 @ [b]) db1"
    using life_write [OF Cons.prems(1), of b opts now] Cons.prems(2) by auto
  have "\<forall>i \<le> length bs. mt_bytes (fold insert_all (take i bs) (insert_all b mem)) < op_memtable_bytes opts"
  proof (intro allI impI)
    fix i assume "i \<le> length bs"
    then show "mt_bytes (fold insert_all (take i bs) (insert_all b mem)) < op_memtable_bytes opts"
      using Cons.prems(3) [rule_format, of "Suc i"] by simp
  qed
  then have "\<exists>db'. write_batches crc opts now bs db1 = Inr db' \<and> log_life crc n q (fold insert_all bs (insert_all b mem)) ((bs0 @ [b]) @ bs) db'"
    using Cons.IH [OF w(2)] Cons.prems(2) by simp
  then show ?case by (simp add: w(1))
qed simp

section \<open>A restart\<close>

lemma numbered_batches: "fold (\<lambda>(_, muts). insert_all muts) (numbered n bs) mem = fold insert_all bs mem"
  by (induction bs arbitrary: n mem) simp_all

lemma numbered_max: "fold (\<lambda>(seq, _). max seq) (numbered (q + 1) bs) q = q + length bs"
proof (induction bs arbitrary: q)
  case (Cons b bs)
  show ?case using Cons [of "q + 1"] by simp
qed simp

lemma life_close:
  assumes "log_life crc n q mem bs db"
  shows "\<exists>db'. Db_close crc opts (db_calm now) ios db = (Inr (), db')
    \<and> disk_of db' = \<lparr>dk_manifest = Some (Manifest_bytes crc (life_manifest n q)),
         dk_ssts = [], dk_logs = [(n, log_image crc n q bs)]\<rparr>"
proof -
  obtain r w where s: "Wal_sync_locked wal_calm (db_log db) = (r, w)" by fastforce
  have h: "wal_holds crc (db_log db) bs" "wl_number (db_log db) = n" "wl_next_seq (db_log db) = q + length bs + 1"
    using assms by (simp_all add: log_life_def)
  note c = sync_calm [OF h(1) s]
  from c(2-4,6) h(2,3) have img: "wl_file w = log_image crc n q bs" by (auto simp: wal_holds_def)
  show ?thesis
    using assms s c h(2) img
    by (simp add: log_life_def Db_close_def Db_sync_def Wal_sync_all_def db_calm_def disk_of_def)
qed

lemma life_restart:
  assumes "log_life crc n q mem bs db" "is_u64 (n + 2)" "is_u64 (q + length bs + 1)"
    "mt_bytes (fold insert_all bs MemTable_new) < op_memtable_bytes opts"
  shows "\<exists>db'. restart_engine crc opts now db = Inr db' \<and> log_life crc (n + 1) (q + length bs) (fold insert_all bs MemTable_new) [] db'"
proof -
  let ?man = "life_manifest n q"
  obtain db1 where cl: "Db_close crc opts (db_calm now) (\<lambda>_. db_calm now) db = (Inr (), db1)"
    "disk_of db1 = \<lparr>dk_manifest = Some (Manifest_bytes crc ?man), dk_ssts = [], dk_logs = [(n, log_image crc n q bs)]\<rparr>"
    using life_close [OF assms(1)] by blast
  have "manifest_ok ?man"
    using assms(2,3) by (auto simp: manifest_ok_def life_manifest_def is_u64_def version_ok_def Version_new_def files_ok_def MAX_LEVELS_def)
  note man = manifest_round_trip [OF this, of crc]
  have ok: "\<forall>b\<in>set bs. batch_ok b" using assms(1) by (simp add: log_life_def wal_holds_def)
  have u: "is_u64 n" using assms(2) by (simp add: is_u64_def)
  have "wal_replay_loop crc (q + 1 + length bs) [] = Inr ([], length [])" by (subst wal_replay_loop.simps) simp
  from replay_log_image [OF ok assms(3) u this]
  have rp: "replay crc (Some (log_image crc n q bs)) = Inr \<lparr>rp_batches = numbered (q + 1) bs, rp_last_sequence = q + length bs,
         rp_truncated = False, rp_file = Some (log_image crc n q bs)\<rparr>" by simp
  show ?thesis
    unfolding restart_engine_def cl prod.case sum.case Db_open_def Disk.select_convs man
    using assms(4) numbered_batches [of "q + 1" bs MemTable_new] numbered_max [of q bs]
    by (simp add: rp Let_def allocate_file_number_def db_calm_def Manifest_store_def maybe_freeze_def log_life_def
        life_manifest_def created_log wal_holds_create [simplified])
qed

section \<open>What is left after two restarts\<close>

lemma fold_insert_all: "fold insert_all bs mem = insert_all (concat bs) mem"
  by (induction bs arbitrary: mem) (simp_all add: insert_all_def)

lemma life_reads:
  assumes "log_life crc n q (fold insert_all bs MemTable_new) bs' db" "\<forall>b\<in>set bs. batch_ok b"
  shows "Db_get crc key now db = Inr (read_entry now (last_write (concat bs) key))"
proof -
  have new: "table_ok MemTable_new" by (simp add: table_ok_def MemTable_ok_def table_cost_def MemTable_new_def)
  have "table_ok (insert_all (concat bs) MemTable_new)"
    by (rule insert_all_ok [OF new]) (use assms(2) batch_ok_entries in auto)
  moreover have "version_ok Version_new" by (auto simp: version_ok_def Version_new_def files_ok_def)
  ultimately have "db_ok crc db"
    using assms(1) by (auto simp: db_ok_def parts_ok_def log_life_def db_tables_def Version_new_def fold_insert_all)
  from get_view [OF this, of key now] show ?thesis
    using insert_all_map [of MemTable_new "concat bs" key]
    by (simp add: life_view [OF assms(1)] fold_insert_all last_write_def MemTable_new_def)
qed

text \<open>
  C17: acknowledged writes survive the first restart and not the second. When no system call fails and
  the memtable never fills, a clean close and an open bring back every batch from the log; but the
  open removes that log while its batches are only in the memtable, so after one more clean close and
  open, with no write in between, the database is empty.
\<close>

theorem second_restart_loses_every_write:
  assumes "\<forall>b\<in>set bs. batch_ok b \<and> b \<noteq> []" "length bs < 2 ^ 63"
    "\<forall>i \<le> length bs. mt_bytes (fold insert_all (take i bs) MemTable_new) < op_memtable_bytes opts"
  shows "\<exists>db1 db2 db3. write_batches crc opts now bs (first_db crc opts) = Inr db1
     \<and> restart_engine crc opts now db1 = Inr db2 \<and> restart_engine crc opts now db2 = Inr db3
     \<and> (\<forall>key t. Db_get crc key t db2 = Inr (read_entry t (last_write (concat bs) key)))
     \<and> (\<forall>key t. Db_get crc key t db3 = Inr None)"
proof -
  have room: "mt_bytes MemTable_new < op_memtable_bytes opts" "mt_bytes (fold insert_all bs MemTable_new) < op_memtable_bytes opts"
    using assms(3) [rule_format, of 0] assms(3) [rule_format, of "length bs"] by simp_all
  have u: "is_u64 (1 + 2)" "is_u64 (1 + 1 + 2)" "is_u64 (0 + length bs + 1)" "is_u64 (0 + length bs + length ([] :: mutation list list) + 1)"
    using assms(2) by (simp_all add: is_u64_def)
  obtain db1 where db1: "write_batches crc opts now bs (first_db crc opts) = Inr db1" "log_life crc 1 0 (fold insert_all bs MemTable_new) bs db1"
    using life_writes [OF first_life assms(1,3)] by (metis append_Nil)
  obtain db2 where db2: "restart_engine crc opts now db1 = Inr db2" "log_life crc (1 + 1) (0 + length bs) (fold insert_all bs MemTable_new) [] db2"
    using life_restart [OF db1(2) u(1,3) room(2)] by auto
  obtain db3 where db3: "restart_engine crc opts now db2 = Inr db3" "log_life crc (1 + 1 + 1) (0 + length bs + length ([] :: mutation list list)) (fold insert_all [] MemTable_new) [] db3"
    using life_restart [OF db2(2) u(2,4), of opts now] room(1) by auto
  have ok: "\<forall>b\<in>set bs. batch_ok b" using assms(1) by blast
  have "Db_get crc key t db3 = Inr None" for key t
    using life_reads [OF db3(2)] by (simp add: last_write_def read_entry_def)
  with db1(1) db2(1) db3(1) life_reads [OF db2(2) ok] show ?thesis by blast
qed

theorem second_restart_loses_every_write_witness:
  "\<exists>db1 db2 db3. write_batches crc0 Options_default 5 [[(''k'', Entry_Put \<lparr>Value = ''v'', ExpireAt = 0\<rparr>)]] (first_db crc0 Options_default) = Inr db1
     \<and> restart_engine crc0 Options_default 5 db1 = Inr db2 \<and> restart_engine crc0 Options_default 5 db2 = Inr db3
     \<and> Db_get crc0 ''k'' 7 db2 = Inr (Some \<lparr>Value = ''v'', ExpireAt = 0\<rparr>) \<and> Db_get crc0 ''k'' 7 db3 = Inr None"
proof -
  let ?m = "[(''k'', Entry_Put \<lparr>Value = ''v'', ExpireAt = 0\<rparr>)]"
  have b: "batch_ok ?m" by (rule small_batch) (simp_all add: encode_entry_def length_small_bytes is_i64_def put_varint_def length_small_uvarint zigzag_def)
  have room: "mt_bytes (fold insert_all (take i [?m]) MemTable_new) < op_memtable_bytes Options_default" if "i \<le> length [?m]" for i
    using that by (cases i) (auto simp: insert_all_def MemTable_insert_def MemTable_new_def Options_default_def Record_heap_size_def)
  from second_restart_loses_every_write [of "[?m]" Options_default crc0 5] b room
  obtain db1 db2 db3 where r: "write_batches crc0 Options_default 5 [?m] (first_db crc0 Options_default) = Inr db1"
    "restart_engine crc0 Options_default 5 db1 = Inr db2" "restart_engine crc0 Options_default 5 db2 = Inr db3"
    "\<forall>key t. Db_get crc0 key t db2 = Inr (read_entry t (last_write (concat [?m]) key))" "\<forall>key t. Db_get crc0 key t db3 = Inr None"
    by auto
  then show ?thesis using r by (intro exI [of _ db1] exI [of _ db2] exI [of _ db3]) (simp add: last_write_def read_entry_def Expired_def)
qed

end
