(* ===== verification/Lsm_Scan.thy ===== *)
theory Lsm_Scan
  imports Lsm_History
begin

text \<open>
  The paged scan of \<open>db.rs\<close>. Every source is read for one entry more than the page holds, and the merge
  is trusted up to the smallest key at which a source was cut. The lemmas say what the merge holds up to
  that key and what a page returns of it.
\<close>

section \<open>Collecting\<close>

definition collect_source :: "(Entry \<Rightarrow> Record option) \<Rightarrow> nat \<Rightarrow> (bytes \<times> Entry) list \<Rightarrow> scan_map \<Rightarrow> scan_map" where
  "collect_source g n es acc = (fold (\<lambda>(k, e). bt_insert k (g e)) (take n es) (fst acc), note_cut (cut_at n es) (snd acc))"

lemma collect_from_memtable_eq:
  "collect_from_memtable start n now t acc = collect_source (\<lambda>e. entry_to_live e now) n (MemTable_range_from start t) acc"
  by (simp add: collect_from_memtable_def collect_source_def Let_def)

lemma fold_bt_insert:
  assumes "ascending m" "distinct (map fst es)"
  shows "ascending (fold (\<lambda>(k, e). bt_insert k (g e)) es m)
    \<and> map_of (fold (\<lambda>(k, e). bt_insert k (g e)) es m) k = orelse (map_option g (map_of es k)) (map_of m k)"
  using assms
proof (induction es arbitrary: m)
  case (Cons x es)
  obtain k' e where x: "x = (k', e)" by (cases x)
  have d: "map_of es k' = None" using Cons.prems(2) by (auto simp: x map_of_eq_None_iff)
  show ?case using Cons.IH [of "bt_insert k' (g e) m"] Cons.prems d by (auto simp: x)
qed simp

text \<open>What the collected map holds of a key, and how far it can be trusted.\<close>

definition trusted :: "bytes option \<Rightarrow> bytes \<Rightarrow> bool" where
  "trusted b k = (case b of None \<Rightarrow> True | Some b \<Rightarrow> k \<le> b)"

lemma trusted_note: "trusted (note_cut a b) k \<longleftrightarrow> trusted a k \<and> trusted b k"
  by (auto simp: trusted_def note_cut_def split: option.splits)

lemma trusted_source:
  assumes "ascending es" "trusted (cut_at n es) k" "0 < n"
  shows "map_of (take n es) k = map_of es k"
proof (cases "length es > n")
  case True
  let ?l = "last (take n es)"
  have ne: "take n es \<noteq> []" using True assms(3) by auto
  have asc: "ascending (take n es @ drop n es)" using assms(1) by simp
  have "k \<le> fst ?l" using assms(2) True by (simp add: trusted_def cut_at_def)
  moreover have "\<forall>kv\<in>set (drop n es). fst ?l < fst kv" using asc last_in_set [OF ne] unfolding ascending_simps by blast
  ultimately have "k \<notin> fst ` set (drop n es)" by (auto dest: leD)
  then have "map_of (drop n es) k = None" by (simp add: map_of_eq_None_iff)
  then have "map_of (take n es @ drop n es) k = map_of (take n es) k" unfolding map_of_append by (simp add: map_add_def split: option.splits)
  then show ?thesis by simp
qed simp

lemma collect_holds:
  assumes "ascending es" "0 < n" "ascending (fst acc)"
  shows "ascending (fst (collect_source g n es acc))"
    and "trusted (snd (collect_source g n es acc)) k \<longleftrightarrow> trusted (cut_at n es) k \<and> trusted (snd acc) k"
    and "trusted (cut_at n es) k \<Longrightarrow> map_of (fst (collect_source g n es acc)) k = orelse (map_option g (map_of es k)) (map_of (fst acc) k)"
    and "fst ` set (fst (collect_source g n es acc)) = fst ` set (take n es) \<union> fst ` set (fst acc)"
proof -
  have d: "distinct (map fst (take n es))" using ascending_distinct [OF ascending_take [OF assms(1)]] .
  note f = fold_bt_insert [OF assms(3) d, of g]
  show "ascending (fst (collect_source g n es acc))" using f by (simp add: collect_source_def)
  show "trusted (snd (collect_source g n es acc)) k \<longleftrightarrow> trusted (cut_at n es) k \<and> trusted (snd acc) k"
    by (simp add: collect_source_def trusted_note)
  show "trusted (cut_at n es) k \<Longrightarrow> map_of (fst (collect_source g n es acc)) k = orelse (map_option g (map_of es k)) (map_of (fst acc) k)"
    using f [of k] trusted_source [OF assms(1) _ assms(2)] by (simp add: collect_source_def)
  have "fst ` set (fold (\<lambda>(k, e). bt_insert k (g e)) xs m) = fst ` set xs \<union> fst ` set m" for xs and m :: "(bytes, Record option) btree"
    by (induction xs arbitrary: m) (auto simp: fst_set_bt_insert split: prod.splits)
  then show "fst ` set (fst (collect_source g n es acc)) = fst ` set (take n es) \<union> fst ` set (fst acc)" by (simp add: collect_source_def)
qed

text \<open>Several sources, oldest first.\<close>

definition collect_all :: "(Entry \<Rightarrow> Record option) \<Rightarrow> nat \<Rightarrow> (bytes \<times> Entry) list list \<Rightarrow> scan_map \<Rightarrow> scan_map" where
  "collect_all g n srcs acc = fold (collect_source g n) srcs acc"

lemma collect_all_holds:
  assumes "\<forall>es\<in>set srcs. ascending es" "0 < n" "ascending (fst acc)"
  shows "ascending (fst (collect_all g n srcs acc))
    \<and> (trusted (snd (collect_all g n srcs acc)) k \<longleftrightarrow> (\<forall>es\<in>set srcs. trusted (cut_at n es) k) \<and> trusted (snd acc) k)
    \<and> ((\<forall>es\<in>set srcs. trusted (cut_at n es) k) \<longrightarrow> map_of (fst (collect_all g n srcs acc)) k =
        orelse (map_option g (first_some (map (\<lambda>es. map_of es k) (rev srcs)))) (map_of (fst acc) k))
    \<and> fst ` set (fst (collect_all g n srcs acc)) = (\<Union>es\<in>set srcs. fst ` set (take n es)) \<union> fst ` set (fst acc)"
  using assms
proof (induction srcs arbitrary: acc)
  case (Cons es srcs)
  have es: "ascending es" using Cons.prems by simp
  note c = collect_holds [OF es Cons.prems(2,3), where g = g]
  have mo: "map_option g (orelse a b) = orelse (map_option g a) (map_option g b)" for a b by (cases a) auto
  note IH = Cons.IH [of "collect_source g n es acc", OF _ Cons.prems(2) c(1)]
  have step: "collect_all g n (es # srcs) acc = collect_all g n srcs (collect_source g n es acc)" by (simp add: collect_all_def)
  show ?case unfolding step using IH c(2,3,4) Cons.prems(1) by (auto simp: first_some_append mo)
qed (simp add: collect_all_def)

lemma note_cut_cases: "note_cut a b = Some x \<Longrightarrow> a = Some x \<or> b = Some x"
  by (auto simp: note_cut_def split: option.splits if_splits)

lemma collect_all_boundary:
  assumes "snd (collect_all g n srcs acc) = Some b"
  shows "snd acc = Some b \<or> (\<exists>es\<in>set srcs. cut_at n es = Some b)"
  using assms
proof (induction srcs arbitrary: acc)
  case (Cons es srcs)
  then show ?case using note_cut_cases by (fastforce simp: collect_all_def collect_source_def)
qed (simp add: collect_all_def)

section \<open>A page\<close>

fun live_entries :: "(bytes \<times> Record option) list \<Rightarrow> (bytes \<times> Record) list" where
  "live_entries [] = []"
| "live_entries ((k, v) # m) = (case v of None \<Rightarrow> live_entries m | Some r \<Rightarrow> (k, r) # live_entries m)"

lemma set_live_entries: "(k, r) \<in> set (live_entries m) \<longleftrightarrow> (k, Some r) \<in> set m"
  by (induction m rule: live_entries.induct) (auto split: option.splits)

lemma ascending_live_entries: "ascending m \<Longrightarrow> ascending (live_entries m)"
proof (induction m rule: live_entries.induct)
  case (2 k v m)
  have "k < fst kv" if "kv \<in> set (live_entries m)" for kv
    using that 2(3) set_live_entries [of "fst kv" "snd kv" m] by fastforce
  with 2 show ?case by (auto split: option.splits)
qed simp

lemma length_live_entries: "\<forall>kv\<in>set m. snd kv \<noteq> None \<Longrightarrow> length (live_entries m) = length m"
  by (induction m rule: live_entries.induct) (auto split: option.splits)

lemma emit_split:
  "emit_page limit b out m = (out', nxt) \<Longrightarrow> length out \<le> limit \<Longrightarrow>
   \<exists>pre post. m = pre @ post \<and> out' = out @ live_entries pre \<and> length out' \<le> limit \<and> (\<forall>kv\<in>set pre. trusted b (fst kv))
     \<and> (post = [] \<and> nxt = None
        \<or> (\<exists>k v p. post = (k, v) # p \<and> (nxt = Some k \<and> length out' = limit \<or> nxt = None \<and> \<not> trusted b k)))"
proof (induction limit b out m rule: emit_page.induct)
  case (2 limit b out k v m)
  have t: "(case b of Some b \<Rightarrow> k > b | None \<Rightarrow> False) \<longleftrightarrow> \<not> trusted b k"
    by (auto simp: trusted_def not_le split: option.splits)
  consider (full) "length out = limit" | (stop) "length out \<noteq> limit" "\<not> trusted b k" | (more) "length out \<noteq> limit" "trusted b k" by blast
  then show ?case
  proof cases
    case full
    with 2(2,3) show ?thesis by (intro exI [of _ "[]"] exI [of _ "(k, v) # m"]) auto
  next
    case stop
    with 2(2,3) t show ?thesis by (intro exI [of _ "[]"] exI [of _ "(k, v) # m"]) (auto simp: t)
  next
    case more
    let ?out = "case v of Some r \<Rightarrow> out @ [(k, r)] | None \<Rightarrow> out"
    have nt: "\<not> (case b of Some b \<Rightarrow> k > b | None \<Rightarrow> False)" using more t by simp
    have "emit_page limit b ?out m = (out', nxt)" "length ?out \<le> limit" using 2(2,3) more t by (auto split: option.splits)
    from 2(1) [OF more(1) nt this] obtain pre post where pp: "m = pre @ post" "out' = ?out @ live_entries pre" "length out' \<le> limit"
      "\<forall>kv\<in>set pre. trusted b (fst kv)" "post = [] \<and> nxt = None
        \<or> (\<exists>k v p. post = (k, v) # p \<and> (nxt = Some k \<and> length out' = limit \<or> nxt = None \<and> \<not> trusted b k))" by blast
    show ?thesis by (rule exI [of _ "(k, v) # pre"], rule exI [of _ post]) (use pp more in \<open>auto split: option.splits\<close>)
  qed
qed auto

section \<open>The sources of a scan\<close>

definition from_start :: "bytes \<Rightarrow> (bytes \<times> Entry) list \<Rightarrow> (bytes \<times> Entry) list" where
  "from_start start es = filter (\<lambda>(k, _). \<not> k < start) es"

lemma from_start_facts:
  shows "ascending es \<Longrightarrow> ascending (from_start start es)"
    and "map_of (from_start start es) k = (if start \<le> k then map_of es k else None)"
    and "kv \<in> set (from_start start es) \<Longrightarrow> start \<le> fst kv"
proof -
  show "ascending es \<Longrightarrow> ascending (from_start start es)" unfolding from_start_def by (rule ascending_filter)
  show "map_of (from_start start es) k = (if start \<le> k then map_of es k else None)"
    unfolding from_start_def by (induction es) (auto simp: not_less)
  show "kv \<in> set (from_start start es) \<Longrightarrow> start \<le> fst kv" by (auto simp: from_start_def not_less)
qed

lemma range_from_eq: "ascending (mt_map t) \<Longrightarrow> MemTable_range_from start t = from_start start (mt_map t)"
  unfolding MemTable_range_from_def bt_from_eq_filter from_start_def by (auto simp: not_less intro: filter_cong)

lemma collect_Nil: "collect_source g n [] acc = acc"
  by (simp add: collect_source_def cut_at_def note_cut_def)

lemma collect_from_file_eq:
  assumes "file_ok crc (dk_ssts (db_disk db)) f"
  shows "collect_from_file crc db start n f acc = Inr (collect_source raw_record n (from_start start (ents crc (dk_ssts (db_disk db)) f)) acc)"
proof -
  let ?es = "ents crc (dk_ssts (db_disk db)) f"
  obtain "file" t where t: "map_of (dk_ssts (db_disk db)) (fm_number f) = Some file" "SsTable_open crc file = Inr t" "SsTable_iter crc t = (?es, None)"
    using file_ok_facts(1) [OF assms] by blast
  show ?thesis
  proof (cases "fm_max_key f < start")
    case True
    have "k < start" if "(k, e) \<in> set ?es" for k e
      using file_range [OF assms that] True by (auto simp: FileMeta_may_contain_def)
    then have "from_start start ?es = []" by (auto simp: from_start_def filter_empty_conv)
    with True show ?thesis by (simp add: collect_from_file_def collect_Nil)
  next
    case False
    with t show ?thesis by (simp add: collect_from_file_def open_table_def collect_source_def from_start_def Let_def)
  qed
qed

lemma collect_files_eq:
  assumes "\<forall>f\<in>set fs. file_ok crc (dk_ssts (db_disk db)) f"
  shows "collect_files crc db start n fs acc =
    Inr (collect_all raw_record n (map (\<lambda>f. from_start start (ents crc (dk_ssts (db_disk db)) f)) fs) acc)"
  using assms by (induction fs arbitrary: acc) (auto simp: collect_from_file_eq collect_all_def)

lemma first_some_from_start:
  "first_some (map (\<lambda>es. map_of es k) (map (\<lambda>x. from_start start (h x)) xs)) =
    (if start \<le> k then first_some (map (\<lambda>x. map_of (h x) k) xs) else None)"
  by (induction xs) (auto simp: from_start_facts(2))

definition scan_files :: "Version \<Rightarrow> FileMeta list" where
  "scan_files v = concat (map (Version_level v) (rev [1 ..< length v])) @ rev (Version_level v 0)"

lemma scan_files_view:
  assumes "version_ok v" "\<forall>f\<in>set (concat v). file_ok crc ssts f"
  shows "files_view crc ssts (rev (scan_files v)) k = files_view crc ssts (concat v) k"
    and "set (scan_files v) = set (concat v)"
proof -
  have pos: "0 < length v" using assms(1) by (auto simp: version_ok_def MAX_LEVELS_def)
  then have c: "concat v = Version_level v 0 @ concat (map (Version_level v) [1 ..< length v])"
    by (subst concat_levels) (simp add: upt_conv_Cons)
  have r: "rev (scan_files v) = Version_level v 0 @ concat (map (\<lambda>l. rev (Version_level v l)) [1 ..< length v])"
    by (simp add: scan_files_def rev_concat rev_map comp_def)
  have "files_view crc ssts (concat (map (\<lambda>l. rev (Version_level v l)) ls)) k = files_view crc ssts (concat (map (Version_level v) ls)) k"
    if "\<forall>l\<in>set ls. l \<noteq> 0 \<and> l < length v" for ls
    using that
  proof (induction ls)
    case (Cons l ls)
    have "files_view crc ssts (rev (Version_level v l)) k = files_view crc ssts (Version_level v l) k"
      by (rule set_view [OF files_ok_level [OF assms(1)]]) (use Cons.prems assms(2) nth_mem in \<open>auto simp: Version_level_def\<close>)
    with Cons show ?case by (simp add: files_view_append)
  qed simp
  then show "files_view crc ssts (rev (scan_files v)) k = files_view crc ssts (concat v) k"
    unfolding r c by (simp add: files_view_append)
  show "set (scan_files v) = set (concat v)" unfolding c by (auto simp: scan_files_def)
qed

text \<open>What a scan reports of a key: expiry is judged in the memtables only.\<close>

definition scan_value :: "checksum \<Rightarrow> int \<Rightarrow> Db \<Rightarrow> bytes \<Rightarrow> Record option option" where
  "scan_value crc now db k =
     orelse (map_option (\<lambda>e. entry_to_live e now) (tables_view (db_tables db) k))
       (map_option raw_record (files_view crc (dk_ssts (db_disk db)) (concat (db_version db)) k))"

definition scan_tables :: "bytes \<Rightarrow> Db \<Rightarrow> (bytes \<times> Entry) list list" where
  "scan_tables start db = map (\<lambda>t. from_start start (mt_map t)) (rev (db_tables db))"

definition scan_tree :: "checksum \<Rightarrow> bytes \<Rightarrow> Db \<Rightarrow> (bytes \<times> Entry) list list" where
  "scan_tree crc start db = map (\<lambda>f. from_start start (ents crc (dk_ssts (db_disk db)) f)) (scan_files (db_version db))"

definition scan_newest :: "bytes \<Rightarrow> nat \<Rightarrow> int \<Rightarrow> Db \<Rightarrow> scan_map" where
  "scan_newest start n now db = collect_all (\<lambda>e. entry_to_live e now) n (scan_tables start db) ([], None)"

definition scan_merged :: "checksum \<Rightarrow> bytes \<Rightarrow> nat \<Rightarrow> int \<Rightarrow> Db \<Rightarrow> scan_map" where
  "scan_merged crc start n now db =
     (let newest = scan_newest start n now db; (m, b) = collect_all raw_record n (scan_tree crc start db) ([], snd newest) in
      (fold (\<lambda>(k, r). bt_insert k r) (fst newest) m, b))"

lemma scan_eq:
  assumes "db_ok crc db" "scan_merged crc start (max limit 1 + 1) now db = (m, b)" "emit_page (max limit 1) b [] m = (out, nxt)"
  shows "Db_scan crc start limit now db = Inr (out, case nxt of Some k \<Rightarrow> Some k | None \<Rightarrow> map_option successor b)"
proof -
  let ?n = "max limit 1 + 1" and ?files = "scan_files (db_version db)"
  have ok: "version_ok (db_version db)" "\<forall>f\<in>set (concat (db_version db)). file_ok crc (dk_ssts (db_disk db)) f"
    and ts: "\<forall>t\<in>set (db_tables db). ascending (mt_map t)"
    using assms(1) by (auto simp: db_ok_def parts_ok_def table_ok_def MemTable_ok_def)
  have "\<forall>f\<in>set ?files. file_ok crc (dk_ssts (db_disk db)) f" using ok scan_files_view(2) [OF ok] by simp
  note files = collect_files_eq [OF this, folded scan_tree_def]
  have fold_eq: "fold (collect_from_memtable start ?n now) ts acc = collect_all (\<lambda>e. entry_to_live e now) ?n (map (\<lambda>t. from_start start (mt_map t)) ts) acc"
    if "\<forall>t\<in>set ts. ascending (mt_map t)" for ts acc
    using that by (induction ts arbitrary: acc) (auto simp: collect_all_def collect_from_memtable_eq range_from_eq)
  have tabs: "map snd (rev (db_immutable db)) @ [db_active db] = rev (db_tables db)" by (simp add: db_tables_def rev_map)
  have mem: "fold (collect_from_memtable start ?n now) (map snd (rev (db_immutable db)) @ [db_active db]) ([], None) = scan_newest start ?n now db"
    unfolding tabs scan_newest_def scan_tables_def by (rule fold_eq) (use ts in simp)
  show ?thesis
    using assms(2,3) unfolding Db_scan_def Let_def mem scan_files_def [symmetric]
    by (auto simp: files scan_merged_def Let_def split: prod.splits)
qed

lemma scan_sources_ascending:
  assumes "db_ok crc db"
  shows "\<forall>es\<in>set (scan_tables start db @ scan_tree crc start db). ascending es"
proof -
  have ok: "version_ok (db_version db)" "\<forall>f\<in>set (concat (db_version db)). file_ok crc (dk_ssts (db_disk db)) f"
    and ts: "\<forall>t\<in>set (db_tables db). ascending (mt_map t)"
    using assms by (auto simp: db_ok_def parts_ok_def table_ok_def MemTable_ok_def)
  then have "\<forall>f\<in>set (scan_files (db_version db)). ascending (ents crc (dk_ssts (db_disk db)) f)"
    using scan_files_view(2) [OF ok] file_ok_facts(2) by auto
  with ts show ?thesis by (auto simp: scan_tables_def scan_tree_def intro: from_start_facts(1))
qed

lemma scan_merged_facts:
  assumes "db_ok crc db" "0 < n" "scan_merged crc start n now db = (m, b)"
  shows "ascending m"
    and "trusted b k \<Longrightarrow> map_of m k = (if start \<le> k then scan_value crc now db k else None)"
    and "b = Some b' \<Longrightarrow> \<exists>es\<in>set (scan_tables start db @ scan_tree crc start db). cut_at n es = Some b'"
    and "fst ` set m = (\<Union>es\<in>set (scan_tables start db @ scan_tree crc start db). fst ` set (take n es))"
proof -
  let ?T = "scan_tables start db" and ?F = "scan_tree crc start db"
  have ok: "version_ok (db_version db)" "\<forall>f\<in>set (concat (db_version db)). file_ok crc (dk_ssts (db_disk db)) f"
    using assms(1) by (auto simp: db_ok_def parts_ok_def)
  obtain nw b1 where nw: "scan_newest start n now db = (nw, b1)" by fastforce
  obtain fm where fm: "collect_all raw_record n ?F ([], b1) = (fm, b)" and m: "m = fold (\<lambda>(k, r). bt_insert k r) nw fm"
    using assms(3) nw by (auto simp: scan_merged_def Let_def split: prod.splits)
  have asc: "\<forall>es\<in>set ?T. ascending es" "\<forall>es\<in>set ?F. ascending es" using scan_sources_ascending [OF assms(1), of start] by auto
  have T: "ascending nw" "\<And>k. trusted b1 k \<longleftrightarrow> (\<forall>es\<in>set ?T. trusted (cut_at n es) k)"
    "\<And>k. trusted b1 k \<Longrightarrow> map_of nw k = map_option (\<lambda>e. entry_to_live e now) (first_some (map (\<lambda>es. map_of es k) (rev ?T)))"
    "fst ` set nw = (\<Union>es\<in>set ?T. fst ` set (take n es))"
    using collect_all_holds [OF asc(1) assms(2), of "([], None)" "\<lambda>e. entry_to_live e now"] nw
    by (auto simp: scan_newest_def trusted_def [of None])
  have F: "ascending fm" "\<And>k. trusted b k \<longleftrightarrow> (\<forall>es\<in>set ?F. trusted (cut_at n es) k) \<and> trusted b1 k"
    "\<And>k. trusted b k \<Longrightarrow> map_of fm k = map_option raw_record (first_some (map (\<lambda>es. map_of es k) (rev ?F)))"
    "fst ` set fm = (\<Union>es\<in>set ?F. fst ` set (take n es))"
    using collect_all_holds [OF asc(2) assms(2), of "([], b1)" raw_record] fm by auto
  have mm: "ascending m" "map_of m k = orelse (map_of nw k) (map_of fm k)" for k
    using fold_bt_insert [OF F(1) ascending_distinct [OF T(1)], of "\<lambda>r. r" k] by (simp_all add: m option.map_id0 option.map_ident)
  show "ascending m" by (rule mm(1))
  have fv: "first_some (map (\<lambda>f. map_of (ents crc (dk_ssts (db_disk db)) f) k) (rev (scan_files (db_version db)))) =
      files_view crc (dk_ssts (db_disk db)) (concat (db_version db)) k"
    using scan_files_view(1) [OF ok, of k] by (simp add: files_view_def)
  show "trusted b k \<Longrightarrow> map_of m k = (if start \<le> k then scan_value crc now db k else None)"
  proof -
    assume t: "trusted b k"
    then have "trusted b1 k" using F(2) by blast
    show ?thesis unfolding mm(2) T(3) [OF \<open>trusted b1 k\<close>] F(3) [OF t]
      by (simp add: scan_tables_def scan_tree_def rev_map first_some_from_start fv scan_value_def tables_view_def del: map_map)
  qed
  show "b = Some b' \<Longrightarrow> \<exists>es\<in>set (?T @ ?F). cut_at n es = Some b'"
    using collect_all_boundary [of raw_record n ?F "([], b1)" b'] fm
      collect_all_boundary [of "\<lambda>e. entry_to_live e now" n ?T "([], None)" b'] nw by (auto simp: scan_newest_def)
  have "fst ` set (fold (\<lambda>(k, r). bt_insert k r) xs m) = fst ` set xs \<union> fst ` set m" for xs and m :: "(bytes, Record option) btree"
    by (induction xs arbitrary: m) (auto simp: fst_set_bt_insert split: prod.splits)
  then show "fst ` set m = (\<Union>es\<in>set (?T @ ?F). fst ` set (take n es))" by (simp add: m T(4) F(4))
qed

section \<open>What a page returns\<close>

lemma cut_at_Some:
  assumes "cut_at n es = Some b" "ascending es" "0 < n"
  shows "length (take n es) = n" "\<forall>k\<in>fst ` set (take n es). k \<le> b" "b \<in> fst ` set (take n es)"
proof -
  have l: "length es > n" "b = fst (last (take n es))" using assms(1) by (auto simp: cut_at_def split: if_splits)
  then show "length (take n es) = n" by simp
  have ne: "take n es \<noteq> []" using l assms(3) by auto
  then show "b \<in> fst ` set (take n es)" using l(2) last_in_set by blast
  have "ascending (butlast (take n es) @ [last (take n es)])" using ascending_take [OF assms(2)] ne by simp
  then have "\<forall>kv\<in>set (butlast (take n es)). fst kv < b" using l(2) by simp
  moreover have "set (take n es) = insert (last (take n es)) (set (butlast (take n es)))"
    using append_butlast_last_id [OF ne] by (metis list.set(1) list.simps(15) set_append Un_insert_right Un_empty_right)
  ultimately show "\<forall>k\<in>fst ` set (take n es). k \<le> b" using l(2) by auto
qed

lemma scan_crowded:
  assumes "db_ok crc db" "0 < n" "scan_merged crc start n now db = (m, Some b)"
    and "m = pre @ post" "\<forall>kv\<in>set post. b < fst kv"
  shows "n \<le> length pre"
proof -
  obtain es where es: "es \<in> set (scan_tables start db @ scan_tree crc start db)" "cut_at n es = Some b"
    using scan_merged_facts(3) [OF assms(1-3)] by blast
  have asc: "ascending es" using scan_sources_ascending [OF assms(1)] es(1) by blast
  note c = cut_at_Some [OF es(2) asc assms(2)]
  have "fst ` set (take n es) \<subseteq> fst ` set m" unfolding scan_merged_facts(4) [OF assms(1-3)] using es(1) by blast
  moreover have "k \<notin> fst ` set post" if "k \<in> fst ` set (take n es)" for k using c(2) assms(5) that by (blast dest: leD)
  ultimately have "fst ` set (take n es) \<subseteq> fst ` set pre" unfolding assms(4) set_append image_Un by blast
  then have "card (fst ` set (take n es)) \<le> card (fst ` set pre)" by (intro card_mono) auto
  also have "card (fst ` set pre) \<le> length pre" by (metis card_length length_map set_map)
  finally show ?thesis
    using distinct_card [OF ascending_distinct [OF ascending_take [OF asc, of n]]] c(1) by simp
qed

text \<open>
  Every record of a page is the newest value of its key. A record of a file may have expired: nothing
  judges it.
\<close>

lemma scan_page_sound:
  assumes "db_ok crc db" "Db_scan crc start limit now db = Inr (out, nxt)" "(k, r) \<in> set out"
  shows "start \<le> k \<and> tree_view crc db k = Some (Entry_Put r)"
proof -
  obtain m b where m: "scan_merged crc start (max limit 1 + 1) now db = (m, b)" by fastforce
  obtain out' nx where e: "emit_page (max limit 1) b [] m = (out', nx)" by fastforce
  have out: "out = out'" using assms(2) scan_eq [OF assms(1) m e] by simp
  obtain pre post where pp: "m = pre @ post" "out' = live_entries pre" "\<forall>kv\<in>set pre. trusted b (fst kv)"
    using emit_split [OF e] by auto
  note f = scan_merged_facts [OF assms(1) _ m]
  have pos: "0 < max limit 1 + 1" by simp
  have "(k, Some r) \<in> set pre" using assms(3) pp(2) by (simp add: out set_live_entries)
  then have "map_of m k = Some (Some r)" "trusted b k" using pp ascending_distinct [OF f(1) [OF pos]] by auto
  then have v: "start \<le> k" "scan_value crc now db k = Some (Some r)" using f(2) [OF pos] by (auto split: if_splits)
  have live: "entry_to_live e now = Some r \<Longrightarrow> e = Entry_Put r" "raw_record e = Some r \<Longrightarrow> e = Entry_Put r" for e
    by (cases e; simp split: if_splits)+
  from v show ?thesis using live by (auto simp: scan_value_def tree_view_def orelse_Some_iff)
qed

lemma live_value:
  assumes "\<forall>k e. start \<le> k \<and> tree_view crc db k = Some e \<longrightarrow> \<not> obsolete now e" "start \<le> k"
  shows "scan_value crc now db k = map_option Some (read_entry now (tree_view crc db k))"
proof (cases "tree_view crc db k")
  case None
  then show ?thesis by (simp add: tree_view_def scan_value_def read_entry_def)
next
  case (Some e)
  with assms have "\<not> obsolete now e" by blast
  then obtain r where r: "e = Entry_Put r" "\<not> Expired r now" by (cases e) auto
  with Some show ?thesis by (auto simp: tree_view_def scan_value_def read_entry_def orelse_Some_iff)
qed

lemma scan_page_cases:
  assumes ok: "db_ok crc db" and live: "\<forall>k e. start \<le> k \<and> tree_view crc db k = Some e \<longrightarrow> \<not> obsolete now e"
    and m: "scan_merged crc start (max limit 1 + 1) now db = (m, b)" and e: "emit_page (max limit 1) b [] m = (out, nxt)"
  shows "nxt = None \<and> b = None \<and> out = live_entries m \<and> length out \<le> max limit 1
    \<or> (\<exists>pre post k v. nxt = Some k \<and> trusted b k \<and> m = pre @ (k, v) # post \<and> out = live_entries pre \<and> length out = max limit 1)"
proof -
  obtain pre post where pp: "m = pre @ post" "out = live_entries pre" "length out \<le> max limit 1" "\<forall>kv\<in>set pre. trusted b (fst kv)"
    "post = [] \<and> nxt = None \<or> (\<exists>k v p. post = (k, v) # p \<and> (nxt = Some k \<and> length out = max limit 1 \<or> nxt = None \<and> \<not> trusted b k))"
    using emit_split [OF e] by auto
  have pos: "0 < max limit 1 + 1" by simp
  note f = scan_merged_facts [OF ok pos m]
  have "snd kv \<noteq> None" if "kv \<in> set pre" for kv
  proof -
    have "map_of m (fst kv) = Some (snd kv)" using ascending_distinct [OF f(1)] that pp(1) by simp
    with f(2) [of "fst kv"] pp(4) that live_value [OF live, of "fst kv"]
    show ?thesis by (cases "read_entry now (tree_view crc db (fst kv))") (auto split: if_splits)
  qed
  then have len: "length out = length pre" unfolding pp(2) by (intro length_live_entries) blast
  have crowd: "\<not> (\<forall>kv\<in>set post. b' < fst kv)" if "b = Some b'" for b'
    using scan_crowded [OF ok pos m [unfolded that] pp(1)] len pp(3) by linarith
  from pp(5) show ?thesis
  proof (elim disjE exE conjE)
    assume "post = []" "nxt = None"
    with crowd pp show ?thesis by (cases b) auto
  next
    fix k v p assume k: "post = (k, v) # p" "nxt = None" "\<not> trusted b k"
    then obtain b' where b': "b = Some b'" "b' < k" by (auto simp: trusted_def not_le split: option.splits)
    have "\<forall>kv\<in>set post. b' < fst kv" using f(1) b'(2) k(1) by (auto simp: pp(1) intro: order.strict_trans)
    with crowd b' show ?thesis by blast
  next
    fix k v p assume k: "post = (k, v) # p" "nxt = Some k" "length out = max limit 1"
    have "trusted b k"
    proof (rule ccontr)
      assume "\<not> trusted b k"
      then obtain b' where b': "b = Some b'" "b' < k" by (auto simp: trusted_def not_le split: option.splits)
      have "\<forall>kv\<in>set post. b' < fst kv" using f(1) b'(2) k(1) by (auto simp: pp(1) intro: order.strict_trans)
      with crowd b' show False by blast
    qed
    with k pp show ?thesis by blast
  qed
qed

text \<open>
  C15: a page of a scan is exact when no key from the start on has a deletion or an expired value as its
  newest entry. The page holds, in ascending order, exactly the live records of the keys from the start up
  to the key to resume at, or to the end when there is none; a page with a key to resume at is full and
  that key is past the start, so the pages of a walk return every live record once.
\<close>

theorem scan_page_exact:
  assumes ok: "db_ok crc db" and live: "\<forall>k e. start \<le> k \<and> tree_view crc db k = Some e \<longrightarrow> \<not> obsolete now e"
  shows "\<exists>out nxt. Db_scan crc start limit now db = Inr (out, nxt) \<and> ascending out
    \<and> (\<forall>k r. (k, r) \<in> set out \<longleftrightarrow>
          start \<le> k \<and> (case nxt of None \<Rightarrow> True | Some k' \<Rightarrow> k < k') \<and> Db_get crc k now db = Inr (Some r))
    \<and> (case nxt of None \<Rightarrow> length out \<le> max limit 1 | Some k' \<Rightarrow> length out = max limit 1 \<and> start < k')"
proof -
  obtain m b where m: "scan_merged crc start (max limit 1 + 1) now db = (m, b)" by fastforce
  obtain out nxt where e: "emit_page (max limit 1) b [] m = (out, nxt)" by fastforce
  note f = scan_merged_facts [OF ok _ m, simplified]
  have val: "trusted b k \<Longrightarrow> (k, Some r) \<in> set m \<longleftrightarrow> start \<le> k \<and> Db_get crc k now db = Inr (Some r)" for k r
    using f(2) [of k] live_value [OF live, of k] map_of_eq_Some_iff [OF ascending_distinct [OF f(1)], of k "Some r"]
    by (cases "read_entry now (tree_view crc db k)") (auto simp: get_view [OF ok] split: if_splits)
  from scan_page_cases [OF ok live m e] show ?thesis
  proof (elim disjE exE conjE)
    assume a: "nxt = None" "b = None" "out = live_entries m" "length out \<le> max limit 1"
    show ?thesis
      by (intro exI [of _ out] exI [of _ None])
        (use a val scan_eq [OF ok m e] ascending_live_entries [OF f(1)] in \<open>auto simp: set_live_entries trusted_def\<close>)
  next
    fix pre post k v assume a: "nxt = Some k" "trusted b k" "m = pre @ (k, v) # post" "out = live_entries pre" "length out = max limit 1"
    have asc: "ascending pre" "\<forall>kv\<in>set pre. fst kv < k" "\<forall>kv\<in>set post. k < fst kv" using f(1) a(3) by auto
    have t: "trusted b k'" if "k' < k" for k' using a(2) that by (auto simp: trusted_def split: option.splits)
    have mem: "(k', Some r) \<in> set pre \<longleftrightarrow> k' < k \<and> (k', Some r) \<in> set m" for k' r
      using asc by (fastforce simp: a(3) dest: less_asym)
    have "out \<noteq> []" using a(5) by auto
    then obtain k0 r0 where "(k0, r0) \<in> set out" by (cases out) auto
    then have "k0 < k" "start \<le> k0" using mem val t by (auto simp: a(4) set_live_entries)
    then have "start < k" by simp
    moreover have "(k', r) \<in> set out \<longleftrightarrow> start \<le> k' \<and> k' < k \<and> Db_get crc k' now db = Inr (Some r)" for k' r
      unfolding a(4) set_live_entries mem using val [OF t] by blast
    ultimately show ?thesis
      by (intro exI [of _ out] exI [of _ "Some k"]) (use a scan_eq [OF ok m e] ascending_live_entries [OF asc(1)] in auto)
  qed
qed

section \<open>A page that skips a key\<close>

lemma string_order:
  "''a'' < ''b''" "''b'' < ''c''" "''a'' < ''c''" "''a'' < ''e''" "''b'' < ''e''" "''c'' < ''e''"
  by code_simp+

definition put0 :: "bytes \<Rightarrow> mutation" where
  "put0 k = (k, Entry_Put \<lparr>Value = ''v'', ExpireAt = 0\<rparr>)"

lemma Expired_never [simp]: "\<not> Expired \<lparr>Value = v, ExpireAt = 0\<rparr> now"
  by (simp add: Expired_def)

lemma scan_in_memory:
  assumes "db_version db = Version_new"
  shows "Db_scan crc start limit now db =
    (let (newest, b) = fold (collect_from_memtable start (max limit 1 + 1) now) (map snd (rev (db_immutable db)) @ [db_active db]) ([], None);
         (out, nxt) = emit_page (max limit 1) b [] (fold (\<lambda>(k, r). bt_insert k r) newest []) in
     Inr (out, case nxt of Some k \<Rightarrow> Some k | None \<Rightarrow> map_option successor b))"
proof -
  have files: "concat (map (Version_level Version_new) (rev [1 ..< length Version_new])) @ rev (Version_level Version_new 0) = []"
    by (auto simp: Version_level_def Version_new_def concat_eq_Nil_conv)
  show ?thesis unfolding Db_scan_def Let_def assms files collect_files.simps rbind.simps prod.case ..
qed

lemma scan_one:
  "Db_scan crc [] 1 0 ((first_db crc opts)\<lparr>db_log := w, db_active := insert_all [put0 ''a'', put0 ''b''] MemTable_new\<rparr>) =
    Inr ([(''a'', \<lparr>Value = ''v'', ExpireAt = 0\<rparr>)], Some ''b'')"
  by (simp add: scan_in_memory first_db_def Let_def insert_all_def put0_def MemTable_insert_def MemTable_new_def string_order
    collect_from_memtable_def cut_at_def note_cut_def MemTable_range_from_def bt_from_def)

lemma put0_batch: "batch_ok [put0 ''a'', put0 ''b'']" "batch_ok [put0 ''e'']" "batch_ok [(''a'', Entry_Delete), put0 ''b'', put0 ''c'']"
  by (rule small_batch; simp add: put0_def encode_entry_def length_small_bytes is_i64_def put_varint_def length_small_uvarint zigzag_def)+

lemma put0_typed: "typed [put0 ''a'', put0 ''b'']" "typed [put0 ''e'']" "typed [(''a'', Entry_Delete), put0 ''b'', put0 ''c'']"
  by (simp_all add: typed_def put0_def is_i64_def)

lemma first_db_ok: "db_ok crc (first_db crc opts)" "tree_view crc (first_db crc opts) = (\<lambda>_. None)"
  using open_empty [OF open_calm] by blast+

theorem scan_page_exact_witness:
  "\<exists>db. Db_scan crc0 [] 1 0 db = Inr ([(''a'', \<lparr>Value = ''v'', ExpireAt = 0\<rparr>)], Some ''b'')
     \<and> Db_get crc0 ''a'' 0 db = Inr (Some \<lparr>Value = ''v'', ExpireAt = 0\<rparr>)"
proof -
  let ?m = "[put0 ''a'', put0 ''b'']" and ?d = "first_db crc0 Options_default"
  obtain w where w: "write_apply crc0 (db_calm 0) ?m ?d =
      (Inr (wl_next_seq (db_log ?d)), ?d\<lparr>db_log := w, db_active := insert_all ?m (db_active ?d)\<rparr>)"
    using write_apply_calm [OF wal_holds_first put0_batch(1)] by blast
  let ?db = "?d\<lparr>db_log := w, db_active := insert_all ?m (db_active ?d)\<rparr>"
  note a = write_apply_ok [OF first_db_ok(1) put0_typed(1) w]
  have live: "\<forall>k e. [] \<le> k \<and> tree_view crc0 ?db k = Some e \<longrightarrow> \<not> obsolete 0 e"
    unfolding a(2) by (auto simp: first_db_ok put0_def split: if_splits)
  have scan: "Db_scan crc0 [] 1 0 ?db = Inr ([(''a'', \<lparr>Value = ''v'', ExpireAt = 0\<rparr>)], Some ''b'')"
    using scan_one by (simp add: first_db_def Let_def)
  with scan_page_exact [OF a(1) live, of 1] show ?thesis by (intro exI [of _ ?db]) auto
qed

text \<open>
  C16: with a deleted key among the entries read, a page can step over a live key. The loop looks at the
  length of the page before it looks at the boundary, so a page that fills up at the boundary resumes at
  the next merged key, beyond what the cut source was read for. On a new directory: \<open>e\<close> is written and
  frozen, \<open>a\<close> is deleted and \<open>b\<close> and \<open>c\<close> are written; a page of one record from the beginning returns
  \<open>b\<close> and resumes at \<open>e\<close>, though \<open>c\<close> is live.
\<close>

theorem scan_skips_a_live_key:
  "\<exists>db0 db. Db_open crc opts (db_calm 0) empty_disk = Inr db0
     \<and> engine_run crc opts 0 db0 [put0 ''e'', (''a'', Entry_Delete), put0 ''b'', put0 ''c''] db
     \<and> Db_get crc ''c'' 0 db = Inr (Some \<lparr>Value = ''v'', ExpireAt = 0\<rparr>)
     \<and> Db_scan crc [] 1 0 db = Inr ([(''b'', \<lparr>Value = ''v'', ExpireAt = 0\<rparr>)], Some ''e'')"
proof -
  let ?d = "first_db crc opts" and ?m = "[(''a'', Entry_Delete), put0 ''b'', put0 ''c'']"
  obtain w where w: "write_apply crc (db_calm 0) [put0 ''e''] ?d =
      (Inr (wl_next_seq (db_log ?d)), ?d\<lparr>db_log := w, db_active := insert_all [put0 ''e''] (db_active ?d)\<rparr>)" "wal_holds crc w ([] @ [[put0 ''e'']])"
    using write_apply_calm [OF wal_holds_first put0_batch(2)] by blast
  let ?d1 = "?d\<lparr>db_log := w, db_active := insert_all [put0 ''e''] (db_active ?d)\<rparr>"
  have w1: "wal_holds crc (db_log ?d1) [[put0 ''e'']]" using w(2) by simp
  have ne: "\<not> MemTable_is_empty (db_active ?d1)"
    by (simp add: insert_all_def put0_def MemTable_is_empty_def first_db_def Let_def MemTable_new_def)
  obtain w2 d2 where d2: "force_freeze crc opts (db_calm 0) ?d1 = (Inr (), d2)" "db_active d2 = MemTable_new"
      "map snd (db_immutable d2) = [db_active ?d1]" "db_version d2 = Version_new" "wal_holds crc (db_log d2) []"
    using force_freeze_calm [OF w1 ne, of opts 0] wal_holds_create by (auto simp: first_db_def Let_def)
  obtain w3 where w3: "write_apply crc (db_calm 0) ?m d2 =
      (Inr (wl_next_seq (db_log d2)), d2\<lparr>db_log := w3, db_active := insert_all ?m (db_active d2)\<rparr>)"
    using write_apply_calm [OF d2(5) put0_batch(3)] by blast
  let ?d3 = "d2\<lparr>db_log := w3, db_active := insert_all ?m (db_active d2)\<rparr>"
  have "engine_run crc opts 0 ?d [put0 ''e''] ?d1" by (rule run_one) (rule applied [OF w(1) put0_typed(2)])
  from run_step [OF run_step [OF this freeze [OF d2(1)]] applied [OF w3 put0_typed(3)]]
  have run: "engine_run crc opts 0 ?d [put0 ''e'', (''a'', Entry_Delete), put0 ''b'', put0 ''c''] ?d3" by simp
  have ok: "db_ok crc ?d1" by (rule write_apply_ok(1) [OF first_db_ok(1) put0_typed(2) w(1)])
  note a = write_apply_ok [OF freeze_ok(1) [OF ok d2(1)] put0_typed(3) w3]
  have "Db_get crc ''c'' 0 ?d3 = Inr (Some \<lparr>Value = ''v'', ExpireAt = 0\<rparr>)"
    unfolding get_view [OF a(1)] a(2) by (simp add: put0_def read_entry_def)
  moreover have "Db_scan crc [] 1 0 ?d3 = Inr ([(''b'', \<lparr>Value = ''v'', ExpireAt = 0\<rparr>)], Some ''e'')"
  proof -
    have v: "db_version ?d3 = Version_new" using d2(4) by simp
    have t: "map snd (rev (db_immutable ?d3)) @ [db_active ?d3] = [insert_all [put0 ''e''] MemTable_new, insert_all ?m MemTable_new]"
      using d2(2,3) by (simp add: rev_map [symmetric] first_db_def Let_def)
    show ?thesis unfolding scan_in_memory [OF v] t
      by (simp add: insert_all_def put0_def MemTable_insert_def MemTable_new_def string_order Let_def
          collect_from_memtable_def cut_at_def note_cut_def MemTable_range_from_def bt_from_def)
  qed
  ultimately show ?thesis using run open_calm by blast
qed

end
