(* ===== verification/Lsm_Client.thy ===== *)
theory Lsm_Client
  imports Lsm_Scan Memory
begin

text \<open>
  The storage engine as a process: the gRPC service of \<open>src/engine/src/service.rs\<close> on the database of
  \<open>Lsm_Db\<close>, and its client \<open>src/internal/store/lsm/lsm.go\<close>, which is the server's second storage engine.
  gRPC itself and the generated messages are outside the model: a call is delivered, is lost before it
  reaches the engine, or runs and loses its reply. What the network and the engine's disk do is part of
  the environment and counted by the ticks of the client's state.
\<close>

section \<open>The service\<close>

datatype Code = Unavailable | DataLoss | DeadlineExceeded | FailedPrecondition | InvalidArgumentCode | Internal

type_synonym 'a grpc_reply = "Code + 'a"

fun to_status :: "lsm_error \<Rightarrow> Code" where
  "to_status InvalidArgument = InvalidArgumentCode"
| "to_status Closed = Unavailable"
| "to_status (Poisoned m) = FailedPrecondition"
| "to_status Corrupt = DataLoss"
| "to_status Io = Internal"
| "to_status Panicked = Internal"

definition blocking :: "'a rust \<Rightarrow> 'a grpc_reply" where
  "blocking r = (case r of Inl e \<Rightarrow> Inl (to_status e) | Inr x \<Rightarrow> Inr x)"

definition svc_get :: "checksum \<Rightarrow> bytes \<Rightarrow> int \<Rightarrow> Db \<Rightarrow> Record option grpc_reply \<times> Db" where
  "svc_get crc key now_ms db = (blocking (Db_get crc key now_ms db), db)"

definition svc_put :: "checksum \<Rightarrow> Options \<Rightarrow> db_io \<Rightarrow> bytes \<Rightarrow> Record \<Rightarrow> Db \<Rightarrow> nat grpc_reply \<times> Db" where
  "svc_put crc opts io key rec db =
     (case Db_put crc opts io key (Value rec) (ExpireAt rec) db of (r, db) \<Rightarrow> (blocking r, db))"

definition svc_delete :: "checksum \<Rightarrow> Options \<Rightarrow> db_io \<Rightarrow> bytes \<Rightarrow> int \<Rightarrow> Db \<Rightarrow> (bool \<times> nat) grpc_reply \<times> Db" where
  "svc_delete crc opts io key now_ms db =
     (case Db_get crc key now_ms db of
        Inl e \<Rightarrow> (Inl (to_status e), db)
      | Inr found \<Rightarrow>
          (case Db_delete crc opts io key db of
             (Inl e, db) \<Rightarrow> (Inl (to_status e), db)
           | (Inr seq, db) \<Rightarrow> (Inr (found \<noteq> None, seq), db)))"

definition to_mutation :: "Mutation \<Rightarrow> mutation" where
  "to_mutation mu = (Key mu, if Del mu then Entry_Delete else Entry_Put (MRecord mu))"

definition svc_batch_write :: "checksum \<Rightarrow> Options \<Rightarrow> db_io \<Rightarrow> Mutation list \<Rightarrow> Db \<Rightarrow> nat grpc_reply \<times> Db" where
  "svc_batch_write crc opts io muts db =
     (case Db_write crc opts io (map to_mutation muts) db of (r, db) \<Rightarrow> (blocking r, db))"

text \<open>The entries, whether there is more, and where the next page starts.\<close>

definition svc_scan :: "checksum \<Rightarrow> bytes \<Rightarrow> nat \<Rightarrow> int \<Rightarrow> Db \<Rightarrow> ((bytes \<times> Record) list \<times> bool \<times> bytes) grpc_reply \<times> Db" where
  "svc_scan crc start limit now_ms db =
     (blocking (rbind (Db_scan crc start (min 100000 (max 1 limit)) now_ms db)
        (\<lambda>(page, nxt). Inr (page, nxt \<noteq> None, case nxt of None \<Rightarrow> [] | Some k \<Rightarrow> k))), db)"

text \<open>A call that is still running when the caller gives up has gone through \<open>n\<close> pages.\<close>

definition svc_flush_all :: "nat \<Rightarrow> checksum \<Rightarrow> Options \<Rightarrow> db_io \<Rightarrow> Db \<Rightarrow> nat grpc_reply \<times> Db" where
  "svc_flush_all n crc opts io db =
     (case Db_flush_all n crc opts io db of
        (None, db') \<Rightarrow> (Inl DeadlineExceeded, db')
      | (Some r, db') \<Rightarrow> (blocking (rbind r (\<lambda>_. Inr (estimated_len db))), db'))"

definition svc_sync :: "db_io \<Rightarrow> Db \<Rightarrow> unit grpc_reply \<times> Db" where
  "svc_sync io db = (case Db_sync io db of (r, db) \<Rightarrow> (blocking r, db))"

definition svc_flush :: "checksum \<Rightarrow> Options \<Rightarrow> db_io \<Rightarrow> (nat \<Rightarrow> db_io) \<Rightarrow> Db \<Rightarrow> unit grpc_reply \<times> Db" where
  "svc_flush crc opts io ios db = (case flush_memtable crc opts io ios db of (r, db) \<Rightarrow> (blocking r, db))"

definition svc_compact :: "checksum \<Rightarrow> Options \<Rightarrow> (nat \<Rightarrow> db_io) \<Rightarrow> (nat \<Rightarrow> db_io) \<Rightarrow> Db \<Rightarrow> unit grpc_reply \<times> Db" where
  "svc_compact crc opts fios cios db = (case compact_until_idle crc opts fios cios db of (r, db) \<Rightarrow> (blocking r, db))"

text \<open>
  The fields of a \<open>StatsResponse\<close> the client reads. The counters the engine keeps for its statistics only are
  readings of the environment.
\<close>

record engine_counters =
  ec_flushes :: nat
  ec_compactions :: nat
  ec_compaction_bytes_read :: nat
  ec_compaction_bytes_written :: nat
  ec_write_stalls :: nat
  ec_bloom_rejections :: nat
  ec_sstable_reads :: nat
  ec_wal_fsyncs :: nat

record StatsResponse =
  sr_stats :: db_stats
  sr_counters :: engine_counters
  sr_wal_unsynced :: nat
  sr_wal_policy :: bytes
  sr_version :: bytes

definition svc_stats :: "bytes \<Rightarrow> engine_counters \<Rightarrow> Db \<Rightarrow> StatsResponse grpc_reply \<times> Db" where
  "svc_stats version cs db =
     (Inr \<lparr>sr_stats = Db_stats db, sr_counters = cs,
           sr_wal_unsynced = last_sequence (db_log db) - wl_synced (db_log db),
           sr_wal_policy = SyncPolicy_as_str (wl_policy (db_log db)), sr_version = version\<rparr>, db)"

section \<open>The client's state\<close>

datatype net = Delivered | Lost Code | ReplyLost Code

fun over_net :: "net \<Rightarrow> (Db \<Rightarrow> 'a grpc_reply \<times> Db) \<Rightarrow> Db \<Rightarrow> 'a grpc_reply \<times> Db" where
  "over_net Delivered f db = f db"
| "over_net (Lost c) f db = (Inl c, db)"
| "over_net (ReplyLost c) f db = (Inl c, snd (f db))"

text \<open>
  The environment of the \<open>n\<close>-th call: what the network does, what the engine's system calls do, how many
  pages a FLUSHALL gets through, the counters and the monotonic clock; and the seeded hash.
\<close>

record lsm_env =
  le_crc :: checksum
  le_opts :: Options
  le_net :: "nat \<Rightarrow> net"
  le_io :: "nat \<Rightarrow> nat \<Rightarrow> db_io"
  le_pages :: "nat \<Rightarrow> nat"
  le_counters :: "nat \<Rightarrow> engine_counters"
  le_time :: "nat \<Rightarrow> int"
  le_hash :: "bytes \<Rightarrow> nat"
  le_version :: bytes

record cursorEntry =
  ce_start :: bytes
  ce_issuedAt :: int

record lsm_store =
  ls_db :: Db
  ls_tick :: nat
  ls_cursors :: "nat \<rightharpoonup> cursorEntry"
  ls_cursorN :: nat
  ls_lastFlush :: int
  ls_closed :: bool

definition stripeCount :: nat where
  "stripeCount = 1024"

definition cursorTTL :: int where
  "cursorTTL = 600 * 10 ^ 9"

text \<open>\<open>Options.withDefaults\<close> and \<open>Open\<close>; the clock and the logger have no default worth naming.\<close>

record lsm_Options =
  lo_Addr :: bytes
  lo_Timeout :: int
  lo_DialTimeout :: int
  lo_MaxMessageBytes :: int

definition lsm_withDefaults :: "lsm_Options \<Rightarrow> lsm_Options res" where
  "lsm_withDefaults opt =
     (if lo_Addr opt = [] then Fail (OtherErr ''lsm: Addr is required'')
      else
        let opt = (if lo_Timeout opt \<le> 0 then opt\<lparr>lo_Timeout := 5 * 10 ^ 9\<rparr> else opt);
            opt = (if lo_DialTimeout opt \<le> 0 then opt\<lparr>lo_DialTimeout := 10 * 10 ^ 9\<rparr> else opt);
            opt = (if lo_MaxMessageBytes opt \<le> 0 then opt\<lparr>lo_MaxMessageBytes := 600 * 2 ^ 20\<rparr> else opt) in
        Ret opt)"

text \<open>
  \<open>wrap\<close> on a gRPC status, without the status text; a deadline wraps \<open>context.DeadlineExceeded\<close> and is that
  error to \<open>errors.Is\<close>.
\<close>

definition wrap :: "bytes \<Rightarrow> Code \<Rightarrow> gerror" where
  "wrap op c =
     (case c of
        Unavailable \<Rightarrow> FmtErr ''lsm: %s: storage engine is unreachable: %w'' op
      | DataLoss \<Rightarrow> FmtErr ''lsm: %s: storage engine reported corruption: %w'' op
      | DeadlineExceeded \<Rightarrow> CtxDeadlineExceeded
      | _ \<Rightarrow> FmtErr ''lsm: %s: %w'' op)"

definition rpc :: "lsm_env \<Rightarrow> bytes \<Rightarrow> (nat \<Rightarrow> Db \<Rightarrow> 'a grpc_reply \<times> Db) \<Rightarrow> (lsm_store, 'a) action" where
  "rpc E op f s =
     (case over_net (le_net E (ls_tick s)) (f (ls_tick s)) (ls_db s) of
        (r, db) \<Rightarrow>
          (case r of Inl c \<Rightarrow> Fail (wrap op c) | Inr x \<Rightarrow> Ret x, s\<lparr>ls_db := db, ls_tick := ls_tick s + 1\<rparr>))"

definition lsm_open :: "(lsm_store, unit) action" where
  "lsm_open s = (if ls_closed s then (Fail ErrClosed, s) else (Ret (), s))"

definition lsm_Open :: "lsm_env \<Rightarrow> lsm_Options \<Rightarrow> Db \<Rightarrow> lsm_store res" where
  "lsm_Open E opt db =
     bind_res (lsm_withDefaults opt) (\<lambda>opt.
       let s = \<lparr>ls_db = db, ls_tick = 0, ls_cursors = Map.empty, ls_cursorN = 0, ls_lastFlush = 0, ls_closed = False\<rparr> in
       case rpc E ''stats'' (\<lambda>n. svc_stats (le_version E) (le_counters E n)) s of
         (Ret _, s) \<Rightarrow> Ret s
       | (_, s) \<Rightarrow> Fail (FmtErr ''lsm: engine at %s did not answer: %w'' (lo_Addr opt)))"

definition lsm_Name :: bytes where
  "lsm_Name = ''lsm''"

definition lockFor :: "lsm_env \<Rightarrow> bytes \<Rightarrow> nat" where
  "lockFor E key = le_hash E key mod stripeCount"

section \<open>The operations\<close>

text \<open>
  Each operation is one step: the stripe it holds keeps every other operation on its keys out, and the
  single-key operations of other keys do not touch what it reads and writes.
\<close>

definition rpc_get :: "lsm_env \<Rightarrow> bytes \<Rightarrow> bytes \<Rightarrow> int \<Rightarrow> (lsm_store, Record option) action" where
  "rpc_get E op key now = rpc E op (\<lambda>n. svc_get (le_crc E) key now)"

definition rpc_put :: "lsm_env \<Rightarrow> bytes \<Rightarrow> bytes \<Rightarrow> Record \<Rightarrow> (lsm_store, nat) action" where
  "rpc_put E op key rec = rpc E op (\<lambda>n. svc_put (le_crc E) (le_opts E) (le_io E n 0) key rec)"

definition rpc_delete :: "lsm_env \<Rightarrow> bytes \<Rightarrow> bytes \<Rightarrow> int \<Rightarrow> (lsm_store, bool \<times> nat) action" where
  "rpc_delete E op key now = rpc E op (\<lambda>n. svc_delete (le_crc E) (le_opts E) (le_io E n 0) key now)"

definition lsm_Get :: "lsm_env \<Rightarrow> clock \<Rightarrow> bytes \<Rightarrow> (lsm_store, Record option) action" where
  "lsm_Get E clk key = sbind lsm_open (\<lambda>_. rpc_get E ''get'' key (clk 0))"

definition lsm_putLocked :: "lsm_env \<Rightarrow> bytes \<Rightarrow> Record \<Rightarrow> (lsm_store, unit) action" where
  "lsm_putLocked E key rec = sbind (rpc_put E ''put'' key rec) (\<lambda>_ s. (Ret (), s))"

definition lsm_Put :: "lsm_env \<Rightarrow> clock \<Rightarrow> bytes \<Rightarrow> Record \<Rightarrow> (lsm_store, unit) action" where
  "lsm_Put E clk key rec = sbind lsm_open (\<lambda>_. lsm_putLocked E key rec)"

definition lsm_Delete :: "lsm_env \<Rightarrow> clock \<Rightarrow> bytes \<Rightarrow> (lsm_store, bool) action" where
  "lsm_Delete E clk key = sbind lsm_open (\<lambda>_. sbind (rpc_delete E ''delete'' key (clk 0)) (\<lambda>x s. (Ret (fst x), s)))"

definition lsm_Update :: "lsm_env \<Rightarrow> clock \<Rightarrow> bytes \<Rightarrow> UpdateFunc \<Rightarrow> lsm_store \<Rightarrow> (unit res \<times> caps option) \<times> lsm_store" where
  "lsm_Update E clk key fn s =
     (case sbind lsm_open (\<lambda>_. rpc_get E ''update read'' key (clk 0)) s of
        (Fail e, s) \<Rightarrow> ((Fail e, None), s)
      | (Panic, s) \<Rightarrow> ((Panic, None), s)
      | (Ret cur, s) \<Rightarrow>
          (case fn (case cur of None \<Rightarrow> zero_record | Some r \<Rightarrow> r) (cur \<noteq> None) of
             (Fail e, c) \<Rightarrow> ((Fail e, Some c), s)
           | (Panic, c) \<Rightarrow> ((Panic, Some c), s)
           | (Ret (nxt, act), c) \<Rightarrow>
               (case act of
                  ActionPut \<Rightarrow> (case lsm_putLocked E key nxt s of (r, s) \<Rightarrow> ((r, Some c), s))
                | ActionDelete \<Rightarrow>
                    if cur = None then ((Ret (), Some c), s)
                    else (case sbind (rpc_delete E ''update delete'' key (clk 1)) (\<lambda>_ s. (Ret (), s)) s of
                            (r, s) \<Rightarrow> ((r, Some c), s))
                | ActionNone \<Rightarrow> ((Ret (), Some c), s))))"

text \<open>The stripes \<open>MultiWrite\<close> locks, in the order it locks them.\<close>

fun stripe_idx :: "lsm_env \<Rightarrow> Mutation list \<Rightarrow> nat list \<Rightarrow> nat list" where
  "stripe_idx E [] idx = idx"
| "stripe_idx E (mu # muts) idx =
     (let i = lockFor E (Key mu) in stripe_idx E muts (if i \<in> set idx then idx else idx @ [i]))"

definition stripe_order :: "lsm_env \<Rightarrow> Mutation list \<Rightarrow> nat list" where
  "stripe_order E muts = sortInts (stripe_idx E muts [])"

definition lsm_MultiWrite :: "lsm_env \<Rightarrow> clock \<Rightarrow> Mutation list \<Rightarrow> (lsm_store, unit) action" where
  "lsm_MultiWrite E clk muts =
     sbind lsm_open (\<lambda>_ s.
       if muts = [] then (Ret (), s)
       else sbind (rpc E ''batch write'' (\<lambda>n. svc_batch_write (le_crc E) (le_opts E) (le_io E n 0) muts)) (\<lambda>_ s. (Ret (), s)) s)"

definition expireCursors :: "int \<Rightarrow> (nat \<rightharpoonup> cursorEntry) \<Rightarrow> (nat \<rightharpoonup> cursorEntry)" where
  "expireCursors now cs k =
     (case cs k of None \<Rightarrow> None | Some e \<Rightarrow> if ce_issuedAt e < now - cursorTTL then None else Some e)"

definition nextCursor :: "int \<Rightarrow> int \<Rightarrow> bytes \<Rightarrow> lsm_store \<Rightarrow> nat \<times> lsm_store" where
  "nextCursor now now' start s =
     (let n = u64 (ls_cursorN s + 1);
          cs = (ls_cursors s)(n \<mapsto> \<lparr>ce_start = start, ce_issuedAt = now\<rparr>) in
      (n, s\<lparr>ls_cursorN := n, ls_cursors := expireCursors now' cs\<rparr>))"

text \<open>Looking up a cursor removes it; the three clock readings of a call are \<open>le_time\<close> at its tick and after.\<close>

definition takeCursor :: "int \<Rightarrow> nat \<Rightarrow> (lsm_store, bytes) action" where
  "takeCursor now cursor s =
     (if cursor = 0 then (Ret [], s)
      else
        case ls_cursors s cursor of
          None \<Rightarrow> (Fail (FmtErr ''lsm: scan cursor %d is unknown or has expired'' (FormatUint cursor)), s)
        | Some e \<Rightarrow>
            let s = s\<lparr>ls_cursors := (ls_cursors s)(cursor := None)\<rparr> in
            if now - ce_issuedAt e > cursorTTL
            then (Fail (FmtErr ''lsm: scan cursor %d expired after %s'' (FormatUint cursor)), s)
            else (Ret (ce_start e), s))"

definition scan_limit :: "int \<Rightarrow> nat" where
  "scan_limit n = nat ((if n \<le> 0 then 10 else n) mod 2 ^ 32)"

definition lsm_Scan ::
  "lsm_env \<Rightarrow> clock \<Rightarrow> nat \<Rightarrow> int \<Rightarrow> (bytes \<Rightarrow> Record \<Rightarrow> 'a \<Rightarrow> bool \<times> 'a) \<Rightarrow> 'a \<Rightarrow> (lsm_store, nat \<times> 'a) action" where
  "lsm_Scan E clk cursor n fn acc =
     sbind lsm_open (\<lambda>_ s.
     sbind (takeCursor (le_time E (ls_tick s)) cursor) (\<lambda>start.
     sbind (rpc E ''scan'' (\<lambda>_. svc_scan (le_crc E) start (scan_limit n) (clk 0))) (\<lambda>(page, more, nxt) s.
       let (_, acc) = scan_batch fn page acc in
       if \<not> more then (Ret (0, acc), s)
       else
         let (id, s) = nextCursor (le_time E (ls_tick s)) (le_time E (ls_tick s + 1)) nxt s in
         (Ret (id, acc), s\<lparr>ls_tick := ls_tick s + 1\<rparr>))) s)"

definition lsm_stats :: "lsm_env \<Rightarrow> (lsm_store, StatsResponse) action" where
  "lsm_stats E = sbind lsm_open (\<lambda>_. rpc E ''stats'' (\<lambda>n. svc_stats (le_version E) (le_counters E n)))"

definition lsm_Len :: "lsm_env \<Rightarrow> clock \<Rightarrow> (lsm_store, int) action" where
  "lsm_Len E clk = sbind (lsm_stats E) (\<lambda>st s. (Ret (i64 (int (ds_keys (sr_stats st)))), s))"

definition lsm_FlushAll :: "lsm_env \<Rightarrow> clock \<Rightarrow> (lsm_store, unit) action" where
  "lsm_FlushAll E clk =
     sbind lsm_open (\<lambda>_. sbind (rpc E ''flushall'' (\<lambda>n. svc_flush_all (le_pages E n) (le_crc E) (le_opts E) (le_io E n 0)))
       (\<lambda>_ s. (Ret (), s)))"

definition lsm_SampleVolatile :: "nat \<Rightarrow> (lsm_store, bytes list) action" where
  "lsm_SampleVolatile n s = (Ret [], s)"

fun level_fields :: "bytes \<Rightarrow> nat \<Rightarrow> nat list \<Rightarrow> (bytes \<times> bytes) list" where
  "level_fields suffix i [] = []"
| "level_fields suffix i (n # ns) = (''lsm_level'' @ FormatUint i @ suffix, itoa n) # level_fields suffix (i + 1) ns"

definition stats_extra :: "StatsResponse \<Rightarrow> (bytes \<times> bytes) list" where
  "stats_extra st =
     (let c = sr_counters st in
      [(''engine_version'', sr_version st), (''lsm_flushes'', itoa (ec_flushes c)),
       (''lsm_compactions'', itoa (ec_compactions c)), (''lsm_compaction_read'', itoa (ec_compaction_bytes_read c)),
       (''lsm_compaction_written'', itoa (ec_compaction_bytes_written c)), (''lsm_write_stalls'', itoa (ec_write_stalls c)),
       (''lsm_bloom_rejections'', itoa (ec_bloom_rejections c)), (''lsm_sstable_reads'', itoa (ec_sstable_reads c)),
       (''lsm_wal_fsyncs'', itoa (ec_wal_fsyncs c)), (''lsm_wal_unsynced_records'', itoa (sr_wal_unsynced st)),
       (''lsm_wal_policy'', sr_wal_policy st), (''lsm_keys_are_estimated'', ''1'')]
      @ level_fields ''_files'' 0 (ds_level_files (sr_stats st))
      @ filter (\<lambda>(_, v). v \<noteq> ''0'') (level_fields ''_bytes'' 0 (ds_level_bytes (sr_stats st))))"

text \<open>The engine's counters, with \<open>DiskBytes\<close> as the second component.\<close>

definition lsm_Stats :: "lsm_env \<Rightarrow> (lsm_store, Stats \<times> int) action" where
  "lsm_Stats E =
     sbind (lsm_stats E) (\<lambda>st s.
       (Ret (\<lparr>Keys = i64 (int (ds_keys (sr_stats st))), VolatileKeys = 0, MemoryBytes = i64 (int (ds_memory_bytes (sr_stats st))),
              Extra = stats_extra st\<rparr>, i64 (int (ds_disk_bytes (sr_stats st)))), s))"

definition lsm_Snapshot :: "lsm_env \<Rightarrow> clock \<Rightarrow> (lsm_store, bytes) action" where
  "lsm_Snapshot E clk =
     sbind lsm_open (\<lambda>_. sbind (rpc E ''flush'' (\<lambda>n. svc_flush (le_crc E) (le_opts E) (le_io E n 0) (\<lambda>i. le_io E n (i + 1))))
       (\<lambda>_ s. (Ret ''engine memtable flushed to an sstable'', s\<lparr>ls_lastFlush := clk 0\<rparr>)))"

definition lsm_LastSnapshot :: "lsm_store \<Rightarrow> int \<times> bool" where
  "lsm_LastSnapshot s = (sgn (ls_lastFlush s) * (\<bar>ls_lastFlush s\<bar> div 1000), ls_lastFlush s > 0)"

definition lsm_Sync :: "lsm_env \<Rightarrow> (lsm_store, unit) action" where
  "lsm_Sync E = sbind lsm_open (\<lambda>_. rpc E ''sync'' (\<lambda>n. svc_sync (le_io E n 0)))"

definition lsm_Compact :: "lsm_env \<Rightarrow> (lsm_store, unit) action" where
  "lsm_Compact E = rpc E ''compact'' (\<lambda>n. svc_compact (le_crc E) (le_opts E) (\<lambda>i. le_io E n (2 * i)) (\<lambda>i. le_io E n (2 * i + 1)))"

text \<open>\<open>Close\<close>: the final sync may fail, and is then only logged; \<open>r\<close> is what closing the connection returns.\<close>

definition lsm_Close :: "lsm_env \<Rightarrow> unit res \<Rightarrow> (lsm_store, unit) action" where
  "lsm_Close E r s =
     (if ls_closed s then (Ret (), s)
      else (r, snd (rpc E ''sync'' (\<lambda>n. svc_sync (le_io E n 0)) (s\<lparr>ls_closed := True\<rparr>))))"

definition lsm_engine :: "lsm_env \<Rightarrow> lsm_store store" where
  "lsm_engine E =
     \<lparr>Get = lsm_Get E, Put = lsm_Put E, Delete = lsm_Delete E, Update = lsm_Update E,
      MultiWrite = lsm_MultiWrite E, Scan = lsm_Scan E, Len = lsm_Len E, FlushAll = lsm_FlushAll E\<rparr>"

section \<open>What a point store promises\<close>

text \<open>
  The contract of the five operations on named keys, for records whose expiry is an \<open>int64\<close>. It is what
  \<open>store_contract\<close> leaves when counting and wiping are taken away, which an LSM tree only approximates.
\<close>

locale point_store =
  fixes S :: "'s store" and inv :: "'s \<Rightarrow> bool" and abs :: "'s \<Rightarrow> keyspace"
  assumes point_get: "inv s \<Longrightarrow> Get S clk k s = (rg, s') \<Longrightarrow> clk 0 \<le> clk 1 \<Longrightarrow>
      inv s' \<and> agree (clk 1) (abs s') (abs s) \<and> (\<forall>x. rg = Ret x \<longrightarrow> x = live (clk 0) (abs s) k)"
    and point_put: "inv s \<Longrightarrow> is_i64 (ExpireAt rec) \<Longrightarrow> Put S clk k rec s = (r, s') \<Longrightarrow>
      inv s' \<and> (if r = Ret () then abs s' = (abs s)(k \<mapsto> rec) else abs s' = abs s \<or> abs s' = (abs s)(k \<mapsto> rec))"
    and point_delete: "inv s \<Longrightarrow> Delete S clk k s = (rb, s') \<Longrightarrow>
      inv s' \<and> (\<forall>b. rb = Ret b \<longrightarrow> b = (live (clk 0) (abs s) k \<noteq> None) \<and> abs s' = (abs s)(k := None))
      \<and> (abs s' = abs s \<or> abs s' = (abs s)(k := None))"
    and point_update: "inv s \<Longrightarrow> (\<forall>cur b nxt act c. fn cur b = (Ret (nxt, act), c) \<longrightarrow> is_i64 (ExpireAt nxt)) \<Longrightarrow>
      Update S clk k fn s = ((r, c), s') \<Longrightarrow>
      inv s' \<and>
      (let cur = live (clk 0) (abs s) k;
           called = fn (case cur of None \<Rightarrow> zero_record | Some x \<Rightarrow> x) (cur \<noteq> None);
           after = update_result (abs s) k (fst called)
       in (c = None \<and> r \<noteq> Ret () \<and> r \<noteq> Panic \<and> abs s' = abs s \<or> c = Some (snd called))
        \<and> (r = Ret () \<longrightarrow> c = Some (snd called) \<and> (\<exists>x. fst called = Ret x) \<and> agree (clk 0) (abs s') after)
        \<and> (c = Some (snd called) \<longrightarrow> (\<forall>e. fst called = Fail e \<longrightarrow> r = Fail e) \<and> (fst called = Panic \<longrightarrow> r = Panic))
        \<and> (agree (clk 0) (abs s') after \<or> agree (clk 0) (abs s') (abs s)))"
    and point_multi: "inv s \<Longrightarrow> (\<forall>mu\<in>set muts. is_i64 (ExpireAt (MRecord mu))) \<Longrightarrow> MultiWrite S clk muts s = (r, s') \<Longrightarrow>
      inv s' \<and> (r = Ret () \<longrightarrow> abs s' = fold apply_mutation muts (abs s))
      \<and> (abs s' = abs s \<or> abs s' = fold apply_mutation muts (abs s))"

sublocale store_contract \<subseteq> point_store S inv abs
proof (unfold_locales, goal_cases)
  case 1
  then show ?case by (rule get_law)
next
  case 2
  from 2(1,3) show ?case by (rule put_law)
next
  case 3
  then show ?case by (rule delete_law)
next
  case 4
  from 4(1,3) show ?case by (rule update_law)
next
  case 5
  from 5(1,3) show ?case by (rule multi_law)
qed

section \<open>Histories of point operations\<close>

datatype point_op = PGet bytes | PPut bytes Record | PDelete bytes | PUpdate bytes UpdateFunc | PMulti "Mutation list"

datatype point_ans = AGet "Record option" | AUnit | ADeleted bool | AUpdated "caps option"

fun point_exec :: "'s store \<Rightarrow> clock \<Rightarrow> point_op \<Rightarrow> 's \<Rightarrow> point_ans res \<times> 's" where
  "point_exec S clk (PGet k) s = (case Get S clk k s of (r, s) \<Rightarrow> (bind_res r (\<lambda>x. Ret (AGet x)), s))"
| "point_exec S clk (PPut k rec) s = (case Put S clk k rec s of (r, s) \<Rightarrow> (bind_res r (\<lambda>_. Ret AUnit), s))"
| "point_exec S clk (PDelete k) s = (case Delete S clk k s of (r, s) \<Rightarrow> (bind_res r (\<lambda>b. Ret (ADeleted b)), s))"
| "point_exec S clk (PUpdate k fn) s = (case Update S clk k fn s of ((r, c), s) \<Rightarrow> (bind_res r (\<lambda>_. Ret (AUpdated c)), s))"
| "point_exec S clk (PMulti muts) s = (case MultiWrite S clk muts s of (r, s) \<Rightarrow> (bind_res r (\<lambda>_. Ret AUnit), s))"

fun run_points :: "'s store \<Rightarrow> (clock \<times> point_op) list \<Rightarrow> 's \<Rightarrow> point_ans res list \<times> 's" where
  "run_points S [] s = ([], s)"
| "run_points S ((clk, op) # ops) s =
     (case point_exec S clk op s of (r, s) \<Rightarrow> (case run_points S ops s of (rs, s) \<Rightarrow> (r # rs, s)))"

text \<open>The same operations on a keyspace, at one instant.\<close>

fun point_spec :: "int \<Rightarrow> point_op \<Rightarrow> keyspace \<Rightarrow> point_ans res \<times> keyspace" where
  "point_spec now (PGet k) K = (Ret (AGet (live now K k)), K)"
| "point_spec now (PPut k rec) K = (Ret AUnit, K(k \<mapsto> rec))"
| "point_spec now (PDelete k) K = (Ret (ADeleted (live now K k \<noteq> None)), K(k := None))"
| "point_spec now (PUpdate k fn) K =
     (let cur = live now K k; called = fn (case cur of None \<Rightarrow> zero_record | Some x \<Rightarrow> x) (cur \<noteq> None) in
      (bind_res (fst called) (\<lambda>_. Ret (AUpdated (Some (snd called)))), update_result K k (fst called)))"
| "point_spec now (PMulti muts) K = (Ret AUnit, fold apply_mutation muts K)"

text \<open>
  A history of answers explained by a keyspace: an operation that answers does what it says at its first
  clock reading; one that fails did that or nothing.
\<close>

inductive explained :: "keyspace \<Rightarrow> ((clock \<times> point_op) \<times> point_ans res) list \<Rightarrow> keyspace \<Rightarrow> bool" where
  explained_Nil: "explained K [] K"
| explained_answer: "point_spec (clk 0) op K = (Ret a, K') \<Longrightarrow> explained K' tr K'' \<Longrightarrow> explained K (((clk, op), Ret a) # tr) K''"
| explained_error: "\<forall>a. r \<noteq> Ret a \<Longrightarrow> K' = K \<or> K' = snd (point_spec (clk 0) op K) \<Longrightarrow> explained K' tr K'' \<Longrightarrow>
    explained K (((clk, op), r) # tr) K''"

fun timed :: "int \<Rightarrow> (clock \<times> point_op) list \<Rightarrow> bool" where
  "timed t [] = True"
| "timed t ((clk, op) # ops) \<longleftrightarrow> t \<le> clk 0 \<and> clk 0 \<le> clk 1 \<and> timed (clk 1) ops"

fun end_time :: "int \<Rightarrow> (clock \<times> point_op) list \<Rightarrow> int" where
  "end_time t [] = t"
| "end_time t ((clk, op) # ops) = end_time (clk 1) ops"

fun op_typed :: "point_op \<Rightarrow> bool" where
  "op_typed (PPut k rec) = is_i64 (ExpireAt rec)"
| "op_typed (PUpdate k fn) = (\<forall>cur b nxt act c. fn cur b = (Ret (nxt, act), c) \<longrightarrow> is_i64 (ExpireAt nxt))"
| "op_typed (PMulti muts) = (\<forall>mu\<in>set muts. is_i64 (ExpireAt (MRecord mu)))"
| "op_typed _ = True"

lemma agree_fold: "agree t K K' \<Longrightarrow> agree t (fold apply_mutation muts K) (fold apply_mutation muts K')"
  by (induction muts arbitrary: K K') (auto simp: apply_mutation_def intro!: agree_upd)

lemma agree_spec:
  assumes "agree t K K'" "t \<le> now"
  shows "fst (point_spec now op K) = fst (point_spec now op K')" "agree t (snd (point_spec now op K)) (snd (point_spec now op K'))"
proof -
  have live: "live now K = live now K'" by (rule agree_live [OF assms])
  show "fst (point_spec now op K) = fst (point_spec now op K')" by (cases op) (simp_all add: live Let_def)
  show "agree t (snd (point_spec now op K)) (snd (point_spec now op K'))"
    using assms(1) by (cases op) (auto simp: live Let_def update_result_def agree_fold intro!: agree_upd split: res.splits Action.splits)
qed

context point_store
begin

lemma point_step:
  assumes "inv s" "op_typed op" "clk 0 \<le> clk 1" "point_exec S clk op s = (r, s')"
  shows "inv s'" "(\<forall>a. r = Ret a \<longrightarrow> fst (point_spec (clk 0) op (abs s)) = Ret a \<and> agree (clk 1) (abs s') (snd (point_spec (clk 0) op (abs s))))"
    "agree (clk 1) (abs s') (abs s) \<or> agree (clk 1) (abs s') (snd (point_spec (clk 0) op (abs s)))"
proof -
  have "inv s' \<and> (\<forall>a. r = Ret a \<longrightarrow> fst (point_spec (clk 0) op (abs s)) = Ret a \<and> agree (clk 1) (abs s') (snd (point_spec (clk 0) op (abs s))))
    \<and> (agree (clk 1) (abs s') (abs s) \<or> agree (clk 1) (abs s') (snd (point_spec (clk 0) op (abs s))))"
  proof (cases op)
    case (PGet k)
    obtain rg where g: "Get S clk k s = (rg, s')" "r = bind_res rg (\<lambda>x. Ret (AGet x))" using assms(4) PGet by (auto split: prod.splits)
    from point_get [OF assms(1) g(1) assms(3)] g(2) PGet show ?thesis by (cases rg) auto
  next
    case (PPut k rec)
    obtain rg where g: "Put S clk k rec s = (rg, s')" "r = bind_res rg (\<lambda>_. Ret AUnit)" using assms(4) PPut by (auto split: prod.splits)
    from point_put [OF assms(1) _ g(1)] assms(2) g(2) PPut show ?thesis by (cases rg) auto
  next
    case (PDelete k)
    obtain rg where g: "Delete S clk k s = (rg, s')" "r = bind_res rg (\<lambda>b. Ret (ADeleted b))" using assms(4) PDelete by (auto split: prod.splits)
    from point_delete [OF assms(1) g(1)] g(2) PDelete show ?thesis by (cases rg) auto
  next
    case (PUpdate k fn)
    obtain rg c where g: "Update S clk k fn s = ((rg, c), s')" "r = bind_res rg (\<lambda>_. Ret (AUpdated c))" using assms(4) PUpdate by (auto split: prod.splits)
    have ty: "\<forall>cur b nxt act c. fn cur b = (Ret (nxt, act), c) \<longrightarrow> is_i64 (ExpireAt nxt)" using assms(2) PUpdate by simp
    have later: "agree (clk (Suc 0)) X Y" if "agree (clk 0) X Y" for X Y using agree_later [OF that] assms(3) by simp
    from point_update [OF assms(1) ty g(1)] g(2) PUpdate show ?thesis
      by (cases rg) (auto simp: Let_def dest: later)
  next
    case (PMulti muts)
    obtain rg where g: "MultiWrite S clk muts s = (rg, s')" "r = bind_res rg (\<lambda>_. Ret AUnit)" using assms(4) PMulti by (auto split: prod.splits)
    from point_multi [OF assms(1) _ g(1)] assms(2) g(2) PMulti show ?thesis by (cases rg) auto
  qed
  then show "inv s'" "(\<forall>a. r = Ret a \<longrightarrow> fst (point_spec (clk 0) op (abs s)) = Ret a \<and> agree (clk 1) (abs s') (snd (point_spec (clk 0) op (abs s))))"
    "agree (clk 1) (abs s') (abs s) \<or> agree (clk 1) (abs s') (snd (point_spec (clk 0) op (abs s)))" by blast+
qed

lemma points_refine:
  "inv s \<Longrightarrow> agree t K (abs s) \<Longrightarrow> timed t ops \<Longrightarrow> \<forall>x\<in>set ops. op_typed (snd x) \<Longrightarrow> run_points S ops s = (rs, s') \<Longrightarrow>
    inv s' \<and> (\<exists>K'. explained K (zip ops rs) K' \<and> agree (end_time t ops) K' (abs s'))"
proof (induction ops arbitrary: s t K rs)
  case Nil
  then show ?case by (auto intro: explained_Nil)
next
  case (Cons x ops)
  obtain clk op where x: "x = (clk, op)" by (cases x)
  obtain r s1 where e: "point_exec S clk op s = (r, s1)" by fastforce
  obtain rs1 where rest: "run_points S ops s1 = (rs1, s')" "rs = r # rs1" using Cons.prems(5) x e by (auto split: prod.splits)
  have tm: "t \<le> clk 0" "clk 0 \<le> clk 1" "timed (clk 1) ops" and ty: "op_typed op" using Cons.prems(3,4) x by auto
  note st = point_step [OF Cons.prems(1) ty tm(2) e]
  note sp = agree_spec [OF Cons.prems(2) tm(1), of op]
  have later: "agree (clk 1) K1 K2" if "agree t K1 K2" for K1 K2 using agree_later [OF that] tm by simp
  obtain K1 where K1: "K1 = K \<or> K1 = snd (point_spec (clk 0) op K)" "agree (clk 1) K1 (abs s1)"
    "\<forall>a. r = Ret a \<longrightarrow> point_spec (clk 0) op K = (Ret a, K1)"
  proof (cases "\<exists>a. r = Ret a")
    case True
    then have "fst (point_spec (clk 0) op K) = r" "agree (clk 1) (snd (point_spec (clk 0) op K)) (abs s1)"
      using st(2) sp later agree_trans agree_sym by (metis, metis)
    then show ?thesis using that [of "snd (point_spec (clk 0) op K)"] by (metis prod.collapse)
  next
    case False
    from st(3) show ?thesis
    proof
      assume "agree (clk 1) (abs s1) (abs s)"
      then have "agree (clk 1) K (abs s1)" using later [OF Cons.prems(2)] agree_trans agree_sym by metis
      then show ?thesis using that [of K] False by blast
    next
      assume "agree (clk 1) (abs s1) (snd (point_spec (clk 0) op (abs s)))"
      then have "agree (clk 1) (snd (point_spec (clk 0) op K)) (abs s1)" using later [OF sp(2)] agree_trans agree_sym by metis
      then show ?thesis using that [of "snd (point_spec (clk 0) op K)"] False by blast
    qed
  qed
  from Cons.IH [OF st(1) K1(2) tm(3) _ rest(1)] Cons.prems(4) obtain K' where
    K': "inv s'" "explained K1 (zip ops rs1) K'" "agree (end_time (clk 1) ops) K' (abs s')" by auto
  have "explained K (zip (x # ops) rs) K'"
    using K1 K'(2) by (cases r) (auto simp: rest(2) x intro: explained_answer explained_error)
  with K' show ?case by (auto simp: x)
qed

end

section \<open>The laws of the LSM engine\<close>

lemma Db_write_view:
  assumes "db_ok crc db" "typed muts" "Db_write crc opts io muts db = (r, db')"
  shows "db_ok crc db' \<and> (tree_view crc db' = (\<lambda>k. orelse (map_of (rev muts) k) (tree_view crc db k))
    \<or> isl r \<and> tree_view crc db' = tree_view crc db)"
proof -
  obtain ra db1 where a: "write_apply crc io muts db = (ra, db1)" by fastforce
  note wa = write_apply_ok [OF assms(1,2) a]
  show ?thesis
  proof (cases "isl (check_healthy db) \<or> muts = [] \<or> needs_space opts db \<and> io_stopped io")
    case True
    then have "db' = db \<and> (muts = [] \<or> isl r)" using assms(3) by (auto simp: Db_write_def split: sum.splits if_splits)
    then show ?thesis using assms(1) by auto
  next
    case False
    note ok = False
    show ?thesis
    proof (cases ra)
      case (Inl e)
      with assms(3) ok a have "db' = db1 \<and> isl r" by (auto simp: Db_write_def split: sum.splits)
      then show ?thesis using wa Inl by (simp add: fun_eq_iff)
    next
      case (Inr seq)
      obtain rc db2 where c: "write_commit io seq db1 = (rc, db2)" by fastforce
      obtain rf db3 where f: "maybe_freeze crc opts io db2 = (rf, db3)" by fastforce
      have ok2: "db_ok crc db2" "tree_view crc db2 = tree_view crc db1" using write_commit_ok [OF c, of crc] wa(1) by simp_all
      have ok3: "db_ok crc db3 \<and> tree_view crc db3 = tree_view crc db2"
        using f ok2(1) freeze_ok [OF ok2(1)] by (auto simp: maybe_freeze_def split: if_splits)
      have "db' = db2 \<or> db' = db3" using assms(3) ok a Inr c f by (auto simp: Db_write_def split: sum.splits)
      with ok2 ok3 wa(2) Inr show ?thesis by (auto simp: fun_eq_iff)
    qed
  qed
qed

definition db_abs :: "checksum \<Rightarrow> Db \<Rightarrow> keyspace" where
  "db_abs crc db k = (case tree_view crc db k of Some (Entry_Put r) \<Rightarrow> Some r | _ \<Rightarrow> None)"

definition lsm_abs :: "lsm_env \<Rightarrow> lsm_store \<Rightarrow> keyspace" where
  "lsm_abs E s = db_abs (le_crc E) (ls_db s)"

definition lsm_ok :: "lsm_env \<Rightarrow> lsm_store \<Rightarrow> bool" where
  "lsm_ok E s \<longleftrightarrow> db_ok (le_crc E) (ls_db s)"

lemma live_db_abs: "live now (db_abs crc db) k = read_entry now (tree_view crc db k)"
  by (auto simp: live_def db_abs_def read_entry_def split: option.splits Entry.splits)

definition write_entry :: "mutation \<Rightarrow> keyspace \<Rightarrow> keyspace" where
  "write_entry m K = K(fst m := (case snd m of Entry_Put r \<Rightarrow> Some r | Entry_Delete \<Rightarrow> None))"

lemma db_abs_write:
  assumes "tree_view crc db' = (\<lambda>k. orelse (map_of (rev muts) k) (tree_view crc db k))"
  shows "db_abs crc db' = fold write_entry muts (db_abs crc db)"
proof -
  have "fold write_entry muts (\<lambda>k. case V k of Some (Entry_Put r) \<Rightarrow> Some r | _ \<Rightarrow> None)
      = (\<lambda>k. case orelse (map_of (rev muts) k) (V k) of Some (Entry_Put r) \<Rightarrow> Some r | _ \<Rightarrow> None)" for V :: "bytes \<Rightarrow> Entry option"
  proof (induction muts arbitrary: V)
    case (Cons m muts)
    obtain k e where m: "m = (k, e)" by (cases m)
    have "write_entry m (\<lambda>k. case V k of Some (Entry_Put r) \<Rightarrow> Some r | _ \<Rightarrow> None)
        = (\<lambda>k'. case (V(k \<mapsto> e)) k' of Some (Entry_Put r) \<Rightarrow> Some r | _ \<Rightarrow> None)"
      by (auto simp: write_entry_def m fun_eq_iff split: Entry.splits)
    then have "fold write_entry (m # muts) (\<lambda>k. case V k of Some (Entry_Put r) \<Rightarrow> Some r | _ \<Rightarrow> None)
        = (\<lambda>k'. case orelse (map_of (rev muts) k') ((V(k \<mapsto> e)) k') of Some (Entry_Put r) \<Rightarrow> Some r | _ \<Rightarrow> None)"
      using Cons.IH by simp
    moreover have "orelse (map_of (rev muts) k') ((V(k \<mapsto> e)) k') = orelse (map_of (rev (m # muts)) k') (V k')" for k'
      by (cases "map_of (rev muts) k'") (auto simp: m map_add_def)
    ultimately show ?case by simp
  qed simp
  then show ?thesis unfolding db_abs_def assms by (simp add: db_abs_def [abs_def])
qed

lemma Db_write_abs:
  assumes "db_ok crc db" "typed muts" "Db_write crc opts io muts db = (r, db')"
  shows "db_ok crc db'" "db_abs crc db' = fold write_entry muts (db_abs crc db) \<or> isl r \<and> db_abs crc db' = db_abs crc db"
  using Db_write_view [OF assms] db_abs_write [of crc db' muts db] by (auto simp: db_abs_def fun_eq_iff)

text \<open>A call over the network: what holds when the engine ran it, and nothing otherwise.\<close>

lemma rpc_cases:
  assumes "rpc E op f s = (r, s')"
  obtains (ran) x db where "f (ls_tick s) (ls_db s) = (Inr x, db)" "r = Ret x" "s' = s\<lparr>ls_db := db, ls_tick := ls_tick s + 1\<rparr>"
  | (unknown) e rb db where "f (ls_tick s) (ls_db s) = (rb, db)" "r = Fail e" "s' = s\<lparr>ls_db := db, ls_tick := ls_tick s + 1\<rparr>"
  | (lost) e where "r = Fail e" "s' = s\<lparr>ls_tick := ls_tick s + 1\<rparr>"
proof -
  obtain rb db where f: "f (ls_tick s) (ls_db s) = (rb, db)" by fastforce
  show ?thesis
    using assms f that by (cases "le_net E (ls_tick s)"; cases rb) (auto simp: rpc_def)
qed

lemma write_rpc:
  assumes "lsm_ok E s" "typed muts" "rpc E op f s = (r, s')"
    "f (ls_tick s) (ls_db s) = (case Db_write (le_crc E) opts io muts (ls_db s) of (r, db) \<Rightarrow> (h r, db))"
    "\<And>r. isl r \<Longrightarrow> isl (h r)"
  shows "lsm_ok E s' \<and> (lsm_abs E s' = fold write_entry muts (lsm_abs E s) \<or> (\<exists>e. r = Fail e) \<and> lsm_abs E s' = lsm_abs E s)
    \<and> ((\<exists>x. r = Ret x) \<or> (\<exists>e. r = Fail e))"
proof -
  obtain rw db where w: "Db_write (le_crc E) opts io muts (ls_db s) = (rw, db)" by fastforce
  have ok: "db_ok (le_crc E) (ls_db s)" using assms(1) by (simp add: lsm_ok_def)
  note a = Db_write_abs [OF ok assms(2) w]
  have f: "f (ls_tick s) (ls_db s) = (h rw, db)" using assms(4) w by simp
  from assms(3) show ?thesis
  proof (cases rule: rpc_cases)
    case (ran x db')
    then show ?thesis using f a assms(5) [of rw] by (auto simp: lsm_ok_def lsm_abs_def)
  next
    case (unknown e rb db')
    then show ?thesis using f a by (auto simp: lsm_ok_def lsm_abs_def)
  next
    case (lost e)
    then show ?thesis using ok by (auto simp: lsm_ok_def lsm_abs_def)
  qed
qed

lemma put_rpc:
  assumes "lsm_ok E s" "is_i64 (ExpireAt rec)" "rpc_put E op k rec s = (r, s')"
  shows "lsm_ok E s' \<and> (lsm_abs E s' = (lsm_abs E s)(k \<mapsto> rec) \<or> (\<exists>e. r = Fail e) \<and> lsm_abs E s' = lsm_abs E s)
    \<and> ((\<exists>x. r = Ret x) \<or> (\<exists>e. r = Fail e))"
proof -
  have rec: "\<lparr>Value = Value rec, ExpireAt = ExpireAt rec\<rparr> = rec" by (cases rec) simp
  have f: "svc_put (le_crc E) opts io k rec db = (case Db_write (le_crc E) opts io [(k, Entry_Put rec)] db of (r, db) \<Rightarrow> (blocking r, db))" for opts io db
    by (simp only: svc_put_def Db_put_def rec)
  have "lsm_ok E s' \<and> (lsm_abs E s' = fold write_entry [(k, Entry_Put rec)] (lsm_abs E s) \<or> (\<exists>e. r = Fail e) \<and> lsm_abs E s' = lsm_abs E s)
    \<and> ((\<exists>x. r = Ret x) \<or> (\<exists>e. r = Fail e))"
    by (rule write_rpc [OF assms(1) _ assms(3) [unfolded rpc_put_def], where h = blocking and opts = "le_opts E" and io = "le_io E (ls_tick s) 0"])
      (use assms(2) in \<open>auto simp: typed_def f blocking_def split: sum.splits\<close>)
  then show ?thesis by (simp add: write_entry_def)
qed

lemma delete_rpc:
  assumes "lsm_ok E s" "rpc_delete E op k now s = (r, s')"
  shows "lsm_ok E s' \<and> (lsm_abs E s' = (lsm_abs E s)(k := None) \<or> (\<exists>e. r = Fail e) \<and> lsm_abs E s' = lsm_abs E s)
    \<and> ((\<exists>x. r = Ret x) \<or> (\<exists>e. r = Fail e))"
    and "r = Ret (b, n) \<Longrightarrow> b = (live now (lsm_abs E s) k \<noteq> None)"
proof -
  let ?found = "read_entry now (tree_view (le_crc E) (ls_db s) k)"
  have ok: "db_ok (le_crc E) (ls_db s)" using assms(1) by (simp add: lsm_ok_def)
  let ?h = "\<lambda>r. case r of Inl e \<Rightarrow> Inl (to_status e) | Inr seq \<Rightarrow> Inr (?found \<noteq> None, seq)"
  have f: "svc_delete (le_crc E) opts io k now (ls_db s) =
      (case Db_write (le_crc E) opts io [(k, Entry_Delete)] (ls_db s) of (r, db) \<Rightarrow> (?h r, db))" for opts io
    by (auto simp: svc_delete_def get_view [OF ok] Db_delete_def split: prod.splits sum.splits)
  have "lsm_ok E s' \<and> (lsm_abs E s' = fold write_entry [(k, Entry_Delete)] (lsm_abs E s) \<or> (\<exists>e. r = Fail e) \<and> lsm_abs E s' = lsm_abs E s)
    \<and> ((\<exists>x. r = Ret x) \<or> (\<exists>e. r = Fail e))"
    by (rule write_rpc [OF assms(1) _ assms(2) [unfolded rpc_delete_def], where h = ?h and opts = "le_opts E" and io = "le_io E (ls_tick s) 0"])
      (auto simp: typed_def f split: sum.splits)
  then show "lsm_ok E s' \<and> (lsm_abs E s' = (lsm_abs E s)(k := None) \<or> (\<exists>e. r = Fail e) \<and> lsm_abs E s' = lsm_abs E s)
    \<and> ((\<exists>x. r = Ret x) \<or> (\<exists>e. r = Fail e))" by (simp add: write_entry_def)
  assume "r = Ret (b, n)"
  with assms(2) [unfolded rpc_delete_def] show "b = (live now (lsm_abs E s) k \<noteq> None)"
    by (cases rule: rpc_cases) (auto simp: f lsm_abs_def live_db_abs split: prod.splits sum.splits)
qed

lemma get_rpc:
  assumes "lsm_ok E s" "rpc_get E op k now s = (r, s')"
  shows "lsm_ok E s'" "lsm_abs E s' = lsm_abs E s" "r = Ret (live now (lsm_abs E s) k) \<or> (\<exists>e. r = Fail e)"
proof -
  have ok: "db_ok (le_crc E) (ls_db s)" using assms(1) by (simp add: lsm_ok_def)
  have f: "svc_get (le_crc E) k now (ls_db s) = (Inr (live now (lsm_abs E s) k), ls_db s)"
    by (simp add: svc_get_def get_view [OF ok] blocking_def lsm_abs_def live_db_abs)
  have "lsm_ok E s' \<and> lsm_abs E s' = lsm_abs E s \<and> (r = Ret (live now (lsm_abs E s) k) \<or> (\<exists>e. r = Fail e))"
    using assms(2) [unfolded rpc_get_def]
    by (cases rule: rpc_cases) (use f ok in \<open>auto simp: lsm_ok_def lsm_abs_def\<close>)
  then show "lsm_ok E s'" "lsm_abs E s' = lsm_abs E s" "r = Ret (live now (lsm_abs E s) k) \<or> (\<exists>e. r = Fail e)" by blast+
qed

lemma lsm_open_cases: "sbind lsm_open f s = (if ls_closed s then (Fail ErrClosed, s) else f () s)"
  by (simp add: sbind_def lsm_open_def)

lemma sbind_unit: "sbind m (\<lambda>x s. (Ret (g x), s)) s = (case m s of (Ret x, s) \<Rightarrow> (Ret (g x), s) | (Fail e, s) \<Rightarrow> (Fail e, s) | (Panic, s) \<Rightarrow> (Panic, s))"
  by (simp add: sbind_def split: prod.splits res.splits)

lemma putLocked_law:
  assumes "lsm_ok E s" "is_i64 (ExpireAt rec)" "lsm_putLocked E k rec s = (r, s')"
  shows "lsm_ok E s' \<and> (lsm_abs E s' = (lsm_abs E s)(k \<mapsto> rec) \<or> (\<exists>e. r = Fail e) \<and> lsm_abs E s' = lsm_abs E s) \<and> (r = Ret () \<or> (\<exists>e. r = Fail e))"
proof -
  obtain rp sp where p: "rpc_put E ''put'' k rec s = (rp, sp)" by fastforce
  from put_rpc [OF assms(1,2) p] assms(3) p show ?thesis by (cases rp) (auto simp: lsm_putLocked_def)
qed

lemma lsm_Update_law:
  assumes ok: "lsm_ok E s" and ty: "\<forall>cur b nxt act c. fn cur b = (Ret (nxt, act), c) \<longrightarrow> is_i64 (ExpireAt nxt)"
    and run: "lsm_Update E clk k fn s = ((r, c), s')"
    and cur_def: "cur = live (clk 0) (lsm_abs E s) k"
    and called_def: "called = fn (case cur of None \<Rightarrow> zero_record | Some x \<Rightarrow> x) (cur \<noteq> None)"
  shows "lsm_ok E s'"
    and "(\<exists>e. r = Fail e) \<and> c = None \<and> lsm_abs E s' = lsm_abs E s
      \<or> c = Some (snd called)
        \<and> (case fst called of
             Fail e \<Rightarrow> r = Fail e \<and> lsm_abs E s' = lsm_abs E s
           | Panic \<Rightarrow> r = Panic \<and> lsm_abs E s' = lsm_abs E s
           | Ret x \<Rightarrow> agree (clk 0) (lsm_abs E s') (update_result (lsm_abs E s) k (fst called))
               \<or> (\<exists>e. r = Fail e) \<and> lsm_abs E s' = lsm_abs E s)"
proof -
  let ?K = "lsm_abs E s"
  have "lsm_ok E s' \<and> ((\<exists>e. r = Fail e) \<and> c = None \<and> lsm_abs E s' = ?K
      \<or> c = Some (snd called)
        \<and> (case fst called of
             Fail e \<Rightarrow> r = Fail e \<and> lsm_abs E s' = ?K
           | Panic \<Rightarrow> r = Panic \<and> lsm_abs E s' = ?K
           | Ret x \<Rightarrow> agree (clk 0) (lsm_abs E s') (update_result ?K k (fst called)) \<or> (\<exists>e. r = Fail e) \<and> lsm_abs E s' = ?K))"
  proof (cases "ls_closed s")
    case True
    then show ?thesis using run ok by (auto simp: lsm_Update_def lsm_open_cases)
  next
    case False
    obtain rg s1 where g: "rpc_get E ''update read'' k (clk 0) s = (rg, s1)" by fastforce
    note gr = get_rpc [OF ok g]
    show ?thesis
    proof (cases rg)
      case (Ret x)
      with gr(3) have x: "x = cur" by (simp add: cur_def)
      obtain out cp where call: "called = (out, cp)" by (cases called)
      have run': "(case called of (Fail e, c) \<Rightarrow> ((Fail e, Some c), s1) | (Panic, c) \<Rightarrow> ((Panic, Some c), s1)
           | (Ret (nxt, act), c) \<Rightarrow>
               (case act of
                  ActionPut \<Rightarrow> (case lsm_putLocked E k nxt s1 of (r, s) \<Rightarrow> ((r, Some c), s))
                | ActionDelete \<Rightarrow>
                    if cur = None then ((Ret (), Some c), s1)
                    else (case sbind (rpc_delete E ''update delete'' k (clk 1)) (\<lambda>_ s. (Ret (), s)) s1 of (r, s) \<Rightarrow> ((r, Some c), s))
                | ActionNone \<Rightarrow> ((Ret (), Some c), s1))) = ((r, c), s')"
        using run False g Ret x unfolding lsm_Update_def lsm_open_cases called_def by simp
      show ?thesis
      proof (cases out)
        case (Ret na)
        obtain nxt act where na: "na = (nxt, act)" by (cases na)
        have nx: "is_i64 (ExpireAt nxt)" using ty call Ret na unfolding called_def by blast
        show ?thesis
        proof (cases act)
          case ActionPut
          obtain rp sp where p: "lsm_putLocked E k nxt s1 = (rp, sp)" by fastforce
          from putLocked_law [OF gr(1) nx p] run' p call Ret na ActionPut gr(2) show ?thesis
            by (auto simp: update_result_def)
        next
          case ActionDelete
          show ?thesis
          proof (cases "cur = None")
            case True
            then have "agree (clk 0) ?K (?K(k := None))" using agree_sym [OF agree_reclaim [of "clk 0" ?K k]] by (simp add: cur_def)
            with True run' call Ret na ActionDelete gr show ?thesis by (auto simp: update_result_def)
          next
            case False
            obtain rd sd where d: "rpc_delete E ''update delete'' k (clk 1) s1 = (rd, sd)" by fastforce
            from delete_rpc(1) [OF gr(1) d] run' d call Ret na ActionDelete False gr(2) show ?thesis
              by (cases rd) (auto simp: update_result_def)
          qed
        next
          case ActionNone
          with run' call Ret na gr show ?thesis by (auto simp: update_result_def)
        qed
      qed (use run' call gr in auto)
    next
      case (Fail e)
      then show ?thesis using run False g gr by (auto simp: lsm_Update_def lsm_open_cases)
    qed (use gr(3) in auto)
  qed
  then show "lsm_ok E s'" "(\<exists>e. r = Fail e) \<and> c = None \<and> lsm_abs E s' = lsm_abs E s
      \<or> c = Some (snd called)
        \<and> (case fst called of
             Fail e \<Rightarrow> r = Fail e \<and> lsm_abs E s' = lsm_abs E s
           | Panic \<Rightarrow> r = Panic \<and> lsm_abs E s' = lsm_abs E s
           | Ret x \<Rightarrow> agree (clk 0) (lsm_abs E s') (update_result (lsm_abs E s) k (fst called))
               \<or> (\<exists>e. r = Fail e) \<and> lsm_abs E s' = lsm_abs E s)" by blast+
qed

lemma fold_to_mutation: "fold write_entry (map to_mutation muts) K = fold apply_mutation muts K"
proof -
  have "write_entry (to_mutation mu) = apply_mutation mu" for mu
    by (auto simp: write_entry_def apply_mutation_def to_mutation_def fun_eq_iff)
  then show ?thesis by (induction muts arbitrary: K) simp_all
qed

lemma lsm_MultiWrite_law:
  assumes "lsm_ok E s" "\<forall>mu\<in>set muts. is_i64 (ExpireAt (MRecord mu))" "lsm_MultiWrite E clk muts s = (r, s')"
  shows "lsm_ok E s' \<and> (r = Ret () \<longrightarrow> lsm_abs E s' = fold apply_mutation muts (lsm_abs E s))
      \<and> (lsm_abs E s' = lsm_abs E s \<or> lsm_abs E s' = fold apply_mutation muts (lsm_abs E s))"
proof (cases "ls_closed s \<or> muts = []")
  case True
  then show ?thesis using assms(1,3) by (auto simp: lsm_MultiWrite_def lsm_open_cases split: if_splits)
next
  case False
  let ?f = "\<lambda>n. svc_batch_write (le_crc E) (le_opts E) (le_io E n 0) muts"
  obtain rb sb where b: "rpc E ''batch write'' ?f s = (rb, sb)" by fastforce
  have ty: "typed (map to_mutation muts)" using assms(2) by (auto simp: typed_def to_mutation_def)
  have "lsm_ok E sb \<and> (lsm_abs E sb = fold write_entry (map to_mutation muts) (lsm_abs E s) \<or> (\<exists>e. rb = Fail e) \<and> lsm_abs E sb = lsm_abs E s)
      \<and> ((\<exists>x. rb = Ret x) \<or> (\<exists>e. rb = Fail e))"
    by (rule write_rpc [OF assms(1) ty b, where h = blocking and opts = "le_opts E" and io = "le_io E (ls_tick s) 0"])
      (auto simp: svc_batch_write_def blocking_def split: sum.splits)
  then show ?thesis unfolding fold_to_mutation using assms(3) b False
    by (cases rb) (auto simp: lsm_MultiWrite_def lsm_open_cases)
qed

interpretation lsm: point_store "lsm_engine E" "lsm_ok E" "lsm_abs E" for E :: lsm_env
proof (unfold_locales, goal_cases)
  case (1 s clk k rg s')
  show ?case
  proof (cases "ls_closed s")
    case False
    with 1 get_rpc [OF 1(1), of "''get''" k "clk 0" rg s'] show ?thesis by (auto simp: lsm_engine_def lsm_Get_def lsm_open_cases)
  qed (use 1 in \<open>auto simp: lsm_engine_def lsm_Get_def lsm_open_cases\<close>)
next
  case (2 s rec clk k r s')
  show ?case
  proof (cases "ls_closed s")
    case False
    with 2 putLocked_law [OF 2(1,2), of k r s'] show ?thesis by (auto simp: lsm_engine_def lsm_Put_def lsm_open_cases)
  qed (use 2 in \<open>auto simp: lsm_engine_def lsm_Put_def lsm_open_cases\<close>)
next
  case (3 s clk k rb s')
  show ?case
  proof (cases "ls_closed s")
    case False
    obtain rd sd where d: "rpc_delete E ''delete'' k (clk 0) s = (rd, sd)" by fastforce
    show ?thesis using 3 delete_rpc [OF 3(1) d] d False
      by (cases rd) (auto simp: lsm_engine_def lsm_Delete_def lsm_open_cases)
  qed (use 3 in \<open>auto simp: lsm_engine_def lsm_Delete_def lsm_open_cases\<close>)
next
  case (4 s fn clk k r c s')
  let ?cur = "live (clk 0) (lsm_abs E s) k"
  let ?called = "fn (case ?cur of None \<Rightarrow> zero_record | Some x \<Rightarrow> x) (?cur \<noteq> None)"
  have run: "lsm_Update E clk k fn s = ((r, c), s')" using 4(3) by (simp add: lsm_engine_def)
  note l = lsm_Update_law [OF 4(1,2) run refl refl]
  have same: "update_result K k (Fail e) = K" "update_result K k Panic = K" for K e by (simp_all add: update_result_def)
  show ?case unfolding Let_def using l same by (cases "fst ?called") auto
next
  case (5 s muts clk r s')
  then show ?case using lsm_MultiWrite_law [OF 5(1,2), of clk r s'] by (simp add: lsm_engine_def)
qed


definition calm_lsm :: lsm_env where
  "calm_lsm = \<lparr>le_crc = crc0, le_opts = Options_default, le_net = (\<lambda>n. if n = 2 then ReplyLost Unavailable else Delivered),
     le_io = (\<lambda>_ _. db_calm 5), le_pages = (\<lambda>_. 1), le_counters = (\<lambda>_. \<lparr>ec_flushes = 0, ec_compactions = 0, ec_compaction_bytes_read = 0, ec_compaction_bytes_written = 0,
       ec_write_stalls = 0, ec_bloom_rejections = 0, ec_sstable_reads = 0, ec_wal_fsyncs = 0\<rparr>),
     le_time = int, le_hash = length, le_version = ''1''\<rparr>"

definition calm_store :: lsm_store where
  "calm_store = \<lparr>ls_db = first_db crc0 Options_default, ls_tick = 1, ls_cursors = Map.empty, ls_cursorN = 0, ls_lastFlush = 0, ls_closed = False\<rparr>"

lemma calm_open:
  "lsm_Open calm_lsm \<lparr>lo_Addr = ''a'', lo_Timeout = 0, lo_DialTimeout = 0, lo_MaxMessageBytes = 0\<rparr> (first_db crc0 Options_default) = Ret calm_store"
  by (simp add: lsm_Open_def lsm_withDefaults_def rpc_def svc_stats_def calm_lsm_def calm_store_def)


section \<open>The stripes\<close>

text \<open>
  Callers of the store as \<open>sync.Mutex\<close> sees them: the stripes a call holds and those it has still to
  lock, in order. A stripe is taken only when nobody holds it; a call that has all of its stripes ends and
  lets go of them.
\<close>

datatype caller = Waiting "nat list" "nat list" | Finished

fun caller_holds :: "caller \<Rightarrow> nat list" where
  "caller_holds (Waiting held todo) = held"
| "caller_holds Finished = []"

fun stripe_plan :: "lsm_env \<Rightarrow> point_op \<Rightarrow> nat list" where
  "stripe_plan E (PGet k) = []"
| "stripe_plan E (PPut k rec) = [lockFor E k]"
| "stripe_plan E (PDelete k) = [lockFor E k]"
| "stripe_plan E (PUpdate k fn) = [lockFor E k]"
| "stripe_plan E (PMulti muts) = stripe_order E muts"

definition callers :: "lsm_env \<Rightarrow> point_op list \<Rightarrow> caller list" where
  "callers E ops = map (\<lambda>op. Waiting [] (stripe_plan E op)) ops"

inductive stripe_step :: "caller list \<Rightarrow> caller list \<Rightarrow> bool" where
  stripe_lock: "j < length cs \<Longrightarrow> cs ! j = Waiting held (i # todo) \<Longrightarrow> \<forall>c\<in>set cs. i \<notin> set (caller_holds c) \<Longrightarrow>
    stripe_step cs (cs[j := Waiting (held @ [i]) todo])"
| stripe_release: "j < length cs \<Longrightarrow> cs ! j = Waiting held [] \<Longrightarrow> stripe_step cs (cs[j := Finished])"

inductive stripe_run :: "caller list \<Rightarrow> caller list \<Rightarrow> bool" where
  stripe_run_refl: "stripe_run cs cs"
| stripe_run_step: "stripe_run cs cs1 \<Longrightarrow> stripe_step cs1 cs2 \<Longrightarrow> stripe_run cs cs2"

lemma stripe_idx_distinct: "distinct idx \<Longrightarrow> distinct (stripe_idx E muts idx)"
  by (induction muts arbitrary: idx) (auto simp: Let_def)

lemma stripe_order_ascending: "sorted_wrt (<) (stripe_order E muts)"
  by (simp add: stripe_order_def sortInts_sort strict_sorted_iff stripe_idx_distinct)

lemma stripe_plan_ascending: "sorted_wrt (<) (stripe_plan E op)"
  by (cases op) (simp_all add: stripe_order_ascending)

fun climbing :: "caller \<Rightarrow> bool" where
  "climbing (Waiting held todo) = sorted_wrt (<) (held @ todo)"
| "climbing Finished = True"

lemma climbing_step: "stripe_step cs cs' \<Longrightarrow> list_all climbing cs \<Longrightarrow> list_all climbing cs' \<and> length cs' = length cs"
  by (induction rule: stripe_step.induct) (fastforce simp: list_all_length nth_list_update)+

lemma climbing_run: "stripe_run cs cs' \<Longrightarrow> list_all climbing cs \<Longrightarrow> list_all climbing cs' \<and> length cs' = length cs"
  by (induction rule: stripe_run.induct) (auto dest: climbing_step)

lemma climbing_callers: "list_all climbing (callers E ops)"
  by (simp add: callers_def list_all_iff stripe_plan_ascending)

text \<open>Whoever holds the highest stripe finds the next one of its plan free.\<close>

lemma somebody_moves:
  assumes "list_all climbing cs" "\<exists>c\<in>set cs. c \<noteq> Finished"
  shows "\<exists>cs'. stripe_step cs cs'"
proof (cases "\<exists>j held. j < length cs \<and> cs ! j = Waiting held []")
  case True
  then show ?thesis by (blast intro: stripe_release)
next
  case False
  let ?H = "\<Union>c\<in>set cs. set (caller_holds c)"
  have want: "\<exists>held i todo. cs ! j = Waiting held (i # todo)" if "j < length cs" "cs ! j \<noteq> Finished" for j
    using False that by (cases "cs ! j") (auto simp: neq_Nil_conv dest: spec)
  obtain j held i todo where j: "j < length cs" "cs ! j = Waiting held (i # todo)" "\<forall>h\<in>?H. h < i \<or> ?H = {}"
  proof (cases "?H = {}")
    case True
    from assms(2) obtain j where "j < length cs" "cs ! j \<noteq> Finished" by (auto simp: in_set_conv_nth)
    with want True that show ?thesis by blast
  next
    case nonempty: False
    have "finite ?H" by blast
    then have "Max ?H \<in> ?H" using nonempty Max_in by blast
    then obtain j where j: "j < length cs" "Max ?H \<in> set (caller_holds (cs ! j))" by (metis UN_E in_set_conv_nth)
    then have "cs ! j \<noteq> Finished" by auto
    with want j obtain held i todo where w: "cs ! j = Waiting held (i # todo)" by blast
    have "climbing (cs ! j)" using assms(1) j(1) by (simp add: list_all_length)
    then have "Max ?H < i" using w j(2) by (auto simp: sorted_wrt_append)
    then have "\<forall>h\<in>?H. h < i \<or> ?H = {}" using \<open>finite ?H\<close> by (meson Max_ge le_less_trans)
    with that j(1) w show ?thesis by blast
  qed
  from j(3) have "\<forall>c\<in>set cs. i \<notin> set (caller_holds c)" by blast
  from stripe_lock [OF j(1,2) this] show ?thesis by blast
qed

fun stripe_work :: "caller \<Rightarrow> nat" where
  "stripe_work (Waiting held todo) = Suc (length todo)"
| "stripe_work Finished = 0"

lemma stripe_step_work: "stripe_step cs cs' \<Longrightarrow> sum_list (map stripe_work cs') < sum_list (map stripe_work cs)"
proof (induction rule: stripe_step.induct)
  case (stripe_lock j cs held i todo)
  then show ?case using elem_le_sum_list [of j "map stripe_work cs"] by (simp add: map_update sum_list_update)
next
  case (stripe_release j cs held)
  then show ?case using elem_le_sum_list [of j "map stripe_work cs"] by (simp add: map_update sum_list_update)
qed

lemma all_finished: "\<not> (\<exists>c\<in>set cs. c \<noteq> Finished) \<Longrightarrow> cs = replicate (length cs) Finished"
  by (induction cs) auto

lemma stripe_run_trans: "stripe_run cs1 cs2 \<Longrightarrow> stripe_run cs cs1 \<Longrightarrow> stripe_run cs cs2"
  by (induction rule: stripe_run.induct) (auto intro: stripe_run_step)

lemma stripes_complete: "list_all climbing cs \<Longrightarrow> stripe_run cs (replicate (length cs) Finished)"
proof (induction "sum_list (map stripe_work cs)" arbitrary: cs rule: less_induct)
  case less
  show ?case
  proof (cases "\<exists>c\<in>set cs. c \<noteq> Finished")
    case True
    from somebody_moves [OF less.prems True] obtain cs' where st: "stripe_step cs cs'" by blast
    note c = climbing_step [OF st less.prems]
    from less.hyps [OF stripe_step_work [OF st]] c have "stripe_run cs' (replicate (length cs) Finished)" by simp
    then show ?thesis by (rule stripe_run_trans) (rule stripe_run_step [OF stripe_run_refl st])
  next
    case False
    from all_finished [OF this] show ?thesis by (metis stripe_run_refl)
  qed
qed



end
