(* ===== verification/Spec2Isabelle.thy ===== *)
theory Spec2Isabelle
  imports Glob Resp_Reply Persist Server_Durable Bench_Report Server_Main Metrics Lsm_Restart Lsm_Client
begin

text \<open>
  A verification development for the Redis-compatible server under \<open>src/\<close>: a Go server that speaks RESP,
  keeps its keyspace in memory with a write-ahead log and snapshots, and can keep it instead in a
  log-structured merge tree, a Rust process under \<open>src/engine\<close> that the server reaches over gRPC.

  \<^bold>\<open>The parts and how they meet.\<close> A connection's bytes are parsed into commands (\<open>internal/resp\<close>), the command
  loop of \<open>internal/server\<close> hands each command to \<open>Dispatch\<close> of \<open>internal/command\<close>, a handler calls the
  \<open>Store\<close> interface of \<open>internal/store\<close> and writes one reply into a buffered writer, and before the buffer
  goes to the socket the server flushes the log. Two engines implement \<open>Store\<close>: \<open>store/memory\<close>, which
  \<open>internal/persist\<close> joins to the log of \<open>internal/wal\<close> and the images of \<open>internal/snapshot\<close>, and the client
  \<open>store/lsm\<close> of the Rust engine. \<open>cmd/server\<close> assembles the parts from the configuration,
  \<open>internal/metrics\<close> reports on them and \<open>cmd/rfs-bench\<close> drives them from outside.

  \<^bold>\<open>How code becomes definitions.\<close> A byte is a \<open>char\<close> and a string or slice a list of them; \<open>int64\<close> and
  \<open>uint64\<close> are \<open>int\<close> and \<open>nat\<close> with the wrap-around written out (\<open>i64\<close>, \<open>u64\<close>), the words of hashes and
  bit tricks are machine words. A Go function that can fail returns \<open>'a res\<close>: a value, an error, or a panic.
  A Rust function returns \<open>lsm_error + 'a\<close>. Structs are records and interfaces records of operations;
  state is passed explicitly. Goroutines and threads are steps of inductive relations, one step for what
  runs under one lock or between two points where others can run. Maps whose iteration order matters take
  the order as an argument. What a system call, the network, a random draw or a clock answers is an input,
  so every theorem holds for every pattern of failures. Each file keeps the order and the names of its
  source; a suffix or prefix is added where two files use one name.

  \<^bold>\<open>The shared ground.\<close> \<open>Prelude\<close> holds the types, the result monad, the lemma collections and the general
  lemmas. \<open>GoStd\<close>, \<open>Go_Float\<close>, \<open>Bufio\<close> and \<open>Bufio_Writer\<close> model what the sources use of the Go library:
  \<open>strconv\<close>, \<open>encoding/binary\<close> with its varints, \<open>float64\<close> as rationals rounded to 53 bits, buffered readers
  and writers.

  \<^bold>\<open>The protocol.\<close> \<open>Resp_Writer\<close>, \<open>Resp_Reader\<close> and \<open>Resp_Reply\<close> are \<open>resp/writer.go\<close>, \<open>reader.go\<close> and
  \<open>reply.go\<close>; \<open>Resp_Stream\<close> shows that a command read from a connection does not depend on where packets
  end. Shown: commands and replies written are read back, the look-ahead never promises a command that
  would wait, arguments of a command are separate slices, the reply reader ends on every input.

  \<^bold>\<open>The store.\<close> \<open>Store\<close> is \<open>store/store.go\<close>; the locale \<open>store_contract\<close> states what a client may rely on, against
  a keyspace in which an expired record may be dropped at any time (\<open>agree\<close>). \<open>Memory\<close> is
  \<open>store/memory/memory.go\<close> and \<open>loader.go\<close> and interprets it; \<open>Mem_Journal\<close> proves, for every journal that keeps
  \<open>journal_contract\<close>, that the log and the shards describe one database and that indexes and counters are
  exact. Shown besides: atomic updates, batches equal to their replay, complete scans.

  \<^bold>\<open>Durability.\<close> \<open>Wal_Record\<close>, \<open>Wal_Replay\<close> and \<open>Wal_Log\<close> are \<open>wal/record.go\<close>, \<open>replay.go\<close> and \<open>log.go\<close>, \<open>Snapshot\<close>
  is \<open>snapshot/snapshot.go\<close>, \<open>Persist\<close> is \<open>persist/persist.go\<close> and interprets \<open>journal_contract\<close>. A file is its bytes and how
  many of them are durable; a power cut keeps the durable ones and any part of the rest, a kill
  keeps all that was written. Shown: which acknowledged writes survive a kill, a power cut and a shutdown
  over any number of lives; that recovery loses only a torn tail and refuses damage elsewhere; that
  images are installed atomically and load back; that trimming keeps what recovery needs.

  \<^bold>\<open>The commands.\<close> \<open>Glob\<close> (\<open>glob.go\<close>, with its denotation), \<open>Counters\<close> (\<open>stats/stats.go\<close>), \<open>Config\<close>
  (\<open>config/config.go\<close>), \<open>Cmd_Core\<close> (\<open>context.go\<close>, \<open>reply.go\<close>, \<open>errors.go\<close>), \<open>Cmd_String\<close>, \<open>Cmd_Generic\<close>, \<open>Cmd_Conn\<close>,
  \<open>Cmd_Server\<close> (the handlers of \<open>string.go\<close>, \<open>generic.go\<close>, \<open>connection.go\<close>, \<open>serverinfo.go\<close>), \<open>Cmd_Table\<close> and
  \<open>Cmd_Dispatch\<close> (\<open>table.go\<close>), \<open>Info\<close> (the sections of \<open>server/env.go\<close>). \<open>Cmd_Replies\<close> proves one well-formed
  reply per command over the locale \<open>quiet_env\<close>, \<open>Cmd_Auth\<close> that a client that has not authenticated
  touches nothing shared, \<open>Cmd_Keyspace\<close> the effect of commands on the keyspace over \<open>command_store\<close>, which
  extends \<open>store_contract\<close> and is interpreted by the memory engine journalling to the log.

  \<^bold>\<open>The server.\<close> \<open>Server\<close> is \<open>server/server.go\<close> as steps of its goroutines, with the locale \<open>server_invariant\<close> for
  what every step keeps. \<open>Server_Replies\<close> interprets it three times: replies in order and none held back
  from a waiting client, bounded connections and buffers. \<open>Server_Durable\<close> relates replies on the wire
  to the log. \<open>Server_Main\<close> is \<open>cmd/server/main.go\<close>, \<open>Metrics\<close> is \<open>metrics/metrics.go\<close>.

  \<^bold>\<open>The load generator.\<close> \<open>Bench_Histogram\<close>, \<open>Bench_Client\<close> and \<open>Bench_Report\<close> are \<open>bench/histogram.go\<close>, \<open>workload.go\<close>
  with \<open>runner.go\<close>, and \<open>report.go\<close> with \<open>cmd/rfs-bench/main.go\<close>: the error of a quantile, the accounting of
  concurrent workers, and \<open>INFO\<close> read back over the wire.

  \<^bold>\<open>The storage engine.\<close> \<open>Lsm_Types\<close> (\<open>error.rs\<close>, \<open>types.rs\<close>, \<open>coding.rs\<close>, \<open>memtable.rs\<close>), \<open>Lsm_Bloom\<close> (\<open>bloom.rs\<close>),
  \<open>Lsm_Table\<close> (\<open>sstable.rs\<close>), \<open>Lsm_Manifest\<close> (\<open>manifest.rs\<close>), \<open>Lsm_Wal\<close> (\<open>wal.rs\<close>) and \<open>Lsm_Db\<close> (\<open>db.rs\<close>) hold the
  definitions. \<open>Lsm_View\<close> defines what a tree holds (\<open>tree_view\<close>) and its invariant \<open>db_ok\<close>; \<open>Lsm_Compact\<close> shows
  that a compaction keeps the view up to entries nobody can see; \<open>Lsm_History\<close> puts writes, freezes,
  flushes, compactions and sweeps into histories and shows that a read returns the last write;
  \<open>Lsm_Scan\<close> gives the exact page of a scan and the case in which a page steps over a live key.
  \<open>Lsm_Restart\<close> shows that a restart brings back what the log holds, and that the next one does not.
  \<open>Lsm_Client\<close> is \<open>service.rs\<close> and \<open>store/lsm/lsm.go\<close>: the locale \<open>point_store\<close>, which \<open>store_contract\<close> implies, holds
  of the client over any network and disk, so its answers are those of one keyspace; and the
  stripes, as a step relation, never deadlock.

  \<^bold>\<open>Loops and bounds.\<close> Loops are recursive functions with a termination proof. The reply reader recurses
  on fuel; twice the bytes of the input and one more is shown to be enough. A \<open>KEYS\<close> walk is a partial
  function to \<open>option\<close>, defined because the scan it repeats ends. The engine's \<open>FLUSHALL\<close> takes the number of
  pages it goes through before its caller gives up, and the 1000 rounds of \<open>compact_until_idle\<close> are the
  bound in the code.

  \<^bold>\<open>Parameters.\<close> The checksum of the crate \<open>crc32fast\<close> (Go's CRC-32C is defined in \<open>GoStd\<close>), the seeded map hash, the
  formatting and parsing of floats outside the histogram, Unicode lower case, the Prometheus
  registry and gRPC are arguments; a theorem that needs a law of one has it as a hypothesis.

  \<^bold>\<open>Not modelled.\<close> Logging, flag and command-line parsing, signals and sockets, which only move values in
  and out; the generated code under \<open>internal/enginepb\<close>; the program \<open>rfs-engine\<close> around \<open>Db::open\<close> and \<open>Db::close\<close>; the
  test harness and scripts; the Go memory model below the locks. The engine's logs are kept across
  kills of the process only, and its block cache and counters, which decide no result, are left out.
\<close>

end
